(* ===== verification/Prelude.thy ===== *)
theory Prelude
  imports Main "HOL-Library.Word" "HOL-Library.Multiset"
begin

text \<open>
  Shared vocabulary of the development: the machine integer types of the C sources, the
  outcome type of code that can run into undefined behaviour, the lemma collections, and the
  generic facts on words, lists and float rounding that the component theories share.
\<close>

unbundle bit_operations_syntax

subsection \<open>Types\<close>

type_synonym u8 = "8 word"
type_synonym u16 = "16 word"
type_synonym u32 = "32 word"
type_synonym u64 = "64 word"

type_synonym bytes = "8 word list"

text \<open>
  Undefined behaviour the sources can reach: a dereference of \<^verbatim>\<open>NULL\<close>, an access
  outside the block a pointer belongs to, a shift by the width of its operand or more, an overflow
  of signed arithmetic, a read of a union member that is not the one written, a division by zero,
  and a \<^verbatim>\<open>free\<close> of an address that is not a block.
  \<open>'a res\<close> is the outcome of code that may do so.
\<close>

datatype ub = NullDeref | OutOfBounds | BadShift | SignedOverflow | WrongMember | DivisionByZero
  | BadFree

type_synonym 'a res = "ub + 'a"

definition res_bind :: "'a res \<Rightarrow> ('a \<Rightarrow> 'b res) \<Rightarrow> 'b res" where
  "res_bind r f = (case r of Inl e \<Rightarrow> Inl e | Inr x \<Rightarrow> f x)"

lemma res_bind_simps [simp]:
  "res_bind (Inr x) f = f x"
  "res_bind (Inl e) f = Inl e"
  by (simp_all add: res_bind_def)

lemma res_bind_Inr_iff:
  "res_bind r f = Inr y \<longleftrightarrow> (\<exists>x. r = Inr x \<and> f x = Inr y)"
  by (cases r) auto

text \<open>
  \<open>'a run\<close> is the outcome of code with loops that may not end: \<open>None\<close> when it does not
  return, and otherwise a result or undefined behaviour.
\<close>

type_synonym 'a run = "(ub + 'a) option"

definition run_bind :: "'a run \<Rightarrow> ('a \<Rightarrow> 'b run) \<Rightarrow> 'b run" where
  "run_bind r f = Option.bind r (\<lambda>x. case x of Inl e \<Rightarrow> Some (Inl e) | Inr y \<Rightarrow> f y)"

lemma run_bind_simps [simp]:
  "run_bind None f = None"
  "run_bind (Some (Inl e)) f = Some (Inl e)"
  "run_bind (Some (Inr x)) f = f x"
  by (simp_all add: run_bind_def)

lemma run_bind_Inr_iff:
  "run_bind r f = Some (Inr y) \<longleftrightarrow> (\<exists>x. r = Some (Inr x) \<and> f x = Some (Inr y))"
  by (cases r) (auto simp: run_bind_def split: sum.splits)

lemma run_bind_mono [partial_function_mono]:
  assumes "mono_option B" and "\<And>y. mono_option (\<lambda>f. C y f)"
  shows "mono_option (\<lambda>f. run_bind (B f) (\<lambda>y. C y f))"
  unfolding run_bind_def
proof (rule bind_mono [OF assms(1)])
  fix y
  show "mono_option (\<lambda>f. case y of Inl e \<Rightarrow> Some (Inl e) | Inr x \<Rightarrow> C x f)"
    by (cases y) (simp_all add: assms(2) option.const_mono)
qed

text \<open>Lemma collections: block accesses, header accesses, evaluation of table lookups.\<close>

named_theorems blk_simps \<open>reads and writes of memory blocks\<close>
named_theorems hdr_simps \<open>header field accesses\<close>

subsection \<open>Words\<close>

lemma unat_and_mask:
  fixes x :: "'a::len word"
  assumes "k < LENGTH('a)"
  shows "unat (x AND (2 ^ k - 1)) = unat x mod 2 ^ k"
proof -
  have "x AND (2 ^ k - 1) = take_bit k x"
    by (simp add: take_bit_eq_mask mask_eq_exp_minus_1)
  then show ?thesis
    by (simp only: unsigned_take_bit_eq) (simp add: take_bit_eq_mod)
qed

lemma unat_Suc_no_wrap:
  fixes x :: "'a::len word"
  assumes "Suc (unat x) < 2 ^ LENGTH('a)"
  shows "unat (x + 1) = Suc (unat x)"
  using assms by (metis Suc_eq_plus1 unat_1 unat_add_lem of_nat_1 unsigned_1)

lemma unat_add_no_wrap:
  fixes x y :: "'a::len word"
  assumes "unat x + unat y < 2 ^ LENGTH('a)"
  shows "unat (x + y) = unat x + unat y"
  using assms by (simp add: unat_add_lem [THEN iffD1])

lemma unat_mult_no_wrap:
  fixes x y :: "'a::len word"
  assumes "unat x * unat y < 2 ^ LENGTH('a)"
  shows "unat (x * y) = unat x * unat y"
  using assms by (simp add: unat_mult_lem [THEN iffD1])

lemma unat_power2:
  assumes "k < LENGTH('a)"
  shows "unat (2 ^ k :: 'a::len word) = 2 ^ k"
proof -
  have "unat (of_nat (2 ^ k) :: 'a word) = 2 ^ k"
    using assms by (simp only: unat_of_nat) (simp add: take_bit_nat_eq_self)
  then show ?thesis by simp
qed

lemma unat_ucast_up:
  fixes x :: "'a::len word"
  assumes "LENGTH('a) \<le> LENGTH('b::len)"
  shows "unat (ucast x :: 'b word) = unat x"
proof -
  have "unat x < 2 ^ LENGTH('a)" by (rule unsigned_less)
  also have "(2::nat) ^ LENGTH('a) \<le> 2 ^ LENGTH('b)" using assms by (intro power_increasing) auto
  finally show ?thesis by (simp add: unsigned_ucast_eq take_bit_nat_eq_self)
qed

lemma ucast_eq_of_unat:
  fixes x :: "'a::len word" and y :: "'b::len word"
  assumes "unat x = unat y"
  shows "ucast x = y"
proof -
  have "unat (ucast x :: 'b word) = take_bit LENGTH('b) (unat y)"
    using assms by (simp add: unsigned_ucast_eq)
  also have "\<dots> = unat y" by (intro take_bit_nat_eq_self unsigned_less)
  finally show ?thesis by (simp add: word_unat_eq_iff)
qed

subsection \<open>Float rounding of natural numbers\<close>

text \<open>
  \<open>flt_round p n\<close> is the integer \<open>n\<close> rounded to \<open>p\<close> significant bits, to nearest
  with ties to even: the value of the C conversion of an integer to \<^verbatim>\<open>float\<close>
  (\<open>p = 24\<close>) or \<^verbatim>\<open>double\<close> (\<open>p = 53\<close>), and the rounding of an exact product of
  two such values (rounding commutes with scaling by a power of two).
\<close>

fun bitlen :: "nat \<Rightarrow> nat" where
  "bitlen n = (if n = 0 then 0 else Suc (bitlen (n div 2)))"

declare bitlen.simps [simp del]

definition flt_round :: "nat \<Rightarrow> nat \<Rightarrow> nat" where
  "flt_round p n =
     (if bitlen n \<le> p then n
      else let e = bitlen n - p; q = n div 2 ^ e; r = n mod 2 ^ e
           in if 2 * r < 2 ^ e \<or> 2 * r = 2 ^ e \<and> even q then q * 2 ^ e else (q + 1) * 2 ^ e)"

lemma bitlen_0 [simp]: "bitlen 0 = 0"
  by (simp add: bitlen.simps)

lemma bitlen_bounds: "0 < n \<Longrightarrow> 2 ^ (bitlen n - 1) \<le> n \<and> n < 2 ^ bitlen n"
proof (induction n rule: bitlen.induct)
  case (1 n)
  show ?case
  proof (cases "n div 2 = 0")
    case True
    then have "n = 1" using "1.prems" by arith
    then show ?thesis by (simp add: bitlen.simps)
  next
    case False
    then have IH: "2 ^ (bitlen (n div 2) - 1) \<le> n div 2" "n div 2 < 2 ^ bitlen (n div 2)"
      using "1.IH" "1.prems" by auto
    have eq: "bitlen n = Suc (bitlen (n div 2))"
      using "1.prems" by (simp add: bitlen.simps [of n])
    have pos: "0 < bitlen (n div 2)"
      using False by (simp add: bitlen.simps [of "n div 2"])
    have "2 ^ bitlen (n div 2) \<le> n"
      using IH(1) pos by (cases "bitlen (n div 2)") auto
    moreover have "n < 2 * 2 ^ bitlen (n div 2)"
      using IH(2) by arith
    ultimately show ?thesis
      by (simp add: eq)
  qed
qed

lemma bitlen_less: "n < 2 ^ k \<Longrightarrow> bitlen n \<le> k"
proof (cases "n = 0")
  case False
  assume "n < 2 ^ k"
  with bitlen_bounds [of n] False have "(2::nat) ^ (bitlen n - 1) < 2 ^ k"
    by (meson le_less_trans neq0_conv)
  then show ?thesis by simp
qed simp

lemma bitlen_power2 [simp]: "bitlen (2 ^ k) = Suc k"
  by (induction k) (simp_all add: bitlen.simps)

lemma flt_round_exact: "n < 2 ^ p \<Longrightarrow> flt_round p n = n"
  by (simp add: flt_round_def bitlen_less)

text \<open>A power of two times a \<open>p\<close>-bit number is representable: nothing is rounded.\<close>

lemma bitlen_mult_power2: "0 < n \<Longrightarrow> bitlen (n * 2 ^ k) = bitlen n + k"
proof (induction k)
  case (Suc k)
  have "bitlen (n * 2 ^ Suc k) = Suc (bitlen (n * 2 ^ k))"
    using Suc.prems by (simp add: bitlen.simps [of "n * (2 * 2 ^ k)"])
  then show ?case using Suc by simp
qed simp

lemma flt_round_scaled:
  assumes "n < 2 ^ p"
  shows "flt_round p (n * 2 ^ k) = n * 2 ^ k"
proof (cases "n = 0 \<or> bitlen n + k \<le> p")
  case True
  then show ?thesis
    by (cases "n = 0") (auto simp: flt_round_def bitlen_mult_power2)
next
  case False
  then have n: "0 < n" and gt: "p < bitlen n + k" by auto
  define e where "e = bitlen n + k - p"
  have ek: "e \<le> k" using bitlen_less [OF assms] by (simp add: e_def)
  then have "2 ^ e dvd n * 2 ^ k"
    by (simp add: le_imp_power_dvd)
  then have "n * 2 ^ k mod 2 ^ e = 0" "n * 2 ^ k div 2 ^ e * 2 ^ e = n * 2 ^ k"
    by auto
  then show ?thesis
    using gt by (simp add: flt_round_def bitlen_mult_power2 [OF n] Let_def flip: e_def)
qed

lemma flt_round_power2: "0 < p \<Longrightarrow> flt_round p (2 ^ k) = 2 ^ k"
  using flt_round_scaled [of 1 p k] one_less_power [of "2::nat" p] by simp

text \<open>Rounding to \<open>p\<close> bits changes a number by at most a factor of about \<open>2 ^ - p\<close>.\<close>

lemma flt_round_bounds:
  assumes "0 < p"
  shows "n * 2 ^ (p - 1) \<le> flt_round p n * (2 ^ (p - 1) + 1)" "flt_round p n \<le> 2 * n"
proof -
  have *: "n * 2 ^ (p - 1) \<le> flt_round p n * (2 ^ (p - 1) + 1) \<and> flt_round p n \<le> 2 * n"
  proof (cases "bitlen n \<le> p")
    case True
    then show ?thesis by (simp add: flt_round_def)
  next
    case False
    define e q r where "e = bitlen n - p" and "q = n div 2 ^ e" and "r = n mod 2 ^ e"
    have n: "n = q * 2 ^ e + r" "r < 2 ^ e" by (simp_all only: q_def r_def div_mult_mod_eq) simp
    have "0 < n" using False by (cases n) auto
    then have "2 ^ (bitlen n - 1) \<le> n" using bitlen_bounds by simp
    moreover have "bitlen n - 1 = (p - 1) + e" using False assms by (simp add: e_def)
    ultimately have "2 ^ (p - 1) * 2 ^ e \<le> n" by (simp add: power_add)
    then have q: "2 ^ (p - 1) \<le> q" unfolding q_def by (simp add: less_eq_div_iff_mult_less_eq)
    have fl: "q * 2 ^ e \<le> flt_round p n \<and> flt_round p n \<le> (q + 1) * 2 ^ e"
      using False by (simp add: flt_round_def Let_def e_def q_def)
    have "n * 2 ^ (p - 1) \<le> (q * 2 ^ e + 2 ^ e) * 2 ^ (p - 1)" using n by (intro mult_le_mono) auto
    also have "\<dots> = q * 2 ^ e * 2 ^ (p - 1) + 2 ^ (p - 1) * 2 ^ e" by (simp add: algebra_simps)
    also have "\<dots> \<le> q * 2 ^ e * 2 ^ (p - 1) + q * 2 ^ e" using q by simp
    also have "\<dots> = q * 2 ^ e * (2 ^ (p - 1) + 1)" by (simp add: algebra_simps)
    also have "\<dots> \<le> flt_round p n * (2 ^ (p - 1) + 1)" using fl by (intro mult_le_mono) auto
    finally have "n * 2 ^ (p - 1) \<le> flt_round p n * (2 ^ (p - 1) + 1)" .
    moreover have "1 \<le> q" using q one_le_power [of "2 :: nat" "p - 1"] by linarith
    then have "(q + 1) * 2 ^ e \<le> 2 * (q * 2 ^ e)" by simp
    then have "flt_round p n \<le> 2 * n" using fl n(1) by linarith
    ultimately show ?thesis by simp
  qed
  show "n * 2 ^ (p - 1) \<le> flt_round p n * (2 ^ (p - 1) + 1)" "flt_round p n \<le> 2 * n" using * by auto
qed

end
