(* ===== verification/CMem.thy ===== *)
theory CMem
  imports Prelude
begin

text \<open>
  Memory blocks of the C heap as byte lists, with the standard library functions the sources
  use on them: \<^verbatim>\<open>malloc\<close>, \<^verbatim>\<open>calloc\<close>, \<^verbatim>\<open>realloc\<close>, \<^verbatim>\<open>memcpy\<close>,
  \<^verbatim>\<open>memmove\<close>, \<^verbatim>\<open>memcmp\<close>. An access outside the block is the value
  \<open>Inl OutOfBounds\<close>. The contents of fresh memory are an argument \<open>junk\<close> (the byte the
  allocator leaves at each offset), so that a theorem holds for whatever is there.
\<close>

definition malloc_blk :: "(nat \<Rightarrow> u8) \<Rightarrow> nat \<Rightarrow> bytes" where
  "malloc_blk junk n = map junk [0..<n]"

definition calloc_blk :: "nat \<Rightarrow> bytes" where
  "calloc_blk n = replicate n 0"

definition realloc_blk :: "(nat \<Rightarrow> u8) \<Rightarrow> bytes \<Rightarrow> nat \<Rightarrow> bytes" where
  "realloc_blk junk blk n = take n blk @ map junk [length blk..<n]"

definition blk_read :: "bytes \<Rightarrow> nat \<Rightarrow> nat \<Rightarrow> bytes res" where
  "blk_read blk off n = (if off + n \<le> length blk then Inr (take n (drop off blk)) else Inl OutOfBounds)"

definition blk_write :: "bytes \<Rightarrow> nat \<Rightarrow> bytes \<Rightarrow> bytes res" where
  "blk_write blk off bs =
     (if off + length bs \<le> length blk
      then Inr (take off blk @ bs @ drop (off + length bs) blk) else Inl OutOfBounds)"

definition blk_move :: "bytes \<Rightarrow> nat \<Rightarrow> nat \<Rightarrow> nat \<Rightarrow> bytes res" where
  "blk_move blk dst src n = res_bind (blk_read blk src n) (blk_write blk dst)"

text \<open>\<^verbatim>\<open>memcmp(a, b, n) == 0\<close>, on blocks of at least \<open>n\<close> bytes.\<close>

definition memcmp_eq :: "bytes \<Rightarrow> bytes \<Rightarrow> nat \<Rightarrow> bool" where
  "memcmp_eq a b n \<longleftrightarrow> take n a = take n b"

lemma length_malloc_blk [simp]: "length (malloc_blk junk n) = n"
  by (simp add: malloc_blk_def)

lemma length_calloc_blk [simp]: "length (calloc_blk n) = n"
  by (simp add: calloc_blk_def)

lemma length_realloc_blk [simp]: "length (realloc_blk junk blk n) = n"
  by (simp add: realloc_blk_def)

lemma take_realloc_blk: "k \<le> length blk \<Longrightarrow> k \<le> n \<Longrightarrow> take k (realloc_blk junk blk n) = take k blk"
  by (simp add: realloc_blk_def min_def)

lemma blk_read_realloc [blk_simps]:
  assumes "off + k \<le> length blk" "off + k \<le> n"
  shows "blk_read (realloc_blk junk blk n) off k = blk_read blk off k"
proof -
  have "take k (drop off (realloc_blk junk blk n)) = drop off (take (off + k) (realloc_blk junk blk n))"
    by (simp add: drop_take)
  also have "\<dots> = take k (drop off blk)"
    using assms by (simp add: take_realloc_blk drop_take)
  finally show ?thesis using assms by (simp add: blk_read_def)
qed

lemma blk_write_length: "blk_write blk off bs = Inr blk' \<Longrightarrow> length blk' = length blk"
  by (auto simp: blk_write_def split: if_splits)

lemma blk_write_ok: "off + length bs \<le> length blk \<Longrightarrow> \<exists>blk'. blk_write blk off bs = Inr blk'"
  by (simp add: blk_write_def)

text \<open>Reading back what was written, and reading beside it.\<close>

lemma blk_read_write_same [blk_simps]:
  "blk_write blk off bs = Inr blk' \<Longrightarrow> n = length bs \<Longrightarrow> blk_read blk' off n = Inr bs"
  by (auto simp: blk_write_def blk_read_def split: if_splits)

lemma blk_read_write_other [blk_simps]:
  assumes w: "blk_write blk off bs = Inr blk'"
    and sep: "off' + n \<le> off \<or> off + length bs \<le> off'"
  shows "blk_read blk' off' n = blk_read blk off' n"
proof -
  have blk': "blk' = take off blk @ bs @ drop (off + length bs) blk"
    and fits: "off + length bs \<le> length blk"
    using w by (auto simp: blk_write_def split: if_splits)
  have len: "length blk' = length blk" using blk_write_length [OF w] .
  show ?thesis
  proof (cases "off' + n \<le> length blk")
    case True
    have "take n (drop off' blk') = take n (drop off' blk)"
    proof (rule nth_equalityI)
      show "length (take n (drop off' blk')) = length (take n (drop off' blk))"
        by (simp add: len)
    next
      fix i assume "i < length (take n (drop off' blk'))"
      then have i: "i < n" "off' + i < length blk" using True len by auto
      have "blk' ! (off' + i) = blk ! (off' + i)"
        using sep i fits by (auto simp: blk' nth_append min_def)
      then show "take n (drop off' blk') ! i = take n (drop off' blk) ! i"
        using i len by simp
    qed
    then show ?thesis using True len by (simp add: blk_read_def)
  qed (simp add: blk_read_def len)
qed

lemma blk_move_ok:
  assumes "src + n \<le> length blk" "dst + n \<le> length blk"
  shows "blk_move blk dst src n = blk_write blk dst (take n (drop src blk))"
  using assms by (simp add: blk_move_def blk_read_def)

subsection \<open>Little-endian encoding of 64-bit words\<close>

text \<open>\<^verbatim>\<open>size_t\<close> values stored in a block, on the little-endian targets of the library.\<close>

definition u64_bytes :: "u64 \<Rightarrow> bytes" where
  "u64_bytes w = map (\<lambda>i. ucast (drop_bit (8 * i) w)) [0..<8]"

definition bytes_u64 :: "bytes \<Rightarrow> u64" where
  "bytes_u64 bs = foldr (\<lambda>b acc. ucast b OR push_bit 8 acc) bs 0"

lemma length_u64_bytes [simp]: "length (u64_bytes w) = 8"
  by (simp add: u64_bytes_def)

lemma bytes_u64_cons: "bytes_u64 (b # bs) = ucast b OR push_bit 8 (bytes_u64 bs)"
  by (simp add: bytes_u64_def)

lemma ucast_or_push_drop:
  "(ucast (ucast (drop_bit k w) :: u8) :: u64) OR push_bit 8 (drop_bit (k + 8) w) = drop_bit k w"
proof (rule bit_word_eqI)
  fix n assume "n < LENGTH(64)"
  then show "bit ((ucast (ucast (drop_bit k w) :: u8) :: u64) OR push_bit 8 (drop_bit (k + 8) w)) n
      = bit (drop_bit k w) n"
    by (cases "n < 8") (simp_all add: bit_simps)
qed

lemma bytes_u64_drop_bits:
  "k \<le> 8 \<Longrightarrow> bytes_u64 (map (\<lambda>i. ucast (drop_bit (8 * i) w)) [k..<8]) = drop_bit (8 * k) w"
proof (induction k rule: inc_induct)
  case base
  then show ?case
    by (simp add: bytes_u64_def bit_eq_iff bit_simps)
next
  case (step k)
  then show ?case
    using ucast_or_push_drop [of "8 * k" w] by (simp add: upt_conv_Cons bytes_u64_cons add.commute)
qed

lemma bytes_u64_u64_bytes [simp]: "bytes_u64 (u64_bytes w) = w"
  using bytes_u64_drop_bits [of 0 w] by (simp add: u64_bytes_def)

subsection \<open>Reading and writing in the middle of a block\<close>

lemma blk_read_mid [blk_simps]:
  "off = length a \<Longrightarrow> n = length b \<Longrightarrow> blk_read (a @ b @ c) off n = Inr b"
  by (simp add: blk_read_def)

lemma blk_write_mid [blk_simps]:
  "off = length a \<Longrightarrow> length bs = length b \<Longrightarrow> blk_write (a @ b @ c) off bs = Inr (a @ bs @ c)"
  by (simp add: blk_write_def)

text \<open>A block split at two offsets.\<close>

lemma blk_split:
  assumes "off + n \<le> length blk"
  obtains a b c where "blk = a @ b @ c" "length a = off" "length b = n"
proof
  show "blk = take off blk @ take n (drop off blk) @ drop (off + n) blk"
    by (metis append_take_drop_id drop_drop add.commute)
qed (use assms in auto)

text \<open>Headers of \<^verbatim>\<open>size_t\<close> fields at the start of a block.\<close>

definition hdr_get :: "bytes \<Rightarrow> nat \<Rightarrow> nat res" where
  "hdr_get blk k = res_bind (blk_read blk (8 * k) 8) (\<lambda>bs. Inr (unat (bytes_u64 bs)))"

definition hdr_set :: "bytes \<Rightarrow> nat \<Rightarrow> nat \<Rightarrow> bytes res" where
  "hdr_set blk k n = blk_write blk (8 * k) (u64_bytes (of_nat n))"

lemma unat_of_nat_u64: "n < 2 ^ 64 \<Longrightarrow> unat (of_nat n :: u64) = n"
  by (simp add: unat_of_nat take_bit_nat_eq_self)

lemma hdr_get_mid [hdr_simps]:
  "length a = 8 * k \<Longrightarrow> n < 2 ^ 64 \<Longrightarrow> hdr_get (a @ u64_bytes (of_nat n) @ c) k = Inr n"
  by (simp add: hdr_get_def blk_read_mid unat_of_nat_u64)

lemma hdr_set_mid [hdr_simps]:
  "length a = 8 * k \<Longrightarrow> length b = 8 \<Longrightarrow> hdr_set (a @ b @ c) k n = Inr (a @ u64_bytes (of_nat n) @ c)"
  by (simp add: hdr_set_def blk_write_mid)

end
