(* ===== verification/Bits.thy ===== *)
theory Bits
  imports Prelude
begin

text \<open>
  The bit tricks of \<^verbatim>\<open>include/libromano/bit.h\<close> and the byte swap of
  \<^verbatim>\<open>include/libromano/memory.h\<close>, at the width of their C types, with their arithmetic
  meaning: the smearing functions \<open>round_u32_to_next_pow2\<close> and
  \<open>round_u64_to_next_pow2\<close>, branch-free absolute values, lowest set bit.
\<close>

subsection \<open>Definitions\<close>

text \<open>
  \<^verbatim>\<open>return x++\<close> returns the value before the increment, so both rounding functions
  return one less than the power of two.
\<close>

definition round_u32_to_next_pow2 :: "u32 \<Rightarrow> u32" where
  "round_u32_to_next_pow2 x0 =
     (let x = x0 - 1;
          x = x OR drop_bit 1 x;
          x = x OR drop_bit 2 x;
          x = x OR drop_bit 4 x;
          x = x OR drop_bit 8 x;
          x = x OR drop_bit 16 x
      in x)"

definition round_u64_to_next_pow2 :: "u64 \<Rightarrow> u64" where
  "round_u64_to_next_pow2 x0 =
     (let x = x0 - 1;
          x = x OR drop_bit 1 x;
          x = x OR drop_bit 2 x;
          x = x OR drop_bit 4 x;
          x = x OR drop_bit 8 x;
          x = x OR drop_bit 16 x;
          x = x OR drop_bit 32 x
      in x)"

text \<open>The right shift of a negative signed integer is arithmetic on the supported compilers.\<close>

definition abs_u8 :: "u8 \<Rightarrow> u8" where
  "abs_u8 x = (let mask = signed_drop_bit 7 x in (mask XOR x) - mask)"

definition abs_i16 :: "u16 \<Rightarrow> u16" where
  "abs_i16 x = (let mask = signed_drop_bit 15 x in (mask XOR x) - mask)"

definition abs_i32 :: "u32 \<Rightarrow> u32" where
  "abs_i32 x = (let mask = signed_drop_bit 31 x in (mask XOR x) - mask)"

definition abs_i64 :: "u64 \<Rightarrow> u64" where
  "abs_i64 x = (let mask = signed_drop_bit 63 x in (mask XOR x) - mask)"

definition lsb_u64 :: "u64 \<Rightarrow> u64" where
  "lsb_u64 x = x AND - x"

definition clsb_u64 :: "u64 \<Rightarrow> u64" where
  "clsb_u64 x = x AND (x - 1)"

definition mem_bswapu32 :: "u32 \<Rightarrow> u32" where
  "mem_bswapu32 x =
     push_bit 24 (take_bit 8 x) OR push_bit 16 (take_bit 8 (drop_bit 8 x))
       OR push_bit 8 (take_bit 8 (drop_bit 16 x)) OR take_bit 8 (drop_bit 24 x)"

subsection \<open>Smearing\<close>

text \<open>\<open>y\<close> is \<open>x\<close> with every set bit copied to the \<open>s - 1\<close> positions below it.\<close>

definition smeared :: "nat \<Rightarrow> 'a::len word \<Rightarrow> 'a word \<Rightarrow> bool" where
  "smeared s x y \<longleftrightarrow> (\<forall>i. bit y i \<longleftrightarrow> (\<exists>j. i \<le> j \<and> j < i + s \<and> bit x j))"

lemma smeared_refl: "smeared 1 x x"
  by (auto simp: smeared_def less_Suc_eq_le dest: le_antisym)

lemma smeared_step:
  assumes "smeared s x y" and "t = s + s"
  shows "smeared t x (y OR drop_bit s y)"
  unfolding smeared_def \<open>t = s + s\<close>
proof
  fix i
  have "bit (y OR drop_bit s y) i \<longleftrightarrow> bit y i \<or> bit y (i + s)"
    by (simp add: bit_simps add.commute)
  also have "\<dots> \<longleftrightarrow> (\<exists>j. i \<le> j \<and> j < i + s \<and> bit x j) \<or> (\<exists>j. i + s \<le> j \<and> j < i + s + s \<and> bit x j)"
    using assms(1) unfolding smeared_def by blast
  also have "\<dots> \<longleftrightarrow> (\<exists>j. i \<le> j \<and> j < i + (s + s) \<and> bit x j)"
  proof -
    have "i \<le> j \<and> j < i + (s + s) \<longleftrightarrow> (i \<le> j \<and> j < i + s) \<or> (i + s \<le> j \<and> j < i + s + s)" for j
      by arith
    then show ?thesis by blast
  qed
  finally show "bit (y OR drop_bit s y) i \<longleftrightarrow> (\<exists>j. i \<le> j \<and> j < i + (s + s) \<and> bit x j)" .
qed

lemma le_unat_iff_bit: "2 ^ i \<le> unat x \<longleftrightarrow> (\<exists>j\<ge>i. bit x j)" for x :: "'a::len word"
proof
  assume le: "2 ^ i \<le> unat x"
  show "\<exists>j\<ge>i. bit x j"
  proof (rule ccontr)
    assume "\<not> ?thesis"
    then have none: "\<not> bit x j" if "i \<le> j" for j using that by blast
    then have "bit x j \<longleftrightarrow> bit (take_bit i x) j" for j
      by (cases "i \<le> j") (simp_all add: bit_simps)
    then have "x = take_bit i x" by (simp add: bit_eq_iff)
    then have "unat x = unat x mod 2 ^ i"
      by (metis take_bit_eq_mod unsigned_take_bit_eq)
    then have "unat x < 2 ^ i"
      by (metis mod_less_divisor zero_less_numeral zero_less_power)
    with le show False by simp
  qed
next
  assume "\<exists>j\<ge>i. bit x j"
  then obtain j where "i \<le> j" "bit (unat x) j" by (auto simp: bit_simps)
  then have "2 ^ j \<le> unat x"
    by (metis bit_nat_iff bit_take_bit_iff linorder_not_less order_less_irrefl take_bit_nat_eq_self)
  with \<open>i \<le> j\<close> show "2 ^ i \<le> unat x"
    by (meson le_trans one_le_numeral power_increasing)
qed

lemma less_bitlen_iff: "i < bitlen n \<longleftrightarrow> 2 ^ i \<le> n"
proof (cases "n = 0")
  case False
  then have b: "2 ^ (bitlen n - 1) \<le> n" "n < 2 ^ bitlen n" and pos: "0 < bitlen n"
    using bitlen_bounds [of n] by (auto simp: bitlen.simps [of n])
  show ?thesis
  proof
    assume "i < bitlen n"
    then have "(2::nat) ^ i \<le> 2 ^ (bitlen n - 1)" by (intro power_increasing) auto
    with b(1) show "2 ^ i \<le> n" by (rule le_trans [rotated])
  next
    assume "2 ^ i \<le> n"
    then have "(2::nat) ^ i < 2 ^ bitlen n" using b(2) by (rule le_less_trans)
    then show "i < bitlen n" by simp
  qed
qed simp

lemma smeared_full:
  fixes x y :: "'a::len word"
  assumes "smeared LENGTH('a) x y"
  shows "unat y = 2 ^ bitlen (unat x) - 1"
proof -
  have len: "bitlen (unat x) \<le> LENGTH('a)"
    by (rule bitlen_less) simp
  have "bit y i \<longleftrightarrow> bit (mask (bitlen (unat x)) :: 'a word) i" for i
  proof -
    have "bit y i \<longleftrightarrow> (\<exists>j\<ge>i. bit x j)"
      using assms unfolding smeared_def
      by (metis bit_imp_le_length linorder_not_less trans_less_add2)
    also have "\<dots> \<longleftrightarrow> i < bitlen (unat x)"
      by (simp add: less_bitlen_iff le_unat_iff_bit)
    also have "\<dots> \<longleftrightarrow> bit (mask (bitlen (unat x)) :: 'a word) i"
      using len by (auto simp: bit_simps)
    finally show ?thesis .
  qed
  then have "y = mask (bitlen (unat x))" by (simp add: bit_eq_iff)
  then have "unat y = nat (mask (bitlen (unat x)))"
    using len by (simp add: unat_eq_nat_uint uint_mask_eq min_absorb2 del: nat_uint_eq)
  then show ?thesis
    by (simp add: mask_eq_exp_minus_1 nat_diff_distrib nat_power_eq)
qed

lemma round_u64_unat: "unat (round_u64_to_next_pow2 x) = 2 ^ bitlen (unat (x - 1)) - 1"
proof -
  have "smeared 64 (x - 1) (round_u64_to_next_pow2 x)"
    unfolding round_u64_to_next_pow2_def Let_def
    by (intro smeared_step [where s = 32] smeared_step [where s = 16] smeared_step [where s = 8]
        smeared_step [where s = 4] smeared_step [where s = 2] smeared_step [where s = 1]
        smeared_refl) simp_all
  then show ?thesis using smeared_full [of "x - 1" "round_u64_to_next_pow2 x"] by simp
qed

lemma round_u32_unat: "unat (round_u32_to_next_pow2 x) = 2 ^ bitlen (unat (x - 1)) - 1"
proof -
  have "smeared 32 (x - 1) (round_u32_to_next_pow2 x)"
    unfolding round_u32_to_next_pow2_def Let_def
    by (intro smeared_step [where s = 16] smeared_step [where s = 8]
        smeared_step [where s = 4] smeared_step [where s = 2] smeared_step [where s = 1]
        smeared_refl) simp_all
  then show ?thesis using smeared_full [of "x - 1" "round_u32_to_next_pow2 x"] by simp
qed

text \<open>The use the hash map makes of it: the capacity above a power of two is its double.\<close>

lemma round_u64_double:
  assumes "k < 63"
  shows "round_u64_to_next_pow2 (2 ^ k + 1) + 1 = 2 ^ Suc k"
proof -
  have "unat (round_u64_to_next_pow2 (2 ^ k + 1)) = 2 ^ Suc k - 1"
    using assms unat_power2 [of k, where 'a = 64] by (simp add: round_u64_unat)
  then have "unat (round_u64_to_next_pow2 (2 ^ k + 1) + 1) = 2 ^ Suc k"
    using assms power_strict_increasing [of "Suc k" 64 "2::nat"]
    by (subst unat_Suc_no_wrap) simp_all
  then show ?thesis
    using assms unat_power2 [of "Suc k", where 'a = 64] by (simp add: word_unat_eq_iff)
qed

subsection \<open>Absolute value, lowest bit, byte swap\<close>

lemma signed_drop_bit_sign:
  "signed_drop_bit (LENGTH('a) - 1) x = (if bit x (LENGTH('a) - 1) then - 1 else 0)"
  for x :: "'a::len word"
proof (rule bit_word_eqI)
  fix n assume "n < LENGTH('a)"
  then show "bit (signed_drop_bit (LENGTH('a) - 1) x) n
      = bit (if bit x (LENGTH('a) - 1) then - 1 else 0 :: 'a word) n"
    by (cases n) (auto simp: bit_simps)
qed

lemma not_plus_1: "NOT x + 1 = - x" for x :: "'a::len word"
  by (simp add: minus_eq_not_plus_1)

lemma abs_i64_eq: "abs_i64 x = (if bit x 63 then - x else x)"
  using signed_drop_bit_sign [of x] by (simp add: abs_i64_def not_plus_1)

lemma abs_i32_eq: "abs_i32 x = (if bit x 31 then - x else x)"
  using signed_drop_bit_sign [of x] by (simp add: abs_i32_def not_plus_1)

lemma bit_mem_bswapu32:
  assumes "n < 32"
  shows "bit (mem_bswapu32 x) n = bit x (n mod 8 + 8 * (3 - n div 8))"
proof -
  consider "n < 8" | "8 \<le> n" "n < 16" | "16 \<le> n" "n < 24" | "24 \<le> n" "n < 32"
    using assms by linarith
  then show ?thesis
  proof cases
    case 2
    then have "n div 8 = 1" "n mod 8 = n - 8" by presburger+
    moreover have "n - 8 < 8" using 2 by simp
    ultimately show ?thesis using 2 by (simp add: mem_bswapu32_def bit_simps)
  next
    case 3
    then have "n div 8 = 2" "n mod 8 = n - 16" by presburger+
    moreover have "n - 16 < 8" "\<not> n - 8 < 8" using 3 by simp_all
    ultimately show ?thesis using 3 by (simp add: mem_bswapu32_def bit_simps)
  next
    case 4
    then have "n div 8 = 3" "n mod 8 = n - 24" by presburger+
    moreover have "n - 24 < 8" "\<not> n - 16 < 8" "\<not> n - 8 < 8" using 4 by simp_all
    ultimately show ?thesis using 4 by (simp add: mem_bswapu32_def bit_simps)
  qed (simp add: mem_bswapu32_def bit_simps add.commute)
qed

lemma mem_bswapu32_involutive [simp]: "mem_bswapu32 (mem_bswapu32 x) = x"
proof (rule bit_word_eqI)
  fix n assume "n < LENGTH(32)"
  then have n: "n < 32" by simp
  let ?m = "n mod 8 + 8 * (3 - n div 8)"
  have q: "n div 8 < 4" and r: "n mod 8 < 8" using n by (simp_all add: less_mult_imp_div_less)
  then have "?m < 32" and "?m mod 8 = n mod 8" and d: "?m div 8 = 3 - n div 8" by auto
  moreover have "8 * (3 - (3 - n div 8)) = 8 * (n div 8)" using q by simp
  ultimately have "?m < 32" "?m mod 8 + 8 * (3 - ?m div 8) = n"
    by (simp_all only:) simp_all
  with n show "bit (mem_bswapu32 (mem_bswapu32 x)) n = bit x n"
    by (simp only: bit_mem_bswapu32)
qed

end
