(* ===== verification/Bucket.thy ===== *)
theory Bucket
  imports CMem Bits
begin

text \<open>
  The buckets of the hash map, \<^verbatim>\<open>struct _Bucket\<close> and the functions
  \<^verbatim>\<open>bucket_*\<close> of \<^verbatim>\<open>src/src/hashmap.c\<close>. The first twelve bytes of a bucket
  are either the key itself (a key shorter than \<open>INTERNED_SIZE\<close>, its length in the last of
  them) or a pointer to a heap copy of the key followed by its byte-swapped length; the value
  field is either eight raw bytes or a pointer to a heap copy of the value.
\<close>

subsection \<open>Data\<close>

definition INTERNED_SIZE :: nat where
  "INTERNED_SIZE = (8 - 1) + 4"

definition BucketFlag_KeyInterned :: u32 where
  "BucketFlag_KeyInterned = 0x1"

text \<open>
  \<open>KeyRaw bs\<close>: the twelve bytes of the fields \<^verbatim>\<open>key\<close> and \<^verbatim>\<open>key_size\<close> hold
  \<open>bs\<close>. \<open>KeyPtr blk n\<close>: \<^verbatim>\<open>key\<close> points to the block \<open>blk\<close>, \<^verbatim>\<open>key_size\<close>
  is \<open>n\<close>. Likewise for the eight bytes of the field \<^verbatim>\<open>value\<close>.
\<close>

datatype key_field = KeyRaw bytes | KeyPtr bytes u32

datatype value_field = ValRaw bytes | ValPtr bytes

record bucket =
  b_key :: key_field
  b_value :: value_field
  b_value_size :: u32
  b_hash :: u32
  b_probe_length :: u16
  b_flags :: u16

text \<open>
  A pointer argument \<^verbatim>\<open>void* value\<close>: its address, which is what is stored when the size is
  0, and the memory it points to.
\<close>

record cptr =
  p_addr :: u64
  p_mem :: bytes

subsection \<open>Operations\<close>

definition bucket_set_flag :: "bucket \<Rightarrow> u32 \<Rightarrow> bucket" where
  "bucket_set_flag b flag = b\<lparr>b_flags := b_flags b OR ucast flag\<rparr>"

definition bucket_unset_flag :: "bucket \<Rightarrow> u32 \<Rightarrow> bucket" where
  "bucket_unset_flag b flag = b\<lparr>b_flags := b_flags b AND NOT (ucast flag)\<rparr>"

definition bucket_has_flag :: "bucket \<Rightarrow> u32 \<Rightarrow> bool" where
  "bucket_has_flag b flag \<longleftrightarrow> b_flags b AND ucast flag \<noteq> 0"

text \<open>\<^verbatim>\<open>memset(bucket, 0, sizeof(Bucket))\<close>\<close>

definition bucket_zero :: bucket where
  "bucket_zero = \<lparr>b_key = KeyRaw (replicate 12 0), b_value = ValRaw (replicate 8 0),
     b_value_size = 0, b_hash = 0, b_probe_length = 0, b_flags = 0\<rparr>"

definition bucket_set_empty :: "bucket \<Rightarrow> bucket" where
  "bucket_set_empty b = bucket_zero"

text \<open>\<^verbatim>\<open>memcpy(&bucket->value, value, n)\<close> for \<open>n \<le> 8\<close> over a raw field.\<close>

definition value_memcpy :: "value_field \<Rightarrow> bytes \<Rightarrow> nat \<Rightarrow> value_field" where
  "value_memcpy f src n = (case f of
     ValRaw bs \<Rightarrow> ValRaw (take n src @ drop n bs)
   | ValPtr blk \<Rightarrow> ValPtr blk)"

definition bucket_new :: "bytes \<Rightarrow> u32 \<Rightarrow> cptr \<Rightarrow> u32 \<Rightarrow> u32 \<Rightarrow> u32 \<Rightarrow> bucket" where
  "bucket_new key key_size value value_size hash probe_length =
    (let n = unat key_size; vn = unat value_size;
         b = bucket_zero;
         b = (if n < INTERNED_SIZE
              then bucket_set_flag
                     (b\<lparr>b_key := KeyRaw ((take n key @ replicate (INTERNED_SIZE - n) 0)
                                          @ [ucast (key_size AND 0xFF)])\<rparr>)
                     BucketFlag_KeyInterned
              else bucket_unset_flag
                     (b\<lparr>b_key := KeyPtr (take n key) (mem_bswapu32 key_size)\<rparr>)
                     BucketFlag_KeyInterned);
         b = (if value_size = 0 then b\<lparr>b_value := ValRaw (u64_bytes (p_addr value))\<rparr>
              else if value_size \<le> 8
              then b\<lparr>b_value := value_memcpy (b_value b) (p_mem value) vn\<rparr>
              else b\<lparr>b_value := ValPtr (take vn (p_mem value))\<rparr>)
     in b\<lparr>b_value_size := value_size, b_hash := hash, b_probe_length := ucast probe_length\<rparr>)"

text \<open>
  The bytes of a field read in place, and the memory behind it when it is read as a pointer. A raw
  field read as a pointer is \<^verbatim>\<open>NULL\<close> in every bucket the code builds (there is nothing behind
  it), and a pointer field is never read as bytes (\<open>bucket_wf\<close> below).
\<close>

fun value_in_place :: "value_field \<Rightarrow> bytes" where
  "value_in_place (ValRaw bs) = bs"
| "value_in_place (ValPtr blk) = []"

fun value_pointee :: "value_field \<Rightarrow> bytes" where
  "value_pointee (ValRaw bs) = []"
| "value_pointee (ValPtr blk) = blk"

fun key_in_place :: "key_field \<Rightarrow> bytes" where
  "key_in_place (KeyRaw bs) = bs"
| "key_in_place (KeyPtr blk n) = []"

fun key_pointee :: "key_field \<Rightarrow> bytes" where
  "key_pointee (KeyRaw bs) = []"
| "key_pointee (KeyPtr blk n) = blk"

text \<open>\<^verbatim>\<open>bucket_get_value\<close> returns a pointer; the model returns the bytes behind it.\<close>

definition bucket_get_value :: "bucket \<Rightarrow> bytes" where
  "bucket_get_value b =
     (if b_value_size b \<le> 8 then value_in_place (b_value b) else value_pointee (b_value b))"

definition bucket_get_value_size :: "bucket \<Rightarrow> u32" where
  "bucket_get_value_size b = b_value_size b"

text \<open>
  \<^verbatim>\<open>bucket_update_value\<close> clears the value field before it looks at it: the branch that
  reuses the old block copies through \<^verbatim>\<open>NULL\<close>, and \<^verbatim>\<open>realloc\<close> and
  \<^verbatim>\<open>free\<close> get \<^verbatim>\<open>NULL\<close>.
\<close>

definition bucket_update_value :: "bucket \<Rightarrow> cptr \<Rightarrow> u32 \<Rightarrow> bucket res" where
  "bucket_update_value b value value_size =
    (let vn = unat value_size;
         b = b\<lparr>b_value := ValRaw (replicate 8 0)\<rparr>;
         r = (if b_value_size b > 0 then
                if value_size > 8 then
                  if value_size = b_value_size b then Inl NullDeref
                  else if value_size = 0 then Inr (b\<lparr>b_value := ValRaw (u64_bytes (p_addr value))\<rparr>)
                  else Inr (b\<lparr>b_value := ValPtr (take vn (p_mem value))\<rparr>)
                else Inr (b\<lparr>b_value := value_memcpy (b_value b) (p_mem value) vn\<rparr>)
              else if value_size > 0 then
                if value_size > 8 then Inr (b\<lparr>b_value := ValPtr (take vn (p_mem value))\<rparr>)
                else Inr (b\<lparr>b_value := value_memcpy (b_value b) (p_mem value) vn\<rparr>)
              else Inr (b\<lparr>b_value := ValRaw (u64_bytes (p_addr value))\<rparr>))
     in res_bind r (\<lambda>b. Inr (b\<lparr>b_value_size := value_size\<rparr>)))"

text \<open>Byte 11 of a bucket, and its field \<^verbatim>\<open>key_size\<close> (bytes 8 to 11, little-endian).\<close>

definition byte_11 :: "key_field \<Rightarrow> u8" where
  "byte_11 k = (case k of KeyRaw bs \<Rightarrow> bs ! 11 | KeyPtr _ n \<Rightarrow> ucast (drop_bit 24 n))"

definition key_size_field :: "key_field \<Rightarrow> u32" where
  "key_size_field k = (case k of
     KeyRaw bs \<Rightarrow> ucast (bs ! 8) OR push_bit 8 (ucast (bs ! 9)) OR push_bit 16 (ucast (bs ! 10))
                   OR push_bit 24 (ucast (bs ! 11))
   | KeyPtr _ n \<Rightarrow> n)"

definition bucket_get_key_size :: "bucket \<Rightarrow> u32" where
  "bucket_get_key_size b =
    (if bucket_has_flag b BucketFlag_KeyInterned then scast (byte_11 (b_key b))
     else mem_bswapu32 (key_size_field (b_key b)))"

text \<open>The memory behind the pointer that \<^verbatim>\<open>bucket_get_key\<close> returns.\<close>

definition bucket_get_key :: "bucket \<Rightarrow> bytes" where
  "bucket_get_key b =
     (if bucket_has_flag b BucketFlag_KeyInterned then key_in_place (b_key b)
      else key_pointee (b_key b))"

definition bucket_get_hash :: "bucket \<Rightarrow> u32" where
  "bucket_get_hash b = b_hash b"

definition bucket_set_hash :: "bucket \<Rightarrow> u32 \<Rightarrow> bucket" where
  "bucket_set_hash b hash = b\<lparr>b_hash := hash\<rparr>"

definition bucket_get_probe_length :: "bucket \<Rightarrow> u32" where
  "bucket_get_probe_length b = ucast (b_probe_length b)"

definition bucket_set_probe_length :: "bucket \<Rightarrow> u32 \<Rightarrow> bucket" where
  "bucket_set_probe_length b probe_length = b\<lparr>b_probe_length := ucast probe_length\<rparr>"

definition bucket_is_empty :: "bucket \<Rightarrow> bool" where
  "bucket_is_empty b \<longleftrightarrow> bucket_get_key_size b = 0"

definition bucket_compare_key :: "bucket \<Rightarrow> bytes \<Rightarrow> u32 \<Rightarrow> u32 \<Rightarrow> bool" where
  "bucket_compare_key b key key_size hash \<longleftrightarrow>
     b_hash b = hash \<and> bucket_get_key_size b = key_size
     \<and> memcmp_eq (bucket_get_key b) key (unat key_size)"

definition bucket_free :: "bucket \<Rightarrow> bucket" where
  "bucket_free b = (if bucket_is_empty b then b else bucket_zero)"

subsection \<open>The buckets the code builds\<close>

text \<open>The key of a bucket as the caller gave it.\<close>

definition bucket_key :: "bucket \<Rightarrow> bytes" where
  "bucket_key b = take (unat (bucket_get_key_size b)) (bucket_get_key b)"

text \<open>
  The layout invariant: an interned key has a raw key field of twelve bytes, a longer one a block
  of exactly its length; a value of more than eight bytes is a block of exactly its length, a
  shorter one is in the field.
\<close>

definition bucket_wf :: "bucket \<Rightarrow> bool" where
  "bucket_wf b \<longleftrightarrow>
     (case b_key b of
        KeyRaw bs \<Rightarrow> length bs = 12 \<and> unat (bucket_get_key_size b) < INTERNED_SIZE
                      \<and> (bucket_has_flag b BucketFlag_KeyInterned \<or> b = bucket_zero)
      | KeyPtr blk n \<Rightarrow> length blk = unat (mem_bswapu32 n) \<and> INTERNED_SIZE \<le> length blk
                      \<and> \<not> bucket_has_flag b BucketFlag_KeyInterned) \<and>
     (case b_value b of
        ValRaw bs \<Rightarrow> length bs = 8 \<and> b_value_size b \<le> 8
      | ValPtr blk \<Rightarrow> length blk = unat (b_value_size b) \<and> 8 < b_value_size b)"

text \<open>What a caller finds behind the pointer to a stored value.\<close>

definition stored_value :: "cptr \<Rightarrow> u32 \<Rightarrow> bytes" where
  "stored_value value n =
     (if n = 0 then u64_bytes (p_addr value)
      else if n \<le> 8 then take (unat n) (p_mem value) @ replicate (8 - unat n) 0
      else take (unat n) (p_mem value))"

subsection \<open>Lemmas\<close>

lemma bucket_zero_empty [simp]: "bucket_is_empty bucket_zero"
  by (simp add: bucket_is_empty_def bucket_get_key_size_def bucket_has_flag_def bucket_zero_def
      key_size_field_def) (simp add: mem_bswapu32_def)

lemma bucket_zero_wf [simp]: "bucket_wf bucket_zero"
  using bucket_zero_empty
  by (simp add: bucket_wf_def bucket_is_empty_def INTERNED_SIZE_def)
     (simp add: bucket_zero_def INTERNED_SIZE_def)

text \<open>The probe length is no part of the other views of a bucket.\<close>

lemma bucket_views_probe [simp]:
  "bucket_get_key_size (b\<lparr>b_probe_length := p\<rparr>) = bucket_get_key_size b"
  "bucket_get_key (b\<lparr>b_probe_length := p\<rparr>) = bucket_get_key b"
  "bucket_key (b\<lparr>b_probe_length := p\<rparr>) = bucket_key b"
  "bucket_get_value (b\<lparr>b_probe_length := p\<rparr>) = bucket_get_value b"
  "bucket_is_empty (b\<lparr>b_probe_length := p\<rparr>) = bucket_is_empty b"
  by (simp_all add: bucket_get_key_size_def bucket_has_flag_def bucket_get_key_def bucket_key_def
      bucket_get_value_def bucket_is_empty_def)

lemma bucket_views_hash [simp]:
  "bucket_get_key_size (b\<lparr>b_hash := h\<rparr>) = bucket_get_key_size b"
  "bucket_get_key (b\<lparr>b_hash := h\<rparr>) = bucket_get_key b"
  "bucket_key (b\<lparr>b_hash := h\<rparr>) = bucket_key b"
  "bucket_get_value (b\<lparr>b_hash := h\<rparr>) = bucket_get_value b"
  "bucket_is_empty (b\<lparr>b_hash := h\<rparr>) = bucket_is_empty b"
  by (simp_all add: bucket_get_key_size_def bucket_has_flag_def bucket_get_key_def bucket_key_def
      bucket_get_value_def bucket_is_empty_def)

text \<open>What \<^verbatim>\<open>bucket_new\<close> stores is what the accessors return.\<close>

lemma scast_small_size:
  fixes n :: u32
  assumes "unat n < 128"
  shows "(scast (ucast (n AND 0xFF) :: u8) :: u32) = n"
proof (rule bit_word_eqI)
  fix i assume i: "i < LENGTH(32)"
  have high: "\<not> bit n j" if "7 \<le> j" for j
  proof
    assume "bit n j"
    then have "2 ^ j \<le> unat n" by (auto simp: le_unat_iff_bit)
    moreover have "(2::nat) ^ 7 \<le> 2 ^ j" using that by (intro power_increasing) auto
    ultimately show False using assms by simp
  qed
  have ff: "n AND 0xFF = take_bit 8 n"
    by (simp add: take_bit_eq_mask mask_eq_exp_minus_1)
  show "bit (scast (ucast (n AND 0xFF) :: u8) :: u32) i = bit n i"
    unfolding ff using i high [of i] high [of 7] by (auto simp: bit_simps min_def)
qed

lemma flag_views [simp]:
  "bucket_has_flag (bucket_set_flag b BucketFlag_KeyInterned) BucketFlag_KeyInterned"
  "\<not> bucket_has_flag (bucket_unset_flag b BucketFlag_KeyInterned) BucketFlag_KeyInterned"
proof -
  have "bit ((f OR 1) AND 1) 0" "(f AND NOT 1) AND 1 = 0" for f :: u16
    by (simp_all add: bit_simps) (rule bit_word_eqI, auto simp: bit_simps bit_1_iff)
  then show "bucket_has_flag (bucket_set_flag b BucketFlag_KeyInterned) BucketFlag_KeyInterned"
    "\<not> bucket_has_flag (bucket_unset_flag b BucketFlag_KeyInterned) BucketFlag_KeyInterned"
    by (auto simp: bucket_has_flag_def bucket_set_flag_def bucket_unset_flag_def
        BucketFlag_KeyInterned_def)
qed

lemma bucket_has_flag_cong [simp]:
  "bucket_has_flag (b\<lparr>b_value := v\<rparr>) = bucket_has_flag b"
  "bucket_has_flag (b\<lparr>b_value_size := n\<rparr>) = bucket_has_flag b"
  "bucket_has_flag (b\<lparr>b_hash := h\<rparr>) = bucket_has_flag b"
  "bucket_has_flag (b\<lparr>b_probe_length := p\<rparr>) = bucket_has_flag b"
  by (simp_all add: bucket_has_flag_def fun_eq_iff)

lemma bucket_new_fields [simp]:
  "b_value_size (bucket_new k n v vn h p) = vn"
  "b_hash (bucket_new k n v vn h p) = h"
  "b_probe_length (bucket_new k n v vn h p) = ucast p"
  "bucket_has_flag (bucket_new k n v vn h p) BucketFlag_KeyInterned \<longleftrightarrow> unat n < INTERNED_SIZE"
  by (simp_all add: bucket_new_def Let_def)

lemma b_key_bucket_new:
  "b_key (bucket_new k n v vn h p) =
     (if unat n < INTERNED_SIZE
      then KeyRaw ((take (unat n) k @ replicate (INTERNED_SIZE - unat n) 0) @ [ucast (n AND 0xFF)])
      else KeyPtr (take (unat n) k) (mem_bswapu32 n))"
  by (simp add: bucket_new_def Let_def bucket_set_flag_def bucket_unset_flag_def)

lemma b_value_bucket_new:
  "b_value (bucket_new k n v vn h p) =
     (if vn \<le> 8 then ValRaw (stored_value v vn) else ValPtr (stored_value v vn))"
proof -
  have "\<not> vn \<le> 8 \<Longrightarrow> vn \<noteq> 0" by auto
  then show ?thesis
    by (simp add: bucket_new_def Let_def bucket_set_flag_def bucket_unset_flag_def value_memcpy_def
        bucket_zero_def stored_value_def)
qed

lemma bucket_new_size:
  assumes "unat n \<le> length k"
  shows "bucket_get_key_size (bucket_new k n v vn h p) = n"
proof (cases "unat n < INTERNED_SIZE")
  case True
  have "byte_11 (b_key (bucket_new k n v vn h p)) = ucast (n AND 0xFF)"
    using True assms by (simp add: byte_11_def b_key_bucket_new nth_append INTERNED_SIZE_def)
  then show ?thesis
    using True scast_small_size [of n] by (simp add: bucket_get_key_size_def INTERNED_SIZE_def)
next
  case False
  then show ?thesis
    by (simp add: bucket_get_key_size_def b_key_bucket_new key_size_field_def)
qed

lemma bucket_new_key:
  assumes "unat n \<le> length k"
  shows "bucket_key (bucket_new k n v vn h p) = take (unat n) k"
  using assms
  by (simp add: bucket_key_def bucket_new_size bucket_get_key_def b_key_bucket_new)

lemma length_stored_value:
  assumes "unat vn \<le> length (p_mem v)"
  shows "length (stored_value v vn) = (if vn \<le> 8 then 8 else unat vn)"
proof -
  have "vn \<le> 8 \<Longrightarrow> unat vn \<le> 8" by (simp add: word_le_nat_alt)
  then show ?thesis using assms by (auto simp: stored_value_def)
qed

lemma bucket_new_wf:
  assumes "unat n \<le> length k" "unat vn \<le> length (p_mem v)"
  shows "bucket_wf (bucket_new k n v vn h p)"
  using assms by (auto simp: bucket_wf_def b_key_bucket_new b_value_bucket_new bucket_new_size
      length_stored_value min_def INTERNED_SIZE_def)

lemma bucket_new_value [simp]:
  "bucket_get_value (bucket_new k n v vn h p) = stored_value v vn"
  by (simp add: bucket_get_value_def b_value_bucket_new)

text \<open>Well-formed buckets: the emptiness test, the comparison, and the update of a value.\<close>

lemma bucket_wf_probe [simp]:
  assumes "\<not> bucket_is_empty b"
  shows "bucket_wf (b\<lparr>b_probe_length := p\<rparr>) = bucket_wf b"
proof -
  have "b \<noteq> bucket_zero" "b\<lparr>b_probe_length := p\<rparr> \<noteq> bucket_zero"
    using assms bucket_zero_empty bucket_views_probe(5) [where b = b and p = p] by metis+
  then show ?thesis
    by (auto simp: bucket_wf_def split: key_field.splits value_field.splits)
qed

lemma bucket_wf_hash [simp]:
  assumes "\<not> bucket_is_empty b"
  shows "bucket_wf (b\<lparr>b_hash := p\<rparr>) = bucket_wf b"
proof -
  have "b \<noteq> bucket_zero" "b\<lparr>b_hash := p\<rparr> \<noteq> bucket_zero"
    using assms bucket_zero_empty bucket_views_hash(5) [where b = b and h = p] by metis+
  then show ?thesis
    by (auto simp: bucket_wf_def split: key_field.splits value_field.splits)
qed

lemma bucket_key_length:
  assumes "bucket_wf b"
  shows "length (bucket_key b) = unat (bucket_get_key_size b)"
proof (cases "b = bucket_zero")
  case True
  then show ?thesis using bucket_zero_empty by (simp add: bucket_key_def bucket_is_empty_def)
next
  case False
  then show ?thesis using assms
    by (auto simp: bucket_key_def bucket_wf_def bucket_get_key_def bucket_get_key_size_def
        key_size_field_def INTERNED_SIZE_def split: key_field.splits if_splits)
qed

lemma bucket_is_empty_iff: "bucket_wf b \<Longrightarrow> bucket_is_empty b \<longleftrightarrow> bucket_key b = []"
  using bucket_key_length [of b] by (auto simp: bucket_is_empty_def unat_eq_0)

lemma bucket_compare_key_iff:
  assumes "bucket_wf b" "unat n \<le> length k"
  shows "bucket_compare_key b k n h \<longleftrightarrow> b_hash b = h \<and> bucket_key b = take (unat n) k"
proof -
  have "bucket_get_key_size b = n" if "bucket_key b = take (unat n) k"
    using arg_cong [OF that, of length] bucket_key_length [OF assms(1)] assms(2)
    by (simp add: word_unat_eq_iff)
  then show ?thesis
    by (auto simp: bucket_compare_key_def memcmp_eq_def bucket_key_def)
qed

end
