(* ===== verification/Hash.thy ===== *)
theory Hash
  imports CMem Bits
begin

text \<open>
  The byte-string hashes of \<^verbatim>\<open>src/hash.c\<close> and the integer mixers and generators of
  \<^verbatim>\<open>src/random.c\<close> and \<^verbatim>\<open>include/libromano/random.h\<close>, over words of the C widths.
  Plain \<^verbatim>\<open>char\<close> is signed on the supported targets, and integers are little-endian.
\<close>

subsection \<open>fnv1a\<close>

definition EMPTY_HASH :: u32 where
  "EMPTY_HASH = 0x811c9dc5"

text \<open>\<^verbatim>\<open>(uint32_t)s[i]\<close> sign-extends: \<^verbatim>\<open>s\<close> is a \<^verbatim>\<open>char*\<close>.\<close>

fun hash_fnv1a_loop :: "bytes \<Rightarrow> u32 \<Rightarrow> u32" where
  "hash_fnv1a_loop [] result = result"
| "hash_fnv1a_loop (c # s) result = hash_fnv1a_loop s ((result XOR scast c) * 0x01000193)"

definition hash_fnv1a :: "bytes \<Rightarrow> nat \<Rightarrow> u32" where
  "hash_fnv1a str n = hash_fnv1a_loop (take n str) EMPTY_HASH"

text \<open>The published FNV-1a hash, over unsigned octets.\<close>

definition fnv1a_spec :: "bytes \<Rightarrow> u32" where
  "fnv1a_spec bs = foldl (\<lambda>h b. (h XOR ucast b) * 0x01000193) 0x811c9dc5 bs"

lemma scast_ascii: "\<not> bit b 7 \<Longrightarrow> (scast b :: u32) = ucast b" for b :: u8
proof (rule bit_word_eqI)
  fix n assume "\<not> bit b 7" "n < LENGTH(32)"
  moreover have "\<not> bit b n" if "7 \<le> n" using that \<open>\<not> bit b 7\<close> bit_imp_le_length [of b n] by (cases "n = 7") auto
  ultimately show "bit (scast b :: u32) n = bit (ucast b :: u32) n"
    by (cases "7 \<le> n") (simp_all add: bit_simps min_def)
qed

lemma hash_fnv1a_loop_ascii:
  "\<forall>b\<in>set bs. \<not> bit b 7 \<Longrightarrow>
     hash_fnv1a_loop bs h = foldl (\<lambda>h b. (h XOR ucast b) * 0x01000193) h bs"
  by (induction bs arbitrary: h) (simp_all add: scast_ascii)

subsection \<open>fnv1a pippip\<close>

definition load_u64 :: "bytes \<Rightarrow> nat \<Rightarrow> u64 res" where
  "load_u64 blk off = res_bind (blk_read blk off 8) (\<lambda>bs. Inr (bytes_u64 bs))"

definition PADr_KAZE :: "u64 \<Rightarrow> nat \<Rightarrow> u64 res" where
  "PADr_KAZE x n = (if n < 64 then Inr (drop_bit n (push_bit n x)) else Inl BadShift)"

fun hash_fnv1a_pippip_loop :: "bytes \<Rightarrow> nat \<Rightarrow> nat \<Rightarrow> nat \<Rightarrow> u64 \<Rightarrow> u64 res" where
  "hash_fnv1a_pippip_loop blk str nd_head 0 hash64 = Inr hash64"
| "hash_fnv1a_pippip_loop blk str nd_head (Suc cycles) hash64 =
     res_bind (load_u64 blk str) (\<lambda>a.
     res_bind (load_u64 blk (str + nd_head)) (\<lambda>b.
       hash_fnv1a_pippip_loop blk (str + 8) nd_head cycles
         ((((hash64 XOR a) * 591798841) XOR b) * 591798841)))"

definition hash_fnv1a_pippip :: "bytes \<Rightarrow> nat \<Rightarrow> u32 res" where
  "hash_fnv1a_pippip blk n =
     res_bind
       (if n > 8
        then let cycles = (n - 1) div 16 + 1; nd_head = n - cycles * 8
             in hash_fnv1a_pippip_loop blk 0 nd_head cycles 14695981039346656037
        else res_bind (load_u64 blk 0) (\<lambda>a.
             res_bind (PADr_KAZE a ((8 - n) * 8)) (\<lambda>p.
               Inr ((14695981039346656037 XOR p) * 591798841))))
       (\<lambda>hash64. let hash32 = ucast (hash64 XOR drop_bit 32 hash64) :: u32
                  in Inr (hash32 XOR drop_bit 16 hash32))"

lemma hash_fnv1a_pippip_loop_ok:
  "str + 8 * cycles + nd_head \<le> length blk \<Longrightarrow>
     \<exists>h. hash_fnv1a_pippip_loop blk str nd_head cycles hash64 = Inr h"
proof (induction blk str nd_head cycles hash64 rule: hash_fnv1a_pippip_loop.induct)
  case (2 blk str nd_head cycles hash64)
  obtain a b where ab: "load_u64 blk str = Inr a" "load_u64 blk (str + nd_head) = Inr b"
    using "2.prems" by (simp add: load_u64_def blk_read_def)
  show ?case
    using "2.IH" [of a b] "2.prems" ab by (simp add: algebra_simps)
qed simp

subsection \<open>murmur3\<close>

definition murmur3_scramble :: "u32 \<Rightarrow> u32" where
  "murmur3_scramble k0 =
     (let k = k0 * 0xcc9e2d51;
          k = push_bit 15 k OR drop_bit 17 k
      in k * 0x1b873593)"

definition murmur3_round :: "u32 \<Rightarrow> u32 \<Rightarrow> u32" where
  "murmur3_round h0 k =
     (let h = h0 XOR murmur3_scramble k;
          h = push_bit 13 h OR drop_bit 19 h
      in h * 5 + 0xe6546b64)"

text \<open>
  The two block loops: an aligned 32-bit load, little-endian on the target, through
  \<^verbatim>\<open>htole32\<close>, and the assembly of the word from its four bytes.
\<close>

definition load_u32_le :: "bytes \<Rightarrow> u32" where
  "load_u32_le bs = foldr (\<lambda>b acc. ucast b OR push_bit 8 acc) (take 4 bs) 0"

definition assemble_u32 :: "u8 \<Rightarrow> u8 \<Rightarrow> u8 \<Rightarrow> u8 \<Rightarrow> u32" where
  "assemble_u32 d0 d1 d2 d3 =
     ucast d0 OR push_bit 8 (ucast d1) OR push_bit 16 (ucast d2) OR push_bit 24 (ucast d3)"

fun murmur3_blocks_aligned :: "bytes \<Rightarrow> u32 \<Rightarrow> bytes \<times> u32" where
  "murmur3_blocks_aligned (d0 # d1 # d2 # d3 # data) h =
     murmur3_blocks_aligned data (murmur3_round h (load_u32_le [d0, d1, d2, d3]))"
| "murmur3_blocks_aligned data h = (data, h)"

fun murmur3_blocks_unaligned :: "bytes \<Rightarrow> u32 \<Rightarrow> bytes \<times> u32" where
  "murmur3_blocks_unaligned (d0 # d1 # d2 # d3 # data) h =
     murmur3_blocks_unaligned data (murmur3_round h (assemble_u32 d0 d1 d2 d3))"
| "murmur3_blocks_unaligned data h = (data, h)"

definition murmur3_tail :: "bytes \<Rightarrow> u32 \<Rightarrow> u32" where
  "murmur3_tail data h =
     (case data of
        [d0, d1, d2] \<Rightarrow> h XOR murmur3_scramble ((push_bit 16 (ucast d2) XOR push_bit 8 (ucast d1)) XOR ucast d0)
      | [d0, d1] \<Rightarrow> h XOR murmur3_scramble (push_bit 8 (ucast d1) XOR ucast d0)
      | [d0] \<Rightarrow> h XOR murmur3_scramble (ucast d0)
      | _ \<Rightarrow> h)"

definition murmur3_fmix :: "u32 \<Rightarrow> u32" where
  "murmur3_fmix h0 =
     (let h = h0 XOR drop_bit 16 h0;
          h = h * 0x85ebca6b;
          h = h XOR drop_bit 13 h;
          h = h * 0xc2b2ae35
      in h XOR drop_bit 16 h)"

definition hash_murmur3_at :: "bool \<Rightarrow> bytes \<Rightarrow> u64 \<Rightarrow> u32 \<Rightarrow> u32" where
  "hash_murmur3_at key_aligned key len seed =
     (let data = take (unat len) key;
          (rest, h) = (if key_aligned then murmur3_blocks_aligned data seed
                       else murmur3_blocks_unaligned data seed)
      in murmur3_fmix (murmur3_tail rest h XOR ucast len))"

text \<open>The hash as the hash map sees it, at an aligned address.\<close>

definition hash_murmur3 :: "bytes \<Rightarrow> u64 \<Rightarrow> u32 \<Rightarrow> u32" where
  "hash_murmur3 = hash_murmur3_at True"

lemma load_u32_le_assemble: "load_u32_le [d0, d1, d2, d3] = assemble_u32 d0 d1 d2 d3"
  by (simp add: load_u32_le_def assemble_u32_def push_bit_or or.assoc flip: push_bit_push_bit)
    (simp add: push_bit_push_bit)

lemma murmur3_blocks_eq: "murmur3_blocks_aligned data h = murmur3_blocks_unaligned data h"
  by (induction data h rule: murmur3_blocks_aligned.induct) (simp_all add: load_u32_le_assemble)

subsection \<open>Integer mixers and generators\<close>

definition murmur_64 :: "u64 \<Rightarrow> u64" where
  "murmur_64 h0 =
     (let h = h0 XOR drop_bit 33 h0;
          h = h * 0xff51afd7ed558ccd;
          h = h XOR drop_bit 33 h;
          h = h * 0xc4ceb9fe1a85ec53
      in h XOR drop_bit 33 h)"

definition wang_hash :: "u32 \<Rightarrow> u32" where
  "wang_hash seed0 =
     (let seed = (seed0 XOR 61) XOR drop_bit 16 seed0;
          seed = seed * 9;
          seed = seed XOR drop_bit 4 seed;
          seed = seed * 0x27d4eb2d;
          seed = seed XOR drop_bit 15 seed
      in 1 + seed)"

definition xorshift32 :: "u32 \<Rightarrow> u32" where
  "xorshift32 state0 =
     (let state = state0 XOR push_bit 13 state0;
          state = state XOR drop_bit 17 state
      in state XOR push_bit 5 state)"

text \<open>The static generator states of \<^verbatim>\<open>random.c\<close>, passed explicitly.\<close>

record random_state =
  r_wyhash64_x :: u64
  r_lehmer64_state :: "128 word"
  r_state_next_uint32 :: u32
  r_state_next_uint64 :: u64

definition random_init :: random_state where
  "random_init = \<lparr>r_wyhash64_x = 1, r_lehmer64_state = 1, r_state_next_uint32 = 0, r_state_next_uint64 = 0\<rparr>"

definition random_wyhash_64 :: "random_state \<Rightarrow> u64 \<times> random_state" where
  "random_wyhash_64 s =
     (let x = r_wyhash64_x s + 0x60bee2bee120fc15;
          tmp = (ucast x :: 128 word) * 0xa3b195354a39b70d;
          m1 = ucast (drop_bit 64 tmp XOR tmp) :: u64;
          tmp = (ucast m1 :: 128 word) * 0x1b03738712fad5c9;
          m2 = ucast (drop_bit 64 tmp XOR tmp) :: u64
      in (m2, s\<lparr>r_wyhash64_x := x\<rparr>))"

definition random_lehmer_64 :: "random_state \<Rightarrow> u64 \<times> random_state" where
  "random_lehmer_64 s =
     (let x = r_lehmer64_state s * 0xda942042e4dd58b5
      in (ucast (drop_bit 64 x), s\<lparr>r_lehmer64_state := x\<rparr>))"

definition random_next_uint32 :: "random_state \<Rightarrow> u32 \<times> random_state" where
  "random_next_uint32 s =
     (let x = r_state_next_uint32 s + 1
      in (xorshift32 (wang_hash x), s\<lparr>r_state_next_uint32 := x\<rparr>))"

definition random_next_uint64 :: "random_state \<Rightarrow> u64 \<times> random_state" where
  "random_next_uint64 s =
     (let x = r_state_next_uint64 s + 1
      in (murmur_64 x, s\<lparr>r_state_next_uint64 := x\<rparr>))"

text \<open>Each mixing step is invertible.\<close>

lemma inj_xor_drop_bit:
  fixes x y :: "'a::len word"
  assumes eq: "x XOR drop_bit n x = y XOR drop_bit n y" and n: "0 < n"
  shows "x = y"
proof (rule bit_word_eqI)
  have b: "bit (z XOR drop_bit n z) i \<longleftrightarrow> bit z i \<noteq> bit z (i + n)" for z :: "'a word" and i
    by (simp add: bit_xor_iff bit_drop_bit_eq add.commute)
  have step: "bit x i = bit y i" if "bit x (i + n) = bit y (i + n)" for i
    using b [of x i] b [of y i] that by (simp only: eq) blast
  fix i
  show "bit x i = bit y i"
  proof (induction "LENGTH('a) - i" arbitrary: i rule: less_induct)
    case less
    show ?case
    proof (cases "i < LENGTH('a)")
      case True
      then have "LENGTH('a) - (i + n) < LENGTH('a) - i" using n by simp
      then have "bit x (i + n) = bit y (i + n)" by (rule less)
      then show ?thesis by (rule step)
    next
      case False
      then show ?thesis by (metis bit_imp_le_length)
    qed
  qed
qed

lemma inj_xor_push_bit:
  fixes x y :: "'a::len word"
  assumes eq: "x XOR push_bit n x = y XOR push_bit n y" and n: "0 < n"
  shows "x = y"
proof (rule bit_word_eqI)
  fix i assume "i < LENGTH('a)"
  then show "bit x i = bit y i"
  proof (induction i rule: less_induct)
    case (less i)
    have "bit (x XOR push_bit n x) i = bit (y XOR push_bit n y) i" by (simp only: eq)
    moreover have "bit x (i - n) = bit y (i - n)" if "n \<le> i"
      using that n less by simp
    ultimately show ?case
      using less.prems by (cases "n \<le> i") (auto simp: bit_simps)
  qed
qed

lemma inj_mult_unit:
  fixes x y c d :: "'a::len word"
  assumes "x * c = y * c" and "c * d = 1"
  shows "x = y"
  by (metis assms mult.assoc mult.right_neutral)

lemma murmur_64_inj: "murmur_64 x = murmur_64 y \<Longrightarrow> x = y"
  unfolding murmur_64_def Let_def
  by (drule inj_xor_drop_bit, simp, drule inj_mult_unit [where d = "0x9cb4b2f8129337db"], simp,
      drule inj_xor_drop_bit, simp, drule inj_mult_unit [where d = "0x4f74430c22a54005"], simp,
      erule inj_xor_drop_bit, simp)

lemma xorshift32_inj: "xorshift32 x = xorshift32 y \<Longrightarrow> x = y"
  unfolding xorshift32_def Let_def
  by (drule inj_xor_push_bit, simp, drule inj_xor_drop_bit, simp, erule inj_xor_push_bit, simp)

lemma wang_hash_inj:
  assumes "wang_hash x = wang_hash y"
  shows "x = y"
proof -
  have "(x XOR 61) XOR drop_bit 16 x = (y XOR 61) XOR drop_bit 16 y"
    by (insert assms, unfold wang_hash_def Let_def, drule add_left_imp_eq, drule inj_xor_drop_bit, simp,
        drule inj_mult_unit [where d = "0xfb699ca5"], simp, drule inj_xor_drop_bit, simp,
        erule inj_mult_unit [where d = "0x38e38e39"], simp)
  then have "((x XOR 61) XOR drop_bit 16 x) XOR 61 = ((y XOR 61) XOR drop_bit 16 y) XOR 61" by simp
  moreover have "((z XOR 61) XOR drop_bit 16 z) XOR 61 = z XOR drop_bit 16 z" for z :: u32
    by (rule bit_word_eqI) (auto simp: bit_xor_iff)
  ultimately have "x XOR drop_bit 16 x = y XOR drop_bit 16 y" by simp
  then show ?thesis by (rule inj_xor_drop_bit) simp
qed

subsection \<open>Properties\<close>

text \<open>
  The murmur3 hash does not depend on the alignment of the key: the word-wise loop and the
  byte-wise loop compute the same value. (The hash map hashes the caller's key at one address and the
  copy inside a packed bucket at another.)
\<close>

theorem hash_murmur3_alignment:
  "hash_murmur3_at a key len seed = hash_murmur3_at b key len seed"
  by (cases a; cases b) (simp_all add: hash_murmur3_at_def murmur3_blocks_eq)

text \<open>
  On ASCII text \<^verbatim>\<open>hash_fnv1a\<close> is the published FNV-1a hash. (Bytes from 0x80 up are
  sign-extended, which the published hash does not do.)
\<close>

theorem hash_fnv1a_ascii:
  assumes "\<forall>b \<in> set (take n str). \<not> bit b 7"
  shows "hash_fnv1a str n = fnv1a_spec (take n str)"
  using assms by (simp add: hash_fnv1a_def fnv1a_spec_def EMPTY_HASH_def hash_fnv1a_loop_ascii)

theorem hash_fnv1a_ascii_witness:
  "hash_fnv1a (map of_char ''abc'') 3 = fnv1a_spec (map of_char ''abc'')"
  using hash_fnv1a_ascii [of 3 "map of_char ''abc''"] by simp

text \<open>
  \<^verbatim>\<open>hash_fnv1a_pippip\<close> on a string of exactly \<open>n\<close> bytes stays inside the string if
  and only if \<open>n\<close> is at least 8: shorter strings are read eight bytes at a time all the same.
\<close>

theorem hash_fnv1a_pippip_safe_iff:
  "(\<exists>h. hash_fnv1a_pippip blk (length blk) = Inr h) \<longleftrightarrow> 8 \<le> length blk"
proof (cases "8 < length blk")
  case True
  define c where "c = (length blk - 1) div 16 + 1"
  have "(length blk - 1) div 16 * 16 \<le> length blk - 1" by (rule div_times_less_eq_dividend)
  then have "8 * c \<le> length blk" using True by (cases "(length blk - 1) div 16 = 0") (auto simp: c_def)
  then have "0 + 8 * c + (length blk - c * 8) \<le> length blk" by simp
  then obtain h where "hash_fnv1a_pippip_loop blk 0 (length blk - c * 8) c 14695981039346656037 = Inr h"
    using hash_fnv1a_pippip_loop_ok by blast
  then show ?thesis using True by (simp add: hash_fnv1a_pippip_def Let_def c_def)
next
  case False
  then show ?thesis
    by (auto simp: hash_fnv1a_pippip_def load_u64_def blk_read_def PADr_KAZE_def Let_def)
qed

text \<open>Successive draws from the two counter-based generators.\<close>

fun draws_uint32 :: "nat \<Rightarrow> random_state \<Rightarrow> u32 list" where
  "draws_uint32 0 s = []"
| "draws_uint32 (Suc n) s = (let (x, s) = random_next_uint32 s in x # draws_uint32 n s)"

fun draws_uint64 :: "nat \<Rightarrow> random_state \<Rightarrow> u64 list" where
  "draws_uint64 0 s = []"
| "draws_uint64 (Suc n) s = (let (x, s) = random_next_uint64 s in x # draws_uint64 n s)"

lemma draws_uint32_eq:
  "draws_uint32 n s = map (\<lambda>i. xorshift32 (wang_hash (r_state_next_uint32 s + of_nat (Suc i)))) [0..<n]"
proof (induction n arbitrary: s)
  case (Suc n)
  show ?case
    by (simp add: Suc random_next_uint32_def Let_def upt_conv_Cons map_Suc_upt [symmetric] comp_def
        add.assoc del: upt_Suc)
qed simp

lemma draws_uint64_eq:
  "draws_uint64 n s = map (\<lambda>i. murmur_64 (r_state_next_uint64 s + of_nat (Suc i))) [0..<n]"
proof (induction n arbitrary: s)
  case (Suc n)
  show ?case
    by (simp add: Suc random_next_uint64_def Let_def upt_conv_Cons map_Suc_upt [symmetric] comp_def
        add.assoc del: upt_Suc)
qed simp

lemma of_nat_Suc_inj:
  assumes "i < 2 ^ LENGTH('a)" "j < 2 ^ LENGTH('a)" "c + of_nat (Suc i) = c + (of_nat (Suc j) :: 'a::len word)"
  shows "i = j"
proof -
  have "(of_nat i :: 'a word) = of_nat j" using assms(3) by simp
  then have "unat (of_nat i :: 'a word) = unat (of_nat j :: 'a word)" by simp
  then show ?thesis using assms(1,2) by (simp add: unat_of_nat take_bit_nat_eq_self)
qed

text \<open>
  C39: The counter-based generators have full period: no value repeats within 2^32 successive calls of
  \<^verbatim>\<open>random_next_uint32\<close> or 2^64 of \<^verbatim>\<open>random_next_uint64\<close>, from any state (every
  mixing step is a bijection).
\<close>

theorem random_next_full_period:
  "distinct (draws_uint32 (2 ^ 32) s) \<and> distinct (draws_uint64 (2 ^ 64) s)"
proof
  have "inj_on (\<lambda>i. xorshift32 (wang_hash (r_state_next_uint32 s + of_nat (Suc i)))) {0..<2 ^ 32}"
    by (rule inj_onI) (auto dest!: xorshift32_inj wang_hash_inj intro: of_nat_Suc_inj [where 'a = 32])
  then show "distinct (draws_uint32 (2 ^ 32) s)"
    by (simp only: draws_uint32_eq distinct_map distinct_upt set_upt)
  have "inj_on (\<lambda>i. murmur_64 (r_state_next_uint64 s + of_nat (Suc i))) {0..<2 ^ 64}"
    by (rule inj_onI) (auto dest!: murmur_64_inj intro: of_nat_Suc_inj [where 'a = 64])
  then show "distinct (draws_uint64 (2 ^ 64) s)"
    by (simp only: draws_uint64_eq distinct_map distinct_upt set_upt)
qed

end
