(* ===== verification/HashMap.thy ===== *)
theory HashMap
  imports Bucket Hash
begin

text \<open>
  The Robin Hood hash map of \<^verbatim>\<open>src/src/hashmap.c\<close>: its state, the probing loops of
  insertion, growth, update, lookup and removal (with backward shift), and iteration. A loop that
  may not end has the value \<open>None\<close>; an access outside the bucket array is
  \<open>Inl OutOfBounds\<close>.
\<close>

subsection \<open>State\<close>

text \<open>
  A hash function receives the bytes of the key, their number and the map's hash key. Allocation
  of bucket arrays succeeds.
\<close>

record hashmap =
  hm_buckets :: "bucket list"
  hm_size :: u64
  hm_capacity :: u64
  hm_hash_func :: "bytes \<Rightarrow> u64 \<Rightarrow> u32 \<Rightarrow> u32"
  hm_hashkey :: u32
  hm_max_probes :: u32

definition HASHMAP_INITIAL_CAPACITY :: u64 where
  "HASHMAP_INITIAL_CAPACITY = 1024"

text \<open>\<^verbatim>\<open>HASHMAP_MAX_LOAD\<close> is \<^verbatim>\<open>0.9f\<close>, the float 15099494 / 2^24.\<close>

definition HASHMAP_MAX_LOAD :: nat where
  "HASHMAP_MAX_LOAD = 15099494"

definition hashmap_hash :: "hashmap \<Rightarrow> bytes \<Rightarrow> u64 \<Rightarrow> u32" where
  "hashmap_hash m key key_size = hm_hash_func m (take (unat key_size) key) key_size (hm_hashkey m)"

definition hashmap_index :: "hashmap \<Rightarrow> u32 \<Rightarrow> u64" where
  "hashmap_index m hash = ucast hash AND (hm_capacity m - 1)"

definition hashmap_get_new_capacity :: "hashmap \<Rightarrow> u64" where
  "hashmap_get_new_capacity m = round_u64_to_next_pow2 (hm_capacity m + 1) + 1"

text \<open>
  \<^verbatim>\<open>hashmap->size + 1 > hashmap->capacity * HASHMAP_MAX_LOAD\<close>, a comparison of floats: both
  integers are converted, the product is rounded (everything scaled by 2^24 here).
\<close>

definition hashmap_overloaded :: "hashmap \<Rightarrow> bool" where
  "hashmap_overloaded m \<longleftrightarrow>
     flt_round 24 (unat (hm_size m + 1)) * 2 ^ 24
       > flt_round 24 (flt_round 24 (unat (hm_capacity m)) * HASHMAP_MAX_LOAD)"

text \<open>
  \<^verbatim>\<open>(uint32_t)mathf_log2((float)capacity)\<close>: the floor of the binary logarithm of the
  capacity converted to float.
\<close>

definition max_probes_of :: "u64 \<Rightarrow> u32" where
  "max_probes_of capacity = of_nat (bitlen (flt_round 24 (unat capacity)) - 1)"

subsection \<open>The Robin Hood loop\<close>

text \<open>
  The body of the \<^verbatim>\<open>while(1)\<close> loops of \<^verbatim>\<open>hashmap_move_entry\<close>,
  \<^verbatim>\<open>hashmap_insert_bucket\<close> and \<^verbatim>\<open>hashmap_insert\<close>, which differ in two points:
  \<open>cmp entry bucket\<close> is the test that ends the loop because the key is there (no test when
  moving), \<open>limit\<close> the probe length at which the loop gives up (no limit when moving). The loop
  ends with the entry stored, with the key found, or with the entry it holds displaced.
\<close>

datatype probe_result = Stored | Found | Displaced bucket

partial_function (option) robin_hood_loop ::
  "(bucket \<Rightarrow> bucket \<Rightarrow> bool) \<Rightarrow> u32 option \<Rightarrow> u64 \<Rightarrow> bucket list \<Rightarrow> bucket \<Rightarrow> u64
    \<Rightarrow> (probe_result \<times> bucket list) run" where
  "robin_hood_loop cmp limit capacity bs entry index =
    (if \<not> unat index < length bs then Some (Inl OutOfBounds)
     else
       let bucket = bs ! unat index in
       if \<not> bucket_is_empty bucket then
         if cmp entry bucket then Some (Inr (Found, bs))
         else
           let swap = b_probe_length entry > b_probe_length bucket;
               bs = (if swap then bs[unat index := entry] else bs);
               entry = (if swap then bucket else entry);
               index = (index + 1) AND (capacity - 1);
               entry = entry\<lparr>b_probe_length := b_probe_length entry + 1\<rparr>
           in if limit \<noteq> None \<and> (ucast (b_probe_length entry) :: u32) \<ge> the limit
              then Some (Inr (Displaced entry, bs))
              else robin_hood_loop cmp limit capacity bs entry index
       else Some (Inr (Stored, bs[unat index := entry])))"

subsection \<open>Growth\<close>

definition hashmap_move_entry :: "hashmap \<Rightarrow> bucket \<Rightarrow> bool \<Rightarrow> hashmap run" where
  "hashmap_move_entry m entry rehash =
    (let new_entry = bucket_set_probe_length entry 0;
         hash = (if rehash then hashmap_hash m (bucket_get_key new_entry)
                                  (ucast (bucket_get_key_size new_entry))
                 else bucket_get_hash new_entry);
         new_entry = (if rehash then bucket_set_hash new_entry hash else new_entry);
         index = hashmap_index m hash
     in run_bind (robin_hood_loop (\<lambda>_ _. False) None (hm_capacity m) (hm_buckets m) new_entry index)
          (\<lambda>(_, bs). Some (Inr (m\<lparr>hm_buckets := bs, hm_size := hm_size m + 1\<rparr>))))"

fun hashmap_move_all :: "hashmap \<Rightarrow> bucket list \<Rightarrow> bool \<Rightarrow> hashmap run" where
  "hashmap_move_all m [] rehash = Some (Inr m)"
| "hashmap_move_all m (b # bs) rehash =
     (if bucket_is_empty b then hashmap_move_all m bs rehash
      else run_bind (hashmap_move_entry m b rehash) (\<lambda>m. hashmap_move_all m bs rehash))"

text \<open>\<open>rnd\<close> is the value of \<^verbatim>\<open>random_next_uint32()\<close> when the map is rehashed.\<close>

definition hashmap_grow :: "hashmap \<Rightarrow> u64 \<Rightarrow> bool \<Rightarrow> u32 \<Rightarrow> hashmap run" where
  "hashmap_grow m capacity rehash rnd =
    (let old_buckets = hm_buckets m;
         m = m\<lparr>hm_buckets := replicate (unat capacity) bucket_zero,
               hm_capacity := capacity, hm_size := 0\<rparr>;
         m = (if rehash then m\<lparr>hm_hashkey := hm_hashkey m XOR rnd\<rparr> else m);
         m = m\<lparr>hm_max_probes := max_probes_of (hm_capacity m)\<rparr>
     in hashmap_move_all m old_buckets rehash)"

text \<open>
  \<^verbatim>\<open>hashmap_new\<close> combines the random number with the uninitialised \<^verbatim>\<open>hashkey\<close> of the
  fresh block: \<open>uninit\<close> is what is there. \<open>alloc_ok\<close> tells whether \<^verbatim>\<open>malloc\<close>
  succeeds; the result \<open>None\<close> of the inner option is \<^verbatim>\<open>NULL\<close>.
\<close>

definition hashmap_new :: "bool \<Rightarrow> u32 \<Rightarrow> u32 \<Rightarrow> u64 \<Rightarrow> hashmap option run" where
  "hashmap_new alloc_ok uninit rnd initial_capacity =
    (if \<not> alloc_ok then Some (Inr None)
     else
       let m = \<lparr>hm_buckets = [], hm_size = 0, hm_capacity = 0, hm_hash_func = hash_murmur3,
                hm_hashkey = uninit XOR rnd, hm_max_probes = 0\<rparr>;
           initial_capacity =
             (if initial_capacity = 0 then HASHMAP_INITIAL_CAPACITY
              else round_u64_to_next_pow2 (initial_capacity + 1) + 1)
       in run_bind (hashmap_grow m initial_capacity False 0) (\<lambda>m. Some (Inr (Some m))))"

definition hashmap_size :: "hashmap \<Rightarrow> u64" where
  "hashmap_size m = hm_size m"

definition hashmap_capacity :: "hashmap \<Rightarrow> u64" where
  "hashmap_capacity m = hm_capacity m"

definition hashmap_set_hash_func :: "hashmap \<Rightarrow> (bytes \<Rightarrow> u64 \<Rightarrow> u32 \<Rightarrow> u32) \<Rightarrow> hashmap" where
  "hashmap_set_hash_func m func = m\<lparr>hm_hash_func := func\<rparr>"

subsection \<open>Insertion\<close>

text \<open>The load test at the head of both insertions.\<close>

definition hashmap_check_load :: "hashmap \<Rightarrow> hashmap run" where
  "hashmap_check_load m =
     (if hashmap_overloaded m then hashmap_grow m (hashmap_get_new_capacity m) False 0
      else Some (Inr m))"

partial_function (option) hashmap_insert_bucket :: "hashmap \<Rightarrow> bucket \<Rightarrow> hashmap run" where
  "hashmap_insert_bucket m entry =
    run_bind (hashmap_check_load m) (\<lambda>m.
      let hash = hashmap_hash m (bucket_get_key entry) (ucast (bucket_get_key_size entry));
          entry = bucket_set_probe_length (bucket_set_hash entry hash) 0;
          index = hashmap_index m hash
      in run_bind
           (robin_hood_loop
              (\<lambda>e b. bucket_compare_key b (bucket_get_key e) (bucket_get_key_size e) hash)
              (Some (hm_max_probes m)) (hm_capacity m) (hm_buckets m) entry index)
           (\<lambda>(r, bs). case r of
              Found \<Rightarrow> Some (Inr (m\<lparr>hm_buckets := bs\<rparr>))
            | Stored \<Rightarrow> Some (Inr (m\<lparr>hm_buckets := bs, hm_size := hm_size m + 1\<rparr>))
            | Displaced e \<Rightarrow>
                run_bind (hashmap_grow (m\<lparr>hm_buckets := bs\<rparr>) (hashmap_get_new_capacity m) False 0)
                  (\<lambda>m. hashmap_insert_bucket m e)))"

definition hashmap_insert :: "hashmap \<Rightarrow> bytes \<Rightarrow> u32 \<Rightarrow> cptr \<Rightarrow> u32 \<Rightarrow> hashmap run" where
  "hashmap_insert m key key_size value value_size =
    run_bind (hashmap_check_load m) (\<lambda>m.
      let hash = hashmap_hash m key (ucast key_size);
          entry = bucket_new key key_size value value_size hash 0;
          index = hashmap_index m hash
      in run_bind
           (robin_hood_loop (\<lambda>e b. bucket_compare_key b key key_size hash)
              (Some (hm_max_probes m)) (hm_capacity m) (hm_buckets m) entry index)
           (\<lambda>(r, bs). case r of
              Found \<Rightarrow> Some (Inr (m\<lparr>hm_buckets := bs\<rparr>))
            | Stored \<Rightarrow> Some (Inr (m\<lparr>hm_buckets := bs, hm_size := hm_size m + 1\<rparr>))
            | Displaced e \<Rightarrow>
                run_bind (hashmap_grow (m\<lparr>hm_buckets := bs\<rparr>) (hashmap_get_new_capacity m) False 0)
                  (\<lambda>m. hashmap_insert_bucket m e)))"

subsection \<open>Update, lookup, removal\<close>

partial_function (option) hashmap_update_loop ::
  "hashmap \<Rightarrow> bytes \<Rightarrow> u32 \<Rightarrow> cptr \<Rightarrow> u32 \<Rightarrow> u32 \<Rightarrow> u64 \<Rightarrow> u32 \<Rightarrow> hashmap run" where
  "hashmap_update_loop m key key_size value value_size hash index probe_length =
    (if \<not> unat index < length (hm_buckets m) then Some (Inl OutOfBounds)
     else
       let bucket = hm_buckets m ! unat index in
       if \<not> bucket_is_empty bucket then
         if bucket_compare_key bucket key key_size hash then
           Some (res_bind (bucket_update_value bucket value value_size)
             (\<lambda>b. Inr (m\<lparr>hm_buckets := (hm_buckets m)[unat index := b]\<rparr>)))
         else hashmap_update_loop m key key_size value value_size hash
                ((index + 1) AND (hm_capacity m - 1)) (probe_length + 1)
       else
         Some (Inr (m\<lparr>hm_buckets := (hm_buckets m)[unat index :=
                        bucket_new key key_size value value_size hash probe_length],
                      hm_size := hm_size m + 1\<rparr>)))"

definition hashmap_update :: "hashmap \<Rightarrow> bytes \<Rightarrow> u32 \<Rightarrow> cptr \<Rightarrow> u32 \<Rightarrow> hashmap run" where
  "hashmap_update m key key_size value value_size =
    (let hash = hashmap_hash m key (ucast key_size)
     in hashmap_update_loop m key key_size value value_size hash (hashmap_index m hash) 0)"

text \<open>
  A lookup returns \<^verbatim>\<open>NULL\<close> or the bytes behind the pointer with the size written to
  \<^verbatim>\<open>*value_size\<close>.
\<close>

partial_function (option) hashmap_get_loop ::
  "hashmap \<Rightarrow> bytes \<Rightarrow> u32 \<Rightarrow> u32 \<Rightarrow> u64 \<Rightarrow> u32 \<Rightarrow> (bytes \<times> u32) option run" where
  "hashmap_get_loop m key key_size hash index probe_length =
    (if \<not> unat index < length (hm_buckets m) then Some (Inl OutOfBounds)
     else
       let bucket = hm_buckets m ! unat index in
       if bucket_compare_key bucket key key_size hash then
         Some (Inr (Some (bucket_get_value bucket, bucket_get_value_size bucket)))
       else if bucket_is_empty bucket \<or> probe_length > bucket_get_probe_length bucket then
         Some (Inr None)
       else hashmap_get_loop m key key_size hash ((index + 1) AND (hm_capacity m - 1))
              (probe_length + 1))"

definition hashmap_get :: "hashmap \<Rightarrow> bytes \<Rightarrow> u32 \<Rightarrow> (bytes \<times> u32) option run" where
  "hashmap_get m key key_size =
    (let hash = hashmap_hash m key (ucast key_size)
     in hashmap_get_loop m key key_size hash (hashmap_index m hash) 0)"

text \<open>The inner loop of \<^verbatim>\<open>hashmap_remove\<close>; \<open>hole\<close> is the index of \<^verbatim>\<open>bucket\<close>.\<close>

partial_function (option) backward_shift_loop ::
  "u64 \<Rightarrow> bucket list \<Rightarrow> u64 \<Rightarrow> bucket list run" where
  "backward_shift_loop capacity bs hole =
    (let bs = bs[unat hole := bucket_set_empty (bs ! unat hole)];
         index = (hole + 1) AND (capacity - 1)
     in if \<not> unat index < length bs then Some (Inl OutOfBounds)
        else
          let b = bs ! unat index in
          if bucket_is_empty b \<or> bucket_get_probe_length b = 0 then Some (Inr bs)
          else
            let b = bucket_set_probe_length b (bucket_get_probe_length b - 1)
            in backward_shift_loop capacity (bs[unat index := b, unat hole := b]) index)"

partial_function (option) hashmap_remove_loop ::
  "hashmap \<Rightarrow> bytes \<Rightarrow> u32 \<Rightarrow> u32 \<Rightarrow> u64 \<Rightarrow> u32 \<Rightarrow> hashmap run" where
  "hashmap_remove_loop m key key_size hash index probe_length =
    (if \<not> unat index < length (hm_buckets m) then Some (Inl OutOfBounds)
     else
       let bucket = hm_buckets m ! unat index in
       if bucket_is_empty bucket \<or> probe_length > bucket_get_probe_length bucket then
         Some (Inr m)
       else if bucket_compare_key bucket key key_size hash then
         run_bind (backward_shift_loop (hm_capacity m)
                     ((hm_buckets m)[unat index := bucket_free bucket]) index)
           (\<lambda>bs. Some (Inr (m\<lparr>hm_buckets := bs, hm_size := hm_size m - 1\<rparr>)))
       else hashmap_remove_loop m key key_size hash ((index + 1) AND (hm_capacity m - 1))
              (probe_length + 1))"

definition hashmap_remove :: "hashmap \<Rightarrow> bytes \<Rightarrow> u32 \<Rightarrow> hashmap run" where
  "hashmap_remove m key key_size =
    (let hash = hashmap_hash m key (ucast key_size)
     in hashmap_remove_loop m key key_size hash (hashmap_index m hash) 0)"

subsection \<open>Iteration\<close>

text \<open>
  The index is a \<^verbatim>\<open>uint32_t\<close> compared with the 64-bit capacity. The result is the entry
  (key, key size, value, value size) with the iterator after it, or \<open>None\<close> for
  \<^verbatim>\<open>false\<close> (the iterator is then unchanged).
\<close>

partial_function (option) hashmap_iterate ::
  "hashmap \<Rightarrow> u32 \<Rightarrow> ((bytes \<times> u32 \<times> bytes \<times> u32) \<times> u32) option run" where
  "hashmap_iterate m i =
    (if (ucast i :: u64) < hm_capacity m then
       if \<not> unat i < length (hm_buckets m) then Some (Inl OutOfBounds)
       else
         let bucket = hm_buckets m ! unat i in
         if bucket_is_empty bucket then hashmap_iterate m (i + 1)
         else Some (Inr (Some ((bucket_get_key bucket, bucket_get_key_size bucket,
                                bucket_get_value bucket, bucket_get_value_size bucket), i + 1)))
     else Some (Inr None))"

subsection \<open>Destruction\<close>

text \<open>The bucket array as \<^verbatim>\<open>hashmap_free\<close> leaves it before it returns the memory.\<close>

definition hashmap_free :: "hashmap \<Rightarrow> bucket list" where
  "hashmap_free m = map (\<lambda>b. if bucket_is_empty b then b else bucket_free b) (hm_buckets m)"

end
