(* ===== verification/RobinHood.thy ===== *)
theory RobinHood
  imports HashMap
begin

text \<open>
  The array invariant of Robin Hood hashing and the loops of the hash map over it. Slots are
  natural numbers below the capacity, which is a power of two.
\<close>

subsection \<open>Circular indices\<close>

definition nxt :: "nat \<Rightarrow> nat \<Rightarrow> nat" where
  "nxt n i = Suc i mod n"

definition prv :: "nat \<Rightarrow> nat \<Rightarrow> nat" where
  "prv n i = (i + n - 1) mod n"

lemma prv_nxt: "i < n \<Longrightarrow> prv n (nxt n i) = i"
proof (cases "Suc i = n")
  case True
  then show ?thesis by (simp add: prv_def nxt_def)
next
  case False
  assume "i < n"
  with False have "Suc i < n" by simp
  then show ?thesis by (simp add: prv_def nxt_def)
qed

lemma prv_mod: "0 < n \<Longrightarrow> prv n (Suc x mod n) = x mod n"
proof -
  assume "0 < n"
  then have "prv n (nxt n (x mod n)) = x mod n" by (intro prv_nxt) simp
  then show ?thesis by (simp add: nxt_def mod_Suc_eq)
qed

lemma nxt_prv: "i < n \<Longrightarrow> nxt n (prv n i) = i"
proof (cases i)
  case 0
  assume "i < n"
  then show ?thesis using 0 by (simp add: prv_def nxt_def)
next
  case (Suc j)
  assume "i < n"
  then show ?thesis using Suc by (simp add: prv_def nxt_def)
qed

lemma nxt_less [simp]: "0 < n \<Longrightarrow> nxt n i < n"
  by (simp add: nxt_def)

lemma prv_less [simp]: "0 < n \<Longrightarrow> prv n i < n"
  by (simp add: prv_def)

lemma prv_neq: "2 \<le> n \<Longrightarrow> i < n \<Longrightarrow> prv n i \<noteq> i"
  by (cases i) (auto simp: prv_def)

lemma prv_eq_iff: "i < n \<Longrightarrow> j < n \<Longrightarrow> prv n j = i \<longleftrightarrow> j = nxt n i"
  using prv_nxt nxt_prv by metis

lemma unat_next_index:
  fixes i :: u64
  assumes "k < 64"
  shows "unat ((i + 1) AND (2 ^ k - 1)) = nxt (2 ^ k) (unat i)"
proof -
  have "unat (i + 1) mod 2 ^ k = Suc (unat i) mod 2 ^ 64 mod 2 ^ k"
    by (simp add: unat_word_ariths)
  also have "\<dots> = Suc (unat i) mod 2 ^ k"
    using assms by (intro mod_mod_cancel le_imp_power_dvd) simp
  finally show ?thesis using unat_and_mask [of k "i + 1"] assms by (simp add: nxt_def)
qed

subsection \<open>The invariant\<close>

abbreviation occ :: "bucket \<Rightarrow> bool" where
  "occ b \<equiv> \<not> bucket_is_empty b"

definition pl :: "bucket \<Rightarrow> nat" where
  "pl b = unat (b_probe_length b)"

definition home :: "nat \<Rightarrow> bucket \<Rightarrow> nat" where
  "home n b = unat (b_hash b) mod n"

text \<open>
  \<open>fits bs b i\<close>: the bucket \<open>b\<close> may stand at slot \<open>i\<close>: the slot is its probe length
  away from the home slot, and if that is not 0 then the slot before is occupied by a bucket with a
  probe length of at least one less.
\<close>

definition fits :: "bucket list \<Rightarrow> bucket \<Rightarrow> nat \<Rightarrow> bool" where
  "fits bs b i \<longleftrightarrow>
     (home (length bs) b + pl b) mod length bs = i \<and>
     (0 < pl b \<longrightarrow> occ (bs ! prv (length bs) i) \<and> pl b \<le> Suc (pl (bs ! prv (length bs) i)))"

definition rh :: "bucket list \<Rightarrow> bool" where
  "rh bs \<longleftrightarrow> (\<forall>i < length bs. occ (bs ! i) \<longrightarrow> fits bs (bs ! i) i)"

text \<open>The contents of an array: its occupied buckets, probe lengths aside.\<close>

definition strip :: "bucket \<Rightarrow> bucket" where
  "strip b = b\<lparr>b_probe_length := 0\<rparr>"

definition entries :: "bucket list \<Rightarrow> bucket multiset" where
  "entries bs = image_mset strip (filter_mset occ (mset bs))"

lemma strip_views [simp]:
  "bucket_key (strip b) = bucket_key b"
  "bucket_get_value (strip b) = bucket_get_value b"
  "bucket_is_empty (strip b) = bucket_is_empty b"
  "b_hash (strip b) = b_hash b"
  "b_value_size (strip b) = b_value_size b"
  "strip (b\<lparr>b_probe_length := p\<rparr>) = strip b"
  by (simp_all add: strip_def)

lemma strip_wf [simp]: "occ b \<Longrightarrow> bucket_wf (strip b) = bucket_wf b"
  by (simp add: strip_def)

lemma entries_update:
  assumes "i < length bs"
  shows "entries (bs[i := b]) + (if occ (bs ! i) then {#strip (bs ! i)#} else {#})
       = entries bs + (if occ b then {#strip b#} else {#})"
proof -
  have "mset (bs[i := b]) + {#bs ! i#} = mset bs + {#b#}"
    using assms by (simp add: mset_update)
  then have "image_mset strip (filter_mset occ (mset (bs[i := b]) + {#bs ! i#}))
           = image_mset strip (filter_mset occ (mset bs + {#b#}))"
    by simp
  then show ?thesis by (auto simp: entries_def split: if_splits)
qed

lemma entries_store:
  "i < length bs \<Longrightarrow> bucket_is_empty (bs ! i) \<Longrightarrow> occ b
    \<Longrightarrow> entries (bs[i := b]) = add_mset (strip b) (entries bs)"
  using entries_update [of i bs b] by simp

lemma entries_swap:
  "i < length bs \<Longrightarrow> occ (bs ! i) \<Longrightarrow> occ b
    \<Longrightarrow> add_mset (strip (bs ! i)) (entries (bs[i := b])) = add_mset (strip b) (entries bs)"
  using entries_update [of i bs b] by simp

lemma entries_clear:
  "i < length bs \<Longrightarrow> occ (bs ! i) \<Longrightarrow> bucket_is_empty b
    \<Longrightarrow> add_mset (strip (bs ! i)) (entries (bs[i := b])) = entries bs"
  using entries_update [of i bs b] by simp

lemma in_entries_iff: "x \<in># entries bs \<longleftrightarrow> (\<exists>i < length bs. occ (bs ! i) \<and> x = strip (bs ! i))"
  by (auto simp: entries_def in_set_conv_nth)

lemma entries_replicate [simp]: "entries (replicate n bucket_zero) = {#}"
  by (simp add: entries_def)

lemma rh_replicate [simp]: "rh (replicate n bucket_zero)"
  by (simp add: rh_def)

lemma size_entries: "size (entries bs) = card {i. i < length bs \<and> occ (bs ! i)}"
  by (simp add: entries_def size_mset length_filter_conv_card flip: mset_filter)

subsection \<open>Chains\<close>

text \<open>
  Walking from the home slot of a bucket to its slot, every slot is occupied and its probe length
  is at least the distance walked.
\<close>

lemma chain_before:
  assumes rh: "rh bs" and i: "i < length bs" and fit: "fits bs b i" and r: "r < pl b"
  shows "occ (bs ! ((home (length bs) b + r) mod length bs))
       \<and> r \<le> pl (bs ! ((home (length bs) b + r) mod length bs))"
  using r
proof (induction "pl b - Suc r" arbitrary: r)
  case 0
  let ?n = "length bs"
  have n: "0 < ?n" using i by linarith
  from 0 have "pl b = Suc r" by simp
  then have "i = Suc (home ?n b + r) mod ?n"
    using fit by (simp add: fits_def)
  then have "prv ?n i = (home ?n b + r) mod ?n" using prv_mod [OF n] by simp
  then show ?case using fit \<open>pl b = Suc r\<close> by (simp add: fits_def)
next
  case (Suc m)
  let ?n = "length bs"
  have n: "0 < ?n" using i by linarith
  define j where "j = (home ?n b + Suc r) mod ?n"
  have j: "j < ?n" using n by (simp add: j_def)
  have IH: "occ (bs ! j)" "Suc r \<le> pl (bs ! j)"
    using Suc.hyps(1) [of "Suc r"] Suc.hyps(2) by (auto simp: j_def)
  then have "fits bs (bs ! j) j" using rh j by (simp add: rh_def)
  then have "occ (bs ! prv ?n j) \<and> pl (bs ! j) \<le> Suc (pl (bs ! prv ?n j))"
    using IH by (simp add: fits_def)
  moreover have "prv ?n j = (home ?n b + r) mod ?n"
    using prv_mod [OF n, of "home ?n b + r"] by (simp add: j_def)
  ultimately show ?case using IH by simp
qed

lemma inj_on_shift_mod: "inj_on (\<lambda>r. (h + r) mod n) {..<n}" for h n :: nat
proof (rule inj_onI)
  fix x y assume xy: "x \<in> {..<n}" "y \<in> {..<n}" and eq: "(h + x) mod n = (h + y) mod n"
  show "x = y"
  proof (cases "x \<le> y")
    case True
    then have "n dvd y - x" using eq mod_eq_dvd_iff_nat [of "h + x" "h + y" n] by simp
    then show ?thesis using xy True by (auto dest: dvd_imp_le)
  next
    case False
    then have "n dvd x - y" using eq mod_eq_dvd_iff_nat [of "h + y" "h + x" n] by simp
    then show ?thesis using xy False by (auto dest: dvd_imp_le)
  qed
qed

text \<open>So no probe length exceeds the number of entries, as long as there is an empty slot.\<close>

lemma pl_le_entries:
  assumes rh: "rh bs" and i: "i < length bs" and fit: "fits bs b i"
    and room: "size (entries bs) < length bs"
  shows "pl b \<le> size (entries bs)"
proof -
  let ?n = "length bs" and ?S = "{i. i < length bs \<and> occ (bs ! i)}"
  let ?f = "\<lambda>r. (home ?n b + r) mod ?n"
  have n: "0 < ?n" using i by linarith
  have "?f ` {..<min (pl b) ?n} \<subseteq> ?S"
    using chain_before [OF rh i fit] mod_less_divisor [OF n] by auto
  then have "card (?f ` {..<min (pl b) ?n}) \<le> card ?S"
    by (intro card_mono) auto
  moreover have "inj_on ?f {..<min (pl b) ?n}"
    using inj_on_shift_mod by (rule inj_on_subset) auto
  ultimately have "min (pl b) ?n \<le> size (entries bs)"
    by (simp add: card_image size_entries)
  then show ?thesis using room by simp
qed

text \<open>An array with room has an empty slot at some distance, and only occupied slots before it.\<close>

definition free_at :: "bucket list \<Rightarrow> nat \<Rightarrow> nat \<Rightarrow> bool" where
  "free_at bs i d \<longleftrightarrow> d < length bs \<and> bucket_is_empty (bs ! ((i + d) mod length bs)) \<and>
     (\<forall>j<d. occ (bs ! ((i + j) mod length bs)))"

lemma free_at_exists:
  assumes room: "size (entries bs) < length bs" and i: "i < length bs"
  shows "\<exists>d. free_at bs i d"
proof -
  let ?n = "length bs"
  have "\<exists>j < ?n. bucket_is_empty (bs ! j)"
  proof (rule ccontr)
    assume "\<not> ?thesis"
    then have "{i. i < ?n \<and> occ (bs ! i)} = {..<?n}" by auto
    then show False using room by (simp add: size_entries)
  qed
  then obtain j where j: "j < ?n" "bucket_is_empty (bs ! j)" by blast
  define P where "P = (\<lambda>d. bucket_is_empty (bs ! ((i + d) mod ?n)))"
  have "(i + (j + ?n - i) mod ?n) mod ?n = j"
    using i j by (simp add: mod_add_right_eq)
  then have "P ((j + ?n - i) mod ?n)" using j by (simp add: P_def)
  moreover have "(j + ?n - i) mod ?n < ?n" using i by (intro mod_less_divisor) linarith
  ultimately have "P (LEAST d. P d)" "(LEAST d. P d) < ?n"
    by (auto intro: LeastI Least_le le_less_trans)
  moreover have "\<forall>d < (LEAST d. P d). \<not> P d" by (auto dest: not_less_Least)
  ultimately show ?thesis by (auto simp: free_at_def P_def)
qed

lemma free_at_0 [simp]: "i < length bs \<Longrightarrow> free_at bs i 0 \<longleftrightarrow> bucket_is_empty (bs ! i)"
  by (auto simp: free_at_def)

lemma free_at_occ: "free_at bs i (Suc d) \<Longrightarrow> i < length bs \<Longrightarrow> occ (bs ! i)"
  by (auto simp: free_at_def dest: spec [of _ 0])

lemma shift_mod: "(nxt n i + j) mod n = (i + Suc j) mod n"
  by (simp add: nxt_def mod_add_left_eq)

lemma free_at_Suc: "free_at bs i (Suc d) \<Longrightarrow> free_at bs (nxt (length bs) i) d"
  by (auto simp: free_at_def shift_mod)

text \<open>Only the pattern of empty slots matters.\<close>

lemma free_at_update:
  "i < length bs \<Longrightarrow> bucket_is_empty b = bucket_is_empty (bs ! i)
    \<Longrightarrow> free_at (bs[i := b]) j d = free_at bs j d"
proof -
  assume a: "i < length bs" "bucket_is_empty b = bucket_is_empty (bs ! i)"
  have "bucket_is_empty (bs[i := b] ! x) = bucket_is_empty (bs ! x)" for x
    using a by (cases "x = i") auto
  then show ?thesis by (simp add: free_at_def)
qed

subsection \<open>Steps of the loops\<close>

text \<open>Storing a bucket that fits at an empty slot, or in place of one with a smaller probe length.\<close>

lemma fits_update:
  assumes "fits bs b j" "i < length bs" "occ (bs ! i) \<longrightarrow> occ c \<and> pl (bs ! i) \<le> pl c"
  shows "fits (bs[i := c]) b j"
proof (cases "prv (length bs) j = i")
  case True
  then show ?thesis using assms by (auto simp: fits_def)
next
  case False
  then show ?thesis using assms by (auto simp: fits_def)
qed

lemma rh_update:
  assumes rh: "rh bs" and i: "i < length bs" and n: "2 \<le> length bs"
    and fit: "occ c \<longrightarrow> fits bs c i"
    and mono: "occ (bs ! i) \<longrightarrow> occ c \<and> pl (bs ! i) \<le> pl c"
  shows "rh (bs[i := c])"
  unfolding rh_def
proof (intro allI impI)
  fix j assume j: "j < length (bs[i := c])" and o: "occ (bs[i := c] ! j)"
  have "fits bs (bs[i := c] ! j) j"
    using rh j o fit i by (cases "j = i") (auto simp: rh_def)
  then show "fits (bs[i := c]) (bs[i := c] ! j) j"
    using fits_update i mono by blast
qed

text \<open>The bucket held after a step of the loop, with its probe length increased, fits the next slot.\<close>

lemma pl_inc: "pl b < 65535 \<Longrightarrow> pl (b\<lparr>b_probe_length := b_probe_length b + 1\<rparr>) = Suc (pl b)"
  using unat_Suc_no_wrap [of "b_probe_length b"] by (simp add: pl_def)

lemma home_probe [simp]: "home n (b\<lparr>b_probe_length := p\<rparr>) = home n b"
  by (simp add: home_def)

lemma fits_next:
  assumes fit: "(home (length bs) e + pl e) mod length bs = i" and i: "i < length bs"
    and o: "occ (bs ! i)" and le: "pl e \<le> pl (bs ! i)" and small: "pl e < 65535"
  shows "fits bs (e\<lparr>b_probe_length := b_probe_length e + 1\<rparr>) (nxt (length bs) i)"
proof -
  have "Suc (home (length bs) e + pl e) mod length bs = nxt (length bs) i"
    unfolding nxt_def using fit by (metis mod_Suc_eq)
  then show ?thesis
    using assms by (simp add: fits_def pl_inc prv_nxt)
qed

text \<open>Distinct keys, and entries that are well formed and hashed with \<open>H\<close>.\<close>

definition distinct_keys :: "bucket multiset \<Rightarrow> bool" where
  "distinct_keys es \<longleftrightarrow> (\<forall>k. count (image_mset bucket_key es) k \<le> 1)"

definition entries_ok :: "(bytes \<Rightarrow> u32) \<Rightarrow> bucket multiset \<Rightarrow> bool" where
  "entries_ok H es \<longleftrightarrow> (\<forall>b \<in># es. bucket_wf b \<and> occ b \<and> b_hash b = H (bucket_key b))"

lemma distinct_keys_add:
  "distinct_keys (add_mset b es) \<longleftrightarrow>
     distinct_keys es \<and> bucket_key b \<notin> bucket_key ` set_mset es"
proof -
  define c where "c = count (image_mset bucket_key es)"
  have "bucket_key b \<notin> bucket_key ` set_mset es \<longleftrightarrow> c (bucket_key b) = 0"
    unfolding c_def count_eq_zero_iff by simp
  moreover have "count (image_mset bucket_key (add_mset b es)) k
      = (if k = bucket_key b then Suc (c k) else c k)" for k
    by (simp add: c_def)
  moreover have "(\<forall>k. (if k = x then Suc (c k) else c k) \<le> 1) \<longleftrightarrow> (\<forall>k. c k \<le> 1) \<and> c x = 0" for x
    by (metis One_nat_def Suc_le_mono le_zero_eq zero_le_one)
  ultimately show ?thesis
    by (simp add: distinct_keys_def c_def del: count_image_mset)
qed

lemma distinct_keys_inj:
  assumes "distinct_keys es" "a \<in># es" "b \<in># es" "bucket_key a = bucket_key b"
  shows "a = b"
proof (rule ccontr)
  assume "a \<noteq> b"
  then obtain es' where "es = add_mset a (add_mset b es')"
    using assms(2,3) by (metis insert_noteq_member multi_member_split)
  then show False using assms(1,4) by (simp add: distinct_keys_add)
qed

lemma distinct_keys_empty [simp]: "distinct_keys {#}"
  by (simp add: distinct_keys_def)

lemma entries_ok_simps [simp]:
  "entries_ok H {#}"
  "entries_ok H (add_mset b es) \<longleftrightarrow> bucket_wf b \<and> occ b \<and> b_hash b = H (bucket_key b) \<and> entries_ok H es"
  by (auto simp: entries_ok_def)

subsection \<open>Inserting a new key\<close>

text \<open>
  What the Robin Hood loop leaves when the key is not there: the entries \<open>es\<close> (the old ones and
  the new one) are in the array, or in the array but for one that is displaced because its probe
  length reached the limit.
\<close>

definition placed :: "nat \<Rightarrow> bucket multiset \<Rightarrow> u32 option \<Rightarrow> probe_result \<Rightarrow> bucket list \<Rightarrow> bool" where
  "placed n es limit r bs \<longleftrightarrow> length bs = n \<and> rh bs \<and> (case r of
     Stored \<Rightarrow> entries bs = es
   | Found \<Rightarrow> False
   | Displaced e \<Rightarrow> occ e \<and> es = add_mset (strip e) (entries bs) \<and>
       (\<exists>l. limit = Some l \<and> unat l \<le> pl e \<and> pl e \<le> size (entries bs)))"

lemma robin_hood_store:
  assumes k: "1 \<le> k" "k < 64" and len: "length bs = 2 ^ k"
    and i: "unat index < length bs" and rh: "rh bs" and fit: "fits bs e (unat index)" and e: "occ e"
    and empty: "bucket_is_empty (bs ! unat index)"
  shows "\<exists>bs'. robin_hood_loop cmp limit (2 ^ k) bs e index = Some (Inr (Stored, bs'))
    \<and> placed (2 ^ k) (add_mset (strip e) (entries bs)) limit Stored bs'"
proof -
  have "(2::nat) ^ 1 \<le> 2 ^ k" using k by (intro power_increasing) auto
  then have "rh (bs[unat index := e])"
    using rh_update [OF rh i] fit empty len by simp
  then show ?thesis
    using i empty e len entries_store [OF i empty e]
    by (subst robin_hood_loop.simps) (simp add: placed_def)
qed

text \<open>One step over an occupied slot keeps the invariant and the entries.\<close>

lemma robin_hood_step:
  assumes len: "2 \<le> length bs" and i: "i < length bs" and rh: "rh bs" and fit: "fits bs e i"
    and e: "occ e" and o: "occ (bs ! i)"
    and room: "size (entries bs) < length bs" "size (entries bs) < 65535"
    and swap: "swap \<longleftrightarrow> pl (bs ! i) < pl e"
    and bs': "bs' = (if swap then bs[i := e] else bs)"
    and h: "h = (if swap then bs ! i else e)"
    and e': "e' = h\<lparr>b_probe_length := b_probe_length h + 1\<rparr>"
  shows "length bs' = length bs" "rh bs'" "fits bs' e' (nxt (length bs) i)" "occ e'"
    "add_mset (strip e') (entries bs') = add_mset (strip e) (entries bs)"
    "\<And>j d. free_at bs' j d = free_at bs j d"
    "size (entries bs') = size (entries bs)"
    "pl e' \<le> size (entries bs)"
proof -
  show len': "length bs' = length bs" by (simp add: bs')
  show rh': "rh bs'"
    using rh rh_update [OF rh i len, of e] fit o e swap by (simp add: bs')
  have fit_i: "fits bs (bs ! i) i" using rh i o by (simp add: rh_def)
  have occ_i: "occ (bs' ! i)" using o e i by (simp add: bs')
  have ple: "pl h \<le> pl (bs' ! i)" using swap i by (auto simp: bs' h)
  have home: "(home (length bs') h + pl h) mod length bs' = i"
    using fit fit_i by (simp add: h len' fits_def)
  have mono: "add_mset (strip h) (entries bs') = add_mset (strip e) (entries bs)"
    using entries_swap [OF i o e] by (simp add: bs' h)
  have "size (add_mset (strip h) (entries bs')) = size (add_mset (strip e) (entries bs))"
    by (simp only: mono)
  then show sz: "size (entries bs') = size (entries bs)" by simp
  show em: "add_mset (strip e') (entries bs') = add_mset (strip e) (entries bs)"
    using mono by (simp add: e')
  show "occ e'" using o e by (simp add: e' h)
  show "free_at bs' j d = free_at bs j d" for j d
    using free_at_update [OF i, of e] e o by (simp add: bs')
  have "pl h \<le> size (entries bs)"
    using pl_le_entries [OF rh i fit room(1)] pl_le_entries [OF rh i fit_i room(1)] by (simp add: h)
  then have small: "pl h < 65535" using room by simp
  show f: "fits bs' e' (nxt (length bs) i)"
    unfolding e' len' [symmetric]
    using fits_next [OF home _ occ_i ple small] i len' by simp
  have "nxt (length bs') i < length bs'" using len len' by (intro nxt_less) linarith
  then show "pl e' \<le> size (entries bs)"
    using pl_le_entries [OF rh' _ f [unfolded len' [symmetric]]] room sz len' by simp
qed

lemma placed_cong: "es = es' \<Longrightarrow> placed n es limit r bs \<Longrightarrow> placed n es' limit r bs"
  by simp

lemma robin_hood_absent:
  assumes k: "1 \<le> k" "k < 64"
    and cmp: "\<And>e b. bucket_wf e \<Longrightarrow> occ e \<Longrightarrow> bucket_wf b \<Longrightarrow> cmp e b
                \<Longrightarrow> bucket_key b = bucket_key e \<or> bucket_key b = kk"
  shows "\<lbrakk>length bs = 2 ^ k; unat index < length bs; rh bs; fits bs e (unat index); occ e;
     free_at bs (unat index) d; size (entries bs) < length bs; size (entries bs) < 65535;
     entries_ok H (add_mset (strip e) (entries bs));
     distinct_keys (add_mset (strip e) (entries bs));
     \<forall>j<d. bucket_key (bs ! ((unat index + j) mod length bs)) \<noteq> kk\<rbrakk>
   \<Longrightarrow> \<exists>r bs'. robin_hood_loop cmp limit (2 ^ k) bs e index = Some (Inr (r, bs'))
        \<and> placed (2 ^ k) (add_mset (strip e) (entries bs)) limit r bs'"
proof (induction d arbitrary: bs e index)
  case 0
  then show ?case using robin_hood_store [OF k] by (metis free_at_0)
next
  case (Suc d)
  define i where "i = unat index"
  note prems = Suc.prems [folded i_def]
  have o: "occ (bs ! i)" using free_at_occ prems by blast
  have i: "i < length bs" using prems by simp
  define swap where "swap \<longleftrightarrow> b_probe_length e > b_probe_length (bs ! i)"
  define bs1 where "bs1 = (if swap then bs[i := e] else bs)"
  define h where "h = (if swap then bs ! i else e)"
  define e1 where "e1 = h\<lparr>b_probe_length := b_probe_length h + 1\<rparr>"
  define index1 where "index1 = (index + 1) AND (2 ^ k - 1)"
  have index1: "unat index1 = nxt (length bs) i"
    using unat_next_index [OF k(2), of index] prems(1) by (simp add: index1_def i_def)
  have "(2::nat) ^ 1 \<le> 2 ^ k" using k by (intro power_increasing) auto
  then have len2: "2 \<le> length bs" using prems(1) by simp
  have "swap \<longleftrightarrow> pl (bs ! i) < pl e" by (simp add: swap_def pl_def word_less_nat_alt)
  note st = robin_hood_step [OF len2 i prems(3,4,5) o prems(7,8) this bs1_def h_def e1_def]
  have in_i: "strip (bs ! i) \<in># entries bs" using i o by (auto simp: in_entries_iff)
  have nocmp: "\<not> cmp e (bs ! i)"
  proof
    assume c: "cmp e (bs ! i)"
    have "bucket_wf (bs ! i)" "bucket_wf e"
      using prems(9) in_i o prems(5) by (auto simp: entries_ok_def)
    with c cmp prems(5) have "bucket_key (bs ! i) = bucket_key e \<or> bucket_key (bs ! i) = kk" by blast
    moreover have "bucket_key (bs ! i) \<noteq> bucket_key e"
      using prems(10) in_i by (auto simp: distinct_keys_add image_iff dest!: bspec)
    moreover have "bucket_key (bs ! i) \<noteq> kk" using prems(11) i by (auto dest: spec [of _ 0])
    ultimately show False by simp
  qed
  have unf: "robin_hood_loop cmp limit (2 ^ k) bs e index =
      (if limit \<noteq> None \<and> (ucast (b_probe_length e1) :: u32) \<ge> the limit
       then Some (Inr (Displaced e1, bs1)) else robin_hood_loop cmp limit (2 ^ k) bs1 e1 index1)"
    using i o nocmp
    by (subst robin_hood_loop.simps)
       (simp add: Let_def bs1_def h_def e1_def index1_def swap_def flip: i_def)
  show ?case
  proof (cases "limit \<noteq> None \<and> (ucast (b_probe_length e1) :: u32) \<ge> the limit")
    case True
    then obtain l where l: "limit = Some l" "l \<le> ucast (b_probe_length e1)" by auto
    then have "unat l \<le> pl e1" by (simp add: word_le_nat_alt pl_def unat_ucast_up)
    then have "placed (2 ^ k) (add_mset (strip e) (entries bs)) limit (Displaced e1) bs1"
      using l st prems(1) by (simp add: placed_def)
    then show ?thesis using unf True by auto
  next
    case False
    have ahead: "\<forall>j<d. bucket_key (bs1 ! ((unat index1 + j) mod length bs1)) \<noteq> kk"
    proof (intro allI impI)
      fix j assume j: "j < d"
      have "bs \<noteq> []" using len2 by auto
      then have "(i + Suc j) mod length bs \<noteq> (i + 0) mod length bs"
        using inj_on_eq_iff [OF inj_on_shift_mod, of "Suc j" "length bs" 0 i] j prems(6)
        by (simp add: free_at_def)
      then have "bs1 ! ((i + Suc j) mod length bs) = bs ! ((i + Suc j) mod length bs)"
        using i by (simp add: bs1_def)
      then show "bucket_key (bs1 ! ((unat index1 + j) mod length bs1)) \<noteq> kk"
        using prems(11) [rule_format, of "Suc j"] j by (simp add: index1 st(1) shift_mod)
    qed
    have "\<exists>r bs'. robin_hood_loop cmp limit (2 ^ k) bs1 e1 index1 = Some (Inr (r, bs'))
        \<and> placed (2 ^ k) (add_mset (strip e1) (entries bs1)) limit r bs'"
    proof (rule Suc.IH)
      show "unat index1 < length bs1" unfolding index1 st(1) using len2 by (intro nxt_less) linarith
      show "free_at bs1 (unat index1) d" using free_at_Suc [OF prems(6)] st(6) index1 by simp
    qed (use st prems index1 ahead in simp_all)
    then show ?thesis unfolding unf if_not_P [OF False] st(5) .
  qed
qed

subsection \<open>Inserting a key that is there\<close>

text \<open>The slots between the home of a stored bucket and its slot.\<close>

lemma walk_to_slot:
  assumes rh: "rh bs" and j: "j < length bs" and o: "occ (bs ! j)" and p: "p \<le> pl (bs ! j)"
    and i: "i = (home (length bs) (bs ! j) + p) mod length bs"
  shows "i < length bs" "occ (bs ! i)" "p \<le> pl (bs ! i)" "p = pl (bs ! j) \<Longrightarrow> i = j"
    "nxt (length bs) i = (home (length bs) (bs ! j) + Suc p) mod length bs"
proof -
  have fit: "fits bs (bs ! j) j" using rh j o by (simp add: rh_def)
  show "i < length bs" using j i by (auto intro!: mod_less_divisor)
  show eq: "i = j" if "p = pl (bs ! j)" using fit that i by (simp add: fits_def)
  show "occ (bs ! i)" "p \<le> pl (bs ! i)"
    using chain_before [OF rh j fit, of p] p o eq i by (cases "p = pl (bs ! j)"; auto)+
  show "nxt (length bs) i = (home (length bs) (bs ! j) + Suc p) mod length bs"
    by (simp add: nxt_def i mod_Suc_eq)
qed

lemma robin_hood_present:
  assumes k: "1 \<le> k" "k < 64" and len: "length bs = 2 ^ k" and rh: "rh bs"
    and j: "j < length bs" "occ (bs ! j)"
    and cmp: "\<And>e'. strip e' = strip ee \<Longrightarrow> cmp e' (bs ! j)"
  shows "\<lbrakk>strip e = strip ee; pl e \<le> pl (bs ! j);
          unat index = (home (length bs) (bs ! j) + pl e) mod length bs\<rbrakk>
    \<Longrightarrow> \<exists>r. robin_hood_loop cmp limit (2 ^ k) bs e index = Some (Inr (r, bs)) \<and>
          (r = Found \<or> (\<exists>e' l. r = Displaced e' \<and> strip e' = strip ee \<and> limit = Some l
                          \<and> unat l \<le> pl e' \<and> pl e' \<le> pl (bs ! j)))"
proof (induction "pl (bs ! j) - pl e" arbitrary: e index)
  case 0
  note w = walk_to_slot [OF rh j 0(3,4)]
  have "unat index = j" using w(4) 0(1,3) by simp
  then show ?case using 0(2) j cmp by (subst robin_hood_loop.simps) simp
next
  case (Suc m)
  note w = walk_to_slot [OF rh j Suc(4,5)]
  define e1 where "e1 = e\<lparr>b_probe_length := b_probe_length e + 1\<rparr>"
  define index1 where "index1 = (index + 1) AND (2 ^ k - 1)"
  have "pl (bs ! j) < 65536" using unsigned_less [of "b_probe_length (bs ! j)"] by (simp add: pl_def)
  then have pl1: "pl e1 = Suc (pl e)" using Suc(2) by (simp add: e1_def pl_inc)
  have noswap: "\<not> b_probe_length e > b_probe_length (bs ! unat index)"
    using w(3) by (simp add: pl_def word_le_nat_alt not_less)
  have unf: "robin_hood_loop cmp limit (2 ^ k) bs e index =
      (if cmp e (bs ! unat index) then Some (Inr (Found, bs))
       else if limit \<noteq> None \<and> (ucast (b_probe_length e1) :: u32) \<ge> the limit
       then Some (Inr (Displaced e1, bs)) else robin_hood_loop cmp limit (2 ^ k) bs e1 index1)"
    using w noswap by (subst robin_hood_loop.simps) (simp add: Let_def e1_def index1_def)
  have IH: "\<exists>r. robin_hood_loop cmp limit (2 ^ k) bs e1 index1 = Some (Inr (r, bs)) \<and>
          (r = Found \<or> (\<exists>e' l. r = Displaced e' \<and> strip e' = strip ee \<and> limit = Some l
                          \<and> unat l \<le> pl e' \<and> pl e' \<le> pl (bs ! j)))"
  proof (rule Suc(1))
    show "m = pl (bs ! j) - pl e1" "pl e1 \<le> pl (bs ! j)" using Suc(2) pl1 by simp_all
    show "strip e1 = strip ee" using Suc(3) by (simp add: e1_def)
    show "unat index1 = (home (length bs) (bs ! j) + pl e1) mod length bs"
      using unat_next_index [OF k(2), of index] w(5) pl1 len by (simp add: index1_def)
  qed
  have l: "unat (the limit) \<le> pl e1" if "(ucast (b_probe_length e1) :: u32) \<ge> the limit"
    using that by (simp add: word_le_nat_alt pl_def unat_ucast_up)
  show ?case
  proof (cases "cmp e (bs ! unat index) \<or> \<not> (limit \<noteq> None \<and> (ucast (b_probe_length e1) :: u32) \<ge> the limit)")
    case True
    then show ?thesis using unf IH by auto
  next
    case False
    then have "strip e1 = strip ee" "pl e1 \<le> pl (bs ! j)" "limit = Some (the limit)"
      using Suc(2,3) pl1 by (auto simp: e1_def)
    then show ?thesis using unf False l by auto
  qed
qed

subsection \<open>The backward shift\<close>

text \<open>
  During the shift the slot \<open>hole\<close> is taken as if the bucket \<open>g\<close> were still there; clearing it
  at the end restores the invariant because the next bucket is at home or the slot is empty.
\<close>

lemma rh_clear:
  assumes rh: "rh bs" and i: "i < length bs" and n: "2 \<le> length bs" and c: "bucket_is_empty c"
    and next_ok: "bucket_is_empty (bs ! nxt (length bs) i) \<or> pl (bs ! nxt (length bs) i) = 0"
  shows "rh (bs[i := c])"
  unfolding rh_def
proof (intro allI impI)
  fix j assume j: "j < length (bs[i := c])" and o: "occ (bs[i := c] ! j)"
  then have "j \<noteq> i" using i c by auto
  then have ji: "j \<noteq> i" "j < length bs" "occ (bs ! j)" using j o by auto
  then have fit: "fits bs (bs ! j) j" using rh by (simp add: rh_def)
  show "fits (bs[i := c]) (bs[i := c] ! j) j"
  proof (cases "j = nxt (length bs) i")
    case True
    then have "pl (bs ! j) = 0" using next_ok ji by auto
    then show ?thesis using fit ji by (simp add: fits_def)
  next
    case False
    then have "prv (length bs) j \<noteq> i" using prv_eq_iff i ji by blast
    then show ?thesis using fit ji by (simp add: fits_def)
  qed
qed

lemma rh_shift:
  assumes rh: "rh bs" and i: "i < length bs" and n: "2 \<le> length bs" and o: "occ (bs ! i)"
    and i': "i' = nxt (length bs) i"
    and b: "b = bs ! i'" "occ b" "0 < pl b"
    and c: "c = b\<lparr>b_probe_length := b_probe_length b - 1\<rparr>"
  shows "rh (bs[i := c])" and "occ c" and "pl c = pl b - 1"
proof -
  have lt: "i' < length bs" using n unfolding i' by (intro nxt_less) linarith
  have ne: "i' \<noteq> i" using prv_neq [OF n, of i'] prv_nxt [OF i] lt i' by auto
  have fit: "fits bs b i'" using rh lt b by (simp add: rh_def)
  have fit_i: "fits bs (bs ! i) i" using rh i o by (simp add: rh_def)
  show "occ c" using b by (simp add: c)
  have "b_probe_length b \<noteq> 0" using b(3) by (auto simp: pl_def)
  then show plc: "pl c = pl b - 1" by (simp add: c pl_def unat_minus_one)
  have "(home (length bs) c + pl c) mod length bs = i"
  proof -
    have "nxt (length bs) ((home (length bs) b + (pl b - 1)) mod length bs) = i'"
      using fit b(3) by (simp add: nxt_def fits_def mod_Suc_eq)
    then have "(home (length bs) b + (pl b - 1)) mod length bs = i"
      using prv_nxt [of "(home (length bs) b + (pl b - 1)) mod length bs" "length bs"] prv_nxt [OF i] i'
      by (metis i gr_implies_not0 mod_less_divisor not_gr_zero)
    then show ?thesis by (simp add: c plc [unfolded c])
  qed
  moreover have "pl c \<le> pl (bs ! i)"
    using fit prv_nxt [OF i] b(3) plc by (auto simp: fits_def i')
  ultimately have fc: "fits bs c i"
    using fit_i by (auto simp: fits_def)
  show "rh (bs[i := c])"
    unfolding rh_def
  proof (intro allI impI)
    fix j assume j: "j < length (bs[i := c])" and oj: "occ (bs[i := c] ! j)"
    have "fits bs (bs[i := c] ! j) j"
      using rh j oj fc i by (cases "j = i") (auto simp: rh_def)
    moreover have "pl (bs ! i') \<le> Suc (pl c)" using plc b by simp
    ultimately show "fits (bs[i := c]) (bs[i := c] ! j) j"
      using i j ne \<open>occ c\<close> prv_neq [OF n i] b(1) i' lt prv_eq_iff [OF i, of j]
      by (cases "prv (length bs) j = i") (auto simp: fits_def)
  qed
qed

text \<open>
  The shift loop: started at a hole where the occupied bucket \<open>g\<close> stood, it ends with the
  invariant restored and the other entries kept.
\<close>

lemma backward_shift:
  assumes k: "1 \<le> k" "k < 64"
  shows "\<lbrakk>length bs = 2 ^ k; unat hole < length bs; occ g; rh (bs[unat hole := g]);
     free_at (bs[unat hole := g]) (unat hole) d\<rbrakk>
   \<Longrightarrow> \<exists>bs'. backward_shift_loop (2 ^ k) bs hole = Some (Inr bs') \<and> length bs' = length bs \<and>
        rh bs' \<and> entries bs' = entries (bs[unat hole := bucket_zero])"
proof (induction d arbitrary: bs hole g)
  case 0
  then show ?case by simp
next
  case (Suc d)
  define i where "i = unat hole"
  define i' where "i' = nxt (2 ^ k) i"
  define G where "G = bs[i := g]"
  note prems = Suc.prems [folded i_def, folded G_def]
  have "(2::nat) ^ 1 \<le> 2 ^ k" using k by (intro power_increasing) auto
  then have n2: "2 \<le> length G" using prems(1) by (simp add: G_def)
  have i: "i < length G" using prems by (simp add: G_def)
  have i'_eq: "i' = nxt (length G) i" using prems(1) by (simp add: i'_def G_def)
  have i'_lt: "i' < length bs" unfolding i'_def prems(1) by (intro nxt_less) simp
  have ne: "i' \<noteq> i" using prv_neq [OF n2, of i'] prv_nxt [OF i] i'_lt i'_eq by (auto simp: G_def)
  define index where "index = (hole + 1) AND (2 ^ k - 1 :: u64)"
  have index: "unat index = i'"
    using unat_next_index [OF k(2), of hole] by (simp add: index_def i_def i'_def)
  define b where "b = bs ! i'"
  have b_G: "b = G ! i'" using ne by (simp add: b_def G_def)
  define c where "c = b\<lparr>b_probe_length := b_probe_length b - 1\<rparr>"
  have pl0: "bucket_get_probe_length b = 0 \<longleftrightarrow> pl b = 0"
    by (simp add: bucket_get_probe_length_def pl_def unat_ucast_up word_unat_eq_iff)
  have dec: "bucket_set_probe_length b (bucket_get_probe_length b - 1) = c" if "0 < pl b"
  proof -
    have ne0: "b_probe_length b \<noteq> 0" using that by (auto simp: pl_def)
    then have "(ucast (b_probe_length b) :: u32) \<noteq> 0"
      using that by (simp add: word_unat_eq_iff unat_ucast_up)
    then have "unat (ucast (b_probe_length b) - 1 :: u32) = unat (b_probe_length b - 1)"
      using ne0 by (simp add: unat_minus_one unat_ucast_up)
    then have "(ucast (ucast (b_probe_length b) - 1 :: u32) :: u16) = b_probe_length b - 1"
      by (rule ucast_eq_of_unat)
    then show ?thesis by (simp add: bucket_set_probe_length_def bucket_get_probe_length_def c_def)
  qed
  have unf: "backward_shift_loop (2 ^ k) bs hole =
     (if bucket_is_empty b \<or> pl b = 0 then Some (Inr (bs[i := bucket_zero]))
      else backward_shift_loop (2 ^ k) (bs[i := bucket_zero, i' := c, i := c]) index)"
    using i'_lt ne dec
    by (subst backward_shift_loop.simps)
       (simp add: Let_def bucket_set_empty_def index pl0 flip: i_def index_def b_def)
  show ?case
  proof (cases "bucket_is_empty b \<or> pl b = 0")
    case True
    have "rh (G[i := bucket_zero])"
      using rh_clear [OF prems(4) i n2, of bucket_zero] True by (simp add: b_G i'_eq)
    then show ?thesis using True unf by (simp add: G_def flip: i_def)
  next
    case False
    define bs1 where "bs1 = bs[i := bucket_zero, i' := c, i := c]"
    have occ_i: "occ (G ! i)" using prems i by (simp add: G_def)
    have ob: "occ b" "0 < pl b" using False by auto
    note sh = rh_shift [OF prems(4) i n2 occ_i i'_eq b_G ob c_def]
    have G1: "bs1[i' := b] = G[i := c]"
      using ne by (simp add: bs1_def G_def b_def list_update_swap [of i i'])
    have "\<exists>bs'. backward_shift_loop (2 ^ k) bs1 index = Some (Inr bs') \<and> length bs' = length bs1 \<and>
        rh bs' \<and> entries bs' = entries (bs1[unat index := bucket_zero])"
    proof (rule Suc.IH)
      have "free_at (G[i := c]) i (Suc d)"
        using free_at_update [OF i, of c] prems(5) sh(2) occ_i by simp
      then show "free_at (bs1[unat index := b]) (unat index) d"
        using free_at_Suc [of "G[i := c]" i d] by (simp add: index G1 flip: i'_eq)
    qed (use sh(1) ob prems i'_lt in \<open>simp_all add: index G1\<close>, simp_all add: bs1_def)
    moreover have "entries (bs1[i' := bucket_zero]) = entries (bs[i := bucket_zero])"
    proof -
      let ?z = "bs[i := bucket_zero]"
      have z: "i < length ?z" "i' < length ?z" using prems i'_lt by simp_all
      have "bs1[i' := bucket_zero] = ?z[i' := bucket_zero, i := c]"
        using ne by (simp add: bs1_def list_update_swap [of i i'])
      then have "entries (bs1[i' := bucket_zero]) = add_mset (strip c) (entries (?z[i' := bucket_zero]))"
        using entries_store [of i "?z[i' := bucket_zero]" c] z ne sh(2) prems by simp
      moreover have "add_mset (strip b) (entries (?z[i' := bucket_zero])) = entries ?z"
        using entries_clear [of i' ?z bucket_zero] z ne ob by (simp add: b_def)
      ultimately show ?thesis by (simp add: c_def)
    qed
    ultimately show ?thesis using False unf by (simp add: bs1_def index flip: i_def)
  qed
qed

end
