(* ===== verification/HashMapSpec.thy ===== *)
theory HashMapSpec
  imports RobinHood
begin

text \<open>
  The hash map as a finite map from keys to values: the invariant of a map, its abstraction, and
  what each operation does to it.
\<close>

subsection \<open>Invariant and abstraction\<close>

text \<open>The hash of a key, as the map's functions compute it for its bytes.\<close>

definition hm_hash :: "hashmap \<Rightarrow> bytes \<Rightarrow> u32" where
  "hm_hash m key = hm_hash_func m key (of_nat (length key)) (hm_hashkey m)"

definition hm_ok :: "nat \<Rightarrow> hashmap \<Rightarrow> bool" where
  "hm_ok k m \<longleftrightarrow>
     1 \<le> k \<and> k < 64 \<and> hm_capacity m = 2 ^ k \<and> length (hm_buckets m) = 2 ^ k \<and>
     hm_max_probes m = of_nat k \<and>
     rh (hm_buckets m) \<and> size (entries (hm_buckets m)) < 2 ^ k \<and>
     hm_size m = of_nat (size (entries (hm_buckets m))) \<and>
     entries_ok (hm_hash m) (entries (hm_buckets m)) \<and> distinct_keys (entries (hm_buckets m))"

definition hm_inv :: "hashmap \<Rightarrow> bool" where
  "hm_inv m \<longleftrightarrow> (\<exists>k. hm_ok k m)"

text \<open>The number of entries, and the map from keys to values and value sizes.\<close>

definition hm_count :: "hashmap \<Rightarrow> nat" where
  "hm_count m = length (filter (\<lambda>b. \<not> bucket_is_empty b) (hm_buckets m))"

definition hm_view :: "hashmap \<Rightarrow> bytes \<rightharpoonup> bytes \<times> u32" where
  "hm_view m = map_of (map (\<lambda>b. (bucket_key b, (bucket_get_value b, b_value_size b)))
                         (filter (\<lambda>b. \<not> bucket_is_empty b) (hm_buckets m)))"

text \<open>The same map, read off a multiset of entries with distinct keys.\<close>

definition view_of :: "bucket multiset \<Rightarrow> bytes \<rightharpoonup> bytes \<times> u32" where
  "view_of es key =
     (if \<exists>b. b \<in># es \<and> bucket_key b = key
      then let b = (THE b. b \<in># es \<and> bucket_key b = key) in Some (bucket_get_value b, b_value_size b)
      else None)"

lemma hm_count_eq: "hm_count m = size (entries (hm_buckets m))"
  by (simp add: hm_count_def entries_def flip: mset_filter)

lemma view_of_in:
  assumes "distinct_keys es" "b \<in># es"
  shows "view_of es (bucket_key b) = Some (bucket_get_value b, b_value_size b)"
proof -
  have "(THE c. c \<in># es \<and> bucket_key c = bucket_key b) = b"
    using assms distinct_keys_inj by blast
  then show ?thesis using assms by (auto simp: view_of_def)
qed

lemma view_of_notin: "key \<notin> bucket_key ` set_mset es \<Longrightarrow> view_of es key = None"
  by (auto simp: view_of_def)

lemma dom_view_of: "dom (view_of es) = bucket_key ` set_mset es"
  by (auto simp: view_of_def dom_def image_iff Let_def split: if_splits)

lemma view_of_add:
  assumes "distinct_keys (add_mset b es)"
  shows "view_of (add_mset b es) = (view_of es)(bucket_key b \<mapsto> (bucket_get_value b, b_value_size b))"
proof
  fix key
  have d: "distinct_keys es" using assms by (simp add: distinct_keys_add)
  consider "key = bucket_key b" | "key \<noteq> bucket_key b" "key \<in> bucket_key ` set_mset es"
    | "key \<noteq> bucket_key b" "key \<notin> bucket_key ` set_mset es" by blast
  then show "view_of (add_mset b es) key
      = ((view_of es)(bucket_key b \<mapsto> (bucket_get_value b, b_value_size b))) key"
  proof cases
    case 1
    then show ?thesis using view_of_in [OF assms, of b] by simp
  next
    case 2
    then obtain c where "c \<in># es" "key = bucket_key c" by auto
    then show ?thesis using 2 view_of_in [OF assms, of c] view_of_in [OF d, of c] by simp
  next
    case 3
    then show ?thesis by (simp add: view_of_notin)
  qed
qed

lemma hm_view_eq:
  assumes "distinct_keys (entries (hm_buckets m))"
  shows "hm_view m = view_of (entries (hm_buckets m))"
proof -
  define bs where "bs = filter (\<lambda>b. \<not> bucket_is_empty b) (hm_buckets m)"
  have es: "entries (hm_buckets m) = image_mset strip (mset bs)"
    by (simp add: entries_def bs_def)
  have "distinct_keys (image_mset strip (mset bs)) \<Longrightarrow>
     map_of (map (\<lambda>b. (bucket_key b, (bucket_get_value b, b_value_size b))) bs)
       = view_of (image_mset strip (mset bs))"
  proof (induction bs)
    case Nil
    then show ?case by (simp add: view_of_def fun_eq_iff)
  next
    case (Cons b bs)
    then show ?case using view_of_add [of "strip b"] by (simp add: distinct_keys_add)
  qed
  then show ?thesis using assms by (simp add: hm_view_def es flip: bs_def)
qed

lemma hashmap_hash_eq:
  fixes n :: u32
  assumes "unat n \<le> length key"
  shows "hashmap_hash m key (ucast n) = hm_hash m (take (unat n) key)"
proof -
  have "(ucast n :: u64) = of_nat (unat n)" by simp
  moreover have "unat (ucast n :: u64) = unat n" by (rule unat_ucast_up) simp
  ultimately show ?thesis using assms by (simp add: hashmap_hash_def hm_hash_def min_def)
qed

lemma unat_hashmap_index:
  assumes "hm_capacity m = 2 ^ k" "k < 64"
  shows "unat (hashmap_index m h) = unat h mod 2 ^ k"
  using assms unat_and_mask [of k "ucast h :: u64"] by (simp add: hashmap_index_def unat_ucast_up)

lemma bucket_hash_eq:
  assumes "bucket_wf b"
  shows "hashmap_hash m (bucket_get_key b) (ucast (bucket_get_key_size b)) = hm_hash m (bucket_key b)"
proof -
  have "unat (bucket_get_key_size b) \<le> length (bucket_get_key b)"
    using bucket_key_length [OF assms] by (simp add: bucket_key_def)
  then show ?thesis by (simp add: hashmap_hash_eq bucket_key_def)
qed

lemma size_less_length: "hm_ok k m \<Longrightarrow> size (entries (hm_buckets m)) < length (hm_buckets m)"
  by (simp add: hm_ok_def)

lemma hm_ok_size: "hm_ok k m \<Longrightarrow> unat (hm_size m) = hm_count m"
proof -
  assume ok: "hm_ok k m"
  then have "size (entries (hm_buckets m)) < 2 ^ k" "k < 64" by (simp_all add: hm_ok_def)
  moreover have "(2::nat) ^ k \<le> 2 ^ 64" using \<open>k < 64\<close> by (intro power_increasing) auto
  ultimately have "hm_count m < 2 ^ 64" by (simp add: hm_count_eq)
  then show ?thesis using ok by (simp add: hm_ok_def hm_count_eq unat_of_nat take_bit_nat_eq_self)
qed

subsection \<open>Lookup\<close>

lemma in_buckets:
  assumes "hm_ok k m" "i < 2 ^ k" "occ (hm_buckets m ! i)"
  shows "bucket_wf (hm_buckets m ! i)" "b_hash (hm_buckets m ! i) = hm_hash m (bucket_key (hm_buckets m ! i))"
proof -
  have "strip (hm_buckets m ! i) \<in># entries (hm_buckets m)"
    using assms by (auto simp: in_entries_iff hm_ok_def)
  then show "bucket_wf (hm_buckets m ! i)"
    "b_hash (hm_buckets m ! i) = hm_hash m (bucket_key (hm_buckets m ! i))"
    using assms by (auto simp: hm_ok_def entries_ok_def)
qed

text \<open>The comparison of the key with a bucket of the array, when the key is not empty.\<close>

lemma compare_in_buckets:
  assumes "hm_ok k m" "i < 2 ^ k" "unat n \<le> length key" "0 < n"
    "h = hm_hash m (take (unat n) key)"
  shows "bucket_compare_key (hm_buckets m ! i) key n h \<longleftrightarrow>
     occ (hm_buckets m ! i) \<and> bucket_key (hm_buckets m ! i) = take (unat n) key"
proof (cases "occ (hm_buckets m ! i)")
  case True
  then show ?thesis
    using assms in_buckets [OF assms(1,2) True] by (auto simp: bucket_compare_key_iff)
next
  case False
  then show ?thesis
    using assms(4) by (auto simp: bucket_compare_key_def bucket_is_empty_def)
qed

lemma hm_okD:
  assumes "hm_ok k m"
  shows "1 \<le> k" "k < 64" "hm_capacity m = 2 ^ k" "length (hm_buckets m) = 2 ^ k"
    "rh (hm_buckets m)" "distinct_keys (entries (hm_buckets m))"
    "entries_ok (hm_hash m) (entries (hm_buckets m))"
  using assms by (simp_all add: hm_ok_def)

lemma find_slot:
  assumes ok: "hm_ok k m" and key: "key \<in> bucket_key ` set_mset (entries (hm_buckets m))"
  obtains j where "j < length (hm_buckets m)" "occ (hm_buckets m ! j)" "bucket_key (hm_buckets m ! j) = key"
    "home (2 ^ k) (hm_buckets m ! j) = unat (hm_hash m key) mod 2 ^ k"
    "hm_view m key = Some (bucket_get_value (hm_buckets m ! j), b_value_size (hm_buckets m ! j))"
proof -
  from key obtain j where j: "j < length (hm_buckets m)" "occ (hm_buckets m ! j)"
    "bucket_key (hm_buckets m ! j) = key"
    by (auto simp: in_entries_iff)
  moreover have "home (2 ^ k) (hm_buckets m ! j) = unat (hm_hash m key) mod 2 ^ k"
    using in_buckets(2) [OF ok _ j(2)] j hm_okD(4) [OF ok] by (simp add: home_def)
  moreover have "strip (hm_buckets m ! j) \<in># entries (hm_buckets m)"
    using j by (auto simp: in_entries_iff)
  then have "hm_view m key = Some (bucket_get_value (hm_buckets m ! j), b_value_size (hm_buckets m ! j))"
    using view_of_in [OF hm_okD(6) [OF ok], of "strip (hm_buckets m ! j)"] j
    by (simp add: hm_view_eq [OF hm_okD(6) [OF ok]])
  ultimately show thesis by (rule that)
qed

lemma dom_hm_view: "hm_ok k m \<Longrightarrow> dom (hm_view m) = bucket_key ` set_mset (entries (hm_buckets m))"
  by (simp add: hm_view_eq hm_okD(6) dom_view_of)

lemma distinct_slots:
  assumes d: "distinct_keys (entries bs)" and i: "i < length bs" "occ (bs ! i)"
    and j: "j < length bs" "occ (bs ! j)" and eq: "bucket_key (bs ! i) = bucket_key (bs ! j)"
  shows "i = j"
proof (rule ccontr)
  assume ne: "i \<noteq> j"
  have es: "entries bs = add_mset (strip (bs ! i)) (entries (bs[i := bucket_zero]))"
    using entries_clear [OF i, of bucket_zero] by simp
  have "strip (bs ! j) \<in># entries (bs[i := bucket_zero])"
    using j ne by (auto simp: in_entries_iff intro!: exI [of _ j])
  then have "bucket_key (bs ! i) \<in> bucket_key ` set_mset (entries (bs[i := bucket_zero]))"
    using eq by (metis image_eqI strip_views(1))
  then show False using d es by (simp add: distinct_keys_add)
qed

text \<open>
  The two walks that lookup, removal and update make: to the slot of a key that is there, over
  occupied slots with other keys whose probe lengths are at least the distance walked; and, when the
  key is not there, over occupied slots with other keys up to an empty slot.
\<close>

lemma walk_present [consumes 7, case_names here skip]:
  assumes ok: "hm_ok k m" and n: "unat n \<le> length key" "0 < n"
    and h: "h = hm_hash m (take (unat n) key)"
    and j: "j < length (hm_buckets m)" "occ (hm_buckets m ! j)"
      "bucket_key (hm_buckets m ! j) = take (unat n) key"
    and here: "\<And>index p :: u32. unat index = j \<Longrightarrow> unat p \<le> pl (hm_buckets m ! j) \<Longrightarrow> Q index p"
    and skip: "\<And>index p. \<lbrakk>unat index < length (hm_buckets m); occ (hm_buckets m ! unat index);
        \<not> bucket_compare_key (hm_buckets m ! unat index) key n h;
        \<not> p > bucket_get_probe_length (hm_buckets m ! unat index);
        Q ((index + 1) AND (hm_capacity m - 1)) (p + 1)\<rbrakk> \<Longrightarrow> Q index p"
  shows "Q (hashmap_index m h) 0"
proof -
  let ?bs = "hm_buckets m"
  have home: "home (length ?bs) (?bs ! j) = unat h mod 2 ^ k"
    using in_buckets(2) [OF ok _ j(2)] j hm_okD(4) [OF ok] h by (simp add: home_def)
  have "unat p \<le> pl (?bs ! j) \<Longrightarrow> unat index = (home (length ?bs) (?bs ! j) + unat p) mod length ?bs
    \<Longrightarrow> Q index p" for index p
  proof (induction "pl (?bs ! j) - unat p" arbitrary: p index)
    case 0
    show ?case using walk_to_slot(4) [OF hm_okD(5) [OF ok] j(1,2) 0(2,3)] 0 here by simp
  next
    case (Suc d)
    note w = walk_to_slot [OF hm_okD(5) [OF ok] j(1,2) Suc(3,4)]
    have lt: "unat index < 2 ^ k" using w(1) hm_okD(4) [OF ok] by simp
    have "pl (?bs ! j) < 65536" using unsigned_less [of "b_probe_length (?bs ! j)"] by (simp add: pl_def)
    then have p1: "unat (p + 1) = Suc (unat p)"
      using Suc(2) by (intro unat_Suc_no_wrap) simp
    have IH: "Q ((index + 1) AND (hm_capacity m - 1)) (p + 1)"
    proof (rule Suc(1))
      show "d = pl (?bs ! j) - unat (p + 1)" "unat (p + 1) \<le> pl (?bs ! j)" using Suc(2) p1 by simp_all
      show "unat ((index + 1) AND (hm_capacity m - 1))
          = (home (length ?bs) (?bs ! j) + unat (p + 1)) mod length ?bs"
        using unat_next_index [OF hm_okD(2) [OF ok], of index] w(5) p1 hm_okD(3,4) [OF ok] by simp
    qed
    show ?case
    proof (cases "unat index = j")
      case True
      then show ?thesis using here Suc(3) by simp
    next
      case False
      have "bucket_key (?bs ! unat index) \<noteq> take (unat n) key"
        using distinct_slots [OF hm_okD(6) [OF ok] w(1,2) j(1,2)] False j(3) by auto
      then have "\<not> bucket_compare_key (?bs ! unat index) key n h"
        using compare_in_buckets [OF ok lt n h] by simp
      moreover have "\<not> p > bucket_get_probe_length (?bs ! unat index)"
        using w(3) by (simp add: bucket_get_probe_length_def word_less_nat_alt unat_ucast_up pl_def)
      ultimately show ?thesis using skip [OF w(1,2)] IH by simp
    qed
  qed
  then show ?thesis
    using unat_hashmap_index [OF hm_okD(3,2) [OF ok], of h] home hm_okD(4) [OF ok] by simp
qed

lemma walk_absent [consumes 5, case_names free skip]:
  assumes ok: "hm_ok k m" and n: "unat n \<le> length key" "0 < n"
    and h: "h = hm_hash m (take (unat n) key)"
    and absent: "take (unat n) key \<notin> bucket_key ` set_mset (entries (hm_buckets m))"
    and free: "\<And>index p :: u32. unat index < length (hm_buckets m) \<Longrightarrow>
        bucket_is_empty (hm_buckets m ! unat index) \<Longrightarrow>
        \<not> bucket_compare_key (hm_buckets m ! unat index) key n h \<Longrightarrow> Q index p"
    and skip: "\<And>index p. \<lbrakk>unat index < length (hm_buckets m); occ (hm_buckets m ! unat index);
        \<not> bucket_compare_key (hm_buckets m ! unat index) key n h;
        Q ((index + 1) AND (hm_capacity m - 1)) (p + 1)\<rbrakk> \<Longrightarrow> Q index p"
  shows "Q (hashmap_index m h) 0"
proof -
  let ?bs = "hm_buckets m"
  have nc: "\<not> bucket_compare_key (?bs ! i) key n h" if "i < length ?bs" for i
  proof
    assume "bucket_compare_key (?bs ! i) key n h"
    then have i: "occ (?bs ! i)" "bucket_key (?bs ! i) = take (unat n) key"
      using compare_in_buckets [OF ok _ n h, of i] that hm_okD(4) [OF ok] by auto
    then have "strip (?bs ! i) \<in># entries ?bs" using that by (auto simp: in_entries_iff)
    then show False using absent i by (metis image_eqI strip_views(1))
  qed
  have "unat index < length ?bs \<Longrightarrow> free_at ?bs (unat index) d \<Longrightarrow> Q index p" for index p d
  proof (induction d arbitrary: index p)
    case 0
    then show ?case using free nc by simp
  next
    case (Suc d index p)
    have "unat ((index + 1) AND (hm_capacity m - 1)) = nxt (length ?bs) (unat index)"
      using unat_next_index [OF hm_okD(2) [OF ok], of index] hm_okD(3,4) [OF ok] by simp
    moreover have "nxt (length ?bs) (unat index) < length ?bs"
      using Suc(2) by (intro nxt_less) linarith
    ultimately have "Q ((index + 1) AND (hm_capacity m - 1)) (p + 1)"
      using Suc(1) free_at_Suc [OF Suc(3)] by simp
    then show ?case using skip [OF Suc(2)] free_at_occ [OF Suc(3,2)] nc Suc(2) by simp
  qed
  moreover have "unat (hashmap_index m h) < length ?bs"
    using unat_hashmap_index [OF hm_okD(3,2) [OF ok], of h] hm_okD(4) [OF ok] by simp
  ultimately show ?thesis using free_at_exists [OF size_less_length [OF ok]] by blast
qed

lemma get_present:
  assumes ok: "hm_ok k m" and n: "unat n \<le> length key" "0 < n"
    and p: "take (unat n) key \<in> dom (hm_view m)"
  shows "hashmap_get m key n = Some (Inr (hm_view m (take (unat n) key)))"
proof -
  let ?h = "hm_hash m (take (unat n) key)"
  obtain j where j: "j < length (hm_buckets m)" "occ (hm_buckets m ! j)"
      "bucket_key (hm_buckets m ! j) = take (unat n) key"
    and v: "hm_view m (take (unat n) key)
      = Some (bucket_get_value (hm_buckets m ! j), b_value_size (hm_buckets m ! j))"
    using find_slot [OF ok] p dom_hm_view [OF ok] by metis
  have "hashmap_get_loop m key n ?h (hashmap_index m ?h) 0 = Some (Inr (hm_view m (take (unat n) key)))"
    using ok n refl j
  proof (induction rule: walk_present)
    case (here index p)
    then show ?case
      using j hm_okD(4) [OF ok] compare_in_buckets [OF ok _ n refl, of j] v
      by (subst hashmap_get_loop.simps) (simp add: bucket_get_value_size_def Let_def)
  next
    case (skip index p)
    then show ?case by (subst hashmap_get_loop.simps) (simp add: Let_def)
  qed
  then show ?thesis using n by (simp add: hashmap_get_def hashmap_hash_eq)
qed

lemma get_absent:
  assumes ok: "hm_ok k m" and n: "unat n \<le> length key" "0 < n"
    and p: "take (unat n) key \<notin> dom (hm_view m)"
  shows "hashmap_get m key n = Some (Inr None)"
proof -
  let ?h = "hm_hash m (take (unat n) key)"
  have "take (unat n) key \<notin> bucket_key ` set_mset (entries (hm_buckets m))"
    using p dom_hm_view [OF ok] by simp
  with ok n refl have "hashmap_get_loop m key n ?h (hashmap_index m ?h) 0 = Some (Inr None)"
  proof (induction rule: walk_absent)
    case (free index p)
    then show ?case by (subst hashmap_get_loop.simps) (simp add: Let_def)
  next
    case (skip index p)
    then show ?case by (subst hashmap_get_loop.simps) (simp add: Let_def)
  qed
  then show ?thesis using n by (simp add: hashmap_get_def hashmap_hash_eq)
qed

lemma hashmap_get_spec:
  assumes "hm_inv m" "unat n \<le> length key" "0 < n"
  shows "hashmap_get m key n = Some (Inr (hm_view m (take (unat n) key)))"
  using assms get_present get_absent unfolding hm_inv_def by (metis domIff)

text \<open>
  C5: A lookup of a key of size 1 or more on a well-formed map always returns, reads no bucket outside the array, and gives
  exactly the value and the value size the map holds for the key, or \<^verbatim>\<open>NULL\<close> when it holds
  none.
\<close>

theorem hashmap_get_correct:
  assumes "hm_inv m" "unat n \<le> length key" "0 < n"
  shows "hashmap_get m key n = Some (Inr (hm_view m (take (unat n) key)))"
  using assms by (rule hashmap_get_spec)

subsection \<open>Removal\<close>

lemma remove_present:
  assumes ok: "hm_ok k m" and n: "unat n \<le> length key" "0 < n"
    and p: "take (unat n) key \<in> dom (hm_view m)"
  shows "\<exists>b bs'. hashmap_remove m key n = Some (Inr (m\<lparr>hm_buckets := bs', hm_size := hm_size m - 1\<rparr>)) \<and>
    length bs' = length (hm_buckets m) \<and> rh bs' \<and> bucket_key b = take (unat n) key \<and>
    entries (hm_buckets m) = add_mset b (entries bs')"
proof -
  let ?h = "hm_hash m (take (unat n) key)" and ?bs = "hm_buckets m"
  obtain j where j: "j < length ?bs" "occ (?bs ! j)" "bucket_key (?bs ! j) = take (unat n) key"
    using find_slot [OF ok] p dom_hm_view [OF ok] by metis
  define hole where "hole = (of_nat j :: u64)"
  have hole: "unat hole = j"
  proof -
    have "(2::nat) ^ k < 2 ^ 64" using hm_okD(2) [OF ok] by (intro power_strict_increasing) auto
    then show ?thesis
      using j(1) hm_okD(4) [OF ok] by (simp add: hole_def unat_of_nat take_bit_nat_eq_self)
  qed
  let ?freed = "?bs[j := bucket_free (?bs ! j)]"
  obtain d where d: "free_at ?bs j d" using free_at_exists [OF size_less_length [OF ok] j(1)] by blast
  obtain bs' where shift: "backward_shift_loop (2 ^ k) ?freed hole = Some (Inr bs')"
      "length bs' = length ?bs" "rh bs'" "entries bs' = entries (?bs[j := bucket_zero])"
    using backward_shift [OF hm_okD(1,2) [OF ok], of ?freed hole "?bs ! j" d] hole j d
      hm_okD(4,5) [OF ok] by auto
  have "hashmap_remove_loop m key n ?h (hashmap_index m ?h) 0
      = Some (Inr (m\<lparr>hm_buckets := bs', hm_size := hm_size m - 1\<rparr>))"
    using ok n refl j
  proof (induction rule: walk_present)
    case (here index p)
    have "index = hole" using here(1) hole by (simp add: word_unat_eq_iff)
    moreover have "\<not> bucket_get_probe_length (?bs ! j) < p"
      using here(2) by (simp add: bucket_get_probe_length_def word_less_nat_alt unat_ucast_up pl_def)
    ultimately show ?case
      using j hm_okD(3,4) [OF ok] compare_in_buckets [OF ok _ n refl, of j] shift(1) hole
      by (subst hashmap_remove_loop.simps) (simp add: Let_def)
  next
    case (skip index p)
    then show ?case by (subst hashmap_remove_loop.simps) (simp add: Let_def)
  qed
  moreover have "entries ?bs = add_mset (strip (?bs ! j)) (entries bs')"
    using entries_clear [OF j(1,2), of bucket_zero] shift(4) by simp
  ultimately show ?thesis
    using n shift j by (auto simp: hashmap_remove_def hashmap_hash_eq intro!: exI [of _ "strip (?bs ! j)"])
qed

lemma remove_absent:
  assumes ok: "hm_ok k m" and n: "unat n \<le> length key" "0 < n"
    and p: "take (unat n) key \<notin> dom (hm_view m)"
  shows "hashmap_remove m key n = Some (Inr m)"
proof -
  let ?h = "hm_hash m (take (unat n) key)"
  have "take (unat n) key \<notin> bucket_key ` set_mset (entries (hm_buckets m))"
    using p dom_hm_view [OF ok] by simp
  with ok n refl have "hashmap_remove_loop m key n ?h (hashmap_index m ?h) 0 = Some (Inr m)"
  proof (induction rule: walk_absent)
    case (free index p)
    then show ?case by (subst hashmap_remove_loop.simps) (simp add: Let_def)
  next
    case (skip index p)
    then show ?case by (subst hashmap_remove_loop.simps) (simp add: Let_def)
  qed
  then show ?thesis using n by (simp add: hashmap_remove_def hashmap_hash_eq)
qed

lemma hm_ok_remove:
  assumes ok: "hm_ok k m" and bs': "length bs' = length (hm_buckets m)" "rh bs'"
    and es: "entries (hm_buckets m) = add_mset b (entries bs')"
    and m': "m' = m\<lparr>hm_buckets := bs', hm_size := hm_size m - 1\<rparr>"
  shows "hm_ok k m'" "hm_view m' = (hm_view m)(bucket_key b := None)" "hm_count m' = hm_count m - 1"
proof -
  have h: "hm_hash m' = hm_hash m" by (simp add: m' hm_hash_def fun_eq_iff)
  have d: "distinct_keys (add_mset b (entries bs'))" using hm_okD(6) [OF ok] es by simp
  show ok': "hm_ok k m'"
    unfolding hm_ok_def h using ok bs' es d by (simp add: m' hm_ok_def distinct_keys_add)
  have v: "hm_view m = view_of (add_mset b (entries bs'))" "hm_view m' = view_of (entries bs')"
    using hm_view_eq hm_okD(6) [OF ok] hm_okD(6) [OF ok'] es by (simp_all add: m')
  have "view_of (entries bs') (bucket_key b) = None"
    using d by (intro view_of_notin) (simp add: distinct_keys_add)
  then show "hm_view m' = (hm_view m)(bucket_key b := None)"
    using v view_of_add [OF d] by (auto simp: fun_eq_iff)
  show "hm_count m' = hm_count m - 1" using es by (simp add: hm_count_eq m')
qed

lemma hashmap_remove_spec:
  assumes inv: "hm_inv m" and n: "unat n \<le> length key" "0 < n"
  shows "\<exists>m'. hashmap_remove m key n = Some (Inr m') \<and> hm_inv m' \<and>
    hm_view m' = (hm_view m)(take (unat n) key := None) \<and>
    unat (hashmap_size m') = hm_count m' \<and>
    hm_count m' = (if take (unat n) key \<in> dom (hm_view m) then hm_count m - 1 else hm_count m)"
proof -
  obtain k where ok: "hm_ok k m" using inv by (auto simp: hm_inv_def)
  show ?thesis
  proof (cases "take (unat n) key \<in> dom (hm_view m)")
    case True
    from remove_present [OF ok n True] obtain b bs' m' where
      r: "hashmap_remove m key n = Some (Inr m')" "m' = m\<lparr>hm_buckets := bs', hm_size := hm_size m - 1\<rparr>"
      and b: "length bs' = length (hm_buckets m)" "rh bs'" "bucket_key b = take (unat n) key"
        "entries (hm_buckets m) = add_mset b (entries bs')"
      by blast
    note rm = hm_ok_remove [OF ok b(1,2,4) r(2)]
    show ?thesis
      using r(1) rm b(3) True hm_ok_size [OF rm(1)] by (auto simp: hm_inv_def hashmap_size_def)
  next
    case False
    then have "(hm_view m)(take (unat n) key := None) = hm_view m" by (auto simp: fun_eq_iff)
    then show ?thesis
      using False remove_absent [OF ok n False] inv hm_ok_size [OF ok] by (simp add: hashmap_size_def)
  qed
qed

text \<open>
  C4: Removal always returns, keeps the invariant (the backward shift restores the probe lengths),
  takes exactly the given key out of the map and leaves every other key with its value; a key that is
  not there leaves the map as it is.
\<close>

theorem hashmap_remove_correct:
  assumes inv: "hm_inv m" and n: "unat n \<le> length key" "0 < n"
  shows "\<exists>m'. hashmap_remove m key n = Some (Inr m') \<and> hm_inv m' \<and>
    hm_view m' = (hm_view m)(take (unat n) key := None) \<and>
    unat (hashmap_size m') = hm_count m' \<and>
    hm_count m' = (if take (unat n) key \<in> dom (hm_view m) then hm_count m - 1 else hm_count m)"
  using assms by (rule hashmap_remove_spec)

subsection \<open>Growth\<close>

lemma max_probes_power2: "k < 64 \<Longrightarrow> max_probes_of (2 ^ k) = of_nat k"
  using flt_round_power2 [of 24 k] by (simp add: max_probes_of_def unat_power2)

lemma unat_max_probes: "hm_ok k m \<Longrightarrow> unat (hm_max_probes m) = k"
  by (simp add: hm_ok_def unat_of_nat take_bit_nat_eq_self)

lemma fits_home:
  "b_probe_length e = 0 \<Longrightarrow> length bs = 2 ^ k \<Longrightarrow> i = unat (b_hash e) mod 2 ^ k \<Longrightarrow> fits bs e i"
  by (simp add: fits_def home_def pl_def)

lemma hm_ok_store:
  assumes ok: "hm_ok k m" and bs': "length bs' = 2 ^ k" "rh bs'"
    and es: "entries bs' = add_mset b (entries (hm_buckets m))"
    and b: "bucket_wf b" "occ b" "b_hash b = hm_hash m (bucket_key b)"
    and new: "bucket_key b \<notin> bucket_key ` set_mset (entries (hm_buckets m))"
    and room: "Suc (size (entries (hm_buckets m))) < 2 ^ k"
  shows "hm_ok k (m\<lparr>hm_buckets := bs', hm_size := hm_size m + 1\<rparr>)"
proof -
  have "hm_hash (m\<lparr>hm_buckets := bs', hm_size := hm_size m + 1\<rparr>) = hm_hash m"
    by (simp add: hm_hash_def fun_eq_iff)
  then show ?thesis
    using assms by (simp add: hm_ok_def distinct_keys_add add.commute)
qed

lemma move_entry_ok:
  assumes ok: "hm_ok k m" and b: "bucket_wf b" "occ b" "b_hash b = hm_hash m (bucket_key b)"
    and new: "bucket_key b \<notin> bucket_key ` set_mset (entries (hm_buckets m))"
    and room: "Suc (size (entries (hm_buckets m))) < 2 ^ k" "size (entries (hm_buckets m)) < 65535"
  shows "\<exists>bs'. hashmap_move_entry m b False = Some (Inr (m\<lparr>hm_buckets := bs', hm_size := hm_size m + 1\<rparr>)) \<and>
    hm_ok k (m\<lparr>hm_buckets := bs', hm_size := hm_size m + 1\<rparr>) \<and>
    entries bs' = add_mset (strip b) (entries (hm_buckets m))"
proof -
  let ?bs = "hm_buckets m"
  define e where "e = bucket_set_probe_length b 0"
  have e: "strip e = strip b" "occ e" "b_hash e = b_hash b" "b_probe_length e = 0"
    using b by (simp_all add: e_def bucket_set_probe_length_def)
  define index where "index = hashmap_index m (b_hash b)"
  have index: "unat index = unat (b_hash e) mod 2 ^ k"
    using unat_hashmap_index [OF hm_okD(3,2) [OF ok]] e by (simp add: index_def)
  then have lt: "unat index < length ?bs" using hm_okD(4) [OF ok] by simp
  obtain d where d: "free_at ?bs (unat index) d"
    using free_at_exists [OF size_less_length [OF ok] lt] by blast
  have "\<exists>r bs'. robin_hood_loop (\<lambda>_ _. False) None (2 ^ k) ?bs e index = Some (Inr (r, bs'))
      \<and> placed (2 ^ k) (add_mset (strip e) (entries ?bs)) None r bs'"
  proof (rule robin_hood_absent [where H = "hm_hash m" and kk = "[]" and d = d])
    show "\<forall>j<d. bucket_key (?bs ! ((unat index + j) mod length ?bs)) \<noteq> []"
    proof (intro allI impI)
      fix j assume j: "j < d"
      let ?i = "(unat index + j) mod length ?bs"
      have "occ (?bs ! ?i)" using d j by (simp add: free_at_def)
      moreover have "?i < 2 ^ k" using hm_okD(4) [OF ok] by simp
      ultimately show "bucket_key (?bs ! ?i) \<noteq> []"
        using in_buckets(1) [OF ok] bucket_is_empty_iff by blast
    qed
  qed (use ok b new e fits_home [OF e(4) hm_okD(4) [OF ok] index] lt d room hm_okD(4) [OF ok]
       in \<open>auto simp: hm_ok_def distinct_keys_add\<close>)
  then obtain r bs' where r: "robin_hood_loop (\<lambda>_ _. False) None (2 ^ k) ?bs e index = Some (Inr (r, bs'))"
    "placed (2 ^ k) (add_mset (strip b) (entries ?bs)) None r bs'" using e(1) by auto
  then have p: "length bs' = 2 ^ k" "rh bs'" "entries bs' = add_mset (strip b) (entries ?bs)"
    by (auto simp: placed_def split: probe_result.splits)
  have "hashmap_move_entry m b False = Some (Inr (m\<lparr>hm_buckets := bs', hm_size := hm_size m + 1\<rparr>))"
    using r(1) hm_okD(3) [OF ok] e(3)
    by (simp add: hashmap_move_entry_def Let_def bucket_get_hash_def flip: e_def index_def)
  moreover have "hm_ok k (m\<lparr>hm_buckets := bs', hm_size := hm_size m + 1\<rparr>)"
    using hm_ok_store [OF ok p] b new room by simp
  ultimately show ?thesis using p by blast
qed

lemma entries_Cons: "entries (b # bs) = (if occ b then add_mset (strip b) (entries bs) else entries bs)"
  by (simp add: entries_def)

text \<open>Two maps that agree in everything but the array and the size.\<close>

definition same_setup :: "hashmap \<Rightarrow> hashmap \<Rightarrow> bool" where
  "same_setup m m' \<longleftrightarrow> hm_hash_func m' = hm_hash_func m \<and> hm_hashkey m' = hm_hashkey m"

lemma same_setup_hash: "same_setup m m' \<Longrightarrow> hm_hash m' = hm_hash m"
  by (simp add: same_setup_def hm_hash_def fun_eq_iff)

lemma move_all_ok:
  "\<lbrakk>hm_ok k m; entries_ok (hm_hash m) (entries bs + entries (hm_buckets m));
    distinct_keys (entries bs + entries (hm_buckets m));
    size (entries bs + entries (hm_buckets m)) < 2 ^ k;
    size (entries bs + entries (hm_buckets m)) \<le> 65535\<rbrakk>
   \<Longrightarrow> \<exists>m'. hashmap_move_all m bs False = Some (Inr m') \<and> hm_ok k m' \<and> same_setup m m' \<and>
     entries (hm_buckets m') = entries bs + entries (hm_buckets m)"
proof (induction bs arbitrary: m)
  case Nil
  then show ?case by (simp add: same_setup_def entries_def)
next
  case (Cons b bs)
  show ?case
  proof (cases "occ b")
    case False
    then show ?thesis using Cons by (simp add: entries_Cons)
  next
    case True
    let ?es = "entries bs + entries (hm_buckets m)"
    have ok: "entries_ok (hm_hash m) (add_mset (strip b) ?es)" "distinct_keys (add_mset (strip b) ?es)"
      using Cons.prems True by (simp_all add: entries_Cons)
    then have b: "bucket_wf b" "b_hash b = hm_hash m (bucket_key b)"
      "bucket_key b \<notin> bucket_key ` set_mset (entries (hm_buckets m))"
      using True by (auto simp: distinct_keys_add)
    obtain bs' m1 where m1: "hashmap_move_entry m b False = Some (Inr m1)"
        "m1 = m\<lparr>hm_buckets := bs', hm_size := hm_size m + 1\<rparr>" "hm_ok k m1"
        "entries bs' = add_mset (strip b) (entries (hm_buckets m))"
      using move_entry_ok [OF Cons.prems(1) b(1) True b(2,3)] Cons.prems(4,5) True
      by (auto simp: entries_Cons)
    have same: "same_setup m m1" by (simp add: m1(2) same_setup_def)
    have es: "entries bs + entries (hm_buckets m1) = add_mset (strip b) ?es" by (simp add: m1(2,4))
    have "\<exists>m'. hashmap_move_all m1 bs False = Some (Inr m') \<and> hm_ok k m' \<and> same_setup m1 m' \<and>
        entries (hm_buckets m') = entries bs + entries (hm_buckets m1)"
      using Cons.IH [OF m1(3)] ok Cons.prems(4,5) True same_setup_hash [OF same]
      by (simp add: es entries_Cons)
    then show ?thesis using m1(1) True es same by (auto simp: entries_Cons same_setup_def)
  qed
qed

lemma grow_ok:
  assumes k: "1 \<le> k" "k < 64"
    and es: "entries_ok (hm_hash m) (entries (hm_buckets m))" "distinct_keys (entries (hm_buckets m))"
      "size (entries (hm_buckets m)) < 2 ^ k" "size (entries (hm_buckets m)) \<le> 65535"
  shows "\<exists>m'. hashmap_grow m (2 ^ k) False rnd = Some (Inr m') \<and> hm_ok k m' \<and> same_setup m m' \<and>
     entries (hm_buckets m') = entries (hm_buckets m)"
proof -
  define m0 where "m0 = m\<lparr>hm_buckets := replicate (2 ^ k) bucket_zero, hm_capacity := 2 ^ k,
      hm_size := 0, hm_max_probes := of_nat k\<rparr>"
  have s: "same_setup m m0" by (simp add: m0_def same_setup_def)
  have "hm_ok k m0" using k by (simp add: hm_ok_def m0_def)
  then have "\<exists>m'. hashmap_move_all m0 (hm_buckets m) False = Some (Inr m') \<and> hm_ok k m' \<and>
      same_setup m0 m' \<and> entries (hm_buckets m') = entries (hm_buckets m) + entries (hm_buckets m0)"
    using es same_setup_hash [OF s] by (intro move_all_ok) (simp_all add: m0_def)
  moreover have "hashmap_grow m (2 ^ k) False rnd = hashmap_move_all m0 (hm_buckets m) False"
    using k by (simp add: hashmap_grow_def Let_def m0_def max_probes_power2 unat_power2)
  ultimately show ?thesis using s by (auto simp: m0_def same_setup_def)
qed

subsection \<open>Insertion\<close>

lemma overloaded_iff:
  assumes ok: "hm_ok k m" and small: "hm_count m < 65535"
  shows "hashmap_overloaded m \<longleftrightarrow> Suc (hm_count m) * 2 ^ 24 > 2 ^ k * HASHMAP_MAX_LOAD"
proof -
  have "unat (hm_size m + 1) = Suc (hm_count m)"
    using unat_Suc_no_wrap [of "hm_size m"] hm_ok_size [OF ok] small by simp
  moreover have "flt_round 24 (Suc (hm_count m)) = Suc (hm_count m)"
    using small by (intro flt_round_exact) simp
  moreover have "flt_round 24 (2 ^ k) = 2 ^ k" by (rule flt_round_power2) simp
  moreover have "flt_round 24 (2 ^ k * HASHMAP_MAX_LOAD) = 2 ^ k * HASHMAP_MAX_LOAD"
    using flt_round_scaled [of HASHMAP_MAX_LOAD 24 k] by (simp add: HASHMAP_MAX_LOAD_def mult.commute)
  ultimately show ?thesis
    using hm_okD(2,3) [OF ok] by (simp add: hashmap_overloaded_def unat_power2)
qed

lemma new_capacity: "hm_capacity m = 2 ^ k \<Longrightarrow> k < 63 \<Longrightarrow> hashmap_get_new_capacity m = 2 ^ Suc k"
  using round_u64_double by (simp add: hashmap_get_new_capacity_def)

lemma check_load_ok:
  assumes ok: "hm_ok k m" and small: "hm_count m < 65535"
  shows "\<exists>k' m'. hashmap_check_load m = Some (Inr m') \<and> hm_ok k' m' \<and> k \<le> k' \<and> same_setup m m' \<and>
    entries (hm_buckets m') = entries (hm_buckets m) \<and> Suc (hm_count m) < 2 ^ k'"
proof (cases "hashmap_overloaded m")
  case False
  then have "Suc (hm_count m) * 2 ^ 24 \<le> 2 ^ k * 15099494"
    using overloaded_iff [OF ok small] by (simp add: HASHMAP_MAX_LOAD_def)
  moreover have "a < b" if "a * 2 ^ 24 \<le> b * 15099494" "0 < b" for a b :: nat
    using that by simp
  ultimately have "Suc (hm_count m) < 2 ^ k" by (metis zero_less_numeral zero_less_power)
  then show ?thesis using False ok by (auto simp: hashmap_check_load_def same_setup_def)
next
  case True
  have "k < 63"
  proof (rule ccontr)
    assume "\<not> k < 63"
    then have "k = 63" using hm_okD(2) [OF ok] by simp
    then show False using True overloaded_iff [OF ok small] small by (simp add: HASHMAP_MAX_LOAD_def)
  qed
  moreover have "size (entries (hm_buckets m)) < 2 ^ k" using ok by (simp add: hm_ok_def)
  moreover have "(2::nat) \<le> 2 ^ k" using hm_okD(1) [OF ok] by (cases k) auto
  ultimately have "\<exists>m'. hashmap_grow m (2 ^ Suc k) False 0 = Some (Inr m') \<and> hm_ok (Suc k) m' \<and>
      same_setup m m' \<and> entries (hm_buckets m') = entries (hm_buckets m)"
    and "Suc (hm_count m) < 2 ^ Suc k"
    using ok small grow_ok [of "Suc k" m 0] by (simp_all add: hm_ok_def hm_count_eq)
  then show ?thesis
    using True new_capacity [OF hm_okD(3) [OF ok] \<open>k < 63\<close>]
    by (auto simp: hashmap_check_load_def intro!: exI [of _ "Suc k"])
qed

text \<open>The entries after an insertion: a key that is there keeps its value.\<close>

definition put :: "bucket \<Rightarrow> bucket multiset \<Rightarrow> bucket multiset" where
  "put e es = (if bucket_key e \<in> bucket_key ` set_mset es then es else add_mset (strip e) es)"

text \<open>One pass of the loop of an insertion.\<close>

definition pass :: "(bytes \<Rightarrow> u32) \<Rightarrow> nat \<Rightarrow> bucket multiset \<Rightarrow> bucket multiset \<Rightarrow> probe_result \<Rightarrow> bucket list
    \<Rightarrow> bool" where
  "pass H k es es' r bs \<longleftrightarrow> length bs = 2 ^ k \<and> rh bs \<and> (case r of
     Stored \<Rightarrow> entries bs = es' \<and> size es' = Suc (size es)
   | Found \<Rightarrow> entries bs = es' \<and> es' = es
   | Displaced e \<Rightarrow> occ e \<and> put e (entries bs) = es' \<and> size (entries bs) = size es \<and> k \<le> size es \<and>
       entries_ok H (add_mset (strip e) (entries bs)) \<and> distinct_keys (entries bs))"

lemma placed_pass:
  assumes p: "placed (2 ^ k) (add_mset (strip e) es) (Some l) r bs" and l: "unat l = k"
    and ok: "entries_ok H (add_mset (strip e) es)" "distinct_keys (add_mset (strip e) es)"
  shows "pass H k es (put e es) r bs"
proof -
  have put: "put e es = add_mset (strip e) es"
    using ok(2) by (simp add: put_def distinct_keys_add)
  show ?thesis
  proof (cases r)
    case (Displaced e')
    then have d: "occ e'" "add_mset (strip e) es = add_mset (strip e') (entries bs)"
      "k \<le> size (entries bs)" using p l by (auto simp: placed_def)
    then have "size (entries bs) = size es" by (metis size_add_mset nat.inject)
    moreover have "distinct_keys (add_mset (strip e') (entries bs))" using ok(2) d(2) by simp
    ultimately show ?thesis
      using p ok d put Displaced unfolding pass_def placed_def
      by (auto simp: put_def distinct_keys_add)
  qed (use p put in \<open>auto simp: pass_def placed_def\<close>)
qed

lemma insert_pass:
  assumes ok: "hm_ok k m" and small: "hm_count m < 65535"
    and e: "bucket_wf e" "occ e" "b_hash e = hm_hash m (bucket_key e)" "b_probe_length e = 0"
    and cmp1: "\<And>e' b. bucket_wf e' \<Longrightarrow> occ e' \<Longrightarrow> bucket_wf b \<Longrightarrow> cmp e' b
                \<Longrightarrow> bucket_key b = bucket_key e' \<or> bucket_key b = bucket_key e"
    and cmp2: "\<And>e' b. strip e' = strip e \<Longrightarrow> bucket_wf b \<Longrightarrow> b_hash b = b_hash e
                \<Longrightarrow> bucket_key b = bucket_key e \<Longrightarrow> cmp e' b"
  shows "\<exists>r bs'. robin_hood_loop cmp (Some (hm_max_probes m)) (hm_capacity m) (hm_buckets m) e
           (hashmap_index m (b_hash e)) = Some (Inr (r, bs')) \<and>
         pass (hm_hash m) k (entries (hm_buckets m)) (put e (entries (hm_buckets m))) r bs'"
proof -
  let ?bs = "hm_buckets m" and ?es = "entries (hm_buckets m)"
  define index where "index = hashmap_index m (b_hash e)"
  have index: "unat index = unat (b_hash e) mod 2 ^ k"
    using unat_hashmap_index [OF hm_okD(3,2) [OF ok]] by (simp add: index_def)
  have lt: "unat index < length ?bs" using hm_okD(4) [OF ok] index by simp
  have es: "entries_ok (hm_hash m) (add_mset (strip e) ?es)" using ok e by (simp add: hm_ok_def)
  show ?thesis
  proof (cases "bucket_key e \<in> bucket_key ` set_mset ?es")
    case False
    obtain d where d: "free_at ?bs (unat index) d"
      using free_at_exists [OF size_less_length [OF ok] lt] by blast
    have dk: "distinct_keys (add_mset (strip e) ?es)"
      using False hm_okD(6) [OF ok] by (simp add: distinct_keys_add)
    have "\<exists>r bs'. robin_hood_loop cmp (Some (hm_max_probes m)) (2 ^ k) ?bs e index = Some (Inr (r, bs'))
        \<and> placed (2 ^ k) (add_mset (strip e) ?es) (Some (hm_max_probes m)) r bs'"
    proof (rule robin_hood_absent [where H = "hm_hash m" and kk = "bucket_key e" and d = d])
      show "\<forall>j<d. bucket_key (?bs ! ((unat index + j) mod length ?bs)) \<noteq> bucket_key e"
      proof (intro allI impI)
        fix j assume j: "j < d"
        let ?i = "(unat index + j) mod length ?bs"
        have "occ (?bs ! ?i)" using d j by (simp add: free_at_def)
        moreover have "?i < length ?bs" using hm_okD(4) [OF ok] by simp
        ultimately have "strip (?bs ! ?i) \<in># ?es" by (auto simp: in_entries_iff)
        then show "bucket_key (?bs ! ?i) \<noteq> bucket_key e" using False by (metis image_eqI strip_views(1))
      qed
    qed (use hm_okD [OF ok] cmp1 lt d e es dk small size_less_length [OF ok]
           fits_home [OF e(4) hm_okD(4) [OF ok] index] in \<open>auto simp: hm_count_eq\<close>)
    then obtain r bs' where
      "robin_hood_loop cmp (Some (hm_max_probes m)) (2 ^ k) ?bs e index = Some (Inr (r, bs'))"
      "placed (2 ^ k) (add_mset (strip e) ?es) (Some (hm_max_probes m)) r bs'" by blast
    then show ?thesis
      using placed_pass [OF _ unat_max_probes [OF ok] es dk] hm_okD(3) [OF ok] by (auto simp: index_def)
  next
    case True
    then obtain j where j: "j < length ?bs" "occ (?bs ! j)" "bucket_key (?bs ! j) = bucket_key e"
        "home (2 ^ k) (?bs ! j) = unat (hm_hash m (bucket_key e)) mod 2 ^ k"
      using find_slot [OF ok] by metis
    have jk: "j < 2 ^ k" using j(1) hm_okD(4) [OF ok] by simp
    have bj: "bucket_wf (?bs ! j)" "b_hash (?bs ! j) = b_hash e"
      using in_buckets [OF ok jk j(2)] j(3) e(3) by simp_all
    have "unat index = (home (length ?bs) (?bs ! j) + pl e) mod length ?bs"
      using j(4) e index hm_okD(4) [OF ok] by (simp add: pl_def)
    then obtain r where r: "robin_hood_loop cmp (Some (hm_max_probes m)) (2 ^ k) ?bs e index = Some (Inr (r, ?bs))"
      "r = Found \<or> (\<exists>e'. r = Displaced e' \<and> strip e' = strip e \<and> k \<le> pl (?bs ! j))"
      using robin_hood_present [OF hm_okD(1,2,4,5) [OF ok] j(1,2), where cmp = cmp and ee = e and e = e
          and index = index and limit = "Some (hm_max_probes m)"] cmp2 bj j(3) e(4) unat_max_probes [OF ok]
      by (fastforce simp: pl_def)
    have "pl (?bs ! j) \<le> size ?es"
      using pl_le_entries [OF hm_okD(5) [OF ok] j(1) _ size_less_length [OF ok]] hm_okD(5) [OF ok] j
      by (simp add: rh_def)
    moreover have "put e' ?es = ?es" if "strip e' = strip e" for e'
      using True that by (metis put_def strip_views(1))
    moreover have "occ e'" if "strip e' = strip e" for e' using e(2) that by (metis strip_views(3))
    ultimately have "pass (hm_hash m) k ?es (put e ?es) r ?bs"
      using r(2) hm_okD [OF ok] es by (auto simp: pass_def)
    then show ?thesis using r(1) hm_okD(3) [OF ok] by (auto simp: index_def)
  qed
qed

text \<open>At the largest capacity the next one wraps to 0, and moving any entry leaves the array.\<close>

lemma move_all_no_buckets:
  "hm_buckets m = [] \<Longrightarrow> entries bs \<noteq> {#} \<Longrightarrow> hashmap_move_all m bs False = Some (Inl OutOfBounds)"
proof (induction bs)
  case Nil
  then show ?case by (simp add: entries_def)
next
  case (Cons b bs)
  show ?case
  proof (cases "occ b")
    case True
    then show ?thesis
      using Cons.prems(1)
      by (simp add: hashmap_move_entry_def Let_def robin_hood_loop.simps)
  next
    case False
    then show ?thesis using Cons by (simp add: entries_Cons)
  qed
qed

lemma new_capacity_wraps: "hm_capacity m = 2 ^ 63 \<Longrightarrow> hashmap_get_new_capacity m = 0"
proof -
  assume "hm_capacity m = 2 ^ 63"
  then have "unat (round_u64_to_next_pow2 (hm_capacity m + 1)) = 2 ^ 64 - 1"
    using bitlen_power2 [of 63] by (simp add: round_u64_unat)
  then have "round_u64_to_next_pow2 (hm_capacity m + 1) = - 1"
    by (simp add: word_unat_eq_iff unsigned_minus_1_eq_mask mask_eq_exp_minus_1)
  then show ?thesis by (simp add: hashmap_get_new_capacity_def)
qed

lemma grow_zero:
  "entries (hm_buckets m) \<noteq> {#} \<Longrightarrow> hashmap_grow m 0 False rnd = Some (Inl OutOfBounds)"
  by (simp add: hashmap_grow_def Let_def move_all_no_buckets)

text \<open>What an insertion of the entry \<open>e\<close> makes of a map with the entries \<open>es\<close>.\<close>

definition inserted :: "hashmap \<Rightarrow> bucket multiset \<Rightarrow> (ub + hashmap) \<Rightarrow> bool" where
  "inserted m es r = (case r of
     Inl u \<Rightarrow> u = OutOfBounds \<and> 63 \<le> hm_count m
   | Inr m' \<Rightarrow> hm_inv m' \<and> same_setup m m' \<and> entries (hm_buckets m') = es)"

lemma hm_hash_cong [simp]:
  "hm_hash (m\<lparr>hm_buckets := bs\<rparr>) = hm_hash m"
  "hm_hash (m\<lparr>hm_size := s\<rparr>) = hm_hash m"
  by (simp_all add: hm_hash_def fun_eq_iff)

lemma insert_finish:
  assumes ok: "hm_ok k m" and small: "hm_count m < 65535" and room: "Suc (hm_count m) < 2 ^ k"
    and e: "bucket_wf e" "occ e" "b_hash e = hm_hash m (bucket_key e)"
    and p: "pass (hm_hash m) k (entries (hm_buckets m)) (put e (entries (hm_buckets m))) r bs"
    and rec: "\<And>m' e'. \<lbrakk>hm_ok (Suc k) m'; hm_count m' < 65535; bucket_wf e'; occ e';
        b_hash e' = hm_hash m' (bucket_key e')\<rbrakk>
      \<Longrightarrow> \<exists>r. hashmap_insert_bucket m' e' = Some r \<and> inserted m' (put e' (entries (hm_buckets m'))) r"
  shows "\<exists>res. (case r of
              Found \<Rightarrow> Some (Inr (m\<lparr>hm_buckets := bs\<rparr>))
            | Stored \<Rightarrow> Some (Inr (m\<lparr>hm_buckets := bs, hm_size := hm_size m + 1\<rparr>))
            | Displaced e \<Rightarrow>
                run_bind (hashmap_grow (m\<lparr>hm_buckets := bs\<rparr>) (hashmap_get_new_capacity m) False 0)
                  (\<lambda>m. hashmap_insert_bucket m e)) = Some res
          \<and> inserted m (put e (entries (hm_buckets m))) res"
proof (cases r)
  case Stored
  have new: "bucket_key e \<notin> bucket_key ` set_mset (entries (hm_buckets m))"
    using p Stored by (auto simp: pass_def put_def split: if_splits)
  have s: "length bs = 2 ^ k" "rh bs" "entries bs = add_mset (strip e) (entries (hm_buckets m))"
    using p Stored new by (simp_all add: pass_def put_def)
  have "hm_ok k (m\<lparr>hm_buckets := bs, hm_size := hm_size m + 1\<rparr>)"
    using hm_ok_store [OF ok s] e new room by (simp add: hm_count_eq)
  then show ?thesis
    using Stored p by (auto simp: inserted_def hm_inv_def same_setup_def pass_def)
next
  case Found
  then have "hm_ok k (m\<lparr>hm_buckets := bs\<rparr>)"
    using ok p by (auto simp: hm_ok_def pass_def)
  then show ?thesis
    using Found p by (auto simp: inserted_def hm_inv_def same_setup_def pass_def)
next
  case (Displaced e')
  let ?m = "m\<lparr>hm_buckets := bs\<rparr>"
  have d: "occ e'" "put e' (entries bs) = put e (entries (hm_buckets m))"
    "size (entries bs) = hm_count m" "k \<le> hm_count m"
    "bucket_wf e'" "b_hash e' = hm_hash m (bucket_key e')"
    "entries_ok (hm_hash m) (entries bs)" "distinct_keys (entries bs)"
    using p Displaced by (auto simp: pass_def hm_count_eq)
  show ?thesis
  proof (cases "k < 63")
    case True
    have "\<exists>m'. hashmap_grow ?m (2 ^ Suc k) False 0 = Some (Inr m') \<and> hm_ok (Suc k) m' \<and>
        same_setup ?m m' \<and> entries (hm_buckets m') = entries (hm_buckets ?m)"
      using d room small True by (intro grow_ok) simp_all
    then obtain m' where m': "hashmap_grow ?m (2 ^ Suc k) False 0 = Some (Inr m')" "hm_ok (Suc k) m'"
        "same_setup m m'" "entries (hm_buckets m') = entries bs"
      by (auto simp: same_setup_def)
    then obtain res where "hashmap_insert_bucket m' e' = Some res" "inserted m' (put e' (entries bs)) res"
      using rec [OF m'(2), of e'] d small same_setup_hash [OF m'(3)] by (auto simp: hm_count_eq)
    moreover have "inserted m (put e' (entries bs)) res" if "inserted m' (put e' (entries bs)) res"
      using that m' d by (auto simp: inserted_def same_setup_def hm_count_eq split: sum.splits)
    ultimately show ?thesis
      using m'(1) Displaced d(2) new_capacity [OF hm_okD(3) [OF ok] True] by simp
  next
    case False
    then have "k = 63" using hm_okD(2) [OF ok] by simp
    moreover have "entries bs \<noteq> {#}" using d(3,4) \<open>k = 63\<close> by auto
    ultimately show ?thesis
      using Displaced d grow_zero [of ?m 0] new_capacity_wraps hm_okD(3) [OF ok] by (simp add: inserted_def)
  qed
qed

lemma insert_bucket_ok:
  "\<lbrakk>hm_ok k m; hm_count m < 65535; bucket_wf e; occ e; b_hash e = hm_hash m (bucket_key e)\<rbrakk>
    \<Longrightarrow> \<exists>r. hashmap_insert_bucket m e = Some r \<and> inserted m (put e (entries (hm_buckets m))) r"
proof (induction "63 - k" arbitrary: k m e rule: less_induct)
  case less
  obtain k' m' where m': "hashmap_check_load m = Some (Inr m')" "hm_ok k' m'" "k \<le> k'" "same_setup m m'"
      "entries (hm_buckets m') = entries (hm_buckets m)" "Suc (hm_count m) < 2 ^ k'"
    using check_load_ok [OF less.prems(1,2)] by blast
  have cnt: "hm_count m' = hm_count m" using m'(5) by (simp add: hm_count_eq)
  define e1 where "e1 = bucket_set_probe_length (bucket_set_hash e (b_hash e)) 0"
  have "bucket_set_hash e (b_hash e) = e" by (simp add: bucket_set_hash_def)
  then have e1_eq: "e1 = e\<lparr>b_probe_length := 0\<rparr>" by (simp add: e1_def bucket_set_probe_length_def)
  have e1: "bucket_wf e1" "occ e1" "b_hash e1 = hm_hash m' (bucket_key e1)" "b_probe_length e1 = 0"
      "b_hash e1 = b_hash e" "strip e1 = strip e" "bucket_key e1 = bucket_key e"
    using less.prems same_setup_hash [OF m'(4)] by (simp_all add: e1_eq)
  have hash: "hashmap_hash m' (bucket_get_key e) (ucast (bucket_get_key_size e)) = b_hash e"
    using bucket_hash_eq [OF less.prems(3)] less.prems(5) same_setup_hash [OF m'(4)] by simp
  let ?cmp = "\<lambda>e' b. bucket_compare_key b (bucket_get_key e') (bucket_get_key_size e') (b_hash e)"
  have cmp: "?cmp e' b \<longleftrightarrow> b_hash b = b_hash e \<and> bucket_key b = bucket_key e'"
    if "bucket_wf e'" "bucket_wf b" for e' b
    using bucket_compare_key_iff [OF that(2), of "bucket_get_key_size e'" "bucket_get_key e'"]
      bucket_key_length [OF that(1)] by (simp add: bucket_key_def)
  have wf: "bucket_wf e'" if "strip e' = strip e1" for e'
    using that e1(1,2) by (metis strip_views(3) strip_wf)
  obtain r bs where r: "robin_hood_loop ?cmp (Some (hm_max_probes m')) (hm_capacity m') (hm_buckets m') e1
        (hashmap_index m' (b_hash e)) = Some (Inr (r, bs))"
      "pass (hm_hash m') k' (entries (hm_buckets m')) (put e1 (entries (hm_buckets m'))) r bs"
    using insert_pass [OF m'(2) _ e1(1-4), of ?cmp] less.prems(2) cnt cmp wf e1(5) strip_views(1)
    by (metis (no_types, lifting))
  have "hashmap_insert_bucket m e = (case r of
          Found \<Rightarrow> Some (Inr (m'\<lparr>hm_buckets := bs\<rparr>))
        | Stored \<Rightarrow> Some (Inr (m'\<lparr>hm_buckets := bs, hm_size := hm_size m' + 1\<rparr>))
        | Displaced e \<Rightarrow>
            run_bind (hashmap_grow (m'\<lparr>hm_buckets := bs\<rparr>) (hashmap_get_new_capacity m') False 0)
              (\<lambda>m. hashmap_insert_bucket m e))"
    using r(1) by (subst hashmap_insert_bucket.simps) (simp add: m'(1) Let_def hash flip: e1_def)
  moreover have "\<exists>r. hashmap_insert_bucket m2 e2 = Some r \<and> inserted m2 (put e2 (entries (hm_buckets m2))) r"
    if "hm_ok (Suc k') m2" "hm_count m2 < 65535" "bucket_wf e2" "occ e2"
      "b_hash e2 = hm_hash m2 (bucket_key e2)" for m2 e2
    using less.hyps [of "Suc k'" m2 e2] that m'(3) hm_okD(2) [OF that(1)] by simp
  ultimately obtain res where "hashmap_insert_bucket m e = Some res"
      "inserted m' (put e1 (entries (hm_buckets m'))) res"
    using insert_finish [OF m'(2) _ _ e1(1-3) r(2)] less.prems(2) m'(6) cnt by auto
  moreover have "put e1 (entries (hm_buckets m')) = put e (entries (hm_buckets m))"
    using e1 m'(5) by (simp add: put_def)
  ultimately show ?case
    using m'(4) cnt by (auto simp: inserted_def same_setup_def split: sum.splits)
qed

lemma insert_ok:
  assumes ok: "hm_ok k m" and small: "hm_count m < 65535"
    and n: "unat n \<le> length key" "0 < n" and vn: "unat vn \<le> length (p_mem v)"
    and e: "e = bucket_new key n v vn (hm_hash m (take (unat n) key)) 0"
  shows "\<exists>r. hashmap_insert m key n v vn = Some r \<and> inserted m (put e (entries (hm_buckets m))) r"
proof -
  obtain k' m' where m': "hashmap_check_load m = Some (Inr m')" "hm_ok k' m'" "same_setup m m'"
      "entries (hm_buckets m') = entries (hm_buckets m)" "Suc (hm_count m) < 2 ^ k'"
    using check_load_ok [OF ok small] by blast
  have cnt: "hm_count m' = hm_count m" using m'(4) by (simp add: hm_count_eq)
  have key: "bucket_key e = take (unat n) key" using n by (simp add: e bucket_new_key)
  have e1: "bucket_wf e" "occ e" "b_hash e = hm_hash m' (bucket_key e)" "b_probe_length e = 0"
  proof -
    show wf: "bucket_wf e" using n vn by (simp add: e bucket_new_wf)
    show "occ e" using n key by (auto simp: bucket_is_empty_iff [OF wf] word_less_nat_alt)
  qed (simp_all add: key same_setup_hash [OF m'(3)], simp_all add: e)
  let ?cmp = "\<lambda>e' b. bucket_compare_key b key n (b_hash e)"
  have cmp: "?cmp e' b \<longleftrightarrow> b_hash b = b_hash e \<and> bucket_key b = bucket_key e" if "bucket_wf b" for e' b
    using bucket_compare_key_iff [OF that n(1)] key by simp
  obtain r bs where r: "robin_hood_loop ?cmp (Some (hm_max_probes m')) (hm_capacity m') (hm_buckets m') e
        (hashmap_index m' (b_hash e)) = Some (Inr (r, bs))"
      "pass (hm_hash m') k' (entries (hm_buckets m')) (put e (entries (hm_buckets m'))) r bs"
    using insert_pass [OF m'(2) _ e1, of ?cmp] small cnt cmp by (metis (no_types, lifting))
  have hash: "hashmap_hash m' key (ucast n) = b_hash e"
    using hashmap_hash_eq [OF n(1)] e1(3) key by simp
  have "bucket_new key n v vn (b_hash e) 0 = e" by (simp add: e)
  then have eq: "hashmap_insert m key n v vn = (case r of
          Found \<Rightarrow> Some (Inr (m'\<lparr>hm_buckets := bs\<rparr>))
        | Stored \<Rightarrow> Some (Inr (m'\<lparr>hm_buckets := bs, hm_size := hm_size m' + 1\<rparr>))
        | Displaced e \<Rightarrow>
            run_bind (hashmap_grow (m'\<lparr>hm_buckets := bs\<rparr>) (hashmap_get_new_capacity m') False 0)
              (\<lambda>m. hashmap_insert_bucket m e))"
    using r(1) by (simp add: hashmap_insert_def m'(1) Let_def hash)
  have "\<exists>res. hashmap_insert m key n v vn = Some res \<and> inserted m' (put e (entries (hm_buckets m'))) res"
    unfolding eq
  proof (rule insert_finish [OF m'(2) _ _ e1(1-3) r(2)])
    show "hm_count m' < 65535" "Suc (hm_count m') < 2 ^ k'" using small m'(5) cnt by simp_all
  qed (rule insert_bucket_ok)
  then show ?thesis
    using m' cnt by (auto simp: inserted_def same_setup_def split: sum.splits)
qed

lemma hashmap_insert_spec:
  assumes inv: "hm_inv m" and small: "hm_count m < 65535"
    and n: "unat n \<le> length key" "0 < n" and vn: "unat vn \<le> length (p_mem v)"
  shows "\<exists>r. hashmap_insert m key n v vn = Some r \<and> (case r of
     Inl u \<Rightarrow> u = OutOfBounds \<and> 63 \<le> hm_count m
   | Inr m' \<Rightarrow> hm_inv m' \<and> same_setup m m' \<and>
       hm_view m' = (if take (unat n) key \<in> dom (hm_view m) then hm_view m
                     else (hm_view m)(take (unat n) key \<mapsto> (stored_value v vn, vn))) \<and>
       unat (hashmap_size m') = hm_count m' \<and>
       hm_count m' = (if take (unat n) key \<in> dom (hm_view m) then hm_count m else Suc (hm_count m)))"
proof -
  obtain k where ok: "hm_ok k m" using inv by (auto simp: hm_inv_def)
  define e where "e = bucket_new key n v vn (hm_hash m (take (unat n) key)) 0"
  obtain r where r: "hashmap_insert m key n v vn = Some r" "inserted m (put e (entries (hm_buckets m))) r"
    using insert_ok [OF ok small n vn e_def] by blast
  have key: "bucket_key e = take (unat n) key" using n by (simp add: e_def bucket_new_key)
  show ?thesis
  proof (cases r)
    case (Inl u)
    then show ?thesis using r by (auto simp: inserted_def)
  next
    case (Inr m')
    then have m': "hm_inv m'" "same_setup m m'" "entries (hm_buckets m') = put e (entries (hm_buckets m))"
      using r by (auto simp: inserted_def)
    then obtain k' where ok': "hm_ok k' m'" by (auto simp: hm_inv_def)
    have v: "hm_view m' = view_of (put e (entries (hm_buckets m)))"
      "hm_view m = view_of (entries (hm_buckets m))"
      using hm_view_eq hm_okD(6) [OF ok] hm_okD(6) [OF ok'] m'(3) by metis+
    have "view_of (add_mset (strip e) (entries (hm_buckets m)))
        = (view_of (entries (hm_buckets m)))(take (unat n) key \<mapsto> (stored_value v vn, vn))"
      if "put e (entries (hm_buckets m)) = add_mset (strip e) (entries (hm_buckets m))"
      using view_of_add [of "strip e"] hm_okD(6) [OF ok'] m'(3) that key by (simp add: e_def)
    then show ?thesis
      using r(1) Inr m' v hm_ok_size [OF ok'] dom_hm_view [OF ok] key
      by (simp add: put_def hm_count_eq hashmap_size_def)
  qed
qed

text \<open>
  C3: Insertion of a key of size 1 or more always returns, however often it has to grow the table on the way. For a map of fewer
  than 63 entries it succeeds: the invariant holds again, a key that was there keeps its value, a new
  key gets the given value, nothing else changes, and the size field counts the entries. For larger
  maps (below 65535 entries) the only other outcome is that the capacity ran through all powers of two
  up to 2^63 and wrapped around.
\<close>

theorem hashmap_insert_correct:
  assumes inv: "hm_inv m" and small: "hm_count m < 65535"
    and n: "unat n \<le> length key" "0 < n" and vn: "unat vn \<le> length (p_mem v)"
  shows "\<exists>r. hashmap_insert m key n v vn = Some r \<and> (case r of
     Inl u \<Rightarrow> u = OutOfBounds \<and> 63 \<le> hm_count m
   | Inr m' \<Rightarrow> hm_inv m' \<and> same_setup m m' \<and>
       hm_view m' = (if take (unat n) key \<in> dom (hm_view m) then hm_view m
                     else (hm_view m)(take (unat n) key \<mapsto> (stored_value v vn, vn))) \<and>
       unat (hashmap_size m') = hm_count m' \<and>
       hm_count m' = (if take (unat n) key \<in> dom (hm_view m) then hm_count m else Suc (hm_count m)))"
  using assms by (rule hashmap_insert_spec)

subsection \<open>Creation\<close>

lemma initial_capacity:
  assumes "unat c < 2 ^ 63"
  shows "round_u64_to_next_pow2 (c + 1) + 1 = 2 ^ bitlen (unat c)"
proof -
  have le: "bitlen (unat c) < 64" using bitlen_less [OF assms] by simp
  have "unat (round_u64_to_next_pow2 (c + 1)) = 2 ^ bitlen (unat c) - 1"
    by (simp add: round_u64_unat)
  moreover have "(2::nat) ^ bitlen (unat c) < 2 ^ 64"
    using le by (intro power_strict_increasing) auto
  ultimately have "unat (round_u64_to_next_pow2 (c + 1) + 1) = 2 ^ bitlen (unat c)"
    using unat_Suc_no_wrap [of "round_u64_to_next_pow2 (c + 1)"] by simp
  then show ?thesis using le by (simp add: word_unat_eq_iff unat_power2)
qed

lemma hashmap_new_spec:
  assumes c: "unat c < 2 ^ 63"
  shows "\<exists>m. hashmap_new True uninit rnd c = Some (Inr (Some m)) \<and> hm_inv m \<and> hm_view m = Map.empty \<and>
    hashmap_size m = 0 \<and> unat c < unat (hashmap_capacity m) \<and>
    unat (hashmap_capacity m) = (if c = 0 then 1024 else 2 ^ bitlen (unat c))"
proof -
  define k where "k = (if c = 0 then 10 else bitlen (unat c))"
  have b: "unat c < 2 ^ bitlen (unat c)" using bitlen_bounds [of "unat c"] by (cases "unat c = 0") auto
  have pos: "1 \<le> bitlen (unat c)" if "c \<noteq> 0"
    using that by (simp add: bitlen.simps [of "unat c"] unat_eq_0)
  have k: "1 \<le> k" "k < 64" using bitlen_less [OF c] pos by (auto simp: k_def)
  define m0 where "m0 = \<lparr>hm_buckets = [], hm_size = 0, hm_capacity = 0, hm_hash_func = hash_murmur3,
      hm_hashkey = uninit XOR rnd, hm_max_probes = 0\<rparr>"
  have "\<exists>m'. hashmap_grow m0 (2 ^ k) False 0 = Some (Inr m') \<and> hm_ok k m' \<and> same_setup m0 m' \<and>
      entries (hm_buckets m') = entries (hm_buckets m0)"
    by (rule grow_ok [OF k]) (simp_all add: m0_def entries_def)
  then obtain m where m: "hashmap_grow m0 (2 ^ k) False 0 = Some (Inr m)" "hm_ok k m" "entries (hm_buckets m) = {#}"
    by (auto simp: m0_def entries_def)
  have cap: "(if c = 0 then HASHMAP_INITIAL_CAPACITY else round_u64_to_next_pow2 (c + 1) + 1) = 2 ^ k"
    using initial_capacity [OF c] by (simp add: k_def HASHMAP_INITIAL_CAPACITY_def)
  have "hashmap_new True uninit rnd c = Some (Inr (Some m))"
    using m(1) by (simp only: hashmap_new_def Let_def cap flip: m0_def) simp
  moreover have "hm_view m = Map.empty"
    using hm_view_eq [OF hm_okD(6) [OF m(2)]] m(3) by (simp add: view_of_def fun_eq_iff)
  moreover have "hm_size m = 0" "unat (hm_capacity m) = 2 ^ k"
    using m(2,3) k unat_power2 [of k, where 'a = 64] by (simp_all add: hm_ok_def)
  ultimately show ?thesis
    using m(2) b by (auto simp: hm_inv_def hashmap_size_def hashmap_capacity_def k_def unat_eq_0)
qed

text \<open>
  A new map is well formed and empty, whatever the random numbers and the uninitialised memory
  give for its hash key; its capacity is the smallest power of two above the requested one (1024 for a
  request of 0).
\<close>

theorem hashmap_new_correct:
  assumes c: "unat c < 2 ^ 63"
  shows "\<exists>m. hashmap_new True uninit rnd c = Some (Inr (Some m)) \<and> hm_inv m \<and> hm_view m = Map.empty \<and>
    hashmap_size m = 0 \<and> unat c < unat (hashmap_capacity m) \<and>
    unat (hashmap_capacity m) = (if c = 0 then 1024 else 2 ^ bitlen (unat c))"
  using assms by (rule hashmap_new_spec)

end
