(* ===== verification/Dictionary.thy ===== *)
theory Dictionary
  imports Prelude
begin

text \<open>
  The interface of a dictionary as its clients use it: lookups that always return, insertions that
  keep the first value of a key and succeed as long as there is room, removals. The argument type
  \<open>'a\<close> of an insertion and the stored value \<open>'v\<close> differ, as a C interface takes a pointer and
  keeps a copy of what it points to.
\<close>

fun dict_insert_all :: "('m \<Rightarrow> 'k \<Rightarrow> 'a \<Rightarrow> 'm run) \<Rightarrow> 'm \<Rightarrow> ('k \<times> 'a) list \<Rightarrow> 'm run" where
  "dict_insert_all ins m [] = Some (Inr m)"
| "dict_insert_all ins m ((k, a) # kas) = run_bind (ins m k a) (\<lambda>m. dict_insert_all ins m kas)"

locale lookup_table =
  fixes inv :: "'m \<Rightarrow> bool"
    and valid_key :: "'k \<Rightarrow> bool"
    and view :: "'m \<Rightarrow> 'k \<rightharpoonup> 'v"
    and get :: "'m \<Rightarrow> 'k \<Rightarrow> 'v option run"
  assumes get_view: "inv m \<Longrightarrow> valid_key k \<Longrightarrow> get m k = Some (Inr (view m k))"
begin

lemma get_total: "inv m \<Longrightarrow> valid_key k \<Longrightarrow> \<exists>r. get m k = Some (Inr r)"
  by (simp add: get_view)

lemma get_same_view:
  "inv m \<Longrightarrow> inv m' \<Longrightarrow> valid_key k \<Longrightarrow> view m k = view m' k \<Longrightarrow> get m k = get m' k"
  by (simp add: get_view)

end

locale dictionary = lookup_table inv valid_key view get
  for inv :: "'m \<Rightarrow> bool" and valid_key :: "'k \<Rightarrow> bool" and view :: "'m \<Rightarrow> 'k \<rightharpoonup> 'v"
    and get :: "'m \<Rightarrow> 'k \<Rightarrow> 'v option run" +
  fixes count :: "'m \<Rightarrow> nat"
    and room :: nat
    and valid_arg :: "'a \<Rightarrow> bool"
    and store :: "'a \<Rightarrow> 'v"
    and ins :: "'m \<Rightarrow> 'k \<Rightarrow> 'a \<Rightarrow> 'm run"
    and del :: "'m \<Rightarrow> 'k \<Rightarrow> 'm run"
  assumes ins_view: "\<lbrakk>inv m; valid_key k; valid_arg a; count m < room\<rbrakk>
      \<Longrightarrow> \<exists>m'. ins m k a = Some (Inr m') \<and> inv m' \<and> count m' \<le> Suc (count m) \<and>
            view m' = (if k \<in> dom (view m) then view m else (view m)(k \<mapsto> store a))"
    and del_view: "\<lbrakk>inv m; valid_key k\<rbrakk>
      \<Longrightarrow> \<exists>m'. del m k = Some (Inr m') \<and> inv m' \<and> count m' \<le> count m \<and> view m' = (view m)(k := None)"
begin

lemma insert_all_view:
  "\<lbrakk>inv m; \<forall>(k, a) \<in> set kas. valid_key k \<and> valid_arg a; count m + length kas \<le> room\<rbrakk>
   \<Longrightarrow> \<exists>m'. dict_insert_all ins m kas = Some (Inr m') \<and> inv m' \<and> count m' \<le> count m + length kas \<and>
         view m' = map_of (map (\<lambda>(k, a). (k, store a)) kas) ++ view m"
proof (induction kas arbitrary: m)
  case Nil
  then show ?case by simp
next
  case (Cons ka kas)
  obtain k a where ka: "ka = (k, a)" by (cases ka)
  then obtain m1 where m1: "ins m k a = Some (Inr m1)" "inv m1" "count m1 \<le> Suc (count m)"
      "view m1 = (if k \<in> dom (view m) then view m else (view m)(k \<mapsto> store a))"
    using ins_view [of m k a] Cons.prems by auto
  then obtain m' where m': "dict_insert_all ins m1 kas = Some (Inr m')" "inv m'"
      "count m' \<le> count m1 + length kas" "view m' = map_of (map (\<lambda>(k, a). (k, store a)) kas) ++ view m1"
    using Cons.IH [of m1] Cons.prems by auto
  have "map_of (map (\<lambda>(k, a). (k, store a)) kas) ++ view m1
      = map_of (map (\<lambda>(k, a). (k, store a)) (ka # kas)) ++ view m"
    by (auto simp: m1(4) ka fun_eq_iff map_add_def split: option.splits)
  with m'(4) have view: "view m' = map_of (map (\<lambda>(k, a). (k, store a)) (ka # kas)) ++ view m"
    by (rule trans)
  have "dict_insert_all ins m (ka # kas) = Some (Inr m')" "count m' \<le> count m + length (ka # kas)"
    using m1(1,3) m'(1,3) ka by simp_all
  with view m'(2) show ?case by blast
qed

text \<open>A lookup after a series of insertions: an old value, or the first one inserted.\<close>

lemma get_after_insert_all:
  assumes "inv m" "\<forall>(k, a) \<in> set kas. valid_key k \<and> valid_arg a" "count m + length kas \<le> room" "valid_key k"
  shows "run_bind (dict_insert_all ins m kas) (\<lambda>m. get m k)
    = Some (Inr ((map_of (map (\<lambda>(k, a). (k, store a)) kas) ++ view m) k))"
  using insert_all_view [OF assms(1-3)] assms(4) get_view by auto

lemma get_after_delete:
  assumes "inv m" "valid_key k" "valid_key k'"
  shows "run_bind (del m k) (\<lambda>m. get m k') = Some (Inr (if k' = k then None else view m k'))"
  using del_view [OF assms(1,2)] assms(3) get_view by auto

text \<open>Deleting what was just inserted restores the dictionary.\<close>

lemma delete_after_insert:
  assumes "inv m" "valid_key k" "valid_arg a" "count m < room" "k \<notin> dom (view m)" "valid_key k'"
  shows "run_bind (ins m k a) (\<lambda>m. run_bind (del m k) (\<lambda>m. get m k')) = get m k'"
proof -
  obtain m1 where m1: "ins m k a = Some (Inr m1)" "inv m1" "view m1 = (view m)(k \<mapsto> store a)"
    using ins_view [OF assms(1-4)] assms(5) by auto
  have "view m k = None" using assms(5) by blast
  then show ?thesis
    using m1 get_after_delete [OF m1(2) assms(2,6)] get_view [OF assms(1,6)] by auto
qed

end

end
