(* ===== verification/HashMapDict.thy ===== *)
theory HashMapDict
  imports HashMapSpec Dictionary
begin

text \<open>
  The remaining operations of the hash map (update and iteration), the dictionary interface it
  provides to its clients, and concrete maps on which the theorems are applied.
\<close>

subsection \<open>Update\<close>

lemma bucket_update_value_views:
  assumes "bucket_update_value b v vn = Inr b'"
  shows "bucket_get_key_size b' = bucket_get_key_size b" "bucket_key b' = bucket_key b"
    "b_hash b' = b_hash b" "b_probe_length b' = b_probe_length b" "b_value_size b' = vn"
    "b_key b' = b_key b" "b_flags b' = b_flags b"
proof -
  have "\<exists>f. b' = b\<lparr>b_value := f, b_value_size := vn\<rparr>"
    using assms by (auto simp: bucket_update_value_def Let_def split: if_splits)
  then show "bucket_get_key_size b' = bucket_get_key_size b" "bucket_key b' = bucket_key b"
    "b_hash b' = b_hash b" "b_probe_length b' = b_probe_length b" "b_value_size b' = vn"
    "b_key b' = b_key b" "b_flags b' = b_flags b"
    by (auto simp: bucket_get_key_size_def bucket_key_def bucket_get_key_def)
qed

text \<open>What an update leaves as the value: a size of 0 over a sized value stores zeros, not the pointer.\<close>

definition updated_value :: "u32 \<Rightarrow> cptr \<Rightarrow> u32 \<Rightarrow> bytes" where
  "updated_value old_size v vn =
     (if vn = 0 \<and> old_size \<noteq> 0 then replicate 8 0 else stored_value v vn)"

lemma bucket_update_value_ok:
  assumes wf: "bucket_wf b" "occ b" and vn: "unat vn \<le> length (p_mem v)"
    and ne: "\<not> (vn = b_value_size b \<and> 8 < vn)"
  shows "\<exists>b'. bucket_update_value b v vn = Inr b' \<and> bucket_wf b' \<and>
    bucket_get_value b' = updated_value (b_value_size b) v vn"
proof -
  define f where "f = (if vn \<le> 8 then ValRaw (updated_value (b_value_size b) v vn)
                       else ValPtr (updated_value (b_value_size b) v vn))"
  have z: "vn \<le> 8 \<Longrightarrow> vn \<noteq> 0 \<Longrightarrow> 0 < vn" "\<not> vn \<le> 8 \<Longrightarrow> 0 < vn" "0 < vn \<Longrightarrow> vn \<noteq> 0"
    by (auto simp: word_gt_0)
  have eq: "bucket_update_value b v vn = Inr (b\<lparr>b_value := f, b_value_size := vn\<rparr>)"
    using ne z
    by (auto simp: bucket_update_value_def Let_def f_def updated_value_def stored_value_def
        value_memcpy_def word_gt_0 not_le not_less)
  let ?b = "b\<lparr>b_value := f, b_value_size := vn\<rparr>"
  have "b \<noteq> bucket_zero" using wf(2) by auto
  moreover have len: "length (updated_value (b_value_size b) v vn) = (if vn \<le> 8 then 8 else unat vn)"
    using length_stored_value [OF vn] by (auto simp: updated_value_def)
  moreover have "bucket_get_key_size ?b = bucket_get_key_size b" by (simp add: bucket_get_key_size_def)
  ultimately have "bucket_wf ?b"
    using wf(1) by (auto simp: bucket_wf_def f_def split: key_field.splits)
  then show ?thesis using eq by (simp add: bucket_get_value_def f_def)
qed

lemma update_found:
  assumes ok: "hm_ok k m" and n: "unat n \<le> length key" "0 < n"
    and j: "j < length (hm_buckets m)" "occ (hm_buckets m ! j)"
      "bucket_key (hm_buckets m ! j) = take (unat n) key"
  shows "hashmap_update m key n v vn =
     Some (res_bind (bucket_update_value (hm_buckets m ! j) v vn)
       (\<lambda>b. Inr (m\<lparr>hm_buckets := (hm_buckets m)[j := b]\<rparr>)))"
proof -
  let ?h = "hm_hash m (take (unat n) key)"
  have "hashmap_update_loop m key n v vn ?h (hashmap_index m ?h) 0 =
     Some (res_bind (bucket_update_value (hm_buckets m ! j) v vn)
       (\<lambda>b. Inr (m\<lparr>hm_buckets := (hm_buckets m)[j := b]\<rparr>)))"
    using ok n refl j
  proof (induction rule: walk_present)
    case (here index p)
    then show ?case
      using j hm_okD(4) [OF ok] compare_in_buckets [OF ok _ n refl, of j]
      by (subst hashmap_update_loop.simps) (simp add: Let_def)
  next
    case (skip index p)
    then show ?case by (subst hashmap_update_loop.simps) (simp add: Let_def)
  qed
  then show ?thesis using n by (simp add: hashmap_update_def hashmap_hash_eq)
qed

lemma hm_ok_replace:
  assumes ok: "hm_ok k m" and j: "j < length (hm_buckets m)" "occ (hm_buckets m ! j)"
    and b: "bucket_wf b" "bucket_key b = bucket_key (hm_buckets m ! j)"
      "b_hash b = b_hash (hm_buckets m ! j)" "b_probe_length b = b_probe_length (hm_buckets m ! j)"
      "bucket_is_empty b = bucket_is_empty (hm_buckets m ! j)"
    and m': "m' = m\<lparr>hm_buckets := (hm_buckets m)[j := b]\<rparr>"
  shows "hm_ok k m'" "hm_view m' = (hm_view m)(bucket_key b \<mapsto> (bucket_get_value b, b_value_size b))"
    "hm_count m' = hm_count m"
proof -
  let ?bs = "hm_buckets m"
  define rest where "rest = entries (?bs[j := bucket_zero])"
  have occ: "occ b" using b(5) j(2) by simp
  have es: "entries ?bs = add_mset (strip (?bs ! j)) rest"
    using entries_clear [OF j, of bucket_zero] by (simp add: rest_def)
  have es': "entries (?bs[j := b]) = add_mset (strip b) rest"
    using entries_swap [OF j occ] es by simp
  have "(2::nat) ^ 1 \<le> 2 ^ k" using hm_okD(1) [OF ok] by (intro power_increasing) auto
  then have len: "2 \<le> length ?bs" using hm_okD(4) [OF ok] by simp
  have "fits ?bs (?bs ! j) j" using hm_okD(5) [OF ok] j by (simp add: rh_def)
  then have "fits ?bs b j" using b by (simp add: fits_def home_def pl_def)
  then have rh: "rh (?bs[j := b])"
    using rh_update [OF hm_okD(5) [OF ok] j(1) len, of b] occ b(4) by (simp add: pl_def)
  have d: "distinct_keys (add_mset (strip b) rest)" "distinct_keys (add_mset (strip (?bs ! j)) rest)"
    using hm_okD(6) [OF ok] es b(2) by (simp_all add: distinct_keys_add)
  have "hm_hash m' = hm_hash m" by (simp add: m')
  then show ok': "hm_ok k m'"
    using ok es es' rh d b occ by (simp add: hm_ok_def m')
  have "hm_view m = view_of (add_mset (strip (?bs ! j)) rest)" "hm_view m' = view_of (add_mset (strip b) rest)"
    using hm_view_eq [OF hm_okD(6) [OF ok]] hm_view_eq [OF hm_okD(6) [OF ok']] es es' by (simp_all add: m')
  then show "hm_view m' = (hm_view m)(bucket_key b \<mapsto> (bucket_get_value b, b_value_size b))"
    using view_of_add [OF d(1)] view_of_add [OF d(2)] b(2) by simp
  show "hm_count m' = hm_count m" using es es' by (simp add: hm_count_eq m')
qed

text \<open>
  The update of a key that is in the map replaces its value and nothing else, whatever the old and
  the new size, with one exception: two values of the same size of more than eight bytes. The field
  is cleared before it is used as the address to copy to, so that update writes through
  \<^verbatim>\<open>NULL\<close>.
\<close>

theorem hashmap_update_present:
  assumes inv: "hm_inv m" and n: "unat n \<le> length key" "0 < n" and vn: "unat vn \<le> length (p_mem v)"
    and old: "hm_view m (take (unat n) key) = Some (w, wn)"
  shows "if vn = wn \<and> 8 < vn then hashmap_update m key n v vn = Some (Inl NullDeref)
    else \<exists>m'. hashmap_update m key n v vn = Some (Inr m') \<and> hm_inv m' \<and> hm_count m' = hm_count m \<and>
      hm_view m' = (hm_view m)(take (unat n) key \<mapsto> (updated_value wn v vn, vn))"
proof -
  obtain k where ok: "hm_ok k m" using inv by (auto simp: hm_inv_def)
  have "take (unat n) key \<in> bucket_key ` set_mset (entries (hm_buckets m))"
    using old dom_hm_view [OF ok] by blast
  then obtain j where j: "j < length (hm_buckets m)" "occ (hm_buckets m ! j)"
      "bucket_key (hm_buckets m ! j) = take (unat n) key" and wn: "b_value_size (hm_buckets m ! j) = wn"
    using find_slot [OF ok] old by (metis option.inject prod.inject)
  note upd = update_found [OF ok n j, of v vn]
  have wf: "bucket_wf (hm_buckets m ! j)" using in_buckets(1) [OF ok _ j(2)] j(1) hm_okD(4) [OF ok] by simp
  show ?thesis
  proof (cases "vn = wn \<and> 8 < vn")
    case True
    then have "0 < vn" using word_neq_0_conv by (auto simp: word_gt_0)
    then have "bucket_update_value (hm_buckets m ! j) v vn = Inl NullDeref"
      using True wn by (auto simp: bucket_update_value_def Let_def)
    then show ?thesis using upd True by auto
  next
    case False
    then obtain b where b: "bucket_update_value (hm_buckets m ! j) v vn = Inr b" "bucket_wf b"
        "bucket_get_value b = updated_value wn v vn"
      using bucket_update_value_ok [OF wf j(2) vn] wn by auto
    note views = bucket_update_value_views [OF b(1)]
    show ?thesis
      using hm_ok_replace [OF ok j(1,2) b(2) views(2,3,4) _ refl] views upd b False j(3)
      by (auto simp: hm_inv_def bucket_is_empty_def)
  qed
qed

subsection \<open>Update without room\<close>

text \<open>
  An update of a key that is not in the map does no load check and relies on finding an empty
  bucket: on a table without one it never returns.
\<close>

theorem hashmap_update_full_diverges:
  assumes k: "k < 64" "hm_capacity m = 2 ^ k" "length (hm_buckets m) = 2 ^ k"
    and full: "\<forall>b \<in> set (hm_buckets m). \<not> bucket_is_empty b"
    and absent: "\<forall>b \<in> set (hm_buckets m). \<not> bucket_compare_key b key n (hashmap_hash m key (ucast n))"
  shows "hashmap_update m key n v vn = None"
proof -
  define h where "h = hashmap_hash m key (ucast n)"
  have "unat index < 2 ^ k \<Longrightarrow> hashmap_update_loop m key n v vn h index p = Some r \<Longrightarrow> False" for index p r
  proof -
    let ?P = "\<lambda>m' key' n' v' vn' h' index p r.
      m' = m \<and> key' = key \<and> n' = n \<and> h' = h \<longrightarrow> \<not> unat (index :: u64) < 2 ^ k"
    assume lt: "unat index < 2 ^ k" and run: "hashmap_update_loop m key n v vn h index p = Some r"
    have "?P m key n v vn h index p r"
    proof (rule hashmap_update_loop.raw_induct [where P = ?P, OF _ run])
      fix loop m' key' n' v' vn' h' index' p' r'
      assume IH: "\<And>m key n v vn h index p r. loop m key n v vn h index p = Some r \<Longrightarrow> ?P m key n v vn h index p r"
        and body: "(if \<not> unat index' < length (hm_buckets m') then Some (Inl OutOfBounds)
          else let bucket = hm_buckets m' ! unat index'
            in if \<not> bucket_is_empty bucket
               then if bucket_compare_key bucket key' n' h'
                    then Some (res_bind (bucket_update_value bucket v' vn')
                           (\<lambda>b. Inr (m'\<lparr>hm_buckets := (hm_buckets m')[unat index' := b]\<rparr>)))
                    else loop m' key' n' v' vn' h' ((index' + 1) AND (hm_capacity m' - 1)) (p' + 1)
               else Some (Inr (m'\<lparr>hm_buckets := (hm_buckets m')[unat index' := bucket_new key' n' v' vn' h' p'],
                                 hm_size := hm_size m' + 1\<rparr>))) = Some r'"
      show "?P m' key' n' v' vn' h' index' p' r'"
      proof (intro impI notI)
        assume eq: "m' = m \<and> key' = key \<and> n' = n \<and> h' = h" and lt': "unat index' < 2 ^ k"
        have "\<not> bucket_is_empty (hm_buckets m ! unat index')"
          "\<not> bucket_compare_key (hm_buckets m ! unat index') key n h"
          using lt' full absent k(3) by (simp_all add: h_def)
        then have "loop m key n v' vn' h ((index' + 1) AND (hm_capacity m - 1)) (p' + 1) = Some r'"
          using body eq lt' k(3) by (simp add: Let_def)
        then have "\<not> unat ((index' + 1) AND (hm_capacity m - 1)) < 2 ^ k" using IH by blast
        then show False using unat_and_mask [of k "index' + 1"] k by simp
      qed
    qed
    then show False using lt by simp
  qed
  moreover have "unat (hashmap_index m h) < 2 ^ k" using unat_hashmap_index [OF k(2,1)] by simp
  ultimately show ?thesis
    by (cases "hashmap_update m key n v vn") (auto simp: hashmap_update_def Let_def h_def [symmetric])
qed

subsection \<open>Iteration\<close>

text \<open>
  The loop of a client that visits all entries, \<^verbatim>\<open>while(hashmap_iterate(map, &it, ...))\<close>.
\<close>

partial_function (option) iterate_all :: "hashmap \<Rightarrow> u32 \<Rightarrow> (bytes \<times> u32 \<times> bytes \<times> u32) list run" where
  "iterate_all m it = run_bind (hashmap_iterate m it) (\<lambda>r. case r of
     None \<Rightarrow> Some (Inr [])
   | Some (e, it') \<Rightarrow> run_bind (iterate_all m it') (\<lambda>es. Some (Inr (e # es))))"

definition entry_of :: "bucket \<Rightarrow> bytes \<times> u32 \<times> bytes \<times> u32" where
  "entry_of b = (bucket_get_key b, bucket_get_key_size b, bucket_get_value b, bucket_get_value_size b)"

lemma iterate_all_from:
  assumes k: "k < 32" "hm_capacity m = 2 ^ k" "length (hm_buckets m) = 2 ^ k"
  shows "unat it \<le> 2 ^ k \<Longrightarrow> iterate_all m it
    = Some (Inr (map entry_of (filter (\<lambda>b. \<not> bucket_is_empty b) (drop (unat it) (hm_buckets m)))))"
proof (induction "2 ^ k - unat it" arbitrary: it)
  case 0
  have "\<not> (ucast it :: u64) < hm_capacity m"
    using 0 k by (simp add: word_less_nat_alt unat_ucast_up unat_power2)
  then have "hashmap_iterate m it = Some (Inr None)" by (subst hashmap_iterate.simps) simp
  then show ?case using 0 k by (subst iterate_all.simps) simp
next
  case (Suc d)
  let ?bs = "hm_buckets m"
  have lt: "unat it < 2 ^ k" using Suc(2) by simp
  have "(2::nat) ^ k < 2 ^ 32" using k(1) by (intro power_strict_increasing) auto
  then have it1: "unat (it + 1) = Suc (unat it)" using lt by (intro unat_Suc_no_wrap) simp
  have IH: "iterate_all m (it + 1)
      = Some (Inr (map entry_of (filter (\<lambda>b. \<not> bucket_is_empty b) (drop (Suc (unat it)) ?bs))))"
    using Suc(1) [of "it + 1"] Suc(2) it1 lt by simp
  have drop: "drop (unat it) ?bs = ?bs ! unat it # drop (Suc (unat it)) ?bs"
    using lt k(3) by (simp add: Cons_nth_drop_Suc)
  have c: "(ucast it :: u64) < hm_capacity m"
    using lt k by (simp add: word_less_nat_alt unat_ucast_up unat_power2)
  show ?case
  proof (cases "bucket_is_empty (?bs ! unat it)")
    case True
    then have "hashmap_iterate m it = hashmap_iterate m (it + 1)"
      using c lt k(3) by (subst hashmap_iterate.simps) simp
    then have "iterate_all m it = iterate_all m (it + 1)"
      by (subst (1 2) iterate_all.simps) simp
    then show ?thesis using IH True by (simp add: drop)
  next
    case False
    then have "hashmap_iterate m it = Some (Inr (Some (entry_of (?bs ! unat it), it + 1)))"
      using c lt k(3) by (subst hashmap_iterate.simps) (simp add: entry_of_def Let_def)
    then show ?thesis using IH False by (subst iterate_all.simps) (simp add: drop)
  qed
qed

lemma iterate_all_view:
  assumes inv: "hm_inv m" and cap: "unat (hashmap_capacity m) < 2 ^ 32"
  shows "\<exists>es. iterate_all m 0 = Some (Inr es) \<and> length es = unat (hashmap_size m) \<and>
    map_of (map (\<lambda>(key, n, v, vn). (take (unat n) key, (v, vn))) es) = hm_view m \<and>
    (\<forall>(key, n, v, vn) \<in> set es. hm_view m (take (unat n) key) = Some (v, vn))"
proof -
  obtain k where ok: "hm_ok k m" using inv by (auto simp: hm_inv_def)
  have "(2::nat) ^ k < 2 ^ 32"
    using cap hm_okD(2,3) [OF ok] by (simp add: hashmap_capacity_def unat_power2)
  then have "k < 32" by (rule power_less_imp_less_exp [rotated]) simp
  from iterate_all_from [OF this hm_okD(3,4) [OF ok], of 0]
  have "iterate_all m 0 = Some (Inr (map entry_of (filter (\<lambda>b. \<not> bucket_is_empty b) (hm_buckets m))))"
    by simp
  moreover have "hm_view m (bucket_key b) = Some (bucket_get_value b, b_value_size b)"
    if "b \<in> set (hm_buckets m)" "\<not> bucket_is_empty b" for b
  proof -
    have "strip b \<in># entries (hm_buckets m)" using that by (auto simp: entries_def)
    from view_of_in [OF hm_okD(6) [OF ok] this] show ?thesis by (simp add: hm_view_eq [OF hm_okD(6) [OF ok]])
  qed
  ultimately show ?thesis
    using hm_ok_size [OF ok]
    by (auto simp: hm_count_def hm_view_def hashmap_size_def entry_of_def bucket_key_def comp_def
        bucket_get_value_size_def)
qed

text \<open>
  C37: The iterator visits every entry of the map exactly once, in the order of the buckets, and then
  ends, for every map whose capacity is below 2^32 (the iterator is a 32-bit index).
\<close>

theorem hashmap_iterate_complete:
  assumes inv: "hm_inv m" and cap: "unat (hashmap_capacity m) < 2 ^ 32"
  shows "\<exists>es. iterate_all m 0 = Some (Inr es) \<and> length es = unat (hashmap_size m) \<and>
    map_of (map (\<lambda>(key, n, v, vn). (take (unat n) key, (v, vn))) es) = hm_view m"
  using iterate_all_view [OF assms] by blast

subsection \<open>The hash map as a dictionary\<close>

text \<open>Calls with the exact length of a key, as every client in the repository makes them.\<close>

definition hm_valid_key :: "bytes \<Rightarrow> bool" where
  "hm_valid_key key \<longleftrightarrow> key \<noteq> [] \<and> length key < 2 ^ 32"

definition hm_valid_arg :: "cptr \<times> u32 \<Rightarrow> bool" where
  "hm_valid_arg a \<longleftrightarrow> unat (snd a) \<le> length (p_mem (fst a))"

definition hm_store :: "cptr \<times> u32 \<Rightarrow> bytes \<times> u32" where
  "hm_store a = (stored_value (fst a) (snd a), snd a)"

definition hm_get :: "hashmap \<Rightarrow> bytes \<Rightarrow> (bytes \<times> u32) option run" where
  "hm_get m key = hashmap_get m key (of_nat (length key))"

definition hm_insert :: "hashmap \<Rightarrow> bytes \<Rightarrow> cptr \<times> u32 \<Rightarrow> hashmap run" where
  "hm_insert m key a = hashmap_insert m key (of_nat (length key)) (fst a) (snd a)"

definition hm_remove :: "hashmap \<Rightarrow> bytes \<Rightarrow> hashmap run" where
  "hm_remove m key = hashmap_remove m key (of_nat (length key))"

lemma hm_valid_keyD:
  assumes "hm_valid_key key"
  shows "unat (of_nat (length key) :: u32) = length key" "0 < (of_nat (length key) :: u32)"
    "take (unat (of_nat (length key) :: u32)) key = key"
proof -
  show len: "unat (of_nat (length key) :: u32) = length key"
    using assms by (simp add: hm_valid_key_def unat_of_nat take_bit_nat_eq_self)
  then show "0 < (of_nat (length key) :: u32)" using assms by (simp add: word_less_nat_alt hm_valid_key_def)
  show "take (unat (of_nat (length key) :: u32)) key = key" by (simp add: len)
qed

interpretation hm: dictionary hm_inv hm_valid_key hm_view hm_get hm_count 63 hm_valid_arg hm_store
  hm_insert hm_remove
proof
  fix m :: hashmap and key :: bytes
  assume inv: "hm_inv m" and key: "hm_valid_key key"
  note k = hm_valid_keyD [OF key]
  show "hm_get m key = Some (Inr (hm_view m key))"
    using hashmap_get_spec [OF inv, of "of_nat (length key)" key] k by (simp add: hm_get_def)
  show "\<exists>m'. hm_remove m key = Some (Inr m') \<and> hm_inv m' \<and> hm_count m' \<le> hm_count m \<and>
      hm_view m' = (hm_view m)(key := None)"
    using hashmap_remove_spec [OF inv, of "of_nat (length key)" key] k by (auto simp: hm_remove_def)
  fix a :: "cptr \<times> u32"
  assume a: "hm_valid_arg a" and room: "hm_count m < 63"
  have hyps: "hm_count m < 65535" "unat (of_nat (length key) :: u32) \<le> length key"
      "unat (snd a) \<le> length (p_mem (fst a))"
    using room k(1) a by (simp_all add: hm_valid_arg_def)
  obtain r where r: "hashmap_insert m key (of_nat (length key)) (fst a) (snd a) = Some r"
      "case r of Inl u \<Rightarrow> u = OutOfBounds \<and> 63 \<le> hm_count m
       | Inr m' \<Rightarrow> hm_inv m' \<and> same_setup m m' \<and>
           hm_view m' = (if key \<in> dom (hm_view m) then hm_view m
                         else (hm_view m)(key \<mapsto> (stored_value (fst a) (snd a), snd a))) \<and>
           unat (hashmap_size m') = hm_count m' \<and>
           hm_count m' = (if key \<in> dom (hm_view m) then hm_count m else Suc (hm_count m))"
    using hashmap_insert_spec [OF inv hyps(1,2) k(2) hyps(3), unfolded k(3)] by blast
  show "\<exists>m'. hm_insert m key a = Some (Inr m') \<and> hm_inv m' \<and> hm_count m' \<le> Suc (hm_count m) \<and>
      hm_view m' = (if key \<in> dom (hm_view m) then hm_view m else (hm_view m)(key \<mapsto> hm_store a))"
    using r room by (cases r) (auto simp: hm_insert_def hm_store_def)
qed

text \<open>
  C18: A series of insertions and a lookup: into any well-formed map, up to 63 entries in all, every
  insertion succeeds, and a lookup afterwards gives the value the map had for the key, or else the
  first value inserted for it, or else \<^verbatim>\<open>NULL\<close>.
\<close>

theorem hashmap_insert_all_get:
  assumes "hm_inv m" "\<forall>(k, a) \<in> set kas. hm_valid_key k \<and> hm_valid_arg a" "hm_count m + length kas \<le> 63"
    "hm_valid_key k"
  shows "run_bind (dict_insert_all hm_insert m kas) (\<lambda>m. hm_get m k)
    = Some (Inr ((map_of (map (\<lambda>(k, a). (k, hm_store a)) kas) ++ hm_view m) k))"
  using assms by (rule hm.get_after_insert_all)

text \<open>
  Removing a key that was just inserted undoes the insertion for every later lookup, even when the
  insertion had to grow the table.
\<close>

theorem hashmap_remove_undoes_insert:
  assumes "hm_inv m" "hm_valid_key k" "hm_valid_arg a" "hm_count m < 63" "k \<notin> dom (hm_view m)"
    "hm_valid_key k'"
  shows "run_bind (hm_insert m k a) (\<lambda>m. run_bind (hm_remove m k) (\<lambda>m. hm_get m k')) = hm_get m k'"
  using assms by (rule hm.delete_after_insert)

subsection \<open>Concrete maps\<close>

declare robin_hood_loop.simps [code] hashmap_insert_bucket.simps [code] hashmap_update_loop.simps [code]
  hashmap_get_loop.simps [code] backward_shift_loop.simps [code] hashmap_remove_loop.simps [code]
  hashmap_iterate.simps [code] iterate_all.simps [code]

text \<open>Maps of capacity 4 that hash a key to its first byte: an empty one, and one with one entry.\<close>

definition first_byte_hash :: "bytes \<Rightarrow> u64 \<Rightarrow> u32 \<Rightarrow> u32" where
  "first_byte_hash key n seed = (case key of [] \<Rightarrow> 0 | b # _ \<Rightarrow> ucast b)"

definition map_empty4 :: hashmap where
  "map_empty4 = \<lparr>hm_buckets = replicate 4 bucket_zero, hm_size = 0, hm_capacity = 4,
     hm_hash_func = first_byte_hash, hm_hashkey = 0, hm_max_probes = 2\<rparr>"

definition val :: "u8 \<Rightarrow> cptr" where
  "val b = \<lparr>p_addr = 0, p_mem = [b]\<rparr>"

definition map_one4 :: hashmap where
  "map_one4 = map_empty4\<lparr>hm_buckets := (hm_buckets map_empty4)[1 := bucket_new [5] 1 (val 9) 1 5 0],
     hm_size := 1\<rparr>"

lemma map_empty4_ok: "hm_ok 2 map_empty4"
  using rh_replicate [of 4] entries_replicate [of 4]
  by (simp add: hm_ok_def map_empty4_def del: rh_replicate entries_replicate)

lemma map_empty4_inv: "hm_inv map_empty4" "hm_count map_empty4 = 0"
  using map_empty4_ok by (auto simp: hm_inv_def hm_count_def map_empty4_def)

text \<open>Storing a bucket in its empty home slot.\<close>

lemma hm_ok_store_home:
  assumes ok: "hm_ok k m" and b: "bucket_wf b" "occ b" "b_hash b = hm_hash m (bucket_key b)"
      "b_probe_length b = 0"
    and i: "i = unat (b_hash b) mod 2 ^ k" "bucket_is_empty (hm_buckets m ! i)"
    and new: "bucket_key b \<notin> set (map bucket_key (hm_buckets m))" and room: "Suc (hm_count m) < 2 ^ k"
  shows "hm_ok k (m\<lparr>hm_buckets := (hm_buckets m)[i := b], hm_size := hm_size m + 1\<rparr>)"
proof -
  let ?bs = "hm_buckets m"
  have lt: "i < length ?bs" using i hm_okD(4) [OF ok] by simp
  have "(2::nat) ^ 1 \<le> 2 ^ k" using hm_okD(1) [OF ok] by (intro power_increasing) auto
  then have "rh (?bs[i := b])"
    using rh_update [OF hm_okD(5) [OF ok] lt] fits_home [OF b(4) hm_okD(4) [OF ok] i(1)] i(2)
      hm_okD(4) [OF ok] by simp
  moreover have "bucket_key b \<notin> bucket_key ` set_mset (entries ?bs)"
    using new by (auto simp: entries_def)
  ultimately show ?thesis
    using hm_ok_store [OF ok _ _ entries_store [OF lt i(2) b(2)]] b room hm_okD(4) [OF ok]
    by (simp add: hm_count_eq)
qed

lemma map_one4_ok: "hm_ok 2 map_one4"
proof -
  let ?b = "bucket_new [5] 1 (val 9) 1 5 0" and ?m = map_empty4
  have "hm_ok 2 (?m\<lparr>hm_buckets := (hm_buckets ?m)[unat (b_hash ?b) mod 2 ^ 2 := ?b], hm_size := hm_size ?m + 1\<rparr>)"
  proof (rule hm_ok_store_home [OF map_empty4_ok])
    show "bucket_wf ?b" by (rule bucket_new_wf) (simp_all add: val_def)
    show "b_hash ?b = hm_hash ?m (bucket_key ?b)" by code_simp
    show "\<not> bucket_is_empty ?b" by code_simp
    show "bucket_key ?b \<notin> set (map bucket_key (hm_buckets ?m))" by code_simp
  qed (simp_all add: map_empty4_inv, simp add: map_empty4_def)
  then show ?thesis by (simp add: map_one4_def) (simp add: map_empty4_def)
qed

lemma map_one4_entries:
  "filter (\<lambda>b. \<not> bucket_is_empty b) (hm_buckets map_one4) = [bucket_new [5] 1 (val 9) 1 5 0]"
  by code_simp

lemma map_one4_view: "hm_view map_one4 = [[5] \<mapsto> ([9, 0, 0, 0, 0, 0, 0, 0], 1)]"
proof -
  have "stored_value (val 9) 1 = [9, 0, 0, 0, 0, 0, 0, 0]" by code_simp
  then show ?thesis by (simp add: hm_view_def map_one4_entries bucket_new_key)
qed

lemma map_one4_inv: "hm_inv map_one4" "hm_count map_one4 = 1"
  using map_one4_ok by (auto simp: hm_inv_def hm_count_def map_one4_entries)

theorem hashmap_get_correct_witness:
  "hm_inv map_one4 \<and> hashmap_get map_one4 [5] 1 = Some (Inr (Some ([9, 0, 0, 0, 0, 0, 0, 0], 1)))"
  using hashmap_get_correct [of map_one4 1 "[5]"] map_one4_inv by (simp add: map_one4_view)

theorem hashmap_remove_correct_witness:
  "hm_inv map_one4 \<and> (\<exists>m'. hashmap_remove map_one4 [5] 1 = Some (Inr m') \<and> hm_inv m' \<and>
    hm_view m' = Map.empty \<and> hm_count m' = 0)"
  using hashmap_remove_correct [of map_one4 1 "[5]"] map_one4_inv by (auto simp: map_one4_view)

theorem hashmap_insert_correct_witness:
  "hm_inv map_one4 \<and> (\<exists>m'. hashmap_insert map_one4 [9] 1 (val 3) 1 = Some (Inr m') \<and> hm_inv m' \<and>
    hm_view m' = (hm_view map_one4)([9] \<mapsto> (stored_value (val 3) 1, 1)) \<and> hm_count m' = 2)"
proof -
  have "unat (1 :: u32) \<le> length (p_mem (val 3))" by (simp add: val_def)
  then obtain r where "hashmap_insert map_one4 [9] 1 (val 3) 1 = Some r" "case r of
       Inl u \<Rightarrow> False
     | Inr m' \<Rightarrow> hm_inv m' \<and> hm_count m' = 2 \<and>
         hm_view m' = (hm_view map_one4)([9] \<mapsto> (stored_value (val 3) 1, 1))"
    using hashmap_insert_correct [of map_one4 1 "[9]" 1 "val 3"] map_one4_inv
    by (fastforce simp: map_one4_view split: sum.splits)
  then show ?thesis using map_one4_inv by (cases r) auto
qed

theorem hashmap_new_correct_witness:
  "unat (100 :: u64) < 2 ^ 63 \<and> (\<exists>m. hashmap_new True 0xDEAD 0xBEEF 100 = Some (Inr (Some m)) \<and> hm_inv m \<and>
    hm_view m = Map.empty \<and> unat (hashmap_capacity m) = 128)"
proof -
  have "bitlen 100 = 7" by code_simp
  then show ?thesis using hashmap_new_correct [of 100 "0xDEAD" "0xBEEF"] by auto
qed

theorem hashmap_update_present_witness:
  "hm_inv map_one4 \<and> (\<exists>m'. hashmap_update map_one4 [5] 1 (val 3) 1 = Some (Inr m') \<and> hm_inv m' \<and>
     hm_view m' = (hm_view map_one4)([5] \<mapsto> (updated_value 1 (val 3) 1, 1)))"
  using hashmap_update_present [of map_one4 1 "[5]" 1 "val 3"] map_one4_inv
  by (auto simp: map_one4_view val_def split: if_splits)

theorem hashmap_iterate_complete_witness:
  "hm_inv map_one4 \<and> unat (hashmap_capacity map_one4) < 2 ^ 32 \<and>
   (\<exists>es. iterate_all map_one4 0 = Some (Inr es) \<and> length es = 1)"
proof -
  have "unat (hashmap_capacity map_one4) < 2 ^ 32"
    by (simp add: hashmap_capacity_def map_one4_def map_empty4_def)
  then show ?thesis
    using hashmap_iterate_complete [of map_one4] map_one4_inv hm_ok_size [OF map_one4_ok]
    by (auto simp: hashmap_size_def)
qed

definition map_full2 :: hashmap where
  "map_full2 = \<lparr>hm_buckets = [bucket_new [2] 1 (val 0) 1 2 0, bucket_new [3] 1 (val 0) 1 3 0],
     hm_size = 2, hm_capacity = 2, hm_hash_func = first_byte_hash, hm_hashkey = 0, hm_max_probes = 1\<rparr>"

theorem hashmap_update_full_diverges_witness:
  "length (hm_buckets map_full2) = 2 \<and> hashmap_update map_full2 [4] 1 (val 1) 1 = None"
proof -
  have "\<forall>b \<in> set (hm_buckets map_full2). \<not> bucket_is_empty b" by code_simp
  moreover have "\<forall>b \<in> set (hm_buckets map_full2).
      \<not> bucket_compare_key b [4] 1 (hashmap_hash map_full2 [4] (ucast (1 :: u32)))" by code_simp
  ultimately show ?thesis
    using hashmap_update_full_diverges [of 1 map_full2 "[4]" 1 "val 1" 1] by (simp add: map_full2_def)
qed

text \<open>A map with two entries, both in their home slots.\<close>

definition map_two4 :: hashmap where
  "map_two4 = map_one4\<lparr>hm_buckets := (hm_buckets map_one4)[0 := bucket_new [4] 1 (val 1) 1 4 0], hm_size := 2\<rparr>"

lemma map_two4_inv: "hm_inv map_two4"
proof -
  let ?b = "bucket_new [4] 1 (val 1) 1 4 0" and ?m = map_one4
  have "hm_ok 2 (?m\<lparr>hm_buckets := (hm_buckets ?m)[unat (b_hash ?b) mod 2 ^ 2 := ?b], hm_size := hm_size ?m + 1\<rparr>)"
  proof (rule hm_ok_store_home [OF map_one4_ok])
    show "bucket_wf ?b" by (rule bucket_new_wf) (simp_all add: val_def)
    show "b_hash ?b = hm_hash ?m (bucket_key ?b)" by code_simp
    show "\<not> bucket_is_empty ?b" by code_simp
    show "bucket_key ?b \<notin> set (map bucket_key (hm_buckets ?m))" by code_simp
  qed (simp_all add: map_one4_inv, simp add: map_one4_def map_empty4_def)
  then show ?thesis by (auto simp: map_two4_def hm_inv_def) (auto simp: map_one4_def)
qed

text \<open>
  An update of a new key stores it behind buckets with smaller probe lengths without the Robin
  Hood exchange, so a well-formed map is no longer searchable after it: the key just updated is
  counted and is not found.
\<close>

theorem hashmap_update_absent_lost:
  "hm_inv map_two4 \<and>
   run_bind (hashmap_update map_two4 [8] 1 (val 3) 1) (\<lambda>m.
   run_bind (hashmap_get m [8] 1) (\<lambda>r. Some (Inr (hashmap_size m, r)))) = Some (Inr (3, None))"
  by (rule conjI [OF map_two4_inv]) code_simp

text \<open>
  A key of length 0 is accepted by insertion and counted, but its bucket reads as empty: the map
  says it has one entry and the iterator finds none.
\<close>

theorem hashmap_empty_key_counted:
  "run_bind (hashmap_insert map_empty4 [] 0 (val 1) 1) (\<lambda>m.
   run_bind (iterate_all m 0) (\<lambda>es. Some (Inr (hashmap_size m, es)))) = Some (Inr (1, []))"
proof -
  have cl: "hashmap_check_load map_empty4 = Some (Inr map_empty4)"
    using overloaded_iff [OF map_empty4_ok] map_empty4_inv(2)
    by (simp add: hashmap_check_load_def HASHMAP_MAX_LOAD_def)
  define m where "m = map_empty4\<lparr>hm_buckets := (hm_buckets map_empty4)[0 := bucket_new [] 0 (val 1) 1 0 0], hm_size := 1\<rparr>"
  have hash: "hashmap_hash map_empty4 [] 0 = 0" "hashmap_index map_empty4 0 = 0" by code_simp+
  have "hashmap_insert map_empty4 [] 0 (val 1) 1 = Some (Inr m)"
    by (simp add: hashmap_insert_def cl hash Let_def)
       (subst robin_hood_loop.simps, simp add: m_def map_empty4_def)
  moreover have "filter (\<lambda>b. \<not> bucket_is_empty b) (hm_buckets m) = []" unfolding m_def by code_simp
  then have "iterate_all m 0 = Some (Inr [])"
    using iterate_all_from [of 2 m 0] by (simp add: m_def map_empty4_def)
  moreover have "hashmap_size m = 1" by (simp add: m_def hashmap_size_def)
  ultimately show ?thesis by simp
qed

lemma valid_examples:
  "hm_valid_key [b]" "hm_valid_arg (val b, 1)"
  by (simp_all add: hm_valid_key_def hm_valid_arg_def val_def)

theorem hashmap_insert_all_get_witness:
  "hm_inv map_one4 \<and> run_bind (dict_insert_all hm_insert map_one4 [([5], (val 1, 1)), ([9], (val 2, 1)), ([9], (val 3, 1))])
     (\<lambda>m. hm_get m [9]) = Some (Inr (Some (hm_store (val 2, 1))))"
  using hashmap_insert_all_get [of map_one4 "[([5], (val 1, 1)), ([9], (val 2, 1)), ([9], (val 3, 1))]" "[9]"]
    map_one4_inv by (simp add: valid_examples map_one4_view map_add_def)

theorem hashmap_remove_undoes_insert_witness:
  "hm_inv map_one4 \<and> run_bind (hm_insert map_one4 [9] (val 2, 1)) (\<lambda>m. run_bind (hm_remove m [9]) (\<lambda>m. hm_get m [5]))
     = hm_get map_one4 [5]"
  using hashmap_remove_undoes_insert [of map_one4 "[9]" "(val 2, 1)" "[5]"] map_one4_inv
  by (simp add: valid_examples map_one4_view)

end
