(* ===== verification/Base64.thy ===== *)
theory Base64
  imports CMem
begin

text \<open>
  \<^verbatim>\<open>src/base64.c\<close>: the table-driven encoder and decoder, with every write to the output
  buffer and every table lookup bounds-checked, the list function they are proved against, and
  their round trip. Sizes are natural numbers; the one place where the code's unsigned
  subtraction can wrap (the loop bound of the decoder) is written out.
\<close>

subsection \<open>Shared byte accesses\<close>

definition blk_byte :: "bytes \<Rightarrow> nat \<Rightarrow> u8 res" where
  "blk_byte blk i = (if i < length blk then Inr (blk ! i) else Inl OutOfBounds)"

text \<open>\<^verbatim>\<open>out_buffer[(*out_sz)++] = c\<close> on the buffer and its running size.\<close>

definition out_put :: "u8 \<Rightarrow> bytes \<times> nat \<Rightarrow> (bytes \<times> nat) res" where
  "out_put c out = (case out of (buf, sz) \<Rightarrow> res_bind (blk_write buf sz [c]) (\<lambda>buf'. Inr (buf', Suc sz)))"

fun out_puts :: "bytes \<Rightarrow> bytes \<times> nat \<Rightarrow> (bytes \<times> nat) res" where
  "out_puts [] out = Inr out"
| "out_puts (c # cs) out = res_bind (out_put c out) (out_puts cs)"

subsection \<open>Encoder\<close>

definition base64_get_encode_size :: "nat \<Rightarrow> nat" where
  "base64_get_encode_size data_sz = ((data_sz + 2) div 3) * 4"

definition encode_table :: bytes where
  "encode_table = map of_char ''ABCDEFGHIJKLMNOPQRSTUVWXYZabcdefghijklmnopqrstuvwxyz0123456789+/''"

definition encode_char :: "u32 \<Rightarrow> nat \<Rightarrow> u8" where
  "encode_char chunk s = encode_table ! unat (drop_bit s chunk AND 0x3F)"

text \<open>The 24 bits of three input bytes.\<close>

definition chunk3 :: "u8 \<Rightarrow> u8 \<Rightarrow> u8 \<Rightarrow> u32" where
  "chunk3 a b c = push_bit 16 (ucast a) OR push_bit 8 (ucast b) OR ucast c"

function base64_encode_groups :: "bytes \<Rightarrow> nat \<Rightarrow> nat \<Rightarrow> bytes \<times> nat \<Rightarrow> (bytes \<times> nat) res" where
  "base64_encode_groups inp g full_groups out =
     (if g < full_groups
      then let i = g * 3 in
        res_bind (blk_byte inp (i + 0)) (\<lambda>b0.
        res_bind (blk_byte inp (i + 1)) (\<lambda>b1.
        res_bind (blk_byte inp (i + 2)) (\<lambda>b2.
          let chunk = chunk3 b0 b1 b2 in
          res_bind (out_puts [encode_char chunk 18, encode_char chunk 12,
                              encode_char chunk 6, encode_char chunk 0] out) (\<lambda>out'.
            base64_encode_groups inp (g + 1) full_groups out'))))
      else Inr out)"
  by pat_completeness auto
termination
  by (relation "measure (\<lambda>(inp, g, full_groups, out). full_groups - g)") auto

declare base64_encode_groups.simps [simp del]

definition base64_encode_scalar :: "bytes \<Rightarrow> nat \<Rightarrow> bytes \<Rightarrow> (bytes \<times> nat) res" where
  "base64_encode_scalar inp data_sz out_buffer =
     (let full_groups = data_sz div 3 in
      res_bind (base64_encode_groups inp 0 full_groups (out_buffer, 0)) (\<lambda>out.
        let rem = data_sz mod 3; i = full_groups * 3 in
        if rem \<noteq> 0
        then res_bind (if rem \<ge> 1 then res_bind (blk_byte inp (i + 0)) (\<lambda>b. Inr (push_bit 16 (ucast b))) else Inr 0) (\<lambda>c0.
             res_bind (if rem \<ge> 2 then res_bind (blk_byte inp (i + 1)) (\<lambda>b. Inr (c0 OR push_bit 8 (ucast b))) else Inr c0) (\<lambda>chunk.
             res_bind (out_puts [encode_char chunk 18, encode_char chunk 12] out) (\<lambda>out.
               if rem = 1 then out_puts [of_char CHR ''='', of_char CHR ''=''] out
               else out_puts [encode_char chunk 6, of_char CHR ''=''] out)))
        else Inr out))"

text \<open>\<open>None\<close> is the \<^verbatim>\<open>NULL\<close> returned when \<^verbatim>\<open>calloc\<close> fails.\<close>

definition base64_encode :: "bool \<Rightarrow> bytes \<Rightarrow> nat \<Rightarrow> (bytes \<times> nat) option res" where
  "base64_encode calloc_ok data data_sz =
     (if \<not> calloc_ok then Inr None
      else res_bind (base64_encode_scalar data data_sz (calloc_blk (base64_get_encode_size data_sz)))
             (\<lambda>out. Inr (Some out)))"

subsection \<open>Decoder\<close>

definition decode_table :: bytes where
  "decode_table =
    [62, -1, -1, -1, 63, 52, 53, 54, 55, 56,
     57, 58, 59, 60, 61, -1, -1, -1, -2, -1,
     -1, -1,  0,  1,  2,  3,  4,  5,  6,  7,
      8,  9, 10, 11, 12, 13, 14, 15, 16, 17,
     18, 19, 20, 21, 22, 23, 24, 25, -1, -1,
     -1, -1, -1, -1, 26, 27, 28, 29, 30, 31,
     32, 33, 34, 35, 36, 37, 38, 39, 40, 41,
     42, 43, 44, 45, 46, 47, 48, 49, 50, 51]"

text \<open>\<^verbatim>\<open>decode_table[c - '+']\<close> with \<^verbatim>\<open>c\<close> a signed \<^verbatim>\<open>char\<close>.\<close>

definition decode_char :: "u8 \<Rightarrow> u8 res" where
  "decode_char c =
     (let idx = sint c - 43
      in if 0 \<le> idx \<and> idx < 80 then Inr (decode_table ! nat idx) else Inl OutOfBounds)"

definition base64_get_decode_size :: "bytes \<Rightarrow> nat \<Rightarrow> nat res" where
  "base64_get_decode_size data data_sz =
     (if data_sz = 0 then Inr 0
      else if data_sz mod 4 \<noteq> 0 then Inr 0
      else res_bind (blk_byte data (data_sz - 1)) (\<lambda>l1.
           res_bind (blk_byte data (data_sz - 2)) (\<lambda>l2.
             Inr ((data_sz div 4) * 3 - (of_bool (l1 = of_char CHR ''='') + of_bool (l2 = of_char CHR ''=''))))))"

definition decode_at :: "bytes \<Rightarrow> nat \<Rightarrow> nat \<Rightarrow> u32 res" where
  "decode_at data i s = res_bind (blk_byte data i) (\<lambda>c. res_bind (decode_char c) (\<lambda>d. Inr (push_bit s (ucast d))))"

function base64_decode_quads :: "bytes \<Rightarrow> nat \<Rightarrow> nat \<Rightarrow> bytes \<times> nat \<Rightarrow> (bytes \<times> nat) res" where
  "base64_decode_quads data limit i out =
     (if i < limit
      then res_bind (decode_at data (i + 0) 18) (\<lambda>c0.
           res_bind (decode_at data (i + 1) 12) (\<lambda>c1.
           res_bind (decode_at data (i + 2) 6) (\<lambda>c2.
           res_bind (decode_at data (i + 3) 0) (\<lambda>c3.
             let chunk = c0 OR c1 OR c2 OR c3 in
             res_bind (out_puts [ucast (drop_bit 16 chunk), ucast (drop_bit 8 chunk AND 0xFF),
                                 ucast (drop_bit 0 chunk AND 0xFF)] out) (\<lambda>out'.
               base64_decode_quads data limit (i + 4) out')))))
      else Inr out)"
  by pat_completeness auto
termination
  by (relation "measure (\<lambda>(data, limit, i, out). limit - i)") auto

declare base64_decode_quads.simps [simp del]

fun base64_decode_last :: "bytes \<Rightarrow> nat \<Rightarrow> nat list \<Rightarrow> u32 \<Rightarrow> u32 res" where
  "base64_decode_last data i [] chunk = Inr chunk"
| "base64_decode_last data i (j # js) chunk =
     res_bind (decode_at data (i + j) ((3 - j) * 6)) (\<lambda>c. base64_decode_last data i js (chunk OR c))"

definition base64_decode_tail :: "bytes \<Rightarrow> nat \<Rightarrow> nat \<Rightarrow> bytes \<times> nat \<Rightarrow> (bytes \<times> nat) res" where
  "base64_decode_tail data i padding out =
     res_bind (base64_decode_last data i [0..<4 - padding] 0) (\<lambda>chunk.
     res_bind (out_put (ucast (drop_bit 16 chunk AND 0xFF)) out) (\<lambda>out.
     res_bind (if padding < 2 then out_put (ucast (drop_bit 8 chunk AND 0xFF)) out else Inr out) (\<lambda>out.
       if padding < 1 then out_put (ucast (drop_bit 0 chunk AND 0xFF)) out else Inr out)))"

text \<open>
  The bound \<^verbatim>\<open>data_sz - 4\<close> of the loop is a \<^verbatim>\<open>size_t\<close>: it wraps when
  \<^verbatim>\<open>data_sz < 4\<close>. After the loop \<^verbatim>\<open>i\<close> is the first multiple of four at or above it.
\<close>

definition base64_decode_limit :: "nat \<Rightarrow> nat" where
  "base64_decode_limit data_sz = (data_sz + (2 ^ 64 - 4)) mod 2 ^ 64"

definition base64_decode_scalar :: "bytes \<Rightarrow> nat \<Rightarrow> bytes \<Rightarrow> (bytes \<times> nat) res" where
  "base64_decode_scalar data data_sz out_buffer =
     (let limit = base64_decode_limit data_sz;
          i = ((limit + 3) div 4) * 4 in
      res_bind (base64_decode_quads data limit 0 (out_buffer, 0)) (\<lambda>out.
      res_bind (blk_byte data (data_sz - 1)) (\<lambda>l1.
      res_bind (blk_byte data (data_sz - 2)) (\<lambda>l2.
        base64_decode_tail data i (of_bool (l1 = of_char CHR ''='') + of_bool (l2 = of_char CHR ''='')) out))))"

definition base64_decode :: "bool \<Rightarrow> bytes \<Rightarrow> nat \<Rightarrow> (bytes \<times> nat) option res" where
  "base64_decode calloc_ok data data_sz =
     (if data_sz mod 4 \<noteq> 0 then Inr None
      else res_bind (base64_get_decode_size data data_sz) (\<lambda>buffer_sz.
        if \<not> calloc_ok then Inr None
        else res_bind (base64_decode_scalar data data_sz (calloc_blk buffer_sz)) (\<lambda>out. Inr (Some out))))"

subsection \<open>The output buffer\<close>

text \<open>A zeroed buffer of which the first bytes \<open>pre\<close> are written and \<open>k\<close> bytes are left.\<close>

definition out_state :: "bytes \<Rightarrow> nat \<Rightarrow> bytes \<times> nat" where
  "out_state pre k = (pre @ replicate k 0, length pre)"

lemma out_state_init: "(calloc_blk k, 0) = out_state [] k"
  by (simp add: out_state_def calloc_blk_def)

lemma out_put_state [simp]: "0 < k \<Longrightarrow> out_put c (out_state pre k) = Inr (out_state (pre @ [c]) (k - 1))"
  by (cases k) (simp_all add: out_put_def out_state_def blk_write_def)

lemma out_puts_state [simp]:
  "length cs \<le> k \<Longrightarrow> out_puts cs (out_state pre k) = Inr (out_state (pre @ cs) (k - length cs))"
  by (induction cs arbitrary: pre k) simp_all

subsection \<open>The encoding as a list function\<close>

fun b64_spec :: "bytes \<Rightarrow> bytes" where
  "b64_spec (a # b # c # r) =
     map (encode_char (chunk3 a b c)) [18, 12, 6, 0] @ b64_spec r"
| "b64_spec [a, b] = map (encode_char (chunk3 a b 0)) [18, 12, 6] @ [61]"
| "b64_spec [a] = map (encode_char (chunk3 a 0 0)) [18, 12] @ [61, 61]"
| "b64_spec [] = []"

lemma b64_spec_append:
  "3 dvd length xs \<Longrightarrow> b64_spec (xs @ ys) = b64_spec xs @ b64_spec ys"
proof (induction xs rule: b64_spec.induct)
  case (1 a b c r)
  then have "3 dvd length r" by (simp, presburger)
  then show ?case using 1 by simp
next
  case (2 a b)
  then have "3 dvd (2::nat)" by (simp add: numeral_2_eq_2)
  then show ?case by presburger
qed auto

lemma length_b64_spec: "length (b64_spec xs) = base64_get_encode_size (length xs)"
proof (induction xs rule: b64_spec.induct)
  case (1 a b c r)
  have "(length r + 3 + 2) div 3 * 4 = (length r + 2) div 3 * 4 + 4" by presburger
  then show ?case using 1 by (simp add: base64_get_encode_size_def)
qed (simp_all add: base64_get_encode_size_def)

lemma drop_triple:
  assumes "g < full" "full * 3 \<le> length inp"
  shows "drop (g * 3) inp = inp ! (g * 3) # inp ! (g * 3 + 1) # inp ! (g * 3 + 2) # drop (Suc g * 3) inp"
  using assms by (simp add: Cons_nth_drop_Suc eval_nat_numeral)

lemma take_triple:
  assumes "g < full" "full * 3 \<le> length inp"
  shows "take ((full - g) * 3) (drop (g * 3) inp)
    = inp ! (g * 3) # inp ! (g * 3 + 1) # inp ! (g * 3 + 2) # take ((full - Suc g) * 3) (drop (Suc g * 3) inp)"
proof -
  note drop_triple [OF assms]
  moreover have "(full - g) * 3 = Suc (Suc (Suc ((full - Suc g) * 3)))"
    using assms by simp
  ultimately show ?thesis by (simp only: take_Suc_Cons)
qed

lemma encode_groups_step:
  assumes "g < full" "full * 3 \<le> length inp" "4 \<le> k"
  shows "base64_encode_groups inp g full (out_state pre k)
    = base64_encode_groups inp (Suc g) full
        (out_state (pre @ map (encode_char (chunk3 (inp ! (g * 3)) (inp ! (g * 3 + 1)) (inp ! (g * 3 + 2)))) [18, 12, 6, 0]) (k - 4))"
  using assms by (subst base64_encode_groups.simps) (simp add: blk_byte_def Let_def eval_nat_numeral)

lemma encode_groups_spec:
  assumes "full * 3 \<le> length inp" "g \<le> full" "4 * (full - g) \<le> k"
  shows "base64_encode_groups inp g full (out_state pre k)
    = Inr (out_state (pre @ b64_spec (take ((full - g) * 3) (drop (g * 3) inp))) (k - 4 * (full - g)))"
  using assms
proof (induction "full - g" arbitrary: g pre k)
  case 0
  then show ?case by (simp add: base64_encode_groups.simps)
next
  case (Suc d)
  then have g: "g < full" by simp
  have k: "4 \<le> k" "4 * (full - Suc g) \<le> k - 4" "k - 4 - 4 * (full - Suc g) = k - 4 * (full - g)"
    using g Suc.prems(3) by linarith+
  show ?case
    using Suc.hyps Suc.prems g k
    by (simp add: encode_groups_step take_triple Suc.hyps(1) [of "Suc g"])
qed

lemma blk_byte_drop: "drop i blk = a # r \<Longrightarrow> blk_byte blk i = Inr a"
  by (metis blk_byte_def drop_all list.distinct(1) linorder_not_less Cons_nth_drop_Suc list.inject)

lemma blk_byte_drop_Suc: "drop i blk = a # b # r \<Longrightarrow> blk_byte blk (Suc i) = Inr b"
  by (metis blk_byte_drop drop_Suc list.sel(3) tl_drop)

lemma base64_encode_scalar_spec:
  "base64_encode_scalar data (length data) (calloc_blk (base64_get_encode_size (length data)))
     = Inr (b64_spec data, length (b64_spec data))"
proof -
  define f where "f = length data div 3"
  define k where "k = base64_get_encode_size (length data)"
  define full where "full = take (f * 3) data"
  define rest where "rest = drop (f * 3) data"
  have split: "b64_spec data = b64_spec full @ b64_spec rest"
    using b64_spec_append [of full rest] by (simp add: full_def rest_def f_def)
  have k: "k - 4 * f = (if length data mod 3 = 0 then 0 else 4)"
    unfolding base64_get_encode_size_def f_def k_def by presburger
  have "4 * f \<le> k" unfolding base64_get_encode_size_def f_def k_def by presburger
  then have groups: "base64_encode_groups data 0 f (out_state [] k) = Inr (out_state (b64_spec full) (k - 4 * f))"
    using encode_groups_spec [of f data 0 k "[]"] by (simp add: full_def f_def)
  have fin: "out_state xs 0 = (xs, length xs)" for xs
    by (simp add: out_state_def)
  have len: "length rest = length data mod 3"
    by (simp add: rest_def f_def minus_div_mult_eq_mod)
  note unf = base64_encode_scalar_def out_state_init k_def [symmetric] f_def [symmetric]
    groups k fin split chunk3_def
  consider "rest = []" | a where "rest = [a]" | a b where "rest = [a, b]"
    using len by (cases rest rule: b64_spec.cases) auto
  then show ?thesis
  proof cases
    case 1
    then show ?thesis using len by (simp add: unf)
  next
    case (2 a)
    then have "blk_byte data (f * 3) = Inr a" by (simp add: blk_byte_drop rest_def)
    then show ?thesis using len 2 by (simp add: unf)
  next
    case (3 a b)
    then have "blk_byte data (f * 3) = Inr a" "blk_byte data (Suc (f * 3)) = Inr b"
      by (simp_all add: blk_byte_drop blk_byte_drop_Suc rest_def)
    then show ?thesis using len 3 by (simp add: unf)
  qed
qed

subsection \<open>Decoding what was encoded\<close>

lemma decode_encode_table: "map decode_char encode_table = map (\<lambda>i. Inr (of_nat i)) [0..<64]"
  by code_simp

lemma length_encode_table [simp]: "length encode_table = 64"
  by (simp add: encode_table_def)

lemma pad_not_encoded: "61 \<notin> set encode_table"
  by code_simp

lemma sextet_bound: "unat (x AND 0x3F :: u32) < 64"
  using unat_and_mask [of 6 x] by simp

lemma decode_encode_char: "decode_char (encode_char chunk s) = Inr (ucast (take_bit 6 (drop_bit s chunk)))"
proof -
  define w where "w = drop_bit s chunk AND 0x3F"
  have w: "unat w < 64" by (simp add: w_def sextet_bound)
  have "decode_char (encode_table ! unat w) = map decode_char encode_table ! unat w"
    using w by simp
  also have "\<dots> = Inr (of_nat (unat w))"
    using w by (simp only: decode_encode_table) simp
  also have "of_nat (unat w) = (ucast w :: u8)" by simp
  finally have "decode_char (encode_char chunk s) = Inr (ucast w)"
    by (simp add: encode_char_def w_def)
  moreover have "w = take_bit 6 (drop_bit s chunk)"
    by (simp add: w_def take_bit_eq_mask mask_numeral)
  ultimately show ?thesis by (simp only:)
qed

lemma encode_char_not_pad: "encode_char chunk s \<noteq> 61"
  unfolding encode_char_def by (metis length_encode_table nth_mem pad_not_encoded sextet_bound)

lemma bit_chunk3: "bit (chunk3 a b c) n \<longleftrightarrow>
    n < 8 \<and> bit c n \<or> 8 \<le> n \<and> n < 16 \<and> bit b (n - 8) \<or> 16 \<le> n \<and> n < 24 \<and> bit a (n - 16)"
  using bit_imp_le_length [of c n] bit_imp_le_length [of b "n - 8"] bit_imp_le_length [of a "n - 16"]
  by (auto simp: chunk3_def bit_simps)

definition sextet :: "u32 \<Rightarrow> nat \<Rightarrow> u32" where
  "sextet chunk s = push_bit s (ucast (ucast (take_bit 6 (drop_bit s chunk)) :: u8))"

lemma bit_sextet: "bit (sextet chunk s) n \<longleftrightarrow> s \<le> n \<and> n < s + 6 \<and> n < 32 \<and> bit chunk n"
  by (auto simp: sextet_def bit_simps)

lemma chunk3_bytes:
  fixes chunk :: u32
  assumes "\<And>n. n < 24 \<Longrightarrow> lo \<le> n \<Longrightarrow> bit chunk n = bit (chunk3 a b c) n"
  shows "lo \<le> 16 \<Longrightarrow> ucast (drop_bit 16 chunk AND 0xFF) = a"
    and "lo \<le> 8 \<Longrightarrow> ucast (drop_bit 8 chunk AND 0xFF) = b"
    and "lo = 0 \<Longrightarrow> ucast (drop_bit 0 chunk AND 0xFF) = c"
    and "lo \<le> 16 \<Longrightarrow> ucast (drop_bit 16 chunk) = a"
proof -
  have m: "(0xFF :: u32) = mask 8" by (simp add: mask_numeral)
  show "lo \<le> 16 \<Longrightarrow> ucast (drop_bit 16 chunk AND 0xFF) = a"
    "lo \<le> 8 \<Longrightarrow> ucast (drop_bit 8 chunk AND 0xFF) = b"
    "lo = 0 \<Longrightarrow> ucast (drop_bit 0 chunk AND 0xFF) = c"
    "lo \<le> 16 \<Longrightarrow> ucast (drop_bit 16 chunk) = a"
    unfolding m by (rule bit_word_eqI; simp add: bit_simps assms bit_chunk3)+
qed

text \<open>The four, three or two sextets of a group give back the bits of its bytes.\<close>

lemma sextets4: "n < 24 \<Longrightarrow> bit (sextet x 18 OR sextet x 12 OR sextet x 6 OR sextet x 0) n = bit x n"
  by (auto simp: bit_or_iff bit_sextet)

lemma sextets3: "n < 24 \<Longrightarrow> 6 \<le> n \<Longrightarrow> bit (sextet x 18 OR sextet x 12 OR sextet x 6) n = bit x n"
  by (auto simp: bit_or_iff bit_sextet)

lemma sextets2: "n < 24 \<Longrightarrow> 12 \<le> n \<Longrightarrow> bit (sextet x 18 OR sextet x 12) n = bit x n"
  by (auto simp: bit_or_iff bit_sextet)

lemma decode_at_encoded:
  "blk_byte data i = Inr (encode_char chunk s) \<Longrightarrow> decode_at data i s = Inr (sextet chunk s)"
  by (simp add: decode_at_def decode_encode_char sextet_def)

lemma blk_byte_drop_add: "drop i blk = xs \<Longrightarrow> j < length xs \<Longrightarrow> blk_byte blk (i + j) = Inr (xs ! j)"
  by (auto simp: blk_byte_def)

lemma drop_b64_spec: "g * 3 \<le> length d \<Longrightarrow> drop (g * 4) (b64_spec d) = b64_spec (drop (g * 3) d)"
proof -
  assume g: "g * 3 \<le> length d"
  have "b64_spec d = b64_spec (take (g * 3) d) @ b64_spec (drop (g * 3) d)"
    using b64_spec_append [of "take (g * 3) d" "drop (g * 3) d"] g by (simp add: min_def)
  moreover have "length (b64_spec (take (g * 3) d)) = g * 4"
    using g by (simp add: length_b64_spec base64_get_encode_size_def min_def)
  ultimately show ?thesis by simp
qed

lemma decode_quads_step:
  assumes "drop i data = map (encode_char (chunk3 a b c)) [18, 12, 6, 0] @ r" "i < limit" "3 \<le> k"
  shows "base64_decode_quads data limit i (out_state pre k)
    = base64_decode_quads data limit (i + 4) (out_state (pre @ [a, b, c]) (k - 3))"
proof -
  note byte = blk_byte_drop_add [OF assms(1)]
  have "decode_at data (i + 0) 18 = Inr (sextet (chunk3 a b c) 18)"
    "decode_at data (i + 1) 12 = Inr (sextet (chunk3 a b c) 12)"
    "decode_at data (i + 2) 6 = Inr (sextet (chunk3 a b c) 6)"
    "decode_at data (i + 3) 0 = Inr (sextet (chunk3 a b c) 0)"
    using byte [of 0] byte [of 1] byte [of 2] byte [of 3] by (auto intro!: decode_at_encoded)
  moreover note chunk3_bytes [of 0 "sextet (chunk3 a b c) 18 OR sextet (chunk3 a b c) 12
    OR sextet (chunk3 a b c) 6 OR sextet (chunk3 a b c) 0" a b c, OF sextets4]
  ultimately show ?thesis
    using assms by (subst base64_decode_quads.simps) (simp add: Let_def eval_nat_numeral)
qed

lemma decode_quads_spec:
  assumes "m * 3 \<le> length d" "g \<le> m" "3 * (m - g) \<le> k"
  shows "base64_decode_quads (b64_spec d) (m * 4) (g * 4) (out_state pre k)
    = Inr (out_state (pre @ take ((m - g) * 3) (drop (g * 3) d)) (k - 3 * (m - g)))"
  using assms
proof (induction "m - g" arbitrary: g pre k)
  case 0
  then show ?case by (simp add: base64_decode_quads.simps)
next
  case (Suc n)
  then have g: "g < m" by simp
  have k: "3 \<le> k" "3 * (m - Suc g) \<le> k - 3" "k - 3 - 3 * (m - Suc g) = k - 3 * (m - g)"
    using g Suc.prems(3) by linarith+
  define a b c where "a = d ! (g * 3)" and "b = d ! (g * 3 + 1)" and "c = d ! (g * 3 + 2)"
  have "take ((m - g) * 3) (drop (g * 3) d) = a # b # c # take ((m - Suc g) * 3) (drop (Suc g * 3) d)"
    using take_triple [of g m d] g Suc.prems(1) by (simp add: a_def b_def c_def)
  moreover have "drop (g * 4) (b64_spec d)
      = map (encode_char (chunk3 a b c)) [18, 12, 6, 0] @ b64_spec (drop (Suc g * 3) d)"
    using drop_b64_spec [of g d] drop_triple [of g m d] g Suc.prems(1)
    by (simp add: a_def b_def c_def)
  ultimately show ?case
    using decode_quads_step [of "g * 4"] Suc.hyps Suc.prems g k
      Suc.hyps(1) [of "Suc g" "k - 3" "pre @ [a, b, c]"]
    by (simp add: add.commute)
qed

text \<open>
  A non-empty input splits into \<open>m\<close> full groups and a last group of one to three bytes.
\<close>

lemma last_group:
  assumes "d \<noteq> []"
  obtains m last where "m * 3 \<le> length d" "drop (m * 3) d = last" "d = take (m * 3) d @ last"
    "drop (m * 4) (b64_spec d) = b64_spec last" "length (b64_spec d) = m * 4 + 4"
    "length d = m * 3 + length last"
    "(\<exists>a. last = [a]) \<or> (\<exists>a b. last = [a, b]) \<or> (\<exists>a b c. last = [a, b, c])"
proof -
  define m where "m = (length d - 1) div 3"
  define last where "last = drop (m * 3) d"
  have m: "m * 3 < length d" "length d \<le> m * 3 + 3"
    using assms unfolding m_def by (cases d; simp; presburger)+
  have len: "length last = length d - m * 3" by (simp add: last_def)
  then have "length last = 1 \<or> length last = 2 \<or> length last = 3" using m by linarith
  then have shape: "(\<exists>a. last = [a]) \<or> (\<exists>a b. last = [a, b]) \<or> (\<exists>a b c. last = [a, b, c])"
    by (auto simp: length_Suc_conv eval_nat_numeral)
  have "(length d + 2) div 3 = m + 1"
    using m by (intro div_nat_eqI) simp_all
  then show ?thesis
    using m len shape drop_b64_spec [of m d]
    by (intro that [of m last]) (simp_all add: last_def length_b64_spec base64_get_encode_size_def)
qed

lemma pad_char: "of_char CHR ''='' = (61 :: u8)"
  by simp

lemma b64_last_bytes:
  assumes "drop (m * 4) e = xs" "length xs = 4" "length e = m * 4 + 4"
  shows "blk_byte e (length e - 1) = Inr (xs ! 3)" "blk_byte e (length e - 2) = Inr (xs ! 2)"
    "j < 4 \<Longrightarrow> blk_byte e (m * 4 + j) = Inr (xs ! j)"
proof -
  have *: "blk_byte e (m * 4 + j) = Inr (xs ! j)" if "j < 4" for j
    using assms blk_byte_drop_add [of "m * 4" e xs] that by simp
  have "length e - 1 = m * 4 + 3" "length e - 2 = m * 4 + 2" using assms(3) by simp_all
  then show "blk_byte e (length e - 1) = Inr (xs ! 3)" "blk_byte e (length e - 2) = Inr (xs ! 2)"
    using * [of 3] * [of 2] by (simp_all only:)
  show "j < 4 \<Longrightarrow> blk_byte e (m * 4 + j) = Inr (xs ! j)" by (rule *)
qed

lemma base64_get_decode_size_spec:
  assumes "d \<noteq> []"
  shows "base64_get_decode_size (b64_spec d) (length (b64_spec d)) = Inr (length d)"
proof -
  from assms obtain m last where g: "drop (m * 4) (b64_spec d) = b64_spec last"
    "length (b64_spec d) = m * 4 + 4" "length d = m * 3 + length last"
    and shape: "(\<exists>a. last = [a]) \<or> (\<exists>a b. last = [a, b]) \<or> (\<exists>a b c. last = [a, b, c])"
    by (rule last_group) blast
  have "(m * 4 + 4) mod 4 = 0" "(m * 4 + 4) div 4 = m + 1" by simp_all
  moreover have "length (b64_spec last) = 4" using shape by auto
  note b64_last_bytes(1,2) [OF g(1) this g(2)]
  ultimately show ?thesis
    using g shape by (auto simp: base64_get_decode_size_def encode_char_not_pad)
qed

lemma decode_last_encoded:
  assumes "\<And>j. j < n \<Longrightarrow> blk_byte e (i + j) = Inr (encode_char c ((3 - j) * 6))" "k \<le> n"
  shows "base64_decode_last e i [k..<n] chunk
    = Inr (foldl (\<lambda>acc j. acc OR sextet c ((3 - j) * 6)) chunk [k..<n])"
  using assms(2)
proof (induction "n - k" arbitrary: k chunk)
  case (Suc d)
  then have "k < n" by simp
  then show ?case
    using Suc.hyps(1) [of "Suc k"] Suc.hyps(2) decode_at_encoded [OF assms(1)]
    by (simp add: upt_conv_Cons)
qed simp

text \<open>The three shapes of the last group.\<close>

lemma decode_tail_3:
  assumes "\<And>j. j < 4 \<Longrightarrow> blk_byte e (i + j) = Inr (encode_char (chunk3 a b c) ((3 - j) * 6))"
  shows "base64_decode_tail e i 0 (out_state pre 3) = Inr (out_state (pre @ [a, b, c]) 0)"
  using decode_last_encoded [of 4 e i "chunk3 a b c" 0 0, OF assms]
    chunk3_bytes [of 0 "sextet (chunk3 a b c) 18 OR sextet (chunk3 a b c) 12
      OR sextet (chunk3 a b c) 6 OR sextet (chunk3 a b c) 0" a b c, OF sextets4]
  by (simp add: base64_decode_tail_def upt_rec or.assoc)

lemma decode_tail_2:
  assumes "\<And>j. j < 3 \<Longrightarrow> blk_byte e (i + j) = Inr (encode_char (chunk3 a b 0) ((3 - j) * 6))"
  shows "base64_decode_tail e i 1 (out_state pre 2) = Inr (out_state (pre @ [a, b]) 0)"
  using decode_last_encoded [of 3 e i "chunk3 a b 0" 0 0, OF assms]
    chunk3_bytes [of 6 "sextet (chunk3 a b 0) 18 OR sextet (chunk3 a b 0) 12
      OR sextet (chunk3 a b 0) 6" a b 0, OF sextets3]
  by (simp add: base64_decode_tail_def upt_rec or.assoc)

lemma decode_tail_1:
  assumes "\<And>j. j < 2 \<Longrightarrow> blk_byte e (i + j) = Inr (encode_char (chunk3 a 0 0) ((3 - j) * 6))"
  shows "base64_decode_tail e i 2 (out_state pre 1) = Inr (out_state (pre @ [a]) 0)"
  using decode_last_encoded [of 2 e i "chunk3 a 0 0" 0 0, OF assms]
    chunk3_bytes [of 12 "sextet (chunk3 a 0 0) 18 OR sextet (chunk3 a 0 0) 12" a 0 0, OF sextets2]
  by (simp add: base64_decode_tail_def upt_rec or.assoc)

lemma less_nat_cases:
  "(j::nat) < 2 \<Longrightarrow> j = 0 \<or> j = 1" "(j::nat) < 3 \<Longrightarrow> j = 0 \<or> j = 1 \<or> j = 2"
  "(j::nat) < 4 \<Longrightarrow> j = 0 \<or> j = 1 \<or> j = 2 \<or> j = 3"
  by linarith+

lemma base64_decode_scalar_spec:
  assumes "d \<noteq> []" "length (b64_spec d) < 2 ^ 64"
  shows "base64_decode_scalar (b64_spec d) (length (b64_spec d)) (calloc_blk (length d)) = Inr (d, length d)"
proof -
  from assms(1) obtain m last where m: "m * 3 \<le> length d" "d = take (m * 3) d @ last"
    and g: "drop (m * 4) (b64_spec d) = b64_spec last"
    "length (b64_spec d) = m * 4 + 4" and len: "length d = m * 3 + length last"
    and shape: "(\<exists>a. last = [a]) \<or> (\<exists>a b. last = [a, b]) \<or> (\<exists>a b c. last = [a, b, c])"
    by (rule last_group) blast
  define pre where "pre = take (m * 3) d"
  have limit: "base64_decode_limit (length (b64_spec d)) = m * 4" "(m * 4 + 3) div 4 * 4 = m * 4"
    using assms(2) g(2) by (simp_all add: base64_decode_limit_def)
  have quads: "base64_decode_quads (b64_spec d) (m * 4) 0 (calloc_blk (length d), 0) = Inr (out_state pre (length last))"
    using decode_quads_spec [of m d 0 "length d" "[]"] m(1) len by (simp add: pre_def out_state_init)
  have l4: "length (b64_spec last) = 4" using shape by auto
  note bytes = b64_last_bytes [OF g(1) l4 g(2)]
  have fin: "out_state (pre @ last) 0 = (d, length d)"
    using m by (simp add: out_state_def pre_def)
  have "base64_decode_tail (b64_spec d) (m * 4)
      (of_bool (b64_spec last ! 3 = 61) + of_bool (b64_spec last ! 2 = 61)) (out_state pre (length last))
    = Inr (out_state (pre @ last) 0)"
    using shape
  proof (elim disjE exE)
    fix a assume l: "last = [a]"
    have "blk_byte (b64_spec d) (m * 4 + j) = Inr (encode_char (chunk3 a 0 0) ((3 - j) * 6))" if "j < 2" for j
      using bytes(3) [of j] less_nat_cases(1) [OF that] l by auto
    from decode_tail_1 [OF this, where pre = pre] show ?thesis by (simp add: l numeral_2_eq_2)
  next
    fix a b assume l: "last = [a, b]"
    have "blk_byte (b64_spec d) (m * 4 + j) = Inr (encode_char (chunk3 a b 0) ((3 - j) * 6))" if "j < 3" for j
      using bytes(3) [of j] less_nat_cases(2) [OF that] l by auto
    from decode_tail_2 [OF this, where pre = pre] show ?thesis
      by (simp add: l numeral_2_eq_2 encode_char_not_pad)
  next
    fix a b c assume l: "last = [a, b, c]"
    have "blk_byte (b64_spec d) (m * 4 + j) = Inr (encode_char (chunk3 a b c) ((3 - j) * 6))" if "j < 4" for j
      using bytes(3) [of j] less_nat_cases(3) [OF that] l by auto
    from decode_tail_3 [OF this, where pre = pre] show ?thesis
      by (simp add: l numeral_3_eq_3 encode_char_not_pad)
  qed
  then show ?thesis
    unfolding base64_decode_scalar_def Let_def limit quads bytes(1,2) fin pad_char res_bind_simps .
qed

subsection \<open>Properties\<close>

text \<open>
  The encoder returns exactly the base64 text of the input, in a buffer of exactly
  \<open>base64_get_encode_size\<close> bytes: no write leaves the buffer and none of it stays unused.
\<close>

theorem base64_encode_correct:
  "base64_encode True data (length data) = Inr (Some (b64_spec data, length (b64_spec data)))
   \<and> length (b64_spec data) = base64_get_encode_size (length data)"
  by (simp add: base64_encode_def base64_encode_scalar_spec length_b64_spec)

text \<open>
  C14: Decoding the encoder's output gives the input back, for every non-empty input whose encoding
  fits in a \<^verbatim>\<open>size_t\<close>, without leaving a buffer or the decode table.
\<close>

theorem base64_roundtrip:
  assumes "data \<noteq> []" and "base64_get_encode_size (length data) < 2 ^ 64"
    and "base64_encode True data (length data) = Inr (Some (enc, enc_sz))"
  shows "base64_decode True enc enc_sz = Inr (Some (data, length data))"
proof -
  have enc: "enc = b64_spec data" "enc_sz = length (b64_spec data)"
    using assms(3) by (auto simp add: base64_encode_def base64_encode_scalar_spec)
  have "length (b64_spec data) mod 4 = 0"
    by (simp add: length_b64_spec base64_get_encode_size_def)
  moreover have "length (b64_spec data) < 2 ^ 64"
    using assms(2) by (simp add: length_b64_spec)
  ultimately show ?thesis
    using assms(1) by (simp add: base64_decode_def enc base64_get_decode_size_spec base64_decode_scalar_spec)
qed

theorem base64_roundtrip_witness:
  "base64_decode True (map of_char ''YWJjZA=='') 8 = Inr (Some ([97, 98, 99, 100], 4))"
proof -
  have "base64_encode True [97, 98, 99, 100] (length [97, 98, 99, 100 :: u8])
      = Inr (Some (map of_char ''YWJjZA=='', 8))"
    by code_simp
  from base64_roundtrip [OF _ _ this] show ?thesis
    by (simp add: base64_get_encode_size_def)
qed

text \<open>
  The decoder does not survive the empty string: with a size of 0 its loop bound wraps around,
  the size check lets it through, and the first iteration reads past the end of the input.
\<close>

theorem base64_decode_empty_out_of_bounds: "base64_decode True [] 0 = Inl OutOfBounds"
  by (simp add: base64_decode_def base64_get_decode_size_def base64_decode_scalar_def Let_def
      base64_decode_limit_def base64_decode_quads.simps decode_at_def blk_byte_def)

end
