(* ===== verification/Fmt.thy ===== *)
theory Fmt
  imports CMem Bits
begin

text \<open>
  Number formatting, \<^verbatim>\<open>src/src/fmt.c\<close>: the table-driven count of decimal digits, the
  backwards digit writer with digit pairs, and the formatting of signed, unsigned and floating
  numbers. Buffers are blocks with an offset, every write is bounds-checked.
\<close>

subsection \<open>Doubles\<close>

text \<open>
  A \<^verbatim>\<open>double\<close> is its 64-bit pattern; the arithmetic of the processor and of the mathematical
  library is an argument. \<open>d_lit m e\<close> is the literal \<open>m\<close> times ten to the \<open>e\<close>.
\<close>

record dops =
  d_lit :: "int \<Rightarrow> int \<Rightarrow> u64"
  d_isnan :: "u64 \<Rightarrow> bool"
  d_isinf :: "u64 \<Rightarrow> bool"
  d_lt :: "u64 \<Rightarrow> u64 \<Rightarrow> bool"
  d_eq :: "u64 \<Rightarrow> u64 \<Rightarrow> bool"
  d_neg :: "u64 \<Rightarrow> u64"
  d_fabs :: "u64 \<Rightarrow> u64"
  d_add :: "u64 \<Rightarrow> u64 \<Rightarrow> u64"
  d_mul :: "u64 \<Rightarrow> u64 \<Rightarrow> u64"
  d_div :: "u64 \<Rightarrow> u64 \<Rightarrow> u64"
  d_pow :: "u64 \<Rightarrow> int \<Rightarrow> u64"
  d_log10 :: "u64 \<Rightarrow> u64"
  d_modf :: "u64 \<Rightarrow> u64 \<times> u64"
  d_to_int :: "u64 \<Rightarrow> int"
  d_to_u64 :: "u64 \<Rightarrow> u64"
  d_of_u64 :: "u64 \<Rightarrow> u64"

subsection \<open>Counting digits\<close>

definition floor_log10_pow2 :: "nat \<Rightarrow> nat" where
  "floor_log10_pow2 e = (e * 1262611) div 2 ^ 22"

definition ceil_log10_pow2 :: "nat \<Rightarrow> nat" where
  "ceil_log10_pow2 e = (if e = 0 then 0 else floor_log10_pow2 e + 1)"

text \<open>Entry \<open>i\<close> of the table as \<^verbatim>\<open>generate_digit_count_table\<close> computes it.\<close>

definition digit_count_entry :: "nat \<Rightarrow> nat" where
  "digit_count_entry i =
     (let ub = ceil_log10_pow2 i in (ub + 1) * 2 ^ 52 - 10 ^ ub div 2 ^ (i div 4))"

definition g_digit_count_table :: "u64 list" where
  "g_digit_count_table =
    [4503599627370495, 9007199254740982, 9007199254740982, 9007199254740982,
     13510798882111438, 13510798882111438, 13510798882111438, 18014398509481484,
     18014398509481734, 18014398509481734, 22517998136849980, 22517998136849980,
     22517998136851230, 22517998136851230, 27021597764210476, 27021597764210476,
     27021597764216726, 31525197391530972, 31525197391530972, 31525197391530972,
     36028797018651468, 36028797018651468, 36028797018651468, 36028797018651468,
     40532396644771964, 40532396644771964, 40532396644771964, 45035996258079960,
     45035996265892460, 45035996265892460, 49539595822950456, 49539595822950456,
     49539595862012956, 49539595862012956, 54043195137820952, 54043195137820952,
     54043195333133452, 58546793202691448, 58546793202691448, 58546793202691448,
     63050385017561944, 63050385017561944, 63050385017561944, 63050385017561944,
     67553945582432440, 67553945582432440, 67553945582432440, 72057105756677936,
     72057349897302936, 72057349897302936, 76558752259048432, 76558752259048432,
     76559972962173432, 76559972962173432, 81052586261418928, 81052586261418928,
     81058689777043928, 85507357763789424, 85507357763789424, 85507357763789424,
     89766816766159920, 89766816766159920, 89766816766159920, 89766816766159920]"

text \<open>\<^verbatim>\<open>clz_u64\<close>: the number of leading zeros, for a non-zero argument.\<close>

definition clz_u64 :: "u64 \<Rightarrow> nat" where
  "clz_u64 x = 64 - bitlen (unat x)"

definition floor_log2 :: "u64 \<Rightarrow> nat" where
  "floor_log2 n = 63 XOR clz_u64 n"

definition count_digits :: "u64 \<Rightarrow> nat" where
  "count_digits n =
    (if n = 0 then 1
     else unat (drop_bit 52 (g_digit_count_table ! floor_log2 n + drop_bit (floor_log2 n div 4) n)))"

subsection \<open>Writing digits\<close>

definition digit_pairs :: bytes where
  "digit_pairs = map of_char (''00010203040506070809''
     @ ''10111213141516171819''
     @ ''20212223242526272829''
     @ ''30313233343536373839''
     @ ''40414243444546474849''
     @ ''50515253545556575859''
     @ ''60616263646566676869''
     @ ''70717273747576777879''
     @ ''80818283848586878889''
     @ ''90919293949596979899'')"

text \<open>\<^verbatim>\<open>*p = c\<close> for a pointer at a signed offset into a block.\<close>

definition put_at :: "bytes \<Rightarrow> int \<Rightarrow> u8 \<Rightarrow> bytes res" where
  "put_at blk p c = (if 0 \<le> p \<and> p < int (length blk) then Inr (blk[nat p := c]) else Inl OutOfBounds)"

function utoa_loop :: "u64 \<Rightarrow> bytes \<Rightarrow> int \<Rightarrow> bytes res" where
  "utoa_loop val blk p_end =
    (if val \<ge> 100 then
       let r = unat (val mod 100); val = val div 100
       in res_bind (put_at blk p_end (digit_pairs ! (r * 2 + 1))) (\<lambda>blk.
          res_bind (put_at blk (p_end - 1) (digit_pairs ! (r * 2))) (\<lambda>blk.
            utoa_loop val blk (p_end - 2)))
     else if val \<ge> 10 then
       res_bind (put_at blk p_end (digit_pairs ! (unat val * 2 + 1))) (\<lambda>blk.
         put_at blk (p_end - 1) (digit_pairs ! (unat val * 2)))
     else put_at blk p_end (48 + ucast val))"
  by auto
termination
  by (relation "measure (\<lambda>(val, _, _). unat val)")
     (auto simp: word_le_nat_alt unat_div)

declare utoa_loop.simps [simp del]

text \<open>The result is the block and the offset behind the last digit.\<close>

definition utoa_fast :: "u64 \<Rightarrow> bytes \<Rightarrow> nat \<Rightarrow> (bytes \<times> nat) res" where
  "utoa_fast val blk buf =
    (let ndigits = count_digits val
     in res_bind (utoa_loop val blk (int buf + int ndigits - 1)) (\<lambda>blk. Inr (blk, buf + ndigits)))"

text \<open>A signed argument is the word with its two's complement pattern.\<close>

definition fmt_size_i64 :: "u64 \<Rightarrow> nat" where
  "fmt_size_i64 i64 = count_digits (abs_i64 i64) + (if i64 <s 0 then 1 else 0)"

definition fmt_i64 :: "bytes \<Rightarrow> nat \<Rightarrow> u64 \<Rightarrow> (bytes \<times> nat) res" where
  "fmt_i64 blk buffer i64 =
    (let negative = i64 <s 0
     in res_bind (if negative then put_at blk (int buffer) 45 else Inr blk) (\<lambda>blk.
        let buffer = (if negative then buffer + 1 else buffer)
        in res_bind (utoa_fast (abs_i64 i64) blk buffer) (\<lambda>(blk, e).
             Inr (blk, (e - buffer) + (if negative then 1 else 0)))))"

definition fmt_size_u64 :: "u64 \<Rightarrow> nat" where
  "fmt_size_u64 u64 = count_digits u64"

definition fmt_u64 :: "bytes \<Rightarrow> nat \<Rightarrow> u64 \<Rightarrow> (bytes \<times> nat) res" where
  "fmt_u64 blk buffer u64 = res_bind (utoa_fast u64 blk buffer) (\<lambda>(blk, e). Inr (blk, e - buffer))"

subsection \<open>Floating-point numbers\<close>

definition fmt_size_f64 :: "dops \<Rightarrow> u64 \<Rightarrow> int \<Rightarrow> int" where
  "fmt_size_f64 D f64 precision =
    (let zero = d_lit D 0 0; one = d_lit D 1 0 in
     if d_isnan D f64 then 4
     else if d_isinf D f64 then (if d_lt D f64 zero then 5 else 4)
     else
       let size = (if d_lt D f64 zero then 1 else 0);
           f64 = (if d_lt D f64 zero then d_neg D f64 else f64)
       in if d_eq D f64 zero then (if precision > 0 then 2 + precision else 2)
          else
            let precision = (if precision < 0 then 6 else precision);
                precision = (if precision > 17 then 17 else precision);
                size = (if \<not> d_lt D f64 one then size + d_to_int D (d_log10 D f64) + 1 else size + 1)
            in if precision > 0 then size + 1 + precision else size)"

text \<open>\<^verbatim>\<open>memcpy(p, s, n)\<close>, and the number of bytes written as the result.\<close>

definition put_str :: "bytes \<Rightarrow> nat \<Rightarrow> bytes \<Rightarrow> (bytes \<times> nat) res" where
  "put_str blk p s = res_bind (blk_write blk p s) (\<lambda>blk. Inr (blk, p + length s))"

definition fmt_f64_fraction :: "dops \<Rightarrow> bytes \<Rightarrow> nat \<Rightarrow> nat \<Rightarrow> bool \<Rightarrow> u64 \<Rightarrow> u64 \<Rightarrow> nat \<Rightarrow> (bytes \<times> nat) res" where
  "fmt_f64_fraction D blk buffer p is_negative int_part frac_part precision =
    res_bind (put_str blk p [46]) (\<lambda>(blk, p).
     let pow10 = d_lit D 1 (int precision);
         frac_part = d_mul D frac_part pow10;
         frac_part = (if precision < 17 then d_add D frac_part (d_lit D 5 (- 1)) else frac_part);
         frac_int = d_to_u64 D frac_part
     in res_bind
          (if frac_int \<ge> d_to_u64 D pow10 then
             let int_part = d_add D int_part (d_lit D 1 0)
             in res_bind (utoa_fast (d_to_u64 D int_part) blk (buffer + (if is_negative then 1 else 0)))
                  (\<lambda>(blk, p). res_bind (put_str blk p [46]) (\<lambda>(blk, p).
                     Inr (blk, p, frac_int - d_to_u64 D pow10)))
           else Inr (blk, p, frac_int))
          (\<lambda>(blk, p, frac_int).
             if frac_int = 0 then put_str blk p (replicate precision 48)
             else
               res_bind (utoa_fast frac_int (replicate 20 0) 0) (\<lambda>(temp, len).
                 if len < precision then
                   res_bind (put_str blk p (replicate (precision - len) 48)) (\<lambda>(blk, p).
                     put_str blk p (take len temp))
                 else put_str blk p (take precision temp))))"

definition fmt_f64 :: "dops \<Rightarrow> bytes \<Rightarrow> nat \<Rightarrow> u64 \<Rightarrow> int \<Rightarrow> (bytes \<times> nat) res" where
  "fmt_f64 D blk buffer f64 precision =
    (let zero = d_lit D 0 0 in
     if d_isnan D f64 then
       res_bind (put_str blk buffer (map of_char ''nan'')) (\<lambda>(blk, p). Inr (blk, 3))
     else if d_isinf D f64 then
       if d_lt D f64 zero then
         res_bind (put_str blk buffer (map of_char ''-inf'')) (\<lambda>(blk, p). Inr (blk, 4))
       else res_bind (put_str blk buffer (map of_char ''inf'')) (\<lambda>(blk, p). Inr (blk, 3))
     else
       let is_negative = (d_lt D f64 zero \<or> d_eq D f64 (d_neg D zero))
       in res_bind (if is_negative then put_str blk buffer [45] else Inr (blk, buffer)) (\<lambda>(blk, p).
          let f64 = (if is_negative then d_fabs D f64 else f64)
          in if d_eq D f64 zero then
               res_bind (put_str blk p [48]) (\<lambda>(blk, p).
                 if precision > 0 then
                   res_bind (put_str blk p (46 # replicate (nat precision) 48)) (\<lambda>(blk, p).
                     Inr (blk, p - buffer))
                 else Inr (blk, p - buffer))
             else
               let precision = (if precision < 0 then 6 else precision);
                   precision = (if precision > 17 then 17 else precision);
                   (frac_part, int_part) = d_modf D f64
               in if d_lt D (d_of_u64 D (- 1)) int_part then
                    res_bind (put_str blk p (map of_char ''ovf'')) (\<lambda>(blk, p). Inr (blk, 3))
                  else
                    res_bind (utoa_fast (d_to_u64 D int_part) blk p) (\<lambda>(blk, p).
                      if precision > 0 then
                        res_bind (fmt_f64_fraction D blk buffer p is_negative int_part frac_part (nat precision))
                          (\<lambda>(blk, p). Inr (blk, p - buffer))
                      else Inr (blk, p - buffer))))"

subsection \<open>The decimal text of a number\<close>

fun dec :: "nat \<Rightarrow> bytes" where
  "dec n = (if n < 10 then [of_nat (48 + n)] else dec (n div 10) @ [of_nat (48 + n mod 10)])"

declare dec.simps [simp del]

lemma dec_nonempty [simp]: "dec n \<noteq> []"
  by (simp add: dec.simps [of n])

lemma length_dec_le_iff: "0 < k \<Longrightarrow> length (dec n) \<le> k \<longleftrightarrow> n < 10 ^ k"
proof (induction n arbitrary: k rule: dec.induct)
  case (1 n)
  show ?case
  proof (cases "n < 10")
    case True
    have "(10::nat) ^ 1 \<le> 10 ^ k" using "1.prems" by (intro power_increasing) auto
    then show ?thesis using True "1.prems" by (simp add: dec.simps)
  next
    case False
    then have eq: "length (dec n) = Suc (length (dec (n div 10)))" by (simp add: dec.simps [of n])
    show ?thesis
    proof (cases "k = 1")
      case True
      then show ?thesis using False eq by simp
    next
      case k: False
      then obtain j where j: "k = Suc j" "0 < j" using "1.prems" by (cases k) auto
      have "n div 10 < 10 ^ j \<longleftrightarrow> n < 10 ^ Suc j"
        by (simp add: less_mult_imp_div_less div_less_iff_less_mult mult.commute)
      then show ?thesis using "1.IH" [OF False j(2)] eq j(1) by simp
    qed
  qed
qed

lemma length_dec_eqI:
  assumes "0 < k" "10 ^ (k - 1) \<le> n \<or> k = 1" "n < 10 ^ k"
  shows "length (dec n) = k"
proof (rule antisym)
  show "length (dec n) \<le> k" using assms length_dec_le_iff by simp
  show "k \<le> length (dec n)"
  proof (cases "k = 1")
    case True
    then show ?thesis by (simp add: Suc_leI)
  next
    case False
    then have "\<not> length (dec n) \<le> k - 1" using assms length_dec_le_iff [of "k - 1" n] by simp
    then show ?thesis by simp
  qed
qed

subsection \<open>The digit count\<close>

text \<open>What the proof needs of each table entry; the sixty-four cases are evaluated.\<close>

definition entry_ok :: "nat \<Rightarrow> bool" where
  "entry_ok i \<longleftrightarrow> (let ub = ceil_log10_pow2 i; s = i div 4 in
     unat (g_digit_count_table ! i) = digit_count_entry i \<and>
     (ub = 0 \<and> i = 0 \<or> 0 < ub \<and> 10 ^ (ub - 1) \<le> (2::nat) ^ i) \<and> (2::nat) ^ Suc i \<le> 10 ^ Suc ub \<and>
     (2::nat) ^ s dvd 10 ^ ub \<and> 10 ^ ub div 2 ^ s \<le> (2::nat) ^ 52 \<and> (2::nat) ^ (Suc i - s) \<le> 2 ^ 52 \<and> ub < 20)"

lemma all_entries_ok:
  "list_all entry_ok [0, 1, 2, 3, 4, 5, 6, 7, 8, 9, 10, 11, 12, 13, 14, 15, 16, 17, 18, 19, 20, 21, 22, 23,
     24, 25, 26, 27, 28, 29, 30, 31, 32, 33, 34, 35, 36, 37, 38, 39, 40, 41, 42, 43, 44, 45, 46, 47, 48,
     49, 50, 51, 52, 53, 54, 55, 56, 57, 58, 59, 60, 61, 62, 63]"
  by (simp add: entry_ok_def ceil_log10_pow2_def floor_log10_pow2_def digit_count_entry_def Let_def
      g_digit_count_table_def)

lemma entry_ok: "i < 64 \<Longrightarrow> entry_ok i"
proof -
  assume "i < 64"
  moreover have "[0..<64] = [0, 1, 2, 3, 4, 5, 6, 7, 8, 9, 10, 11, 12, 13, 14, 15, 16, 17, 18, 19, 20, 21,
     22, 23, 24, 25, 26, 27, 28, 29, 30, 31, 32, 33, 34, 35, 36, 37, 38, 39, 40, 41, 42, 43, 44, 45, 46,
     47, 48, 49, 50, 51, 52, 53, 54, 55, 56, 57, 58, 59, 60, 61, 62, 63::nat]"
    by (simp add: upt_rec)
  then have "list_all entry_ok [0..<64]" using all_entries_ok by (simp only:)
  ultimately show ?thesis by (simp add: list_all_iff)
qed

lemma floor_log2_eq:
  assumes "n \<noteq> 0"
  shows "floor_log2 n = bitlen (unat n) - 1" "floor_log2 n < 64"
    "2 ^ floor_log2 n \<le> unat n" "unat n < 2 ^ Suc (floor_log2 n)"
proof -
  have pos: "0 < unat n" using assms by (simp add: unat_gt_0)
  have "bitlen (unat n) \<le> 64" using unsigned_less [of n] by (intro bitlen_less) simp
  moreover have "0 < bitlen (unat n)" using pos by (simp add: bitlen.simps [of "unat n"])
  moreover have "\<forall>c \<in> set [0..<64]. 63 XOR c = 63 - (c :: nat)" by code_simp
  then have "63 XOR c = 63 - c" if "c < 64" for c :: nat using that by simp
  ultimately show eq: "floor_log2 n = bitlen (unat n) - 1"
    unfolding floor_log2_def clz_u64_def by simp
  show "floor_log2 n < 64" using eq \<open>bitlen (unat n) \<le> 64\<close> by simp
  show "2 ^ floor_log2 n \<le> unat n" "unat n < 2 ^ Suc (floor_log2 n)"
    using bitlen_bounds [OF pos] eq \<open>0 < bitlen (unat n)\<close> by simp_all
qed

lemma count_digits_dec: "count_digits n = length (dec (unat n))"
proof (cases "n = 0")
  case True
  then show ?thesis by (simp add: count_digits_def dec.simps)
next
  case False
  define i where "i = floor_log2 n"
  define ub where "ub = ceil_log10_pow2 i"
  define s where "s = i div 4"
  define N where "N = unat n"
  note fl = floor_log2_eq [OF False, folded i_def N_def]
  have ok: "unat (g_digit_count_table ! i) = (ub + 1) * 2 ^ 52 - 10 ^ ub div 2 ^ s"
    "ub = 0 \<and> i = 0 \<or> 0 < ub \<and> 10 ^ (ub - 1) \<le> (2::nat) ^ i" "(2::nat) ^ Suc i \<le> 10 ^ Suc ub"
    "(2::nat) ^ s dvd 10 ^ ub" "10 ^ ub div 2 ^ s \<le> (2::nat) ^ 52" "(2::nat) ^ (Suc i - s) \<le> 2 ^ 52" "ub < 20"
    using entry_ok [OF fl(2)] by (simp_all add: entry_ok_def Let_def digit_count_entry_def ub_def s_def)
  define q where "q = 10 ^ ub div (2::nat) ^ s"
  have P: "10 ^ ub = q * 2 ^ s" using ok(4) by (simp add: q_def)
  have ge: "q \<le> N div 2 ^ s \<longleftrightarrow> 10 ^ ub \<le> N"
    unfolding P by (simp add: less_eq_div_iff_mult_less_eq)
  have "N div 2 ^ s < 2 ^ (Suc i - s)"
  proof -
    have "s \<le> Suc i" by (simp add: s_def)
    then have "N < 2 ^ (Suc i - s) * 2 ^ s" using fl(4) by (simp flip: power_add)
    then show ?thesis by (simp add: div_less_iff_less_mult)
  qed
  then have small: "N div 2 ^ s < 2 ^ 52" using ok(6) by simp
  have dn: "unat (drop_bit s n) = N div 2 ^ s"
    by (simp only: N_def unat_drop_bit_eq) (simp only: drop_bit_eq_div)
  have q52: "q \<le> 2 ^ 52" using ok(5) by (simp add: q_def)
  have sum: "unat (g_digit_count_table ! i + drop_bit s n) = (ub + 1) * 2 ^ 52 - q + N div 2 ^ s"
  proof -
    have "(ub + 1) * 2 ^ 52 \<le> 20 * 2 ^ 52" using ok(7) by simp
    then have "unat (g_digit_count_table ! i) + unat (drop_bit s n) < 2 ^ LENGTH(64)"
      using ok(1) dn small by (simp flip: q_def)
    then show ?thesis using ok(1) dn by (simp add: unat_add_no_wrap flip: q_def)
  qed
  have cd: "count_digits n = ((ub + 1) * 2 ^ 52 - q + N div 2 ^ s) div 2 ^ 52"
  proof -
    have "count_digits n = unat (drop_bit 52 (g_digit_count_table ! i + drop_bit s n))"
      using False by (simp add: count_digits_def i_def s_def)
    then show ?thesis by (simp only: unat_drop_bit_eq sum) (simp only: drop_bit_eq_div)
  qed
  show ?thesis
  proof (cases "10 ^ ub \<le> N")
    case True
    then have "count_digits n = ub + 1"
      unfolding cd using ge small q52
      by (intro div_nat_eqI) (auto simp: algebra_simps)
    moreover have "N < 10 ^ (ub + 1)" using fl(4) ok(3) by simp
    ultimately show ?thesis using True length_dec_eqI [of "ub + 1" N] by (simp add: N_def)
  next
    case lt: False
    then have ub: "0 < ub" using ok(2) fl(3) by (cases ub) auto
    have "count_digits n = ub"
      unfolding cd using ge lt q52 ub
      by (intro div_nat_eqI) (auto simp: algebra_simps)
    moreover have "10 ^ (ub - 1) \<le> N" using ok(2) ub fl(3) by simp
    ultimately show ?thesis using lt ub length_dec_eqI [of ub N] by (simp add: N_def)
  qed
qed

subsection \<open>The digit writer\<close>

definition splice :: "bytes \<Rightarrow> nat \<Rightarrow> bytes \<Rightarrow> bytes" where
  "splice blk off bs = take off blk @ bs @ drop (off + length bs) blk"

lemma length_splice [simp]: "off + length bs \<le> length blk \<Longrightarrow> length (splice blk off bs) = length blk"
  by (simp add: splice_def)

lemma nth_splice:
  "off + length bs \<le> length blk \<Longrightarrow> i < length blk
    \<Longrightarrow> splice blk off bs ! i = (if off \<le> i \<and> i < off + length bs then bs ! (i - off) else blk ! i)"
  by (auto simp: splice_def nth_append min_def)

lemma splice_one: "p < length blk \<Longrightarrow> blk[p := c] = splice blk p [c]"
  by (simp add: splice_def upd_conv_take_nth_drop)

lemma put_at_nat: "put_at blk (int p) c = (if p < length blk then Inr (blk[p := c]) else Inl OutOfBounds)"
  by (simp add: put_at_def)

lemma splice_Nil [simp]: "splice blk k [] = blk"
  by (simp add: splice_def)

lemma put_at_pred:
  "1 \<le> p \<Longrightarrow> p \<le> length blk \<Longrightarrow> put_at blk (int p - 1) c = Inr (blk[p - 1 := c])"
  by (simp add: put_at_def nat_diff_distrib)

lemma digit_pairs_table:
  "map (\<lambda>r. (digit_pairs ! (r * 2), digit_pairs ! (r * 2 + 1))) [0..<100]
     = map (\<lambda>r. (of_nat (48 + r div 10), of_nat (48 + r mod 10))) [0..<100]"
  by code_simp

lemma digit_pairs_nth:
  assumes "r < 100"
  shows "digit_pairs ! (r * 2) = of_nat (48 + r div 10)" "digit_pairs ! (r * 2 + 1) = of_nat (48 + r mod 10)"
proof -
  have "map (\<lambda>r. (digit_pairs ! (r * 2), digit_pairs ! (r * 2 + 1))) [0..<100] ! r
     = map (\<lambda>r. (of_nat (48 + r div 10), of_nat (48 + r mod 10))) [0..<100] ! r"
    by (simp only: digit_pairs_table)
  then show "digit_pairs ! (r * 2) = of_nat (48 + r div 10)" "digit_pairs ! (r * 2 + 1) = of_nat (48 + r mod 10)"
    using assms by simp_all
qed

lemma dec_pair: "100 \<le> n \<Longrightarrow> dec n = dec (n div 100) @ [of_nat (48 + n mod 100 div 10), of_nat (48 + n mod 10)]"
proof -
  assume "100 \<le> n"
  then have "dec n = (dec (n div 10 div 10) @ [of_nat (48 + n div 10 mod 10)]) @ [of_nat (48 + n mod 10)]"
    by (simp add: dec.simps [of n] dec.simps [of "n div 10"])
  moreover have "n div 10 mod 10 = n mod 100 div 10" using mod_mult2_eq [of n 10 10] by simp
  ultimately show ?thesis by (simp add: div_mult2_eq [symmetric])
qed

text \<open>Writing backwards from \<open>p\<close> two digits and then a text before them.\<close>

lemma splice_pair:
  assumes "k + length D + 1 = p" "p < length blk"
  shows "splice (blk[p := b, p - 1 := a]) k D = splice blk k (D @ [a, b])"
proof (rule nth_equalityI)
  show "length (splice (blk[p := b, p - 1 := a]) k D) = length (splice blk k (D @ [a, b]))"
    using assms by simp
  fix i assume "i < length (splice (blk[p := b, p - 1 := a]) k D)"
  then have "i < length blk" using assms by simp
  then show "splice (blk[p := b, p - 1 := a]) k D ! i = splice blk k (D @ [a, b]) ! i"
    using assms by (auto simp: nth_splice nth_append nth_list_update nth_Cons')
qed

lemma utoa_loop_dec:
  "\<lbrakk>length (dec (unat val)) \<le> Suc p; p < length blk\<rbrakk>
    \<Longrightarrow> utoa_loop val blk (int p) = Inr (splice blk (Suc p - length (dec (unat val))) (dec (unat val)))"
proof (induction "unat val" arbitrary: val blk p rule: less_induct)
  case less
  have v100: "val \<ge> 100 \<longleftrightarrow> 100 \<le> unat val" and v10: "val \<ge> 10 \<longleftrightarrow> 10 \<le> unat val"
    by (simp_all add: word_le_nat_alt)
  show ?case
  proof (cases "100 \<le> unat val")
    case True
    define r where "r = unat val mod 100"
    have r: "unat (val mod 100) = r" "r < 100" by (simp_all add: r_def unat_mod)
    have q: "unat (val div 100) = unat val div 100" by (simp add: unat_div)
    define D where "D = dec (unat val div 100)"
    have dec: "dec (unat val) = D @ [of_nat (48 + r div 10), of_nat (48 + r mod 10)]"
      using dec_pair [OF True] by (simp add: D_def r_def mod_mod_cancel)
    have "1 \<le> length D" unfolding D_def by (simp add: Suc_le_eq)
    moreover have "length D + 2 \<le> Suc p" using less.prems(1) dec by simp
    ultimately have p: "2 \<le> p" "length D \<le> Suc (p - 2)" by linarith+
    let ?blk = "blk[p := of_nat (48 + r mod 10), p - 1 := of_nat (48 + r div 10)]"
    have "utoa_loop val blk (int p) = utoa_loop (val div 100) ?blk (int p - 2)"
      using True v100 r p less.prems(2) digit_pairs_nth [OF r(2)]
      by (subst utoa_loop.simps) (simp add: Let_def put_at_nat put_at_pred)
    moreover have "int p - 2 = int (p - 2)" using p by simp
    ultimately have "utoa_loop val blk (int p) = utoa_loop (val div 100) ?blk (int (p - 2))" by argo
    also have "\<dots> = Inr (splice ?blk (Suc (p - 2) - length D) D)"
      using less.hyps [of "val div 100" "p - 2" ?blk] q True p less.prems(2) by (simp add: D_def)
    also have "\<dots> = Inr (splice blk (Suc (p - 2) - length D) (D @ [of_nat (48 + r div 10), of_nat (48 + r mod 10)]))"
      using splice_pair [of "Suc (p - 2) - length D" D p] p less.prems(2) by simp
    finally show ?thesis using dec p by (simp add: numeral_2_eq_2 Suc_diff_Suc)
  next
    case lt: False
    show ?thesis
    proof (cases "10 \<le> unat val")
      case True
      define r where "r = unat val"
      have r: "r < 100" "unat val = r" using lt by (simp_all add: r_def)
      have dec: "dec (unat val) = [of_nat (48 + r div 10), of_nat (48 + r mod 10)]"
        using True r by (simp add: dec.simps [of r] dec.simps [of "r div 10"])
      then have p: "1 \<le> p" using less.prems(1) by simp
      have "utoa_loop val blk (int p) = Inr (blk[p := of_nat (48 + r mod 10), p - 1 := of_nat (48 + r div 10)])"
        using True lt v100 v10 r p less.prems(2) digit_pairs_nth [OF r(1)]
        by (subst utoa_loop.simps) (simp add: put_at_nat put_at_pred)
      also have "\<dots> = Inr (splice blk (p - 1) ([] @ [of_nat (48 + r div 10), of_nat (48 + r mod 10)]))"
        using splice_pair [of "p - 1" "[]" p blk] p less.prems(2) by simp
      finally show ?thesis using dec p by simp
    next
      case False
      have "(48 + ucast val :: u8) = of_nat (48 + unat val)" by simp
      then show ?thesis
        using False lt v100 v10 less.prems
        by (subst utoa_loop.simps) (simp add: put_at_nat splice_one dec.simps [of "unat val"])
    qed
  qed
qed

lemma utoa_fast_dec:
  assumes "off + length (dec (unat val)) \<le> length blk"
  shows "utoa_fast val blk off
    = Inr (splice blk off (dec (unat val)), off + length (dec (unat val)))"
proof -
  define l where "l = length (dec (unat val))"
  have l: "1 \<le> l" by (simp add: l_def Suc_le_eq)
  then have e: "int off + int l - 1 = int (off + l - 1)" by simp
  have "Suc (off + l - 1) - l = off" "l \<le> Suc (off + l - 1)" "off + l - 1 < length blk"
    using assms l by (simp_all flip: l_def)
  then have "utoa_loop val blk (int off + int l - 1) = Inr (splice blk off (dec (unat val)))"
    unfolding e using utoa_loop_dec [of val "off + l - 1" blk] by (simp only: flip: l_def)
  then show ?thesis by (simp add: utoa_fast_def count_digits_dec flip: l_def)
qed

text \<open>The decimal text of a signed number.\<close>

definition dec_i64 :: "u64 \<Rightarrow> bytes" where
  "dec_i64 w = (if sint w < 0 then 45 # dec (nat (- sint w)) else dec (nat (sint w)))"

lemma sint_eq: "sint w = (if bit w 63 then uint w - 2 ^ 64 else uint w)" for w :: u64
  by transfer (simp add: bit_simps signed_take_bit_eq_take_bit_add flip: minus_exp_eq_not_mask)

lemma unat_abs_i64: "unat (abs_i64 w) = nat \<bar>sint w\<bar>"
proof (cases "bit w 63")
  case True
  have "uint w < 2 ^ LENGTH(64)" by (rule unsigned_less)
  then have lt: "uint w < 2 ^ 64" by simp
  have "w \<noteq> 0" using True by auto
  then have "uint w mod 2 ^ 64 = uint w" "uint w \<noteq> 0" using lt by (simp_all add: uint_0_iff)
  then have "uint (- w) = 2 ^ 64 - uint w"
    by (simp add: uint_word_ariths zmod_zminus1_eq_if)
  moreover have "sint w = uint w - 2 ^ 64" using True by (simp only: sint_eq if_True)
  moreover have "abs_i64 w = - w" using True by (simp only: abs_i64_eq if_True)
  ultimately show ?thesis using lt by (simp add: unat_eq_nat_uint)
next
  case False
  then have "sint w = uint w" "abs_i64 w = w" by (simp_all only: sint_eq abs_i64_eq if_False)
  then show ?thesis by simp
qed

lemma length_dec_i64:
  "length (dec_i64 w) = fmt_size_i64 w"
  by (simp add: dec_i64_def fmt_size_i64_def count_digits_dec unat_abs_i64 word_sless_alt)

lemma fmt_i64_dec:
  assumes "off + length (dec_i64 w) \<le> length blk"
  shows "fmt_i64 blk off w = Inr (splice blk off (dec_i64 w), length (dec_i64 w))"
proof (cases "sint w < 0")
  case True
  define D where "D = dec (nat (- sint w))"
  have D: "dec (unat (abs_i64 w)) = D" "dec_i64 w = 45 # D"
    using True by (simp_all add: unat_abs_i64 D_def dec_i64_def)
  have lt: "Suc off + length D \<le> length blk" using assms D(2) by simp
  have "utoa_fast (abs_i64 w) (blk[off := 45]) (Suc off)
      = Inr (splice (blk[off := 45]) (Suc off) D, Suc off + length D)"
    using utoa_fast_dec [of "Suc off" "abs_i64 w" "blk[off := 45]"] lt by (simp add: D(1))
  moreover have "splice (blk[off := 45]) (Suc off) D = splice blk off (45 # D)"
    using lt by (simp add: splice_def take_Suc_conv_app_nth)
  ultimately show ?thesis
    using True lt D(2) by (simp add: fmt_i64_def Let_def word_sless_alt put_at_nat)
next
  case False
  then have "dec (unat (abs_i64 w)) = dec_i64 w" by (simp add: unat_abs_i64 dec_i64_def)
  then show ?thesis
    using False assms utoa_fast_dec [of off "abs_i64 w" blk]
    by (simp add: fmt_i64_def Let_def word_sless_alt)
qed

lemma fmt_u64_dec:
  assumes "off + length (dec (unat w)) \<le> length blk"
  shows "fmt_u64 blk off w = Inr (splice blk off (dec (unat w)), length (dec (unat w)))"
  using utoa_fast_dec [OF assms] by (simp add: fmt_u64_def)

subsection \<open>Properties\<close>

text \<open>
  The digit count read off the table with the logarithm is the length of the decimal text, for
  every 64-bit number; the constant table is the one its generator computes.
\<close>

theorem count_digits_correct:
  "count_digits n = length (dec (unat n)) \<and> map unat g_digit_count_table = map digit_count_entry [0..<64]"
proof
  show "count_digits n = length (dec (unat n))" by (rule count_digits_dec)
  show "map unat g_digit_count_table = map digit_count_entry [0..<64]"
  proof (rule nth_equalityI)
    show len: "length (map unat g_digit_count_table) = length (map digit_count_entry [0..<64])"
      by (simp add: g_digit_count_table_def)
    fix i assume "i < length (map unat g_digit_count_table)"
    then have "i < 64" "i < length g_digit_count_table" using len by simp_all
    then show "map unat g_digit_count_table ! i = map digit_count_entry [0..<64] ! i"
      using entry_ok [of i] by (simp add: entry_ok_def Let_def)
  qed
qed

text \<open>
  C34: Formatting an integer writes exactly its decimal text, as many bytes as the size function
  announced, and leaves the rest of the buffer alone; 20 bytes always suffice.
\<close>

theorem fmt_integers_correct:
  assumes "off + 20 \<le> length blk"
  shows "fmt_u64 blk off w = Inr (splice blk off (dec (unat w)), fmt_size_u64 w) \<and>
    fmt_i64 blk off w = Inr (splice blk off (dec_i64 w), fmt_size_i64 w) \<and>
    length (dec (unat w)) = fmt_size_u64 w \<and> length (dec_i64 w) = fmt_size_i64 w"
proof -
  have "unat w < 2 ^ LENGTH(64)" by (rule unsigned_less)
  then have "unat w < 10 ^ 20" by simp
  then have u: "length (dec (unat w)) \<le> 20" by (simp add: length_dec_le_iff)
  have "nat \<bar>sint w\<bar> < 10 ^ 19" using sint_lt [of w] sint_ge [of w] by auto
  then have "length (dec (nat \<bar>sint w\<bar>)) \<le> 19" by (simp add: length_dec_le_iff)
  then have i: "length (dec_i64 w) \<le> 20" by (auto simp: dec_i64_def)
  show ?thesis
    using fmt_u64_dec [of off w blk] fmt_i64_dec [of off w blk] u i assms
    by (simp add: length_dec_i64 fmt_size_u64_def count_digits_dec)
qed

theorem fmt_integers_correct_witness:
  "fmt_i64 (replicate 20 0) 0 (- 123) = Inr (splice (replicate 20 0) 0 (map of_char ''-123''), 4)"
proof -
  have "dec_i64 (- 123) = map of_char ''-123''" "fmt_size_i64 (- 123) = 4"
    by (simp_all add: dec_i64_def dec.simps flip: length_dec_i64)
  then show ?thesis using fmt_integers_correct [of 0 "replicate 20 0" "- 123"] by simp
qed

text \<open>
  Zero is formatted with a minus sign and one byte longer than announced: the test
  \<^verbatim>\<open>f64 == -0.0\<close> holds for both zeros, and the size function does not count the sign. The
  hypotheses are what IEEE arithmetic gives for positive zero.
\<close>

theorem fmt_f64_zero_too_long:
  assumes zero: "z = d_lit D 0 0" "\<not> d_isnan D z" "\<not> d_isinf D z" "\<not> d_lt D z z" "d_eq D z z"
      "d_eq D z (d_neg D z)" "d_fabs D z = z"
    and blk: "off + 6 \<le> length blk"
  shows "fmt_size_f64 D z 3 = 5 \<and>
    fmt_f64 D blk off z 3 = Inr (splice blk off (map of_char ''-0.000''), 6)"
proof -
  have w: "off + length bs \<le> length b \<Longrightarrow> put_str b off bs = Inr (splice b off bs, off + length bs)" for b bs off
    by (simp add: put_str_def blk_write_def splice_def)
  have cat: "splice (splice blk off as) (off + length as) bs = splice blk off (as @ bs)"
    if "off + length as + length bs \<le> length blk" for as bs
    using that by (simp add: splice_def ac_simps)
  have s1: "splice (splice blk off [45]) (Suc off) [48] = splice blk off [45, 48]"
    using cat [of "[45]" "[48]"] blk by simp
  have s2: "splice (splice blk off [45, 48]) (Suc (Suc off)) [46, 48, 48, 48] = splice blk off [45, 48, 46, 48, 48, 48]"
    using cat [of "[45, 48]" "[46, 48, 48, 48]"] blk by simp
  have "fmt_size_f64 D z 3 = 5" using zero by (simp add: fmt_size_f64_def Let_def)
  moreover have "fmt_f64 D blk off z 3 = Inr (splice blk off [45, 48, 46, 48, 48, 48], 6)"
    using zero blk by (simp add: fmt_f64_def Let_def w s1 s2 numeral_3_eq_3)
  ultimately show ?thesis by simp
qed

text \<open>Arithmetic in which every literal is positive zero and the two zeros are equal.\<close>

definition zero_dops :: dops where
  "zero_dops = \<lparr>d_lit = (\<lambda>m e. 0), d_isnan = (\<lambda>x. False), d_isinf = (\<lambda>x. False),
     d_lt = (\<lambda>x y. False), d_eq = (\<lambda>x y. x AND 0x7FFFFFFFFFFFFFFF = y AND 0x7FFFFFFFFFFFFFFF),
     d_neg = (\<lambda>x. x XOR 0x8000000000000000), d_fabs = (\<lambda>x. x AND 0x7FFFFFFFFFFFFFFF),
     d_add = (\<lambda>x y. x), d_mul = (\<lambda>x y. x), d_div = (\<lambda>x y. x), d_pow = (\<lambda>x n. x), d_log10 = (\<lambda>x. x),
     d_modf = (\<lambda>x. (x, x)), d_to_int = (\<lambda>x. 0), d_to_u64 = (\<lambda>x. x), d_of_u64 = (\<lambda>x. x)\<rparr>"

theorem fmt_f64_zero_too_long_witness:
  "fmt_size_f64 zero_dops 0 3 = 5 \<and>
   fmt_f64 zero_dops (replicate 8 0) 0 0 3 = Inr (splice (replicate 8 0) 0 (map of_char ''-0.000''), 6)"
  using fmt_f64_zero_too_long [of 0 zero_dops 0 "replicate 8 0"] by (simp add: zero_dops_def)

end
