(* ===== verification/Arena.thy ===== *)
theory Arena
  imports CMem
begin

text \<open>
  The arena allocator, \<^verbatim>\<open>src/src/arena.c\<close>: blocks of a fixed size that are filled from the
  front, a new block when the current one has no room. The list of blocks is the chain of
  \<^verbatim>\<open>previous\<close> pointers from \<^verbatim>\<open>current_block\<close> (\<^verbatim>\<open>next\<close> is \<^verbatim>\<open>NULL\<close> in every block); an
  address is the number of its block, counted from the oldest, and an offset.
\<close>

subsection \<open>State and operations\<close>

record arena_block =
  ab_mem :: bytes
  ab_capacity :: nat
  ab_offset :: nat

record arena =
  a_blocks :: "arena_block list"
  a_block_size :: nat
  a_capacity :: nat

text \<open>\<open>ok\<close> tells whether \<^verbatim>\<open>malloc\<close> succeeds, \<open>junk\<close> is what it leaves in the block.\<close>

definition arena_block_init :: "bool \<Rightarrow> (nat \<Rightarrow> u8) \<Rightarrow> nat \<Rightarrow> arena_block option" where
  "arena_block_init ok junk block_size =
     (if ok then Some \<lparr>ab_mem = malloc_blk junk block_size, ab_capacity = block_size, ab_offset = 0\<rparr>
      else None)"

definition arena_init :: "bool \<Rightarrow> (nat \<Rightarrow> u8) \<Rightarrow> nat \<Rightarrow> arena option" where
  "arena_init ok junk block_size =
     (case arena_block_init ok junk block_size of
        None \<Rightarrow> None
      | Some b \<Rightarrow> Some \<lparr>a_blocks = [b], a_block_size = block_size, a_capacity = block_size\<rparr>)"

definition arena_new :: "bool \<Rightarrow> (nat \<Rightarrow> u8) \<Rightarrow> nat \<Rightarrow> arena option" where
  "arena_new ok junk block_size = arena_init ok junk block_size"

definition arena_check_resize :: "arena \<Rightarrow> nat \<Rightarrow> bool res" where
  "arena_check_resize a new_size = (case a_blocks a of
     [] \<Rightarrow> Inl NullDeref
   | b # _ \<Rightarrow> Inr (ab_offset b + new_size \<ge> ab_capacity b))"

definition arena_resize :: "bool \<Rightarrow> (nat \<Rightarrow> u8) \<Rightarrow> arena \<Rightarrow> arena option" where
  "arena_resize ok junk a = (case arena_block_init ok junk (a_block_size a) of
     None \<Rightarrow> None
   | Some b \<Rightarrow> Some (a\<lparr>a_blocks := b # a_blocks a, a_capacity := a_capacity a + a_block_size a\<rparr>))"

text \<open>
  \<open>data = None\<close> is a \<^verbatim>\<open>NULL\<close> argument: the space is reserved and nothing is copied. The
  address is \<open>None\<close> when a new block cannot be allocated.
\<close>

definition arena_reserve :: "arena \<Rightarrow> bytes option \<Rightarrow> nat \<Rightarrow> ((nat \<times> nat) option \<times> arena) res" where
  "arena_reserve a data data_size = (case a_blocks a of
     [] \<Rightarrow> Inl NullDeref
   | b # bs \<Rightarrow>
       res_bind (case data of None \<Rightarrow> Inr (ab_mem b)
                 | Some d \<Rightarrow> blk_write (ab_mem b) (ab_offset b) (take data_size d))
         (\<lambda>mem. Inr (Some (length bs, ab_offset b),
            a\<lparr>a_blocks := b\<lparr>ab_mem := mem, ab_offset := ab_offset b + data_size\<rparr> # bs\<rparr>)))"

definition arena_push ::
  "bool \<Rightarrow> (nat \<Rightarrow> u8) \<Rightarrow> arena \<Rightarrow> bytes option \<Rightarrow> nat \<Rightarrow> ((nat \<times> nat) option \<times> arena) res" where
  "arena_push ok junk a data data_size =
     res_bind (arena_check_resize a data_size) (\<lambda>full.
       if full then
         (case arena_resize ok junk a of
            None \<Rightarrow> Inr (None, a)
          | Some a \<Rightarrow> arena_reserve a data data_size)
       else arena_reserve a data data_size)"

text \<open>
  Clearing walks back to the oldest block and makes it the current one; the newer blocks are no longer
  reachable from the arena.
\<close>

definition arena_clear :: "arena \<Rightarrow> arena res" where
  "arena_clear a = (case a_blocks a of
     [] \<Rightarrow> Inl NullDeref
   | _ \<Rightarrow> Inr (a\<lparr>a_blocks := [(last (a_blocks a))\<lparr>ab_offset := 0\<rparr>]\<rparr>))"

definition arena_release :: "arena \<Rightarrow> arena" where
  "arena_release a = a\<lparr>a_blocks := [], a_capacity := 0\<rparr>"

subsection \<open>Reading back\<close>

definition arena_read :: "arena \<Rightarrow> nat \<times> nat \<Rightarrow> nat \<Rightarrow> bytes res" where
  "arena_read a addr n =
     (if fst addr < length (a_blocks a)
      then blk_read (ab_mem (rev (a_blocks a) ! fst addr)) (snd addr) n else Inl OutOfBounds)"

definition block_ok :: "arena_block \<Rightarrow> bool" where
  "block_ok b \<longleftrightarrow> length (ab_mem b) = ab_capacity b \<and> ab_offset b \<le> ab_capacity b"

definition arena_ok :: "arena \<Rightarrow> bool" where
  "arena_ok a \<longleftrightarrow> a_blocks a \<noteq> [] \<and> (\<forall>b \<in> set (a_blocks a). block_ok b)"

text \<open>An address range that lies in the used part of its block.\<close>

definition allocated :: "arena \<Rightarrow> nat \<times> nat \<Rightarrow> nat \<Rightarrow> bool" where
  "allocated a addr n \<longleftrightarrow> fst addr < length (a_blocks a) \<and>
     snd addr + n \<le> ab_offset (rev (a_blocks a) ! fst addr)"

lemma arena_reserve_ok:
  assumes ok: "arena_ok a" and blocks: "a_blocks a = b # bs" and n: "ab_offset b + n \<le> ab_capacity b"
    and d: "length d = n"
  shows "\<exists>a'. arena_reserve a (Some d) n = Inr (Some (length bs, ab_offset b), a') \<and> arena_ok a' \<and>
    a_block_size a' = a_block_size a \<and> allocated a' (length bs, ab_offset b) n \<and>
    arena_read a' (length bs, ab_offset b) n = Inr d \<and>
    (\<forall>addr k. allocated a addr k \<longrightarrow> allocated a' addr k \<and> arena_read a' addr k = arena_read a addr k)"
proof -
  have b: "length (ab_mem b) = ab_capacity b" "ab_offset b \<le> ab_capacity b"
    using ok blocks by (auto simp: arena_ok_def block_ok_def)
  obtain mem where mem: "blk_write (ab_mem b) (ab_offset b) d = Inr mem"
    using blk_write_ok [of "ab_offset b" d "ab_mem b"] n d b by auto
  have len: "length mem = ab_capacity b" using blk_write_length [OF mem] b by simp
  let ?b = "b\<lparr>ab_mem := mem, ab_offset := ab_offset b + n\<rparr>"
  let ?a = "a\<lparr>a_blocks := ?b # bs\<rparr>"
  have "arena_reserve a (Some d) n = Inr (Some (length bs, ab_offset b), ?a)"
    using blocks mem d by (simp add: arena_reserve_def)
  moreover have "arena_ok ?a" using ok blocks len n by (simp add: arena_ok_def block_ok_def)
  moreover have "allocated ?a (length bs, ab_offset b) n"
    by (simp add: allocated_def nth_append)
  moreover have "arena_read ?a (length bs, ab_offset b) n = Inr d"
    using blk_read_write_same [OF mem, of n] d by (simp add: arena_read_def nth_append)
  moreover have "allocated ?a addr k \<and> arena_read ?a addr k = arena_read a addr k"
    if "allocated a addr k" for addr k
  proof (cases "fst addr = length bs")
    case True
    then have "snd addr + k \<le> ab_offset b" using that blocks by (simp add: allocated_def nth_append)
    then show ?thesis
      using True blocks blk_read_write_other [OF mem, of "snd addr" k]
      by (simp add: allocated_def arena_read_def nth_append)
  next
    case False
    then show ?thesis
      using that blocks by (auto simp: allocated_def arena_read_def nth_append)
  qed
  ultimately show ?thesis by auto
qed

lemma arena_resize_ok:
  assumes "arena_ok a"
  shows "\<exists>a' b. arena_resize True junk a = Some a' \<and> arena_ok a' \<and> a_block_size a' = a_block_size a \<and>
    a_blocks a' = b # a_blocks a \<and> ab_offset b = 0 \<and> ab_capacity b = a_block_size a \<and>
    (\<forall>addr k. allocated a addr k \<longrightarrow> allocated a' addr k \<and> arena_read a' addr k = arena_read a addr k)"
  using assms
  by (auto simp: arena_resize_def arena_block_init_def arena_ok_def block_ok_def allocated_def
      arena_read_def nth_append)

lemma arena_push_ok:
  assumes ok: "arena_ok a" and d: "length d \<le> a_block_size a"
  shows "\<exists>addr a'. arena_push True junk a (Some d) (length d) = Inr (Some addr, a') \<and> arena_ok a' \<and>
    a_block_size a' = a_block_size a \<and> allocated a' addr (length d) \<and> arena_read a' addr (length d) = Inr d \<and>
    (\<forall>addr k. allocated a addr k \<longrightarrow> allocated a' addr k \<and> arena_read a' addr k = arena_read a addr k)"
proof -
  obtain b bs where blocks: "a_blocks a = b # bs" using ok by (cases "a_blocks a") (auto simp: arena_ok_def)
  show ?thesis
  proof (cases "ab_offset b + length d \<ge> ab_capacity b")
    case True
    obtain a1 b1 where a1: "arena_resize True junk a = Some a1" "arena_ok a1" "a_block_size a1 = a_block_size a"
        "a_blocks a1 = b1 # a_blocks a" "ab_offset b1 = 0" "ab_capacity b1 = a_block_size a"
        "\<forall>addr k. allocated a addr k \<longrightarrow> allocated a1 addr k \<and> arena_read a1 addr k = arena_read a addr k"
      using arena_resize_ok [OF ok, of junk] by blast
    have "arena_push True junk a (Some d) (length d) = arena_reserve a1 (Some d) (length d)"
      using True blocks a1(1) by (simp add: arena_push_def arena_check_resize_def)
    moreover have "\<exists>a'. arena_reserve a1 (Some d) (length d) = Inr (Some (length (a_blocks a), ab_offset b1), a') \<and>
        arena_ok a' \<and> a_block_size a' = a_block_size a1 \<and>
        allocated a' (length (a_blocks a), ab_offset b1) (length d) \<and>
        arena_read a' (length (a_blocks a), ab_offset b1) (length d) = Inr d \<and>
        (\<forall>addr k. allocated a1 addr k \<longrightarrow> allocated a' addr k \<and> arena_read a' addr k = arena_read a1 addr k)"
      using arena_reserve_ok [OF a1(2,4), of "length d" d] a1(5,6) d by simp
    ultimately show ?thesis using a1(3,7) by force
  next
    case False
    then have "arena_push True junk a (Some d) (length d) = arena_reserve a (Some d) (length d)"
      using blocks by (simp add: arena_push_def arena_check_resize_def)
    then show ?thesis using arena_reserve_ok [OF ok blocks, of "length d" d] False by auto
  qed
qed

text \<open>Space that is only reserved.\<close>

lemma arena_push_none_ok:
  assumes "arena_ok a" "n \<le> a_block_size a"
  shows "\<exists>addr a'. arena_push True junk a None n = Inr (Some addr, a') \<and> arena_ok a' \<and> a_block_size a' = a_block_size a"
  using assms
  by (cases "a_blocks a") (auto simp: arena_push_def arena_check_resize_def arena_resize_def arena_block_init_def
      arena_reserve_def arena_ok_def block_ok_def)

text \<open>Blocks of the one size: the condition under which an allocation larger than a block is known to overflow.\<close>

lemma arena_push_same_blocks:
  assumes "arena_push ok junk a data n = Inr (addr, a')" "ab_capacity (hd (a_blocks a)) = a_block_size a"
  shows "ab_capacity (hd (a_blocks a')) = a_block_size a'"
  using assms
  by (auto simp: arena_push_def arena_check_resize_def arena_resize_def arena_block_init_def
      arena_reserve_def res_bind_Inr_iff split: list.splits option.splits if_splits)

lemma arena_push_beyond:
  assumes "arena_ok a" "a_block_size a < length d" "ab_capacity (hd (a_blocks a)) = a_block_size a"
  shows "arena_push True junk a (Some d) (length d) = Inl OutOfBounds"
  using assms
  by (cases "a_blocks a") (auto simp: arena_ok_def arena_push_def arena_check_resize_def arena_resize_def
      arena_block_init_def arena_reserve_def blk_write_def)

subsection \<open>Sequences of allocations\<close>

fun arena_push_all :: "(nat \<Rightarrow> u8) \<Rightarrow> arena \<Rightarrow> bytes list \<Rightarrow> ((nat \<times> nat) list \<times> arena) res" where
  "arena_push_all junk a [] = Inr ([], a)"
| "arena_push_all junk a (d # ds) =
     res_bind (arena_push True junk a (Some d) (length d)) (\<lambda>(addr, a).
       case addr of
         None \<Rightarrow> Inl NullDeref
       | Some addr \<Rightarrow> res_bind (arena_push_all junk a ds) (\<lambda>(addrs, a). Inr (addr # addrs, a)))"

lemma arena_push_all_ok:
  "\<lbrakk>arena_ok a; \<forall>d \<in> set ds. length d \<le> a_block_size a\<rbrakk>
    \<Longrightarrow> \<exists>addrs a'. arena_push_all junk a ds = Inr (addrs, a') \<and> arena_ok a' \<and>
      map (\<lambda>(addr, d). arena_read a' addr (length d)) (zip addrs ds) = map Inr ds \<and> length addrs = length ds \<and>
      (\<forall>addr k. allocated a addr k \<longrightarrow> allocated a' addr k \<and> arena_read a' addr k = arena_read a addr k)"
proof (induction ds arbitrary: a)
  case Nil
  then show ?case by simp
next
  case (Cons d ds)
  then have ld: "length d \<le> a_block_size a" by simp
  obtain addr a1 where a1: "arena_push True junk a (Some d) (length d) = Inr (Some addr, a1)" "arena_ok a1"
      "a_block_size a1 = a_block_size a" "allocated a1 addr (length d)" "arena_read a1 addr (length d) = Inr d"
      "\<forall>addr k. allocated a addr k \<longrightarrow> allocated a1 addr k \<and> arena_read a1 addr k = arena_read a addr k"
    using arena_push_ok [OF Cons.prems(1) ld, of junk] by blast
  then obtain addrs a' where a': "arena_push_all junk a1 ds = Inr (addrs, a')" "arena_ok a'"
      "map (\<lambda>(addr, d). arena_read a' addr (length d)) (zip addrs ds) = map Inr ds" "length addrs = length ds"
      "\<forall>addr k. allocated a1 addr k \<longrightarrow> allocated a' addr k \<and> arena_read a' addr k = arena_read a1 addr k"
    using Cons.IH [of a1] Cons.prems by auto
  have "arena_read a' addr (length d) = Inr d"
    using a'(5) [rule_format, OF a1(4)] a1(5) by simp
  moreover have "\<forall>addr k. allocated a addr k \<longrightarrow> allocated a' addr k \<and> arena_read a' addr k = arena_read a addr k"
    using a1(6) a'(5) by simp
  ultimately show ?case using a1(1) a'(1-4) by simp
qed

text \<open>
  C23: The arena gives out memory that stays intact: after any series of allocations of at most a
  block's size each, every piece still holds exactly what was copied into it, so no two pieces
  overlap and none leaves its block.
\<close>

theorem arena_allocations_intact:
  assumes "\<forall>d \<in> set ds. length d \<le> block_size"
  shows "\<exists>a addrs a'. arena_init True junk block_size = Some a \<and> arena_push_all junk a ds = Inr (addrs, a') \<and>
    length addrs = length ds \<and>
    map (\<lambda>(addr, d). arena_read a' addr (length d)) (zip addrs ds) = map Inr ds"
proof -
  define a where "a = \<lparr>a_blocks = [\<lparr>ab_mem = malloc_blk junk block_size, ab_capacity = block_size, ab_offset = 0\<rparr>],
      a_block_size = block_size, a_capacity = block_size\<rparr>"
  have "arena_init True junk block_size = Some a" by (simp add: arena_init_def arena_block_init_def a_def)
  moreover have "arena_ok a" "\<forall>d \<in> set ds. length d \<le> a_block_size a"
    using assms by (simp_all add: a_def arena_ok_def block_ok_def)
  ultimately show ?thesis using arena_push_all_ok [of a ds junk] by blast
qed

theorem arena_allocations_intact_witness:
  "\<exists>a addrs a'. arena_init True (\<lambda>_. 0) 4 = Some a \<and>
    arena_push_all (\<lambda>_. 0) a [[1, 2, 3], [4, 5], [6]] = Inr (addrs, a') \<and> length addrs = 3"
  using arena_allocations_intact [of "[[1, 2, 3], [4, 5], [6]]" 4 "\<lambda>_. 0"] by auto

text \<open>
  An allocation larger than a block is not refused: a new block of the usual size is added and the
  copy runs over its end, from every state of the arena.
\<close>

theorem arena_push_oversized:
  assumes "arena_ok a" "a_block_size a < length d" "ab_capacity (hd (a_blocks a)) = a_block_size a"
  shows "arena_push True junk a (Some d) (length d) = Inl OutOfBounds"
  using assms by (rule arena_push_beyond)

theorem arena_push_oversized_witness:
  "\<exists>a. arena_init True (\<lambda>_. 0) 4 = Some a \<and>
     arena_push True (\<lambda>_. 0) a (Some [1, 2, 3, 4, 5]) 5 = Inl OutOfBounds"
proof -
  define a where "a = \<lparr>a_blocks = [\<lparr>ab_mem = malloc_blk (\<lambda>_. 0) 4, ab_capacity = 4, ab_offset = 0\<rparr>],
      a_block_size = 4, a_capacity = 4\<rparr>"
  have "length [1, 2, 3, 4, 5 :: u8] = 5" by simp
  moreover have "arena_push True (\<lambda>_. 0) a (Some [1, 2, 3, 4, 5]) (length [1, 2, 3, 4, 5 :: u8]) = Inl OutOfBounds"
    by (rule arena_push_oversized) (simp_all add: a_def arena_ok_def block_ok_def)
  ultimately have "arena_push True (\<lambda>_. 0) a (Some [1, 2, 3, 4, 5]) 5 = Inl OutOfBounds" by (simp only:)
  moreover have "arena_init True (\<lambda>_. 0) 4 = Some a" by (simp add: arena_init_def arena_block_init_def a_def)
  ultimately show ?thesis by blast
qed

end
