(* ===== verification/JsonStore.thy ===== *)
theory JsonStore
  imports CMem
begin

text \<open>
  The document store of \<^verbatim>\<open>json.c\<close>: tagged values with their packed sizes, arrays and
  dictionaries as singly linked lists with a head and a tail pointer, and every operation of the
  value interface. A pointer is a natural number, \<open>0\<close> being \<^verbatim>\<open>NULL\<close>; the objects of the
  value arena are typed cells, never reused (theory Arena shows that the pieces an arena gives out
  do not overlap). The system allocator is assumed to succeed. A string is the list of its bytes
  before the terminator.
\<close>

subsection \<open>Tags\<close>

definition JsonTag_Null :: u64 where "JsonTag_Null = push_bit 0 1"
definition JsonTag_Bool :: u64 where "JsonTag_Bool = push_bit 1 1"
definition JsonTag_U64 :: u64 where "JsonTag_U64 = push_bit 2 1"
definition JsonTag_I64 :: u64 where "JsonTag_I64 = push_bit 3 1"
definition JsonTag_F64 :: u64 where "JsonTag_F64 = push_bit 5 1"
definition JsonTag_Str :: u64 where "JsonTag_Str = push_bit 6 1"
definition JsonTag_Array :: u64 where "JsonTag_Array = push_bit 7 1"
definition JsonTag_Dict :: u64 where "JsonTag_Dict = push_bit 8 1"

lemmas json_tag_defs = JsonTag_Null_def JsonTag_Bool_def JsonTag_U64_def JsonTag_I64_def JsonTag_F64_def
  JsonTag_Str_def JsonTag_Array_def JsonTag_Dict_def

definition JSON_TAGS_MASK :: u64 where "JSON_TAGS_MASK = push_bit 9 1 - 1"

definition JSON_SZ_MASK :: u64 where "JSON_SZ_MASK = push_bit 32 0xFFFFFFFF"

definition json_set_tags :: "u64 \<Rightarrow> u64 \<Rightarrow> u64" where
  "json_set_tags tags tag = (tags AND NOT JSON_TAGS_MASK) OR tag"

definition json_set_sz :: "u64 \<Rightarrow> u64 \<Rightarrow> u64" where
  "json_set_sz tags sz = (tags AND NOT JSON_SZ_MASK) OR push_bit 32 (sz AND 0xFFFFFFFF)"

definition json_get_sz :: "u64 \<Rightarrow> u64" where
  "json_get_sz tags = drop_bit 32 tags AND 0xFFFFFFFF"

definition json_incr_sz :: "u64 \<Rightarrow> u64" where
  "json_incr_sz tags = tags + push_bit 32 1"

definition json_decr_sz :: "u64 \<Rightarrow> u64" where
  "json_decr_sz tags = tags - push_bit 32 1"

subsection \<open>The store\<close>

text \<open>
  The members of the value union. \<open>UZero\<close> is a union cleared by \<^verbatim>\<open>memset\<close>; a signed
  integer and a double are kept as their bit patterns.
\<close>

datatype uval = UZero | UBool bool | UU64 u64 | UI64 u64 | UF64 u64 | UStr bytes | UPtr nat

record jvalue =
  jv_tags :: u64
  jv_value :: uval

record jinfo =
  ji_head :: nat
  ji_tail :: nat

record jarray_element =
  ae_value :: nat
  ae_next :: nat

record jkey_value =
  kv_key :: bytes
  kv_value :: nat

record jdict_element =
  de_key_value :: nat
  de_next :: nat

record jstore =
  js_root :: nat
  js_vals :: "nat \<Rightarrow> jvalue option"
  js_infos :: "nat \<Rightarrow> jinfo option"
  js_aelems :: "nat \<Rightarrow> jarray_element option"
  js_delems :: "nat \<Rightarrow> jdict_element option"
  js_kvs :: "nat \<Rightarrow> jkey_value option"
  js_next :: nat

definition deref :: "(nat \<Rightarrow> 'a option) \<Rightarrow> nat \<Rightarrow> 'a res" where
  "deref m p = (if p = 0 then Inl NullDeref else case m p of None \<Rightarrow> Inl OutOfBounds | Some x \<Rightarrow> Inr x)"

definition val_at :: "jstore \<Rightarrow> nat \<Rightarrow> jvalue res" where
  "val_at st p = deref (js_vals st) p"

definition set_val :: "jstore \<Rightarrow> nat \<Rightarrow> jvalue \<Rightarrow> jstore" where
  "set_val st p v = st\<lparr>js_vals := (js_vals st)(p \<mapsto> v)\<rparr>"

text \<open>A new value cell, with the contents given.\<close>

definition new_val :: "jstore \<Rightarrow> jvalue \<Rightarrow> nat \<times> jstore" where
  "new_val st v = (js_next st, (set_val st (js_next st) v)\<lparr>js_next := js_next st + 1\<rparr>)"

text \<open>Reading a union member; a member other than the one written is not modelled further.\<close>

definition u_bool :: "uval \<Rightarrow> bool res" where
  "u_bool u = (case u of UBool b \<Rightarrow> Inr b | UZero \<Rightarrow> Inr False | _ \<Rightarrow> Inl WrongMember)"

definition u_u64 :: "uval \<Rightarrow> u64 res" where
  "u_u64 u = (case u of UU64 n \<Rightarrow> Inr n | UI64 n \<Rightarrow> Inr n | UF64 n \<Rightarrow> Inr n | UZero \<Rightarrow> Inr 0 | _ \<Rightarrow> Inl WrongMember)"

definition u_i64 :: "uval \<Rightarrow> u64 res" where "u_i64 u = u_u64 u"

definition u_f64 :: "uval \<Rightarrow> u64 res" where "u_f64 u = u_u64 u"

definition u_str :: "uval \<Rightarrow> bytes option res" where
  "u_str u = (case u of UStr s \<Rightarrow> Inr (Some s) | UZero \<Rightarrow> Inr None | _ \<Rightarrow> Inl WrongMember)"

definition u_ptr :: "uval \<Rightarrow> nat res" where
  "u_ptr u = (case u of UPtr p \<Rightarrow> Inr p | UZero \<Rightarrow> Inr 0 | _ \<Rightarrow> Inl WrongMember)"

text \<open>
  The copy of a string into the string arena, whose blocks have 128 KiB: \<open>n\<close> bytes are written
  from the start of a piece that lies in one block or starts a new one.
\<close>

definition STRING_BLOCK :: nat where "STRING_BLOCK = 128 * 1024"

definition arena_str :: "bytes \<Rightarrow> bytes res" where
  "arena_str s = (if length s + 1 \<le> STRING_BLOCK then Inr s else Inl OutOfBounds)"

text \<open>The bytes of a C string before its terminator.\<close>

definition c_str :: "bytes \<Rightarrow> bytes" where
  "c_str s = takeWhile (\<lambda>c. c \<noteq> 0) s"

definition has_tag :: "jstore \<Rightarrow> nat \<Rightarrow> u64 \<Rightarrow> bool res" where
  "has_tag st p tag = res_bind (val_at st p) (\<lambda>v. Inr (jv_tags v AND tag \<noteq> 0))"

subsection \<open>Scalars\<close>

definition json_is_null :: "jstore \<Rightarrow> nat \<Rightarrow> bool res" where
  "json_is_null st p = has_tag st p JsonTag_Null"

definition json_null_new :: "jstore \<Rightarrow> nat \<times> jstore" where
  "json_null_new st = new_val st \<lparr>jv_tags = json_set_tags 0 JsonTag_Null, jv_value = UZero\<rparr>"

definition json_null_set :: "jstore \<Rightarrow> nat \<Rightarrow> jstore res" where
  "json_null_set st p = res_bind (val_at st p) (\<lambda>v.
     Inr (set_val st p (v\<lparr>jv_tags := json_set_tags (jv_tags v) JsonTag_Null\<rparr>)))"

definition json_is_bool :: "jstore \<Rightarrow> nat \<Rightarrow> bool res" where
  "json_is_bool st p = has_tag st p JsonTag_Bool"

definition json_bool_new :: "jstore \<Rightarrow> bool \<Rightarrow> nat \<times> jstore" where
  "json_bool_new st b = new_val st \<lparr>jv_tags = json_set_tags 0 JsonTag_Bool, jv_value = UBool b\<rparr>"

definition json_bool_get :: "jstore \<Rightarrow> nat \<Rightarrow> bool res" where
  "json_bool_get st p = res_bind (val_at st p) (\<lambda>v.
     if jv_tags v AND JsonTag_Bool = 0 then Inr False else u_bool (jv_value v))"

definition json_bool_set :: "jstore \<Rightarrow> nat \<Rightarrow> bool \<Rightarrow> jstore res" where
  "json_bool_set st p b = res_bind (val_at st p) (\<lambda>v.
     Inr (set_val st p \<lparr>jv_tags = json_set_tags (jv_tags v) JsonTag_Bool, jv_value = UBool b\<rparr>))"

definition json_is_u64 :: "jstore \<Rightarrow> nat \<Rightarrow> bool res" where
  "json_is_u64 st p = has_tag st p JsonTag_U64"

definition json_u64_new :: "jstore \<Rightarrow> u64 \<Rightarrow> nat \<times> jstore" where
  "json_u64_new st n = new_val st \<lparr>jv_tags = json_set_tags 0 JsonTag_U64, jv_value = UU64 n\<rparr>"

definition json_u64_get :: "jstore \<Rightarrow> nat \<Rightarrow> u64 res" where
  "json_u64_get st p = res_bind (val_at st p) (\<lambda>v.
     if jv_tags v AND JsonTag_U64 = 0 then Inr (- 1) else u_u64 (jv_value v))"

definition json_u64_set :: "jstore \<Rightarrow> nat \<Rightarrow> u64 \<Rightarrow> jstore res" where
  "json_u64_set st p n = res_bind (val_at st p) (\<lambda>v.
     Inr (set_val st p \<lparr>jv_tags = json_set_tags (jv_tags v) JsonTag_U64, jv_value = UU64 n\<rparr>))"

definition json_is_i64 :: "jstore \<Rightarrow> nat \<Rightarrow> bool res" where
  "json_is_i64 st p = has_tag st p JsonTag_I64"

definition json_i64_new :: "jstore \<Rightarrow> u64 \<Rightarrow> nat \<times> jstore" where
  "json_i64_new st n = new_val st \<lparr>jv_tags = json_set_tags 0 JsonTag_I64, jv_value = UI64 n\<rparr>"

definition json_i64_get :: "jstore \<Rightarrow> nat \<Rightarrow> u64 res" where
  "json_i64_get st p = res_bind (val_at st p) (\<lambda>v.
     if jv_tags v AND JsonTag_I64 = 0 then Inr (2 ^ 63 - 1) else u_i64 (jv_value v))"

definition json_i64_set :: "jstore \<Rightarrow> nat \<Rightarrow> u64 \<Rightarrow> jstore res" where
  "json_i64_set st p n = res_bind (val_at st p) (\<lambda>v.
     Inr (set_val st p \<lparr>jv_tags = json_set_tags (jv_tags v) JsonTag_I64, jv_value = UI64 n\<rparr>))"

definition json_is_f64 :: "jstore \<Rightarrow> nat \<Rightarrow> bool res" where
  "json_is_f64 st p = has_tag st p JsonTag_F64"

definition json_f64_new :: "jstore \<Rightarrow> u64 \<Rightarrow> nat \<times> jstore" where
  "json_f64_new st n = new_val st \<lparr>jv_tags = json_set_tags 0 JsonTag_F64, jv_value = UF64 n\<rparr>"

text \<open>\<^verbatim>\<open>(double)(0xFFFFFFFF7FF7FFFF)\<close>: the nearest double, about 1.8e19.\<close>

definition JSON_INVALID_F64 :: u64 where "JSON_INVALID_F64 = 0x43EFFFFFFFEFFF00"

definition json_f64_get :: "jstore \<Rightarrow> nat \<Rightarrow> u64 res" where
  "json_f64_get st p = res_bind (val_at st p) (\<lambda>v.
     if jv_tags v AND JsonTag_F64 = 0 then Inr JSON_INVALID_F64 else u_f64 (jv_value v))"

definition json_f64_set :: "jstore \<Rightarrow> nat \<Rightarrow> u64 \<Rightarrow> jstore res" where
  "json_f64_set st p n = res_bind (val_at st p) (\<lambda>v.
     Inr (set_val st p \<lparr>jv_tags = json_set_tags (jv_tags v) JsonTag_F64, jv_value = UF64 n\<rparr>))"

definition json_is_str :: "jstore \<Rightarrow> nat \<Rightarrow> bool res" where
  "json_is_str st p = has_tag st p JsonTag_Str"

definition json_str_new :: "jstore \<Rightarrow> bytes \<Rightarrow> (nat \<times> jstore) res" where
  "json_str_new st str =
     res_bind (arena_str (c_str str)) (\<lambda>str_ptr.
       Inr (new_val st \<lparr>jv_tags = json_set_sz (json_set_tags 0 JsonTag_Str) (of_nat (length (c_str str))),
                        jv_value = UStr str_ptr\<rparr>))"

definition json_str_get :: "jstore \<Rightarrow> nat \<Rightarrow> bytes option res" where
  "json_str_get st p = res_bind (val_at st p) (\<lambda>v.
     if jv_tags v AND JsonTag_Str = 0 then Inr None else u_str (jv_value v))"

definition json_str_get_size :: "jstore \<Rightarrow> nat \<Rightarrow> u64 res" where
  "json_str_get_size st p = res_bind (val_at st p) (\<lambda>v.
     if jv_tags v AND JsonTag_Str = 0 then Inr 0 else Inr (json_get_sz (jv_tags v)))"

definition json_str_set :: "jstore \<Rightarrow> nat \<Rightarrow> bytes \<Rightarrow> jstore res" where
  "json_str_set st p str =
     res_bind (val_at st p) (\<lambda>v.
       res_bind (arena_str (c_str str)) (\<lambda>str_ptr.
         Inr (set_val st p \<lparr>jv_tags = json_set_tags (jv_tags v) JsonTag_Str, jv_value = UStr str_ptr\<rparr>)))"

subsection \<open>Arrays\<close>

definition json_is_array :: "jstore \<Rightarrow> nat \<Rightarrow> bool res" where
  "json_is_array st p = has_tag st p JsonTag_Array"

text \<open>A list header and an empty value that points to it.\<close>

definition new_list_value :: "jstore \<Rightarrow> u64 \<Rightarrow> nat \<times> jstore" where
  "new_list_value st tag =
     (let p = js_next st; i = p + 1
      in (p, (set_val st p \<lparr>jv_tags = json_set_tags 0 tag, jv_value = UPtr i\<rparr>)
               \<lparr>js_infos := (js_infos st)(i \<mapsto> \<lparr>ji_head = 0, ji_tail = 0\<rparr>), js_next := p + 2\<rparr>))"

definition json_array_new :: "jstore \<Rightarrow> nat \<times> jstore" where
  "json_array_new st = new_list_value st JsonTag_Array"

definition info_at :: "jstore \<Rightarrow> nat \<Rightarrow> (nat \<times> jinfo) res" where
  "info_at st p = res_bind (val_at st p) (\<lambda>v. res_bind (u_ptr (jv_value v)) (\<lambda>i.
     res_bind (deref (js_infos st) i) (\<lambda>info. Inr (i, info))))"

definition set_info :: "jstore \<Rightarrow> nat \<Rightarrow> jinfo \<Rightarrow> jstore" where
  "set_info st i info = st\<lparr>js_infos := (js_infos st)(i \<mapsto> info)\<rparr>"

text \<open>\<^verbatim>\<open>memcpy(new_value, value, sizeof(JsonValue))\<close> into a new cell, unless a reference is asked for.\<close>

definition copy_val :: "jstore \<Rightarrow> nat \<Rightarrow> bool \<Rightarrow> (nat \<times> jstore) res" where
  "copy_val st value reference =
     (if reference then Inr (value, st)
      else res_bind (val_at st value) (\<lambda>v. Inr (new_val st v)))"

definition update_tags :: "jstore \<Rightarrow> nat \<Rightarrow> (u64 \<Rightarrow> u64) \<Rightarrow> jstore res" where
  "update_tags st p f = res_bind (val_at st p) (\<lambda>v. Inr (set_val st p (v\<lparr>jv_tags := f (jv_tags v)\<rparr>)))"

definition array_link :: "jstore \<Rightarrow> nat \<Rightarrow> jinfo \<Rightarrow> nat \<Rightarrow> jstore res" where
  "array_link st i info e =
     (if ji_head info = 0 then Inr (set_info st i \<lparr>ji_head = e, ji_tail = e\<rparr>)
      else
        res_bind (deref (js_aelems st) (ji_tail info)) (\<lambda>t.
          Inr (set_info (st\<lparr>js_aelems := (js_aelems st)(ji_tail info \<mapsto> t\<lparr>ae_next := e\<rparr>)\<rparr>)
                 i (info\<lparr>ji_tail := e\<rparr>))))"

definition json_array_append :: "jstore \<Rightarrow> nat \<Rightarrow> nat \<Rightarrow> bool \<Rightarrow> jstore res" where
  "json_array_append st arr value reference =
     res_bind (info_at st arr) (\<lambda>(i, info).
       let e = js_next st;
           st = st\<lparr>js_aelems := (js_aelems st)(e \<mapsto> \<lparr>ae_value = 0, ae_next = 0\<rparr>), js_next := e + 1\<rparr>
       in res_bind (array_link st i info e) (\<lambda>st.
            res_bind (copy_val st value reference) (\<lambda>(new_value, st).
              update_tags (st\<lparr>js_aelems := (js_aelems st)(e \<mapsto> \<lparr>ae_value = new_value, ae_next = 0\<rparr>)\<rparr>)
                arr json_incr_sz)))"

definition json_array_get_size :: "jstore \<Rightarrow> nat \<Rightarrow> u64 res" where
  "json_array_get_size st p = res_bind (val_at st p) (\<lambda>v.
     if jv_tags v AND JsonTag_Array = 0 then Inr 0 else Inr (json_get_sz (jv_tags v)))"

text \<open>
  The search of \<^verbatim>\<open>json_array_pop\<close>: the element reached and the one before it. It advances
  at most \<open>k\<close> times, where \<open>k\<close> is the distance of \<^verbatim>\<open>i\<close> to the index.
\<close>

fun array_pop_walk :: "jstore \<Rightarrow> nat \<Rightarrow> nat \<Rightarrow> nat \<Rightarrow> (nat \<times> nat) res" where
  "array_pop_walk st prev cur 0 = res_bind (deref (js_aelems st) cur) (\<lambda>_. Inr (prev, cur))"
| "array_pop_walk st prev cur (Suc k) =
     res_bind (deref (js_aelems st) cur) (\<lambda>e.
       if ae_next e \<noteq> 0 then array_pop_walk st cur (ae_next e) k else Inr (prev, cur))"

definition json_array_pop :: "jstore \<Rightarrow> nat \<Rightarrow> u64 \<Rightarrow> jstore res" where
  "json_array_pop st arr index =
     res_bind (json_array_get_size st arr) (\<lambda>size.
       if index \<ge> size then Inr st
       else
         res_bind (info_at st arr) (\<lambda>(i, info).
           if index = 0 then
             res_bind (deref (js_aelems st) (ji_head info)) (\<lambda>h.
               update_tags (set_info st i (info\<lparr>ji_head := ae_next h\<rparr>)) arr json_decr_sz)
           else
             res_bind (array_pop_walk st 0 (ji_head info) (unat index)) (\<lambda>(prev, cur).
               if prev = 0 then update_tags (set_info st i (info\<lparr>ji_head := cur\<rparr>)) arr json_decr_sz
               else
                 res_bind (deref (js_aelems st) cur) (\<lambda>c.
                 res_bind (deref (js_aelems st) prev) (\<lambda>pe.
                   let st = st\<lparr>js_aelems := (js_aelems st)(prev \<mapsto> pe\<lparr>ae_next := ae_next c\<rparr>)\<rparr>;
                       st = (if cur = ji_tail info then set_info st i (info\<lparr>ji_tail := ae_next c\<rparr>) else st)
                   in update_tags st arr json_decr_sz)))))"

text \<open>The iterator is the current element; the value is \<open>0\<close> at the end.\<close>

definition json_array_get_next :: "jstore \<Rightarrow> nat \<Rightarrow> nat \<Rightarrow> (nat \<times> nat) res" where
  "json_array_get_next st arr current =
     res_bind (if current = 0 then res_bind (info_at st arr) (\<lambda>(i, info). Inr (ji_head info))
               else res_bind (deref (js_aelems st) current) (\<lambda>e. Inr (ae_next e)))
       (\<lambda>current. if current = 0 then Inr (0, 0)
          else res_bind (deref (js_aelems st) current) (\<lambda>e. Inr (ae_value e, current)))"

subsection \<open>Dictionaries\<close>

definition json_is_dict :: "jstore \<Rightarrow> nat \<Rightarrow> bool res" where
  "json_is_dict st p = has_tag st p JsonTag_Dict"

definition json_dict_new :: "jstore \<Rightarrow> nat \<times> jstore" where
  "json_dict_new st = new_list_value st JsonTag_Dict"

definition dict_link :: "jstore \<Rightarrow> nat \<Rightarrow> jinfo \<Rightarrow> nat \<Rightarrow> jstore res" where
  "dict_link st i info e =
     (if ji_head info = 0 then Inr (set_info st i \<lparr>ji_head = e, ji_tail = e\<rparr>)
      else
        res_bind (deref (js_delems st) (ji_tail info)) (\<lambda>t.
          Inr (set_info (st\<lparr>js_delems := (js_delems st)(ji_tail info \<mapsto> t\<lparr>de_next := e\<rparr>)\<rparr>)
                 i (info\<lparr>ji_tail := e\<rparr>))))"

definition json_dict_append :: "jstore \<Rightarrow> nat \<Rightarrow> bytes \<Rightarrow> nat \<Rightarrow> bool \<Rightarrow> jstore res" where
  "json_dict_append st dict key value reference =
     res_bind (info_at st dict) (\<lambda>(i, info).
       let e = js_next st;
           st = st\<lparr>js_delems := (js_delems st)(e \<mapsto> \<lparr>de_key_value = 0, de_next = 0\<rparr>), js_next := e + 1\<rparr>
       in res_bind (dict_link st i info e) (\<lambda>st.
            res_bind (arena_str (c_str key)) (\<lambda>new_key.
              res_bind (copy_val st value reference) (\<lambda>(new_value, st).
                let kv = js_next st
                in update_tags
                     (st\<lparr>js_kvs := (js_kvs st)(kv \<mapsto> \<lparr>kv_key = new_key, kv_value = new_value\<rparr>),
                         js_delems := (js_delems st)(e \<mapsto> \<lparr>de_key_value = kv, de_next = 0\<rparr>),
                         js_next := kv + 1\<rparr>)
                     dict json_incr_sz))))"

text \<open>
  The search loop of \<^verbatim>\<open>json_dict_find\<close> and \<^verbatim>\<open>json_dict_pop\<close>: the element whose key
  equals the one given and the element before it; \<open>None\<close> if it does not end.
\<close>

partial_function (option) dict_search :: "jstore \<Rightarrow> bytes \<Rightarrow> nat \<Rightarrow> nat \<Rightarrow> (nat \<times> nat) run" where
  "dict_search st key prev cur =
     (if cur = 0 then Some (Inr (prev, 0))
      else
        run_bind (Some (deref (js_delems st) cur)) (\<lambda>e.
        run_bind (Some (deref (js_kvs st) (de_key_value e))) (\<lambda>kv.
          if kv_key kv = key then Some (Inr (prev, cur))
          else dict_search st key cur (de_next e))))"

declare dict_search.simps [code]

definition json_dict_find :: "jstore \<Rightarrow> nat \<Rightarrow> bytes \<Rightarrow> nat run" where
  "json_dict_find st dict key =
     run_bind (Some (info_at st dict)) (\<lambda>(i, info).
       run_bind (dict_search st (c_str key) 0 (ji_head info)) (\<lambda>(prev, cur).
         if cur = 0 then Some (Inr 0)
         else
           run_bind (Some (deref (js_delems st) cur)) (\<lambda>e.
           run_bind (Some (deref (js_kvs st) (de_key_value e))) (\<lambda>kv. Some (Inr (kv_value kv))))))"

definition json_dict_pop :: "jstore \<Rightarrow> nat \<Rightarrow> bytes \<Rightarrow> jstore run" where
  "json_dict_pop st dict key =
     run_bind (Some (info_at st dict)) (\<lambda>(i, info).
       run_bind (dict_search st (c_str key) 0 (ji_head info)) (\<lambda>(prev, cur).
         if cur = 0 then Some (Inr st)
         else if prev = 0 then Some (update_tags (set_info st i (info\<lparr>ji_head := cur\<rparr>)) dict json_decr_sz)
         else
           run_bind (Some (deref (js_delems st) cur)) (\<lambda>c.
           run_bind (Some (deref (js_delems st) prev)) (\<lambda>pe.
             let st = st\<lparr>js_delems := (js_delems st)(prev \<mapsto> pe\<lparr>de_next := de_next c\<rparr>)\<rparr>;
                 st = (if cur = ji_tail info then set_info st i (info\<lparr>ji_tail := de_next c\<rparr>) else st)
             in Some (update_tags st dict json_decr_sz)))))"

definition json_dict_get_next :: "jstore \<Rightarrow> nat \<Rightarrow> nat \<Rightarrow> (nat \<times> nat) res" where
  "json_dict_get_next st dict current =
     res_bind (info_at st dict) (\<lambda>(i, info).
       res_bind (if current = 0 then Inr (ji_head info)
                 else res_bind (deref (js_delems st) current) (\<lambda>e. Inr (de_next e)))
         (\<lambda>current. if current = 0 then Inr (0, 0)
            else res_bind (deref (js_delems st) current) (\<lambda>e. Inr (de_key_value e, current))))"

definition json_dict_get_size :: "jstore \<Rightarrow> nat \<Rightarrow> u64 res" where
  "json_dict_get_size st p = res_bind (val_at st p) (\<lambda>v.
     if jv_tags v AND JsonTag_Dict = 0 then Inr 0 else Inr (json_get_sz (jv_tags v)))"

subsection \<open>Documents\<close>

definition json_new :: jstore where
  "json_new = \<lparr>js_root = 0, js_vals = Map.empty, js_infos = Map.empty, js_aelems = Map.empty,
     js_delems = Map.empty, js_kvs = Map.empty, js_next = 1\<rparr>"

definition json_set_root :: "jstore \<Rightarrow> nat \<Rightarrow> jstore" where
  "json_set_root st root = st\<lparr>js_root := root\<rparr>"

end
