(* ===== verification/JsonDoc.thy ===== *)
theory JsonDoc
  imports JsonStore
begin

text \<open>
  What a document means: the tree a value of the store stands for, as a relation between a pointer
  and a tree with the set of cells it occupies. The operations of theory JsonStore are proved to act
  on the trees as list operations do, as long as the cells of the parts are apart.
\<close>

subsection \<open>Tag arithmetic\<close>

definition tag_is :: "u64 \<Rightarrow> u64 \<Rightarrow> bool" where
  "tag_is tags tag \<longleftrightarrow> tags AND JSON_TAGS_MASK = tag"

definition json_tags :: "u64 list" where
  "json_tags = [JsonTag_Null, JsonTag_Bool, JsonTag_U64, JsonTag_I64, JsonTag_F64, JsonTag_Str,
     JsonTag_Array, JsonTag_Dict]"

lemma json_mask_eq: "JSON_TAGS_MASK = 511" "JSON_TAGS_MASK = mask 9"
  by (simp_all add: JSON_TAGS_MASK_def mask_eq_exp_minus_1)

lemma json_tag_values:
  "JsonTag_Null = 1" "JsonTag_Bool = 2" "JsonTag_U64 = 4" "JsonTag_I64 = 8" "JsonTag_F64 = 32"
  "JsonTag_Str = 64" "JsonTag_Array = 128" "JsonTag_Dict = 256"
  by (simp_all add: json_tag_defs)

lemma json_tags_mask: "tag \<in> set json_tags \<Longrightarrow> tag AND JSON_TAGS_MASK = tag"
  by (auto simp: json_tags_def json_tag_values json_mask_eq(1))

lemma tag_is_set_tags: "tag \<in> set json_tags \<Longrightarrow> tag_is (json_set_tags tags tag) tag"
  by (auto simp: tag_is_def json_set_tags_def bit.conj_disj_distrib2
      json_tags_mask and.assoc)

lemma tag_is_test:
  assumes "tag_is tags tag" "tag' \<in> set json_tags"
  shows "tags AND tag' = tag AND tag'"
proof -
  have "tags AND tag' = tags AND (JSON_TAGS_MASK AND tag')"
    using json_tags_mask [OF assms(2)] by (simp add: and.commute)
  also have "\<dots> = tag AND tag'"
    using assms(1) by (simp add: tag_is_def flip: and.assoc)
  finally show ?thesis .
qed

lemma tag_is_test_zero:
  assumes "tag_is tags tag" "tag \<in> set json_tags" "tag' \<in> set json_tags"
  shows "tags AND tag' = 0 \<longleftrightarrow> tag \<noteq> tag'"
  using assms(2,3) by (auto simp: tag_is_test [OF assms(1,3)] json_tags_def json_tag_values)

lemma unat_tag_bits: "unat (tags AND JSON_TAGS_MASK) = unat tags mod 512"
  using unat_and_mask [of 9 tags] by (simp add: json_mask_eq(1))

lemma unat_json_get_sz: "unat (json_get_sz tags) = unat tags div 2 ^ 32"
proof -
  have "json_get_sz tags = drop_bit 32 tags AND mask 32"
    by (simp add: json_get_sz_def mask_eq_exp_minus_1)
  also have "\<dots> = drop_bit 32 tags"
    by (rule bit_word_eqI) (auto simp: bit_simps dest: bit_imp_le_length)
  finally show ?thesis
    by (simp only: unat_drop_bit_eq) (simp only: drop_bit_eq_div)
qed

lemma unat_incr_sz: "unat (json_incr_sz tags) = (unat tags + 2 ^ 32) mod 2 ^ 64"
  by (simp add: json_incr_sz_def unat_word_ariths flip: take_bit_eq_mod)

lemma tag_is_incr [simp]: "tag_is (json_incr_sz tags) tag \<longleftrightarrow> tag_is tags tag"
proof -
  have "unat (json_incr_sz tags) mod 512 = (unat tags + 512 * 8388608) mod 512"
    by (simp add: unat_incr_sz mod_mod_cancel)
  also have "\<dots> = unat tags mod 512" by (rule mod_mult_self2)
  finally show ?thesis
    by (simp add: tag_is_def word_unat_eq_iff unat_tag_bits)
qed

lemma incr_decr_sz [simp]: "json_incr_sz (json_decr_sz tags) = tags"
  by (simp add: json_incr_sz_def json_decr_sz_def)

lemma tag_is_decr [simp]: "tag_is (json_decr_sz tags) tag \<longleftrightarrow> tag_is tags tag"
  by (metis incr_decr_sz tag_is_incr)

text \<open>The number of elements of an array or a dictionary, modulo the 32 bits it is kept in.\<close>

definition sz_is :: "u64 \<Rightarrow> nat \<Rightarrow> bool" where
  "sz_is tags n \<longleftrightarrow> unat (json_get_sz tags) = n mod 2 ^ 32"

lemma unat_sz_incr: "unat (json_get_sz (json_incr_sz tags)) = (unat (json_get_sz tags) + 1) mod 2 ^ 32"
proof -
  have split: "x mod (b * b) div b = x div b mod b" if "0 < b" for x b :: nat
    using that by (simp add: mod_mult2_eq)
  have "(unat tags + 2 ^ 32) mod (2 ^ 32 * 2 ^ 32) div 2 ^ 32 = (unat tags + 2 ^ 32) div 2 ^ 32 mod 2 ^ 32"
    by (rule split) simp
  also have "(unat tags + 2 ^ 32) div 2 ^ 32 = unat tags div 2 ^ 32 + 1"
    by (rule div_add_self2) simp
  finally show ?thesis
    by (simp add: unat_json_get_sz unat_incr_sz)
qed

lemma sz_is_incr: "sz_is tags n \<Longrightarrow> sz_is (json_incr_sz tags) (Suc n)"
  by (simp add: sz_is_def unat_sz_incr mod_simps)

lemma sz_is_decr:
  assumes "sz_is tags (Suc n)"
  shows "sz_is (json_decr_sz tags) n"
proof -
  define a where "a = unat (json_get_sz (json_decr_sz tags))"
  have "unat (json_decr_sz tags) < 2 ^ LENGTH(64)" by (rule unsigned_less)
  then have "a < 2 ^ 32" by (simp add: a_def unat_json_get_sz)
  moreover have "(a + 1) mod 2 ^ 32 = Suc n mod 2 ^ 32"
    using assms unat_sz_incr [of "json_decr_sz tags"] by (simp add: sz_is_def a_def)
  ultimately have "a = n mod 2 ^ 32" using mod_less_divisor [of "2 ^ 32" n]
    by (simp add: mod_Suc split: if_splits)
  then show ?thesis by (simp add: sz_is_def a_def)
qed

lemma sz_is_new: "tag \<in> set json_tags \<Longrightarrow> sz_is (json_set_tags 0 tag) 0"
  by (auto simp: sz_is_def json_set_tags_def json_tags_def json_tag_values json_get_sz_def)

lemma json_set_sz_bits:
  "tag_is (json_set_sz tags n) tag \<longleftrightarrow> tag_is tags tag"
  "json_get_sz (json_set_sz tags n) = n AND 0xFFFFFFFF"
proof -
  have m: "(0xFFFFFFFF :: u64) = mask 32" by (simp add: mask_eq_exp_minus_1)
  have "json_set_sz tags n AND JSON_TAGS_MASK = tags AND JSON_TAGS_MASK"
    unfolding json_set_sz_def JSON_SZ_MASK_def json_mask_eq(2) m
    by (rule bit_word_eqI) (auto simp: bit_simps)
  then show "tag_is (json_set_sz tags n) tag \<longleftrightarrow> tag_is tags tag" by (simp add: tag_is_def)
  show "json_get_sz (json_set_sz tags n) = n AND 0xFFFFFFFF"
    unfolding json_set_sz_def json_get_sz_def JSON_SZ_MASK_def m
    by (rule bit_word_eqI) (auto simp: bit_simps)
qed

subsection \<open>Documents as trees\<close>

datatype json =
    JNull
  | JBool bool
  | JU64 u64
  | JI64 u64
  | JF64 u64
  | JStr bytes
  | JArray "json list"
  | JDict "(bytes \<times> json) list"

definition hd0 :: "nat list \<Rightarrow> nat" where
  "hd0 es = (case es of [] \<Rightarrow> 0 | e # _ \<Rightarrow> e)"

lemma hd0_simps [simp]: "hd0 [] = 0" "hd0 (e # es) = e"
  by (simp_all add: hd0_def)

text \<open>The elements of an array, linked in the order of \<open>es\<close> and holding the pointers \<open>vs\<close>.\<close>

fun achain :: "jstore \<Rightarrow> nat list \<Rightarrow> nat list \<Rightarrow> bool" where
  "achain st [] [] \<longleftrightarrow> True"
| "achain st (e # es) (v # vs) \<longleftrightarrow>
     0 < e \<and> js_aelems st e = Some \<lparr>ae_value = v, ae_next = hd0 es\<rparr> \<and> achain st es vs"
| "achain st _ _ \<longleftrightarrow> False"

text \<open>The elements of a dictionary with their key-value cells \<open>ks\<close>.\<close>

fun dchain :: "jstore \<Rightarrow> nat list \<Rightarrow> nat list \<Rightarrow> (bytes \<times> nat) list \<Rightarrow> bool" where
  "dchain st [] [] [] \<longleftrightarrow> True"
| "dchain st (e # es) (k # ks) (kv # kvs) \<longleftrightarrow>
     0 < e \<and> 0 < k \<and> js_delems st e = Some \<lparr>de_key_value = k, de_next = hd0 es\<rparr> \<and>
     js_kvs st k = Some \<lparr>kv_key = fst kv, kv_value = snd kv\<rparr> \<and> dchain st es ks kvs"
| "dchain st _ _ _ \<longleftrightarrow> False"

definition cell :: "jstore \<Rightarrow> nat \<Rightarrow> u64 \<Rightarrow> uval \<Rightarrow> bool" where
  "cell st p tag u \<longleftrightarrow>
     0 < p \<and> (\<exists>v. js_vals st p = Some v \<and> tag_is (jv_tags v) tag \<and> jv_value v = u)"

definition list_at :: "jstore \<Rightarrow> nat \<Rightarrow> u64 \<Rightarrow> nat \<Rightarrow> nat list \<Rightarrow> bool" where
  "list_at st p tag i es \<longleftrightarrow>
     0 < p \<and> (\<exists>v. js_vals st p = Some v \<and> tag_is (jv_tags v) tag \<and> jv_value v = UPtr i \<and>
       sz_is (jv_tags v) (length es)) \<and>
     0 < i \<and> (\<exists>info. js_infos st i = Some info \<and> ji_head info = hd0 es \<and>
       (es \<noteq> [] \<longrightarrow> ji_tail info = last es))"

inductive repr :: "jstore \<Rightarrow> nat \<Rightarrow> json \<Rightarrow> nat set \<Rightarrow> bool"
  and reprs :: "jstore \<Rightarrow> nat list \<Rightarrow> json list \<Rightarrow> nat set \<Rightarrow> bool"
  for st where
  repr_null: "cell st p JsonTag_Null u \<Longrightarrow> repr st p JNull {p}"
| repr_bool: "cell st p JsonTag_Bool (UBool b) \<Longrightarrow> repr st p (JBool b) {p}"
| repr_u64: "cell st p JsonTag_U64 (UU64 n) \<Longrightarrow> repr st p (JU64 n) {p}"
| repr_i64: "cell st p JsonTag_I64 (UI64 n) \<Longrightarrow> repr st p (JI64 n) {p}"
| repr_f64: "cell st p JsonTag_F64 (UF64 n) \<Longrightarrow> repr st p (JF64 n) {p}"
| repr_str: "cell st p JsonTag_Str (UStr s) \<Longrightarrow> 0 \<notin> set s \<Longrightarrow> repr st p (JStr s) {p}"
| repr_array: "\<lbrakk>list_at st p JsonTag_Array i es; achain st es vs; distinct es; reprs st vs xs F;
     ({p, i} \<union> set es) \<inter> F = {}\<rbrakk> \<Longrightarrow> repr st p (JArray xs) ({p, i} \<union> set es \<union> F)"
| repr_dict: "\<lbrakk>list_at st p JsonTag_Dict i es; dchain st es ks (zip (map fst kxs) vs); distinct es; distinct ks;
     reprs st vs (map snd kxs) F; \<forall>k \<in> fst ` set kxs. 0 \<notin> set k;
     ({p, i} \<union> set es \<union> set ks) \<inter> F = {}\<rbrakk>
     \<Longrightarrow> repr st p (JDict kxs) ({p, i} \<union> set es \<union> set ks \<union> F)"
| reprs_nil: "reprs st [] [] {}"
| reprs_cons: "\<lbrakk>repr st v x G; reprs st vs xs F\<rbrakk> \<Longrightarrow> reprs st (v # vs) (x # xs) (G \<union> F)"

inductive_cases repr_cases:
  "repr st p JNull F" "repr st p (JBool b) F" "repr st p (JU64 n) F" "repr st p (JI64 n) F"
  "repr st p (JF64 n) F" "repr st p (JStr s) F"
inductive_cases repr_arrayE: "repr st p (JArray xs) F"
inductive_cases repr_dictE: "repr st p (JDict kxs) F"
inductive_cases reprs_nilE: "reprs st [] xs F"
inductive_cases reprs_consE: "reprs st (v # vs) xs F"

lemma repr_pos: "repr st p j F \<Longrightarrow> 0 < p \<and> p \<in> F"
  by (erule repr.cases) (auto simp: cell_def list_at_def)

lemma reprs_length: "reprs st vs xs F \<Longrightarrow> length vs = length xs"
  by (induction vs arbitrary: xs F) (auto elim: reprs_nilE reprs_consE)

lemma achain_length: "achain st es vs \<Longrightarrow> length es = length vs"
  by (induction st es vs rule: achain.induct) auto

lemma dchain_length: "dchain st es ks kvs \<Longrightarrow> length es = length kvs \<and> length ks = length kvs"
  by (induction st es ks kvs rule: dchain.induct) auto

subsection \<open>Framing\<close>

definition agree :: "jstore \<Rightarrow> jstore \<Rightarrow> nat set \<Rightarrow> bool" where
  "agree st st' A \<longleftrightarrow> (\<forall>p \<in> A. js_vals st p = js_vals st' p \<and> js_infos st p = js_infos st' p \<and>
     js_aelems st p = js_aelems st' p \<and> js_delems st p = js_delems st' p \<and> js_kvs st p = js_kvs st' p)"

lemma agree_refl [simp]: "agree st st A"
  by (simp add: agree_def)

lemma agree_trans: "agree st st' A \<Longrightarrow> agree st' st'' A \<Longrightarrow> agree st st'' A"
  by (simp add: agree_def)

lemma agree_mono: "agree st st' B \<Longrightarrow> A \<subseteq> B \<Longrightarrow> agree st st' A"
  by (auto simp: agree_def)

lemma achain_frame: "achain st es vs \<Longrightarrow> agree st st' (set es) \<Longrightarrow> achain st' es vs"
  by (induction st es vs rule: achain.induct) (auto simp: agree_def)

lemma dchain_frame: "dchain st es ks kvs \<Longrightarrow> agree st st' (set es \<union> set ks) \<Longrightarrow> dchain st' es ks kvs"
  by (induction st es ks kvs rule: dchain.induct) (auto simp: agree_def)

lemma list_at_frame: "list_at st p tag i es \<Longrightarrow> agree st st' {p, i} \<Longrightarrow> list_at st' p tag i es"
  by (auto simp: list_at_def agree_def)

lemma cell_frame: "cell st p tag u \<Longrightarrow> agree st st' {p} \<Longrightarrow> cell st' p tag u"
  by (auto simp: cell_def agree_def)

lemma repr_frame:
  "repr st p j F \<Longrightarrow> agree st st' F \<Longrightarrow> repr st' p j F"
  "reprs st vs xs F \<Longrightarrow> agree st st' F \<Longrightarrow> reprs st' vs xs F"
proof (induction rule: repr_reprs.inducts)
  case (repr_array p i es vs xs F)
  then show ?case
    by (intro repr_reprs.repr_array)
      (blast intro: list_at_frame achain_frame agree_mono)+
next
  case (repr_dict p i es ks kxs vs F)
  then show ?case
    by (intro repr_reprs.repr_dict)
      (blast intro: list_at_frame dchain_frame agree_mono)+
next
  case (reprs_cons v x G vs xs F)
  then show ?case by (blast intro: repr_reprs.reprs_cons agree_mono)
qed (auto intro: repr_reprs.intros cell_frame)

subsection \<open>Creating and setting values\<close>

lemma json_tags_set [simp]:
  "JsonTag_Null \<in> set json_tags" "JsonTag_Bool \<in> set json_tags" "JsonTag_U64 \<in> set json_tags"
  "JsonTag_I64 \<in> set json_tags" "JsonTag_F64 \<in> set json_tags" "JsonTag_Str \<in> set json_tags"
  "JsonTag_Array \<in> set json_tags" "JsonTag_Dict \<in> set json_tags"
  by (simp_all add: json_tags_def)

text \<open>\<open>grows st st'\<close>: only new cells were written.\<close>

definition grows :: "jstore \<Rightarrow> jstore \<Rightarrow> bool" where
  "grows st st' \<longleftrightarrow> agree st st' {..<js_next st} \<and> js_next st \<le> js_next st'"

lemma grows_refl [simp]: "grows st st"
  by (simp add: grows_def)

lemma grows_trans: "grows st st' \<Longrightarrow> grows st' st'' \<Longrightarrow> grows st st''"
  by (auto simp: grows_def intro: agree_trans agree_mono)

lemma repr_grows: "repr st p j F \<Longrightarrow> F \<subseteq> {..<js_next st} \<Longrightarrow> grows st st' \<Longrightarrow> repr st' p j F"
  by (auto simp: grows_def intro: repr_frame(1) agree_mono)

lemma new_val_grows: "new_val st v = (p, st') \<Longrightarrow> grows st st' \<and> p = js_next st \<and> js_next st' = p + 1"
  by (auto simp: new_val_def set_val_def grows_def agree_def)

lemma new_val_cell:
  "new_val st v = (p, st') \<Longrightarrow> 0 < js_next st \<Longrightarrow> tag_is (jv_tags v) tag \<Longrightarrow> cell st' p tag (jv_value v)"
  by (auto simp: new_val_def set_val_def cell_def)

lemma json_scalar_new_repr:
  assumes "0 < js_next st"
  shows "json_null_new st = (p, st') \<Longrightarrow> repr st' p JNull {p}"
    and "json_bool_new st b = (p, st') \<Longrightarrow> repr st' p (JBool b) {p}"
    and "json_u64_new st n = (p, st') \<Longrightarrow> repr st' p (JU64 n) {p}"
    and "json_i64_new st n = (p, st') \<Longrightarrow> repr st' p (JI64 n) {p}"
    and "json_f64_new st n = (p, st') \<Longrightarrow> repr st' p (JF64 n) {p}"
  unfolding json_null_new_def json_bool_new_def json_u64_new_def json_i64_new_def json_f64_new_def
  by (drule new_val_cell [OF _ assms];
      force intro: repr_reprs.intros tag_is_set_tags)+

lemma set_val_agree: "agree st (set_val st p v) (- {p})"
  by (simp add: agree_def set_val_def)

lemma set_val_cell: "0 < p \<Longrightarrow> tag_is (jv_tags v) tag \<Longrightarrow> cell (set_val st p v) p tag (jv_value v)"
  by (simp add: cell_def set_val_def)

lemma set_val_next [simp]: "js_next (set_val st p v) = js_next st"
  by (simp add: set_val_def)

lemma repr_val_at: "repr st p j F \<Longrightarrow> \<exists>v. val_at st p = Inr v"
  by (erule repr.cases) (auto simp: cell_def list_at_def val_at_def deref_def)

lemma new_list_value_at:
  assumes "new_list_value st tag = (p, st')" "0 < js_next st" "tag \<in> set json_tags"
  shows "list_at st' p tag (p + 1) [] \<and> p = js_next st \<and> js_next st' = p + 2 \<and> grows st st'"
  using assms
  by (auto simp: new_list_value_def Let_def list_at_def set_val_def grows_def agree_def
      tag_is_set_tags sz_is_new)

lemma json_array_new_repr:
  assumes "json_array_new st = (p, st')" "0 < js_next st"
  shows "repr st' p (JArray []) {p, p + 1} \<and> p = js_next st \<and> js_next st' = p + 2 \<and> grows st st'"
proof -
  note n = new_list_value_at [OF assms [unfolded json_array_new_def]]
  have "repr st' p (JArray []) ({p, p + 1} \<union> set [] \<union> {})"
    by (rule repr_array [where vs = "[]"]) (use n in \<open>auto intro: repr_reprs.intros\<close>)
  then show ?thesis using n by simp
qed

lemma json_dict_new_repr:
  assumes "json_dict_new st = (p, st')" "0 < js_next st"
  shows "repr st' p (JDict []) {p, p + 1} \<and> p = js_next st \<and> js_next st' = p + 2 \<and> grows st st'"
proof -
  note n = new_list_value_at [OF assms [unfolded json_dict_new_def]]
  have "repr st' p (JDict []) ({p, p + 1} \<union> set [] \<union> set [] \<union> {})"
    by (rule repr_dict [where vs = "[]"]) (use n in \<open>auto intro: repr_reprs.intros\<close>)
  then show ?thesis using n by simp
qed

subsection \<open>Appending\<close>

lemma achain_last:
  "achain st es vs \<Longrightarrow> es \<noteq> [] \<Longrightarrow>
    0 < last es \<and> (\<exists>v. js_aelems st (last es) = Some \<lparr>ae_value = v, ae_next = 0\<rparr> \<and> v = last vs)"
  by (induction st es vs rule: achain.induct) (auto simp: hd0_def split: list.splits dest: achain_length)

text \<open>A new element linked behind the last one.\<close>

lemma achain_append:
  assumes "achain st es vs" "distinct es" "e \<notin> set es" "0 < e"
    and new: "js_aelems st' e = Some \<lparr>ae_value = v, ae_next = 0\<rparr>"
    and last: "es \<noteq> [] \<Longrightarrow> js_aelems st' (last es) = Some \<lparr>ae_value = last vs, ae_next = e\<rparr>"
    and others: "\<forall>x \<in> set (butlast es). js_aelems st' x = js_aelems st x"
  shows "achain st' (es @ [e]) (vs @ [v])"
  using assms
proof (induction st es vs rule: achain.induct)
  case (2 st a es b vs)
  show ?case
  proof (cases es)
    case Nil
    then show ?thesis using 2 by (cases vs) auto
  next
    case (Cons x es')
    then obtain y vs' where vs: "vs = y # vs'" using "2.prems"(1) by (cases vs) auto
    have "achain st' (es @ [e]) (vs @ [v])"
      by (rule "2.IH") (use "2.prems" Cons vs in auto)
    then show ?thesis using "2.prems" Cons by simp
  qed
qed auto

lemma reprs_append:
  "reprs st vs xs F \<Longrightarrow> repr st v x G \<Longrightarrow> reprs st (vs @ [v]) (xs @ [x]) (F \<union> G)"
proof (induction vs arbitrary: xs F)
  case Nil
  then show ?case
    using reprs_cons [OF Nil.prems(2) reprs_nil] by (auto elim!: reprs_nilE)
next
  case (Cons a vs)
  from Cons.prems(1) obtain y ys H F' where
    xs: "xs = y # ys" "F = H \<union> F'" "repr st a y H" "reprs st vs ys F'" by (auto elim: reprs_consE)
  have "reprs st (a # (vs @ [v])) (y # (ys @ [x])) (H \<union> (F' \<union> G))"
    by (rule reprs_cons [OF xs(3) Cons.IH [OF xs(4) Cons.prems(2)]])
  then show ?case by (simp add: xs Un_assoc)
qed

lemma info_at_list:
  assumes "list_at st p tag i es"
  shows "\<exists>t. info_at st p = Inr (i, \<lparr>ji_head = hd0 es, ji_tail = t\<rparr>) \<and>
    js_infos st i = Some \<lparr>ji_head = hd0 es, ji_tail = t\<rparr> \<and> (es \<noteq> [] \<longrightarrow> t = last es)"
proof -
  obtain info where "js_infos st i = Some info" "ji_head info = hd0 es" "es \<noteq> [] \<longrightarrow> ji_tail info = last es"
    using assms by (auto simp: list_at_def)
  then show ?thesis
    using assms by (cases info) (auto simp: list_at_def info_at_def val_at_def deref_def u_ptr_def)
qed

lemma butlast_not_last: "distinct es \<Longrightarrow> x \<in> set (butlast es) \<Longrightarrow> x \<noteq> last es"
  by (cases es rule: rev_cases) auto

lemma achain_hd0: "achain st es vs \<Longrightarrow> hd0 es = 0 \<longleftrightarrow> es = []"
  by (induction st es vs rule: achain.induct) auto

text \<open>
  The pointer stored and the cells of the value arena that follow: the value itself, or a copy of
  its cell \<open>w\<close> placed behind the new element.
\<close>

definition stored :: "bool \<Rightarrow> nat \<Rightarrow> nat \<Rightarrow> nat" where
  "stored reference v n = (if reference then v else n + 1)"

definition with_copy :: "bool \<Rightarrow> nat \<Rightarrow> jvalue \<Rightarrow> (nat \<Rightarrow> jvalue option) \<Rightarrow> nat \<Rightarrow> jvalue option" where
  "with_copy reference n w m = (if reference then m else m(n + 1 \<mapsto> w))"

lemma array_append_chain:
  assumes la: "list_at st p JsonTag_Array i es" and ch: "achain st es vs" and d: "distinct es"
    and below: "{p, i} \<union> set es \<subseteq> {..<n}" and n: "n = js_next st"
    and w: "js_vals st v = Some w" "0 < v"
  shows "\<exists>st'. json_array_append st p v reference = Inr st' \<and> list_at st' p JsonTag_Array i (es @ [n]) \<and>
    achain st' (es @ [n]) (vs @ [stored reference v n]) \<and> agree st st' ({..<n} - ({p, i} \<union> set es)) \<and>
    js_next st' = (if reference then n + 1 else n + 2) \<and> (\<not> reference \<longrightarrow> js_vals st' (n + 1) = Some w)"
proof -
  obtain t where info: "info_at st p = Inr (i, \<lparr>ji_head = hd0 es, ji_tail = t\<rparr>)"
      "js_infos st i = Some \<lparr>ji_head = hd0 es, ji_tail = t\<rparr>" "es \<noteq> [] \<longrightarrow> t = last es"
    using info_at_list [OF la] by blast
  obtain jv where jv: "js_vals st p = Some jv" "tag_is (jv_tags jv) JsonTag_Array" "jv_value jv = UPtr i"
      "sz_is (jv_tags jv) (length es)" "0 < p" "0 < i"
    using la by (auto simp: list_at_def)
  define m where "m = (if es = [] then js_aelems st
      else (js_aelems st)(last es \<mapsto> \<lparr>ae_value = last vs, ae_next = n\<rparr>))"
  define st' where "st' = st\<lparr>js_aelems := m(n \<mapsto> \<lparr>ae_value = stored reference v n, ae_next = 0\<rparr>),
      js_infos := (js_infos st)(i \<mapsto> \<lparr>ji_head = hd0 (es @ [n]), ji_tail = n\<rparr>),
      js_vals := (with_copy reference n w (js_vals st))(p \<mapsto> jv\<lparr>jv_tags := json_incr_sz (jv_tags jv)\<rparr>),
      js_next := if reference then n + 1 else n + 2\<rparr>"
  have pn: "p \<noteq> Suc n" "p \<noteq> Suc (js_next st)" using below n by auto
  note defs = json_array_append_def array_link_def copy_val_def update_tags_def new_val_def
    val_at_def deref_def set_info_def set_val_def st'_def m_def n Let_def stored_def with_copy_def
  have nes: "n \<notin> set es" using below by auto
  have eq: "json_array_append st p v reference = Inr st'"
  proof (cases "es = []")
    case True
    then show ?thesis
      using info jv w pn by (simp add: defs)
  next
    case False
    have "hd0 es \<noteq> 0" using achain_hd0 [OF ch] False by simp
    moreover have "hd0 (es @ [n]) = hd0 es" using False by (cases es) auto
    moreover have "last es \<noteq> n" using nes False by auto
    moreover have "t = last es" using info False by simp
    ultimately show ?thesis
      using info jv achain_last [OF ch False] False w pn
      by (auto simp: defs fun_upd_twist)
  qed
  have "list_at st' p JsonTag_Array i (es @ [n])"
    using jv pn by (auto simp: list_at_def st'_def intro: sz_is_incr)
  moreover have "achain st' (es @ [n]) (vs @ [stored reference v n])"
  proof (rule achain_append [OF ch d nes])
    show "\<forall>x \<in> set (butlast es). js_aelems st' x = js_aelems st x"
    proof
      fix x assume x: "x \<in> set (butlast es)"
      then have "x \<noteq> last es" "x \<noteq> n"
        using butlast_not_last [OF d x] in_set_butlastD [OF x] nes by auto
      then show "js_aelems st' x = js_aelems st x" by (simp add: st'_def m_def)
    qed
    show "js_aelems st' (last es) = Some \<lparr>ae_value = last vs, ae_next = n\<rparr>" if "es \<noteq> []"
      using that nes by (auto simp: st'_def m_def)
  qed (use below in \<open>auto simp: st'_def\<close>)
  moreover have "agree st st' ({..<n} - ({p, i} \<union> set es))"
    by (auto simp: agree_def st'_def m_def with_copy_def)
  moreover have "\<not> reference \<longrightarrow> js_vals st' (n + 1) = Some w"
    using pn by (simp add: st'_def with_copy_def)
  ultimately show ?thesis using eq by (auto simp: st'_def)
qed

text \<open>A copied cell stands for the same tree: an array or a dictionary shares its list.\<close>

lemma repr_copy:
  assumes rep: "repr st v x G" and w: "js_vals st v = Some w" and ag: "agree st st' G"
    and v': "js_vals st' v' = Some w" "0 < v'" "v' \<notin> G"
  shows "\<exists>H. repr st' v' x H \<and> H \<subseteq> insert v' G"
  using repr_frame(1) [OF rep ag]
proof (cases rule: repr.cases)
  case (repr_array i es vs xs F)
  have "list_at st' v' JsonTag_Array i es"
    using repr_array w v' ag by (auto simp: list_at_def agree_def)
  then have "repr st' v' (JArray xs) ({v', i} \<union> set es \<union> F)"
    using repr_array v' by (intro repr_reprs.repr_array) auto
  then show ?thesis unfolding repr_array by (intro exI conjI, assumption) auto
next
  case (repr_dict i es ks kxs vs F)
  have "list_at st' v' JsonTag_Dict i es"
    using repr_dict w v' ag by (auto simp: list_at_def agree_def)
  then have "repr st' v' (JDict kxs) ({v', i} \<union> set es \<union> set ks \<union> F)"
    using repr_dict v' by (intro repr_reprs.repr_dict) auto
  then show ?thesis unfolding repr_dict by (intro exI conjI, assumption) auto
qed (use w v' ag in \<open>auto simp: cell_def agree_def intro!: repr_reprs.intros exI [of _ "{v'}"]\<close>)

lemma repr_val: "repr st v x G \<Longrightarrow> \<exists>w. js_vals st v = Some w"
  by (erule repr.cases) (auto simp: cell_def list_at_def)

lemma stored_repr:
  assumes val: "repr st v x G" and w: "js_vals st v = Some w" and ag: "agree st st' G"
    and n: "G \<subseteq> {..<n}" "n + (if reference then 1 else 2) \<le> n'" "\<not> reference \<longrightarrow> js_vals st' (n + 1) = Some w"
  shows "\<exists>K. repr st' (stored reference v n) x K \<and> K \<subseteq> G \<union> {n + 1..<n'}"
proof (cases reference)
  case True
  then show ?thesis using repr_frame(1) [OF val ag] by (auto simp: stored_def)
next
  case False
  have "n + 1 \<notin> G" using n by auto
  then obtain H where "repr st' (n + 1) x H" "H \<subseteq> insert (n + 1) G"
    using repr_copy [OF val w ag] n(3) False by auto
  then show ?thesis using n(2) False by (intro exI [of _ H]) (auto simp: stored_def)
qed

lemma json_array_append_spec:
  assumes arr: "repr st p (JArray xs) F" and val: "repr st v x G" and apart: "F \<inter> G = {}"
    and below: "F \<union> G \<subseteq> {..<js_next st}"
  shows "\<exists>st' H. json_array_append st p v reference = Inr st' \<and> repr st' p (JArray (xs @ [x])) H \<and>
    H \<subseteq> F \<union> G \<union> {js_next st..<js_next st'} \<and> agree st st' ({..<js_next st} - F) \<and>
    js_next st < js_next st'"
proof -
  define n where "n = js_next st"
  from arr obtain i es vs E where
    F: "F = {p, i} \<union> set es \<union> E" "list_at st p JsonTag_Array i es" "achain st es vs" "distinct es"
      "reprs st vs xs E" "({p, i} \<union> set es) \<inter> E = {}" by (auto elim: repr_arrayE)
  obtain w where w: "js_vals st v = Some w" using repr_val [OF val] by blast
  have v: "0 < v" using repr_pos [OF val] by simp
  have own: "{p, i} \<union> set es \<subseteq> {..<n}" using below F(1) by (auto simp: n_def)
  obtain st' where st': "json_array_append st p v reference = Inr st'" "list_at st' p JsonTag_Array i (es @ [n])"
      "achain st' (es @ [n]) (vs @ [stored reference v n])" "agree st st' ({..<n} - ({p, i} \<union> set es))"
      "js_next st' = (if reference then n + 1 else n + 2)" "\<not> reference \<longrightarrow> js_vals st' (n + 1) = Some w"
    using array_append_chain [OF F(2,3,4) own n_def w v] by blast
  have agE: "agree st st' E" and agG: "agree st st' G"
    using st'(4) F below apart by (auto intro!: agree_mono [OF st'(4)] simp: n_def)
  have "G \<subseteq> {..<n}" "n + (if reference then 1 else 2) \<le> js_next st'" using below st'(5) by (auto simp: n_def)
  then obtain K where K: "repr st' (stored reference v n) x K" "K \<subseteq> G \<union> {n + 1..<js_next st'}"
    using stored_repr [OF val w agG _ _ st'(6)] by blast
  have "reprs st' (vs @ [stored reference v n]) (xs @ [x]) (E \<union> K)"
    by (rule reprs_append [OF repr_frame(2) [OF F(5) agE] K(1)])
  moreover have "distinct (es @ [n])" using F(4) own by auto
  moreover have "({p, i} \<union> set (es @ [n])) \<inter> (E \<union> K) = {}"
  proof -
    have "n \<notin> E" "n \<notin> K" using below F(1) K(2) by (auto simp: n_def)
    moreover have "({p, i} \<union> set es) \<inter> K = {}" using K(2) own apart F(1) by fastforce
    ultimately show ?thesis using F(6) by auto
  qed
  ultimately have "repr st' p (JArray (xs @ [x])) ({p, i} \<union> set (es @ [n]) \<union> (E \<union> K))"
    using repr_array [OF st'(2,3)] by blast
  moreover have "{p, i} \<union> set (es @ [n]) \<union> (E \<union> K) \<subseteq> F \<union> G \<union> {n..<js_next st'}"
    using K(2) F(1) st'(5) by auto
  moreover have "agree st st' ({..<n} - F)" using F(1) by (auto intro: agree_mono [OF st'(4)])
  moreover have "n < js_next st'" using st'(5) by simp
  ultimately show ?thesis using st'(1) unfolding n_def by blast
qed

lemma dchain_hd0: "dchain st es ks kvs \<Longrightarrow> hd0 es = 0 \<longleftrightarrow> es = []"
  by (induction st es ks kvs rule: dchain.induct) auto

lemma dchain_last:
  "dchain st es ks kvs \<Longrightarrow> es \<noteq> [] \<Longrightarrow>
    0 < last es \<and> js_delems st (last es) = Some \<lparr>de_key_value = last ks, de_next = 0\<rparr>"
  by (induction st es ks kvs rule: dchain.induct) (auto simp: hd0_def split: list.splits dest: dchain_length)

lemma dchain_append:
  assumes "dchain st es ks kvs" "distinct es" "e \<notin> set es" "0 < e" "0 < k"
    and new: "js_delems st' e = Some \<lparr>de_key_value = k, de_next = 0\<rparr>"
      "js_kvs st' k = Some \<lparr>kv_key = fst kv, kv_value = snd kv\<rparr>"
    and last: "es \<noteq> [] \<Longrightarrow> js_delems st' (last es) = Some \<lparr>de_key_value = last ks, de_next = e\<rparr>"
    and others: "\<forall>x \<in> set (butlast es). js_delems st' x = js_delems st x"
      "\<forall>x \<in> set ks. js_kvs st' x = js_kvs st x"
  shows "dchain st' (es @ [e]) (ks @ [k]) (kvs @ [kv])"
  using assms
proof (induction st es ks kvs rule: dchain.induct)
  case (2 st a es b ks c kvs)
  show ?case
  proof (cases es)
    case Nil
    then show ?thesis using 2 by (cases ks; cases kvs) auto
  next
    case (Cons x es')
    then obtain y ks' z kvs' where vs: "ks = y # ks'" "kvs = z # kvs'"
      using "2.prems"(1) by (cases ks; cases kvs) auto
    have "dchain st' (es @ [e]) (ks @ [k]) (kvs @ [kv])"
      by (rule "2.IH") (use "2.prems" Cons vs in auto)
    then show ?thesis using "2.prems" Cons by simp
  qed
qed auto

text \<open>The key-value cell follows the new element and the copy of the value, if there is one.\<close>

definition kv_cell :: "bool \<Rightarrow> nat \<Rightarrow> nat" where
  "kv_cell reference n = (if reference then n + 1 else n + 2)"

lemma c_str_id: "0 \<notin> set s \<Longrightarrow> c_str s = s"
  unfolding c_str_def by (induction s) auto

lemma dict_append_chain:
  assumes la: "list_at st p JsonTag_Dict i es" and ch: "dchain st es ks kvs" and d: "distinct es"
    and below: "{p, i} \<union> set es \<union> set ks \<subseteq> {..<n}" and n: "n = js_next st"
    and w: "js_vals st v = Some w" "0 < v" and key: "0 \<notin> set key" "length key < STRING_BLOCK"
  shows "\<exists>st'. json_dict_append st p key v reference = Inr st' \<and> list_at st' p JsonTag_Dict i (es @ [n]) \<and>
    dchain st' (es @ [n]) (ks @ [kv_cell reference n]) (kvs @ [(key, stored reference v n)]) \<and>
    agree st st' ({..<n} - ({p, i} \<union> set es)) \<and>
    js_next st' = kv_cell reference n + 1 \<and> (\<not> reference \<longrightarrow> js_vals st' (n + 1) = Some w)"
proof -
  obtain t where info: "info_at st p = Inr (i, \<lparr>ji_head = hd0 es, ji_tail = t\<rparr>)"
      "js_infos st i = Some \<lparr>ji_head = hd0 es, ji_tail = t\<rparr>" "es \<noteq> [] \<longrightarrow> t = last es"
    using info_at_list [OF la] by blast
  obtain jv where jv: "js_vals st p = Some jv" "tag_is (jv_tags jv) JsonTag_Dict" "jv_value jv = UPtr i"
      "sz_is (jv_tags jv) (length es)" "0 < p" "0 < i"
    using la by (auto simp: list_at_def)
  define m where "m = (if es = [] then js_delems st
      else (js_delems st)(last es \<mapsto> \<lparr>de_key_value = last ks, de_next = n\<rparr>))"
  define st' where "st' = st\<lparr>js_delems := m(n \<mapsto> \<lparr>de_key_value = kv_cell reference n, de_next = 0\<rparr>),
      js_infos := (js_infos st)(i \<mapsto> \<lparr>ji_head = hd0 (es @ [n]), ji_tail = n\<rparr>),
      js_vals := (with_copy reference n w (js_vals st))(p \<mapsto> jv\<lparr>jv_tags := json_incr_sz (jv_tags jv)\<rparr>),
      js_kvs := (js_kvs st)(kv_cell reference n \<mapsto> \<lparr>kv_key = key, kv_value = stored reference v n\<rparr>),
      js_next := kv_cell reference n + 1\<rparr>"
  have pn: "p \<noteq> Suc n" "p \<noteq> Suc (js_next st)" using below n by auto
  have str: "arena_str (c_str key) = Inr key" using key by (simp add: c_str_id arena_str_def)
  note defs = json_dict_append_def dict_link_def copy_val_def update_tags_def new_val_def kv_cell_def
    val_at_def deref_def set_info_def set_val_def st'_def m_def n Let_def stored_def with_copy_def
  have nes: "n \<notin> set es" using below by auto
  have eq: "json_dict_append st p key v reference = Inr st'"
  proof (cases "es = []")
    case True
    then show ?thesis using info jv w pn str by (simp add: defs)
  next
    case False
    have "hd0 es \<noteq> 0" using dchain_hd0 [OF ch] False by simp
    moreover have "hd0 (es @ [n]) = hd0 es" using False by (cases es) auto
    moreover have "last es \<noteq> n" using nes False by auto
    moreover have "t = last es" using info False by simp
    ultimately show ?thesis
      using info jv dchain_last [OF ch False] False w pn str by (auto simp: defs fun_upd_twist)
  qed
  have "list_at st' p JsonTag_Dict i (es @ [n])"
    using jv pn by (auto simp: list_at_def st'_def intro: sz_is_incr)
  moreover have "dchain st' (es @ [n]) (ks @ [kv_cell reference n]) (kvs @ [(key, stored reference v n)])"
  proof (rule dchain_append [OF ch d nes])
    show "\<forall>x \<in> set (butlast es). js_delems st' x = js_delems st x"
    proof
      fix x assume x: "x \<in> set (butlast es)"
      then have "x \<noteq> last es" "x \<noteq> n"
        using butlast_not_last [OF d x] in_set_butlastD [OF x] nes by auto
      then show "js_delems st' x = js_delems st x" by (simp add: st'_def m_def)
    qed
    show "js_delems st' (last es) = Some \<lparr>de_key_value = last ks, de_next = n\<rparr>" if "es \<noteq> []"
      using that nes by (auto simp: st'_def m_def)
  qed (use below in \<open>auto simp: st'_def kv_cell_def\<close>)
  moreover have "agree st st' ({..<n} - ({p, i} \<union> set es))"
    by (auto simp: agree_def st'_def m_def with_copy_def kv_cell_def)
  moreover have "\<not> reference \<longrightarrow> js_vals st' (n + 1) = Some w"
    using pn by (simp add: st'_def with_copy_def)
  ultimately show ?thesis using eq by (auto simp: st'_def)
qed

lemma json_dict_append_spec:
  assumes dict: "repr st p (JDict kxs) F" and val: "repr st v x G" and apart: "F \<inter> G = {}"
    and below: "F \<union> G \<subseteq> {..<js_next st}" and key: "0 \<notin> set key" "length key < STRING_BLOCK"
  shows "\<exists>st' H. json_dict_append st p key v reference = Inr st' \<and> repr st' p (JDict (kxs @ [(key, x)])) H \<and>
    H \<subseteq> F \<union> G \<union> {js_next st..<js_next st'} \<and> agree st st' ({..<js_next st} - F) \<and>
    js_next st < js_next st'"
proof -
  define n where "n = js_next st"
  from dict obtain i es ks vs E where
    F: "F = {p, i} \<union> set es \<union> set ks \<union> E" "list_at st p JsonTag_Dict i es"
      "dchain st es ks (zip (map fst kxs) vs)" "distinct es" "distinct ks" "reprs st vs (map snd kxs) E"
      "\<forall>k \<in> fst ` set kxs. 0 \<notin> set k" "({p, i} \<union> set es \<union> set ks) \<inter> E = {}"
    by (auto elim: repr_dictE)
  obtain w where w: "js_vals st v = Some w" using repr_val [OF val] by blast
  have v: "0 < v" using repr_pos [OF val] by simp
  have own: "{p, i} \<union> set es \<union> set ks \<subseteq> {..<n}" using below F(1) by (auto simp: n_def)
  define k where "k = kv_cell reference n"
  obtain st' where st': "json_dict_append st p key v reference = Inr st'" "list_at st' p JsonTag_Dict i (es @ [n])"
      "dchain st' (es @ [n]) (ks @ [k]) (zip (map fst kxs) vs @ [(key, stored reference v n)])"
      "agree st st' ({..<n} - ({p, i} \<union> set es))"
      "js_next st' = k + 1" "\<not> reference \<longrightarrow> js_vals st' (n + 1) = Some w"
    using dict_append_chain [OF F(2,3,4) own n_def w v key] unfolding k_def by blast
  have agE: "agree st st' E" and agG: "agree st st' G"
    using st'(4) F below apart by (auto intro!: agree_mono [OF st'(4)] simp: n_def)
  have nk: "n + (if reference then 1 else 2) \<le> k" "n < k" by (simp_all add: k_def kv_cell_def)
  obtain K where K: "repr st' (stored reference v n) x K" "K \<subseteq> G \<union> {n + 1..<k}"
    using stored_repr [OF val w agG _ nk(1) st'(6)] below by (auto simp: n_def)
  have len: "length (map fst kxs) = length vs" using reprs_length [OF F(6)] by simp
  have zip: "zip (map fst (kxs @ [(key, x)])) (vs @ [stored reference v n]) =
      zip (map fst kxs) vs @ [(key, stored reference v n)]" using len by simp
  have "reprs st' (vs @ [stored reference v n]) (map snd (kxs @ [(key, x)])) (E \<union> K)"
    using reprs_append [OF repr_frame(2) [OF F(6) agE] K(1)] by simp
  moreover have "distinct (es @ [n])" "distinct (ks @ [k])" using F(4,5) own nk by auto
  moreover have "\<forall>k \<in> fst ` set (kxs @ [(key, x)]). 0 \<notin> set k" using F(7) key(1) by auto
  moreover have "({p, i} \<union> set (es @ [n]) \<union> set (ks @ [k])) \<inter> (E \<union> K) = {}"
  proof -
    have "n \<notin> E" "n \<notin> K" "k \<notin> E" "k \<notin> K" using below F(1) K(2) nk by (force simp: n_def)+
    moreover have "({p, i} \<union> set es \<union> set ks) \<inter> K = {}" using K(2) own apart F(1) by fastforce
    ultimately show ?thesis using F(8) by auto
  qed
  ultimately have "repr st' p (JDict (kxs @ [(key, x)])) ({p, i} \<union> set (es @ [n]) \<union> set (ks @ [k]) \<union> (E \<union> K))"
    using repr_dict [OF st'(2)] st'(3) zip by metis
  moreover have "{p, i} \<union> set (es @ [n]) \<union> set (ks @ [k]) \<union> (E \<union> K) \<subseteq> F \<union> G \<union> {n..<js_next st'}"
    using K(2) F(1) st'(5) nk by auto
  moreover have "agree st st' ({..<n} - F)" using F(1) by (auto intro: agree_mono [OF st'(4)])
  moreover have "n < js_next st'" using st'(5) nk by simp
  ultimately show ?thesis using st'(1) unfolding n_def by blast
qed

end
