(* ===== verification/JsonParser.thy ===== *)
theory JsonParser
  imports JsonDoc Fmt
begin

text \<open>
  The recursive-descent parser of \<^verbatim>\<open>json.c\<close>. The parser's position in its input is the
  list of bytes not yet read; reading at the position is guarded by the length test everywhere but in
  the second pass over a string, which is modelled with its own bounds. A parse function returns a
  pointer into the store, or rejects the input (a \<^verbatim>\<open>NULL\<close> result, with the error code set on
  the way if there is one). The recursion carries fuel; \<open>json_parse\<close> gives enough for any input.
\<close>

subsection \<open>Outcomes\<close>

datatype json_error = JsonNoError | JsonExpectedKey | JsonExpectedColon

type_synonym 'a outcome = "json_error + 'a"

type_synonym 'a parse = "('a outcome) run"

definition accept :: "'a \<Rightarrow> 'a parse" where "accept x = Some (Inr (Inr x))"

definition reject :: "json_error \<Rightarrow> 'a parse" where "reject e = Some (Inr (Inl e))"

definition ub :: "ub \<Rightarrow> 'a parse" where "ub e = Some (Inl e)"

definition parse_bind :: "'a parse \<Rightarrow> ('a \<Rightarrow> 'b parse) \<Rightarrow> 'b parse" where
  "parse_bind r f = run_bind r (\<lambda>x. case x of Inl e \<Rightarrow> reject e | Inr y \<Rightarrow> f y)"

lemma parse_bind_simps [simp]:
  "parse_bind (accept x) f = f x"
  "parse_bind (reject e) f = reject e"
  "parse_bind (ub u) f = ub u"
  "parse_bind None f = None"
  by (simp_all add: parse_bind_def accept_def reject_def ub_def)

definition of_res :: "'a res \<Rightarrow> 'a parse" where
  "of_res r = (case r of Inl e \<Rightarrow> ub e | Inr x \<Rightarrow> accept x)"

lemma of_res_simps [simp]: "of_res (Inr x) = accept x" "of_res (Inl e) = ub e"
  by (simp_all add: of_res_def)

lemma parse_cases [case_names diverge ub reject accept]:
  fixes r :: "'a parse"
  obtains "r = None" | e where "r = ub e" | e where "r = reject e" | x where "r = accept x"
proof (cases r)
  case (Some x)
  then show ?thesis
    by (cases x; cases "projr x") (auto simp: ub_def reject_def accept_def intro: that)
qed (auto intro: that)

lemma parse_distinct [simp]:
  "accept x \<noteq> reject e" "accept x \<noteq> ub u" "accept x \<noteq> None" "reject e \<noteq> accept x" "reject e \<noteq> ub u"
  "reject e \<noteq> None" "ub u \<noteq> accept x" "ub u \<noteq> reject e" "ub u \<noteq> None" "None \<noteq> accept x" "None \<noteq> reject e"
  "None \<noteq> ub u" "accept x = accept y \<longleftrightarrow> x = y" "ub u = ub v \<longleftrightarrow> u = v"
  by (simp_all add: accept_def reject_def ub_def)

lemma parse_bind_accept_iff:
  "parse_bind r f = accept y \<longleftrightarrow> (\<exists>x. r = accept x \<and> f x = accept y)"
  by (cases r rule: parse_cases) auto

subsection \<open>White space and strings\<close>

text \<open>\<^verbatim>\<open>p->pos < p->len && p->str[p->pos] == c\<close>\<close>

definition next_is :: "u8 \<Rightarrow> bytes \<Rightarrow> bool" where
  "next_is c s \<longleftrightarrow> (case s of [] \<Rightarrow> False | x # _ \<Rightarrow> x = c)"

definition json_ws :: "u8 \<Rightarrow> bool" where
  "json_ws c \<longleftrightarrow> c = 32 \<or> c = 9 \<or> c = 10 \<or> c = 13"

fun json_skip_whitespace :: "bytes \<Rightarrow> bytes" where
  "json_skip_whitespace [] = []"
| "json_skip_whitespace (c # s) = (if json_ws c then json_skip_whitespace s else c # s)"

text \<open>
  The first pass over a string, after the opening quote: the number of bytes up to the closing
  quote, the length of the decoded string, and whether there is an escape. \<open>None\<close> is a rejection.
\<close>

fun string_scan :: "bytes \<Rightarrow> (nat \<times> nat \<times> bool) option" where
  "string_scan [] = None"
| "string_scan (c # s) =
     (if c = 34 then Some (0, 0, False)
      else if c = 92 then
        (case s of
           [] \<Rightarrow> None
         | escape # s' \<Rightarrow>
             if escape = 117 then
               (if length s \<le> 4 then None
                else map_option (\<lambda>(k, len, _). (k + 6, len + 1, True)) (string_scan (drop 4 s')))
             else map_option (\<lambda>(k, len, _). (k + 2, len + 1, True)) (string_scan s'))
      else if c < 0x20 then None
      else map_option (\<lambda>(k, len, e). (k + 1, len + 1, e)) (string_scan s))"

definition unescape :: "u8 \<Rightarrow> u8 list" where
  "unescape c =
     (if c = 34 then [34] else if c = 92 then [92] else if c = 47 then [47]
      else if c = 98 then [8] else if c = 102 then [12] else if c = 110 then [10]
      else if c = 114 then [13] else if c = 116 then [9] else [])"

text \<open>
  The second pass, over the \<open>k\<close> bytes left before the closing quote; it may read beyond them
  after a backslash.
\<close>

function string_decode :: "nat \<Rightarrow> bytes \<Rightarrow> bytes res" where
  "string_decode k s =
     (if k = 0 then Inr []
      else
        (case s of
           [] \<Rightarrow> Inl OutOfBounds
         | c # s \<Rightarrow>
             if c = 92 then
               (case s of
                  [] \<Rightarrow> Inl OutOfBounds
                | e # s \<Rightarrow>
                    if e = 117 then res_bind (string_decode (k - 6) (drop 4 s)) (\<lambda>t. Inr (63 # t))
                    else res_bind (string_decode (k - 2) s) (\<lambda>t. Inr (unescape e @ t)))
             else res_bind (string_decode (k - 1) s) (\<lambda>t. Inr (c # t))))"
  by pat_completeness auto
termination by (relation "measure fst") auto

declare string_decode.simps [simp del]

text \<open>
  The value cell is not cleared: \<open>junk\<close> gives the tag word that fresh memory holds at an
  address, and only its flag bits are set. The decoded string is written into \<open>len + 1\<close> bytes of
  the string arena.
\<close>

definition json_parse_string :: "(nat \<Rightarrow> u64) \<Rightarrow> bytes \<Rightarrow> jstore \<Rightarrow> (nat \<times> bytes \<times> jstore) parse" where
  "json_parse_string junk s st =
     (case s of
        [] \<Rightarrow> reject JsonNoError
      | c # s \<Rightarrow>
          if c \<noteq> 34 then reject JsonNoError
          else
            (case string_scan s of
               None \<Rightarrow> reject JsonNoError
             | Some (k, len, has_escape) \<Rightarrow>
                 parse_bind
                   (if has_escape then of_res (string_decode k s) else accept (take len s))
                   (\<lambda>str.
                     if length str > len then ub OutOfBounds
                     else
                       parse_bind (of_res (arena_str str)) (\<lambda>str.
                         case new_val st \<lparr>jv_tags = json_set_tags (junk (js_next st)) JsonTag_Str, jv_value = UStr str\<rparr> of
                           (value, st) \<Rightarrow> accept (value, drop (k + 1) s, st)))))"

subsection \<open>Numbers\<close>

text \<open>The argument of \<^verbatim>\<open>is_digit\<close> is a signed \<^verbatim>\<open>char\<close> converted to unsigned.\<close>

definition is_digit :: "u32 \<Rightarrow> bool" where
  "is_digit c \<longleftrightarrow> c - 48 < 10"

definition digit_at :: "bytes \<Rightarrow> bool" where
  "digit_at s = (case s of [] \<Rightarrow> False | c # _ \<Rightarrow> is_digit (scast c))"

definition digit_val :: "u8 \<Rightarrow> int" where
  "digit_val c = sint c - 48"

definition POW10_TABLE_SIZE :: nat where "POW10_TABLE_SIZE = 23"

definition POW10_INT_TABLE_SIZE :: nat where "POW10_INT_TABLE_SIZE = 20"

definition pow10_table :: "dops \<Rightarrow> int \<Rightarrow> u64 res" where
  "pow10_table D k = (if 0 \<le> k \<and> k < int POW10_TABLE_SIZE then Inr (d_lit D 1 k) else Inl OutOfBounds)"

text \<open>The digits before the point, read as a signed 64-bit integer and as a double.\<close>

fun number_int :: "dops \<Rightarrow> int \<Rightarrow> u64 \<Rightarrow> bytes \<Rightarrow> (int \<times> u64 \<times> bytes) res" where
  "number_int D int_val float_val [] = Inr (int_val, float_val, [])"
| "number_int D int_val float_val (c # s) =
     (if is_digit (scast c) then
        let int_val' = int_val * 10 + digit_val c
        in if int_val' > 2 ^ 63 - 1 then Inl SignedOverflow
           else number_int D int_val'
                  (d_add D (d_mul D float_val (d_lit D 10 0)) (d_lit D (digit_val c) 0)) s
      else Inr (int_val, float_val, c # s))"

text \<open>At most twenty digits behind the point are read, in wrapping arithmetic; the others are skipped.\<close>

fun number_frac :: "nat \<Rightarrow> u64 \<Rightarrow> bytes \<Rightarrow> nat \<times> u64 \<times> bytes" where
  "number_frac frac_digits frac_int [] = (frac_digits, frac_int, [])"
| "number_frac frac_digits frac_int (c # s) =
     (if is_digit (scast c) \<and> frac_digits < POW10_INT_TABLE_SIZE
      then number_frac (frac_digits + 1) (frac_int * 10 + of_int (digit_val c)) s
      else (frac_digits, frac_int, c # s))"

fun number_exp :: "int \<Rightarrow> bytes \<Rightarrow> (int \<times> bytes) res" where
  "number_exp exponent [] = Inr (exponent, [])"
| "number_exp exponent (c # s) =
     (if is_digit (scast c) then
        let exponent' = exponent * 10 + digit_val c
        in if exponent' > 2 ^ 31 - 1 then Inl SignedOverflow else number_exp exponent' s
      else Inr (exponent, c # s))"

definition number_fraction :: "dops \<Rightarrow> u64 \<Rightarrow> bytes \<Rightarrow> (bool \<times> u64 \<times> bytes) parse" where
  "number_fraction D float_val s =
     (if next_is 46 s then
        let s = tl s
        in if \<not> digit_at s then reject JsonNoError
          else
            (case number_frac 0 0 s of (frac_digits, frac_int, s) \<Rightarrow>
               let s = dropWhile (\<lambda>c. is_digit (scast c)) s
               in parse_bind
                    (if 0 < frac_digits \<and> frac_digits < POW10_TABLE_SIZE
                     then of_res (res_bind (pow10_table D (int frac_digits)) (\<lambda>t.
                            Inr (d_div D (d_of_u64 D frac_int) t)))
                     else if 0 < frac_digits
                     then accept (d_div D (d_of_u64 D frac_int) (d_pow D (d_lit D 1 1) (int frac_digits)))
                     else accept (d_lit D 0 0))
                    (\<lambda>fraction. accept (True, d_add D float_val fraction, s)))
      else accept (False, float_val, s))"

definition number_exponent :: "bytes \<Rightarrow> (bool \<times> bool \<times> int \<times> bytes) parse" where
  "number_exponent s =
     (case s of
        [] \<Rightarrow> accept (False, False, 0, s)
      | c # s' \<Rightarrow>
          if c = 101 \<or> c = 69 then
            let (exp_negative, s) =
                  (case s' of [] \<Rightarrow> (False, s')
                   | c # s'' \<Rightarrow> if c = 45 then (True, s'') else if c = 43 then (False, s'') else (False, s'))
            in if \<not> digit_at s then reject JsonNoError
               else parse_bind (of_res (number_exp 0 s)) (\<lambda>(exponent, s).
                      accept (True, exp_negative, exponent, s))
          else accept (False, False, 0, s))"

definition number_scale :: "dops \<Rightarrow> u64 \<Rightarrow> int \<Rightarrow> u64 res" where
  "number_scale D float_val exponent =
     (if exponent \<ge> - int POW10_TABLE_SIZE \<and> exponent < int POW10_TABLE_SIZE then
        if exponent \<ge> 0
        then res_bind (pow10_table D exponent) (\<lambda>t. Inr (d_mul D float_val t))
        else res_bind (pow10_table D (- exponent)) (\<lambda>t. Inr (d_div D float_val t))
      else Inr (d_mul D float_val (d_pow D (d_lit D 1 1) exponent)))"

definition number_finish :: "dops \<Rightarrow> bool \<Rightarrow> int \<Rightarrow> u64 \<Rightarrow> bytes \<Rightarrow> jstore \<Rightarrow> (nat \<times> bytes \<times> jstore) parse" where
  "number_finish D is_negative int_val float_val s st =
     parse_bind (number_fraction D float_val s) (\<lambda>(is_frac, float_val, s).
     parse_bind (number_exponent s) (\<lambda>(is_exp, exp_negative, exponent, s).
       if is_frac \<or> is_exp then
         parse_bind (of_res (number_scale D float_val (if exp_negative then - exponent else exponent)))
           (\<lambda>float_val.
             case json_f64_new st (if is_negative then d_neg D float_val else float_val) of
               (value, st) \<Rightarrow> accept (value, s, st))
       else if is_negative then
         (case json_i64_new st (of_int (- int_val)) of (value, st) \<Rightarrow> accept (value, s, st))
       else
         (case json_u64_new st (of_int int_val) of (value, st) \<Rightarrow> accept (value, s, st))))"

definition json_parse_number :: "dops \<Rightarrow> bytes \<Rightarrow> jstore \<Rightarrow> (nat \<times> bytes \<times> jstore) parse" where
  "json_parse_number D s st =
     (let is_negative = next_is 45 s; s = (if is_negative then tl s else s)
      in if \<not> digit_at s then reject JsonNoError
         else parse_bind (of_res (number_int D 0 (d_lit D 0 0) s)) (\<lambda>(int_val, float_val, s).
                number_finish D is_negative int_val float_val s st))"

subsection \<open>Literals\<close>

definition json_parse_literal :: "bytes \<Rightarrow> jstore \<Rightarrow> (nat \<times> bytes \<times> jstore) parse" where
  "json_parse_literal s st =
     (if 4 \<le> length s \<and> take 4 s = map of_char ''null'' then
        (case json_null_new st of (value, st) \<Rightarrow> accept (value, drop 4 s, st))
      else if 4 \<le> length s \<and> take 4 s = map of_char ''true'' then
        (case json_bool_new st True of (value, st) \<Rightarrow> accept (value, drop 4 s, st))
      else if 5 \<le> length s \<and> take 5 s = map of_char ''false'' then
        (case json_bool_new st False of (value, st) \<Rightarrow> accept (value, drop 5 s, st))
      else reject JsonNoError)"

subsection \<open>Values, arrays and dictionaries\<close>

definition c_isdigit :: "u8 \<Rightarrow> bool" where
  "c_isdigit c \<longleftrightarrow> 48 \<le> c \<and> c \<le> 57"

text \<open>
  The loops of \<^verbatim>\<open>json_parse_array\<close> and \<^verbatim>\<open>parse_dict\<close> are functions of their own; an
  iteration and a nested value take one unit of fuel each.
\<close>

function json_parse_value :: "dops \<Rightarrow> (nat \<Rightarrow> u64) \<Rightarrow> nat \<Rightarrow> bytes \<Rightarrow> jstore \<Rightarrow> (nat \<times> bytes \<times> jstore) parse"
  and json_parse_array :: "dops \<Rightarrow> (nat \<Rightarrow> u64) \<Rightarrow> nat \<Rightarrow> bytes \<Rightarrow> jstore \<Rightarrow> (nat \<times> bytes \<times> jstore) parse"
  and parse_array_loop :: "dops \<Rightarrow> (nat \<Rightarrow> u64) \<Rightarrow> nat \<Rightarrow> nat \<Rightarrow> bytes \<Rightarrow> jstore \<Rightarrow> (nat \<times> bytes \<times> jstore) parse"
  and parse_dict :: "dops \<Rightarrow> (nat \<Rightarrow> u64) \<Rightarrow> nat \<Rightarrow> bytes \<Rightarrow> jstore \<Rightarrow> (nat \<times> bytes \<times> jstore) parse"
  and parse_dict_loop :: "dops \<Rightarrow> (nat \<Rightarrow> u64) \<Rightarrow> nat \<Rightarrow> nat \<Rightarrow> bytes \<Rightarrow> jstore \<Rightarrow> (nat \<times> bytes \<times> jstore) parse"
  where
  "json_parse_value D junk fuel s st =
     (case fuel of
        0 \<Rightarrow> None
      | Suc n \<Rightarrow>
          (case json_skip_whitespace s of
             [] \<Rightarrow> reject JsonNoError
           | c # s' \<Rightarrow>
               if c = 34 then json_parse_string junk (c # s') st
               else if c = 123 then parse_dict D junk n (c # s') st
               else if c = 91 then json_parse_array D junk n (c # s') st
               else if c = 45 \<or> c_isdigit c then json_parse_number D (c # s') st
               else if c = 116 \<or> c = 102 \<or> c = 110 then json_parse_literal (c # s') st
               else reject JsonNoError))"
| "json_parse_array D junk n s st =
     (case s of
        [] \<Rightarrow> reject JsonNoError
      | c # s \<Rightarrow>
          if c \<noteq> 91 then reject JsonNoError
          else
            (case json_array_new st of (arr, st) \<Rightarrow>
             let s = json_skip_whitespace s
             in if next_is 93 s then accept (arr, tl s, st) else parse_array_loop D junk n arr s st))"
| "parse_array_loop D junk fuel arr s st =
     (case fuel of
        0 \<Rightarrow> None
      | Suc n \<Rightarrow>
          if s = [] then reject JsonNoError
          else
            parse_bind (json_parse_value D junk n s st) (\<lambda>(element, s, st).
            parse_bind (of_res (json_array_append st arr element True)) (\<lambda>st.
              case json_skip_whitespace s of
                [] \<Rightarrow> reject JsonNoError
              | c # s \<Rightarrow>
                  if c = 44 then parse_array_loop D junk n arr (json_skip_whitespace s) st
                  else if c = 93 then accept (arr, s, st)
                  else reject JsonNoError)))"
| "parse_dict D junk n s st =
     (case s of
        [] \<Rightarrow> reject JsonNoError
      | c # s \<Rightarrow>
          if c \<noteq> 123 then reject JsonNoError
          else
            (case json_dict_new st of (dict, st) \<Rightarrow>
             let s = json_skip_whitespace s
             in if next_is 125 s then accept (dict, tl s, st) else parse_dict_loop D junk n dict s st))"
| "parse_dict_loop D junk fuel dict s st =
     (case fuel of
        0 \<Rightarrow> None
      | Suc n \<Rightarrow>
          if s = [] then reject JsonNoError
          else
            (case json_skip_whitespace s of
               [] \<Rightarrow> reject JsonExpectedKey
             | c # s \<Rightarrow>
                 if c \<noteq> 34 then reject JsonExpectedKey
                 else
                   parse_bind (json_parse_string junk (c # s) st) (\<lambda>(key_val, s, st).
                   parse_bind (of_res (json_str_get st key_val)) (\<lambda>key.
                     case json_skip_whitespace s of
                       [] \<Rightarrow> reject JsonExpectedColon
                     | c # s \<Rightarrow>
                         if c \<noteq> 58 then reject JsonExpectedColon
                         else
                           parse_bind (json_parse_value D junk n (json_skip_whitespace s) st) (\<lambda>(value, s, st).
                           parse_bind (case key of None \<Rightarrow> ub NullDeref
                                       | Some key \<Rightarrow> of_res (json_dict_append st dict key value True)) (\<lambda>st.
                             case json_skip_whitespace s of
                               [] \<Rightarrow> reject JsonNoError
                             | c # s \<Rightarrow>
                                 if c = 44 then parse_dict_loop D junk n dict (json_skip_whitespace s) st
                                 else if c = 125 then accept (dict, s, st)
                                 else reject JsonNoError))))))"
  by pat_completeness auto
termination
  by (relation "measure (\<lambda>x. case x of
        Inl (Inl (D, junk, n, s, st)) \<Rightarrow> 2 * n
      | Inl (Inr (D, junk, n, s, st)) \<Rightarrow> 2 * n + 1
      | Inr (Inl (D, junk, n, arr, s, st)) \<Rightarrow> 2 * n
      | Inr (Inr (Inl (D, junk, n, s, st))) \<Rightarrow> 2 * n + 1
      | Inr (Inr (Inr (D, junk, n, dict, s, st))) \<Rightarrow> 2 * n)") auto

declare json_parse_value.simps [simp del] json_parse_array.simps [simp del] parse_array_loop.simps [simp del]
  parse_dict.simps [simp del] parse_dict_loop.simps [simp del]

text \<open>
  \<^verbatim>\<open>json_parse\<close>, on an input that is not \<^verbatim>\<open>NULL\<close>: the document, or a rejection.
\<close>

definition json_parse :: "dops \<Rightarrow> (nat \<Rightarrow> u64) \<Rightarrow> bytes \<Rightarrow> jstore parse" where
  "json_parse D junk str =
     (if str = [] then reject JsonNoError
      else
        parse_bind (json_parse_value D junk (2 * length str + 1) str json_new) (\<lambda>(root, s, st).
          if json_skip_whitespace s \<noteq> [] then reject JsonNoError else accept (json_set_root st root)))"

definition json_loads :: "dops \<Rightarrow> (nat \<Rightarrow> u64) \<Rightarrow> bytes \<Rightarrow> jstore parse" where
  "json_loads D junk str = json_parse D junk str"

end
