(* ===== verification/JsonSound.thy ===== *)
theory JsonSound
  imports JsonParser
begin

text \<open>
  What the parser guarantees on every input: it returns, it never goes through a null pointer, and
  a value it accepts stands for a tree built from new cells only.
\<close>

subsection \<open>Strings\<close>

lemma length_skip_whitespace: "length (json_skip_whitespace s) \<le> length s"
  by (induction s) auto

text \<open>
  The second pass over a string stays in step with the first: it reads only the bytes the first
  pass accepted and fits into the space it measured.
\<close>

lemma unescape_props: "length (unescape c) \<le> 1" "0 \<notin> set (unescape c)"
  by (auto simp: unescape_def)

lemma string_scan_decode:
  "string_scan s = Some (k, len, e) \<Longrightarrow>
    \<exists>t. string_decode k s = Inr t \<and> length t \<le> len \<and> 0 \<notin> set t \<and> k < length s \<and> s ! k = 34 \<and>
      (\<not> e \<longrightarrow> k = len \<and> t = take len s)"
proof (induction s arbitrary: k len e rule: string_scan.induct)
  case (2 c s)
  show ?case
  proof (cases "c = 34")
    case True
    then show ?thesis using "2.prems" by (auto simp: string_decode.simps)
  next
    case q: False
    show ?thesis
    proof (cases "c = 92")
      case True
      then obtain x s' where s: "s = x # s'" using "2.prems" q by (cases s) auto
      show ?thesis
      proof (cases "x = 117")
        case u: True
        then obtain k' len' e' where r: "string_scan (drop 4 s') = Some (k', len', e')" "k = k' + 6" "len = len' + 1" "e"
          using "2.prems" q True s by (auto split: if_splits)
        have "\<not> length s \<le> 4" using "2.prems" q True s u by (auto split: if_splits)
        then obtain t where t: "string_decode k' (drop 4 s') = Inr t" "length t \<le> len'" "0 \<notin> set t"
            "k' < length (drop 4 s')" "drop 4 s' ! k' = 34"
          using "2.IH"(1) [OF q True s u _ r(1)] by auto
        have "string_decode k (c # s) = Inr (63 # t)"
          using t(1) r(2) by (subst string_decode.simps) (simp add: True s u)
        moreover have "(0 :: u8) \<noteq> 63" by simp
        then have "0 \<notin> set (63 # t)" using t(3) by (simp only: list.set insert_iff) simp
        moreover have "(c # s) ! k = 34" "k < length (c # s)" "length (63 # t) \<le> len"
          using t r s by (auto simp: less_diff_conv add.commute)
        ultimately show ?thesis using r(4) by blast
      next
        case u: False
        then obtain k' len' e' where r: "string_scan s' = Some (k', len', e')" "k = k' + 2" "len = len' + 1" "e"
          using "2.prems" q True s by auto
        then obtain t where t: "string_decode k' s' = Inr t" "length t \<le> len'" "0 \<notin> set t" "k' < length s'" "s' ! k' = 34"
          using "2.IH"(2) [OF q True s u r(1)] by auto
        have "string_decode k (c # s) = Inr (unescape x @ t)"
          using t(1) r(2) u by (subst string_decode.simps) (simp add: True s)
        then show ?thesis using t r s True unescape_props [of x] by auto
      qed
    next
      case False
      then obtain k' len' where r: "string_scan s = Some (k', len', e)" "k = k' + 1" "len = len' + 1" "\<not> c < 0x20"
        using "2.prems" q by (auto split: if_splits)
      then obtain t where t: "string_decode k' s = Inr t" "length t \<le> len'" "0 \<notin> set t" "k' < length s" "s ! k' = 34"
          "\<not> e \<longrightarrow> k' = len' \<and> t = take len' s"
        using "2.IH"(3) [OF q False r(4,1)] by auto
      have "string_decode k (c # s) = Inr (c # t)"
        using t(1) r(2) False by (subst string_decode.simps) simp
      moreover have "c \<noteq> 0" using r(4) by auto
      ultimately show ?thesis using t r by auto
    qed
  qed
qed simp

lemma json_str_get_cell: "cell st p JsonTag_Str (UStr t) \<Longrightarrow> json_str_get st p = Inr (Some t)"
  using tag_is_test_zero [of _ JsonTag_Str JsonTag_Str]
  by (auto simp: cell_def json_str_get_def val_at_def deref_def u_str_def)

definition parsed_str :: "bytes \<Rightarrow> jstore \<Rightarrow> nat \<times> bytes \<times> jstore \<Rightarrow> bytes \<Rightarrow> bool" where
  "parsed_str s st r t \<longleftrightarrow> (case r of (p, s', st') \<Rightarrow>
     p = js_next st \<and> js_next st' = p + 1 \<and> grows st st' \<and> repr st' p (JStr t) {p} \<and>
     json_str_get st' p = Inr (Some t) \<and> length t < STRING_BLOCK \<and> 0 \<notin> set t \<and> length s' < length s)"

lemma json_parse_string_scan:
  assumes scan: "string_scan s = Some (k, len, e)" and dec: "string_decode k s = Inr t" and pos: "0 < js_next st"
  shows "if length t < STRING_BLOCK
    then \<exists>p st'. json_parse_string junk (34 # s) st = accept (p, drop (k + 1) s, st') \<and>
      parsed_str (34 # s) st (p, drop (k + 1) s, st') t
    else json_parse_string junk (34 # s) st = ub OutOfBounds"
proof -
  from string_scan_decode [OF scan] dec
  have t: "length t \<le> len" "0 \<notin> set t" "k < length s" "\<not> e \<longrightarrow> k = len \<and> t = take len s" by auto
  define v where "v = \<lparr>jv_tags = json_set_tags (junk (js_next st)) JsonTag_Str, jv_value = UStr t\<rparr>"
  obtain p st' where new: "new_val st v = (p, st')" by (cases "new_val st v") auto
  have "(if e then of_res (string_decode k s) else accept (take len s)) = accept t" using dec t(4) by simp
  then have eq: "json_parse_string junk (34 # s) st =
      (if length t < STRING_BLOCK then accept (p, drop (k + 1) s, st') else ub OutOfBounds)"
    using scan t(1) new by (auto simp: json_parse_string_def arena_str_def v_def)
  have "cell st' p JsonTag_Str (UStr t)"
    using new_val_cell [OF new pos] by (simp add: v_def tag_is_set_tags)
  then have "parsed_str (34 # s) st (p, drop (k + 1) s, st') t" if "length t < STRING_BLOCK"
    using new_val_grows [OF new] t that
    by (auto simp: parsed_str_def json_str_get_cell intro: repr_reprs.repr_str)
  then show ?thesis using eq by auto
qed

lemma json_parse_string_cases:
  assumes "0 < js_next st"
  obtains "json_parse_string junk s st = reject JsonNoError" | "json_parse_string junk s st = ub OutOfBounds"
  | r t where "json_parse_string junk s st = accept r" "parsed_str s st r t"
proof (cases "next_is 34 s \<and> string_scan (tl s) \<noteq> None")
  case True
  then obtain s' k len e where s: "s = 34 # s'" "string_scan s' = Some (k, len, e)"
    by (auto simp: next_is_def split: list.splits)
  then obtain t where "string_decode k s' = Inr t" using string_scan_decode by blast
  from json_parse_string_scan [OF s(2) this assms, of junk] show ?thesis
    using that s(1) by (auto split: if_splits)
next
  case False
  then have "json_parse_string junk s st = reject JsonNoError"
    by (auto simp: json_parse_string_def next_is_def split: list.splits option.splits)
  then show ?thesis by (rule that(1))
qed

subsection \<open>Numbers and literals\<close>

lemma mod_below:
  fixes x m :: int
  assumes "- m \<le> x" "x < m"
  shows "x mod m = (if 0 \<le> x then x else x + m)"
proof (cases "0 \<le> x")
  case False
  then have "(x + m) mod m = x + m" using assms by (intro mod_pos_pos_trivial) auto
  then show ?thesis using False by simp
qed (use assms in simp)

lemma sint_u8: "sint (c :: u8) = (if uint c < 128 then uint c else uint c - 256)"
proof -
  have u: "0 \<le> uint c" "uint c < 256" using uint_bounded [of c] by simp_all
  have "sint c = (uint c + 128) mod 256 - 128"
    by (simp add: sint_uint signed_take_bit_eq_take_bit_shift take_bit_eq_mod)
  moreover have "(uint c + 128) mod 256 = (uint c + 128 - 256) mod 256" by (simp only: minus_mod_self2)
  moreover have "(uint c + 128 - 256) mod 256 = (if 0 \<le> uint c + 128 - 256 then uint c + 128 - 256 else uint c + 128 - 256 + 256)"
    by (rule mod_below) (use u in auto)
  ultimately show ?thesis by (auto split: if_splits)
qed

lemma is_digit_iff: "is_digit (scast (c :: u8)) \<longleftrightarrow> 48 \<le> c \<and> c \<le> 57"
proof -
  have u: "0 \<le> uint c" "uint c < 256" using uint_bounded [of c] by simp_all
  have "uint (scast c :: u32) = sint c mod 2 ^ 32" by (simp only: scast_eq uint_word_of_int) simp
  moreover have "uint (scast c - 48 :: u32) = (uint (scast c :: u32) - uint (48 :: u32)) mod 2 ^ LENGTH(32)"
    by (rule uint_word_ariths(2))
  ultimately have "uint (scast c - 48 :: u32) = (sint c - 48) mod 2 ^ 32"
    by (simp add: mod_diff_left_eq)
  also have "\<dots> = (if 0 \<le> sint c - 48 then sint c - 48 else sint c - 48 + 2 ^ 32)"
    by (rule mod_below) (use u in \<open>auto simp: sint_u8\<close>)
  finally have *: "is_digit (scast c) \<longleftrightarrow> (if 0 \<le> sint c - 48 then sint c - 48 else sint c - 48 + 2 ^ 32) < 10"
    by (simp add: is_digit_def word_less_alt)
  define x where "x = uint c"
  have "0 \<le> x" "x < 256" using u by (simp_all add: x_def)
  then have "is_digit (scast c) \<longleftrightarrow> 48 \<le> uint c \<and> uint c \<le> 57"
    unfolding * sint_u8 x_def [symmetric] by (auto split: if_splits)
  then show ?thesis by (simp add: word_le_def)
qed

text \<open>
  \<open>parse_ok s st r\<close>: \<open>r\<close> is a good outcome of parsing a value from \<open>s\<close>.
\<close>

definition parse_ok :: "bytes \<Rightarrow> jstore \<Rightarrow> (nat \<times> bytes \<times> jstore) parse \<Rightarrow> bool" where
  "parse_ok s st r \<longleftrightarrow> r \<noteq> None \<and> r \<noteq> ub NullDeref \<and> r \<noteq> ub WrongMember \<and>
     (\<forall>p s' st'. r = accept (p, s', st') \<longrightarrow> length s' < length s \<and> grows st st' \<and>
        (\<exists>j F. repr st' p j F \<and> F \<subseteq> {js_next st..<js_next st'}))"

lemma parse_ok_reject [simp]: "parse_ok s st (reject e)"
  by (simp add: parse_ok_def)

lemma parse_ok_ub [simp]: "parse_ok s st (ub OutOfBounds)" "parse_ok s st (ub SignedOverflow)"
  by (simp_all add: parse_ok_def)

lemma parse_ok_mono: "parse_ok t st r \<Longrightarrow> length t \<le> length s \<Longrightarrow> parse_ok s st r"
  unfolding parse_ok_def using order_less_le_trans by blast

lemma parse_ok_scalar:
  assumes "new_val st v = (p, st')" "repr st' p j {p}" "length s' < length s"
  shows "parse_ok s st (accept (p, s', st'))"
  using new_val_grows [OF assms(1)] assms(2,3) by (auto simp: parse_ok_def)

lemma parse_ok_string: "0 < js_next st \<Longrightarrow> parse_ok s st (json_parse_string junk s st)"
proof (rule json_parse_string_cases [of st junk s])
  fix r t assume "json_parse_string junk s st = accept r" "parsed_str s st r t"
  then show ?thesis by (fastforce simp: parse_ok_def parsed_str_def)
qed auto

lemma parse_ok_literal:
  assumes "0 < js_next st"
  shows "parse_ok s st (json_parse_literal s st)"
  using json_scalar_new_repr(1,2) [OF assms]
  by (auto simp: json_parse_literal_def json_null_new_def json_bool_new_def split: prod.splits
      intro!: parse_ok_scalar)

lemma number_int_cases:
  "number_int D v f s = Inl SignedOverflow \<or>
    (\<exists>v' f' s'. number_int D v f s = Inr (v', f', s') \<and> length s' \<le> length s \<and> (digit_at s \<longrightarrow> length s' < length s))"
proof (induction s arbitrary: v f)
  case (Cons c s)
  show ?case
    using Cons.IH [of "v * 10 + digit_val c"
        "d_add D (d_mul D f (d_lit D 10 0)) (d_lit D (digit_val c) 0)"]
    by (auto simp: Let_def digit_at_def)
qed (simp add: digit_at_def)

lemma number_frac_length: "number_frac k n s = (k', n', s') \<Longrightarrow> length s' \<le> length s"
  by (induction k n s arbitrary: k' n' s' rule: number_frac.induct) (fastforce split: if_splits)+

lemma number_exp_cases:
  "number_exp e s = Inl SignedOverflow \<or> (\<exists>e' s'. number_exp e s = Inr (e', s') \<and> length s' \<le> length s)"
  by (induction e s rule: number_exp.induct) (auto simp: Let_def)

lemma number_fraction_cases:
  "number_fraction D f s = reject JsonNoError \<or>
    (\<exists>b f' s'. number_fraction D f s = accept (b, f', s') \<and> length s' \<le> length s)"
proof (cases "next_is 46 s \<and> digit_at (tl s)")
  case True
  obtain k n s' where r: "number_frac 0 0 (tl s) = (k, n, s')" by (metis prod_cases3)
  have "length (dropWhile (\<lambda>c. is_digit (scast c)) s') \<le> length s"
    using number_frac_length [OF r] length_dropWhile_le [of _ s'] by (metis length_tl diff_le_self le_trans)
  then show ?thesis
    using True r by (auto simp: number_fraction_def pow10_table_def Let_def)
qed (auto simp: number_fraction_def)

lemma number_exponent_cases:
  "number_exponent s = reject JsonNoError \<or> number_exponent s = ub SignedOverflow \<or>
    (\<exists>b en e s'. number_exponent s = accept (b, en, e, s') \<and> length s' \<le> length s)"
proof (cases s)
  case (Cons c s1)
  obtain en s2 where s2: "(case s1 of [] \<Rightarrow> (False, s1)
      | c # s'' \<Rightarrow> if c = 45 then (True, s'') else if c = 43 then (False, s'') else (False, s1)) = (en, s2)"
    by fastforce
  then have "length s2 \<le> length s1" by (auto split: list.splits if_splits)
  then show ?thesis
    using number_exp_cases [of 0 s2] s2 by (auto simp: number_exponent_def Cons)
qed (fastforce simp: number_exponent_def)

lemma number_scale_cases: "number_scale D f e = Inl OutOfBounds \<or> (\<exists>f'. number_scale D f e = Inr f')"
  by (simp add: number_scale_def pow10_table_def)

lemma number_finish_ok:
  assumes "0 < js_next st" "length s1 < length s"
  shows "parse_ok s st (number_finish D neg v f s1 st)"
proof -
  have new: "parse_ok s st (case json_f64_new st n of (value, st) \<Rightarrow> accept (value, s2, st))"
      "parse_ok s st (case json_i64_new st n of (value, st) \<Rightarrow> accept (value, s2, st))"
      "parse_ok s st (case json_u64_new st n of (value, st) \<Rightarrow> accept (value, s2, st))"
    if "length s2 \<le> length s1" for n s2
    using that json_scalar_new_repr(3-5) [OF assms(1)] assms(2)
    by (auto simp: json_f64_new_def json_i64_new_def json_u64_new_def split: prod.splits intro!: parse_ok_scalar)
  consider "number_fraction D f s1 = reject JsonNoError"
    | b f2 s2 where "number_fraction D f s1 = accept (b, f2, s2)" "length s2 \<le> length s1"
    using number_fraction_cases [of D f s1] by blast
  then show ?thesis
  proof cases
    case 2
    consider "number_exponent s2 = reject JsonNoError" | "number_exponent s2 = ub SignedOverflow"
      | b' en e s3 where "number_exponent s2 = accept (b', en, e, s3)" "length s3 \<le> length s2"
      using number_exponent_cases [of s2] by blast
    then show ?thesis
    proof cases
      case 3
      show ?thesis
        using 2 3 new [of s3] number_scale_cases [of D f2 "if en then - e else e"]
        by (auto simp: number_finish_def)
    qed (simp_all add: number_finish_def 2)
  qed (simp add: number_finish_def)
qed

lemma parse_ok_number:
  assumes "0 < js_next st"
  shows "parse_ok s st (json_parse_number D s st)"
proof -
  define t where "t = (if next_is 45 s then tl s else s)"
  have lt: "length t \<le> length s" by (simp add: t_def)
  have eq: "json_parse_number D s st = (if \<not> digit_at t then reject JsonNoError
      else parse_bind (of_res (number_int D 0 (d_lit D 0 0) t)) (\<lambda>(int_val, float_val, s1).
        number_finish D (next_is 45 s) int_val float_val s1 st))"
    by (simp add: json_parse_number_def t_def Let_def)
  show ?thesis unfolding eq
    using number_int_cases [of D 0 "d_lit D 0 0" t] lt by (auto intro!: number_finish_ok [OF assms])
qed

subsection \<open>Arrays, dictionaries, values\<close>

text \<open>An array or a dictionary whose cells are not below \<open>b\<close>.\<close>

definition is_array :: "jstore \<Rightarrow> nat \<Rightarrow> nat \<Rightarrow> bool" where
  "is_array st p b \<longleftrightarrow> (\<exists>xs F. repr st p (JArray xs) F \<and> F \<subseteq> {b..<js_next st})"

definition is_dict :: "jstore \<Rightarrow> nat \<Rightarrow> nat \<Rightarrow> bool" where
  "is_dict st p b \<longleftrightarrow> (\<exists>kxs F. repr st p (JDict kxs) F \<and> F \<subseteq> {b..<js_next st})"

lemma append_apart:
  assumes "F \<subseteq> {b..<js_next st}" "G \<subseteq> {js_next st..<js_next st'}" "grows st st'"
  shows "F \<inter> G = {}" "F \<union> G \<subseteq> {..<js_next st'}" "F \<subseteq> {..<js_next st}"
  using assms by (fastforce simp: grows_def)+

lemma append_frame:
  assumes F: "F \<subseteq> {b..<js_next st}" "F \<noteq> {}" and G: "G \<subseteq> {js_next st..<js_next st1}" and gr: "grows st st1"
    and H: "H \<subseteq> F \<union> G \<union> {js_next st1..<js_next st2}" "js_next st1 < js_next st2"
    and ag: "agree st1 st2 ({..<js_next st1} - F)"
  shows "H \<subseteq> {b..<js_next st2}" "agree st st2 {..<b}" "js_next st \<le> js_next st2"
proof -
  have b: "b \<le> js_next st" "js_next st \<le> js_next st1" using F gr by (auto simp: grows_def)
  show "H \<subseteq> {b..<js_next st2}" using F G H b by fastforce
  have "agree st1 st2 {..<b}" by (rule agree_mono [OF ag]) (use F b in auto)
  moreover have "agree st st1 {..<b}" using gr b(1) by (auto simp: grows_def intro: agree_mono)
  ultimately show "agree st st2 {..<b}" by (rule agree_trans [rotated])
  show "js_next st \<le> js_next st2" using b H by simp
qed

lemma array_append_step:
  assumes "repr st p (JArray xs) F" "F \<subseteq> {b..<js_next st}" "grows st st1" "repr st1 e j G"
    "G \<subseteq> {js_next st..<js_next st1}"
  shows "\<exists>st2 H. json_array_append st1 p e True = Inr st2 \<and> repr st2 p (JArray (xs @ [j])) H \<and>
    H \<subseteq> {b..<js_next st2} \<and> agree st st2 {..<b} \<and> js_next st \<le> js_next st2"
proof -
  note ap = append_apart [OF assms(2,5,3)]
  obtain st2 H where *: "json_array_append st1 p e True = Inr st2" "repr st2 p (JArray (xs @ [j])) H"
      "H \<subseteq> F \<union> G \<union> {js_next st1..<js_next st2}" "agree st1 st2 ({..<js_next st1} - F)" "js_next st1 < js_next st2"
    using json_array_append_spec [OF repr_grows [OF assms(1) ap(3) assms(3)] assms(4) ap(1,2)] by blast
  have "F \<noteq> {}" using repr_pos [OF assms(1)] by auto
  from append_frame [OF assms(2) this assms(5,3) *(3,5,4)] show ?thesis using * by blast
qed

lemma dict_append_step:
  assumes "repr st p (JDict kxs) F" "F \<subseteq> {b..<js_next st}" "grows st st1" "repr st1 e j G"
    "G \<subseteq> {js_next st..<js_next st1}" "0 \<notin> set key" "length key < STRING_BLOCK"
  shows "\<exists>st2 H. json_dict_append st1 p key e True = Inr st2 \<and> repr st2 p (JDict (kxs @ [(key, j)])) H \<and>
    H \<subseteq> {b..<js_next st2} \<and> agree st st2 {..<b} \<and> js_next st \<le> js_next st2"
proof -
  note ap = append_apart [OF assms(2,5,3)]
  obtain st2 H where *: "json_dict_append st1 p key e True = Inr st2" "repr st2 p (JDict (kxs @ [(key, j)])) H"
      "H \<subseteq> F \<union> G \<union> {js_next st1..<js_next st2}" "agree st1 st2 ({..<js_next st1} - F)" "js_next st1 < js_next st2"
    using json_dict_append_spec [OF repr_grows [OF assms(1) ap(3) assms(3)] assms(4) ap(1,2) assms(6,7)] by blast
  have "F \<noteq> {}" using repr_pos [OF assms(1)] by auto
  from append_frame [OF assms(2) this assms(5,3) *(3,5,4)] show ?thesis using * by blast
qed

text \<open>
  \<open>loop_ok s st p b r\<close>: \<open>r\<close> is a good outcome of filling the list value at \<open>p\<close>,
  whose cells are not below \<open>b\<close>, from \<open>s\<close>.
\<close>

definition loop_ok :: "bytes \<Rightarrow> jstore \<Rightarrow> nat \<Rightarrow> nat \<Rightarrow> (nat \<times> bytes \<times> jstore) parse \<Rightarrow> bool" where
  "loop_ok s st p b r \<longleftrightarrow> r \<noteq> None \<and> r \<noteq> ub NullDeref \<and> r \<noteq> ub WrongMember \<and>
     (\<forall>q s' st'. r = accept (q, s', st') \<longrightarrow> q = p \<and> length s' < length s \<and> agree st st' {..<b} \<and>
        js_next st \<le> js_next st' \<and> (\<exists>j F. repr st' p j F \<and> F \<subseteq> {b..<js_next st'}))"

lemma loop_ok_simps [simp]:
  "loop_ok s st p b (reject e)" "loop_ok s st p b (ub OutOfBounds)" "loop_ok s st p b (ub SignedOverflow)"
  by (simp_all add: loop_ok_def)

lemma loop_ok_accept:
  "\<lbrakk>length s' < length s; agree st st' {..<b}; js_next st \<le> js_next st'; repr st' p j F; F \<subseteq> {b..<js_next st'}\<rbrakk>
    \<Longrightarrow> loop_ok s st p b (accept (p, s', st'))"
  by (auto simp: loop_ok_def)

lemma loop_ok_later:
  "\<lbrakk>loop_ok s1 st1 p b r; length s1 \<le> length s; agree st st1 {..<b}; js_next st \<le> js_next st1\<rbrakk> \<Longrightarrow> loop_ok s st p b r"
  by (fastforce simp: loop_ok_def intro: agree_trans)

text \<open>What follows an element: a comma and the next one, or the closing bracket.\<close>

lemma loop_tail_ok:
  assumes "length s1 < length s" "agree st st1 {..<b}" "js_next st \<le> js_next st1"
    and "repr st1 p j F" "F \<subseteq> {b..<js_next st1}"
    and rest: "\<And>s2. length s2 + 2 \<le> length s \<Longrightarrow> loop_ok s2 st1 p b (loop s2)"
  shows "loop_ok s st p b
    (case json_skip_whitespace s1 of [] \<Rightarrow> reject JsonNoError
     | c # s2 \<Rightarrow> if c = 44 then loop (json_skip_whitespace s2) else if c = close then accept (p, s2, st1)
         else reject JsonNoError)"
proof (cases "json_skip_whitespace s1")
  case (Cons c s2)
  then have l: "length s2 + 2 \<le> length s" "length (json_skip_whitespace s2) + 2 \<le> length s"
    using assms(1) length_skip_whitespace [of s1] length_skip_whitespace [of s2] by simp_all
  show ?thesis
    using loop_ok_later [OF rest [OF l(2)] _ assms(2,3)] l
      loop_ok_accept [OF _ assms(2,3,4,5)] by (auto simp: Cons)
qed simp

lemma parse_array_loop_ok:
  assumes val: "\<And>s st. \<lbrakk>2 * length s + 1 \<le> n; 0 < js_next st\<rbrakk> \<Longrightarrow> parse_ok s st (json_parse_value D junk n s st)"
    and loop: "\<And>s st. \<lbrakk>2 * length s + 2 \<le> n; is_array st p b\<rbrakk> \<Longrightarrow> loop_ok s st p b (parse_array_loop D junk n p s st)"
    and fuel: "2 * length s + 2 \<le> Suc n" and arr: "is_array st p b" and b: "0 < b"
  shows "loop_ok s st p b (parse_array_loop D junk (Suc n) p s st)"
proof (cases "s = []")
  case False
  obtain xs F where F: "repr st p (JArray xs) F" "F \<subseteq> {b..<js_next st}" using arr by (auto simp: is_array_def)
  then have pos: "0 < js_next st" using b repr_pos [OF F(1)] by auto
  have ok: "parse_ok s st (json_parse_value D junk n s st)" using val fuel pos by simp
  show ?thesis
  proof (cases "json_parse_value D junk n s st" rule: parse_cases)
    case (accept r)
    obtain e s1 st1 where r: "r = (e, s1, st1)" by (cases r)
    with ok accept obtain j G where 1: "length s1 < length s" "grows st st1" "repr st1 e j G"
        "G \<subseteq> {js_next st..<js_next st1}" by (auto simp: parse_ok_def)
    obtain st2 H where 2: "json_array_append st1 p e True = Inr st2" "repr st2 p (JArray (xs @ [j])) H"
        "H \<subseteq> {b..<js_next st2}" "agree st st2 {..<b}" "js_next st \<le> js_next st2"
      using array_append_step [OF F 1(2-4)] by blast
    have "is_array st2 p b" using 2 by (auto simp: is_array_def)
    then have "loop_ok s2 st2 p b (parse_array_loop D junk n p s2 st2)" if "length s2 + 2 \<le> length s" for s2
      using loop that fuel by simp
    from loop_tail_ok [OF 1(1) 2(4,5,2,3) this, of 93] show ?thesis
      by (simp add: parse_array_loop.simps [of _ _ "Suc n"] False accept r 2(1))
  qed (use ok False in \<open>auto simp: parse_array_loop.simps [of _ _ "Suc n"] parse_ok_def loop_ok_def\<close>)
qed (simp add: parse_array_loop.simps)

text \<open>The part of an iteration of \<^verbatim>\<open>parse_dict\<close> behind the key.\<close>

definition dict_value :: "dops \<Rightarrow> (nat \<Rightarrow> u64) \<Rightarrow> nat \<Rightarrow> nat \<Rightarrow> bytes \<Rightarrow> bytes \<Rightarrow> jstore \<Rightarrow> (nat \<times> bytes \<times> jstore) parse" where
  "dict_value D junk n dict key s st =
     (case json_skip_whitespace s of
        [] \<Rightarrow> reject JsonExpectedColon
      | c # s \<Rightarrow>
          if c \<noteq> 58 then reject JsonExpectedColon
          else
            parse_bind (json_parse_value D junk n (json_skip_whitespace s) st) (\<lambda>(value, s, st).
            parse_bind (of_res (json_dict_append st dict key value True)) (\<lambda>st.
              case json_skip_whitespace s of
                [] \<Rightarrow> reject JsonNoError
              | c # s \<Rightarrow>
                  if c = 44 then parse_dict_loop D junk n dict (json_skip_whitespace s) st
                  else if c = 125 then accept (dict, s, st)
                  else reject JsonNoError)))"

lemma parse_dict_loop_Suc:
  "parse_dict_loop D junk (Suc n) dict s st =
     (if s = [] then reject JsonNoError
      else if \<not> next_is 34 (json_skip_whitespace s) then reject JsonExpectedKey
      else parse_bind (json_parse_string junk (json_skip_whitespace s) st) (\<lambda>(key_val, s, st).
        parse_bind (of_res (json_str_get st key_val)) (\<lambda>key.
          case key of
            Some key \<Rightarrow> dict_value D junk n dict key s st
          | None \<Rightarrow>
              (case json_skip_whitespace s of
                 [] \<Rightarrow> reject JsonExpectedColon
               | c # s \<Rightarrow> if c \<noteq> 58 then reject JsonExpectedColon
                   else parse_bind (json_parse_value D junk n (json_skip_whitespace s) st) (\<lambda>_. ub NullDeref)))))"
  by (subst parse_dict_loop.simps, cases "json_skip_whitespace s")
    (auto simp: next_is_def dict_value_def fun_eq_iff split: option.splits list.splits
      intro!: arg_cong [where f = "parse_bind _"])

lemma dict_value_ok:
  assumes val: "\<And>s st. \<lbrakk>2 * length s + 1 \<le> n; 0 < js_next st\<rbrakk> \<Longrightarrow> parse_ok s st (json_parse_value D junk n s st)"
    and loop: "\<And>s st. \<lbrakk>2 * length s + 2 \<le> n; is_dict st p b\<rbrakk> \<Longrightarrow> loop_ok s st p b (parse_dict_loop D junk n p s st)"
    and fuel: "2 * length s + 2 \<le> Suc n" and F: "repr st p (JDict kxs) F" "F \<subseteq> {b..<js_next st}" and b: "0 < b"
    and st1: "grows st st1" "length s1 < length s" and key: "0 \<notin> set key" "length key < STRING_BLOCK"
  shows "loop_ok s st p b (dict_value D junk n p key s1 st1)"
proof (cases "next_is 58 (json_skip_whitespace s1)")
  case True
  then obtain s2 where s2: "json_skip_whitespace s1 = 58 # s2" by (auto simp: next_is_def split: list.splits)
  define t where "t = json_skip_whitespace s2"
  have l: "length t + 2 \<le> length s"
    using st1(2) s2 length_skip_whitespace [of s1] length_skip_whitespace [of s2] by (simp add: t_def)
  have pos: "0 < js_next st1" using repr_pos [OF F(1)] F(2) st1(1) b by (auto simp: grows_def)
  have ok: "parse_ok t st1 (json_parse_value D junk n t st1)" using val l fuel pos by simp
  show ?thesis
  proof (cases "json_parse_value D junk n t st1" rule: parse_cases)
    case (accept r)
    obtain e s3 st2 where r: "r = (e, s3, st2)" by (cases r)
    with ok accept obtain j G where 1: "length s3 < length t" "grows st1 st2" "repr st2 e j G"
        "G \<subseteq> {js_next st1..<js_next st2}" by (auto simp: parse_ok_def)
    have G: "grows st st2" "G \<subseteq> {js_next st..<js_next st2}"
      using grows_trans [OF st1(1) 1(2)] 1(4) st1(1) by (auto simp: grows_def)
    obtain st3 H where 2: "json_dict_append st2 p key e True = Inr st3" "repr st3 p (JDict (kxs @ [(key, j)])) H"
        "H \<subseteq> {b..<js_next st3}" "agree st st3 {..<b}" "js_next st \<le> js_next st3"
      using dict_append_step [OF F G(1) 1(3) G(2) key] by blast
    have "is_dict st3 p b" using 2 by (auto simp: is_dict_def)
    then have "loop_ok s2 st3 p b (parse_dict_loop D junk n p s2 st3)" if "length s2 + 2 \<le> length s" for s2
      using loop that fuel by simp
    moreover have "length s3 < length s" using 1(1) l by simp
    ultimately show ?thesis
      using loop_tail_ok [OF _ 2(4,5,2,3), of s3 s "\<lambda>s. parse_dict_loop D junk n p s st3" 125]
      by (simp add: dict_value_def s2 accept r 2(1) flip: t_def)
  qed (use ok in \<open>auto simp: dict_value_def s2 parse_ok_def loop_ok_def simp flip: t_def\<close>)
qed (auto simp: dict_value_def next_is_def split: list.splits)

lemma parse_dict_loop_ok:
  assumes val: "\<And>s st. \<lbrakk>2 * length s + 1 \<le> n; 0 < js_next st\<rbrakk> \<Longrightarrow> parse_ok s st (json_parse_value D junk n s st)"
    and loop: "\<And>s st. \<lbrakk>2 * length s + 2 \<le> n; is_dict st p b\<rbrakk> \<Longrightarrow> loop_ok s st p b (parse_dict_loop D junk n p s st)"
    and fuel: "2 * length s + 2 \<le> Suc n" and dict: "is_dict st p b" and b: "0 < b"
  shows "loop_ok s st p b (parse_dict_loop D junk (Suc n) p s st)"
proof (cases "s \<noteq> [] \<and> next_is 34 (json_skip_whitespace s)")
  case True
  obtain kxs F where F: "repr st p (JDict kxs) F" "F \<subseteq> {b..<js_next st}" using dict by (auto simp: is_dict_def)
  then have pos: "0 < js_next st" using b repr_pos [OF F(1)] by auto
  show ?thesis
  proof (rule json_parse_string_cases [OF pos, of junk "json_skip_whitespace s"])
    fix r t assume r: "json_parse_string junk (json_skip_whitespace s) st = accept r"
      "parsed_str (json_skip_whitespace s) st r t"
    obtain k s1 st1 where k: "r = (k, s1, st1)" by (cases r)
    with r(2) length_skip_whitespace [of s] have *: "grows st st1" "length s1 < length s" "0 \<notin> set t" "length t < STRING_BLOCK"
        "json_str_get st1 k = Inr (Some t)" by (auto simp: parsed_str_def)
    show ?thesis
      using dict_value_ok [OF val loop fuel F b *(1-4)] True by (simp add: parse_dict_loop_Suc r(1) k *(5))
  qed (use True in \<open>simp_all add: parse_dict_loop_Suc\<close>)
qed (auto simp: parse_dict_loop_Suc)

lemma loop_parse_ok:
  assumes "loop_ok u st1 p (js_next st) r" "grows st st1" "length u < length t"
  shows "parse_ok t st r"
proof -
  have "grows st st'" if "agree st1 st' {..<js_next st}" "js_next st1 \<le> js_next st'" for st'
    using assms(2) that by (auto simp: grows_def intro: agree_trans)
  then show ?thesis using assms by (fastforce simp: loop_ok_def parse_ok_def)
qed

lemma json_parse_array_ok:
  assumes loop: "\<And>s st p b. \<lbrakk>2 * length s + 2 \<le> n; is_array st p b; 0 < b\<rbrakk> \<Longrightarrow> loop_ok s st p b (parse_array_loop D junk n p s st)"
    and fuel: "2 * length s \<le> n" and pos: "0 < js_next st"
  shows "parse_ok s st (json_parse_array D junk n s st)"
proof (cases "next_is 91 s")
  case True
  then obtain s' where s: "s = 91 # s'" by (auto simp: next_is_def split: list.splits)
  define u where "u = json_skip_whitespace s'"
  have l: "length u < length s" using length_skip_whitespace [of s'] s by (simp add: u_def)
  obtain a st1 where a: "json_array_new st = (a, st1)" by (cases "json_array_new st")
  note r = json_array_new_repr [OF a pos]
  then have new: "is_array st1 a (js_next st)"
    unfolding is_array_def by (intro exI [of _ "[]"] exI [of _ "{a, a + 1}"]) auto
  have "parse_ok s st (accept (a, tl u, st1))" if "next_is 93 u"
    using r l by (fastforce simp: parse_ok_def)
  moreover have "parse_ok s st (parse_array_loop D junk n a u st1)"
    by (rule loop_parse_ok [OF loop [OF _ new]]) (use r l fuel pos in auto)
  ultimately show ?thesis by (simp add: json_parse_array.simps s a Let_def flip: u_def)
qed (auto simp: json_parse_array.simps next_is_def split: list.splits)

lemma parse_dict_ok:
  assumes loop: "\<And>s st p b. \<lbrakk>2 * length s + 2 \<le> n; is_dict st p b; 0 < b\<rbrakk> \<Longrightarrow> loop_ok s st p b (parse_dict_loop D junk n p s st)"
    and fuel: "2 * length s \<le> n" and pos: "0 < js_next st"
  shows "parse_ok s st (parse_dict D junk n s st)"
proof (cases "next_is 123 s")
  case True
  then obtain s' where s: "s = 123 # s'" by (auto simp: next_is_def split: list.splits)
  define u where "u = json_skip_whitespace s'"
  have l: "length u < length s" using length_skip_whitespace [of s'] s by (simp add: u_def)
  obtain a st1 where a: "json_dict_new st = (a, st1)" by (cases "json_dict_new st")
  note r = json_dict_new_repr [OF a pos]
  then have new: "is_dict st1 a (js_next st)"
    unfolding is_dict_def by (intro exI [of _ "[]"] exI [of _ "{a, a + 1}"]) auto
  have "parse_ok s st (accept (a, tl u, st1))" if "next_is 125 u"
    using r l by (fastforce simp: parse_ok_def)
  moreover have "parse_ok s st (parse_dict_loop D junk n a u st1)"
    by (rule loop_parse_ok [OF loop [OF _ new]]) (use r l fuel pos in auto)
  ultimately show ?thesis by (simp add: parse_dict.simps s a Let_def flip: u_def)
qed (auto simp: parse_dict.simps next_is_def split: list.splits)

lemma parse_value_ok:
  "2 * length s + 1 \<le> n \<Longrightarrow> 0 < js_next st \<Longrightarrow> parse_ok s st (json_parse_value D junk n s st)"
  "2 * length s + 2 \<le> n \<Longrightarrow> is_array st p b \<Longrightarrow> 0 < b \<Longrightarrow> loop_ok s st p b (parse_array_loop D junk n p s st)"
  "2 * length s + 2 \<le> n \<Longrightarrow> is_dict st p b \<Longrightarrow> 0 < b \<Longrightarrow> loop_ok s st p b (parse_dict_loop D junk n p s st)"
proof (induction n arbitrary: s st p b)
  case (Suc n)
  {
    case 1
    show ?case
    proof (cases "json_skip_whitespace s")
      case (Cons c s')
      define t where "t = json_skip_whitespace s"
      have l: "length t \<le> length s" "t = c # s'" using length_skip_whitespace [of s] Cons by (simp_all add: t_def)
      have arr: "parse_ok t st (json_parse_array D junk n t st)"
        by (rule json_parse_array_ok) (use Suc(2) 1 l in auto)
      have dict: "parse_ok t st (parse_dict D junk n t st)"
        by (rule parse_dict_ok) (use Suc(3) 1 l in auto)
      have "json_parse_value D junk (Suc n) s st =
          (if c = 34 then json_parse_string junk t st else if c = 123 then parse_dict D junk n t st
           else if c = 91 then json_parse_array D junk n t st
           else if c = 45 \<or> c_isdigit c then json_parse_number D t st
           else if c = 116 \<or> c = 102 \<or> c = 110 then json_parse_literal t st else reject JsonNoError)"
        by (simp add: json_parse_value.simps [of _ _ "Suc n"] Cons l(2))
      then have "parse_ok t st (json_parse_value D junk (Suc n) s st)"
        using arr dict parse_ok_string parse_ok_number parse_ok_literal 1(2) by auto
      then show ?thesis using l(1) by (rule parse_ok_mono)
    qed (simp add: json_parse_value.simps)
  next
    case 2
    then show ?case using parse_array_loop_ok [OF Suc(1,2)] by simp
  next
    case 3
    then show ?case using parse_dict_loop_ok [OF Suc(1,3)] by simp
  }
qed simp_all

subsection \<open>The parser on every input\<close>

lemma json_parse_ok:
  "json_parse D junk str \<noteq> None \<and> json_parse D junk str \<noteq> ub NullDeref \<and> json_parse D junk str \<noteq> ub WrongMember \<and>
    (\<forall>st. json_parse D junk str = accept st \<longrightarrow> (\<exists>j F. repr st (js_root st) j F \<and> F \<subseteq> {..<js_next st}))"
proof -
  have new: "js_next json_new = 1" by (simp add: json_new_def)
  define r where "r = json_parse_value D junk (2 * length str + 1) str json_new"
  have ok: "parse_ok str json_new r"
    unfolding r_def by (rule parse_value_ok(1)) (simp_all add: new)
  have eq: "json_parse D junk str = (if str = [] then reject JsonNoError else parse_bind r (\<lambda>(root, s, st).
      if json_skip_whitespace s \<noteq> [] then reject JsonNoError else accept (json_set_root st root)))"
    by (simp add: json_parse_def r_def)
  have root: "repr (json_set_root st p) p j F" if "repr st p j F" for st p j F
    by (rule repr_frame(1) [OF that]) (simp add: agree_def json_set_root_def)
  show ?thesis
  proof (cases r rule: parse_cases)
    case (accept x)
    obtain p s st where x: "x = (p, s, st)" by (cases x)
    with ok accept obtain j F where "repr st p j F" "F \<subseteq> {1..<js_next st}"
      by (auto simp: parse_ok_def new)
    then have "\<exists>j F. repr (json_set_root st p) p j F \<and> F \<subseteq> {..<js_next st}" using root by fastforce
    moreover have "js_root (json_set_root st p) = p" "js_next (json_set_root st p) = js_next st"
      by (simp_all add: json_set_root_def)
    ultimately show ?thesis
      by (auto simp: eq accept x simp del: not_None_eq)
  qed (use ok in \<open>auto simp: eq parse_ok_def simp del: not_None_eq\<close>)
qed

end
