(* ===== verification/JsonWriter.thy ===== *)
theory JsonWriter
  imports JsonDoc Fmt
begin

text \<open>
  The writer of \<^verbatim>\<open>json.c\<close>: a growing buffer into which the values of a document are
  printed. Every write is bounds-checked against the buffer; the allocator's answers are an argument
  (\<open>alloc n\<close> tells whether a block of \<open>n\<close> bytes can be had). A document whose values refer
  to each other in a circle is printed for ever, so the printing functions carry fuel.
\<close>

subsection \<open>The buffer\<close>

record jwriter =
  jw_str :: bytes
  jw_str_capacity :: nat
  jw_str_sz :: nat
  jw_indent_size :: nat
  jw_indent :: nat

text \<open>
  The outcome of a write: \<^verbatim>\<open>false\<close> or \<^verbatim>\<open>true\<close> with the writer. \<open>and_then\<close>
  is \<^verbatim>\<open>if(!...) return false;\<close>
\<close>

type_synonym wout = "(bool \<times> jwriter) run"

definition and_then :: "wout \<Rightarrow> (jwriter \<Rightarrow> wout) \<Rightarrow> wout" where
  "and_then m f = run_bind m (\<lambda>(ok, w). if ok then f w else Some (Inr (False, w)))"

definition wrote :: "jwriter \<Rightarrow> wout" where "wrote w = Some (Inr (True, w))"

definition failed :: "jwriter \<Rightarrow> wout" where "failed w = Some (Inr (False, w))"

lemma and_then_simps [simp]:
  "and_then (wrote w) f = f w"
  "and_then (failed w) f = failed w"
  "and_then None f = None"
  by (simp_all add: and_then_def wrote_def failed_def)

text \<open>What allocation answers and what it leaves in fresh memory.\<close>

record heap_env =
  env_alloc :: "nat \<Rightarrow> bool"
  env_junk :: "nat \<Rightarrow> u8"

partial_function (option) grow_capacity :: "nat \<Rightarrow> nat \<Rightarrow> nat option" where
  "grow_capacity total_needed_size new_capacity =
     (if total_needed_size \<ge> new_capacity then grow_capacity total_needed_size (new_capacity * 2)
      else Some new_capacity)"

declare grow_capacity.simps [code]

definition json_write_realloc :: "heap_env \<Rightarrow> jwriter \<Rightarrow> nat \<Rightarrow> wout" where
  "json_write_realloc E w needed_size =
     (let total_needed_size = jw_str_sz w + needed_size; new_capacity = jw_str_capacity w
      in if total_needed_size < new_capacity then wrote w
         else
           Option.bind (grow_capacity total_needed_size new_capacity) (\<lambda>new_capacity.
             if env_alloc E new_capacity
             then wrote (w\<lparr>jw_str := realloc_blk (env_junk E) (jw_str w) new_capacity,
                           jw_str_capacity := new_capacity\<rparr>)
             else failed w))"

text \<open>Bytes stored at the end of the text.\<close>

definition put_bytes :: "jwriter \<Rightarrow> bytes \<Rightarrow> wout" where
  "put_bytes w bs =
     run_bind (Some (blk_write (jw_str w) (jw_str_sz w) bs)) (\<lambda>str.
       wrote (w\<lparr>jw_str := str, jw_str_sz := jw_str_sz w + length bs\<rparr>))"

definition json_write_char :: "heap_env \<Rightarrow> jwriter \<Rightarrow> u8 \<Rightarrow> wout" where
  "json_write_char E w c = and_then (json_write_realloc E w 1) (\<lambda>w. put_bytes w [c])"

definition json_write_indent :: "heap_env \<Rightarrow> jwriter \<Rightarrow> wout" where
  "json_write_indent E w =
     and_then (json_write_realloc E w (jw_indent w)) (\<lambda>w. put_bytes w (replicate (jw_indent w) 32))"

subsection \<open>Scalars\<close>

definition json_write_literal :: "heap_env \<Rightarrow> jwriter \<Rightarrow> bytes \<Rightarrow> nat \<Rightarrow> wout" where
  "json_write_literal E w lit lit_sz =
     and_then (json_write_realloc E w lit_sz) (\<lambda>w. put_bytes w (take lit_sz lit))"

text \<open>
  The text of a number is written by \<open>fmt\<close>; the writer advances by the announced size, not by
  what was written.
\<close>

definition put_formatted :: "heap_env \<Rightarrow> jwriter \<Rightarrow> nat \<Rightarrow> (bytes \<Rightarrow> nat \<Rightarrow> (bytes \<times> nat) res) \<Rightarrow> wout" where
  "put_formatted E w buffer_sz fmt =
     and_then (json_write_realloc E w buffer_sz) (\<lambda>w.
       run_bind (Some (fmt (jw_str w) (jw_str_sz w))) (\<lambda>(str, _).
         wrote (w\<lparr>jw_str := str, jw_str_sz := jw_str_sz w + buffer_sz\<rparr>)))"

definition json_write_u64 :: "heap_env \<Rightarrow> jwriter \<Rightarrow> u64 \<Rightarrow> wout" where
  "json_write_u64 E w n = put_formatted E w (fmt_size_u64 n) (\<lambda>blk p. fmt_u64 blk p n)"

definition json_write_i64 :: "heap_env \<Rightarrow> jwriter \<Rightarrow> u64 \<Rightarrow> wout" where
  "json_write_i64 E w n = put_formatted E w (fmt_size_i64 n) (\<lambda>blk p. fmt_i64 blk p n)"

definition json_write_f64 :: "dops \<Rightarrow> heap_env \<Rightarrow> jwriter \<Rightarrow> u64 \<Rightarrow> wout" where
  "json_write_f64 D E w f =
     (let buffer_sz = fmt_size_f64 D f 3
      in if buffer_sz < 0 then failed w
         else put_formatted E w (nat buffer_sz) (\<lambda>blk p. fmt_f64 D blk p f 3))"

definition json_char_is_escaped :: "u8 \<Rightarrow> bool" where
  "json_char_is_escaped c \<longleftrightarrow> c \<in> {39, 34, 92, 10, 13, 9, 8, 12, 11}"

definition json_escaped_to_char :: "u8 \<Rightarrow> u8" where
  "json_escaped_to_char c =
     (if c = 39 then 0x27 else if c = 34 then 34 else if c = 92 then 92
      else if c = 10 then 110 else if c = 13 then 114 else if c = 9 then 116
      else if c = 8 then 98 else if c = 12 then 102 else if c = 11 then 118 else c)"

definition written_size :: "bytes \<Rightarrow> nat" where
  "written_size str = (\<Sum>c\<leftarrow>str. if json_char_is_escaped c then 3 else 1)"

definition written_char :: "u8 \<Rightarrow> bytes" where
  "written_char c =
     (if json_char_is_escaped c then (if c \<noteq> 39 then [92] else []) @ [json_escaped_to_char c] else [c])"

fun put_escaped :: "jwriter \<Rightarrow> bytes \<Rightarrow> wout" where
  "put_escaped w [] = wrote w"
| "put_escaped w (c # str) = and_then (put_bytes w (written_char c)) (\<lambda>w. put_escaped w str)"

definition json_write_str :: "heap_env \<Rightarrow> jwriter \<Rightarrow> bytes \<Rightarrow> wout" where
  "json_write_str E w str =
     and_then (json_write_realloc E w (written_size (c_str str) + 2)) (\<lambda>w.
     and_then (put_bytes w [34]) (\<lambda>w.
     and_then (put_escaped w (c_str str)) (\<lambda>w. put_bytes w [34])))"

subsection \<open>Arrays, dictionaries, values\<close>

text \<open>What precedes an element: a comma after the first, a new line and the indentation.\<close>

definition write_separator :: "heap_env \<Rightarrow> jwriter \<Rightarrow> nat \<Rightarrow> wout" where
  "write_separator E w i =
     and_then (if i > 0 then json_write_char E w 44 else wrote w) (\<lambda>w.
       if jw_indent_size w > 0
       then and_then (json_write_char E w 10) (json_write_indent E)
       else wrote w)"

definition write_opening :: "heap_env \<Rightarrow> jwriter \<Rightarrow> u8 \<Rightarrow> wout" where
  "write_opening E w c =
     and_then (json_write_char E w c) (\<lambda>w.
       wrote (if jw_indent_size w > 0 then w\<lparr>jw_indent := jw_indent w + jw_indent_size w\<rparr> else w))"

definition write_closing :: "heap_env \<Rightarrow> jwriter \<Rightarrow> u8 \<Rightarrow> wout" where
  "write_closing E w c =
     and_then
       (if jw_indent_size w > 0
        then and_then (json_write_char E w 10) (\<lambda>w.
               json_write_indent E (w\<lparr>jw_indent := jw_indent w - jw_indent_size w\<rparr>))
        else wrote w)
       (\<lambda>w. json_write_char E w c)"

definition from_res :: "'a res \<Rightarrow> ('a \<Rightarrow> wout) \<Rightarrow> wout" where
  "from_res r f = run_bind (Some r) f"

lemma from_res_simps [simp]: "from_res (Inr x) f = f x" "from_res (Inl e) f = Some (Inl e)"
  by (simp_all add: from_res_def)

function json_write_value :: "dops \<Rightarrow> heap_env \<Rightarrow> jstore \<Rightarrow> nat \<Rightarrow> jwriter \<Rightarrow> nat \<Rightarrow> wout"
  and write_array_loop :: "dops \<Rightarrow> heap_env \<Rightarrow> jstore \<Rightarrow> nat \<Rightarrow> jwriter \<Rightarrow> nat \<Rightarrow> nat \<Rightarrow> nat \<Rightarrow> wout"
  and write_dict_loop :: "dops \<Rightarrow> heap_env \<Rightarrow> jstore \<Rightarrow> nat \<Rightarrow> jwriter \<Rightarrow> nat \<Rightarrow> nat \<Rightarrow> nat \<Rightarrow> wout"
  and json_write_array :: "dops \<Rightarrow> heap_env \<Rightarrow> jstore \<Rightarrow> nat \<Rightarrow> jwriter \<Rightarrow> nat \<Rightarrow> wout"
  and json_write_dict :: "dops \<Rightarrow> heap_env \<Rightarrow> jstore \<Rightarrow> nat \<Rightarrow> jwriter \<Rightarrow> nat \<Rightarrow> wout"
  where
  "json_write_value D E st fuel w value =
     (case fuel of
        0 \<Rightarrow> None
      | Suc n \<Rightarrow>
          from_res (val_at st value) (\<lambda>v.
            let tag = jv_tags v AND JSON_TAGS_MASK in
            if tag = JsonTag_Null then json_write_literal E w (map of_char ''null'') 4
            else if tag = JsonTag_Bool then
              from_res (u_bool (jv_value v)) (\<lambda>b.
                if b then json_write_literal E w (map of_char ''true'') 4
                else json_write_literal E w (map of_char ''false'') 5)
            else if tag = JsonTag_U64 then from_res (u_u64 (jv_value v)) (json_write_u64 E w)
            else if tag = JsonTag_I64 then from_res (u_i64 (jv_value v)) (json_write_i64 E w)
            else if tag = JsonTag_F64 then from_res (u_f64 (jv_value v)) (json_write_f64 D E w)
            else if tag = JsonTag_Str then
              from_res (u_str (jv_value v)) (\<lambda>str.
                case str of None \<Rightarrow> Some (Inl NullDeref) | Some str \<Rightarrow> json_write_str E w str)
            else if tag = JsonTag_Array then json_write_array D E st n w value
            else if tag = JsonTag_Dict then json_write_dict D E st n w value
            else failed w))"
| "json_write_array D E st n w arr =
     and_then (write_opening E w 91) (\<lambda>w.
     and_then (write_array_loop D E st n w arr 0 0) (\<lambda>w. write_closing E w 93))"
| "write_array_loop D E st fuel w arr iterator i =
     (case fuel of
        0 \<Rightarrow> None
      | Suc n \<Rightarrow>
          from_res (json_array_get_next st arr iterator) (\<lambda>(element, iterator).
            if element = 0 then wrote w
            else
              and_then (write_separator E w i) (\<lambda>w.
              and_then (json_write_value D E st n w element) (\<lambda>w.
                write_array_loop D E st n w arr iterator (i + 1)))))"
| "json_write_dict D E st n w dict =
     and_then (write_opening E w 123) (\<lambda>w.
     and_then (write_dict_loop D E st n w dict 0 0) (\<lambda>w. write_closing E w 125))"
| "write_dict_loop D E st fuel w dict iterator i =
     (case fuel of
        0 \<Rightarrow> None
      | Suc n \<Rightarrow>
          from_res (json_dict_get_next st dict iterator) (\<lambda>(key_value, iterator).
            if key_value = 0 then wrote w
            else
              and_then (write_separator E w i) (\<lambda>w.
              from_res (deref (js_kvs st) key_value) (\<lambda>kv.
              and_then (json_write_str E w (kv_key kv)) (\<lambda>w.
              and_then (json_write_char E w 58) (\<lambda>w.
              and_then (json_write_char E w 32) (\<lambda>w.
              and_then (json_write_value D E st n w (kv_value kv)) (\<lambda>w.
                write_dict_loop D E st n w dict iterator (i + 1)))))))))"
  by pat_completeness auto
termination
  by (relation "measure (\<lambda>x. case x of
        Inl (Inl (D, E, st, n, w, v)) \<Rightarrow> 2 * n
      | Inl (Inr (D, E, st, n, w, v, i, j)) \<Rightarrow> 2 * n
      | Inr (Inl (D, E, st, n, w, v, i, j)) \<Rightarrow> 2 * n
      | Inr (Inr (Inl (D, E, st, n, w, v))) \<Rightarrow> 2 * n + 1
      | Inr (Inr (Inr (D, E, st, n, w, v))) \<Rightarrow> 2 * n + 1)") auto

declare json_write_value.simps [simp del] json_write_array.simps [simp del] write_array_loop.simps [simp del]
  json_write_dict.simps [simp del] write_dict_loop.simps [simp del]

text \<open>
  \<^verbatim>\<open>json_write\<close>: the text, or \<open>None\<close> for a \<^verbatim>\<open>NULL\<close> result.
\<close>

definition json_write :: "dops \<Rightarrow> heap_env \<Rightarrow> nat \<Rightarrow> jstore \<Rightarrow> nat \<Rightarrow> bytes option run" where
  "json_write D E fuel st indent_size =
     (let w = \<lparr>jw_str = calloc_blk 4096, jw_str_capacity = 4096, jw_str_sz = 0,
               jw_indent_size = indent_size, jw_indent = 0\<rparr>
      in if \<not> env_alloc E 4096 then Some (Inr None)
         else
           run_bind (json_write_value D E st fuel w (js_root st)) (\<lambda>(ok, w).
             Some (Inr (if ok then Some (take (jw_str_sz w) (jw_str w)) else None))))"

definition json_dumps :: "dops \<Rightarrow> heap_env \<Rightarrow> nat \<Rightarrow> jstore \<Rightarrow> nat \<Rightarrow> bytes option run" where
  "json_dumps D E fuel st indent_size = json_write D E fuel st indent_size"

end
