(* ===== verification/JsonPrint.thy ===== *)
theory JsonPrint
  imports JsonWriter
begin

text \<open>
  The text of a document as a function of its tree, and the proof that the writer of theory
  JsonWriter produces it: the buffer is never overrun, it grows as needed, and enough fuel exists for
  every document that stands for a tree.
\<close>

subsection \<open>The text of a tree\<close>

definition str_text :: "bytes \<Rightarrow> bytes" where
  "str_text s = [34] @ concat (map written_char s) @ [34]"

definition new_line :: "nat \<Rightarrow> nat \<Rightarrow> bytes" where
  "new_line isz ind = (if 0 < isz then 10 # replicate ind 32 else [])"

definition items :: "bytes \<Rightarrow> bytes list \<Rightarrow> bytes" where
  "items pre ts = (case ts of [] \<Rightarrow> [] | t # ts \<Rightarrow> pre @ t @ concat (map (\<lambda>t. 44 # pre @ t) ts))"

fun json_text :: "nat \<Rightarrow> nat \<Rightarrow> json \<Rightarrow> bytes" where
  "json_text isz ind JNull = map of_char ''null''"
| "json_text isz ind (JBool b) = (if b then map of_char ''true'' else map of_char ''false'')"
| "json_text isz ind (JU64 n) = dec (unat n)"
| "json_text isz ind (JI64 n) = dec_i64 n"
| "json_text isz ind (JF64 n) = []"
| "json_text isz ind (JStr s) = str_text s"
| "json_text isz ind (JArray xs) =
     [91] @ items (new_line isz (ind + isz)) (map (\<lambda>x. json_text isz (ind + isz) x) xs) @ new_line isz ind @ [93]"
| "json_text isz ind (JDict kxs) =
     [123] @ items (new_line isz (ind + isz))
       (map (\<lambda>kx. str_text (fst kx) @ [58, 32] @ json_text isz (ind + isz) (snd kx)) kxs) @ new_line isz ind @ [125]"

fun no_floats :: "json \<Rightarrow> bool" where
  "no_floats (JF64 n) \<longleftrightarrow> False"
| "no_floats (JArray xs) \<longleftrightarrow> (\<forall>x \<in> set xs. no_floats x)"
| "no_floats (JDict kxs) \<longleftrightarrow> (\<forall>kx \<in> set kxs. no_floats (snd kx))"
| "no_floats _ \<longleftrightarrow> True"

text \<open>The fuel a tree needs.\<close>

fun json_fuel :: "json \<Rightarrow> nat" where
  "json_fuel (JArray xs) = 2 + (\<Sum>x\<leftarrow>xs. json_fuel x + 1)"
| "json_fuel (JDict kxs) = 2 + (\<Sum>kx\<leftarrow>kxs. json_fuel (snd kx) + 1)"
| "json_fuel _ = 1"

subsection \<open>The buffer invariant\<close>

definition writer_ok :: "jwriter \<Rightarrow> bool" where
  "writer_ok w \<longleftrightarrow> length (jw_str w) = jw_str_capacity w \<and> jw_str_sz w < jw_str_capacity w"

definition written :: "jwriter \<Rightarrow> bytes" where
  "written w = take (jw_str_sz w) (jw_str w)"

text \<open>
  \<open>writes m w ind t\<close>: the action \<open>m\<close> succeeds from the writer \<open>w\<close>, appends \<open>t\<close>
  to the text and leaves the indentation \<open>ind\<close>.
\<close>

definition writes :: "wout \<Rightarrow> jwriter \<Rightarrow> nat \<Rightarrow> bytes \<Rightarrow> bool" where
  "writes m w ind t \<longleftrightarrow> (\<exists>w'. m = wrote w' \<and> writer_ok w' \<and> written w' = written w @ t \<and>
     jw_indent w' = ind \<and> jw_indent_size w' = jw_indent_size w)"

lemma writes_and_then:
  assumes "writes m w ind t"
    and "\<And>w'. \<lbrakk>writer_ok w'; jw_indent w' = ind; jw_indent_size w' = jw_indent_size w\<rbrakk> \<Longrightarrow> writes (f w') w' ind' t'"
  shows "writes (and_then m f) w ind' (t @ t')"
proof -
  obtain w' where w': "m = wrote w'" "writer_ok w'" "written w' = written w @ t"
      "jw_indent w' = ind" "jw_indent_size w' = jw_indent_size w"
    using assms(1) by (auto simp: writes_def)
  then show ?thesis using assms(2) [of w'] by (auto simp: writes_def)
qed

lemma writes_nothing: "writer_ok w \<Longrightarrow> writes (wrote w) w (jw_indent w) []"
  by (auto simp: writes_def)

lemma grow_capacity_ok: "0 < cap \<Longrightarrow> \<exists>cap'. grow_capacity tot cap = Some cap' \<and> tot < cap' \<and> cap \<le> cap'"
proof (induction "Suc tot - cap" arbitrary: cap rule: less_induct)
  case less
  show ?case
  proof (cases "tot \<ge> cap")
    case True
    have "Suc tot - cap * 2 < Suc tot - cap" using True less.prems by arith
    from less.hyps [OF this] less.prems True show ?thesis
      by (subst grow_capacity.simps) fastforce
  qed (simp add: grow_capacity.simps)
qed

lemma json_write_realloc_ok:
  assumes "writer_ok w" and alloc: "\<And>n. env_alloc E n"
  shows "\<exists>w'. json_write_realloc E w needed = wrote w' \<and> writer_ok w' \<and> written w' = written w \<and>
    jw_str_sz w' = jw_str_sz w \<and> jw_str_sz w + needed < jw_str_capacity w' \<and>
    jw_indent w' = jw_indent w \<and> jw_indent_size w' = jw_indent_size w"
proof (cases "jw_str_sz w + needed < jw_str_capacity w")
  case True
  then show ?thesis using assms by (simp add: json_write_realloc_def wrote_def)
next
  case False
  obtain cap where cap: "grow_capacity (jw_str_sz w + needed) (jw_str_capacity w) = Some cap"
      "jw_str_sz w + needed < cap" "jw_str_capacity w \<le> cap"
    using grow_capacity_ok assms(1) by (metis writer_ok_def gr_zeroI not_less_zero)
  then show ?thesis
    using False assms
    by (auto simp: json_write_realloc_def wrote_def writer_ok_def written_def take_realloc_blk)
qed

lemma put_bytes_ok:
  assumes "writer_ok w" "jw_str_sz w + length bs < jw_str_capacity w"
  shows "writes (put_bytes w bs) w (jw_indent w) bs"
  using assms by (simp add: writes_def put_bytes_def blk_write_def wrote_def writer_ok_def written_def)

lemma writes_reserved:
  assumes "writer_ok w" and alloc: "\<And>n. env_alloc E n"
    and f: "\<And>w'. \<lbrakk>writer_ok w'; jw_str_sz w' + needed < jw_str_capacity w'; jw_indent w' = jw_indent w;
      jw_indent_size w' = jw_indent_size w\<rbrakk> \<Longrightarrow> writes (f w') w' ind t"
  shows "writes (and_then (json_write_realloc E w needed) f) w ind t"
proof -
  obtain w' where w': "json_write_realloc E w needed = wrote w'" "writer_ok w'" "written w' = written w"
      "jw_str_sz w' = jw_str_sz w" "jw_str_sz w + needed < jw_str_capacity w'"
      "jw_indent w' = jw_indent w" "jw_indent_size w' = jw_indent_size w"
    using json_write_realloc_ok [OF assms(1,2)] by blast
  then show ?thesis using f [of w'] by (auto simp: writes_def)
qed

subsection \<open>Scalars\<close>

lemma json_write_char_ok:
  assumes "writer_ok w" "\<And>n. env_alloc E n"
  shows "writes (json_write_char E w c) w (jw_indent w) [c]"
  unfolding json_write_char_def
  by (rule writes_reserved [OF assms]) (metis put_bytes_ok length_Cons list.size(3) One_nat_def)

lemma json_write_indent_ok:
  assumes "writer_ok w" "\<And>n. env_alloc E n"
  shows "writes (json_write_indent E w) w (jw_indent w) (replicate (jw_indent w) 32)"
  unfolding json_write_indent_def
  by (rule writes_reserved [OF assms]) (metis put_bytes_ok length_replicate)

lemma json_write_literal_ok:
  assumes "writer_ok w" "\<And>n. env_alloc E n" "n = length lit"
  shows "writes (json_write_literal E w lit n) w (jw_indent w) lit"
  unfolding json_write_literal_def assms(3)
  by (rule writes_reserved [OF assms(1,2)]) (metis put_bytes_ok take_all order_refl)

lemma put_formatted_ok:
  assumes "writer_ok w" "\<And>n. env_alloc E n" "n = length t"
    and fmt: "\<And>blk off. off + length t \<le> length blk \<Longrightarrow> fmt blk off = Inr (splice blk off t, length t)"
  shows "writes (put_formatted E w n fmt) w (jw_indent w) t"
  unfolding put_formatted_def assms(3)
proof (rule writes_reserved [OF assms(1,2)])
  fix w' assume w': "writer_ok w'" "jw_str_sz w' + length t < jw_str_capacity w'" "jw_indent w' = jw_indent w"
  then have "fmt (jw_str w') (jw_str_sz w') = Inr (splice (jw_str w') (jw_str_sz w') t, length t)"
    by (intro fmt) (simp add: writer_ok_def)
  then show "writes (run_bind (Some (fmt (jw_str w') (jw_str_sz w'))) (\<lambda>(str, _).
      wrote (w'\<lparr>jw_str := str, jw_str_sz := jw_str_sz w' + length t\<rparr>))) w' (jw_indent w) t"
    using w' by (simp add: writes_def wrote_def writer_ok_def written_def) (simp add: splice_def)
qed

lemma json_write_u64_ok:
  assumes "writer_ok w" "\<And>n. env_alloc E n"
  shows "writes (json_write_u64 E w n) w (jw_indent w) (dec (unat n))"
  unfolding json_write_u64_def
  by (rule put_formatted_ok [OF assms]) (simp_all add: fmt_size_u64_def count_digits_dec fmt_u64_dec)

lemma json_write_i64_ok:
  assumes "writer_ok w" "\<And>n. env_alloc E n"
  shows "writes (json_write_i64 E w n) w (jw_indent w) (dec_i64 n)"
  unfolding json_write_i64_def
  by (rule put_formatted_ok [OF assms]) (simp_all add: length_dec_i64 [symmetric] fmt_i64_dec)

lemma length_written_le: "length (concat (map written_char s)) \<le> written_size s"
proof (induction s)
  case (Cons c s)
  have "length (written_char c) \<le> (if json_char_is_escaped c then 3 else 1)" by (simp add: written_char_def)
  then show ?case using Cons.IH by (simp add: written_size_def)
qed (simp add: written_size_def)

lemma put_bytes_append:
  assumes "writer_ok w" "jw_str_sz w + length a + length b < jw_str_capacity w"
  shows "and_then (put_bytes w a) (\<lambda>w. put_bytes w b) = put_bytes w (a @ b)"
  using assms by (simp add: put_bytes_def blk_write_def writer_ok_def wrote_def and_then_def ac_simps)

lemma put_bytes_exact:
  assumes "writer_ok w" "jw_str_sz w + length a < jw_str_capacity w"
  obtains w' where "put_bytes w a = wrote w'" "writer_ok w'" "jw_str_sz w' = jw_str_sz w + length a"
    "jw_str_capacity w' = jw_str_capacity w"
  using assms by (simp add: put_bytes_def blk_write_def writer_ok_def)

lemma put_escaped_eq:
  "\<lbrakk>writer_ok w; jw_str_sz w + length (concat (map written_char s)) < jw_str_capacity w\<rbrakk>
    \<Longrightarrow> put_escaped w s = put_bytes w (concat (map written_char s))"
proof (induction s arbitrary: w)
  case Nil
  then show ?case by (simp add: put_bytes_def blk_write_def wrote_def writer_ok_def)
next
  case (Cons c s)
  have fits: "jw_str_sz w + length (written_char c) < jw_str_capacity w" using Cons.prems(2) by simp
  obtain w' where w': "put_bytes w (written_char c) = wrote w'" "writer_ok w'"
      "jw_str_sz w' = jw_str_sz w + length (written_char c)" "jw_str_capacity w' = jw_str_capacity w"
    using put_bytes_exact [OF Cons.prems(1) fits] by blast
  have "put_escaped w' s = put_bytes w' (concat (map written_char s))"
    by (rule Cons.IH) (use w' Cons.prems(2) in \<open>simp_all add: add.assoc\<close>)
  then show ?case
    using put_bytes_append [OF Cons.prems(1), of "written_char c" "concat (map written_char s)"]
      Cons.prems(2) w'(1) by (simp add: add.assoc)
qed

lemma json_write_str_ok:
  assumes "writer_ok w" "\<And>n. env_alloc E n" "0 \<notin> set s"
  shows "writes (json_write_str E w s) w (jw_indent w) (str_text s)"
  unfolding json_write_str_def c_str_id [OF assms(3)]
proof (rule writes_reserved [OF assms(1,2)])
  fix w1 assume w1: "writer_ok w1" "jw_str_sz w1 + (written_size s + 2) < jw_str_capacity w1"
      "jw_indent w1 = jw_indent w"
  define t where "t = concat (map written_char s)"
  have len: "jw_str_sz w1 + length t + 2 < jw_str_capacity w1"
    using w1(2) length_written_le [of s] by (simp add: t_def)
  have "put_bytes w1 (str_text s) = and_then (put_bytes w1 [34]) (\<lambda>w. put_bytes w (t @ [34]))"
    using put_bytes_append [OF w1(1), of "[34]" "t @ [34]"] len by (simp add: str_text_def t_def)
  moreover obtain w2 where w2: "put_bytes w1 [34] = wrote w2" "writer_ok w2" "jw_str_sz w2 = jw_str_sz w1 + 1"
      "jw_str_capacity w2 = jw_str_capacity w1"
    using put_bytes_exact [OF w1(1), of "[34]"] len by auto
  moreover have "put_bytes w2 (t @ [34]) = and_then (put_bytes w2 t) (\<lambda>w. put_bytes w [34])"
    using put_bytes_append [OF w2(2), of t "[34]"] w2 len by simp
  moreover have "put_escaped w2 s = put_bytes w2 t"
    unfolding t_def by (rule put_escaped_eq) (use w2 len in \<open>simp_all add: t_def\<close>)
  moreover have "writes (put_bytes w1 (str_text s)) w1 (jw_indent w) (str_text s)"
    using put_bytes_ok [OF w1(1), of "str_text s"] len w1(3) by (simp add: str_text_def t_def)
  ultimately show "writes (and_then (put_bytes w1 [34]) (\<lambda>w. and_then (put_escaped w s)
      (\<lambda>w. put_bytes w [34]))) w1 (jw_indent w) (str_text s)" by simp
qed

subsection \<open>Lists\<close>

definition items_at :: "nat \<Rightarrow> bytes \<Rightarrow> bytes list \<Rightarrow> bytes" where
  "items_at i pre ts = (case ts of [] \<Rightarrow> []
     | t # ts \<Rightarrow> (if i > 0 then [44] else []) @ pre @ t @ concat (map (\<lambda>t. 44 # pre @ t) ts))"

lemma items_at_0: "items_at 0 = items"
  by (simp add: items_at_def items_def fun_eq_iff split: list.splits)

lemma items_at_simps:
  "items_at i pre [] = []"
  "items_at i pre (t # ts) = ((if i > 0 then [44] else []) @ pre) @ t @ items_at (i + 1) pre ts"
  by (simp_all add: items_at_def split: list.splits)

lemma write_separator_ok:
  assumes "writer_ok w" "\<And>n. env_alloc E n"
  shows "writes (write_separator E w i) w (jw_indent w)
    ((if i > 0 then [44] else []) @ new_line (jw_indent_size w) (jw_indent w))"
  unfolding write_separator_def
proof (rule writes_and_then)
  show "writes (if i > 0 then json_write_char E w 44 else wrote w) w (jw_indent w) (if i > 0 then [44] else [])"
    using json_write_char_ok [OF assms] writes_nothing [OF assms(1)] by simp
  fix w' assume w': "writer_ok w'" "jw_indent w' = jw_indent w" "jw_indent_size w' = jw_indent_size w"
  have "writes (and_then (json_write_char E w' 10) (json_write_indent E)) w' (jw_indent w)
      ([10] @ replicate (jw_indent w) 32)"
    by (rule writes_and_then [OF json_write_char_ok [OF w'(1) assms(2)]])
      (metis json_write_indent_ok assms(2) w'(2))
  then show "writes (if jw_indent_size w' > 0 then and_then (json_write_char E w' 10) (json_write_indent E)
      else wrote w') w' (jw_indent w) (new_line (jw_indent_size w) (jw_indent w))"
    using w' writes_nothing [OF w'(1)] by (simp add: new_line_def)
qed

lemma write_opening_ok:
  assumes "writer_ok w" "\<And>n. env_alloc E n"
  shows "writes (write_opening E w c) w (jw_indent w + jw_indent_size w) [c]"
proof -
  have "writes (write_opening E w c) w (jw_indent w + jw_indent_size w) ([c] @ [])"
    unfolding write_opening_def
    by (rule writes_and_then [OF json_write_char_ok [OF assms]])
      (auto simp: writes_def wrote_def writer_ok_def written_def)
  then show ?thesis by simp
qed

lemma write_closing_ok:
  assumes "writer_ok w" "\<And>n. env_alloc E n" "jw_indent w = ind + jw_indent_size w"
  shows "writes (write_closing E w c) w ind (new_line (jw_indent_size w) ind @ [c])"
  unfolding write_closing_def
proof (rule writes_and_then)
  show "writes (if jw_indent_size w > 0
      then and_then (json_write_char E w 10) (\<lambda>w. json_write_indent E (w\<lparr>jw_indent := jw_indent w - jw_indent_size w\<rparr>))
      else wrote w) w ind (new_line (jw_indent_size w) ind)"
  proof (cases "jw_indent_size w > 0")
    case True
    have "writes (and_then (json_write_char E w 10) (\<lambda>w.
        json_write_indent E (w\<lparr>jw_indent := jw_indent w - jw_indent_size w\<rparr>))) w ind ([10] @ replicate ind 32)"
    proof (rule writes_and_then [OF json_write_char_ok [OF assms(1,2)]])
      fix w' assume w': "writer_ok w'" "jw_indent w' = jw_indent w" "jw_indent_size w' = jw_indent_size w"
      define w2 where "w2 = w'\<lparr>jw_indent := jw_indent w' - jw_indent_size w'\<rparr>"
      have w2: "jw_indent w2 = ind" "writer_ok w2" "written w2 = written w'" "jw_indent_size w2 = jw_indent_size w'"
        using w' assms(3) by (simp_all add: w2_def writer_ok_def written_def)
      show "writes (json_write_indent E (w'\<lparr>jw_indent := jw_indent w' - jw_indent_size w'\<rparr>)) w' ind
          (replicate ind 32)"
        using json_write_indent_ok [OF w2(2) assms(2)] w2 by (simp add: writes_def flip: w2_def)
    qed
    then show ?thesis using True by (simp add: new_line_def)
  next
    case False
    then show ?thesis using writes_nothing [OF assms(1)] assms(3) by (simp add: new_line_def)
  qed
qed (use json_write_char_ok [OF _ assms(2)] in auto)

text \<open>The value at \<open>p\<close> is printed as \<open>j\<close>.\<close>

definition prints :: "dops \<Rightarrow> heap_env \<Rightarrow> jstore \<Rightarrow> nat \<Rightarrow> json \<Rightarrow> bool" where
  "prints D E st p j \<longleftrightarrow> 0 < p \<and> (\<forall>n w. no_floats j \<longrightarrow> json_fuel j \<le> n \<longrightarrow> writer_ok w \<longrightarrow>
     writes (json_write_value D E st n w p) w (jw_indent w) (json_text (jw_indent_size w) (jw_indent w) j))"

lemma printsD:
  "\<lbrakk>prints D E st p j; no_floats j; json_fuel j \<le> n; writer_ok w\<rbrakk>
    \<Longrightarrow> writes (json_write_value D E st n w p) w (jw_indent w) (json_text (jw_indent_size w) (jw_indent w) j)"
  by (simp add: prints_def)

lemma array_get_next_chain:
  assumes "achain st (e # es) (v # vs)"
  shows "json_array_get_next st arr e = (case vs of [] \<Rightarrow> Inr (0, 0) | v # _ \<Rightarrow> Inr (v, hd0 es))"
  using assms by (cases es; cases vs) (auto simp: json_array_get_next_def deref_def)

lemma write_array_loop_ok:
  assumes alloc: "\<And>n. env_alloc E n"
  shows "\<lbrakk>json_array_get_next st arr it = (case vs of [] \<Rightarrow> Inr (0, 0) | v # _ \<Rightarrow> Inr (v, hd0 es));
    achain st es vs; list_all2 (prints D E st) vs xs; \<forall>x \<in> set xs. no_floats x;
    1 + (\<Sum>x\<leftarrow>xs. json_fuel x + 1) \<le> n; writer_ok w\<rbrakk>
    \<Longrightarrow> writes (write_array_loop D E st n w arr it i) w (jw_indent w)
      (items_at i (new_line (jw_indent_size w) (jw_indent w)) (map (json_text (jw_indent_size w) (jw_indent w)) xs))"
proof (induction es arbitrary: vs xs it i n w)
  case Nil
  then have "vs = []" by (cases vs) auto
  with Nil show ?case
    by (cases n) (auto simp: write_array_loop.simps items_at_simps writes_nothing)
next
  case (Cons e es)
  then obtain v vs' where vs: "vs = v # vs'" by (cases vs) auto
  with Cons.prems(3) obtain x xs' where xs: "xs = x # xs'" "prints D E st v x" "list_all2 (prints D E st) vs' xs'"
    by (auto simp: list_all2_Cons1)
  obtain m where n: "n = Suc m" using Cons.prems(5) by (cases n) auto
  have fuel: "json_fuel x \<le> m" "1 + (\<Sum>x\<leftarrow>xs'. json_fuel x + 1) \<le> m"
    using Cons.prems(5) n xs(1) by auto
  have chain: "achain st es vs'" using Cons.prems(2) vs by simp
  have v: "v \<noteq> 0" using xs(2) by (simp add: prints_def)
  have "writes (and_then (write_separator E w i) (\<lambda>w. and_then (json_write_value D E st m w v)
        (\<lambda>w. write_array_loop D E st m w arr e (i + 1)))) w (jw_indent w)
      (((if i > 0 then [44] else []) @ new_line (jw_indent_size w) (jw_indent w)) @
       json_text (jw_indent_size w) (jw_indent w) x @
       items_at (i + 1) (new_line (jw_indent_size w) (jw_indent w)) (map (json_text (jw_indent_size w) (jw_indent w)) xs'))"
    apply (rule writes_and_then [OF write_separator_ok [OF Cons.prems(6) alloc]])
    apply (rule writes_and_then)
     apply (use printsD [OF xs(2) _ fuel(1)] Cons.prems(4) xs(1) in force)
    using Cons.IH [OF array_get_next_chain [OF Cons.prems(2) [unfolded vs]] chain xs(3) _ fuel(2)]
      Cons.prems(4) xs(1) apply force
    done
  then show ?case
    using Cons.prems(1) v by (simp add: n vs xs(1) write_array_loop.simps [of _ _ _ "Suc m"] items_at_simps)
qed

lemma dict_get_next_chain:
  assumes "dchain st (e # es) (k # ks) (kv # kvs)" "info_at st dict = Inr info"
  shows "json_dict_get_next st dict e = Inr (hd0 ks, hd0 es)"
  using assms by (cases es; cases ks; cases kvs) (auto simp: json_dict_get_next_def deref_def split: prod.splits)

definition entry_text :: "nat \<Rightarrow> nat \<Rightarrow> bytes \<times> json \<Rightarrow> bytes" where
  "entry_text isz ind kx = str_text (fst kx) @ [58, 32] @ json_text isz ind (snd kx)"

lemma entry_text_pair: "entry_text isz ind (k, x) = str_text k @ [58, 32] @ json_text isz ind x"
  by (simp add: entry_text_def)

lemma write_dict_loop_ok:
  assumes alloc: "\<And>n. env_alloc E n" and info: "info_at st dict = Inr info"
  shows "\<lbrakk>json_dict_get_next st dict it = Inr (hd0 ks, hd0 es);
    dchain st es ks (zip (map fst kxs) vs); list_all2 (prints D E st) vs (map snd kxs);
    \<forall>kx \<in> set kxs. no_floats (snd kx) \<and> 0 \<notin> set (fst kx);
    1 + (\<Sum>kx\<leftarrow>kxs. json_fuel (snd kx) + 1) \<le> n; writer_ok w\<rbrakk>
    \<Longrightarrow> writes (write_dict_loop D E st n w dict it i) w (jw_indent w)
      (items_at i (new_line (jw_indent_size w) (jw_indent w)) (map (entry_text (jw_indent_size w) (jw_indent w)) kxs))"
proof (induction es arbitrary: ks kxs vs it i n w)
  case Nil
  have "ks = []" "kxs = []"
    using dchain_length [OF Nil.prems(2)] list_all2_lengthD [OF Nil.prems(3)] by auto
  with Nil show ?case
    by (cases n) (auto simp: write_dict_loop.simps items_at_simps writes_nothing)
next
  case (Cons e es)
  obtain k ks' kv kvs where "ks = k # ks'" and z: "zip (map fst kxs) vs = kv # kvs"
    using Cons.prems(2) by (cases ks; cases "zip (map fst kxs) vs") auto
  then obtain key x kxs' v vs' where kx: "ks = k # ks'" "kxs = (key, x) # kxs'" "vs = v # vs'"
    by (cases kxs; cases vs) auto
  have pr: "prints D E st v x" "list_all2 (prints D E st) vs' (map snd kxs')"
    using Cons.prems(3) kx by auto
  obtain m where n: "n = Suc m" using Cons.prems(5) by (cases n) auto
  have fuel: "json_fuel x \<le> m" "1 + (\<Sum>kx\<leftarrow>kxs'. json_fuel (snd kx) + 1) \<le> m"
    using Cons.prems(5) n kx by auto
  have chain: "dchain st es ks' (zip (map fst kxs') vs')" "0 < k"
      "deref (js_kvs st) k = Inr \<lparr>kv_key = key, kv_value = v\<rparr>"
    using Cons.prems(2) kx by (auto simp: deref_def)
  have ok: "no_floats x" "0 \<notin> set key" "\<forall>kx \<in> set kxs'. no_floats (snd kx) \<and> 0 \<notin> set (fst kx)"
    using Cons.prems(4) kx by auto
  have nx: "json_dict_get_next st dict e = Inr (hd0 ks', hd0 es)"
    using dict_get_next_chain [OF _ info, of e es k ks' "(key, v)" "zip (map fst kxs') vs'"] Cons.prems(2) kx by simp
  let ?ind = "jw_indent w" and ?isz = "jw_indent_size w"
  have "writes (and_then (write_separator E w i) (\<lambda>w. and_then (json_write_str E w key)
        (\<lambda>w. and_then (json_write_char E w 58) (\<lambda>w. and_then (json_write_char E w 32)
        (\<lambda>w. and_then (json_write_value D E st m w v) (\<lambda>w. write_dict_loop D E st m w dict e (i + 1))))))) w ?ind
      (((if i > 0 then [44] else []) @ new_line ?isz ?ind) @ str_text key @ [58] @ [32] @
       json_text ?isz ?ind x @ items_at (i + 1) (new_line ?isz ?ind) (map (entry_text ?isz ?ind) kxs'))"
    apply (rule writes_and_then [OF write_separator_ok [OF Cons.prems(6) alloc]])
    apply (rule writes_and_then, use json_write_str_ok [OF _ alloc ok(2)] in force)
    apply (rule writes_and_then, use json_write_char_ok [OF _ alloc] in force)
    apply (rule writes_and_then, use json_write_char_ok [OF _ alloc] in force)
    apply (rule writes_and_then, use printsD [OF pr(1) ok(1) fuel(1)] in force)
    using Cons.IH [OF nx chain(1) pr(2) ok(3) fuel(2)] by force
  then show ?case
    using Cons.prems(1) chain(2,3)
    by (simp add: n kx write_dict_loop.simps [of _ _ _ "Suc m"] items_at_simps entry_text_pair)
qed

lemma prints_scalar:
  assumes "cell st p tag u" "\<And>n. env_alloc E n"
    and "\<And>n v w. \<lbrakk>0 < p; js_vals st p = Some v; jv_tags v AND JSON_TAGS_MASK = tag; jv_value v = u; writer_ok w\<rbrakk>
      \<Longrightarrow> writes (json_write_value D E st (Suc n) w p) w (jw_indent w) (json_text (jw_indent_size w) (jw_indent w) j)"
    and "1 \<le> json_fuel j"
  shows "prints D E st p j"
  unfolding prints_def
proof (intro conjI allI impI)
  show "0 < p" using assms(1) by (simp add: cell_def)
  fix n w assume "json_fuel j \<le> n" "writer_ok w"
  moreover obtain m where "n = Suc m" using \<open>json_fuel j \<le> n\<close> assms(4) by (cases n) auto
  ultimately show "writes (json_write_value D E st n w p) w (jw_indent w) (json_text (jw_indent_size w) (jw_indent w) j)"
    using assms(1,3) by (auto simp: cell_def tag_is_def)
qed

lemmas write_value_simps = json_write_value.simps [of _ _ _ "Suc _"] val_at_def deref_def u_bool_def u_u64_def
  u_i64_def u_str_def json_tag_values

lemma json_get_next_first:
  assumes "list_at st p tag i es"
  shows "achain st es vs \<Longrightarrow> json_array_get_next st p 0 = (case vs of [] \<Rightarrow> Inr (0, 0) | v # _ \<Rightarrow> Inr (v, hd0 es))"
    and "dchain st es ks kvs \<Longrightarrow> json_dict_get_next st p 0 = Inr (hd0 ks, hd0 es)"
proof -
  obtain t where t: "info_at st p = Inr (i, \<lparr>ji_head = hd0 es, ji_tail = t\<rparr>)" using info_at_list [OF assms] by blast
  show "json_array_get_next st p 0 = (case vs of [] \<Rightarrow> Inr (0, 0) | v # _ \<Rightarrow> Inr (v, hd0 es))" if "achain st es vs"
    using that t by (cases es; cases vs) (auto simp: json_array_get_next_def deref_def)
  show "json_dict_get_next st p 0 = Inr (hd0 ks, hd0 es)" if "dchain st es ks kvs"
    using that t by (cases es; cases ks; cases kvs) (auto simp: json_dict_get_next_def deref_def)
qed

lemma repr_prints:
  assumes alloc: "\<And>n. env_alloc E n"
  shows "repr st p j F \<Longrightarrow> prints D E st p j"
    and "reprs st vs xs F \<Longrightarrow> list_all2 (prints D E st) vs xs"
proof (induction rule: repr_reprs.inducts)
  case (repr_array p i es vs xs F)
  show ?case unfolding prints_def
  proof (intro conjI allI impI)
    show "0 < p" using repr_array(1) by (simp add: list_at_def)
    fix n w assume a: "no_floats (JArray xs)" "json_fuel (JArray xs) \<le> n" and w: "writer_ok w"
    obtain m where n: "n = Suc m" using a by (cases n) auto
    have fuel: "1 + (\<Sum>x\<leftarrow>xs. json_fuel x + 1) \<le> m" using a n by simp
    let ?ind = "jw_indent w" and ?isz = "jw_indent_size w"
    have "json_write_value D E st n w p = json_write_array D E st m w p"
      using repr_array(1) by (auto simp: n write_value_simps list_at_def tag_is_def)
    moreover have "writes (json_write_array D E st m w p) w ?ind
        ([91] @ items_at 0 (new_line ?isz (?ind + ?isz)) (map (json_text ?isz (?ind + ?isz)) xs) @ new_line ?isz ?ind @ [93])"
      unfolding json_write_array.simps
      apply (rule writes_and_then [OF write_opening_ok [OF w alloc]])
      apply (rule writes_and_then)
      using write_array_loop_ok [OF alloc json_get_next_first(1) [OF repr_array(1,2)] repr_array(2,4) _ fuel] a(1)
       apply force
      using write_closing_ok [OF _ alloc] by force
    ultimately show "writes (json_write_value D E st n w p) w ?ind (json_text ?isz ?ind (JArray xs))"
      by (simp add: items_at_0)
  qed
next
  case (repr_dict p i es ks kxs vs F)
  obtain info where info: "info_at st p = Inr info" using info_at_list [OF repr_dict(1)] by blast
  show ?case unfolding prints_def
  proof (intro conjI allI impI)
    show "0 < p" using repr_dict(1) by (simp add: list_at_def)
    fix n w assume a: "no_floats (JDict kxs)" "json_fuel (JDict kxs) \<le> n" and w: "writer_ok w"
    obtain m where n: "n = Suc m" using a by (cases n) auto
    have fuel: "1 + (\<Sum>kx\<leftarrow>kxs. json_fuel (snd kx) + 1) \<le> m" using a n by simp
    have ok: "\<forall>kx \<in> set kxs. no_floats (snd kx) \<and> 0 \<notin> set (fst kx)" using a(1) repr_dict(7) by auto
    let ?ind = "jw_indent w" and ?isz = "jw_indent_size w"
    have "json_write_value D E st n w p = json_write_dict D E st m w p"
      using repr_dict(1) by (auto simp: n write_value_simps list_at_def tag_is_def)
    moreover have "writes (json_write_dict D E st m w p) w ?ind
        ([123] @ items_at 0 (new_line ?isz (?ind + ?isz)) (map (entry_text ?isz (?ind + ?isz)) kxs) @ new_line ?isz ?ind @ [125])"
      unfolding json_write_dict.simps
      apply (rule writes_and_then [OF write_opening_ok [OF w alloc]])
      apply (rule writes_and_then)
      using write_dict_loop_ok [OF alloc info json_get_next_first(2) [OF repr_dict(1,2)] repr_dict(2,4) ok fuel]
       apply force
      using write_closing_ok [OF _ alloc] by force
    ultimately show "writes (json_write_value D E st n w p) w ?ind (json_text ?isz ?ind (JDict kxs))"
      by (simp add: items_at_0 entry_text_def [abs_def])
  qed
next
  case (repr_null p u)
  then show ?case
    by (rule prints_scalar [OF _ alloc]) (auto simp: write_value_simps json_write_literal_ok [OF _ alloc])
next
  case (repr_bool p b)
  then show ?case
    by (rule prints_scalar [OF _ alloc]) (auto simp: write_value_simps json_write_literal_ok [OF _ alloc])
next
  case (repr_u64 p n)
  then show ?case
    by (rule prints_scalar [OF _ alloc]) (auto simp: write_value_simps json_write_u64_ok [OF _ alloc])
next
  case (repr_i64 p n)
  then show ?case
    by (rule prints_scalar [OF _ alloc]) (auto simp: write_value_simps json_write_i64_ok [OF _ alloc])
next
  case (repr_f64 p n)
  then show ?case by (simp add: prints_def cell_def)
next
  case (repr_str p s)
  then show ?case
    by (intro prints_scalar [OF _ alloc]) (auto simp: write_value_simps json_write_str_ok [OF _ alloc])
qed auto

lemma json_write_spec:
  assumes rep: "repr st (js_root st) j F" and alloc: "\<And>n. env_alloc E n"
    and ok: "no_floats j" "json_fuel j \<le> fuel"
  shows "json_write D E fuel st isz = Some (Inr (Some (json_text isz 0 j)))"
proof -
  define w where "w = \<lparr>jw_str = calloc_blk 4096, jw_str_capacity = 4096, jw_str_sz = 0,
    jw_indent_size = isz, jw_indent = 0\<rparr>"
  have "writes (json_write_value D E st fuel w (js_root st)) w 0 (json_text isz 0 j)"
    using printsD [OF repr_prints(1) [OF alloc rep] ok, of w D] by (simp add: w_def writer_ok_def)
  then obtain w' where "json_write_value D E st fuel w (js_root st) = wrote w'" "written w' = written w @ json_text isz 0 j"
    by (auto simp: writes_def)
  then show ?thesis
    using alloc by (simp add: json_write_def Let_def wrote_def written_def flip: w_def) (simp add: w_def)
qed

end
