(* ===== verification/JsonGrammar.thy ===== *)
theory JsonGrammar
  imports JsonSound JsonPrint
begin

text \<open>
  The language of the documents without floating-point numbers and \<^verbatim>\<open>\u\<close> escapes as an
  inductive relation between trees and texts, with white space wherever the format allows it. The
  parser builds the tree of every such text, and the writer's output is one of them: printing and
  parsing give the document back.
\<close>

subsection \<open>The language\<close>

definition json_escapes :: "(u8 \<times> u8) list" where
  "json_escapes = [(34, 34), (92, 92), (47, 47), (98, 8), (102, 12), (110, 10), (114, 13), (116, 9)]"

inductive string_of :: "bytes \<Rightarrow> bytes \<Rightarrow> bool" where
  string_nil: "string_of [] []"
| string_char: "\<lbrakk>0x20 \<le> c; c \<noteq> 34; c \<noteq> 92; string_of t s\<rbrakk> \<Longrightarrow> string_of (c # t) (c # s)"
| string_escape: "\<lbrakk>(e, c) \<in> set json_escapes; string_of t s\<rbrakk> \<Longrightarrow> string_of (92 # e # t) (c # s)"

definition digits :: "bytes \<Rightarrow> bool" where
  "digits ds \<longleftrightarrow> ds \<noteq> [] \<and> (\<forall>c \<in> set ds. 48 \<le> c \<and> c \<le> 57)"

definition num_from :: "int \<Rightarrow> bytes \<Rightarrow> int" where
  "num_from v ds = foldl (\<lambda>v c. v * 10 + (uint c - 48)) v ds"

definition blank :: "bytes \<Rightarrow> bool" where
  "blank w \<longleftrightarrow> (\<forall>c \<in> set w. c = 32 \<or> c = 9 \<or> c = 10 \<or> c = 13)"

inductive json_gram :: "json \<Rightarrow> bytes \<Rightarrow> bool"
  and elements :: "json list \<Rightarrow> bytes \<Rightarrow> bool"
  and members :: "(bytes \<times> json) list \<Rightarrow> bytes \<Rightarrow> bool" where
  gram_null: "json_gram JNull (map of_char ''null'')"
| gram_true: "json_gram (JBool True) (map of_char ''true'')"
| gram_false: "json_gram (JBool False) (map of_char ''false'')"
| gram_u64: "\<lbrakk>digits ds; num_from 0 ds < 2 ^ 63\<rbrakk> \<Longrightarrow> json_gram (JU64 (of_int (num_from 0 ds))) ds"
| gram_i64: "\<lbrakk>digits ds; num_from 0 ds < 2 ^ 63\<rbrakk> \<Longrightarrow> json_gram (JI64 (of_int (- num_from 0 ds))) (45 # ds)"
| gram_str: "\<lbrakk>string_of t s; length s < STRING_BLOCK\<rbrakk> \<Longrightarrow> json_gram (JStr s) (34 # t @ [34])"
| gram_array_empty: "blank w \<Longrightarrow> json_gram (JArray []) (91 # w @ [93])"
| gram_array: "elements xs u \<Longrightarrow> json_gram (JArray xs) (91 # u @ [93])"
| gram_dict_empty: "blank w \<Longrightarrow> json_gram (JDict []) (123 # w @ [125])"
| gram_dict: "members kxs u \<Longrightarrow> json_gram (JDict kxs) (123 # u @ [125])"
| elements_one: "\<lbrakk>blank w; json_gram x t; blank w'\<rbrakk> \<Longrightarrow> elements [x] (w @ t @ w')"
| elements_more: "\<lbrakk>blank w; json_gram x t; blank w'; elements xs u\<rbrakk> \<Longrightarrow> elements (x # xs) (w @ t @ w' @ 44 # u)"
| members_one: "\<lbrakk>blank w; string_of kt k; length k < STRING_BLOCK; blank w1; blank w2; json_gram x t; blank w'\<rbrakk>
    \<Longrightarrow> members [(k, x)] (w @ (34 # kt @ [34]) @ w1 @ 58 # w2 @ t @ w')"
| members_more: "\<lbrakk>blank w; string_of kt k; length k < STRING_BLOCK; blank w1; blank w2; json_gram x t; blank w';
    members kxs u\<rbrakk> \<Longrightarrow> members ((k, x) # kxs) (w @ (34 # kt @ [34]) @ w1 @ 58 # w2 @ t @ w' @ 44 # u)"

subsection \<open>White space, strings and numbers\<close>

lemma skip_blank [simp]: "blank w \<Longrightarrow> json_skip_whitespace (w @ s) = json_skip_whitespace s"
  by (induction w) (auto simp: blank_def json_ws_def)

lemma skip_char: "\<not> json_ws c \<Longrightarrow> json_skip_whitespace (c # s) = c # s"
  by simp

lemma string_of_scan:
  "string_of t s \<Longrightarrow> (\<exists>e. string_scan (t @ 34 # rest) = Some (length t, length s, e)) \<and>
    string_decode (length t) (t @ 34 # rest) = Inr s"
proof (induction rule: string_of.induct)
  case string_nil
  then show ?case by (fastforce simp: string_decode.simps)
next
  case (string_char c t s)
  then show ?case by (auto simp: string_decode.simps [of "Suc _"] not_less)
next
  case (string_escape e c t s)
  then have "e \<noteq> 117" "unescape e = [c]" by (auto simp: json_escapes_def unescape_def)
  with string_escape show ?case by (auto simp: string_decode.simps [of "Suc _"])
qed

lemma json_parse_string_of:
  assumes "string_of t s" "length s < STRING_BLOCK" "0 < js_next st"
  shows "\<exists>p st'. json_parse_string junk (34 # t @ 34 # rest) st = accept (p, rest, st') \<and>
    parsed_str (34 # t @ 34 # rest) st (p, rest, st') s"
proof -
  obtain e where scan: "string_scan (t @ 34 # rest) = Some (length t, length s, e)"
      "string_decode (length t) (t @ 34 # rest) = Inr s"
    using string_of_scan [OF assms(1)] by blast
  from json_parse_string_scan [OF scan assms(3), of junk] assms(2) show ?thesis by simp
qed

text \<open>What may follow a number.\<close>

definition number_end :: "bytes \<Rightarrow> bool" where
  "number_end s \<longleftrightarrow> \<not> digit_at s \<and> \<not> next_is 46 s \<and> \<not> next_is 101 s \<and> \<not> next_is 69 s"

lemma num_from_ge: "digits ds \<or> ds = [] \<Longrightarrow> 0 \<le> v \<Longrightarrow> v \<le> num_from v ds"
proof (induction ds arbitrary: v)
  case (Cons c ds)
  have "48 \<le> uint c" using Cons.prems(1) by (auto simp: digits_def word_le_def)
  then have "v \<le> v * 10 + (uint c - 48)" "0 \<le> v * 10 + (uint c - 48)" using Cons.prems(2) by auto
  moreover have "v * 10 + (uint c - 48) \<le> num_from (v * 10 + (uint c - 48)) ds"
    using Cons.IH Cons.prems calculation(2) by (auto simp: digits_def)
  ultimately show ?case by (simp add: num_from_def)
qed (simp add: num_from_def)

lemma digit_val_ascii: "48 \<le> c \<and> c \<le> 57 \<Longrightarrow> digit_val c = uint c - 48"
  by (auto simp: digit_val_def sint_u8 word_le_def)

lemma number_int_digits:
  "\<lbrakk>\<forall>c \<in> set ds. 48 \<le> c \<and> c \<le> 57; \<not> digit_at rest; 0 \<le> v; num_from v ds < 2 ^ 63\<rbrakk>
    \<Longrightarrow> \<exists>f'. number_int D v f (ds @ rest) = Inr (num_from v ds, f', rest)"
proof (induction ds arbitrary: v f)
  case Nil
  then show ?case by (cases rest) (auto simp: num_from_def digit_at_def)
next
  case (Cons c ds)
  have c: "48 \<le> c \<and> c \<le> 57" using Cons.prems(1) by simp
  define v' where "v' = v * 10 + digit_val c"
  have v': "0 \<le> v'" "num_from v' ds = num_from v (c # ds)"
    using c Cons.prems(3) by (auto simp: v'_def digit_val_ascii num_from_def word_le_def)
  then have "v' \<le> num_from v (c # ds)" using num_from_ge [of ds v'] Cons.prems(1) by (auto simp: digits_def)
  then have "\<not> v' > 2 ^ 63 - 1" using Cons.prems(4) by simp
  then show ?case
    using Cons.IH [of v'] Cons.prems v' c by (simp add: is_digit_iff Let_def flip: v'_def)
qed

lemma number_finish_int:
  assumes "number_end rest"
  shows "number_finish D neg v f rest st =
    (case (if neg then json_i64_new st (of_int (- v)) else json_u64_new st (of_int v)) of
       (p, st') \<Rightarrow> accept (p, rest, st'))"
proof -
  have "number_fraction D f rest = accept (False, f, rest)"
    using assms by (simp add: number_fraction_def number_end_def)
  moreover have "number_exponent rest = accept (False, False, 0, rest)"
    using assms by (cases rest) (auto simp: number_exponent_def number_end_def next_is_def)
  ultimately show ?thesis by (simp add: number_finish_def)
qed

subsection \<open>The parser reads the language\<close>

definition parses :: "dops \<Rightarrow> (nat \<Rightarrow> u64) \<Rightarrow> nat \<Rightarrow> bytes \<Rightarrow> jstore \<Rightarrow> json \<Rightarrow> bytes \<Rightarrow> bool" where
  "parses D junk n s st j rest \<longleftrightarrow> (\<exists>p st' F. json_parse_value D junk n s st = accept (p, rest, st') \<and>
     grows st st' \<and> repr st' p j F \<and> F \<subseteq> {js_next st..<js_next st'})"

definition loops :: "(bytes \<Rightarrow> jstore \<Rightarrow> (nat \<times> bytes \<times> jstore) parse) \<Rightarrow> nat \<Rightarrow> nat \<Rightarrow> bytes \<Rightarrow> jstore \<Rightarrow> json \<Rightarrow> bytes \<Rightarrow> bool" where
  "loops f p b s st j rest \<longleftrightarrow> (\<exists>st' F. f s st = accept (p, rest, st') \<and> agree st st' {..<b} \<and>
     js_next st \<le> js_next st' \<and> repr st' p j F \<and> F \<subseteq> {b..<js_next st'})"

text \<open>The first byte of a value.\<close>

definition value_start :: "bytes \<Rightarrow> bool" where
  "value_start t \<longleftrightarrow> t \<noteq> [] \<and> \<not> json_ws (hd t) \<and> hd t \<noteq> 93 \<and> hd t \<noteq> 125"

lemma value_start_skip: "value_start t \<Longrightarrow> json_skip_whitespace (t @ s) = t @ s"
  by (cases t) (auto simp: value_start_def)

lemma digits_hd: "digits ds \<Longrightarrow> \<exists>c cs. ds = c # cs \<and> 48 \<le> c \<and> c \<le> 57 \<and> c_isdigit c"
  by (cases ds) (auto simp: digits_def c_isdigit_def)

lemma digit_not_special:
  assumes "48 \<le> (c :: u8)" "c \<le> 57"
  shows "c \<noteq> 34" "c \<noteq> 123" "c \<noteq> 91" "c \<noteq> 45" "c \<noteq> 93" "c \<noteq> 125" "\<not> json_ws c"
  using assms by (auto simp: json_ws_def word_le_def)

lemma json_parse_number_digits:
  assumes "digits ds" "num_from 0 ds < 2 ^ 63" "number_end rest"
  shows "json_parse_number D ((if neg then [45] else []) @ ds @ rest) st =
    (case (if neg then json_i64_new st (of_int (- num_from 0 ds)) else json_u64_new st (of_int (num_from 0 ds))) of
       (p, st') \<Rightarrow> accept (p, rest, st'))"
proof -
  obtain c cs where ds: "ds = c # cs" "48 \<le> c" "c \<le> 57" using digits_hd [OF assms(1)] by blast
  have "\<not> digit_at rest" using assms(3) by (simp add: number_end_def)
  then obtain f' where f': "number_int D 0 (d_lit D 0 0) (ds @ rest) = Inr (num_from 0 ds, f', rest)"
    using number_int_digits [of ds rest 0 D "d_lit D 0 0"] assms by (auto simp: digits_def)
  have "digit_at (ds @ rest)" "\<not> next_is 45 (ds @ rest)"
    using ds digit_not_special(4) [OF ds(2,3)] by (simp_all add: digit_at_def is_digit_iff next_is_def)
  moreover have "next_is 45 ([45] @ ds @ rest)" by (simp add: next_is_def)
  ultimately show ?thesis
    using f' by (cases neg) (simp_all add: json_parse_number_def number_finish_int [OF assms(3)])
qed

lemma parses_scalar:
  assumes "\<And>n. json_parse_value D junk (Suc n) s st = (case new of (p, st') \<Rightarrow> accept (p, rest, st'))"
    and "new = new_val st v" "\<And>p st'. new = (p, st') \<Longrightarrow> repr st' p j {p}" "0 < n"
  shows "parses D junk n s st j rest"
proof -
  obtain p st' where new: "new = (p, st')" by (cases new)
  have "json_parse_value D junk n s st = accept (p, rest, st')" using assms(1,4) new by (cases n) auto
  moreover have "grows st st' \<and> p = js_next st \<and> js_next st' = p + 1" using new_val_grows assms(2) new by metis
  ultimately show ?thesis using assms(3) [OF new] by (fastforce simp: parses_def)
qed

lemma parses_number:
  assumes "digits ds" "num_from 0 ds < 2 ^ 63" "number_end rest" "0 < n" "0 < js_next st"
  shows "parses D junk n (ds @ rest) st (JU64 (of_int (num_from 0 ds))) rest"
    and "parses D junk n (45 # ds @ rest) st (JI64 (of_int (- num_from 0 ds))) rest"
proof -
  obtain c cs where ds: "ds = c # cs" "48 \<le> c" "c \<le> 57" "c_isdigit c" using digits_hd [OF assms(1)] by blast
  have eq: "json_parse_value D junk (Suc n) (ds @ rest) st = json_parse_number D (ds @ rest) st" for n
    using ds digit_not_special [OF ds(2,3)] by (simp add: json_parse_value.simps [of _ _ "Suc n"])
  show "parses D junk n (ds @ rest) st (JU64 (of_int (num_from 0 ds))) rest"
    using json_parse_number_digits [OF assms(1-3), of D False st] json_scalar_new_repr(3) [OF assms(5)] assms(4) eq
    by (intro parses_scalar [OF _ json_u64_new_def]) auto
  have eq': "json_parse_value D junk (Suc n) (45 # ds @ rest) st = json_parse_number D (45 # ds @ rest) st" for n
    by (simp add: json_parse_value.simps [of _ _ "Suc n"] json_ws_def)
  show "parses D junk n (45 # ds @ rest) st (JI64 (of_int (- num_from 0 ds))) rest"
    using json_parse_number_digits [OF assms(1-3), of D True st] json_scalar_new_repr(4) [OF assms(5)] assms(4) eq'
    by (intro parses_scalar [OF _ json_i64_new_def]) auto
qed

lemma parses_literal:
  assumes "0 < n" "0 < js_next st"
  shows "parses D junk n (map of_char ''null'' @ rest) st JNull rest"
    and "parses D junk n (map of_char ''true'' @ rest) st (JBool True) rest"
    and "parses D junk n (map of_char ''false'' @ rest) st (JBool False) rest"
proof -
  note simps = json_parse_value.simps [of _ _ "Suc _"] json_parse_literal_def c_isdigit_def json_ws_def
  show "parses D junk n (map of_char ''null'' @ rest) st JNull rest"
    by (rule parses_scalar [OF _ json_null_new_def]) (use json_scalar_new_repr(1) [OF assms(2)] assms(1) in \<open>auto simp: simps\<close>)
  show "parses D junk n (map of_char ''true'' @ rest) st (JBool True) rest"
    by (rule parses_scalar [OF _ json_bool_new_def [of _ True]]) (use json_scalar_new_repr(2) [OF assms(2)] assms(1) in \<open>auto simp: simps\<close>)
  show "parses D junk n (map of_char ''false'' @ rest) st (JBool False) rest"
    by (rule parses_scalar [OF _ json_bool_new_def [of _ False]]) (use json_scalar_new_repr(2) [OF assms(2)] assms(1) in \<open>auto simp: simps\<close>)
qed

lemma parses_str:
  assumes "string_of t s" "length s < STRING_BLOCK" "0 < n" "0 < js_next st"
  shows "parses D junk n (34 # t @ 34 # rest) st (JStr s) rest"
proof -
  obtain p st' where "json_parse_string junk (34 # t @ 34 # rest) st = accept (p, rest, st')"
      "parsed_str (34 # t @ 34 # rest) st (p, rest, st') s"
    using json_parse_string_of [OF assms(1,2,4)] by blast
  moreover obtain m where "n = Suc m" using assms(3) by (cases n) auto
  moreover have "json_parse_value D junk (Suc m) (34 # t @ 34 # rest) st = json_parse_string junk (34 # t @ 34 # rest) st" for m
    by (simp add: json_parse_value.simps [of _ _ "Suc m"] json_ws_def)
  ultimately show ?thesis by (fastforce simp: parses_def parsed_str_def)
qed

text \<open>An array or a dictionary from the loop that reads its elements.\<close>

lemma parses_list:
  assumes pos: "0 < js_next st" and n: "n = Suc m"
  shows "\<lbrakk>\<And>st p. \<lbrakk>repr st p (JArray []) {p, p + 1}; {p, p + 1} \<subseteq> {b..<js_next st}; b = p\<rbrakk>
      \<Longrightarrow> loops (parse_array_loop D junk m p) p b (json_skip_whitespace s) st j rest;
      \<not> next_is 93 (json_skip_whitespace s); b = js_next st\<rbrakk> \<Longrightarrow> parses D junk n (91 # s) st j rest"
    and "\<lbrakk>\<And>st p. \<lbrakk>repr st p (JDict []) {p, p + 1}; {p, p + 1} \<subseteq> {b..<js_next st}; b = p\<rbrakk>
      \<Longrightarrow> loops (parse_dict_loop D junk m p) p b (json_skip_whitespace s) st j rest;
      \<not> next_is 125 (json_skip_whitespace s); b = js_next st\<rbrakk> \<Longrightarrow> parses D junk n (123 # s) st j rest"
proof -
  have grow: "grows st st2" if "grows st st1" "agree st1 st2 {..<js_next st}" "js_next st1 \<le> js_next st2" for st1 st2
    using that by (auto simp: grows_def intro: agree_trans)
  show "parses D junk n (91 # s) st j rest"
    if loop: "\<And>st p. \<lbrakk>repr st p (JArray []) {p, p + 1}; {p, p + 1} \<subseteq> {b..<js_next st}; b = p\<rbrakk>
      \<Longrightarrow> loops (parse_array_loop D junk m p) p b (json_skip_whitespace s) st j rest"
      and "\<not> next_is 93 (json_skip_whitespace s)" "b = js_next st"
  proof -
    obtain p st1 where a: "json_array_new st = (p, st1)" by (cases "json_array_new st")
    note r = json_array_new_repr [OF a pos]
    then have "loops (parse_array_loop D junk m p) p b (json_skip_whitespace s) st1 j rest"
      using loop [of st1 p] that(3) by auto
    moreover have "json_parse_value D junk n (91 # s) st = parse_array_loop D junk m p (json_skip_whitespace s) st1"
      using a that(2) by (simp add: n json_parse_value.simps [of _ _ "Suc m"] json_parse_array.simps json_ws_def Let_def)
    ultimately show ?thesis using r grow that(3) by (auto simp: loops_def parses_def)
  qed
  show "parses D junk n (123 # s) st j rest"
    if loop: "\<And>st p. \<lbrakk>repr st p (JDict []) {p, p + 1}; {p, p + 1} \<subseteq> {b..<js_next st}; b = p\<rbrakk>
      \<Longrightarrow> loops (parse_dict_loop D junk m p) p b (json_skip_whitespace s) st j rest"
      and "\<not> next_is 125 (json_skip_whitespace s)" "b = js_next st"
  proof -
    obtain p st1 where a: "json_dict_new st = (p, st1)" by (cases "json_dict_new st")
    note r = json_dict_new_repr [OF a pos]
    then have "loops (parse_dict_loop D junk m p) p b (json_skip_whitespace s) st1 j rest"
      using loop [of st1 p] that(3) by auto
    moreover have "json_parse_value D junk n (123 # s) st = parse_dict_loop D junk m p (json_skip_whitespace s) st1"
      using a that(2) by (simp add: n json_parse_value.simps [of _ _ "Suc m"] parse_dict.simps json_ws_def Let_def)
    ultimately show ?thesis using r grow that(3) by (auto simp: loops_def parses_def)
  qed
qed

lemma parses_empty:
  assumes "blank w" "0 < js_next st" "0 < n"
  shows "parses D junk n (91 # w @ 93 # rest) st (JArray []) rest"
    and "parses D junk n (123 # w @ 125 # rest) st (JDict []) rest"
proof -
  obtain m where n: "n = Suc m" using assms(3) by (cases n) auto
  obtain p st1 q st2 where a: "json_array_new st = (p, st1)" "json_dict_new st = (q, st2)"
    by (cases "json_array_new st"; cases "json_dict_new st") auto
  have "json_parse_value D junk n (91 # w @ 93 # rest) st = accept (p, rest, st1)"
    using a assms(1) by (simp add: n json_parse_value.simps [of _ _ "Suc m"] json_parse_array.simps json_ws_def next_is_def)
  then show "parses D junk n (91 # w @ 93 # rest) st (JArray []) rest"
    using json_array_new_repr [OF a(1) assms(2)] by (fastforce simp: parses_def)
  have "json_parse_value D junk n (123 # w @ 125 # rest) st = accept (q, rest, st2)"
    using a assms(1) by (simp add: n json_parse_value.simps [of _ _ "Suc m"] parse_dict.simps json_ws_def next_is_def)
  then show "parses D junk n (123 # w @ 125 # rest) st (JDict []) rest"
    using json_dict_new_repr [OF a(2) assms(2)] by (fastforce simp: parses_def)
qed

lemma loops_later:
  "\<lbrakk>loops f p b s1 st1 j rest; agree st st1 {..<b}; js_next st \<le> js_next st1; g s st = f s1 st1\<rbrakk> \<Longrightarrow> loops g p b s st j rest"
  by (fastforce simp: loops_def intro: agree_trans)

lemma array_loop_step:
  assumes parse: "parses D junk m s st j s1" and s: "s \<noteq> []"
    and F: "repr st p (JArray ys) F" "F \<subseteq> {b..<js_next st}"
  shows "json_skip_whitespace s1 = 93 # s2 \<Longrightarrow> loops (parse_array_loop D junk (Suc m) p) p b s st (JArray (ys @ [j])) s2"
    and "\<lbrakk>json_skip_whitespace s1 = 44 # s2;
      \<And>st F. \<lbrakk>repr st p (JArray (ys @ [j])) F; F \<subseteq> {b..<js_next st}\<rbrakk>
        \<Longrightarrow> loops (parse_array_loop D junk m p) p b (json_skip_whitespace s2) st J rest\<rbrakk>
      \<Longrightarrow> loops (parse_array_loop D junk (Suc m) p) p b s st J rest"
proof -
  obtain e st1 G where 1: "json_parse_value D junk m s st = accept (e, s1, st1)" "grows st st1" "repr st1 e j G"
      "G \<subseteq> {js_next st..<js_next st1}" using parse by (auto simp: parses_def)
  obtain st2 H where 2: "json_array_append st1 p e True = Inr st2" "repr st2 p (JArray (ys @ [j])) H"
      "H \<subseteq> {b..<js_next st2}" "agree st st2 {..<b}" "js_next st \<le> js_next st2"
    using array_append_step [OF F 1(2-4)] by blast
  note simps = parse_array_loop.simps [of _ _ "Suc m"] s 1(1) 2(1)
  show "json_skip_whitespace s1 = 93 # s2 \<Longrightarrow> loops (parse_array_loop D junk (Suc m) p) p b s st (JArray (ys @ [j])) s2"
    using 2(2-5) by (auto simp: loops_def simps)
  assume "json_skip_whitespace s1 = 44 # s2"
    and "\<And>st F. \<lbrakk>repr st p (JArray (ys @ [j])) F; F \<subseteq> {b..<js_next st}\<rbrakk>
        \<Longrightarrow> loops (parse_array_loop D junk m p) p b (json_skip_whitespace s2) st J rest"
  then show "loops (parse_array_loop D junk (Suc m) p) p b s st J rest"
    by (intro loops_later [OF _ 2(4,5)]) (use 2(2,3) in \<open>auto simp: simps\<close>)
qed

lemma dict_loop_step:
  assumes key: "string_of kt k" "length k < STRING_BLOCK"
    and w: "blank w1" "blank w2" and parse: "\<And>st. 0 < js_next st \<Longrightarrow> parses D junk m t st j s1" and t: "json_skip_whitespace t = t"
    and F: "repr st p (JDict ys) F" "F \<subseteq> {b..<js_next st}" "0 < b" and s: "s = 34 # kt @ 34 # w1 @ 58 # w2 @ t"
  shows "json_skip_whitespace s1 = 125 # s2 \<Longrightarrow> loops (parse_dict_loop D junk (Suc m) p) p b s st (JDict (ys @ [(k, j)])) s2"
    and "\<lbrakk>json_skip_whitespace s1 = 44 # s2;
      \<And>st F. \<lbrakk>repr st p (JDict (ys @ [(k, j)])) F; F \<subseteq> {b..<js_next st}\<rbrakk>
        \<Longrightarrow> loops (parse_dict_loop D junk m p) p b (json_skip_whitespace s2) st J rest\<rbrakk>
      \<Longrightarrow> loops (parse_dict_loop D junk (Suc m) p) p b s st J rest"
proof -
  have pos: "0 < js_next st" using repr_pos [OF F(1)] F(2,3) by auto
  obtain q st1 where str: "json_parse_string junk s st = accept (q, w1 @ 58 # w2 @ t, st1)"
      "parsed_str s st (q, w1 @ 58 # w2 @ t, st1) k"
    using json_parse_string_of [OF key pos] s by blast
  then have st1: "grows st st1" "json_str_get st1 q = Inr (Some k)" "0 \<notin> set k" "0 < js_next st1"
    using pos by (auto simp: parsed_str_def)
  obtain e st2 G where 1: "json_parse_value D junk m t st1 = accept (e, s1, st2)" "grows st1 st2" "repr st2 e j G"
      "G \<subseteq> {js_next st1..<js_next st2}" using parse [OF st1(4)] by (auto simp: parses_def)
  have G: "grows st st2" "G \<subseteq> {js_next st..<js_next st2}"
    using grows_trans [OF st1(1) 1(2)] 1(4) st1(1) by (auto simp: grows_def)
  obtain st3 H where 2: "json_dict_append st2 p k e True = Inr st3" "repr st3 p (JDict (ys @ [(k, j)])) H"
      "H \<subseteq> {b..<js_next st3}" "agree st st3 {..<b}" "js_next st \<le> js_next st3"
    using dict_append_step [OF F(1,2) G(1) 1(3) G(2) st1(3) key(2)] by blast
  have skip: "json_skip_whitespace s = s" "next_is 34 s" "s \<noteq> []" by (simp_all add: s json_ws_def next_is_def)
  have "json_skip_whitespace (w1 @ 58 # w2 @ t) = 58 # w2 @ t" "json_skip_whitespace (w2 @ t) = t"
    using w t by (simp_all add: json_ws_def)
  then have eq: "parse_dict_loop D junk (Suc m) p s st = (case json_skip_whitespace s1 of [] \<Rightarrow> reject JsonNoError
      | c # s \<Rightarrow> if c = 44 then parse_dict_loop D junk m p (json_skip_whitespace s) st3
          else if c = 125 then accept (p, s, st3) else reject JsonNoError)"
    by (simp add: parse_dict_loop_Suc skip str(1) st1(2) dict_value_def 1(1) 2(1))
  show "json_skip_whitespace s1 = 125 # s2 \<Longrightarrow> loops (parse_dict_loop D junk (Suc m) p) p b s st (JDict (ys @ [(k, j)])) s2"
    using 2(2-5) by (auto simp: loops_def eq)
  assume "json_skip_whitespace s1 = 44 # s2"
    and "\<And>st F. \<lbrakk>repr st p (JDict (ys @ [(k, j)])) F; F \<subseteq> {b..<js_next st}\<rbrakk>
        \<Longrightarrow> loops (parse_dict_loop D junk m p) p b (json_skip_whitespace s2) st J rest"
  then show "loops (parse_dict_loop D junk (Suc m) p) p b s st J rest"
    by (intro loops_later [OF _ 2(4,5)]) (use 2(2,3) in \<open>auto simp: eq\<close>)
qed

lemma gram_value_start: "json_gram j t \<Longrightarrow> value_start t"
  by (erule json_gram.cases)
    (auto simp: value_start_def json_ws_def dest!: digits_hd dest: digit_not_special)

lemma number_end_after: "blank w \<Longrightarrow> c \<in> {44, 93, 125} \<Longrightarrow> number_end (w @ c # s)"
  by (cases w) (auto simp: number_end_def blank_def digit_at_def next_is_def is_digit_iff)

lemma value_start_next: "value_start t \<Longrightarrow> \<not> next_is 93 (t @ s)"
  by (cases t) (auto simp: value_start_def next_is_def)

lemma elements_start: "elements xs u \<Longrightarrow> \<not> next_is 93 (json_skip_whitespace (u @ s))"
  by (erule elements.cases) (simp_all add: value_start_skip value_start_next gram_value_start)

lemma members_start: "members kxs u \<Longrightarrow> \<not> next_is 125 (json_skip_whitespace (u @ s))"
  by (erule members.cases) (auto simp: json_ws_def next_is_def)

lemma gram_parses:
  "json_gram j t \<Longrightarrow> (\<And>n st rest. \<lbrakk>2 * length t + 1 \<le> n; 0 < js_next st; number_end rest\<rbrakk>
      \<Longrightarrow> parses D junk n (t @ rest) st j rest)"
  "elements xs u \<Longrightarrow> (\<And>n p b st rest ys F. \<lbrakk>2 * length u + 2 \<le> n; 0 < b; repr st p (JArray ys) F; F \<subseteq> {b..<js_next st}\<rbrakk>
      \<Longrightarrow> loops (parse_array_loop D junk n p) p b (json_skip_whitespace (u @ 93 # rest)) st (JArray (ys @ xs)) rest)"
  "members kxs u \<Longrightarrow> (\<And>n p b st rest ys F. \<lbrakk>2 * length u + 2 \<le> n; 0 < b; repr st p (JDict ys) F; F \<subseteq> {b..<js_next st}\<rbrakk>
      \<Longrightarrow> loops (parse_dict_loop D junk n p) p b (json_skip_whitespace (u @ 125 # rest)) st (JDict (ys @ kxs)) rest)"
proof (induction rule: json_gram_elements_members.inducts)
  case gram_null
  then show ?case using parses_literal(1) by simp
next
  case gram_true
  then show ?case using parses_literal(2) by simp
next
  case gram_false
  then show ?case using parses_literal(3) by simp
next
  case (gram_u64 ds)
  then show ?case using parses_number(1) by simp
next
  case (gram_i64 ds)
  then show ?case using parses_number(2) by simp
next
  case (gram_str t s)
  then show ?case using parses_str by simp
next
  case (gram_array_empty w)
  then show ?case using parses_empty(1) by simp
next
  case (gram_dict_empty w)
  then show ?case using parses_empty(2) by simp
next
  case (gram_array xs u)
  obtain m where n: "n = Suc m" "2 * length u + 2 \<le> m" using gram_array.prems(1) by (cases n) auto
  have "parses D junk n (91 # u @ 93 # rest) st (JArray xs) rest"
    by (rule parses_list(1) [OF gram_array.prems(2) n(1) _ elements_start [OF gram_array.hyps] refl])
      (use gram_array.IH [OF n(2), where ys = "[]"] gram_array.prems(2) in auto)
  then show ?case by simp
next
  case (gram_dict kxs u)
  obtain m where n: "n = Suc m" "2 * length u + 2 \<le> m" using gram_dict.prems(1) by (cases n) auto
  have "parses D junk n (123 # u @ 125 # rest) st (JDict kxs) rest"
    by (rule parses_list(2) [OF gram_dict.prems(2) n(1) _ members_start [OF gram_dict.hyps] refl])
      (use gram_dict.IH [OF n(2), where ys = "[]"] gram_dict.prems(2) in auto)
  then show ?case by simp
next
  case (elements_one w x t w')
  note start = gram_value_start [OF elements_one.hyps(2)]
  obtain m where n: "n = Suc m" "2 * length t + 1 \<le> m" using elements_one.prems(1) by (cases n) auto
  have pos: "0 < js_next st" using repr_pos elements_one.prems by fastforce
  have "parses D junk m (t @ w' @ 93 # rest) st x (w' @ 93 # rest)"
    by (rule elements_one.IH [OF n(2) pos]) (use elements_one.hyps in \<open>simp add: number_end_after\<close>)
  from array_loop_step(1) [OF this _ elements_one.prems(3,4)] show ?case
    using elements_one.hyps start by (simp add: n(1) value_start_skip json_ws_def)
next
  case (elements_more w x t w' xs u)
  note start = gram_value_start [OF elements_more.hyps(2)]
  obtain m where n: "n = Suc m" "2 * length t + 1 \<le> m" "2 * length u + 2 \<le> m"
    using elements_more.prems(1) by (cases n) auto
  have pos: "0 < js_next st" using repr_pos elements_more.prems by fastforce
  have p: "parses D junk m (t @ w' @ 44 # u @ 93 # rest) st x (w' @ 44 # u @ 93 # rest)"
    by (rule elements_more.IH(1) [OF n(2) pos]) (use elements_more.hyps in \<open>simp add: number_end_after\<close>)
  have "loops (parse_array_loop D junk (Suc m) p) p b (t @ w' @ 44 # u @ 93 # rest) st (JArray (ys @ x # xs)) rest"
  proof (rule array_loop_step(2) [OF p _ elements_more.prems(3,4)])
    show "json_skip_whitespace (w' @ 44 # u @ 93 # rest) = 44 # u @ 93 # rest"
      using elements_more.hyps(3) by (simp add: json_ws_def)
  qed (use elements_more.IH(2) [OF n(3) elements_more.prems(2), where ys = "ys @ [x]"] in auto)
  then show ?case using elements_more.hyps start by (simp add: n(1) value_start_skip)
next
  case (members_one w kt k w1 w2 x t w')
  note start = gram_value_start [OF members_one.hyps(6)]
  obtain m where n: "n = Suc m" "2 * length t + 1 \<le> m" using members_one.prems(1) by (cases n) auto
  have p: "parses D junk m (t @ w' @ 125 # rest) st x (w' @ 125 # rest)" if "0 < js_next st" for st
    by (rule members_one.IH [OF n(2) that]) (use members_one.hyps in \<open>simp add: number_end_after\<close>)
  from dict_loop_step(1) [OF members_one.hyps(2-5) p value_start_skip [OF start] members_one.prems(3,4,2) refl]
  show ?case using members_one.hyps by (simp add: n(1) json_ws_def)
next
  case (members_more w kt k w1 w2 x t w' kxs u)
  note start = gram_value_start [OF members_more.hyps(6)]
  obtain m where n: "n = Suc m" "2 * length t + 1 \<le> m" "2 * length u + 2 \<le> m"
    using members_more.prems(1) by (cases n) auto
  have p: "parses D junk m (t @ w' @ 44 # u @ 125 # rest) st x (w' @ 44 # u @ 125 # rest)" if "0 < js_next st" for st
    by (rule members_more.IH(1) [OF n(2) that]) (use members_more.hyps in \<open>simp add: number_end_after\<close>)
  have "loops (parse_dict_loop D junk (Suc m) p) p b (34 # kt @ 34 # w1 @ 58 # w2 @ t @ w' @ 44 # u @ 125 # rest) st
      (JDict (ys @ (k, x) # kxs)) rest"
  proof (rule dict_loop_step(2) [OF members_more.hyps(2-5) p value_start_skip [OF start] members_more.prems(3,4,2) refl])
    show "json_skip_whitespace (w' @ 44 # u @ 125 # rest) = 44 # u @ 125 # rest"
      using members_more.hyps(7) by (simp add: json_ws_def)
  qed (use members_more.IH(2) [OF n(3) members_more.prems(2), where ys = "ys @ [(k, x)]"] in auto)
  then show ?case using members_more.hyps by (simp add: n(1) json_ws_def)
qed

lemma json_parse_gram:
  assumes "blank w" "json_gram j t" "blank w'"
  shows "\<exists>st F. json_parse D junk (w @ t @ w') = accept st \<and> repr st (js_root st) j F \<and> F \<subseteq> {..<js_next st}"
proof -
  note start = gram_value_start [OF assms(2)]
  define n where "n = 2 * length (w @ t @ w') + 1"
  have "number_end w'"
    using assms(3) by (cases w') (auto simp: number_end_def blank_def digit_at_def next_is_def is_digit_iff)
  then have "parses D junk n (t @ w') json_new j w'"
    by (intro gram_parses(1) [OF assms(2)]) (simp_all add: n_def json_new_def)
  moreover have "json_parse_value D junk n (w @ t @ w') json_new = json_parse_value D junk n (t @ w') json_new"
    using assms(1) start by (simp add: n_def json_parse_value.simps [of _ _ "Suc _"] value_start_skip)
  ultimately obtain p st F where *: "json_parse_value D junk n (w @ t @ w') json_new = accept (p, w', st)"
      "repr st p j F" "F \<subseteq> {js_next json_new..<js_next st}" by (auto simp: parses_def)
  have "repr (json_set_root st p) p j F"
    by (rule repr_frame(1) [OF *(2)]) (simp add: agree_def json_set_root_def)
  moreover have "json_parse D junk (w @ t @ w') = accept (json_set_root st p)"
  proof -
    have "json_skip_whitespace w' = []" using skip_blank [OF assms(3), of "[]"] by simp
    moreover have "w @ t @ w' \<noteq> []" using start by (simp add: value_start_def)
    ultimately show ?thesis using *(1) by (simp add: json_parse_def n_def)
  qed
  moreover have "F \<subseteq> {..<js_next st}" using *(3) by auto
  ultimately show ?thesis by (auto simp: json_set_root_def)
qed

subsection \<open>Printed documents\<close>

definition printable_char :: "u8 \<Rightarrow> bool" where
  "printable_char c \<longleftrightarrow> 0x20 \<le> c \<or> c \<in> {8, 9, 10, 12, 13}"

definition printable_str :: "bytes \<Rightarrow> bool" where
  "printable_str s \<longleftrightarrow> (\<forall>c \<in> set s. printable_char c) \<and> length s < STRING_BLOCK"

text \<open>
  The documents that survive printing and parsing: unsigned numbers below 2^63, signed ones that are
  negative and not the least, strings without other control characters.
\<close>

fun printable :: "json \<Rightarrow> bool" where
  "printable (JU64 n) \<longleftrightarrow> unat n < 2 ^ 63"
| "printable (JI64 n) \<longleftrightarrow> - (2 ^ 63) < sint n \<and> sint n < 0"
| "printable (JF64 n) \<longleftrightarrow> False"
| "printable (JStr s) \<longleftrightarrow> printable_str s"
| "printable (JArray xs) \<longleftrightarrow> (\<forall>x \<in> set xs. printable x)"
| "printable (JDict kxs) \<longleftrightarrow> (\<forall>kx \<in> set kxs. printable_str (fst kx) \<and> printable (snd kx))"
| "printable _ \<longleftrightarrow> True"

lemma printable_no_floats: "printable j \<Longrightarrow> no_floats j"
  by (induction j rule: printable.induct) auto

lemma dec_digits: "digits (dec n) \<and> num_from v (dec n) = v * 10 ^ length (dec n) + int n"
proof (induction n arbitrary: v rule: dec.induct)
  case (1 n)
  have d: "48 \<le> (of_nat (48 + k) :: u8) \<and> (of_nat (48 + k) :: u8) \<le> 57 \<and> uint (of_nat (48 + k) :: u8) = 48 + int k"
    if "k < 10" for k
  proof -
    have "unat (of_nat (48 + k) :: u8) = 48 + k" using that by (simp only: unat_of_nat) (simp add: take_bit_nat_eq_self)
    then show ?thesis using that by (simp add: word_le_nat_alt uint_nat del: of_nat_add)
  qed
  show ?case
  proof (cases "n < 10")
    case True
    then show ?thesis using d [of n] by (subst (1 2 3) dec.simps) (simp add: digits_def num_from_def)
  next
    case False
    have "num_from v (dec n) = (v * 10 ^ length (dec (n div 10)) + int (n div 10)) * 10 + int (n mod 10)"
      using "1.IH" [OF False, of v] d [of "n mod 10"] False
      by (subst dec.simps) (simp add: num_from_def)
    also have "\<dots> = v * 10 ^ length (dec n) + int n"
    proof -
      have "length (dec n) = Suc (length (dec (n div 10)))" using False by (subst dec.simps) simp
      moreover have "int n = int (n div 10) * 10 + int (n mod 10)" by presburger
      ultimately show ?thesis by (simp add: algebra_simps)
    qed
    finally show ?thesis
      using "1.IH" [OF False, of v] d [of "n mod 10"] False by (subst (1) dec.simps) (auto simp: digits_def)
  qed
qed

lemma blank_new_line: "blank (new_line isz ind)"
  by (auto simp: blank_def new_line_def)

lemma string_of_written: "\<forall>c \<in> set s. printable_char c \<Longrightarrow> string_of (concat (map written_char s)) s"
proof (induction s)
  case Nil
  then show ?case by (simp add: string_nil)
next
  case (Cons c s)
  have IH: "string_of (concat (map written_char s)) s" using Cons by simp
  show ?case
  proof (cases "json_char_is_escaped c \<and> c \<noteq> 39")
    case True
    then have "written_char c = [92, json_escaped_to_char c]" by (simp add: written_char_def)
    moreover have "(json_escaped_to_char c, c) \<in> set json_escapes"
      using True Cons.prems
      by (auto simp: json_char_is_escaped_def json_escaped_to_char_def json_escapes_def printable_char_def)
    ultimately show ?thesis using string_escape [OF _ IH] by simp
  next
    case False
    then have "written_char c = [c]" by (auto simp: written_char_def json_escaped_to_char_def)
    moreover have "0x20 \<le> c" "c \<noteq> 34" "c \<noteq> 92"
      using False Cons.prems by (auto simp: json_char_is_escaped_def printable_char_def)
    ultimately show ?thesis using string_char [OF _ _ _ IH] by simp
  qed
qed

lemma gram_str_text: "printable_str s \<Longrightarrow> json_gram (JStr s) (str_text s)"
  using gram_str [OF string_of_written] by (auto simp: printable_str_def str_text_def)

lemma items_Cons2: "items pre (t # t' # ts) = pre @ t @ 44 # items pre (t' # ts)"
  by (simp add: items_def)

lemma elements_items:
  "\<lbrakk>xs \<noteq> []; blank pre; blank post; \<forall>x \<in> set xs. json_gram x (f x)\<rbrakk> \<Longrightarrow> elements xs (items pre (map f xs) @ post)"
proof (induction xs)
  case (Cons x xs)
  show ?case
  proof (cases xs)
    case Nil
    then show ?thesis using elements_one [of pre x "f x" post] Cons.prems by (simp add: items_def)
  next
    case (Cons y ys)
    then have "elements xs (items pre (map f xs) @ post)" using Cons.IH Cons.prems by simp
    then show ?thesis
      using elements_more [of pre x "f x" "[]" xs] Cons.prems Cons by (simp add: items_Cons2 blank_def)
  qed
qed simp

lemma members_items:
  "\<lbrakk>kxs \<noteq> []; blank pre; blank post; \<forall>kx \<in> set kxs. printable_str (fst kx) \<and> json_gram (snd kx) (f (snd kx))\<rbrakk>
    \<Longrightarrow> members kxs (items pre (map (\<lambda>kx. str_text (fst kx) @ [58, 32] @ f (snd kx)) kxs) @ post)"
proof (induction kxs)
  case (Cons kx kxs)
  obtain k x where kx: "kx = (k, x)" by (cases kx)
  have k: "string_of (concat (map written_char k)) k" "length k < STRING_BLOCK" "json_gram x (f x)"
    using Cons.prems kx by (auto simp: printable_str_def intro: string_of_written)
  have b: "blank [32]" "blank []" by (simp_all add: blank_def)
  show ?case
  proof (cases kxs)
    case Nil
    then show ?thesis
      using members_one [OF Cons.prems(2) k(1,2) b(2,1) k(3) Cons.prems(3)] kx by (simp add: items_def str_text_def)
  next
    case (Cons y ys)
    then have "members kxs (items pre (map (\<lambda>kx. str_text (fst kx) @ [58, 32] @ f (snd kx)) kxs) @ post)"
      using Cons.IH Cons.prems by simp
    then show ?thesis
      using members_more [OF Cons.prems(2) k(1,2) b(2,1) k(3) b(2)] kx Cons by (simp add: items_Cons2 str_text_def)
  qed
qed simp

lemma gram_json_text: "printable j \<Longrightarrow> json_gram j (json_text isz ind j)"
proof (induction j arbitrary: ind)
  case (JBool b)
  then show ?case by (simp add: gram_true [simplified] gram_false [simplified])
next
  case (JU64 n)
  have "of_int (num_from 0 (dec (unat n))) = n" using dec_digits [of "unat n" 0] by simp
  moreover have "int (unat n) < int (2 ^ 63)" using JU64 by (simp only: printable.simps of_nat_less_iff)
  then have "num_from 0 (dec (unat n)) < 2 ^ 63" using dec_digits [of "unat n" 0] by simp
  ultimately show ?case using gram_u64 [of "dec (unat n)"] dec_digits [of "unat n" 0] by simp
next
  case (JI64 n)
  define k where "k = nat (- sint n)"
  have "of_int (- num_from 0 (dec k)) = n" using dec_digits [of k 0] JI64 by (simp add: k_def)
  moreover have "num_from 0 (dec k) < 2 ^ 63" using dec_digits [of k 0] JI64 by (simp add: k_def)
  ultimately show ?case
    using gram_i64 [of "dec k"] dec_digits [of k 0] JI64 by (simp add: dec_i64_def k_def)
next
  case (JArray xs)
  then have "\<forall>x \<in> set xs. json_gram x (json_text isz (ind + isz) x)" by simp
  then show ?case
    using gram_array [OF elements_items [OF _ blank_new_line blank_new_line]] gram_array_empty [OF blank_new_line]
    by (cases "xs = []") (auto simp: items_def)
next
  case (JDict kxs)
  have "\<forall>kx \<in> set kxs. printable_str (fst kx) \<and> json_gram (snd kx) (json_text isz (ind + isz) (snd kx))"
  proof
    fix kx assume kx: "kx \<in> set kxs"
    then have "printable (snd kx)" "printable_str (fst kx)" using JDict.prems by auto
    moreover have "snd kx \<in> Basic_BNFs.snds kx" by (simp add: snds.intros)
    ultimately show "printable_str (fst kx) \<and> json_gram (snd kx) (json_text isz (ind + isz) (snd kx))"
      using JDict.IH [OF kx] by blast
  qed
  then show ?case
    using gram_dict [OF members_items [OF _ blank_new_line blank_new_line]] gram_dict_empty [OF blank_new_line]
    by (cases "kxs = []") (auto simp: items_def)
qed (auto simp: gram_str_text intro: gram_null [simplified])

lemma number_int_overflow:
  "\<lbrakk>\<forall>c \<in> set ds. 48 \<le> c \<and> c \<le> 57; 0 \<le> v; v < 2 ^ 63; 2 ^ 63 \<le> num_from v ds\<rbrakk>
    \<Longrightarrow> number_int D v f (ds @ rest) = Inl SignedOverflow"
proof (induction ds arbitrary: v f)
  case (Cons c ds)
  have c: "48 \<le> c \<and> c \<le> 57" using Cons.prems(1) by simp
  define v' where "v' = v * 10 + digit_val c"
  have "0 \<le> v'" "num_from v' ds = num_from v (c # ds)"
    using c Cons.prems(2) by (auto simp: v'_def digit_val_ascii num_from_def word_le_def)
  then show ?case
    using Cons.IH [of v'] Cons.prems c by (simp add: is_digit_iff Let_def flip: v'_def)
qed (simp add: num_from_def)

lemma json_parse_number_overflow:
  assumes "digits ds" "2 ^ 63 \<le> num_from 0 ds"
  shows "json_parse D junk ds = ub SignedOverflow"
proof -
  obtain c cs where ds: "ds = c # cs" "48 \<le> c" "c \<le> 57" "c_isdigit c" using digits_hd [OF assms(1)] by blast
  have "number_int D 0 (d_lit D 0 0) (ds @ []) = Inl SignedOverflow"
    using assms by (intro number_int_overflow) (auto simp: digits_def)
  moreover have "digit_at ds" "\<not> next_is 45 ds"
    using ds digit_not_special(4) [OF ds(2,3)] by (simp_all add: digit_at_def is_digit_iff next_is_def)
  ultimately have "json_parse_number D ds st = ub SignedOverflow" for st by (simp add: json_parse_number_def)
  moreover have "json_parse_value D junk (Suc n) ds st = json_parse_number D ds st" for n st
    using ds digit_not_special [OF ds(2,3)] by (simp add: json_parse_value.simps [of _ _ "Suc n"])
  ultimately show ?thesis using ds(1) by (simp add: json_parse_def)
qed

subsection \<open>Properties\<close>

text \<open>A document used below: \<^verbatim>\<open>{"a": [1, null], "b\n": -5}\<close>.\<close>

definition sample_doc :: json where
  "sample_doc = JDict [([97], JArray [JU64 1, JNull]), ([98, 10], JI64 (- 5))]"

lemma printable_sample: "printable sample_doc"
  by (simp add: sample_doc_def printable_str_def printable_char_def STRING_BLOCK_def)

definition plenty :: heap_env where
  "plenty = \<lparr>env_alloc = (\<lambda>_. True), env_junk = (\<lambda>_. 0)\<rparr>"

lemma json_parse_printed:
  assumes "printable j"
  shows "\<exists>st F. json_parse D junk (json_text isz 0 j) = accept st \<and> repr st (js_root st) j F"
  using json_parse_gram [OF _ gram_json_text [OF assms, of isz 0], of "[]" "[]" D junk] by (auto simp: blank_def)

lemma sample_store: "\<exists>st F. repr st (js_root st) sample_doc F"
  using json_parse_printed [OF printable_sample, of zero_dops "\<lambda>_. 0" 0] by blast

text \<open>
  C12: The parser returns on every input. It never dereferences a null pointer, and a document it
  accepts is well formed: its root stands for a tree, every array and dictionary with its element
  count, its tail pointer and its own cells.
\<close>

theorem json_parse_total_wellformed:
  "json_parse D junk str \<noteq> None \<and> json_parse D junk str \<noteq> ub NullDeref \<and>
    (\<forall>st. json_parse D junk str = accept st \<longrightarrow> (\<exists>j F. repr st (js_root st) j F \<and> F \<subseteq> {..<js_next st}))"
  using json_parse_ok by blast

theorem json_parse_total_wellformed_witness:
  "\<exists>st. json_parse zero_dops (\<lambda>_. 0) (json_text 0 0 sample_doc) = accept st \<and> (\<exists>j F. repr st (js_root st) j F)"
proof -
  obtain st where "json_parse zero_dops (\<lambda>_. 0) (json_text 0 0 sample_doc) = accept st"
    using json_parse_printed [OF printable_sample] by blast
  then show ?thesis using json_parse_total_wellformed [of zero_dops "\<lambda>_. 0" "json_text 0 0 sample_doc"] by blast
qed

text \<open>
  C2: The parser reads the format: for every text of the language, with any white space around and
  inside it, it returns a document whose root stands for the tree of the text.
\<close>

theorem json_parse_complete:
  assumes "blank w" "json_gram j t" "blank w'"
  shows "\<exists>st F. json_parse D junk (w @ t @ w') = accept st \<and> repr st (js_root st) j F \<and> F \<subseteq> {..<js_next st}"
  using assms by (rule json_parse_gram)

theorem json_parse_complete_witness:
  "\<exists>st F. json_parse zero_dops (\<lambda>_. 0) ([32] @ json_text 2 0 sample_doc @ [10]) = accept st \<and>
    repr st (js_root st) sample_doc F"
  using json_parse_complete [OF _ gram_json_text [OF printable_sample, of 2 0], of "[32]" "[10]" zero_dops "\<lambda>_. 0"]
  by (auto simp: blank_def)

text \<open>
  C6: The writer prints every document without floating-point numbers as the text of its tree,
  whatever the indentation: the buffer is never overrun and the fuel of the tree's size is enough.
\<close>

theorem json_write_correct:
  assumes "repr st (js_root st) j F" "\<And>n. env_alloc E n" "no_floats j" "json_fuel j \<le> fuel"
  shows "json_write D E fuel st indent_size = Some (Inr (Some (json_text indent_size 0 j)))"
  using assms by (rule json_write_spec)

theorem json_write_correct_witness:
  "\<exists>st. json_write zero_dops plenty 20 st 2 = Some (Inr (Some (json_text 2 0 sample_doc)))"
proof -
  obtain st F where "repr st (js_root st) sample_doc F" using sample_store by blast
  from json_write_correct [OF this, of plenty 20 zero_dops 2] show ?thesis
    using printable_no_floats [OF printable_sample] by (auto simp: plenty_def sample_doc_def)
qed

text \<open>
  C1: Printing a printable document and parsing the text gives a document that stands for the same tree,
  for every indentation. Printable (\<open>printable\<close>) are the documents without floating-point
  numbers, whose unsigned integers are below 2^63, whose signed ones are negative and not the least,
  and whose strings and keys are shorter than a string block (128 KiB) and without control characters
  other than backspace, tab, newline, form feed and carriage return. For other documents it is false:
  an unsigned integer from 2^63 on is printed but overflows the parser (\<open>json_parse_u64_overflow\<close>), and
  the parser drops or rejects the other control characters.
\<close>

theorem json_roundtrip:
  assumes "repr st (js_root st) j F" "\<And>n. env_alloc E n" "printable j" "json_fuel j \<le> fuel"
  shows "\<exists>text st' F'. json_dumps D E fuel st indent_size = Some (Inr (Some text)) \<and>
    json_loads D junk text = accept st' \<and> repr st' (js_root st') j F'"
proof -
  have "json_dumps D E fuel st indent_size = Some (Inr (Some (json_text indent_size 0 j)))"
    using json_write_spec [OF assms(1,2) printable_no_floats assms(4)] assms(3) by (simp add: json_dumps_def)
  moreover obtain st' F' where "json_parse D junk (json_text indent_size 0 j) = accept st'"
      "repr st' (js_root st') j F'"
    using json_parse_printed [OF assms(3)] by blast
  ultimately show ?thesis by (auto simp: json_loads_def)
qed

theorem json_roundtrip_witness:
  "\<exists>st text st' F'. json_dumps zero_dops plenty 20 st 4 = Some (Inr (Some text)) \<and>
    json_loads zero_dops (\<lambda>_. 0) text = accept st' \<and> repr st' (js_root st') sample_doc F'"
proof -
  obtain st F where "repr st (js_root st) sample_doc F" using sample_store by blast
  from json_roundtrip [OF this _ printable_sample, of plenty 20 zero_dops 4 "\<lambda>_. 0"] show ?thesis
    by (auto simp: plenty_def sample_doc_def)
qed

text \<open>
  An unsigned number of 2^63 or more is printed in full, but reading the text back overflows the
  parser's signed accumulator.
\<close>

theorem json_parse_u64_overflow:
  assumes "2 ^ 63 \<le> unat n"
  shows "json_parse D junk (json_text indent_size 0 (JU64 n)) = ub SignedOverflow"
proof -
  have "int (2 ^ 63) \<le> int (unat n)" using assms by (simp only: of_nat_le_iff)
  then show ?thesis using json_parse_number_overflow dec_digits [of "unat n" 0] by simp
qed

theorem json_parse_u64_overflow_witness:
  "json_parse zero_dops (\<lambda>_. 0) (json_text 0 0 (JU64 (2 ^ 63))) = ub SignedOverflow"
  by (rule json_parse_u64_overflow) simp

text \<open>
  The exponent -23 passes the range test of the table of powers of ten and reads one entry past
  its end.
\<close>

theorem json_parse_exponent_out_of_bounds:
  "json_parse D junk (map of_char ''1e-23'') = ub OutOfBounds"
  by (simp add: json_parse_def json_parse_value.simps json_parse_number_def digit_at_def is_digit_def
      next_is_def c_isdigit_def json_ws_def number_finish_def number_fraction_def number_exponent_def number_scale_def
      pow10_table_def POW10_TABLE_SIZE_def digit_val_def sint_u8 Let_def)

end
