(* ===== verification/JsonApi.thy ===== *)
theory JsonApi
  imports JsonGrammar
begin

text \<open>
  The operations on arrays and dictionaries against the trees they stand for: appending, looking up,
  removing, and the cases in which removal leaves the list in a state the next operation cannot use.
\<close>

subsection \<open>Appending\<close>

lemma printed_store: "printable j \<Longrightarrow> \<exists>st F. repr st (js_root st) j F \<and> F \<subseteq> {..<js_next st}"
  using json_parse_gram [OF _ gram_json_text [of j 0 0], of "[]" "[]" zero_dops "\<lambda>_. 0"] by (auto simp: blank_def)

text \<open>Two documents in one store, apart from each other.\<close>

lemma two_values:
  assumes "printable j"
  shows "\<exists>st p F. repr st p j F \<and> repr st (js_next st - 1) (JU64 n) {js_next st - 1} \<and>
    F \<inter> {js_next st - 1} = {} \<and> F \<union> {js_next st - 1} \<subseteq> {..<js_next st}"
proof -
  obtain st F where F: "repr st (js_root st) j F" "F \<subseteq> {..<js_next st}" using printed_store [OF assms] by blast
  obtain q st' where q: "json_u64_new st n = (q, st')" by (cases "json_u64_new st n")
  have pos: "0 < js_next st" using repr_pos [OF F(1)] F(2) by auto
  have g: "grows st st'" "q = js_next st" "js_next st' = q + 1"
    using new_val_grows q by (auto simp: json_u64_new_def)
  have "repr st' (js_root st) j F" by (rule repr_grows [OF F g(1)])
  moreover have "repr st' q (JU64 n) {q}" using json_scalar_new_repr(3) [OF pos q] .
  ultimately show ?thesis using g F(2) by (intro exI [of _ st'] exI [of _ "js_root st"] exI [of _ F]) auto
qed

text \<open>
  C29: Appending a value to an array, by reference or as a copy, makes the array stand for the longer
  list: the element is linked behind the last one, the tail pointer and the count follow, and no
  cell outside the array changes.
\<close>

theorem json_array_append_correct:
  assumes "repr st p (JArray xs) F" "repr st v x G" "F \<inter> G = {}" "F \<union> G \<subseteq> {..<js_next st}"
  shows "\<exists>st' H. json_array_append st p v reference = Inr st' \<and> repr st' p (JArray (xs @ [x])) H \<and>
    agree st st' ({..<js_next st} - F)"
  using json_array_append_spec [OF assms] by blast

theorem json_array_append_correct_witness:
  "\<exists>st p v st' H. json_array_append st p v False = Inr st' \<and> repr st' p (JArray [JNull, JU64 7]) H"
proof -
  obtain st p F where "repr st p (JArray [JNull]) F" "repr st (js_next st - 1) (JU64 7) {js_next st - 1}"
      "F \<inter> {js_next st - 1} = {}" "F \<union> {js_next st - 1} \<subseteq> {..<js_next st}"
    using two_values [of "JArray [JNull]" 7] by auto
  from json_array_append_correct [OF this, of False] show ?thesis by simp blast
qed

text \<open>
  Appending an entry to a dictionary, by reference or as a copy of the value, makes the
  dictionary stand for the longer list of entries, for every key that fits into a block of the
  string arena.
\<close>

theorem json_dict_append_correct:
  assumes "repr st p (JDict kxs) F" "repr st v x G" "F \<inter> G = {}" "F \<union> G \<subseteq> {..<js_next st}"
    "0 \<notin> set key" "length key < STRING_BLOCK"
  shows "\<exists>st' H. json_dict_append st p key v reference = Inr st' \<and> repr st' p (JDict (kxs @ [(key, x)])) H \<and>
    agree st st' ({..<js_next st} - F)"
  using json_dict_append_spec [OF assms] by blast

theorem json_dict_append_correct_witness:
  "\<exists>st p v st' H. json_dict_append st p [97] v True = Inr st' \<and> repr st' p (JDict [([98], JNull), ([97], JU64 7)]) H"
proof -
  have "printable (JDict [([98], JNull)])" by (simp add: printable_str_def printable_char_def STRING_BLOCK_def)
  then obtain st p F where "repr st p (JDict [([98], JNull)]) F" "repr st (js_next st - 1) (JU64 7) {js_next st - 1}"
      "F \<inter> {js_next st - 1} = {}" "F \<union> {js_next st - 1} \<subseteq> {..<js_next st}"
    using two_values [of _ 7] by blast
  from json_dict_append_correct [OF this, of "[97]" True] show ?thesis by (simp add: STRING_BLOCK_def) blast
qed

subsection \<open>Searching\<close>

lemma dict_search_chain:
  "dchain st es ks kvs \<Longrightarrow>
    \<exists>prev' cur. dict_search st key prev (hd0 es) = Some (Inr (prev', cur)) \<and>
      (case map_of kvs key of None \<Rightarrow> cur = 0
       | Some v \<Rightarrow> 0 < cur \<and> (\<exists>k nx. js_delems st cur = Some \<lparr>de_key_value = k, de_next = nx\<rparr> \<and> 0 < k \<and>
           js_kvs st k = Some \<lparr>kv_key = key, kv_value = v\<rparr>))"
proof (induction st es ks kvs arbitrary: prev rule: dchain.induct)
  case (2 st e es k ks kv kvs)
  show ?case
  proof (cases "fst kv = key")
    case True
    then have "dict_search st key prev (hd0 (e # es)) = Some (Inr (prev, e))"
      using "2.prems" by (subst dict_search.simps) (simp add: deref_def)
    then show ?thesis using "2.prems" True by (cases kv) auto
  next
    case False
    have "dict_search st key prev (hd0 (e # es)) = dict_search st key e (hd0 es)"
      using "2.prems" False by (subst dict_search.simps) (simp add: deref_def)
    then show ?thesis using "2.IH" [of e] "2.prems" False by (cases kv) auto
  qed
qed (auto simp: dict_search.simps)

lemma reprs_map_of:
  "reprs st vs (map snd kxs) F \<Longrightarrow>
    (case map_of (zip (map fst kxs) vs) key of None \<Rightarrow> map_of kxs key = None
     | Some v \<Rightarrow> \<exists>x G. map_of kxs key = Some x \<and> repr st v x G)"
proof (induction kxs arbitrary: vs F)
  case (Cons kx kxs)
  then obtain v vs' G F' where vs: "vs = v # vs'" "repr st v (snd kx) G" "reprs st vs' (map snd kxs) F'"
    by (cases vs) (auto elim: reprs_nilE reprs_consE)
  then show ?case using Cons.IH [OF vs(3)] by (cases kx) (auto split: option.splits)
qed simp

text \<open>
  A lookup in a dictionary returns the value of the first entry with the key, or
  \<^verbatim>\<open>NULL\<close> if no entry has it, and it always ends.
\<close>

theorem json_dict_find_correct:
  assumes "repr st p (JDict kxs) F" "0 \<notin> set key"
  shows "\<exists>v. json_dict_find st p key = Some (Inr v) \<and>
    (case map_of kxs key of None \<Rightarrow> v = 0 | Some x \<Rightarrow> \<exists>G. repr st v x G)"
proof -
  from assms(1) obtain i es ks vs E where
    d: "list_at st p JsonTag_Dict i es" "dchain st es ks (zip (map fst kxs) vs)" "reprs st vs (map snd kxs) E"
    by (auto elim: repr_dictE)
  obtain t where info: "info_at st p = Inr (i, \<lparr>ji_head = hd0 es, ji_tail = t\<rparr>)" using info_at_list [OF d(1)] by blast
  from dict_search_chain [OF d(2), of key 0] reprs_map_of [OF d(3), of key] show ?thesis
    by (cases "map_of (zip (map fst kxs) vs) key")
      (auto simp: json_dict_find_def info c_str_id [OF assms(2)] deref_def)
qed

theorem json_dict_find_correct_witness:
  "\<exists>st p v. json_dict_find st p [98, 10] = Some (Inr v) \<and> (\<exists>G. repr st v (JI64 (- 5)) G)"
proof -
  obtain st F where "repr st (js_root st) sample_doc F" using sample_store by blast
  from json_dict_find_correct [OF this [unfolded sample_doc_def], of "[98, 10]"] show ?thesis by auto
qed

subsection \<open>Removing\<close>

lemma achain_nth:
  "achain st es vs \<longleftrightarrow> length es = length vs \<and>
    (\<forall>k < length es. 0 < es ! k \<and>
       js_aelems st (es ! k) = Some \<lparr>ae_value = vs ! k, ae_next = (if k + 1 < length es then es ! (k + 1) else 0)\<rparr>)"
proof (induction st es vs rule: achain.induct)
  case (2 st e es v vs)
  have "hd0 es = (if 1 < length (e # es) then (e # es) ! 1 else 0)" by (cases es) auto
  then show ?case using "2.IH" by (auto simp: All_less_Suc2)
qed auto

lemma achain_cong: "js_aelems st' = js_aelems st \<Longrightarrow> achain st' es vs = achain st es vs"
  by (simp add: achain_nth)

definition remove_nth :: "nat \<Rightarrow> 'a list \<Rightarrow> 'a list" where
  "remove_nth i xs = take i xs @ drop (Suc i) xs"

lemma remove_nth_simps [simp]:
  "i < length xs \<Longrightarrow> length (remove_nth i xs) = length xs - 1"
  "remove_nth 0 (x # xs) = xs"
  "remove_nth (Suc i) (x # xs) = x # remove_nth i xs"
  by (auto simp: remove_nth_def)

lemma nth_remove_nth: "i < length xs \<Longrightarrow> k < length xs - 1 \<Longrightarrow> remove_nth i xs ! k = (if k < i then xs ! k else xs ! Suc k)"
  by (auto simp: remove_nth_def nth_append min_def)

lemma set_remove_nth: "set (remove_nth i xs) \<subseteq> set xs"
  by (auto simp: remove_nth_def dest: in_set_takeD in_set_dropD)

lemma distinct_remove_nth: "distinct xs \<Longrightarrow> distinct (remove_nth i xs)"
  by (auto simp: remove_nth_def set_take_disj_set_drop_if_distinct)

inductive_simps reprs_simps: "reprs st [] xs F"

lemma reprs_remove:
  "reprs st vs xs F \<Longrightarrow> i < length xs \<Longrightarrow> \<exists>F'. F' \<subseteq> F \<and> reprs st (remove_nth i vs) (remove_nth i xs) F'"
proof (induction vs arbitrary: xs F i)
  case Nil
  then show ?case by (simp add: reprs_simps)
next
  case (Cons v vs)
  from Cons.prems(1) obtain x xs' G H where
    xs: "xs = x # xs'" "F = G \<union> H" "repr st v x G" "reprs st vs xs' H" by (elim reprs_consE)
  show ?case
  proof (cases i)
    case 0
    then show ?thesis using xs(1,2,4) by (intro exI [of _ H]) simp
  next
    case (Suc j)
    then obtain F' where "F' \<subseteq> H" "reprs st (remove_nth j vs) (remove_nth j xs') F'"
      using Cons.IH [OF xs(4), of j] Cons.prems(2) xs(1) by auto
    then have "reprs st (v # remove_nth j vs) (x # remove_nth j xs') (G \<union> F')" by (intro reprs_cons [OF xs(3)])
    then show ?thesis using xs(1,2) Suc \<open>F' \<subseteq> H\<close> by (intro exI [of _ "G \<union> F'"]) (simp add: le_supI2)
  qed
qed

lemma array_pop_walk_chain:
  "\<lbrakk>achain st es vs; i < length es\<rbrakk>
    \<Longrightarrow> array_pop_walk st prev (hd0 es) i = Inr (if i = 0 then prev else es ! (i - 1), es ! i)"
proof (induction i arbitrary: es vs prev)
  case 0
  then show ?case by (cases es; cases vs) (auto simp: deref_def)
next
  case (Suc i)
  then obtain e es' v vs' where e: "es = e # es'" "vs = v # vs'" by (cases es; cases vs) auto
  have "es' \<noteq> []" using Suc.prems(2) e by auto
  then have nz: "hd0 es' \<noteq> 0" using achain_hd0 Suc.prems(1) e by auto
  have "array_pop_walk st prev (hd0 es) (Suc i) = array_pop_walk st e (hd0 es') i"
    using Suc.prems(1) e nz by (simp add: deref_def)
  then show ?case using Suc.IH [of es' vs' e] Suc.prems e by (cases i) auto
qed

text \<open>The list behind the pointers after the removal of element \<open>k\<close>.\<close>

lemma array_size:
  assumes "list_at st p JsonTag_Array i es" "length es < 2 ^ 32"
  shows "\<exists>sz. json_array_get_size st p = Inr sz \<and> unat sz = length es"
  using assms tag_is_test_zero [of _ JsonTag_Array JsonTag_Array]
  by (auto simp: list_at_def json_array_get_size_def val_at_def deref_def sz_is_def)

lemma list_at_update:
  assumes "list_at st p tag i es" "length es = Suc (length es')"
    and "st1 = set_info st2 i \<lparr>ji_head = hd0 es', ji_tail = t\<rparr>" "es' \<noteq> [] \<longrightarrow> t = last es'"
    and "js_vals st2 = js_vals st"
  shows "\<exists>st'. update_tags st1 p json_decr_sz = Inr st' \<and> list_at st' p tag i es' \<and>
    js_aelems st' = js_aelems st2 \<and> js_delems st' = js_delems st2 \<and> js_kvs st' = js_kvs st2 \<and>
    js_next st' = js_next st2 \<and> (\<forall>q. q \<noteq> p \<longrightarrow> js_vals st' q = js_vals st q) \<and>
    (\<forall>q. q \<noteq> i \<longrightarrow> js_infos st' q = js_infos st2 q)"
  using assms
  by (auto simp: list_at_def update_tags_def val_at_def deref_def set_val_def set_info_def intro: sz_is_decr)

lemma array_pop_first:
  assumes la: "list_at st p JsonTag_Array i (e # es)" and ch: "achain st (e # es) (v # vs)"
    and len: "length (e # es) < 2 ^ 32"
  shows "\<exists>st'. json_array_pop st p 0 = Inr st' \<and> list_at st' p JsonTag_Array i es \<and> achain st' es vs \<and>
    agree st st' (- {p, i}) \<and> js_next st' = js_next st"
proof -
  obtain sz where sz: "json_array_get_size st p = Inr sz" "unat sz = length (e # es)"
    using array_size [OF la len] by blast
  obtain t where t: "info_at st p = Inr (i, \<lparr>ji_head = e, ji_tail = t\<rparr>)" "t = last (e # es)"
    using info_at_list [OF la] by auto
  have "\<not> sz \<le> 0" using sz(2) by (auto simp: word_le_nat_alt)
  then have eq: "json_array_pop st p 0 = update_tags (set_info st i \<lparr>ji_head = hd0 es, ji_tail = t\<rparr>) p json_decr_sz"
    using sz(1) t(1) ch by (simp add: json_array_pop_def deref_def)
  have tail: "es \<noteq> [] \<longrightarrow> t = last es" using t(2) by auto
  obtain st' where st': "json_array_pop st p 0 = Inr st'" "list_at st' p JsonTag_Array i es"
      "js_aelems st' = js_aelems st" "js_delems st' = js_delems st" "js_kvs st' = js_kvs st" "js_next st' = js_next st"
      "\<forall>q. q \<noteq> p \<longrightarrow> js_vals st' q = js_vals st q" "\<forall>q. q \<noteq> i \<longrightarrow> js_infos st' q = js_infos st q"
    using list_at_update [OF la _ refl tail refl] eq by auto
  moreover have "achain st' es vs" using ch achain_cong [OF st'(3)] by simp
  moreover have "agree st st' (- {p, i})" using st' by (simp add: agree_def)
  ultimately show ?thesis by blast
qed

lemma achain_remove:
  assumes ch: "achain st es vs" and d: "distinct es" and k: "0 < k" "k + 1 < length es"
    and st': "js_aelems st' = (js_aelems st)(es ! (k - 1) \<mapsto> \<lparr>ae_value = vs ! (k - 1), ae_next = es ! (k + 1)\<rparr>)"
  shows "achain st' (remove_nth k es) (remove_nth k vs)"
proof -
  have len: "length es = length vs" using achain_length [OF ch] .
  have "js_aelems st' (remove_nth k es ! m) = Some \<lparr>ae_value = remove_nth k vs ! m,
      ae_next = (if m + 1 < length es - 1 then remove_nth k es ! (m + 1) else 0)\<rparr> \<and> 0 < remove_nth k es ! m"
    if m: "m < length es - 1" for m
  proof (cases "m = k - 1")
    case True
    then show ?thesis using ch k len by (auto simp: nth_remove_nth st' achain_nth)
  next
    case False
    define m' where "m' = (if m < k then m else Suc m)"
    have m': "m' < length es" "m' \<noteq> k - 1" "remove_nth k es ! m = es ! m'" "remove_nth k vs ! m = vs ! m'"
      using m k len False by (auto simp: m'_def nth_remove_nth)
    have "es ! m' \<noteq> es ! (k - 1)" using d m' k by (simp add: nth_eq_iff_index_eq)
    moreover have "(if m' + 1 < length es then es ! (m' + 1) else 0) =
        (if m + 1 < length es - 1 then remove_nth k es ! (m + 1) else 0)"
      using m k False by (auto simp: m'_def nth_remove_nth)
    ultimately show ?thesis using ch m' by (simp add: achain_nth st')
  qed
  then show ?thesis using k len by (simp add: achain_nth)
qed

text \<open>
  The removal of an element behind the first: \<open>tl\<close> is the tail pointer it leaves, which is null
  when the last element goes.
\<close>

lemma array_pop_later:
  assumes la: "list_at st p JsonTag_Array i es" and ch: "achain st es vs" and d: "distinct es"
    and len: "length es < 2 ^ 32" and k: "0 < unat n" "unat n < length es"
  shows "json_array_pop st p n =
    update_tags (set_info (st\<lparr>js_aelems := (js_aelems st)(es ! (unat n - 1) \<mapsto>
        \<lparr>ae_value = vs ! (unat n - 1), ae_next = (if unat n + 1 < length es then es ! (unat n + 1) else 0)\<rparr>)\<rparr>)
      i \<lparr>ji_head = hd0 es, ji_tail = (if unat n + 1 < length es then last es else 0)\<rparr>) p json_decr_sz"
proof -
  obtain sz where sz: "json_array_get_size st p = Inr sz" "unat sz = length es"
    using array_size [OF la len] by blast
  have "es \<noteq> []" using k by auto
  then obtain t where t: "info_at st p = Inr (i, \<lparr>ji_head = hd0 es, ji_tail = t\<rparr>)"
      "js_infos st i = Some \<lparr>ji_head = hd0 es, ji_tail = t\<rparr>" "t = last es"
    using info_at_list [OF la] by auto
  have lt: "\<not> sz \<le> n" "n \<noteq> 0" using sz(2) k by (auto simp: word_le_nat_alt)
  have el: "0 < es ! m" "js_aelems st (es ! m) = Some \<lparr>ae_value = vs ! m, ae_next = (if m + 1 < length es then es ! (m + 1) else 0)\<rparr>"
    if "m < length es" for m using ch that by (simp_all add: achain_nth)
  have k1: "unat n - 1 < length es" using k by simp
  have "es ! unat n = last es \<longleftrightarrow> unat n + 1 = length es"
    using d k \<open>es \<noteq> []\<close> by (auto simp: last_conv_nth nth_eq_iff_index_eq)
  moreover have "set_info st' i \<lparr>ji_head = hd0 es, ji_tail = last es\<rparr> = st'" if "js_infos st' = js_infos st" for st'
    using that t by (cases st') (auto simp: set_info_def)
  ultimately show ?thesis
    using sz(1) lt t array_pop_walk_chain [OF ch k(2), of 0] k el(1,2) [OF k(2)] el(1,2) [OF k1]
    by (auto simp: json_array_pop_def deref_def Let_def)
qed

lemma array_pop_chain:
  assumes la: "list_at st p JsonTag_Array i es" and ch: "achain st es vs" and d: "distinct es"
    and len: "length es < 2 ^ 32" and k: "unat n < length es" "unat n = 0 \<or> unat n + 1 < length es"
  shows "\<exists>st'. json_array_pop st p n = Inr st' \<and> list_at st' p JsonTag_Array i (remove_nth (unat n) es) \<and>
    achain st' (remove_nth (unat n) es) (remove_nth (unat n) vs) \<and> agree st st' (- ({p, i} \<union> set es)) \<and>
    js_next st' = js_next st"
proof (cases "n = 0")
  case True
  obtain e es' v vs' where e: "es = e # es'" "vs = v # vs'" using ch k by (cases es; cases vs) auto
  from array_pop_first [OF la [unfolded e] ch [unfolded e] len [unfolded e]] show ?thesis
    using True e by (auto intro: agree_mono)
next
  case False
  then have "unat n \<noteq> 0" by (simp add: unat_eq_0)
  then have k': "0 < unat n" "unat n + 1 < length es" using k by auto
  define es' where "es' = remove_nth (unat n) es"
  have es': "length es = Suc (length es')" "hd0 es' = hd0 es" "es' \<noteq> []" "last es' = last es"
  proof -
    show "length es = Suc (length es')" using k by (simp add: es'_def)
    then show ne: "es' \<noteq> []" using k' by auto
    have "es' ! 0 = es ! 0" using k' by (simp add: es'_def nth_remove_nth)
    then show "hd0 es' = hd0 es" using ne k' by (cases es; cases es') auto
    show "last es' = last es" using k' by (simp add: es'_def remove_nth_def)
  qed
  define st2 where "st2 = st\<lparr>js_aelems := (js_aelems st)(es ! (unat n - 1) \<mapsto>
      \<lparr>ae_value = vs ! (unat n - 1), ae_next = es ! (unat n + 1)\<rparr>)\<rparr>"
  have "json_array_pop st p n = update_tags (set_info st2 i \<lparr>ji_head = hd0 es', ji_tail = last es\<rparr>) p json_decr_sz"
    using array_pop_later [OF la ch d len k'(1) k(1)] k' es'(2) by (simp add: st2_def)
  then obtain st' where st': "json_array_pop st p n = Inr st'" "list_at st' p JsonTag_Array i es'"
      "js_aelems st' = js_aelems st2" "js_delems st' = js_delems st" "js_kvs st' = js_kvs st" "js_next st' = js_next st"
      "\<forall>q. q \<noteq> p \<longrightarrow> js_vals st' q = js_vals st q" "\<forall>q. q \<noteq> i \<longrightarrow> js_infos st' q = js_infos st q"
    using list_at_update [OF la es'(1) refl, of "last es" st2] es'(4) by (auto simp: st2_def)
  have "achain st' es' (remove_nth (unat n) vs)"
    unfolding es'_def using ch d k' by (rule achain_remove) (simp add: st'(3) st2_def)
  moreover have "agree st st' (- ({p, i} \<union> set es))"
    using st' k' by (auto simp: agree_def st2_def)
  ultimately show ?thesis using st' by (auto simp: es'_def)
qed

text \<open>
  Removing an element of an array, other than the last of several, leaves an array that stands
  for the list without that element, with its count and its tail pointer; an index out of range
  changes nothing.
\<close>

theorem json_array_pop_correct:
  assumes "repr st p (JArray xs) F" "length xs < 2 ^ 32" "unat n = 0 \<or> unat n + 1 \<noteq> length xs"
  shows "\<exists>st' F'. json_array_pop st p n = Inr st' \<and> repr st' p (JArray (remove_nth (unat n) xs)) F' \<and> F' \<subseteq> F"
proof -
  from assms(1) obtain i es vs E where
    F: "F = {p, i} \<union> set es \<union> E" "list_at st p JsonTag_Array i es" "achain st es vs" "distinct es"
      "reprs st vs xs E" "({p, i} \<union> set es) \<inter> E = {}" by (auto elim: repr_arrayE)
  have len: "length es = length xs" using achain_length [OF F(3)] reprs_length [OF F(5)] by simp
  show ?thesis
  proof (cases "unat n < length xs")
    case True
    obtain st' where st': "json_array_pop st p n = Inr st'" "list_at st' p JsonTag_Array i (remove_nth (unat n) es)"
        "achain st' (remove_nth (unat n) es) (remove_nth (unat n) vs)" "agree st st' (- ({p, i} \<union> set es))"
      using array_pop_chain [OF F(2,3,4), of n] assms(2,3) True len by auto
    obtain E' where E': "E' \<subseteq> E" "reprs st (remove_nth (unat n) vs) (remove_nth (unat n) xs) E'"
      using reprs_remove [OF F(5) True] by blast
    have "agree st st' E'" using F(6) E'(1) by (intro agree_mono [OF st'(4)]) auto
    with E'(2) have "reprs st' (remove_nth (unat n) vs) (remove_nth (unat n) xs) E'" by (rule repr_frame(2))
    moreover have "({p, i} \<union> set (remove_nth (unat n) es)) \<inter> E' = {}"
      using F(6) E'(1) set_remove_nth [of "unat n" es] by blast
    ultimately have "repr st' p (JArray (remove_nth (unat n) xs)) ({p, i} \<union> set (remove_nth (unat n) es) \<union> E')"
      using repr_array [OF st'(2,3) distinct_remove_nth [OF F(4)]] by blast
    moreover have "{p, i} \<union> set (remove_nth (unat n) es) \<union> E' \<subseteq> F"
      using F(1) E'(1) set_remove_nth [of "unat n" es] by blast
    ultimately show ?thesis using st'(1) by blast
  next
    case False
    obtain sz where "json_array_get_size st p = Inr sz" "unat sz = length es"
      using array_size [OF F(2)] assms(2) len by auto
    then have "json_array_pop st p n = Inr st" using False len by (simp add: json_array_pop_def word_le_nat_alt)
    moreover have "remove_nth (unat n) xs = xs" using False by (simp add: remove_nth_def)
    ultimately show ?thesis using assms(1) by auto
  qed
qed

theorem json_array_pop_correct_witness:
  "\<exists>st p st' F'. json_array_pop st p 1 = Inr st' \<and> repr st' p (JArray [JNull, JU64 3]) F'"
proof -
  obtain st F where "repr st (js_root st) (JArray [JNull, JU64 2, JU64 3]) F"
    using printed_store [of "JArray [JNull, JU64 2, JU64 3]"] by auto
  from json_array_pop_correct [OF this, of 1] show ?thesis by (simp add: remove_nth_def) blast
qed

text \<open>
  Removing the last element of an array of at least two sets the tail pointer to
  \<^verbatim>\<open>NULL\<close> although the list is not empty: the next append goes through that pointer.
\<close>

theorem json_array_pop_last_breaks_append:
  assumes "repr st p (JArray xs) F" "1 < length xs" "length xs < 2 ^ 32"
  shows "\<exists>st'. json_array_pop st p (of_nat (length xs - 1)) = Inr st' \<and>
    (\<forall>v reference. json_array_append st' p v reference = Inl NullDeref)"
proof -
  from assms(1) obtain i es vs E where
    F: "list_at st p JsonTag_Array i es" "achain st es vs" "distinct es" "reprs st vs xs E" by (auto elim: repr_arrayE)
  have len: "length es = length xs" using achain_length [OF F(2)] reprs_length [OF F(4)] by simp
  define n where "n = (of_nat (length xs - 1) :: u64)"
  have n: "unat n = length xs - 1" using assms(3) by (simp add: n_def unat_of_nat take_bit_nat_eq_self)
  have "es \<noteq> []" using len assms(2) by auto
  then have nz: "hd0 es \<noteq> 0" using achain_hd0 [OF F(2)] by simp
  have "json_array_pop st p n = update_tags (set_info (st\<lparr>js_aelems := (js_aelems st)(es ! (unat n - 1) \<mapsto>
      \<lparr>ae_value = vs ! (unat n - 1), ae_next = 0\<rparr>)\<rparr>) i \<lparr>ji_head = hd0 es, ji_tail = 0\<rparr>) p json_decr_sz"
  proof -
    have "0 < unat n" "unat n < length es" "\<not> unat n + 1 < length es" "length es < 2 ^ 32"
      using n len assms(2,3) by simp_all
    then show ?thesis using array_pop_later [OF F(1-3), of n] by (simp only: if_False)
  qed
  moreover obtain jv where "0 < p" "js_vals st p = Some jv" "jv_value jv = UPtr i" "0 < i"
    using F(1) by (auto simp: list_at_def)
  ultimately show ?thesis
    using nz
    by (auto simp: n_def update_tags_def val_at_def deref_def set_val_def set_info_def json_array_append_def
        info_at_def u_ptr_def array_link_def Let_def)
qed

theorem json_array_pop_last_breaks_append_witness:
  "\<exists>st p st'. json_array_pop st p 1 = Inr st' \<and> json_array_append st' p p True = Inl NullDeref"
proof -
  obtain st F where "repr st (js_root st) (JArray [JNull, JU64 2]) F"
    using printed_store [of "JArray [JNull, JU64 2]"] by auto
  from json_array_pop_last_breaks_append [OF this] show ?thesis by simp blast
qed

text \<open>
  Removing the entry a dictionary starts with does not remove it: the head pointer is set to the
  entry itself. The count goes down all the same, and the key is still found.
\<close>

theorem json_dict_pop_first_stays:
  assumes "repr st p (JDict ((k, x) # kxs)) F" "Suc (length kxs) < 2 ^ 32"
  shows "\<exists>st' sz v. json_dict_pop st p k = Some (Inr st') \<and> json_dict_get_size st' p = Inr sz \<and>
    unat sz = length kxs \<and> json_dict_find st' p k = Some (Inr v) \<and> json_dict_find st p k = Some (Inr v) \<and> v \<noteq> 0"
proof -
  from assms(1) obtain i es ks vs E where
    F: "list_at st p JsonTag_Dict i es" "dchain st es ks (zip (map fst ((k, x) # kxs)) vs)"
      "reprs st vs (map snd ((k, x) # kxs)) E" "0 \<notin> set k" by (auto elim: repr_dictE)
  obtain v vs' G E' where vs: "vs = v # vs'" "repr st v x G" "reprs st vs' (map snd kxs) E'"
    using F(3) by (cases vs) (auto elim: reprs_nilE reprs_consE)
  have v: "v \<noteq> 0" using repr_pos [OF vs(2)] by simp
  have "length es = Suc (length kxs)" using dchain_length [OF F(2)] reprs_length [OF vs(3)] vs(1) by simp
  with F(2) vs(1) obtain e es' kc ks' where e: "es = e # es'" "ks = kc # ks'" "length es' = length kxs"
    by (cases es; cases ks) auto
  then have ch: "0 < e" "0 < kc" "js_delems st e = Some \<lparr>de_key_value = kc, de_next = hd0 es'\<rparr>"
      "js_kvs st kc = Some \<lparr>kv_key = k, kv_value = v\<rparr>" using F(2) vs(1) by auto
  obtain t where t: "info_at st p = Inr (i, \<lparr>ji_head = e, ji_tail = t\<rparr>)" "js_infos st i = Some \<lparr>ji_head = e, ji_tail = t\<rparr>"
    using info_at_list [OF F(1)] e by auto
  obtain jv where jv: "0 < p" "js_vals st p = Some jv" "tag_is (jv_tags jv) JsonTag_Dict" "jv_value jv = UPtr i"
      "sz_is (jv_tags jv) (Suc (length kxs))" "0 < i"
    using F(1) e by (auto simp: list_at_def)
  define st' where "st' = set_val (set_info st i \<lparr>ji_head = e, ji_tail = t\<rparr>) p (jv\<lparr>jv_tags := json_decr_sz (jv_tags jv)\<rparr>)"
  have search: "dict_search s k 0 e = Some (Inr (0, e))" if "js_delems s = js_delems st" "js_kvs s = js_kvs st" for s
    using that ch by (subst dict_search.simps) (simp add: deref_def)
  have "json_dict_pop st p k = Some (Inr st')"
    using t jv search [of st] ch c_str_id [OF F(4)]
    by (simp add: json_dict_pop_def update_tags_def val_at_def deref_def st'_def set_info_def)
  moreover have "json_dict_find st' p k = Some (Inr v)"
    using jv search [of st'] ch c_str_id [OF F(4)]
    by (simp add: json_dict_find_def info_at_def val_at_def deref_def st'_def set_info_def set_val_def u_ptr_def)
  moreover have "json_dict_find st p k = Some (Inr v)"
    using t search [of st] ch c_str_id [OF F(4)] by (simp add: json_dict_find_def deref_def)
  moreover have "\<exists>sz. json_dict_get_size st' p = Inr sz \<and> unat sz = length kxs"
    using jv(1,3) sz_is_decr [OF jv(5)] tag_is_test_zero [of "json_decr_sz (jv_tags jv)" JsonTag_Dict JsonTag_Dict] assms(2)
    by (simp add: json_dict_get_size_def val_at_def deref_def st'_def set_val_def sz_is_def)
  ultimately show ?thesis using v by blast
qed

theorem json_dict_pop_first_stays_witness:
  "\<exists>st p st' v. json_dict_pop st p [97] = Some (Inr st') \<and> json_dict_find st' p [97] = Some (Inr v) \<and> v \<noteq> 0"
proof -
  obtain st F where "repr st (js_root st) sample_doc F" using sample_store by blast
  from json_dict_pop_first_stays [OF this [unfolded sample_doc_def]] show ?thesis by auto
qed

end
