(* ===== verification/RomString.thy ===== *)
theory RomString
  imports CMem
begin

text \<open>
  The strings of \<^verbatim>\<open>string.c\<close>: one heap block with the capacity, the length and the
  characters behind them. A string value is its raw block; the program's pointer is sixteen bytes
  into it. Every access is bounds-checked. \<open>ok\<close> tells whether \<^verbatim>\<open>malloc\<close> succeeds and
  \<open>junk\<close> what it leaves in the block; an argument of type \<^verbatim>\<open>const char*\<close> is the list of
  bytes before its terminator. The arguments of \<^verbatim>\<open>...s\<close> functions are blocks of their own.
\<close>

subsection \<open>Layout\<close>

definition HEADER_SIZE :: nat where "HEADER_SIZE = 16"

definition STRING_SIZE :: "nat \<Rightarrow> nat" where "STRING_SIZE len = len + 1"

definition LIBROMANO_STRING_MAX_FMT_SIZE :: nat where "LIBROMANO_STRING_MAX_FMT_SIZE = 8192"

text \<open>
  The product with the double 1.61, truncated: the argument is a double (an integer of at most 53
  significant bits), the constant is 7250795400066499 times 2 to the -52.
\<close>

definition string_growth :: "nat \<Rightarrow> nat" where
  "string_growth d = flt_round 53 (d * 7250795400066499) div 2 ^ 52"

definition string_capacity :: "bytes \<Rightarrow> nat res" where
  "string_capacity raw = hdr_get raw 0"

definition string_length :: "bytes \<Rightarrow> nat res" where
  "string_length raw = hdr_get raw 1"

definition set_capacity :: "bytes \<Rightarrow> nat \<Rightarrow> bytes res" where
  "set_capacity raw n = hdr_set raw 0 n"

definition set_size :: "bytes \<Rightarrow> nat \<Rightarrow> bytes res" where
  "set_size raw n = hdr_set raw 1 n"

definition str_write :: "bytes \<Rightarrow> nat \<Rightarrow> bytes \<Rightarrow> bytes res" where
  "str_write raw off bs = blk_write raw (HEADER_SIZE + off) bs"

definition str_read :: "bytes \<Rightarrow> nat \<Rightarrow> nat \<Rightarrow> bytes res" where
  "str_read raw off n = blk_read raw (HEADER_SIZE + off) n"

definition SET_NULL_TERMINATOR :: "bytes \<Rightarrow> bytes res" where
  "SET_NULL_TERMINATOR raw = res_bind (string_length raw) (\<lambda>sz. str_write raw sz [0])"

subsection \<open>Creation\<close>

definition string_new :: "bool \<Rightarrow> bytes \<Rightarrow> bytes option res" where
  "string_new ok data =
     (let len = length data; sz = string_growth (flt_round 53 len)
      in if \<not> ok then Inr None
         else
           res_bind (set_capacity (calloc_blk (STRING_SIZE sz + HEADER_SIZE)) sz) (\<lambda>raw.
           res_bind (set_size raw len) (\<lambda>raw.
           res_bind (str_write raw 0 (data @ [0])) (\<lambda>raw. Inr (Some raw)))))"

definition string_newz :: "bool \<Rightarrow> nat \<Rightarrow> bytes option res" where
  "string_newz ok len =
     (let sz = string_growth (flt_round 53 len)
      in if \<not> ok then Inr None
         else
           res_bind (set_capacity (calloc_blk (STRING_SIZE sz + HEADER_SIZE)) sz) (\<lambda>raw.
           res_bind (set_size raw len) (\<lambda>raw.
           res_bind (str_write raw 0 (replicate (len + 1) 0)) (\<lambda>raw. Inr (Some raw)))))"

text \<open>
  The formatted text of \<^verbatim>\<open>vsnprintf\<close> is an argument: \<open>None\<close> when it returns -1,
  otherwise the whole text. The buffer holds its first 8191 bytes, a terminator and what was there.
\<close>

definition fmt_buffer :: "(nat \<Rightarrow> u8) \<Rightarrow> bytes \<Rightarrow> bytes" where
  "fmt_buffer junk t =
     (let s = take (LIBROMANO_STRING_MAX_FMT_SIZE - 1) t @ [0]
      in s @ map junk [length s..<LIBROMANO_STRING_MAX_FMT_SIZE])"

definition string_newf :: "bool \<Rightarrow> bytes option \<Rightarrow> bytes option res" where
  "string_newf ok formatted =
     (case formatted of
        None \<Rightarrow> Inr None
      | Some t \<Rightarrow> string_new ok (take (LIBROMANO_STRING_MAX_FMT_SIZE - 1) t))"

definition string_resize :: "bool \<Rightarrow> (nat \<Rightarrow> u8) \<Rightarrow> bytes \<Rightarrow> nat \<Rightarrow> (bool \<times> bytes) res" where
  "string_resize ok junk raw new_size =
     res_bind (string_capacity raw) (\<lambda>existing_capacity.
       if new_size < existing_capacity then Inr (True, raw)
       else if \<not> ok then Inr (False, raw)
       else
         res_bind (string_length raw) (\<lambda>sz.
         res_bind (blk_read raw 0 (HEADER_SIZE + sz)) (\<lambda>copy.
         res_bind (blk_write (malloc_blk junk (STRING_SIZE new_size + HEADER_SIZE)) 0 copy) (\<lambda>raw.
         res_bind (set_capacity raw new_size) (\<lambda>raw.
         res_bind (SET_NULL_TERMINATOR raw) (\<lambda>raw. Inr (True, raw)))))))"

definition string_copy :: "bool \<Rightarrow> (nat \<Rightarrow> u8) \<Rightarrow> bytes \<Rightarrow> bytes option res" where
  "string_copy ok junk other =
     res_bind (string_capacity other) (\<lambda>other_capacity.
       if \<not> ok then Inr None
       else
         res_bind (blk_read other 0 (STRING_SIZE other_capacity + HEADER_SIZE)) (\<lambda>copy.
         res_bind (blk_write (malloc_blk junk (STRING_SIZE other_capacity + HEADER_SIZE)) 0 copy) (\<lambda>raw.
           Inr (Some raw))))"

subsection \<open>Setting\<close>

definition run_if :: "(bool \<times> bytes) res \<Rightarrow> (bytes \<Rightarrow> (bool \<times> bytes) res) \<Rightarrow> (bool \<times> bytes) res" where
  "run_if m f = res_bind m (\<lambda>(done, raw). if done then f raw else Inr (False, raw))"

definition finish_size :: "bytes \<Rightarrow> nat \<Rightarrow> (bool \<times> bytes) res" where
  "finish_size raw n =
     res_bind (set_size raw n) (\<lambda>raw. res_bind (SET_NULL_TERMINATOR raw) (\<lambda>raw. Inr (True, raw)))"

definition string_setc :: "bool \<Rightarrow> (nat \<Rightarrow> u8) \<Rightarrow> bytes \<Rightarrow> bytes \<Rightarrow> (bool \<times> bytes) res" where
  "string_setc ok junk raw data =
     res_bind (string_capacity raw) (\<lambda>cap.
       run_if (if length data \<ge> cap then string_resize ok junk raw (length data) else Inr (True, raw)) (\<lambda>raw.
         res_bind (str_write raw 0 (data @ [0])) (\<lambda>raw. finish_size raw (length data))))"

definition string_sets :: "bool \<Rightarrow> (nat \<Rightarrow> u8) \<Rightarrow> bytes \<Rightarrow> bytes \<Rightarrow> (bool \<times> bytes) res" where
  "string_sets ok junk raw other =
     res_bind (string_length other) (\<lambda>data_sz.
     res_bind (string_capacity raw) (\<lambda>cap.
       run_if (if data_sz \<ge> cap then string_resize ok junk raw data_sz else Inr (True, raw)) (\<lambda>raw.
         res_bind (str_read other 0 (STRING_SIZE data_sz)) (\<lambda>data.
         res_bind (str_write raw 0 data) (\<lambda>raw. finish_size raw data_sz)))))"

definition string_setf :: "bool \<Rightarrow> (nat \<Rightarrow> u8) \<Rightarrow> bytes \<Rightarrow> bytes option \<Rightarrow> (bool \<times> bytes) res" where
  "string_setf ok junk raw formatted =
     (case formatted of
        None \<Rightarrow> Inr (False, raw)
      | Some t \<Rightarrow>
          let format_sz = length t + 1
          in res_bind (string_capacity raw) (\<lambda>cap.
               run_if (if format_sz \<ge> cap then string_resize ok junk raw format_sz else Inr (True, raw)) (\<lambda>raw.
                 res_bind (blk_read (fmt_buffer junk t) 0 format_sz) (\<lambda>data.
                 res_bind (str_write raw 0 data) (\<lambda>raw. finish_size raw format_sz)))))"

subsection \<open>Appending and prepending\<close>

text \<open>
  The capacity test of the functions that lengthen a string by \<open>n\<close> bytes, and the new capacity:
  a sum and a product of doubles.
\<close>

definition string_reserve :: "bool \<Rightarrow> (nat \<Rightarrow> u8) \<Rightarrow> bytes \<Rightarrow> nat \<Rightarrow> nat \<Rightarrow> nat \<Rightarrow> (bool \<times> bytes) res" where
  "string_reserve ok junk raw cap sz n =
     (if sz + n \<ge> cap
      then string_resize ok junk raw (string_growth (flt_round 53 (flt_round 53 cap + flt_round 53 n)))
      else Inr (True, raw))"

definition string_appendc :: "bool \<Rightarrow> (nat \<Rightarrow> u8) \<Rightarrow> bytes \<Rightarrow> bytes \<Rightarrow> (bool \<times> bytes) res" where
  "string_appendc ok junk raw data =
     res_bind (string_capacity raw) (\<lambda>cap. res_bind (string_length raw) (\<lambda>sz.
       run_if (string_reserve ok junk raw cap sz (length data)) (\<lambda>raw.
         res_bind (str_write raw sz (data @ [0])) (\<lambda>raw. finish_size raw (sz + length data)))))"

definition string_appends :: "bool \<Rightarrow> (nat \<Rightarrow> u8) \<Rightarrow> bytes \<Rightarrow> bytes \<Rightarrow> (bool \<times> bytes) res" where
  "string_appends ok junk raw other =
     res_bind (string_length other) (\<lambda>other_sz.
     res_bind (string_capacity raw) (\<lambda>cap. res_bind (string_length raw) (\<lambda>sz.
       run_if (string_reserve ok junk raw cap sz other_sz) (\<lambda>raw.
         res_bind (str_read other 0 (STRING_SIZE other_sz)) (\<lambda>data.
         res_bind (str_write raw sz data) (\<lambda>raw. finish_size raw (sz + other_sz)))))))"

definition string_appendf :: "bool \<Rightarrow> (nat \<Rightarrow> u8) \<Rightarrow> bytes \<Rightarrow> bytes option \<Rightarrow> (bool \<times> bytes) res" where
  "string_appendf ok junk raw formatted =
     (case formatted of
        None \<Rightarrow> Inr (False, raw)
      | Some t \<Rightarrow>
          let format_sz = length t + 1
          in res_bind (string_capacity raw) (\<lambda>cap. res_bind (string_length raw) (\<lambda>sz.
               run_if (string_reserve ok junk raw cap sz format_sz) (\<lambda>raw.
                 res_bind (blk_read (fmt_buffer junk t) 0 format_sz) (\<lambda>data.
                 res_bind (str_write raw sz data) (\<lambda>raw. finish_size raw (sz + format_sz - 1)))))))"

text \<open>The existing text with its terminator moves up by \<open>n\<close> bytes.\<close>

definition str_shift :: "bytes \<Rightarrow> nat \<Rightarrow> nat \<Rightarrow> bytes res" where
  "str_shift raw n sz = blk_move raw (HEADER_SIZE + n) HEADER_SIZE (STRING_SIZE sz)"

definition string_prependc :: "bool \<Rightarrow> (nat \<Rightarrow> u8) \<Rightarrow> bytes \<Rightarrow> bytes \<Rightarrow> (bool \<times> bytes) res" where
  "string_prependc ok junk raw data =
     res_bind (string_capacity raw) (\<lambda>cap. res_bind (string_length raw) (\<lambda>sz.
       run_if (string_reserve ok junk raw cap sz (length data)) (\<lambda>raw.
         res_bind (str_shift raw (length data) sz) (\<lambda>raw.
         res_bind (str_write raw 0 data) (\<lambda>raw. finish_size raw (sz + length data))))))"

definition string_prepends :: "bool \<Rightarrow> (nat \<Rightarrow> u8) \<Rightarrow> bytes \<Rightarrow> bytes \<Rightarrow> (bool \<times> bytes) res" where
  "string_prepends ok junk raw other =
     res_bind (string_length other) (\<lambda>other_sz.
     res_bind (string_capacity raw) (\<lambda>cap. res_bind (string_length raw) (\<lambda>sz.
       run_if (string_reserve ok junk raw cap sz other_sz) (\<lambda>raw.
         res_bind (str_shift raw other_sz sz) (\<lambda>raw.
         res_bind (str_read other 0 other_sz) (\<lambda>data.
         res_bind (str_write raw 0 data) (\<lambda>raw. finish_size raw (sz + other_sz))))))))"

text \<open>
  A negative result of \<^verbatim>\<open>vsnprintf\<close> is not rejected here: as a \<^verbatim>\<open>size_t\<close> it is
  \<open>2 ^ 64 - 1\<close>, the sum in the capacity test wraps to the old length, and \<^verbatim>\<open>memcpy\<close>
  leaves the 8192-byte buffer.
\<close>

definition string_prependf :: "bool \<Rightarrow> (nat \<Rightarrow> u8) \<Rightarrow> bytes \<Rightarrow> bytes option \<Rightarrow> (bool \<times> bytes) res" where
  "string_prependf ok junk raw formatted =
     (case formatted of
        None \<Rightarrow>
          res_bind (string_capacity raw) (\<lambda>cap. res_bind (string_length raw) (\<lambda>sz.
            run_if (string_reserve ok junk raw cap sz 0) (\<lambda>raw. Inl OutOfBounds)))
      | Some t \<Rightarrow>
          let format_sz = length t
          in if format_sz = 0 then Inr (False, raw)
             else res_bind (string_capacity raw) (\<lambda>cap. res_bind (string_length raw) (\<lambda>sz.
               run_if (string_reserve ok junk raw cap sz (format_sz + 1)) (\<lambda>raw.
                 res_bind (str_shift raw format_sz sz) (\<lambda>raw.
                 res_bind (blk_read (fmt_buffer junk t) 0 format_sz) (\<lambda>data.
                 res_bind (str_write raw 0 data) (\<lambda>raw. finish_size raw (sz + format_sz))))))))"

subsection \<open>Clearing, splitting, comparing\<close>

definition string_clear :: "bytes \<Rightarrow> bytes res" where
  "string_clear raw =
     res_bind (string_length raw) (\<lambda>sz.
     res_bind (str_write raw 0 (replicate (STRING_SIZE sz) 0)) (\<lambda>raw. set_size raw 0))"

text \<open>
  The tokens \<^verbatim>\<open>strtok\<close> delivers: the longest runs without a separator byte.
\<close>

function strtok_all :: "bytes \<Rightarrow> bytes \<Rightarrow> bytes list" where
  "strtok_all seps s =
     (case dropWhile (\<lambda>c. c \<in> set seps) s of
        [] \<Rightarrow> []
      | c # t \<Rightarrow> (c # takeWhile (\<lambda>c. c \<notin> set seps) t) # strtok_all seps (dropWhile (\<lambda>c. c \<notin> set seps) t))"
  by pat_completeness auto
termination
proof (relation "measure (\<lambda>(seps, s). length s)")
  fix seps s c t assume "dropWhile (\<lambda>c. c \<in> set seps) s = c # t"
  then have "length (c # t) \<le> length s" by (metis length_dropWhile_le)
  moreover have "length (dropWhile (\<lambda>c. c \<notin> set seps) t) \<le> length t" by (rule length_dropWhile_le)
  ultimately show "((seps, dropWhile (\<lambda>c. c \<notin> set seps) t), seps, s) \<in> measure (\<lambda>(seps, s). length s)"
    by simp
qed simp

declare strtok_all.simps [simp del]

fun string_new_all :: "bool \<Rightarrow> bytes list \<Rightarrow> bytes option list res" where
  "string_new_all ok [] = Inr []"
| "string_new_all ok (t # ts) =
     res_bind (string_new ok t) (\<lambda>s. res_bind (string_new_all ok ts) (\<lambda>ss. Inr (s # ss)))"

text \<open>
  \<open>oka\<close> is the allocation of the array. The entries the tokens do not reach keep what
  \<^verbatim>\<open>malloc\<close> left (\<open>None\<close>). The counter is 32 bits wide.
\<close>

definition string_splitc :: "bool \<Rightarrow> bool \<Rightarrow> bytes \<Rightarrow> bytes \<Rightarrow> (nat \<times> bytes option option list option) res" where
  "string_splitc oka ok data separator =
     (let n = (case separator of [] \<Rightarrow> 0 | c # _ \<Rightarrow> count_list data c)
      in if data = [] then Inr (n, None)
         else
           let count = (n + 1) mod 2 ^ 32; tokens = strtok_all separator data
           in if \<not> oka then Inr (count, None)
              else if length tokens > count then Inl OutOfBounds
              else res_bind (string_new_all ok tokens) (\<lambda>strings.
                     Inr (count, Some (map Some strings @ replicate (count - length tokens) None))))"

definition string_eq :: "bytes \<Rightarrow> bytes \<Rightarrow> bool res" where
  "string_eq a b =
     res_bind (string_length a) (\<lambda>la. res_bind (string_length b) (\<lambda>lb.
       if la \<noteq> lb then Inr False
       else res_bind (str_read a 0 la) (\<lambda>x. res_bind (str_read b 0 la) (\<lambda>y. Inr (x = y)))))"

subsection \<open>The text a block holds\<close>

definition string_at :: "bytes \<Rightarrow> nat \<Rightarrow> bytes \<Rightarrow> bool" where
  "string_at raw cap s \<longleftrightarrow> (\<exists>pad. raw = u64_bytes (of_nat cap) @ u64_bytes (of_nat (length s)) @ s @ 0 # pad \<and>
     length s + length pad = cap \<and> cap < 2 ^ 63)"

lemma string_growth_ge: "d \<le> string_growth d"
proof -
  define X where "X = flt_round 53 (d * 7250795400066499)"
  have "d * 7250795400066499 * 2 ^ 52 \<le> X * (2 ^ 52 + 1)"
    using flt_round_bounds(1) [of 53 "d * 7250795400066499"] by (simp add: X_def)
  then have "d * 2 ^ 52 \<le> X" by simp
  then show ?thesis by (simp add: string_growth_def X_def div_le_mono less_eq_div_iff_mult_less_eq)
qed

lemma string_growth_le: "string_growth d \<le> 4 * d"
proof -
  have "flt_round 53 (d * 7250795400066499) \<le> (4 * d) * 2 ^ 52"
    using flt_round_bounds(2) [of 53 "d * 7250795400066499"] by simp
  then have "flt_round 53 (d * 7250795400066499) div 2 ^ 52 \<le> (4 * d) * 2 ^ 52 div 2 ^ 52" by (rule div_le_mono)
  then show ?thesis by (simp add: string_growth_def)
qed

lemma string_at_header:
  assumes "string_at raw cap s"
  shows "string_capacity raw = Inr cap" "string_length raw = Inr (length s)"
proof -
  obtain pad where raw: "raw = [] @ u64_bytes (of_nat cap) @ (u64_bytes (of_nat (length s)) @ s @ 0 # pad)"
      "raw = u64_bytes (of_nat cap) @ u64_bytes (of_nat (length s)) @ (s @ 0 # pad)"
      "length s + length pad = cap" "cap < 2 ^ 63" using assms by (auto simp: string_at_def)
  show "string_capacity raw = Inr cap"
    unfolding string_capacity_def by (subst raw(1), rule hdr_get_mid) (use raw in auto)
  show "string_length raw = Inr (length s)"
    unfolding string_length_def by (subst raw(2), rule hdr_get_mid) (use raw in auto)
qed

text \<open>Writing into the characters of a block, and recording a length.\<close>

lemma str_write_mid:
  assumes "length h = 16" "off = length a" "length bs = length b"
  shows "str_write (h @ a @ b @ c) off bs = Inr (h @ a @ bs @ c)"
  using blk_write_mid [of "16 + off" "h @ a" bs b c] assms by (simp add: str_write_def HEADER_SIZE_def)

lemma finish_size_mid:
  assumes "length x = 8" "length s < 2 ^ 63" "length s + length pad = cap" "cap < 2 ^ 63"
  shows "\<exists>raw. finish_size (u64_bytes (of_nat cap) @ x @ s @ c # pad) (length s) = Inr (True, raw) \<and> string_at raw cap s"
proof -
  define h where "h = u64_bytes (of_nat cap) @ u64_bytes (of_nat (length s))"
  have "set_size (u64_bytes (of_nat cap) @ x @ (s @ c # pad)) (length s) = Inr (u64_bytes (of_nat cap) @ u64_bytes (of_nat (length s)) @ s @ c # pad)"
    unfolding set_size_def by (rule hdr_set_mid) (use assms in auto)
  moreover have "string_length (u64_bytes (of_nat cap) @ u64_bytes (of_nat (length s)) @ (s @ c # pad)) = Inr (length s)"
    unfolding string_length_def by (rule hdr_get_mid) (use assms in auto)
  moreover have "str_write (h @ s @ [c] @ pad) (length s) [0] = Inr (h @ s @ [0] @ pad)"
    by (rule str_write_mid) (auto simp: h_def)
  ultimately show ?thesis
    using assms by (auto simp: finish_size_def SET_NULL_TERMINATOR_def h_def string_at_def)
qed

lemma string_resize_at:
  assumes at: "string_at raw cap s" and n: "cap \<le> n" "n < 2 ^ 63"
  shows "\<exists>raw'. string_resize True junk raw n = Inr (True, raw') \<and> string_at raw' n s"
proof -
  define h where "h = u64_bytes (of_nat (length s))"
  obtain pad where raw: "raw = u64_bytes (of_nat cap) @ h @ s @ 0 # pad" "length s + length pad = cap" "cap < 2 ^ 63"
    using at by (auto simp: string_at_def h_def)
  obtain a b c where m: "malloc_blk junk (n + 1 + 16) = a @ b @ c" "length a = 0" "length b = 16 + length s"
    using blk_split [of 0 "16 + length s" "malloc_blk junk (n + 1 + 16)"] raw n(1) by auto
  then have c: "length c = n + 1 - length s" using length_malloc_blk [of junk "n + 1 + 16"] by simp
  then obtain d pad' where c': "c = d # pad'" using raw n(1) by (cases c) auto
  have copy: "blk_read raw 0 (16 + length s) = Inr (u64_bytes (of_nat cap) @ h @ s)"
    using blk_read_mid [of 0 "[]" "16 + length s" "u64_bytes (of_nat cap) @ h @ s" "0 # pad"] raw(1) by (simp add: h_def)
  have wr: "blk_write (malloc_blk junk (n + 1 + 16)) 0 (u64_bytes (of_nat cap) @ h @ s) =
      Inr ([] @ u64_bytes (of_nat cap) @ (h @ s @ d # pad'))"
    using blk_write_mid [of 0 a "u64_bytes (of_nat cap) @ h @ s" b c] m c' by (simp add: h_def)
  have cap: "set_capacity ([] @ u64_bytes (of_nat cap) @ (h @ s @ d # pad')) n = Inr ([] @ u64_bytes (of_nat n) @ (h @ s @ d # pad'))"
    unfolding set_capacity_def by (rule hdr_set_mid) auto
  have len: "string_length (u64_bytes (of_nat n) @ h @ (s @ d # pad')) = Inr (length s)"
    unfolding string_length_def h_def by (rule hdr_get_mid) (use raw in auto)
  have nul: "str_write ((u64_bytes (of_nat n) @ h) @ s @ [d] @ pad') (length s) [0] = Inr ((u64_bytes (of_nat n) @ h) @ s @ [0] @ pad')"
    by (rule str_write_mid) (auto simp: h_def)
  have "string_at ((u64_bytes (of_nat n) @ h) @ s @ [0] @ pad') n s"
    using c c' raw(2) n by (simp add: string_at_def h_def)
  then show ?thesis
    using string_at_header [OF at] n(1) copy wr cap len nul
    by (simp add: string_resize_def SET_NULL_TERMINATOR_def HEADER_SIZE_def STRING_SIZE_def)
qed

lemma run_if_simps [simp]: "run_if (Inr (True, raw)) f = f raw" "run_if (Inr (False, raw)) f = Inr (False, raw)" "run_if (Inl e) f = Inl e"
  by (simp_all add: run_if_def)

lemma string_read_text:
  assumes "string_at raw cap s"
  shows "str_read raw 0 (STRING_SIZE (length s)) = Inr (s @ [0])" "str_read raw 0 (length s) = Inr s"
proof -
  define h where "h = u64_bytes (of_nat cap) @ u64_bytes (of_nat (length s))"
  obtain pad where raw: "raw = h @ s @ [0] @ pad" using assms unfolding string_at_def h_def by auto
  have h: "length h = 16" by (simp add: h_def)
  show "str_read raw 0 (STRING_SIZE (length s)) = Inr (s @ [0])"
    using blk_read_mid [of 16 h "length s + 1" "s @ [0]" pad] raw h by (simp add: str_read_def HEADER_SIZE_def STRING_SIZE_def)
  show "str_read raw 0 (length s) = Inr s"
    using blk_read_mid [of 16 h "length s" s "[0] @ pad"] raw h by (simp add: str_read_def HEADER_SIZE_def)
qed

lemma string_put_end:
  assumes at: "string_at raw cap s" and fits: "length s + length d \<le> cap"
  shows "\<exists>raw1 raw'. str_write raw (length s) (d @ [0]) = Inr raw1 \<and>
    finish_size raw1 (length s + length d) = Inr (True, raw') \<and> string_at raw' cap (s @ d)"
proof -
  obtain pad where raw: "raw = u64_bytes (of_nat cap) @ u64_bytes (of_nat (length s)) @ s @ 0 # pad"
      "length s + length pad = cap" "cap < 2 ^ 63" using at by (auto simp: string_at_def)
  define h where "h = u64_bytes (of_nat cap) @ u64_bytes (of_nat (length s))"
  have "str_write (h @ s @ (0 # take (length d) pad) @ drop (length d) pad) (length s) (d @ [0]) =
      Inr (h @ s @ (d @ [0]) @ drop (length d) pad)"
    by (rule str_write_mid) (use fits raw in \<open>auto simp: h_def\<close>)
  moreover have "raw = h @ s @ (0 # take (length d) pad) @ drop (length d) pad" by (simp add: raw(1) h_def)
  moreover have "\<exists>raw'. finish_size (u64_bytes (of_nat cap) @ u64_bytes (of_nat (length s)) @ (s @ d) @ 0 # drop (length d) pad)
      (length (s @ d)) = Inr (True, raw') \<and> string_at raw' cap (s @ d)"
    by (rule finish_size_mid) (use raw fits in auto)
  ultimately show ?thesis by (auto simp: h_def)
qed

lemma string_reserve_at:
  assumes at: "string_at raw cap s" and small: "cap + n < 2 ^ 53"
  shows "\<exists>raw' cap'. string_reserve True junk raw cap (length s) n = Inr (True, raw') \<and> string_at raw' cap' s \<and>
    length s + n \<le> cap'"
proof (cases "length s + n \<ge> cap")
  case True
  define m where "m = string_growth (cap + n)"
  have "flt_round 53 (flt_round 53 cap + flt_round 53 n) = cap + n" using small by (simp add: flt_round_exact)
  moreover have m: "cap + n \<le> m" "m < 2 ^ 63"
    using string_growth_ge [of "cap + n"] string_growth_le [of "cap + n"] small by (simp_all add: m_def)
  moreover have "length s \<le> cap" using at by (auto simp: string_at_def)
  moreover obtain raw' where "string_resize True junk raw m = Inr (True, raw')" "string_at raw' m s"
    using string_resize_at [OF at, of m] m by auto
  ultimately show ?thesis using True by (auto simp: string_reserve_def m_def)
qed (use at in \<open>auto simp: string_reserve_def\<close>)

lemma string_appendc_at:
  assumes at: "string_at raw cap s" and small: "cap + length d < 2 ^ 53"
  shows "\<exists>raw' cap'. string_appendc True junk raw d = Inr (True, raw') \<and> string_at raw' cap' (s @ d)"
proof -
  obtain raw1 cap1 where 1: "string_reserve True junk raw cap (length s) (length d) = Inr (True, raw1)"
      "string_at raw1 cap1 s" "length s + length d \<le> cap1" using string_reserve_at [OF assms] by blast
  then show ?thesis
    using string_put_end [OF 1(2,3)] by (auto simp: string_appendc_def string_at_header [OF at])
qed

lemma string_appends_at:
  assumes at: "string_at raw cap s" and other: "string_at other ocap t" and small: "cap + length t < 2 ^ 53"
  shows "\<exists>raw' cap'. string_appends True junk raw other = Inr (True, raw') \<and> string_at raw' cap' (s @ t)"
proof -
  obtain raw1 cap1 where 1: "string_reserve True junk raw cap (length s) (length t) = Inr (True, raw1)"
      "string_at raw1 cap1 s" "length s + length t \<le> cap1" using string_reserve_at [OF at small] by blast
  then show ?thesis
    using string_put_end [OF 1(2,3)]
    by (auto simp: string_appends_def string_at_header [OF at] string_at_header [OF other] string_read_text [OF other])
qed

lemma string_shift_at:
  assumes at: "string_at raw cap s" and fits: "length s + length d \<le> cap"
  shows "\<exists>raw1 raw2 raw'. str_shift raw (length d) (length s) = Inr raw1 \<and> str_write raw1 0 d = Inr raw2 \<and>
    finish_size raw2 (length s + length d) = Inr (True, raw') \<and> string_at raw' cap (d @ s)"
proof -
  obtain pad where raw: "raw = u64_bytes (of_nat cap) @ u64_bytes (of_nat (length s)) @ s @ 0 # pad"
      "length s + length pad = cap" "cap < 2 ^ 63" using at by (auto simp: string_at_def)
  define h where "h = u64_bytes (of_nat cap) @ u64_bytes (of_nat (length s))"
  have h: "length h = 16" "raw = h @ (s @ [0] @ pad)" by (simp_all add: h_def raw(1))
  obtain x z w where x: "s @ [0] @ pad = x @ z @ w" "length x = length d" "length z = length s + 1"
    by (rule blk_split [of "length d" "length s + 1" "s @ [0] @ pad"]) (use fits raw(2) in auto)
  have rd: "blk_read raw 16 (length s + 1) = Inr (s @ [0])"
    using blk_read_mid [of 16 h "length s + 1" "s @ [0]" pad] h by simp
  have wr: "blk_write raw (16 + length d) (s @ [0]) = Inr (h @ x @ (s @ [0]) @ w)"
    using blk_write_mid [of "16 + length d" "h @ x" "s @ [0]" z w] h x by simp
  have "str_shift raw (length d) (length s) = Inr (h @ x @ (s @ [0]) @ w)"
    using rd wr by (simp add: str_shift_def blk_move_def HEADER_SIZE_def STRING_SIZE_def)
  moreover have "str_write (h @ [] @ x @ ((s @ [0]) @ w)) 0 d = Inr (h @ [] @ d @ ((s @ [0]) @ w))"
    by (rule str_write_mid) (use h x in auto)
  moreover have "\<exists>raw'. finish_size (u64_bytes (of_nat cap) @ u64_bytes (of_nat (length s)) @ (d @ s) @ 0 # w) (length (d @ s)) =
      Inr (True, raw') \<and> string_at raw' cap (d @ s)"
  proof (rule finish_size_mid)
    have "length (s @ [0] @ pad) = length (x @ z @ w)" by (simp only: x(1))
    then show "length (d @ s) + length w = cap" using x(2,3) raw(2) by simp
  qed (use raw fits in auto)
  ultimately show ?thesis by (auto simp: h_def add.commute)
qed

lemma string_prependc_at:
  assumes at: "string_at raw cap s" and small: "cap + length d < 2 ^ 53"
  shows "\<exists>raw' cap'. string_prependc True junk raw d = Inr (True, raw') \<and> string_at raw' cap' (d @ s)"
proof -
  obtain raw1 cap1 where 1: "string_reserve True junk raw cap (length s) (length d) = Inr (True, raw1)"
      "string_at raw1 cap1 s" "length s + length d \<le> cap1" using string_reserve_at [OF assms] by blast
  then show ?thesis
    using string_shift_at [OF 1(2,3)] by (auto simp: string_prependc_def string_at_header [OF at])
qed

lemma string_prepends_at:
  assumes at: "string_at raw cap s" and other: "string_at other ocap t" and small: "cap + length t < 2 ^ 53"
  shows "\<exists>raw' cap'. string_prepends True junk raw other = Inr (True, raw') \<and> string_at raw' cap' (t @ s)"
proof -
  obtain raw1 cap1 where 1: "string_reserve True junk raw cap (length s) (length t) = Inr (True, raw1)"
      "string_at raw1 cap1 s" "length s + length t \<le> cap1" using string_reserve_at [OF at small] by blast
  then show ?thesis
    using string_shift_at [OF 1(2,3)]
    by (auto simp: string_prepends_def string_at_header [OF at] string_at_header [OF other] string_read_text [OF other])
qed

text \<open>Replacing the text: the capacity grows to the new length when it is not greater.\<close>

lemma string_put_all:
  assumes at: "string_at raw cap s" and fits: "length d \<le> cap"
  shows "\<exists>raw1 raw'. str_write raw 0 (d @ [0]) = Inr raw1 \<and>
    finish_size raw1 (length d) = Inr (True, raw') \<and> string_at raw' cap d"
proof -
  obtain pad where raw: "raw = u64_bytes (of_nat cap) @ u64_bytes (of_nat (length s)) @ s @ 0 # pad"
      "length s + length pad = cap" "cap < 2 ^ 63" using at by (auto simp: string_at_def)
  define h where "h = u64_bytes (of_nat cap) @ u64_bytes (of_nat (length s))"
  obtain x z w where x: "s @ [0] @ pad = x @ z @ w" "length x = 0" "length z = length d + 1"
    by (rule blk_split [of 0 "length d + 1" "s @ [0] @ pad"]) (use fits raw(2) in auto)
  have "length (s @ [0] @ pad) = length (x @ z @ w)" by (simp only: x(1))
  then have w: "length d + length w = cap" using x(2,3) raw(2) by simp
  have "str_write (h @ [] @ z @ w) 0 (d @ [0]) = Inr (h @ [] @ (d @ [0]) @ w)"
    by (rule str_write_mid) (use x in \<open>auto simp: h_def\<close>)
  moreover have "raw = h @ [] @ z @ w" using x by (simp add: h_def raw(1))
  moreover have "\<exists>raw'. finish_size (u64_bytes (of_nat cap) @ u64_bytes (of_nat (length s)) @ d @ 0 # w) (length d) =
      Inr (True, raw') \<and> string_at raw' cap d"
    by (rule finish_size_mid) (use raw fits w in auto)
  ultimately show ?thesis by (auto simp: h_def)
qed

lemma string_ensure_at:
  assumes at: "string_at raw cap s" and n: "n < 2 ^ 63"
  shows "\<exists>raw' cap'. (if n \<ge> cap then string_resize True junk raw n else Inr (True, raw)) = Inr (True, raw') \<and>
    string_at raw' cap' s \<and> n \<le> cap'"
proof (cases "cap \<le> n")
  case True
  then show ?thesis using string_resize_at [OF at True n, of junk] by auto
qed (use at in auto)

lemma string_setc_at:
  assumes at: "string_at raw cap s" and n: "length d < 2 ^ 63"
  shows "\<exists>raw' cap'. string_setc True junk raw d = Inr (True, raw') \<and> string_at raw' cap' d"
proof -
  obtain raw1 cap1 where 1: "(if length d \<ge> cap then string_resize True junk raw (length d) else Inr (True, raw)) = Inr (True, raw1)"
      "string_at raw1 cap1 s" "length d \<le> cap1" using string_ensure_at [OF assms] by blast
  show ?thesis
    using string_put_all [OF 1(2,3)] unfolding string_setc_def string_at_header [OF at] res_bind_simps 1(1) by auto
qed

lemma string_sets_at:
  assumes at: "string_at raw cap s" and other: "string_at other ocap t"
  shows "\<exists>raw' cap'. string_sets True junk raw other = Inr (True, raw') \<and> string_at raw' cap' t"
proof -
  have "length t < 2 ^ 63" using other by (auto simp: string_at_def)
  then obtain raw1 cap1 where 1: "(if length t \<ge> cap then string_resize True junk raw (length t) else Inr (True, raw)) = Inr (True, raw1)"
      "string_at raw1 cap1 s" "length t \<le> cap1" using string_ensure_at [OF at] by blast
  show ?thesis
    using string_put_all [OF 1(2,3)]
    unfolding string_sets_def string_at_header [OF at] string_at_header [OF other] res_bind_simps 1(1)
    by (auto simp: string_read_text [OF other])
qed

lemma string_new_at:
  assumes "length d < 2 ^ 53"
  shows "\<exists>raw cap. string_new True d = Inr (Some raw) \<and> string_at raw cap d"
proof -
  define n where "n = string_growth (length d)"
  have n: "length d \<le> n" "n < 2 ^ 63"
    using string_growth_ge [of "length d"] string_growth_le [of "length d"] assms by (simp_all add: n_def)
  have rnd: "flt_round 53 (length d) = length d" using assms by (simp add: flt_round_exact)
  have "calloc_blk (STRING_SIZE n + HEADER_SIZE) =
      [] @ replicate 8 0 @ (replicate 8 0 @ replicate (length d + 1) 0 @ replicate (n - length d) 0)"
    using n(1) by (simp only: calloc_blk_def STRING_SIZE_def HEADER_SIZE_def append_Nil flip: replicate_add) simp
  moreover have "set_capacity ([] @ replicate 8 0 @ (replicate 8 0 @ replicate (length d + 1) 0 @ replicate (n - length d) 0)) n =
      Inr ([] @ u64_bytes (of_nat n) @ (replicate 8 0 @ replicate (length d + 1) 0 @ replicate (n - length d) 0))"
    unfolding set_capacity_def by (rule hdr_set_mid) auto
  moreover have "set_size (u64_bytes (of_nat n) @ replicate 8 0 @ (replicate (length d + 1) 0 @ replicate (n - length d) 0)) (length d) =
      Inr (u64_bytes (of_nat n) @ u64_bytes (of_nat (length d)) @ (replicate (length d + 1) 0 @ replicate (n - length d) 0))"
    unfolding set_size_def by (rule hdr_set_mid) auto
  moreover have "str_write ((u64_bytes (of_nat n) @ u64_bytes (of_nat (length d))) @ [] @ replicate (length d + 1) 0 @ replicate (n - length d) 0)
        0 (d @ [0]) =
      Inr ((u64_bytes (of_nat n) @ u64_bytes (of_nat (length d))) @ [] @ (d @ [0]) @ replicate (n - length d) 0)"
    by (rule str_write_mid) auto
  moreover have "string_at (u64_bytes (of_nat n) @ u64_bytes (of_nat (length d)) @ d @ 0 # replicate (n - length d) 0) n d"
    using n by (simp add: string_at_def)
  ultimately show ?thesis by (auto simp: string_new_def Let_def rnd simp flip: n_def)
qed

lemma string_copy_at:
  assumes "string_at raw cap s"
  shows "string_copy True junk raw = Inr (Some raw)"
proof -
  have len: "length raw = cap + 1 + 16" using assms by (auto simp: string_at_def)
  then have "blk_read raw 0 (cap + 1 + 16) = Inr raw" by (simp add: blk_read_def)
  moreover have "blk_write (malloc_blk junk (cap + 1 + 16)) 0 raw = Inr raw" by (simp add: blk_write_def len)
  ultimately show ?thesis
    by (simp add: string_copy_def string_at_header [OF assms] STRING_SIZE_def HEADER_SIZE_def)
qed

lemma string_clear_at:
  assumes "string_at raw cap s"
  shows "\<exists>raw'. string_clear raw = Inr raw' \<and> string_at raw' cap []"
proof -
  obtain pad where raw: "raw = (u64_bytes (of_nat cap) @ u64_bytes (of_nat (length s))) @ [] @ (s @ [0]) @ pad"
      "length s + length pad = cap" "cap < 2 ^ 63" using assms by (auto simp: string_at_def)
  have "str_write raw 0 (replicate (length s + 1) 0) =
      Inr ((u64_bytes (of_nat cap) @ u64_bytes (of_nat (length s))) @ [] @ replicate (length s + 1) 0 @ pad)"
    unfolding raw(1) by (rule str_write_mid) auto
  moreover have "set_size (u64_bytes (of_nat cap) @ u64_bytes (of_nat (length s)) @ (replicate (length s + 1) 0 @ pad)) 0 =
      Inr (u64_bytes (of_nat cap) @ u64_bytes (of_nat 0) @ (replicate (length s + 1) 0 @ pad))"
    unfolding set_size_def by (rule hdr_set_mid) auto
  ultimately show ?thesis
    using raw(2,3) by (auto simp: string_clear_def string_at_header [OF assms] STRING_SIZE_def string_at_def)
qed

lemma string_eq_at:
  assumes "string_at a ca s" "string_at b cb t"
  shows "string_eq a b = Inr (s = t)"
  using string_read_text [OF assms(1)] string_read_text [OF assms(2)]
  by (auto simp: string_eq_def string_at_header [OF assms(1)] string_at_header [OF assms(2)])

text \<open>
  The formatted setter records the length with the terminator counted: the stored text is the
  formatted one followed by a zero byte.
\<close>

lemma fmt_buffer_read: "length t < 8192 \<Longrightarrow> blk_read (fmt_buffer junk t) 0 (Suc (length t)) = Inr (t @ [0])"
  by (simp add: fmt_buffer_def LIBROMANO_STRING_MAX_FMT_SIZE_def Let_def blk_read_def)

lemma string_setf_at:
  assumes at: "string_at raw cap s" and n: "length t < 8192"
  shows "\<exists>raw' cap'. string_setf True junk raw (Some t) = Inr (True, raw') \<and> string_at raw' cap' (t @ [0])"
proof -
  define m where "m = length t + 1"
  have "m < 2 ^ 63" using n by (simp add: m_def)
  then obtain raw1 cap1 where 1: "(if m \<ge> cap then string_resize True junk raw m else Inr (True, raw)) = Inr (True, raw1)"
      "string_at raw1 cap1 s" "m \<le> cap1" using string_ensure_at [OF at] by blast
  obtain pad where raw1: "raw1 = u64_bytes (of_nat cap1) @ u64_bytes (of_nat (length s)) @ s @ 0 # pad"
      "length s + length pad = cap1" "cap1 < 2 ^ 63" using 1(2) by (auto simp: string_at_def)
  obtain x z y w where x: "s @ [0] @ pad = x @ z @ y @ w" "length x = 0" "length z = m" "length y = 1"
  proof -
    obtain x z w where *: "s @ [0] @ pad = x @ z @ w" "length x = 0" "length z = m + 1"
      by (rule blk_split [of 0 "m + 1" "s @ [0] @ pad"]) (use 1(3) raw1(2) in auto)
    then show ?thesis using that [of x "take m z" "drop m z" w] by simp
  qed
  have "length (s @ [0] @ pad) = length (x @ z @ y @ w)" by (simp only: x(1))
  then have w: "length (t @ [0]) + length w = cap1" using x(2-4) raw1(2) by (simp add: m_def)
  obtain c where y: "y = [c]" using x(4) by (cases y) auto
  have "str_write ((u64_bytes (of_nat cap1) @ u64_bytes (of_nat (length s))) @ [] @ z @ (c # w)) 0 (t @ [0]) =
      Inr ((u64_bytes (of_nat cap1) @ u64_bytes (of_nat (length s))) @ [] @ (t @ [0]) @ c # w)"
    by (rule str_write_mid) (use x in \<open>auto simp: m_def\<close>)
  moreover have "raw1 = u64_bytes (of_nat cap1) @ u64_bytes (of_nat (length s)) @ z @ c # w"
    using x y by (simp add: raw1(1))
  moreover have "\<exists>raw'. finish_size (u64_bytes (of_nat cap1) @ u64_bytes (of_nat (length s)) @ (t @ [0]) @ c # w) (length (t @ [0])) =
      Inr (True, raw') \<and> string_at raw' cap1 (t @ [0])"
    by (rule finish_size_mid) (use raw1 w in auto)
  ultimately show ?thesis
    unfolding string_setf_def option.case Let_def string_at_header [OF at] res_bind_simps 1(1) [unfolded m_def]
    by (auto simp: fmt_buffer_read [OF n])
qed

subsection \<open>Splitting\<close>

lemma strtok_all_count:
  "length (strtok_all [c] s) \<le> count_list s c + (if s = [] \<or> hd s = c then 0 else 1)"
proof (induction "length s" arbitrary: s rule: less_induct)
  case less
  have drop_ne: "count_list (dropWhile (\<lambda>x. x \<noteq> c) t) c = count_list t c" for t by (induction t) auto
  have drop_eq: "count_list (dropWhile (\<lambda>x. x = c) t) c + (if t \<noteq> [] \<and> hd t = c then 1 else 0) \<le> count_list t c" for t
  proof (induction t)
    case (Cons x t)
    then show ?case by (cases t) auto
  qed simp
  show ?case
  proof (cases "dropWhile (\<lambda>x. x = c) s")
    case Nil
    then have "strtok_all [c] s = []" by (simp add: strtok_all.simps [of _ s] del: dropWhile_eq_Nil_conv)
    then show ?thesis by simp
  next
    case (Cons d t)
    define u where "u = dropWhile (\<lambda>x. x \<noteq> c) t"
    have d: "d \<noteq> c" using Cons hd_dropWhile [of "\<lambda>x. x = c" s] by auto
    have "length (d # t) \<le> length s" by (metis Cons length_dropWhile_le)
    moreover have "length u \<le> length t" by (simp add: u_def length_dropWhile_le)
    ultimately have "length u < length s" by simp
    then have "length (strtok_all [c] u) \<le> count_list u c + (if u = [] \<or> hd u = c then 0 else 1)" by (rule less)
    moreover have "u = [] \<or> hd u = c" using hd_dropWhile [of "\<lambda>x. x \<noteq> c" t] by (auto simp: u_def)
    moreover have "count_list u c = count_list (dropWhile (\<lambda>x. x = c) s) c" using d by (simp add: Cons u_def drop_ne)
    moreover have "length (strtok_all [c] s) = Suc (length (strtok_all [c] u))"
      by (simp add: strtok_all.simps [of _ s] Cons u_def)
    moreover have "s \<noteq> []" using Cons by auto
    ultimately show ?thesis using drop_eq [of s] by (auto split: if_splits)
  qed
qed

lemma strtok_all_length: "x \<in> set (strtok_all seps s) \<Longrightarrow> length x \<le> length s"
proof (induction seps s rule: strtok_all.induct)
  case (1 seps s)
  show ?case
  proof (cases "dropWhile (\<lambda>c. c \<in> set seps) s")
    case Nil
    then have "strtok_all seps s = []" by (simp add: strtok_all.simps [of _ s] del: dropWhile_eq_Nil_conv)
    then show ?thesis using "1.prems" by simp
  next
    case (Cons d t)
    have "length (d # t) \<le> length s" by (metis Cons length_dropWhile_le)
    moreover have "length (takeWhile (\<lambda>c. c \<notin> set seps) t) \<le> length t" "length (dropWhile (\<lambda>c. c \<notin> set seps) t) \<le> length t"
      by (simp_all add: length_takeWhile_le length_dropWhile_le)
    ultimately show ?thesis
      using "1.IH" [OF Cons] "1.prems" by (auto simp: strtok_all.simps [of _ s] Cons)
  qed
qed

lemma string_new_all_at:
  "\<forall>t\<in>set ts. length t < 2 ^ 53 \<Longrightarrow>
   \<exists>ss. string_new_all True ts = Inr (map Some ss) \<and> list_all2 (\<lambda>r t. \<exists>cap. string_at r cap t) ss ts"
proof (induction ts)
  case (Cons t ts)
  obtain r cap where "string_new True t = Inr (Some r)" "string_at r cap t" using string_new_at [of t] Cons.prems by auto
  moreover obtain ss where "string_new_all True ts = Inr (map Some ss)" "list_all2 (\<lambda>r t. \<exists>cap. string_at r cap t) ss ts"
    using Cons by auto
  ultimately show ?case by (intro exI [of _ "r # ss"]) auto
qed simp

subsection \<open>Correctness\<close>

text \<open>
  C0: a block that holds the text \<open>C21: s\<close> behaves as the list \<open>s\<close>: appending, prepending and
  setting (from a C string or from another string) deliver blocks that hold \<open>s @ t\<close>, \<open>t @ s\<close> and
  \<open>t\<close>, inside their bounds and for every content of fresh memory, when the allocator succeeds and
  the capacity stays in the range where doubles count exactly.
\<close>

theorem string_operations_correct:
  assumes "string_at raw cap s" "string_at other ocap t" "cap + length t < 2 ^ 53"
  shows "(\<exists>r c. string_appendc True junk raw t = Inr (True, r) \<and> string_at r c (s @ t)) \<and>
    (\<exists>r c. string_appends True junk raw other = Inr (True, r) \<and> string_at r c (s @ t)) \<and>
    (\<exists>r c. string_prependc True junk raw t = Inr (True, r) \<and> string_at r c (t @ s)) \<and>
    (\<exists>r c. string_prepends True junk raw other = Inr (True, r) \<and> string_at r c (t @ s)) \<and>
    (\<exists>r c. string_setc True junk raw t = Inr (True, r) \<and> string_at r c t) \<and>
    (\<exists>r c. string_sets True junk raw other = Inr (True, r) \<and> string_at r c t) \<and>
    (\<exists>r. string_clear raw = Inr r \<and> string_at r cap []) \<and>
    string_copy True junk raw = Inr (Some raw) \<and> string_eq raw other = Inr (s = t)"
  using assms
  by (intro conjI string_appendc_at string_appends_at string_prependc_at string_prepends_at string_setc_at string_sets_at
      string_clear_at string_copy_at string_eq_at) auto

text \<open>
  Splitting at one separator byte stays inside the array it allocates and delivers the tokens
  in order, each as a string of its own; the count it reports is the number of separators plus one,
  so the entries beyond the tokens are left uninitialised.
\<close>

theorem string_splitc_correct:
  assumes "data \<noteq> []" "count_list data c + 1 < 2 ^ 32" "length data < 2 ^ 53"
  shows "\<exists>ss. string_splitc True True data [c] = Inr (count_list data c + 1,
      Some (map Some (map Some ss) @ replicate (count_list data c + 1 - length ss) None)) \<and>
    list_all2 (\<lambda>r t. \<exists>cap. string_at r cap t) ss (strtok_all [c] data)"
proof -
  have "\<forall>t\<in>set (strtok_all [c] data). length t < 2 ^ 53" using strtok_all_length assms(3) by fastforce
  then obtain ss where ss: "string_new_all True (strtok_all [c] data) = Inr (map Some ss)"
      "list_all2 (\<lambda>r t. \<exists>cap. string_at r cap t) ss (strtok_all [c] data)" using string_new_all_at by blast
  moreover have "length ss = length (strtok_all [c] data)" using ss(2) by (rule list_all2_lengthD)
  moreover have "length (strtok_all [c] data) \<le> count_list data c + 1"
    using strtok_all_count [of c data] by (auto split: if_splits)
  ultimately show ?thesis using assms(1,2) by (intro exI [of _ ss]) (simp add: string_splitc_def Let_def)
qed

text \<open>
  With several separator bytes only the first is counted while \<^verbatim>\<open>strtok\<close> splits at all of
  them: the array is too short.
\<close>

lemma string_splitc_two_separators: "string_splitc True True [97, 59, 98] [44, 59] = Inl OutOfBounds"
  by (simp add: string_splitc_def strtok_all.simps)

text \<open>
  The formatted setter counts the terminator: the length it records is one more than the text
  formatted, so a later append continues behind a zero byte.
\<close>

theorem string_setf_counts_terminator:
  assumes "string_at raw cap s" "length t < 8192"
  shows "\<exists>raw' cap'. string_setf True junk raw (Some t) = Inr (True, raw') \<and>
    string_length raw' = Inr (length t + 1) \<and> string_at raw' cap' (t @ [0])"
  using string_setf_at [OF assms, of junk] string_at_header(2) by fastforce

definition string_example :: bytes where
  "string_example = u64_bytes 3 @ u64_bytes 2 @ [97, 98, 0, 0]"

lemma string_example_at: "string_at string_example 3 [97, 98]"
  by (simp add: string_at_def string_example_def)

theorem string_operations_correct_witness:
  "\<exists>r c. string_appends True (\<lambda>_. 255) string_example string_example = Inr (True, r) \<and> string_at r c [97, 98, 97, 98]"
  using string_operations_correct [OF string_example_at string_example_at, of "\<lambda>_. 255"] by simp

theorem string_splitc_correct_witness:
  "\<exists>ss. string_splitc True True [97, 44, 98] [44] = Inr (Suc (Suc 0),
      Some (map Some (map Some ss) @ replicate (Suc (Suc 0) - length ss) None)) \<and>
    list_all2 (\<lambda>r t. \<exists>cap. string_at r cap t) ss (strtok_all [44] [97, 44, 98])"
  using string_splitc_correct [of "[97, 44, 98]" 44] by simp

theorem string_setf_counts_terminator_witness:
  "\<exists>raw' cap'. string_setf True (\<lambda>_. 255) string_example (Some [120]) = Inr (True, raw') \<and>
    string_length raw' = Inr 2 \<and> string_at raw' cap' [120, 0]"
  using string_setf_counts_terminator [OF string_example_at, of "[120]" "\<lambda>_. 255"] by (simp add: numeral_2_eq_2)

end
