(* ===== verification/Vector.thy ===== *)
theory Vector
  imports CMem Hash
begin

text \<open>
  The growable vectors of \<^verbatim>\<open>vector.c\<close> and the stacks of \<^verbatim>\<open>stack.c\<close>: both keep one
  heap block with the size, the capacity and the element size in front of the elements. A vector
  (a stack) is the block its \<^verbatim>\<open>data\<close> points to; a pointer to an element is its byte offset
  in the block. \<open>ok\<close> tells whether the allocator succeeds, \<open>junk\<close> what fresh memory holds.
  The assertions of the sources are compiled out in release builds and are not checks.
\<close>

subsection \<open>Header and growth\<close>

definition vector_size :: "bytes \<Rightarrow> nat res" where
  "vector_size raw = hdr_get raw 0"

definition vector_capacity :: "bytes \<Rightarrow> nat res" where
  "vector_capacity raw = hdr_get raw 1"

definition vector_element_size :: "bytes \<Rightarrow> nat res" where
  "vector_element_size raw = hdr_get raw 2"

definition vector_set_size :: "bytes \<Rightarrow> nat \<Rightarrow> bytes res" where
  "vector_set_size raw n = hdr_set raw 0 n"

definition vector_init :: "bool \<Rightarrow> (nat \<Rightarrow> u8) \<Rightarrow> nat \<Rightarrow> nat \<Rightarrow> bytes res" where
  "vector_init ok junk initial_capacity element_size =
     (let capacity = (if initial_capacity = 0 then 128 else initial_capacity)
      in if \<not> ok then Inl NullDeref
         else
           res_bind (hdr_set (malloc_blk junk (24 + capacity * element_size)) 0 0) (\<lambda>raw.
           res_bind (hdr_set raw 1 capacity) (\<lambda>raw. hdr_set raw 2 element_size)))"

definition vector_resize :: "bool \<Rightarrow> (nat \<Rightarrow> u8) \<Rightarrow> bytes \<Rightarrow> nat \<Rightarrow> bytes res" where
  "vector_resize ok junk raw new_capacity =
     res_bind (vector_capacity raw) (\<lambda>old_capacity. res_bind (vector_element_size raw) (\<lambda>element_size.
       if new_capacity = 0 \<or> new_capacity \<le> old_capacity then Inr raw
       else if \<not> ok then Inl NullDeref
       else hdr_set (realloc_blk junk raw (24 + new_capacity * element_size)) 1 new_capacity))"

text \<open>
  The product with the float 1.61 (13505659 times 2 to the -23), rounded to the nearest integer,
  halves away from zero.
\<close>

definition vector_growth :: "nat \<Rightarrow> nat" where
  "vector_growth cap = (flt_round 24 (flt_round 24 cap * 13505659) * 2 + 2 ^ 23) div 2 ^ 24"

definition vector_grow :: "bool \<Rightarrow> (nat \<Rightarrow> u8) \<Rightarrow> bytes \<Rightarrow> bytes res" where
  "vector_grow ok junk raw =
     res_bind (vector_capacity raw) (\<lambda>cap. vector_resize ok junk raw (vector_growth cap))"

definition vector_at :: "bytes \<Rightarrow> nat \<Rightarrow> nat res" where
  "vector_at raw index = res_bind (vector_element_size raw) (\<lambda>element_size. Inr (24 + index * element_size))"

subsection \<open>Adding and removing\<close>

definition vector_make_room :: "bool \<Rightarrow> (nat \<Rightarrow> u8) \<Rightarrow> bytes \<Rightarrow> bytes res" where
  "vector_make_room ok junk raw =
     res_bind (vector_size raw) (\<lambda>vec_size. res_bind (vector_capacity raw) (\<lambda>vec_capacity.
       if vec_capacity = vec_size then vector_grow ok junk raw else Inr raw))"

definition vector_push_back :: "bool \<Rightarrow> (nat \<Rightarrow> u8) \<Rightarrow> bytes \<Rightarrow> bytes \<Rightarrow> bytes res" where
  "vector_push_back ok junk raw element =
     res_bind (vector_size raw) (\<lambda>vec_size. res_bind (vector_element_size raw) (\<lambda>elem_size.
     res_bind (vector_make_room ok junk raw) (\<lambda>raw.
     res_bind (vector_at raw vec_size) (\<lambda>element_address.
     res_bind (blk_read element 0 elem_size) (\<lambda>data.
     res_bind (blk_write raw element_address data) (\<lambda>raw. vector_set_size raw (vec_size + 1)))))))"

definition vector_emplace_back :: "bool \<Rightarrow> (nat \<Rightarrow> u8) \<Rightarrow> bytes \<Rightarrow> (bytes \<times> nat) res" where
  "vector_emplace_back ok junk raw =
     res_bind (vector_size raw) (\<lambda>vec_size.
     res_bind (vector_make_room ok junk raw) (\<lambda>raw.
     res_bind (vector_at raw vec_size) (\<lambda>element_address.
     res_bind (vector_set_size raw (vec_size + 1)) (\<lambda>raw. Inr (raw, element_address)))))"

text \<open>A product of differences of \<^verbatim>\<open>size_t\<close> values, as the machine computes it.\<close>

definition span_bytes :: "nat \<Rightarrow> nat \<Rightarrow> nat \<Rightarrow> nat" where
  "span_bytes vec_size position elem_size =
     unat ((of_nat vec_size - of_nat position) * of_nat elem_size :: u64)"

definition vector_insert :: "bool \<Rightarrow> (nat \<Rightarrow> u8) \<Rightarrow> bytes \<Rightarrow> bytes \<Rightarrow> nat \<Rightarrow> bytes res" where
  "vector_insert ok junk raw element position =
     res_bind (vector_size raw) (\<lambda>vec_size. res_bind (vector_element_size raw) (\<lambda>elem_size.
     res_bind (vector_make_room ok junk raw) (\<lambda>raw.
     res_bind (vector_at raw position) (\<lambda>element_address.
     res_bind (blk_move raw (element_address + elem_size) element_address (span_bytes vec_size position elem_size)) (\<lambda>raw.
     res_bind (blk_read element 0 elem_size) (\<lambda>data.
     res_bind (blk_write raw element_address data) (\<lambda>raw. vector_set_size raw (vec_size + 1))))))))"

definition vector_remove :: "bytes \<Rightarrow> nat \<Rightarrow> bytes res" where
  "vector_remove raw position =
     res_bind (vector_size raw) (\<lambda>vec_size. res_bind (vector_element_size raw) (\<lambda>elem_size.
     res_bind (vector_at raw position) (\<lambda>element_address.
     res_bind (blk_move raw element_address (element_address + elem_size) (span_bytes vec_size position elem_size)) (\<lambda>raw.
       vector_set_size raw (unat (of_nat vec_size - 1 :: u64))))))"

definition vector_pop :: "bytes \<Rightarrow> bytes res" where
  "vector_pop raw =
     res_bind (vector_size raw) (\<lambda>vec_size. vector_set_size raw (unat (of_nat vec_size - 1 :: u64)))"

definition vector_pop_front :: "bytes \<Rightarrow> bytes res" where
  "vector_pop_front raw =
     res_bind (vector_size raw) (\<lambda>vec_size.
     res_bind (vector_set_size raw (unat (of_nat vec_size - 1 :: u64))) (\<lambda>raw.
     res_bind (vector_at raw 0) (\<lambda>a0. res_bind (vector_at raw 1) (\<lambda>a1.
     res_bind (vector_element_size raw) (\<lambda>elem_size.
       blk_move raw a0 a1 (unat (of_nat vec_size * of_nat elem_size :: u64)))))))"

definition vector_back :: "bytes \<Rightarrow> nat res" where
  "vector_back raw = res_bind (vector_size raw) (\<lambda>n. vector_at raw (unat (of_nat n - 1 :: u64)))"

definition vector_shrink_to_fit :: "bool \<Rightarrow> (nat \<Rightarrow> u8) \<Rightarrow> bytes \<Rightarrow> bytes res" where
  "vector_shrink_to_fit ok junk raw =
     res_bind (vector_size raw) (\<lambda>vec_size. res_bind (vector_element_size raw) (\<lambda>elem_size.
       if \<not> ok then Inl NullDeref
       else hdr_set (realloc_blk junk raw (vec_size * elem_size)) 1 vec_size))"

subsection \<open>Searching and shuffling\<close>

definition VECTOR_NOT_FOUND :: nat where "VECTOR_NOT_FOUND = 0xFFFFFFFFFFFFFFFF"

function vector_find_loop :: "bytes \<Rightarrow> bytes \<Rightarrow> nat \<Rightarrow> nat \<Rightarrow> nat \<Rightarrow> nat res" where
  "vector_find_loop raw v n elem_size i =
     (if i < n
      then res_bind (blk_read raw (24 + i * elem_size) elem_size) (\<lambda>x.
             if x = v then Inr i else vector_find_loop raw v n elem_size (i + 1))
      else Inr VECTOR_NOT_FOUND)"
  by pat_completeness auto
termination by (relation "measure (\<lambda>(raw, v, n, elem_size, i). n - i)") auto

declare vector_find_loop.simps [simp del]

definition vector_find :: "bytes \<Rightarrow> bytes \<Rightarrow> nat res" where
  "vector_find raw v =
     res_bind (vector_size raw) (\<lambda>n. res_bind (vector_element_size raw) (\<lambda>elem_size.
     res_bind (blk_read v 0 elem_size) (\<lambda>v. vector_find_loop raw v n elem_size 0)))"

fun mem_swap :: "bytes \<Rightarrow> nat \<Rightarrow> nat \<Rightarrow> nat \<Rightarrow> bytes res" where
  "mem_swap blk p q 0 = Inr blk"
| "mem_swap blk p q (Suc n) =
     res_bind (blk_read blk p 1) (\<lambda>x. res_bind (blk_read blk q 1) (\<lambda>y.
     res_bind (blk_write blk p y) (\<lambda>blk. res_bind (blk_write blk q x) (\<lambda>blk. mem_swap blk (p + 1) (q + 1) n))))"

text \<open>
  The target of the exchange at step \<open>i\<close>, on 64-bit words; \<open>None\<close> when the divisor is zero.
\<close>

definition shuffle_target :: "u64 \<Rightarrow> nat \<Rightarrow> nat \<Rightarrow> nat option" where
  "shuffle_target seed n i =
     (let rnd = murmur_64 (seed + of_nat i); k = of_nat n - of_nat i :: u64
      in if k = 0 then None
         else let d = (- 1) div k + 1 in if d = 0 then None else Some (unat (of_nat i + rnd div d)))"

fun vector_shuffle_loop :: "bytes \<Rightarrow> u64 \<Rightarrow> nat \<Rightarrow> nat \<Rightarrow> nat \<Rightarrow> nat \<Rightarrow> bytes res" where
  "vector_shuffle_loop raw seed n elem_size i 0 = Inr raw"
| "vector_shuffle_loop raw seed n elem_size i (Suc todo) =
     (case shuffle_target seed n i of
        None \<Rightarrow> Inl DivisionByZero
      | Some j \<Rightarrow>
          res_bind (mem_swap raw (24 + i * elem_size) (24 + j * elem_size) elem_size) (\<lambda>raw.
            vector_shuffle_loop raw seed n elem_size (i + 1) todo))"

text \<open>The loop runs \<open>size - 1\<close> times, where the subtraction wraps for an empty vector.\<close>

definition vector_shuffle :: "bytes \<Rightarrow> u64 \<Rightarrow> bytes res" where
  "vector_shuffle raw seed =
     res_bind (vector_size raw) (\<lambda>n. res_bind (vector_element_size raw) (\<lambda>elem_size.
       vector_shuffle_loop raw seed n elem_size 0 (unat (of_nat n - 1 :: u64))))"

subsection \<open>The list a block holds\<close>

definition vec_header :: "nat \<Rightarrow> nat \<Rightarrow> nat \<Rightarrow> bytes" where
  "vec_header n cap es = u64_bytes (of_nat n) @ u64_bytes (of_nat cap) @ u64_bytes (of_nat es)"

definition vec_at :: "bytes \<Rightarrow> nat \<Rightarrow> nat \<Rightarrow> bytes list \<Rightarrow> bool" where
  "vec_at raw cap es xs \<longleftrightarrow> (\<exists>pad. raw = vec_header (length xs) cap es @ concat xs @ pad \<and>
     (\<forall>x\<in>set xs. length x = es) \<and> length xs * es + length pad = cap * es \<and> length xs \<le> cap \<and>
     0 < es \<and> cap * es < 2 ^ 62)"

lemma length_vec_header [simp]: "length (vec_header n cap es) = 24"
  by (simp add: vec_header_def)

lemma length_concat_const: "\<forall>x\<in>set xs. length x = n \<Longrightarrow> length (concat xs) = length xs * n"
  by (induction xs) auto

lemma length_concat_part:
  assumes "\<forall>x\<in>set xs. length x = n"
  shows "length (concat (take p xs)) = min (length xs) p * n" "length (concat (drop p xs)) = (length xs - p) * n"
  using length_concat_const [of "take p xs" n] length_concat_const [of "drop p xs" n] assms
  by (auto dest: in_set_takeD in_set_dropD)

lemma vec_header_get:
  assumes "n < 2 ^ 64" "cap < 2 ^ 64" "es < 2 ^ 64"
  shows "vector_size (vec_header n cap es @ r) = Inr n"
    "vector_capacity (vec_header n cap es @ r) = Inr cap"
    "vector_element_size (vec_header n cap es @ r) = Inr es"
  using hdr_get_mid [of "[]" 0 n "u64_bytes (of_nat cap) @ u64_bytes (of_nat es) @ r"] assms
    hdr_get_mid [of "u64_bytes (of_nat n)" 1 cap "u64_bytes (of_nat es) @ r"]
    hdr_get_mid [of "u64_bytes (of_nat n) @ u64_bytes (of_nat cap)" 2 es r]
  by (simp_all add: vec_header_def vector_size_def vector_capacity_def vector_element_size_def)

lemma vec_header_set:
  "vector_set_size (vec_header n cap es @ r) m = Inr (vec_header m cap es @ r)"
  "hdr_set (vec_header n cap es @ r) (Suc 0) m = Inr (vec_header n m es @ r)"
  using hdr_set_mid [of "[]" 0 "u64_bytes (of_nat n)" "u64_bytes (of_nat cap) @ u64_bytes (of_nat es) @ r" m]
    hdr_set_mid [of "u64_bytes (of_nat n)" 1 "u64_bytes (of_nat cap)" "u64_bytes (of_nat es) @ r" m]
  by (simp_all add: vec_header_def vector_set_size_def)

lemma vec_atE:
  assumes "vec_at raw cap es xs"
  obtains pad where "raw = vec_header (length xs) cap es @ concat xs @ pad" "\<forall>x\<in>set xs. length x = es"
    "length xs * es + length pad = cap * es" "length xs \<le> cap" "0 < es" "cap * es < 2 ^ 62"
    "length xs < 2 ^ 62" "cap < 2 ^ 62" "cap = 0 \<or> es < 2 ^ 62" "length xs * es < 2 ^ 62"
proof -
  obtain pad where pad: "raw = vec_header (length xs) cap es @ concat xs @ pad" "\<forall>x\<in>set xs. length x = es"
    "length xs * es + length pad = cap * es" "length xs \<le> cap" "0 < es" "cap * es < 2 ^ 62"
    using assms by (auto simp: vec_at_def)
  have "cap \<le> cap * es" "cap = 0 \<or> es \<le> cap * es" using pad(5) by auto
  moreover have "length xs * es \<le> cap * es" using pad(4) by simp
  ultimately show ?thesis using that [OF pad] pad(4,6) by linarith
qed

lemma vec_at_header:
  assumes "vec_at raw cap es xs" "0 < cap"
  shows "vector_size raw = Inr (length xs)" "vector_capacity raw = Inr cap" "vector_element_size raw = Inr es"
    "vector_at raw i = Inr (24 + i * es)"
  using assms by (auto elim!: vec_atE simp: vec_header_get vector_at_def)

lemma vector_growth_bounds:
  assumes "0 < cap" shows "cap < vector_growth cap" "vector_growth cap \<le> 8 * cap"
proof -
  define f F where "f = flt_round 24 cap" and "F = flt_round 24 (f * 13505659)"
  have "cap * 2 ^ 23 \<le> f * (2 ^ 23 + 1)" "f \<le> 2 * cap" using flt_round_bounds [of 24 cap] by (simp_all add: f_def)
  moreover have "f * 13505659 * 2 ^ 23 \<le> F * (2 ^ 23 + 1)" "F \<le> 2 * (f * 13505659)"
    using flt_round_bounds [of 24 "f * 13505659"] by (simp_all add: F_def)
  ultimately have "(cap + 1) * 2 ^ 24 \<le> F * 2 + 2 ^ 23" "F * 2 + 2 ^ 23 \<le> 8 * cap * 2 ^ 24"
    using assms by simp_all
  then have "(cap + 1) * 2 ^ 24 div 2 ^ 24 \<le> vector_growth cap" "vector_growth cap \<le> 8 * cap * 2 ^ 24 div 2 ^ 24"
    unfolding vector_growth_def f_def [symmetric] F_def [symmetric] by (blast intro: div_le_mono)+
  then show "cap < vector_growth cap" "vector_growth cap \<le> 8 * cap" by simp_all
qed

lemma vector_grow_at:
  assumes at: "vec_at raw cap es xs" and cap: "0 < cap" and room: "cap * es < 2 ^ 58"
  shows "\<exists>raw'. vector_grow True junk raw = Inr raw' \<and> vec_at raw' (vector_growth cap) es xs"
proof -
  define m where "m = vector_growth cap"
  obtain pad where raw: "raw = vec_header (length xs) cap es @ concat xs @ pad" "\<forall>x\<in>set xs. length x = es"
    "length xs * es + length pad = cap * es" "length xs \<le> cap" "0 < es" using at by (rule vec_atE)
  have m: "cap < m" "m \<le> 8 * cap" using vector_growth_bounds [OF cap] by (simp_all add: m_def)
  have "m * es \<le> 8 * cap * es" using m(2) by (rule mult_le_mono1)
  also have "\<dots> < 2 ^ 62" using room by simp
  finally have bound: "m * es < 2 ^ 62" .
  have lc: "length (concat xs) = length xs * es" using raw(2) by (rule length_concat_const)
  moreover have ce: "cap * es \<le> m * es" using m(1) by simp
  ultimately have len: "length raw \<le> 24 + m * es" using raw(1,3) by simp
  obtain k where k: "m * es = cap * es + k" using ce le_Suc_ex by blast
  have "realloc_blk junk raw (24 + m * es) = vec_header (length xs) cap es @ concat xs @ pad @ map junk [length raw..<24 + m * es]"
    using len by (simp add: realloc_blk_def raw(1))
  then have "vector_resize True junk raw m =
      Inr (vec_header (length xs) m es @ concat xs @ pad @ map junk [length raw..<24 + m * es])"
    using m(1) by (simp add: vector_resize_def vec_at_header [OF at cap] vec_header_set)
  moreover have "vec_at (vec_header (length xs) m es @ concat xs @ pad @ map junk [length raw..<24 + m * es]) m es xs"
    unfolding vec_at_def
    by (intro exI [of _ "pad @ map junk [length raw..<24 + m * es]"])
      (use raw m bound k in \<open>auto simp: lc\<close>)
  ultimately show ?thesis by (simp add: vector_grow_def vec_at_header [OF at cap] m_def)
qed

lemma vector_make_room_at:
  assumes at: "vec_at raw cap es xs" and cap: "0 < cap" and room: "cap * es < 2 ^ 58"
  shows "\<exists>raw' cap'. vector_make_room True junk raw = Inr raw' \<and> vec_at raw' cap' es xs \<and> length xs < cap'"
proof (cases "cap = length xs")
  case True
  then show ?thesis
    using vector_grow_at [OF assms, of junk] vector_growth_bounds [OF cap]
    by (auto simp: vector_make_room_def vec_at_header [OF at cap])
next
  case False
  moreover have "length xs \<le> cap" using at by (rule vec_atE)
  ultimately show ?thesis using at by (auto simp: vector_make_room_def vec_at_header [OF at cap])
qed

text \<open>Recording the new size closes every operation that changes the elements.\<close>

lemma vec_finish:
  assumes "\<forall>x\<in>set ys. length x = es" "length ys * es + length pad = cap * es" "length ys \<le> cap" "0 < es" "cap * es < 2 ^ 62"
  shows "vector_set_size (vec_header n cap es @ concat ys @ pad) (length ys) = Inr (vec_header (length ys) cap es @ concat ys @ pad)"
    "vec_at (vec_header (length ys) cap es @ concat ys @ pad) cap es ys"
  using assms by (auto simp: vec_header_set vec_at_def)

lemma span_bytes_exact:
  assumes "p \<le> n" "n * es < 2 ^ 62" "n < 2 ^ 62" "es < 2 ^ 62"
  shows "span_bytes n p es = (n - p) * es"
proof -
  have "(of_nat n - of_nat p) * of_nat es = (of_nat ((n - p) * es) :: u64)" using assms(1) by (simp add: of_nat_diff)
  moreover have "(n - p) * es < 2 ^ 64"
    by (rule le_less_trans [of _ "n * es"]) (use assms(2) in simp_all)
  ultimately show ?thesis unfolding span_bytes_def by (simp only: unat_of_nat_u64)
qed

lemma vec_size_facts:
  assumes "vec_at raw cap es xs" "0 < cap"
  shows "span_bytes (length xs) p es = (length xs - p) * es \<or> length xs < p" "unat (of_nat (length xs) - 1 :: u64) = length xs - 1 \<or> xs = []"
proof -
  obtain pad where "length xs < 2 ^ 62" "cap = 0 \<or> es < 2 ^ 62" "length xs * es < 2 ^ 62" using assms(1) by (rule vec_atE)
  then have b: "length xs < 2 ^ 62" "es < 2 ^ 62" "length xs * es < 2 ^ 62" using assms(2) by auto
  show "span_bytes (length xs) p es = (length xs - p) * es \<or> length xs < p"
    using span_bytes_exact [of p "length xs" es] b by (cases "p \<le> length xs") simp_all
  have "xs \<noteq> [] \<Longrightarrow> (of_nat (length xs) - 1 :: u64) = of_nat (length xs - 1)" by (cases xs) simp_all
  then show "unat (of_nat (length xs) - 1 :: u64) = length xs - 1 \<or> xs = []"
    using b(1) unat_of_nat_u64 [of "length xs - 1"] by (cases "xs = []") simp_all
qed

lemma vector_push_back_room:
  assumes at: "vec_at raw cap es xs" and cap: "0 < cap" and e: "length e = es"
    and r: "vector_make_room ok junk raw = Inr r" "vec_at r c es xs" "length xs < c"
  shows "\<exists>raw'. vector_push_back ok junk raw e = Inr raw' \<and> vec_at raw' c es (xs @ [e])"
proof -
  obtain pad where pad: "r = vec_header (length xs) c es @ concat xs @ pad" "\<forall>x\<in>set xs. length x = es"
    "length xs * es + length pad = c * es" "0 < es" "c * es < 2 ^ 62" using r(2) by (rule vec_atE)
  have "length xs * es + es \<le> c * es" using mult_le_mono1 [of "Suc (length xs)" c es] r(3) by simp
  then have "es \<le> length pad" using pad(3) by simp
  then obtain z w where z: "pad = z @ w" "length z = es" using append_take_drop_id [of es pad] by (metis length_take min.absorb2)
  have lc: "length (concat xs) = length xs * es" using pad(2) by (rule length_concat_const)
  have "blk_write r (24 + length xs * es) e = Inr (vec_header (length xs) c es @ concat xs @ e @ w)"
    using blk_write_mid [of "24 + length xs * es" "vec_header (length xs) c es @ concat xs" e z w] e z(2) lc
    by (simp add: pad(1) z(1))
  moreover have "blk_read e 0 es = Inr e" using e by (simp add: blk_read_def)
  moreover have "vector_set_size (vec_header (length xs) c es @ concat (xs @ [e]) @ w) (length (xs @ [e])) =
        Inr (vec_header (length (xs @ [e])) c es @ concat (xs @ [e]) @ w)"
      "vec_at (vec_header (length (xs @ [e])) c es @ concat (xs @ [e]) @ w) c es (xs @ [e])"
    by (rule vec_finish; use pad r(3) z e in \<open>auto simp: algebra_simps\<close>)+
  moreover have "0 < c" using r(3) by simp
  ultimately show ?thesis
    using r(1) by (simp add: vector_push_back_def vec_at_header [OF at cap] vec_at_header(4) [OF r(2)])
qed

lemma vector_push_back_at:
  assumes at: "vec_at raw cap es xs" and cap: "0 < cap" and room: "cap * es < 2 ^ 58" and e: "length e = es"
  shows "\<exists>raw' cap'. vector_push_back True junk raw e = Inr raw' \<and> vec_at raw' cap' es (xs @ [e]) \<and> 0 < cap'"
proof -
  obtain r c where r: "vector_make_room True junk raw = Inr r" "vec_at r c es xs" "length xs < c"
    using vector_make_room_at [OF at cap room] by blast
  moreover have "0 < c" using r(3) by simp
  ultimately show ?thesis using vector_push_back_room [OF at cap e r] by blast
qed

text \<open>With a free slot the capacity stays, and no memory is needed.\<close>

lemma vector_push_back_free:
  assumes at: "vec_at raw cap es xs" and e: "length e = es" and free: "length xs < cap"
  shows "\<exists>raw'. vector_push_back ok junk raw e = Inr raw' \<and> vec_at raw' cap es (xs @ [e])"
proof -
  have cap: "0 < cap" using free by simp
  have "vector_make_room ok junk raw = Inr raw" using free by (simp add: vector_make_room_def vec_at_header [OF at cap])
  then show ?thesis using vector_push_back_room [OF at cap e _ at free] by blast
qed

lemma vector_insert_at:
  assumes at: "vec_at raw cap es xs" and cap: "0 < cap" and room: "cap * es < 2 ^ 58" and e: "length e = es"
    and p: "p \<le> length xs"
  shows "\<exists>raw' cap'. vector_insert True junk raw e p = Inr raw' \<and> vec_at raw' cap' es (take p xs @ e # drop p xs) \<and> 0 < cap'"
proof -
  obtain r c where r: "vector_make_room True junk raw = Inr r" "vec_at r c es xs" "length xs < c"
    using vector_make_room_at [OF at cap room] by blast
  obtain pad where pad: "r = vec_header (length xs) c es @ concat xs @ pad" "\<forall>x\<in>set xs. length x = es"
    "length xs * es + length pad = c * es" "0 < es" "c * es < 2 ^ 62" using r(2) by (rule vec_atE)
  define A D where "A = vec_header (length xs) c es @ concat (take p xs)" and "D = concat (drop p xs)"
  have A: "length A = 24 + p * es"
    using p length_concat_part(1) [OF pad(2), of p] by (simp add: A_def)
  have D: "length D = (length xs - p) * es"
    using length_concat_part(2) [OF pad(2), of p] by (simp add: D_def)
  have r_eq: "r = A @ D @ pad" using pad(1) by (simp add: A_def D_def flip: concat_append)
  have "length xs * es + es \<le> c * es" using mult_le_mono1 [of "Suc (length xs)" c es] r(3) by simp
  then have "es \<le> length pad" using pad(3) by simp
  obtain x z w where z: "D @ pad = x @ z @ w" "length x = es" "length z = length D"
    by (rule blk_split [of es "length D" "D @ pad"]) (simp add: \<open>es \<le> length pad\<close>, rule that)
  have "length (D @ pad) = length (x @ z @ w)" by (simp only: z(1))
  then have w: "length pad = es + length w" using z(2,3) by simp
  have "blk_read r (24 + p * es) (length D) = Inr D" using blk_read_mid [of _ A _ D pad] A by (simp add: r_eq)
  moreover have "blk_write r (24 + p * es + es) D = Inr (A @ x @ D @ w)"
    using blk_write_mid [of "24 + p * es + es" "A @ x" D z w] A z by (simp add: r_eq)
  moreover have "blk_write (A @ x @ (D @ w)) (24 + p * es) e = Inr (A @ e @ (D @ w))"
    by (rule blk_write_mid) (use A z e in auto)
  moreover have "blk_read e 0 es = Inr e" using e by (simp add: blk_read_def)
  moreover have "A @ e @ D @ w = vec_header (length xs) c es @ concat (take p xs @ e # drop p xs) @ w" by (simp add: A_def D_def)
  moreover have "length (take p xs @ e # drop p xs) = Suc (length xs)" using p by simp
  moreover have "vector_set_size (vec_header (length xs) c es @ concat (take p xs @ e # drop p xs) @ w) (length (take p xs @ e # drop p xs)) =
        Inr (vec_header (length (take p xs @ e # drop p xs)) c es @ concat (take p xs @ e # drop p xs) @ w)"
      "vec_at (vec_header (length (take p xs @ e # drop p xs)) c es @ concat (take p xs @ e # drop p xs) @ w) c es (take p xs @ e # drop p xs)"
    by (rule vec_finish; use pad r(3) w e p in \<open>auto simp: algebra_simps dest: in_set_takeD in_set_dropD\<close>)+
  moreover have "0 < c" "span_bytes (length xs) p es = length D"
    using r(3) vec_size_facts(1) [OF at cap, of p] p D by auto
  ultimately show ?thesis
    using r(1) by (simp add: vector_insert_def blk_move_def vec_at_header [OF at cap] vec_at_header(4) [OF r(2)]) blast
qed

lemma vector_pop_at:
  assumes at: "vec_at raw cap es xs" and cap: "0 < cap" and ne: "xs \<noteq> []"
  shows "\<exists>raw'. vector_pop raw = Inr raw' \<and> vec_at raw' cap es (butlast xs)"
proof -
  obtain pad where pad: "raw = vec_header (length xs) cap es @ concat xs @ pad" "\<forall>x\<in>set xs. length x = es"
    "length xs * es + length pad = cap * es" "length xs \<le> cap" "0 < es" "cap * es < 2 ^ 62" using at by (rule vec_atE)
  obtain ys y where xs: "xs = ys @ [y]" using ne by (cases xs rule: rev_cases) auto
  have "vector_set_size (vec_header (length xs) cap es @ concat ys @ (y @ pad)) (length ys) = Inr (vec_header (length ys) cap es @ concat ys @ (y @ pad))"
      "vec_at (vec_header (length ys) cap es @ concat ys @ (y @ pad)) cap es ys"
    by (rule vec_finish; use pad xs in \<open>auto simp: algebra_simps\<close>)+
  then show ?thesis
    using vec_size_facts(2) [OF at cap] by (simp add: vector_pop_def vec_at_header [OF at cap]) (simp add: pad(1) xs)
qed

text \<open>
  Removal moves one element too many, so it needs a free slot behind the last element; then it
  removes exactly the element.
\<close>

lemma vector_remove_move:
  assumes pad: "\<forall>x\<in>set xs. length x = es" "length xs * es + length pad = cap * es" "length xs < cap" "0 < es" "cap * es < 2 ^ 62"
    and p: "p < length xs"
  shows "\<exists>pad'. blk_move (vec_header n cap es @ concat xs @ pad) (24 + p * es) (24 + p * es + es) ((length xs - p) * es) =
      Inr (vec_header n cap es @ concat (take p xs @ drop (Suc p) xs) @ pad') \<and>
    length (take p xs @ drop (Suc p) xs) * es + length pad' = cap * es"
proof -
  define A D where "A = vec_header n cap es @ concat (take p xs)" and "D = concat (drop (Suc p) xs)"
  have A: "length A = 24 + p * es" using p length_concat_part(1) [OF pad(1), of p] by (simp add: A_def)
  have D: "length D = (length xs - Suc p) * es" using length_concat_part(2) [OF pad(1), of "Suc p"] by (simp add: D_def)
  have x: "length (xs ! p) = es" using pad(1) p by simp
  have "(length xs - p) = Suc (length xs - Suc p)" using p by simp
  then have k: "(length xs - p) * es = length D + es" using D by simp
  have "length xs * es + es \<le> cap * es" using mult_le_mono1 [of "Suc (length xs)" cap es] pad(3) by simp
  then obtain f w where f: "pad = f @ w" "length f = es"
    using pad(2) append_take_drop_id [of es pad] by (metis length_take min.absorb2 add_le_cancel_left)
  have blk: "vec_header n cap es @ concat xs @ pad = (A @ xs ! p) @ (D @ f) @ w"
    unfolding A_def D_def f(1) by (subst id_take_nth_drop [OF p]) simp
  have "blk_read ((A @ xs ! p) @ (D @ f) @ w) (24 + p * es + es) (length D + es) = Inr (D @ f)"
    by (rule blk_read_mid) (use A x f in auto)
  moreover define z v where "z = take (length D + es) (xs ! p @ D @ f @ w)" and "v = drop (length D + es) (xs ! p @ D @ f @ w)"
  then have z: "xs ! p @ D @ f @ w = z @ v" "length z = length D + es" using x by (simp_all only: append_take_drop_id) simp
  moreover have "length v = es + length w"
  proof -
    have "length (xs ! p @ D @ f @ w) = length (z @ v)" by (simp only: z(1))
    then show ?thesis using z(2) x f(2) by simp
  qed
  moreover have "blk_write (A @ z @ v) (24 + p * es) (D @ f) = Inr (A @ (D @ f) @ v)"
    by (rule blk_write_mid) (use A z f in auto)
  moreover have "length (take p xs @ drop (Suc p) xs) * es + (es + (es + length w)) = cap * es"
  proof -
    have "length (take p xs @ drop (Suc p) xs) = length xs - 1" using p by simp
    moreover have "(length xs - 1) * es + es = length xs * es" using p by (cases "length xs") auto
    ultimately show ?thesis using pad(2) f by simp
  qed
  ultimately show ?thesis
    unfolding blk k by (intro exI [of _ "f @ v"]) (simp add: blk_move_def A_def D_def f(2))
qed

lemma vector_remove_at:
  assumes at: "vec_at raw cap es xs" and p: "p < length xs" and free: "length xs < cap"
  shows "\<exists>raw'. vector_remove raw p = Inr raw' \<and> vec_at raw' cap es (take p xs @ drop (Suc p) xs)"
proof -
  have cap: "0 < cap" using free by simp
  obtain pad where pad: "raw = vec_header (length xs) cap es @ concat xs @ pad" "\<forall>x\<in>set xs. length x = es"
    "length xs * es + length pad = cap * es" "length xs \<le> cap" "0 < es" "cap * es < 2 ^ 62" using at by (rule vec_atE)
  define ys where "ys = take p xs @ drop (Suc p) xs"
  obtain pad' where m: "blk_move raw (24 + p * es) (24 + p * es + es) ((length xs - p) * es) = Inr (vec_header (length xs) cap es @ concat ys @ pad')"
      "length ys * es + length pad' = cap * es"
    using vector_remove_move [OF pad(2,3) free pad(5,6) p] unfolding pad(1) ys_def by blast
  have ys: "length ys = length xs - 1" "\<forall>x\<in>set ys. length x = es"
    using p pad(2) by (auto simp: ys_def dest: in_set_takeD in_set_dropD)
  have "vector_set_size (vec_header (length xs) cap es @ concat ys @ pad') (length ys) = Inr (vec_header (length ys) cap es @ concat ys @ pad')"
      "vec_at (vec_header (length ys) cap es @ concat ys @ pad') cap es ys"
    by (rule vec_finish; use pad ys m in auto)+
  moreover have "unat (of_nat (length xs) - 1 :: u64) = length ys" using vec_size_facts(2) [OF at cap] p ys by auto
  moreover have "span_bytes (length xs) p es = (length xs - p) * es" using vec_size_facts(1) [OF at cap, of p] p by auto
  ultimately show ?thesis using m by (simp add: vector_remove_def vec_at_header [OF at cap] ys_def)
qed

lemma vector_pop_front_at:
  assumes at: "vec_at raw cap es xs" and ne: "xs \<noteq> []" and free: "length xs < cap"
  shows "\<exists>raw'. vector_pop_front raw = Inr raw' \<and> vec_at raw' cap es (tl xs)"
proof -
  have cap: "0 < cap" using free by simp
  obtain pad where pad: "raw = vec_header (length xs) cap es @ concat xs @ pad" "\<forall>x\<in>set xs. length x = es"
    "length xs * es + length pad = cap * es" "length xs \<le> cap" "0 < es" "cap * es < 2 ^ 62" "cap = 0 \<or> es < 2 ^ 62" "cap < 2 ^ 62"
    using at by (rule vec_atE)
  obtain pad' where m: "blk_move (vec_header (length (tl xs)) cap es @ concat xs @ pad) 24 (24 + es) (length xs * es) =
        Inr (vec_header (length (tl xs)) cap es @ concat (tl xs) @ pad')"
      "length (tl xs) * es + length pad' = cap * es"
    using vector_remove_move [OF pad(2,3) free pad(5,6), of 0 "length (tl xs)"] ne by (auto simp: drop_Suc)
  have t: "\<forall>x\<in>set (tl xs). length x = es" using pad(2) by (cases xs) auto
  have "vec_at (vec_header (length (tl xs)) cap es @ concat (tl xs) @ pad') cap es (tl xs)"
    by (rule vec_finish(2)) (use pad m t in auto)
  moreover have "unat (of_nat (length xs) - 1 :: u64) = length (tl xs)" using vec_size_facts(2) [OF at cap] ne by simp
  moreover have "unat (of_nat (length xs) * of_nat es :: u64) = length xs * es"
    using vec_size_facts(1) [OF at cap, of 0] by (simp add: span_bytes_def)
  moreover have "vector_set_size raw (length (tl xs)) = Inr (vec_header (length (tl xs)) cap es @ concat xs @ pad)"
    by (simp add: pad(1) vec_header_set)
  ultimately show ?thesis
    using m(1) pad(4,7,8) cap by (simp add: vector_pop_front_def vec_at_header [OF at cap] vector_at_def vec_header_get)
qed

lemma vector_remove_full:
  assumes at: "vec_at raw cap es xs" and p: "p < length xs" and full: "length xs = cap"
  shows "vector_remove raw p = Inl OutOfBounds" "p = 0 \<Longrightarrow> vector_pop_front raw = Inl OutOfBounds"
proof -
  have cap: "0 < cap" using p full by simp
  obtain pad where pad: "raw = vec_header (length xs) cap es @ concat xs @ pad" "\<forall>x\<in>set xs. length x = es"
    "length xs * es + length pad = cap * es" "length xs \<le> cap" "0 < es" "cap * es < 2 ^ 62" "cap = 0 \<or> es < 2 ^ 62" "cap < 2 ^ 62"
    using at by (rule vec_atE)
  have len: "length raw = 24 + cap * es" using pad length_concat_const [OF pad(2)] by simp
  have "p * es + (length xs - p) * es = cap * es" using p full by (simp flip: add_mult_distrib)
  then have far: "blk_read raw (24 + p * es + es) ((length xs - p) * es) = Inl OutOfBounds"
    using len pad(5) by (simp add: blk_read_def)
  have "span_bytes (length xs) p es = (length xs - p) * es" using vec_size_facts(1) [OF at cap, of p] p by auto
  then show "vector_remove raw p = Inl OutOfBounds"
    using far by (simp add: vector_remove_def vec_at_header [OF at cap] blk_move_def)
  have "unat (of_nat (length xs) * of_nat es :: u64) = length xs * es"
    using vec_size_facts(1) [OF at cap, of 0] by (simp add: span_bytes_def)
  moreover have "vector_set_size raw m = Inr (vec_header m cap es @ concat xs @ pad)" for m
    by (simp add: pad(1) vec_header_set)
  moreover have "unat (of_nat (length xs) - 1 :: u64) = length xs - 1" using vec_size_facts(2) [OF at cap] p by auto
  ultimately show "vector_pop_front raw = Inl OutOfBounds" if "p = 0"
    using len that pad(4,5,7,8) cap pad(1) full
    by (simp add: vector_pop_front_def vec_at_header [OF at cap] vector_at_def vec_header_get blk_move_def blk_read_def)
qed

lemma vec_read_at:
  assumes "vec_at raw cap es xs" "i < length xs"
  shows "blk_read raw (24 + i * es) es = Inr (xs ! i)"
proof -
  obtain pad where pad: "raw = vec_header (length xs) cap es @ concat xs @ pad" "\<forall>x\<in>set xs. length x = es"
    using assms(1) by (rule vec_atE)
  have "raw = (vec_header (length xs) cap es @ concat (take i xs)) @ xs ! i @ (concat (drop (Suc i) xs) @ pad)"
    unfolding pad(1) by (subst (2) id_take_nth_drop [OF assms(2)]) simp
  moreover have "length (concat (take i xs)) = i * es" using length_concat_part(1) [OF pad(2), of i] assms(2) by simp
  moreover have "length (xs ! i) = es" using pad(2) assms(2) by simp
  ultimately show ?thesis by (metis blk_read_mid length_append length_vec_header)
qed

lemma vector_find_loop_at:
  assumes at: "vec_at raw cap es xs"
  shows "i \<le> length xs \<Longrightarrow> v \<notin> set (take i xs) \<Longrightarrow> \<exists>k. vector_find_loop raw v (length xs) es i = Inr k \<and>
    (k = VECTOR_NOT_FOUND \<and> v \<notin> set xs \<or> k < length xs \<and> xs ! k = v \<and> v \<notin> set (take k xs))"
proof (induction "length xs - i" arbitrary: i)
  case 0
  then show ?case by (simp add: vector_find_loop.simps [of _ _ _ _ i])
next
  case (Suc d)
  then have i: "i < length xs" by simp
  have step: "vector_find_loop raw v (length xs) es i = (if xs ! i = v then Inr i else vector_find_loop raw v (length xs) es (i + 1))"
    using i by (simp add: vector_find_loop.simps [of _ _ _ _ i] vec_read_at [OF at])
  show ?case
  proof (cases "xs ! i = v")
    case True
    then show ?thesis using step i Suc.prems by auto
  next
    case False
    have "d = length xs - (i + 1)" "i + 1 \<le> length xs" using Suc i by auto
    moreover have "v \<notin> set (take (i + 1) xs)" using False Suc.prems i by (simp add: take_Suc_conv_app_nth)
    ultimately show ?thesis unfolding step using Suc.hyps(1) [of "i + 1"] False by simp
  qed
qed

lemma vector_find_at:
  assumes at: "vec_at raw cap es xs" and cap: "0 < cap" and v: "length v = es"
  shows "\<exists>k. vector_find raw v = Inr k \<and>
    (k = VECTOR_NOT_FOUND \<and> v \<notin> set xs \<or> k < length xs \<and> xs ! k = v \<and> v \<notin> set (take k xs))"
  using vector_find_loop_at [OF at, of 0 v] v by (simp add: vector_find_def vec_at_header [OF at cap] blk_read_def)

text \<open>The byte-wise exchange of two disjoint regions, and of a region with itself.\<close>

lemma mem_swap_mid:
  "length x = length y \<Longrightarrow>
   mem_swap (A @ x @ B @ y @ C) (length A) (length A + length x + length B) (length x) = Inr (A @ y @ B @ x @ C)"
proof (induction x y arbitrary: A B rule: list_induct2)
  case (Cons a x b y)
  have "blk_read (A @ [a] @ (x @ B @ b # y @ C)) (length A) 1 = Inr [a]" by (rule blk_read_mid) auto
  moreover have "blk_read ((A @ a # x @ B) @ [b] @ (y @ C)) (length A + length (a # x) + length B) 1 = Inr [b]"
    by (rule blk_read_mid) auto
  moreover have "blk_write (A @ [a] @ (x @ B @ b # y @ C)) (length A) [b] = Inr (A @ [b] @ (x @ B @ b # y @ C))"
    by (rule blk_write_mid) auto
  moreover have "blk_write ((A @ b # x @ B) @ [b] @ (y @ C)) (length A + length (a # x) + length B) [a] =
      Inr ((A @ b # x @ B) @ [a] @ (y @ C))"
    by (rule blk_write_mid) auto
  ultimately show ?case using Cons.IH [of "A @ [b]" "B @ [a]"] by simp
qed simp

lemma mem_swap_self: "p + n \<le> length blk \<Longrightarrow> mem_swap blk p p n = Inr blk"
proof (induction n arbitrary: p)
  case (Suc n)
  obtain A b C where "blk = A @ b @ C" "length A = p" "length b = 1"
    by (rule blk_split [of p 1 blk]) (use Suc.prems in simp, rule that)
  then show ?case using Suc by (simp add: blk_read_mid blk_write_mid)
qed simp

lemma vec_swap_at:
  assumes at: "vec_at raw cap es xs" and ij: "i \<le> j" "j < length xs"
  shows "\<exists>raw'. mem_swap raw (24 + i * es) (24 + j * es) es = Inr raw' \<and> vec_at raw' cap es (xs[i := xs ! j, j := xs ! i])"
proof (cases "i = j")
  case True
  obtain pad where pad: "raw = vec_header (length xs) cap es @ concat xs @ pad" "\<forall>x\<in>set xs. length x = es"
    using at by (rule vec_atE)
  have "Suc i * es \<le> length xs * es" using ij by (intro mult_le_mono1) simp
  then have "24 + i * es + es \<le> length raw" using length_concat_const [OF pad(2)] by (simp add: pad(1))
  then show ?thesis using True at mem_swap_self by fastforce
next
  case False
  obtain pad where pad: "raw = vec_header (length xs) cap es @ concat xs @ pad" "\<forall>x\<in>set xs. length x = es"
    "length xs * es + length pad = cap * es" "length xs \<le> cap" "0 < es" "cap * es < 2 ^ 62" using at by (rule vec_atE)
  define u x where "u = take i xs" and "x = xs ! i"
  obtain v y w where xs: "xs = u @ x # v @ y # w" "length u = i" "length v = j - i - 1"
  proof
    have "drop (Suc i) xs ! (j - i - 1) = xs ! j" using ij False by simp
    then have "drop (Suc i) xs = take (j - i - 1) (drop (Suc i) xs) @ xs ! j # drop (Suc (j - i - 1)) (drop (Suc i) xs)"
      using ij False id_take_nth_drop [of "j - i - 1" "drop (Suc i) xs"] by simp
    then show "xs = u @ x # take (j - i - 1) (drop (Suc i) xs) @ xs ! j # drop (Suc (j - i - 1)) (drop (Suc i) xs)"
      using ij id_take_nth_drop [of i xs] unfolding u_def x_def by simp
  qed (use ij False in \<open>auto simp: u_def\<close>)
  have j: "j = Suc (i + length v)" using xs(3) ij False by simp
  have swapped: "xs[i := xs ! j, j := xs ! i] = u @ y # v @ x # w"
    using xs(2) by (simp add: xs(1) j nth_append list_update_append)
  have len: "length x = es" "length y = es" "length (concat u) = i * es" "length (concat v) = length v * es"
    using pad(2) length_concat_const [of u es] length_concat_const [of v es] xs by auto
  have "raw = (vec_header (length xs) cap es @ concat u) @ x @ concat v @ y @ (concat w @ pad)" by (simp add: pad(1) xs(1))
  moreover have "mem_swap ((vec_header (length xs) cap es @ concat u) @ x @ concat v @ y @ (concat w @ pad)) (24 + i * es) (24 + j * es) es =
      Inr ((vec_header (length xs) cap es @ concat u) @ y @ concat v @ x @ (concat w @ pad))"
    using mem_swap_mid [of x y "vec_header (length xs) cap es @ concat u" "concat v" "concat w @ pad"] len
    by (simp add: j algebra_simps)
  moreover have "vec_at (vec_header (length (u @ y # v @ x # w)) cap es @ concat (u @ y # v @ x # w) @ pad) cap es (u @ y # v @ x # w)"
    by (rule vec_finish(2)) (use pad xs in auto)
  ultimately show ?thesis unfolding swapped using xs(1) by simp
qed

text \<open>Fisher-Yates: the target of step \<open>i\<close> lies between \<open>i\<close> and the end.\<close>

lemma shuffle_target_range:
  assumes "Suc i < n" "n < 2 ^ 62"
  obtains j where "shuffle_target seed n i = Some j" "i \<le> j" "j < n"
proof -
  define k rnd d where "k = (of_nat n - of_nat i :: u64)" and "rnd = murmur_64 (seed + of_nat i)" and "d = (- 1) div k + 1"
  have "k = of_nat (n - i)" using assms(1) by (simp add: k_def of_nat_diff)
  then have k: "unat k = n - i" using unat_of_nat_u64 [of "n - i"] assms by simp
  have m1: "unat (- 1 :: u64) = 2 ^ 64 - 1" by (simp add: unsigned_minus_1_eq_mask mask_eq_exp_minus_1)
  have q: "unat ((- 1) div k) = (2 ^ 64 - 1) div (n - i)" by (simp only: unat_div m1 k)
  have "(2 ^ 64 - 1) div (n - i) \<le> (2 ^ 64 - 1) div 2" using assms(1) by (intro div_le_mono2) auto
  then have d: "unat d = (2 ^ 64 - 1) div (n - i) + 1"
    unfolding d_def by (subst unat_Suc_no_wrap) (simp_all add: q)
  have "unat rnd < 2 ^ LENGTH(64)" by (rule unsigned_less)
  then have "unat rnd \<le> 2 ^ 64 - 1" by simp
  also have "\<dots> < (n - i) * ((2 ^ 64 - 1) div (n - i) + 1)"
    using dividend_less_times_div [of "n - i" "2 ^ 64 - 1"] assms(1) by simp
  finally have "unat rnd < (n - i) * unat d" by (simp only: d)
  then have "unat rnd div unat d < n - i" by (simp add: less_mult_imp_div_less)
  then have r: "unat (rnd div d) < n - i" by (simp add: unat_div)
  then have "unat (of_nat i + rnd div d :: u64) = i + unat (rnd div d)"
    using assms unat_of_nat_u64 [of i] by (subst unat_add_no_wrap) simp_all
  moreover have "k \<noteq> 0" "d \<noteq> 0" using k d assms(1) by auto
  ultimately show ?thesis
    using that [of "i + unat (rnd div d)"] r
    by (simp add: shuffle_target_def Let_def flip: k_def rnd_def d_def)
qed

lemma vector_shuffle_loop_at:
  assumes "vec_at raw cap es xs" "length xs < 2 ^ 62" "i + todo < length xs"
  shows "\<exists>raw' ys. vector_shuffle_loop raw seed (length xs) es i todo = Inr raw' \<and> vec_at raw' cap es ys \<and> mset ys = mset xs"
  using assms
proof (induction todo arbitrary: raw xs i)
  case (Suc todo)
  obtain j where j: "shuffle_target seed (length xs) i = Some j" "i \<le> j" "j < length xs"
    using shuffle_target_range [of i "length xs" seed] Suc.prems by auto
  obtain r where r: "mem_swap raw (24 + i * es) (24 + j * es) es = Inr r" "vec_at r cap es (xs[i := xs ! j, j := xs ! i])"
    using vec_swap_at [OF Suc.prems(1) j(2,3)] by blast
  obtain raw' ys where "vector_shuffle_loop r seed (length xs) es (i + 1) todo = Inr raw'" "vec_at raw' cap es ys"
      "mset ys = mset (xs[i := xs ! j, j := xs ! i])" using Suc.IH [OF r(2), of "i + 1"] Suc.prems by auto
  then show ?case using j r by (auto simp: mset_swap)
qed auto

lemma vector_init_capacity:
  assumes "0 < es" "(if cap = 0 then 128 else cap) * es < 2 ^ 62"
  shows "\<exists>raw. vector_init True junk cap es = Inr raw \<and> vec_at raw (if cap = 0 then 128 else cap) es []"
proof -
  define c where "c = (if cap = 0 then 128 else cap)"
  obtain a b d w where m: "malloc_blk junk (24 + c * es) = a @ b @ d @ w" "length a = 8" "length b = 8" "length d = 8"
  proof -
    obtain x y w where *: "malloc_blk junk (24 + c * es) = x @ y @ w" "length x = 8" "length y = 16"
      by (rule blk_split [of 8 16 "malloc_blk junk (24 + c * es)"]) (simp, rule that)
    then show ?thesis using that [of x "take 8 y" "drop 8 y" w] by simp
  qed
  have "length (malloc_blk junk (24 + c * es)) = length (a @ b @ d @ w)" by (simp only: m(1))
  then have w: "length w = c * es" using m(2-4) by simp
  have "hdr_set ([] @ a @ (b @ d @ w)) 0 0 = Inr ([] @ u64_bytes (of_nat 0) @ (b @ d @ w))" by (rule hdr_set_mid) (use m in auto)
  moreover have "hdr_set (u64_bytes (of_nat 0) @ b @ (d @ w)) 1 c = Inr (u64_bytes (of_nat 0) @ u64_bytes (of_nat c) @ (d @ w))"
    by (rule hdr_set_mid) (use m in auto)
  moreover have "hdr_set ((u64_bytes (of_nat 0) @ u64_bytes (of_nat c)) @ d @ w) 2 es =
      Inr ((u64_bytes (of_nat 0) @ u64_bytes (of_nat c)) @ u64_bytes (of_nat es) @ w)"
    by (rule hdr_set_mid) (use m in auto)
  moreover have "vec_at (vec_header (length ([] :: bytes list)) c es @ concat [] @ w) c es []"
    by (rule vec_finish(2)) (use assms w in \<open>auto simp: c_def\<close>)
  ultimately have "vector_init True junk cap es = Inr (vec_header 0 c es @ w) \<and> vec_at (vec_header 0 c es @ w) c es []"
    using m(1) by (simp add: vector_init_def Let_def vec_header_def flip: c_def)
  then show ?thesis unfolding c_def by blast
qed

lemma vector_init_at:
  assumes "0 < es" "(if cap = 0 then 128 else cap) * es < 2 ^ 62"
  shows "\<exists>raw c. vector_init True junk cap es = Inr raw \<and> vec_at raw c es [] \<and> 0 < c"
  using vector_init_capacity [OF assms, of junk] by (metis gr0I zero_neq_numeral)

text \<open>
  Shrinking asks for room for the elements alone: the header is part of the block and is lost. With
  fewer than sixteen bytes of elements even the write of the new capacity is outside the block.
\<close>

lemma vector_shrink_to_fit_small:
  assumes "vec_at raw cap es xs" "0 < cap" "length xs * es < 16"
  shows "vector_shrink_to_fit True junk raw = Inl OutOfBounds"
  using assms by (simp add: vector_shrink_to_fit_def vec_at_header hdr_set_def blk_write_def)

subsection \<open>Correctness\<close>

text \<open>
  C20: A vector block behaves as the list of its elements: adding at the end and inserting before any
  position grow the block when it is full and deliver a block that holds the longer list, removing
  at the end drops the last element, a search finds the first equal element, and an access gives the
  address of its element; all inside the block, for every content of fresh memory, when the allocator
  succeeds. The header \<^verbatim>\<open>vector.h\<close> documents \<^verbatim>\<open>vector_insert\<close> as adding at the beginning; the code
  inserts at the position it is given.
\<close>

theorem vector_operations_correct:
  assumes "vec_at raw cap es xs" "0 < cap" "cap * es < 2 ^ 58" "length e = es" "p \<le> length xs"
  shows "(\<exists>r c. vector_push_back True junk raw e = Inr r \<and> vec_at r c es (xs @ [e]) \<and> 0 < c) \<and>
    (\<exists>r c. vector_insert True junk raw e p = Inr r \<and> vec_at r c es (take p xs @ e # drop p xs) \<and> 0 < c) \<and>
    (xs = [] \<or> (\<exists>r. vector_pop raw = Inr r \<and> vec_at r cap es (butlast xs))) \<and>
    (\<exists>k. vector_find raw e = Inr k \<and>
      (k = VECTOR_NOT_FOUND \<and> e \<notin> set xs \<or> k < length xs \<and> xs ! k = e \<and> e \<notin> set (take k xs))) \<and>
    (\<forall>i < length xs. \<exists>off. vector_at raw i = Inr off \<and> blk_read raw off es = Inr (xs ! i))"
  using vec_at_header(4) [OF assms(1,2)] vec_read_at [OF assms(1)]
    vector_push_back_at [OF assms(1-4), of junk] vector_insert_at [OF assms, of junk]
    vector_pop_at [OF assms(1,2)] vector_find_at [OF assms(1,2,4)] by blast

text \<open>
  Removing an element, at a position or at the front, moves one element more than there is
  behind it: with a free slot the result is the list without the element, on a full vector the
  move leaves the block.
\<close>

theorem vector_remove_correct_iff:
  assumes "vec_at raw cap es xs" "p < length xs"
  shows "if length xs < cap
    then (\<exists>r. vector_remove raw p = Inr r \<and> vec_at r cap es (take p xs @ drop (Suc p) xs)) \<and>
      (\<exists>r. vector_pop_front raw = Inr r \<and> vec_at r cap es (tl xs))
    else vector_remove raw p = Inl OutOfBounds \<and> vector_pop_front raw = Inl OutOfBounds"
proof -
  have "length xs \<le> cap" using assms(1) by (rule vec_atE)
  moreover have "xs \<noteq> []" using assms(2) by auto
  ultimately show ?thesis
    using vector_remove_at [OF assms] vector_pop_front_at [OF assms(1)] vector_remove_full [OF assms]
      vector_remove_full(2) [OF assms(1), of 0] assms(2) by auto
qed

text \<open>
  Shuffling a vector that is not empty ends inside the block with a permutation of the elements,
  for every seed; shuffling an empty vector divides by zero.
\<close>

theorem vector_shuffle_permutes:
  assumes "vec_at raw cap es xs" "0 < cap"
  shows "if xs = [] then vector_shuffle raw seed = Inl DivisionByZero
    else \<exists>r ys. vector_shuffle raw seed = Inr r \<and> vec_at r cap es ys \<and> mset ys = mset xs"
proof (cases "xs = []")
  case True
  have "unat (- 1 :: u64) = Suc (2 ^ 64 - 2)" by (simp add: unsigned_minus_1_eq_mask mask_eq_exp_minus_1)
  then have "vector_shuffle_loop raw seed 0 es 0 (unat (- 1 :: u64)) = Inl DivisionByZero"
    by (simp only: vector_shuffle_loop.simps) (simp add: shuffle_target_def)
  then show ?thesis using True by (simp add: vector_shuffle_def vec_at_header [OF assms])
next
  case False
  have "length xs < 2 ^ 62" using assms(1) by (rule vec_atE)
  moreover have "0 + unat (of_nat (length xs) - 1 :: u64) < length xs" using vec_size_facts(2) [OF assms] False by simp
  ultimately show ?thesis
    using vector_shuffle_loop_at [OF assms(1)] False by (simp add: vector_shuffle_def vec_at_header [OF assms])
qed

definition vector_example :: bytes where
  "vector_example = u64_bytes 2 @ u64_bytes 2 @ u64_bytes 1 @ [7, 8]"

lemma vector_example_at: "vec_at vector_example 2 1 [[7], [8]]"
  by (simp add: vec_at_def vector_example_def vec_header_def)

theorem vector_operations_correct_witness:
  "\<exists>r c. vector_insert True (\<lambda>_. 255) vector_example [9] 1 = Inr r \<and> vec_at r c 1 [[7], [9], [8]] \<and> 0 < c"
  using vector_operations_correct [OF vector_example_at, of "[9]" 1 "\<lambda>_. 255"] by simp

theorem vector_remove_correct_iff_witness: "vector_remove vector_example 1 = Inl OutOfBounds"
  using vector_remove_correct_iff [OF vector_example_at, of 1] by simp

theorem vector_shuffle_permutes_witness:
  "\<exists>r ys. vector_shuffle vector_example 5 = Inr r \<and> vec_at r 2 1 ys \<and> mset ys = {#[7], [8]#}"
  using vector_shuffle_permutes [OF vector_example_at, of 5] by simp

end
