(* ===== verification/Stack.thy ===== *)
theory Stack
  imports Vector
begin

text \<open>
  The stacks of \<^verbatim>\<open>stack.c\<close>: the block layout of the vectors (size, capacity and element size in
  front of the elements), the top of the stack last. A stack is the block its \<^verbatim>\<open>data\<close> points
  to and a pointer into it is its byte offset.
\<close>

definition stack_init :: "bool \<Rightarrow> nat \<Rightarrow> nat \<Rightarrow> bytes res" where
  "stack_init ok initial_capacity element_size =
     (let capacity = (if initial_capacity = 0 then 128 else initial_capacity)
      in if \<not> ok then Inl NullDeref
         else
           res_bind (hdr_set (calloc_blk (24 + capacity * element_size)) 0 0) (\<lambda>raw.
           res_bind (hdr_set raw 1 capacity) (\<lambda>raw. hdr_set raw 2 element_size)))"

definition stack_get_size :: "bytes \<Rightarrow> nat res" where
  "stack_get_size raw = hdr_get raw 0"

definition stack_size :: "bytes \<Rightarrow> nat res" where
  "stack_size raw = stack_get_size raw"

definition stack_set_size :: "bytes \<Rightarrow> nat \<Rightarrow> bytes res" where
  "stack_set_size raw n = hdr_set raw 0 n"

definition stack_increment_size :: "bytes \<Rightarrow> bytes res" where
  "stack_increment_size raw = res_bind (hdr_get raw 0) (\<lambda>n. hdr_set raw 0 (unat (of_nat n + 1 :: u64)))"

definition stack_decrement_size :: "bytes \<Rightarrow> bytes res" where
  "stack_decrement_size raw = res_bind (hdr_get raw 0) (\<lambda>n. hdr_set raw 0 (unat (of_nat n - 1 :: u64)))"

definition stack_get_capacity :: "bytes \<Rightarrow> nat res" where
  "stack_get_capacity raw = hdr_get raw 1"

definition stack_set_capacity :: "bytes \<Rightarrow> nat \<Rightarrow> bytes res" where
  "stack_set_capacity raw n = hdr_set raw 1 n"

definition stack_get_element_size :: "bytes \<Rightarrow> nat res" where
  "stack_get_element_size raw = hdr_get raw 2"

definition stack_get_data_ptr :: nat where
  "stack_get_data_ptr = 24"

text \<open>The product with the float 1.61, truncated. No other function of the file calls it.\<close>

definition stack_growth :: "nat \<Rightarrow> nat" where
  "stack_growth cap = flt_round 24 (flt_round 24 cap * 13505659) div 2 ^ 23"

definition stack_grow :: "bool \<Rightarrow> (nat \<Rightarrow> u8) \<Rightarrow> bytes \<Rightarrow> bytes res" where
  "stack_grow ok junk raw =
     res_bind (stack_get_capacity raw) (\<lambda>cap. res_bind (stack_get_element_size raw) (\<lambda>es.
       let new_capacity = stack_growth cap
       in if \<not> ok then Inl NullDeref
          else stack_set_capacity (realloc_blk junk raw (new_capacity * es + 24)) new_capacity))"

definition stack_top :: "bytes \<Rightarrow> nat option res" where
  "stack_top raw =
     res_bind (stack_size raw) (\<lambda>n.
       if n = 0 then Inr None
       else res_bind (stack_get_element_size raw) (\<lambda>es. Inr (Some (stack_get_data_ptr + (n - 1) * es))))"

definition stack_push :: "bytes \<Rightarrow> bytes \<Rightarrow> bytes res" where
  "stack_push raw element =
     res_bind (stack_increment_size raw) (\<lambda>raw.
     res_bind (stack_top raw) (\<lambda>top.
     res_bind (stack_get_element_size raw) (\<lambda>es.
     res_bind (blk_read element 0 es) (\<lambda>data.
       case top of None \<Rightarrow> Inl NullDeref | Some off \<Rightarrow> blk_write raw off data))))"

text \<open>The popped element, when the caller passes a place for it, and the block.\<close>

definition stack_pop :: "bytes \<Rightarrow> bool \<Rightarrow> (bytes option \<times> bytes) res" where
  "stack_pop raw wanted =
     res_bind (stack_size raw) (\<lambda>n.
       if n = 0 then Inr (None, raw)
       else
         res_bind (if wanted
                   then res_bind (stack_top raw) (\<lambda>top. res_bind (stack_get_element_size raw) (\<lambda>es.
                          case top of None \<Rightarrow> Inl NullDeref | Some off \<Rightarrow> res_bind (blk_read raw off es) (\<lambda>x. Inr (Some x))))
                   else Inr None) (\<lambda>x.
         res_bind (stack_decrement_size raw) (\<lambda>raw. Inr (x, raw))))"

subsection \<open>The header, through the vector's lemmas\<close>

lemmas stack_header_defs = stack_size_def stack_get_size_def stack_get_capacity_def stack_get_element_size_def
  stack_increment_size_def stack_decrement_size_def stack_set_capacity_def

lemmas vector_header_defs = vector_size_def vector_capacity_def vector_element_size_def vector_set_size_def

lemma stack_init_at:
  assumes "0 < es" "(if cap = 0 then 128 else cap) * es < 2 ^ 62"
  shows "\<exists>raw c. stack_init True cap es = Inr raw \<and> vec_at raw c es [] \<and> 0 < c"
proof -
  have "calloc_blk n = malloc_blk (\<lambda>_. 0) n" for n
    by (simp add: calloc_blk_def malloc_blk_def map_replicate_const)
  then have "stack_init True cap es = vector_init True (\<lambda>_. 0) cap es" by (simp add: stack_init_def vector_init_def)
  then show ?thesis using vector_init_at [OF assms] by simp
qed

lemma stack_push_header:
  assumes at: "vec_at raw cap es xs" and cap: "0 < cap" and e: "length e = es"
  obtains pad where "raw = vec_header (length xs) cap es @ concat xs @ pad"
    "stack_push raw e = blk_write (vec_header (Suc (length xs)) cap es @ concat xs @ pad) (24 + length xs * es) e"
proof -
  obtain pad where pad: "raw = vec_header (length xs) cap es @ concat xs @ pad" "length xs < 2 ^ 62" "cap < 2 ^ 62" "cap = 0 \<or> es < 2 ^ 62"
    using at by (rule vec_atE)
  define r where "r = vec_header (Suc (length xs)) cap es @ concat xs @ pad"
  have n: "unat (of_nat (length xs) + 1 :: u64) = Suc (length xs)"
    using unat_of_nat_u64 [of "Suc (length xs)"] pad(2) by (simp add: add.commute)
  have "hdr_get r 0 = Inr (Suc (length xs))" "hdr_get r 2 = Inr es"
    using vec_header_get [of "Suc (length xs)" cap es "concat xs @ pad"] pad cap by (simp_all add: r_def vector_header_defs)
  moreover have "hdr_set raw 0 (Suc (length xs)) = Inr r" using vec_header_set(1) by (simp add: pad(1) r_def vector_set_size_def)
  moreover have "hdr_get raw 0 = Inr (length xs)" using vec_at_header(1) [OF at cap] by (simp add: vector_size_def)
  ultimately have "stack_push raw e = blk_write r (24 + length xs * es) e"
    using e n by (simp add: stack_push_def stack_top_def stack_header_defs stack_get_data_ptr_def blk_read_def)
  then show ?thesis using that pad(1) by (simp add: r_def)
qed

lemma stack_push_free:
  assumes at: "vec_at raw cap es xs" and free: "length xs < cap" and e: "length e = es"
  shows "\<exists>r. stack_push raw e = Inr r \<and> vec_at r cap es (xs @ [e])"
proof -
  have cap: "0 < cap" using free by simp
  obtain pad where pad: "raw = vec_header (length xs) cap es @ concat xs @ pad"
      "stack_push raw e = blk_write (vec_header (Suc (length xs)) cap es @ concat xs @ pad) (24 + length xs * es) e"
    using stack_push_header [OF at cap e] by blast
  obtain pad' where pad': "raw = vec_header (length xs) cap es @ concat xs @ pad'" "\<forall>x\<in>set xs. length x = es"
    "length xs * es + length pad' = cap * es" "length xs \<le> cap" "0 < es" "cap * es < 2 ^ 62" using at by (rule vec_atE)
  have same: "pad' = pad" using pad(1) pad'(1) by simp
  have "length xs * es + es \<le> cap * es" using mult_le_mono1 [of "Suc (length xs)" cap es] free by simp
  then have "es \<le> length pad" using pad'(3) same by simp
  then obtain z w where z: "pad = z @ w" "length z = es" using append_take_drop_id [of es pad] by (metis length_take min.absorb2)
  have lc: "length (concat xs) = length xs * es" using pad'(2) by (rule length_concat_const)
  have "stack_push raw e = Inr (vec_header (length (xs @ [e])) cap es @ concat (xs @ [e]) @ w)"
    unfolding pad(2) using blk_write_mid [of "24 + length xs * es" "vec_header (Suc (length xs)) cap es @ concat xs" e z w] e z lc
    by simp
  moreover have "vec_at (vec_header (length (xs @ [e])) cap es @ concat (xs @ [e]) @ w) cap es (xs @ [e])"
    by (rule vec_finish(2)) (use pad' free z e same in \<open>auto simp: algebra_simps\<close>)
  ultimately show ?thesis by blast
qed

lemma stack_pop_at:
  assumes at: "vec_at raw cap es xs" and cap: "0 < cap" and ne: "xs \<noteq> []"
  shows "\<exists>r. stack_pop raw True = Inr (Some (last xs), r) \<and> stack_pop raw False = Inr (None, r) \<and> vec_at r cap es (butlast xs)"
proof -
  obtain r where r: "vector_pop raw = Inr r" "vec_at r cap es (butlast xs)" using vector_pop_at [OF assms] by blast
  have h: "hdr_get raw 0 = Inr (length xs)" "hdr_get raw 2 = Inr es"
    using vec_at_header [OF at cap] by (simp_all add: vector_header_defs)
  have "hdr_set raw 0 (unat (of_nat (length xs) - 1 :: u64)) = Inr r"
    using r(1) h(1) by (simp add: vector_pop_def vector_header_defs)
  moreover have "blk_read raw (24 + (length xs - 1) * es) es = Inr (last xs)"
    using vec_read_at [OF at, of "length xs - 1"] ne by (simp add: last_conv_nth)
  ultimately show ?thesis
    using h ne r(2) by (simp add: stack_pop_def stack_top_def stack_header_defs stack_get_data_ptr_def)
qed

subsection \<open>Correctness\<close>

text \<open>
  Below its capacity a stack is last in, first out: what \<^verbatim>\<open>stack_pop\<close> delivers after
  \<^verbatim>\<open>stack_push\<close> is the element pushed, and the stack is as it was before. A push on a full stack
  does not grow it: the copy leaves the block.
\<close>

theorem stack_push_pop:
  assumes "vec_at raw cap es xs" "0 < cap" "length e = es"
  shows "if length xs < cap
    then \<exists>r r'. stack_push raw e = Inr r \<and> vec_at r cap es (xs @ [e]) \<and>
      stack_pop r True = Inr (Some e, r') \<and> vec_at r' cap es xs
    else stack_push raw e = Inl OutOfBounds"
proof (cases "length xs < cap")
  case True
  then show ?thesis using stack_push_free [OF assms(1) True assms(3)] stack_pop_at [OF _ assms(2), of _ es "xs @ [e]"] by fastforce
next
  case False
  obtain pad where pad: "raw = vec_header (length xs) cap es @ concat xs @ pad"
      "stack_push raw e = blk_write (vec_header (Suc (length xs)) cap es @ concat xs @ pad) (24 + length xs * es) e"
    using stack_push_header [OF assms] by blast
  obtain pad' where pad': "raw = vec_header (length xs) cap es @ concat xs @ pad'" "\<forall>x\<in>set xs. length x = es"
    "length xs * es + length pad' = cap * es" "length xs \<le> cap" "0 < es" using assms(1) by (rule vec_atE)
  have "length xs = cap" using False pad'(4) by simp
  then have "pad = []" using pad(1) pad'(1,3) by simp
  moreover have "length (concat xs) = length xs * es" using pad'(2) by (rule length_concat_const)
  ultimately show ?thesis using False assms(3) pad'(5) by (simp add: pad(2) blk_write_def)
qed

definition stack_example :: bytes where
  "stack_example = u64_bytes 1 @ u64_bytes 2 @ u64_bytes 1 @ [7, 0]"

theorem stack_push_pop_witness:
  "\<exists>r r'. stack_push stack_example [9] = Inr r \<and> vec_at r 2 1 [[7], [9]] \<and>
    stack_pop r True = Inr (Some [9], r') \<and> vec_at r' 2 1 [[7]]"
proof -
  have "vec_at stack_example 2 1 [[7]]" by (simp add: vec_at_def stack_example_def vec_header_def)
  then show ?thesis using stack_push_pop [of stack_example 2 1 "[[7]]" "[9]"] by simp
qed

end
