(* ===== verification/Buffer.thy ===== *)
theory Buffer
  imports CMem
begin

text \<open>
  The growable byte buffers of \<^verbatim>\<open>buffer.c\<close>: a pointer to a block, its capacity and the number of
  bytes in use. \<open>ok\<close> tells whether the allocator succeeds, \<open>junk\<close> what fresh memory holds. The
  doubling loop may run forever: \<open>None\<close> is the outcome of a call that does not return.
\<close>

record buffer =
  buf_data :: "bytes option"
  buf_capacity :: u64
  buf_sz :: u64

definition buffer_init :: "bool \<Rightarrow> u64 \<Rightarrow> bool \<times> buffer option" where
  "buffer_init ok initial_capacity =
     (if \<not> ok then (False, None)
      else (True, Some \<lparr>buf_data = Some (calloc_blk (unat initial_capacity)), buf_capacity = initial_capacity, buf_sz = 0\<rparr>))"

definition buffer_size :: "buffer \<Rightarrow> u64" where
  "buffer_size b = buf_sz b"

definition INT64_MAX :: u64 where "INT64_MAX = 0x7FFFFFFFFFFFFFFF"

partial_function (option) buffer_double :: "u64 \<Rightarrow> u64 \<Rightarrow> u64 run" where
  "buffer_double needed new_capacity =
     (if new_capacity < needed \<and> new_capacity < INT64_MAX
      then buffer_double needed (push_bit 1 new_capacity)
      else Some (Inr new_capacity))"

declare buffer_double.simps [code]

text \<open>The argument of \<^verbatim>\<open>realloc\<close> may be \<^verbatim>\<open>NULL\<close>, which allocates.\<close>

definition buffer_resize :: "bool \<Rightarrow> (nat \<Rightarrow> u8) \<Rightarrow> buffer \<Rightarrow> u64 \<Rightarrow> (bool \<times> buffer) run" where
  "buffer_resize ok junk b to_add_sz =
     run_bind (buffer_double (buf_sz b + to_add_sz) (buf_capacity b)) (\<lambda>new_capacity.
       if \<not> ok then Some (Inr (False, b))
       else
         let old = (case buf_data b of None \<Rightarrow> [] | Some blk \<Rightarrow> blk)
         in Some (Inr (True, b\<lparr>buf_data := Some (realloc_blk junk old (unat new_capacity)), buf_capacity := new_capacity\<rparr>)))"

definition buffer_check_resize :: "bool \<Rightarrow> (nat \<Rightarrow> u8) \<Rightarrow> buffer \<Rightarrow> u64 \<Rightarrow> (bool \<times> buffer) run" where
  "buffer_check_resize ok junk b to_add_sz =
     (if buf_capacity b \<le> buf_sz b + to_add_sz then buffer_resize ok junk b to_add_sz else Some (Inr (True, b)))"

definition buffer_prepare_emplace :: "bool \<Rightarrow> (nat \<Rightarrow> u8) \<Rightarrow> buffer \<Rightarrow> u64 \<Rightarrow> (bool \<times> buffer) run" where
  "buffer_prepare_emplace ok junk b data_sz = buffer_check_resize ok junk b data_sz"

definition buffer_emplace_size :: "buffer \<Rightarrow> u64 \<Rightarrow> buffer" where
  "buffer_emplace_size b data_sz = b\<lparr>buf_sz := buf_sz b + data_sz\<rparr>"

definition buffer_append :: "bool \<Rightarrow> (nat \<Rightarrow> u8) \<Rightarrow> buffer \<Rightarrow> bytes \<Rightarrow> (bool \<times> buffer) run" where
  "buffer_append ok junk b data =
     run_bind (buffer_check_resize ok junk b (of_nat (length data))) (\<lambda>(done, b).
       if \<not> done then Some (Inr (False, b))
       else case buf_data b of
         None \<Rightarrow> Some (Inl NullDeref)
       | Some blk \<Rightarrow>
           Some (res_bind (blk_write blk (unat (buf_sz b)) data) (\<lambda>blk.
             Inr (True, b\<lparr>buf_data := Some blk, buf_sz := buf_sz b + of_nat (length data)\<rparr>))))"

definition buffer_is_empty :: "buffer \<Rightarrow> bool" where
  "buffer_is_empty b \<longleftrightarrow> buf_sz b = 0"

definition buffer_reset :: "buffer \<Rightarrow> buffer" where
  "buffer_reset b = b\<lparr>buf_sz := 0\<rparr>"

definition buffer_front :: "buffer \<Rightarrow> (bytes option \<times> u64)" where
  "buffer_front b = (buf_data b, 0)"

definition buffer_back :: "buffer \<Rightarrow> (bytes option \<times> u64)" where
  "buffer_back b = (buf_data b, buf_sz b)"

definition buffer_release :: "buffer \<Rightarrow> buffer" where
  "buffer_release b = \<lparr>buf_data = None, buf_capacity = 0, buf_sz = 0\<rparr>"

subsection \<open>The bytes a buffer holds\<close>

definition buffer_at :: "buffer \<Rightarrow> bytes \<Rightarrow> bool" where
  "buffer_at b s \<longleftrightarrow> (\<exists>pad. buf_data b = Some (s @ pad) \<and> length (s @ pad) = unat (buf_capacity b) \<and>
     unat (buf_sz b) = length s)"

text \<open>
  From a capacity that is not zero the loop ends: it doubles below \<open>2 ^ 63\<close>, where the shift loses
  no bit.
\<close>

lemma unat_push_bit_1: "unat (c :: u64) < 2 ^ 63 \<Longrightarrow> unat (push_bit 1 c) = 2 * unat c"
  using unat_mult_no_wrap [of 2 c] by (simp add: push_bit_eq_mult mult.commute)

lemma buffer_double_ends:
  assumes "0 < unat c" "unat needed \<le> 2 ^ 62"
  shows "\<exists>c'. buffer_double needed c = Some (Inr c') \<and> needed \<le> c' \<and> c \<le> c'"
  using assms(1)
proof (induction "unat needed - unat c" arbitrary: c rule: less_induct)
  case less
  show ?case
  proof (cases "c < needed")
    case True
    then have lt: "unat c < unat needed" by (simp add: word_less_nat_alt)
    then have "c < INT64_MAX" using assms(2) by (simp add: word_less_nat_alt INT64_MAX_def)
    moreover have d: "unat (push_bit 1 c) = 2 * unat c" using lt assms(2) by (intro unat_push_bit_1) simp
    moreover obtain c' where c': "buffer_double needed (push_bit 1 c) = Some (Inr c')" "needed \<le> c'" "push_bit 1 c \<le> c'"
    proof -
      have "unat needed - 2 * unat c < unat needed - unat c" "0 < 2 * unat c" using lt less.prems by auto
      then show ?thesis using that less.hyps [of "push_bit 1 c", unfolded d] by blast
    qed
    moreover have "c \<le> push_bit 1 c" using d by (simp add: word_le_nat_alt)
    ultimately show ?thesis using True by (auto simp: buffer_double.simps [of _ c])
  qed (auto simp: buffer_double.simps [of _ c])
qed

lemma buffer_check_resize_at:
  assumes at: "buffer_at b s" and cap: "buf_capacity b \<noteq> 0" and small: "length s + n \<le> 2 ^ 62"
  shows "\<exists>b'. buffer_check_resize True junk b (of_nat n) = Some (Inr (True, b')) \<and> buffer_at b' s \<and> buf_capacity b' \<noteq> 0 \<and>
    buf_sz b' = buf_sz b \<and> length s + n \<le> unat (buf_capacity b')"
proof -
  obtain pad where pad: "buf_data b = Some (s @ pad)" "length (s @ pad) = unat (buf_capacity b)" "unat (buf_sz b) = length s"
    using at by (auto simp: buffer_at_def)
  have n: "unat (of_nat n :: u64) = n" using small by (simp add: unat_of_nat_u64)
  have need: "unat (buf_sz b + of_nat n) = length s + n"
    using small by (subst unat_add_no_wrap) (simp_all add: n pad(3))
  show ?thesis
  proof (cases "buf_capacity b \<le> buf_sz b + of_nat n")
    case True
    obtain c where c: "buffer_double (buf_sz b + of_nat n) (buf_capacity b) = Some (Inr c)"
        "buf_sz b + of_nat n \<le> c" "buf_capacity b \<le> c"
      using buffer_double_ends [of "buf_capacity b" "buf_sz b + of_nat n"] cap small by (auto simp: need unat_gt_0)
    have c': "length s + n \<le> unat c" "unat (buf_capacity b) \<le> unat c" using c(2,3) by (simp_all add: word_le_nat_alt need)
    define m where "m = map junk [length (s @ pad)..<unat c]"
    have "realloc_blk junk (s @ pad) (unat c) = s @ (pad @ m)" "length (s @ (pad @ m)) = unat c"
      using c'(2) pad(2) by (simp_all add: realloc_blk_def m_def)
    moreover have "c \<noteq> 0" using c'(2) cap by (auto simp: unat_eq_zero)
    ultimately show ?thesis
      using True c(1) c'(1) pad
      by (auto simp: buffer_check_resize_def buffer_resize_def buffer_at_def)
  next
    case False
    then have "length s + n \<le> unat (buf_capacity b)" using need by (simp add: word_le_nat_alt)
    then show ?thesis using False at cap by (simp add: buffer_check_resize_def)
  qed
qed

lemma buffer_append_at:
  assumes at: "buffer_at b s" and cap: "buf_capacity b \<noteq> 0" and small: "length s + length d \<le> 2 ^ 62"
  shows "\<exists>b'. buffer_append True junk b d = Some (Inr (True, b')) \<and> buffer_at b' (s @ d) \<and> buf_capacity b' \<noteq> 0"
proof -
  obtain b' where b': "buffer_check_resize True junk b (of_nat (length d)) = Some (Inr (True, b'))" "buffer_at b' s"
      "buf_capacity b' \<noteq> 0" "length s + length d \<le> unat (buf_capacity b')"
    using buffer_check_resize_at [OF assms] by blast
  obtain pad where pad: "buf_data b' = Some (s @ pad)" "length (s @ pad) = unat (buf_capacity b')" "unat (buf_sz b') = length s"
    using b'(2) by (auto simp: buffer_at_def)
  obtain x z w where x: "s @ pad = x @ z @ w" "length x = length s" "length z = length d"
    by (rule blk_split [of "length s" "length d" "s @ pad"]) (use b'(4) pad(2) in simp, rule that)
  then have pad': "pad = z @ w" by simp
  have "blk_write (s @ z @ w) (length s) d = Inr (s @ d @ w)" by (rule blk_write_mid) (use x in auto)
  moreover have "unat (buf_sz b' + of_nat (length d)) = length (s @ d)"
    using small by (subst unat_add_no_wrap) (simp_all add: pad(3) unat_of_nat_u64)
  ultimately show ?thesis
    using b'(1,3) pad x(3) by (auto simp: buffer_append_def pad' buffer_at_def)
qed

text \<open>From zero the loop never leaves zero.\<close>

lemma buffer_double_zero:
  assumes "n \<noteq> 0" shows "buffer_double n 0 = None"
proof (rule ccontr)
  let ?P = "\<lambda>m c (r :: ub + u64). m = n \<longrightarrow> c \<noteq> (0 :: u64)"
  assume "buffer_double n 0 \<noteq> None"
  then obtain r where run: "buffer_double n 0 = Some r" by auto
  have "?P n 0 r"
  proof (rule buffer_double.raw_induct [where P = ?P, OF _ run])
    fix loop m c r
    assume IH: "\<And>m c r. loop m c = Some r \<Longrightarrow> ?P m c r"
      and body: "(if c < m \<and> c < INT64_MAX then loop m (push_bit 1 c) else Some (Inr c)) = Some r"
    have "0 < n" "(0 :: u64) < INT64_MAX" using assms by (simp_all add: word_gt_0 INT64_MAX_def)
    then show "?P m c r" using body IH [of m "push_bit 1 c" r] by (auto split: if_splits)
  qed
  then show False by simp
qed

subsection \<open>Correctness\<close>

text \<open>
  C36: appending to a buffer of non-zero capacity always returns and adds the bytes behind those it
  holds, inside its block, growing it by doubling when needed; so a series of appends to a fresh
  buffer accumulates the concatenation.
\<close>

theorem buffer_append_correct:
  assumes "buffer_at b s" "buf_capacity b \<noteq> 0" "length s + length d \<le> 2 ^ 62"
  shows "\<exists>b'. buffer_append True junk b d = Some (Inr (True, b')) \<and> buffer_at b' (s @ d) \<and> buf_capacity b' \<noteq> 0"
  using assms by (rule buffer_append_at)

lemma buffer_init_at: "\<exists>b. buffer_init True c = (True, Some b) \<and> buffer_at b [] \<and> buf_capacity b = c"
  by (simp add: buffer_init_def buffer_at_def)

text \<open>
  Appending to a buffer created with capacity zero never returns, because doubling zero gives
  zero.
\<close>

theorem buffer_append_zero_capacity_diverges:
  assumes "d \<noteq> []" "length d < 2 ^ 64"
  shows "\<exists>b. buffer_init True 0 = (True, Some b) \<and> buffer_append ok junk b d = None"
proof -
  have pos: "(of_nat (length d) :: u64) \<noteq> 0" using assms by (simp add: word_unat_eq_iff unat_of_nat_u64 del: word_of_nat_eq_0_iff)
  have "buffer_double n 0 = None" if "n \<noteq> 0" for n using buffer_double_zero [OF that] .
  then show ?thesis using pos by (simp add: buffer_init_def buffer_append_def buffer_check_resize_def buffer_resize_def)
qed

theorem buffer_append_correct_witness:
  "\<exists>b'. buffer_append True (\<lambda>_. 255) \<lparr>buf_data = Some [1], buf_capacity = 1, buf_sz = 1\<rparr> [2, 3] = Some (Inr (True, b')) \<and>
    buffer_at b' [1, 2, 3] \<and> buf_capacity b' \<noteq> 0"
  using buffer_append_correct [of "\<lparr>buf_data = Some [1], buf_capacity = 1, buf_sz = 1\<rparr>" "[1]" "[2, 3]" "\<lambda>_. 255"]
  by (simp add: buffer_at_def)

theorem buffer_append_zero_capacity_diverges_witness:
  "\<exists>b. buffer_init True 0 = (True, Some b) \<and> buffer_append True (\<lambda>_. 255) b [7] = None"
  using buffer_append_zero_capacity_diverges [of "[7]"] by simp

end
