(* ===== verification/CType.thy ===== *)
theory CType
  imports CMem
begin

text \<open>
  Characters, strings and conversions of the C library that several components use, in the C
  locale: checked reads, \<^verbatim>\<open>memcmp\<close>, \<^verbatim>\<open>strlen\<close>, \<^verbatim>\<open>isdigit\<close>, \<^verbatim>\<open>isspace\<close>, \<^verbatim>\<open>strtoll\<close> and
  \<^verbatim>\<open>strtol\<close> with base 10 on targets with a 64-bit \<^verbatim>\<open>long\<close>.
\<close>

definition cstr :: "string \<Rightarrow> bytes" where
  "cstr s = map of_char s"

text \<open>The string a block holds, up to its terminator.\<close>

definition block_str :: "bytes \<Rightarrow> bytes" where
  "block_str blk = takeWhile (\<lambda>c. c \<noteq> 0) blk"

definition read_at :: "bytes \<Rightarrow> nat \<Rightarrow> u8 res" where
  "read_at mem i = (if i < length mem then Inr (mem ! i) else Inl OutOfBounds)"

text \<open>\<^verbatim>\<open>memcmp(a, b, n) == 0\<close>; both ranges are read in full.\<close>

definition mem_eq :: "bytes \<Rightarrow> nat \<Rightarrow> bytes \<Rightarrow> nat \<Rightarrow> nat \<Rightarrow> bool res" where
  "mem_eq a i b j n = res_bind (blk_read a i n) (\<lambda>x. res_bind (blk_read b j n) (\<lambda>y. Inr (x = y)))"

text \<open>\<^verbatim>\<open>strlen\<close> from an offset on: the bytes before the next terminator.\<close>

definition strlen_at :: "bytes \<Rightarrow> nat \<Rightarrow> nat res" where
  "strlen_at mem i = (let s = takeWhile (\<lambda>c. c \<noteq> 0) (drop i mem)
     in if i + length s < length mem then Inr (length s) else Inl OutOfBounds)"

definition c_digit :: "u8 \<Rightarrow> bool" where
  "c_digit c \<longleftrightarrow> 48 \<le> c \<and> c \<le> 57"

definition c_space :: "u8 \<Rightarrow> bool" where
  "c_space c \<longleftrightarrow> c = 32 \<or> 9 \<le> c \<and> c \<le> 13"

text \<open>\<^verbatim>\<open>strtoll(s, NULL, 10)\<close>: blanks, a sign, digits, with saturation at both ends.\<close>

definition digits_val :: "bytes \<Rightarrow> int" where
  "digits_val ds = foldl (\<lambda>n c. 10 * n + (uint c - 48)) 0 ds"

definition strtoll :: "bytes \<Rightarrow> int" where
  "strtoll s =
     (let s = dropWhile c_space s;
          neg = (s \<noteq> [] \<and> hd s = of_char CHR ''-'');
          s = (if s \<noteq> [] \<and> (hd s = of_char CHR ''-'' \<or> hd s = of_char CHR ''+'') then tl s else s);
          v = digits_val (takeWhile c_digit s)
      in max (- (2 ^ 63)) (min (2 ^ 63 - 1) (if neg then - v else v)))"

lemma strtoll_range: "- (2 ^ 63) \<le> strtoll s" "strtoll s < 2 ^ 63"
  by (simp_all add: strtoll_def Let_def)

lemma sint_strtoll: "sint (word_of_int (strtoll s) :: u64) = strtoll s"
  using strtoll_range [of s] by (simp add: sint_sbintrunc' signed_take_bit_int_eq_self)

lemma mem_eq_ok:
  "i + n \<le> length a \<Longrightarrow> j + n \<le> length b \<Longrightarrow> mem_eq a i b j n = Inr (take n (drop i a) = take n (drop j b))"
  by (simp add: mem_eq_def blk_read_def)

lemma strlen_at_ok: "0 \<notin> set s \<Longrightarrow> strlen_at (pre @ s @ 0 # post) (length pre) = Inr (length s)"
proof -
  assume "0 \<notin> set s"
  then have "takeWhile (\<lambda>c. c \<noteq> 0) (s @ 0 # post) = s" by (simp add: takeWhile_append)
  then show ?thesis by (simp add: strlen_at_def Let_def)
qed

text \<open>
  \<^verbatim>\<open>atoi\<close> at an offset: it reads up to the first character that is no part of the number.
\<close>

definition atoi_at :: "bytes \<Rightarrow> nat \<Rightarrow> 32 word res" where
  "atoi_at mem i =
     (let s = dropWhile c_space (drop i mem);
          r = (if s \<noteq> [] \<and> (hd s = of_char CHR ''-'' \<or> hd s = of_char CHR ''+'') then tl s else s)
      in if dropWhile c_digit r = [] then Inl OutOfBounds else Inr (word_of_int (strtoll (drop i mem))))"

end
