(* ===== verification/Regex.thy ===== *)
theory Regex
  imports CMem CType
begin

text \<open>
  The regular expressions of \<^verbatim>\<open>regex.c\<close>: the lexer, the recursive-descent code generator with its
  jump patching, the pass that resolves the jumps to the failure exit, and the matching machine.
  The vectors of tokens and of code bytes are used through their list contract (theory Vector); a
  pattern and a subject are the bytes before their terminator. The position in the token vector is
  the list of the tokens not yet consumed.
\<close>

subsection \<open>Characters and tokens\<close>

definition is_alnum :: "u8 \<Rightarrow> bool" where
  "is_alnum c \<longleftrightarrow> 48 \<le> c \<and> c \<le> 57 \<or> 65 \<le> c \<and> c \<le> 90 \<or> 97 \<le> c \<and> c \<le> 122"

definition c_lower :: "u8 \<Rightarrow> bool" where "c_lower c \<longleftrightarrow> 97 \<le> c \<and> c \<le> 122"
definition c_upper :: "u8 \<Rightarrow> bool" where "c_upper c \<longleftrightarrow> 65 \<le> c \<and> c \<le> 90"

datatype RegexOperatorType = Alternate | Concatenate | ZeroOrMore | OneOrMore | ZeroOrOne

datatype RegexCharacterType = Single | Range | Any

text \<open>
  The token type with its encoding. \<open>data\<close> is what the pointer of a token reaches: the rest of the
  pattern with its terminator.
\<close>

datatype RegexTokenType =
    Character RegexCharacterType
  | CharacterRange
  | Operator RegexOperatorType
  | GroupBegin
  | GroupEnd
  | Invalid

record RegexToken =
  rt_data :: bytes
  rt_data_sz :: nat
  rt_type :: RegexTokenType

definition regex_token_new :: "bytes \<Rightarrow> nat \<Rightarrow> RegexTokenType \<Rightarrow> RegexToken" where
  "regex_token_new data data_sz type = \<lparr>rt_data = data, rt_data_sz = data_sz, rt_type = type\<rparr>"

datatype regex_error =
    RegexInvalidCharacterRange
  | RegexUnexpectedCharacter
  | RegexUnexpectedEndOfExpression
  | RegexMismatchedParentheses
  | RegexInvalidOperator
  | RegexInvalidToken
  | RegexUnexpectedTokens
  | RegexUnknownOpCode

subsection \<open>Lexer\<close>

definition concat_if :: "bool \<Rightarrow> RegexToken list" where
  "concat_if needs_concat = (if needs_concat then [regex_token_new [] 0 (Operator Concatenate)] else [])"

function regex_lex_loop :: "bytes \<Rightarrow> bool \<Rightarrow> RegexToken list \<Rightarrow> regex_error + RegexToken list" where
  "regex_lex_loop [] needs_concat tokens = Inr tokens"
| "regex_lex_loop (c # rest) needs_concat tokens =
     (let here = (c # rest) @ [0]
      in if is_alnum c \<or> c = 95
         then regex_lex_loop rest True (tokens @ concat_if needs_concat @ [regex_token_new here 1 (Character Single)])
         else if c = 124 then regex_lex_loop rest False (tokens @ [regex_token_new here 1 (Operator Alternate)])
         else if c = 42 then regex_lex_loop rest needs_concat (tokens @ [regex_token_new here 1 (Operator ZeroOrMore)])
         else if c = 43 then regex_lex_loop rest needs_concat (tokens @ [regex_token_new here 1 (Operator OneOrMore)])
         else if c = 63 then regex_lex_loop rest needs_concat (tokens @ [regex_token_new here 1 (Operator ZeroOrOne)])
         else if c = 46
         then regex_lex_loop rest True (tokens @ concat_if needs_concat @ [regex_token_new here 1 (Character Any)])
         else if c = 40 then regex_lex_loop rest needs_concat (tokens @ [regex_token_new here 1 GroupBegin])
         else if c = 41 then regex_lex_loop rest needs_concat (tokens @ [regex_token_new here 1 GroupEnd])
         else if c = 91
         then (case dropWhile (\<lambda>c. c \<noteq> 93) rest of
                 [] \<Rightarrow> Inl RegexInvalidCharacterRange
               | _ # tail \<Rightarrow>
                   regex_lex_loop tail True (tokens @ concat_if needs_concat @
                     [regex_token_new (rest @ [0]) (length (takeWhile (\<lambda>c. c \<noteq> 93) rest)) CharacterRange]))
         else Inl RegexUnexpectedCharacter)"
  by pat_completeness auto
termination
proof (relation "measure (\<lambda>(p, nc, ts). length p)")
  fix c and rest :: bytes and nc ts x21 x22
  assume "dropWhile (\<lambda>c. c \<noteq> 93) rest = x21 # x22"
  then have "length (x21 # x22) \<le> length rest" by (metis length_dropWhile_le)
  then show "((x22, True, ts @ concat_if nc @ [regex_token_new (rest @ [0]) (length (takeWhile (\<lambda>c. c \<noteq> 93) rest)) CharacterRange]),
      c # rest, nc, ts) \<in> measure (\<lambda>(p, nc, ts). length p)" by simp
qed auto

definition regex_lex :: "bytes \<Rightarrow> regex_error + RegexToken list" where
  "regex_lex pattern = regex_lex_loop pattern False []"

subsection \<open>Instructions and jumps\<close>

datatype RegexOpCode =
    TestSingle | TestRange | TestNegatedRange | TestAny | TestDigit | TestLowerCase | TestUpperCase
  | JumpEq | JumpNeq | Accept | Fail | GroupStart | GroupEndOp | IncPos | DecPos | IncPosEq | JumpPos | SetFlag

fun op_byte :: "RegexOpCode \<Rightarrow> u8" where
  "op_byte TestSingle = 0"
| "op_byte TestRange = 1"
| "op_byte TestNegatedRange = 2"
| "op_byte TestAny = 3"
| "op_byte TestDigit = 4"
| "op_byte TestLowerCase = 5"
| "op_byte TestUpperCase = 6"
| "op_byte JumpEq = 7"
| "op_byte JumpNeq = 8"
| "op_byte Accept = 9"
| "op_byte Fail = 10"
| "op_byte GroupStart = 11"
| "op_byte GroupEndOp = 12"
| "op_byte IncPos = 13"
| "op_byte DecPos = 14"
| "op_byte IncPosEq = 15"
| "op_byte JumpPos = 16"
| "op_byte SetFlag = 17"

definition op_of_byte :: "u8 \<Rightarrow> RegexOpCode option" where
  "op_of_byte b = List.find (\<lambda>op. op_byte op = b)
     [TestSingle, TestRange, TestNegatedRange, TestAny, TestDigit, TestLowerCase, TestUpperCase,
      JumpEq, JumpNeq, Accept, Fail, GroupStart, GroupEndOp, IncPos, DecPos, IncPosEq, JumpPos, SetFlag]"

text \<open>Jumps are 32-bit integers in big-endian order.\<close>

definition JUMP_FAIL :: int where "JUMP_FAIL = 2147483647"

definition regex_encode_jump :: "int \<Rightarrow> bytes" where
  "regex_encode_jump jump_size =
     (let w = of_int jump_size :: u32
      in [ucast (drop_bit 24 w), ucast (drop_bit 16 w), ucast (drop_bit 8 w), ucast w])"

definition regex_decode_jump :: "u8 \<Rightarrow> u8 \<Rightarrow> u8 \<Rightarrow> u8 \<Rightarrow> int" where
  "regex_decode_jump b0 b1 b2 b3 =
     sint (push_bit 24 (ucast b0) OR push_bit 16 (ucast b1) OR push_bit 8 (ucast b2) OR (ucast b3) :: u32)"

definition regex_emit_jump :: "bytes \<Rightarrow> RegexOpCode \<Rightarrow> bytes \<times> nat" where
  "regex_emit_jump code op = (code @ op_byte op # regex_encode_jump 0, length code + 1)"

definition regex_patch_jump :: "bytes \<Rightarrow> nat \<Rightarrow> int \<Rightarrow> bytes res" where
  "regex_patch_jump code jump_pos offset = blk_write code jump_pos (regex_encode_jump offset)"

definition regex_emit_range_opcodes :: "bytes \<Rightarrow> u8 \<Rightarrow> u8 \<Rightarrow> bytes" where
  "regex_emit_range_opcodes code range_start range_end =
     (if range_start = 48 \<and> range_end = 57 then code @ [op_byte TestDigit, op_byte IncPosEq]
      else if range_start = 97 \<and> range_end = 122 then code @ [op_byte TestLowerCase, op_byte IncPosEq]
      else if range_start = 65 \<and> range_end = 90 then code @ [op_byte TestUpperCase, op_byte IncPosEq]
      else code @ [op_byte TestRange, range_start, range_end, op_byte IncPosEq])"

subsection \<open>Code generator\<close>

text \<open>
  The generator fails with an error code, runs into undefined behaviour, or returns the tokens left,
  the next group number and the code; \<open>None\<close> is fuel that ran out.
\<close>

type_synonym emit_state = "RegexToken list \<times> u32 \<times> bytes"
type_synonym emitted = "(ub + (regex_error + emit_state)) option"

definition emit_bind :: "emitted \<Rightarrow> (RegexToken list \<Rightarrow> u32 \<Rightarrow> bytes \<Rightarrow> emitted) \<Rightarrow> emitted" where
  "emit_bind m f = run_bind m (\<lambda>r. case r of Inl e \<Rightarrow> Some (Inr (Inl e)) | Inr (ts, gid, code) \<Rightarrow> f ts gid code)"

definition emit_ok :: "RegexToken list \<Rightarrow> u32 \<Rightarrow> bytes \<Rightarrow> emitted" where
  "emit_ok ts gid code = Some (Inr (Inr (ts, gid, code)))"

definition emit_error :: "regex_error \<Rightarrow> emitted" where
  "emit_error e = Some (Inr (Inl e))"

definition with_code :: "bytes res \<Rightarrow> (bytes \<Rightarrow> emitted) \<Rightarrow> emitted" where
  "with_code r f = (case r of Inl u \<Rightarrow> Some (Inl u) | Inr code \<Rightarrow> f code)"

text \<open>A jump with its target: emission followed by the patch.\<close>

definition emit_jump_to :: "bytes \<Rightarrow> RegexOpCode \<Rightarrow> int \<Rightarrow> bytes res" where
  "emit_jump_to code op offset = (let (code, jump_pos) = regex_emit_jump code op in regex_patch_jump code jump_pos offset)"

text \<open>What a quantifier adds behind the code of its operand, which starts at \<open>primary_start\<close>.\<close>

definition emit_zero_or_more :: "nat \<Rightarrow> bytes \<Rightarrow> bytes res" where
  "emit_zero_or_more primary_start code =
     res_bind (emit_jump_to code JumpEq (int primary_start - int (length code))) (\<lambda>code.
       Inr (code @ [op_byte SetFlag, 1]))"

definition emit_one_or_more :: "nat \<Rightarrow> bytes \<Rightarrow> bytes res" where
  "emit_one_or_more primary_start code =
     (let loop_start = length code; primary_copy = drop primary_start code
      in res_bind (emit_jump_to code JumpNeq JUMP_FAIL) (\<lambda>code.
           let (code, exit_jump_pos) = regex_emit_jump (code @ primary_copy) JumpNeq;
               code = code @ [op_byte SetFlag, 1]
           in res_bind (emit_jump_to code JumpEq (int loop_start - int (length code))) (\<lambda>code.
                regex_patch_jump code exit_jump_pos (int (length code) - int exit_jump_pos - 1))))"

definition emit_zero_or_one :: "bytes \<Rightarrow> bytes" where
  "emit_zero_or_one code = code @ [op_byte SetFlag, 1]"

definition data_at :: "RegexToken \<Rightarrow> nat \<Rightarrow> u8 res" where
  "data_at t i = (if i < length (rt_data t) then Inr (rt_data t ! i) else Inl OutOfBounds)"

text \<open>The quantifier behind an operand, if there is one.\<close>

definition emit_quantifier :: "nat \<Rightarrow> RegexToken list \<Rightarrow> u32 \<Rightarrow> bytes \<Rightarrow> emitted" where
  "emit_quantifier primary_start ts gid code =
     (case ts of
        [] \<Rightarrow> emit_ok ts gid code
      | t # rest \<Rightarrow>
          (case rt_type t of
             Operator ZeroOrMore \<Rightarrow> with_code (emit_zero_or_more primary_start code) (emit_ok rest gid)
           | Operator OneOrMore \<Rightarrow> with_code (emit_one_or_more primary_start code) (emit_ok rest gid)
           | Operator ZeroOrOne \<Rightarrow> emit_ok rest gid (emit_zero_or_one code)
           | _ \<Rightarrow> emit_ok ts gid code))"

text \<open>The end of a group.\<close>

definition emit_group_end :: "u32 \<Rightarrow> RegexToken list \<Rightarrow> u32 \<Rightarrow> bytes \<Rightarrow> emitted" where
  "emit_group_end group_id ts gid code =
     (case ts of
        [] \<Rightarrow> emit_error RegexMismatchedParentheses
      | e # rest \<Rightarrow>
          if rt_type e \<noteq> GroupEnd then emit_error RegexMismatchedParentheses
          else emit_ok rest gid (code @ [op_byte GroupEndOp, ucast group_id]))"

text \<open>The operands that need no recursion: characters and ranges; other tokens are errors.\<close>

definition emit_atom :: "RegexToken \<Rightarrow> RegexToken list \<Rightarrow> u32 \<Rightarrow> bytes \<Rightarrow> emitted" where
  "emit_atom t rest gid code =
     (case rt_type t of
        Character Single \<Rightarrow>
          with_code (res_bind (data_at t 0) (\<lambda>c. Inr (code @ [op_byte TestSingle, c, op_byte IncPosEq]))) (emit_ok rest gid)
      | Character Any \<Rightarrow> emit_ok rest gid (code @ [op_byte TestAny, op_byte IncPosEq])
      | Character Range \<Rightarrow> emit_ok rest gid (code @ [op_byte IncPosEq])
      | CharacterRange \<Rightarrow>
          with_code (res_bind (data_at t 0) (\<lambda>a. res_bind (data_at t 2) (\<lambda>b. Inr (regex_emit_range_opcodes code a b))))
            (emit_ok rest gid)
      | Operator _ \<Rightarrow> emit_error RegexInvalidOperator
      | _ \<Rightarrow> emit_error RegexInvalidToken)"

function regex_emit_alternation :: "nat \<Rightarrow> RegexToken list \<Rightarrow> u32 \<Rightarrow> bytes \<Rightarrow> emitted"
  and emit_alternation_loop :: "nat \<Rightarrow> RegexToken list \<Rightarrow> u32 \<Rightarrow> bytes \<Rightarrow> emitted"
  and regex_emit_concatenation :: "nat \<Rightarrow> bool \<Rightarrow> RegexToken list \<Rightarrow> u32 \<Rightarrow> bytes \<Rightarrow> emitted"
  and regex_emit_quantified :: "nat \<Rightarrow> RegexToken list \<Rightarrow> u32 \<Rightarrow> bytes \<Rightarrow> emitted"
  and regex_emit_primary :: "nat \<Rightarrow> RegexToken list \<Rightarrow> u32 \<Rightarrow> bytes \<Rightarrow> emitted"
where
  "regex_emit_alternation 0 ts gid code = None"
| "regex_emit_alternation (Suc n) ts gid code =
     emit_bind (regex_emit_concatenation n True ts gid code) (emit_alternation_loop n)"
| "emit_alternation_loop 0 ts gid code = None"
| "emit_alternation_loop (Suc n) ts gid code =
     (if ts = [] \<or> rt_type (hd ts) \<noteq> Operator Alternate then emit_ok ts gid code
      else emit_bind (regex_emit_concatenation n True (tl ts) gid (fst (regex_emit_jump code JumpEq))) (\<lambda>ts gid code'.
             let jump_over_rhs_pos = snd (regex_emit_jump code JumpEq)
             in with_code (regex_patch_jump code' jump_over_rhs_pos (int (length code') - int (jump_over_rhs_pos - 1)))
                  (emit_alternation_loop n ts gid)))"
| "regex_emit_concatenation 0 first ts gid code = None"
| "regex_emit_concatenation (Suc n) first ts gid code =
     (if ts = [] \<or> rt_type (hd ts) = GroupEnd then emit_ok ts gid code
      else with_code (if first then Inr code else emit_jump_to code JumpNeq JUMP_FAIL) (\<lambda>code.
             emit_bind (regex_emit_quantified n ts gid code) (regex_emit_concatenation n False)))"
| "regex_emit_quantified 0 ts gid code = None"
| "regex_emit_quantified (Suc n) ts gid code =
     emit_bind (regex_emit_primary n ts gid code) (emit_quantifier (length code))"
| "regex_emit_primary 0 ts gid code = None"
| "regex_emit_primary (Suc n) ts gid code =
     (case ts of
        [] \<Rightarrow> emit_error RegexUnexpectedEndOfExpression
      | t # rest \<Rightarrow>
          if rt_type t = GroupBegin
          then emit_bind (regex_emit_alternation n rest (gid + 1) (code @ [op_byte GroupStart, ucast gid])) (emit_group_end gid)
          else if rt_type t = Operator Alternate then regex_emit_alternation n rest gid code
          else if rt_type t = Operator Concatenate then regex_emit_concatenation n True rest gid code
          else emit_atom t rest gid code)"
  by pat_completeness auto
termination
  by (relation "measure (case_sum (case_sum fst fst) (case_sum fst (case_sum fst fst)))") auto

text \<open>
  The last pass walks over the instructions and replaces the placeholder of a jump to the failure
  exit by its distance. An instruction that reads over the end of the code is out of bounds.
\<close>

definition instr_length :: "RegexOpCode \<Rightarrow> nat" where
  "instr_length op =
     (case op of
        TestSingle \<Rightarrow> 2 | SetFlag \<Rightarrow> 2 | GroupStart \<Rightarrow> 2 | GroupEndOp \<Rightarrow> 2
      | TestRange \<Rightarrow> 3 | TestNegatedRange \<Rightarrow> 3
      | JumpEq \<Rightarrow> 5 | JumpNeq \<Rightarrow> 5 | JumpPos \<Rightarrow> 5
      | _ \<Rightarrow> 1)"

lemma instr_length_pos [simp]: "0 < instr_length op"
  by (cases op) (simp_all add: instr_length_def)

definition jump_at :: "bytes \<Rightarrow> nat \<Rightarrow> int res" where
  "jump_at code i =
     res_bind (blk_read code i 4) (\<lambda>bs. Inr (regex_decode_jump (bs ! 0) (bs ! 1) (bs ! 2) (bs ! 3)))"

function resolve_fail_jumps :: "bytes \<Rightarrow> nat \<Rightarrow> nat \<Rightarrow> (regex_error + bytes) res" where
  "resolve_fail_jumps code n i =
     (if i < n
      then case op_of_byte (code ! i) of
             None \<Rightarrow> Inr (Inl RegexUnknownOpCode)
           | Some op \<Rightarrow>
               if op = JumpEq \<or> op = JumpNeq
               then res_bind (jump_at code (i + 1)) (\<lambda>offset.
                      if offset = JUMP_FAIL
                      then res_bind (blk_write code (i + 1) (regex_encode_jump (int n - 1 - int (i + 5)))) (\<lambda>code.
                             resolve_fail_jumps code n (i + instr_length op))
                      else resolve_fail_jumps code n (i + instr_length op))
               else resolve_fail_jumps code n (i + instr_length op)
      else Inr (Inr code))"
  by pat_completeness auto
termination by (relation "measure (\<lambda>(code, n, i). n - i)") (auto intro: diff_less_mono2)

declare resolve_fail_jumps.simps [simp del]

text \<open>Fuel: four calls for every token.\<close>

definition emit_fuel :: "RegexToken list \<Rightarrow> nat" where
  "emit_fuel ts = 4 * length ts + 4"

definition regex_emit :: "RegexToken list \<Rightarrow> (ub + (regex_error + bytes)) option" where
  "regex_emit tokens =
     (if tokens = [] then Some (Inr (Inr [op_byte Accept]))
      else run_bind (regex_emit_alternation (emit_fuel tokens) tokens 1 []) (\<lambda>r.
             case r of
               Inl e \<Rightarrow> Some (Inr (Inl e))
             | Inr (ts, gid, code) \<Rightarrow>
                 if ts \<noteq> [] then Some (Inr (Inl RegexUnexpectedTokens))
                 else Some (res_bind (emit_jump_to code JumpNeq JUMP_FAIL) (\<lambda>code.
                        let code = code @ [op_byte Accept, op_byte Fail]
                        in resolve_fail_jumps code (length code) 0))))"

definition regex_compile :: "bytes \<Rightarrow> (ub + (regex_error + bytes)) option" where
  "regex_compile pattern =
     (case regex_lex pattern of Inl e \<Rightarrow> Some (Inr (Inl e)) | Inr tokens \<Rightarrow> regex_emit tokens)"

subsection \<open>Matching machine\<close>

record RegexVM =
  vm_pc :: nat
  vm_sp :: nat
  vm_status_flag :: bool

text \<open>The sum of a \<^verbatim>\<open>size_t\<close> and an \<^verbatim>\<open>int\<close>.\<close>

definition add_jump :: "nat \<Rightarrow> int \<Rightarrow> nat" where
  "add_jump n jmp = nat ((int n + jmp) mod 2 ^ 64)"

definition vm_test :: "RegexVM \<Rightarrow> nat \<Rightarrow> bool \<Rightarrow> (bool + RegexVM) res" where
  "vm_test vm len b = Inr (Inr (vm\<lparr>vm_status_flag := b, vm_pc := vm_pc vm + len\<rparr>))"

definition code_at :: "bytes \<Rightarrow> nat \<Rightarrow> u8 res" where
  "code_at code i = (if i < length code then Inr (code ! i) else Inl OutOfBounds)"

definition vm_jump :: "bytes \<Rightarrow> RegexVM \<Rightarrow> bool \<Rightarrow> (bool + RegexVM) res" where
  "vm_jump code vm taken =
     (if taken
      then res_bind (jump_at code (vm_pc vm + 1)) (\<lambda>jmp.
             Inr (Inr (vm\<lparr>vm_pc := add_jump (vm_pc vm + (if jmp > 0 then 5 else 0)) jmp\<rparr>)))
      else Inr (Inr (vm\<lparr>vm_pc := vm_pc vm + 5\<rparr>)))"

text \<open>
  One turn of the loop, on a position inside the subject: \<open>Inl\<close> is a return. Characters compare as
  signed bytes.
\<close>

definition regex_step :: "bytes \<Rightarrow> bytes \<Rightarrow> RegexVM \<Rightarrow> (bool + RegexVM) res" where
  "regex_step code str vm =
     (let c = str ! vm_sp vm; pc = vm_pc vm
      in case op_of_byte (code ! pc) of
           None \<Rightarrow> Inr (Inl False)
         | Some TestSingle \<Rightarrow> res_bind (code_at code (pc + 1)) (\<lambda>a. vm_test vm 2 (c = a))
         | Some TestRange \<Rightarrow>
             res_bind (code_at code (pc + 1)) (\<lambda>a. res_bind (code_at code (pc + 2)) (\<lambda>b.
               vm_test vm 3 (sint a \<le> sint c \<and> sint c \<le> sint b)))
         | Some TestNegatedRange \<Rightarrow>
             res_bind (code_at code (pc + 1)) (\<lambda>a. res_bind (code_at code (pc + 2)) (\<lambda>b.
               vm_test vm 3 (sint c < sint a \<and> sint c > sint b)))
         | Some TestAny \<Rightarrow> vm_test vm 1 True
         | Some TestDigit \<Rightarrow> vm_test vm 1 (c_digit c)
         | Some TestLowerCase \<Rightarrow> vm_test vm 1 (c_lower c)
         | Some TestUpperCase \<Rightarrow> vm_test vm 1 (c_upper c)
         | Some JumpEq \<Rightarrow> vm_jump code vm (vm_status_flag vm)
         | Some JumpNeq \<Rightarrow> vm_jump code vm (\<not> vm_status_flag vm)
         | Some Accept \<Rightarrow> Inr (Inl True)
         | Some Fail \<Rightarrow> Inr (Inl False)
         | Some GroupStart \<Rightarrow> Inr (Inr (vm\<lparr>vm_pc := pc + 2\<rparr>))
         | Some GroupEndOp \<Rightarrow> Inr (Inr (vm\<lparr>vm_pc := pc + 2\<rparr>))
         | Some IncPos \<Rightarrow> Inr (Inr (vm\<lparr>vm_sp := add_jump (vm_sp vm) 1, vm_pc := pc + 1\<rparr>))
         | Some DecPos \<Rightarrow> Inr (Inr (vm\<lparr>vm_sp := add_jump (vm_sp vm) (- 1), vm_pc := pc + 1\<rparr>))
         | Some IncPosEq \<Rightarrow>
             Inr (Inr (vm\<lparr>vm_sp := vm_sp vm + (if vm_status_flag vm then 1 else 0), vm_pc := pc + 1\<rparr>))
         | Some JumpPos \<Rightarrow>
             res_bind (jump_at code (pc + 1)) (\<lambda>jmp. Inr (Inr (vm\<lparr>vm_sp := add_jump (vm_sp vm) jmp, vm_pc := pc + 5\<rparr>)))
         | Some SetFlag \<Rightarrow> res_bind (code_at code (pc + 1)) (\<lambda>b. vm_test vm 2 (b \<noteq> 0)))"

partial_function (option) regex_exec :: "bytes \<Rightarrow> bytes \<Rightarrow> RegexVM \<Rightarrow> bool run" where
  "regex_exec code str vm =
     (if vm_pc vm < length code \<and> vm_sp vm < length str
      then run_bind (Some (regex_step code str vm)) (\<lambda>r.
             case r of Inl b \<Rightarrow> Some (Inr b) | Inr vm \<Rightarrow> regex_exec code str vm)
      else Some (Inr (vm_status_flag vm)))"

declare regex_exec.simps [code]

definition regex_match :: "bytes \<Rightarrow> bytes \<Rightarrow> bool run" where
  "regex_match code str =
     (if code = [] then Some (Inr False)
      else regex_exec code str \<lparr>vm_pc = 0, vm_sp = 0, vm_status_flag = False\<rparr>)"

end
