(* ===== verification/RegexSpec.thy ===== *)
theory RegexSpec
  imports Regex
begin

text \<open>
  What the regular expressions match. For patterns without groups and alternation, a reference
  matcher on the list of items, the code the generator produces for them, and the machine's run on
  that code. For all patterns: the generator returns, and it treats alternation as concatenation.
\<close>

declare op_byte.simps [simp del]

subsection \<open>Jumps\<close>

lemma regex_encode_jump_length [simp]: "length (regex_encode_jump j) = 4"
  by (simp add: regex_encode_jump_def Let_def)

lemma u32_bytes_join:
  fixes w :: u32
  shows "push_bit 24 (ucast (ucast (drop_bit 24 w) :: u8)) OR push_bit 16 (ucast (ucast (drop_bit 16 w) :: u8)) OR
    push_bit 8 (ucast (ucast (drop_bit 8 w) :: u8)) OR ucast (ucast w :: u8) = w"
proof (rule bit_word_eqI)
  fix n assume n: "n < LENGTH(32)"
  consider "n < 8" | "8 \<le> n" "n < 16" | "16 \<le> n" "n < 24" | "24 \<le> n" by linarith
  then show "bit (push_bit 24 (ucast (ucast (drop_bit 24 w) :: u8)) OR push_bit 16 (ucast (ucast (drop_bit 16 w) :: u8)) OR
      push_bit 8 (ucast (ucast (drop_bit 8 w) :: u8)) OR ucast (ucast w :: u8) :: u32) n = bit w n"
    using n by cases (auto simp: bit_simps)
qed

lemma decode_encode_jump:
  assumes "- (2 ^ 31) \<le> j" "j < 2 ^ 31"
  shows "(let bs = regex_encode_jump j in regex_decode_jump (bs ! 0) (bs ! 1) (bs ! 2) (bs ! 3)) = j"
  using assms by (simp add: regex_encode_jump_def regex_decode_jump_def Let_def u32_bytes_join signed_of_int signed_take_bit_int_eq_self)

lemma jump_at_mid:
  assumes "- (2 ^ 31) \<le> j" "j < 2 ^ 31" "i = length P + 1"
  shows "jump_at (P @ (b # regex_encode_jump j) @ Q) i = Inr j"
proof -
  have "blk_read ((P @ [b]) @ regex_encode_jump j @ Q) i 4 = Inr (regex_encode_jump j)"
    by (rule blk_read_mid) (use assms in auto)
  then show ?thesis using decode_encode_jump [OF assms(1,2)] by (simp add: jump_at_def Let_def)
qed

lemma emit_jump_to_eq: "emit_jump_to code op j = Inr (code @ op_byte op # regex_encode_jump j)"
proof -
  have "blk_write ((code @ [op_byte op]) @ regex_encode_jump 0 @ []) (length code + 1) (regex_encode_jump j) =
      Inr ((code @ [op_byte op]) @ regex_encode_jump j @ [])"
    by (rule blk_write_mid) auto
  then show ?thesis by (simp add: emit_jump_to_def regex_emit_jump_def regex_patch_jump_def)
qed

lemma op_of_byte_op_byte [simp]: "op_of_byte (op_byte op) = Some op"
  by (cases op) (simp_all add: op_of_byte_def op_byte.simps)

subsection \<open>Items and their code\<close>

datatype atom = AChar u8 | AAny | ARange u8 u8
datatype quant = QOne | QStar | QPlus | QOpt

type_synonym item = "atom \<times> quant"

fun atom_test :: "atom \<Rightarrow> u8 \<Rightarrow> bool" where
  "atom_test (AChar a) c \<longleftrightarrow> c = a"
| "atom_test AAny c \<longleftrightarrow> True"
| "atom_test (ARange a b) c \<longleftrightarrow> sint a \<le> sint c \<and> sint c \<le> sint b"

fun atom_ok :: "atom \<Rightarrow> bool" where
  "atom_ok (AChar a) \<longleftrightarrow> is_alnum a \<or> a = 95"
| "atom_ok AAny \<longleftrightarrow> True"
| "atom_ok (ARange a b) \<longleftrightarrow> a \<noteq> 93 \<and> b \<noteq> 93"

fun atom_text :: "atom \<Rightarrow> bytes" where
  "atom_text (AChar a) = [a]"
| "atom_text AAny = [46]"
| "atom_text (ARange a b) = [91, a, 45, b, 93]"

fun quant_text :: "quant \<Rightarrow> bytes" where
  "quant_text QOne = []"
| "quant_text QStar = [42]"
| "quant_text QPlus = [43]"
| "quant_text QOpt = [63]"

definition items_text :: "item list \<Rightarrow> bytes" where
  "items_text its = concat (map (\<lambda>(a, q). atom_text a @ quant_text q) its)"

text \<open>
  The reference matcher: each item takes as many characters as it can and nothing is taken back;
  the match ends with the flag of the last test when the subject ends, and succeeds when the items
  end.
\<close>

function greedy :: "item list \<Rightarrow> bool \<Rightarrow> bytes \<Rightarrow> bool" where
  "greedy its f [] = f"
| "greedy [] f (c # s) = True"
| "greedy ((a, QOne) # its) f (c # s) = (atom_test a c \<and> greedy its True s)"
| "greedy ((a, QStar) # its) f (c # s) = (if atom_test a c then greedy ((a, QStar) # its) True s else greedy its True (c # s))"
| "greedy ((a, QPlus) # its) f (c # s) = (atom_test a c \<and> greedy ((a, QStar) # its) True s)"
| "greedy ((a, QOpt) # its) f (c # s) = greedy its True (if atom_test a c then s else c # s)"
  by pat_completeness auto
termination by (relation "measures [\<lambda>(its, f, s). length its + length s, \<lambda>(its, f, s). length its]") auto

lemma greedy_flag: "s \<noteq> [] \<Longrightarrow> greedy its f s = greedy its g s"
  by (cases "(its, f, s)" rule: greedy.cases) auto

definition atom_code :: "atom \<Rightarrow> bytes" where
  "atom_code a =
     (case a of AChar c \<Rightarrow> [op_byte TestSingle, c, op_byte IncPosEq] | AAny \<Rightarrow> [op_byte TestAny, op_byte IncPosEq]
      | ARange x y \<Rightarrow> regex_emit_range_opcodes [] x y)"

abbreviation jump_code :: "RegexOpCode \<Rightarrow> int \<Rightarrow> bytes" where
  "jump_code op j \<equiv> op_byte op # regex_encode_jump j"

text \<open>The code of an item; \<open>j\<close> is the distance in the failure jump of a repetition.\<close>

fun item_code :: "int \<Rightarrow> item \<Rightarrow> bytes" where
  "item_code j (a, QOne) = atom_code a"
| "item_code j (a, QStar) = atom_code a @ jump_code JumpEq (- int (length (atom_code a))) @ [op_byte SetFlag, 1]"
| "item_code j (a, QPlus) = atom_code a @ jump_code JumpNeq j @ atom_code a @ jump_code JumpNeq 10 @ [op_byte SetFlag, 1] @
     jump_code JumpEq (- int (length (atom_code a) + 12))"
| "item_code j (a, QOpt) = atom_code a @ [op_byte SetFlag, 1]"

definition item_len :: "item \<Rightarrow> nat" where
  "item_len it = length (item_code 0 it)"

lemma length_item_code [simp]: "length (item_code j it) = item_len it"
  by (cases "(j, it)" rule: item_code.cases) (simp_all add: item_len_def)

text \<open>The program before the failure jumps are resolved, and after, with \<open>n\<close> its length and \<open>p\<close> its position.\<close>

fun raw_program :: "item list \<Rightarrow> bytes" where
  "raw_program [] = [op_byte Accept, op_byte Fail]"
| "raw_program (it # its) = item_code JUMP_FAIL it @ jump_code JumpNeq JUMP_FAIL @ raw_program its"

definition fail_distance :: "nat \<Rightarrow> nat \<Rightarrow> int" where
  "fail_distance n p = int n - 1 - int (p + 5)"

fun plus_offset :: "item \<Rightarrow> nat" where
  "plus_offset (a, q) = length (atom_code a)"

fun program :: "nat \<Rightarrow> nat \<Rightarrow> item list \<Rightarrow> bytes" where
  "program n p [] = [op_byte Accept, op_byte Fail]"
| "program n p (it # its) =
     item_code (fail_distance n (p + plus_offset it)) it @ jump_code JumpNeq (fail_distance n (p + item_len it)) @
     program n (p + item_len it + 5) its"

lemma length_program [simp]: "length (program n p its) = length (raw_program its)"
  by (induction n p its rule: program.induct) auto

subsection \<open>From text to tokens to code\<close>

fun atom_token :: "atom \<Rightarrow> RegexToken \<Rightarrow> bool" where
  "atom_token (AChar c) t \<longleftrightarrow> rt_type t = Character Single \<and> data_at t 0 = Inr c"
| "atom_token AAny t \<longleftrightarrow> rt_type t = Character Any"
| "atom_token (ARange a b) t \<longleftrightarrow> rt_type t = CharacterRange \<and> data_at t 0 = Inr a \<and> data_at t 2 = Inr b"

fun quant_types :: "quant \<Rightarrow> RegexTokenType list" where
  "quant_types QOne = []"
| "quant_types QStar = [Operator ZeroOrMore]"
| "quant_types QPlus = [Operator OneOrMore]"
| "quant_types QOpt = [Operator ZeroOrOne]"

fun items_tokens :: "bool \<Rightarrow> item list \<Rightarrow> RegexToken list \<Rightarrow> bool" where
  "items_tokens nc [] ts \<longleftrightarrow> ts = []"
| "items_tokens nc ((a, q) # its) ts \<longleftrightarrow>
     (\<exists>t qs us. ts = concat_if nc @ t # qs @ us \<and> atom_token a t \<and> map rt_type qs = quant_types q \<and> items_tokens True its us)"

lemma not_alnum [simp]:
  "\<not> is_alnum 46" "\<not> is_alnum 91" "\<not> is_alnum 42" "\<not> is_alnum 43" "\<not> is_alnum 63"
  by (simp_all add: is_alnum_def)

lemma regex_lex_atom:
  assumes "atom_ok a"
  shows "\<exists>t. regex_lex_loop (atom_text a @ r) nc toks = regex_lex_loop r True (toks @ concat_if nc @ [t]) \<and> atom_token a t"
proof (cases a)
  case (AChar c)
  then show ?thesis using assms
    by (intro exI [of _ "regex_token_new ((c # r) @ [0]) 1 (Character Single)"])
      (simp add: regex_token_new_def data_at_def Let_def)
next
  case AAny
  then show ?thesis
    by (intro exI [of _ "regex_token_new ((46 # r) @ [0]) 1 (Character Any)"]) (simp add: regex_token_new_def Let_def)
next
  case (ARange x y)
  then show ?thesis using assms
    by (intro exI [of _ "regex_token_new (([x, 45, y, 93] @ r) @ [0]) (Suc (Suc (Suc 0))) CharacterRange"])
      (simp add: regex_token_new_def data_at_def Let_def)
qed

lemma regex_lex_quant:
  "\<exists>qs. regex_lex_loop (quant_text q @ r) nc ts = regex_lex_loop r nc (ts @ qs) \<and> map rt_type qs = quant_types q"
proof (cases q)
  case QOne
  then show ?thesis by simp
next
  case QStar
  then show ?thesis
    by (intro exI [of _ "[regex_token_new ((42 # r) @ [0]) 1 (Operator ZeroOrMore)]"]) (simp add: regex_token_new_def Let_def)
next
  case QPlus
  then show ?thesis
    by (intro exI [of _ "[regex_token_new ((43 # r) @ [0]) 1 (Operator OneOrMore)]"]) (simp add: regex_token_new_def Let_def)
next
  case QOpt
  then show ?thesis
    by (intro exI [of _ "[regex_token_new ((63 # r) @ [0]) 1 (Operator ZeroOrOne)]"]) (simp add: regex_token_new_def Let_def)
qed

lemma regex_lex_items:
  assumes "\<forall>(a, q)\<in>set its. atom_ok a"
  shows "\<exists>us. regex_lex_loop (items_text its) nc toks = Inr (toks @ us) \<and> items_tokens nc its us"
  using assms
proof (induction its arbitrary: nc toks)
  case Nil
  then show ?case by (simp add: items_text_def)
next
  case (Cons it its)
  obtain a q where it: "it = (a, q)" by (cases it)
  let ?rest = "items_text its"
  have tx: "items_text (it # its) = atom_text a @ quant_text q @ ?rest" by (simp add: items_text_def it)
  have "atom_ok a" using Cons.prems by (auto simp: it)
  then obtain t where t: "regex_lex_loop (atom_text a @ (quant_text q @ ?rest)) nc toks =
      regex_lex_loop (quant_text q @ ?rest) True (toks @ concat_if nc @ [t])" "atom_token a t" using regex_lex_atom by blast
  obtain qs where qs: "regex_lex_loop (quant_text q @ ?rest) True (toks @ concat_if nc @ [t]) =
      regex_lex_loop ?rest True ((toks @ concat_if nc @ [t]) @ qs)" "map rt_type qs = quant_types q" using regex_lex_quant by blast
  obtain us where "regex_lex_loop ?rest True ((toks @ concat_if nc @ [t]) @ qs) = Inr (((toks @ concat_if nc @ [t]) @ qs) @ us)"
      "items_tokens True its us" using Cons by fastforce
  then show ?case using t qs unfolding tx by (auto simp: it)
qed

lemma emit_simps [simp]:
  "emit_bind (emit_ok ts gid code) f = f ts gid code"
  "emit_bind (emit_error e) f = emit_error e"
  "with_code (Inr code) g = g code"
  by (simp_all add: emit_bind_def emit_ok_def emit_error_def with_code_def)

lemma emit_zero_or_more_eq:
  "emit_zero_or_more s code = Inr (code @ jump_code JumpEq (int s - int (length code)) @ [op_byte SetFlag, 1])"
  by (simp add: emit_zero_or_more_def emit_jump_to_eq)

lemma emit_one_or_more_eq:
  "emit_one_or_more (length code) (code @ A) = Inr (code @ A @ jump_code JumpNeq JUMP_FAIL @ A @ jump_code JumpNeq 10 @
     [op_byte SetFlag, 1] @ jump_code JumpEq (- int (length A + 12)))"
proof -
  define C where "C = code @ A @ jump_code JumpNeq JUMP_FAIL @ A"
  define B where "B = [op_byte SetFlag, 1] @ jump_code JumpEq (- int (length A + 12))"
  have "blk_write ((C @ [op_byte JumpNeq]) @ regex_encode_jump 0 @ B) (length C + 1) (regex_encode_jump 10) =
      Inr ((C @ [op_byte JumpNeq]) @ regex_encode_jump 10 @ B)"
    by (rule blk_write_mid) auto
  moreover have "int (length (code @ A)) - int (length (C @ op_byte JumpNeq # regex_encode_jump 0 @ [op_byte SetFlag, 1])) =
      - int (length A + 12)" by (simp add: C_def)
  moreover have "int (length (C @ op_byte JumpNeq # regex_encode_jump 0 @ B)) - int (length C + 1) - 1 = 10"
    by (simp add: B_def)
  ultimately show ?thesis
    by (simp add: emit_one_or_more_def emit_jump_to_eq regex_emit_jump_def regex_patch_jump_def Let_def C_def B_def add.commute add.left_commute)
qed

lemma emit_atom_eq:
  assumes "atom_token a t"
  shows "emit_atom t rest gid code = emit_ok rest gid (code @ atom_code a)"
  using assms by (cases a) (auto simp: emit_atom_def atom_code_def regex_emit_range_opcodes_def)

lemma emit_quantifier_eq:
  assumes "map rt_type qs = quant_types q" "us = [] \<or> rt_type (hd us) = Operator Concatenate"
  shows "emit_quantifier (length code) (qs @ us) gid (code @ atom_code a) = emit_ok us gid (code @ item_code JUMP_FAIL (a, q))"
proof (cases q)
  case QOne
  then show ?thesis using assms by (cases us) (auto simp: emit_quantifier_def)
next
  case QStar
  then obtain t where "qs = [t]" "rt_type t = Operator ZeroOrMore" using assms(1) by auto
  then show ?thesis using QStar by (simp add: emit_quantifier_def emit_zero_or_more_eq)
next
  case QPlus
  then obtain t where "qs = [t]" "rt_type t = Operator OneOrMore" using assms(1) by auto
  then show ?thesis using QPlus by (simp add: emit_quantifier_def emit_one_or_more_eq)
next
  case QOpt
  then obtain t where "qs = [t]" "rt_type t = Operator ZeroOrOne" using assms(1) by auto
  then show ?thesis using QOpt by (simp add: emit_quantifier_def emit_zero_or_one_def)
qed

lemma atom_token_type:
  assumes "atom_token a t"
  shows "rt_type t \<noteq> GroupEnd" "rt_type t \<noteq> GroupBegin" "rt_type t \<noteq> Operator x"
  using assms by (cases a; auto)+

fun items_code :: "item list \<Rightarrow> bytes" where
  "items_code [] = []"
| "items_code (it # its) = item_code JUMP_FAIL it @ (if its = [] then [] else jump_code JumpNeq JUMP_FAIL @ items_code its)"

lemma regex_emit_concatenation_items:
  assumes "items_tokens False its ts" "4 * length ts + 3 \<le> n"
  shows "regex_emit_concatenation n True ts gid code = emit_ok [] gid (code @ items_code its)"
  using assms
proof (induction its arbitrary: ts n code)
  case Nil
  then show ?case by (cases n) auto
next
  case (Cons it its)
  obtain a q where it: "it = (a, q)" by (cases it)
  obtain t qs us where ts: "ts = t # qs @ us" "atom_token a t" "map rt_type qs = quant_types q" "items_tokens True its us"
    using Cons.prems(1) by (auto simp: it concat_if_def)
  obtain m where "n = 3 + m" using Cons.prems(2) le_Suc_ex [of 3 n] by auto
  then have n: "n = Suc (Suc (Suc m))" by simp
  have us: "us = [] \<or> rt_type (hd us) = Operator Concatenate" using ts(4)
    by (cases its) (auto simp: concat_if_def regex_token_new_def)
  let ?code = "code @ item_code JUMP_FAIL it"
  have "regex_emit_quantified (Suc (Suc m)) ts gid code = emit_ok us gid ?code"
    using ts(2) atom_token_type [OF ts(2)] by (simp add: ts(1) emit_atom_eq emit_quantifier_eq [OF ts(3) us] it)
  then have step: "regex_emit_concatenation n True ts gid code = regex_emit_concatenation (Suc (Suc m)) False us gid ?code"
    using atom_token_type [OF ts(2)] by (simp add: n ts(1))
  show ?case
  proof (cases its)
    case Nil
    then show ?thesis using ts(4) by (simp add: step)
  next
    case (Cons i rs)
    obtain b r where i: "i = (b, r)" by (cases i)
    obtain u vs where u: "us = u # vs" "rt_type u = Operator Concatenate" "items_tokens False its vs"
      using ts(4) by (auto simp: Cons i concat_if_def regex_token_new_def) blast
    have m: "4 * length vs + 3 \<le> m - 1" "0 < m" using Cons.prems(2) by (auto simp: n ts(1) u(1))
    then obtain k where k: "m = Suc k" by (cases m) auto
    have "regex_emit_concatenation k True vs gid (?code @ jump_code JumpNeq JUMP_FAIL) =
        emit_ok [] gid ((?code @ jump_code JumpNeq JUMP_FAIL) @ items_code its)"
      using Cons.IH [OF u(3)] m by (simp add: k)
    then have "regex_emit_quantified (Suc m) us gid (?code @ jump_code JumpNeq JUMP_FAIL) =
        emit_ok [] gid ((?code @ jump_code JumpNeq JUMP_FAIL) @ items_code its)"
      using u by (simp add: k emit_quantifier_def)
    then show ?thesis using u by (simp add: step emit_jump_to_eq Cons)
  qed
qed

lemma items_code_program:
  "its \<noteq> [] \<Longrightarrow> items_code its @ jump_code JumpNeq JUMP_FAIL @ [op_byte Accept, op_byte Fail] = raw_program its"
  by (induction its rule: items_code.induct) auto

lemma regex_emit_items:
  assumes "items_tokens False its ts" "its \<noteq> []"
  shows "regex_emit ts = Some (resolve_fail_jumps (raw_program its) (length (raw_program its)) 0)"
proof -
  have ne: "ts \<noteq> []" using assms by (cases its) auto
  have "regex_emit_alternation (emit_fuel ts) ts 1 [] = emit_ok [] 1 (items_code its)"
    using regex_emit_concatenation_items [OF assms(1), of "4 * length ts + 3" 1 "[]"] by (simp add: emit_fuel_def numeral_3_eq_3 eval_nat_numeral)
  then show ?thesis
    using ne by (simp add: regex_emit_def emit_ok_def emit_jump_to_eq Let_def add.commute flip: items_code_program [OF assms(2)])
qed

subsection \<open>Resolving the failure jumps\<close>

text \<open>The pass over one instruction in the middle of the code.\<close>

lemma resolve_plain:
  assumes "op \<noteq> JumpEq" "op \<noteq> JumpNeq" "length bs + 1 = instr_length op" "n = length (P @ (op_byte op # bs) @ Q)"
  shows "resolve_fail_jumps (P @ (op_byte op # bs) @ Q) n (length P) =
    resolve_fail_jumps ((P @ op_byte op # bs) @ Q) n (length (P @ op_byte op # bs))"
  using assms by (subst resolve_fail_jumps.simps) simp

lemma resolve_jump:
  assumes "op = JumpEq \<or> op = JumpNeq" "- (2 ^ 31) \<le> j" "j < JUMP_FAIL" "n = length (P @ jump_code op j @ Q)"
  shows "resolve_fail_jumps (P @ jump_code op j @ Q) n (length P) =
    resolve_fail_jumps ((P @ jump_code op j) @ Q) n (length (P @ jump_code op j))"
proof -
  have "jump_at (P @ jump_code op j @ Q) (length P + 1) = Inr j"
    by (rule jump_at_mid) (use assms in \<open>auto simp: JUMP_FAIL_def\<close>)
  then show ?thesis using assms by (subst resolve_fail_jumps.simps) (auto simp: instr_length_def)
qed

lemma resolve_fail_jump:
  assumes n: "n = length (P @ jump_code JumpNeq JUMP_FAIL @ Q)"
  shows "resolve_fail_jumps (P @ jump_code JumpNeq JUMP_FAIL @ Q) n (length P) =
    resolve_fail_jumps ((P @ jump_code JumpNeq (fail_distance n (length P))) @ Q) n (length (P @ jump_code JumpNeq (fail_distance n (length P))))"
proof -
  have "jump_at (P @ jump_code JumpNeq JUMP_FAIL @ Q) (length P + 1) = Inr JUMP_FAIL"
    by (rule jump_at_mid) (auto simp: JUMP_FAIL_def)
  moreover have "blk_write ((P @ [op_byte JumpNeq]) @ regex_encode_jump JUMP_FAIL @ Q) (length P + 1) (regex_encode_jump (fail_distance n (length P))) =
      Inr ((P @ [op_byte JumpNeq]) @ regex_encode_jump (fail_distance n (length P)) @ Q)"
    by (rule blk_write_mid) auto
  ultimately show ?thesis
    by (subst resolve_fail_jumps.simps) (use n in \<open>auto simp: instr_length_def fail_distance_def algebra_simps\<close>)
qed

lemma atom_code_shape:
  obtains op bs where "atom_code a = (op_byte op # bs) @ [op_byte IncPosEq]" "op \<noteq> JumpEq" "op \<noteq> JumpNeq" "length bs + 1 = instr_length op"
proof (cases a)
  case (AChar c)
  then show thesis using that [of TestSingle "[c]"] by (simp add: atom_code_def instr_length_def)
next
  case AAny
  then show thesis using that [of TestAny "[]"] by (simp add: atom_code_def instr_length_def)
next
  case (ARange x y)
  consider "x = 48" "y = 57" | "x = 97" "y = 122" | "x = 65" "y = 90"
    | "\<not> (x = 48 \<and> y = 57)" "\<not> (x = 97 \<and> y = 122)" "\<not> (x = 65 \<and> y = 90)" by blast
  then show thesis
    by cases (use that [of TestDigit "[]"] that [of TestLowerCase "[]"] that [of TestUpperCase "[]"] that [of TestRange "[x, y]"] ARange
      in \<open>simp_all add: atom_code_def regex_emit_range_opcodes_def instr_length_def\<close>)
qed

lemma resolve_atom:
  assumes "n = length (P @ atom_code a @ Q)"
  shows "resolve_fail_jumps (P @ atom_code a @ Q) n (length P) =
    resolve_fail_jumps ((P @ atom_code a) @ Q) n (length (P @ atom_code a))"
proof -
  obtain op bs where a: "atom_code a = (op_byte op # bs) @ [op_byte IncPosEq]" "op \<noteq> JumpEq" "op \<noteq> JumpNeq" "length bs + 1 = instr_length op"
    by (rule atom_code_shape)
  show ?thesis
    using resolve_plain [OF a(2-4), of n P "[op_byte IncPosEq] @ Q"] assms
      resolve_plain [of IncPosEq "[]" n "P @ op_byte op # bs" Q] by (simp add: a(1) instr_length_def)
qed

lemma resolve_set_flag:
  assumes "n = length (P @ [op_byte SetFlag, 1] @ Q)"
  shows "resolve_fail_jumps (P @ [op_byte SetFlag, 1] @ Q) n (length P) =
    resolve_fail_jumps ((P @ [op_byte SetFlag, 1]) @ Q) n (length (P @ [op_byte SetFlag, 1]))"
  using resolve_plain [of SetFlag "[1]" n P Q] assms by (simp add: instr_length_def)

lemma atom_code_length: "2 \<le> length (atom_code a)" "length (atom_code a) \<le> 4"
  by (cases a; simp add: atom_code_def regex_emit_range_opcodes_def)+

text \<open>Whole items, then the program.\<close>

lemma resolve_item:
  assumes "n = length (P @ item_code JUMP_FAIL it @ Q)"
  shows "resolve_fail_jumps (P @ item_code JUMP_FAIL it @ Q) n (length P) =
    resolve_fail_jumps ((P @ item_code (fail_distance n (length P + plus_offset it)) it) @ Q) n (length P + item_len it)"
proof -
  obtain a q where it: "it = (a, q)" by (cases it)
  define A where "A = atom_code a"
  have A: "length A \<le> 4" using atom_code_length by (simp add: A_def)
  note j = resolve_jump [where op = JumpEq, simplified] resolve_jump [where op = JumpNeq, simplified]
  show ?thesis
  proof (cases q)
    case QOne
    then show ?thesis using resolve_atom [of n P a Q] assms by (simp add: it item_len_def)
  next
    case QStar
    let ?J = "jump_code JumpEq (- int (length A))" and ?S = "[op_byte SetFlag, 1]"
    have n: "n = length P + length A + 7 + length Q" using assms by (simp add: it QStar A_def)
    show ?thesis
      using resolve_atom [of n P a "?J @ ?S @ Q"] j(1) [of "- int (length A)" n "P @ A" "?S @ Q"]
        resolve_set_flag [of n "P @ A @ ?J" Q] A
      by (simp add: it QStar n item_len_def JUMP_FAIL_def add.commute add.left_commute flip: A_def)
  next
    case QPlus
    let ?F = "jump_code JumpNeq JUMP_FAIL" and ?D = "jump_code JumpNeq (fail_distance n (length P + length A))"
      and ?X = "jump_code JumpNeq 10" and ?S = "[op_byte SetFlag, 1]" and ?J = "jump_code JumpEq (- int (length A + 12))"
    have n: "n = length P + length A + length A + 17 + length Q" using assms by (simp add: it QPlus A_def)
    have "resolve_fail_jumps (P @ A @ ?F @ A @ ?X @ ?S @ ?J @ Q) n (length P) =
        resolve_fail_jumps ((P @ A) @ ?F @ A @ ?X @ ?S @ ?J @ Q) n (length (P @ A))"
      using resolve_atom [of n P a "?F @ A @ ?X @ ?S @ ?J @ Q"] by (simp add: n flip: A_def)
    also have "\<dots> = resolve_fail_jumps ((P @ A @ ?D) @ A @ ?X @ ?S @ ?J @ Q) n (length (P @ A @ ?D))"
      using resolve_fail_jump [of n "P @ A" "A @ ?X @ ?S @ ?J @ Q"] by (simp add: n)
    also have "\<dots> = resolve_fail_jumps ((P @ A @ ?D @ A) @ ?X @ ?S @ ?J @ Q) n (length (P @ A @ ?D @ A))"
      using resolve_atom [of n "P @ A @ ?D" a "?X @ ?S @ ?J @ Q"] by (simp add: n flip: A_def)
    also have "\<dots> = resolve_fail_jumps ((P @ A @ ?D @ A @ ?X) @ ?S @ ?J @ Q) n (length (P @ A @ ?D @ A @ ?X))"
      using j(2) [of 10 n "P @ A @ ?D @ A" "?S @ ?J @ Q"] by (simp add: n JUMP_FAIL_def add.commute add.left_commute)
    also have "\<dots> = resolve_fail_jumps ((P @ A @ ?D @ A @ ?X @ ?S) @ ?J @ Q) n (length (P @ A @ ?D @ A @ ?X @ ?S))"
      using resolve_set_flag [of n "P @ A @ ?D @ A @ ?X" "?J @ Q"] by (simp add: n)
    also have "\<dots> = resolve_fail_jumps ((P @ A @ ?D @ A @ ?X @ ?S @ ?J) @ Q) n (length (P @ A @ ?D @ A @ ?X @ ?S @ ?J))"
      using j(1) [of "- int (length A + 12)" n "P @ A @ ?D @ A @ ?X @ ?S" Q] A by (simp add: n JUMP_FAIL_def add.commute add.left_commute)
    finally show ?thesis by (simp add: it QPlus item_len_def A_def)
  next
    case QOpt
    have n: "n = length P + length A + 2 + length Q" using assms by (simp add: it QOpt A_def)
    show ?thesis
      using resolve_atom [of n P a "[op_byte SetFlag, 1] @ Q"] resolve_set_flag [of n "P @ A" Q]
      by (simp add: it QOpt n item_len_def add.commute add.left_commute flip: A_def)
  qed
qed

lemma resolve_program:
  assumes "n = length (P @ raw_program its)"
  shows "resolve_fail_jumps (P @ raw_program its) n (length P) = Inr (Inr (P @ program n (length P) its))"
  using assms
proof (induction its arbitrary: P)
  case Nil
  then show ?case
    using resolve_plain [of Accept "[]" n P "[op_byte Fail]"] resolve_plain [of Fail "[]" n "P @ [op_byte Accept]" "[]"]
      resolve_fail_jumps.simps [of "P @ [op_byte Accept, op_byte Fail]" n n]
    by (simp add: instr_length_def)
next
  case (Cons it its)
  define I where "I = item_code (fail_distance n (length P + plus_offset it)) it"
  let ?F = "jump_code JumpNeq JUMP_FAIL" and ?D = "jump_code JumpNeq (fail_distance n (length (P @ I)))"
  have len: "length I = item_len it" by (simp add: I_def)
  have "resolve_fail_jumps (P @ raw_program (it # its)) n (length P) =
      resolve_fail_jumps ((P @ I) @ ?F @ raw_program its) n (length (P @ I))"
    using resolve_item [of n P it "?F @ raw_program its"] Cons.prems by (simp add: I_def)
  also have "\<dots> = resolve_fail_jumps ((P @ I @ ?D) @ raw_program its) n (length (P @ I @ ?D))"
    using resolve_fail_jump [of n "P @ I" "raw_program its"] Cons.prems by (simp add: len)
  also have "\<dots> = Inr (Inr ((P @ I @ ?D) @ program n (length (P @ I @ ?D)) its))"
    by (rule Cons.IH) (use Cons.prems in \<open>simp add: len\<close>)
  finally show ?case by (simp add: I_def len add.assoc)
qed

subsection \<open>Running the program\<close>

abbreviation run_at :: "bytes \<Rightarrow> bytes \<Rightarrow> nat \<Rightarrow> nat \<Rightarrow> bool \<Rightarrow> bool run" where
  "run_at code str pc sp f \<equiv> regex_exec code str \<lparr>vm_pc = pc, vm_sp = sp, vm_status_flag = f\<rparr>"

lemma run_at_end: "length str \<le> sp \<Longrightarrow> run_at code str pc sp f = Some (Inr f)"
  by (simp add: regex_exec.simps)

lemma run_step:
  assumes "regex_step code str \<lparr>vm_pc = pc, vm_sp = sp, vm_status_flag = f\<rparr> = Inr (Inr \<lparr>vm_pc = pc', vm_sp = sp', vm_status_flag = f'\<rparr>)"
    "pc < length code" "sp < length str"
  shows "run_at code str pc sp f = run_at code str pc' sp' f'"
  using assms by (subst regex_exec.simps) simp

text \<open>On bytes, the character classes are the ranges they stand for, also as signed characters.\<close>

lemma sint_byte: "sint (c :: u8) = (if uint c < 128 then uint c else uint c - 256)"
proof -
  have "0 \<le> uint c" "uint c < 256" using unsigned_greater_eq [of c] unsigned_less [of c, where ?'a = int] by simp_all
  moreover have "sint c = (uint c + 128) mod 256 - 128"
    by (simp add: sint_uint signed_take_bit_eq_take_bit_shift take_bit_eq_mod)
  moreover have "(uint c + 128) mod 256 = uint c - 128" if "128 \<le> uint c" "uint c < 256"
    using that mod_pos_geq [of 256 "uint c + 128"] by simp
  ultimately show ?thesis by (cases "uint c < 128") simp_all
qed

lemma c_class_sint:
  "c_digit c \<longleftrightarrow> sint (48 :: u8) \<le> sint c \<and> sint c \<le> sint (57 :: u8)"
  "c_lower c \<longleftrightarrow> sint (97 :: u8) \<le> sint c \<and> sint c \<le> sint (122 :: u8)"
  "c_upper c \<longleftrightarrow> sint (65 :: u8) \<le> sint c \<and> sint c \<le> sint (90 :: u8)"
proof -
  have "uint c < 2 ^ LENGTH(8)" by (rule unsigned_less)
  then show "c_digit c \<longleftrightarrow> sint (48 :: u8) \<le> sint c \<and> sint c \<le> sint (57 :: u8)"
    "c_lower c \<longleftrightarrow> sint (97 :: u8) \<le> sint c \<and> sint c \<le> sint (122 :: u8)"
    "c_upper c \<longleftrightarrow> sint (65 :: u8) \<le> sint c \<and> sint c \<le> sint (90 :: u8)"
    by (auto simp: c_digit_def c_lower_def c_upper_def sint_byte word_le_def)
qed

lemma run_atom:
  assumes code: "code = P @ atom_code a @ Q" and sp: "sp < length str"
  shows "run_at code str (length P) sp f =
    run_at code str (length P + length (atom_code a)) (sp + (if atom_test a (str ! sp) then 1 else 0)) (atom_test a (str ! sp))"
proof -
  have inc: "run_at code str (length P + k) sp g = run_at code str (length P + k + 1) (sp + (if g then 1 else 0)) g"
    if "code = P @ bs @ op_byte IncPosEq # Q" "length bs = k" for bs k g
    using that sp by (intro run_step) (simp_all add: regex_step_def nth_append)
  have test: "run_at code str (length P) sp f = run_at code str (length P + k) sp (atom_test a (str ! sp))"
    if "regex_step code str \<lparr>vm_pc = length P, vm_sp = sp, vm_status_flag = f\<rparr> =
      vm_test \<lparr>vm_pc = length P, vm_sp = sp, vm_status_flag = f\<rparr> k (atom_test a (str ! sp))" for k
    by (rule run_step) (use that sp code atom_code_length(1) [of a] in \<open>auto simp: vm_test_def\<close>)
  show ?thesis
  proof (cases a)
    case (AChar c)
    then have "code = P @ [op_byte TestSingle, c] @ op_byte IncPosEq # Q" using code by (simp add: atom_code_def)
    then show ?thesis using test [of 2] inc [of "[op_byte TestSingle, c]" 2] AChar
      by (simp add: regex_step_def Let_def code_at_def nth_append atom_code_def)
  next
    case AAny
    then have "code = P @ [op_byte TestAny] @ op_byte IncPosEq # Q" using code by (simp add: atom_code_def)
    then show ?thesis using test [of 1] inc [of "[op_byte TestAny]" 1] AAny by (simp add: regex_step_def Let_def atom_code_def)
  next
    case (ARange x y)
    consider "x = 48" "y = 57" | "x = 97" "y = 122" | "x = 65" "y = 90"
      | "\<not> (x = 48 \<and> y = 57)" "\<not> (x = 97 \<and> y = 122)" "\<not> (x = 65 \<and> y = 90)" by blast
    then show ?thesis
    proof cases
      case 1
      then have "code = P @ [op_byte TestDigit] @ op_byte IncPosEq # Q" using code ARange by (simp add: atom_code_def regex_emit_range_opcodes_def)
      then show ?thesis using test [of 1] inc [of "[op_byte TestDigit]" 1] ARange 1
        by (simp add: regex_step_def Let_def atom_code_def regex_emit_range_opcodes_def c_class_sint)
    next
      case 2
      then have "code = P @ [op_byte TestLowerCase] @ op_byte IncPosEq # Q" using code ARange by (simp add: atom_code_def regex_emit_range_opcodes_def)
      then show ?thesis using test [of 1] inc [of "[op_byte TestLowerCase]" 1] ARange 2
        by (simp add: regex_step_def Let_def atom_code_def regex_emit_range_opcodes_def c_class_sint)
    next
      case 3
      then have "code = P @ [op_byte TestUpperCase] @ op_byte IncPosEq # Q" using code ARange by (simp add: atom_code_def regex_emit_range_opcodes_def)
      then show ?thesis using test [of 1] inc [of "[op_byte TestUpperCase]" 1] ARange 3
        by (simp add: regex_step_def Let_def atom_code_def regex_emit_range_opcodes_def c_class_sint)
    next
      case 4
      then have A: "atom_code a = [op_byte TestRange, x, y, op_byte IncPosEq]" using ARange by (auto simp: atom_code_def regex_emit_range_opcodes_def)
      then have "code = P @ [op_byte TestRange, x, y] @ op_byte IncPosEq # Q" using code by simp
      moreover have "length P + length (atom_code a) = 4 + length P" using A by simp
      ultimately show ?thesis using test [of 3] inc [of "[op_byte TestRange, x, y]" 3] ARange
        by (simp add: regex_step_def Let_def code_at_def nth_append add.commute)
    qed
  qed
qed

text \<open>Jumps and flag settings; with the flag set they also hold behind the end of the subject.\<close>

lemma add_jump_exact: "0 \<le> int n + j \<Longrightarrow> int n + j < 2 ^ 64 \<Longrightarrow> add_jump n j = nat (int n + j)"
  by (simp add: add_jump_def mod_pos_pos_trivial)

lemma run_jump_not:
  assumes "code = P @ jump_code op j @ Q" "sp < length str \<or> f" "op = JumpNeq \<and> f \<or> op = JumpEq \<and> \<not> f"
  shows "run_at code str (length P) sp f = run_at code str (length P + 5) sp f"
proof (cases "sp < length str")
  case True
  show ?thesis by (rule run_step) (use assms True in \<open>auto simp: regex_step_def Let_def vm_jump_def\<close>)
qed (use assms(2) in \<open>simp add: run_at_end\<close>)

lemma run_jump_taken:
  assumes code: "code = P @ jump_code op j @ Q" and small: "length code < 2 ^ 31" and sp: "sp < length str \<or> f"
    and op: "op = JumpNeq \<and> \<not> f \<or> op = JumpEq \<and> f" and j: "- int (length P) \<le> j" "j < 2 ^ 31"
  shows "run_at code str (length P) sp f = run_at code str (nat (int (length P) + (if j > 0 then 5 else 0) + j)) sp f"
proof (cases "sp < length str")
  case True
  have "jump_at code (length P + 1) = Inr j" unfolding code by (rule jump_at_mid) (use code small j in auto)
  moreover have "add_jump (length P + (if j > 0 then 5 else 0)) j = nat (int (length P) + (if j > 0 then 5 else 0) + j)"
    by (subst add_jump_exact) (use code small j in auto)
  ultimately show ?thesis
    by (intro run_step) (use code op True in \<open>auto simp: regex_step_def Let_def vm_jump_def\<close>)
qed (use sp in \<open>simp add: run_at_end\<close>)

lemma run_set_flag:
  assumes "code = P @ [op_byte SetFlag, 1] @ Q" "sp < length str \<or> f"
  shows "run_at code str (length P) sp f = run_at code str (length P + 2) sp True"
proof (cases "sp < length str")
  case True
  show ?thesis by (rule run_step) (use assms True in \<open>auto simp: regex_step_def Let_def vm_test_def code_at_def nth_append\<close>)
qed (use assms(2) in \<open>simp add: run_at_end\<close>)

text \<open>The failure jump leads to the last instruction.\<close>

lemma run_fail:
  assumes code: "code = P @ jump_code JumpNeq (fail_distance (length code) (length P)) @ Q" and small: "length code < 2 ^ 31"
    and sp: "sp < length str" and last: "last code = op_byte Fail" and Q: "2 \<le> length Q"
  shows "run_at code str (length P) sp False = Some (Inr False)"
proof -
  have len: "length code = length P + 5 + length Q" by (subst code) simp
  have "nat (int (length P) + 5 + (int (length Q) - 1)) = length code - 1" using len by simp
  then have "run_at code str (length P) sp False = run_at code str (length code - 1) sp False"
    using run_jump_taken [OF code small, of sp str False] sp Q small len by (simp add: fail_distance_def)
  moreover have "code \<noteq> []" using code by auto
  then have "code ! (length code - 1) = op_byte Fail" using last by (simp add: last_conv_nth)
  ultimately show ?thesis using sp \<open>code \<noteq> []\<close> by (subst (asm) (2) regex_exec.simps) (simp add: regex_step_def Let_def)
qed

lemma drop_at: "sp < length str \<Longrightarrow> drop sp str = str ! sp # drop (Suc sp) str"
  by (simp add: Cons_nth_drop_Suc)

text \<open>The loops of the two repetitions, given what the code behind them computes.\<close>

lemma run_star:
  assumes code: "code = P @ item_code d (a, QStar) @ Q" and small: "length code < 2 ^ 31"
    and rest: "\<And>sp. run_at code str (length P + item_len (a, QStar)) sp True = Some (Inr (greedy its True (drop sp str)))"
  shows "run_at code str (length P) sp f = Some (Inr (greedy ((a, QStar) # its) f (drop sp str)))"
proof (induction "length str - sp" arbitrary: sp f rule: less_induct)
  case less
  show ?case
  proof (cases "sp < length str")
    case False
    then show ?thesis by (simp add: run_at_end)
  next
    case True
    define A where "A = atom_code a"
    let ?J = "jump_code JumpEq (- int (length A))"
    have c1: "code = P @ A @ (?J @ [op_byte SetFlag, 1] @ Q)" and c2: "code = (P @ A) @ ?J @ ([op_byte SetFlag, 1] @ Q)"
      and c3: "code = (P @ A @ ?J) @ [op_byte SetFlag, 1] @ Q" and len: "item_len (a, QStar) = length A + 7"
      by (simp_all add: code A_def item_len_def)
    have "run_at code str (length P) sp f =
        run_at code str (length P + length A) (sp + (if atom_test a (str ! sp) then 1 else 0)) (atom_test a (str ! sp))"
      using run_atom [of code P a] c1 True by (simp add: A_def)
    also have "\<dots> = Some (Inr (greedy ((a, QStar) # its) f (drop sp str)))"
    proof (cases "atom_test a (str ! sp)")
      case t: True
      have "run_at code str (length (P @ A)) (Suc sp) True = run_at code str (length P) (Suc sp) True"
        using run_jump_taken [OF c2 small, of "Suc sp" str True] by simp
      then show ?thesis using t less [of "Suc sp" True] True by (simp add: drop_at)
    next
      case t: False
      have "run_at code str (length (P @ A)) sp False = run_at code str (length (P @ A @ ?J)) sp False"
        using run_jump_not [OF c2, of sp str False] True by (simp add: add.assoc)
      also have "\<dots> = run_at code str (length P + item_len (a, QStar)) sp True"
        using run_set_flag [OF c3, of sp str False] True by (simp add: len add.commute add.left_commute)
      finally show ?thesis using t rest [of sp] True by (simp add: drop_at)
    qed
    finally show ?thesis .
  qed
qed

lemma run_plus_loop:
  assumes code: "code = (P @ jump_code JumpNeq d) @ atom_code a @ jump_code JumpNeq 10 @ [op_byte SetFlag, 1] @
      jump_code JumpEq (- int (length (atom_code a) + 12)) @ Q" and small: "length code < 2 ^ 31"
    and rest: "\<And>sp f. sp < length str \<Longrightarrow>
      run_at code str (length P + length (atom_code a) + 20) sp f = Some (Inr (greedy its True (drop sp str)))"
  shows "run_at code str (length P + 5) sp True = Some (Inr (greedy ((a, QStar) # its) True (drop sp str)))"
proof (induction "length str - sp" arbitrary: sp rule: less_induct)
  case less
  show ?case
  proof (cases "sp < length str")
    case False
    then show ?thesis by (simp add: run_at_end)
  next
    case True
    define A B where "A = atom_code a" and "B = P @ jump_code JumpNeq d"
    let ?X = "jump_code JumpNeq 10" and ?S = "[op_byte SetFlag, 1]" and ?J = "jump_code JumpEq (- int (length A + 12))"
    have c0: "code = P @ jump_code JumpNeq d @ (A @ ?X @ ?S @ ?J @ Q)" and c1: "code = B @ A @ (?X @ ?S @ ?J @ Q)"
      and c2: "code = (B @ A) @ ?X @ (?S @ ?J @ Q)" and c3: "code = (B @ A @ ?X) @ ?S @ (?J @ Q)"
      and c4: "code = (B @ A @ ?X @ ?S) @ ?J @ Q" and B: "length B = length P + 5"
      by (simp_all add: code A_def B_def)
    have "run_at code str (length P + 5) sp True =
        run_at code str (length B + length A) (sp + (if atom_test a (str ! sp) then 1 else 0)) (atom_test a (str ! sp))"
      using run_atom [of code B a] c1 True by (simp add: A_def B)
    also have "\<dots> = Some (Inr (greedy ((a, QStar) # its) True (drop sp str)))"
    proof (cases "atom_test a (str ! sp)")
      case t: True
      have "run_at code str (length (B @ A)) (Suc sp) True = run_at code str (length (B @ A @ ?X)) (Suc sp) True"
        using run_jump_not [OF c2, of "Suc sp" str True] by (simp add: add.assoc)
      also have "\<dots> = run_at code str (length (B @ A @ ?X @ ?S)) (Suc sp) True"
        using run_set_flag [OF c3, of "Suc sp" str True] by (simp add: add.commute add.left_commute)
      also have "\<dots> = run_at code str (length P) (Suc sp) True"
        using run_jump_taken [OF c4 small, of "Suc sp" str True] by (simp add: B)
      also have "\<dots> = run_at code str (length P + 5) (Suc sp) True"
        by (rule run_jump_not [OF c0]) auto
      finally show ?thesis using t less [of "Suc sp"] True by (simp add: drop_at)
    next
      case t: False
      have "nat (int (length (B @ A)) + 5 + 10) = length P + length A + 20" by (simp add: B)
      then have "run_at code str (length (B @ A)) sp False = run_at code str (length P + length A + 20) sp False"
        using run_jump_taken [OF c2 small, of sp str False] True by (simp add: B)
      then show ?thesis using t rest [OF True, of False] True by (simp add: drop_at A_def)
    qed
    finally show ?thesis .
  qed
qed

text \<open>
  The exit of a repetition with at least one turn jumps three bytes too far: into the distance of
  the failure jump behind it. While that distance is below 256 the machine reads its last two bytes
  as a test of a single character and goes on behind the jump.
\<close>

lemma run_inside_jump:
  assumes code: "code = P @ jump_code op j @ Q" and j: "0 \<le> j" "j < 256" and sp: "sp < length str"
  shows "\<exists>g. run_at code str (length P + 3) sp f = run_at code str (length P + 5) sp g"
proof -
  have "take_bit 8 j = j" using j by (simp add: take_bit_int_eq_self)
  then have low: "bit j m \<Longrightarrow> m < 8" for m by (metis bit_take_bit_iff)
  have "ucast (drop_bit 24 (of_int j :: u32)) = (0 :: u8)" "ucast (drop_bit 16 (of_int j :: u32)) = (0 :: u8)"
    "ucast (drop_bit 8 (of_int j :: u32)) = (0 :: u8)" "ucast (of_int j :: u32) = (of_int j :: u8)"
    by (auto intro!: bit_word_eqI simp: bit_simps) (auto dest!: low)
  then have e: "regex_encode_jump j = [0, 0, 0, of_int j]" by (simp add: regex_encode_jump_def Let_def)
  have "op_of_byte 0 = Some TestSingle" using op_of_byte_op_byte [of TestSingle] by (simp add: op_byte.simps)
  then have "run_at code str (length P + 3) sp f = run_at code str (length P + 5) sp (str ! sp = of_int j)"
    by (intro run_step) (use code sp in \<open>auto simp: e regex_step_def Let_def code_at_def vm_test_def nth_append\<close>)
  then show ?thesis by blast
qed

lemma length_raw_program: "2 \<le> length (raw_program its)"
  by (induction its) auto

lemma last_program: "last (program n p its) = op_byte Fail"
proof (induction n p its rule: program.induct)
  case (2 n p it its)
  have "program n (p + item_len it + 5) its \<noteq> []" by (cases its) auto
  then show ?case using 2 by simp
qed simp

lemma run_program:
  assumes "code = P @ program (length code) (length P) its" "length code < 256" "last code = op_byte Fail"
  shows "run_at code str (length P) sp f = Some (Inr (greedy its f (drop sp str)))"
  using assms
proof (induction its arbitrary: P sp f)
  case Nil
  show ?case
  proof (cases "sp < length str")
    case True
    have "op_of_byte (code ! length P) = Some Accept" "length P < length code" by (subst Nil(1), simp)+
    then show ?thesis using True by (subst regex_exec.simps) (simp add: drop_at regex_step_def Let_def)
  qed (simp add: run_at_end)
next
  case (Cons it its)
  obtain a q where it: "it = (a, q)" by (cases it)
  define A n where "A = atom_code a" and "n = length code"
  define I where "I = item_code (fail_distance n (length P + length A)) it"
  define Q where "Q = program n (length P + item_len it + 5) its"
  let ?D = "jump_code JumpNeq (fail_distance n (length (P @ I)))"
  have I: "length I = item_len it" by (simp add: I_def)
  have code: "code = (P @ I) @ ?D @ Q" using Cons.prems(1) by (simp add: it I_def Q_def A_def n_def)
  have "length code = length ((P @ I) @ ?D @ Q)" using code by (rule arg_cong)
  then have len1: "n = length P + item_len it + 5 + length Q" by (simp add: n_def I)
  have len2: "n < 2 ^ 31" "n < 256" using Cons.prems(2) by (simp_all add: n_def)
  have len3: "2 \<le> length Q" by (simp add: Q_def length_raw_program)
  note len = len1 len2(1) len3
  have lc: "length code < 2 ^ 31" using len(2) by (simp add: n_def)
  have dist: "fail_distance n (length (P @ I)) = int (length Q) - 1" by (simp add: fail_distance_def len(1) I)
  have next_item: "run_at code str (length (P @ I) + 5) sp f = Some (Inr (greedy its f (drop sp str)))" for sp f
  proof -
    have "(P @ I) @ ?D @ Q = (P @ I @ ?D) @ program (length code) (length (P @ I @ ?D)) its"
      by (simp add: Q_def n_def I add.assoc)
    with code have "code = (P @ I @ ?D) @ program (length code) (length (P @ I @ ?D)) its" by (rule trans)
    from Cons.IH [OF this Cons.prems(2,3), of sp f] show ?thesis by (simp add: I add.assoc)
  qed
  have true: "run_at code str (length (P @ I)) sp True = Some (Inr (greedy its True (drop sp str)))" for sp
    using run_jump_not [OF code, of sp str True] next_item by simp
  have false: "run_at code str (length (P @ I)) sp False = Some (Inr False)" if "sp < length str" for sp
    using run_fail [OF code [unfolded n_def] lc that Cons.prems(3) len(3)] .
  show ?case
  proof (cases q)
    case QOne
    then have "I = A" by (simp add: I_def it A_def)
    then have "code = P @ atom_code a @ (?D @ Q)" using code by (simp add: A_def)
    then show ?thesis
      using run_atom [of code P a "?D @ Q" sp str f] true [of "Suc sp"] false [of sp] \<open>I = A\<close>
      by (cases "sp < length str") (auto simp: run_at_end drop_at it QOne A_def)
  next
    case QStar
    have "code = P @ item_code (fail_distance n (length P + length A)) (a, QStar) @ (?D @ Q)" using code by (simp add: I_def it QStar)
    then show ?thesis unfolding it QStar by (rule run_star [OF _ lc]) (use true I in \<open>simp add: it QStar\<close>)
  next
    case QPlus
    let ?E = "jump_code JumpNeq (fail_distance n (length (P @ A)))" and ?X = "jump_code JumpNeq 10" and ?S = "[op_byte SetFlag, 1]"
      and ?J = "jump_code JumpEq (- int (length A + 12))"
    have I': "I = A @ ?E @ A @ ?X @ ?S @ ?J" by (simp add: I_def it QPlus A_def)
    have c1: "code = P @ A @ (?E @ A @ ?X @ ?S @ ?J @ ?D @ Q)" and c2: "code = (P @ A) @ ?E @ (A @ ?X @ ?S @ ?J @ ?D @ Q)"
      and c3: "code = ((P @ A) @ ?E) @ A @ ?X @ ?S @ ?J @ (?D @ Q)" using code by (simp_all add: I')
    have past: "run_at code str (length (P @ A) + length A + 20) sp f = Some (Inr (greedy its True (drop sp str)))" if sp: "sp < length str" for sp f
    proof -
      have "0 \<le> fail_distance n (length (P @ I))" "fail_distance n (length (P @ I)) < 256"
        unfolding dist using len1 len2(2) len3 by linarith+
      then obtain g where "run_at code str (length (P @ I) + 3) sp f = run_at code str (length (P @ I) + 5) sp g"
        using run_inside_jump [OF code _ _ sp, of f] by blast
      moreover have "length (P @ I) + 3 = length (P @ A) + length A + 20" by (simp add: I')
      ultimately show ?thesis using next_item [of sp g] greedy_flag [of "drop sp str" its g True] that
        by (simp add: add.commute add.left_commute)
    qed
    have loop: "run_at code str (length (P @ A) + 5) sp True = Some (Inr (greedy ((a, QStar) # its) True (drop sp str)))" for sp
      using run_plus_loop [OF c3 [unfolded A_def] lc past [unfolded A_def]] by (simp add: A_def)
    have "run_at code str (length (P @ A)) sp True = Some (Inr (greedy ((a, QStar) # its) True (drop sp str)))" for sp
      using run_jump_not [OF c2, of sp str True] loop by simp
    moreover have "run_at code str (length (P @ A)) sp False = Some (Inr False)" if "sp < length str" for sp
      by (rule run_fail [OF c2 [unfolded n_def] lc that Cons.prems(3)]) simp
    ultimately show ?thesis
      using run_atom [of code P a _ sp str f] c1
      by (cases "sp < length str") (auto simp: run_at_end drop_at it QPlus A_def)
  next
    case QOpt
    have c1: "code = P @ A @ ([op_byte SetFlag, 1] @ ?D @ Q)" and c2: "code = (P @ A) @ [op_byte SetFlag, 1] @ (?D @ Q)"
      and k: "length (P @ I) = length (P @ A) + 2" using code by (simp_all add: I_def it QOpt A_def)
    have "run_at code str (length (P @ A)) sp g = Some (Inr (greedy its True (drop sp str)))" if "sp < length str \<or> g" for sp g
      using run_set_flag [OF c2 that] true [of sp] by (simp only: k)
    then show ?thesis
      using run_atom [of code P a _ sp str f] c1
      by (cases "sp < length str") (auto simp: run_at_end drop_at it QOpt A_def)
  qed
qed

subsection \<open>The generator always returns\<close>

definition fits :: "emitted \<Rightarrow> nat \<Rightarrow> bool" where
  "fits m k \<longleftrightarrow> (\<exists>x. m = Some x \<and> (\<forall>ts gid code. x = Inr (Inr (ts, gid, code)) \<longrightarrow> length ts \<le> k))"

lemma fits_ok: "length ts \<le> k \<Longrightarrow> fits (emit_ok ts gid code) k"
  by (simp add: fits_def emit_ok_def)

lemma fits_error: "fits (emit_error e) k"
  by (simp add: fits_def emit_error_def)

lemma fits_bind:
  assumes "fits m k" "\<And>ts gid code. length ts \<le> k \<Longrightarrow> fits (f ts gid code) l"
  shows "fits (emit_bind m f) l"
proof -
  obtain x where x: "m = Some x" "\<forall>ts gid code. x = Inr (Inr (ts, gid, code)) \<longrightarrow> length ts \<le> k"
    using assms(1) by (auto simp: fits_def)
  consider u where "x = Inl u" | e where "x = Inr (Inl e)" | ts gid code where "x = Inr (Inr (ts, gid, code))"
    by (metis old.sum.exhaust prod_cases3)
  then show ?thesis
  proof cases
    case 3
    then show ?thesis using x assms(2) by (simp add: emit_bind_def)
  qed (auto simp: x(1) emit_bind_def fits_def)
qed

lemma fits_with_code: "(\<And>code. fits (f code) l) \<Longrightarrow> fits (with_code r f) l"
  by (auto simp: fits_def with_code_def split: sum.splits)

lemma fits_mono: "fits m k \<Longrightarrow> k \<le> l \<Longrightarrow> fits m l"
  by (fastforce simp: fits_def)

lemmas fits_intros = fits_ok fits_error fits_with_code

lemma emit_total:
  "(4 * length ts + 4 \<le> n \<longrightarrow> fits (regex_emit_alternation n ts gid code) (length ts)) \<and>
   (4 * length ts + 3 \<le> n \<longrightarrow> fits (emit_alternation_loop n ts gid code) (length ts)) \<and>
   (4 * length ts + 3 \<le> n \<longrightarrow> fits (regex_emit_concatenation n first ts gid code) (length ts)) \<and>
   (4 * length ts + 2 \<le> n \<longrightarrow> fits (regex_emit_quantified n ts gid code) (length ts - 1)) \<and>
   (4 * length ts + 1 \<le> n \<longrightarrow> fits (regex_emit_primary n ts gid code) (length ts - 1))"
proof (induction n arbitrary: ts gid code first)
  case (Suc n)
  note IH = Suc [THEN conjunct1, rule_format] Suc [THEN conjunct2, THEN conjunct1, rule_format]
    Suc [THEN conjunct2, THEN conjunct2, THEN conjunct1, rule_format]
    Suc [THEN conjunct2, THEN conjunct2, THEN conjunct2, THEN conjunct1, rule_format]
    Suc [THEN conjunct2, THEN conjunct2, THEN conjunct2, THEN conjunct2, rule_format]
  have "fits (regex_emit_alternation (Suc n) ts gid code) (length ts)" if "4 * length ts + 4 \<le> Suc n"
    unfolding regex_emit_alternation.simps
    by (rule fits_bind [OF IH(3)]) (use that in \<open>auto intro: fits_mono [OF IH(2)]\<close>)
  moreover have "fits (emit_alternation_loop (Suc n) ts gid code) (length ts)" if "4 * length ts + 3 \<le> Suc n"
  proof (cases "ts = [] \<or> rt_type (hd ts) \<noteq> Operator Alternate")
    case False
    then obtain t rest where ts: "ts = t # rest" "rt_type t = Operator Alternate" by (cases ts) auto
    have "fits (emit_bind (regex_emit_concatenation n True rest gid (fst (regex_emit_jump code JumpEq))) (\<lambda>us g c.
        with_code (regex_patch_jump c j (int (length c) - int (j - 1))) (emit_alternation_loop n us g))) (length ts)" for j
      by (rule fits_bind [OF IH(3)]) (use that ts in \<open>auto intro!: fits_with_code intro: fits_mono [OF IH(2)]\<close>)
    then show ?thesis using ts by (simp add: Let_def)
  qed (auto intro: fits_ok)
  moreover have "fits (regex_emit_concatenation (Suc n) first ts gid code) (length ts)" if "4 * length ts + 3 \<le> Suc n"
  proof (cases "ts = [] \<or> rt_type (hd ts) = GroupEnd")
    case False
    then have ne: "0 < length ts" by simp
    have "fits (emit_bind (regex_emit_quantified n ts gid c) (regex_emit_concatenation n False)) (length ts)" for c
    proof (rule fits_bind [OF IH(4)])
      fix us :: "RegexToken list" and g d assume "length us \<le> length ts - 1"
      then show "fits (regex_emit_concatenation n False us g d) (length ts)"
        using that ne by (intro fits_mono [OF IH(3)]) linarith+
    qed (use that in simp)
    then show ?thesis using False fits_with_code by (simp only: regex_emit_concatenation.simps if_False)
  qed (auto intro: fits_ok)
  moreover have "fits (regex_emit_quantified (Suc n) ts gid code) (length ts - 1)" if "4 * length ts + 2 \<le> Suc n"
    unfolding regex_emit_quantified.simps
  proof (rule fits_bind [OF IH(5)])
    fix us :: "RegexToken list" and g c assume "length us \<le> length ts - 1"
    then show "fits (emit_quantifier (length code) us g c) (length ts - 1)"
      by (auto simp: emit_quantifier_def intro!: fits_intros split: list.splits RegexTokenType.splits RegexOperatorType.splits)
  qed (use that in simp)
  moreover have "fits (regex_emit_primary (Suc n) ts gid code) (length ts - 1)" if "4 * length ts + 1 \<le> Suc n"
  proof (cases ts)
    case (Cons t rest)
    have "fits (emit_atom t rest gid code) (length rest)"
      by (auto simp: emit_atom_def intro!: fits_intros split: RegexTokenType.splits RegexCharacterType.splits)
    moreover have "fits (emit_bind (regex_emit_alternation n rest (gid + 1) c) (emit_group_end gid)) (length rest)" for c
      by (rule fits_bind [OF IH(1)])
        (use that Cons in \<open>auto simp: emit_group_end_def intro!: fits_intros split: list.splits\<close>)
    ultimately show ?thesis using that Cons IH(1) [of rest] IH(3) [of rest] by simp
  qed (simp add: fits_error)
  ultimately show ?case by blast
qed auto

lemma regex_emit_total: "\<exists>r. regex_emit ts = Some r"
proof -
  obtain x where x: "regex_emit_alternation (emit_fuel ts) ts 1 [] = Some x"
    using emit_total [of ts "emit_fuel ts" 1 "[]", THEN conjunct1] by (auto simp: fits_def emit_fuel_def)
  show ?thesis by (cases x) (auto simp: regex_emit_def x split: sum.splits)
qed

subsection \<open>Alternation\<close>

text \<open>More fuel does not change a result.\<close>

lemma emit_bind_some:
  "emit_bind m f = Some r \<longleftrightarrow> (\<exists>u. m = Some (Inl u) \<and> r = Inl u) \<or> (\<exists>e. m = Some (Inr (Inl e)) \<and> r = Inr (Inl e)) \<or>
     (\<exists>ts gid code. m = Some (Inr (Inr (ts, gid, code))) \<and> f ts gid code = Some r)"
proof (cases m)
  case (Some x)
  then show ?thesis by (cases x) (auto simp: emit_bind_def split: sum.splits)
qed (simp add: emit_bind_def)

lemma emit_bind_cong_some:
  assumes "emit_bind m f = Some r" "\<And>x. m = Some x \<Longrightarrow> m' = Some x" "\<And>ts gid code r. f ts gid code = Some r \<Longrightarrow> f' ts gid code = Some r"
  shows "emit_bind m' f' = Some r"
proof -
  obtain x where x: "m = Some x" using assms(1) by (cases m) (auto simp: emit_bind_def)
  consider u where "x = Inl u" | e where "x = Inr (Inl e)" | ts gid code where "x = Inr (Inr (ts, gid, code))"
    by (metis old.sum.exhaust prod_cases3)
  then show ?thesis using assms(1) assms(2) [OF x] assms(3) by cases (auto simp: x emit_bind_def)
qed

lemma with_code_cong_some:
  "with_code c f = Some r \<Longrightarrow> (\<And>code r. f code = Some r \<Longrightarrow> f' code = Some r) \<Longrightarrow> with_code c f' = Some r"
  by (auto simp: with_code_def split: sum.splits)

lemma emit_more_fuel:
  "(regex_emit_alternation n ts gid code = Some r \<longrightarrow> regex_emit_alternation (Suc n) ts gid code = Some r) \<and>
   (emit_alternation_loop n ts gid code = Some r \<longrightarrow> emit_alternation_loop (Suc n) ts gid code = Some r) \<and>
   (regex_emit_concatenation n first ts gid code = Some r \<longrightarrow> regex_emit_concatenation (Suc n) first ts gid code = Some r) \<and>
   (regex_emit_quantified n ts gid code = Some r \<longrightarrow> regex_emit_quantified (Suc n) ts gid code = Some r) \<and>
   (regex_emit_primary n ts gid code = Some r \<longrightarrow> regex_emit_primary (Suc n) ts gid code = Some r)"
proof (induction n arbitrary: ts gid code r first)
  case (Suc n)
  note IH = Suc [THEN conjunct1, rule_format] Suc [THEN conjunct2, THEN conjunct1, rule_format]
    Suc [THEN conjunct2, THEN conjunct2, THEN conjunct1, rule_format]
    Suc [THEN conjunct2, THEN conjunct2, THEN conjunct2, THEN conjunct1, rule_format]
    Suc [THEN conjunct2, THEN conjunct2, THEN conjunct2, THEN conjunct2, rule_format]
  have "regex_emit_alternation (Suc (Suc n)) ts gid code = Some r" if "regex_emit_alternation (Suc n) ts gid code = Some r"
    using that unfolding regex_emit_alternation.simps(2) by (rule emit_bind_cong_some) (rule IH; assumption)+
  moreover have "emit_alternation_loop (Suc (Suc n)) ts gid code = Some r" if "emit_alternation_loop (Suc n) ts gid code = Some r"
  proof (cases "ts = [] \<or> rt_type (hd ts) \<noteq> Operator Alternate")
    case True
    then show ?thesis using that by (auto simp: emit_alternation_loop.simps(2))
  next
    case False
    define j where "j = snd (regex_emit_jump code JumpEq)"
    have eq: "emit_alternation_loop (Suc k) ts gid code =
        emit_bind (regex_emit_concatenation k True (tl ts) gid (fst (regex_emit_jump code JumpEq))) (\<lambda>us g c.
          with_code (regex_patch_jump c j (int (length c) - int (j - 1))) (emit_alternation_loop k us g))" for k
      using False by (simp add: Let_def j_def)
    show ?thesis
      using that unfolding eq
    proof (rule emit_bind_cong_some)
      fix us g c r
      assume "with_code (regex_patch_jump c j (int (length c) - int (j - 1))) (emit_alternation_loop n us g) = Some r"
      then show "with_code (regex_patch_jump c j (int (length c) - int (j - 1))) (emit_alternation_loop (Suc n) us g) = Some r"
        by (rule with_code_cong_some) (rule IH(2))
    qed (rule IH(3))
  qed
  moreover have "regex_emit_concatenation (Suc (Suc n)) first ts gid code = Some r" if "regex_emit_concatenation (Suc n) first ts gid code = Some r"
  proof (cases "ts = [] \<or> rt_type (hd ts) = GroupEnd")
    case True
    then show ?thesis using that by (auto simp: regex_emit_concatenation.simps(2))
  next
    case False
    have eq: "regex_emit_concatenation (Suc k) first ts gid code =
        with_code (if first then Inr code else emit_jump_to code JumpNeq JUMP_FAIL) (\<lambda>c.
          emit_bind (regex_emit_quantified k ts gid c) (regex_emit_concatenation k False))" for k
      using False by simp
    show ?thesis
      using that unfolding eq
    proof (rule with_code_cong_some)
      fix c r assume "emit_bind (regex_emit_quantified n ts gid c) (regex_emit_concatenation n False) = Some r"
      then show "emit_bind (regex_emit_quantified (Suc n) ts gid c) (regex_emit_concatenation (Suc n) False) = Some r"
        by (rule emit_bind_cong_some) (rule IH(4) IH(3); assumption)+
    qed
  qed
  moreover have "regex_emit_quantified (Suc (Suc n)) ts gid code = Some r" if "regex_emit_quantified (Suc n) ts gid code = Some r"
    using that unfolding regex_emit_quantified.simps(2) by (rule emit_bind_cong_some) (auto dest: IH(5))
  moreover have "regex_emit_primary (Suc (Suc n)) ts gid code = Some r" if "regex_emit_primary (Suc n) ts gid code = Some r"
  proof (cases ts)
    case (Cons t rest)
    have "emit_bind (regex_emit_alternation (Suc n) rest g c) (emit_group_end gid) = Some r"
      if "emit_bind (regex_emit_alternation n rest g c) (emit_group_end gid) = Some r" for g c
      using that by (rule emit_bind_cong_some) (auto dest: IH(1))
    then show ?thesis
      using that IH(1) [of rest gid code r] IH(3) [of True rest gid code r] unfolding Cons regex_emit_primary.simps(2) list.case
      by (simp del: regex_emit_alternation.simps regex_emit_concatenation.simps split: if_splits)
  qed (use that in \<open>simp add: regex_emit_primary.simps(2)\<close>)
  ultimately show ?case by blast
qed simp

text \<open>
  The generator for a concatenation only stops at the end of the tokens or of a group, so the loop
  over alternatives behind it never turns, and an alternation sign is met as an operand: what
  follows it is concatenated.
\<close>

definition as_concat :: "RegexToken \<Rightarrow> RegexToken" where
  "as_concat t = (if rt_type t = Operator Alternate then t\<lparr>rt_type := Operator Concatenate\<rparr> else t)"

fun map_tokens :: "ub + (regex_error + emit_state) \<Rightarrow> ub + (regex_error + emit_state)" where
  "map_tokens (Inl u) = Inl u"
| "map_tokens (Inr (Inl e)) = Inr (Inl e)"
| "map_tokens (Inr (Inr (ts, gid, code))) = Inr (Inr (map as_concat ts, gid, code))"

lemma as_concat_type [simp]:
  "rt_type (as_concat t) = GroupEnd \<longleftrightarrow> rt_type t = GroupEnd"
  "rt_type (as_concat t) = GroupBegin \<longleftrightarrow> rt_type t = GroupBegin"
  "rt_type (as_concat t) \<noteq> Operator Alternate"
  "rt_type (as_concat t) = Operator Concatenate \<longleftrightarrow> rt_type t = Operator Alternate \<or> rt_type t = Operator Concatenate"
  by (auto simp: as_concat_def)

lemma concatenation_stops:
  "regex_emit_concatenation n first ts gid code = Some (Inr (Inr (us, g, c))) \<Longrightarrow> us = [] \<or> rt_type (hd us) = GroupEnd"
proof (induction n arbitrary: first ts gid code)
  case (Suc n)
  show ?case
  proof (cases "ts = [] \<or> rt_type (hd ts) = GroupEnd")
    case True
    then show ?thesis using Suc.prems by (auto simp: emit_ok_def)
  next
    case False
    then show ?thesis
      using Suc.prems Suc.IH by (auto simp: with_code_def emit_bind_some emit_jump_to_eq split: sum.splits if_splits)
  qed
qed simp

lemma alternation_is_concatenation:
  assumes "regex_emit_alternation (Suc n) ts gid code = Some r"
  shows "regex_emit_concatenation n True ts gid code = Some r"
proof -
  have run: "emit_bind (regex_emit_concatenation n True ts gid code) (emit_alternation_loop n) = Some r"
    using assms by (simp only: regex_emit_alternation.simps)
  obtain x where x: "regex_emit_concatenation n True ts gid code = Some x"
    using run by (cases "regex_emit_concatenation n True ts gid code") (auto simp: emit_bind_def)
  then obtain m where n: "n = Suc m" by (cases n) auto
  consider u where "x = Inl u" | e where "x = Inr (Inl e)" | us g c where "x = Inr (Inr (us, g, c))"
    by (metis old.sum.exhaust prod_cases3)
  then show ?thesis
  proof cases
    case 3
    have "us = [] \<or> rt_type (hd us) = GroupEnd" using concatenation_stops x 3 by blast
    then have "emit_alternation_loop n us g c = emit_ok us g c" by (auto simp: n)
    then show ?thesis using run x 3 by (simp add: emit_bind_def emit_ok_def)
  qed (use run x in \<open>auto simp: emit_bind_def\<close>)
qed

lemma emit_bind_map:
  assumes "emit_bind m f = Some r" "\<And>x. m = Some x \<Longrightarrow> m' = Some (map_tokens x)"
    "\<And>ts gid code r. m = Some (Inr (Inr (ts, gid, code))) \<Longrightarrow> f ts gid code = Some r \<Longrightarrow> f' (map as_concat ts) gid code = Some (map_tokens r)"
  shows "emit_bind m' f' = Some (map_tokens r)"
proof -
  obtain x where x: "m = Some x" using assms(1) by (cases m) (auto simp: emit_bind_def)
  consider u where "x = Inl u" | e where "x = Inr (Inl e)" | ts gid code where "x = Inr (Inr (ts, gid, code))"
    by (metis old.sum.exhaust prod_cases3)
  then show ?thesis
  proof cases
    case 3
    then show ?thesis using assms(1) assms(2) [OF x] assms(3) [of _ _ _ r] by (simp add: x emit_bind_def)
  qed (use assms(1) assms(2) [OF x] in \<open>auto simp: x emit_bind_def\<close>)
qed

lemma with_code_map:
  assumes "with_code c f = Some r" "\<And>code r. f code = Some r \<Longrightarrow> f' code = Some (map_tokens r)"
  shows "with_code c f' = Some (map_tokens r)"
  using assms by (cases c) (auto simp: with_code_def)

lemma emit_ok_map: "emit_ok ts gid code = Some r \<Longrightarrow> emit_ok (map as_concat ts) gid code = Some (map_tokens r)"
  by (auto simp: emit_ok_def)

lemma emit_error_map: "emit_error e = Some r \<Longrightarrow> map_tokens r = r"
  by (auto simp: emit_error_def)

lemma emit_quantifier_map:
  assumes "emit_quantifier s ts gid code = Some r"
  shows "emit_quantifier s (map as_concat ts) gid code = Some (map_tokens r)"
proof (cases ts)
  case (Cons t rest)
  consider "rt_type t = Operator ZeroOrMore" | "rt_type t = Operator OneOrMore" | "rt_type t = Operator ZeroOrOne"
    | "rt_type t \<notin> {Operator ZeroOrMore, Operator OneOrMore, Operator ZeroOrOne}" by blast
  then show ?thesis
  proof cases
    case 1
    then have "with_code (emit_zero_or_more s code) (emit_ok rest gid) = Some r" using assms by (simp add: Cons emit_quantifier_def)
    then have "with_code (emit_zero_or_more s code) (emit_ok (map as_concat rest) gid) = Some (map_tokens r)"
      by (rule with_code_map) (rule emit_ok_map)
    then show ?thesis using 1 by (simp add: Cons emit_quantifier_def as_concat_def)
  next
    case 2
    then have "with_code (emit_one_or_more s code) (emit_ok rest gid) = Some r" using assms by (simp add: Cons emit_quantifier_def)
    then have "with_code (emit_one_or_more s code) (emit_ok (map as_concat rest) gid) = Some (map_tokens r)"
      by (rule with_code_map) (rule emit_ok_map)
    then show ?thesis using 2 by (simp add: Cons emit_quantifier_def as_concat_def)
  next
    case 3
    then show ?thesis using assms by (simp add: Cons emit_quantifier_def as_concat_def emit_ok_map)
  next
    case 4
    have other: "emit_quantifier s (u # us) gid code = emit_ok (u # us) gid code"
      if "rt_type u \<notin> {Operator ZeroOrMore, Operator OneOrMore, Operator ZeroOrOne}" for u us
      using that by (cases "rt_type u") (auto simp: emit_quantifier_def split: RegexOperatorType.splits)
    have "rt_type (as_concat t) \<notin> {Operator ZeroOrMore, Operator OneOrMore, Operator ZeroOrOne}" using 4 by (auto simp: as_concat_def)
    then show ?thesis using assms emit_ok_map [of ts gid code r] 4 by (simp add: Cons other)
  qed
qed (use assms emit_ok_map [of "[]"] in \<open>simp add: emit_quantifier_def\<close>)

lemma emit_group_end_map:
  assumes "emit_group_end g ts gid code = Some r"
  shows "emit_group_end g (map as_concat ts) gid code = Some (map_tokens r)"
  using assms by (cases ts) (auto simp: emit_group_end_def emit_error_map intro!: emit_ok_map split: if_splits)

lemma emit_atom_map:
  assumes "emit_atom t rest gid code = Some r" "rt_type t \<noteq> Operator Alternate"
  shows "emit_atom (as_concat t) (map as_concat rest) gid code = Some (map_tokens r)"
proof -
  have [simp]: "as_concat t = t" using assms(2) by (simp add: as_concat_def)
  have ok: "with_code c (emit_ok rest gid) = Some r \<Longrightarrow> with_code c (emit_ok (map as_concat rest) gid) = Some (map_tokens r)" for c
    by (rule with_code_map) (auto intro: emit_ok_map)
  show ?thesis
  proof (cases "rt_type t")
    case (Character x)
    then show ?thesis using assms(1) ok by (cases x) (simp_all add: emit_atom_def emit_ok_map)
  qed (use assms(1) ok in \<open>simp_all add: emit_atom_def emit_error_map\<close>)
qed

lemma emit_as_concat:
  "(regex_emit_alternation n ts gid code = Some r \<longrightarrow> regex_emit_alternation n (map as_concat ts) gid code = Some (map_tokens r)) \<and>
   (regex_emit_concatenation n first ts gid code = Some r \<longrightarrow>
      regex_emit_concatenation n first (map as_concat ts) gid code = Some (map_tokens r)) \<and>
   (regex_emit_quantified n ts gid code = Some r \<longrightarrow> regex_emit_quantified n (map as_concat ts) gid code = Some (map_tokens r)) \<and>
   (regex_emit_primary n ts gid code = Some r \<longrightarrow> regex_emit_primary n (map as_concat ts) gid code = Some (map_tokens r))"
proof (induction n arbitrary: ts gid code r first)
  case (Suc n)
  note IH = Suc [THEN conjunct1, rule_format] Suc [THEN conjunct2, THEN conjunct1, rule_format]
    Suc [THEN conjunct2, THEN conjunct2, THEN conjunct1, rule_format]
    Suc [THEN conjunct2, THEN conjunct2, THEN conjunct2, rule_format]
  have alt: "regex_emit_alternation (Suc n) (map as_concat ts) gid code = Some (map_tokens r)"
    if "regex_emit_alternation (Suc n) ts gid code = Some r" for ts gid code
  proof -
    have c: "regex_emit_concatenation n True ts gid code = Some r" using that by (rule alternation_is_concatenation)
    then have c': "regex_emit_concatenation n True (map as_concat ts) gid code = Some (map_tokens r)" by (rule IH(2))
    obtain m where n: "n = Suc m" using c by (cases n) auto
    consider u where "r = Inl u" | e where "r = Inr (Inl e)" | us g d where "r = Inr (Inr (us, g, d))" by (metis old.sum.exhaust prod_cases3)
    then show ?thesis
    proof cases
      case 3
      have stop: "us = [] \<or> rt_type (hd us) = GroupEnd" using concatenation_stops [of n True ts gid code us g d] c 3 by simp
      then have "emit_alternation_loop n (map as_concat us) g d = emit_ok (map as_concat us) g d"
        by (cases us) (auto simp: n)
      then show ?thesis using c' 3 by (simp add: emit_bind_def emit_ok_def)
    qed (use c' in \<open>simp_all add: emit_bind_def\<close>)
  qed
  moreover have "regex_emit_concatenation (Suc n) first (map as_concat ts) gid code = Some (map_tokens r)"
    if "regex_emit_concatenation (Suc n) first ts gid code = Some r"
  proof (cases "ts = [] \<or> rt_type (hd ts) = GroupEnd")
    case True
    then show ?thesis using that emit_ok_map [of ts gid code r] by (cases ts) auto
  next
    case False
    then have False': "\<not> (map as_concat ts = [] \<or> rt_type (hd (map as_concat ts)) = GroupEnd)" by (cases ts) auto
    show ?thesis
      using that unfolding regex_emit_concatenation.simps(2) if_not_P [OF False] if_not_P [OF False']
    proof (rule with_code_map)
      fix c r assume "emit_bind (regex_emit_quantified n ts gid c) (regex_emit_concatenation n False) = Some r"
      then show "emit_bind (regex_emit_quantified n (map as_concat ts) gid c) (regex_emit_concatenation n False) = Some (map_tokens r)"
        by (rule emit_bind_map) (rule IH(3) IH(2); assumption)+
    qed
  qed
  moreover have "regex_emit_quantified (Suc n) (map as_concat ts) gid code = Some (map_tokens r)"
    if "regex_emit_quantified (Suc n) ts gid code = Some r"
    using that unfolding regex_emit_quantified.simps(2) by (rule emit_bind_map) (rule IH(4) emit_quantifier_map; assumption)+
  moreover have "regex_emit_primary (Suc n) (map as_concat ts) gid code = Some (map_tokens r)"
    if run: "regex_emit_primary (Suc n) ts gid code = Some r"
  proof (cases ts)
    case (Cons t rest)
    have group: "emit_bind (regex_emit_alternation n (map as_concat rest) g c) (emit_group_end gid) = Some (map_tokens r)"
      if "emit_bind (regex_emit_alternation n rest g c) (emit_group_end gid) = Some r" for g c
      using that by (rule emit_bind_map) (rule IH(1) emit_group_end_map; assumption)+
    have swapped: "regex_emit_concatenation n True (map as_concat rest) gid code = Some (map_tokens r)"
      if a: "regex_emit_alternation n rest gid code = Some r"
    proof -
      obtain m where n: "n = Suc m" using a by (cases n) auto
      have "regex_emit_concatenation m True rest gid code = Some r" using a unfolding n by (rule alternation_is_concatenation)
      then have "regex_emit_concatenation n True rest gid code = Some r"
        unfolding n by (rule emit_more_fuel [THEN conjunct2, THEN conjunct2, THEN conjunct1, rule_format])
      then show ?thesis by (rule IH(2))
    qed
    consider "rt_type t = GroupBegin" | "rt_type t = Operator Alternate" | "rt_type t = Operator Concatenate"
      | "rt_type t \<noteq> GroupBegin" "rt_type t \<noteq> Operator Alternate" "rt_type t \<noteq> Operator Concatenate" by blast
    then show ?thesis
    proof cases
      case 1
      then show ?thesis using run group by (simp add: Cons)
    next
      case 2
      then show ?thesis using run swapped by (simp add: Cons)
    next
      case 3
      then show ?thesis using run IH(2) by (simp add: Cons)
    next
      case 4
      then show ?thesis using run emit_atom_map by (simp add: Cons)
    qed
  qed (use run emit_error_map in simp)
  ultimately show ?case by blast
qed simp

lemma regex_emit_as_concat: "regex_emit (map as_concat ts) = regex_emit ts"
proof (cases "ts = []")
  case False
  obtain x where x: "regex_emit_alternation (emit_fuel ts) ts 1 [] = Some x"
    using emit_total [of ts "emit_fuel ts" 1 "[]", THEN conjunct1] by (auto simp: fits_def emit_fuel_def)
  have "regex_emit_alternation (emit_fuel (map as_concat ts)) (map as_concat ts) 1 [] = Some (map_tokens x)"
    using emit_as_concat [of "emit_fuel ts" ts 1 "[]" x, THEN conjunct1] x by (simp add: emit_fuel_def)
  moreover consider u where "x = Inl u" | e where "x = Inr (Inl e)" | us g d where "x = Inr (Inr (us, g, d))" by (metis old.sum.exhaust prod_cases3)
  then have "run_bind (Some (map_tokens x)) f = run_bind (Some x) f"
    if "\<And>us g d. f (Inr (map as_concat us, g, d)) = f (Inr (us, g, d))" for f :: "regex_error + emit_state \<Rightarrow> (ub + (regex_error + bytes)) option"
    by cases (simp_all add: that)
  ultimately show ?thesis using False by (simp add: regex_emit_def x)
qed simp

subsection \<open>Runs that do not end\<close>

text \<open>A set of machine states that every step leads back into, inside code and subject.\<close>

lemma regex_exec_diverges:
  assumes closed: "\<And>vm. vm \<in> S \<Longrightarrow> vm_pc vm < length code \<and> vm_sp vm < length str \<and> (\<exists>vm'\<in>S. regex_step code str vm = Inr (Inr vm'))"
    and start: "vm \<in> S"
  shows "regex_exec code str vm = None"
proof (rule ccontr)
  let ?P = "\<lambda>code' str' vm (r :: ub + bool). code' = code \<and> str' = str \<longrightarrow> vm \<notin> S"
  assume "regex_exec code str vm \<noteq> None"
  then obtain r where run: "regex_exec code str vm = Some r" by auto
  have "?P code str vm r"
  proof (rule regex_exec.raw_induct [where P = ?P, OF _ run])
    fix exec code' str' vm r
    assume IH: "\<And>code str vm r. exec code str vm = Some r \<Longrightarrow> ?P code str vm r"
      and body: "(if vm_pc vm < length code' \<and> vm_sp vm < length str'
        then run_bind (Some (regex_step code' str' vm)) (\<lambda>x. case x of Inl b \<Rightarrow> Some (Inr b) | Inr vm \<Rightarrow> exec code' str' vm)
        else Some (Inr (vm_status_flag vm))) = Some r"
    show "?P code' str' vm r"
    proof (intro impI notI)
      assume eq: "code' = code \<and> str' = str" and vm: "vm \<in> S"
      obtain vm' where "vm' \<in> S" "regex_step code str vm = Inr (Inr vm')" using closed [OF vm] by blast
      then have "exec code str vm' = Some r" using body eq closed [OF vm] by simp
      then show False using IH \<open>vm' \<in> S\<close> by blast
    qed
  qed
  then show False using start by blast
qed

subsection \<open>Correctness\<close>

text \<open>
  C15: a pattern of characters, dots and ranges, each alone or with one of the signs for repetition,
  compiles, and matching its code always returns the answer of the reference matcher: every item
  takes all it can and gives nothing back, the match need not reach the end of the subject, and
  when the subject ends first the answer is that of the last test. (For code of less than 256
  bytes, where the misplaced exit of a repetition with at least one turn is harmless.)
\<close>

theorem regex_match_greedy:
  assumes "its \<noteq> []" "\<forall>(a, q)\<in>set its. atom_ok a" "length (raw_program its) < 256"
  shows "\<exists>code. regex_compile (items_text its) = Some (Inr (Inr code)) \<and>
    regex_match code str = Some (Inr (greedy its False str))"
proof -
  obtain ts where ts: "regex_lex_loop (items_text its) False [] = Inr ts" "items_tokens False its ts"
    using regex_lex_items [OF assms(2), of False "[]"] by auto
  define n where "n = length (raw_program its)"
  have "regex_emit ts = Some (Inr (Inr (program n 0 its)))"
    using regex_emit_items [OF ts(2) assms(1)] resolve_program [of n "[]" its] by (simp add: n_def)
  moreover have "run_at (program n 0 its) str 0 0 False = Some (Inr (greedy its False str))"
    using run_program [of "program n 0 its" "[]" its str 0 False] assms(3) last_program by (simp add: n_def)
  moreover have "program n 0 its \<noteq> []" by (cases its) auto
  ultimately show ?thesis using ts(1) by (auto simp: regex_compile_def regex_lex_def regex_match_def)
qed

text \<open>
  Compilation returns for every pattern: the fuel of the code generator suffices for every list
  of tokens.
\<close>

theorem regex_compile_total: "\<exists>r. regex_compile pattern = Some r"
  by (cases "regex_lex pattern") (auto simp: regex_compile_def regex_emit_total)

text \<open>
  Alternation is compiled as concatenation: the code generated for any list of tokens is the
  code for the list with every alternation sign replaced by a concatenation.
\<close>

theorem regex_alternation_concatenates: "regex_emit (map as_concat ts) = regex_emit ts"
  by (rule regex_emit_as_concat)

definition nested_star_code :: bytes where
  "nested_star_code = [11, 1, 0, 97, 15, 7, 255, 255, 255, 253, 17, 1, 12, 1, 7, 255, 255, 255, 242, 17, 1, 8, 0, 0, 0, 1, 9, 10]"

lemma nested_star_compiles: "regex_compile [40, 97, 42, 41, 42] = Some (Inr (Inr nested_star_code))"
  by code_simp

lemma nested_star_steps:
  "regex_step nested_star_code [98] \<lparr>vm_pc = 0, vm_sp = 0, vm_status_flag = False\<rparr> = Inr (Inr \<lparr>vm_pc = 2, vm_sp = 0, vm_status_flag = False\<rparr>)"
  "regex_step nested_star_code [98] \<lparr>vm_pc = 0, vm_sp = 0, vm_status_flag = True\<rparr> = Inr (Inr \<lparr>vm_pc = 2, vm_sp = 0, vm_status_flag = True\<rparr>)"
  "regex_step nested_star_code [98] \<lparr>vm_pc = 2, vm_sp = 0, vm_status_flag = False\<rparr> = Inr (Inr \<lparr>vm_pc = 4, vm_sp = 0, vm_status_flag = False\<rparr>)"
  "regex_step nested_star_code [98] \<lparr>vm_pc = 2, vm_sp = 0, vm_status_flag = True\<rparr> = Inr (Inr \<lparr>vm_pc = 4, vm_sp = 0, vm_status_flag = False\<rparr>)"
  "regex_step nested_star_code [98] \<lparr>vm_pc = 4, vm_sp = 0, vm_status_flag = False\<rparr> = Inr (Inr \<lparr>vm_pc = 5, vm_sp = 0, vm_status_flag = False\<rparr>)"
  "regex_step nested_star_code [98] \<lparr>vm_pc = 5, vm_sp = 0, vm_status_flag = False\<rparr> = Inr (Inr \<lparr>vm_pc = 10, vm_sp = 0, vm_status_flag = False\<rparr>)"
  "regex_step nested_star_code [98] \<lparr>vm_pc = 10, vm_sp = 0, vm_status_flag = False\<rparr> = Inr (Inr \<lparr>vm_pc = 12, vm_sp = 0, vm_status_flag = True\<rparr>)"
  "regex_step nested_star_code [98] \<lparr>vm_pc = 12, vm_sp = 0, vm_status_flag = True\<rparr> = Inr (Inr \<lparr>vm_pc = 14, vm_sp = 0, vm_status_flag = True\<rparr>)"
  "regex_step nested_star_code [98] \<lparr>vm_pc = 14, vm_sp = 0, vm_status_flag = True\<rparr> = Inr (Inr \<lparr>vm_pc = 0, vm_sp = 0, vm_status_flag = True\<rparr>)"
  by code_simp+

definition nested_star_states :: "RegexVM set" where
  "nested_star_states = {\<lparr>vm_pc = 0, vm_sp = 0, vm_status_flag = False\<rparr>,
     \<lparr>vm_pc = 0, vm_sp = 0, vm_status_flag = True\<rparr>,
     \<lparr>vm_pc = 2, vm_sp = 0, vm_status_flag = False\<rparr>,
     \<lparr>vm_pc = 2, vm_sp = 0, vm_status_flag = True\<rparr>,
     \<lparr>vm_pc = 4, vm_sp = 0, vm_status_flag = False\<rparr>,
     \<lparr>vm_pc = 5, vm_sp = 0, vm_status_flag = False\<rparr>,
     \<lparr>vm_pc = 10, vm_sp = 0, vm_status_flag = False\<rparr>,
     \<lparr>vm_pc = 12, vm_sp = 0, vm_status_flag = True\<rparr>,
     \<lparr>vm_pc = 14, vm_sp = 0, vm_status_flag = True\<rparr>}"

text \<open>
  A repetition of something that can match nothing never ends: matching \<^verbatim>\<open>(a*)*\<close> against
  \<^verbatim>\<open>b\<close> does not return.
\<close>

theorem regex_nested_star_diverges:
  "\<exists>code. regex_compile [40, 97, 42, 41, 42] = Some (Inr (Inr code)) \<and> regex_match code [98] = None"
proof (intro exI conjI)
  have "regex_exec nested_star_code [98] \<lparr>vm_pc = 0, vm_sp = 0, vm_status_flag = False\<rparr> = None"
  proof (rule regex_exec_diverges)
    fix vm assume "vm \<in> nested_star_states"
    then show "vm_pc vm < length nested_star_code \<and> vm_sp vm < length [98 :: u8] \<and>
        (\<exists>vm'\<in>nested_star_states. regex_step nested_star_code [98] vm = Inr (Inr vm'))"
      by (auto simp: nested_star_states_def nested_star_steps) (simp_all add: nested_star_code_def)
  qed (simp add: nested_star_states_def)
  then show "regex_match nested_star_code [98] = None" by (simp add: regex_match_def nested_star_code_def)
qed (rule nested_star_compiles)

theorem regex_match_greedy_witness:
  "\<exists>code. regex_compile [97, 43, 91, 48, 45, 57, 93, 42, 98] = Some (Inr (Inr code)) \<and>
    regex_match code [97, 97, 55, 98, 33] = Some (Inr True)"
  using regex_match_greedy [of "[(AChar 97, QPlus), (ARange 48 57, QStar), (AChar 98, QOne)]" "[97, 97, 55, 98, 33]"]
  by (simp add: items_text_def is_alnum_def atom_code_def regex_emit_range_opcodes_def item_len_def)

end
