(* ===== verification/Cli.thy ===== *)
theory Cli
  imports HashMapDict Vector CType
begin

text \<open>
  The command line parser of \<^verbatim>\<open>cli.c\<close>, on top of the hash map and the vector of the library.
  A C string is the list of its characters before the terminator, so \<^verbatim>\<open>*s == '\0'\<close> is the
  empty list. The arguments that \<^verbatim>\<open>cli_parser_add_arg\<close> allocates are the entries of
  \<open>cp_heap\<close>; the pointers kept in the maps and in the vector are eight bytes each, which name
  an entry. A function that returns \<^verbatim>\<open>false\<close> with \<^verbatim>\<open>g_current_error\<close> set has the
  status \<open>CliFail\<close>. \<^verbatim>\<open>strtod\<close> is an argument, the bit pattern it gives to a string.
\<close>

subsection \<open>Data\<close>

datatype CLIArgMode = CLIArgMode_Positional | CLIArgMode_Named | CLIArgMode_Optional

datatype CLIArgType = CLIArgType_Str | CLIArgType_Int | CLIArgType_Float | CLIArgType_Bool

datatype CLIArgAction = CLIArgAction_Store | CLIArgAction_StoreTrue | CLIArgAction_StoreFalse
  | CLIArgAction_Append | CLIArgAction_Count

text \<open>The values of the enumerators.\<close>

fun mode_val :: "CLIArgMode \<Rightarrow> u64" where
  "mode_val CLIArgMode_Positional = 0"
| "mode_val CLIArgMode_Named = 1"
| "mode_val CLIArgMode_Optional = 2"

fun type_val :: "CLIArgType \<Rightarrow> u64" where
  "type_val CLIArgType_Str = 0"
| "type_val CLIArgType_Int = 1"
| "type_val CLIArgType_Float = 2"
| "type_val CLIArgType_Bool = 3"

fun action_val :: "CLIArgAction \<Rightarrow> u64" where
  "action_val CLIArgAction_Store = 0"
| "action_val CLIArgAction_StoreTrue = 1"
| "action_val CLIArgAction_StoreFalse = 2"
| "action_val CLIArgAction_Append = 3"
| "action_val CLIArgAction_Count = 4"

datatype cli_error = CLIMemAllocError | CLIInvalidArgumentAction | CLIMalformedArgument
  | CLIUnknownArgument | CLIInvalidArgumentType | CLITooManyPositionalArgs
  | CLIMissingPositionalArgs | CLIMissingRequiredArg

text \<open>
  What a function of the parser returns: \<^verbatim>\<open>true\<close>, \<^verbatim>\<open>false\<close> with an error, or
  \<^verbatim>\<open>false\<close> after the help text was printed.
\<close>

datatype cli_status = CliTrue | CliFail cli_error | CliHelp bytes

text \<open>
  The union of an argument, one constructor for each member (the bits of a double; the block behind the
  string pointer, \<open>None\<close> for \<^verbatim>\<open>NULL\<close>), and the zeroed union of a new argument. An
  assignment to a member leaves that member; a read of another member than the one written last is
  \<open>WrongMember\<close>, and every member of the zeroed union reads as zero.
\<close>

datatype cli_data = DataZero | DataI64 u64 | DataF64 u64 | DataB bool | DataStr "bytes option"

fun read_i64 :: "cli_data \<Rightarrow> u64 res" where
  "read_i64 DataZero = Inr 0"
| "read_i64 (DataI64 w) = Inr w"
| "read_i64 _ = Inl WrongMember"

fun read_f64 :: "cli_data \<Rightarrow> u64 res" where
  "read_f64 DataZero = Inr 0"
| "read_f64 (DataF64 w) = Inr w"
| "read_f64 _ = Inl WrongMember"

fun read_b :: "cli_data \<Rightarrow> bool res" where
  "read_b DataZero = Inr False"
| "read_b (DataB b) = Inr b"
| "read_b _ = Inl WrongMember"

fun read_str :: "cli_data \<Rightarrow> bytes option res" where
  "read_str DataZero = Inr None"
| "read_str (DataStr s) = Inr s"
| "read_str _ = Inl WrongMember"

record cli_arg =
  ca_flags :: u64
  ca_data :: cli_data
  ca_data_sz :: nat
  ca_help_text :: "bytes option"
  ca_short_name :: u8
  ca_name :: bytes

record cli_parser =
  cp_args_map :: hashmap
  cp_short_names_map :: hashmap
  cp_positional_args :: bytes
  cp_program_name :: "bytes option"
  cp_description :: "bytes option"
  cp_heap :: "cli_arg list"

definition CLI_PARG_GET_MODE :: "u64 \<Rightarrow> u64" where
  "CLI_PARG_GET_MODE flags = flags AND 0x3"

definition CLI_PARG_SET_MODE :: "u64 \<Rightarrow> u64 \<Rightarrow> u64" where
  "CLI_PARG_SET_MODE flags mode = (flags AND NOT 0x3) OR (mode AND 0x3)"

definition CLI_PARG_GET_TYPE :: "u64 \<Rightarrow> u64" where
  "CLI_PARG_GET_TYPE flags = drop_bit 2 flags AND 0x3"

definition CLI_PARG_SET_TYPE :: "u64 \<Rightarrow> u64 \<Rightarrow> u64" where
  "CLI_PARG_SET_TYPE flags type = (flags AND NOT (push_bit 2 0x3)) OR push_bit 2 (type AND 0x3)"

definition CLI_PARG_GET_ACTION :: "u64 \<Rightarrow> u64" where
  "CLI_PARG_GET_ACTION flags = drop_bit 4 flags AND 0x7"

definition CLI_PARG_SET_ACTION :: "u64 \<Rightarrow> u64 \<Rightarrow> u64" where
  "CLI_PARG_SET_ACTION flags action = (flags AND NOT (push_bit 4 0x7)) OR push_bit 4 (action AND 0x7)"

text \<open>The bytes of the pointer to the \<open>i\<close>-th argument, and the argument such bytes point to.\<close>

definition arg_ptr :: "nat \<Rightarrow> bytes" where
  "arg_ptr i = u64_bytes (of_nat (Suc i))"

definition ptr_arg :: "bytes \<Rightarrow> nat option" where
  "ptr_arg bs = (let a = unat (bytes_u64 bs) in if a = 0 then None else Some (a - 1))"

definition cli_deref :: "cli_parser \<Rightarrow> nat option \<Rightarrow> cli_arg run" where
  "cli_deref p a = (case a of None \<Rightarrow> Some (Inl NullDeref)
     | Some i \<Rightarrow> if i < length (cp_heap p) then Some (Inr (cp_heap p ! i)) else Some (Inl OutOfBounds))"

subsection \<open>Construction\<close>

text \<open>
  \<open>ok\<close> tells which of the allocations (in the order of the code) succeed, \<open>uninit\<close> and
  \<open>rnd\<close> are the uninitialised key and the random number of each of the two hash maps.
\<close>

definition cli_parser_init ::
  "(nat \<Rightarrow> bool) \<Rightarrow> (nat \<Rightarrow> u32) \<Rightarrow> (nat \<Rightarrow> u32) \<Rightarrow> (nat \<Rightarrow> u8) \<Rightarrow> (cli_error + cli_parser) run" where
  "cli_parser_init ok uninit rnd junk =
     run_bind (hashmap_new (ok 0) (uninit 0) (rnd 0) 16) (\<lambda>args_map.
       case args_map of None \<Rightarrow> Some (Inr (Inl CLIMemAllocError))
       | Some args_map \<Rightarrow>
     run_bind (hashmap_new (ok 1) (uninit 1) (rnd 1) 8) (\<lambda>short_names_map.
       case short_names_map of None \<Rightarrow> Some (Inr (Inl CLIMemAllocError))
       | Some short_names_map \<Rightarrow>
     run_bind (Some (vector_init (ok 2) junk 8 8)) (\<lambda>positional_args.
       Some (Inr (Inr \<lparr>cp_args_map = args_map, cp_short_names_map = short_names_map,
         cp_positional_args = positional_args, cp_program_name = None, cp_description = None,
         cp_heap = []\<rparr>)))))"

definition cli_arg_flags :: "CLIArgMode \<Rightarrow> CLIArgType \<Rightarrow> CLIArgAction \<Rightarrow> u64" where
  "cli_arg_flags mode type action =
     CLI_PARG_SET_ACTION (CLI_PARG_SET_TYPE (CLI_PARG_SET_MODE 0 (mode_val mode)) (type_val type))
       (action_val action)"

definition CLI_NO_SHORT_NAME :: u8 where
  "CLI_NO_SHORT_NAME = 0"

text \<open>The value passed to the maps: the address of the local variable that holds the pointer.\<close>

definition ptr_to :: "nat \<Rightarrow> cptr" where
  "ptr_to i = \<lparr>p_addr = 0, p_mem = arg_ptr i\<rparr>"

definition cli_parser_add_arg ::
  "(nat \<Rightarrow> bool) \<Rightarrow> (nat \<Rightarrow> u8) \<Rightarrow> cli_parser \<Rightarrow> bytes \<Rightarrow> nat \<Rightarrow> u8 \<Rightarrow> CLIArgMode \<Rightarrow> CLIArgType
    \<Rightarrow> CLIArgAction \<Rightarrow> bytes option \<Rightarrow> (cli_status \<times> cli_parser) run" where
  "cli_parser_add_arg ok junk p name name_sz short_name mode type action help_text =
    (if mode = CLIArgMode_Positional \<and> action \<noteq> CLIArgAction_Store
     then Some (Inr (CliFail CLIInvalidArgumentAction, p))
     else if \<not> ok 0 then Some (Inr (CliFail CLIMemAllocError, p))
     else
       let name_sz = (if name_sz = 0 then length name else name_sz)
       in if \<not> ok 1 then Some (Inr (CliFail CLIMemAllocError, p))
          else
            run_bind (Some (blk_read (name @ [0]) 0 name_sz)) (\<lambda>copy.
            let arg = \<lparr>ca_flags = cli_arg_flags mode type action, ca_data = DataZero, ca_data_sz = 0,
                  ca_help_text = (case help_text of None \<Rightarrow> None
                    | Some s \<Rightarrow> if ok 2 then Some (s @ [0]) else None),
                  ca_short_name = short_name, ca_name = copy @ [0]\<rparr>;
                h = length (cp_heap p)
            in run_bind (if short_name \<noteq> CLI_NO_SHORT_NAME
                  then hashmap_insert (cp_short_names_map p) [short_name] 1 (ptr_to h) 8
                  else Some (Inr (cp_short_names_map p))) (\<lambda>short_names_map.
               run_bind (if mode = CLIArgMode_Positional
                  then Some (vector_push_back (ok 3) junk (cp_positional_args p) (arg_ptr h))
                  else Some (Inr (cp_positional_args p))) (\<lambda>positional_args.
               run_bind (hashmap_insert (cp_args_map p) (name @ [0]) (of_nat name_sz) (ptr_to h) 8)
                 (\<lambda>args_map. Some (Inr (CliTrue, p\<lparr>cp_args_map := args_map,
                    cp_short_names_map := short_names_map, cp_positional_args := positional_args,
                    cp_heap := cp_heap p @ [arg]\<rparr>)))))))"

definition cli_parser_set_program_info ::
  "(nat \<Rightarrow> bool) \<Rightarrow> cli_parser \<Rightarrow> bytes option \<Rightarrow> bytes option \<Rightarrow> cli_parser" where
  "cli_parser_set_program_info ok p program_name description =
     (let p = (case program_name of None \<Rightarrow> p
                | Some s \<Rightarrow> p\<lparr>cp_program_name := (if ok 0 then Some (s @ [0]) else None)\<rparr>)
      in case description of None \<Rightarrow> p
         | Some s \<Rightarrow> p\<lparr>cp_description := (if ok 1 then Some (s @ [0]) else None)\<rparr>)"

subsection \<open>The help text\<close>

text \<open>\<^verbatim>\<open>%-ns\<close>\<close>

definition pad_right :: "nat \<Rightarrow> bytes \<Rightarrow> bytes" where
  "pad_right n s = s @ replicate (n - length s) (of_char CHR '' '')"

definition positional_at :: "cli_parser \<Rightarrow> nat \<Rightarrow> cli_arg run" where
  "positional_at p i =
     run_bind (Some (vector_at (cp_positional_args p) i)) (\<lambda>off.
     run_bind (Some (blk_read (cp_positional_args p) off 8)) (\<lambda>bs. cli_deref p (ptr_arg bs)))"

text \<open>The concatenation of what is printed for each element of a list.\<close>

fun print_each :: "('a \<Rightarrow> bytes run) \<Rightarrow> 'a list \<Rightarrow> bytes run" where
  "print_each f [] = Some (Inr [])"
| "print_each f (x # xs) =
     run_bind (f x) (\<lambda>s. run_bind (print_each f xs) (\<lambda>t. Some (Inr (s @ t))))"

definition help_option :: "cli_arg \<Rightarrow> bytes" where
  "help_option arg =
     (if CLI_PARG_GET_MODE (ca_flags arg) = mode_val CLIArgMode_Positional then []
      else
        (if ca_short_name arg \<noteq> CLI_NO_SHORT_NAME
         then cstr ''  -'' @ [ca_short_name arg] @ cstr '', --'' @ pad_right 13 (block_str (ca_name arg))
         else cstr ''  --'' @ pad_right 17 (block_str (ca_name arg)))
        @ (case ca_help_text arg of None \<Rightarrow> [] | Some s \<Rightarrow> block_str s) @ [10])"

definition cli_parser_print_help :: "cli_parser \<Rightarrow> bytes run" where
  "cli_parser_print_help p =
    run_bind (Some (vector_size (cp_positional_args p))) (\<lambda>n.
    run_bind (print_each (\<lambda>i. run_bind (positional_at p i)
        (\<lambda>arg. Some (Inr (cstr '' '' @ block_str (ca_name arg))))) [0..<n]) (\<lambda>usage.
    run_bind (if n > 0 then
        run_bind (print_each (\<lambda>i. run_bind (positional_at p i)
          (\<lambda>arg. Some (Inr (cstr ''  '' @ pad_right 20 (block_str (ca_name arg)) @
             (case ca_help_text arg of None \<Rightarrow> [] | Some s \<Rightarrow> block_str s) @ [10])))) [0..<n])
          (\<lambda>s. Some (Inr (cstr ''Positional arguments:'' @ [10] @ s @ [10])))
      else Some (Inr [])) (\<lambda>positional.
    run_bind (iterate_all (cp_args_map p) 0) (\<lambda>es.
    run_bind (print_each (\<lambda>(_, _, v, _). run_bind (cli_deref p (ptr_arg v))
        (\<lambda>arg. Some (Inr (help_option arg)))) es) (\<lambda>options.
      Some (Inr (
        (case cp_program_name p of Some s \<Rightarrow> cstr ''Usage: '' @ block_str s
         | None \<Rightarrow> cstr ''Usage: program'') @ usage @ cstr '' [options]'' @ [10, 10] @
        (case cp_description p of None \<Rightarrow> [] | Some s \<Rightarrow> block_str s @ [10, 10]) @ positional @
        cstr ''Optional arguments:'' @ [10] @
        cstr ''  -h, --help          Show this help message and exit'' @ [10] @ options)))))))"

subsection \<open>Values\<close>

definition cli_parser_validate_argument_type :: "u64 \<Rightarrow> bytes \<Rightarrow> bool" where
  "cli_parser_validate_argument_type type s =
     (if type = type_val CLIArgType_Str then True
      else if type = type_val CLIArgType_Int
      then s \<noteq> [] \<and> (c_digit (hd s) \<or> hd s = of_char CHR ''-'' \<or> hd s = of_char CHR ''+'')
      else if type = type_val CLIArgType_Float
      then s \<noteq> [] \<and> (c_digit (hd s) \<or> hd s = of_char CHR ''-'' \<or> hd s = of_char CHR ''+''
        \<or> hd s = of_char CHR ''.'')
      else if type = type_val CLIArgType_Bool
      then (s \<noteq> [] \<and> (hd s = of_char CHR ''0'' \<or> hd s = of_char CHR ''1''))
        \<or> s = cstr ''true'' \<or> s = cstr ''false'' \<or> s = cstr ''True'' \<or> s = cstr ''False''
      else False)"

definition cli_parser_parse_bool :: "bytes \<Rightarrow> bool" where
  "cli_parser_parse_bool s \<longleftrightarrow> s = cstr ''true'' \<or> s = cstr ''True''"

text \<open>\<^verbatim>\<open>arg->data.i64++\<close>: a read of the member and an assignment to it.\<close>

definition incr_data_i64 :: "cli_data \<Rightarrow> cli_data res" where
  "incr_data_i64 d = res_bind (read_i64 d)
     (\<lambda>w. if sint w = 2 ^ 63 - 1 then Inl SignedOverflow else Inr (DataI64 (w + 1)))"

text \<open>The quotes of a string value: a leading one is skipped, the next one ends the string.\<close>

definition unquote :: "bytes \<Rightarrow> bytes" where
  "unquote s = takeWhile (\<lambda>c. c \<noteq> of_char CHR ''\"'')
     (if s \<noteq> [] \<and> hd s = of_char CHR ''\"'' then tl s else s)"

text \<open>
  The \<^verbatim>\<open>switch\<close> that stores a value, the same for named and positional arguments; \<open>ok\<close>
  is the allocation of the copy of a string.
\<close>

definition cli_store_value ::
  "(bytes \<Rightarrow> u64) \<Rightarrow> bool \<Rightarrow> u64 \<Rightarrow> bytes \<Rightarrow> cli_arg \<Rightarrow> (cli_status \<times> cli_arg) res" where
  "cli_store_value strtod ok type s arg =
     (if type = type_val CLIArgType_Str then
        if \<not> ok then Inr (CliFail CLIMemAllocError, arg\<lparr>ca_data := DataStr None\<rparr>)
        else Inr (CliTrue, arg\<lparr>ca_data := DataStr (Some (unquote s @ [0])), ca_data_sz := length (unquote s)\<rparr>)
      else if type = type_val CLIArgType_Int then
        Inr (CliTrue, arg\<lparr>ca_data := DataI64 (word_of_int (strtoll s)), ca_data_sz := 8\<rparr>)
      else if type = type_val CLIArgType_Float then
        Inr (CliTrue, arg\<lparr>ca_data := DataF64 (strtod s), ca_data_sz := 8\<rparr>)
      else if type = type_val CLIArgType_Bool then
        Inr (CliTrue, arg\<lparr>ca_data := DataB
            (if s \<noteq> [] \<and> c_digit (hd s) then hd s - 48 \<noteq> 0 else cli_parser_parse_bool s), ca_data_sz := 1\<rparr>)
      else Inr (CliFail CLIInvalidArgumentType, arg))"

subsection \<open>Parsing\<close>

definition is_dash :: "u8 \<Rightarrow> bool" where
  "is_dash c \<longleftrightarrow> c = of_char CHR ''-''"

definition is_sep :: "u8 \<Rightarrow> bool" where
  "is_sep c \<longleftrightarrow> c = of_char CHR ''='' \<or> c = of_char CHR '':''"

definition cli_parser_find_arg :: "cli_parser \<Rightarrow> bytes \<Rightarrow> nat option run" where
  "cli_parser_find_arg p arg_str =
     (let num_dashes = length (takeWhile is_dash arg_str);
          arg_name = dropWhile is_dash arg_str
      in if arg_name = [] then Some (Inr None)
         else
           let arg_name_sz = length (takeWhile (\<lambda>c. \<not> is_sep c) arg_name)
           in run_bind (hashmap_get
                 (if num_dashes = 1 then cp_short_names_map p else cp_args_map p)
                 arg_name (of_nat arg_name_sz))
                (\<lambda>arg_ptr. Some (Inr (case arg_ptr of None \<Rightarrow> None | Some (v, _) \<Rightarrow> ptr_arg v))))"

definition set_arg :: "cli_parser \<Rightarrow> nat \<Rightarrow> cli_arg \<Rightarrow> cli_parser" where
  "set_arg p i arg = p\<lparr>cp_heap := (cp_heap p)[i := arg]\<rparr>"

text \<open>The result is the status with the parser and \<^verbatim>\<open>*next_arg_offset\<close>.\<close>

definition cli_parser_parse_named_argument ::
  "(bytes \<Rightarrow> u64) \<Rightarrow> bool \<Rightarrow> cli_parser \<Rightarrow> bytes \<Rightarrow> bytes option \<Rightarrow> (cli_status \<times> cli_parser \<times> nat) run" where
  "cli_parser_parse_named_argument strtod ok p arg_str next_arg =
    (let value_str = dropWhile is_dash arg_str
     in if value_str = [] then Some (Inr (CliFail CLIMalformedArgument, p, 0))
        else
          let value_str = dropWhile (\<lambda>c. \<not> is_sep c) value_str;
              has_value = (value_str \<noteq> []);
              value_str = (if has_value then tl value_str else value_str)
          in run_bind (cli_parser_find_arg p arg_str) (\<lambda>found.
             case found of None \<Rightarrow> Some (Inr (CliFail CLIUnknownArgument, p, 0))
             | Some i \<Rightarrow> run_bind (cli_deref p found) (\<lambda>arg.
               let type = CLI_PARG_GET_TYPE (ca_flags arg); action = CLI_PARG_GET_ACTION (ca_flags arg)
               in if action = action_val CLIArgAction_StoreTrue then
                    Some (Inr (CliTrue, set_arg p i (arg\<lparr>ca_data := DataB True, ca_data_sz := 1\<rparr>), 0))
                  else if action = action_val CLIArgAction_StoreFalse then
                    Some (Inr (CliTrue, set_arg p i (arg\<lparr>ca_data := DataB False, ca_data_sz := 1\<rparr>), 0))
                  else if action = action_val CLIArgAction_Count then
                    run_bind (Some (incr_data_i64 (ca_data arg))) (\<lambda>d.
                      Some (Inr (CliTrue, set_arg p i (arg\<lparr>ca_data := d, ca_data_sz := 8\<rparr>), 0)))
                  else if \<not> has_value \<and> next_arg = None then Some (Inr (CliFail CLIMalformedArgument, p, 0))
                  else
                    let value_str = (if has_value then value_str else the next_arg);
                        offset = (if has_value then 0 else 1)
                    in if value_str = [] then Some (Inr (CliFail CLIMalformedArgument, p, offset))
                       else if \<not> cli_parser_validate_argument_type type value_str
                       then Some (Inr (CliFail CLIInvalidArgumentType, p, offset))
                       else run_bind (Some (cli_store_value strtod ok type value_str arg)) (\<lambda>(st, arg).
                         Some (Inr (st, set_arg p i arg, offset))))))"

definition cli_parser_parse_positional_argument ::
  "(bytes \<Rightarrow> u64) \<Rightarrow> bool \<Rightarrow> cli_parser \<Rightarrow> bytes \<Rightarrow> nat \<Rightarrow> (cli_status \<times> cli_parser) run" where
  "cli_parser_parse_positional_argument strtod ok p arg_str pos_index =
    run_bind (Some (vector_size (cp_positional_args p))) (\<lambda>n.
      if pos_index \<ge> n then Some (Inr (CliFail CLITooManyPositionalArgs, p))
      else
        run_bind (Some (vector_at (cp_positional_args p) pos_index)) (\<lambda>off.
        run_bind (Some (blk_read (cp_positional_args p) off 8)) (\<lambda>bs.
        run_bind (cli_deref p (ptr_arg bs)) (\<lambda>arg.
          let type = CLI_PARG_GET_TYPE (ca_flags arg)
          in if \<not> cli_parser_validate_argument_type type arg_str
             then Some (Inr (CliFail CLIInvalidArgumentType, p))
             else run_bind (Some (cli_store_value strtod ok type arg_str arg)) (\<lambda>(st, arg).
               Some (Inr (st, set_arg p (the (ptr_arg bs)) arg)))))))"

text \<open>
  The loop over the arguments after the program name: the list is what is left of \<^verbatim>\<open>argv\<close>
  from \<^verbatim>\<open>i\<close> on, the number of positional arguments read so far is returned with the status.
  \<open>ok\<close> tells, by the number of strings left, whether the copy of a value is allocated.
\<close>

fun cli_parse_loop ::
  "(bytes \<Rightarrow> u64) \<Rightarrow> (nat \<Rightarrow> bool) \<Rightarrow> cli_parser \<Rightarrow> nat \<Rightarrow> bytes list \<Rightarrow> (cli_status \<times> cli_parser \<times> nat) run" where
  "cli_parse_loop strtod ok p pos_index [] = Some (Inr (CliTrue, p, pos_index))"
| "cli_parse_loop strtod ok p pos_index (s # rest) =
    (if s = cstr ''-h'' \<or> s = cstr ''--help'' then
       run_bind (cli_parser_print_help p) (\<lambda>out. Some (Inr (CliHelp out, p, pos_index)))
     else if s \<noteq> [] \<and> is_dash (hd s) then
       run_bind (cli_parser_parse_named_argument strtod (ok (length rest)) p s
           (case rest of [] \<Rightarrow> None | s' # _ \<Rightarrow> Some s')) (\<lambda>(st, p, offset).
         if st \<noteq> CliTrue then Some (Inr (st, p, pos_index))
         else cli_parse_loop strtod ok p pos_index (drop offset rest))
     else
       run_bind (cli_parser_parse_positional_argument strtod (ok (length rest)) p s pos_index) (\<lambda>(st, p).
         if st \<noteq> CliTrue then Some (Inr (st, p, pos_index))
         else cli_parse_loop strtod ok p (pos_index + 1) rest))"

text \<open>The loop at the end over all arguments, which stops at a required one that has no value.\<close>

partial_function (option) cli_required_loop :: "cli_parser \<Rightarrow> u32 \<Rightarrow> cli_status run" where
  "cli_required_loop p it =
     run_bind (hashmap_iterate (cp_args_map p) it) (\<lambda>r. case r of
       None \<Rightarrow> Some (Inr CliTrue)
     | Some ((_, _, v, _), it') \<Rightarrow> run_bind (cli_deref p (ptr_arg v)) (\<lambda>arg.
         if CLI_PARG_GET_MODE (ca_flags arg) = mode_val CLIArgMode_Named \<and> ca_data_sz arg = 0
         then Some (Inr (CliFail CLIMissingRequiredArg))
         else cli_required_loop p it'))"

definition cli_parser_parse ::
  "(bytes \<Rightarrow> u64) \<Rightarrow> (nat \<Rightarrow> bool) \<Rightarrow> cli_parser \<Rightarrow> bytes list \<Rightarrow> (cli_status \<times> cli_parser) run" where
  "cli_parser_parse strtod ok p argv =
    (let p = (case argv of [] \<Rightarrow> p
        | prog # _ \<Rightarrow> if cp_program_name p = None
            then cli_parser_set_program_info (\<lambda>_. ok (length argv)) p (Some prog) None else p)
     in if length argv = 1 then Some (Inr (CliTrue, p))
        else run_bind (cli_parse_loop strtod ok p 0 (tl argv)) (\<lambda>(st, p, pos_index).
          if st \<noteq> CliTrue then Some (Inr (st, p))
          else run_bind (Some (vector_size (cp_positional_args p))) (\<lambda>n.
            if pos_index < unat (of_nat n - 1 :: u64)
            then Some (Inr (CliFail CLIMissingPositionalArgs, p))
            else run_bind (cli_required_loop p 0) (\<lambda>st. Some (Inr (st, p))))))"

subsection \<open>Results\<close>

text \<open>The lookup all getters start with: \<^verbatim>\<open>NULL\<close>, or the argument.\<close>

definition cli_get :: "cli_parser \<Rightarrow> bytes \<Rightarrow> nat \<Rightarrow> cli_arg option run" where
  "cli_get p name name_sz =
     run_bind (hashmap_get (cp_args_map p) name (of_nat (if name_sz = 0 then length name else name_sz)))
       (\<lambda>r. case r of None \<Rightarrow> Some (Inr None)
          | Some (v, _) \<Rightarrow> run_bind (cli_deref p (ptr_arg v)) (\<lambda>arg. Some (Inr (Some arg))))"

definition cli_parser_has_arg :: "cli_parser \<Rightarrow> bytes \<Rightarrow> nat \<Rightarrow> bool run" where
  "cli_parser_has_arg p name name_sz =
     run_bind (cli_get p name name_sz) (\<lambda>r. case r of None \<Rightarrow> Some (Inr False)
       | Some arg \<Rightarrow> Some (Inr (ca_data_sz arg > 0)))"

text \<open>
  The typed getters return the address of a member of the union or \<^verbatim>\<open>NULL\<close> (\<open>None\<close>): the
  result here is what the caller reads through it.
\<close>

definition cli_parser_arg_get_i64 :: "cli_parser \<Rightarrow> bytes \<Rightarrow> nat \<Rightarrow> int option run" where
  "cli_parser_arg_get_i64 p name name_sz =
     run_bind (cli_get p name name_sz) (\<lambda>r. case r of None \<Rightarrow> Some (Inr None)
       | Some arg \<Rightarrow>
           if CLI_PARG_GET_TYPE (ca_flags arg) \<noteq> type_val CLIArgType_Int then Some (Inr None)
           else Some (res_bind (read_i64 (ca_data arg)) (\<lambda>w. Inr (Some (sint w)))))"

definition cli_parser_arg_get_f64 :: "cli_parser \<Rightarrow> bytes \<Rightarrow> nat \<Rightarrow> u64 option run" where
  "cli_parser_arg_get_f64 p name name_sz =
     run_bind (cli_get p name name_sz) (\<lambda>r. case r of None \<Rightarrow> Some (Inr None)
       | Some arg \<Rightarrow>
           if CLI_PARG_GET_TYPE (ca_flags arg) \<noteq> type_val CLIArgType_Float then Some (Inr None)
           else Some (res_bind (read_f64 (ca_data arg)) (\<lambda>w. Inr (Some w))))"

text \<open>
  The string getter returns the pointer itself (\<open>None\<close> for \<^verbatim>\<open>NULL\<close>), here with the value
  written to \<^verbatim>\<open>*str_sz\<close>: \<open>None\<close> when nothing is written there.
\<close>

definition cli_parser_arg_get_str :: "cli_parser \<Rightarrow> bytes \<Rightarrow> nat \<Rightarrow> (bytes option \<times> nat option) run" where
  "cli_parser_arg_get_str p name name_sz =
     run_bind (cli_get p name name_sz) (\<lambda>r. case r of None \<Rightarrow> Some (Inr (None, None))
       | Some arg \<Rightarrow>
           if CLI_PARG_GET_TYPE (ca_flags arg) \<noteq> type_val CLIArgType_Str then Some (Inr (None, None))
           else Some (res_bind (read_str (ca_data arg)) (\<lambda>s. Inr (s, Some (ca_data_sz arg)))))"

definition cli_parser_arg_get_bool :: "cli_parser \<Rightarrow> bytes \<Rightarrow> nat \<Rightarrow> bool option run" where
  "cli_parser_arg_get_bool p name name_sz =
     run_bind (cli_get p name name_sz) (\<lambda>r. case r of None \<Rightarrow> Some (Inr None)
       | Some arg \<Rightarrow>
           if CLI_PARG_GET_TYPE (ca_flags arg) \<noteq> type_val CLIArgType_Bool then Some (Inr None)
           else Some (res_bind (read_b (ca_data arg)) (\<lambda>b. Inr (Some b))))"

text \<open>
  The arguments that \<^verbatim>\<open>cli_parser_release\<close> frees, in order. It takes the union of every
  argument of the string type for a pointer and frees it when it is not \<^verbatim>\<open>NULL\<close>: the bytes of
  another member that are not all zero are a pointer that no allocation returned.
\<close>

definition bad_string :: "cli_data \<Rightarrow> bool" where
  "bad_string d = (case d of DataI64 w \<Rightarrow> w \<noteq> 0 | DataF64 w \<Rightarrow> w \<noteq> 0 | DataB b \<Rightarrow> b | _ \<Rightarrow> False)"

fun cli_release_args :: "cli_parser \<Rightarrow> (bytes \<times> u32 \<times> bytes \<times> u32) list \<Rightarrow> nat list run" where
  "cli_release_args p [] = Some (Inr [])"
| "cli_release_args p ((_, _, v, _) # es) =
     run_bind (cli_deref p (ptr_arg v)) (\<lambda>arg.
       if CLI_PARG_GET_TYPE (ca_flags arg) = type_val CLIArgType_Str \<and> bad_string (ca_data arg)
       then Some (Inl BadFree)
       else run_bind (cli_release_args p es) (\<lambda>hs. Some (Inr (the (ptr_arg v) # hs))))"

definition cli_parser_release :: "cli_parser \<Rightarrow> nat list run" where
  "cli_parser_release p =
     run_bind (iterate_all (cp_args_map p) 0) (\<lambda>es. cli_release_args p es)"

end
