(* ===== verification/HashMapClean.thy ===== *)
theory HashMapClean
  imports HashMapSpec
begin

text \<open>
  What a lookup with a key of size 0 finds. Such a key is equal to every empty slot with the same hash,
  so the answer depends on what empty slots hold: they are all zero in every map that the
  constructor and insertions with keys of size 1 or more make, and then the answer is
  \<^verbatim>\<open>NULL\<close> or the eight zero bytes of an empty slot.
\<close>

definition clean :: "bucket list \<Rightarrow> bool" where
  "clean bs \<longleftrightarrow> (\<forall>b \<in> set bs. bucket_is_empty b \<longrightarrow> b = bucket_zero)"

lemma clean_update: "clean bs \<Longrightarrow> occ e \<Longrightarrow> clean (bs[i := e])"
  by (auto simp: clean_def dest!: set_update_subset_insert [THEN subsetD])

lemma clean_replicate [simp]: "clean (replicate n bucket_zero)"
  by (simp add: clean_def)

text \<open>The loop stores occupied buckets only.\<close>

lemma robin_hood_clean:
  assumes "robin_hood_loop cmp limit capacity bs e index = Some (Inr (r, bs'))" "clean bs" "occ e"
  shows "clean bs' \<and> (\<forall>e'. r = Displaced e' \<longrightarrow> occ e')"
proof -
  let ?P = "\<lambda>cmp limit capacity bs e index (x :: ub + (probe_result \<times> bucket list)).
    clean bs \<longrightarrow> occ e \<longrightarrow> (\<forall>r bs'. x = Inr (r, bs') \<longrightarrow> clean bs' \<and> (\<forall>e'. r = Displaced e' \<longrightarrow> occ e'))"
  have "?P cmp limit capacity bs e index (Inr (r, bs'))"
  proof (rule robin_hood_loop.raw_induct [where P = ?P, OF _ assms(1)])
    fix loop cmp limit capacity bs e index and x :: "ub + (probe_result \<times> bucket list)"
    assume IH: "\<And>cmp limit capacity bs e index x. loop cmp limit capacity bs e index = Some x \<Longrightarrow> ?P cmp limit capacity bs e index x"
      and step: "(if \<not> unat index < length bs then Some (Inl OutOfBounds)
        else let bucket = bs ! unat index in
          if \<not> bucket_is_empty bucket then
            if cmp e bucket then Some (Inr (Found, bs))
            else let swap = b_probe_length e > b_probe_length bucket;
                bs = (if swap then bs[unat index := e] else bs);
                e = (if swap then bucket else e);
                index = (index + 1) AND (capacity - 1);
                e = e\<lparr>b_probe_length := b_probe_length e + 1\<rparr>
              in if limit \<noteq> None \<and> (ucast (b_probe_length e) :: u32) \<ge> the limit
                 then Some (Inr (Displaced e, bs)) else loop cmp limit capacity bs e index
          else Some (Inr (Stored, bs[unat index := e]))) = Some x"
    show "?P cmp limit capacity bs e index x"
    proof (intro impI)
      assume c: "clean bs" "occ e"
      let ?b = "bs ! unat index"
      define bs1 where "bs1 = (if b_probe_length e > b_probe_length ?b then bs[unat index := e] else bs)"
      define h where "h = (if b_probe_length e > b_probe_length ?b then ?b else e)"
      define e1 where "e1 = h\<lparr>b_probe_length := b_probe_length h + 1\<rparr>"
      have c1: "clean bs1" using c by (simp add: bs1_def clean_update)
      show "\<forall>r bs'. x = Inr (r, bs') \<longrightarrow> clean bs' \<and> (\<forall>e'. r = Displaced e' \<longrightarrow> occ e')"
      proof (cases "unat index < length bs \<and> occ ?b \<and> \<not> cmp e ?b")
        case True
        then have o1: "occ e1" using c(2) by (simp add: e1_def h_def)
        have "(if limit \<noteq> None \<and> (ucast (b_probe_length e1) :: u32) \<ge> the limit
            then Some (Inr (Displaced e1, bs1)) else loop cmp limit capacity bs1 e1 ((index + 1) AND (capacity - 1))) = Some x"
          using step True by (simp add: Let_def bs1_def h_def e1_def split del: if_split cong: if_cong)
        then show ?thesis using IH c1 o1 by (auto split: if_splits)
      next
        case False
        then show ?thesis using step c by (auto simp: Let_def clean_update split: if_splits)
      qed
    qed
  qed
  then show ?thesis using assms(2,3) by blast
qed

lemma move_all_clean:
  "hashmap_move_all m bs rehash = Some (Inr m') \<Longrightarrow> clean (hm_buckets m) \<Longrightarrow> clean (hm_buckets m')"
proof (induction bs arbitrary: m)
  case (Cons b bs)
  show ?case
  proof (cases "bucket_is_empty b")
    case False
    then obtain m1 where m1: "hashmap_move_entry m b rehash = Some (Inr m1)" "hashmap_move_all m1 bs rehash = Some (Inr m')"
      using Cons.prems(1) by (auto simp: run_bind_Inr_iff)
    have "clean (hm_buckets m1)"
      using m1(1) robin_hood_clean [OF _ Cons.prems(2)] False
      by (auto simp: hashmap_move_entry_def Let_def run_bind_Inr_iff bucket_set_probe_length_def bucket_set_hash_def
          split: if_splits)
    then show ?thesis using Cons.IH m1(2) by blast
  qed (use Cons in simp)
qed simp

lemma grow_clean: "hashmap_grow m capacity rehash rnd = Some (Inr m') \<Longrightarrow> clean (hm_buckets m')"
  unfolding hashmap_grow_def Let_def by (erule move_all_clean) simp

lemma check_load_clean: "hashmap_check_load m = Some (Inr m') \<Longrightarrow> clean (hm_buckets m) \<Longrightarrow> clean (hm_buckets m')"
  using grow_clean by (auto simp: hashmap_check_load_def split: if_splits)

lemma new_clean: "hashmap_new ok uninit rnd capacity = Some (Inr (Some m)) \<Longrightarrow> clean (hm_buckets m)"
  using grow_clean by (auto simp: hashmap_new_def Let_def run_bind_Inr_iff split: if_splits)

lemma insert_bucket_clean:
  assumes "hashmap_insert_bucket m e = Some (Inr m')" "clean (hm_buckets m)" "occ e"
  shows "clean (hm_buckets m')"
proof -
  let ?P = "\<lambda>m e (x :: ub + hashmap). clean (hm_buckets m) \<longrightarrow> occ e \<longrightarrow> (\<forall>m'. x = Inr m' \<longrightarrow> clean (hm_buckets m'))"
  have "?P m e (Inr m')"
  proof (rule hashmap_insert_bucket.raw_induct [where P = ?P, OF _ assms(1)])
    fix loop m e and x :: "ub + hashmap"
    let ?h = "\<lambda>m. hashmap_hash m (bucket_get_key e) (ucast (bucket_get_key_size e))"
    let ?e = "\<lambda>m. bucket_set_probe_length (bucket_set_hash e (?h m)) 0"
    assume IH: "\<And>m e x. loop m e = Some x \<Longrightarrow> ?P m e x"
      and step: "run_bind (hashmap_check_load m) (\<lambda>m.
        let hash = hashmap_hash m (bucket_get_key e) (ucast (bucket_get_key_size e));
            entry = bucket_set_probe_length (bucket_set_hash e hash) 0; index = hashmap_index m hash
        in run_bind (robin_hood_loop (\<lambda>e b. bucket_compare_key b (bucket_get_key e) (bucket_get_key_size e) hash)
              (Some (hm_max_probes m)) (hm_capacity m) (hm_buckets m) entry index)
           (\<lambda>(r, bs). case r of
              Stored \<Rightarrow> Some (Inr (m\<lparr>hm_buckets := bs, hm_size := hm_size m + 1\<rparr>))
            | Found \<Rightarrow> Some (Inr (m\<lparr>hm_buckets := bs\<rparr>))
            | Displaced e \<Rightarrow> run_bind (hashmap_grow (m\<lparr>hm_buckets := bs\<rparr>) (hashmap_get_new_capacity m) False 0)
                (\<lambda>m. loop m e))) = Some x"
    show "?P m e x"
    proof (intro impI allI)
      fix m' assume c: "clean (hm_buckets m)" "occ e" and x: "x = Inr m'"
      have oe: "occ (?e m1)" for m1 using c(2) by (simp add: bucket_set_probe_length_def bucket_set_hash_def)
      obtain m1 r bs where m1: "hashmap_check_load m = Some (Inr m1)"
          "robin_hood_loop (\<lambda>e b. bucket_compare_key b (bucket_get_key e) (bucket_get_key_size e) (?h m1))
              (Some (hm_max_probes m1)) (hm_capacity m1) (hm_buckets m1) (?e m1) (hashmap_index m1 (?h m1)) = Some (Inr (r, bs))"
        and rest: "(case r of
              Stored \<Rightarrow> Some (Inr (m1\<lparr>hm_buckets := bs, hm_size := hm_size m1 + 1\<rparr>))
            | Found \<Rightarrow> Some (Inr (m1\<lparr>hm_buckets := bs\<rparr>))
            | Displaced e \<Rightarrow> run_bind (hashmap_grow (m1\<lparr>hm_buckets := bs\<rparr>) (hashmap_get_new_capacity m1) False 0)
                (\<lambda>m. loop m e)) = Some (Inr m')"
        using step x by (auto simp: run_bind_Inr_iff Let_def)
      have d: "clean bs" "\<And>e'. r = Displaced e' \<Longrightarrow> occ e'"
        using robin_hood_clean [OF m1(2) check_load_clean [OF m1(1) c(1)] oe] by blast+
      show "clean (hm_buckets m')"
      proof (cases r)
        case (Displaced e')
        then obtain m2 where "hashmap_grow (m1\<lparr>hm_buckets := bs\<rparr>) (hashmap_get_new_capacity m1) False 0 = Some (Inr m2)"
            "loop m2 e' = Some (Inr m')"
          using rest by (auto simp: run_bind_Inr_iff)
        then show ?thesis using IH [of m2 e' "Inr m'"] grow_clean d(2) [OF Displaced] by blast
      qed (use rest d(1) in auto)
    qed
  qed
  then show ?thesis using assms(2,3) by blast
qed

lemma insert_clean:
  assumes run: "hashmap_insert m key n v vn = Some (Inr m')" and m: "clean (hm_buckets m)"
    and n: "0 < n" "unat n \<le> length key"
  shows "clean (hm_buckets m')"
proof -
  let ?h = "\<lambda>m. hashmap_hash m key (ucast n)"
  obtain m1 r bs where m1: "hashmap_check_load m = Some (Inr m1)"
      "robin_hood_loop (\<lambda>e b. bucket_compare_key b key n (?h m1)) (Some (hm_max_probes m1)) (hm_capacity m1) (hm_buckets m1)
         (bucket_new key n v vn (?h m1) 0) (hashmap_index m1 (?h m1)) = Some (Inr (r, bs))"
    and rest: "(case r of
          Stored \<Rightarrow> Some (Inr (m1\<lparr>hm_buckets := bs, hm_size := hm_size m1 + 1\<rparr>))
        | Found \<Rightarrow> Some (Inr (m1\<lparr>hm_buckets := bs\<rparr>))
        | Displaced e \<Rightarrow> run_bind (hashmap_grow (m1\<lparr>hm_buckets := bs\<rparr>) (hashmap_get_new_capacity m1) False 0)
            (\<lambda>m. hashmap_insert_bucket m e)) = Some (Inr m')"
    using run by (auto simp: hashmap_insert_def run_bind_Inr_iff Let_def)
  have "occ (bucket_new key n v vn (?h m1) 0)" using n by (simp add: bucket_is_empty_def bucket_new_size)
  from robin_hood_clean [OF m1(2) check_load_clean [OF m1(1) m] this]
  have d: "clean bs" "\<And>e'. r = Displaced e' \<Longrightarrow> occ e'" by blast+
  show ?thesis
  proof (cases r)
    case (Displaced e)
    then obtain m2 where "hashmap_grow (m1\<lparr>hm_buckets := bs\<rparr>) (hashmap_get_new_capacity m1) False 0 = Some (Inr m2)"
        "hashmap_insert_bucket m2 e = Some (Inr m')"
      using rest by (auto simp: run_bind_Inr_iff)
    then show ?thesis using insert_bucket_clean grow_clean d(2) [OF Displaced] by blast
  qed (use rest d(1) in auto)
qed

text \<open>A lookup with size 0 ends at the first empty slot of its walk at the latest.\<close>

lemma get_size_zero:
  assumes m: "hm_inv m" and c: "clean (hm_buckets m)"
  shows "\<exists>r. hashmap_get m key 0 = Some (Inr r) \<and> (r = None \<or> r = Some (replicate 8 0, 0))"
proof -
  obtain k where ok: "hm_ok k m" using m by (auto simp: hm_inv_def)
  let ?bs = "hm_buckets m"
  define h where "h = hashmap_hash m key 0"
  have no: "\<not> bucket_compare_key b key 0 h" if "occ b" for b
    using that by (simp add: bucket_compare_key_def bucket_is_empty_def)
  have "unat index < length ?bs \<Longrightarrow> free_at ?bs (unat index) d \<Longrightarrow>
    \<exists>r. hashmap_get_loop m key 0 h index p = Some (Inr r) \<and> (r = None \<or> r = Some (replicate 8 0, 0))" for index p d
  proof (induction d arbitrary: index p)
    case 0
    then have "?bs ! unat index = bucket_zero" using c by (simp add: clean_def)
    then show ?case
      using 0 by (subst hashmap_get_loop.simps)
        (simp add: Let_def bucket_get_value_def bucket_get_value_size_def, simp add: bucket_zero_def)
  next
    case (Suc d index p)
    have step: "unat ((index + 1) AND (hm_capacity m - 1)) = nxt (length ?bs) (unat index)"
      using unat_next_index [OF hm_okD(2) [OF ok], of index] hm_okD(3,4) [OF ok] by simp
    moreover have "nxt (length ?bs) (unat index) < length ?bs"
      using Suc(2) by (intro nxt_less) linarith
    ultimately have "\<exists>r. hashmap_get_loop m key 0 h ((index + 1) AND (hm_capacity m - 1)) (p + 1) = Some (Inr r) \<and>
        (r = None \<or> r = Some (replicate 8 0, 0))"
      using Suc(1) free_at_Suc [OF Suc(3)] by simp
    then show ?case
      using no [OF free_at_occ [OF Suc(3,2)]] Suc(2) by (subst hashmap_get_loop.simps) (simp add: Let_def)
  qed
  moreover have "unat (hashmap_index m h) < length ?bs"
    using unat_hashmap_index [OF hm_okD(3,2) [OF ok], of h] hm_okD(4) [OF ok] by simp
  ultimately show ?thesis
    using free_at_exists [OF size_less_length [OF ok]] by (simp add: hashmap_get_def Let_def h_def) blast
qed

end
