(* ===== verification/CliSpec.thy ===== *)
theory CliSpec
  imports Cli Fmt HashMapClean
begin

text \<open>
  The command line parser against its abstract state: two finite maps from names to arguments and
  the list of the positional ones. Every operation returns without undefined behaviour and keeps
  the relation; the values that are stored are the ones that were given.
\<close>

subsection \<open>Flags\<close>

lemma flags_pack:
  "CLI_PARG_GET_MODE (cli_arg_flags m t a) = mode_val m"
  "CLI_PARG_GET_TYPE (cli_arg_flags m t a) = type_val t"
  "CLI_PARG_GET_ACTION (cli_arg_flags m t a) = action_val a"
  by (cases m; cases t; cases a; simp add: cli_arg_flags_def CLI_PARG_GET_MODE_def CLI_PARG_SET_MODE_def
      CLI_PARG_GET_TYPE_def CLI_PARG_SET_TYPE_def CLI_PARG_GET_ACTION_def CLI_PARG_SET_ACTION_def)+

lemma val_inject [simp]:
  "mode_val m = mode_val m' \<longleftrightarrow> m = m'" "type_val t = type_val t' \<longleftrightarrow> t = t'"
  "action_val a = action_val a' \<longleftrightarrow> a = a'"
  by ((cases m; cases m'; simp), (cases t; cases t'; simp), (cases a; cases a'; simp))

text \<open>Two bits have four values, so the \<^verbatim>\<open>default\<close> branches are dead code.\<close>

lemma get_type_cases: "\<exists>t. CLI_PARG_GET_TYPE flags = type_val t"
proof -
  have "unat (CLI_PARG_GET_TYPE flags) < 4"
    using unat_and_mask [of 2 "drop_bit 2 flags"] by (simp add: CLI_PARG_GET_TYPE_def)
  then have "unat (CLI_PARG_GET_TYPE flags) \<in> {0, 1, 2, 3}" by auto
  then have "CLI_PARG_GET_TYPE flags \<in> {0, 1, 2, 3}"
    by (auto simp: word_unat_eq_iff)
  then have "CLI_PARG_GET_TYPE flags \<in> {type_val CLIArgType_Str, type_val CLIArgType_Int,
      type_val CLIArgType_Float, type_val CLIArgType_Bool}" by simp
  then show ?thesis by blast
qed

text \<open>The type of an argument.\<close>

fun arg_type_of :: "u64 \<Rightarrow> CLIArgType" where
  "arg_type_of t = (if t = type_val CLIArgType_Str then CLIArgType_Str
     else if t = type_val CLIArgType_Int then CLIArgType_Int
     else if t = type_val CLIArgType_Float then CLIArgType_Float else CLIArgType_Bool)"

definition arg_type :: "cli_arg \<Rightarrow> CLIArgType" where
  "arg_type arg = arg_type_of (CLI_PARG_GET_TYPE (ca_flags arg))"

lemma arg_type_val: "CLI_PARG_GET_TYPE (ca_flags arg) = type_val (arg_type arg)"
proof -
  obtain t where "CLI_PARG_GET_TYPE (ca_flags arg) = type_val t" using get_type_cases by blast
  then show ?thesis by (cases t) (simp_all add: arg_type_def)
qed

lemma arg_type_flags: "ca_flags a = ca_flags b \<Longrightarrow> arg_type a = arg_type b"
  by (simp add: arg_type_def)

subsection \<open>The abstract state\<close>

definition ptr_entry :: "nat \<Rightarrow> bytes \<times> u32" where
  "ptr_entry i = (arg_ptr i, 8)"

definition stores_value :: "cli_arg \<Rightarrow> bool" where
  "stores_value arg \<longleftrightarrow> CLI_PARG_GET_ACTION (ca_flags arg)
     \<notin> {action_val CLIArgAction_StoreTrue, action_val CLIArgAction_StoreFalse, action_val CLIArgAction_Count}"

text \<open>
  The members of the union: the one that was written, the one that the getter of a type reads, and the
  one that the action of an argument writes.
\<close>

datatype cli_member = MemI64 | MemF64 | MemB | MemStr

fun data_member :: "cli_data \<Rightarrow> cli_member option" where
  "data_member DataZero = None"
| "data_member (DataI64 _) = Some MemI64"
| "data_member (DataF64 _) = Some MemF64"
| "data_member (DataB _) = Some MemB"
| "data_member (DataStr _) = Some MemStr"

fun type_member :: "CLIArgType \<Rightarrow> cli_member" where
  "type_member CLIArgType_Str = MemStr"
| "type_member CLIArgType_Int = MemI64"
| "type_member CLIArgType_Float = MemF64"
| "type_member CLIArgType_Bool = MemB"

definition arg_member :: "cli_arg \<Rightarrow> cli_member" where
  "arg_member arg =
     (if CLI_PARG_GET_ACTION (ca_flags arg) \<in> {action_val CLIArgAction_StoreTrue, action_val CLIArgAction_StoreFalse} then MemB
      else if CLI_PARG_GET_ACTION (ca_flags arg) = action_val CLIArgAction_Count then MemI64
      else type_member (arg_type arg))"

lemma arg_member_stores: "stores_value arg \<Longrightarrow> arg_member arg = type_member (arg_type arg)"
  by (simp add: arg_member_def stores_value_def del: action_val.simps)

lemma arg_member_flags: "ca_flags a = ca_flags b \<Longrightarrow> arg_member a = arg_member b"
  by (simp add: arg_member_def arg_type_def)

text \<open>
  The union is zero, with size 0, or holds the member that the action writes; a string has its
  terminator and the size of the argument.
\<close>

definition arg_ok :: "cli_arg \<Rightarrow> bool" where
  "arg_ok arg \<longleftrightarrow> (case data_member (ca_data arg) of None \<Rightarrow> ca_data_sz arg = 0 | Some m \<Rightarrow> m = arg_member arg) \<and>
     (\<forall>s. ca_data arg = DataStr (Some s) \<longrightarrow> (\<exists>t. s = t @ [0] \<and> length t = ca_data_sz arg))"

definition cli_at :: "cli_parser \<Rightarrow> (bytes \<rightharpoonup> nat) \<Rightarrow> (bytes \<rightharpoonup> nat) \<Rightarrow> nat list \<Rightarrow> bool" where
  "cli_at p N S P \<longleftrightarrow>
     hm_inv (cp_args_map p) \<and> hm_view (cp_args_map p) = map_option ptr_entry \<circ> N \<and>
     hm_inv (cp_short_names_map p) \<and> hm_view (cp_short_names_map p) = map_option ptr_entry \<circ> S \<and>
     (\<exists>cap. vec_at (cp_positional_args p) cap 8 (map arg_ptr P) \<and> 0 < cap) \<and>
     clean (hm_buckets (cp_args_map p)) \<and> clean (hm_buckets (cp_short_names_map p)) \<and>
     ran N \<union> ran S \<union> set P \<subseteq> {..<length (cp_heap p)} \<and> length (cp_heap p) < 2 ^ 32 \<and>
     distinct P \<and> (\<forall>i \<in> set P. stores_value (cp_heap p ! i)) \<and> (\<forall>arg \<in> set (cp_heap p). arg_ok arg)"

lemma cli_atD:
  assumes "cli_at p N S P"
  shows "hm_inv (cp_args_map p)" "hm_view (cp_args_map p) = map_option ptr_entry \<circ> N"
    "hm_inv (cp_short_names_map p)" "hm_view (cp_short_names_map p) = map_option ptr_entry \<circ> S"
    "\<exists>cap. vec_at (cp_positional_args p) cap 8 (map arg_ptr P) \<and> 0 < cap"
    "N k = Some i \<Longrightarrow> i < length (cp_heap p)" "S k = Some i \<Longrightarrow> i < length (cp_heap p)"
    "i \<in> set P \<Longrightarrow> i < length (cp_heap p)" "length (cp_heap p) < 2 ^ 32" "distinct P"
    "i < length (cp_heap p) \<Longrightarrow> arg_ok (cp_heap p ! i)" "i \<in> set P \<Longrightarrow> stores_value (cp_heap p ! i)"
    "clean (hm_buckets (cp_args_map p))" "clean (hm_buckets (cp_short_names_map p))"
  using assms by (auto simp: cli_at_def dest: ranI)

lemma length_arg_ptr [simp]: "length (arg_ptr i) = 8"
  by (simp add: arg_ptr_def)

lemma ptr_arg_ptr: "i < 2 ^ 32 \<Longrightarrow> ptr_arg (arg_ptr i) = Some i"
  by (simp add: ptr_arg_def arg_ptr_def unat_of_nat_u64 del: of_nat_Suc)

lemma stored_ptr: "stored_value (ptr_to i) 8 = arg_ptr i"
  by (simp add: stored_value_def ptr_to_def)

subsection \<open>Lookups\<close>

definition cli_names :: "(bytes \<rightharpoonup> nat) \<Rightarrow> (bytes \<rightharpoonup> nat) \<Rightarrow> bytes \<Rightarrow> bytes \<rightharpoonup> nat" where
  "cli_names N S s = (if length (takeWhile is_dash s) = 1 then S else N)"

definition arg_name :: "bytes \<Rightarrow> bytes" where
  "arg_name s = takeWhile (\<lambda>c. \<not> is_sep c) (dropWhile is_dash s)"

lemma take_length_takeWhile: "take (length (takeWhile P xs)) xs = takeWhile P xs"
  by (induction xs) auto

lemma length_takeWhile_bound: "length (takeWhile P xs) \<le> length xs"
  by (induction xs) auto

lemma unat_key_size: "n < 2 ^ 32 \<Longrightarrow> unat (of_nat n :: u32) = n"
  by (simp add: unat_of_nat take_bit_nat_eq_self)

lemma map_get:
  assumes "hm_inv m" "hm_view m = map_option ptr_entry \<circ> M" "take n key = k" "k \<noteq> []" "n \<le> length key" "n < 2 ^ 32"
  shows "hashmap_get m key (of_nat n) = Some (Inr (map_option ptr_entry (M k)))"
proof -
  have "0 < n" using assms by (cases n) auto
  then have "0 < (of_nat n :: u32)" using assms(6) by (simp add: word_less_nat_alt unat_key_size)
  then show ?thesis
    using hashmap_get_spec [of m "of_nat n" key] assms by (simp add: unat_key_size)
qed

lemma find_arg_at:
  assumes at: "cli_at p N S P" and s: "arg_name s \<noteq> []" "length (arg_name s) < 2 ^ 32"
  shows "cli_parser_find_arg p s = Some (Inr (cli_names N S s (arg_name s)))"
proof -
  let ?r = "dropWhile is_dash s"
  let ?n = "length (takeWhile (\<lambda>c. \<not> is_sep c) ?r)"
  have "?r \<noteq> []" using s(1) by (auto simp: arg_name_def simp del: dropWhile_eq_Nil_conv)
  with s have r: "?r \<noteq> []" "take ?n ?r = arg_name s" "?n \<le> length ?r" "?n < 2 ^ 32"
    by (simp_all add: arg_name_def take_length_takeWhile length_takeWhile_bound)
  have "hashmap_get (if length (takeWhile is_dash s) = 1 then cp_short_names_map p else cp_args_map p) ?r (of_nat ?n)
    = Some (Inr (map_option ptr_entry (cli_names N S s (arg_name s))))"
    using map_get [OF cli_atD(1,2) [OF at] r(2) s(1) r(3,4)] map_get [OF cli_atD(3,4) [OF at] r(2) s(1) r(3,4)]
    by (simp add: cli_names_def)
  moreover have "cli_names N S s k = Some i \<Longrightarrow> i < 2 ^ 32" for k i
    using cli_atD(6,7,9) [OF at] by (fastforce simp: cli_names_def split: if_splits)
  ultimately show ?thesis
    using r(1) by (auto simp: cli_parser_find_arg_def Let_def ptr_entry_def ptr_arg_ptr split: option.split)
qed

text \<open>
  The lookup of any string is safe: the size of the name is cut to 32 bits, and with the size 0 the
  pointer that comes back is \<^verbatim>\<open>NULL\<close>.
\<close>

lemma map_get_any:
  assumes m: "hm_inv m" "hm_view m = map_option ptr_entry \<circ> M" "clean (hm_buckets m)" and n: "n \<le> length key"
  shows "\<exists>r. hashmap_get m key (of_nat n) = Some (Inr r) \<and>
    (r = None \<or> r = Some (replicate 8 0, 0) \<or> (\<exists>k i. M k = Some i \<and> r = Some (ptr_entry i)))"
proof (cases "(of_nat n :: u32) = 0")
  case True
  then show ?thesis using get_size_zero [OF m(1,3), of key] by auto
next
  case False
  then have "0 < (of_nat n :: u32)" by (simp add: word_neq_0_conv)
  moreover have "unat (of_nat n :: u32) \<le> n" by (simp add: unat_of_nat take_bit_nat_less_eq_self)
  then have "unat (of_nat n :: u32) \<le> length key" using n by simp
  ultimately show ?thesis using hashmap_get_spec [OF m(1), of "of_nat n" key] by (auto simp: m(2))
qed

lemma ptr_arg_zero: "ptr_arg (replicate 8 0) = None"
  by code_simp

lemma find_arg_any:
  assumes at: "cli_at p N S P"
  shows "\<exists>r. cli_parser_find_arg p s = Some (Inr r) \<and> (\<forall>i. r = Some i \<longrightarrow> i < length (cp_heap p))"
proof (cases "dropWhile is_dash s = []")
  case True
  then show ?thesis by (simp add: cli_parser_find_arg_def Let_def del: dropWhile_eq_Nil_conv)
next
  case False
  let ?r = "dropWhile is_dash s"
  let ?n = "length (takeWhile (\<lambda>c. \<not> is_sep c) ?r)"
  let ?m = "if length (takeWhile is_dash s) = 1 then cp_short_names_map p else cp_args_map p"
  let ?M = "if length (takeWhile is_dash s) = 1 then S else N"
  have b: "?M k = Some i \<Longrightarrow> i < length (cp_heap p)" for k i using cli_atD(6,7) [OF at] by (auto split: if_splits)
  have "hm_inv ?m" "hm_view ?m = map_option ptr_entry \<circ> ?M" "clean (hm_buckets ?m)"
    using cli_atD(1-4,13,14) [OF at] by simp_all
  from map_get_any [OF this length_takeWhile_bound]
  obtain x where x: "hashmap_get ?m ?r (of_nat ?n) = Some (Inr x)"
      "x = None \<or> x = Some (replicate 8 0, 0) \<or> (\<exists>k i. ?M k = Some i \<and> x = Some (ptr_entry i))"
    by blast
  have "\<forall>i. (case x of None \<Rightarrow> None | Some (v, _) \<Rightarrow> ptr_arg v) = Some i \<longrightarrow> i < length (cp_heap p)"
  proof (intro allI impI)
    fix i assume i: "(case x of None \<Rightarrow> None | Some (v, _) \<Rightarrow> ptr_arg v) = Some i"
    from x(2) consider "x = None" | "x = Some (replicate 8 0, 0)" | (entry) k j where "?M k = Some j" "x = Some (ptr_entry j)"
      by blast
    then show "i < length (cp_heap p)"
    proof cases
      case entry
      then have "j < length (cp_heap p)" "j < 2 ^ 32" using b [OF entry(1)] cli_atD(9) [OF at] by simp_all
      then show ?thesis using i entry(2) by (simp add: ptr_entry_def ptr_arg_ptr)
    qed (use i ptr_arg_zero in simp_all)
  qed
  then show ?thesis using x(1) False
    by (simp add: cli_parser_find_arg_def Let_def del: dropWhile_eq_Nil_conv)
qed

text \<open>Dashes without a name after them find nothing.\<close>

lemma find_arg_nameless:
  assumes at: "cli_at p N S P" and s: "arg_name s = []"
  shows "cli_parser_find_arg p s = Some (Inr None)"
proof -
  let ?m = "if length (takeWhile is_dash s) = 1 then cp_short_names_map p else cp_args_map p"
  have n: "length (takeWhile (\<lambda>c. \<not> is_sep c) (dropWhile is_dash s)) = 0" using s by (simp only: arg_name_def list.size)
  have "hm_inv ?m" "clean (hm_buckets ?m)" using cli_atD(1,3,13,14) [OF at] by simp_all
  then obtain r where "hashmap_get ?m (dropWhile is_dash s) 0 = Some (Inr r)" "r = None \<or> r = Some (replicate 8 0, 0)"
    using get_size_zero by blast
  then show ?thesis
    unfolding cli_parser_find_arg_def Let_def n using ptr_arg_zero by (auto simp del: dropWhile_eq_Nil_conv)
qed

lemma named_nameless:
  assumes at: "cli_at p N S P" and s: "arg_name s = []"
  shows "cli_parser_parse_named_argument strtod ok p s following =
    Some (Inr (CliFail (if dropWhile is_dash s = [] then CLIMalformedArgument else CLIUnknownArgument), p, 0))"
  using find_arg_nameless [OF assms]
  by (cases "dropWhile is_dash s = []")
    (simp_all add: cli_parser_parse_named_argument_def Let_def del: dropWhile_eq_Nil_conv)

lemma names_bound:
  assumes "cli_at p N S P" "cli_names N S s k = Some i" shows "i < length (cp_heap p)"
  using assms cli_atD(6,7) [OF assms(1)] by (auto simp: cli_names_def split: if_splits)

lemma cli_get_at:
  assumes at: "cli_at p N S P" and name: "name \<noteq> []" "length name < 2 ^ 32"
  shows "cli_get p name 0 = Some (Inr (map_option (\<lambda>i. cp_heap p ! i) (N name)))"
proof (cases "N name")
  case None
  then show ?thesis
    using map_get [OF cli_atD(1,2) [OF at], of "length name" name name] name by (simp add: cli_get_def)
next
  case (Some i)
  then have "i < length (cp_heap p)" "i < 2 ^ 32" using cli_atD(6,9) [OF at] by fastforce+
  then show ?thesis
    using map_get [OF cli_atD(1,2) [OF at], of "length name" name name] name Some
    by (simp add: cli_get_def ptr_entry_def ptr_arg_ptr cli_deref_def)
qed

subsection \<open>Values\<close>

datatype cli_value = VStr bytes | VInt int | VFloat u64 | VBool bool

text \<open>
  The value an argument holds (none when its union is of another member than its type, or when the
  string pointer is \<^verbatim>\<open>NULL\<close>), and the value a string denotes for a type.
\<close>

definition cli_value :: "cli_arg \<Rightarrow> cli_value option" where
  "cli_value arg = (case (arg_type arg, ca_data arg) of
       (CLIArgType_Str, DataStr s) \<Rightarrow> map_option (\<lambda>s. VStr (butlast s)) s
     | (CLIArgType_Int, DataZero) \<Rightarrow> Some (VInt 0)
     | (CLIArgType_Int, DataI64 w) \<Rightarrow> Some (VInt (sint w))
     | (CLIArgType_Float, DataZero) \<Rightarrow> Some (VFloat 0)
     | (CLIArgType_Float, DataF64 w) \<Rightarrow> Some (VFloat w)
     | (CLIArgType_Bool, DataZero) \<Rightarrow> Some (VBool False)
     | (CLIArgType_Bool, DataB b) \<Rightarrow> Some (VBool b)
     | _ \<Rightarrow> None)"

definition truth :: "bytes \<Rightarrow> bool" where
  "truth s \<longleftrightarrow> s = cstr ''true'' \<or> s = cstr ''True'' \<or> (s \<noteq> [] \<and> hd s = of_char CHR ''1'')"

fun given_value :: "(bytes \<Rightarrow> u64) \<Rightarrow> CLIArgType \<Rightarrow> bytes \<Rightarrow> cli_value" where
  "given_value strtod CLIArgType_Str s = VStr (unquote s)"
| "given_value strtod CLIArgType_Int s = VInt (strtoll s)"
| "given_value strtod CLIArgType_Float s = VFloat (strtod s)"
| "given_value strtod CLIArgType_Bool s = VBool (truth s)"

lemma stored_bool:
  assumes "cli_parser_validate_argument_type (type_val CLIArgType_Bool) s"
  shows "(if s \<noteq> [] \<and> c_digit (hd s) then hd s - 48 \<noteq> 0 else cli_parser_parse_bool s) = truth s"
proof (cases "s \<noteq> [] \<and> c_digit (hd s)")
  case True
  then have "hd s = 48 \<or> hd s = 49"
    using assms by (auto simp: cli_parser_validate_argument_type_def c_digit_def cstr_def)
  moreover have "hd s = 48 \<or> hd s = 49 \<Longrightarrow> s \<noteq> cstr ''true'' \<and> s \<noteq> cstr ''True''"
    by (auto simp: cstr_def)
  ultimately show ?thesis using True by (auto simp: truth_def)
next
  case False
  then have "\<not> (s \<noteq> [] \<and> hd s = of_char CHR ''1'')" by (auto simp: c_digit_def)
  then show ?thesis using False by (auto simp: truth_def cli_parser_parse_bool_def)
qed

lemma cli_store_ok:
  assumes arg: "arg_ok arg" "stores_value arg" and t: "CLI_PARG_GET_TYPE (ca_flags arg) = type_val t"
    and v: "cli_parser_validate_argument_type (type_val t) s"
  shows "\<exists>arg'. cli_store_value strtod True (type_val t) s arg = Inr (CliTrue, arg') \<and> arg_ok arg' \<and>
    ca_flags arg' = ca_flags arg \<and> ca_name arg' = ca_name arg \<and>
    cli_value arg' = Some (given_value strtod t s)"
proof -
  let ?new = "\<lambda>d n. arg\<lparr>ca_data := d, ca_data_sz := n\<rparr>"
  have ty: "arg_type arg = t" using t by (simp add: arg_type_val)
  have keep: "arg_type (?new d n) = t" "arg_member (?new d n) = type_member t" for d n
    using ty arg_member_stores [OF arg(2)] arg_member_flags [of "?new d n" arg] arg_type_flags [of "?new d n" arg] by simp_all
  show ?thesis
  proof (cases t)
    case CLIArgType_Str
    then show ?thesis using keep by (simp add: cli_store_value_def arg_ok_def cli_value_def)
  next
    case CLIArgType_Int
    then show ?thesis using keep by (simp add: cli_store_value_def arg_ok_def cli_value_def sint_strtoll)
  next
    case CLIArgType_Float
    then show ?thesis using keep by (simp add: cli_store_value_def arg_ok_def cli_value_def)
  next
    case CLIArgType_Bool
    have b: "(if s \<noteq> [] \<and> c_digit (hd s) then hd s - 48 \<noteq> 0 else cli_parser_parse_bool s) = truth s"
      using stored_bool v CLIArgType_Bool by simp
    show ?thesis using CLIArgType_Bool keep
      by (simp only: cli_store_value_def b) (simp add: arg_ok_def cli_value_def)
  qed
qed

text \<open>Storing is safe also when the copy of a string cannot be allocated.\<close>

lemma cli_store_safe:
  assumes arg: "arg_ok arg" "stores_value arg"
    and v: "cli_parser_validate_argument_type (CLI_PARG_GET_TYPE (ca_flags arg)) s"
  shows "\<exists>st arg'. cli_store_value strtod ok (CLI_PARG_GET_TYPE (ca_flags arg)) s arg = Inr (st, arg') \<and>
    arg_ok arg' \<and> ca_flags arg' = ca_flags arg"
proof -
  obtain t where t: "CLI_PARG_GET_TYPE (ca_flags arg) = type_val t" using get_type_cases by blast
  show ?thesis
  proof (cases "ok \<or> t \<noteq> CLIArgType_Str")
    case True
    then have "cli_store_value strtod ok (type_val t) s arg = cli_store_value strtod True (type_val t) s arg"
      by (cases t) (simp_all add: cli_store_value_def)
    then show ?thesis using cli_store_ok [OF arg t, of s strtod] v t by metis
  next
    case False
    have "arg_type arg = t" using t by (simp add: arg_type_val)
    then have "arg_member (arg\<lparr>ca_data := DataStr None\<rparr>) = MemStr"
      using arg_member_stores [OF arg(2)] arg_member_flags [of "arg\<lparr>ca_data := DataStr None\<rparr>" arg] False by simp
    then show ?thesis using False t by (simp add: cli_store_value_def arg_ok_def)
  qed
qed

subsection \<open>One argument\<close>

lemma cli_at_set_arg:
  assumes at: "cli_at p N S P" and i: "i < length (cp_heap p)"
    and arg: "arg_ok arg" "ca_flags arg = ca_flags (cp_heap p ! i)"
  shows "cli_at (set_arg p i arg) N S P"
proof -
  have "stores_value ((cp_heap p)[i := arg] ! j)" if "j \<in> set P" for j
    using cli_atD(8,12) [OF at that] arg(2) by (cases "j = i") (simp_all add: stores_value_def)
  then show ?thesis
    using at i arg(1) by (auto simp: cli_at_def set_arg_def dest: set_update_subset_insert [THEN subsetD])
qed

text \<open>The counting arguments have counted at most \<open>k\<close> occurrences.\<close>

definition count_le :: "cli_data \<Rightarrow> int \<Rightarrow> bool" where
  "count_le d k \<longleftrightarrow> (case d of DataZero \<Rightarrow> 0 \<le> k | DataI64 w \<Rightarrow> sint w \<le> k | _ \<Rightarrow> True)"

lemma count_le_mono: "count_le d k \<Longrightarrow> k \<le> k' \<Longrightarrow> count_le d k'"
  by (auto simp: count_le_def split: cli_data.splits)

definition counts_le :: "cli_parser \<Rightarrow> int \<Rightarrow> bool" where
  "counts_le p k \<longleftrightarrow> (\<forall>arg \<in> set (cp_heap p).
     CLI_PARG_GET_ACTION (ca_flags arg) = action_val CLIArgAction_Count
       \<longrightarrow> count_le (ca_data arg) k)"

lemma counts_le_mono: "counts_le p k \<Longrightarrow> k \<le> k' \<Longrightarrow> counts_le p k'"
  using count_le_mono by (fastforce simp: counts_le_def)

lemma counts_le_set_arg:
  assumes p: "counts_le p k" "k \<le> k'"
    and arg: "CLI_PARG_GET_ACTION (ca_flags arg) = action_val CLIArgAction_Count \<Longrightarrow> count_le (ca_data arg) k'"
  shows "counts_le (set_arg p i arg) k'"
  unfolding counts_le_def
proof (intro ballI impI)
  fix a
  assume "a \<in> set (cp_heap (set_arg p i arg))" and a: "CLI_PARG_GET_ACTION (ca_flags a) = action_val CLIArgAction_Count"
  then consider "a = arg" | "a \<in> set (cp_heap p)"
    using set_update_subset_insert by (fastforce simp: set_arg_def)
  then show "count_le (ca_data a) k'"
  proof cases
    case 1
    then show ?thesis using arg a by blast
  next
    case 2
    then show ?thesis using counts_le_mono [OF p] a by (simp add: counts_le_def)
  qed
qed

lemma sint_incr:
  fixes w :: u64
  assumes "sint w \<noteq> 2 ^ 63 - 1" shows "sint (w + 1) = sint w + 1"
proof -
  have "sint w < 2 ^ 63" "- (2 ^ 63) \<le> sint w"
    using sint_lt [of w] sint_ge [of w] by simp_all
  then have "sint w + 1 < 2 ^ 63" using assms by linarith
  then show ?thesis using \<open>- (2 ^ 63) \<le> sint w\<close>
    by (simp add: sint_word_ariths signed_take_bit_int_eq_self)
qed

text \<open>One more occurrence of a counting argument.\<close>

lemma incr_ok:
  assumes d: "data_member d = None \<or> data_member d = Some MemI64" and k: "count_le d k" "k < 2 ^ 63 - 1"
  shows "\<exists>w. incr_data_i64 d = Inr (DataI64 w) \<and> sint w \<le> k + 1"
proof -
  obtain v where v: "read_i64 d = Inr v" "sint v \<le> k"
    using d k(1) by (cases d) (auto simp: count_le_def)
  have "sint v \<noteq> 2 ^ 63 - 1" using v(2) k(2) by linarith
  then show ?thesis using v sint_incr [of v] by (simp add: incr_data_i64_def)
qed

lemma named_safe:
  assumes at: "cli_at p N S P" and k: "counts_le p k" "k < 2 ^ 63 - 1"
  shows "\<exists>st h off. cli_parser_parse_named_argument strtod ok p s following = Some (Inr (st, p\<lparr>cp_heap := h\<rparr>, off)) \<and>
    cli_at (p\<lparr>cp_heap := h\<rparr>) N S P \<and> counts_le (p\<lparr>cp_heap := h\<rparr>) (k + 1)"
    (is "?G (cli_parser_parse_named_argument strtod ok p s following)")
proof -
  have same: "?G (Some (Inr (st, p, off)))" for st off
    using at counts_le_mono [OF k(1), of "k + 1"] by (intro exI [of _ st] exI [of _ "cp_heap p"]) simp
  have upd: "?G (Some (Inr (st, set_arg p i arg, off)))"
    if "i < length (cp_heap p)" "arg_ok arg" "ca_flags arg = ca_flags (cp_heap p ! i)"
      "counts_le (set_arg p i arg) (k + 1)" for st i arg off
    using cli_at_set_arg [OF at that(1-3)] that(4)
    by (intro exI [of _ st] exI [of _ "(cp_heap p)[i := arg]"]) (simp add: set_arg_def)
  obtain found where found: "cli_parser_find_arg p s = Some (Inr found)" "\<And>i. found = Some i \<Longrightarrow> i < length (cp_heap p)"
    using find_arg_any [OF at, of s] by blast
  show ?thesis
  proof (cases "dropWhile is_dash s = [] \<or> found = None")
    case True
    then have "cli_parser_parse_named_argument strtod ok p s following =
        Some (Inr (CliFail (if dropWhile is_dash s = [] then CLIMalformedArgument else CLIUnknownArgument), p, 0))"
      using found(1)
      by (cases "dropWhile is_dash s = []")
        (simp_all add: cli_parser_parse_named_argument_def Let_def del: dropWhile_eq_Nil_conv)
    then show ?thesis using same by (simp only:)
  next
    case False
    then obtain i where i: "found = Some i" and r: "dropWhile is_dash s \<noteq> []" by blast
    have il: "i < length (cp_heap p)" using found(2) i by simp
    define arg where "arg = cp_heap p ! i"
    have ok: "arg_ok arg" using cli_atD(11) [OF at il] by (simp add: arg_def)
    have f: "cli_parser_find_arg p s = Some (Inr (Some i))" "cli_deref p (Some i) = Some (Inr arg)"
      using found(1) i il by (simp_all add: cli_deref_def arg_def)
    show ?thesis
    proof (cases "stores_value arg")
      case False
      let ?new = "\<lambda>d n. arg\<lparr>ca_data := d, ca_data_sz := n\<rparr>"
      have mem: "arg_member (?new d n) = arg_member arg" for d n by (rule arg_member_flags) simp
      have flag: "?G (Some (Inr (CliTrue, set_arg p i (?new (DataB b) 1), 0)))"
        if "CLI_PARG_GET_ACTION (ca_flags arg) \<in> {action_val CLIArgAction_StoreTrue, action_val CLIArgAction_StoreFalse}" for b
      proof (rule upd [OF il])
        have "arg_member arg = MemB" using that by (simp add: arg_member_def del: action_val.simps)
        then show "arg_ok (?new (DataB b) 1)" by (simp add: arg_ok_def mem)
        show "counts_le (set_arg p i (?new (DataB b) 1)) (k + 1)"
          by (rule counts_le_set_arg [OF k(1)]) (simp_all add: count_le_def)
      qed (simp add: arg_def)
      have count_step: "?G (run_bind (Some (incr_data_i64 (ca_data arg))) (\<lambda>d. Some (Inr (CliTrue, set_arg p i (?new d 8), 0))))"
        if c: "CLI_PARG_GET_ACTION (ca_flags arg) = action_val CLIArgAction_Count"
      proof -
        have m: "arg_member arg = MemI64" using c by (simp add: arg_member_def del: action_val.simps)
        then have "data_member (ca_data arg) = None \<or> data_member (ca_data arg) = Some MemI64"
          using ok by (auto simp: arg_ok_def split: option.splits)
        moreover have "count_le (ca_data arg) k" using k(1) il c by (auto simp: counts_le_def arg_def)
        ultimately obtain w where w: "incr_data_i64 (ca_data arg) = Inr (DataI64 w)" "sint w \<le> k + 1"
          using incr_ok k(2) by blast
        have "?G (Some (Inr (CliTrue, set_arg p i (?new (DataI64 w) 8), 0)))"
        proof (rule upd [OF il])
          show "arg_ok (?new (DataI64 w) 8)" by (simp add: arg_ok_def mem m)
          show "counts_le (set_arg p i (?new (DataI64 w) 8)) (k + 1)"
            using w(2) by (intro counts_le_set_arg [OF k(1)]) (simp_all add: count_le_def)
        qed (simp add: arg_def)
        then show ?thesis by (simp only: w(1) run_bind_simps)
      qed
      show ?thesis
        using False r f flag count_step
        by (auto simp: cli_parser_parse_named_argument_def Let_def stores_value_def simp del: dropWhile_eq_Nil_conv val_inject)
    next
      case True
      have cl: "counts_le (set_arg p i a) (k + 1)" if "ca_flags a = ca_flags arg" for a
        using True that by (intro counts_le_set_arg [OF k(1)]) (auto simp: stores_value_def)
      have store: "?G (run_bind (Some (cli_store_value strtod ok (CLI_PARG_GET_TYPE (ca_flags arg)) v arg))
          (\<lambda>(st, arg). Some (Inr (st, set_arg p i arg, off))))"
        if v: "cli_parser_validate_argument_type (CLI_PARG_GET_TYPE (ca_flags arg)) v" for v off
      proof -
        obtain st arg' where a: "cli_store_value strtod ok (CLI_PARG_GET_TYPE (ca_flags arg)) v arg = Inr (st, arg')"
            "arg_ok arg'" "ca_flags arg' = ca_flags arg"
          using cli_store_safe [OF ok True v, of strtod ok] by blast
        then show ?thesis using upd [OF il a(2) a(3) [unfolded arg_def] cl [OF a(3)], of st off]
          by (simp only: a(1) run_bind_simps prod.case)
      qed
      show ?thesis
        using True r f same store
        by (simp add: cli_parser_parse_named_argument_def Let_def stores_value_def del: dropWhile_eq_Nil_conv)
    qed
  qed
qed

lemma positional_reads:
  assumes at: "cli_at p N S P"
  shows "vector_size (cp_positional_args p) = Inr (length P)"
    "i < length P \<Longrightarrow> \<exists>off. vector_at (cp_positional_args p) i = Inr off \<and>
      blk_read (cp_positional_args p) off 8 = Inr (arg_ptr (P ! i))"
    "i < length P \<Longrightarrow> ptr_arg (arg_ptr (P ! i)) = Some (P ! i) \<and>
      cli_deref p (Some (P ! i)) = Some (Inr (cp_heap p ! (P ! i)))"
proof -
  obtain cap where v: "vec_at (cp_positional_args p) cap 8 (map arg_ptr P)" "0 < cap"
    using cli_atD(5) [OF at] by blast
  show "vector_size (cp_positional_args p) = Inr (length P)" using vec_at_header(1) [OF v] by simp
  show "i < length P \<Longrightarrow> \<exists>off. vector_at (cp_positional_args p) i = Inr off \<and>
      blk_read (cp_positional_args p) off 8 = Inr (arg_ptr (P ! i))"
    using vec_at_header(4) [OF v, of i] vec_read_at [OF v(1), of i] by simp
  assume "i < length P"
  then have "P ! i < length (cp_heap p)" using cli_atD(8) [OF at] by simp
  moreover from this have "P ! i < 2 ^ 32" using cli_atD(9) [OF at] by linarith
  ultimately show "ptr_arg (arg_ptr (P ! i)) = Some (P ! i) \<and>
      cli_deref p (Some (P ! i)) = Some (Inr (cp_heap p ! (P ! i)))"
    by (simp add: ptr_arg_ptr cli_deref_def)
qed

text \<open>What a positional argument does, written without pointers.\<close>

lemma positional_step:
  assumes at: "cli_at p N S P"
  shows "cli_parser_parse_positional_argument strtod ok p s pos =
    (if pos \<ge> length P then Some (Inr (CliFail CLITooManyPositionalArgs, p))
     else let arg = cp_heap p ! (P ! pos); type = CLI_PARG_GET_TYPE (ca_flags arg)
       in if \<not> cli_parser_validate_argument_type type s then Some (Inr (CliFail CLIInvalidArgumentType, p))
          else run_bind (Some (cli_store_value strtod ok type s arg)) (\<lambda>(st, arg).
            Some (Inr (st, set_arg p (P ! pos) arg))))"
proof (cases "pos < length P")
  case True
  then obtain off where "vector_at (cp_positional_args p) pos = Inr off"
      "blk_read (cp_positional_args p) off 8 = Inr (arg_ptr (P ! pos))"
    using positional_reads(2) [OF at] by blast
  then show ?thesis
    using True positional_reads(1) [OF at] positional_reads(3) [OF at, of pos]
    by (simp add: cli_parser_parse_positional_argument_def Let_def)
next
  case False
  then show ?thesis
    using positional_reads(1) [OF at] by (simp add: cli_parser_parse_positional_argument_def)
qed

lemma positional_safe:
  assumes at: "cli_at p N S P" and k: "counts_le p k"
  shows "\<exists>st h. cli_parser_parse_positional_argument strtod ok p s pos = Some (Inr (st, p\<lparr>cp_heap := h\<rparr>)) \<and>
    cli_at (p\<lparr>cp_heap := h\<rparr>) N S P \<and> counts_le (p\<lparr>cp_heap := h\<rparr>) k \<and> (st = CliTrue \<longrightarrow> pos < length P)"
proof (cases "pos < length P \<and>
    cli_parser_validate_argument_type (CLI_PARG_GET_TYPE (ca_flags (cp_heap p ! (P ! pos)))) s")
  case False
  have "\<exists>h. p = p\<lparr>cp_heap := h\<rparr> \<and> cli_at (p\<lparr>cp_heap := h\<rparr>) N S P \<and> counts_le (p\<lparr>cp_heap := h\<rparr>) k"
    using at k by (intro exI [of _ "cp_heap p"]) simp
  then show ?thesis using False by (auto simp: positional_step [OF at] Let_def)
next
  case True
  let ?arg = "cp_heap p ! (P ! pos)"
  have i: "P ! pos < length (cp_heap p)" "stores_value ?arg" using True cli_atD(8,12) [OF at] by auto
  have ok: "arg_ok ?arg" by (rule cli_atD(11) [OF at i(1)])
  obtain st arg' where a: "cli_store_value strtod ok (CLI_PARG_GET_TYPE (ca_flags ?arg)) s ?arg = Inr (st, arg')"
      "arg_ok arg'" "ca_flags arg' = ca_flags ?arg"
    using cli_store_safe [OF ok i(2), of s strtod ok] True by blast
  have "counts_le (set_arg p (P ! pos) arg') k"
    using i(2) a(3) by (intro counts_le_set_arg [OF k]) (auto simp: stores_value_def)
  then show ?thesis
    using True a(1) cli_at_set_arg [OF at i(1) a(2,3)]
    by (auto simp: positional_step [OF at] Let_def set_arg_def)
qed

subsection \<open>Visiting all arguments\<close>

lemma args_iterate:
  assumes at: "cli_at p N S P" and cap: "unat (hashmap_capacity (cp_args_map p)) < 2 ^ 32"
  shows "\<exists>es. iterate_all (cp_args_map p) 0 = Some (Inr es) \<and>
    (\<forall>(_, _, v, _) \<in> set es. \<exists>i \<in> ran N. v = arg_ptr i) \<and>
    (\<forall>i \<in> ran N. \<exists>(_, _, v, _) \<in> set es. v = arg_ptr i)"
proof -
  obtain es where es: "iterate_all (cp_args_map p) 0 = Some (Inr es)"
      "map_of (map (\<lambda>(key, n, v, vn). (take (unat n) key, (v, vn))) es) = map_option ptr_entry \<circ> N"
      "\<And>key n v vn. (key, n, v, vn) \<in> set es \<Longrightarrow> (map_option ptr_entry \<circ> N) (take (unat n) key) = Some (v, vn)"
    using iterate_all_view [OF cli_atD(1) [OF at] cap] cli_atD(2) [OF at] by fastforce
  have "\<exists>i \<in> ran N. v = arg_ptr i" if "(key, n, v, vn) \<in> set es" for key n v vn
    using es(3) [OF that] by (auto simp: ptr_entry_def ran_def)
  moreover have "\<exists>(_, _, v, _) \<in> set es. v = arg_ptr i" if i: "i \<in> ran N" for i
  proof -
    obtain k where "N k = Some i" using i by (auto simp: ran_def)
    then have "map_of (map (\<lambda>(key, n, v, vn). (take (unat n) key, (v, vn))) es) k = Some (ptr_entry i)"
      using es(2) by simp
    then show ?thesis by (fastforce simp: ptr_entry_def dest!: map_of_SomeD)
  qed
  ultimately show ?thesis using es(1) by fastforce
qed

lemma deref_ptr:
  assumes "cli_at p N S P" "i < length (cp_heap p)"
  shows "ptr_arg (arg_ptr i) = Some i" "cli_deref p (Some i) = Some (Inr (cp_heap p ! i))"
  using assms(2) cli_atD(9) [OF assms(1)] by (simp_all add: ptr_arg_ptr cli_deref_def)

lemma print_each_ok:
  "(\<And>x. x \<in> set xs \<Longrightarrow> \<exists>s. f x = Some (Inr s)) \<Longrightarrow> \<exists>s. print_each f xs = Some (Inr s)"
  by (induction xs) fastforce+

lemma positional_at_ok:
  assumes at: "cli_at p N S P" and i: "i < length P"
  shows "positional_at p i = Some (Inr (cp_heap p ! (P ! i)))"
  using positional_reads(2,3) [OF at i] by (auto simp: positional_at_def)

lemma ran_N_bound: "cli_at p N S P \<Longrightarrow> i \<in> ran N \<Longrightarrow> i < length (cp_heap p)"
  using cli_atD(6) by (fastforce simp: ran_def)

lemma print_help_ok:
  assumes at: "cli_at p N S P" and cap: "unat (hashmap_capacity (cp_args_map p)) < 2 ^ 32"
  shows "\<exists>out. cli_parser_print_help p = Some (Inr out)"
proof -
  obtain es where es: "iterate_all (cp_args_map p) 0 = Some (Inr es)"
      "\<And>a b v c. (a, b, v, c) \<in> set es \<Longrightarrow> \<exists>i \<in> ran N. v = arg_ptr i"
    using args_iterate [OF at cap] by fastforce
  have opts: "\<exists>s. print_each (\<lambda>(_, _, v, _). run_bind (cli_deref p (ptr_arg v))
      (\<lambda>arg. Some (Inr (help_option arg)))) es = Some (Inr s)"
    using es(2) deref_ptr [OF at ran_N_bound [OF at]] by (intro print_each_ok) fastforce
  have pos: "\<exists>s. print_each (\<lambda>i. run_bind (positional_at p i) (\<lambda>arg. Some (Inr (g arg)))) [0..<length P]
      = Some (Inr s)" for g
    by (intro print_each_ok) (simp add: positional_at_ok [OF at])
  show ?thesis
    using es(1) positional_reads(1) [OF at] opts pos [of "\<lambda>arg. cstr '' '' @ block_str (ca_name arg)"]
      pos [of "\<lambda>arg. cstr ''  '' @ pad_right 20 (block_str (ca_name arg)) @
        (case ca_help_text arg of None \<Rightarrow> [] | Some s \<Rightarrow> block_str s) @ [10]"]
    by (auto simp: cli_parser_print_help_def)
qed

text \<open>The check of the required arguments.\<close>

fun required_check :: "cli_parser \<Rightarrow> (bytes \<times> u32 \<times> bytes \<times> u32) list \<Rightarrow> cli_status run" where
  "required_check p [] = Some (Inr CliTrue)"
| "required_check p ((_, _, v, _) # es) = run_bind (cli_deref p (ptr_arg v)) (\<lambda>arg.
     if CLI_PARG_GET_MODE (ca_flags arg) = mode_val CLIArgMode_Named \<and> ca_data_sz arg = 0
     then Some (Inr (CliFail CLIMissingRequiredArg)) else required_check p es)"

lemma required_loop_eq:
  assumes "iterate_all (cp_args_map p) it = Some (Inr es)"
  shows "cli_required_loop p it = required_check p es"
proof -
  let ?P = "\<lambda>m it (r :: ub + (bytes \<times> u32 \<times> bytes \<times> u32) list). m = cp_args_map p \<longrightarrow> (\<forall>es. r = Inr es \<longrightarrow> cli_required_loop p it = required_check p es)"
  have "?P (cp_args_map p) it (Inr es)"
  proof (rule iterate_all.raw_induct [where P = ?P, OF _ assms])
    fix loop m it and r :: "ub + (bytes \<times> u32 \<times> bytes \<times> u32) list"
    assume IH: "\<And>m it r. loop m it = Some r \<Longrightarrow> ?P m it r"
      and step: "run_bind (hashmap_iterate m it) (\<lambda>r. case r of None \<Rightarrow> Some (Inr [])
        | Some (e, it') \<Rightarrow> run_bind (loop m it') (\<lambda>es. Some (Inr (e # es)))) = Some r"
    show "?P m it r"
    proof (intro impI allI)
      fix es assume m: "m = cp_args_map p" and r: "r = Inr es"
      then obtain x where x: "hashmap_iterate (cp_args_map p) it = Some (Inr x)"
          "(case x of None \<Rightarrow> Some (Inr []) | Some (e, it') \<Rightarrow> run_bind (loop m it') (\<lambda>es. Some (Inr (e # es)))) = Some (Inr es)"
        using step by (auto simp: run_bind_Inr_iff)
      show "cli_required_loop p it = required_check p es"
      proof (cases x)
        case None
        then show ?thesis using x by (subst cli_required_loop.simps) simp
      next
        case (Some y)
        obtain a b v c it' where y: "y = ((a, b, v, c), it')" by (metis prod_cases4 surj_pair)
        then obtain es' where es': "loop m it' = Some (Inr es')" "es = (a, b, v, c) # es'"
          using x(2) Some by (auto simp: run_bind_Inr_iff)
        then have "cli_required_loop p it' = required_check p es'" using IH m by blast
        then show ?thesis using x(1) Some y es'(2) by (subst cli_required_loop.simps) (simp cong: if_cong)
      qed
    qed
  qed
  then show ?thesis by simp
qed

definition required_missing :: "cli_parser \<Rightarrow> (bytes \<rightharpoonup> nat) \<Rightarrow> bool" where
  "required_missing p N \<longleftrightarrow> (\<exists>i \<in> ran N. CLI_PARG_GET_MODE (ca_flags (cp_heap p ! i)) = mode_val CLIArgMode_Named \<and>
     ca_data_sz (cp_heap p ! i) = 0)"

lemma required_check_eq:
  assumes at: "cli_at p N S P" and es: "\<forall>(_, _, v, _) \<in> set es. \<exists>i \<in> ran N. v = arg_ptr i"
  shows "required_check p es = Some (Inr (if \<exists>(_, _, v, _) \<in> set es.
     CLI_PARG_GET_MODE (ca_flags (cp_heap p ! the (ptr_arg v))) = mode_val CLIArgMode_Named \<and>
     ca_data_sz (cp_heap p ! the (ptr_arg v)) = 0 then CliFail CLIMissingRequiredArg else CliTrue))"
  using es
proof (induction es)
  case (Cons e es)
  obtain a b v c where e: "e = (a, b, v, c)" by (metis prod_cases4)
  then obtain i where "i \<in> ran N" "v = arg_ptr i" using Cons.prems by auto
  then show ?case using Cons e deref_ptr [OF at ran_N_bound [OF at]] by auto
qed simp

lemma required_loop_at:
  assumes at: "cli_at p N S P" and cap: "unat (hashmap_capacity (cp_args_map p)) < 2 ^ 32"
  shows "cli_required_loop p 0 = Some (Inr (if required_missing p N then CliFail CLIMissingRequiredArg else CliTrue))"
proof -
  obtain es where es: "iterate_all (cp_args_map p) 0 = Some (Inr es)"
      "\<forall>(_, _, v, _) \<in> set es. \<exists>i \<in> ran N. v = arg_ptr i" "\<forall>i \<in> ran N. \<exists>(_, _, v, _) \<in> set es. v = arg_ptr i"
    using args_iterate [OF at cap] by blast
  have ex: "(\<exists>(_, _, v, _) \<in> set es. Q (the (ptr_arg v))) \<longleftrightarrow> (\<exists>i \<in> ran N. Q i)" for Q
  proof
    assume "\<exists>(_, _, v, _) \<in> set es. Q (the (ptr_arg v))"
    then obtain a b v c where v: "(a, b, v, c) \<in> set es" "Q (the (ptr_arg v))" by auto
    then obtain i where "i \<in> ran N" "v = arg_ptr i" using es(2) by fastforce
    then show "\<exists>i \<in> ran N. Q i" using v(2) deref_ptr(1) [OF at ran_N_bound [OF at]] by auto
  next
    assume "\<exists>i \<in> ran N. Q i"
    then obtain i where i: "i \<in> ran N" "Q i" by blast
    then have "\<exists>(_, _, v, _) \<in> set es. v = arg_ptr i" using es(3) by blast
    then show "\<exists>(_, _, v, _) \<in> set es. Q (the (ptr_arg v))"
      using i(2) deref_ptr(1) [OF at ran_N_bound [OF at i(1)]] by (auto intro!: bexI)
  qed
  show ?thesis
    using required_loop_eq [OF es(1)] required_check_eq [OF at es(2)]
    by (simp only: required_missing_def ex [of "\<lambda>i. CLI_PARG_GET_MODE (ca_flags (cp_heap p ! i)) = mode_val CLIArgMode_Named \<and>
      ca_data_sz (cp_heap p ! i) = 0"])
qed

subsection \<open>The loop over the arguments\<close>

lemma parse_loop_safe:
  assumes "cli_at p N S P" "counts_le p k" "k + int (length ss) < 2 ^ 63" "unat (hashmap_capacity (cp_args_map p)) < 2 ^ 32"
    "pos \<le> length P"
  shows "\<exists>st h pos'. cli_parse_loop strtod ok p pos ss = Some (Inr (st, p\<lparr>cp_heap := h\<rparr>, pos')) \<and>
    cli_at (p\<lparr>cp_heap := h\<rparr>) N S P \<and> pos' \<le> length P"
  using assms
proof (induction ss arbitrary: p pos k rule: length_induct)
  case (1 ss)
  show ?case
  proof (cases ss)
    case Nil
    then show ?thesis using 1(2,6) by (auto intro: exI [of _ "cp_heap p"])
  next
    case (Cons s rest)
    have IH: "\<exists>st h' pos'. cli_parse_loop strtod ok (p\<lparr>cp_heap := h\<rparr>) pos (drop off rest)
          = Some (Inr (st, p\<lparr>cp_heap := h'\<rparr>, pos')) \<and> cli_at (p\<lparr>cp_heap := h'\<rparr>) N S P \<and> pos' \<le> length P"
      if "cli_at (p\<lparr>cp_heap := h\<rparr>) N S P" "counts_le (p\<lparr>cp_heap := h\<rparr>) (k + 1)" "pos \<le> length P" for h pos off
      using 1(1) [rule_format, of "drop off rest" "p\<lparr>cp_heap := h\<rparr>" "k + 1" pos] that 1(4,5) Cons by fastforce
    consider (usage) "s = cstr ''-h'' \<or> s = cstr ''--help''"
      | (dashed) "\<not> (s = cstr ''-h'' \<or> s = cstr ''--help'')" "s \<noteq> [] \<and> is_dash (hd s)"
      | (positional) "\<not> (s = cstr ''-h'' \<or> s = cstr ''--help'')" "\<not> (s \<noteq> [] \<and> is_dash (hd s))" by blast
    then show ?thesis
    proof cases
      case usage
      then show ?thesis
        using print_help_ok [OF 1(2,5)] 1(2,6) Cons by (auto intro!: exI [of _ "cp_heap p"])
    next
      case dashed
      have "k < 2 ^ 63 - 1" using 1(4) Cons by simp
      then obtain st h off where r: "cli_parser_parse_named_argument strtod (ok (length rest)) p s
            (case rest of [] \<Rightarrow> None | s' # _ \<Rightarrow> Some s') = Some (Inr (st, p\<lparr>cp_heap := h\<rparr>, off))"
          "cli_at (p\<lparr>cp_heap := h\<rparr>) N S P" "counts_le (p\<lparr>cp_heap := h\<rparr>) (k + 1)"
        using named_safe [OF 1(2,3)] by blast
      then show ?thesis
        using IH [OF r(2,3) 1(6), of off] dashed Cons 1(6) by (cases "st = CliTrue") auto
    next
      case positional
      obtain st h where r: "cli_parser_parse_positional_argument strtod (ok (length rest)) p s pos
            = Some (Inr (st, p\<lparr>cp_heap := h\<rparr>))"
          "cli_at (p\<lparr>cp_heap := h\<rparr>) N S P" "counts_le (p\<lparr>cp_heap := h\<rparr>) k" "st = CliTrue \<longrightarrow> pos < length P"
        using positional_safe [OF 1(2,3)] by blast
      have "counts_le (p\<lparr>cp_heap := h\<rparr>) (k + 1)" using counts_le_mono [OF r(3)] by simp
      then show ?thesis
        using IH [OF r(2), of "pos + 1" 0] positional Cons 1(6) r by (cases "st = CliTrue") auto
    qed
  qed
qed

lemma set_program_info_at:
  "cli_at (cli_parser_set_program_info ok p a b) N S P = cli_at p N S P"
  "counts_le (cli_parser_set_program_info ok p a b) k = counts_le p k"
  "cp_args_map (cli_parser_set_program_info ok p a b) = cp_args_map p"
  "cp_heap (cli_parser_set_program_info ok p a b) = cp_heap p"
  by (simp_all add: cli_parser_set_program_info_def cli_at_def counts_le_def Let_def split: option.split)

text \<open>The parser on which the loop starts: only the name of the program may have changed.\<close>

definition cli_started :: "(nat \<Rightarrow> bool) \<Rightarrow> cli_parser \<Rightarrow> bytes list \<Rightarrow> cli_parser" where
  "cli_started ok p argv = (case argv of [] \<Rightarrow> p
     | prog # _ \<Rightarrow> if cp_program_name p = None
         then cli_parser_set_program_info (\<lambda>_. ok (length argv)) p (Some prog) None else p)"

lemma cli_started_at:
  "cli_at (cli_started ok p argv) N S P = cli_at p N S P"
  "counts_le (cli_started ok p argv) k = counts_le p k"
  "cp_args_map (cli_started ok p argv) = cp_args_map p"
  "cp_heap (cli_started ok p argv) = cp_heap p"
  by (auto simp: cli_started_def set_program_info_at split: list.split)

lemma parse_unfold:
  assumes at: "cli_at p N S P" and cap: "unat (hashmap_capacity (cp_args_map p)) < 2 ^ 32"
    and n: "length argv \<noteq> 1"
    and loop: "cli_parse_loop strtod ok (cli_started ok p argv) 0 (tl argv)
      = Some (Inr (st, (cli_started ok p argv)\<lparr>cp_heap := h\<rparr>, pos))"
      "cli_at ((cli_started ok p argv)\<lparr>cp_heap := h\<rparr>) N S P"
  shows "cli_parser_parse strtod ok p argv = Some (Inr (
    if st \<noteq> CliTrue then st
    else if pos < unat (of_nat (length P) - 1 :: u64) then CliFail CLIMissingPositionalArgs
    else if required_missing ((cli_started ok p argv)\<lparr>cp_heap := h\<rparr>) N then CliFail CLIMissingRequiredArg
    else CliTrue, (cli_started ok p argv)\<lparr>cp_heap := h\<rparr>))"
proof -
  let ?p = "(cli_started ok p argv)\<lparr>cp_heap := h\<rparr>"
  have "cli_required_loop ?p 0 = Some (Inr (if required_missing ?p N then CliFail CLIMissingRequiredArg else CliTrue))"
    using required_loop_at [OF loop(2)] cap by (simp add: cli_started_at)
  then show ?thesis
    using n loop(1) positional_reads(1) [OF loop(2)]
    unfolding cli_parser_parse_def cli_started_def [symmetric] by (simp add: Let_def)
qed
end
