(* ===== verification/CliProps.thy ===== *)
theory CliProps
  imports CliSpec
begin

text \<open>
  The properties of the command line parser: construction and registration of arguments against
  the abstract state, safety of a whole run, the values that named and positional arguments get, the
  typed getters, and the behaviour on missing positional arguments.
\<close>

subsection \<open>Construction\<close>

lemma map_insert:
  assumes m: "hm_inv m" "hm_view m = map_option ptr_entry \<circ> M" "hm_count m < 63"
    and key: "take n key = k" "k \<noteq> []" "n \<le> length key" "n < 2 ^ 32" and c: "clean (hm_buckets m)"
  shows "\<exists>m'. hashmap_insert m key (of_nat n) (ptr_to i) 8 = Some (Inr m') \<and> hm_inv m' \<and> clean (hm_buckets m') \<and>
    hm_view m' = map_option ptr_entry \<circ> (if k \<in> dom M then M else M(k \<mapsto> i)) \<and> hm_count m' \<le> Suc (hm_count m)"
proof -
  have "0 < n" using key by (cases n) auto
  then have n: "0 < (of_nat n :: u32)" "unat (of_nat n :: u32) = n"
    using key(4) by (simp_all add: word_less_nat_alt unat_key_size)
  have d: "dom (hm_view m) = dom M" by (auto simp: m(2))
  have s: "unat (8 :: u32) \<le> length (p_mem (ptr_to i))" by (simp add: ptr_to_def)
  obtain r where r: "hashmap_insert m key (of_nat n) (ptr_to i) 8 = Some r" "case r of
       Inl u \<Rightarrow> u = OutOfBounds \<and> 63 \<le> hm_count m
     | Inr m' \<Rightarrow> hm_inv m' \<and> same_setup m m' \<and>
       hm_view m' = (if k \<in> dom (hm_view m) then hm_view m else (hm_view m)(k \<mapsto> (stored_value (ptr_to i) 8, 8))) \<and>
       unat (hashmap_size m') = hm_count m' \<and>
       hm_count m' = (if k \<in> dom (hm_view m) then hm_count m else Suc (hm_count m))"
    using hashmap_insert_spec [OF m(1) _ _ n(1) s, of key, unfolded n(2) key(1)] m(3) key(3) by fastforce
  moreover have "clean (hm_buckets m')" if "r = Inr m'" for m'
    using insert_clean [OF _ c n(1), of key "ptr_to i" 8 m'] r(1) that n(2) key(3) by simp
  ultimately show ?thesis
    using m(3) unfolding d
    by (cases r) (auto simp: m(2) stored_ptr ptr_entry_def fun_eq_iff split: if_splits)
qed

lemma init_at:
  "\<exists>p. cli_parser_init (\<lambda>_. True) uninit rnd junk = Some (Inr (Inr p)) \<and> cli_at p Map.empty Map.empty [] \<and>
    cp_heap p = [] \<and> hashmap_size (cp_args_map p) = 0 \<and> hashmap_size (cp_short_names_map p) = 0"
proof -
  obtain m1 where m1: "hashmap_new True (uninit 0) (rnd 0) 16 = Some (Inr (Some m1))" "hm_inv m1"
      "hm_view m1 = Map.empty" "hashmap_size m1 = 0" "clean (hm_buckets m1)"
    using hashmap_new_spec [of 16 "uninit 0" "rnd 0"] new_clean [of True "uninit 0" "rnd 0" 16] by fastforce
  obtain m2 where m2: "hashmap_new True (uninit 1) (rnd 1) 8 = Some (Inr (Some m2))" "hm_inv m2"
      "hm_view m2 = Map.empty" "hashmap_size m2 = 0" "clean (hm_buckets m2)"
    using hashmap_new_spec [of 8 "uninit 1" "rnd 1"] new_clean [of True "uninit 1" "rnd 1" 8] by fastforce
  obtain raw c where v: "vector_init True junk 8 8 = Inr raw" "vec_at raw c 8 []" "0 < c"
    using vector_init_at [of 8 8 junk] by auto
  have "map_option ptr_entry \<circ> Map.empty = Map.empty" by (simp add: fun_eq_iff)
  then show ?thesis
    using m1 m2 v by (auto simp: cli_parser_init_def cli_at_def)
qed

text \<open>
  C25: A new parser has no arguments. Registering an argument always succeeds (with memory, fewer than 63
  arguments and a valid combination of mode and action): the new argument gets the mode, type and
  action it was given, is found under its name and its short name unless these were taken (the first
  registration wins and the second argument is then unreachable by that name), and is the last of the
  positional ones if it is positional. Nothing else changes.
\<close>

theorem cli_add_arg_refines:
  assumes at: "cli_at p N S P" and name: "name \<noteq> []" "length name < 2 ^ 32"
    and room: "hm_count (cp_args_map p) < 63" "hm_count (cp_short_names_map p) < 63"
      "length (cp_heap p) + 1 < 2 ^ 32" "vector_capacity (cp_positional_args p) = Inr cap" "cap < 2 ^ 32"
    and action: "mode = CLIArgMode_Positional \<longrightarrow> action = CLIArgAction_Store"
  shows "(\<exists>p0. cli_parser_init (\<lambda>_. True) uninit rnd junk = Some (Inr (Inr p0)) \<and> cli_at p0 Map.empty Map.empty []) \<and>
    (\<exists>p' arg. cli_parser_add_arg (\<lambda>_. True) junk p name 0 short mode type action help = Some (Inr (CliTrue, p')) \<and>
      cp_heap p' = cp_heap p @ [arg] \<and>
      CLI_PARG_GET_MODE (ca_flags arg) = mode_val mode \<and> CLI_PARG_GET_TYPE (ca_flags arg) = type_val type \<and>
      CLI_PARG_GET_ACTION (ca_flags arg) = action_val action \<and> ca_data_sz arg = 0 \<and>
      cli_at p' (if name \<in> dom N then N else N(name \<mapsto> length (cp_heap p)))
        (if short = CLI_NO_SHORT_NAME \<or> [short] \<in> dom S then S else S([short] \<mapsto> length (cp_heap p)))
        (if mode = CLIArgMode_Positional then P @ [length (cp_heap p)] else P))"
proof -
  let ?h = "length (cp_heap p)"
  let ?N = "if name \<in> dom N then N else N(name \<mapsto> ?h)"
  let ?S = "if short = CLI_NO_SHORT_NAME \<or> [short] \<in> dom S then S else S([short] \<mapsto> ?h)"
  let ?P = "if mode = CLIArgMode_Positional then P @ [?h] else P"
  define arg where "arg = \<lparr>ca_flags = cli_arg_flags mode type action, ca_data = DataZero, ca_data_sz = 0,
    ca_help_text = (case help of None \<Rightarrow> None | Some s \<Rightarrow> Some (s @ [0])), ca_short_name = short, ca_name = name @ [0]\<rparr>"
  obtain m1 where m1: "hashmap_insert (cp_args_map p) (name @ [0]) (of_nat (length name)) (ptr_to ?h) 8 = Some (Inr m1)"
      "hm_inv m1" "hm_view m1 = map_option ptr_entry \<circ> ?N" "clean (hm_buckets m1)"
    using map_insert [OF cli_atD(1,2) [OF at] room(1), of "length name" "name @ [0]" name ?h] name cli_atD(13) [OF at] by auto
  obtain m2 where m2: "(if short \<noteq> CLI_NO_SHORT_NAME then hashmap_insert (cp_short_names_map p) [short] 1 (ptr_to ?h) 8
        else Some (Inr (cp_short_names_map p))) = Some (Inr m2)" "hm_inv m2" "hm_view m2 = map_option ptr_entry \<circ> ?S"
      "clean (hm_buckets m2)"
    using map_insert [OF cli_atD(3,4) [OF at] room(2), of 1 "[short]" "[short]" ?h] cli_atD(3,4,14) [OF at]
    by (cases "short = CLI_NO_SHORT_NAME") auto
  obtain c where v: "vec_at (cp_positional_args p) c 8 (map arg_ptr P)" "0 < c" using cli_atD(5) [OF at] by blast
  then have "c = cap" using vec_at_header(2) room(4) by simp
  then have "\<exists>raw c'. vector_push_back True junk (cp_positional_args p) (arg_ptr ?h) = Inr raw \<and>
      vec_at raw c' 8 (map arg_ptr P @ [arg_ptr ?h]) \<and> 0 < c'"
    using vector_push_back_at [OF v, of "arg_ptr ?h" junk] room(5) by simp
  then obtain raw c' where r: "(if mode = CLIArgMode_Positional
        then Some (vector_push_back True junk (cp_positional_args p) (arg_ptr ?h))
        else Some (Inr (cp_positional_args p))) = Some (Inr raw)" "vec_at raw c' 8 (map arg_ptr ?P)" "0 < c'"
    using v by (cases "mode = CLIArgMode_Positional") auto
  let ?p = "p\<lparr>cp_args_map := m1, cp_short_names_map := m2, cp_positional_args := raw, cp_heap := cp_heap p @ [arg]\<rparr>"
  have "blk_read (name @ [0]) 0 (length name) = Inr name" by (simp add: blk_read_def)
  then have run: "cli_parser_add_arg (\<lambda>_. True) junk p name 0 short mode type action help = Some (Inr (CliTrue, ?p))"
    using action name(1) m1(1) m2(1) r(1)
    by (auto simp: cli_parser_add_arg_def Let_def arg_def cong: option.case_cong)
  have ok: "arg_ok arg" by (simp add: arg_ok_def arg_def)
  have "?h \<notin> set P" using cli_atD(8) [OF at] by blast
  moreover have "mode = CLIArgMode_Positional \<Longrightarrow> stores_value arg"
    using action by (simp add: stores_value_def arg_def flags_pack del: action_val.simps)
  moreover have "stores_value ((cp_heap p @ [arg]) ! i)" if "i \<in> set P" for i
    using cli_atD(8,12) [OF at that] by (simp add: nth_append)
  moreover have "ran ?N \<union> ran ?S \<union> set ?P \<subseteq> {..<length (cp_heap p @ [arg])}"
    using at by (auto simp: cli_at_def ran_def less_SucI split: if_splits)
  ultimately have at': "cli_at ?p ?N ?S ?P"
    using at ok m1(2-4) m2(2-4) r(2,3) room(3)
    unfolding cli_at_def by (auto simp: nth_append simp del: map_append split: if_splits)
  have "ca_data_sz arg = 0" "ca_flags arg = cli_arg_flags mode type action" by (simp_all add: arg_def)
  then have "cp_heap ?p = cp_heap p @ [arg] \<and> CLI_PARG_GET_MODE (ca_flags arg) = mode_val mode \<and>
      CLI_PARG_GET_TYPE (ca_flags arg) = type_val type \<and> CLI_PARG_GET_ACTION (ca_flags arg) = action_val action \<and>
      ca_data_sz arg = 0"
    by (simp add: flags_pack)
  moreover have "\<exists>p0. cli_parser_init (\<lambda>_. True) uninit rnd junk = Some (Inr (Inr p0)) \<and> cli_at p0 Map.empty Map.empty []"
    using init_at [of uninit rnd junk] by blast
  ultimately show ?thesis using run at' by blast
qed

subsection \<open>A whole run\<close>

lemma parse_safe:
  assumes at: "cli_at p N S P" and cap: "unat (hashmap_capacity (cp_args_map p)) < 2 ^ 32"
    and counts: "counts_le p k" "k + int (length argv) < 2 ^ 63"
  shows "\<exists>st h pos. cli_parser_parse strtod ok p argv = Some (Inr (if length argv = 1 then CliTrue
      else if st \<noteq> CliTrue then st
      else if pos < unat (of_nat (length P) - 1 :: u64) then CliFail CLIMissingPositionalArgs
      else if required_missing ((cli_started ok p argv)\<lparr>cp_heap := h\<rparr>) N then CliFail CLIMissingRequiredArg
      else CliTrue, (cli_started ok p argv)\<lparr>cp_heap := h\<rparr>)) \<and>
    cli_at ((cli_started ok p argv)\<lparr>cp_heap := h\<rparr>) N S P \<and> pos \<le> length P"
proof (cases "length argv = 1")
  case True
  have "cli_parser_parse strtod ok p argv = Some (Inr (CliTrue, (cli_started ok p argv)\<lparr>cp_heap := cp_heap p\<rparr>))"
    using True by (simp add: cli_parser_parse_def cli_started_def [symmetric] flip: cli_started_at(4) [of ok p argv])
  moreover have "cli_at ((cli_started ok p argv)\<lparr>cp_heap := cp_heap p\<rparr>) N S P"
    using at by (simp add: cli_started_at(1) flip: cli_started_at(4) [of ok p argv])
  ultimately show ?thesis using True by (intro exI [of _ CliTrue] exI [of _ "cp_heap p"] exI [of _ 0]) simp
next
  case False
  let ?p = "cli_started ok p argv"
  have "k + int (length (tl argv)) < 2 ^ 63" using counts(2) by auto
  then obtain st h pos where "cli_parse_loop strtod ok ?p 0 (tl argv) = Some (Inr (st, ?p\<lparr>cp_heap := h\<rparr>, pos))"
      "cli_at (?p\<lparr>cp_heap := h\<rparr>) N S P" "pos \<le> length P"
    using parse_loop_safe [of ?p N S P k "tl argv" 0 strtod ok] at counts(1) cap
    by (auto simp: cli_started_at)
  then show ?thesis using parse_unfold [OF at cap False] False by (intro exI [of _ st] exI [of _ h] exI [of _ pos]) simp
qed



text \<open>
  A parser without positional arguments rejects every command line that has at least one argument,
  whatever it is: the test for missing positional arguments compares with the size minus one, which
  wraps around.
\<close>

theorem cli_no_positional_rejects:
  assumes at: "cli_at p N S []" and cap: "unat (hashmap_capacity (cp_args_map p)) < 2 ^ 32"
    and argv: "2 \<le> length argv"
    and counts: "counts_le p k" "k + int (length argv) < 2 ^ 63"
  shows "\<exists>st p'. cli_parser_parse strtod ok p argv = Some (Inr (st, p')) \<and> st \<noteq> CliTrue"
proof -
  obtain st h where "cli_parser_parse strtod ok p argv = Some (Inr (if length argv = 1 then CliTrue
      else if st \<noteq> CliTrue then st
      else if 0 < unat (of_nat (length ([] :: nat list)) - 1 :: u64) then CliFail CLIMissingPositionalArgs
      else if required_missing ((cli_started ok p argv)\<lparr>cp_heap := h\<rparr>) N then CliFail CLIMissingRequiredArg
      else CliTrue, (cli_started ok p argv)\<lparr>cp_heap := h\<rparr>))"
    using parse_safe [OF at cap counts] by (metis le_zero_eq list.size(3))
  moreover have "0 < unat (of_nat (length ([] :: nat list)) - 1 :: u64)"
    by (simp add: unat_eq_0 flip: neq0_conv)
  ultimately show ?thesis using argv by auto
qed

subsection \<open>Positional arguments\<close>

definition accepts :: "cli_arg \<Rightarrow> bytes \<Rightarrow> bool" where
  "accepts arg s \<longleftrightarrow> cli_parser_validate_argument_type (type_val (arg_type arg)) s"

lemma positional_stores:
  assumes at: "cli_at p N S P" and pos: "pos < length P" and s: "accepts (cp_heap p ! (P ! pos)) s"
  shows "\<exists>arg. cli_parser_parse_positional_argument strtod True p s pos = Some (Inr (CliTrue, set_arg p (P ! pos) arg)) \<and>
    cli_at (set_arg p (P ! pos) arg) N S P \<and> ca_flags arg = ca_flags (cp_heap p ! (P ! pos)) \<and>
    cli_value arg = Some (given_value strtod (arg_type (cp_heap p ! (P ! pos))) s)"
proof -
  let ?arg = "cp_heap p ! (P ! pos)"
  have i: "P ! pos < length (cp_heap p)" "stores_value ?arg" using cli_atD(8,12) [OF at] pos by auto
  obtain arg where "cli_store_value strtod True (type_val (arg_type ?arg)) s ?arg = Inr (CliTrue, arg)"
      "arg_ok arg" "ca_flags arg = ca_flags ?arg" "cli_value arg = Some (given_value strtod (arg_type ?arg) s)"
    using cli_store_ok [OF cli_atD(11) [OF at i(1)] i(2) arg_type_val] s unfolding accepts_def by blast
  then show ?thesis
    using pos s cli_at_set_arg [OF at i(1)]
    by (auto simp: positional_step [OF at] Let_def arg_type_val accepts_def)
qed

lemma not_dash_help: "\<not> (s \<noteq> [] \<and> is_dash (hd s)) \<Longrightarrow> s \<noteq> cstr ''-h'' \<and> s \<noteq> cstr ''--help''"
  by (auto simp: cstr_def is_dash_def)

lemma positional_loop:
  assumes "cli_at p N S P" "pos + length vs \<le> length P" "\<forall>s \<in> set vs. \<not> (s \<noteq> [] \<and> is_dash (hd s))"
    "\<forall>j < length vs. accepts (cp_heap p ! (P ! (pos + j))) (vs ! j)"
  shows "\<exists>h. cli_parse_loop strtod (\<lambda>_. True) p pos vs = Some (Inr (CliTrue, p\<lparr>cp_heap := h\<rparr>, pos + length vs)) \<and>
    cli_at (p\<lparr>cp_heap := h\<rparr>) N S P \<and>
    (\<forall>j < length vs. cli_value (h ! (P ! (pos + j))) = Some (given_value strtod (arg_type (cp_heap p ! (P ! (pos + j)))) (vs ! j))) \<and>
    (\<forall>i. i \<notin> (\<lambda>j. P ! (pos + j)) ` {..<length vs} \<longrightarrow> h ! i = cp_heap p ! i)"
  using assms
proof (induction vs arbitrary: p pos)
  case Nil
  then show ?case by (auto intro!: exI [of _ "cp_heap p"])
next
  case (Cons s vs)
  let ?i = "P ! pos"
  have pos: "pos < length P" using Cons.prems(2) by simp
  have "accepts (cp_heap p ! ?i) s" using Cons.prems(4) by force
  then obtain arg where arg: "cli_parser_parse_positional_argument strtod True p s pos = Some (Inr (CliTrue, set_arg p ?i arg))"
      "cli_at (set_arg p ?i arg) N S P" "ca_flags arg = ca_flags (cp_heap p ! ?i)"
      "cli_value arg = Some (given_value strtod (arg_type (cp_heap p ! ?i)) s)"
    using positional_stores [OF Cons.prems(1) pos] by blast
  have i: "?i < length (cp_heap p)" using cli_atD(8) [OF Cons.prems(1)] pos by simp
  have d: "distinct P" using cli_atD(10) [OF Cons.prems(1)] .
  have other: "P ! (Suc pos + j) \<noteq> ?i" if "j < length vs" for j
    using d Cons.prems(2) that by (simp add: nth_eq_iff_index_eq)
  have "\<forall>j < length vs. accepts (cp_heap (set_arg p ?i arg) ! (P ! (Suc pos + j))) (vs ! j)"
  proof (intro allI impI)
    fix j assume j: "j < length vs"
    have "accepts (cp_heap p ! (P ! (pos + Suc j))) ((s # vs) ! Suc j)"
      using j by (intro Cons.prems(4) [rule_format]) simp
    then show "accepts (cp_heap (set_arg p ?i arg) ! (P ! (Suc pos + j))) (vs ! j)"
      using other [OF j] by (simp add: set_arg_def)
  qed
  then obtain h where h: "cli_parse_loop strtod (\<lambda>_. True) (set_arg p ?i arg) (Suc pos) vs
        = Some (Inr (CliTrue, (set_arg p ?i arg)\<lparr>cp_heap := h\<rparr>, Suc pos + length vs))"
      "cli_at ((set_arg p ?i arg)\<lparr>cp_heap := h\<rparr>) N S P"
      "\<And>j. j < length vs \<Longrightarrow> cli_value (h ! (P ! (Suc pos + j)))
        = Some (given_value strtod (arg_type (cp_heap (set_arg p ?i arg) ! (P ! (Suc pos + j)))) (vs ! j))"
      "\<And>i. i \<notin> (\<lambda>j. P ! (Suc pos + j)) ` {..<length vs} \<Longrightarrow> h ! i = cp_heap (set_arg p ?i arg) ! i"
    using Cons.IH [OF arg(2), of "Suc pos"] Cons.prems(2,3) by auto
  have eq: "(set_arg p ?i arg)\<lparr>cp_heap := h\<rparr> = p\<lparr>cp_heap := h\<rparr>" by (simp add: set_arg_def)
  have hi: "h ! ?i = arg" using h(4) [of ?i] other i by (force simp: set_arg_def)
  have "cli_value (h ! (P ! (pos + j))) = Some (given_value strtod (arg_type (cp_heap p ! (P ! (pos + j)))) ((s # vs) ! j))"
    if j: "j < length (s # vs)" for j
  proof (cases j)
    case 0
    then show ?thesis using hi arg(4) by simp
  next
    case (Suc n)
    then have "n < length vs" using j by simp
    then show ?thesis using h(3) [of n] other [of n] Suc by (simp add: set_arg_def)
  qed
  moreover have "h ! i = cp_heap p ! i" if "i \<notin> (\<lambda>j. P ! (pos + j)) ` {..<length (s # vs)}" for i
  proof -
    have "i \<noteq> P ! (pos + j)" if "j < Suc (length vs)" for j
      using \<open>i \<notin> (\<lambda>j. P ! (pos + j)) ` {..<length (s # vs)}\<close> that by auto
    from this [of 0] this [of "Suc j" for j] have ne: "i \<noteq> ?i" "\<And>j. j < length vs \<Longrightarrow> i \<noteq> P ! (Suc pos + j)" by auto
    then have "i \<notin> (\<lambda>j. P ! (Suc pos + j)) ` {..<length vs}" by blast
    from h(4) [OF this] ne(1) show ?thesis by (simp add: set_arg_def)
  qed
  moreover have "\<not> (s \<noteq> [] \<and> is_dash (hd s))" using Cons.prems(3) by simp
  ultimately show ?case
    using h(1,2) arg(1) not_dash_help [of s] by (intro exI [of _ h]) (auto simp: eq)
qed

text \<open>
  A command line of positional arguments only, at most as many as are registered and each of the
  right form for its type: the j-th string is stored in the j-th positional argument with the value it
  denotes, and no other argument changes. The last positional argument may be missing without an
  error; an error is reported when two are missing.
\<close>

theorem cli_positional_stored:
  assumes at: "cli_at p N S P" and cap: "unat (hashmap_capacity (cp_args_map p)) < 2 ^ 32"
    and vs: "vs \<noteq> []" "length vs \<le> length P" "\<forall>s \<in> set vs. \<not> (s \<noteq> [] \<and> is_dash (hd s))"
      "\<forall>j < length vs. accepts (cp_heap p ! (P ! j)) (vs ! j)"
  shows "\<exists>p'. cli_parser_parse strtod (\<lambda>_. True) p (prog # vs) = Some (Inr (
      if length vs < length P - 1 then CliFail CLIMissingPositionalArgs
      else if required_missing p' N then CliFail CLIMissingRequiredArg else CliTrue, p')) \<and>
    cli_at p' N S P \<and>
    (\<forall>j < length vs. cli_value (cp_heap p' ! (P ! j)) = Some (given_value strtod (arg_type (cp_heap p ! (P ! j))) (vs ! j))) \<and>
    (\<forall>i. i \<notin> set (take (length vs) P) \<longrightarrow> cp_heap p' ! i = cp_heap p ! i)"
proof -
  let ?p = "cli_started (\<lambda>_. True) p (prog # vs)"
  have "cli_at ?p N S P" using at by (simp add: cli_started_at)
  then obtain h where h: "cli_parse_loop strtod (\<lambda>_. True) ?p 0 vs = Some (Inr (CliTrue, ?p\<lparr>cp_heap := h\<rparr>, length vs))"
      "cli_at (?p\<lparr>cp_heap := h\<rparr>) N S P"
      "\<forall>j < length vs. cli_value (h ! (P ! j)) = Some (given_value strtod (arg_type (cp_heap p ! (P ! j))) (vs ! j))"
      "\<forall>i. i \<notin> (!) P ` {..<length vs} \<longrightarrow> h ! i = cp_heap p ! i"
    using positional_loop [of ?p N S P 0 vs strtod] vs by (auto simp: cli_started_at)
  have t: "set (take (length vs) P) = (!) P ` {..<length vs}"
    using nth_image [OF vs(2)] by (simp add: lessThan_atLeast0)
  have "length P \<le> length (cp_heap p)"
    using cli_atD(8,10) [OF at] card_mono [of "{..<length (cp_heap p)}" "set P"]
    by (auto simp: distinct_card)
  then have "length P < 2 ^ 64" "0 < length P" using cli_atD(9) [OF at] vs(1,2) by (simp, cases vs) auto
  then obtain m where "length P = Suc m" "m < 2 ^ 64" by (cases "length P") auto
  then have "unat (of_nat (length P) - 1 :: u64) = length P - 1"
    using unat_of_nat_u64 [of m] by simp
  then show ?thesis
    using parse_unfold [OF at cap, of "prog # vs" strtod "\<lambda>_. True" CliTrue h "length vs"] h vs(1) t
    by (intro exI [of _ "?p\<lparr>cp_heap := h\<rparr>"]) simp
qed

subsection \<open>Named arguments\<close>

text \<open>A name as it can be written after the dashes.\<close>

definition plain_name :: "bytes \<Rightarrow> bool" where
  "plain_name nm \<longleftrightarrow> nm \<noteq> [] \<and> length nm < 2 ^ 32 \<and> \<not> is_dash (hd nm) \<and> (\<forall>c \<in> set nm. \<not> is_sep c)"

lemma name_parts:
  assumes nm: "plain_name nm" and rest: "rest = [] \<or> is_sep (hd rest)"
  shows "dropWhile is_dash (cstr ''--'' @ nm @ rest) = nm @ rest"
    "takeWhile is_dash (cstr ''--'' @ nm @ rest) = cstr ''--''"
    "takeWhile (\<lambda>c. \<not> is_sep c) (nm @ rest) = nm" "dropWhile (\<lambda>c. \<not> is_sep c) (nm @ rest) = rest"
    "arg_name (cstr ''--'' @ nm @ rest) = nm"
proof -
  obtain c cs where c: "nm = c # cs" "\<not> is_dash c" using nm by (cases nm) (auto simp: plain_name_def)
  show d: "dropWhile is_dash (cstr ''--'' @ nm @ rest) = nm @ rest"
    "takeWhile is_dash (cstr ''--'' @ nm @ rest) = cstr ''--''"
    using c by (simp_all add: cstr_def is_dash_def)
  have "\<forall>c \<in> set nm. \<not> is_sep c" using nm by (simp add: plain_name_def)
  then show t: "takeWhile (\<lambda>c. \<not> is_sep c) (nm @ rest) = nm" "dropWhile (\<lambda>c. \<not> is_sep c) (nm @ rest) = rest"
    using rest by (cases rest; simp add: takeWhile_append dropWhile_append)+
  show "arg_name (cstr ''--'' @ nm @ rest) = nm" by (simp only: arg_name_def d t)
qed

lemma named_value:
  assumes at: "cli_at p N S P" and nm: "plain_name nm" and i: "N nm = Some i" "stores_value (cp_heap p ! i)"
    and v: "v \<noteq> []" "accepts (cp_heap p ! i) v" and sep: "is_sep c"
  shows "\<exists>arg. cli_parser_parse_named_argument strtod True p (cstr ''--'' @ nm @ c # v) following
        = Some (Inr (CliTrue, set_arg p i arg, 0)) \<and>
    cli_parser_parse_named_argument strtod True p (cstr ''--'' @ nm) (Some v) = Some (Inr (CliTrue, set_arg p i arg, 1)) \<and>
    cli_at (set_arg p i arg) N S P \<and> ca_flags arg = ca_flags (cp_heap p ! i) \<and>
    cli_value arg = Some (given_value strtod (arg_type (cp_heap p ! i)) v)"
proof -
  let ?arg = "cp_heap p ! i"
  have il: "i < length (cp_heap p)" using cli_atD(6) [OF at i(1)] .
  obtain arg where arg: "cli_store_value strtod True (type_val (arg_type ?arg)) v ?arg = Inr (CliTrue, arg)"
      "arg_ok arg" "ca_flags arg = ca_flags ?arg" "cli_value arg = Some (given_value strtod (arg_type ?arg) v)"
    using cli_store_ok [OF cli_atD(11) [OF at il] i(2) arg_type_val] v(2) unfolding accepts_def by blast
  have len: "nm \<noteq> []" "length nm < 2 ^ 32" using nm by (simp_all add: plain_name_def)
  have look: "cli_parser_find_arg p (cstr ''--'' @ nm @ rest) = Some (Inr (Some i))"
    if "rest = [] \<or> is_sep (hd rest)" for rest
    using find_arg_at [OF at, of "cstr ''--'' @ nm @ rest"] name_parts [OF nm that] len i(1)
    by (simp add: cli_names_def) (simp add: cstr_def)
  have d: "cli_deref p (Some i) = Some (Inr ?arg)" using il by (simp add: cli_deref_def)
  have "cli_parser_parse_named_argument strtod True p (cstr ''--'' @ nm @ c # v) following
      = Some (Inr (CliTrue, set_arg p i arg, 0))"
    using name_parts [OF nm, of "c # v"] look [of "c # v"] sep d arg(1) v i(2) len(1)
    by (simp add: cli_parser_parse_named_argument_def Let_def arg_type_val accepts_def stores_value_def
        del: dropWhile_eq_Nil_conv)
  moreover have "cli_parser_parse_named_argument strtod True p (cstr ''--'' @ nm) (Some v)
      = Some (Inr (CliTrue, set_arg p i arg, 1))"
    using name_parts [OF nm, of "[]"] look [of "[]"] d arg(1) v i(2) len(1)
    by (simp add: cli_parser_parse_named_argument_def Let_def arg_type_val accepts_def stores_value_def
        del: dropWhile_eq_Nil_conv)
  ultimately show ?thesis using arg cli_at_set_arg [OF at il arg(2,3)] by blast
qed

text \<open>
  C24: A named argument that stores a value: \<^verbatim>\<open>--name=value\<close>, \<^verbatim>\<open>--name:value\<close> and
  \<^verbatim>\<open>--name value\<close> store the value that the string denotes for the type of the argument, the
  last form using up the next string; all other arguments keep their values.
\<close>

theorem cli_named_value:
  assumes at: "cli_at p N S P" and nm: "plain_name nm" and i: "N nm = Some i" "stores_value (cp_heap p ! i)"
    and v: "v \<noteq> []" "accepts (cp_heap p ! i) v" and sep: "is_sep c"
  shows "\<exists>p'. cli_parser_parse_named_argument strtod True p (cstr ''--'' @ nm @ c # v) following = Some (Inr (CliTrue, p', 0)) \<and>
    cli_parser_parse_named_argument strtod True p (cstr ''--'' @ nm) (Some v) = Some (Inr (CliTrue, p', 1)) \<and>
    cli_at p' N S P \<and> cli_value (cp_heap p' ! i) = Some (given_value strtod (arg_type (cp_heap p ! i)) v) \<and>
    (\<forall>j. j \<noteq> i \<longrightarrow> cp_heap p' ! j = cp_heap p ! j)"
proof -
  obtain arg where "cli_parser_parse_named_argument strtod True p (cstr ''--'' @ nm @ c # v) following
        = Some (Inr (CliTrue, set_arg p i arg, 0))"
      "cli_parser_parse_named_argument strtod True p (cstr ''--'' @ nm) (Some v) = Some (Inr (CliTrue, set_arg p i arg, 1))"
      "cli_at (set_arg p i arg) N S P" "cli_value arg = Some (given_value strtod (arg_type (cp_heap p ! i)) v)"
    using named_value [OF assms] by blast
  then show ?thesis
    using cli_atD(6) [OF at i(1)] by (intro exI [of _ "set_arg p i arg"]) (simp add: set_arg_def)
qed

subsection \<open>Getters\<close>

text \<open>
  An argument whose union was written through another member than the one that belongs to its type:
  a flag of a type other than the boolean one, or a counter of a type other than the integer one.
\<close>

definition mixed :: "cli_arg \<Rightarrow> bool" where
  "mixed arg \<longleftrightarrow> ca_data arg \<noteq> DataZero \<and> arg_member arg \<noteq> type_member (arg_type arg)"

text \<open>
  What the getter of type \<open>t\<close> has to give for a name: \<^verbatim>\<open>NULL\<close> when there is no such argument or
  it is of another type, a read of the wrong member when the argument is mixed, and the value it
  holds otherwise.
\<close>

definition typed_read :: "CLIArgType \<Rightarrow> cli_arg option \<Rightarrow> cli_arg option res" where
  "typed_read t a = (case a of None \<Rightarrow> Inr None
     | Some arg \<Rightarrow> if arg_type arg \<noteq> t then Inr None else if mixed arg then Inl WrongMember else Inr (Some arg))"

text \<open>What a pointer to a value is read as, and the string pointer with its size.\<close>

fun int_of :: "cli_value option \<Rightarrow> int option" where
  "int_of (Some (VInt n)) = Some n"
| "int_of _ = None"

fun float_of :: "cli_value option \<Rightarrow> u64 option" where
  "float_of (Some (VFloat d)) = Some d"
| "float_of _ = None"

fun bool_of :: "cli_value option \<Rightarrow> bool option" where
  "bool_of (Some (VBool b)) = Some b"
| "bool_of _ = None"

definition str_of :: "cli_arg \<Rightarrow> bytes option \<times> nat option" where
  "str_of arg = (case cli_value arg of Some (VStr s) \<Rightarrow> (Some (s @ [0]), Some (length s))
     | _ \<Rightarrow> (None, Some (if ca_data arg = DataZero then 0 else ca_data_sz arg)))"

text \<open>
  C38: The getters are typed. For a name without an argument, and for an argument of another type, each
  returns \<^verbatim>\<open>NULL\<close>, and the string getter leaves \<^verbatim>\<open>*str_sz\<close> alone. For an argument of its
  type, the number and boolean getters point to the value of the argument, zero when it was not set;
  the string getter returns the string with its size, and \<^verbatim>\<open>NULL\<close> when it was not set or its copy
  could not be allocated. The exception is an argument whose action writes another member of the
  union than its type (a flag that is not boolean, a counter that is not an integer): from the
  moment it was set, its getter reads a member that was not written, and exactly then.
\<close>

theorem cli_getters_typed:
  assumes at: "cli_at p N S P" and name: "name \<noteq> []" "length name < 2 ^ 32"
  shows "let a = map_option (\<lambda>i. cp_heap p ! i) (N name) in
    cli_parser_arg_get_i64 p name 0 = Some (res_bind (typed_read CLIArgType_Int a)
      (\<lambda>r. Inr (Option.bind r (\<lambda>arg. int_of (cli_value arg))))) \<and>
    cli_parser_arg_get_f64 p name 0 = Some (res_bind (typed_read CLIArgType_Float a)
      (\<lambda>r. Inr (Option.bind r (\<lambda>arg. float_of (cli_value arg))))) \<and>
    cli_parser_arg_get_bool p name 0 = Some (res_bind (typed_read CLIArgType_Bool a)
      (\<lambda>r. Inr (Option.bind r (\<lambda>arg. bool_of (cli_value arg))))) \<and>
    cli_parser_arg_get_str p name 0 = Some (res_bind (typed_read CLIArgType_Str a)
      (\<lambda>r. Inr (case r of None \<Rightarrow> (None, None) | Some arg \<Rightarrow> str_of arg)))"
proof (cases "N name")
  case None
  then show ?thesis
    using cli_get_at [OF assms]
    by (simp add: cli_parser_arg_get_i64_def cli_parser_arg_get_f64_def cli_parser_arg_get_bool_def
        cli_parser_arg_get_str_def typed_read_def)
next
  case (Some i)
  define arg where "arg = cp_heap p ! i"
  have ok: "arg_ok arg" using cli_atD(11) [OF at cli_atD(6) [OF at Some]] by (simp add: arg_def)
  have look: "cli_get p name 0 = Some (Inr (Some arg))" using cli_get_at [OF assms] Some by (simp add: arg_def)
  have ty: "CLI_PARG_GET_TYPE (ca_flags arg) = type_val t \<longleftrightarrow> arg_type arg = t" for t
    by (simp add: arg_type_val del: type_val.simps)
  note defs = cli_parser_arg_get_i64_def cli_parser_arg_get_f64_def cli_parser_arg_get_bool_def
    cli_parser_arg_get_str_def look ty typed_read_def cli_value_def str_of_def mixed_def
  have "cli_parser_arg_get_i64 p name 0 = Some (res_bind (typed_read CLIArgType_Int (Some arg))
      (\<lambda>r. Inr (Option.bind r (\<lambda>arg. int_of (cli_value arg)))))"
    "cli_parser_arg_get_f64 p name 0 = Some (res_bind (typed_read CLIArgType_Float (Some arg))
      (\<lambda>r. Inr (Option.bind r (\<lambda>arg. float_of (cli_value arg)))))"
    "cli_parser_arg_get_bool p name 0 = Some (res_bind (typed_read CLIArgType_Bool (Some arg))
      (\<lambda>r. Inr (Option.bind r (\<lambda>arg. bool_of (cli_value arg)))))"
    using ok by (cases "ca_data arg"; cases "arg_type arg"; auto simp: defs arg_ok_def simp del: type_val.simps)+
  moreover have "cli_parser_arg_get_str p name 0 = Some (res_bind (typed_read CLIArgType_Str (Some arg))
      (\<lambda>r. Inr (case r of None \<Rightarrow> (None, None) | Some arg \<Rightarrow> str_of arg)))"
    using ok by (cases "ca_data arg"; cases "arg_type arg"; auto simp: defs arg_ok_def simp del: type_val.simps split: option.splits)
  ultimately show ?thesis using Some by (simp add: arg_def)
qed

subsection \<open>Integers printed by the formatter\<close>

lemma digits_val_append: "digits_val (ds @ [c]) = 10 * digits_val ds + (uint c - 48)"
  by (simp add: digits_val_def)

lemma uint_digit: "d < 10 \<Longrightarrow> uint (of_nat (48 + d) :: u8) = 48 + int d"
  by (simp add: unat_of_nat uint_nat take_bit_nat_eq_self del: of_nat_add)

lemma dec_parse: "\<forall>c \<in> set (dec n). c_digit c" "digits_val (dec n) = int n"
proof -
  have dig: "c_digit (of_nat (48 + d))" if "d < 10" for d
    using uint_digit [OF that] that by (simp add: c_digit_def word_le_def)
  show "\<forall>c \<in> set (dec n). c_digit c"
    by (induction n rule: dec.induct) (subst dec.simps, simp add: dig del: of_nat_add)
  show "digits_val (dec n) = int n"
  proof (induction n rule: dec.induct)
    case (1 n)
    show ?case
    proof (cases "n < 10")
      case True
      then show ?thesis using uint_digit [of n] by (subst dec.simps) (simp add: digits_val_def del: of_nat_add)
    next
      case False
      have "int n = 10 * int (n div 10) + int (n mod 10)" by presburger
      then show ?thesis
        using 1 False uint_digit [of "n mod 10"] by (subst dec.simps) (simp add: digits_val_append del: of_nat_add)
    qed
  qed
qed

lemma strtoll_dec: "strtoll (dec_i64 w) = sint w"
proof -
  have r: "sint w < 2 ^ 63" "- (2 ^ 63) \<le> sint w" using sint_lt [of w] sint_ge [of w] by simp_all
  have tw: "takeWhile c_digit (dec n) = dec n" for n using dec_parse(1) by (simp add: takeWhile_eq_all_conv)
  have hd: "c_digit (hd (dec n))" for n using dec_parse(1) [of n] by simp
  have "\<not> c_space c" if "c_digit c" for c
    using that order_trans [of 48 c 13] by (auto simp: c_digit_def c_space_def)
  then have ns: "\<not> c_space (hd (dec n))" for n using hd by blast
  then have ns': "dropWhile c_space (dec n) = dec n" for n
    by (cases "dec n") (metis dec_nonempty, metis dropWhile.simps(2) list.sel(1))
  have nsign: "hd (dec n) \<noteq> 45" "hd (dec n) \<noteq> 43" for n
    using hd [of n] by (auto simp: c_digit_def)
  show ?thesis
    using r dec_parse(2) nsign
    by (cases "sint w < 0") (simp_all add: strtoll_def dec_i64_def Let_def c_space_def tw ns')
qed

text \<open>
  C19: An integer written by the formatter and given on the command line to an integer argument reads
  back as the same integer, for every 64-bit value.
\<close>

theorem cli_int_roundtrip:
  assumes at: "cli_at p N S P" and nm: "plain_name nm"
    and i: "N nm = Some i" "stores_value (cp_heap p ! i)" "arg_type (cp_heap p ! i) = CLIArgType_Int"
    and fmt: "fmt_size_i64 w \<le> length blk" "fmt_i64 blk 0 w = Inr (blk', n)"
  shows "run_bind (cli_parser_parse_named_argument strtod True p (cstr ''--'' @ nm @ cstr ''='' @ take n blk') following)
    (\<lambda>(st, p', off). cli_parser_arg_get_i64 p' nm 0) = Some (Inr (Some (sint w)))"
proof -
  have v: "take n blk' = dec_i64 w"
    using fmt fmt_i64_dec [of 0 w blk] by (auto simp: length_dec_i64 splice_def)
  have ne: "dec_i64 w \<noteq> []" by (simp add: dec_i64_def)
  have "c_digit (hd (dec k))" for k using dec_parse(1) [of k] by simp
  then have acc: "accepts (cp_heap p ! i) (dec_i64 w)"
    using i(3) ne by (auto simp: accepts_def cli_parser_validate_argument_type_def dec_i64_def)
  have "is_sep (of_char CHR ''='')" by (simp add: is_sep_def)
  from named_value [OF at nm i(1,2) ne acc this, of strtod following]
  obtain arg where arg: "cli_parser_parse_named_argument strtod True p (cstr ''--'' @ nm @ of_char CHR ''='' # dec_i64 w) following
        = Some (Inr (CliTrue, set_arg p i arg, 0))" "cli_at (set_arg p i arg) N S P"
      "cli_value arg = Some (given_value strtod CLIArgType_Int (dec_i64 w))"
    using i(3) by auto
  have il: "i < length (cp_heap p)" using cli_atD(6) [OF at i(1)] .
  have arg_at: "cp_heap (set_arg p i arg) ! i = arg" using il by (simp add: set_arg_def)
  have name: "nm \<noteq> []" "length nm < 2 ^ 32" using nm by (simp_all add: plain_name_def)
  have ty: "arg_type arg = CLIArgType_Int"
    using arg(3) by (auto simp: cli_value_def split: cli_data.splits CLIArgType.splits option.splits)
  then obtain x where "read_i64 (ca_data arg) = Inr x" "sint x = sint w" "CLI_PARG_GET_TYPE (ca_flags arg) = type_val CLIArgType_Int"
    using arg(3) by (auto simp: cli_value_def strtoll_dec arg_type_val split: cli_data.splits)
  then show ?thesis
    using arg(1) i(1) cli_get_at [OF arg(2) name]
    by (simp add: v cli_parser_arg_get_i64_def arg_at) (simp add: cstr_def)
qed

subsection \<open>A concrete parser\<close>

text \<open>An integer option \<^verbatim>\<open>n\<close> and a positional string \<^verbatim>\<open>a\<close>.\<close>

definition demo_bucket :: "u8 \<Rightarrow> nat \<Rightarrow> bucket" where
  "demo_bucket c i = bucket_new [c] 1 (ptr_to i) 8 (ucast c) 0"

definition demo_map1 :: hashmap where
  "demo_map1 = map_empty4\<lparr>hm_buckets := (hm_buckets map_empty4)[2 := demo_bucket 110 0], hm_size := 1\<rparr>"

definition demo_map2 :: hashmap where
  "demo_map2 = demo_map1\<lparr>hm_buckets := (hm_buckets demo_map1)[1 := demo_bucket 97 1], hm_size := 2\<rparr>"

definition demo_arg :: "u8 \<Rightarrow> CLIArgMode \<Rightarrow> CLIArgType \<Rightarrow> cli_arg" where
  "demo_arg c mode type = \<lparr>ca_flags = cli_arg_flags mode type CLIArgAction_Store, ca_data = DataZero,
     ca_data_sz = 0, ca_help_text = None, ca_short_name = 0, ca_name = [c, 0]\<rparr>"

definition demo_cli :: "nat list \<Rightarrow> cli_parser" where
  "demo_cli P = \<lparr>cp_args_map = demo_map2, cp_short_names_map = map_empty4,
     cp_positional_args = vec_header (length P) 8 8 @ concat (map arg_ptr P) @ replicate (64 - 8 * length P) 0,
     cp_program_name = None, cp_description = None,
     cp_heap = [demo_arg 110 CLIArgMode_Optional CLIArgType_Int, demo_arg 97 CLIArgMode_Positional CLIArgType_Str]\<rparr>"

lemma demo_maps_ok: "hm_ok 2 demo_map1" "hm_ok 2 demo_map2"
proof -
  let ?b = "demo_bucket 110 0" and ?m = map_empty4
  have "hm_ok 2 (?m\<lparr>hm_buckets := (hm_buckets ?m)[unat (b_hash ?b) mod 2 ^ 2 := ?b], hm_size := hm_size ?m + 1\<rparr>)"
  proof (rule hm_ok_store_home [OF map_empty4_ok])
    show "bucket_wf ?b" unfolding demo_bucket_def by (rule bucket_new_wf) (simp_all add: ptr_to_def)
    show "b_hash ?b = hm_hash ?m (bucket_key ?b)" by code_simp
    show "\<not> bucket_is_empty ?b" by code_simp
    show "bucket_key ?b \<notin> set (map bucket_key (hm_buckets ?m))" by code_simp
    show "b_probe_length ?b = 0" by code_simp
    show "bucket_is_empty (hm_buckets ?m ! (unat (b_hash ?b) mod 2 ^ 2))" by code_simp
  qed (simp_all add: map_empty4_inv)
  moreover have "unat (b_hash ?b) mod 2 ^ 2 = 2" by code_simp
  ultimately show ok1: "hm_ok 2 demo_map1" by (simp add: demo_map1_def map_empty4_def)
  let ?b = "demo_bucket 97 1" and ?m = demo_map1
  have "hm_ok 2 (?m\<lparr>hm_buckets := (hm_buckets ?m)[unat (b_hash ?b) mod 2 ^ 2 := ?b], hm_size := hm_size ?m + 1\<rparr>)"
  proof (rule hm_ok_store_home [OF ok1])
    show "bucket_wf ?b" unfolding demo_bucket_def by (rule bucket_new_wf) (simp_all add: ptr_to_def)
    show "b_hash ?b = hm_hash ?m (bucket_key ?b)" by code_simp
    show "\<not> bucket_is_empty ?b" by code_simp
    show "bucket_key ?b \<notin> set (map bucket_key (hm_buckets ?m))" by code_simp
    show "b_probe_length ?b = 0" by code_simp
    show "bucket_is_empty (hm_buckets ?m ! (unat (b_hash ?b) mod 2 ^ 2))" by code_simp
    show "Suc (hm_count ?m) < 2 ^ 2" by code_simp
  qed simp
  moreover have "unat (b_hash ?b) mod 2 ^ 2 = 1" by code_simp
  ultimately show "hm_ok 2 demo_map2" by (simp add: demo_map2_def demo_map1_def)
qed

lemma demo_view: "hm_view demo_map2 = map_option ptr_entry \<circ> [[97] \<mapsto> 1, [110] \<mapsto> 0]"
proof -
  have "filter (\<lambda>b. \<not> bucket_is_empty b) (hm_buckets demo_map2) = [demo_bucket 97 1, demo_bucket 110 0]" by code_simp
  moreover have "bucket_key (demo_bucket c i) = [c]" "bucket_get_value (demo_bucket c i) = arg_ptr i"
      "b_value_size (demo_bucket c i) = 8" for c i
    using stored_ptr [of i] by (simp_all add: demo_bucket_def bucket_new_key)
  ultimately show ?thesis by (simp add: hm_view_def fun_eq_iff ptr_entry_def)
qed

lemma demo_at:
  assumes "P = [] \<or> P = [1]"
  shows "cli_at (demo_cli P) [[97] \<mapsto> 1, [110] \<mapsto> 0] Map.empty P"
proof -
  have "hm_inv demo_map2" "hm_inv map_empty4" using demo_maps_ok(2) map_empty4_ok by (auto simp: hm_inv_def)
  moreover have "hm_view map_empty4 = map_option ptr_entry \<circ> Map.empty"
    by (simp add: hm_view_def map_empty4_def fun_eq_iff)
  moreover have "vec_at (cp_positional_args (demo_cli P)) 8 8 (map arg_ptr P)"
    using assms by (auto simp: vec_at_def demo_cli_def)
  moreover have "clean (hm_buckets demo_map2)" "clean (hm_buckets map_empty4)" unfolding clean_def by code_simp+
  moreover have "arg_ok (demo_arg c m t)" "stores_value (demo_arg c m t)" for c m t
    by (simp_all add: arg_ok_def demo_arg_def stores_value_def flags_pack)
  moreover have "ran [[97 :: u8] \<mapsto> 1, [110] \<mapsto> 0] \<subseteq> {..<2 :: nat}" by (auto simp: ran_def)
  ultimately show ?thesis
    using demo_view assms by (auto simp: cli_at_def demo_cli_def intro!: exI [of _ 8])
qed

lemma demo_small: "unat (hashmap_capacity (cp_args_map (demo_cli P))) < 2 ^ 32" "counts_le (demo_cli P) 0"
  by (simp_all add: demo_cli_def demo_map2_def demo_map1_def map_empty4_def hashmap_capacity_def counts_le_def count_le_def demo_arg_def)

lemma demo_arg_type: "arg_type (demo_arg c m t) = t" "stores_value (demo_arg c m t)"
  by (cases t; simp add: arg_type_def demo_arg_def flags_pack) (simp add: stores_value_def demo_arg_def flags_pack)

theorem cli_add_arg_refines_witness:
  "\<exists>p' arg. cli_parser_add_arg (\<lambda>_. True) (\<lambda>_. 0) (demo_cli [1]) (cstr ''f'') 0 102 CLIArgMode_Positional CLIArgType_Int
      CLIArgAction_Store None = Some (Inr (CliTrue, p')) \<and>
    cp_heap p' = cp_heap (demo_cli [1]) @ [arg] \<and> cli_at p' [[97] \<mapsto> 1, [110] \<mapsto> 0, [102] \<mapsto> 2] [[102] \<mapsto> 2] [1, 2]"
proof -
  have "hm_count (cp_args_map (demo_cli [1])) < 63" "hm_count (cp_short_names_map (demo_cli [1])) < 63" by code_simp+
  moreover have "vector_capacity (cp_positional_args (demo_cli [1])) = Inr 8" by code_simp
  moreover have "length (cp_heap (demo_cli [1])) = 2" by (simp add: demo_cli_def)
  ultimately show ?thesis
    using cli_add_arg_refines [OF demo_at [of "[1]"], of "cstr ''f''" 8 CLIArgMode_Positional CLIArgAction_Store
        "\<lambda>_. 0" "\<lambda>_. 0" "\<lambda>_. 0" 102 CLIArgType_Int None]
    by (auto simp: cstr_def CLI_NO_SHORT_NAME_def)
qed


theorem cli_no_positional_rejects_witness:
  "\<exists>st p'. cli_parser_parse (\<lambda>_. 0) (\<lambda>_. True) (demo_cli []) [cstr ''p'', cstr ''--n=5''] = Some (Inr (st, p')) \<and> st \<noteq> CliTrue"
  using cli_no_positional_rejects [OF demo_at [of "[]"] demo_small(1), of "[cstr ''p'', cstr ''--n=5'']" 0 "\<lambda>_. 0" "\<lambda>_. True"]
    demo_small(2) by auto

theorem cli_positional_stored_witness:
  "\<exists>p'. cli_parser_parse (\<lambda>_. 0) (\<lambda>_. True) (demo_cli [1]) [cstr ''p'', cstr ''x''] = Some (Inr (
      if required_missing p' [[97] \<mapsto> 1, [110] \<mapsto> 0] then CliFail CLIMissingRequiredArg else CliTrue, p')) \<and>
    cli_value (cp_heap p' ! 1) = Some (VStr (cstr ''x''))"
proof -
  have acc: "accepts (cp_heap (demo_cli [1]) ! 1) (cstr ''x'')" "arg_type (cp_heap (demo_cli [1]) ! 1) = CLIArgType_Str"
    by (simp_all add: demo_cli_def accepts_def demo_arg_type cli_parser_validate_argument_type_def)
  have u: "unquote (cstr ''x'') = cstr ''x''" "\<not> is_dash (hd (cstr ''x''))" by code_simp+
  show ?thesis
    using cli_positional_stored [OF demo_at [of "[1]"] demo_small(1), of "[cstr ''x'']" "\<lambda>_. 0" "cstr ''p''"] acc u
    by auto
qed

theorem cli_named_value_witness:
  "\<exists>p'. cli_parser_parse_named_argument (\<lambda>_. 0) True (demo_cli [1]) (cstr ''--'' @ [110] @ 61 # cstr ''7'') None
      = Some (Inr (CliTrue, p', 0)) \<and> cli_value (cp_heap p' ! 0) = Some (VInt 7)"
proof -
  have "accepts (cp_heap (demo_cli [1]) ! 0) (cstr ''7'')" "stores_value (cp_heap (demo_cli [1]) ! 0)"
      "arg_type (cp_heap (demo_cli [1]) ! 0) = CLIArgType_Int"
    using demo_arg_type by (simp_all add: demo_cli_def accepts_def cli_parser_validate_argument_type_def cstr_def c_digit_def)
  moreover have "plain_name [110]" by (simp add: plain_name_def is_dash_def is_sep_def)
  moreover have "strtoll (cstr ''7'') = 7" "cstr ''7'' \<noteq> []" "is_sep 61" by code_simp+
  ultimately show ?thesis
    using cli_named_value [OF demo_at [of "[1]"], of "[110]" 0 "cstr ''7''" 61 "\<lambda>_. 0" None] by auto
qed

theorem cli_getters_typed_witness:
  "cli_parser_arg_get_i64 (demo_cli [1]) [110] 0 = Some (Inr (Some 0)) \<and>
   cli_parser_arg_get_bool (demo_cli [1]) [110] 0 = Some (Inr None) \<and>
   cli_parser_arg_get_str (demo_cli [1]) [97] 0 = Some (Inr (None, Some 0)) \<and>
   cli_parser_arg_get_str (demo_cli [1]) [98] 0 = Some (Inr (None, None))"
proof -
  let ?n = "cp_heap (demo_cli [1]) ! 0" and ?a = "cp_heap (demo_cli [1]) ! 1"
  have "typed_read CLIArgType_Int (Some ?n) = Inr (Some ?n)" "typed_read CLIArgType_Bool (Some ?n) = Inr None"
      "typed_read CLIArgType_Str (Some ?a) = Inr (Some ?a)" "typed_read CLIArgType_Str None = Inr None"
      "cli_value ?n = Some (VInt 0)" "str_of ?a = (None, Some 0)"
    by code_simp+
  then show ?thesis
    using cli_getters_typed [OF demo_at [of "[1]"], of "[110]"] cli_getters_typed [OF demo_at [of "[1]"], of "[97]"]
      cli_getters_typed [OF demo_at [of "[1]"], of "[98]"]
    by (simp add: Let_def)
qed

theorem cli_int_roundtrip_witness:
  "\<exists>blk' n. fmt_i64 (replicate 20 0) 0 (- 5) = Inr (blk', n) \<and>
   run_bind (cli_parser_parse_named_argument (\<lambda>_. 0) True (demo_cli [1]) (cstr ''--'' @ [110] @ cstr ''='' @ take n blk') None)
    (\<lambda>(st, p', off). cli_parser_arg_get_i64 p' [110] 0) = Some (Inr (Some (- 5)))"
proof -
  have f: "fmt_size_i64 (- 5) \<le> length (replicate 20 (0 :: u8))" by code_simp
  then obtain blk' n where r: "fmt_i64 (replicate 20 0) 0 (- 5) = Inr (blk', n)"
    using fmt_i64_dec [of 0 "- 5" "replicate 20 0"] by (auto simp: length_dec_i64)
  have "plain_name [110]" by (simp add: plain_name_def is_dash_def is_sep_def)
  moreover have "stores_value (cp_heap (demo_cli [1]) ! 0)" "arg_type (cp_heap (demo_cli [1]) ! 0) = CLIArgType_Int"
    using demo_arg_type by (simp_all add: demo_cli_def)
  moreover have "sint (- 5 :: u64) = - 5" by code_simp
  ultimately show ?thesis
    using r cli_int_roundtrip [OF demo_at [of "[1]"] _ _ _ _ f r, of "[110]" 0 "\<lambda>_. 0" None] by auto
qed

subsection \<open>Corner cases\<close>

text \<open>Without any argument the required ones are not checked.\<close>

lemma cli_no_arguments_accepted: "\<exists>p'. cli_parser_parse strtod ok p [prog] = Some (Inr (CliTrue, p'))"
  by (simp add: cli_parser_parse_def Let_def)

text \<open>A value of two quotes is stored, and then counts as missing.\<close>

lemma cli_empty_value_missing:
  "run_bind (cli_parser_parse_positional_argument (\<lambda>_. 0) True (demo_cli [1]) (cstr ''\"\"'') 0) (\<lambda>(st, p).
   run_bind (cli_parser_has_arg p [97] 0) (\<lambda>b. Some (Inr (st, b)))) = Some (Inr (CliTrue, False))"
  by code_simp

text \<open>
  The flag of a string argument is set in the union that holds the string pointer: the address 1 is
  freed when the parser is released.
\<close>

definition demo_flag :: cli_parser where
  "demo_flag = set_arg (demo_cli []) 1 ((demo_arg 97 CLIArgMode_Optional CLIArgType_Str)\<lparr>ca_flags :=
     cli_arg_flags CLIArgMode_Optional CLIArgType_Str CLIArgAction_StoreTrue\<rparr>)"

lemma demo_iterate:
  "iterate_all demo_map2 0 = Some (Inr (map entry_of [demo_bucket 97 1, demo_bucket 110 0]))"
proof -
  have "filter (\<lambda>b. \<not> bucket_is_empty b) (hm_buckets demo_map2) = [demo_bucket 97 1, demo_bucket 110 0]" by code_simp
  then show ?thesis
    using iterate_all_from [of 2 demo_map2 0] hm_okD(3,4) [OF demo_maps_ok(2)] by simp
qed

lemma cli_store_true_string_bad_free:
  "run_bind (cli_parser_parse_named_argument (\<lambda>_. 0) True demo_flag (cstr ''--a'') None)
     (\<lambda>(st, p, _). cli_parser_release p) = Some (Inl BadFree)"
proof -
  define p where "p = set_arg demo_flag 1 ((cp_heap demo_flag ! 1)\<lparr>ca_data := DataB True, ca_data_sz := 1\<rparr>)"
  have "cli_parser_find_arg demo_flag (cstr ''--a'') = Some (Inr (Some 1))" by code_simp
  moreover have "dropWhile is_dash (cstr ''--a'') = [97]" "dropWhile (\<lambda>c. \<not> is_sep c) [97] = []" by code_simp+
  moreover have "cli_deref demo_flag (Some 1) = Some (Inr (cp_heap demo_flag ! 1))"
    "CLI_PARG_GET_ACTION (ca_flags (cp_heap demo_flag ! 1)) = action_val CLIArgAction_StoreTrue"
    by code_simp+
  ultimately have "cli_parser_parse_named_argument (\<lambda>_. 0) True demo_flag (cstr ''--a'') None = Some (Inr (CliTrue, p, 0))"
    by (simp add: cli_parser_parse_named_argument_def p_def del: action_val.simps dropWhile_eq_Nil_conv)
  moreover have "cp_args_map p = demo_map2" by (simp add: p_def demo_flag_def set_arg_def demo_cli_def)
  moreover have "cli_release_args p (map entry_of [demo_bucket 97 1, demo_bucket 110 0]) = Some (Inl BadFree)"
    unfolding p_def by code_simp
  ultimately show ?thesis by (simp add: cli_parser_release_def demo_iterate)
qed

text \<open>A counter of the float type is accepted; reading it back reads the float member of a counted integer.\<close>

definition demo_counter :: cli_parser where
  "demo_counter = set_arg (demo_cli []) 0 ((demo_arg 110 CLIArgMode_Optional CLIArgType_Float)\<lparr>ca_flags :=
     cli_arg_flags CLIArgMode_Optional CLIArgType_Float CLIArgAction_Count\<rparr>)"

lemma cli_count_float_wrong_member:
  "run_bind (cli_parser_parse_named_argument (\<lambda>_. 0) True demo_counter (cstr ''--n'') None)
     (\<lambda>(st, p, _). cli_parser_arg_get_f64 p [110] 0) = Some (Inl WrongMember)"
  by code_simp

end
