(* ===== verification/StrView.thy ===== *)
theory StrView
  imports CType
begin

text \<open>
  The string views of \<^verbatim>\<open>strview.c\<close> and the substring search of \<^verbatim>\<open>string_algo.c\<close>. A
  pointer is an offset in the block of the string it belongs to (terminator included); a view is
  such an offset, or \<open>None\<close> for \<^verbatim>\<open>NULL\<close>, with a size. Every read is checked against the
  block.
\<close>

subsection \<open>Views\<close>

record strview =
  sv_size :: nat
  sv_data :: "nat option"

definition strview_new :: "nat option \<Rightarrow> nat \<Rightarrow> strview" where
  "strview_new data n = \<lparr>sv_size = n, sv_data = data\<rparr>"

definition STRVIEW_NULL :: strview where
  "STRVIEW_NULL = strview_new None 0"

definition view_ptr :: "strview \<Rightarrow> nat res" where
  "view_ptr v = (case sv_data v of None \<Rightarrow> Inl NullDeref | Some i \<Rightarrow> Inr i)"

text \<open>The result is the value of the C expression: non-zero stands for equal.\<close>

definition strview_cmp :: "bytes \<Rightarrow> strview \<Rightarrow> bytes \<Rightarrow> strview \<Rightarrow> bool res" where
  "strview_cmp ml lhs mr rhs =
     (if sv_size lhs \<noteq> sv_size rhs
      then res_bind (view_ptr lhs) (\<lambda>i. res_bind (view_ptr rhs) (\<lambda>j. mem_eq ml i mr j (sv_size lhs)))
      else Inr False)"

subsection \<open>Splitting\<close>

function strview_split_loop :: "bytes \<Rightarrow> u8 \<Rightarrow> nat \<Rightarrow> nat \<Rightarrow> nat res" where
  "strview_split_loop mem sep iter_ptr steps =
     (if iter_ptr < length mem then
        if mem ! iter_ptr = sep \<or> mem ! iter_ptr = 0 then Inr steps
        else strview_split_loop mem sep (iter_ptr + 1) (steps + 1)
      else Inl OutOfBounds)"
  by pat_completeness auto
termination by (relation "measure (\<lambda>(mem, _, i, _). length mem - i)") auto

text \<open>
  \<open>data\<close> is the offset of the string that is split. The result is \<open>None\<close> for the value 0,
  and the new view for the value 1.
\<close>

definition strview_split :: "bytes \<Rightarrow> nat \<Rightarrow> u8 \<Rightarrow> strview \<Rightarrow> strview option res" where
  "strview_split mem data sep view =
     (let actual_ptr = (case sv_data view of Some p \<Rightarrow> p + sv_size view | None \<Rightarrow> data)
      in res_bind (read_at mem actual_ptr) (\<lambda>c.
         if c = 0 then Inr None
         else
           let actual_ptr = (if c = sep then actual_ptr + 1 else actual_ptr)
           in res_bind (strview_split_loop mem sep actual_ptr 0) (\<lambda>steps.
                Inr (Some (strview_new (Some actual_ptr) steps)))))"

function strview_lsplit_loop :: "bytes \<Rightarrow> bytes \<Rightarrow> nat \<Rightarrow> nat \<Rightarrow> (nat \<times> nat) res" where
  "strview_lsplit_loop mem sep data sz =
     (if data < length mem then
        if mem ! data = 0 then Inr (data, sz)
        else res_bind (mem_eq mem data sep 0 (length sep)) (\<lambda>e.
          if e then Inr (data, sz) else strview_lsplit_loop mem sep (data + 1) (sz + 1))
      else Inl OutOfBounds)"
  by pat_completeness auto
termination by (relation "measure (\<lambda>(mem, _, i, _). length mem - i)") auto

text \<open>\<open>sep\<close> holds the characters of the separator; the second view is the one passed in.\<close>

definition strview_lsplit :: "bytes \<Rightarrow> bytes \<Rightarrow> (strview \<times> strview) res" where
  "strview_lsplit mem sep =
     res_bind (strview_lsplit_loop mem sep 0 0) (\<lambda>(data, sz).
     res_bind (strlen_at mem data) (\<lambda>n.
       Inr (strview_new (Some 0) sz, strview_new (Some data) n)))"

text \<open>
  The loop of \<^verbatim>\<open>strview_rsplit\<close>: the first condition is a comparison of a \<^verbatim>\<open>size_t\<close>
  with 0 and always holds, an index that wrapped around is out of the block.
\<close>

function strview_rsplit_loop :: "bytes \<Rightarrow> bytes \<Rightarrow> nat \<Rightarrow> nat \<Rightarrow> (nat \<times> nat) res" where
  "strview_rsplit_loop mem sep i sz =
     (if i < length sep then Inl OutOfBounds
      else res_bind (mem_eq mem (i - length sep) sep 0 (length sep)) (\<lambda>e.
        if e then Inr (i, sz)
        else if i = 0 then Inl OutOfBounds
        else strview_rsplit_loop mem sep (i - 1) (sz + 1)))"
  by pat_completeness auto
termination by (relation "measure (\<lambda>(_, _, i, _). i)") auto

definition strview_rsplit :: "bytes \<Rightarrow> bytes \<Rightarrow> (strview \<times> strview) res" where
  "strview_rsplit mem sep =
     res_bind (strlen_at mem 0) (\<lambda>string_size.
       if string_size = 0 then Inl OutOfBounds
       else
         res_bind (strview_rsplit_loop mem sep (string_size - 1) 0) (\<lambda>(i, sz).
           Inr (strview_new (Some i) (sz + 1), strview_new (Some 0) i)))"

subsection \<open>Searching and testing\<close>

text \<open>\<open>substr_len\<close> is below 1 when the length of the terminated string is meant.\<close>

definition substr_length :: "bytes \<Rightarrow> int \<Rightarrow> nat res" where
  "substr_length sub substr_len = (if substr_len < 1 then strlen_at sub 0 else Inr (nat substr_len))"

function strview_find_loop :: "bytes \<Rightarrow> nat \<Rightarrow> nat \<Rightarrow> bytes \<Rightarrow> nat \<Rightarrow> nat \<Rightarrow> int res" where
  "strview_find_loop mem p sz sub n offset =
     (if 0 < n \<and> n - 1 + offset < sz then
        res_bind (mem_eq mem (p + offset) sub 0 n) (\<lambda>e.
          if e then Inr (int offset) else strview_find_loop mem p sz sub n (offset + 1))
      else Inr (- 1))"
  by pat_completeness auto
termination by (relation "measure (\<lambda>(_, _, sz, _, _, offset). sz - offset)") auto

text \<open>
  With an empty substring \<^verbatim>\<open>_substr_len - 1 + offset\<close> is -1 at first, which is converted to the
  largest \<^verbatim>\<open>size_t\<close>: the loop is not entered. Sizes and offsets are below 2^31.
\<close>

definition strview_find :: "bytes \<Rightarrow> strview \<Rightarrow> bytes \<Rightarrow> int \<Rightarrow> int res" where
  "strview_find mem s sub substr_len =
     res_bind (substr_length sub substr_len) (\<lambda>n.
       if n > sv_size s then Inr (- 1)
       else if sv_size s = 0 then Inr (- 1)
       else res_bind (view_ptr s) (\<lambda>p. strview_find_loop mem p (sv_size s) sub n 0))"

definition strview_startswith :: "bytes \<Rightarrow> strview \<Rightarrow> bytes \<Rightarrow> int \<Rightarrow> bool res" where
  "strview_startswith mem s sub substr_len =
     res_bind (substr_length sub substr_len) (\<lambda>n.
       if n > sv_size s then Inr False
       else res_bind (view_ptr s) (\<lambda>p. mem_eq sub 0 mem p n))"

definition strview_endswith :: "bytes \<Rightarrow> strview \<Rightarrow> bytes \<Rightarrow> int \<Rightarrow> bool res" where
  "strview_endswith mem s sub substr_len =
     res_bind (substr_length sub substr_len) (\<lambda>n.
       if n > sv_size s then Inr False
       else res_bind (view_ptr s) (\<lambda>p. mem_eq sub 0 mem (p + (sv_size s - n)) n))"

subsection \<open>Trimming and conversions\<close>

text \<open>
  The loop at the end of \<^verbatim>\<open>strview_trim\<close>. The size is a \<^verbatim>\<open>size_t\<close>: a negative one
  here stands for the value it wraps around to, and data at such an index is out of the block.
\<close>

definition text_at :: "bytes \<Rightarrow> nat \<Rightarrow> int \<Rightarrow> u8 res" where
  "text_at mem p i = (if 0 \<le> i \<and> p + nat i < length mem then Inr (mem ! (p + nat i)) else Inl OutOfBounds)"

function strview_trim_loop :: "bytes \<Rightarrow> nat \<Rightarrow> int \<Rightarrow> int res" where
  "strview_trim_loop mem p sz =
     (if sz = 0 then
        (case text_at mem p sz of Inl e \<Rightarrow> Inl e
         | Inr c \<Rightarrow> if c = 0 then strview_trim_loop mem p (- 1) else Inr (- 1))
      else
        (case text_at mem p sz of Inl e \<Rightarrow> Inl e
         | Inr c \<Rightarrow>
             if c_space c then strview_trim_loop mem p (sz - 1)
             else (case text_at mem p (sz - 1) of Inl e \<Rightarrow> Inl e
               | Inr d \<Rightarrow> if d = 0 then strview_trim_loop mem p (sz - 2) else Inr (sz - 2))))"
  by pat_completeness auto
termination
  by (relation "measure (\<lambda>(_, _, sz). nat (sz + 2))") (auto simp: text_at_def split: if_splits)

definition strview_trim :: "bytes \<Rightarrow> strview res" where
  "strview_trim mem =
     (let data = length (takeWhile c_space mem)
      in res_bind (read_at mem data) (\<lambda>c.
         if c = 0 then Inr STRVIEW_NULL
         else res_bind (strlen_at mem data) (\<lambda>n.
           res_bind (strview_trim_loop mem data (int n)) (\<lambda>sz.
             Inr (strview_new (Some data) (unat (word_of_int sz :: u64)))))))"

text \<open>
  \<^verbatim>\<open>strtol\<close> reads the string the view points into, not the view; its result is converted to
  \<^verbatim>\<open>int\<close>, as \<^verbatim>\<open>atoi\<close> does.
\<close>

definition strview_parse_int :: "bytes \<Rightarrow> strview \<Rightarrow> 32 word res" where
  "strview_parse_int mem s = res_bind (view_ptr s) (atoi_at mem)"

definition strview_parse_bool :: "bytes \<Rightarrow> strview \<Rightarrow> bool res" where
  "strview_parse_bool mem s =
     (if sv_size s = 0 then Inr False
      else res_bind (view_ptr s) (\<lambda>p. res_bind (read_at mem p) (\<lambda>c.
        if c = of_char CHR ''0'' \<or> c = of_char CHR ''1'' then Inr (c - 0x30 \<noteq> 0)
        else if sv_size s < 4 then Inr False
        else res_bind (mem_eq mem p (cstr ''true'') 0 4) (\<lambda>t.
             res_bind (mem_eq mem p (cstr ''True'') 0 4) (\<lambda>T.
               if t \<or> T then Inr True
               else if sv_size s < 5 then Inr False
               else res_bind (mem_eq mem p (cstr ''false'') 0 5) (\<lambda>_. Inr False))))))"

subsection \<open>Substring search\<close>

function strstrn_inner :: "bytes \<Rightarrow> bytes \<Rightarrow> nat \<Rightarrow> nat \<Rightarrow> nat \<Rightarrow> nat res" where
  "strstrn_inner haystack needle needle_len i j =
     (if j < needle_len then
        res_bind (read_at haystack (i + j)) (\<lambda>a. res_bind (read_at needle j) (\<lambda>b.
          if a \<noteq> b then Inr j else strstrn_inner haystack needle needle_len i (j + 1)))
      else Inr j)"
  by pat_completeness auto
termination by (relation "measure (\<lambda>(_, _, n, _, j). n - j)") auto

function strstrn_loop :: "bytes \<Rightarrow> bytes \<Rightarrow> nat \<Rightarrow> u8 \<Rightarrow> nat \<Rightarrow> nat \<Rightarrow> nat option res" where
  "strstrn_loop haystack needle needle_len first search_sz i =
     (if i < search_sz then
        res_bind (read_at haystack i) (\<lambda>c.
          if c \<noteq> first then strstrn_loop haystack needle needle_len first search_sz (i + 1)
          else res_bind (strstrn_inner haystack needle needle_len i 1) (\<lambda>j.
            if j = needle_len then Inr (Some i)
            else strstrn_loop haystack needle needle_len first search_sz (i + 1)))
      else Inr None)"
  by pat_completeness auto
termination by (relation "measure (\<lambda>(_, _, _, _, n, i). n - i)") auto

text \<open>The arguments that may be \<^verbatim>\<open>NULL\<close> are options; the result is an offset in the haystack.\<close>

definition strstrn :: "bytes option \<Rightarrow> nat \<Rightarrow> bytes option \<Rightarrow> nat \<Rightarrow> nat option res" where
  "strstrn haystack haystack_len needle needle_len =
     (case (haystack, needle) of
        (Some h, Some n) \<Rightarrow>
          if needle_len = 0 then Inr (Some 0)
          else if needle_len > haystack_len then Inr None
          else res_bind (read_at n 0) (\<lambda>first.
            strstrn_loop h n needle_len first (haystack_len - needle_len + 1) 0)
      | _ \<Rightarrow> Inr None)"

declare strview_split_loop.simps [simp del] strview_lsplit_loop.simps [simp del] strview_rsplit_loop.simps [simp del]
  strview_find_loop.simps [simp del] strview_trim_loop.simps [simp del] strstrn_inner.simps [simp del]
  strstrn_loop.simps [simp del]

subsection \<open>Occurrences\<close>

definition occurs :: "bytes \<Rightarrow> bytes \<Rightarrow> nat \<Rightarrow> bool" where
  "occurs s t i \<longleftrightarrow> take (length t) (drop i s) = t"

lemma occurs_fits: "occurs s t i \<Longrightarrow> t \<noteq> [] \<Longrightarrow> i + length t \<le> length s"
  unfolding occurs_def by (cases "i + length t \<le> length s") (auto dest: arg_cong [where f = length])

lemma occurs_nth:
  assumes "i + length t \<le> length s"
  shows "occurs s t i \<longleftrightarrow> (\<forall>k < length t. s ! (i + k) = t ! k)"
  using assms by (auto simp: occurs_def list_eq_iff_nth_eq)

lemma find_upt_step:
  "i < n \<Longrightarrow> find P [i..<n] = (if P i then Some i else find P [Suc i..<n])"
  by (simp add: upt_conv_Cons)

lemma find_upt_extend: "(\<And>j. n \<le> j \<Longrightarrow> j < m \<Longrightarrow> \<not> P j) \<Longrightarrow> n \<le> m \<Longrightarrow> find P [i..<m] = find P [i..<n]"
proof (induction "n - i" arbitrary: i)
  case 0
  then have "\<forall>j \<in> set [i..<m]. \<not> P j" by auto
  then have "find P [i..<m] = None" by (simp add: find_None_iff)
  then show ?case using 0 by simp
next
  case (Suc d)
  then have "find P [Suc i..<m] = find P [Suc i..<n]" "i < n" "i < m" by auto
  then show ?case by (simp add: find_upt_step)
qed

subsection \<open>The substring search\<close>

lemma strstrn_inner_ok:
  assumes "i + nl \<le> length h" "nl \<le> length n" "j \<le> nl"
  shows "\<exists>j'. strstrn_inner h n nl i j = Inr j' \<and> (j' = nl \<longleftrightarrow> (\<forall>k. j \<le> k \<and> k < nl \<longrightarrow> h ! (i + k) = n ! k))"
  using assms(3)
proof (induction rule: inc_induct)
  case base
  then show ?case by (subst strstrn_inner.simps) auto
next
  case (step j)
  have d: "read_at h (i + j) = Inr (h ! (i + j))" "read_at n j = Inr (n ! j)"
    using step assms by (simp_all add: read_at_def)
  show ?case
  proof (cases "h ! (i + j) = n ! j")
    case True
    obtain j' where "strstrn_inner h n nl i (Suc j) = Inr j'"
        "j' = nl \<longleftrightarrow> (\<forall>k. Suc j \<le> k \<and> k < nl \<longrightarrow> h ! (i + k) = n ! k)"
      using step.IH by blast
    moreover have "(\<forall>k. j \<le> k \<and> k < nl \<longrightarrow> h ! (i + k) = n ! k)
        \<longleftrightarrow> (\<forall>k. Suc j \<le> k \<and> k < nl \<longrightarrow> h ! (i + k) = n ! k)"
      using True by (metis Suc_le_eq le_neq_implies_less less_imp_le)
    ultimately show ?thesis using True d step by (subst strstrn_inner.simps) simp
  next
    case False
    then show ?thesis using d step by (subst strstrn_inner.simps) auto
  qed
qed

lemma strstrn_loop_ok:
  assumes len: "hl \<le> length h" "nl \<le> length n" "0 < nl" "nl \<le> hl" and N: "N = hl - nl + 1"
  shows "strstrn_loop h n nl (n ! 0) (N) i
    = Inr (find (occurs (take hl h) (take nl n)) [i..<N])"
proof (induction "N - i" arbitrary: i)
  case 0
  then show ?case by (subst strstrn_loop.simps) simp
next
  case (Suc d)
  have i: "i < N" using Suc.hyps(2) by simp
  have IH: "strstrn_loop h n nl (n ! 0) (N) (i + 1)
      = Inr (find (occurs (take hl h) (take nl n)) [Suc i..<N])"
    using Suc.hyps(1) [of "i + 1"] Suc.hyps(2) by simp
  have fit: "i + nl \<le> hl" using i len N by simp
  have occ: "occurs (take hl h) (take nl n) i \<longleftrightarrow> (\<forall>k < nl. h ! (i + k) = n ! k)"
    using fit len by (subst occurs_nth) auto
  have d: "read_at h i = Inr (h ! i)" using fit len by (simp add: read_at_def)
  show ?case
  proof (cases "h ! i = n ! 0")
    case False
    then have "\<not> occurs (take hl h) (take nl n) i" using occ len(3) by auto
    then show ?thesis using False i d IH by (subst strstrn_loop.simps) (simp add: find_upt_step)
  next
    case True
    obtain j where j: "strstrn_inner h n nl i 1 = Inr j"
        "j = nl \<longleftrightarrow> (\<forall>k. 1 \<le> k \<and> k < nl \<longrightarrow> h ! (i + k) = n ! k)"
      using strstrn_inner_ok [of i nl h n 1] fit len by auto
    have "j = nl \<longleftrightarrow> occurs (take hl h) (take nl n) i"
      unfolding j(2) occ using True by (metis One_nat_def Suc_leI add_0_right neq0_conv)
    then show ?thesis using True i d j(1) IH by (subst strstrn_loop.simps) (auto simp: find_upt_step)
  qed
qed

text \<open>
  C35: The substring search returns the first position at which the needle occurs in the haystack, or
  \<^verbatim>\<open>NULL\<close> when it does not occur, and reads nothing beyond the two lengths it is given.
\<close>

theorem strstrn_correct:
  assumes len: "hl \<le> length h" "nl \<le> length n"
  shows "strstrn (Some h) hl (Some n) nl = Inr (find (occurs (take hl h) (take nl n)) [0..<hl + 1])"
proof -
  consider "nl = 0" | "nl > hl" | "0 < nl" "nl \<le> hl" by linarith
  then show ?thesis
  proof cases
    case 1
    then show ?thesis by (simp add: strstrn_def occurs_def find_upt_step del: upt.simps)
  next
    case 2
    then have ne: "take nl n \<noteq> []" using len by auto
    have "\<not> occurs (take hl h) (take nl n) i" for i
      using occurs_fits [OF _ ne, of "take hl h" i] 2 len by auto
    then have "find (occurs (take hl h) (take nl n)) [0..<hl + 1] = None" by (simp add: find_None_iff del: upt.simps)
    then show ?thesis using 2 by (simp add: strstrn_def del: upt.simps)
  next
    case 3
    have ne: "take nl n \<noteq> []" using 3 len by (metis length_take list.size(3) min_absorb2 neq0_conv)
    have "\<not> occurs (take hl h) (take nl n) i" if "hl - nl + 1 \<le> i" for i
      using occurs_fits [OF _ ne, of "take hl h" i] 3 len that by auto
    then have "find (occurs (take hl h) (take nl n)) [0..<hl + 1] = find (occurs (take hl h) (take nl n)) [0..<hl - nl + 1]"
      by (intro find_upt_extend) auto
    moreover have "read_at n 0 = Inr (n ! 0)" using 3 len by (cases n) (auto simp: read_at_def)
    ultimately show ?thesis using 3 strstrn_loop_ok [OF len 3 refl] by (simp add: strstrn_def del: upt.simps)
  qed
qed

theorem strstrn_correct_witness:
  "strstrn (Some (cstr ''abcabd'')) 6 (Some (cstr ''abd'')) 3 = Inr (Some 3)"
proof -
  have "find (occurs (take 6 (cstr ''abcabd'')) (take 3 (cstr ''abd''))) [0..<6 + 1] = Some 3" by code_simp
  then show ?thesis using strstrn_correct [of 6 "cstr ''abcabd''" 3 "cstr ''abd''"] by (simp add: cstr_def)
qed

subsection \<open>Views of a block\<close>

text \<open>A view inside its block, and the bytes it shows.\<close>

definition view_in :: "bytes \<Rightarrow> strview \<Rightarrow> bool" where
  "view_in mem v \<longleftrightarrow> (\<exists>p. sv_data v = Some p \<and> p + sv_size v \<le> length mem)"

definition view_bytes :: "bytes \<Rightarrow> strview \<Rightarrow> bytes" where
  "view_bytes mem v = take (sv_size v) (drop (case sv_data v of Some p \<Rightarrow> p | None \<Rightarrow> 0) mem)"

lemma find_loop_ok:
  assumes len: "p + sz \<le> length mem" "n \<le> length sub" "0 < n" "n \<le> sz"
  shows "strview_find_loop mem p sz sub n i = Inr (case find (occurs (take sz (drop p mem)) (take n sub)) [i..<sz - n + 1] of
     Some k \<Rightarrow> int k | None \<Rightarrow> - 1)"
proof (induction "sz - n + 1 - i" arbitrary: i)
  case 0
  then show ?case by (subst strview_find_loop.simps) auto
next
  case (Suc d)
  have i: "i < sz - n + 1" "n - 1 + i < sz" using Suc.hyps(2) len by simp_all
  have "mem_eq mem (p + i) sub 0 n = Inr (occurs (take sz (drop p mem)) (take n sub) i)"
    using i len by (simp add: mem_eq_ok occurs_def min_def drop_take add.commute)
  then show ?case using Suc.hyps(1) [of "i + 1"] Suc.hyps(2) i len(3)
    by (subst strview_find_loop.simps) (simp add: find_upt_step del: upt.simps)
qed

text \<open>The search in a view agrees with \<open>strstrn\<close> on a non-empty substring of known length.\<close>

lemma strview_find_correct:
  assumes v: "view_in mem v" and n: "0 < n" "n \<le> length sub"
  shows "strview_find mem v sub (int n) = Inr (case find (occurs (view_bytes mem v) (take n sub)) [0..<sv_size v + 1] of
     Some k \<Rightarrow> int k | None \<Rightarrow> - 1)"
proof -
  obtain p where p: "sv_data v = Some p" "p + sv_size v \<le> length mem" using v by (auto simp: view_in_def)
  have len: "length (view_bytes mem v) = sv_size v" using p by (simp add: view_bytes_def)
  have ne: "take n sub \<noteq> []" using n by auto
  have out: "\<not> occurs (view_bytes mem v) (take n sub) i" if "sv_size v < i + n" for i
    using occurs_fits [OF _ ne, of "view_bytes mem v" i] that n len by auto
  show ?thesis
  proof (cases "n \<le> sv_size v")
    case False
    then have "find (occurs (view_bytes mem v) (take n sub)) [0..<sv_size v + 1] = None"
      using out by (auto simp: find_None_iff simp del: upt.simps)
    then show ?thesis using False n by (simp add: strview_find_def substr_length_def del: upt.simps)
  next
    case True
    have "find (occurs (view_bytes mem v) (take n sub)) [0..<sv_size v + 1]
        = find (occurs (view_bytes mem v) (take n sub)) [0..<sv_size v - n + 1]"
      using out by (intro find_upt_extend) auto
    then show ?thesis
      using True n p find_loop_ok [OF p(2) n(2,1) True, of 0]
      by (simp add: strview_find_def substr_length_def view_ptr_def view_bytes_def del: upt.simps)
  qed
qed

text \<open>Equal views never compare as equal: the test of the sizes is negated.\<close>

lemma strview_cmp_equal_false: "sv_size a = sv_size b \<Longrightarrow> strview_cmp ma a mb b = Inr False"
  by (simp add: strview_cmp_def)


subsection \<open>Splitting\<close>

text \<open>The loop of a client, \<^verbatim>\<open>while(strview_split(data, sep, &view))\<close>: the views it sees.\<close>

partial_function (option) strview_split_all :: "bytes \<Rightarrow> nat \<Rightarrow> u8 \<Rightarrow> strview \<Rightarrow> strview list run" where
  "strview_split_all mem data sep view =
     run_bind (Some (strview_split mem data sep view)) (\<lambda>r. case r of
       None \<Rightarrow> Some (Inr [])
     | Some v \<Rightarrow> run_bind (strview_split_all mem data sep v) (\<lambda>vs. Some (Inr (v # vs))))"

text \<open>The pieces of a string between the separators.\<close>

function split_on :: "u8 \<Rightarrow> bytes \<Rightarrow> bytes list" where
  "split_on c s = (case dropWhile (\<lambda>x. x \<noteq> c) s of
     [] \<Rightarrow> [takeWhile (\<lambda>x. x \<noteq> c) s]
   | _ # r \<Rightarrow> takeWhile (\<lambda>x. x \<noteq> c) s # split_on c r)"
  by pat_completeness auto
termination
proof (relation "measure (length \<circ> snd)", simp)
  fix c s x r assume "dropWhile (\<lambda>x. x \<noteq> c) s = x # r"
  then have "length (x # r) \<le> length s" by (metis length_dropWhile_le)
  then show "((c, r), (c, s)) \<in> measure (length \<circ> snd)" by simp
qed

declare split_on.simps [simp del]

definition tokens :: "u8 \<Rightarrow> bytes \<Rightarrow> bytes list" where
  "tokens c s = (if s = [] then [] else split_on c (if hd s = c then tl s else s))"

lemma split_loop_ok:
  assumes mem: "mem = pre @ s @ 0 # post" and s: "0 \<notin> set s"
  shows "strview_split_loop mem sep (length pre) k = Inr (k + length (takeWhile (\<lambda>x. x \<noteq> sep) s))"
  using assms
proof (induction s arbitrary: pre k)
  case Nil
  then show ?case by (subst strview_split_loop.simps) simp
next
  case (Cons c s)
  have "mem ! length pre = c" "length pre < length mem" using Cons.prems by simp_all
  moreover have "strview_split_loop mem sep (length pre + 1) (k + 1)
      = Inr (k + 1 + length (takeWhile (\<lambda>x. x \<noteq> sep) s))" if "c \<noteq> sep"
    using Cons.IH [of "pre @ [c]" "k + 1"] Cons.prems by simp
  ultimately show ?case using Cons.prems(2) by (subst strview_split_loop.simps) auto
qed

lemma split_step:
  assumes mem: "mem = pre @ s @ 0 # post" and s: "0 \<notin> set s" and sep: "sep \<noteq> 0"
    and start: "(case sv_data view of Some p \<Rightarrow> p + sv_size view | None \<Rightarrow> data) = length pre"
  shows "strview_split mem data sep view = Inr (if s = [] then None
    else let k = (if hd s = sep then 1 else 0)
      in Some (strview_new (Some (length pre + k)) (length (takeWhile (\<lambda>x. x \<noteq> sep) (drop k s)))))"
proof (cases s)
  case Nil
  then show ?thesis using mem by (simp add: strview_split_def Let_def start read_at_def)
next
  case (Cons c r)
  have "read_at mem (length pre) = Inr c" using mem Cons by (simp add: read_at_def)
  moreover have "strview_split_loop mem sep (length pre + 1) 0 = Inr (length (takeWhile (\<lambda>x. x \<noteq> sep) r))"
    using split_loop_ok [of mem "pre @ [c]" r post sep 0] mem s Cons by simp
  moreover have "strview_split_loop mem sep (length pre) 0 = Inr (length (takeWhile (\<lambda>x. x \<noteq> sep) s))"
    using split_loop_ok [OF mem s, of sep 0] by simp
  ultimately show ?thesis using Cons s by (auto simp: strview_split_def Let_def start)
qed

lemma split_all_ok:
  assumes "mem = pre @ s @ 0 # post" "0 \<notin> set s" "sep \<noteq> 0"
    "(case sv_data view of Some p \<Rightarrow> p + sv_size view | None \<Rightarrow> data) = length pre"
  shows "\<exists>vs. strview_split_all mem data sep view = Some (Inr vs) \<and> (\<forall>v \<in> set vs. view_in mem v) \<and>
    map (view_bytes mem) vs = tokens sep s"
  using assms
proof (induction "length s" arbitrary: pre s view rule: less_induct)
  case less
  show ?case
  proof (cases "s = []")
    case True
    then show ?thesis
      using split_step [OF less.prems] by (subst strview_split_all.simps) (simp add: tokens_def)
  next
    case False
    define k where "k = (if hd s = sep then 1 else 0 :: nat)"
    define s' where "s' = drop k s"
    define t where "t = takeWhile (\<lambda>x. x \<noteq> sep) s'"
    define r where "r = dropWhile (\<lambda>x. x \<noteq> sep) s'"
    define v where "v = strview_new (Some (length pre + k)) (length t)"
    have k: "k \<le> 1" "k \<le> length s" using False by (auto simp: k_def Suc_le_eq)
    have tr: "s' = t @ r" "s' = (if hd s = sep then tl s else s)" by (auto simp: t_def r_def s'_def k_def drop_Suc)
    have mem: "mem = (pre @ take k s @ t) @ r @ 0 # post"
      using less.prems(1) tr(1) by (metis append.assoc append_take_drop_id s'_def)
    have st: "strview_split mem data sep view = Inr (Some v)"
      using split_step [OF less.prems] False by (simp add: v_def t_def s'_def k_def Let_def)
    have start: "(case sv_data v of Some p \<Rightarrow> p + sv_size v | None \<Rightarrow> data) = length (pre @ take k s @ t)"
      using k by (simp add: v_def strview_new_def)
    have r0: "0 \<notin> set r" "0 \<notin> set s'" using less.prems(2) unfolding r_def s'_def by (auto dest: set_dropWhileD in_set_dropD)
    have vb: "view_in mem v" "view_bytes mem v = t"
      using k by (simp_all add: mem v_def strview_new_def view_in_def view_bytes_def)
    have len: "length r \<le> length s" using length_dropWhile_le [of "\<lambda>x. x \<noteq> sep" s'] by (simp add: r_def s'_def)
    have hr: "r \<noteq> [] \<Longrightarrow> hd r = sep" using hd_dropWhile [of "\<lambda>x. x \<noteq> sep" s'] unfolding r_def by blast
    show ?thesis
    proof (cases "length r < length s")
      case True
      then obtain vs where vs: "strview_split_all mem data sep v = Some (Inr vs)" "\<forall>v \<in> set vs. view_in mem v"
          "map (view_bytes mem) vs = tokens sep r"
        using less.hyps [OF True mem r0(1) less.prems(3) start] by blast
      have "split_on sep s' = (case r of [] \<Rightarrow> [t] | _ # r' \<Rightarrow> t # split_on sep r')"
        unfolding t_def r_def by (rule split_on.simps)
      moreover have "tokens sep s = split_on sep s'" using \<open>s \<noteq> []\<close> by (simp only: tokens_def tr(2) if_False)
      ultimately have "tokens sep s = t # tokens sep r" using hr by (cases r) (simp_all add: tokens_def)
      then show ?thesis
        using vs st vb by (subst strview_split_all.simps) simp
    next
      case False
      then have "length s \<le> length r" by simp
      moreover have "length s' = length s - k" by (simp add: s'_def)
      moreover have "length s' = length t + length r" using tr(1) by simp
      ultimately have "length t = 0" "k = 0" using k(2) len by linarith+
      then have "r = s" "hd s \<noteq> sep" using tr \<open>s \<noteq> []\<close> by (auto simp: k_def s'_def split: if_splits)
      moreover have "hd r = sep" using hr \<open>r = s\<close> \<open>s \<noteq> []\<close> by simp
      ultimately show ?thesis by simp
    qed
  qed
qed

text \<open>
  Splitting a string into views visits exactly the pieces between the separator characters, in order
  and inside the block, and ends; one separator at the very start of the string is skipped, so it
  does not give an empty first piece.
\<close>

theorem strview_split_tokens:
  assumes "0 \<notin> set s" "sep \<noteq> 0"
  shows "\<exists>vs. strview_split_all (s @ [0]) 0 sep STRVIEW_NULL = Some (Inr vs) \<and> (\<forall>v \<in> set vs. view_in (s @ [0]) v) \<and>
    map (view_bytes (s @ [0])) vs = tokens sep s"
  using split_all_ok [where mem = "s @ [0]" and pre = "[]" and post = "[]" and view = STRVIEW_NULL and data = 0] assms
  by (simp add: STRVIEW_NULL_def strview_new_def)

theorem strview_split_tokens_witness:
  "\<exists>vs. strview_split_all (cstr ''a,,b'' @ [0]) 0 44 STRVIEW_NULL = Some (Inr vs) \<and>
    map (view_bytes (cstr ''a,,b'' @ [0])) vs = [cstr ''a'', [], cstr ''b'']"
proof -
  have "tokens 44 (cstr ''a,,b'') = [cstr ''a'', [], cstr ''b'']" by (simp add: tokens_def cstr_def split_on.simps)
  moreover have "0 \<notin> set (cstr ''a,,b'')" by (simp add: cstr_def)
  ultimately show ?thesis using strview_split_tokens [of "cstr ''a,,b''" 44] by auto
qed

subsection \<open>Splitting at a substring\<close>

text \<open>A separator that is in the string is found at its first occurrence.\<close>

lemma lsplit_loop_ok:
  assumes s: "0 \<notin> set s" "i \<le> j" and occ: "occurs s sep j" "sep \<noteq> []" "\<forall>k < j. \<not> occurs s sep k"
  shows "strview_lsplit_loop (s @ [0]) sep i n = Inr (j, n + (j - i))"
  using s(2)
proof (induction arbitrary: n rule: inc_induct)
  case base
  have j: "j + length sep \<le> length s" by (rule occurs_fits [OF occ(1,2)])
  then have "j < length s" using occ(2) by (cases sep) auto
  then have "(s @ [0]) ! j \<noteq> 0" using s(1) by (metis nth_append nth_mem)
  moreover have "mem_eq (s @ [0]) j sep 0 (length sep) = Inr True"
    using j occ(1) by (simp add: mem_eq_ok occurs_def)
  ultimately show ?case using \<open>j < length s\<close> by (subst strview_lsplit_loop.simps) simp
next
  case (step i)
  have j: "j + length sep \<le> length s" by (rule occurs_fits [OF occ(1,2)])
  then have i: "i < length s" "i + length sep \<le> length s" using step by simp_all
  then have "(s @ [0]) ! i \<noteq> 0" using s(1) by (metis nth_append nth_mem)
  moreover have "mem_eq (s @ [0]) i sep 0 (length sep) = Inr False"
    using i occ(3) step by (simp add: mem_eq_ok occurs_def)
  ultimately show ?case using i(1) step by (subst strview_lsplit_loop.simps) simp
qed

lemma strview_lsplit_first:
  assumes s: "0 \<notin> set s" and occ: "occurs s sep j" "sep \<noteq> []" "\<forall>k < j. \<not> occurs s sep k"
  shows "\<exists>l r. strview_lsplit (s @ [0]) sep = Inr (l, r) \<and> view_bytes (s @ [0]) l = take j s \<and>
    view_bytes (s @ [0]) r = drop j s"
proof -
  have j: "j \<le> length s" using occurs_fits [OF occ(1,2)] by simp
  have "strlen_at (take j s @ drop j s @ 0 # []) (length (take j s)) = Inr (length (drop j s))"
    using s by (intro strlen_at_ok) (auto dest: in_set_dropD)
  then have "strlen_at (s @ [0]) j = Inr (length s - j)" using j by (simp flip: append_assoc)
  then show ?thesis
    using lsplit_loop_ok [OF s _ occ, of 0 0] j by (simp add: strview_lsplit_def view_bytes_def strview_new_def)
qed

text \<open>
  Splitting from the right never gives up: without a separator the index runs below the start of the
  string.
\<close>

lemma rsplit_loop_absent:
  assumes sep: "sep \<noteq> []" "\<forall>k. \<not> occurs s sep k"
  shows "i \<le> length s \<Longrightarrow> strview_rsplit_loop (s @ [0]) sep i n = Inl OutOfBounds"
proof (induction i arbitrary: n)
  case 0
  then show ?case using sep(1) by (subst strview_rsplit_loop.simps) simp
next
  case (Suc i)
  have "mem_eq (s @ [0]) (Suc i - length sep) sep 0 (length sep) = Inr False" if "\<not> Suc i < length sep"
    using that Suc.prems sep(2) by (simp add: mem_eq_ok occurs_def)
  then show ?case using Suc by (subst strview_rsplit_loop.simps) simp
qed

lemma strview_rsplit_absent:
  assumes "0 \<notin> set s" "sep \<noteq> []" "\<forall>k. \<not> occurs s sep k"
  shows "strview_rsplit (s @ [0]) sep = Inl OutOfBounds"
  using strlen_at_ok [OF assms(1), of "[]" "[]"] rsplit_loop_absent [OF assms(2,3), of "length s - 1" 0]
  by (cases "s = []") (simp_all add: strview_rsplit_def)

subsection \<open>Trimming\<close>

text \<open>
  Trimming skips the blanks in front of the text and then drops its last two characters, whatever
  they are: the loop at the end always stops in its first round. For a single character the size
  wraps around.
\<close>

lemma text_at_nat:
  "text_at mem p (int k) = (if p + k < length mem then Inr (mem ! (p + k)) else Inl OutOfBounds)"
  by (simp add: text_at_def)

lemma strview_trim_drops_two:
  assumes s: "0 \<notin> set s" "\<exists>c \<in> set s. \<not> c_space c"
  shows "strview_trim (s @ [0]) = Inr (strview_new (Some (length (takeWhile c_space s)))
    (unat (word_of_int (int (length (dropWhile c_space s)) - 2) :: u64)))"
proof -
  define pre t where "pre = takeWhile c_space s" and "t = dropWhile c_space s"
  have st: "s = pre @ t" "t \<noteq> []" "0 \<notin> set t" using s by (auto simp: pre_def t_def dest: set_dropWhileD)
  have p: "length (takeWhile c_space (s @ [0])) = length pre" using s(2) by (auto simp: pre_def takeWhile_append)
  have d: "read_at (s @ [0]) (length pre) = Inr (hd t)" using st by (cases t) (simp_all add: read_at_def)
  have n: "strlen_at (s @ [0]) (length pre) = Inr (length t)" using strlen_at_ok [OF st(3), of pre "[]"] st(1) by simp
  obtain u c where u: "t = u @ [c]" using st(2) by (cases t rule: rev_cases) auto
  have "text_at (s @ [0]) (length pre) (int (length t)) = Inr 0" "text_at (s @ [0]) (length pre) (int (length t) - 1) = Inr c"
    using st(1) u text_at_nat [of "s @ [0]" "length pre" "length t"] text_at_nat [of "s @ [0]" "length pre" "length u"]
    by (simp_all add: nth_append)
  moreover have "c \<noteq> 0" "\<not> c_space 0" using st(3) u by (auto simp: c_space_def)
  ultimately have "strview_trim_loop (s @ [0]) (length pre) (int (length t)) = Inr (int (length t) - 2)"
    using st(2) by (subst strview_trim_loop.simps) simp
  moreover have "hd t \<noteq> 0" using st(2,3) by (metis list.set_sel(1))
  ultimately show ?thesis using p d n by (simp add: strview_trim_def Let_def flip: pre_def t_def)
qed

text \<open>The number is read from the string behind the view, past the end of the view.\<close>

lemma strview_parse_int_ignores_size:
  "strview_parse_int (cstr ''123'' @ [0]) (strview_new (Some 0) 2) = Inr 123"
  by code_simp

end
