(* ===== verification/Http.thy ===== *)
theory Http
  imports CType Buffer Arena
begin

text \<open>
  The HTTP client of \<^verbatim>\<open>http.c\<close>: header lists, the text of a request, the parser of a response and
  the exchange of one request and its response. The header entries and their strings are allocated in
  the two arenas of a header (theory Arena, blocks of 2048 bytes and of 16 entries); the entries of a
  header are a list in the order of their allocation, a pointer to an entry is its position, and a
  string is the bytes copied into the string arena, terminator included, with their address there
  (that the arena still holds them is \<open>hdr_stored\<close> in HttpSpec). A pointer into a message is an offset. The socket is a parameter: what \<^verbatim>\<open>socket_send\<close> returns, and the
  pieces that \<^verbatim>\<open>socket_recv\<close> delivers.
\<close>

subsection \<open>Versions and methods\<close>

datatype HTTPVersion = HTTPVersion_Invalid | HTTPVersion_1_1 | HTTPVersion_2 | HTTPVersion_3

datatype HTTPMethod = HTTPMethod_POST | HTTPMethod_GET | HTTPMethod_DELETE | HTTPMethod_PUT
  | HTTPMethod_PATCH | HTTPMethod_HEAD | HTTPMethod_OPTIONS | HTTPMethod_TRACE | HTTPMethod_CONNECT

fun version_val :: "HTTPVersion \<Rightarrow> int" where
  "version_val HTTPVersion_Invalid = 0"
| "version_val HTTPVersion_1_1 = 1"
| "version_val HTTPVersion_2 = 2"
| "version_val HTTPVersion_3 = 3"

text \<open>
  The version of a response is whatever number follows \<^verbatim>\<open>HTTP/\<close>, so the functions on
  versions take the value of the enumeration type.
\<close>

definition http_version_as_string :: "int \<Rightarrow> bytes option" where
  "http_version_as_string v =
     (if v = version_val HTTPVersion_1_1 then Some (cstr ''HTTP/1.1'')
      else if v = version_val HTTPVersion_2 then Some (cstr ''HTTP/2'')
      else if v = version_val HTTPVersion_3 then Some (cstr ''HTTP/3'')
      else None)"

definition http_version_as_strlen :: "int \<Rightarrow> nat" where
  "http_version_as_strlen v =
     (if v = version_val HTTPVersion_1_1 then 8
      else if v = version_val HTTPVersion_2 \<or> v = version_val HTTPVersion_3 then 6
      else 0)"

definition http_version_from_string :: "bytes \<Rightarrow> nat \<Rightarrow> int res" where
  "http_version_from_string str str_sz =
     (if str_sz < 6 then Inr (version_val HTTPVersion_Invalid)
      else if take 5 str \<noteq> cstr ''HTTP/'' then Inr (version_val HTTPVersion_Invalid)
      else res_bind (read_at str 5) (\<lambda>c. Inr (sint c - 48)))"

fun http_method_as_string :: "HTTPMethod \<Rightarrow> bytes" where
  "http_method_as_string HTTPMethod_POST = cstr ''POST''"
| "http_method_as_string HTTPMethod_GET = cstr ''GET''"
| "http_method_as_string HTTPMethod_DELETE = cstr ''DELETE''"
| "http_method_as_string HTTPMethod_PUT = cstr ''PUT''"
| "http_method_as_string HTTPMethod_PATCH = cstr ''PATCH''"
| "http_method_as_string HTTPMethod_HEAD = cstr ''HEAD''"
| "http_method_as_string HTTPMethod_OPTIONS = cstr ''OPTIONS''"
| "http_method_as_string HTTPMethod_TRACE = cstr ''TRACE''"
| "http_method_as_string HTTPMethod_CONNECT = cstr ''CONNECT''"

fun http_method_as_strlen :: "HTTPMethod \<Rightarrow> nat" where
  "http_method_as_strlen HTTPMethod_POST = 4"
| "http_method_as_strlen HTTPMethod_GET = 3"
| "http_method_as_strlen HTTPMethod_DELETE = 6"
| "http_method_as_strlen HTTPMethod_PUT = 3"
| "http_method_as_strlen HTTPMethod_PATCH = 5"
| "http_method_as_strlen HTTPMethod_HEAD = 4"
| "http_method_as_strlen HTTPMethod_OPTIONS = 7"
| "http_method_as_strlen HTTPMethod_TRACE = 5"
| "http_method_as_strlen HTTPMethod_CONNECT = 7"

subsection \<open>Headers\<close>

record http_entry =
  he_key :: bytes
  he_key_at :: "nat \<times> nat"
  he_value :: bytes
  he_value_at :: "nat \<times> nat"
  he_next :: "nat option"

record http_header =
  hh_entries :: "http_entry list"
  hh_head :: "nat option"
  hh_tail :: "nat option"
  hh_strings :: arena
  hh_entries_arena :: arena

definition STRING_ARENA_SZ :: nat where
  "STRING_ARENA_SZ = 2048"

definition SIZEOF_HTTPHeaderEntry :: nat where
  "SIZEOF_HTTPHeaderEntry = 24"

definition http_header_init :: "(nat \<Rightarrow> bool) \<Rightarrow> (nat \<Rightarrow> u8) \<Rightarrow> http_header option" where
  "http_header_init ok junk =
     (case arena_init (ok 0) junk STRING_ARENA_SZ of None \<Rightarrow> None
      | Some strings \<Rightarrow> (case arena_init (ok 1) junk (16 * SIZEOF_HTTPHeaderEntry) of None \<Rightarrow> None
        | Some entries \<Rightarrow> Some \<lparr>hh_entries = [], hh_head = None, hh_tail = None,
            hh_strings = strings, hh_entries_arena = entries\<rparr>))"

definition entry_at :: "http_header \<Rightarrow> nat \<Rightarrow> http_entry res" where
  "entry_at h i = (if i < length (hh_entries h) then Inr (hh_entries h ! i) else Inl OutOfBounds)"

definition set_next :: "http_header \<Rightarrow> nat \<Rightarrow> nat option \<Rightarrow> http_header res" where
  "set_next h i e =
     res_bind (entry_at h i) (\<lambda>x. Inr (h\<lparr>hh_entries := (hh_entries h)[i := x\<lparr>he_next := e\<rparr>]\<rparr>))"

text \<open>
  The copy of a string into the string arena, with an explicit size, where 0 asks for
  \<^verbatim>\<open>strlen\<close>. Nothing compares the size with that of a block: a longer string runs over the end of
  the block (\<open>OutOfBounds\<close>), and an address that could not be allocated is written through.
\<close>

definition http_copy ::
  "bool \<Rightarrow> (nat \<Rightarrow> u8) \<Rightarrow> arena \<Rightarrow> bytes \<Rightarrow> nat \<Rightarrow> nat \<Rightarrow> (bytes \<times> (nat \<times> nat) \<times> arena) res" where
  "http_copy ok junk a mem p sz =
     res_bind (if sz = 0 then strlen_at mem p else Inr sz) (\<lambda>n.
     res_bind (blk_read mem p n) (\<lambda>s.
     res_bind (arena_push ok junk a (Some (s @ [0])) (n + 1)) (\<lambda>(addr, a).
       case addr of None \<Rightarrow> Inl NullDeref | Some addr \<Rightarrow> Inr (s @ [0], addr, a))))"

definition http_header_add_entry ::
  "(nat \<Rightarrow> bool) \<Rightarrow> (nat \<Rightarrow> u8) \<Rightarrow> http_header \<Rightarrow> bytes \<Rightarrow> nat \<Rightarrow> nat \<Rightarrow> bytes \<Rightarrow> nat \<Rightarrow> nat \<Rightarrow> http_header res" where
  "http_header_add_entry ok junk h kmem key key_sz vmem value value_sz =
     res_bind (arena_push (ok 0) junk (hh_entries_arena h) None SIZEOF_HTTPHeaderEntry) (\<lambda>(at, entries).
     res_bind (http_copy (ok 1) junk (hh_strings h) kmem key key_sz) (\<lambda>(internal_key, key_at, strings).
     res_bind (http_copy (ok 2) junk strings vmem value value_sz) (\<lambda>(internal_value, value_at, strings).
       if at = None then Inl NullDeref else
       let entry = length (hh_entries h);
           h = h\<lparr>hh_entries := hh_entries h @ [\<lparr>he_key = internal_key, he_key_at = key_at,
                 he_value = internal_value, he_value_at = value_at, he_next = None\<rparr>],
               hh_strings := strings, hh_entries_arena := entries\<rparr>;
           h = (if hh_head h = None then h\<lparr>hh_head := Some entry\<rparr> else h)
       in res_bind (case hh_tail h of None \<Rightarrow> Inr h | Some t \<Rightarrow> set_next h t (Some entry)) (\<lambda>h.
            Inr (h\<lparr>hh_tail := Some entry\<rparr>)))))"

text \<open>An iterator is the entry it stands on.\<close>

definition http_header_get_next :: "http_header \<Rightarrow> nat option \<Rightarrow> nat option res" where
  "http_header_get_next h current =
     (case current of None \<Rightarrow> Inr (hh_head h)
      | Some i \<Rightarrow> res_bind (entry_at h i) (\<lambda>e. Inr (he_next e)))"

partial_function (option) http_header_find_loop :: "http_header \<Rightarrow> bytes \<Rightarrow> nat option \<Rightarrow> nat option run" where
  "http_header_find_loop h key it =
     run_bind (Some (http_header_get_next h it)) (\<lambda>it. case it of
       None \<Rightarrow> Some (Inr None)
     | Some i \<Rightarrow> run_bind (Some (entry_at h i)) (\<lambda>e.
         if key = block_str (he_key e) then Some (Inr (Some i))
         else http_header_find_loop h key (Some i)))"

definition http_header_find :: "http_header \<Rightarrow> bytes \<Rightarrow> nat option run" where
  "http_header_find h key = http_header_find_loop h key None"

text \<open>
  \<^verbatim>\<open>memcmp(entry->key, key, key_sz) == 0\<close>: the terminator of a shorter entry differs from the
  character of the key, so the comparison is decided inside the entry.
\<close>

definition key_prefix :: "http_entry \<Rightarrow> bytes \<Rightarrow> bool" where
  "key_prefix e key \<longleftrightarrow> memcmp_eq (he_key e) key (length key)"

partial_function (option) http_remove_loop ::
  "http_header \<Rightarrow> bytes \<Rightarrow> nat option \<Rightarrow> nat option \<Rightarrow> (nat option \<times> nat option) run" where
  "http_remove_loop h key previous entry =
     (if entry = None then Some (Inr (previous, None))
      else run_bind (Some (entry_at h (the entry))) (\<lambda>e.
        if length (block_str (he_key e)) \<noteq> length key \<and> \<not> key_prefix e key
        then http_remove_loop h key entry (he_next e)
        else Some (Inr (previous, entry))))"

definition http_header_remove_entry :: "http_header \<Rightarrow> bytes \<Rightarrow> http_header run" where
  "http_header_remove_entry h key =
     (case hh_head h of None \<Rightarrow> Some (Inr h)
      | Some head \<Rightarrow>
        if hh_head h = hh_tail h then
          run_bind (Some (entry_at h head)) (\<lambda>e.
            if length (block_str (he_key e)) = length key \<and> key_prefix e key
            then Some (Inr (h\<lparr>hh_head := None, hh_tail := None\<rparr>)) else Some (Inr h))
        else
          run_bind (http_remove_loop h key None (hh_head h)) (\<lambda>(previous, entry).
            case previous of
              None \<Rightarrow> Some (Inr (h\<lparr>hh_head := entry\<rparr>))
            | Some p \<Rightarrow>
                if entry = hh_tail h
                then Some (res_bind (set_next h p None) (\<lambda>h. Inr (h\<lparr>hh_tail := Some p\<rparr>)))
                else Some (set_next h p entry)))"

definition http_header_release :: "http_header \<Rightarrow> http_header" where
  "http_header_release h = \<lparr>hh_entries = [], hh_head = None, hh_tail = None,
     hh_strings = arena_release (hh_strings h), hh_entries_arena = arena_release (hh_entries_arena h)\<rparr>"

subsection \<open>The builder\<close>

text \<open>
  A builder is a buffer. \<open>ok\<close> and \<open>junk\<close> are the allocator of the buffer; the result of an
  append is ignored by the callers.
\<close>

definition http_builder_append ::
  "bool \<Rightarrow> (nat \<Rightarrow> u8) \<Rightarrow> buffer \<Rightarrow> bytes option \<Rightarrow> nat \<Rightarrow> (bool \<times> buffer) run" where
  "http_builder_append ok junk b str str_sz =
     (case str of None \<Rightarrow> Some (Inl NullDeref)
      | Some s \<Rightarrow>
          run_bind (Some (if str_sz = 0 then Inr s else blk_read (s @ [0]) 0 str_sz)) (\<lambda>data.
            buffer_append ok junk b data))"

definition http_builder_init :: "bool \<Rightarrow> u64 \<Rightarrow> bool \<times> buffer option" where
  "http_builder_init ok capacity = buffer_init ok capacity"

definition http_builder_is_empty :: "buffer \<Rightarrow> bool" where
  "http_builder_is_empty b = buffer_is_empty b"

definition http_builder_size :: "buffer \<Rightarrow> u64" where
  "http_builder_size b = buf_sz b"

definition http_builder_reset :: "buffer \<Rightarrow> buffer" where
  "http_builder_reset b = b\<lparr>buf_sz := 0\<rparr>"

definition http_builder_release :: "buffer \<Rightarrow> buffer" where
  "http_builder_release b = buffer_release b"

subsection \<open>Requests\<close>

record http_request =
  rq_version :: int
  rq_method :: HTTPMethod
  rq_endpoint :: bytes
  rq_headers :: http_header

definition http_request_init :: "(nat \<Rightarrow> bool) \<Rightarrow> (nat \<Rightarrow> u8) \<Rightarrow> int \<Rightarrow> HTTPMethod \<Rightarrow> bytes \<Rightarrow> http_request option" where
  "http_request_init ok junk version method endpoint =
     (case http_header_init ok junk of None \<Rightarrow> None
      | Some h \<Rightarrow> Some \<lparr>rq_version = version, rq_method = method, rq_endpoint = endpoint, rq_headers = h\<rparr>)"

partial_function (option) deduce_headers_loop :: "http_header \<Rightarrow> nat option \<Rightarrow> nat \<Rightarrow> nat run" where
  "deduce_headers_loop h it sz =
     run_bind (Some (http_header_get_next h it)) (\<lambda>it. case it of
       None \<Rightarrow> Some (Inr sz)
     | Some i \<Rightarrow> run_bind (Some (entry_at h i)) (\<lambda>e.
         deduce_headers_loop h (Some i)
           (sz + length (block_str (he_key e)) + 2 + length (block_str (he_value e)) + 2)))"

definition http_request_deduce_build_size :: "http_request \<Rightarrow> nat run" where
  "http_request_deduce_build_size rq =
     run_bind (deduce_headers_loop (rq_headers rq) None
       (http_version_as_strlen (rq_version rq) + 1 + (length (rq_endpoint rq) + 1)
         + (http_method_as_strlen (rq_method rq) + 2)))
       (\<lambda>sz. Some (Inr (sz + 2 + 1)))"

text \<open>A series of appends; one that fails leaves the buffer as it is.\<close>

fun append_all :: "bool \<Rightarrow> (nat \<Rightarrow> u8) \<Rightarrow> buffer \<Rightarrow> (bytes option \<times> nat) list \<Rightarrow> buffer run" where
  "append_all ok junk b [] = Some (Inr b)"
| "append_all ok junk b ((s, n) # xs) =
     run_bind (http_builder_append ok junk b s n) (\<lambda>(_, b). append_all ok junk b xs)"

partial_function (option) build_headers_loop ::
  "bool \<Rightarrow> (nat \<Rightarrow> u8) \<Rightarrow> http_header \<Rightarrow> nat option \<Rightarrow> buffer \<Rightarrow> buffer run" where
  "build_headers_loop ok junk h it b =
     run_bind (Some (http_header_get_next h it)) (\<lambda>it. case it of
       None \<Rightarrow> Some (Inr b)
     | Some i \<Rightarrow> run_bind (Some (entry_at h i)) (\<lambda>e.
         run_bind (append_all ok junk b [(Some (block_str (he_key e)), 0), (Some (cstr '': ''), 2),
             (Some (block_str (he_value e)), 0), (Some [13, 10], 2)]) (\<lambda>b.
           build_headers_loop ok junk h (Some i) b)))"

text \<open>The result is the builder after the call, or \<open>None\<close> for \<^verbatim>\<open>NULL\<close>.\<close>

definition http_request_build ::
  "bool \<Rightarrow> (nat \<Rightarrow> u8) \<Rightarrow> http_request \<Rightarrow> buffer \<Rightarrow> buffer option run" where
  "http_request_build ok junk rq b =
     run_bind (http_request_deduce_build_size rq) (\<lambda>_.
       if \<not> http_builder_is_empty b then Some (Inr None)
       else
         run_bind (append_all ok junk b
           [(Some (http_method_as_string (rq_method rq)), http_method_as_strlen (rq_method rq)),
            (Some (cstr '' ''), 1), (Some (rq_endpoint rq), 0), (Some (cstr '' ''), 1),
            (http_version_as_string (rq_version rq), http_version_as_strlen (rq_version rq)),
            (Some [13, 10], 2)]) (\<lambda>b.
         run_bind (build_headers_loop ok junk (rq_headers rq) None b) (\<lambda>b.
         run_bind (append_all ok junk b [(Some [13, 10], 2)]) (\<lambda>b. Some (Inr (Some b))))))"

subsection \<open>Responses\<close>

record http_response =
  rs_version :: int
  rs_headers :: http_header
  rs_code :: "32 word"
  rs_content :: "bytes option"
  rs_content_sz :: nat

definition http_response_init :: "(nat \<Rightarrow> bool) \<Rightarrow> (nat \<Rightarrow> u8) \<Rightarrow> http_response option" where
  "http_response_init ok junk =
     (case http_header_init ok junk of None \<Rightarrow> None
      | Some h \<Rightarrow> Some \<lparr>rs_version = 0, rs_headers = h, rs_code = 0, rs_content = None, rs_content_sz = 0\<rparr>)"

text \<open>
  The loop \<^verbatim>\<open>while(start[current++] != c) if(current >= sz) return false\<close>: whether the
  character was found, and the position after the loop.
\<close>

function skip_to :: "bytes \<Rightarrow> nat \<Rightarrow> u8 \<Rightarrow> nat \<Rightarrow> (bool \<times> nat) res" where
  "skip_to body sz c current =
     res_bind (read_at body current) (\<lambda>x.
       if x = c then Inr (True, current + 1)
       else if current + 1 \<ge> sz then Inr (False, current + 1)
       else skip_to body sz c (current + 1))"
  by pat_completeness auto
termination by (relation "measure (\<lambda>(_, sz, _, i). sz - i)") auto

definition http_response_parser_skip_whitespace :: "bytes \<Rightarrow> nat \<Rightarrow> nat \<Rightarrow> (bool \<times> nat) res" where
  "http_response_parser_skip_whitespace body sz current =
     res_bind (skip_to body sz 32 current) (\<lambda>(found, current). Inr (found \<and> current < sz, current))"

definition http_response_parser_skip_crlf :: "bytes \<Rightarrow> nat \<Rightarrow> nat \<Rightarrow> (bool \<times> nat) res" where
  "http_response_parser_skip_crlf body sz current =
     res_bind (skip_to body sz 13 current) (\<lambda>(found, current).
       if \<not> found \<or> current \<ge> sz then Inr (False, current)
       else res_bind (read_at body current) (\<lambda>c.
         if c \<noteq> 10 then Inr (False, current)
         else Inr (current + 1 < sz, current + 1)))"

text \<open>The loop that measures a key or a value: its size, and the position after the delimiter.\<close>

function scan_to :: "bytes \<Rightarrow> nat \<Rightarrow> u8 \<Rightarrow> nat \<Rightarrow> nat \<Rightarrow> (nat \<times> nat) res" where
  "scan_to body sz c current n =
     (if current < sz then
        res_bind (read_at body current) (\<lambda>x.
          if x \<noteq> c then scan_to body sz c (current + 1) (n + 1) else Inr (n, current + 1))
      else Inr (n, current))"
  by pat_completeness auto
termination by (relation "measure (\<lambda>(_, sz, _, i, _). sz - i)") auto

text \<open>The key pointer (an offset) with its size and the new position, or \<open>None\<close>.\<close>

definition http_response_parser_parse_key :: "bytes \<Rightarrow> nat \<Rightarrow> nat \<Rightarrow> (nat \<times> nat \<times> nat) option res" where
  "http_response_parser_parse_key body sz current =
     (if current + 2 \<ge> sz then Inr None
      else res_bind (read_at body current) (\<lambda>a. res_bind (read_at body (current + 1)) (\<lambda>b.
        if a = 13 \<and> b = 10 then Inr None
        else res_bind (scan_to body sz 58 current 0) (\<lambda>(key_sz, current').
          Inr (Some (current, key_sz, current' + 1))))))"

definition http_response_parser_parse_value :: "bytes \<Rightarrow> nat \<Rightarrow> nat \<Rightarrow> (nat \<times> nat \<times> nat) res" where
  "http_response_parser_parse_value body sz current =
     res_bind (scan_to body sz 13 current 0) (\<lambda>(value_sz, current').
       Inr (current, value_sz, current' + 1))"

text \<open>
  The loop over the header lines: whether it ended with a missing key, the position and the headers.
  Each round moves the position on by two characters at least, so the number of characters is
  enough fuel; \<open>oks\<close> tells, for each round, whether its allocations succeed.
\<close>

fun parse_headers_loop ::
  "(nat \<Rightarrow> nat \<Rightarrow> bool) \<Rightarrow> (nat \<Rightarrow> u8) \<Rightarrow> nat \<Rightarrow> bytes \<Rightarrow> nat \<Rightarrow> nat \<Rightarrow> http_header \<Rightarrow> (bool \<times> nat \<times> http_header) run" where
  "parse_headers_loop oks junk 0 body sz current h = None"
| "parse_headers_loop oks junk (Suc fuel) body sz current h =
     run_bind (Some (http_response_parser_parse_key body sz current)) (\<lambda>k. case k of
       None \<Rightarrow> Some (Inr (True, current, h))
     | Some (key, key_sz, current) \<Rightarrow>
         if current \<ge> sz then Some (Inr (False, current, h))
         else
           run_bind (Some (http_response_parser_parse_value body sz current)) (\<lambda>(value, value_sz, current).
           run_bind (Some (http_header_add_entry (oks fuel) junk h body key key_sz body value value_sz)) (\<lambda>h.
             parse_headers_loop oks junk fuel body sz current h)))"

definition http_response_parse ::
  "(nat \<Rightarrow> nat \<Rightarrow> bool) \<Rightarrow> (nat \<Rightarrow> u8) \<Rightarrow> bool \<Rightarrow> http_response \<Rightarrow> bytes \<Rightarrow> nat \<Rightarrow> (bool \<times> http_response) run" where
  "http_response_parse oks junk ok rs body sz =
     run_bind (Some (http_version_from_string body sz)) (\<lambda>version.
     let rs = rs\<lparr>rs_version := version\<rparr> in
     if version = version_val HTTPVersion_Invalid then Some (Inr (False, rs))
     else run_bind (Some (http_response_parser_skip_whitespace body sz 0)) (\<lambda>(found, current).
     if \<not> found then Some (Inr (False, rs))
     else run_bind (Some (atoi_at body current)) (\<lambda>code.
     let rs = rs\<lparr>rs_code := code\<rparr> in
     run_bind (Some (http_response_parser_skip_crlf body sz current)) (\<lambda>(found, current).
     if \<not> found then Some (Inr (False, rs))
     else run_bind (parse_headers_loop oks junk (sz + 1) body sz current (rs_headers rs)) (\<lambda>(complete, current, h).
     let rs = rs\<lparr>rs_headers := h\<rparr> in
     if \<not> complete then Some (Inr (False, rs))
     else run_bind (Some (http_response_parser_skip_crlf body sz current)) (\<lambda>(found, current).
     if \<not> found then Some (Inr (False, rs))
     else if current \<ge> sz then Some (Inr (True, rs))
     else
       let rs = rs\<lparr>rs_content_sz := sz - current\<rparr> in
       if \<not> ok then Some (Inr (False, rs\<lparr>rs_content := None\<rparr>))
       else run_bind (Some (blk_read body current (sz - current))) (\<lambda>s.
         Some (Inr (True, rs\<lparr>rs_content := Some (s @ [0])\<rparr>)))))))))"

definition http_response_release :: "http_response \<Rightarrow> http_response" where
  "http_response_release rs =
     rs\<lparr>rs_headers := http_header_release (rs_headers rs), rs_content := None, rs_content_sz := 0\<rparr>"

subsection \<open>One exchange\<close>

record http_context =
  cx_builder :: buffer
  cx_recv_buffer :: buffer
  cx_host :: bytes
  cx_is_alive :: bool

text \<open>Without the calls on the socket.\<close>

definition http_context_disconnect :: "http_context \<Rightarrow> http_context" where
  "http_context_disconnect cx = (if \<not> cx_is_alive cx then cx else cx\<lparr>cx_is_alive := False\<rparr>)"

definition http_context_is_alive :: "http_context \<Rightarrow> bool" where
  "http_context_is_alive cx = cx_is_alive cx"

definition HTTP_RESPONSE_BUFFER_SZ :: nat where
  "HTTP_RESPONSE_BUFFER_SZ = 512"

text \<open>
  The loop that receives: each element of the list is what one call of \<^verbatim>\<open>socket_recv\<close>
  delivers (\<open>None\<close> for an error, at most 512 bytes otherwise), the end of the list stands for the
  closed connection (0 bytes).
\<close>

definition recv_one :: "bool \<Rightarrow> (nat \<Rightarrow> u8) \<Rightarrow> buffer \<Rightarrow> bytes option \<Rightarrow> (bool \<times> buffer) run" where
  "recv_one ok junk b chunk =
     run_bind (buffer_prepare_emplace ok junk b (of_nat HTTP_RESPONSE_BUFFER_SZ)) (\<lambda>(done, b).
       if \<not> done then Some (Inr (False, b))
       else case chunk of None \<Rightarrow> Some (Inr (False, b))
         | Some s \<Rightarrow> (case buf_data b of None \<Rightarrow> Some (Inl NullDeref)
           | Some blk \<Rightarrow> Some (res_bind (blk_write blk (unat (buf_sz b)) s) (\<lambda>blk.
               Inr (True, buffer_emplace_size (b\<lparr>buf_data := Some blk\<rparr>) (of_nat (length s)))))))"

fun recv_loop :: "bool \<Rightarrow> (nat \<Rightarrow> u8) \<Rightarrow> buffer \<Rightarrow> bytes option list \<Rightarrow> (bool \<times> buffer) run" where
  "recv_loop ok junk b [] = recv_one ok junk b (Some [])"
| "recv_loop ok junk b (chunk # chunks) =
     run_bind (recv_one ok junk b chunk) (\<lambda>(done, b).
       if \<not> done then Some (Inr (False, b))
       else if length (the chunk) < HTTP_RESPONSE_BUFFER_SZ then Some (Inr (True, b))
       else recv_loop ok junk b chunks)"

text \<open>The request is returned too: the call adds an entry to its headers.\<close>

definition http_context_send_request ::
  "bool \<Rightarrow> (nat \<Rightarrow> u8) \<Rightarrow> (bytes \<Rightarrow> int) \<Rightarrow> bytes option list \<Rightarrow> http_context \<Rightarrow> http_request \<Rightarrow> http_response
    \<Rightarrow> (bool \<times> http_context \<times> http_request \<times> http_response) run" where
  "http_context_send_request ok junk socket_send chunks cx rq rs =
    (if \<not> cx_is_alive cx then Some (Inr (False, cx, rq, rs))
     else
       run_bind (Some (http_header_add_entry (\<lambda>_. ok) junk (rq_headers rq) (cstr ''Host'') 0 4 (cx_host cx @ [0]) 0 0)) (\<lambda>h.
       let rq = rq\<lparr>rq_headers := h\<rparr>; cx = cx\<lparr>cx_builder := http_builder_reset (cx_builder cx)\<rparr>
       in run_bind (http_request_build ok junk rq (cx_builder cx)) (\<lambda>built.
          case built of None \<Rightarrow> Some (Inr (False, cx, rq, rs))
          | Some b \<Rightarrow>
            let cx = cx\<lparr>cx_builder := b\<rparr>;
                sent_sz = socket_send (take (unat (http_builder_size b)) (the (buf_data b)))
            in if sent_sz \<le> 0 then Some (Inr (False, cx, rq, rs))
               else
                 run_bind (recv_loop ok junk (buffer_reset (cx_recv_buffer cx)) chunks) (\<lambda>(done, rb).
                 let cx = cx\<lparr>cx_recv_buffer := rb\<rparr> in
                 if \<not> done then Some (Inr (False, cx, rq, rs))
                 else run_bind (buffer_append ok junk rb [0]) (\<lambda>(done, rb).
                 let cx = cx\<lparr>cx_recv_buffer := rb\<rparr> in
                 if \<not> done then Some (Inr (False, cx, rq, rs))
                 else
                   case fst (buffer_front rb) of None \<Rightarrow> Some (Inl NullDeref)
                   | Some body \<Rightarrow>
                     run_bind (http_response_parse (\<lambda>_ _. ok) junk ok rs body (unat (buffer_size rb))) (\<lambda>(done, rs).
                     if \<not> done then Some (Inr (False, cx, rq, rs))
                     else run_bind (http_header_find (rs_headers rs) (cstr ''Connection'')) (\<lambda>e.
                       case e of None \<Rightarrow> Some (Inr (True, cx, rq, rs))
                       | Some i \<Rightarrow> run_bind (Some (entry_at (rs_headers rs) i)) (\<lambda>e.
                           Some (Inr (True, if block_str (he_value e) \<noteq> cstr ''close''
                             then http_context_disconnect cx else cx, rq, rs))))))))))"

definition http_context_release :: "http_context \<Rightarrow> http_context" where
  "http_context_release cx =
     (let cx = (if cx_is_alive cx then http_context_disconnect cx else cx)
      in cx\<lparr>cx_builder := http_builder_release (cx_builder cx), cx_recv_buffer := buffer_release (cx_recv_buffer cx)\<rparr>)"

end
