(* ===== verification/HttpSpec.thy ===== *)
theory HttpSpec
  imports Http
begin

text \<open>
  The HTTP client against its texts: a header is a list of keys with values, a request is printed as
  its text, and the text of a response is parsed into its parts.
\<close>

subsection \<open>Header lists\<close>

fun path :: "http_entry list \<Rightarrow> nat option \<Rightarrow> nat list \<Rightarrow> bool" where
  "path es s [] \<longleftrightarrow> s = None"
| "path es s (i # is) \<longleftrightarrow> s = Some i \<and> i < length es \<and> path es (he_next (es ! i)) is"

definition entry_pair :: "http_entry \<Rightarrow> bytes \<times> bytes" where
  "entry_pair e = (block_str (he_key e), block_str (he_value e))"

definition hdr_at :: "http_header \<Rightarrow> nat list \<Rightarrow> bool" where
  "hdr_at h is \<longleftrightarrow> path (hh_entries h) (hh_head h) is \<and> distinct is \<and>
     hh_tail h = (if is = [] then None else Some (last is))"

definition hdr_list :: "http_header \<Rightarrow> (bytes \<times> bytes) list \<Rightarrow> bool" where
  "hdr_list h L \<longleftrightarrow> (\<exists>is. hdr_at h is \<and> L = map (\<lambda>i. entry_pair (hh_entries h ! i)) is)"

lemma path_bound: "path es s is \<Longrightarrow> i \<in> set is \<Longrightarrow> i < length es"
  by (induction "is" arbitrary: s) auto

lemma path_app: "path es s is \<Longrightarrow> path (es @ xs) s is"
  by (induction "is" arbitrary: s) (auto simp: nth_append)

text \<open>Changing an entry off the path, and redirecting the last entry of the path.\<close>

lemma path_update: "path es s is \<Longrightarrow> i \<notin> set is \<Longrightarrow> path (es[i := e]) s is"
  by (induction "is" arbitrary: s) auto

lemma path_extend:
  assumes "path es s is" "is \<noteq> []" "distinct is" "j < length es" "j \<notin> set is" "he_next (es ! j) = None"
  shows "path (es[last is := (es ! last is)\<lparr>he_next := Some j\<rparr>]) s (is @ [j])"
  using assms
proof (induction "is" arbitrary: s)
  case (Cons i "is")
  show ?case
  proof (cases "is = []")
    case True
    then show ?thesis using Cons.prems by auto
  next
    case False
    then have "last is \<in> set is" "i \<noteq> last is" using Cons.prems(3) by auto
    then show ?thesis using Cons False by auto
  qed
qed simp

lemma path_cut:
  assumes "path es s (is @ [p, q])" "distinct (is @ [p, q])"
  shows "path (es[p := (es ! p)\<lparr>he_next := None\<rparr>]) s (is @ [p])"
  using assms
proof (induction "is" arbitrary: s)
  case (Cons i "is")
  then have "i \<noteq> p" by auto
  then show ?case using Cons by auto
qed simp

lemma hdr_list_empty: "http_header_init ok junk = Some h \<Longrightarrow> hdr_list h []"
  by (auto simp: http_header_init_def hdr_list_def hdr_at_def split: option.splits)

lemma block_str_cstring: "0 \<notin> set s \<Longrightarrow> block_str (s @ [0]) = s"
  by (auto simp: block_str_def takeWhile_append)

text \<open>
  The arenas of a header: their blocks have the sizes they were made with, and the string arena still
  holds every key and every value of the entries, at the address of the copy.
\<close>

definition stored :: "arena \<Rightarrow> nat \<times> nat \<Rightarrow> bytes \<Rightarrow> bool" where
  "stored a addr d \<longleftrightarrow> allocated a addr (length d) \<and> arena_read a addr (length d) = Inr d"

definition strings_ok :: "arena \<Rightarrow> bool" where
  "strings_ok a \<longleftrightarrow> arena_ok a \<and> a_block_size a = STRING_ARENA_SZ \<and> ab_capacity (hd (a_blocks a)) = STRING_ARENA_SZ"

definition hdr_stored :: "http_header \<Rightarrow> bool" where
  "hdr_stored h \<longleftrightarrow> strings_ok (hh_strings h) \<and>
     arena_ok (hh_entries_arena h) \<and> a_block_size (hh_entries_arena h) = 16 * SIZEOF_HTTPHeaderEntry \<and>
     (\<forall>e \<in> set (hh_entries h). stored (hh_strings h) (he_key_at e) (he_key e) \<and> stored (hh_strings h) (he_value_at e) (he_value e))"

text \<open>The string that a pointer and a size (or 0) denote.\<close>

definition denotes :: "bytes \<Rightarrow> nat \<Rightarrow> nat \<Rightarrow> bytes \<Rightarrow> bool" where
  "denotes mem p sz s \<longleftrightarrow> (if sz = 0 then strlen_at mem p else Inr sz) = Inr (length s) \<and>
     blk_read mem p (length s) = Inr s \<and> 0 \<notin> set s"

lemma hdr_stored_init: "http_header_init ok junk = Some h \<Longrightarrow> hdr_stored h"
  by (auto simp: http_header_init_def hdr_stored_def strings_ok_def arena_init_def arena_block_init_def
      arena_ok_def block_ok_def split: option.splits if_splits)

lemma copy_ok:
  assumes s: "denotes mem p sz s" and a: "strings_ok a" and len: "length s < STRING_ARENA_SZ"
  shows "\<exists>addr a'. http_copy True junk a mem p sz = Inr (s @ [0], addr, a') \<and> strings_ok a' \<and>
    stored a' addr (s @ [0]) \<and> (\<forall>at d. stored a at d \<longrightarrow> stored a' at d)"
proof -
  have fits: "length (s @ [0]) \<le> a_block_size a" using a len by (simp add: strings_ok_def)
  obtain addr a' where a': "arena_push True junk a (Some (s @ [0])) (length (s @ [0])) = Inr (Some addr, a')" "arena_ok a'"
      "a_block_size a' = a_block_size a" "allocated a' addr (length (s @ [0]))" "arena_read a' addr (length (s @ [0])) = Inr (s @ [0])"
      "\<forall>at k. allocated a at k \<longrightarrow> allocated a' at k \<and> arena_read a' at k = arena_read a at k"
    using arena_push_ok [of a "s @ [0]" junk] a fits unfolding strings_ok_def by blast
  have "ab_capacity (hd (a_blocks a')) = a_block_size a'"
    using arena_push_same_blocks [OF a'(1)] a by (simp add: strings_ok_def)
  then have "strings_ok a'" using a'(2,3) a by (simp add: strings_ok_def)
  moreover have "http_copy True junk a mem p sz = Inr (s @ [0], addr, a')"
    using s a'(1) by (simp add: http_copy_def denotes_def)
  moreover have "\<forall>at d. stored a at d \<longrightarrow> stored a' at d" "stored a' addr (s @ [0])"
    using a'(4-6) by (simp_all add: stored_def)
  ultimately show ?thesis by blast
qed

lemma copy_overflow:
  assumes s: "denotes mem p sz s" and a: "strings_ok a" and len: "STRING_ARENA_SZ \<le> length s"
  shows "http_copy True junk a mem p sz = Inl OutOfBounds"
  using arena_push_beyond [of a "s @ [0]" junk] a s len by (simp add: http_copy_def denotes_def strings_ok_def)

text \<open>The three allocations of an entry.\<close>

lemma add_entry_pushes:
  assumes h: "hdr_stored h" and k: "denotes km kp kn k" "length k < STRING_ARENA_SZ"
    and v: "denotes vm vp vn v" "length v < STRING_ARENA_SZ"
  shows "\<exists>at entries key_at strings val_at strings'.
    arena_push True junk (hh_entries_arena h) None SIZEOF_HTTPHeaderEntry = Inr (Some at, entries) \<and>
    http_copy True junk (hh_strings h) km kp kn = Inr (k @ [0], key_at, strings) \<and>
    http_copy True junk strings vm vp vn = Inr (v @ [0], val_at, strings') \<and>
    strings_ok strings' \<and> arena_ok entries \<and> a_block_size entries = 16 * SIZEOF_HTTPHeaderEntry \<and>
    stored strings' key_at (k @ [0]) \<and> stored strings' val_at (v @ [0]) \<and>
    (\<forall>at d. stored (hh_strings h) at d \<longrightarrow> stored strings' at d)"
proof -
  have st: "strings_ok (hh_strings h)" and en: "arena_ok (hh_entries_arena h)"
      "a_block_size (hh_entries_arena h) = 16 * SIZEOF_HTTPHeaderEntry"
    using h by (simp_all add: hdr_stored_def)
  have "SIZEOF_HTTPHeaderEntry \<le> a_block_size (hh_entries_arena h)" using en(2) by simp
  then obtain at entries where e: "arena_push True junk (hh_entries_arena h) None SIZEOF_HTTPHeaderEntry = Inr (Some at, entries)"
      "arena_ok entries" "a_block_size entries = a_block_size (hh_entries_arena h)"
    using arena_push_none_ok [OF en(1), of SIZEOF_HTTPHeaderEntry junk] by blast
  obtain key_at strings where ks: "http_copy True junk (hh_strings h) km kp kn = Inr (k @ [0], key_at, strings)" "strings_ok strings"
      "stored strings key_at (k @ [0])" "\<forall>at d. stored (hh_strings h) at d \<longrightarrow> stored strings at d"
    using copy_ok [OF k(1) st k(2), of junk] by blast
  obtain val_at strings' where vs: "http_copy True junk strings vm vp vn = Inr (v @ [0], val_at, strings')" "strings_ok strings'"
      "stored strings' val_at (v @ [0])" "\<forall>at d. stored strings at d \<longrightarrow> stored strings' at d"
    using copy_ok [OF v(1) ks(2) v(2), of junk] by blast
  have "a_block_size entries = 16 * SIZEOF_HTTPHeaderEntry" using e(3) en(2) by simp
  then show ?thesis using e(1,2) ks(1,3,4) vs by blast
qed

lemma add_entry_list:
  assumes h: "hdr_list h L" and room: "hdr_stored h"
    and k: "denotes km kp kn k" "length k < STRING_ARENA_SZ"
    and v: "denotes vm vp vn v" "length v < STRING_ARENA_SZ"
  shows "\<exists>h'. http_header_add_entry (\<lambda>_. True) junk h km kp kn vm vp vn = Inr h' \<and> hdr_list h' (L @ [(k, v)]) \<and> hdr_stored h'"
proof -
  obtain "is" where i: "hdr_at h is" "L = map (\<lambda>i. entry_pair (hh_entries h ! i)) is"
    using h by (auto simp: hdr_list_def)
  obtain at entries key_at strings val_at strings' where
      push: "arena_push True junk (hh_entries_arena h) None SIZEOF_HTTPHeaderEntry = Inr (Some at, entries)"
      "http_copy True junk (hh_strings h) km kp kn = Inr (k @ [0], key_at, strings)"
      "http_copy True junk strings vm vp vn = Inr (v @ [0], val_at, strings')"
    and arenas: "strings_ok strings'" "arena_ok entries" "a_block_size entries = 16 * SIZEOF_HTTPHeaderEntry"
    and st: "stored strings' key_at (k @ [0])" "stored strings' val_at (v @ [0])"
      "\<forall>at d. stored (hh_strings h) at d \<longrightarrow> stored strings' at d"
    using add_entry_pushes [OF room k v, of junk] by blast
  have stored_iff: "hdr_stored (h'\<lparr>hh_entries := es, hh_strings := strings', hh_entries_arena := entries\<rparr>) =
      (\<forall>e \<in> set es. stored strings' (he_key_at e) (he_key e) \<and> stored strings' (he_value_at e) (he_value e))" for h' es
    using arenas by (simp add: hdr_stored_def)
  define e where "e = \<lparr>he_key = k @ [0], he_key_at = key_at, he_value = v @ [0], he_value_at = val_at, he_next = None\<rparr>"
  define n where "n = length (hh_entries h)"
  define es where "es = hh_entries h @ [e]"
  have carry: "stored (hh_strings h) addr d \<Longrightarrow> stored strings' addr d" for addr d using st(3) by blast
  have held: "\<forall>x \<in> set es. stored strings' (he_key_at x) (he_key x) \<and> stored strings' (he_value_at x) (he_value x)"
    using room st(1,2) carry by (simp add: es_def e_def hdr_stored_def)
  have pair: "entry_pair e = (k, v)" using k(1) v(1) by (simp add: entry_pair_def e_def denotes_def block_str_cstring)
  have p: "path es (hh_head h) is" "distinct is" using i(1) path_app by (auto simp: hdr_at_def es_def)
  have bound: "\<And>j. j \<in> set is \<Longrightarrow> j < n" using i(1) path_bound by (auto simp: hdr_at_def n_def)
  have en: "es ! n = e" "n < length es" by (simp_all add: es_def n_def)
  have keep: "map (\<lambda>j. entry_pair (es ! j)) is = L" using bound i(2) by (auto simp: es_def n_def nth_append)
  let ?upd = "\<lambda>es. h\<lparr>hh_entries := es, hh_strings := strings', hh_entries_arena := entries\<rparr>"
  show ?thesis
  proof (cases "is = []")
    case True
    then have hd: "hh_head h = None" "hh_tail h = None" using i(1) by (auto simp: hdr_at_def)
    let ?h = "(h\<lparr>hh_head := Some n, hh_tail := Some n\<rparr>)\<lparr>hh_entries := es, hh_strings := strings', hh_entries_arena := entries\<rparr>"
    have "http_header_add_entry (\<lambda>_. True) junk h km kp kn vm vp vn = Inr ?h"
      using hd by (simp add: http_header_add_entry_def push Let_def es_def n_def e_def)
    moreover have "hdr_at ?h [n]" using en by (simp add: hdr_at_def e_def)
    then have "hdr_list ?h (L @ [(k, v)])"
      using True i(2) pair en(1) unfolding hdr_list_def by (intro exI [of _ "[n]"]) simp
    moreover have "hdr_stored ?h" unfolding stored_iff by (rule held)
    ultimately show ?thesis by blast
  next
    case False
    let ?t = "last is"
    have t: "?t < n" "hh_tail h = Some ?t" using i(1) False bound by (auto simp: hdr_at_def)
    have hd: "hh_head h \<noteq> None" using p(1) False by (cases "is") auto
    let ?es = "es[?t := (es ! ?t)\<lparr>he_next := Some n\<rparr>]"
    let ?h = "(h\<lparr>hh_tail := Some n\<rparr>)\<lparr>hh_entries := ?es, hh_strings := strings', hh_entries_arena := entries\<rparr>"
    have run: "http_header_add_entry (\<lambda>_. True) junk h km kp kn vm vp vn = Inr ?h"
      using hd t by (auto simp: http_header_add_entry_def push Let_def set_next_def entry_at_def es_def n_def e_def)
    have "n \<notin> set is" using bound by blast
    then have at: "hdr_at ?h (is @ [n])"
      using path_extend [OF p(1) False p(2) en(2)] p(2) en(1) by (simp add: hdr_at_def e_def)
    have "entry_pair (?es ! j) = entry_pair (es ! j)" for j
      using t(1) en(2) by (cases "j = ?t") (simp_all add: entry_pair_def)
    then have m: "map (\<lambda>j. entry_pair (?es ! j)) (is @ [n]) = L @ [(k, v)]"
      using keep pair en(1) by (simp cong: map_cong)
    have upd: "hh_entries ?h = ?es" by simp
    have "L @ [(k, v)] = map (\<lambda>j. entry_pair (hh_entries ?h ! j)) (is @ [n])"
      unfolding upd by (rule m [symmetric])
    moreover have "es ! ?t \<in> set es" using t(1) en(2) by simp
    then have "\<forall>x \<in> set ?es. stored strings' (he_key_at x) (he_key x) \<and> stored strings' (he_value_at x) (he_value x)"
      using held by (auto dest!: set_update_subset_insert [THEN subsetD])
    then have "hdr_stored ?h" unfolding stored_iff .
    ultimately show ?thesis using run at unfolding hdr_list_def by blast
  qed
qed

text \<open>A value of 2048 bytes or more does not fit, nor does a key.\<close>

lemma add_entry_overflow:
  assumes h: "hdr_stored h" and k: "denotes km kp kn k" and v: "denotes vm vp vn v"
    and long: "STRING_ARENA_SZ \<le> length k \<or> STRING_ARENA_SZ \<le> length v"
  shows "http_header_add_entry (\<lambda>_. True) junk h km kp kn vm vp vn = Inl OutOfBounds"
proof -
  have st: "strings_ok (hh_strings h)" using h by (simp add: hdr_stored_def)
  have "SIZEOF_HTTPHeaderEntry \<le> a_block_size (hh_entries_arena h)" using h by (simp add: hdr_stored_def)
  then obtain at entries where e: "arena_push True junk (hh_entries_arena h) None SIZEOF_HTTPHeaderEntry = Inr (at, entries)"
    using arena_push_none_ok [of "hh_entries_arena h" SIZEOF_HTTPHeaderEntry junk] h unfolding hdr_stored_def by blast
  show ?thesis
  proof (cases "STRING_ARENA_SZ \<le> length k")
    case True
    then show ?thesis using copy_overflow [OF k st True] e by (simp add: http_header_add_entry_def)
  next
    case False
    obtain key_at strings where ks: "http_copy True junk (hh_strings h) km kp kn = Inr (k @ [0], key_at, strings)" "strings_ok strings"
      using copy_ok [OF k st, of junk] False by auto
    then show ?thesis using copy_overflow [OF v ks(2)] long False e by (simp add: http_header_add_entry_def)
  qed
qed

lemma next_entry: "path (hh_entries h) s (i # is) \<Longrightarrow> entry_at h i = Inr (hh_entries h ! i) \<and> s = Some i"
  by (simp add: entry_at_def)

lemma find_loop_path:
  assumes "http_header_get_next h it = Inr s" "path (hh_entries h) s is"
  shows "http_header_find_loop h key it = Some (Inr (find (\<lambda>i. key = fst (entry_pair (hh_entries h ! i))) is))"
  using assms
proof (induction "is" arbitrary: it s)
  case Nil
  then show ?case by (subst http_header_find_loop.simps) simp
next
  case (Cons i "is")
  have "http_header_get_next h (Some i) = Inr (he_next (hh_entries h ! i))"
    using next_entry [OF Cons.prems(2)] by (simp add: http_header_get_next_def)
  then show ?case
    using Cons.IH [of "Some i"] Cons.prems next_entry [OF Cons.prems(2)]
    by (subst http_header_find_loop.simps) (simp add: entry_pair_def)
qed

lemma find_map_of:
  "map_option (\<lambda>i. snd (f i)) (find (\<lambda>i. key = fst (f i)) is) = map_of (map f is) key"
proof (induction "is")
  case (Cons i "is")
  then show ?case by (cases "f i") simp
qed simp

lemma find_list:
  assumes "hdr_list h L"
  shows "\<exists>r. http_header_find h key = Some (Inr r) \<and>
    map_option (\<lambda>i. block_str (he_value (hh_entries h ! i))) r = map_of L key"
proof -
  obtain "is" where i: "path (hh_entries h) (hh_head h) is" "L = map (\<lambda>i. entry_pair (hh_entries h ! i)) is"
    using assms by (auto simp: hdr_list_def hdr_at_def)
  have "http_header_get_next h None = Inr (hh_head h)" by (simp add: http_header_get_next_def)
  from find_loop_path [OF this i(1)] show ?thesis
    using find_map_of [of "\<lambda>i. entry_pair (hh_entries h ! i)" key "is"]
    by (auto simp: http_header_find_def i(2) entry_pair_def)
qed

text \<open>
  A header keeps its entries in order: adding appends the copied key and value, which the string arena
  holds from then on, and a lookup always returns, giving the value of the first entry with the key or
  \<^verbatim>\<open>NULL\<close>. Keys and values are shorter than a block of the arena.
\<close>

theorem http_header_correct:
  assumes h: "hdr_list h L" "hdr_stored h"
    and k: "denotes km kp kn k" "length k < STRING_ARENA_SZ"
    and v: "denotes vm vp vn v" "length v < STRING_ARENA_SZ"
  shows "\<exists>h' r. http_header_add_entry (\<lambda>_. True) junk h km kp kn vm vp vn = Inr h' \<and> hdr_list h' (L @ [(k, v)]) \<and> hdr_stored h' \<and>
    http_header_find h' key = Some (Inr r) \<and>
    map_option (\<lambda>i. block_str (he_value (hh_entries h' ! i))) r = map_of (L @ [(k, v)]) key"
proof -
  obtain h' where h': "http_header_add_entry (\<lambda>_. True) junk h km kp kn vm vp vn = Inr h'" "hdr_list h' (L @ [(k, v)])" "hdr_stored h'"
    using add_entry_list [OF assms, of junk] by blast
  then show ?thesis using find_list [OF h'(2), of key] by blast
qed

text \<open>
  A key or a value of 2048 bytes or more overflows: the copy runs over the end of the block of the
  string arena, whatever the header holds.
\<close>

theorem http_header_long_value_overflows:
  assumes "hdr_stored h" "denotes km kp kn k" "denotes vm vp vn v" "2048 \<le> length k \<or> 2048 \<le> length v"
  shows "http_header_add_entry (\<lambda>_. True) junk h km kp kn vm vp vn = Inl OutOfBounds"
  using add_entry_overflow [OF assms(1-3)] assms(4) by (simp add: STRING_ARENA_SZ_def)

subsection \<open>Removal\<close>

text \<open>The test that ends the search of a removal: any key of the same length does.\<close>

definition stops_at :: "http_header \<Rightarrow> bytes \<Rightarrow> nat \<Rightarrow> bool" where
  "stops_at h key i \<longleftrightarrow> length (block_str (he_key (hh_entries h ! i))) = length key \<or> key_prefix (hh_entries h ! i) key"

lemma remove_loop_path:
  assumes "path (hh_entries h) entry js"
  shows "http_remove_loop h key previous entry = Some (Inr (
    let before = takeWhile (\<lambda>j. \<not> stops_at h key j) js
    in (if before = [] then previous else Some (last before),
        case dropWhile (\<lambda>j. \<not> stops_at h key j) js of [] \<Rightarrow> None | j # _ \<Rightarrow> Some j)))"
  using assms
proof (induction js arbitrary: previous entry)
  case Nil
  then show ?case by (subst http_remove_loop.simps) simp
next
  case (Cons j js)
  then show ?case
    by (subst http_remove_loop.simps) (auto simp: entry_at_def stops_at_def Let_def)
qed

lemma path_same_next:
  assumes "path es s (u @ p # q)" "n = (case q of [] \<Rightarrow> None | j # _ \<Rightarrow> Some j)"
  shows "he_next (es ! p) = n" "p < length es"
proof -
  have "path es s (u @ p # q) \<Longrightarrow> he_next (es ! p) = (case q of [] \<Rightarrow> None | j # _ \<Rightarrow> Some j) \<and> p < length es"
  proof (induction u arbitrary: s)
    case Nil
    then show ?case by (cases q) auto
  qed auto
  then show "he_next (es ! p) = n" "p < length es" using assms by simp_all
qed

lemma set_next_same:
  assumes "i < length (hh_entries h)" "he_next (hh_entries h ! i) = n"
  shows "set_next h i n = Inr h"
proof -
  have "(hh_entries h ! i)\<lparr>he_next := n\<rparr> = hh_entries h ! i" using assms(2) by (cases "hh_entries h ! i") simp
  then show ?thesis using assms(1) by (simp add: set_next_def entry_at_def)
qed

lemma remove_list:
  assumes h: "hdr_at h is" and two: "2 \<le> length is" and L: "L = map (\<lambda>i. entry_pair (hh_entries h ! i)) is"
  shows "\<exists>h'. http_header_remove_entry h key = Some (Inr h') \<and>
    hdr_list h' (if dropWhile (\<lambda>j. \<not> stops_at h key j) is = [last is] then butlast L else L)"
proof -
  let ?u = "takeWhile (\<lambda>j. \<not> stops_at h key j) is" and ?r = "dropWhile (\<lambda>j. \<not> stops_at h key j) is"
  have p: "path (hh_entries h) (hh_head h) is" "distinct is" "is \<noteq> []" "hh_tail h = Some (last is)"
    using h two by (auto simp: hdr_at_def)
  have ur: "is = ?u @ ?r" by simp
  obtain i "is'" where i: "is = i # is'" "is' \<noteq> []" "hh_head h = Some i" using p(1) two by (cases "is"; cases "tl is") auto
  have "last is \<noteq> i" using i(1,2) p(2) by (metis distinct.simps(2) last_ConsR last_in_set)
  then have ne: "hh_head h \<noteq> hh_tail h" using i p(4) by simp
  have loop: "http_remove_loop h key None (hh_head h) = Some (Inr (if ?u = [] then None else Some (last ?u),
      case ?r of [] \<Rightarrow> None | j # _ \<Rightarrow> Some j))"
    by (subst remove_loop_path [OF p(1)]) (simp add: Let_def)
  have same: "hdr_list h L" using h L by (auto simp: hdr_list_def)
  show ?thesis
  proof (cases "?u = []")
    case True
    then have "?r = is" using ur by simp
    moreover have "is \<noteq> [last is]" using i by (metis last_ConsR list.inject)
    moreover have e: "h\<lparr>hh_head := Some i\<rparr> = h" using i(3) by (cases h) simp
    have "hdr_list (h\<lparr>hh_head := Some i\<rparr>) L" unfolding e by (rule same)
    ultimately show ?thesis
      using True loop ne i(1,3) same by (auto simp: http_header_remove_entry_def)
  next
    case False
    then obtain v q where v: "?u = v @ [q]" by (metis append_butlast_last_id)
    then have vq: "is = v @ q # ?r" using ur by (metis append.assoc append_Cons append_Nil)
    show ?thesis
    proof (cases "?r = [last is]")
      case True
      let ?es = "(hh_entries h)[q := (hh_entries h ! q)\<lparr>he_next := None\<rparr>]"
      let ?h = "h\<lparr>hh_entries := ?es, hh_tail := Some q\<rparr>"
      have isq: "is = v @ [q, last is]" using vq True by simp
      have d: "distinct (v @ [q, last is])" using p(2) isq by metis
      have cut: "path ?es (hh_head h) (v @ [q])" using path_cut [of "hh_entries h" "hh_head h" v q "last is"] p(1) d isq by metis
      have "q < length (hh_entries h)" using path_same_next(2) [of "hh_entries h" "hh_head h" v q ?r] p(1) vq by metis
      then have run: "http_header_remove_entry h key = Some (Inr ?h)"
        using loop ne i(3) False True v p(4)
        by (simp add: http_header_remove_entry_def set_next_def entry_at_def)
      have at: "hdr_at ?h (v @ [q])" using cut d by (simp add: hdr_at_def)
      have pair: "entry_pair (?es ! j) = entry_pair (hh_entries h ! j)" for j
        using \<open>q < length (hh_entries h)\<close> by (cases "j = q") (simp_all add: entry_pair_def)
      have "butlast L = map (\<lambda>j. entry_pair (hh_entries h ! j)) (v @ [q])"
        unfolding L by (subst isq) (simp add: butlast_append flip: map_butlast)
      then have "butlast L = map (\<lambda>j. entry_pair (hh_entries ?h ! j)) (v @ [q])" by (simp add: pair)
      then have "hdr_list ?h (butlast L)" using at unfolding hdr_list_def by blast
      then show ?thesis using run True by auto
    next
      case False
      have "(case ?r of [] \<Rightarrow> None | j # _ \<Rightarrow> Some j) \<noteq> hh_tail h"
      proof (cases ?r)
        case Nil
        show ?thesis unfolding Nil using p(4) by simp
      next
        case (Cons j r)
        then have "last is = last (j # r)" using ur by (metis last_appendR list.distinct(1))
        then have "r \<noteq> []" "last is = last r" using False Cons by (auto split: if_splits)
        moreover have "distinct ?r" using p(2) distinct_dropWhile by blast
        ultimately show ?thesis using Cons p(4) by auto
      qed
      moreover have "set_next h q (case ?r of [] \<Rightarrow> None | j # _ \<Rightarrow> Some j) = Inr h"
        using path_same_next [of "hh_entries h" "hh_head h" v q ?r, OF _ refl] p(1) vq
        by (intro set_next_same) metis+
      ultimately have "http_header_remove_entry h key = Some (Inr h)"
        using loop ne i(3) \<open>?u \<noteq> []\<close> v by (simp add: http_header_remove_entry_def)
      then show ?thesis using False same by auto
    qed
  qed
qed

text \<open>
  Removing an entry from a header with several entries never removes the first one or one in the
  middle: the header stays as it is, except that its last entry is dropped when it is the first one
  whose key has the length of the key to remove (or begins with it), be it that key or not.
\<close>

theorem http_header_remove_behaviour:
  assumes "hdr_at h is" "2 \<le> length is"
  shows "\<exists>h'. http_header_remove_entry h key = Some (Inr h') \<and>
    hdr_list h' (let L = map (\<lambda>i. entry_pair (hh_entries h ! i)) is
      in if dropWhile (\<lambda>j. \<not> stops_at h key j) is = [last is] then butlast L else L)"
  using remove_list [OF assms refl, of key] by (simp only: Let_def)

subsection \<open>The text of a request\<close>

definition hdr_line :: "bytes \<times> bytes \<Rightarrow> bytes" where
  "hdr_line kv = fst kv @ cstr '': '' @ snd kv @ [13, 10]"

definition request_text :: "http_request \<Rightarrow> (bytes \<times> bytes) list \<Rightarrow> bytes" where
  "request_text rq L = http_method_as_string (rq_method rq) @ cstr '' '' @ rq_endpoint rq @ cstr '' '' @
     the (http_version_as_string (rq_version rq)) @ [13, 10] @ concat (map hdr_line L) @ [13, 10]"

lemma method_strlen: "length (http_method_as_string m) = http_method_as_strlen m" "http_method_as_strlen m \<noteq> 0"
  by (cases m; simp add: cstr_def)+

lemma version_strlen:
  assumes "http_version_as_string v = Some s"
  shows "length s = http_version_as_strlen v" "http_version_as_strlen v \<noteq> 0"
  using assms by (auto simp: http_version_as_string_def http_version_as_strlen_def cstr_def split: if_splits)

lemma builder_append_at:
  assumes b: "buffer_at b s" "buf_capacity b \<noteq> 0" "length s + length d \<le> 2 ^ 62" and n: "n = 0 \<or> n = length d"
  shows "\<exists>b'. http_builder_append True junk b (Some d) n = Some (Inr (True, b')) \<and> buffer_at b' (s @ d) \<and> buf_capacity b' \<noteq> 0"
proof -
  have "(if n = 0 then Inr d else blk_read (d @ [0]) 0 n) = Inr d" using n by (auto simp: blk_read_def)
  then show ?thesis using buffer_append_at [OF b, of junk] by (simp add: http_builder_append_def)
qed

lemma append_all_at:
  assumes "buffer_at b s" "buf_capacity b \<noteq> 0" "length s + length (concat ds) \<le> 2 ^ 62"
    "list_all2 (\<lambda>(x, n) d. x = Some d \<and> (n = 0 \<or> n = length d)) xs ds"
  shows "\<exists>b'. append_all True junk b xs = Some (Inr b') \<and> buffer_at b' (s @ concat ds) \<and> buf_capacity b' \<noteq> 0"
  using assms
proof (induction xs arbitrary: b s ds)
  case Nil
  then show ?case by simp
next
  case (Cons x xs)
  obtain y n where x: "x = (y, n)" by (cases x)
  obtain d ds' where d: "ds = d # ds'" "y = Some d" "n = 0 \<or> n = length d"
      "list_all2 (\<lambda>(x, n) d. x = Some d \<and> (n = 0 \<or> n = length d)) xs ds'"
    using Cons.prems(4) x by (cases ds) auto
  obtain b' where b': "http_builder_append True junk b (Some d) n = Some (Inr (True, b'))" "buffer_at b' (s @ d)" "buf_capacity b' \<noteq> 0"
    using builder_append_at [OF Cons.prems(1,2) _ d(3), of junk] Cons.prems(3) d(1) by auto
  then show ?case using Cons.IH [OF b'(2,3) _ d(4)] Cons.prems(3) d(1,2) x by auto
qed

lemma build_headers_at:
  assumes "http_header_get_next h it = Inr s" "path (hh_entries h) s is"
    "buffer_at b t" "buf_capacity b \<noteq> 0"
    "length t + length (concat (map (\<lambda>i. hdr_line (entry_pair (hh_entries h ! i))) is)) \<le> 2 ^ 62"
  shows "\<exists>b'. build_headers_loop True junk h it b = Some (Inr b') \<and>
    buffer_at b' (t @ concat (map (\<lambda>i. hdr_line (entry_pair (hh_entries h ! i))) is)) \<and> buf_capacity b' \<noteq> 0"
  using assms
proof (induction "is" arbitrary: it s b t)
  case Nil
  then show ?case by (subst build_headers_loop.simps) simp
next
  case (Cons i "is")
  let ?e = "hh_entries h ! i"
  have e: "entry_at h i = Inr ?e" "s = Some i" using next_entry [OF Cons.prems(2)] by simp_all
  have c: "concat [block_str (he_key ?e), cstr '': '', block_str (he_value ?e), [13, 10]] = hdr_line (entry_pair ?e)"
    by (simp add: hdr_line_def entry_pair_def)
  have len: "length t + length (hdr_line (entry_pair ?e)) \<le> 2 ^ 62"
    "length (t @ hdr_line (entry_pair ?e)) + length (concat (map (\<lambda>i. hdr_line (entry_pair (hh_entries h ! i))) is)) \<le> 2 ^ 62"
    using Cons.prems(5) by simp_all
  obtain b' where b': "append_all True junk b [(Some (block_str (he_key ?e)), 0), (Some (cstr '': ''), 2),
        (Some (block_str (he_value ?e)), 0), (Some [13, 10], 2)] = Some (Inr b')"
      "buffer_at b' (t @ hdr_line (entry_pair ?e))" "buf_capacity b' \<noteq> 0"
    using append_all_at [OF Cons.prems(3,4), of "[block_str (he_key ?e), cstr '': '', block_str (he_value ?e), [13, 10]]"
        "[(Some (block_str (he_key ?e)), 0), (Some (cstr '': ''), 2), (Some (block_str (he_value ?e)), 0), (Some [13, 10], 2)]" junk]
      len(1) unfolding c by (auto simp: cstr_def)
  have "http_header_get_next h (Some i) = Inr (he_next ?e)" using e(1) by (simp add: http_header_get_next_def)
  then show ?case
    using Cons.IH [OF _ _ b'(2,3) len(2)] Cons.prems(1,2) b'(1) e
    by (subst build_headers_loop.simps) simp
qed

lemma deduce_headers_at:
  assumes "http_header_get_next h it = Inr s" "path (hh_entries h) s is"
  shows "deduce_headers_loop h it n = Some (Inr (n + length (concat (map (\<lambda>i. hdr_line (entry_pair (hh_entries h ! i))) is))))"
  using assms
proof (induction "is" arbitrary: it s n)
  case Nil
  then show ?case by (subst deduce_headers_loop.simps) simp
next
  case (Cons i "is")
  have "http_header_get_next h (Some i) = Inr (he_next (hh_entries h ! i))"
    using next_entry [OF Cons.prems(2)] by (simp add: http_header_get_next_def)
  then show ?case
    using Cons.IH Cons.prems next_entry [OF Cons.prems(2)]
    by (subst deduce_headers_loop.simps) (simp add: hdr_line_def entry_pair_def cstr_def)
qed

text \<open>
  C22: Building a request into an empty builder always succeeds for a known version and leaves the text
  of the request there: the request line, one line for each header in order, and an empty line. The
  size that is computed beforehand is the length of that text with a terminator.
\<close>

theorem http_request_build_correct:
  assumes h: "hdr_list (rq_headers rq) L" and v: "rq_version rq \<in> {1, 2, 3}"
    and b: "buffer_at b []" "buf_capacity b \<noteq> 0" and len: "length (request_text rq L) \<le> 2 ^ 62"
  shows "\<exists>b'. http_request_build True junk rq b = Some (Inr (Some b')) \<and> buffer_at b' (request_text rq L) \<and>
    http_request_deduce_build_size rq = Some (Inr (length (request_text rq L) + 1))"
proof -
  let ?h = "rq_headers rq"
  obtain "is" where i: "path (hh_entries ?h) (hh_head ?h) is" "L = map (\<lambda>i. entry_pair (hh_entries ?h ! i)) is"
    using h by (auto simp: hdr_list_def hdr_at_def)
  obtain vs where vs: "http_version_as_string (rq_version rq) = Some vs"
    using v by (auto simp: http_version_as_string_def)
  have nx: "http_header_get_next ?h None = Inr (hh_head ?h)" by (simp add: http_header_get_next_def)
  have lines: "concat (map (\<lambda>i. hdr_line (entry_pair (hh_entries ?h ! i))) is) = concat (map hdr_line L)"
    by (simp add: i(2) comp_def)
  define line where "line = http_method_as_string (rq_method rq) @ cstr '' '' @ rq_endpoint rq @ cstr '' '' @ vs @ [13, 10]"
  have full: "request_text rq L = line @ concat (map hdr_line L) @ [13, 10]" by (simp add: request_text_def line_def vs)
  have ll: "length line + length (concat (map hdr_line L)) + 2 \<le> 2 ^ 62" using len by (simp add: full)
  obtain b1 where b1: "append_all True junk b [(Some (http_method_as_string (rq_method rq)), http_method_as_strlen (rq_method rq)),
        (Some (cstr '' ''), 1), (Some (rq_endpoint rq), 0), (Some (cstr '' ''), 1),
        (http_version_as_string (rq_version rq), http_version_as_strlen (rq_version rq)), (Some [13, 10], 2)] = Some (Inr b1)"
      "buffer_at b1 line" "buf_capacity b1 \<noteq> 0"
    using append_all_at [OF b, of "[http_method_as_string (rq_method rq), cstr '' '', rq_endpoint rq, cstr '' '', vs, [13, 10]]"
        "[(Some (http_method_as_string (rq_method rq)), http_method_as_strlen (rq_method rq)),
        (Some (cstr '' ''), 1), (Some (rq_endpoint rq), 0), (Some (cstr '' ''), 1),
        (http_version_as_string (rq_version rq), http_version_as_strlen (rq_version rq)), (Some [13, 10], 2)]" junk]
      ll method_strlen version_strlen [OF vs] vs by (auto simp: line_def cstr_def)
  obtain b2 where b2: "build_headers_loop True junk ?h None b1 = Some (Inr b2)" "buffer_at b2 (line @ concat (map hdr_line L))"
      "buf_capacity b2 \<noteq> 0"
    using build_headers_at [OF nx i(1) b1(2,3), unfolded lines, of junk] ll by auto
  obtain b3 where b3: "append_all True junk b2 [(Some [13, 10], 2)] = Some (Inr b3)" "buffer_at b3 (request_text rq L)"
    using append_all_at [OF b2(2,3), of "[[13, 10]]" "[(Some [13, 10], 2)]" junk] ll by (auto simp: full)
  have d: "http_request_deduce_build_size rq = Some (Inr (length (request_text rq L) + 1))"
    using deduce_headers_at [OF nx i(1), unfolded lines] method_strlen(1) version_strlen(1) [OF vs]
    by (simp add: http_request_deduce_build_size_def full line_def cstr_def)
  have "http_builder_is_empty b" using b(1) by (auto simp: http_builder_is_empty_def buffer_is_empty_def buffer_at_def unat_eq_0)
  then show ?thesis using d b1(1) b2(1) b3 by (simp add: http_request_build_def)
qed

subsection \<open>The text of a response\<close>

lemma read_mid: "read_at (pre @ c # post) (length pre) = Inr c"
  by (simp add: read_at_def)

declare skip_to.simps [simp del] scan_to.simps [simp del]

lemma skip_to_ok:
  assumes "body = pre @ x @ c # post" "c \<notin> set x" "length pre + length x < sz"
  shows "skip_to body sz c (length pre) = Inr (True, length pre + length x + 1)"
  using assms
proof (induction x arbitrary: pre)
  case Nil
  then show ?case by (subst skip_to.simps) (simp add: read_mid)
next
  case (Cons a x)
  have "read_at body (length pre) = Inr a" using Cons.prems(1) by (simp add: read_mid)
  then show ?case
    using Cons.IH [of "pre @ [a]"] Cons.prems by (subst skip_to.simps) auto
qed

lemma scan_to_ok:
  assumes "body = pre @ x @ c # post" "c \<notin> set x" "length pre + length x < sz"
  shows "scan_to body sz c (length pre) n = Inr (n + length x, length pre + length x + 1)"
  using assms
proof (induction x arbitrary: pre n)
  case Nil
  then show ?case by (subst scan_to.simps) (simp add: read_mid)
next
  case (Cons a x)
  have "read_at body (length pre) = Inr a" using Cons.prems(1) by (simp add: read_mid)
  then show ?case
    using Cons.IH [of "pre @ [a]" "n + 1"] Cons.prems by (subst scan_to.simps) auto
qed

lemma scan_to_end:
  assumes "body = pre @ x @ post" "c \<notin> set x" "length pre + length x = sz"
  shows "scan_to body sz c (length pre) n = Inr (n + length x, sz)"
  using assms
proof (induction x arbitrary: pre n)
  case Nil
  then show ?case by (subst scan_to.simps) simp
next
  case (Cons a x)
  have "read_at body (length pre) = Inr a" using Cons.prems(1) by (simp add: read_mid)
  then show ?case
    using Cons.IH [of "pre @ [a]" "n + 1"] Cons.prems by (subst scan_to.simps) auto
qed

text \<open>
  Keys and values as they can be sent: not empty, without the characters that end them, and shorter
  than a block of the string arena.
\<close>

definition sendable :: "bytes \<times> bytes \<Rightarrow> bool" where
  "sendable kv \<longleftrightarrow> fst kv \<noteq> [] \<and> snd kv \<noteq> [] \<and> {0, 13, 58} \<inter> set (fst kv) = {} \<and> {0, 13} \<inter> set (snd kv) = {} \<and>
     length (fst kv) < 2048 \<and> length (snd kv) < 2048"

lemma denotes_mid:
  "x \<noteq> [] \<Longrightarrow> 0 \<notin> set x \<Longrightarrow> denotes (pre @ x @ post) (length pre) (length x) x"
  by (simp add: denotes_def blk_read_mid)

lemma parse_key_ok:
  assumes "body = pre @ k @ 58 # c # post" "k \<noteq> []" "58 \<notin> set k" "13 \<notin> set k" "length pre + length k + 2 \<le> sz"
  shows "http_response_parser_parse_key body sz (length pre) = Inr (Some (length pre, length k, length pre + length k + 2))"
proof -
  obtain a k' where k: "k = a # k'" "a \<noteq> 13" using assms(2,4) by (cases k) auto
  have "read_at body (length pre) = Inr a" using assms(1) k by (simp add: read_mid)
  moreover obtain b where "read_at body (length pre + 1) = Inr b"
    using assms(1) k(1) by (simp add: read_at_def)
  moreover have "scan_to body sz 58 (length pre) 0 = Inr (length k, length pre + length k + 1)"
    using scan_to_ok [of body pre k 58 "c # post" sz 0] assms by simp
  moreover have "\<not> length pre + 2 \<ge> sz" using assms(5) k(1) by simp
  ultimately show ?thesis using k(2) by (simp add: http_response_parser_parse_key_def)
qed

lemma parse_line_ok:
  assumes body: "body = pre @ hdr_line kv @ post" and kv: "sendable kv" and sz: "length pre + length (hdr_line kv) \<le> sz"
    and h: "hdr_list h H" "hdr_stored h"
  shows "\<exists>h'. parse_headers_loop (\<lambda>_ _. True) junk (Suc fuel) body sz (length pre) h
      = parse_headers_loop (\<lambda>_ _. True) junk fuel body sz (length (pre @ hdr_line kv)) h' \<and>
    hdr_list h' (H @ [kv]) \<and> hdr_stored h'"
proof -
  obtain k v where kv_def: "kv = (k, v)" by (cases kv)
  have k: "k \<noteq> []" "58 \<notin> set k" "13 \<notin> set k" "0 \<notin> set k" and v: "v \<noteq> []" "13 \<notin> set v" "0 \<notin> set v"
    and short: "length k < STRING_ARENA_SZ" "length v < STRING_ARENA_SZ"
    using kv by (auto simp: sendable_def kv_def STRING_ARENA_SZ_def)
  have line: "hdr_line kv = k @ 58 # 32 # v @ [13, 10]" by (simp add: hdr_line_def kv_def cstr_def)
  have len: "length pre + length k + 2 + length v + 2 \<le> sz" using sz by (simp add: line)
  let ?pre = "pre @ k @ [58, 32]"
  have key: "http_response_parser_parse_key body sz (length pre) = Inr (Some (length pre, length k, length pre + length k + 2))"
    using len by (intro parse_key_ok [where c = 32 and post = "v @ [13, 10] @ post"]) (simp_all add: body line k)
  have body': "body = ?pre @ v @ 13 # 10 # post" by (simp add: body line)
  have "scan_to body sz 13 (length ?pre) 0 = Inr (0 + length v, length ?pre + length v + 1)"
    using len v by (intro scan_to_ok [OF body']) simp_all
  then have val: "http_response_parser_parse_value body sz (length pre + length k + 2)
      = Inr (length pre + length k + 2, length v, length (pre @ hdr_line kv))"
    by (simp add: http_response_parser_parse_value_def line)
  have c: "denotes body (length pre) (length k) k" "denotes body (length pre + length k + 2) (length v) v"
    using denotes_mid [OF k(1,4), of pre "58 # 32 # v @ [13, 10] @ post"] denotes_mid [OF v(1,3), of ?pre "13 # 10 # post"]
    by (simp_all add: body line)
  obtain h' where "http_header_add_entry (\<lambda>_. True) junk h body (length pre) (length k) body (length pre + length k + 2) (length v) = Inr h'"
      "hdr_list h' (H @ [kv])" "hdr_stored h'"
    using add_entry_list [OF h c(1) short(1) c(2) short(2), of junk] kv_def by blast
  then show ?thesis using key val len by (intro exI [of _ h']) simp
qed

lemma parse_headers_ok:
  assumes "body = pre @ concat (map hdr_line L) @ 13 # 10 # rest" "rest \<noteq> []" "\<forall>kv \<in> set L. sendable kv"
    "sz = length body" "hdr_list h H" "length L < fuel" "hdr_stored h"
  shows "\<exists>h'. parse_headers_loop (\<lambda>_ _. True) junk fuel body sz (length pre) h
      = Some (Inr (True, length pre + length (concat (map hdr_line L)), h')) \<and> hdr_list h' (H @ L) \<and> hdr_stored h'"
  using assms
proof (induction L arbitrary: pre h H fuel)
  case Nil
  then obtain f where f: "fuel = Suc f" by (cases fuel) auto
  have "read_at body (length pre) = Inr 13" using Nil.prems(1) by (simp add: read_mid)
  moreover have "read_at body (length pre + 1) = Inr 10" using Nil.prems(1) by (simp add: read_at_def nth_append)
  moreover have "\<not> length pre + 2 \<ge> sz" using Nil.prems(1,2,4) by (cases rest) auto
  ultimately have "http_response_parser_parse_key body sz (length pre) = Inr None"
    by (simp add: http_response_parser_parse_key_def)
  then show ?case using f Nil.prems(5,7) by simp
next
  case (Cons kv L)
  obtain f where f: "fuel = Suc f" "length L < f" using Cons.prems(6) by (cases fuel) auto
  have "length pre + length (hdr_line kv) \<le> sz" using Cons.prems(1,4) by simp
  then obtain h' where h': "parse_headers_loop (\<lambda>_ _. True) junk (Suc f) body sz (length pre) h
        = parse_headers_loop (\<lambda>_ _. True) junk f body sz (length (pre @ hdr_line kv)) h'" "hdr_list h' (H @ [kv])" "hdr_stored h'"
    using parse_line_ok [of body pre kv "concat (map hdr_line L) @ 13 # 10 # rest" sz h H junk f] Cons.prems by auto
  have "body = (pre @ hdr_line kv) @ concat (map hdr_line L) @ 13 # 10 # rest" using Cons.prems(1) by simp
  then show ?case
    using Cons.IH [OF _ Cons.prems(2) _ Cons.prems(4) h'(2) f(2) h'(3), of "pre @ hdr_line kv"] Cons.prems(3) h'(1) f(1) by auto
qed

lemma skip_crlf_ok:
  assumes "body = pre @ x @ 13 # 10 # post" "13 \<notin> set x" "length pre + length x + 2 < sz"
  shows "http_response_parser_skip_crlf body sz (length pre) = Inr (True, length pre + length x + 2)"
proof -
  have "skip_to body sz 13 (length pre) = Inr (True, length pre + length x + 1)"
    using assms by (intro skip_to_ok) auto
  moreover have "read_at body (length pre + length x + 1) = Inr 10"
    using assms(1) by (simp add: read_at_def nth_append)
  ultimately show ?thesis using assms(3) by (simp add: http_response_parser_skip_crlf_def)
qed

lemma digit_not_http_special: "c_digit c \<Longrightarrow> \<not> c_space c \<and> c \<noteq> 45 \<and> c \<noteq> 43 \<and> c \<noteq> 13 \<and> c \<noteq> 32"
  using order_trans [of 48 c 13] by (auto simp: c_digit_def c_space_def)

lemma strtoll_digits:
  assumes "ds \<noteq> []" "\<forall>d \<in> set ds. c_digit d" "\<not> c_digit c"
  shows "strtoll (ds @ c # r) = strtoll ds" "atoi_at (pre @ ds @ c # r) (length pre) = Inr (word_of_int (strtoll ds))"
proof -
  obtain d ds' where d: "ds = d # ds'" "c_digit d" using assms by (cases ds) auto
  have tw: "takeWhile c_digit (ds' @ c # r) = ds'" "takeWhile c_digit ds' = ds'" "dropWhile c_digit (ds' @ c # r) = c # r"
    using assms(2,3) d(1) by (simp_all add: takeWhile_eq_all_conv dropWhile_append)
  show eq: "strtoll (ds @ c # r) = strtoll ds"
    using d digit_not_http_special [OF d(2)] by (simp add: strtoll_def tw)
  show "atoi_at (pre @ ds @ c # r) (length pre) = Inr (word_of_int (strtoll ds))"
    using d digit_not_http_special [OF d(2)] eq assms(3) by (simp add: atoi_at_def tw)
qed

definition status_line :: "bytes \<Rightarrow> bytes \<Rightarrow> bytes \<Rightarrow> bytes" where
  "status_line v ds reason = cstr ''HTTP/'' @ v @ [32] @ ds @ [32] @ reason @ [13, 10]"

lemma status_line_parsed:
  assumes v: "v \<noteq> []" "hd v \<noteq> 48" "32 \<notin> set v" and ds: "ds \<noteq> []" "\<forall>d \<in> set ds. c_digit d"
    and reason: "13 \<notin> set reason" and body: "body = status_line v ds reason @ rest" "rest \<noteq> []" and sz: "sz = length body"
  shows "http_version_from_string body sz = Inr (sint (hd v) - 48)" "sint (hd v) - 48 \<noteq> 0"
    "http_response_parser_skip_whitespace body sz 0 = Inr (True, 6 + length v)"
    "atoi_at body (6 + length v) = Inr (word_of_int (strtoll ds))"
    "http_response_parser_skip_crlf body sz (6 + length v) = Inr (True, length (status_line v ds reason))"
proof -
  obtain c v' where v': "v = c # v'" using v(1) by (cases v) auto
  have b1: "body = (cstr ''HTTP/'' @ v) @ 32 # (ds @ [32] @ reason @ [13, 10] @ rest)"
    and b2: "body = (cstr ''HTTP/'' @ v @ [32]) @ ds @ 32 # (reason @ [13, 10] @ rest)"
    and b3: "body = (cstr ''HTTP/'' @ v @ [32]) @ (ds @ [32] @ reason) @ 13 # 10 # rest"
    by (simp_all add: body status_line_def)
  have len: "sz = length (cstr ''HTTP/'') + length v + 1 + length ds + 1 + length reason + 2 + length rest"
    by (simp add: sz body status_line_def)
  have c5: "length (cstr ''HTTP/'') = 5" by (simp add: cstr_def)
  have p6: "length (cstr ''HTTP/'' @ v @ [32]) = 6 + length v" by (simp add: c5)
  have "take 5 body = cstr ''HTTP/''" using b1 c5 by simp
  moreover have "read_at body 5 = Inr c" using read_mid [of "cstr ''HTTP/''" c] c5 by (simp add: b1 v')
  moreover have "\<not> sz < 6" using len c5 by simp
  ultimately show "http_version_from_string body sz = Inr (sint (hd v) - 48)"
    by (simp add: http_version_from_string_def v')
  show "sint (hd v) - 48 \<noteq> 0"
  proof
    assume "sint (hd v) - 48 = 0"
    then have "sint (hd v) = sint (48 :: u8)" by simp
    then have "hd v = 48" by (rule signed_word_eqI)
    then show False using v(2) by simp
  qed
  have "skip_to body sz 32 (length ([] :: bytes)) = Inr (True, length ([] :: bytes) + length (cstr ''HTTP/'' @ v) + 1)"
    using v(3) len c5 by (intro skip_to_ok [where post = "ds @ [32] @ reason @ [13, 10] @ rest"]) (simp_all add: b1, simp add: cstr_def)
  then have "skip_to body sz 32 0 = Inr (True, 6 + length v)" by (simp add: c5)
  then show "http_response_parser_skip_whitespace body sz 0 = Inr (True, 6 + length v)"
    using len c5 by (simp add: http_response_parser_skip_whitespace_def)
  have "\<not> c_digit 32" by (simp add: c_digit_def)
  from strtoll_digits(2) [OF ds this, of "cstr ''HTTP/'' @ v @ [32]" "reason @ [13, 10] @ rest"]
  show "atoi_at body (6 + length v) = Inr (word_of_int (strtoll ds))" by (simp only: b2 p6)
  have "13 \<notin> set (ds @ [32] @ reason)" using ds(2) digit_not_http_special reason by fastforce
  moreover have "0 < length rest" using body(2) by simp
  ultimately have "http_response_parser_skip_crlf body sz (length (cstr ''HTTP/'' @ v @ [32]))
      = Inr (True, length (cstr ''HTTP/'' @ v @ [32]) + length (ds @ [32] @ reason) + 2)"
    using len by (intro skip_crlf_ok [OF b3]) (simp_all add: c5)
  then show "http_response_parser_skip_crlf body sz (6 + length v) = Inr (True, length (status_line v ds reason))"
    by (simp add: status_line_def c5)
qed

text \<open>
  C11: A well-formed response text whose keys and values are shorter than 2048 bytes is parsed into its
  parts: the version digit, the status code, the header entries in order, each held by the string arena,
  and the content byte by byte. The content must not be empty (the caller appends a terminator, which is
  counted as content). A longer key or value overflows the arena (\<open>http_header_long_value_overflows\<close>,
  \<open>http_response_long_header_overflows\<close>).
\<close>

theorem http_response_parse_correct:
  assumes v: "v \<noteq> []" "hd v \<noteq> 48" "32 \<notin> set v" and ds: "ds \<noteq> []" "\<forall>d \<in> set ds. c_digit d"
    and reason: "13 \<notin> set reason" and L: "\<forall>kv \<in> set L. sendable kv" and content: "content \<noteq> []"
    and rs: "http_response_init (\<lambda>_. True) junk = Some rs"
    and body: "body = status_line v ds reason @ concat (map hdr_line L) @ [13, 10] @ content"
  shows "\<exists>rs'. http_response_parse (\<lambda>_ _. True) junk True rs body (length body) = Some (Inr (True, rs')) \<and>
    rs_version rs' = sint (hd v) - 48 \<and> rs_code rs' = word_of_int (strtoll ds) \<and> hdr_list (rs_headers rs') L \<and>
    hdr_stored (rs_headers rs') \<and> rs_content rs' = Some (content @ [0]) \<and> rs_content_sz rs' = length content"
proof -
  let ?s = "status_line v ds reason" and ?sz = "length body"
  note st = status_line_parsed [OF v ds reason, of body "concat (map hdr_line L) @ [13, 10] @ content" ?sz]
  have h0: "hdr_list (rs_headers rs) []" "hdr_stored (rs_headers rs)"
    using rs hdr_list_empty hdr_stored_init by (auto simp: http_response_init_def split: option.splits)
  have "kv \<in> set L \<Longrightarrow> 1 \<le> length (hdr_line kv)" for kv by (simp add: hdr_line_def)
  then have "length L \<le> length (concat (map hdr_line L))" by (induction L) (simp, fastforce)
  then have "length L < ?sz + 1" by (simp add: body)
  then obtain h where h: "parse_headers_loop (\<lambda>_ _. True) junk (?sz + 1) body ?sz (length ?s) (rs_headers rs)
        = Some (Inr (True, length ?s + length (concat (map hdr_line L)), h))" "hdr_list h L" "hdr_stored h"
    using parse_headers_ok [of body ?s L content ?sz "rs_headers rs" "[]" "?sz + 1" junk] content L h0 body by auto
  have b: "body = (?s @ concat (map hdr_line L)) @ [] @ 13 # 10 # content" by (simp add: body)
  have c0: "0 < length content" using content by simp
  have crlf: "http_response_parser_skip_crlf body ?sz (length ?s + length (concat (map hdr_line L)))
      = Inr (True, length ?s + length (concat (map hdr_line L)) + 2)"
    using skip_crlf_ok [OF b, of ?sz] c0 by (simp add: body)
  have rd: "blk_read body (length ?s + length (concat (map hdr_line L)) + 2) (length content) = Inr content"
    using blk_read_mid [of _ "?s @ concat (map hdr_line L) @ [13, 10]" _ content "[]"] by (simp add: body)
  have "?sz - (length ?s + length (concat (map hdr_line L)) + 2) = length content" by (simp add: body)
  then show ?thesis
    using st h crlf rd c0 body content by (simp add: http_response_parse_def Let_def)
qed

text \<open>
  A response that ends inside the value of its only header makes the parser read past the end of
  the text.
\<close>

theorem http_response_truncated_out_of_bounds:
  assumes v: "v \<noteq> []" "hd v \<noteq> 48" "32 \<notin> set v" and ds: "ds \<noteq> []" "\<forall>d \<in> set ds. c_digit d"
    and reason: "13 \<notin> set reason" and kv: "sendable (k, w)"
    and rs: "http_response_init (\<lambda>_. True) junk = Some rs"
    and body: "body = status_line v ds reason @ k @ cstr '': '' @ w"
  shows "http_response_parse (\<lambda>_ _. True) junk True rs body (length body) = Some (Inl OutOfBounds)"
proof -
  let ?s = "status_line v ds reason" and ?sz = "length body"
  have k: "k \<noteq> []" "58 \<notin> set k" "13 \<notin> set k" "0 \<notin> set k" and w: "w \<noteq> []" "13 \<notin> set w" "0 \<notin> set w"
    and short: "length k < STRING_ARENA_SZ" "length w < STRING_ARENA_SZ"
    using kv by (auto simp: sendable_def STRING_ARENA_SZ_def)
  note st = status_line_parsed [OF v ds reason, of body "k @ cstr '': '' @ w" ?sz]
  have h0: "hdr_list (rs_headers rs) []" "hdr_stored (rs_headers rs)"
    using rs hdr_list_empty hdr_stored_init by (auto simp: http_response_init_def split: option.splits)
  let ?pre = "?s @ k @ [58, 32]"
  have b: "body = ?pre @ w @ []" "body = ?s @ k @ 58 # 32 # w" by (simp_all add: body cstr_def)
  have key: "http_response_parser_parse_key body ?sz (length ?s) = Inr (Some (length ?s, length k, length ?pre))"
    using parse_key_ok [OF b(2) k(1-3), of ?sz] by (simp add: b(2))
  have "scan_to body ?sz 13 (length ?pre) 0 = Inr (0 + length w, ?sz)"
    using w by (intro scan_to_end [OF b(1)]) (simp_all add: b(2))
  then have val: "http_response_parser_parse_value body ?sz (length ?pre) = Inr (length ?pre, length w, ?sz + 1)"
    by (simp add: http_response_parser_parse_value_def)
  have c: "denotes body (length ?s) (length k) k" "denotes body (length ?pre) (length w) w"
    using denotes_mid [OF k(1,4), of ?s "58 # 32 # w"] denotes_mid [OF w(1,3), of ?pre "[]"] by (simp_all add: b(2))
  obtain h where h: "http_header_add_entry (\<lambda>_. True) junk (rs_headers rs) body (length ?s) (length k) body (length ?pre) (length w) = Inr h"
    using add_entry_list [OF h0 c(1) short(1) c(2) short(2), of junk] by blast
  have "\<not> length ?pre \<ge> ?sz" using w(1) by (simp add: b(2))
  moreover have "http_response_parser_parse_key body ?sz (?sz + 1) = Inr None"
    by (simp add: http_response_parser_parse_key_def)
  moreover obtain f where "?sz = Suc f" using w(1) by (cases ?sz) (simp_all add: b(2))
  ultimately have loop: "parse_headers_loop (\<lambda>_ _. True) junk (?sz + 1) body ?sz (length ?s) (rs_headers rs) = Some (Inr (True, ?sz + 1, h))"
    using key val h by simp
  have "http_response_parser_skip_crlf body ?sz (?sz + 1) = Inl OutOfBounds"
    by (simp add: http_response_parser_skip_crlf_def skip_to.simps [of body] read_at_def)
  then show ?thesis
    using st loop k(1) body by (simp add: http_response_parse_def Let_def)
qed

text \<open>
  A response whose first header value has 2048 bytes or more overflows the string arena while it is
  parsed: the text of the server decides what is written past the block.
\<close>

theorem http_response_long_header_overflows:
  assumes v: "v \<noteq> []" "hd v \<noteq> 48" "32 \<notin> set v" and ds: "ds \<noteq> []" "\<forall>d \<in> set ds. c_digit d"
    and reason: "13 \<notin> set reason" and k: "k \<noteq> []" "58 \<notin> set k" "13 \<notin> set k" "0 \<notin> set k"
    and w: "2048 \<le> length w" "13 \<notin> set w" "0 \<notin> set w"
    and rs: "http_response_init (\<lambda>_. True) junk = Some rs"
    and body: "body = status_line v ds reason @ hdr_line (k, w) @ rest"
  shows "http_response_parse (\<lambda>_ _. True) junk True rs body (length body) = Some (Inl OutOfBounds)"
proof -
  let ?s = "status_line v ds reason" and ?sz = "length body"
  let ?pre = "?s @ k @ [58, 32]"
  note st = status_line_parsed [OF v ds reason, of body "hdr_line (k, w) @ rest" ?sz]
  have w0: "w \<noteq> []" using w(1) by auto
  have h0: "hdr_stored (rs_headers rs)"
    using rs hdr_stored_init by (auto simp: http_response_init_def split: option.splits)
  have b: "body = ?pre @ w @ 13 # 10 # rest" "body = ?s @ k @ 58 # 32 # w @ 13 # 10 # rest"
    by (simp_all add: body hdr_line_def cstr_def)
  have key: "http_response_parser_parse_key body ?sz (length ?s) = Inr (Some (length ?s, length k, length ?pre))"
    using parse_key_ok [OF b(2) k(1-3), of ?sz] by (simp add: b(2))
  have "scan_to body ?sz 13 (length ?pre) 0 = Inr (0 + length w, length ?pre + length w + 1)"
    using w by (intro scan_to_ok [OF b(1)]) (simp_all add: b(2))
  then have val: "http_response_parser_parse_value body ?sz (length ?pre) = Inr (length ?pre, length w, length ?pre + length w + 2)"
    by (simp add: http_response_parser_parse_value_def)
  have c: "denotes body (length ?s) (length k) k" "denotes body (length ?pre) (length w) w"
    using denotes_mid [OF k(1,4), of ?s "58 # 32 # w @ 13 # 10 # rest"] denotes_mid [OF w0 w(3), of ?pre "13 # 10 # rest"]
    by (simp_all add: b(2))
  have "http_header_add_entry (\<lambda>_. True) junk (rs_headers rs) body (length ?s) (length k) body (length ?pre) (length w) = Inl OutOfBounds"
    using add_entry_overflow [OF h0 c, of junk] w(1) by (simp add: STRING_ARENA_SZ_def)
  moreover have "\<not> length ?pre \<ge> ?sz" by (simp add: b(2))
  ultimately have loop: "parse_headers_loop (\<lambda>_ _. True) junk (?sz + 1) body ?sz (length ?s) (rs_headers rs) = Some (Inl OutOfBounds)"
    using key val by simp
  have "hdr_line (k, w) @ rest \<noteq> []" by (simp add: hdr_line_def)
  then show ?thesis using st loop body by (simp add: http_response_parse_def Let_def)
qed

text \<open>A piece shorter than the buffer ends the reception, whatever is still to come.\<close>

lemma recv_short_piece_ends:
  assumes "length s < HTTP_RESPONSE_BUFFER_SZ"
  shows "recv_loop ok junk b (Some s # chunks) = recv_one ok junk b (Some s)"
  using assms by (cases "recv_one ok junk b (Some s)") (auto simp: run_bind_def split: sum.split)

subsection \<open>Examples\<close>

definition empty_header :: http_header where
  "empty_header = the (http_header_init (\<lambda>_. True) (\<lambda>_. 0))"

lemma empty_header_init: "http_header_init (\<lambda>_. True) (\<lambda>_. 0) = Some empty_header"
  by (simp add: empty_header_def http_header_init_def arena_init_def arena_block_init_def)

lemmas empty_header_list = hdr_list_empty [OF empty_header_init]
lemmas empty_header_stored = hdr_stored_init [OF empty_header_init]

definition two_entries :: "http_entry list" where
  "two_entries = [\<lparr>he_key = cstr ''Accept'' @ [0], he_key_at = (0, 0), he_value = cstr ''x'' @ [0], he_value_at = (0, 7), he_next = Some 1\<rparr>,
      \<lparr>he_key = cstr ''Date'' @ [0], he_key_at = (0, 9), he_value = cstr ''y'' @ [0], he_value_at = (0, 14), he_next = None\<rparr>]"

definition two_header :: http_header where
  "two_header = empty_header\<lparr>hh_entries := two_entries, hh_head := Some 0, hh_tail := Some 1\<rparr>"

lemma two_header_entries: "hh_entries two_header = two_entries"
  by (simp add: two_header_def)

theorem http_header_correct_witness:
  "\<exists>h' r. http_header_add_entry (\<lambda>_. True) (\<lambda>_. 0) empty_header (cstr ''Host'') 0 4 (cstr ''me'' @ [0]) 0 0 = Inr h' \<and>
    hdr_list h' [(cstr ''Host'', cstr ''me'')] \<and> hdr_stored h' \<and> http_header_find h' (cstr ''Host'') = Some (Inr r) \<and>
    map_option (\<lambda>i. block_str (he_value (hh_entries h' ! i))) r = Some (cstr ''me'')"
proof -
  have d: "denotes (cstr ''Host'') 0 4 (cstr ''Host'')" "denotes (cstr ''me'' @ [0]) 0 0 (cstr ''me'')"
    by code_simp+
  have len: "length (cstr ''Host'') < STRING_ARENA_SZ" "length (cstr ''me'') < STRING_ARENA_SZ"
    by (simp_all add: cstr_def STRING_ARENA_SZ_def)
  show ?thesis
    using http_header_correct [OF empty_header_list empty_header_stored d(1) len(1) d(2) len(2), of "\<lambda>_. 0" "cstr ''Host''"] by simp
qed

theorem http_header_long_value_overflows_witness:
  "http_header_add_entry (\<lambda>_. True) (\<lambda>_. 0) empty_header (cstr ''A'') 0 1 (replicate 2048 120) 0 2048 = Inl OutOfBounds"
proof (rule http_header_long_value_overflows [OF empty_header_stored])
  show "denotes (cstr ''A'') 0 1 (cstr ''A'')" by code_simp
  show "denotes (replicate 2048 120) 0 2048 (replicate 2048 120)" by (simp add: denotes_def blk_read_def)
qed simp

text \<open>Removing \<^verbatim>\<open>Host\<close>, which is not there, removes \<^verbatim>\<open>Date\<close>.\<close>

theorem http_header_remove_behaviour_witness:
  "\<exists>h'. http_header_remove_entry two_header (cstr ''Host'') = Some (Inr h') \<and> hdr_list h' [(cstr ''Accept'', cstr ''x'')]"
proof -
  have at: "hdr_at two_header [0, 1]" by (simp add: hdr_at_def two_header_def two_entries_def)
  have "dropWhile (\<lambda>j. \<not> stops_at two_header (cstr ''Host'') j) [0, 1] = [1]"
    unfolding stops_at_def two_header_entries by code_simp
  moreover have "map (\<lambda>i. entry_pair (hh_entries two_header ! i)) [0, 1] = [(cstr ''Accept'', cstr ''x''), (cstr ''Date'', cstr ''y'')]"
    unfolding two_header_entries by code_simp
  ultimately show ?thesis using http_header_remove_behaviour [OF at, of "cstr ''Host''"] by (simp only: Let_def) simp
qed

theorem http_request_build_correct_witness:
  "\<exists>b'. http_request_build True (\<lambda>_. 0) \<lparr>rq_version = 1, rq_method = HTTPMethod_GET, rq_endpoint = cstr ''/'', rq_headers = empty_header\<rparr>
      \<lparr>buf_data = Some [0], buf_capacity = 1, buf_sz = 0\<rparr> = Some (Inr (Some b')) \<and>
    buffer_at b' (cstr ''GET / HTTP/1.1'' @ [13, 10, 13, 10])"
proof -
  let ?rq = "\<lparr>rq_version = 1, rq_method = HTTPMethod_GET, rq_endpoint = cstr ''/'', rq_headers = empty_header\<rparr>"
  have t: "request_text ?rq [] = cstr ''GET / HTTP/1.1'' @ [13, 10, 13, 10]"
    by (simp add: request_text_def http_version_as_string_def cstr_def)
  have "length (request_text ?rq []) \<le> 2 ^ 62" unfolding t by (simp add: cstr_def)
  moreover have "buffer_at \<lparr>buf_data = Some [0], buf_capacity = 1, buf_sz = 0\<rparr> []" by (simp add: buffer_at_def)
  ultimately show ?thesis
    using http_request_build_correct [of ?rq "[]" "\<lparr>buf_data = Some [0], buf_capacity = 1, buf_sz = 0\<rparr>" "\<lambda>_. 0"] empty_header_list t
    by auto
qed

definition empty_response :: http_response where
  "empty_response = \<lparr>rs_version = 0, rs_headers = empty_header, rs_code = 0, rs_content = None, rs_content_sz = 0\<rparr>"

lemma empty_response_init: "http_response_init (\<lambda>_. True) (\<lambda>_. 0) = Some empty_response"
  by (simp add: http_response_init_def empty_header_init empty_response_def)

theorem http_response_parse_correct_witness:
  "\<exists>rs'. http_response_parse (\<lambda>_ _. True) (\<lambda>_. 0) True empty_response
      (status_line (cstr ''1.1'') (cstr ''200'') (cstr ''OK'') @ concat (map hdr_line [(cstr ''A'', cstr ''b'')]) @ [13, 10] @ cstr ''hi'')
      (length (status_line (cstr ''1.1'') (cstr ''200'') (cstr ''OK'') @ concat (map hdr_line [(cstr ''A'', cstr ''b'')]) @ [13, 10] @ cstr ''hi''))
      = Some (Inr (True, rs')) \<and> rs_version rs' = 1 \<and> rs_code rs' = 200 \<and> rs_content rs' = Some (cstr ''hi'' @ [0])"
proof -
  have "cstr ''1.1'' \<noteq> []" "hd (cstr ''1.1'') \<noteq> 48" "32 \<notin> set (cstr ''1.1'')" "cstr ''200'' \<noteq> []"
    "\<forall>d \<in> set (cstr ''200''). c_digit d" "13 \<notin> set (cstr ''OK'')" "\<forall>kv \<in> set [(cstr ''A'', cstr ''b'')]. sendable kv" "cstr ''hi'' \<noteq> []"
    "sint (hd (cstr ''1.1'')) - 48 = 1" "(word_of_int (strtoll (cstr ''200'')) :: 32 word) = 200"
    by code_simp+
  then show ?thesis using http_response_parse_correct [OF _ _ _ _ _ _ _ _ empty_response_init refl,
      of "cstr ''1.1''" "cstr ''200''" "cstr ''OK''" "[(cstr ''A'', cstr ''b'')]" "cstr ''hi''"] by auto
qed

theorem http_response_long_header_overflows_witness:
  "http_response_parse (\<lambda>_ _. True) (\<lambda>_. 0) True empty_response
     (status_line (cstr ''1.1'') (cstr ''200'') (cstr ''OK'') @ hdr_line (cstr ''A'', replicate 2048 120) @ [])
     (length (status_line (cstr ''1.1'') (cstr ''200'') (cstr ''OK'') @ hdr_line (cstr ''A'', replicate 2048 120) @ []))
   = Some (Inl OutOfBounds)"
proof (rule http_response_long_header_overflows [OF _ _ _ _ _ _ _ _ _ _ _ _ _ empty_response_init refl])
  show "2048 \<le> length (replicate 2048 (120 :: u8))" "13 \<notin> set (replicate 2048 (120 :: u8))" "0 \<notin> set (replicate 2048 (120 :: u8))"
    by simp_all
qed code_simp+

theorem http_response_truncated_out_of_bounds_witness:
  "http_response_parse (\<lambda>_ _. True) (\<lambda>_. 0) True empty_response (status_line (cstr ''1.1'') (cstr ''200'') (cstr ''OK'') @ cstr ''A'' @ cstr '': '' @ cstr ''b'')
     (length (status_line (cstr ''1.1'') (cstr ''200'') (cstr ''OK'') @ cstr ''A'' @ cstr '': '' @ cstr ''b''))
   = Some (Inl OutOfBounds)"
  by (rule http_response_truncated_out_of_bounds [OF _ _ _ _ _ _ _ empty_response_init refl]) code_simp+

end
