(* ===== verification/ThreadPool.thy ===== *)
theory ThreadPool
  imports Prelude
begin

text \<open>
  The work-stealing thread pool of \<^verbatim>\<open>thread.c\<close> as a system of threads that interleave: the owner,
  which creates and releases the pool, clients (the owner's own calls in between are those of a client), and the workers. A step is one thread doing
  its next access to shared memory (an atomic operation, a queue operation, a read of a flag)
  together with the local work around it. Memory is sequentially consistent.

  The concurrent queues are a submodule that is not part of the sources, so their operations are
  parameters, as are the identifiers the operating system gives to threads and the functions that
  are submitted: what matters of a function is the list of calls it makes to the pool.
\<close>

subsection \<open>State\<close>

datatype thread = Owner | Client nat | Worker nat

text \<open>A call to the pool; works and waiters are named by their addresses.\<close>

datatype pool_call = WorkAdd nat nat "nat option" | PoolWait | WaiterWait nat

record 'q pool_env =
  env_enqueue :: "'q \<Rightarrow> nat \<Rightarrow> bool \<times> 'q"
  env_dequeue :: "'q \<Rightarrow> nat option \<times> 'q"
  env_size :: "'q \<Rightarrow> nat"
  env_thread_id :: "thread \<Rightarrow> nat"
  env_calls :: "nat \<Rightarrow> nat \<Rightarrow> pool_call list"

record work =
  wk_func :: nat
  wk_arg :: nat
  wk_waiter :: "nat option"

text \<open>
  Where a thread that makes calls stands: before its next call, with a new work and no queue chosen,
  about to push a work to a queue, or in the scan of \<^verbatim>\<open>threadpool_wait\<close> over the queues.
\<close>

datatype call_pc = CReady | CPick nat | CEnqueue nat nat | CScan nat

text \<open>Where a worker stands in \<^verbatim>\<open>threadpool_worker_func\<close>, with the work it holds.\<close>

datatype worker_pc = WStart | WLoop | WOwn | WSteal nat | WBegin nat | WRun nat call_pc "pool_call list"
  | WEnd nat | WFree nat | WSpin | WExit | WDone

record 'q worker =
  w_queue :: 'q
  w_tid :: nat
  w_spins :: u32
  w_pc :: worker_pc

record client =
  c_pc :: call_pc
  c_calls :: "pool_call list"

text \<open>
  Where the owner stands: in the last loop of \<^verbatim>\<open>threadpool_init\<close>, with a pool that is in use, and in
  \<^verbatim>\<open>threadpool_release\<close>: joining worker \<open>i\<close>, emptying queue \<open>i\<close>, freeing a work taken from it, done.
\<close>

datatype phase = PInit | PUse | PJoin nat | PDrain nat | PDrop nat nat | PFreed

record 'q pool =
  tp_workers :: "'q worker list"
  tp_working :: u32
  tp_alive :: u32
  tp_stop :: bool
  tp_submit_rr :: u32
  tp_clients :: "client list"
  tp_phase :: phase
  tp_works :: "nat \<rightharpoonup> work"
  tp_next :: nat
  tp_waiters :: "nat \<Rightarrow> u32"

text \<open>
  What can be observed of a run: a work accepted (with its waiter) or refused by its queue, no memory
  for a work, the begin and the end of its function, its release without a call, and the returns of
  the two waiting functions.
\<close>

datatype event = Submitted nat "nat option" | Refused nat | NoMemory | Started nat | Finished nat
  | Dropped nat | PoolWaitReturned | WaiterWaitReturned nat

definition workers_count :: "'q pool \<Rightarrow> nat" where
  "workers_count s = length (tp_workers s)"

definition set_pc :: "nat \<Rightarrow> worker_pc \<Rightarrow> 'q pool \<Rightarrow> 'q pool" where
  "set_pc i pc s = s\<lparr>tp_workers := (tp_workers s)[i := (tp_workers s ! i)\<lparr>w_pc := pc\<rparr>]\<rparr>"

definition set_spins :: "nat \<Rightarrow> u32 \<Rightarrow> 'q pool \<Rightarrow> 'q pool" where
  "set_spins i n s = s\<lparr>tp_workers := (tp_workers s)[i := (tp_workers s ! i)\<lparr>w_spins := n\<rparr>]\<rparr>"

definition set_queue :: "nat \<Rightarrow> 'q \<Rightarrow> 'q pool \<Rightarrow> 'q pool" where
  "set_queue i q s = s\<lparr>tp_workers := (tp_workers s)[i := (tp_workers s ! i)\<lparr>w_queue := q\<rparr>]\<rparr>"

definition set_tid :: "nat \<Rightarrow> nat \<Rightarrow> 'q pool \<Rightarrow> 'q pool" where
  "set_tid i n s = s\<lparr>tp_workers := (tp_workers s)[i := (tp_workers s ! i)\<lparr>w_tid := n\<rparr>]\<rparr>"

subsection \<open>Works\<close>

text \<open>
  A new work at a fresh address, or nothing without memory; the counter of its waiter goes up.
\<close>

definition work_new :: "bool \<Rightarrow> nat \<Rightarrow> nat \<Rightarrow> nat option \<Rightarrow> 'q pool \<Rightarrow> (nat \<times> 'q pool) option" where
  "work_new ok func arg waiter s =
     (if \<not> ok then None
      else
        let w = tp_next s;
            s = s\<lparr>tp_works := (tp_works s)(w \<mapsto> \<lparr>wk_func = func, wk_arg = arg, wk_waiter = waiter\<rparr>), tp_next := w + 1\<rparr>
        in Some (w, case waiter of None \<Rightarrow> s
             | Some x \<Rightarrow> s\<lparr>tp_waiters := (tp_waiters s)(x := tp_waiters s x + 1)\<rparr>))"

definition work_at :: "'q pool \<Rightarrow> nat \<Rightarrow> work res" where
  "work_at s w = (case tp_works s w of None \<Rightarrow> Inl OutOfBounds | Some k \<Rightarrow> Inr k)"

text \<open>A work that is freed can be reached by this thread only, so nothing can happen in between.\<close>

definition work_free :: "nat \<Rightarrow> 'q pool \<Rightarrow> 'q pool res" where
  "work_free w s =
     (case tp_works s w of
        None \<Rightarrow> Inl BadFree
      | Some k \<Rightarrow>
          let s = (case wk_waiter k of None \<Rightarrow> s
             | Some x \<Rightarrow> s\<lparr>tp_waiters := (tp_waiters s)(x := tp_waiters s x - 1)\<rparr>)
          in Inr (s\<lparr>tp_works := (tp_works s)(w := None)\<rparr>))"

fun current_worker_loop :: "nat \<Rightarrow> 'q worker list \<Rightarrow> nat \<Rightarrow> nat option" where
  "current_worker_loop self [] i = None"
| "current_worker_loop self (w # ws) i =
     (if w_tid w = self then Some i else current_worker_loop self ws (i + 1))"

definition threadpool_current_worker :: "'q pool_env \<Rightarrow> thread \<Rightarrow> 'q pool \<Rightarrow> nat option" where
  "threadpool_current_worker E t s = current_worker_loop (env_thread_id E t) (tp_workers s) 0"

subsection \<open>Calls\<close>

text \<open>\<^verbatim>\<open>threadpool_work_add\<close> up to the choice between the own queue and the next queue in turn.\<close>

definition work_add_begin ::
  "'q pool_env \<Rightarrow> thread \<Rightarrow> bool \<Rightarrow> nat \<Rightarrow> nat \<Rightarrow> nat option \<Rightarrow> 'q pool \<Rightarrow> event list \<times> call_pc \<times> 'q pool" where
  "work_add_begin E t ok func arg waiter s =
     (case work_new ok func arg waiter s of
        None \<Rightarrow> ([NoMemory], CReady, s)
      | Some (w, s) \<Rightarrow>
          (case threadpool_current_worker E t s of
             Some i \<Rightarrow> ([], CEnqueue w i, s)
           | None \<Rightarrow> ([], CPick w, s)))"

definition work_add_pick :: "nat \<Rightarrow> 'q pool \<Rightarrow> (call_pc \<times> 'q pool) res" where
  "work_add_pick w s =
     (if workers_count s = 0 then Inl DivisionByZero
      else Inr (CEnqueue w (unat (tp_submit_rr s) mod workers_count s), s\<lparr>tp_submit_rr := tp_submit_rr s + 1\<rparr>))"

text \<open>The push itself; a work the queue does not take is freed and the call returns \<^verbatim>\<open>false\<close>.\<close>

definition work_add_enqueue :: "'q pool_env \<Rightarrow> nat \<Rightarrow> nat \<Rightarrow> 'q pool \<Rightarrow> (event list \<times> 'q pool) res" where
  "work_add_enqueue E w i s =
     (if i \<ge> workers_count s then Inl OutOfBounds
      else
        let (taken, q) = env_enqueue E (w_queue (tp_workers s ! i)) w;
            s' = set_queue i q s
        in res_bind (work_at s w) (\<lambda>k.
             if taken then Inr ([Submitted w (wk_waiter k)], s')
             else res_bind (work_free w s') (\<lambda>s'. Inr ([Refused w], s'))))"

text \<open>
  One step of the calls of a thread: what is observed, the new place, the calls left and the new
  state. \<^verbatim>\<open>threadpool_wait\<close> and \<^verbatim>\<open>threadpool_waiter_wait\<close> stay where they are while they spin.
\<close>

fun call_step :: "'q pool_env \<Rightarrow> thread \<Rightarrow> bool \<Rightarrow> call_pc \<Rightarrow> pool_call list \<Rightarrow> 'q pool
    \<Rightarrow> (event list \<times> call_pc \<times> pool_call list \<times> 'q pool) res" where
  "call_step E t ok CReady [] s = Inr ([], CReady, [], s)"
| "call_step E t ok CReady (WorkAdd func arg waiter # cs) s =
     (case work_add_begin E t ok func arg waiter s of (evs, pc, s) \<Rightarrow> Inr (evs, pc, cs, s))"
| "call_step E t ok CReady (PoolWait # cs) s =
     (if tp_working s = 0 then Inr ([], CScan 0, PoolWait # cs, s) else Inr ([], CReady, PoolWait # cs, s))"
| "call_step E t ok CReady (WaiterWait x # cs) s =
     (if tp_waiters s x \<noteq> 0 then Inr ([], CReady, WaiterWait x # cs, s)
      else Inr ([WaiterWaitReturned x], CReady, cs, s))"
| "call_step E t ok (CPick w) cs s = res_bind (work_add_pick w s) (\<lambda>(pc, s). Inr ([], pc, cs, s))"
| "call_step E t ok (CEnqueue w i) cs s =
     res_bind (work_add_enqueue E w i s) (\<lambda>(evs, s). Inr (evs, CReady, cs, s))"
| "call_step E t ok (CScan i) cs s =
     (if i < workers_count s then
        if env_size E (w_queue (tp_workers s ! i)) \<noteq> 0 then Inr ([], CReady, cs, s)
        else Inr ([], CScan (i + 1), cs, s)
      else Inr ([PoolWaitReturned], CReady, tl cs, s))"

subsection \<open>Workers\<close>

definition steal_victim :: "nat \<Rightarrow> nat \<Rightarrow> nat \<Rightarrow> nat" where
  "steal_victim start k n = unat (of_nat start + of_nat k :: u32) mod n"

text \<open>\<^verbatim>\<open>moodycamel_cq_try_dequeue\<close> on queue \<open>v\<close> for worker \<open>i\<close>, which goes on at \<open>none\<close> when it fails.\<close>

definition worker_dequeue :: "'q pool_env \<Rightarrow> nat \<Rightarrow> nat \<Rightarrow> worker_pc \<Rightarrow> 'q pool \<Rightarrow> 'q pool res" where
  "worker_dequeue E i v none s =
     (if v \<ge> workers_count s then Inl OutOfBounds
      else case env_dequeue E (w_queue (tp_workers s ! v)) of
             (None, q) \<Rightarrow> Inr (set_pc i none (set_queue v q s))
           | (Some w, q) \<Rightarrow> Inr (set_pc i (WBegin w) (set_queue v q s)))"

definition worker_spin :: "u32 \<Rightarrow> u32" where
  "worker_spin spins = (let spins = spins + 1 in if spins < 1024 then spins else 1024)"

fun worker_pc_step :: "'q pool_env \<Rightarrow> nat \<Rightarrow> bool \<Rightarrow> worker_pc \<Rightarrow> 'q pool \<Rightarrow> (event list \<times> 'q pool) res" where
  "worker_pc_step E i ok WStart s =
     Inr ([], set_pc i WLoop (set_tid i (env_thread_id E (Worker i)) (s\<lparr>tp_alive := tp_alive s + 1\<rparr>)))"
| "worker_pc_step E i ok WLoop s = Inr ([], set_pc i (if tp_stop s then WExit else WOwn) s)"
| "worker_pc_step E i ok WOwn s = res_bind (worker_dequeue E i i (WSteal 1) s) (\<lambda>s. Inr ([], s))"
| "worker_pc_step E i ok (WSteal k) s =
     (if k < workers_count s then
        res_bind (worker_dequeue E i (steal_victim i k (workers_count s)) (WSteal (k + 1)) s) (\<lambda>s. Inr ([], s))
      else Inr ([], set_pc i WSpin s))"
| "worker_pc_step E i ok (WBegin w) s =
     res_bind (work_at s w) (\<lambda>k. Inr ([Started w],
       set_pc i (WRun w CReady (env_calls E (wk_func k) (wk_arg k))) (s\<lparr>tp_working := tp_working s + 1\<rparr>)))"
| "worker_pc_step E i ok (WRun w pc cs) s =
     (if pc = CReady \<and> cs = [] then Inr ([Finished w], set_pc i (WEnd w) s)
      else res_bind (call_step E (Worker i) ok pc cs s) (\<lambda>(evs, pc, cs, s). Inr (evs, set_pc i (WRun w pc cs) s)))"
| "worker_pc_step E i ok (WEnd w) s = Inr ([], set_pc i (WFree w) (s\<lparr>tp_working := tp_working s - 1\<rparr>))"
| "worker_pc_step E i ok (WFree w) s = res_bind (work_free w s) (\<lambda>s. Inr ([], set_pc i WLoop (set_spins i 0 s)))"
| "worker_pc_step E i ok WSpin s = Inr ([], set_pc i WLoop (set_spins i (worker_spin (w_spins (tp_workers s ! i))) s))"
| "worker_pc_step E i ok WExit s = Inr ([], set_pc i WDone (s\<lparr>tp_alive := tp_alive s - 1\<rparr>))"
| "worker_pc_step E i ok WDone s = Inr ([], s)"

text \<open>A worker that moves after the pool was freed uses freed memory.\<close>

definition worker_step :: "'q pool_env \<Rightarrow> nat \<Rightarrow> bool \<Rightarrow> 'q pool \<Rightarrow> (event list \<times> 'q pool) run" where
  "worker_step E i ok s =
     (if i \<ge> workers_count s \<or> w_pc (tp_workers s ! i) = WDone then None
      else if tp_phase s = PFreed then Some (Inl OutOfBounds)
      else Some (worker_pc_step E i ok (w_pc (tp_workers s ! i)) s))"

subsection \<open>Clients and the owner\<close>

definition set_client :: "nat \<Rightarrow> call_pc \<Rightarrow> pool_call list \<Rightarrow> 'q pool \<Rightarrow> 'q pool" where
  "set_client c pc cs s = s\<lparr>tp_clients := (tp_clients s)[c := \<lparr>c_pc = pc, c_calls = cs\<rparr>]\<rparr>"

definition client_done :: "client \<Rightarrow> bool" where
  "client_done c \<longleftrightarrow> c_pc c = CReady \<and> c_calls c = []"

text \<open>A client has the pool between the return of \<^verbatim>\<open>threadpool_init\<close> and the call of \<^verbatim>\<open>threadpool_release\<close>.\<close>

definition client_step :: "'q pool_env \<Rightarrow> nat \<Rightarrow> bool \<Rightarrow> 'q pool \<Rightarrow> (event list \<times> 'q pool) run" where
  "client_step E c ok s =
     (if tp_phase s \<noteq> PUse \<or> c \<ge> length (tp_clients s) \<or> client_done (tp_clients s ! c) then None
      else Some (res_bind (call_step E (Client c) ok (c_pc (tp_clients s ! c)) (c_calls (tp_clients s ! c)) s)
             (\<lambda>(evs, pc, cs, s). Inr (evs, set_client c pc cs s))))"

text \<open>
  The owner waits for the workers to start, gives the pool to its clients, and releases it when they
  are all done with it. \<^verbatim>\<open>thread_join\<close> blocks until the worker has returned.
\<close>

fun owner_phase_step :: "'q pool_env \<Rightarrow> phase \<Rightarrow> 'q pool \<Rightarrow> (event list \<times> 'q pool) run" where
  "owner_phase_step E PInit s =
     Some (Inr ([], if tp_alive s = of_nat (workers_count s) then s\<lparr>tp_phase := PUse\<rparr> else s))"
| "owner_phase_step E PUse s =
     (if list_all client_done (tp_clients s) then Some (Inr ([], s\<lparr>tp_phase := PJoin 0, tp_stop := True\<rparr>)) else None)"
| "owner_phase_step E (PJoin i) s =
     (if i < workers_count s then
        if w_pc (tp_workers s ! i) = WDone then Some (Inr ([], s\<lparr>tp_phase := PJoin (i + 1)\<rparr>)) else None
      else Some (Inr ([], s\<lparr>tp_phase := PDrain 0\<rparr>)))"
| "owner_phase_step E (PDrain i) s =
     (if i < workers_count s then
        if env_size E (w_queue (tp_workers s ! i)) > 0 then
          (case env_dequeue E (w_queue (tp_workers s ! i)) of
             (None, q) \<Rightarrow> Some (Inr ([], set_queue i q s))
           | (Some w, q) \<Rightarrow> Some (Inr ([], (set_queue i q s)\<lparr>tp_phase := PDrop i w\<rparr>)))
        else Some (Inr ([], s\<lparr>tp_phase := PDrain (i + 1)\<rparr>))
      else Some (Inr ([], s\<lparr>tp_phase := PFreed\<rparr>)))"
| "owner_phase_step E (PDrop i w) s =
     Some (res_bind (work_free w s) (\<lambda>s. Inr ([Dropped w], s\<lparr>tp_phase := PDrain i\<rparr>)))"
| "owner_phase_step E PFreed s = None"

definition owner_step :: "'q pool_env \<Rightarrow> 'q pool \<Rightarrow> (event list \<times> 'q pool) run" where
  "owner_step E s = owner_phase_step E (tp_phase s) s"

text \<open>
  One step of a thread: \<open>None\<close> when it cannot move. \<open>ok\<close> tells whether an allocation in the step
  succeeds.
\<close>

fun pool_step :: "'q pool_env \<Rightarrow> thread \<Rightarrow> bool \<Rightarrow> 'q pool \<Rightarrow> (event list \<times> 'q pool) run" where
  "pool_step E Owner ok s = owner_step E s"
| "pool_step E (Client c) ok s = client_step E c ok s"
| "pool_step E (Worker i) ok s = worker_step E i ok s"

text \<open>
  \<^verbatim>\<open>threadpool_init\<close> up to the loop that waits for the workers: the pool, or \<^verbatim>\<open>NULL\<close> when an allocation
  or the creation of a queue fails. A thread that cannot be created is \<^verbatim>\<open>NULL\<close>, which \<^verbatim>\<open>thread_start\<close>
  dereferences. \<open>queues i\<close> is the new queue of worker \<open>i\<close>, \<open>progs\<close> the calls of the clients.
\<close>

definition threadpool_init :: "bool \<Rightarrow> bool \<Rightarrow> (nat \<Rightarrow> 'q option) \<Rightarrow> (nat \<Rightarrow> bool) \<Rightarrow> u32 \<Rightarrow> u32
    \<Rightarrow> pool_call list list \<Rightarrow> 'q pool option res" where
  "threadpool_init ok_pool ok_workers queues ok_thread num_procs wanted progs =
     (let n = unat (if wanted = 0 then num_procs else wanted) in
      if \<not> ok_pool \<or> \<not> ok_workers \<or> list_ex (\<lambda>i. queues i = None) [0..<n] then Inr None
      else if list_ex (\<lambda>i. \<not> ok_thread i) [0..<n] then Inl NullDeref
      else Inr (Some \<lparr>
        tp_workers = map (\<lambda>i. \<lparr>w_queue = the (queues i), w_tid = 0, w_spins = 0, w_pc = WStart\<rparr>) [0..<n],
        tp_working = 0, tp_alive = 0, tp_stop = False, tp_submit_rr = 0,
        tp_clients = map (\<lambda>p. \<lparr>c_pc = CReady, c_calls = p\<rparr>) progs, tp_phase = PInit,
        tp_works = Map.empty, tp_next = 0, tp_waiters = (\<lambda>_. 0)\<rparr>))"

subsection \<open>Runs\<close>

inductive pool_run :: "'q pool_env \<Rightarrow> 'q pool \<Rightarrow> event list \<Rightarrow> 'q pool \<Rightarrow> bool" for E s0 where
  start: "pool_run E s0 [] s0"
| step: "pool_run E s0 tr s \<Longrightarrow> pool_step E t ok s = Some (Inr (evs, s')) \<Longrightarrow> pool_run E s0 (tr @ evs) s'"

text \<open>The run of a given schedule.\<close>

fun pool_schedule :: "'q pool_env \<Rightarrow> thread list \<Rightarrow> 'q pool \<Rightarrow> (event list \<times> 'q pool) run" where
  "pool_schedule E [] s = Some (Inr ([], s))"
| "pool_schedule E (t # ts) s =
     run_bind (pool_step E t True s) (\<lambda>(evs, s).
     run_bind (pool_schedule E ts s) (\<lambda>(evs', s). Some (Inr (evs @ evs', s))))"

lemma pool_run_trans: "pool_run E s tr' s' \<Longrightarrow> pool_run E s0 tr s \<Longrightarrow> pool_run E s0 (tr @ tr') s'"
  by (induction rule: pool_run.induct) (auto simp flip: append_assoc intro: pool_run.step)

lemma pool_schedule_run: "pool_schedule E ts s = Some (Inr (evs, s')) \<Longrightarrow> pool_run E s evs s'"
proof (induction ts arbitrary: s evs)
  case Nil
  then show ?case by (auto intro: pool_run.start)
next
  case (Cons t ts)
  from Cons.prems obtain e1 s1 e2 where "pool_step E t True s = Some (Inr (e1, s1))"
    "pool_schedule E ts s1 = Some (Inr (e2, s'))" "evs = e1 @ e2"
    by (auto simp: run_bind_Inr_iff)
  moreover from this(1) have "pool_run E s e1 s1" using pool_run.step [OF pool_run.start] by fastforce
  ultimately show ?case using pool_run_trans [OF Cons.IH] by blast
qed

end
