(* ===== verification/ThreadPoolSpec.thy ===== *)
theory ThreadPoolSpec
  imports ThreadPool
begin

text \<open>
  The thread pool against the accounts of its works: where each work is and how often each event
  concerned it. The invariant is kept by every step of every thread, so it holds after every run;
  from it follow the safety of all steps, that a work is called at most once and none gets lost,
  and what the waiting functions guarantee.
\<close>

subsection \<open>The queues\<close>

text \<open>
  \<open>C q\<close> is the content of a queue. An element that is taken was in it, one that is accepted is in
  it afterwards; the order is not specified. The size is only relied on when it is zero.
\<close>

definition queues_ok :: "'q pool_env \<Rightarrow> ('q \<Rightarrow> nat multiset) \<Rightarrow> bool" where
  "queues_ok E C \<longleftrightarrow>
     (\<forall>q w. C (snd (env_enqueue E q w)) = (if fst (env_enqueue E q w) then add_mset w (C q) else C q)) \<and>
     (\<forall>q. case env_dequeue E q of (None, q') \<Rightarrow> C q' = C q | (Some w, q') \<Rightarrow> C q = add_mset w (C q')) \<and>
     (\<forall>q. env_size E q = 0 \<longrightarrow> C q = {#})"

lemma queues_okD:
  assumes "queues_ok E C"
  shows "env_enqueue E q w = (True, q') \<Longrightarrow> C q' = add_mset w (C q)"
    and "env_enqueue E q w = (False, q') \<Longrightarrow> C q' = C q"
    and "env_dequeue E q = (None, q') \<Longrightarrow> C q' = C q"
    and "env_dequeue E q = (Some w, q') \<Longrightarrow> C q = add_mset w (C q')"
    and "env_size E q = 0 \<Longrightarrow> C q = {#}"
proof -
  note laws = assms [unfolded queues_ok_def]
  have a: "C (snd (env_enqueue E q w)) = (if fst (env_enqueue E q w) then add_mset w (C q) else C q)"
    using laws by blast
  have b: "case env_dequeue E q of (None, q') \<Rightarrow> C q' = C q | (Some w, q') \<Rightarrow> C q = add_mset w (C q')"
    by (rule spec [OF laws [THEN conjunct2, THEN conjunct1]])
  have c: "env_size E q = 0 \<longrightarrow> C q = {#}" using laws by blast
  show "env_enqueue E q w = (True, q') \<Longrightarrow> C q' = add_mset w (C q)" using a by simp
  show "env_enqueue E q w = (False, q') \<Longrightarrow> C q' = C q" using a by simp
  show "env_dequeue E q = (None, q') \<Longrightarrow> C q' = C q" using b by simp
  show "env_dequeue E q = (Some w, q') \<Longrightarrow> C q = add_mset w (C q')" using b by simp
  show "env_size E q = 0 \<Longrightarrow> C q = {#}" using c by simp
qed

subsection \<open>Accounts\<close>

text \<open>How often an event concerned a work.\<close>

definition submitted :: "nat \<Rightarrow> event list \<Rightarrow> nat" where
  "submitted w tr = length (filter (\<lambda>e. case e of Submitted v x \<Rightarrow> v = w | _ \<Rightarrow> False) tr)"

definition refused :: "nat \<Rightarrow> event list \<Rightarrow> nat" where
  "refused w tr = length (filter (\<lambda>e. case e of Refused v \<Rightarrow> v = w | _ \<Rightarrow> False) tr)"

definition started :: "nat \<Rightarrow> event list \<Rightarrow> nat" where
  "started w tr = length (filter (\<lambda>e. case e of Started v \<Rightarrow> v = w | _ \<Rightarrow> False) tr)"

definition finished :: "nat \<Rightarrow> event list \<Rightarrow> nat" where
  "finished w tr = length (filter (\<lambda>e. case e of Finished v \<Rightarrow> v = w | _ \<Rightarrow> False) tr)"

definition dropped :: "nat \<Rightarrow> event list \<Rightarrow> nat" where
  "dropped w tr = length (filter (\<lambda>e. case e of Dropped v \<Rightarrow> v = w | _ \<Rightarrow> False) tr)"

lemmas event_defs = submitted_def refused_def started_def finished_def dropped_def

lemma events_append [simp]:
  "submitted w (tr @ evs) = submitted w tr + submitted w evs"
  "refused w (tr @ evs) = refused w tr + refused w evs"
  "started w (tr @ evs) = started w tr + started w evs"
  "finished w (tr @ evs) = finished w tr + finished w evs"
  "dropped w (tr @ evs) = dropped w tr + dropped w evs"
  by (simp_all add: event_defs)

text \<open>Where a work is, as numbers.\<close>

definition pend :: "nat \<Rightarrow> call_pc \<Rightarrow> nat" where
  "pend w pc = (case pc of CPick v \<Rightarrow> of_bool (v = w) | CEnqueue v i \<Rightarrow> of_bool (v = w) | _ \<Rightarrow> 0)"

definition pc_pending :: "nat \<Rightarrow> worker_pc \<Rightarrow> nat" where
  "pc_pending w pc = (case pc of WRun v cpc cs \<Rightarrow> pend w cpc | _ \<Rightarrow> 0)"

definition pc_begun :: "nat \<Rightarrow> worker_pc \<Rightarrow> nat" where
  "pc_begun w pc = (case pc of WBegin v \<Rightarrow> of_bool (v = w) | _ \<Rightarrow> 0)"

definition pc_running :: "nat \<Rightarrow> worker_pc \<Rightarrow> nat" where
  "pc_running w pc = (case pc of WRun v cpc cs \<Rightarrow> of_bool (v = w) | _ \<Rightarrow> 0)"

definition pc_ending :: "nat \<Rightarrow> worker_pc \<Rightarrow> nat" where
  "pc_ending w pc = (case pc of WEnd v \<Rightarrow> of_bool (v = w) | WFree v \<Rightarrow> of_bool (v = w) | _ \<Rightarrow> 0)"

definition pc_executing :: "worker_pc \<Rightarrow> nat" where
  "pc_executing pc = (case pc of WRun v cpc cs \<Rightarrow> 1 | WEnd v \<Rightarrow> 1 | _ \<Rightarrow> 0)"

definition pc_alive :: "worker_pc \<Rightarrow> nat" where
  "pc_alive pc = of_bool (pc \<noteq> WStart \<and> pc \<noteq> WDone)"

lemmas place_defs = pend_def pc_pending_def pc_begun_def pc_running_def pc_ending_def

definition at_pcs :: "(worker_pc \<Rightarrow> nat) \<Rightarrow> 'q pool \<Rightarrow> nat" where
  "at_pcs f s = (\<Sum>wk\<leftarrow>tp_workers s. f (w_pc wk))"

definition queued :: "('q \<Rightarrow> nat multiset) \<Rightarrow> nat \<Rightarrow> 'q pool \<Rightarrow> nat" where
  "queued C w s = (\<Sum>wk\<leftarrow>tp_workers s. count (C (w_queue wk)) w)"

definition at_clients :: "nat \<Rightarrow> 'q pool \<Rightarrow> nat" where
  "at_clients w s = (\<Sum>c\<leftarrow>tp_clients s. pend w (c_pc c))"

definition at_drop :: "nat \<Rightarrow> 'q pool \<Rightarrow> nat" where
  "at_drop w s = (case tp_phase s of PDrop i v \<Rightarrow> of_bool (v = w) | _ \<Rightarrow> 0)"

definition live :: "nat \<Rightarrow> 'q pool \<Rightarrow> nat" where
  "live w s = of_bool (tp_works s w \<noteq> None)"

lemma sum_list_map_update:
  fixes f :: "'a \<Rightarrow> nat"
  assumes "i < length xs"
  shows "(\<Sum>x\<leftarrow>xs[i := y]. f x) + f (xs ! i) = (\<Sum>x\<leftarrow>xs. f x) + f y"
proof -
  have "f (xs ! i) \<le> (\<Sum>x\<leftarrow>xs. f x)"
    using elem_le_sum_list [of i "map f xs"] assms by simp
  then show ?thesis
    using sum_list_update [of i "map f xs" "f y"] assms by (simp add: map_update [symmetric])
qed

lemma set_fields [simp]:
  "tp_working (set_pc i pc s) = tp_working s" "tp_alive (set_pc i pc s) = tp_alive s"
  "tp_stop (set_pc i pc s) = tp_stop s" "tp_clients (set_pc i pc s) = tp_clients s"
  "tp_phase (set_pc i pc s) = tp_phase s" "tp_works (set_pc i pc s) = tp_works s"
  "tp_next (set_pc i pc s) = tp_next s" "tp_waiters (set_pc i pc s) = tp_waiters s"
  "workers_count (set_pc i pc s) = workers_count s"
  "tp_working (set_queue i q s) = tp_working s" "tp_alive (set_queue i q s) = tp_alive s"
  "tp_stop (set_queue i q s) = tp_stop s" "tp_clients (set_queue i q s) = tp_clients s"
  "tp_phase (set_queue i q s) = tp_phase s" "tp_works (set_queue i q s) = tp_works s"
  "tp_next (set_queue i q s) = tp_next s" "tp_waiters (set_queue i q s) = tp_waiters s"
  "workers_count (set_queue i q s) = workers_count s"
  "tp_working (set_spins i n s) = tp_working s" "tp_alive (set_spins i n s) = tp_alive s"
  "tp_stop (set_spins i n s) = tp_stop s" "tp_clients (set_spins i n s) = tp_clients s"
  "tp_phase (set_spins i n s) = tp_phase s" "tp_works (set_spins i n s) = tp_works s"
  "tp_next (set_spins i n s) = tp_next s" "tp_waiters (set_spins i n s) = tp_waiters s"
  "workers_count (set_spins i n s) = workers_count s"
  "tp_working (set_tid i m s) = tp_working s" "tp_alive (set_tid i m s) = tp_alive s"
  "tp_stop (set_tid i m s) = tp_stop s" "tp_clients (set_tid i m s) = tp_clients s"
  "tp_phase (set_tid i m s) = tp_phase s" "tp_works (set_tid i m s) = tp_works s"
  "tp_next (set_tid i m s) = tp_next s" "tp_waiters (set_tid i m s) = tp_waiters s"
  "workers_count (set_tid i m s) = workers_count s"
  by (simp_all add: set_pc_def set_queue_def set_spins_def set_tid_def workers_count_def)

lemma set_client_fields [simp]:
  "tp_working (set_client c pc cs s) = tp_working s" "tp_alive (set_client c pc cs s) = tp_alive s"
  "tp_stop (set_client c pc cs s) = tp_stop s" "tp_workers (set_client c pc cs s) = tp_workers s"
  "tp_phase (set_client c pc cs s) = tp_phase s" "tp_works (set_client c pc cs s) = tp_works s"
  "tp_next (set_client c pc cs s) = tp_next s" "tp_waiters (set_client c pc cs s) = tp_waiters s"
  by (simp_all add: set_client_def)

text \<open>The places and the queues of the workers, as lists.\<close>

definition pcs :: "'q pool \<Rightarrow> worker_pc list" where "pcs s = map w_pc (tp_workers s)"
definition queues :: "'q pool \<Rightarrow> 'q list" where "queues s = map w_queue (tp_workers s)"

lemma workers_views [simp]:
  "length (pcs s) = workers_count s" "length (queues s) = workers_count s"
  "pcs (set_pc i pc s) = (pcs s)[i := pc]" "queues (set_pc i pc s) = queues s"
  "pcs (set_queue i q s) = pcs s" "queues (set_queue i q s) = (queues s)[i := q]"
  "pcs (set_spins i n s) = pcs s" "queues (set_spins i n s) = queues s"
  "pcs (set_tid i m s) = pcs s" "queues (set_tid i m s) = queues s"
  "pcs (set_client c cpc cs s) = pcs s" "queues (set_client c cpc cs s) = queues s"
proof -
  have id: "(map f xs)[i := f (xs ! i)] = map f xs" for f :: "'q worker \<Rightarrow> 'b" and xs i
    by (cases "i < length xs") (simp_all add: list_eq_iff_nth_eq nth_list_update)
  show "length (pcs s) = workers_count s" "length (queues s) = workers_count s"
    "pcs (set_pc i pc s) = (pcs s)[i := pc]" "queues (set_pc i pc s) = queues s"
    "pcs (set_queue i q s) = pcs s" "queues (set_queue i q s) = (queues s)[i := q]"
    "pcs (set_spins i n s) = pcs s" "queues (set_spins i n s) = queues s"
    "pcs (set_tid i m s) = pcs s" "queues (set_tid i m s) = queues s"
    "pcs (set_client c cpc cs s) = pcs s" "queues (set_client c cpc cs s) = queues s"
    by (simp_all add: pcs_def queues_def set_pc_def set_queue_def set_spins_def set_tid_def workers_count_def
        map_update id)
qed

lemma field_views [simp]:
  "pcs (s\<lparr>tp_alive := a\<rparr>) = pcs s" "queues (s\<lparr>tp_alive := a\<rparr>) = queues s"
  "pcs (s\<lparr>tp_working := a\<rparr>) = pcs s" "queues (s\<lparr>tp_working := a\<rparr>) = queues s"
  "pcs (s\<lparr>tp_phase := p\<rparr>) = pcs s" "queues (s\<lparr>tp_phase := p\<rparr>) = queues s"
  "pcs (s\<lparr>tp_stop := b\<rparr>) = pcs s" "queues (s\<lparr>tp_stop := b\<rparr>) = queues s"
  "workers_count (s\<lparr>tp_alive := a\<rparr>) = workers_count s" "workers_count (s\<lparr>tp_working := a\<rparr>) = workers_count s"
  "workers_count (s\<lparr>tp_phase := p\<rparr>) = workers_count s" "workers_count (s\<lparr>tp_stop := b\<rparr>) = workers_count s"
  by (simp_all add: pcs_def queues_def workers_count_def)

lemma workers_count_views: "workers_count s = length (tp_workers s)" by (simp add: workers_count_def)

lemma nth_views: "i < workers_count s \<Longrightarrow> w_pc (tp_workers s ! i) = pcs s ! i"
  "i < workers_count s \<Longrightarrow> w_queue (tp_workers s ! i) = queues s ! i"
  by (simp_all add: pcs_def queues_def workers_count_def)

lemma at_pcs_alt: "at_pcs f s = (\<Sum>pc\<leftarrow>pcs s. f pc)"
  by (simp add: at_pcs_def pcs_def o_def)

lemma queued_alt: "queued C w s = (\<Sum>q\<leftarrow>queues s. count (C q) w)"
  by (simp add: queued_def queues_def o_def)

lemma at_pcs_update:
  "i < workers_count s \<Longrightarrow> pcs s' = (pcs s)[i := pc] \<Longrightarrow> at_pcs f s' + f (pcs s ! i) = at_pcs f s + f pc"
  unfolding at_pcs_alt by (simp add: sum_list_map_update)

lemma queued_update:
  "i < workers_count s \<Longrightarrow> queues s' = (queues s)[i := q]
    \<Longrightarrow> queued C w s' + count (C (queues s ! i)) w = queued C w s + count (C q) w"
  unfolding queued_alt using sum_list_map_update [of i "queues s" "\<lambda>q. count (C q) w" q] by simp

lemma at_clients_update:
  "c < length (tp_clients s) \<Longrightarrow> tp_clients s' = (tp_clients s)[c := cl]
    \<Longrightarrow> at_clients w s' + pend w (c_pc (tp_clients s ! c)) = at_clients w s + pend w (c_pc cl)"
  unfolding at_clients_def using sum_list_map_update [of c "tp_clients s" "\<lambda>c. pend w (c_pc c)" cl] by simp

text \<open>
  The accounts of one work: it is in one place while it is in memory; accepted works are queued, just
  taken, being dropped, started or dropped; started works are running or finished; every address
  used so far was accepted, refused or is still on its way.
\<close>

definition account_ok :: "('q \<Rightarrow> nat multiset) \<Rightarrow> event list \<Rightarrow> 'q pool \<Rightarrow> nat \<Rightarrow> bool" where
  "account_ok C tr s w \<longleftrightarrow>
     queued C w s + at_pcs (pc_begun w) s + at_pcs (pc_running w) s + at_pcs (pc_ending w) s + at_drop w s
       + at_pcs (pc_pending w) s + at_clients w s = live w s \<and>
     submitted w tr = queued C w s + at_pcs (pc_begun w) s + at_drop w s + started w tr + dropped w tr \<and>
     started w tr = at_pcs (pc_running w) s + finished w tr \<and>
     submitted w tr + at_pcs (pc_pending w) s + at_clients w s + refused w tr = of_bool (w < tp_next s) \<and>
     live w s \<le> of_bool (w < tp_next s)"

subsection \<open>What a call does to the accounts\<close>

lemma work_new_effect:
  assumes "work_new ok func arg x s = Some (w, s')"
  shows "w = tp_next s" "tp_next s' = tp_next s + 1"
    "tp_works s' = (tp_works s)(tp_next s \<mapsto> \<lparr>wk_func = func, wk_arg = arg, wk_waiter = x\<rparr>)"
    "tp_waiters s' = (case x of None \<Rightarrow> tp_waiters s | Some y \<Rightarrow> (tp_waiters s)(y := tp_waiters s y + 1))"
    "tp_workers s' = tp_workers s" "tp_working s' = tp_working s" "tp_alive s' = tp_alive s" "tp_stop s' = tp_stop s"
    "tp_clients s' = tp_clients s" "tp_phase s' = tp_phase s"
  using assms by (auto simp: work_new_def Let_def split: if_splits option.splits)

lemma work_free_effect:
  assumes "work_free w s = Inr s'"
  obtains k where "tp_works s w = Some k" "tp_works s' = (tp_works s)(w := None)"
    "tp_waiters s' = (case wk_waiter k of None \<Rightarrow> tp_waiters s | Some y \<Rightarrow> (tp_waiters s)(y := tp_waiters s y - 1))"
    "tp_next s' = tp_next s" "tp_workers s' = tp_workers s" "tp_working s' = tp_working s" "tp_alive s' = tp_alive s"
    "tp_stop s' = tp_stop s" "tp_clients s' = tp_clients s" "tp_phase s' = tp_phase s"
proof (cases "tp_works s w")
  case None
  then show ?thesis using assms by (simp add: work_free_def)
next
  case (Some k)
  then show ?thesis using assms
    by (intro that [of k]) (auto simp: work_free_def Let_def split: option.splits)
qed

text \<open>The fields a call leaves alone, and what it owes.\<close>

definition call_frame :: "'q pool \<Rightarrow> 'q pool \<Rightarrow> bool" where
  "call_frame s s' \<longleftrightarrow> pcs s' = pcs s \<and> workers_count s' = workers_count s \<and> tp_working s' = tp_working s \<and>
     tp_alive s' = tp_alive s \<and> tp_stop s' = tp_stop s \<and> tp_clients s' = tp_clients s \<and> tp_phase s' = tp_phase s"

lemma call_frame_sums: "call_frame s s' \<Longrightarrow> at_pcs f s' = at_pcs f s"
  "call_frame s s' \<Longrightarrow> at_clients w s' = at_clients w s" "call_frame s s' \<Longrightarrow> at_drop w s' = at_drop w s"
  by (simp_all add: call_frame_def at_pcs_alt at_clients_def at_drop_def)

lemma views_of_workers: "tp_workers s' = tp_workers s \<Longrightarrow> pcs s' = pcs s"
  "tp_workers s' = tp_workers s \<Longrightarrow> queues s' = queues s"
  "tp_workers s' = tp_workers s \<Longrightarrow> workers_count s' = workers_count s"
  by (simp_all add: pcs_def queues_def workers_count_def)

definition call_owes :: "('q \<Rightarrow> nat multiset) \<Rightarrow> nat \<Rightarrow> call_pc \<Rightarrow> 'q pool \<Rightarrow> event list \<Rightarrow> call_pc \<Rightarrow> 'q pool \<Rightarrow> bool" where
  "call_owes C w pc s evs pc' s' \<longleftrightarrow>
     queued C w s' = queued C w s + submitted w evs \<and>
     submitted w evs + pend w pc' + refused w evs + of_bool (w < tp_next s) = pend w pc + of_bool (w < tp_next s') \<and>
     live w s' + refused w evs + of_bool (w < tp_next s) = live w s + of_bool (w < tp_next s') \<and>
     started w evs = 0 \<and> finished w evs = 0 \<and> dropped w evs = 0"

lemma work_add_begin_owes:
  assumes "work_add_begin E t ok func arg x s = (evs, pc', s')" "live (tp_next s) s = 0"
  shows "call_frame s s' \<and> call_owes C w CReady s evs pc' s'"
proof (cases "work_new ok func arg x s")
  case None
  then show ?thesis using assms
    by (auto simp: work_add_begin_def call_frame_def call_owes_def event_defs pend_def)
next
  case (Some r)
  obtain v s1 where r: "work_new ok func arg x s = Some (v, s1)" using Some by (cases r) auto
  note eff = work_new_effect [OF r]
  have s1: "s' = s1" "evs = []" "\<forall>u. pend u pc' = of_bool (u = tp_next s)"
    using assms(1) r eff(1) by (auto simp: work_add_begin_def pend_def split: option.splits)
  show ?thesis
    using assms(2) eff views_of_workers [OF eff(5)]
    by (auto simp: s1 call_frame_def call_owes_def queued_def event_defs live_def less_Suc_eq pend_def [of w CReady])
qed

lemma work_add_enqueue_owes:
  assumes "work_add_enqueue E v i s = Inr (evs, s')" "queues_ok E C"
  shows "call_frame s s' \<and> call_owes C w (CEnqueue v i) s evs CReady s'"
proof -
  have i: "i < workers_count s" using assms(1) by (auto simp: work_add_enqueue_def split: if_splits)
  obtain taken q where q: "env_enqueue E (w_queue (tp_workers s ! i)) v = (taken, q)" by fastforce
  have nth: "w_queue (tp_workers s ! i) = queues s ! i" using i by (simp add: nth_views)
  note upd = queued_update [OF i, of "set_queue i q s" q C w]
  show ?thesis
  proof (cases taken)
    case True
    then show ?thesis
      using assms i q upd queues_okD(1) [OF assms(2), of "queues s ! i" v q]
      by (auto simp: work_add_enqueue_def work_at_def Let_def call_frame_def call_owes_def event_defs pend_def live_def
          nth split: option.splits)
  next
    case False
    have C: "C q = C (queues s ! i)" using queues_okD(2) [OF assms(2)] q False nth by simp
    from assms(1) i q False obtain k where e: "evs = [Refused v]" "work_free v (set_queue i q s) = Inr s'"
      by (auto simp: work_add_enqueue_def work_at_def Let_def res_bind_Inr_iff split: option.splits)
    obtain k where eff: "tp_works s v = Some k" "tp_works s' = (tp_works s)(v := None)"
      "tp_next s' = tp_next s" "tp_workers s' = tp_workers (set_queue i q s)" "tp_working s' = tp_working s"
      "tp_alive s' = tp_alive s" "tp_stop s' = tp_stop s" "tp_clients s' = tp_clients s" "tp_phase s' = tp_phase s"
      by (rule work_free_effect [OF e(2)]) auto
    note v = views_of_workers [OF eff(4)]
    have qu: "queued C w s' = queued C w s" using upd v(2) C by (simp add: queued_alt)
    show ?thesis
      using eff v qu by (auto simp: e(1) call_frame_def call_owes_def event_defs pend_def live_def)
  qed
qed

lemma call_step_owes:
  assumes "call_step E t ok pc cs s = Inr (evs, pc', cs', s')" "queues_ok E C" "live (tp_next s) s = 0"
  shows "call_frame s s' \<and> call_owes C w pc s evs pc' s'"
  using assms(1)
proof (cases rule: call_step.cases [of "(E, t, ok, pc, cs, s)"])
  case (2 E t ok func arg x cs s)
  then show ?thesis using assms work_add_begin_owes [of E t ok func arg x s evs pc' s' C w]
    by (auto split: prod.splits)
next
  case (6 E t ok v i cs s)
  then show ?thesis using assms work_add_enqueue_owes [of E v i s evs s' C w]
    by (auto simp: res_bind_Inr_iff)
qed (use assms in \<open>auto simp: call_frame_def call_owes_def event_defs pend_def res_bind_Inr_iff
      work_add_pick_def pcs_def queued_def workers_count_def live_def split: if_splits\<close>)

subsection \<open>Every step keeps the accounts\<close>

lemma account_worker:
  assumes "account_ok C tr s w" "i < workers_count s" "pcs s' = (pcs s)[i := pc']" "pcs s ! i = pc"
    and "tp_clients s' = tp_clients s" "tp_phase s' = tp_phase s"
    and "queued C w s' + pc_begun w pc' + started w evs + dropped w evs = queued C w s + pc_begun w pc + submitted w evs"
    and "started w evs + pc_running w pc = pc_running w pc' + finished w evs"
    and "submitted w evs + pc_pending w pc' + refused w evs + of_bool (w < tp_next s)
      = pc_pending w pc + of_bool (w < tp_next s')"
    and "live w s' + (queued C w s + pc_begun w pc + pc_running w pc + pc_ending w pc + pc_pending w pc)
      = live w s + (queued C w s' + pc_begun w pc' + pc_running w pc' + pc_ending w pc' + pc_pending w pc')"
    and "live w s' \<le> of_bool (w < tp_next s')"
  shows "account_ok C (tr @ evs) s' w"
proof -
  have u: "at_pcs f s' + f pc = at_pcs f s + f pc'" for f
    using at_pcs_update [OF assms(2,3), of f] assms(4) by simp
  have c: "at_clients w s' = at_clients w s" "at_drop w s' = at_drop w s"
    using assms(5,6) by (simp_all add: at_clients_def at_drop_def)
  show ?thesis
    using assms(1,7-11) u [of "pc_begun w"] u [of "pc_running w"] u [of "pc_ending w"] u [of "pc_pending w"]
    unfolding account_ok_def c events_append by linarith
qed

lemma account_fresh: "account_ok C tr s (tp_next s) \<Longrightarrow> live (tp_next s) s = 0"
  by (simp add: account_ok_def)

lemma worker_dequeue_cases:
  assumes "worker_dequeue E i v none s = Inr s'" "queues_ok E C" "i < workers_count s"
  obtains pc where "pcs s' = (pcs s)[i := pc]" "tp_clients s' = tp_clients s" "tp_phase s' = tp_phase s"
    "tp_next s' = tp_next s" "tp_works s' = tp_works s" "tp_working s' = tp_working s" "tp_alive s' = tp_alive s"
    "tp_stop s' = tp_stop s" "tp_waiters s' = tp_waiters s" "workers_count s' = workers_count s"
    "pc = none \<and> (\<forall>w. queued C w s' = queued C w s) \<or>
     (\<exists>u. pc = WBegin u \<and> (\<forall>w. queued C w s' + of_bool (u = w) = queued C w s))"
proof -
  have v: "v < workers_count s" using assms(1) by (auto simp: worker_dequeue_def split: if_splits)
  obtain r q where d: "env_dequeue E (queues s ! v) = (r, q)" by fastforce
  note upd = queued_update [OF v, of "set_queue v q s" q C]
  show ?thesis
  proof (cases r)
    case None
    then have "s' = set_pc i none (set_queue v q s)" using assms(1) v d by (simp add: worker_dequeue_def nth_views)
    moreover have "C q = C (queues s ! v)" using queues_okD(3) [OF assms(2)] d None by simp
    ultimately show ?thesis using upd by (intro that [of none]) (auto simp: queued_alt)
  next
    case (Some u)
    then have "s' = set_pc i (WBegin u) (set_queue v q s)" using assms(1) v d by (simp add: worker_dequeue_def nth_views)
    moreover have "C (queues s ! v) = add_mset u (C q)" using queues_okD(4) [OF assms(2)] d Some by simp
    moreover have "queued C w s' + of_bool (u = w) = queued C w s" for w
      using upd [of w] calculation by (auto simp: queued_alt)
    ultimately show ?thesis by (intro that [of "WBegin u"]) auto
  qed
qed

lemma worker_account:
  assumes "worker_pc_step E i ok pc s = Inr (evs, s')" "pcs s ! i = pc" "i < workers_count s" "queues_ok E C"
    and acc: "account_ok C tr s w" "account_ok C tr s (tp_next s)"
  shows "account_ok C (tr @ evs) s' w"
proof -
  note fresh = account_fresh [OF acc(2)]
  have lv: "live w s \<le> of_bool (w < tp_next s)" using acc(1) by (simp add: account_ok_def)
  note by_worker = account_worker [OF acc(1) assms(3) _ assms(2)]
  show ?thesis
  proof (cases pc)
    case WOwn
    with assms obtain s1 where s1: "worker_dequeue E i i (WSteal 1) s = Inr s1" "evs = []" "s' = s1"
      by (auto simp: res_bind_Inr_iff)
    show ?thesis
      by (rule worker_dequeue_cases [OF s1(1) assms(4,3)], rule by_worker)
        (use lv WOwn in \<open>auto simp: s1 place_defs event_defs live_def\<close>)
  next
    case (WSteal k)
    show ?thesis
    proof (cases "k < workers_count s")
      case True
      with assms WSteal obtain s1 where s1: "worker_dequeue E i (steal_victim i k (workers_count s)) (WSteal (k + 1)) s = Inr s1"
        "evs = []" "s' = s1"
        by (auto simp: res_bind_Inr_iff)
      show ?thesis
        by (rule worker_dequeue_cases [OF s1(1) assms(4,3)], rule by_worker)
          (use lv WSteal in \<open>auto simp: s1 place_defs event_defs live_def\<close>)
    next
      case False
      then show ?thesis
        using assms(1) WSteal lv by (intro by_worker [of _ WSpin]) (auto simp: place_defs event_defs live_def queued_alt)
    qed
  next
    case (WRun v cpc cs)
    show ?thesis
    proof (cases "cpc = CReady \<and> cs = []")
      case True
      then show ?thesis
        using assms(1) WRun lv by (intro by_worker [of _ "WEnd v"]) (auto simp: place_defs event_defs live_def queued_alt)
    next
      case False
      with assms(1) WRun obtain cpc' cs' s1 where s1: "call_step E (Worker i) ok cpc cs s = Inr (evs, cpc', cs', s1)"
        "s' = set_pc i (WRun v cpc' cs') s1"
        by (auto simp: res_bind_Inr_iff)
      have owes: "call_frame s s1" "call_owes C w cpc s evs cpc' s1"
        using call_step_owes [OF s1(1) assms(4) fresh] by blast+
      moreover have "live w s1 \<le> of_bool (w < tp_next s1)"
        using owes(2) lv unfolding call_owes_def by linarith
      moreover have "live w s' = live w s1" "queued C w s' = queued C w s1" by (simp_all add: s1(2) live_def queued_alt)
      ultimately show ?thesis
        using WRun
        by (intro by_worker [of _ "WRun v cpc' cs'"])
          (auto simp: s1(2) call_frame_def call_owes_def pc_begun_def pc_running_def pc_ending_def pc_pending_def)
    qed
  next
    case (WFree v)
    with assms(1) obtain s1 where s1: "work_free v s = Inr s1" "evs = []" "s' = set_pc i WLoop (set_spins i 0 s1)"
      by (auto simp: res_bind_Inr_iff)
    obtain k where eff: "tp_works s v = Some k" "tp_works s1 = (tp_works s)(v := None)" "tp_next s1 = tp_next s"
      "tp_workers s1 = tp_workers s" "tp_clients s1 = tp_clients s" "tp_phase s1 = tp_phase s"
      by (rule work_free_effect [OF s1(1)]) auto
    show ?thesis
      using lv WFree eff views_of_workers [OF eff(4)]
      by (intro by_worker [of _ WLoop]) (auto simp: s1 place_defs event_defs live_def queued_alt)
  next
    case WStart
    then show ?thesis using assms(1) lv
      by (intro by_worker [of _ WLoop]) (auto simp: place_defs event_defs live_def queued_alt)
  next
    case WLoop
    then show ?thesis using assms(1) lv
      by (intro by_worker [of _ "if tp_stop s then WExit else WOwn"]) (auto simp: place_defs event_defs live_def queued_alt)
  next
    case (WBegin v)
    with assms(1) obtain k where k: "tp_works s v = Some k"
      "s' = set_pc i (WRun v CReady (env_calls E (wk_func k) (wk_arg k))) (s\<lparr>tp_working := tp_working s + 1\<rparr>)" "evs = [Started v]"
      by (auto simp: work_at_def res_bind_Inr_iff split: option.splits)
    show ?thesis using lv WBegin
      by (intro by_worker [of _ "WRun v CReady (env_calls E (wk_func k) (wk_arg k))"])
        (auto simp: k(2,3) place_defs event_defs live_def queued_alt)
  next
    case (WEnd v)
    then show ?thesis using assms(1) lv
      by (intro by_worker [of _ "WFree v"]) (auto simp: place_defs event_defs live_def queued_alt)
  next
    case WSpin
    then show ?thesis using assms(1) lv
      by (intro by_worker [of _ WLoop]) (auto simp: place_defs event_defs live_def queued_alt)
  next
    case WExit
    then show ?thesis using assms(1) lv
      by (intro by_worker [of _ WDone]) (auto simp: place_defs event_defs live_def queued_alt)
  next
    case WDone
    then show ?thesis using assms(1,2) acc(1) by (auto simp: account_ok_def event_defs)
  qed
qed

lemma client_account:
  assumes "client_step E c ok s = Some (Inr (evs, s'))" "queues_ok E C"
    and acc: "account_ok C tr s w" "account_ok C tr s (tp_next s)"
  shows "account_ok C (tr @ evs) s' w"
proof -
  define cl where "cl = tp_clients s ! c"
  from assms(1) obtain pc' cs' s1 where c: "c < length (tp_clients s)"
    and s1: "call_step E (Client c) ok (c_pc cl) (c_calls cl) s = Inr (evs, pc', cs', s1)"
      "s' = set_client c pc' cs' s1"
    by (auto simp: client_step_def cl_def res_bind_Inr_iff split: if_splits)
  have owes: "call_frame s s1" "call_owes C w (c_pc cl) s evs pc' s1"
    using call_step_owes [OF s1(1) assms(2) account_fresh [OF acc(2)]] by blast+
  have "tp_clients s1 = tp_clients s" using owes(1) by (simp add: call_frame_def)
  then have u: "at_clients w s' + pend w (c_pc cl) = at_clients w s + pend w pc'"
    using at_clients_update [OF c, of s' "\<lparr>c_pc = pc', c_calls = cs'\<rparr>" w]
    by (simp add: s1(2) set_client_def cl_def)
  have eqs: "at_pcs f s' = at_pcs f s" "at_drop w s' = at_drop w s" for f
    using call_frame_sums [OF owes(1)] by (simp_all add: s1(2) at_pcs_def at_drop_def)
  have eqs': "queued C w s' = queued C w s1" "live w s' = live w s1" "tp_next s' = tp_next s1"
    by (simp_all add: s1(2) queued_def live_def)
  show ?thesis
    using acc(1) owes(2) u unfolding account_ok_def call_owes_def events_append eqs eqs' by linarith
qed

lemma account_same:
  assumes "account_ok C tr s w" "pcs s' = pcs s" "queues s' = queues s" "tp_clients s' = tp_clients s"
    and "tp_works s' = tp_works s" "tp_next s' = tp_next s" "at_drop w s' = at_drop w s"
  shows "account_ok C tr s' w"
  using assms by (simp add: account_ok_def at_pcs_alt queued_alt at_clients_def live_def)

lemma owner_account:
  assumes "owner_phase_step E ph s = Some (Inr (evs, s'))" "tp_phase s = ph" "queues_ok E C"
    and acc: "account_ok C tr s w"
  shows "account_ok C (tr @ evs) s' w"
proof (cases ph)
  case (PDrain i)
  show ?thesis
  proof (cases "i < workers_count s \<and> env_size E (queues s ! i) > 0")
    case True
    obtain r q where d: "env_dequeue E (queues s ! i) = (r, q)" by fastforce
    have upd: "queued C w (set_queue i q s) + count (C (queues s ! i)) w = queued C w s + count (C q) w"
      using queued_update [of i s "set_queue i q s" q C w] True by simp
    show ?thesis
    proof (cases r)
      case None
      then have "s' = set_queue i q s" "evs = []" using assms(1) PDrain True d by (auto simp: nth_views)
      moreover have "C q = C (queues s ! i)" using queues_okD(3) [OF assms(3)] d None by simp
      ultimately show ?thesis using acc upd
        by (simp add: account_ok_def at_pcs_alt at_clients_def live_def at_drop_def queued_alt)
    next
      case (Some u)
      then have s': "s' = (set_queue i q s)\<lparr>tp_phase := PDrop i u\<rparr>" "evs = []"
        using assms(1) PDrain True d by (auto simp: nth_views)
      have "C (queues s ! i) = add_mset u (C q)" using queues_okD(4) [OF assms(3)] d Some by simp
      moreover have "queued C w s' = queued C w (set_queue i q s)" by (simp add: s' queued_alt)
      ultimately have "queued C w s' + at_drop w s' = queued C w s + at_drop w s"
        using upd assms(2) PDrain by (simp add: s'(1) at_drop_def split: if_splits)
      moreover have "at_pcs f s' = at_pcs f s" "at_clients w s' = at_clients w s" "live w s' = live w s" "tp_next s' = tp_next s" for f
        by (simp_all add: s' at_pcs_alt at_clients_def live_def)
      ultimately show ?thesis using acc unfolding account_ok_def s'(2) events_append
        by (simp add: event_defs)
    qed
  next
    case False
    then show ?thesis using assms(1,2) PDrain
      by (auto simp: nth_views at_drop_def intro!: account_same [OF acc] split: if_splits)
  qed
next
  case (PDrop i u)
  with assms(1) obtain s1 where s1: "work_free u s = Inr s1" "evs = [Dropped u]" "s' = s1\<lparr>tp_phase := PDrain i\<rparr>"
    by (auto simp: res_bind_Inr_iff)
  obtain k where eff: "tp_works s u = Some k" "tp_works s1 = (tp_works s)(u := None)" "tp_next s1 = tp_next s"
    "tp_workers s1 = tp_workers s" "tp_clients s1 = tp_clients s"
    by (rule work_free_effect [OF s1(1)]) auto
  have "at_pcs f s' = at_pcs f s" "queued C w s' = queued C w s" "at_clients w s' = at_clients w s" for f
    using eff by (simp_all add: s1 at_pcs_def queued_def at_clients_def)
  moreover have "at_drop w s' = 0" "at_drop w s = of_bool (u = w)" using assms(2) PDrop by (simp_all add: s1 at_drop_def)
  moreover have "live w s' + of_bool (u = w) = live w s" "tp_next s' = tp_next s"
    using eff by (auto simp: s1 live_def)
  moreover have "submitted w evs = 0" "refused w evs = 0" "started w evs = 0" "finished w evs = 0" "dropped w evs = of_bool (u = w)"
    by (simp_all add: s1 event_defs)
  ultimately show ?thesis using acc unfolding account_ok_def events_append by simp
qed (use assms in \<open>auto intro!: account_same [OF acc] simp: at_drop_def split: if_splits\<close>)

subsection \<open>The store of works and the counters of the waiters\<close>

definition store_step :: "'q pool \<Rightarrow> 'q pool \<Rightarrow> bool" where
  "store_step s s' \<longleftrightarrow>
     (tp_works s' = tp_works s \<and> tp_waiters s' = tp_waiters s \<and> tp_next s' = tp_next s) \<or>
     (\<exists>k. tp_works s' = (tp_works s)(tp_next s \<mapsto> k) \<and> tp_next s' = tp_next s + 1 \<and>
        tp_waiters s' = (case wk_waiter k of None \<Rightarrow> tp_waiters s | Some y \<Rightarrow> (tp_waiters s)(y := tp_waiters s y + 1))) \<or>
     (\<exists>w k. tp_works s w = Some k \<and> tp_works s' = (tp_works s)(w := None) \<and> tp_next s' = tp_next s \<and>
        tp_waiters s' = (case wk_waiter k of None \<Rightarrow> tp_waiters s | Some y \<Rightarrow> (tp_waiters s)(y := tp_waiters s y - 1)))"

lemma store_step_same:
  "tp_works s' = tp_works s \<Longrightarrow> tp_waiters s' = tp_waiters s \<Longrightarrow> tp_next s' = tp_next s \<Longrightarrow> store_step s s'"
  by (simp add: store_step_def)

lemma store_step_cong:
  "store_step s s1 \<Longrightarrow> tp_works s' = tp_works s1 \<Longrightarrow> tp_waiters s' = tp_waiters s1 \<Longrightarrow> tp_next s' = tp_next s1 \<Longrightarrow> store_step s s'"
  unfolding store_step_def by simp

lemma work_free_store:
  assumes "work_free w s1 = Inr s'" "tp_works s1 = tp_works s" "tp_waiters s1 = tp_waiters s" "tp_next s1 = tp_next s"
  shows "store_step s s'"
proof -
  obtain k where "tp_works s1 w = Some k" "tp_works s' = (tp_works s1)(w := None)" "tp_next s' = tp_next s1"
    "tp_waiters s' = (case wk_waiter k of None \<Rightarrow> tp_waiters s1 | Some y \<Rightarrow> (tp_waiters s1)(y := tp_waiters s1 y - 1))"
    by (rule work_free_effect [OF assms(1)]) auto
  then show ?thesis
    unfolding store_step_def assms(2-) by (intro disjI2 exI [of _ w] exI [of _ k]) simp
qed

lemma call_step_store:
  assumes "call_step E t ok pc cs s = Inr (evs, pc', cs', s')"
  shows "store_step s s'"
  using assms
proof (cases rule: call_step.cases [of "(E, t, ok, pc, cs, s)"])
  case (2 E t ok func arg x cs s)
  show ?thesis
  proof (cases "work_new ok func arg x s")
    case None
    then show ?thesis using assms 2 by (auto simp: work_add_begin_def store_step_same)
  next
    case (Some r)
    obtain v s1 where r: "work_new ok func arg x s = Some (v, s1)" using Some by (cases r) auto
    have "s' = s1" using assms 2 r by (auto simp: work_add_begin_def split: option.splits)
    then show ?thesis using work_new_effect [OF r] 2 by (auto simp: store_step_def)
  qed
next
  case (6 E t ok v i cs s)
  then obtain s1 where s1: "work_add_enqueue E v i s = Inr (evs, s1)" "s' = s1"
    using assms by (auto simp: res_bind_Inr_iff)
  show ?thesis
    using s1 6 by (auto simp: work_add_enqueue_def Let_def res_bind_Inr_iff store_step_same
        split: if_splits prod.splits intro: work_free_store)
qed (use assms in \<open>auto simp: res_bind_Inr_iff work_add_pick_def store_step_same split: if_splits\<close>)

definition waiting :: "nat \<Rightarrow> 'q pool \<Rightarrow> nat set" where
  "waiting x s = {w. \<exists>k. tp_works s w = Some k \<and> wk_waiter k = Some x}"

definition store_ok :: "'q pool \<Rightarrow> bool" where
  "store_ok s \<longleftrightarrow> dom (tp_works s) \<subseteq> {..<tp_next s} \<and> (\<forall>x. tp_waiters s x = of_nat (card (waiting x s)))"

lemma finite_waiting: "store_ok s \<Longrightarrow> finite (waiting x s)"
  by (rule finite_subset [of _ "{..<tp_next s}"]) (auto simp: store_ok_def waiting_def)

lemma store_step_ok:
  assumes "store_step s s'" "store_ok s"
  shows "store_ok s'"
proof -
  have fin: "finite (waiting x s)" for x using assms(2) by (rule finite_waiting)
  have cnt: "tp_waiters s x = of_nat (card (waiting x s))" and dom: "dom (tp_works s) \<subseteq> {..<tp_next s}" for x
    using assms(2) by (simp_all add: store_ok_def)
  have fresh: "tp_works s (tp_next s) = None" using dom by auto
  from assms(1) consider
    (same) "tp_works s' = tp_works s" "tp_waiters s' = tp_waiters s" "tp_next s' = tp_next s"
  | (new) k where "tp_works s' = (tp_works s)(tp_next s \<mapsto> k)" "tp_next s' = tp_next s + 1"
      "tp_waiters s' = (case wk_waiter k of None \<Rightarrow> tp_waiters s | Some y \<Rightarrow> (tp_waiters s)(y := tp_waiters s y + 1))"
  | (free) w k where "tp_works s w = Some k" "tp_works s' = (tp_works s)(w := None)" "tp_next s' = tp_next s"
      "tp_waiters s' = (case wk_waiter k of None \<Rightarrow> tp_waiters s | Some y \<Rightarrow> (tp_waiters s)(y := tp_waiters s y - 1))"
    unfolding store_step_def by blast
  then show ?thesis
  proof cases
    case same
    then show ?thesis using assms(2) by (simp add: store_ok_def waiting_def)
  next
    case new
    have w: "waiting x s' = (if wk_waiter k = Some x then insert (tp_next s) (waiting x s) else waiting x s)" for x
      using new fresh by (auto simp: waiting_def)
    have "tp_next s \<notin> waiting x s" for x using fresh by (simp add: waiting_def)
    then have "tp_waiters s' x = of_nat (card (waiting x s'))" for x
      using new(3) cnt fin by (auto simp: w split: option.splits)
    then show ?thesis using new dom by (auto simp: store_ok_def)
  next
    case free
    have w: "waiting x s' = (if wk_waiter k = Some x then waiting x s - {w} else waiting x s)" for x
      using free by (auto simp: waiting_def)
    have "wk_waiter k = Some x \<Longrightarrow> card (waiting x s) = Suc (card (waiting x s - {w}))" for x
      using free(1) fin by (intro card.remove) (auto simp: waiting_def)
    then have "tp_waiters s' x = of_nat (card (waiting x s'))" for x
      using free(4) cnt by (auto simp: w split: option.splits)
    then show ?thesis using free dom by (auto simp: store_ok_def)
  qed
qed

subsection \<open>What a step of a worker leaves alone\<close>

definition call_ok :: "nat \<Rightarrow> call_pc \<Rightarrow> bool" where
  "call_ok n pc = (case pc of CEnqueue w i \<Rightarrow> i < n | _ \<Rightarrow> True)"

definition worker_pc_ok :: "nat \<Rightarrow> worker_pc \<Rightarrow> bool" where
  "worker_pc_ok n pc = (case pc of WRun w cpc cs \<Rightarrow> call_ok n cpc \<and> (\<forall>i. cpc \<noteq> CScan i) | _ \<Rightarrow> True)"

definition counters_ok :: "'q pool \<Rightarrow> bool" where
  "counters_ok s \<longleftrightarrow> tp_working s = of_nat (at_pcs pc_executing s) \<and> tp_alive s = of_nat (at_pcs pc_alive s)"

lemma current_worker_bound: "current_worker_loop self ws i = Some j \<Longrightarrow> i \<le> j \<and> j < i + length ws"
  by (induction ws arbitrary: i) (fastforce split: if_splits)+

lemma call_step_ok:
  assumes "call_step E t ok pc cs s = Inr (evs, pc', cs', s')" "0 < workers_count s"
  shows "call_ok (workers_count s) pc'"
  using assms(1)
proof (cases rule: call_step.cases [of "(E, t, ok, pc, cs, s)"])
  case (2 E t ok func arg x cs s)
  show ?thesis
  proof (cases "work_new ok func arg x s")
    case None
    then show ?thesis using assms 2 by (auto simp: work_add_begin_def call_ok_def)
  next
    case (Some r)
    obtain v s1 where r: "work_new ok func arg x s = Some (v, s1)" using Some by (cases r) auto
    have "threadpool_current_worker E t s1 = Some j \<Longrightarrow> j < workers_count s" for j
      using current_worker_bound [of "env_thread_id E t" "tp_workers s1" 0 j] work_new_effect(5) [OF r]
      by (auto simp: threadpool_current_worker_def workers_count_def)
    then show ?thesis using assms 2 r
      by (auto simp: work_add_begin_def call_ok_def split: option.splits)
  qed
qed (use assms in \<open>auto simp: res_bind_Inr_iff work_add_pick_def call_ok_def split: if_splits\<close>)

lemma call_step_scan:
  assumes "call_step E t ok pc cs s = Inr (evs, CScan i, cs', s')"
  shows "(\<exists>j. pc = CScan j) \<or> tp_working s = 0"
  using assms
proof (cases rule: call_step.cases [of "(E, t, ok, pc, cs, s)"])
  case (2 E t ok func arg x cs s)
  then show ?thesis using assms by (auto simp: work_add_begin_def split: option.splits prod.splits)
qed (use assms in \<open>auto simp: res_bind_Inr_iff work_add_pick_def split: if_splits\<close>)

lemma call_step_frame:
  assumes "call_step E t ok pc cs s = Inr (evs, pc', cs', s')"
  shows "call_frame s s'"
  using assms
proof (cases rule: call_step.cases [of "(E, t, ok, pc, cs, s)"])
  case (2 E t ok func arg x cs s)
  show ?thesis
  proof (cases "work_new ok func arg x s")
    case None
    then show ?thesis using assms 2 by (auto simp: work_add_begin_def call_frame_def)
  next
    case (Some r)
    obtain v s1 where r: "work_new ok func arg x s = Some (v, s1)" using Some by (cases r) auto
    have "s' = s1" using assms 2 r by (auto simp: work_add_begin_def split: option.splits)
    then show ?thesis using work_new_effect [OF r] 2 views_of_workers [of s1 s] by (auto simp: call_frame_def)
  qed
next
  case (6 E t ok v i cs s)
  then obtain s1 where s1: "work_add_enqueue E v i s = Inr (evs, s1)" "s' = s1"
    using assms by (auto simp: res_bind_Inr_iff)
  have free: "work_free v (set_queue i q s) = Inr s1 \<Longrightarrow> call_frame s s1" for q
    by (erule work_free_effect) (use views_of_workers [of s1 "set_queue i q s"] in \<open>auto simp: call_frame_def\<close>)
  show ?thesis
    using s1 6 by (auto simp: work_add_enqueue_def Let_def res_bind_Inr_iff call_frame_def
        split: if_splits prod.splits dest: free)
qed (use assms in \<open>auto simp: res_bind_Inr_iff work_add_pick_def call_frame_def pcs_def workers_count_def split: if_splits\<close>)

definition worker_frame :: "nat \<Rightarrow> worker_pc \<Rightarrow> 'q pool \<Rightarrow> worker_pc \<Rightarrow> 'q pool \<Rightarrow> bool" where
  "worker_frame i pc s pc' s' \<longleftrightarrow>
     pcs s' = (pcs s)[i := pc'] \<and> workers_count s' = workers_count s \<and> tp_clients s' = tp_clients s \<and>
     tp_phase s' = tp_phase s \<and> tp_stop s' = tp_stop s \<and>
     tp_working s' + of_nat (pc_executing pc) = tp_working s + of_nat (pc_executing pc') \<and>
     tp_alive s' + of_nat (pc_alive pc) = tp_alive s + of_nat (pc_alive pc') \<and>
     store_step s s' \<and>
     (0 < workers_count s \<longrightarrow> worker_pc_ok (workers_count s) pc \<longrightarrow> tp_working s \<noteq> 0 \<or> pc_executing pc = 0 \<longrightarrow>
        worker_pc_ok (workers_count s) pc')"

lemma worker_dequeue_frame:
  assumes "worker_dequeue E i v none s = Inr s'" "pc = WOwn \<or> pc = WSteal k" "none = WSteal j"
  obtains pc' where "worker_frame i pc s pc' s'"
proof -
  obtain r q where d: "env_dequeue E (w_queue (tp_workers s ! v)) = (r, q)" by fastforce
  show ?thesis
    by (rule that [of "case r of None \<Rightarrow> none | Some w \<Rightarrow> WBegin w"])
      (use assms d in \<open>auto simp: worker_dequeue_def worker_frame_def pc_executing_def pc_alive_def worker_pc_ok_def
        store_step_same split: if_splits option.splits\<close>)
qed

lemma worker_pc_step_frame:
  assumes "worker_pc_step E i ok pc s = Inr (evs, s')" "pc \<noteq> WDone"
  obtains pc' where "worker_frame i pc s pc' s'"
proof (cases pc)
  case WOwn
  then show ?thesis using assms(1) that worker_dequeue_frame [of E i i "WSteal 1" s s' WOwn]
    by (auto simp: res_bind_Inr_iff)
next
  case (WSteal k)
  show ?thesis
  proof (cases "k < workers_count s")
    case True
    then show ?thesis
      using assms(1) that WSteal worker_dequeue_frame [of E i "steal_victim i k (workers_count s)" "WSteal (k + 1)" s s' pc k]
      by (auto simp: res_bind_Inr_iff)
  next
    case False
    then show ?thesis using assms(1) WSteal
      by (intro that [of WSpin])
        (auto simp: worker_frame_def pc_executing_def pc_alive_def worker_pc_ok_def store_step_same)
  qed
next
  case (WRun v cpc cs)
  show ?thesis
  proof (cases "cpc = CReady \<and> cs = []")
    case True
    then show ?thesis using assms(1) WRun
      by (intro that [of "WEnd v"])
        (auto simp: worker_frame_def pc_executing_def pc_alive_def worker_pc_ok_def store_step_same)
  next
    case False
    with assms(1) WRun obtain cpc' cs' s1 where s1: "call_step E (Worker i) ok cpc cs s = Inr (evs, cpc', cs', s1)"
      "s' = set_pc i (WRun v cpc' cs') s1"
      by (auto simp: res_bind_Inr_iff)
    have fr: "call_frame s s1" by (rule call_step_frame [OF s1(1)])
    have st: "store_step s s'"
      by (rule store_step_cong [OF call_step_store [OF s1(1)]]) (simp_all add: s1(2))
    have "worker_pc_ok (workers_count s) (WRun v cpc' cs')"
      if "0 < workers_count s" "worker_pc_ok (workers_count s) (WRun v cpc cs)" "tp_working s \<noteq> 0"
      using call_step_ok [OF s1(1) that(1)] call_step_scan [of E "Worker i" ok cpc cs s evs _ cs' s1] s1(1) that(2,3)
      by (auto simp: worker_pc_ok_def)
    then show ?thesis using fr st WRun
      by (intro that [of "WRun v cpc' cs'"])
        (auto simp: s1(2) worker_frame_def call_frame_def pc_executing_def pc_alive_def)
  qed
next
  case (WFree v)
  with assms(1) obtain s1 where s1: "work_free v s = Inr s1" "s' = set_pc i WLoop (set_spins i 0 s1)"
    by (auto simp: res_bind_Inr_iff)
  have st: "store_step s s1" by (rule work_free_store [OF s1(1)]) simp_all
  have st': "store_step s s'" by (rule store_step_cong [OF st]) (simp_all add: s1)
  show ?thesis
    by (rule work_free_effect [OF s1(1)], rule that [of WLoop])
      (use st' WFree views_of_workers [of s1 s] in
        \<open>auto simp: s1 worker_frame_def pc_executing_def pc_alive_def worker_pc_ok_def\<close>)
next
  case (WBegin v)
  with assms(1) obtain k where "tp_works s v = Some k"
    "s' = set_pc i (WRun v CReady (env_calls E (wk_func k) (wk_arg k))) (s\<lparr>tp_working := tp_working s + 1\<rparr>)"
    by (auto simp: work_at_def res_bind_Inr_iff split: option.splits)
  then show ?thesis using WBegin
    by (intro that [of "WRun v CReady (env_calls E (wk_func k) (wk_arg k))"])
      (auto simp: worker_frame_def pc_executing_def pc_alive_def worker_pc_ok_def call_ok_def store_step_same)
next
  case WStart
  then show ?thesis using assms(1)
    by (intro that [of WLoop]) (auto simp: worker_frame_def pc_executing_def pc_alive_def worker_pc_ok_def store_step_same)
next
  case WLoop
  then show ?thesis using assms(1)
    by (intro that [of "if tp_stop s then WExit else WOwn"])
      (auto simp: worker_frame_def pc_executing_def pc_alive_def worker_pc_ok_def store_step_same)
next
  case (WEnd v)
  then show ?thesis using assms(1)
    by (intro that [of "WFree v"]) (auto simp: worker_frame_def pc_executing_def pc_alive_def worker_pc_ok_def store_step_same)
next
  case WSpin
  then show ?thesis using assms(1)
    by (intro that [of WLoop]) (auto simp: worker_frame_def pc_executing_def pc_alive_def worker_pc_ok_def store_step_same)
next
  case WExit
  then show ?thesis using assms(1)
    by (intro that [of WDone]) (auto simp: worker_frame_def pc_executing_def pc_alive_def worker_pc_ok_def store_step_same)
qed (use assms in auto)

subsection \<open>The invariant\<close>

definition client_ok :: "nat \<Rightarrow> client \<Rightarrow> bool" where
  "client_ok n c \<longleftrightarrow> call_ok n (c_pc c)"

text \<open>
  What the owner knows in each phase: nobody stops before it says so, all clients are done when it
  releases the pool, the workers it joined and the queues it emptied stay so.
\<close>

definition phase_ok :: "('q \<Rightarrow> nat multiset) \<Rightarrow> 'q pool \<Rightarrow> bool" where
  "phase_ok C s \<longleftrightarrow>
     (tp_stop s \<longleftrightarrow> tp_phase s \<noteq> PInit \<and> tp_phase s \<noteq> PUse) \<and>
     (case tp_phase s of
        PInit \<Rightarrow> True
      | PUse \<Rightarrow> True
      | PJoin k \<Rightarrow> list_all client_done (tp_clients s) \<and> k \<le> workers_count s \<and> (\<forall>i < k. pcs s ! i = WDone)
      | PDrain k \<Rightarrow> list_all client_done (tp_clients s) \<and> k \<le> workers_count s \<and> set (pcs s) \<subseteq> {WDone} \<and>
          (\<forall>i < k. C (queues s ! i) = {#})
      | PDrop k w \<Rightarrow> list_all client_done (tp_clients s) \<and> k \<le> workers_count s \<and> set (pcs s) \<subseteq> {WDone} \<and>
          (\<forall>i < k. C (queues s ! i) = {#})
      | PFreed \<Rightarrow> list_all client_done (tp_clients s) \<and> set (pcs s) \<subseteq> {WDone} \<and>
          (\<forall>i < workers_count s. C (queues s ! i) = {#}))"

definition draining :: "phase \<Rightarrow> bool" where
  "draining ph \<longleftrightarrow> (case ph of PInit \<Rightarrow> False | PUse \<Rightarrow> False | PJoin k \<Rightarrow> False | _ \<Rightarrow> True)"

definition labels_ok :: "event list \<Rightarrow> 'q pool \<Rightarrow> bool" where
  "labels_ok tr s \<longleftrightarrow>
     (\<forall>w x k. Submitted w x \<in> set tr \<longrightarrow> tp_works s w = Some k \<longrightarrow> wk_waiter k = x) \<and>
     (\<not> draining (tp_phase s) \<longrightarrow> (\<forall>w. Dropped w \<notin> set tr))"

definition pool_inv :: "('q \<Rightarrow> nat multiset) \<Rightarrow> event list \<Rightarrow> 'q pool \<Rightarrow> bool" where
  "pool_inv C tr s \<longleftrightarrow>
     (\<forall>w. account_ok C tr s w) \<and> store_ok s \<and> counters_ok s \<and>
     0 < workers_count s \<and> workers_count s < 2 ^ 32 \<and>
     list_all (worker_pc_ok (workers_count s)) (pcs s) \<and> list_all (client_ok (workers_count s)) (tp_clients s) \<and>
     phase_ok C s \<and> labels_ok tr s"

lemma pool_invD:
  assumes "pool_inv C tr s"
  shows "account_ok C tr s w" "store_ok s" "counters_ok s" "0 < workers_count s" "workers_count s < 2 ^ 32"
    "list_all (worker_pc_ok (workers_count s)) (pcs s)" "list_all (client_ok (workers_count s)) (tp_clients s)"
    "phase_ok C s" "labels_ok tr s"
  using assms by (simp_all add: pool_inv_def)

lemma pool_inv_pc: "pool_inv C tr s \<Longrightarrow> i < workers_count s \<Longrightarrow> worker_pc_ok (workers_count s) (pcs s ! i)"
  using pool_invD(6) by (fastforce simp: list_all_length)

lemma pool_inv_init:
  assumes "threadpool_init okp okw qs okt np n progs = Inr (Some s)" "\<And>i q. qs i = Some q \<Longrightarrow> C q = {#}"
    and "0 < unat (if n = 0 then np else n)"
  shows "pool_inv C [] s"
proof -
  define m where "m = unat (if n = 0 then np else n)"
  have m: "0 < m" "m < 2 ^ 32"
    using assms(3) unsigned_less [of "if n = 0 then np else n :: 32 word"] by (simp_all add: m_def)
  have s: "s = \<lparr>tp_workers = map (\<lambda>i. \<lparr>w_queue = the (qs i), w_tid = 0, w_spins = 0, w_pc = WStart\<rparr>) [0..<m],
        tp_working = 0, tp_alive = 0, tp_stop = False, tp_submit_rr = 0,
        tp_clients = map (\<lambda>p. \<lparr>c_pc = CReady, c_calls = p\<rparr>) progs, tp_phase = PInit,
        tp_works = Map.empty, tp_next = 0, tp_waiters = (\<lambda>_. 0)\<rparr>"
    and qs: "\<forall>i < m. \<exists>q. qs i = Some q"
    using assms(1) by (auto simp: threadpool_init_def Let_def m_def list_ex_iff split: if_splits)
  have q: "queues s = map (\<lambda>i. the (qs i)) [0..<m]" and p: "pcs s = replicate m WStart"
    by (simp_all add: s queues_def pcs_def map_replicate_const o_def)
  have empty: "i < m \<Longrightarrow> C (the (qs i)) = {#}" for i using qs assms(2) by fastforce
  have "queued C w s = 0" for w by (simp add: queued_alt q empty cong: map_cong)
  moreover have "at_pcs f s = m * f WStart" for f :: "worker_pc \<Rightarrow> nat"
    by (simp add: at_pcs_alt p map_replicate sum_list_replicate)
  moreover have "at_clients w s = 0" for w by (simp add: at_clients_def s pend_def o_def)
  ultimately have "account_ok C [] s w" for w
    by (simp add: account_ok_def place_defs event_defs) (simp add: s at_drop_def live_def)
  then show ?thesis
    using m by (simp add: pool_inv_def store_ok_def counters_ok_def waiting_def phase_ok_def labels_ok_def draining_def
        at_pcs_alt p map_replicate sum_list_replicate pc_executing_def pc_alive_def worker_pc_ok_def)
      (auto simp: s workers_count_def list_all_iff client_ok_def call_ok_def worker_pc_ok_def)
qed

lemma executing_counted:
  assumes "pool_inv C tr s" "i < workers_count s" "pc_executing (pcs s ! i) \<noteq> 0"
  shows "tp_working s \<noteq> 0"
proof -
  have "pc_executing (pcs s ! i) \<le> at_pcs pc_executing s"
    unfolding at_pcs_alt using elem_le_sum_list [of i "map pc_executing (pcs s)"] assms(2) by simp
  moreover have "at_pcs pc_executing s \<le> (\<Sum>pc\<leftarrow>pcs s. 1)"
    unfolding at_pcs_alt by (rule sum_list_mono) (simp add: pc_executing_def split: worker_pc.splits)
  moreover have "(\<Sum>pc\<leftarrow>pcs s. 1) = workers_count s" by (simp add: sum_list_triv)
  ultimately have "0 < at_pcs pc_executing s" "at_pcs pc_executing s < 2 ^ 32"
    using assms(3) pool_invD(5) [OF assms(1)] by linarith+
  then have "unat (of_nat (at_pcs pc_executing s) :: u32) \<noteq> 0"
    by (simp add: unat_of_nat take_bit_nat_eq_self)
  then show ?thesis using pool_invD(3) [OF assms(1)] by (auto simp: counters_ok_def)
qed

lemma counter_step:
  fixes a b :: u32
  assumes "a' + of_nat x = a + of_nat y" "a = of_nat n" "n' + x = n + y"
  shows "a' = of_nat n'"
proof -
  have "a' + of_nat x = of_nat n' + of_nat x"
    using assms by (metis of_nat_add)
  then show ?thesis by simp
qed

lemma worker_frame_counters:
  assumes "worker_frame i (pcs s ! i) s pc' s'" "i < workers_count s" "counters_ok s"
  shows "counters_ok s'"
proof -
  have "at_pcs f s' + f (pcs s ! i) = at_pcs f s + f pc'" for f
    using at_pcs_update [OF assms(2), of s' pc' f] assms(1) by (simp add: worker_frame_def)
  then show ?thesis
    using assms(1,3) unfolding counters_ok_def worker_frame_def by (auto intro: counter_step)
qed

text \<open>The part of the labels that depends on the waiters.\<close>

lemma labels_store:
  assumes "\<forall>w x k. Submitted w x \<in> set tr \<longrightarrow> tp_works s w = Some k \<longrightarrow> wk_waiter k = x"
    and "store_step s s'" "\<And>w. account_ok C tr s w"
  shows "\<forall>w x k. Submitted w x \<in> set tr \<longrightarrow> tp_works s' w = Some k \<longrightarrow> wk_waiter k = x"
proof (intro allI impI)
  fix w x k assume a: "Submitted w x \<in> set tr" "tp_works s' w = Some k"
  have "0 < submitted w tr" using a(1) unfolding submitted_def by (auto simp: filter_empty_conv split: event.splits)
  then have "w < tp_next s" using assms(3) [of w] by (auto simp: account_ok_def intro: ccontr)
  then have "tp_works s w = Some k" using a(2) assms(2) by (auto simp: store_step_def split: if_splits)
  then show "wk_waiter k = x" using assms(1) a(1) by blast
qed

definition labels_step :: "event list \<Rightarrow> 'q pool \<Rightarrow> bool" where
  "labels_step evs s' \<longleftrightarrow>
     (\<forall>w x k. Submitted w x \<in> set evs \<longrightarrow> tp_works s' w = Some k \<longrightarrow> wk_waiter k = x) \<and> (\<forall>w. Dropped w \<notin> set evs)"

lemma labels_step_Nil [simp]: "labels_step [] s'"
  by (simp add: labels_step_def)

lemma call_step_labels:
  assumes "call_step E t ok pc cs s = Inr (evs, pc', cs', s')"
  shows "labels_step evs s'"
  using assms
proof (cases rule: call_step.cases [of "(E, t, ok, pc, cs, s)"])
  case (2 E t ok func arg x cs s)
  then show ?thesis using assms by (auto simp: work_add_begin_def labels_step_def split: option.splits prod.splits)
next
  case (6 E t ok v i cs s)
  then show ?thesis using assms
    by (auto simp: work_add_enqueue_def work_at_def res_bind_Inr_iff labels_step_def Let_def
        split: if_splits prod.splits option.splits)
qed (use assms in \<open>auto simp: res_bind_Inr_iff labels_step_def split: if_splits\<close>)

lemma worker_pc_step_labels:
  assumes "worker_pc_step E i ok pc s = Inr (evs, s')"
  shows "labels_step evs s'"
proof (cases pc)
  case (WRun v cpc cs)
  then show ?thesis using assms call_step_labels [of E "Worker i" ok cpc cs s evs]
    by (fastforce simp: res_bind_Inr_iff labels_step_def split: if_splits)
qed (use assms in \<open>auto simp: res_bind_Inr_iff labels_step_def split: if_splits\<close>)

lemma labels_append:
  assumes "labels_ok tr s" "store_step s s'" "\<And>w. account_ok C tr s w" "labels_step evs s'" "tp_phase s' = tp_phase s"
  shows "labels_ok (tr @ evs) s'"
  using labels_store [OF _ assms(2,3)] assms(1,4,5) unfolding labels_ok_def labels_step_def by (auto 0 3)

lemma worker_inv:
  assumes "worker_step E i ok s = Some (Inr (evs, s'))" "queues_ok E C" "pool_inv C tr s"
  shows "pool_inv C (tr @ evs) s'"
proof -
  note inv = pool_invD [OF assms(3)]
  from assms(1) have i: "i < workers_count s" "pcs s ! i \<noteq> WDone" "tp_phase s \<noteq> PFreed"
    and st: "worker_pc_step E i ok (pcs s ! i) s = Inr (evs, s')"
    by (auto simp: worker_step_def nth_views split: if_splits)
  obtain pc' where fr: "worker_frame i (pcs s ! i) s pc' s'" using worker_pc_step_frame [OF st i(2)] .
  then have f: "pcs s' = (pcs s)[i := pc']" "workers_count s' = workers_count s" "tp_clients s' = tp_clients s"
    "tp_phase s' = tp_phase s" "tp_stop s' = tp_stop s" "store_step s s'"
    by (simp_all add: worker_frame_def)
  have "pc_executing (pcs s ! i) = 0 \<or> tp_working s \<noteq> 0" using executing_counted [OF assms(3) i(1)] by blast
  then have "worker_pc_ok (workers_count s) pc'"
    using fr inv(4) pool_inv_pc [OF assms(3) i(1)] unfolding worker_frame_def by blast
  then have "list_all (worker_pc_ok (workers_count s)) (pcs s')"
    using inv(6) by (auto simp: f(1) list_all_iff dest: set_update_subset_insert [THEN subsetD])
  moreover have "phase_ok C s'"
  proof -
    have "pcs s ! i \<in> set (pcs s)" using i(1) by simp
    then have "\<not> set (pcs s) \<subseteq> {WDone}" using i(2) by blast
    then show ?thesis using inv(8) i(2)
      by (auto simp: phase_ok_def f split: phase.splits) (metis nth_list_update_neq)
  qed
  moreover have "labels_ok (tr @ evs) s'"
    by (rule labels_append [OF inv(9) f(6) inv(1) worker_pc_step_labels [OF st] f(4)])
  ultimately show ?thesis
    using worker_account [OF st refl i(1) assms(2) inv(1,1)] store_step_ok [OF f(6) inv(2)]
      worker_frame_counters [OF fr i(1) inv(3)] inv(4,5,7)
    by (simp add: pool_inv_def f)
qed

lemma client_inv:
  assumes "client_step E c ok s = Some (Inr (evs, s'))" "queues_ok E C" "pool_inv C tr s"
  shows "pool_inv C (tr @ evs) s'"
proof -
  note inv = pool_invD [OF assms(3)]
  define cl where "cl = tp_clients s ! c"
  from assms(1) obtain pc' cs' s1 where c: "c < length (tp_clients s)" "tp_phase s = PUse"
    and s1: "call_step E (Client c) ok (c_pc cl) (c_calls cl) s = Inr (evs, pc', cs', s1)"
      "s' = set_client c pc' cs' s1"
    by (auto simp: client_step_def cl_def res_bind_Inr_iff split: if_splits)
  have fr: "call_frame s s1" by (rule call_step_frame [OF s1(1)])
  then have f: "pcs s' = pcs s" "workers_count s' = workers_count s" "tp_phase s' = tp_phase s" "tp_stop s' = tp_stop s"
    "tp_working s' = tp_working s" "tp_alive s' = tp_alive s"
    "tp_clients s' = (tp_clients s)[c := \<lparr>c_pc = pc', c_calls = cs'\<rparr>]"
    by (simp_all add: call_frame_def s1(2)) (simp_all add: set_client_def workers_count_def)
  have st: "store_step s s'" by (rule store_step_cong [OF call_step_store [OF s1(1)]]) (simp_all add: s1(2))
  have "call_ok (workers_count s) pc'" by (rule call_step_ok [OF s1(1) inv(4)])
  then have "list_all (client_ok (workers_count s)) (tp_clients s')"
    using inv(7) by (auto simp: f(7) list_all_iff client_ok_def dest!: set_update_subset_insert [THEN subsetD])
  moreover have "phase_ok C s'" using inv(8) c(2) by (simp add: phase_ok_def f)
  moreover have "labels_ok (tr @ evs) s'"
    using call_step_labels [OF s1(1)] by (intro labels_append [OF inv(9) st inv(1) _ f(3)]) (simp add: labels_step_def s1(2))
  moreover have "counters_ok s'" using inv(3) by (simp add: counters_ok_def f at_pcs_alt)
  ultimately show ?thesis
    using client_account [OF assms(1,2) inv(1,1)] store_step_ok [OF st inv(2)] inv(4,5,6)
    by (simp add: pool_inv_def f)
qed

lemma owner_join_step:
  assumes "k < workers_count s" "phase_ok C s" "tp_phase s = PJoin k" "pcs s ! k = WDone"
  shows "phase_ok C (s\<lparr>tp_phase := PJoin (k + 1)\<rparr>)"
  using assms by (auto simp: phase_ok_def less_Suc_eq)

lemma owner_inv:
  assumes "owner_phase_step E ph s = Some (Inr (evs, s'))" "tp_phase s = ph" "queues_ok E C" "pool_inv C tr s"
  shows "pool_inv C (tr @ evs) s'"
proof -
  note inv = pool_invD [OF assms(4)]
  have acc: "account_ok C (tr @ evs) s' w" for w by (rule owner_account [OF assms(1-3) inv(1)])
  have frame: "pcs s' = pcs s \<and> workers_count s' = workers_count s \<and> tp_clients s' = tp_clients s \<and>
      tp_working s' = tp_working s \<and> tp_alive s' = tp_alive s \<and> store_step s s' \<and> phase_ok C s' \<and> labels_ok (tr @ evs) s'"
  proof (cases ph)
    case (PJoin k)
    have "\<not> k < workers_count s \<Longrightarrow> set (pcs s) \<subseteq> {WDone}"
      using inv(8) assms(2) PJoin by (fastforce simp: phase_ok_def in_set_conv_nth)
    then show ?thesis using assms(1,2) PJoin inv(8,9) owner_join_step [of k s C]
      by (auto simp: nth_views store_step_same phase_ok_def labels_ok_def draining_def split: if_splits)
  next
    case (PDrain k)
    then have ph: "list_all client_done (tp_clients s)" "k \<le> workers_count s" "set (pcs s) \<subseteq> {WDone}" "tp_stop s"
      "\<forall>i < k. C (queues s ! i) = {#}"
      using inv(8) assms(2) by (auto simp: phase_ok_def)
    show ?thesis
    proof (cases "k < workers_count s \<and> env_size E (queues s ! k) > 0")
      case True
      obtain r q where d: "env_dequeue E (queues s ! k) = (r, q)" by fastforce
      show ?thesis
        using assms(1,2) PDrain True d inv(9) ph
        by (auto simp: nth_views store_step_same phase_ok_def labels_ok_def draining_def split: option.splits)
    next
      case False
      then have "k < workers_count s \<Longrightarrow> C (queues s ! k) = {#}" using queues_okD(5) [OF assms(3)] by simp
      then show ?thesis
        using assms(1,2) PDrain False inv(9) ph
        by (auto simp: nth_views store_step_same phase_ok_def labels_ok_def draining_def less_Suc_eq split: if_splits)
    qed
  next
    case (PDrop k u)
    with assms(1) obtain s1 where s1: "work_free u s = Inr s1" "evs = [Dropped u]" "s' = s1\<lparr>tp_phase := PDrain k\<rparr>"
      by (auto simp: res_bind_Inr_iff)
    have st: "store_step s s'"
      by (rule store_step_cong [OF work_free_store [OF s1(1)]]) (simp_all add: s1)
    have lab: "\<forall>w x k. Submitted w x \<in> set tr \<longrightarrow> tp_works s' w = Some k \<longrightarrow> wk_waiter k = x"
      using labels_store [OF _ st inv(1)] inv(9) by (simp add: labels_ok_def)
    obtain j where eff: "tp_works s u = Some j" "tp_workers s1 = tp_workers s" "tp_clients s1 = tp_clients s" "tp_stop s1 = tp_stop s"
      "tp_working s1 = tp_working s" "tp_alive s1 = tp_alive s"
      by (rule work_free_effect [OF s1(1)]) auto
    note v = views_of_workers [OF eff(2)]
    show ?thesis
      using inv(8) assms(2) PDrop st lab eff v
      by (auto simp: s1(2,3) phase_ok_def labels_ok_def draining_def)
  qed (use assms inv in \<open>auto simp: store_step_same phase_ok_def labels_ok_def draining_def split: if_splits\<close>)
  then show ?thesis
    using acc inv store_step_ok [of s s'] by (simp add: pool_inv_def counters_ok_def at_pcs_alt)
qed

lemma pool_step_inv:
  assumes "pool_step E t ok s = Some (Inr (evs, s'))" "queues_ok E C" "pool_inv C tr s"
  shows "pool_inv C (tr @ evs) s'"
  using assms owner_inv [of E "tp_phase s" s evs s' C tr] client_inv [of E _ ok s evs s' C tr] worker_inv [of E _ ok s evs s' C tr]
  by (cases t) (simp_all add: owner_step_def)

lemma pool_run_inv:
  assumes "pool_run E s0 tr s" "queues_ok E C" "pool_inv C tr0 s0"
  shows "pool_inv C (tr0 @ tr) s"
  using assms(1)
proof induction
  case start
  then show ?case using assms(3) by simp
next
  case (step tr s t ok evs s')
  then show ?case using pool_step_inv [OF step.hyps(2) assms(2) step.IH] by simp
qed

subsection \<open>Safety\<close>

lemma at_pcs_ge: "i < workers_count s \<Longrightarrow> f (pcs s ! i) \<le> at_pcs f s"
  unfolding at_pcs_alt using elem_le_sum_list [of i "map f (pcs s)"] by simp

lemma account_live:
  assumes "account_ok C tr s w" "i < workers_count s"
    and "pc_begun w (pcs s ! i) + pc_running w (pcs s ! i) + pc_ending w (pcs s ! i) + pc_pending w (pcs s ! i) \<noteq> 0"
  shows "tp_works s w \<noteq> None"
proof -
  have "live w s \<noteq> 0"
    using assms(1,3) at_pcs_ge [OF assms(2), of "pc_begun w"] at_pcs_ge [OF assms(2), of "pc_running w"]
      at_pcs_ge [OF assms(2), of "pc_ending w"] at_pcs_ge [OF assms(2), of "pc_pending w"]
    unfolding account_ok_def by linarith
  then show ?thesis by (simp add: live_def)
qed

lemma account_live_client:
  assumes "account_ok C tr s w" "c < length (tp_clients s)" "pend w (c_pc (tp_clients s ! c)) \<noteq> 0"
  shows "tp_works s w \<noteq> None"
proof -
  have "pend w (c_pc (tp_clients s ! c)) \<le> at_clients w s"
    unfolding at_clients_def using elem_le_sum_list [of c "map (\<lambda>c. pend w (c_pc c)) (tp_clients s)"] assms(2) by simp
  then have "live w s \<noteq> 0" using assms(1,3) unfolding account_ok_def by linarith
  then show ?thesis by (simp add: live_def)
qed

lemma work_free_safe: "tp_works s w \<noteq> None \<Longrightarrow> \<exists>s'. work_free w s = Inr s'"
  by (auto simp: work_free_def Let_def split: option.splits)

lemma work_at_safe: "tp_works s w \<noteq> None \<Longrightarrow> \<exists>k. work_at s w = Inr k"
  by (auto simp: work_at_def)

lemma call_step_safe:
  assumes "0 < workers_count s" "call_ok (workers_count s) pc" "\<And>w. pend w pc \<noteq> 0 \<Longrightarrow> tp_works s w \<noteq> None"
  shows "\<exists>r. call_step E t ok pc cs s = Inr r"
proof (cases pc)
  case CReady
  then show ?thesis by (cases cs rule: list.exhaust; cases "hd cs") (auto split: prod.splits)
next
  case (CEnqueue w i)
  have i: "i < workers_count s" and w: "tp_works s w \<noteq> None" using assms(2,3) CEnqueue by (auto simp: call_ok_def pend_def)
  obtain taken q where q: "env_enqueue E (w_queue (tp_workers s ! i)) w = (taken, q)" by fastforce
  obtain s1 where "work_free w (set_queue i q s) = Inr s1" using work_free_safe [of "set_queue i q s" w] w by auto
  then show ?thesis using i q w CEnqueue
    by (cases taken) (auto simp: work_add_enqueue_def work_at_def Let_def split: option.splits)
qed (use assms(1) in \<open>auto simp: work_add_pick_def\<close>)

lemma worker_dequeue_safe: "v < workers_count s \<Longrightarrow> \<exists>s'. worker_dequeue E i v none s = Inr s'"
  by (auto simp: worker_dequeue_def split: prod.splits option.splits)

lemma worker_step_safe:
  assumes inv: "pool_inv C tr s"
  shows "worker_step E i ok s \<noteq> Some (Inl e)"
proof (cases "i < workers_count s \<and> pcs s ! i \<noteq> WDone")
  case True
  then have i: "i < workers_count s" by simp
  have mem: "pcs s ! i \<in> set (pcs s)" using i by simp
  have nf: "tp_phase s \<noteq> PFreed" using pool_invD(8) [OF inv] True subsetD [OF _ mem, of "{WDone}"] by (auto simp: phase_ok_def)
  note alive = account_live [OF pool_invD(1) [OF inv] i]
  have "\<exists>r. worker_pc_step E i ok (pcs s ! i) s = Inr r"
  proof (cases "pcs s ! i")
    case WOwn
    then show ?thesis using worker_dequeue_safe [OF i, of E i "WSteal 1"] by auto
  next
    case (WSteal k)
    have "steal_victim i k (workers_count s) < workers_count s"
      using pool_invD(4) [OF inv] by (simp add: steal_victim_def)
    then show ?thesis using worker_dequeue_safe [of _ s E i "WSteal (k + 1)"] WSteal by fastforce
  next
    case (WBegin w)
    then show ?thesis using work_at_safe [OF alive [of w]] by (auto simp: pc_begun_def)
  next
    case (WFree w)
    then show ?thesis using work_free_safe [OF alive [of w]] by (auto simp: pc_ending_def)
  next
    case (WRun v cpc cs)
    have "call_ok (workers_count s) cpc" using pool_inv_pc [OF inv i] WRun by (simp add: worker_pc_ok_def)
    then obtain r where "call_step E (Worker i) ok cpc cs s = Inr r"
      using call_step_safe [of s cpc] alive WRun pool_invD(4) [OF inv] by (fastforce simp: pc_pending_def)
    then show ?thesis using WRun by (cases r) auto
  qed auto
  then show ?thesis using i nf by (auto simp: worker_step_def nth_views)
qed (auto simp: worker_step_def nth_views)

lemma client_step_safe:
  assumes inv: "pool_inv C tr s"
  shows "client_step E c ok s \<noteq> Some (Inl e)"
proof (cases "c < length (tp_clients s)")
  case True
  have "call_ok (workers_count s) (c_pc (tp_clients s ! c))"
    using pool_invD(7) [OF inv] True by (auto simp: list_all_length client_ok_def)
  then obtain r where "call_step E (Client c) ok (c_pc (tp_clients s ! c)) (c_calls (tp_clients s ! c)) s = Inr r"
    using call_step_safe [of s] account_live_client [OF pool_invD(1) [OF inv] True] pool_invD(4) [OF inv] by blast
  then show ?thesis by (cases r) (auto simp: client_step_def)
qed (simp add: client_step_def)

lemma owner_step_safe:
  assumes inv: "pool_inv C tr s"
  shows "owner_step E s \<noteq> Some (Inl e)"
proof (cases "tp_phase s")
  case (PDrop i w)
  then have "live w s \<noteq> 0" using pool_invD(1) [OF inv, of w] unfolding account_ok_def at_drop_def by simp
  then obtain s1 where "work_free w s = Inr s1" using work_free_safe by (fastforce simp: live_def)
  then show ?thesis using PDrop by (simp add: owner_step_def)
qed (auto simp: owner_step_def split: prod.splits option.splits)

subsection \<open>Properties\<close>

text \<open>A pool as \<^verbatim>\<open>threadpool_init\<close> makes it, with at least one worker and empty queues.\<close>

definition new_pool :: "'q pool_env \<Rightarrow> ('q \<Rightarrow> nat multiset) \<Rightarrow> 'q pool \<Rightarrow> bool" where
  "new_pool E C s0 \<longleftrightarrow> queues_ok E C \<and>
     (\<exists>ok_pool ok_workers qs ok_thread num_procs wanted progs.
        threadpool_init ok_pool ok_workers qs ok_thread num_procs wanted progs = Inr (Some s0) \<and>
        (\<forall>i q. qs i = Some q \<longrightarrow> C q = {#}) \<and> 0 < unat (if wanted = 0 then num_procs else wanted))"

lemma new_pool_inv:
  assumes "new_pool E C s0" "pool_run E s0 tr s"
  shows "pool_inv C tr s"
proof -
  have "pool_inv C [] s0"
    using assms(1) unfolding new_pool_def by (elim conjE exE) (rule pool_inv_init, auto)
  then show ?thesis using pool_run_inv [OF assms(2), of C "[]"] assms(1) by (simp add: new_pool_def)
qed

text \<open>
  C7: Whatever the interleaving of the workers, the clients and the owner, no step of the thread pool
  goes wrong: no work is used or freed after it was freed, no worker uses the pool after it was freed,
  and no queue index is out of range.
\<close>

theorem threadpool_safe:
  assumes "new_pool E C s0" "pool_run E s0 tr s"
  shows "pool_step E t ok s \<noteq> Some (Inl e)"
  using worker_step_safe [OF new_pool_inv [OF assms]] client_step_safe [OF new_pool_inv [OF assms]]
    owner_step_safe [OF new_pool_inv [OF assms]] by (cases t) auto

text \<open>
  C8: A work is accepted at most once, called at most once and only after it was accepted, and never both
  called and dropped. When the release of the pool is complete, every accepted work was either
  run to its end or dropped, nothing is left in memory and no worker runs.
\<close>

theorem threadpool_works_once:
  assumes "new_pool E C s0" "pool_run E s0 tr s"
  shows "submitted w tr \<le> 1 \<and> finished w tr \<le> started w tr \<and> started w tr + dropped w tr \<le> submitted w tr \<and>
    (tp_phase s = PFreed \<longrightarrow> submitted w tr = finished w tr + dropped w tr \<and> tp_works s w = None \<and>
       (\<forall>i < workers_count s. w_pc (tp_workers s ! i) = WDone))"
proof -
  note inv = pool_invD [OF new_pool_inv [OF assms]]
  have acc: "account_ok C tr s w" by (rule inv(1))
  have le: "of_bool (w < tp_next s) \<le> (1 :: nat)" by simp
  have freed: "tp_works s w = None \<and> (\<forall>i < workers_count s. w_pc (tp_workers s ! i) = WDone) \<and>
      queued C w s = 0 \<and> (\<forall>f. f WDone = 0 \<longrightarrow> at_pcs f s = 0) \<and> at_clients w s = 0 \<and> at_drop w s = 0"
    if "tp_phase s = PFreed"
  proof -
    have d: "set (pcs s) \<subseteq> {WDone}" "\<forall>i < workers_count s. C (queues s ! i) = {#}" "list_all client_done (tp_clients s)"
      using inv(8) that by (simp_all add: phase_ok_def)
    have pc: "pcs s ! i = WDone" if "i < workers_count s" for i
      using subsetD [OF d(1) nth_mem, of i] that by simp
    have a: "f WDone = 0 \<longrightarrow> at_pcs f s = 0" for f
      using d(1) by (auto simp: at_pcs_alt)
    moreover have q: "queued C w s = 0"
      using d(2) by (auto simp: queued_alt in_set_conv_nth)
    moreover have c: "at_clients w s = 0"
      using d(3) by (auto simp: at_clients_def list_all_iff client_done_def pend_def)
    moreover have dr: "at_drop w s = 0" using that by (simp add: at_drop_def)
    moreover have "live w s = 0" using acc a q c dr by (simp add: account_ok_def place_defs)
    ultimately show ?thesis using pc by (simp add: nth_views live_def)
  qed
  show ?thesis
    using acc le freed [THEN conjunct1] freed [THEN conjunct2, THEN conjunct1] freed [THEN conjunct2, THEN conjunct2]
    unfolding account_ok_def by (auto simp: place_defs)
qed

lemma not_all_done: "i < workers_count s \<Longrightarrow> pcs s ! i \<noteq> WDone \<Longrightarrow> \<not> set (pcs s) \<subseteq> {WDone}"
  using nth_mem [of i "pcs s"] by (metis singletonD subsetD workers_views(1))

lemma owner_step_pcs:
  assumes "owner_step E s = Some (Inr (evs, s'))"
  shows "pcs s' = pcs s" "workers_count s' = workers_count s"
proof -
  have "tp_workers s1 = tp_workers s" if "work_free w s = Inr s1" for w s1
    by (rule work_free_effect [OF that])
  note free = views_of_workers [OF this]
  show "pcs s' = pcs s" "workers_count s' = workers_count s"
    using assms by (cases "tp_phase s"; auto simp: owner_step_def res_bind_Inr_iff free
        split: if_splits prod.splits option.splits)+
qed

lemma waiter_returned:
  assumes "call_step E t ok pc cs s = Inr (evs, pc', cs', s')" "WaiterWaitReturned x \<in> set evs"
  shows "tp_waiters s x = 0"
  using assms
proof (cases rule: call_step.cases [of "(E, t, ok, pc, cs, s)"])
  case (2 E t ok func arg x cs s)
  then show ?thesis using assms by (auto simp: work_add_begin_def split: option.splits prod.splits)
next
  case (6 E t ok v i cs s)
  then show ?thesis using assms
    by (auto simp: work_add_enqueue_def work_at_def res_bind_Inr_iff Let_def split: if_splits prod.splits option.splits)
qed (use assms in \<open>auto simp: res_bind_Inr_iff split: if_splits\<close>)

lemma pool_step_waiter_returned:
  assumes "pool_step E t ok s = Some (Inr (evs, s'))" "WaiterWaitReturned x \<in> set evs" "pool_inv C tr s"
  shows "tp_waiters s x = 0 \<and> \<not> draining (tp_phase s)"
proof (cases t)
  case Owner
  then show ?thesis using assms(1,2)
    by (cases "tp_phase s") (auto simp: owner_step_def res_bind_Inr_iff split: if_splits prod.splits option.splits)
next
  case (Client c)
  then show ?thesis using assms(1,2)
    by (auto simp: client_step_def res_bind_Inr_iff draining_def split: if_splits dest: waiter_returned)
next
  case (Worker i)
  with assms(1) have i: "i < workers_count s" "pcs s ! i \<noteq> WDone" "tp_phase s \<noteq> PFreed"
    and st: "worker_pc_step E i ok (pcs s ! i) s = Inr (evs, s')"
    by (auto simp: worker_step_def nth_views split: if_splits)
  have "\<not> set (pcs s) \<subseteq> {WDone}" by (rule not_all_done [OF i(1,2)])
  then have "\<not> draining (tp_phase s)"
    using pool_invD(8) [OF assms(3)] by (auto simp: phase_ok_def draining_def split: phase.splits)
  moreover have "tp_waiters s x = 0"
    using st assms(2) by (cases "pcs s ! i") (auto simp: res_bind_Inr_iff split: if_splits dest: waiter_returned)
  ultimately show ?thesis by simp
qed

lemma submitted_pos: "Submitted w x \<in> set tr \<Longrightarrow> 0 < submitted w tr"
  unfolding submitted_def by (auto simp: filter_empty_conv split: event.splits)

lemma no_drop: "\<forall>w. Dropped w \<notin> set tr \<Longrightarrow> dropped w tr = 0"
  unfolding dropped_def by (auto simp: filter_empty_conv split: event.splits)

text \<open>
  C9: When \<^verbatim>\<open>threadpool_waiter_wait\<close> returns, every work that was accepted with that waiter before has been
  run to its end, as long as fewer than 2 to the 32 works were in memory (the width of the counter).
\<close>

theorem threadpool_waiter_wait_correct:
  assumes "new_pool E C s0" "pool_run E s0 tr s"
    and "pool_step E t ok s = Some (Inr (evs, s'))" "WaiterWaitReturned x \<in> set evs"
    and "Submitted w (Some x) \<in> set tr" "card (dom (tp_works s)) < 2 ^ 32"
  shows "finished w tr = 1"
proof -
  note pinv = new_pool_inv [OF assms(1,2)]
  note inv = pool_invD [OF pinv]
  have zero: "tp_waiters s x = 0" and nd: "\<not> draining (tp_phase s)"
    using pool_step_waiter_returned [OF assms(3,4) pinv] by simp_all
  have "dom (tp_works s) \<subseteq> {..<tp_next s}" using inv(2) by (simp add: store_ok_def)
  then have "finite (dom (tp_works s))" by (rule finite_subset) simp
  then have "card (waiting x s) \<le> card (dom (tp_works s))" by (rule card_mono) (auto simp: waiting_def)
  then have "unat (of_nat (card (waiting x s)) :: u32) = card (waiting x s)"
    using assms(6) by (simp add: unat_of_nat take_bit_nat_eq_self)
  then have "waiting x s = {}"
    using zero inv(2) finite_waiting [OF inv(2), of x] by (auto simp: store_ok_def)
  then have "tp_works s w \<noteq> Some k" for k
    using inv(9) [unfolded labels_ok_def, THEN conjunct1, rule_format, OF assms(5), of k] by (auto simp: waiting_def)
  then have "tp_works s w = None" by blast
  moreover have "dropped w tr = 0" using inv(9) nd by (intro no_drop) (simp add: labels_ok_def)
  moreover have "of_bool (w < tp_next s) \<le> (1 :: nat)" by simp
  ultimately show ?thesis
    using inv(1) [of w] submitted_pos [OF assms(5)] unfolding account_ok_def live_def by simp
qed

lemma waiting_worker_stuck:
  assumes "pool_inv C tr s" "i < workers_count s" "pcs s ! i = WRun w CReady (PoolWait # cs)"
    and "pool_step E t ok s = Some (Inr (evs, s'))" "queues_ok E C"
  shows "pcs s' ! i = WRun w CReady (PoolWait # cs) \<and> workers_count s' = workers_count s"
proof (cases t)
  case Owner
  then show ?thesis using assms(3,4) owner_step_pcs [of E s evs s'] by simp
next
  case (Client c)
  with assms(4) obtain pc cs0 pc' cs' s1 where s1: "call_step E t ok pc cs0 s = Inr (evs, pc', cs', s1)" "s' = set_client c pc' cs' s1"
    by (auto simp: client_step_def res_bind_Inr_iff split: if_splits)
  have "pcs s' = pcs s" "workers_count s' = workers_count s"
    using call_step_frame [OF s1(1)] by (auto simp: s1(2) call_frame_def set_client_def workers_count_def pcs_def)
  then show ?thesis using assms(3) by simp
next
  case (Worker j)
  with assms(4) have j: "j < workers_count s" "pcs s ! j \<noteq> WDone"
    and st: "worker_pc_step E j ok (pcs s ! j) s = Inr (evs, s')"
    by (auto simp: worker_step_def nth_views split: if_splits)
  show ?thesis
  proof (cases "j = i")
    case True
    have "tp_working s \<noteq> 0"
      by (rule executing_counted [OF assms(1,2)]) (simp add: assms(3) pc_executing_def)
    then show ?thesis using st True assms(2,3) by auto
  next
    case False
    obtain pc' where "worker_frame j (pcs s ! j) s pc' s'" using worker_pc_step_frame [OF st j(2)] .
    then show ?thesis using False assms(3) by (simp add: worker_frame_def)
  qed
qed

text \<open>
  C30: A work that calls \<^verbatim>\<open>threadpool_wait\<close> never gets past that call: the worker that runs it counts as
  working. The pool can then never be released.
\<close>

theorem threadpool_wait_in_work_never_returns:
  assumes "new_pool E C s0" "pool_run E s0 tr s" "i < workers_count s"
    and "w_pc (tp_workers s ! i) = WRun w CReady (PoolWait # cs)" "pool_run E s tr' s'"
  shows "w_pc (tp_workers s' ! i) = WRun w CReady (PoolWait # cs) \<and> tp_phase s' \<noteq> PFreed"
proof -
  have qs: "queues_ok E C" using assms(1) by (simp add: new_pool_def)
  have "pool_inv C (tr @ tr') s' \<and> pcs s' ! i = WRun w CReady (PoolWait # cs) \<and> workers_count s' = workers_count s"
    using assms(5)
  proof induction
    case start
    then show ?case using new_pool_inv [OF assms(1,2)] assms(3,4) by (simp add: nth_views)
  next
    case (step tr1 s1 t ok evs s2)
    then show ?case
      using waiting_worker_stuck [of C "tr @ tr1" s1 i w cs E t ok evs s2] pool_step_inv [OF step.hyps(2) qs] qs assms(3)
      by fastforce
  qed
  then have s': "pool_inv C (tr @ tr') s'" "pcs s' ! i = WRun w CReady (PoolWait # cs)" "i < workers_count s'"
    using assms(3) by simp_all
  have "\<not> set (pcs s') \<subseteq> {WDone}" using not_all_done [OF s'(3)] s'(2) by simp
  then have "tp_phase s' \<noteq> PFreed" using pool_invD(8) [OF s'(1)] by (auto simp: phase_ok_def)
  then show ?thesis using s'(2,3) by (simp add: nth_views)
qed

subsection \<open>The release ends\<close>

text \<open>What the owner has left to do once all workers are joined.\<close>

definition drain_work :: "('q \<Rightarrow> nat multiset) \<Rightarrow> 'q pool \<Rightarrow> nat" where
  "drain_work C s = 2 * (\<Sum>q\<leftarrow>queues s. size (C q)) +
     (case tp_phase s of PDrain k \<Rightarrow> workers_count s - k + 1 | PDrop k w \<Rightarrow> workers_count s - k + 2 | _ \<Rightarrow> 0)"

definition queues_exact :: "'q pool_env \<Rightarrow> ('q \<Rightarrow> nat multiset) \<Rightarrow> bool" where
  "queues_exact E C \<longleftrightarrow> (\<forall>q. env_size E q = size (C q) \<and> (fst (env_dequeue E q) = None \<longrightarrow> C q = {#}))"

lemma drain_work_step:
  assumes "pool_inv C tr s" "queues_ok E C" "queues_exact E C" "draining (tp_phase s)" "tp_phase s \<noteq> PFreed"
  obtains evs s' where "owner_step E s = Some (Inr (evs, s'))" "drain_work C s' < drain_work C s" "draining (tp_phase s')"
proof (cases "tp_phase s")
  case (PDrain k)
  show ?thesis
  proof (cases "k < workers_count s \<and> env_size E (queues s ! k) > 0")
    case True
    then have "C (queues s ! k) \<noteq> {#}" using assms(3) by (auto simp: queues_exact_def)
    then obtain u q where d: "env_dequeue E (queues s ! k) = (Some u, q)"
      using assms(3) by (cases "env_dequeue E (queues s ! k)"; cases "fst (env_dequeue E (queues s ! k))")
        (auto simp: queues_exact_def)
    define s' where "s' = (set_queue k q s)\<lparr>tp_phase := PDrop k u\<rparr>"
    have "owner_step E s = Some (Inr ([], s'))" using PDrain True d by (simp add: owner_step_def nth_views s'_def)
    moreover have "(\<Sum>q\<leftarrow>queues s'. size (C q)) + size (C (queues s ! k)) = (\<Sum>q\<leftarrow>queues s. size (C q)) + size (C q)"
      using sum_list_map_update [of k "queues s" "\<lambda>q. size (C q)" q] True by (simp add: s'_def)
    then have "(\<Sum>q\<leftarrow>queues s'. size (C q)) + 1 = (\<Sum>q\<leftarrow>queues s. size (C q))"
      using queues_okD(4) [OF assms(2) d] by simp
    then have "drain_work C s' < drain_work C s" using PDrain by (simp add: drain_work_def) (simp add: s'_def)
    ultimately show ?thesis by (rule that) (simp add: s'_def draining_def)
  next
    case False
    define s' where "s' = s\<lparr>tp_phase := (if k < workers_count s then PDrain (k + 1) else PFreed)\<rparr>"
    have "owner_step E s = Some (Inr ([], s'))" using PDrain False by (auto simp: owner_step_def nth_views s'_def)
    moreover have "drain_work C s' < drain_work C s" using PDrain by (auto simp: drain_work_def s'_def)
    ultimately show ?thesis by (rule that) (simp add: s'_def draining_def)
  qed
next
  case (PDrop k w)
  have "live w s \<noteq> 0" using pool_invD(1) [OF assms(1), of w] PDrop unfolding account_ok_def at_drop_def by simp
  then obtain s1 where s1: "work_free w s = Inr s1" using work_free_safe by (fastforce simp: live_def)
  have ws: "tp_workers s1 = tp_workers s" by (rule work_free_effect [OF s1])
  have "owner_step E s = Some (Inr ([Dropped w], s1\<lparr>tp_phase := PDrain k\<rparr>))" using PDrop s1 by (simp add: owner_step_def)
  moreover have "drain_work C (s1\<lparr>tp_phase := PDrain k\<rparr>) < drain_work C s"
    using PDrop views_of_workers [OF ws] by (simp add: drain_work_def)
  ultimately show ?thesis by (rule that) (simp add: draining_def)
qed (use assms(4,5) in \<open>simp_all add: draining_def\<close>)

lemma drain_ends:
  assumes "pool_inv C tr s" "queues_ok E C" "queues_exact E C" "draining (tp_phase s)"
  shows "\<exists>n evs s'. pool_schedule E (replicate n Owner) s = Some (Inr (evs, s')) \<and> tp_phase s' = PFreed"
  using assms
proof (induction "drain_work C s" arbitrary: s tr rule: less_induct)
  case less
  show ?case
  proof (cases "tp_phase s = PFreed")
    case True
    then show ?thesis by (intro exI [of _ 0]) simp
  next
    case False
    obtain evs s' where st: "owner_step E s = Some (Inr (evs, s'))" "drain_work C s' < drain_work C s" "draining (tp_phase s')"
      using drain_work_step [OF less.prems False] .
    have "pool_inv C (tr @ evs) s'" using owner_inv [OF _ refl less.prems(2,1)] st(1) by (simp add: owner_step_def)
    then obtain n evs' s2 where "pool_schedule E (replicate n Owner) s' = Some (Inr (evs', s2))" "tp_phase s2 = PFreed"
      using less.hyps [OF st(2) _ less.prems(2,3) st(3)] by blast
    then show ?thesis using st(1) by (intro exI [of _ "Suc n"]) simp
  qed
qed

text \<open>
  Once the workers are joined, \<^verbatim>\<open>threadpool_release\<close> ends after finitely many steps of its own, when the
  sizes of the queues are exact and a non-empty queue yields an element (no thread uses them any more).
\<close>

theorem threadpool_release_ends:
  assumes "new_pool E C s0" "pool_run E s0 tr s" "queues_exact E C" "draining (tp_phase s)"
  shows "\<exists>n evs s'. pool_schedule E (replicate n Owner) s = Some (Inr (evs, s')) \<and> tp_phase s' = PFreed"
  using drain_ends [OF new_pool_inv [OF assms(1,2)] _ assms(3,4)] assms(1) by (simp add: new_pool_def)

subsection \<open>Concrete pools\<close>

text \<open>
  Queues that are lists. Function 0 makes no call to the pool, function 1 waits for the pool, function 2
  submits a work of its own.
\<close>

definition demo_env :: "nat list pool_env" where
  "demo_env = \<lparr>env_enqueue = (\<lambda>q w. (True, q @ [w])),
     env_dequeue = (\<lambda>q. case q of [] \<Rightarrow> (None, []) | w # ws \<Rightarrow> (Some w, ws)),
     env_size = length,
     env_thread_id = (\<lambda>t. case t of Owner \<Rightarrow> 1 | Client c \<Rightarrow> 2 * c + 2 | Worker i \<Rightarrow> 2 * i + 3),
     env_calls = (\<lambda>f a. if f = 1 then [PoolWait] else if f = 2 then [WorkAdd 0 a None] else [])\<rparr>"

definition demo_pool :: "u32 \<Rightarrow> pool_call list \<Rightarrow> nat list pool" where
  "demo_pool n prog = (case threadpool_init True True (\<lambda>_. Some []) (\<lambda>_. True) 1 n [prog] of
     Inr (Some s) \<Rightarrow> s | _ \<Rightarrow> undefined)"

lemma demo_queues: "queues_ok demo_env mset" "queues_exact demo_env mset"
  by (auto simp: queues_ok_def queues_exact_def demo_env_def split: list.splits)

lemma demo_init: "threadpool_init True True (\<lambda>_. Some []) (\<lambda>_. True) 1 n [prog] = Inr (Some (demo_pool n prog))"
  by (simp add: demo_pool_def threadpool_init_def Let_def list_ex_iff)

lemma demo_new: "new_pool demo_env mset (demo_pool n prog)"
proof -
  have "0 < unat (if n = 0 then 1 else n)" by (simp add: unat_gt_0)
  then show ?thesis
    unfolding new_pool_def using demo_queues(1) demo_init [of n prog]
    by (intro conjI exI [of _ True] exI [of _ "\<lambda>_. Some []"] exI [of _ "\<lambda>_. True"] exI [of _ 1] exI [of _ n] exI [of _ "[prog]"]) auto
qed

definition demo_trace :: "u32 \<Rightarrow> pool_call list \<Rightarrow> thread list \<Rightarrow> event list" where
  "demo_trace n prog ts = (case pool_schedule demo_env ts (demo_pool n prog) of Some (Inr (evs, s)) \<Rightarrow> evs | _ \<Rightarrow> [])"

definition demo_state :: "u32 \<Rightarrow> pool_call list \<Rightarrow> thread list \<Rightarrow> nat list pool" where
  "demo_state n prog ts = (case pool_schedule demo_env ts (demo_pool n prog) of Some (Inr (evs, s)) \<Rightarrow> s | _ \<Rightarrow> undefined)"

definition demo_runs :: "u32 \<Rightarrow> pool_call list \<Rightarrow> thread list \<Rightarrow> bool" where
  "demo_runs n prog ts = (case pool_schedule demo_env ts (demo_pool n prog) of Some (Inr _) \<Rightarrow> True | _ \<Rightarrow> False)"

lemma demo_run: "demo_runs n prog ts \<Longrightarrow> pool_run demo_env (demo_pool n prog) (demo_trace n prog ts) (demo_state n prog ts)"
  by (auto simp: demo_runs_def demo_trace_def demo_state_def intro!: pool_schedule_run split: option.splits sum.splits)

text \<open>One worker starts and the pool is in use; the client submits; the worker takes a work.\<close>

definition demo_start :: "thread list" where "demo_start = [Worker 0, Owner]"
definition demo_submit :: "thread list" where "demo_submit = [Client 0, Client 0, Client 0]"
definition demo_take :: "thread list" where "demo_take = [Worker 0, Worker 0]"

text \<open>
  \<^verbatim>\<open>threadpool_wait\<close>, which is to wait for all the work to be done, can return while an accepted work has
  not been started: the worker has taken it from its queue and does not count as working yet.
\<close>

theorem threadpool_wait_returns_early:
  "\<exists>tr s. pool_run demo_env (demo_pool 1 [WorkAdd 0 0 None, PoolWait]) tr s \<and>
     PoolWaitReturned \<in> set tr \<and> submitted 0 tr = 1 \<and> started 0 tr = 0"
proof -
  define prog ts where p: "prog = [WorkAdd 0 0 None, PoolWait]"
    "ts = demo_start @ demo_submit @ demo_take @ [Client 0, Client 0, Client 0]"
  have run: "demo_runs 1 prog ts" unfolding p by code_simp
  have tr: "demo_trace 1 prog ts = [Submitted 0 None, PoolWaitReturned]" unfolding p by code_simp
  have "pool_run demo_env (demo_pool 1 prog) [Submitted 0 None, PoolWaitReturned] (demo_state 1 prog ts)"
    using demo_run [OF run] by (simp add: tr)
  then show ?thesis
    by (intro exI [of _ "[Submitted 0 None, PoolWaitReturned]"] exI [of _ "demo_state 1 prog ts"])
      (simp add: p(1) event_defs)
qed

text \<open>Runs on which the other properties apply.\<close>

theorem threadpool_safe_witness:
  "pool_step demo_env (Worker 0) True (demo_state 1 [WorkAdd 0 0 None] (demo_start @ demo_submit @ demo_take)) \<noteq> Some (Inl OutOfBounds)"
proof -
  have run: "demo_runs 1 [WorkAdd 0 0 None] (demo_start @ demo_submit @ demo_take)" by code_simp
  show ?thesis by (rule threadpool_safe [OF demo_new demo_run [OF run]])
qed

definition demo_end :: "thread list" where
  "demo_end = [Worker 0, Worker 0, Worker 0, Worker 0, Owner, Worker 0, Worker 0, Owner, Owner, Owner, Owner]"

theorem threadpool_works_once_witness:
  "finished 0 (demo_trace 1 [WorkAdd 0 0 None] (demo_start @ demo_submit @ demo_take @ demo_end)) = 1"
proof -
  define prog ts where p: "prog = [WorkAdd 0 0 None]" "ts = demo_start @ demo_submit @ demo_take @ demo_end"
  have run: "demo_runs 1 prog ts" unfolding p by code_simp
  have "tp_phase (demo_state 1 prog ts) = PFreed" unfolding p by code_simp
  moreover have "submitted 0 (demo_trace 1 prog ts) = 1" "dropped 0 (demo_trace 1 prog ts) = 0" unfolding p by code_simp+
  ultimately show ?thesis using threadpool_works_once [OF demo_new demo_run [OF run], of 0] by (simp add: p)
qed

theorem threadpool_waiter_wait_correct_witness:
  "finished 0 (demo_trace 1 [WorkAdd 0 0 (Some 7), WaiterWait 7]
     (demo_start @ demo_submit @ demo_take @ [Worker 0, Worker 0, Worker 0, Worker 0])) = 1"
proof -
  define prog ts where p: "prog = [WorkAdd 0 0 (Some 7), WaiterWait 7]"
    "ts = demo_start @ demo_submit @ demo_take @ [Worker 0, Worker 0, Worker 0, Worker 0]"
  have run: "demo_runs 1 prog ts" unfolding p by code_simp
  have tr: "demo_trace 1 prog ts = [Submitted 0 (Some 7), Started 0, Finished 0]" unfolding p by code_simp
  have ev: "case pool_step demo_env (Client 0) True (demo_state 1 prog ts) of Some (Inr (evs, s')) \<Rightarrow> evs = [WaiterWaitReturned 7] | _ \<Rightarrow> False"
    unfolding p by code_simp
  then obtain s' where st: "pool_step demo_env (Client 0) True (demo_state 1 prog ts) = Some (Inr ([WaiterWaitReturned 7], s'))"
    by (auto split: option.splits sum.splits prod.splits)
  have n: "tp_next (demo_state 1 prog ts) = 1" unfolding p by code_simp
  have "store_ok (demo_state 1 prog ts)" using pool_invD(2) [OF new_pool_inv [OF demo_new demo_run [OF run]]] .
  then have "card (dom (tp_works (demo_state 1 prog ts))) \<le> card {..< 1 :: nat}"
    unfolding store_ok_def n by (intro card_mono) auto
  then show ?thesis
    using threadpool_waiter_wait_correct [OF demo_new demo_run [OF run] st, of 7 0] by (simp add: tr flip: p)
qed

theorem threadpool_wait_in_work_never_returns_witness:
  "case pool_schedule demo_env [Worker 0, Worker 0, Owner]
      (demo_state 1 [WorkAdd 1 0 None] (demo_start @ demo_submit @ demo_take @ [Worker 0])) of
     Some (Inr (evs, s)) \<Rightarrow> w_pc (tp_workers s ! 0) = WRun 0 CReady [PoolWait] | _ \<Rightarrow> False"
proof -
  define prog ts where p: "prog = [WorkAdd 1 0 None]" "ts = demo_start @ demo_submit @ demo_take @ [Worker 0]"
  have run: "demo_runs 1 prog ts" unfolding p by code_simp
  have pc: "w_pc (tp_workers (demo_state 1 prog ts) ! 0) = WRun 0 CReady [PoolWait]" "0 < workers_count (demo_state 1 prog ts)"
    unfolding p by code_simp+
  have "case pool_schedule demo_env [Worker 0, Worker 0, Owner] (demo_state 1 prog ts) of Some (Inr _) \<Rightarrow> True | _ \<Rightarrow> False"
    unfolding p by code_simp
  then obtain evs s where sch: "pool_schedule demo_env [Worker 0, Worker 0, Owner] (demo_state 1 prog ts) = Some (Inr (evs, s))"
    by (auto split: option.splits sum.splits)
  note stuck = threadpool_wait_in_work_never_returns [OF demo_new demo_run [OF run] pc(2,1) pool_schedule_run [OF sch]]
  show ?thesis unfolding p(1) [symmetric] p(2) [symmetric] sch using stuck by simp
qed

text \<open>A work that is queued when the pool stops is dropped.\<close>

definition demo_stop :: "thread list" where "demo_stop = [Owner, Worker 0, Worker 0, Owner, Owner]"

theorem threadpool_release_ends_witness:
  "\<exists>n evs s'. pool_schedule demo_env (replicate n Owner)
      (demo_state 1 [WorkAdd 0 0 None] (demo_start @ demo_submit @ demo_stop)) = Some (Inr (evs, s')) \<and> tp_phase s' = PFreed"
proof -
  have run: "demo_runs 1 [WorkAdd 0 0 None] (demo_start @ demo_submit @ demo_stop)" by code_simp
  have "draining (tp_phase (demo_state 1 [WorkAdd 0 0 None] (demo_start @ demo_submit @ demo_stop)))" by code_simp
  then show ?thesis by (rule threadpool_release_ends [OF demo_new demo_run [OF run] demo_queues(2)])
qed

end
