(* ===== verification/FloatOps.thy ===== *)
theory FloatOps
  imports Complex_Main Prelude
begin

text \<open>
  What the numeric components share: counting loops whose bodies can run into undefined behaviour,
  checked arrays, and the operations of the type \<^verbatim>\<open>float\<close>. There is no theory of
  floating-point numbers here, so the operations are a parameter of every definition that computes
  with floats; \<open>real_ops\<close> is exact arithmetic, in which the algorithms are proved correct. Where
  a statement does not depend on the arithmetic, it holds for every choice of the operations.
\<close>

subsection \<open>Loops\<close>

fun for_steps :: "nat \<Rightarrow> nat \<Rightarrow> nat \<Rightarrow> (nat \<Rightarrow> 's \<Rightarrow> 's res) \<Rightarrow> 's \<Rightarrow> 's res" where
  "for_steps step 0 i f s = Inr s"
| "for_steps step (Suc n) i f s = res_bind (f i s) (for_steps step n (i + step) f)"

text \<open>
  \<^verbatim>\<open>for(i = lo; i < hi; i++)\<close> and \<^verbatim>\<open>for(i = lo; i < hi; i += step)\<close>, on indices that do not wrap
  around.
\<close>

definition for_loop :: "nat \<Rightarrow> nat \<Rightarrow> (nat \<Rightarrow> 's \<Rightarrow> 's res) \<Rightarrow> 's \<Rightarrow> 's res" where
  "for_loop lo hi f s = for_steps 1 (hi - lo) lo f s"

definition for_by :: "nat \<Rightarrow> nat \<Rightarrow> nat \<Rightarrow> (nat \<Rightarrow> 's \<Rightarrow> 's res) \<Rightarrow> 's \<Rightarrow> 's res" where
  "for_by step lo hi f s = for_steps step ((hi - lo + step - 1) div step) lo f s"

text \<open>The rule for loops: an invariant that every round keeps.\<close>

lemma for_steps_rule:
  assumes "Inv lo s"
    and "\<And>k s. k < n \<Longrightarrow> Inv (lo + k * step) s \<Longrightarrow> \<exists>s'. f (lo + k * step) s = Inr s' \<and> Inv (lo + k * step + step) s'"
  shows "\<exists>s'. for_steps step n lo f s = Inr s' \<and> Inv (lo + n * step) s'"
  using assms
proof (induction n arbitrary: lo s)
  case (Suc n)
  obtain s1 where s1: "f lo s = Inr s1" "Inv (lo + step) s1" using Suc.prems(2) [of 0 s] Suc.prems(1) by auto
  have "\<exists>s'. for_steps step n (lo + step) f s1 = Inr s' \<and> Inv (lo + step + n * step) s'"
  proof (rule Suc.IH [OF s1(2)])
    fix k s assume "k < n" "Inv (lo + step + k * step) s"
    then show "\<exists>s'. f (lo + step + k * step) s = Inr s' \<and> Inv (lo + step + k * step + step) s'"
      using Suc.prems(2) [of "Suc k" s] by (simp add: ac_simps)
  qed
  then show ?case using s1(1) by (simp add: ac_simps)
qed simp

lemma for_loop_rule:
  assumes "lo \<le> hi" "Inv lo s" "\<And>i s. lo \<le> i \<Longrightarrow> i < hi \<Longrightarrow> Inv i s \<Longrightarrow> \<exists>s'. f i s = Inr s' \<and> Inv (Suc i) s'"
  shows "\<exists>s'. for_loop lo hi f s = Inr s' \<and> Inv hi s'"
  using for_steps_rule [of Inv lo s "hi - lo" 1 f] assms by (simp add: for_loop_def)

lemma for_by_rule:
  assumes "0 < step" "Inv 0 s" "\<And>k s. k < n \<Longrightarrow> Inv (k * step) s \<Longrightarrow> \<exists>s'. f (k * step) s = Inr s' \<and> Inv (Suc k * step) s'"
  shows "\<exists>s'. for_by step 0 (n * step) f s = Inr s' \<and> Inv (n * step) s'"
proof -
  have "(n * step + step - 1) div step = n"
    using assms(1) div_mult_self2 [of step "step - 1" n] by (simp add: ac_simps)
  then show ?thesis using for_steps_rule [of Inv 0 s n step f] assms by (simp add: for_by_def ac_simps)
qed

lemma for_steps_cong:
  "(\<And>k s. k < n \<Longrightarrow> f (lo + k * step) s = g (lo + k * step) s) \<Longrightarrow> for_steps step n lo f s = for_steps step n lo g s"
proof (induction n arbitrary: lo s)
  case (Suc n)
  have "f lo s = g lo s" using Suc.prems [of 0] by simp
  moreover have "for_steps step n (lo + step) f s' = for_steps step n (lo + step) g s'" for s'
    by (rule Suc.IH) (use Suc.prems [of "Suc k" for k] in \<open>simp add: ac_simps\<close>)
  ultimately show ?case by (simp cong: sum.case_cong add: res_bind_def)
qed simp

lemma for_loop_empty [simp]: "hi \<le> lo \<Longrightarrow> for_loop lo hi f s = Inr s"
  by (simp add: for_loop_def)

lemma for_loop_step: "lo < hi \<Longrightarrow> for_loop lo hi f s = res_bind (f lo s) (for_loop (Suc lo) hi f)"
  by (cases hi) (simp_all add: for_loop_def [abs_def] Suc_diff_le less_Suc_eq_le)

lemma for_loop_fold:
  assumes "\<And>i s. lo \<le> i \<Longrightarrow> i < hi \<Longrightarrow> f i s = Inr (g s i)"
  shows "for_loop lo hi f s = Inr (foldl g s [lo..<hi])"
proof (cases "lo \<le> hi")
  case True
  then show ?thesis
    using for_loop_rule [of lo hi "\<lambda>i t. t = foldl g s [lo..<i]" s f] assms by auto
qed (simp add: for_loop_def)

subsection \<open>Arrays\<close>

definition arr_read :: "'f list \<Rightarrow> nat \<Rightarrow> 'f res" where
  "arr_read xs i = (if i < length xs then Inr (xs ! i) else Inl OutOfBounds)"

definition arr_write :: "'f list \<Rightarrow> nat \<Rightarrow> 'f \<Rightarrow> 'f list res" where
  "arr_write xs i x = (if i < length xs then Inr (xs[i := x]) else Inl OutOfBounds)"

text \<open>An unaligned load of \<open>n\<close> lanes.\<close>

definition load_lanes :: "nat \<Rightarrow> 'f list \<Rightarrow> nat \<Rightarrow> 'f list res" where
  "load_lanes n xs i = (if i + n \<le> length xs then Inr (take n (drop i xs)) else Inl OutOfBounds)"

lemma arr_read_in [simp]: "i < length xs \<Longrightarrow> arr_read xs i = Inr (xs ! i)"
  by (simp add: arr_read_def)

lemma arr_write_in [simp]: "i < length xs \<Longrightarrow> arr_write xs i x = Inr (xs[i := x])"
  by (simp add: arr_write_def)

lemma load_lanes_in: "i + n \<le> length xs \<Longrightarrow> load_lanes n xs i = Inr (map (\<lambda>l. xs ! (i + l)) [0..<n])"
  by (auto simp: load_lanes_def intro: nth_equalityI)

text \<open>Position \<open>(i, j)\<close> of a matrix with \<open>n\<close> columns.\<close>

lemma index_bound:
  fixes i j m n :: nat
  assumes "i < m" "j < n"
  shows "i * n + j < m * n"
proof -
  have "i * n + j < i * n + n" using assms(2) by simp
  also have "\<dots> \<le> m * n" using mult_le_mono1 [of "Suc i" m n] assms(1) by simp
  finally show ?thesis .
qed

lemma index_inject:
  fixes i j i' j' n :: nat
  assumes "j < n" "j' < n"
  shows "i * n + j = i' * n + j' \<longleftrightarrow> i = i' \<and> j = j'"
proof
  assume e: "i * n + j = i' * n + j'"
  have "(i * n + j) div n = i" "(i' * n + j') div n = i'" using assms by simp_all
  then show "i = i' \<and> j = j'" using e by simp
qed simp

subsection \<open>Float operations\<close>

record 'f fops =
  f_zero :: 'f
  f_one :: 'f
  f_add :: "'f \<Rightarrow> 'f \<Rightarrow> 'f"
  f_sub :: "'f \<Rightarrow> 'f \<Rightarrow> 'f"
  f_mul :: "'f \<Rightarrow> 'f \<Rightarrow> 'f"
  f_div :: "'f \<Rightarrow> 'f \<Rightarrow> 'f"
  f_sqrt :: "'f \<Rightarrow> 'f"
  f_min :: "'f \<Rightarrow> 'f \<Rightarrow> 'f"
  f_max :: "'f \<Rightarrow> 'f \<Rightarrow> 'f"
  f_abs :: "'f \<Rightarrow> 'f"
  f_le :: "'f \<Rightarrow> 'f \<Rightarrow> bool"
  f_fma :: "'f \<Rightarrow> 'f \<Rightarrow> 'f \<Rightarrow> 'f"
  f_of_nat :: "nat \<Rightarrow> 'f"

definition real_ops :: "real fops" where
  "real_ops = \<lparr>f_zero = 0, f_one = 1, f_add = (+), f_sub = (-), f_mul = (*), f_div = (/), f_sqrt = sqrt,
     f_min = min, f_max = max, f_abs = abs, f_le = (\<le>), f_fma = (\<lambda>a b c. a * b + c), f_of_nat = real\<rparr>"

lemma real_ops_simps [simp]:
  "f_zero real_ops = 0" "f_one real_ops = 1" "f_add real_ops = (+)" "f_sub real_ops = (-)" "f_mul real_ops = (*)"
  "f_div real_ops = (/)" "f_sqrt real_ops = sqrt" "f_min real_ops = min" "f_max real_ops = max" "f_abs real_ops = abs"
  "f_le real_ops = (\<le>)" "f_fma real_ops a b c = a * b + c" "f_of_nat real_ops = real"
  by (simp_all add: real_ops_def)

text \<open>
  The horizontal sums of \<^verbatim>\<open>include/libromano/simd.h\<close>, with the order of the additions of their shuffles.
\<close>

definition mm_hsum_ps :: "'f fops \<Rightarrow> 'f list \<Rightarrow> 'f" where
  "mm_hsum_ps R x =
     (let shuf = [x ! 1, x ! 0, x ! 3, x ! 2];
          s = map2 (f_add R) x shuf;
          shuf = [s ! 2, s ! 3, shuf ! 2, shuf ! 3]
      in f_add R (s ! 0) (shuf ! 0))"

definition mm_hadd_ps :: "'f fops \<Rightarrow> 'f list \<Rightarrow> 'f list" where
  "mm_hadd_ps R x = [f_add R (x ! 0) (x ! 1), f_add R (x ! 2) (x ! 3), f_add R (x ! 0) (x ! 1), f_add R (x ! 2) (x ! 3)]"

definition mm256_hsum_ps :: "'f fops \<Rightarrow> 'f list \<Rightarrow> 'f" where
  "mm256_hsum_ps R x =
     (let hi = drop 4 x; lo = take 4 x;
          sum = map2 (f_add R) hi lo;
          sum = mm_hadd_ps R sum;
          sum = mm_hadd_ps R sum
      in sum ! 0)"

lemma length4: "length x = 4 \<Longrightarrow> \<exists>a b c d. x = [a, b, c, d]"
  by (auto simp: numeral_eq_Suc length_Suc_conv)

lemma length8: "length x = 8 \<Longrightarrow> \<exists>a b c d e f g h. x = [a, b, c, d, e, f, g, h]"
  by (auto simp: numeral_eq_Suc length_Suc_conv)

lemma mm_hsum_real: "length x = 4 \<Longrightarrow> mm_hsum_ps real_ops x = sum_list x"
  by (auto dest!: length4 simp: mm_hsum_ps_def Let_def)

lemma mm256_hsum_real: "length x = 8 \<Longrightarrow> mm256_hsum_ps real_ops x = sum_list x"
  by (auto dest!: length8 simp: mm256_hsum_ps_def mm_hadd_ps_def Let_def)

text \<open>A block of lanes that is multiplied and added to an accumulator.\<close>

definition fma_lanes :: "'f fops \<Rightarrow> 'f list \<Rightarrow> 'f list \<Rightarrow> 'f list \<Rightarrow> 'f list" where
  "fma_lanes R a b c = map2 (\<lambda>p z. f_fma R (fst p) (snd p) z) (zip a b) c"

end
