(* ===== verification/Linalg.thy ===== *)
theory Linalg
  imports FloatOps
begin

text \<open>
  The matrices of \<^verbatim>\<open>math_linalg32.c\<close> over any arithmetic of floats: construction and access,
  transposition, the three multiplication kernels, scalar operations, and the Cholesky
  decomposition and solver. Entries lie row by row in an array whose accesses are checked. The
  dimensions are natural numbers: an allocation is at most \<open>2 ^ 31\<close> entries, since the product
  of the dimensions is computed in \<^verbatim>\<open>int\<close>, so no index wraps around. Different arguments are
  different matrices.
\<close>

subsection \<open>Construction and access\<close>

record 'f matrixf =
  mf_data :: "'f list option"
  mf_N :: nat
  mf_M :: nat

definition matrix_null :: "'f matrixf" where
  "matrix_null = \<lparr>mf_data = None, mf_N = 0, mf_M = 0\<rparr>"

definition matrix_data :: "'f matrixf \<Rightarrow> 'f list res" where
  "matrix_data A = (case mf_data A of None \<Rightarrow> Inl NullDeref | Some d \<Rightarrow> Inr d)"

definition matrixf_create :: "bool \<Rightarrow> (nat \<Rightarrow> 'f) \<Rightarrow> nat \<Rightarrow> nat \<Rightarrow> 'f matrixf res" where
  "matrixf_create ok junk m n =
     (if m * n \<ge> 2 ^ 31 then Inl SignedOverflow
      else Inr \<lparr>mf_data = (if ok then Some (map junk [0..<m * n]) else None), mf_N = n, mf_M = m\<rparr>)"

definition matrixf_copy :: "bool \<Rightarrow> 'f matrixf \<Rightarrow> 'f matrixf res" where
  "matrixf_copy ok A =
     res_bind (matrix_data A) (\<lambda>d.
       if \<not> ok then Inl NullDeref
       else if length d < mf_M A * mf_N A then Inl OutOfBounds
       else Inr \<lparr>mf_data = Some (take (mf_M A * mf_N A) d), mf_N = mf_N A, mf_M = mf_M A\<rparr>)"

text \<open>The two results, or nothing written for a matrix without data.\<close>

definition matrixf_size :: "'f matrixf \<Rightarrow> (nat \<times> nat) option" where
  "matrixf_size A = (if mf_data A \<noteq> None then Some (mf_M A, mf_N A) else None)"

definition matrixf_resize :: "bool \<Rightarrow> (nat \<Rightarrow> 'f) \<Rightarrow> 'f matrixf \<Rightarrow> nat \<Rightarrow> nat \<Rightarrow> 'f matrixf res" where
  "matrixf_resize ok junk A m n =
     (if m * n \<ge> 2 ^ 31 then Inl SignedOverflow
      else Inr (A\<lparr>mf_data := (if ok then Some (map junk [0..<m * n]) else None), mf_M := m, mf_N := n\<rparr>))"

definition matrixf_row_size :: "'f matrixf \<Rightarrow> nat" where
  "matrixf_row_size A = (if mf_data A \<noteq> None then mf_M A else 0)"

definition matrixf_column_size :: "'f matrixf \<Rightarrow> nat" where
  "matrixf_column_size A = (if mf_data A \<noteq> None then mf_N A else 0)"

definition matrixf_set_at :: "'f matrixf \<Rightarrow> 'f \<Rightarrow> nat \<Rightarrow> nat \<Rightarrow> 'f matrixf res" where
  "matrixf_set_at A x i j =
     res_bind (matrix_data A) (\<lambda>d. res_bind (arr_write d (i * mf_N A + j) x) (\<lambda>d. Inr (A\<lparr>mf_data := Some d\<rparr>)))"

definition matrixf_get_at :: "'f matrixf \<Rightarrow> nat \<Rightarrow> nat \<Rightarrow> 'f res" where
  "matrixf_get_at A i j = res_bind (matrix_data A) (\<lambda>d. arr_read d (i * mf_N A + j))"

definition matrixf_trace :: "'f fops \<Rightarrow> 'f matrixf \<Rightarrow> 'f res" where
  "matrixf_trace R A =
     (if mf_M A \<noteq> mf_N A then Inr (f_zero R)
      else for_loop 0 (mf_M A) (\<lambda>i t. res_bind (matrix_data A) (\<lambda>d.
             res_bind (arr_read d (i * mf_M A + i)) (\<lambda>x. Inr (f_add R t x)))) (f_zero R))"

definition matrixf_zero :: "'f fops \<Rightarrow> 'f matrixf \<Rightarrow> 'f matrixf res" where
  "matrixf_zero R A =
     res_bind (matrix_data A) (\<lambda>d.
       if length d < mf_M A * mf_N A then Inl OutOfBounds
       else Inr (A\<lparr>mf_data := Some (replicate (mf_M A * mf_N A) (f_zero R) @ drop (mf_M A * mf_N A) d)\<rparr>))"

definition matrixf_destroy :: "'f matrixf \<Rightarrow> 'f matrixf" where
  "matrixf_destroy A = (if mf_data A \<noteq> None then A\<lparr>mf_data := None\<rparr> else A)"

subsection \<open>Transposition\<close>

definition swap_entries :: "nat \<Rightarrow> nat \<Rightarrow> 'f list \<Rightarrow> 'f list res" where
  "swap_entries p q d =
     res_bind (arr_read d p) (\<lambda>tmp. res_bind (arr_read d q) (\<lambda>y.
     res_bind (arr_write d p y) (\<lambda>d. arr_write d q tmp)))"

definition matrixf_transpose :: "bool \<Rightarrow> (nat \<Rightarrow> 'f) \<Rightarrow> 'f matrixf \<Rightarrow> 'f matrixf res" where
  "matrixf_transpose ok junk A =
     (let m = mf_M A; n = mf_N A in
      if m = n then
        res_bind (matrix_data A) (\<lambda>d.
        res_bind (for_loop 0 m (\<lambda>i. for_loop 0 n (\<lambda>j. swap_entries (i * m + j) (j * m + i))) d) (\<lambda>d.
          Inr (A\<lparr>mf_data := Some d, mf_M := m, mf_N := n\<rparr>)))
      else if \<not> ok then Inr A
      else
        res_bind (matrix_data A) (\<lambda>d.
        res_bind (for_loop 0 m (\<lambda>i. for_loop 0 n (\<lambda>j new_data.
            res_bind (arr_read d (i * n + j)) (\<lambda>x. arr_write new_data (j * m + i) x))) (map junk [0..<n * m])) (\<lambda>d.
          Inr (A\<lparr>mf_data := Some d, mf_M := m, mf_N := n\<rparr>))))"

definition matrixf_transpose_from :: "bool \<Rightarrow> (nat \<Rightarrow> 'f) \<Rightarrow> 'f matrixf \<Rightarrow> 'f matrixf res" where
  "matrixf_transpose_from ok junk A =
     (let m = mf_M A; n = mf_N A in
      res_bind (matrixf_create ok junk n m) (\<lambda>r.
      res_bind (matrix_data r) (\<lambda>rd.
      res_bind (matrix_data A) (\<lambda>d.
      res_bind (for_loop 0 m (\<lambda>i. for_loop 0 n (\<lambda>j rd.
          res_bind (arr_read d (j * m + i)) (\<lambda>x. arr_write rd (i * n + j) x))) rd) (\<lambda>rd.
        Inr (r\<lparr>mf_data := Some rd\<rparr>))))))"

subsection \<open>Multiplication\<close>

text \<open>The sum of the products of row \<open>i\<close> of \<open>A\<close> and row \<open>j\<close> of \<open>B\<close> from column \<open>lo\<close> on, added to \<open>start\<close>.\<close>

definition dot_rows :: "'f fops \<Rightarrow> 'f list \<Rightarrow> 'f list \<Rightarrow> nat \<Rightarrow> nat \<Rightarrow> nat \<Rightarrow> nat \<Rightarrow> 'f \<Rightarrow> 'f res" where
  "dot_rows R A B n i j lo start =
     for_loop lo n (\<lambda>k sum. res_bind (arr_read A (i * n + k)) (\<lambda>a. res_bind (arr_read B (j * n + k)) (\<lambda>b.
       Inr (f_add R sum (f_mul R a b))))) start"

definition matrixf_mul_scalar :: "'f fops \<Rightarrow> 'f list \<Rightarrow> 'f list \<Rightarrow> 'f list \<Rightarrow> nat \<Rightarrow> nat \<Rightarrow> nat \<Rightarrow> 'f list res" where
  "matrixf_mul_scalar R A B C m n p =
     for_loop 0 m (\<lambda>i. for_loop 0 p (\<lambda>j C.
       res_bind (dot_rows R A B n i j 0 (f_zero R)) (\<lambda>sum. arr_write C (i * p + j) sum))) C"

text \<open>
  The vector kernels, for \<open>w\<close> lanes and their horizontal sum: four rows at a time, then the rows
  that are left over, each with a block loop and a loop over the last columns.
\<close>

definition lanes_block4 ::
  "'f fops \<Rightarrow> nat \<Rightarrow> 'f list \<Rightarrow> 'f list \<Rightarrow> nat \<Rightarrow> nat \<Rightarrow> nat \<Rightarrow> nat \<Rightarrow> ('f list \<times> 'f list \<times> 'f list \<times> 'f list) res" where
  "lanes_block4 R w A B n n_blocks i j =
     for_by w 0 n_blocks (\<lambda>k (s1, s2, s3, s4).
       res_bind (load_lanes w A (i * n + k)) (\<lambda>a1.
       res_bind (load_lanes w A ((i + 1) * n + k)) (\<lambda>a2.
       res_bind (load_lanes w A ((i + 2) * n + k)) (\<lambda>a3.
       res_bind (load_lanes w A ((i + 3) * n + k)) (\<lambda>a4.
       res_bind (load_lanes w B (j * n + k)) (\<lambda>b.
         Inr (fma_lanes R a1 b s1, fma_lanes R a2 b s2, fma_lanes R a3 b s3, fma_lanes R a4 b s4)))))))
       (replicate w (f_zero R), replicate w (f_zero R), replicate w (f_zero R), replicate w (f_zero R))"

definition lanes_rest4 ::
  "'f fops \<Rightarrow> 'f list \<Rightarrow> 'f list \<Rightarrow> nat \<Rightarrow> nat \<Rightarrow> nat \<Rightarrow> nat \<Rightarrow> 'f \<times> 'f \<times> 'f \<times> 'f \<Rightarrow> ('f \<times> 'f \<times> 'f \<times> 'f) res" where
  "lanes_rest4 R A B n n_blocks i j =
     for_loop n_blocks n (\<lambda>k (s1, s2, s3, s4).
       res_bind (arr_read A (i * n + k)) (\<lambda>a1.
       res_bind (arr_read A ((i + 1) * n + k)) (\<lambda>a2.
       res_bind (arr_read A ((i + 2) * n + k)) (\<lambda>a3.
       res_bind (arr_read A ((i + 3) * n + k)) (\<lambda>a4.
       res_bind (arr_read B (j * n + k)) (\<lambda>b.
         Inr (f_add R s1 (f_mul R a1 b), f_add R s2 (f_mul R a2 b), f_add R s3 (f_mul R a3 b), f_add R s4 (f_mul R a4 b))))))))"

definition lanes_row ::
  "'f fops \<Rightarrow> nat \<Rightarrow> ('f list \<Rightarrow> 'f) \<Rightarrow> 'f list \<Rightarrow> 'f list \<Rightarrow> nat \<Rightarrow> nat \<Rightarrow> nat \<Rightarrow> nat \<Rightarrow> 'f res" where
  "lanes_row R w hsum A B n n_blocks i j =
     res_bind (for_by w 0 n_blocks (\<lambda>k s.
       res_bind (load_lanes w A (i * n + k)) (\<lambda>a. res_bind (load_lanes w B (j * n + k)) (\<lambda>b.
         Inr (fma_lanes R a b s)))) (replicate w (f_zero R)))
     (\<lambda>s. dot_rows R A B n i j n_blocks (hsum s))"

definition matrixf_mul_lanes ::
  "'f fops \<Rightarrow> nat \<Rightarrow> ('f list \<Rightarrow> 'f) \<Rightarrow> 'f list \<Rightarrow> 'f list \<Rightarrow> 'f list \<Rightarrow> nat \<Rightarrow> nat \<Rightarrow> nat \<Rightarrow> 'f list res" where
  "matrixf_mul_lanes R w hsum A B C m n p =
     (let m_blocks = m - m mod 4; n_blocks = n - n mod w in
      res_bind (for_by 4 0 m_blocks (\<lambda>i. for_loop 0 p (\<lambda>j C.
        res_bind (lanes_block4 R w A B n n_blocks i j) (\<lambda>(v1, v2, v3, v4).
        res_bind (lanes_rest4 R A B n n_blocks i j (hsum v1, hsum v2, hsum v3, hsum v4)) (\<lambda>(s1, s2, s3, s4).
        res_bind (arr_write C (i * p + j) s1) (\<lambda>C.
        res_bind (arr_write C ((i + 1) * p + j) s2) (\<lambda>C.
        res_bind (arr_write C ((i + 2) * p + j) s3) (\<lambda>C.
        arr_write C ((i + 3) * p + j) s4))))))) C) (\<lambda>C.
      for_loop m_blocks m (\<lambda>i. for_loop 0 p (\<lambda>j C.
        res_bind (lanes_row R w hsum A B n n_blocks i j) (\<lambda>sum. arr_write C (i * p + j) sum))) C))"

definition matrixf_mul_sse :: "'f fops \<Rightarrow> 'f list \<Rightarrow> 'f list \<Rightarrow> 'f list \<Rightarrow> nat \<Rightarrow> nat \<Rightarrow> nat \<Rightarrow> 'f list res" where
  "matrixf_mul_sse R = matrixf_mul_lanes R 4 (mm_hsum_ps R)"

definition matrixf_mul_avx2 :: "'f fops \<Rightarrow> 'f list \<Rightarrow> 'f list \<Rightarrow> 'f list \<Rightarrow> nat \<Rightarrow> nat \<Rightarrow> nat \<Rightarrow> 'f list res" where
  "matrixf_mul_avx2 R = matrixf_mul_lanes R 8 (mm256_hsum_ps R)"

text \<open>The table of kernels has three entries; a vectorization mode can be up to 4.\<close>

definition matmul_funcs ::
  "'f fops \<Rightarrow> nat \<Rightarrow> ('f list \<Rightarrow> 'f list \<Rightarrow> 'f list \<Rightarrow> nat \<Rightarrow> nat \<Rightarrow> nat \<Rightarrow> 'f list res) res" where
  "matmul_funcs R mode =
     arr_read [matrixf_mul_scalar R, matrixf_mul_sse R, matrixf_mul_avx2 R] mode"

definition matrixf_mul ::
  "'f fops \<Rightarrow> nat \<Rightarrow> bool \<Rightarrow> (nat \<Rightarrow> 'f) \<Rightarrow> 'f matrixf \<Rightarrow> 'f matrixf \<Rightarrow> 'f matrixf \<Rightarrow> 'f matrixf res" where
  "matrixf_mul R mode ok junk A B C =
     (let m = mf_M A; n = mf_N A; p = mf_N B in
      res_bind (matrixf_resize ok junk C m p) (\<lambda>C.
      res_bind (matrixf_zero R C) (\<lambda>C.
      res_bind (matrix_data A) (\<lambda>a.
      res_bind (matrix_data C) (\<lambda>c.
        if m \<ge> 8 then
          res_bind (matrixf_transpose_from ok junk B) (\<lambda>B_t.
          res_bind (matrix_data B_t) (\<lambda>b.
          res_bind (matmul_funcs R mode) (\<lambda>func.
          res_bind (func a b c m n p) (\<lambda>c. Inr (C\<lparr>mf_data := Some c\<rparr>)))))
        else
          res_bind (matrix_data B) (\<lambda>b.
          res_bind (matrixf_mul_scalar R a b c m n p) (\<lambda>c. Inr (C\<lparr>mf_data := Some c\<rparr>))))))))"

subsection \<open>Operations with a scalar\<close>

definition each_entry :: "('f \<Rightarrow> 'f) \<Rightarrow> 'f matrixf \<Rightarrow> 'f matrixf res" where
  "each_entry g A =
     for_loop 0 (mf_M A) (\<lambda>i. for_loop 0 (mf_N A) (\<lambda>j A.
       res_bind (matrix_data A) (\<lambda>d. res_bind (arr_read d (i * mf_N A + j)) (\<lambda>x.
       res_bind (arr_write d (i * mf_N A + j) (g x)) (\<lambda>d. Inr (A\<lparr>mf_data := Some d\<rparr>)))))) A"

definition matrixf_add_f :: "'f fops \<Rightarrow> 'f matrixf \<Rightarrow> 'f \<Rightarrow> 'f matrixf res" where
  "matrixf_add_f R A f = each_entry (\<lambda>x. f_add R x f) A"

definition matrixf_sub_f :: "'f fops \<Rightarrow> 'f matrixf \<Rightarrow> 'f \<Rightarrow> 'f matrixf res" where
  "matrixf_sub_f R A f = each_entry (\<lambda>x. f_sub R x f) A"

definition matrixf_mul_by_f :: "'f fops \<Rightarrow> 'f matrixf \<Rightarrow> 'f \<Rightarrow> 'f matrixf res" where
  "matrixf_mul_by_f R A f = each_entry (\<lambda>x. f_mul R x f) A"

definition matrixf_div_by_f :: "'f fops \<Rightarrow> 'f matrixf \<Rightarrow> 'f \<Rightarrow> 'f matrixf res" where
  "matrixf_div_by_f R A f = each_entry (\<lambda>x. f_div R x f) A"

subsection \<open>Cholesky decomposition\<close>

definition dot_upto :: "'f fops \<Rightarrow> 'f list \<Rightarrow> nat \<Rightarrow> nat \<Rightarrow> nat \<Rightarrow> 'f res" where
  "dot_upto R L n i j =
     for_loop 0 j (\<lambda>k sum. res_bind (arr_read L (i * n + k)) (\<lambda>a. res_bind (arr_read L (j * n + k)) (\<lambda>b.
       Inr (f_add R sum (f_mul R a b))))) (f_zero R)"

text \<open>
  The entries of \<open>L\<close> in row \<open>i\<close>, column by column; \<open>False\<close> stops the loops, as \<^verbatim>\<open>return false\<close> does.
\<close>

definition cholesky_entry :: "'f fops \<Rightarrow> 'f list \<Rightarrow> nat \<Rightarrow> nat \<Rightarrow> nat \<Rightarrow> bool \<times> 'f list \<Rightarrow> (bool \<times> 'f list) res" where
  "cholesky_entry R a n i j state = (case state of (going, L) \<Rightarrow>
     if \<not> going then Inr (going, L)
     else
       res_bind (dot_upto R L n i j) (\<lambda>sum.
       if i = j then
         res_bind (arr_read a (i * n + i)) (\<lambda>x.
           let tmp = f_sub R x sum in
           if f_le R tmp (f_zero R) then Inr (False, L)
           else res_bind (arr_write L (i * n + j) (f_sqrt R tmp)) (\<lambda>L. Inr (True, L)))
       else
         res_bind (arr_read a (j * n + j)) (\<lambda>_.
         res_bind (arr_read L (j * n + j)) (\<lambda>l.
         res_bind (arr_read a (i * n + j)) (\<lambda>x.
           let y = f_mul R (f_div R (f_one R) l) (f_sub R x sum)
           in res_bind (arr_write L (i * n + j) y) (\<lambda>L. Inr (True, L)))))))"

definition matrixf_cholesky_decomposition ::
  "'f fops \<Rightarrow> bool \<Rightarrow> (nat \<Rightarrow> 'f) \<Rightarrow> 'f matrixf \<Rightarrow> 'f matrixf \<Rightarrow> (bool \<times> 'f matrixf) res" where
  "matrixf_cholesky_decomposition R ok junk A L =
     (let n = mf_N A in
      if mf_M A \<noteq> mf_N A then Inr (False, L)
      else
        res_bind (matrixf_resize ok junk L n n) (\<lambda>L.
        res_bind (matrixf_zero R L) (\<lambda>L.
        res_bind (matrix_data A) (\<lambda>a.
        res_bind (matrix_data L) (\<lambda>l.
        res_bind (for_loop 0 n (\<lambda>i. for_loop 0 (i + 1) (cholesky_entry R a n i)) (True, l)) (\<lambda>(going, l).
          Inr (going, L\<lparr>mf_data := Some l\<rparr>)))))))"

definition forward_entry :: "'f fops \<Rightarrow> 'f list \<Rightarrow> 'f list \<Rightarrow> nat \<Rightarrow> nat \<Rightarrow> nat \<Rightarrow> nat \<Rightarrow> 'f list \<Rightarrow> 'f list res" where
  "forward_entry R L b n b_n i j y =
     res_bind (arr_read b (j * b_n + i)) (\<lambda>tmp.
     res_bind (arr_write y (j * b_n + i) tmp) (\<lambda>y.
     res_bind (for_loop 0 j (\<lambda>k y.
         res_bind (arr_read y (j * b_n + i)) (\<lambda>u. res_bind (arr_read L (j * n + k)) (\<lambda>l.
         res_bind (arr_read y (k * b_n + i)) (\<lambda>v.
           arr_write y (j * b_n + i) (f_sub R u (f_mul R l v)))))) y) (\<lambda>y.
     res_bind (arr_read y (j * b_n + i)) (\<lambda>u. res_bind (arr_read L (j * n + j)) (\<lambda>l.
       arr_write y (j * b_n + i) (f_div R u l))))))"

definition backward_entry :: "'f fops \<Rightarrow> 'f list \<Rightarrow> 'f list \<Rightarrow> nat \<Rightarrow> nat \<Rightarrow> nat \<Rightarrow> nat \<Rightarrow> 'f list \<Rightarrow> 'f list res" where
  "backward_entry R L y n b_n i j2 x =
     res_bind (for_loop (j2 + 1) n (\<lambda>k sum.
         res_bind (arr_read L (j2 * n + k)) (\<lambda>l. res_bind (arr_read x (k * b_n + i)) (\<lambda>v.
           Inr (f_add R sum (f_mul R l v))))) (f_zero R)) (\<lambda>sum.
     res_bind (arr_read y (j2 * b_n + i)) (\<lambda>u. res_bind (arr_read L (j2 * n + j2)) (\<lambda>l.
       arr_write x (j2 * b_n + i) (f_div R (f_sub R u sum) l))))"

definition matrixf_cholesky_solve ::
  "'f fops \<Rightarrow> bool \<Rightarrow> (nat \<Rightarrow> 'f) \<Rightarrow> 'f matrixf \<Rightarrow> 'f matrixf \<Rightarrow> 'f matrixf \<Rightarrow> (bool \<times> 'f matrixf) res" where
  "matrixf_cholesky_solve R ok junk A b x =
     (let n = mf_N A; b_m = mf_M b; b_n = mf_N b in
      if mf_M A \<noteq> mf_N A then Inr (False, x)
      else
        res_bind (matrixf_cholesky_decomposition R ok junk A matrix_null) (\<lambda>(found, L).
          if \<not> found then Inr (False, x)
          else
            res_bind (matrixf_create ok junk b_m b_n) (\<lambda>y.
            res_bind (matrix_data L) (\<lambda>l.
            res_bind (matrix_data b) (\<lambda>bd.
            res_bind (matrix_data y) (\<lambda>yd.
            res_bind (for_loop 0 b_n (\<lambda>i. for_loop 0 n (forward_entry R l bd n b_n i)) yd) (\<lambda>yd.
            res_bind (matrixf_resize ok junk x b_m b_n) (\<lambda>x.
            res_bind (matrixf_transpose ok junk L) (\<lambda>L.
            res_bind (matrix_data L) (\<lambda>l.
            res_bind (matrix_data x) (\<lambda>xd.
            res_bind (for_loop 0 b_n (\<lambda>i. for_loop 0 n (\<lambda>r. backward_entry R l yd n b_n i (n - 1 - r))) xd) (\<lambda>xd.
              Inr (True, x\<lparr>mf_data := Some xd\<rparr>)))))))))))))"

end
