(* ===== verification/LinalgSpec.thy ===== *)
theory LinalgSpec
  imports Linalg
begin

text \<open>
  What the matrix operations compute: the entries of a product as sums of products, the vector
  kernels against the scalar one in exact arithmetic, the transpositions entry by entry, and the
  Cholesky factor as a triangular root of the matrix.
\<close>

subsection \<open>Matrices by their entries\<close>

definition matrix_of :: "nat \<Rightarrow> nat \<Rightarrow> (nat \<Rightarrow> nat \<Rightarrow> 'f) \<Rightarrow> 'f list" where
  "matrix_of m n g = map (\<lambda>x. g (x div n) (x mod n)) [0..<m * n]"

lemma length_matrix_of [simp]: "length (matrix_of m n g) = m * n"
  by (simp add: matrix_of_def)

lemma nth_matrix_of [simp]: "i < m \<Longrightarrow> j < n \<Longrightarrow> matrix_of m n g ! (i * n + j) = g i j"
  by (simp add: matrix_of_def index_bound)

lemma matrix_of_eqI:
  assumes "length d = m * n" "\<And>i j. i < m \<Longrightarrow> j < n \<Longrightarrow> d ! (i * n + j) = g i j"
  shows "d = matrix_of m n g"
proof (rule nth_equalityI)
  show "length d = length (matrix_of m n g)" using assms(1) by simp
  fix x assume x: "x < length d"
  then have n: "0 < n" and "x div n < m" using assms(1) by (auto simp: less_mult_imp_div_less intro: ccontr)
  then show "d ! x = matrix_of m n g ! x"
    using assms(2) [of "x div n" "x mod n"] x assms(1) by (simp add: matrix_of_def)
qed

lemma matrix_of_entries: "length d = m * n \<Longrightarrow> matrix_of m n (\<lambda>i j. d ! (i * n + j)) = d"
  by (rule matrix_of_eqI [symmetric]) simp_all

text \<open>A loop over all entries that writes each one once.\<close>

lemma fill_loop:
  assumes "length C = m * p"
    and "\<And>i j D. i < m \<Longrightarrow> j < p \<Longrightarrow> length D = m * p \<Longrightarrow> body i j D = Inr (D[i * p + j := g i j])"
  shows "for_loop 0 m (\<lambda>i. for_loop 0 p (body i)) C = Inr (matrix_of m p g)"
proof -
  define Inv where "Inv = (\<lambda>x D. length D = m * p \<and> (\<forall>i < m. \<forall>j < p. i * p + j < x \<longrightarrow> D ! (i * p + j) = g i j))"
  have inner: "\<exists>D'. body i j D = Inr D' \<and> Inv (i * p + Suc j) D'" if "i < m" "j < p" "Inv (i * p + j) D" for i j D
    using that assms(2) [OF that(1,2), of D] index_bound [OF that(1,2)]
    by (auto simp: Inv_def nth_list_update index_inject less_Suc_eq)
  have row: "\<exists>D'. for_loop 0 p (body i) D = Inr D' \<and> Inv (Suc i * p) D'" if "i < m" "Inv (i * p) D" for i D
    using for_loop_rule [of 0 p "\<lambda>j. Inv (i * p + j)" D "body i"] inner [OF that(1)] that(2) by (simp add: add.commute)
  have "\<exists>D. for_loop 0 m (\<lambda>i. for_loop 0 p (body i)) C = Inr D \<and> Inv (m * p) D"
    by (rule for_loop_rule [where Inv = "\<lambda>i. Inv (i * p)"]) (use row assms(1) in \<open>auto simp: Inv_def\<close>)
  then obtain D where "for_loop 0 m (\<lambda>i. for_loop 0 p (body i)) C = Inr D" "Inv (m * p) D" by blast
  moreover from this(2) have "D = matrix_of m p g"
    by (intro matrix_of_eqI) (auto simp: Inv_def index_bound)
  ultimately show ?thesis by simp
qed

subsection \<open>Products\<close>

text \<open>The product of row \<open>i\<close> of \<open>A\<close> and row \<open>j\<close> of \<open>B\<close>, in the order of the scalar kernel.\<close>

definition row_product :: "'f fops \<Rightarrow> 'f list \<Rightarrow> 'f list \<Rightarrow> nat \<Rightarrow> nat \<Rightarrow> nat \<Rightarrow> 'f" where
  "row_product R A B n i j = foldl (\<lambda>s k. f_add R s (f_mul R (A ! (i * n + k)) (B ! (j * n + k)))) (f_zero R) [0..<n]"

lemma dot_rows_fold:
  assumes "i < m" "j < p" "m * n \<le> length A" "p * n \<le> length B"
  shows "dot_rows R A B n i j lo s
    = Inr (foldl (\<lambda>s k. f_add R s (f_mul R (A ! (i * n + k)) (B ! (j * n + k)))) s [lo..<n])"
  unfolding dot_rows_def
proof (rule for_loop_fold)
  fix k s assume "k < n"
  then have "i * n + k < length A" "j * n + k < length B"
    using index_bound [OF assms(1)] index_bound [OF assms(2)] assms(3,4) by (meson less_le_trans)+
  then show "res_bind (arr_read A (i * n + k)) (\<lambda>a. res_bind (arr_read B (j * n + k)) (\<lambda>b. Inr (f_add R s (f_mul R a b))))
      = Inr (f_add R s (f_mul R (A ! (i * n + k)) (B ! (j * n + k))))"
    by simp
qed

lemma mul_scalar_entries:
  assumes "m * n \<le> length A" "p * n \<le> length B" "length C = m * p"
  shows "matrixf_mul_scalar R A B C m n p = Inr (matrix_of m p (row_product R A B n))"
  unfolding matrixf_mul_scalar_def
  by (rule fill_loop [OF assms(3)])
    (use assms in \<open>simp add: dot_rows_fold [where m = m and p = p] row_product_def [symmetric] index_bound\<close>)

lemma foldl_sum: "foldl (\<lambda>s k. s + g k) (s :: real) [lo..<hi] = s + (\<Sum>k = lo..<hi. g k)"
  by (induction hi) (auto simp: sum.atLeastLessThan_Suc)

lemma row_product_real:
  "row_product real_ops A B n i j = (\<Sum>k < n. A ! (i * n + k) * B ! (j * n + k))"
  by (simp add: row_product_def foldl_sum lessThan_atLeast0)

subsection \<open>The vector kernels in exact arithmetic\<close>

lemma fma_lanes_sum:
  assumes "length a = length s" "length b = length s"
  shows "length (fma_lanes real_ops a b s) = length s \<and>
    sum_list (fma_lanes real_ops a b s) = sum_list s + (\<Sum>l < length s. a ! l * b ! l)"
  using assms
proof (induction s arbitrary: a b)
  case (Cons z s)
  then obtain x xs y ys where "a = x # xs" "b = y # ys" by (cases a; cases b) auto
  then show ?case using Cons.IH [of xs ys] Cons.prems
    by (simp add: fma_lanes_def sum.lessThan_Suc_shift del: sum.lessThan_Suc)
qed (simp add: fma_lanes_def)

text \<open>One block: the sum over the lanes moves on by the products of the block.\<close>

lemma block_step:
  assumes "length s = w" "sum_list s = (\<Sum>k < q. A ! (x + k) * B ! (y + k))"
    and "x + q + w \<le> length A" "y + q + w \<le> length B"
  shows "\<exists>a b. load_lanes w A (x + q) = Inr a \<and> load_lanes w B (y + q) = Inr b \<and> length (fma_lanes real_ops a b s) = w \<and>
    sum_list (fma_lanes real_ops a b s) = (\<Sum>k < q + w. A ! (x + k) * B ! (y + k))"
proof -
  define a b where ab: "a = map (\<lambda>l. A ! (x + q + l)) [0..<w]" "b = map (\<lambda>l. B ! (y + q + l)) [0..<w]"
  have "load_lanes w A (x + q) = Inr a" "load_lanes w B (y + q) = Inr b"
    using assms(3,4) by (simp_all add: load_lanes_in ab)
  moreover have "(\<Sum>k < q + w. A ! (x + k) * B ! (y + k))
      = (\<Sum>k < q. A ! (x + k) * B ! (y + k)) + (\<Sum>l < w. A ! (x + q + l) * B ! (y + q + l))"
    by (induction w) (simp_all add: ac_simps)
  ultimately show ?thesis
    using fma_lanes_sum [of a s b] assms(1,2) by (simp add: ab)
qed

lemma row_in_bounds:
  fixes i m n k :: nat
  assumes "i < m" "k \<le> n" "m * n \<le> len"
  shows "i * n + k \<le> len"
proof -
  have "i * n + k \<le> Suc i * n" using assms(2) by simp
  also have "\<dots> \<le> m * n" using mult_le_mono1 [of "Suc i" m n] assms(1) by simp
  finally show ?thesis using assms(3) by simp
qed

lemma lanes_row_real:
  assumes "0 < w" "\<And>x. length x = w \<Longrightarrow> hsum x = sum_list x"
    and "i < m" "j < p" "m * n \<le> length A" "p * n \<le> length B"
  shows "lanes_row real_ops w hsum A B n (n - n mod w) i j = Inr (row_product real_ops A B n i j)"
proof -
  define q where "q = n div w"
  have nb: "n - n mod w = q * w" by (simp add: q_def minus_mod_eq_div_mult)
  have qn: "q * w \<le> n" by (simp add: q_def)
  define Inv where "Inv = (\<lambda>k s. length s = w \<and> sum_list s = (\<Sum>l < k. A ! (i * n + l) * B ! (j * n + l)))"
  have "\<exists>s. for_by w 0 (q * w) (\<lambda>k s. res_bind (load_lanes w A (i * n + k)) (\<lambda>a.
      res_bind (load_lanes w B (j * n + k)) (\<lambda>b. Inr (fma_lanes real_ops a b s)))) (replicate w 0) = Inr s \<and> Inv (q * w) s"
  proof (rule for_by_rule [OF assms(1), of Inv])
    show "Inv 0 (replicate w 0)" by (simp add: Inv_def sum_list_replicate)
    fix k s assume k: "k < q" and inv: "Inv (k * w) s"
    have "k * w + w \<le> n" using qn k mult_le_mono1 [of "Suc k" q w] by simp
    then have "i * n + k * w + w \<le> length A" "j * n + k * w + w \<le> length B"
      using row_in_bounds [OF assms(3) _ assms(5), of "k * w + w"] row_in_bounds [OF assms(4) _ assms(6), of "k * w + w"]
      by (simp_all add: add.assoc)
    then show "\<exists>s'. res_bind (load_lanes w A (i * n + k * w)) (\<lambda>a.
        res_bind (load_lanes w B (j * n + k * w)) (\<lambda>b. Inr (fma_lanes real_ops a b s))) = Inr s' \<and> Inv (Suc k * w) s'"
      using block_step [of s w A "i * n" B "j * n" "k * w"] inv by (auto simp: Inv_def add.commute)
  qed
  then obtain s where s: "for_by w 0 (q * w) (\<lambda>k s. res_bind (load_lanes w A (i * n + k)) (\<lambda>a.
      res_bind (load_lanes w B (j * n + k)) (\<lambda>b. Inr (fma_lanes real_ops a b s)))) (replicate w 0) = Inr s"
    and inv: "Inv (q * w) s" by blast
  have "(\<Sum>l < n. A ! (i * n + l) * B ! (j * n + l))
      = (\<Sum>l < q * w. A ! (i * n + l) * B ! (j * n + l)) + (\<Sum>l = q * w..<n. A ! (i * n + l) * B ! (j * n + l))"
    using sum.atLeastLessThan_concat [of 0 "q * w" n "\<lambda>l. A ! (i * n + l) * B ! (j * n + l)"] qn
    by (simp add: lessThan_atLeast0)
  then show ?thesis
    using s inv assms(2) [of s]
    by (simp add: lanes_row_def nb dot_rows_fold [OF assms(3-6)] foldl_sum row_product_real Inv_def)
qed

text \<open>The four accumulators of a block of rows are the accumulators of four single rows.\<close>

lemma for_steps_four:
  assumes "\<And>k s1 s2 s3 s4. f k (s1, s2, s3, s4) = res_bind (f1 k s1) (\<lambda>r1. res_bind (f2 k s2) (\<lambda>r2. res_bind (f3 k s3) (\<lambda>r3.
      res_bind (f4 k s4) (\<lambda>r4. Inr (r1, r2, r3, r4)))))"
    and "for_steps step n lo f1 s1 = Inr r1" "for_steps step n lo f2 s2 = Inr r2"
      "for_steps step n lo f3 s3 = Inr r3" "for_steps step n lo f4 s4 = Inr r4"
  shows "for_steps step n lo f (s1, s2, s3, s4) = Inr (r1, r2, r3, r4)"
  using assms(2-)
proof (induction n arbitrary: lo s1 s2 s3 s4)
  case (Suc n)
  then show ?case by (auto simp: assms(1) res_bind_Inr_iff)
qed simp

lemma lanes_block4_rows:
  assumes "\<And>r. r < 4 \<Longrightarrow> for_by w 0 nb (\<lambda>k s. res_bind (load_lanes w A ((i + r) * n + k)) (\<lambda>a.
      res_bind (load_lanes w B (j * n + k)) (\<lambda>b. Inr (fma_lanes R a b s)))) (replicate w (f_zero R)) = Inr (v r)"
  shows "lanes_block4 R w A B n nb i j = Inr (v 0, v 1, v 2, v 3)"
  unfolding lanes_block4_def for_by_def
  by (rule for_steps_four)
    (use assms [of 0] assms [of 1] assms [of 2] assms [of 3] in \<open>simp_all add: for_by_def load_lanes_def res_bind_def\<close>)

lemma lanes_rest4_rows:
  assumes "\<And>r. r < 4 \<Longrightarrow> dot_rows R A B n (i + r) j nb (s r) = Inr (t r)"
  shows "lanes_rest4 R A B n nb i j (s 0, s 1, s 2, s 3) = Inr (t 0, t 1, t 2, t 3)"
  unfolding lanes_rest4_def for_loop_def
  by (rule for_steps_four)
    (use assms [of 0] assms [of 1] assms [of 2] assms [of 3] in \<open>simp_all add: dot_rows_def for_loop_def arr_read_def res_bind_def\<close>)

lemma four_rows_real:
  assumes w: "0 < w" "\<And>x. length x = w \<Longrightarrow> hsum x = sum_list x"
    and "i + 4 \<le> m" "j < p" "m * n \<le> length A" "p * n \<le> length B"
  shows "\<exists>v1 v2 v3 v4. lanes_block4 real_ops w A B n (n - n mod w) i j = Inr (v1, v2, v3, v4) \<and>
    lanes_rest4 real_ops A B n (n - n mod w) i j (hsum v1, hsum v2, hsum v3, hsum v4) = Inr
      (row_product real_ops A B n i j, row_product real_ops A B n (i + 1) j,
       row_product real_ops A B n (i + 2) j, row_product real_ops A B n (i + 3) j)"
proof -
  define nb where "nb = n - n mod w"
  define P where "P = (\<lambda>r s. for_by w 0 nb (\<lambda>k s. res_bind (load_lanes w A ((i + r) * n + k)) (\<lambda>a.
      res_bind (load_lanes w B (j * n + k)) (\<lambda>b. Inr (fma_lanes real_ops a b s)))) (replicate w (f_zero real_ops)) = Inr s \<and>
      dot_rows real_ops A B n (i + r) j nb (hsum s) = Inr (row_product real_ops A B n (i + r) j))"
  have "\<exists>s. P r s" if "r < 4" for r
    using lanes_row_real [OF w _ assms(4-6), where i = "i + r"] assms(3) that
    by (auto simp: P_def lanes_row_def nb_def res_bind_Inr_iff)
  then obtain v where P: "\<And>r. r < 4 \<Longrightarrow> P r (v r)" by metis
  note v = P [unfolded P_def, THEN conjunct1] P [unfolded P_def, THEN conjunct2]
  have "lanes_block4 real_ops w A B n nb i j = Inr (v 0, v 1, v 2, v 3)" by (rule lanes_block4_rows [OF v(1)])
  moreover have "lanes_rest4 real_ops A B n nb i j (hsum (v 0), hsum (v 1), hsum (v 2), hsum (v 3)) = Inr
      (row_product real_ops A B n (i + 0) j, row_product real_ops A B n (i + 1) j,
       row_product real_ops A B n (i + 2) j, row_product real_ops A B n (i + 3) j)"
    by (rule lanes_rest4_rows [where t = "\<lambda>r. row_product real_ops A B n (i + r) j" and s = "\<lambda>r. hsum (v r)", OF v(2)])
  ultimately show ?thesis by (auto simp: nb_def)
qed

text \<open>Four rows of the result, column by column.\<close>

definition rows_filled :: "nat \<Rightarrow> nat \<Rightarrow> (nat \<Rightarrow> nat \<Rightarrow> 'f) \<Rightarrow> (nat \<Rightarrow> nat \<Rightarrow> bool) \<Rightarrow> 'f list \<Rightarrow> bool" where
  "rows_filled m p g P D \<longleftrightarrow> length D = m * p \<and> (\<forall>i < m. \<forall>j < p. P i j \<longrightarrow> D ! (i * p + j) = g i j)"

lemma rows_filled_write:
  assumes "rows_filled m p g P D" "i < m" "j < p" "\<forall>i' j'. Q i' j' \<longrightarrow> P i' j' \<or> (i' = i \<and> j' = j)"
  shows "arr_write D (i * p + j) (g i j) = Inr (D[i * p + j := g i j])" "rows_filled m p g Q (D[i * p + j := g i j])"
  using assms index_bound [OF assms(2,3)] by (auto simp: rows_filled_def nth_list_update index_inject)

definition four_done :: "nat \<Rightarrow> nat \<Rightarrow> nat \<Rightarrow> nat \<Rightarrow> nat \<Rightarrow> bool" where
  "four_done i j r i' j' \<longleftrightarrow> i' < i \<or> i' < i + 4 \<and> j' < j \<or> i' < i + r \<and> j' = j"

lemma mul_lanes_real:
  assumes w: "0 < w" "\<And>x. length x = w \<Longrightarrow> hsum x = sum_list x"
    and len: "m * n \<le> length A" "p * n \<le> length B" "length C = m * p"
  shows "matrixf_mul_lanes real_ops w hsum A B C m n p = Inr (matrix_of m p (row_product real_ops A B n))"
proof -
  define g where "g = row_product real_ops A B n"
  define Inv where "Inv = (\<lambda>i. rows_filled m p g (\<lambda>i' j'. i' < i))"
  define block where "block = (\<lambda>i j C.
        res_bind (lanes_block4 real_ops w A B n (n - n mod w) i j) (\<lambda>(v1, v2, v3, v4).
        res_bind (lanes_rest4 real_ops A B n (n - n mod w) i j (hsum v1, hsum v2, hsum v3, hsum v4)) (\<lambda>(s1, s2, s3, s4).
        res_bind (arr_write C (i * p + j) s1) (\<lambda>C.
        res_bind (arr_write C ((i + 1) * p + j) s2) (\<lambda>C.
        res_bind (arr_write C ((i + 2) * p + j) s3) (\<lambda>C.
        arr_write C ((i + 3) * p + j) s4))))))"
  have blk: "\<exists>D'. block i j D = Inr D' \<and> rows_filled m p g (\<lambda>i' j'. i' < i \<or> i' < i + 4 \<and> j' < Suc j) D'"
    if ij: "i + 4 \<le> m" "j < p" and D: "rows_filled m p g (\<lambda>i' j'. i' < i \<or> i' < i + 4 \<and> j' < j) D" for i j D
  proof -
    have next4: "\<exists>E'. arr_write E ((i + r) * p + j) (g (i + r) j) = Inr E' \<and> rows_filled m p g (four_done i j (Suc r)) E'"
      if "r < 4" "rows_filled m p g (four_done i j r) E" for r E
      using rows_filled_write [OF that(2), of "i + r" j "four_done i j (Suc r)"] ij that(1)
      by (auto simp: four_done_def less_Suc_eq)
    have "rows_filled m p g (four_done i j 0) D" using D by (auto simp: rows_filled_def four_done_def)
    then obtain D1 where 1: "arr_write D (i * p + j) (g i j) = Inr D1" "rows_filled m p g (four_done i j 1) D1"
      using next4 [of 0 D] by auto
    obtain D2 where 2: "arr_write D1 ((i + 1) * p + j) (g (i + 1) j) = Inr D2" "rows_filled m p g (four_done i j 2) D2"
      using next4 [OF _ 1(2)] by (auto simp: numeral_2_eq_2)
    obtain D3 where 3: "arr_write D2 ((i + 2) * p + j) (g (i + 2) j) = Inr D3" "rows_filled m p g (four_done i j 3) D3"
      using next4 [OF _ 2(2)] by (auto simp: numeral_3_eq_3 numeral_2_eq_2)
    obtain D4 where 4: "arr_write D3 ((i + 3) * p + j) (g (i + 3) j) = Inr D4" "rows_filled m p g (four_done i j 4) D4"
      using next4 [OF _ 3(2)] by auto
    have "rows_filled m p g (\<lambda>i' j'. i' < i \<or> i' < i + 4 \<and> j' < Suc j) D4"
      using 4(2) by (auto simp: rows_filled_def four_done_def less_Suc_eq)
    moreover obtain v1 v2 v3 v4 where "lanes_block4 real_ops w A B n (n - n mod w) i j = Inr (v1, v2, v3, v4)"
      "lanes_rest4 real_ops A B n (n - n mod w) i j (hsum v1, hsum v2, hsum v3, hsum v4)
        = Inr (g i j, g (i + 1) j, g (i + 2) j, g (i + 3) j)"
      using four_rows_real [OF w ij len(1,2)] by (auto simp: g_def)
    ultimately show ?thesis
      using 1(1) 2(1) 3(1) 4(1) unfolding block_def by auto
  qed
  have rows: "\<exists>D'. for_loop 0 p (block i) D = Inr D' \<and> Inv (i + 4) D'" if "i + 4 \<le> m" "Inv i D" for i D
  proof -
    have "\<exists>D'. for_loop 0 p (block i) D = Inr D' \<and> rows_filled m p g (\<lambda>i' j'. i' < i \<or> i' < i + 4 \<and> j' < p) D'"
      by (rule for_loop_rule [where Inv = "\<lambda>j. rows_filled m p g (\<lambda>i' j'. i' < i \<or> i' < i + 4 \<and> j' < j)"])
        (use that blk in \<open>auto simp: Inv_def\<close>)
    then show ?thesis by (auto simp: Inv_def rows_filled_def)
  qed
  have mb: "m - m mod 4 = m div 4 * 4" by (simp add: minus_mod_eq_div_mult)
  have "\<exists>D. for_by 4 0 (m div 4 * 4) (\<lambda>i. for_loop 0 p (block i)) C = Inr D \<and> Inv (m div 4 * 4) D"
  proof (rule for_by_rule)
    fix k D assume "k < m div 4" "Inv (k * 4) D"
    moreover from this(1) have "k * 4 + 4 \<le> m" by linarith
    ultimately show "\<exists>D'. for_loop 0 p (block (k * 4)) D = Inr D' \<and> Inv (Suc k * 4) D'"
      using rows [of "k * 4" D] by (simp add: add.commute)
  qed (use len in \<open>simp_all add: Inv_def rows_filled_def\<close>)
  then obtain D where D: "for_by 4 0 (m div 4 * 4) (\<lambda>i. for_loop 0 p (block i)) C = Inr D" "Inv (m div 4 * 4) D" by blast
  define single where "single = (\<lambda>i j C. res_bind (lanes_row real_ops w hsum A B n (n - n mod w) i j) (\<lambda>sum. arr_write C (i * p + j) sum))"
  have one: "\<exists>E'. single i j E = Inr E' \<and> rows_filled m p g (\<lambda>i' j'. i' < i \<or> i' = i \<and> j' < Suc j) E'"
    if ij: "i < m" "j < p" and E: "rows_filled m p g (\<lambda>i' j'. i' < i \<or> i' = i \<and> j' < j) E" for i j E
    using rows_filled_write [OF E ij, of "\<lambda>i' j'. i' < i \<or> i' = i \<and> j' < Suc j"] lanes_row_real [OF w ij len(1,2)]
    by (auto simp: single_def g_def less_Suc_eq)
  have last: "\<exists>E'. for_loop 0 p (single i) E = Inr E' \<and> Inv (Suc i) E'" if "i < m" "Inv i E" for i E
  proof -
    have "\<exists>E'. for_loop 0 p (single i) E = Inr E' \<and> rows_filled m p g (\<lambda>i' j'. i' < i \<or> i' = i \<and> j' < p) E'"
      by (rule for_loop_rule [where Inv = "\<lambda>j. rows_filled m p g (\<lambda>i' j'. i' < i \<or> i' = i \<and> j' < j)"])
        (use that one in \<open>auto simp: Inv_def\<close>)
    then show ?thesis by (auto simp: Inv_def rows_filled_def less_Suc_eq)
  qed
  have "\<exists>E. for_loop (m div 4 * 4) m (\<lambda>i. for_loop 0 p (single i)) D = Inr E \<and> Inv m E"
    by (rule for_loop_rule [where Inv = Inv]) (use D(2) last in auto)
  then obtain E where E: "for_loop (m div 4 * 4) m (\<lambda>i. for_loop 0 p (single i)) D = Inr E" "Inv m E" by blast
  have "E = matrix_of m p g" using E(2) by (intro matrix_of_eqI) (auto simp: Inv_def rows_filled_def)
  then show ?thesis
    using D(1) E(1) unfolding matrixf_mul_lanes_def mb Let_def block_def single_def g_def by simp
qed

subsection \<open>Multiplication of matrices\<close>

text \<open>
  C10: The three multiplication kernels agree in exact arithmetic, for all dimensions: the vector kernels
  compute the same matrix as the scalar one, row blocks, lanes and remainders included, and none reads
  or writes outside the arrays.
\<close>

theorem matrixf_mul_kernels_agree:
  assumes "m * n \<le> length A" "p * n \<le> length B" "length C = m * p"
  shows "matrixf_mul_sse real_ops A B C m n p = matrixf_mul_scalar real_ops A B C m n p \<and>
    matrixf_mul_avx2 real_ops A B C m n p = matrixf_mul_scalar real_ops A B C m n p \<and>
    matrixf_mul_scalar real_ops A B C m n p
      = Inr (matrix_of m p (\<lambda>i j. \<Sum>k < n. A ! (i * n + k) * B ! (j * n + k)))"
proof -
  have "row_product real_ops A B n = (\<lambda>i j. \<Sum>k < n. A ! (i * n + k) * B ! (j * n + k))"
    by (intro ext) (rule row_product_real)
  then show ?thesis
    using mul_scalar_entries [OF assms, of real_ops] mul_lanes_real [of 4 "mm_hsum_ps real_ops", OF _ mm_hsum_real assms]
      mul_lanes_real [of 8 "mm256_hsum_ps real_ops", OF _ mm256_hsum_real assms]
    by (simp add: matrixf_mul_sse_def matrixf_mul_avx2_def)
qed

theorem matrixf_mul_kernels_agree_witness:
  "matrixf_mul_sse real_ops [1, 2] [3, 4] [0] 1 2 1 = matrixf_mul_scalar real_ops [1, 2] [3, 4] [0] 1 2 1"
  using matrixf_mul_kernels_agree [of 1 2 "[1, 2]" 1 "[3, 4]" "[0]"] by simp

lemma kernel_entries:
  assumes "mode \<le> 2" "m * n \<le> length A" "p * n \<le> length B" "length C = m * p"
  shows "\<exists>func. matmul_funcs real_ops mode = Inr func \<and>
    func A B C m n p = Inr (matrix_of m p (row_product real_ops A B n))"
proof -
  from assms(1) consider "mode = 0" | "mode = 1" | "mode = 2" by linarith
  then show ?thesis
    using mul_scalar_entries [OF assms(2-4), of real_ops] mul_lanes_real [of 4 "mm_hsum_ps real_ops", OF _ mm_hsum_real assms(2-4)]
      mul_lanes_real [of 8 "mm256_hsum_ps real_ops", OF _ mm256_hsum_real assms(2-4)]
    by cases (simp_all add: matmul_funcs_def matrixf_mul_sse_def matrixf_mul_avx2_def)
qed

lemma transpose_from_entries:
  assumes "mf_data A = Some d" "length d = mf_M A * mf_N A" "mf_M A * mf_N A < 2 ^ 31"
  shows "matrixf_transpose_from True junk A = Inr \<lparr>mf_data = Some (matrix_of (mf_M A) (mf_N A)
    (\<lambda>i j. d ! (j * mf_M A + i))), mf_N = mf_M A, mf_M = mf_N A\<rparr>"
proof -
  define m n where mn: "m = mf_M A" "n = mf_N A"
  have "for_loop 0 m (\<lambda>i. for_loop 0 n (\<lambda>j rd. res_bind (arr_read d (j * m + i)) (\<lambda>x. arr_write rd (i * n + j) x)))
      (map junk [0..<n * m]) = Inr (matrix_of m n (\<lambda>i j. d ! (j * m + i)))"
  proof (rule fill_loop)
    fix i j D assume ij: "i < m" "j < n" and D: "length (D :: 'a list) = m * n"
    have "j * m + i < n * m" "i * n + j < m * n" using ij by (auto intro: index_bound)
    then show "res_bind (arr_read d (j * m + i)) (\<lambda>x. arr_write D (i * n + j) x) = Inr (D[i * n + j := d ! (j * m + i)])"
      using assms(2) D by (simp add: mn mult.commute)
  qed (simp add: mult.commute)
  then show ?thesis
    using assms(1,3) by (simp add: matrixf_transpose_from_def matrixf_create_def matrix_data_def Let_def mult.commute flip: mn)
qed

lemma zero_fresh:
  "matrixf_zero R (C\<lparr>mf_data := Some (map junk [0..<m * p]), mf_M := m, mf_N := p\<rparr>)
    = Inr (C\<lparr>mf_data := Some (replicate (m * p) (f_zero R)), mf_M := m, mf_N := p\<rparr>)"
  by (simp add: matrixf_zero_def matrix_data_def)

text \<open>
  C31: With at least eight rows on the left and a square matrix on the right, \<^verbatim>\<open>matrixf_mul\<close> leaves the matrix
  product in its result, in exact arithmetic and for each of the three vectorization modes that have
  a kernel.
\<close>

theorem matrixf_mul_correct:
  assumes "mf_data A = Some a" "length a = mf_M A * n" "mf_N A = n" "8 \<le> mf_M A" "mf_M A * n < 2 ^ 31"
    and "mf_data B = Some b" "length b = n * n" "mf_M B = n" "mf_N B = n" "n * n < 2 ^ 31" "mode \<le> 2"
  shows "matrixf_mul real_ops mode True junk A B C = Inr (C\<lparr>mf_data := Some (matrix_of (mf_M A) n
    (\<lambda>i j. \<Sum>k < n. a ! (i * n + k) * b ! (k * n + j))), mf_M := mf_M A, mf_N := n\<rparr>)"
proof -
  define m where "m = mf_M A"
  define bt where "bt = matrix_of n n (\<lambda>i j. b ! (j * n + i))"
  have bt: "matrixf_transpose_from True junk B = Inr \<lparr>mf_data = Some bt, mf_N = n, mf_M = n\<rparr>"
    using transpose_from_entries [of B b junk] assms by (simp add: bt_def)
  obtain func where func: "matmul_funcs real_ops mode = Inr func"
    "func a bt (replicate (m * n) 0) m n n = Inr (matrix_of m n (row_product real_ops a bt n))"
    using kernel_entries [of mode m n a n bt "replicate (m * n) 0"] assms by (auto simp: bt_def m_def)
  have "matrix_of m n (row_product real_ops a bt n) = matrix_of m n (\<lambda>i j. \<Sum>k < n. a ! (i * n + k) * b ! (k * n + j))"
    by (rule matrix_of_eqI) (auto simp: row_product_real bt_def intro!: sum.cong)
  then show ?thesis
    using assms bt func unfolding matrixf_mul_def Let_def matrixf_resize_def
    by (simp add: matrix_data_def matrixf_zero_def flip: m_def)
qed

theorem matrixf_mul_correct_witness:
  "matrixf_mul real_ops 1 True (\<lambda>_. 7) \<lparr>mf_data = Some (map real [0..<8]), mf_N = 1, mf_M = 8\<rparr>
     \<lparr>mf_data = Some [2], mf_N = 1, mf_M = 1\<rparr> matrix_null
   = Inr \<lparr>mf_data = Some (matrix_of 8 1 (\<lambda>i j. \<Sum>k < 1. map real [0..<8] ! (i * 1 + k) * [2] ! (k * 1 + j))), mf_N = 1, mf_M = 8\<rparr>"
  by (subst matrixf_mul_correct [where n = 1 and a = "map real [0..<8]" and b = "[2]"]) (simp_all add: matrix_null_def)

text \<open>
  With fewer than eight rows on the left, \<^verbatim>\<open>matrixf_mul\<close> passes the right matrix to the kernel as it is,
  although the kernel expects its transpose: for a square matrix on the right the result is the product
  with the transposed matrix.
\<close>

theorem matrixf_mul_few_rows_transposed:
  assumes "mf_data A = Some a" "length a = mf_M A * n" "mf_N A = n" "mf_M A < 8" "mf_M A * n < 2 ^ 31"
    and "mf_data B = Some b" "length b = n * n" "mf_M B = n" "mf_N B = n"
  shows "matrixf_mul R mode True junk A B C
    = Inr (C\<lparr>mf_data := Some (matrix_of (mf_M A) n (row_product R a b n)), mf_M := mf_M A, mf_N := n\<rparr>)"
  using assms mul_scalar_entries [of "mf_M A" n a n b "replicate (mf_M A * n) (f_zero R)" R]
  unfolding matrixf_mul_def Let_def matrixf_resize_def
  by (simp add: matrix_data_def matrixf_zero_def)

theorem matrixf_mul_few_rows_transposed_witness:
  "matrixf_mul real_ops 0 True (\<lambda>_. 0) \<lparr>mf_data = Some [1, 0], mf_N = 2, mf_M = 1\<rparr>
     \<lparr>mf_data = Some [1, 2, 3, 4], mf_N = 2, mf_M = 2\<rparr> matrix_null
   = Inr \<lparr>mf_data = Some [1, 3], mf_N = 2, mf_M = 1\<rparr>"
proof -
  have "matrix_of 1 2 (row_product real_ops [1, 0] [1, 2, 3, 4] 2) = [1, 3]"
    by (simp add: matrix_of_def row_product_def upt_rec numeral_2_eq_2)
  then show ?thesis
    by (subst matrixf_mul_few_rows_transposed [where n = 2 and a = "[1, 0]" and b = "[1, 2, 3, 4]"])
      (simp_all add: matrix_null_def)
qed

text \<open>Pairs of entries that were exchanged an odd number of times.\<close>

definition exchanged :: "nat \<Rightarrow> 'f list \<Rightarrow> (nat \<Rightarrow> nat \<Rightarrow> bool) \<Rightarrow> 'f list \<Rightarrow> bool" where
  "exchanged m d P e \<longleftrightarrow> length e = length d \<and> (\<forall>r < m. \<forall>c < m.
     e ! (r * m + c) = (if P r c = P c r then d ! (r * m + c) else d ! (c * m + r)))"

lemma swap_entries_exchange:
  assumes "exchanged m d P e" "length d = m * m" "i < m" "j < m" "\<not> P i j"
    and Q: "\<forall>r c. Q r c \<longleftrightarrow> P r c \<or> r = i \<and> c = j"
  shows "\<exists>e'. swap_entries (i * m + j) (j * m + i) e = Inr e' \<and> exchanged m d Q e'"
proof -
  have b: "i * m + j < length e" "j * m + i < length e"
    using assms(1-4) index_bound by (auto simp: exchanged_def)
  define e' where "e' = e[i * m + j := e ! (j * m + i), j * m + i := e ! (i * m + j)]"
  have "swap_entries (i * m + j) (j * m + i) e = Inr e'" using b by (simp add: swap_entries_def e'_def)
  moreover have "exchanged m d Q e'"
    unfolding exchanged_def
  proof (intro conjI allI impI)
    show "length e' = length d" using assms(1) by (simp add: e'_def exchanged_def)
    fix r c assume rc: "r < m" "c < m"
    have "e' ! (r * m + c) = (if r = j \<and> c = i then e ! (i * m + j) else if r = i \<and> c = j then e ! (j * m + i) else e ! (r * m + c))"
      using b rc assms(3,4) by (simp add: e'_def nth_list_update index_inject)
    then show "e' ! (r * m + c) = (if Q r c = Q c r then d ! (r * m + c) else d ! (c * m + r))"
      using assms(1,3,4,5) rc Q unfolding exchanged_def by (cases "i = j") auto
  qed
  ultimately show ?thesis by blast
qed

text \<open>
  On a square matrix \<^verbatim>\<open>matrixf_transpose\<close> exchanges every pair of entries twice: it changes nothing.
\<close>

theorem matrixf_transpose_square_identity:
  assumes "mf_data A = Some d" "length d = mf_M A * mf_M A" "mf_N A = mf_M A"
  shows "matrixf_transpose ok junk A = Inr A"
proof -
  define m where "m = mf_M A"
  have row: "\<exists>e'. for_loop 0 m (\<lambda>j. swap_entries (i * m + j) (j * m + i)) e = Inr e' \<and> exchanged m d (\<lambda>r c. r < Suc i) e'"
    if i: "i < m" "exchanged m d (\<lambda>r c. r < i) e" for i e
  proof -
    have "\<exists>e'. for_loop 0 m (\<lambda>j. swap_entries (i * m + j) (j * m + i)) e = Inr e' \<and> exchanged m d (\<lambda>r c. r < i \<or> r = i \<and> c < m) e'"
    proof (rule for_loop_rule [where Inv = "\<lambda>j. exchanged m d (\<lambda>r c. r < i \<or> r = i \<and> c < j)"])
      fix j e assume "j < m" "exchanged m d (\<lambda>r c. r < i \<or> r = i \<and> c < j) e"
      then show "\<exists>e'. swap_entries (i * m + j) (j * m + i) e = Inr e' \<and> exchanged m d (\<lambda>r c. r < i \<or> r = i \<and> c < Suc j) e'"
        using assms(2) i(1) by (intro swap_entries_exchange) (auto simp: m_def)
    qed (use i in simp_all)
    then show ?thesis by (auto simp: exchanged_def less_Suc_eq)
  qed
  have "\<exists>e. for_loop 0 m (\<lambda>i. for_loop 0 m (\<lambda>j. swap_entries (i * m + j) (j * m + i))) d = Inr e \<and> exchanged m d (\<lambda>r c. r < m) e"
    by (rule for_loop_rule [where Inv = "\<lambda>i. exchanged m d (\<lambda>r c. r < i)"]) (use row in \<open>auto simp: exchanged_def\<close>)
  then obtain e where e: "for_loop 0 m (\<lambda>i. for_loop 0 m (\<lambda>j. swap_entries (i * m + j) (j * m + i))) d = Inr e"
    "exchanged m d (\<lambda>r c. r < m) e" by blast
  have "e = matrix_of m m (\<lambda>r c. d ! (r * m + c))" using e(2) assms(2) by (intro matrix_of_eqI) (auto simp: exchanged_def m_def)
  then have "e = d" using matrix_of_entries [of d m m] assms(2) by (simp add: m_def)
  then show ?thesis using e(1) assms(1,3) by (cases A) (simp add: matrixf_transpose_def matrix_data_def m_def Let_def)
qed

theorem matrixf_transpose_square_identity_witness:
  "matrixf_transpose True (\<lambda>_. 0) \<lparr>mf_data = Some [1, 2, 3, 4 :: real], mf_N = 2, mf_M = 2\<rparr>
    = Inr \<lparr>mf_data = Some [1, 2, 3, 4], mf_N = 2, mf_M = 2\<rparr>"
  by (rule matrixf_transpose_square_identity [where d = "[1, 2, 3, 4]"]) simp_all

subsection \<open>The Cholesky factor\<close>

text \<open>Entry \<open>(r, c)\<close> of the factor is right: the rows \<open>r\<close> and \<open>c\<close> multiply to the entry of the matrix.\<close>

definition factor_entry :: "nat \<Rightarrow> real list \<Rightarrow> real list \<Rightarrow> nat \<Rightarrow> nat \<Rightarrow> bool" where
  "factor_entry n a L r c \<longleftrightarrow>
     (\<Sum>k < Suc c. L ! (r * n + k) * L ! (c * n + k)) = a ! (r * n + c) \<and> (r = c \<longrightarrow> 0 < L ! (c * n + c))"

text \<open>A matrix that has a lower triangular factor with a positive diagonal, read on and below the diagonal.\<close>

definition is_factor :: "nat \<Rightarrow> real list \<Rightarrow> (nat \<Rightarrow> nat \<Rightarrow> real) \<Rightarrow> bool" where
  "is_factor n a g \<longleftrightarrow> (\<forall>r < n. 0 < g r r \<and> (\<forall>c \<le> r. (\<Sum>k < Suc c. g r k * g c k) = a ! (r * n + c)))"

lemma is_factorD:
  assumes "is_factor n a g" "r < n" "c \<le> r"
  shows "0 < g r r" "(\<Sum>k < c. g r k * g c k) + g r c * g c c = a ! (r * n + c)"
  using assms by (auto simp: is_factor_def)

text \<open>The entries of the factor are determined column by column.\<close>

lemma factor_unique:
  assumes g: "is_factor n a g" and L: "\<And>r c. r < n \<Longrightarrow> c \<le> r \<Longrightarrow> P r c \<Longrightarrow> factor_entry n a L r c"
    and P: "\<And>r c r' c'. P r c \<Longrightarrow> c' \<le> r' \<Longrightarrow> r' < r \<or> r' = r \<and> c' \<le> c \<Longrightarrow> P r' c'"
  shows "r < n \<Longrightarrow> c \<le> r \<Longrightarrow> P r c \<Longrightarrow> L ! (r * n + c) = g r c"
proof (induction c arbitrary: r rule: less_induct)
  case (less c)
  have eq: "L ! (r' * n + k) = g r' k" if "k < c" "c \<le> r'" "r' < n" "P r' c" for r' k
    using less.IH [OF that(1,3)] that P [OF that(4), of k r'] by simp
  have sums: "(\<Sum>k < c. L ! (r' * n + k) * L ! (c * n + k)) = (\<Sum>k < c. g r' k * g c k)"
    if "c \<le> r'" "r' < n" "P r' c" for r'
  proof (rule sum.cong [OF refl])
    fix k assume "k \<in> {..<c}"
    then have k: "k < c" by simp
    have "P c c" using P [OF that(3), of c c] that(1) by linarith
    then show "L ! (r' * n + k) * L ! (c * n + k) = g r' k * g c k"
      using eq [OF k that] eq [OF k le_refl] that by simp
  qed
  have "P c c" using P [OF less.prems(3), of c c] less.prems(2) by linarith
  then have cc: "c < n" "P c c" using less.prems by simp_all
  have "L ! (c * n + c) * L ! (c * n + c) = g c c * g c c" "0 < L ! (c * n + c)"
    using L [OF cc(1) le_refl cc(2)] is_factorD(2) [OF g cc(1) le_refl] sums [OF le_refl cc] by (simp_all add: factor_entry_def)
  then have d: "L ! (c * n + c) = g c c"
    using is_factorD(1) [OF g cc(1) le_refl] by (metis less_eq_real_def power2_eq_square power2_eq_iff_nonneg)
  have "L ! (r * n + c) * g c c = g r c * g c c"
    using L [OF less.prems] is_factorD(2) [OF g less.prems(1,2)] sums [OF less.prems(2,1,3)]
    unfolding factor_entry_def sum.lessThan_Suc d by linarith
  then show ?case using is_factorD(1) [OF g cc(1) le_refl] by simp
qed

definition factor_upto :: "nat \<Rightarrow> real list \<Rightarrow> (nat \<Rightarrow> nat \<Rightarrow> bool) \<Rightarrow> bool \<times> real list \<Rightarrow> bool" where
  "factor_upto n a P st \<longleftrightarrow> length (snd st) = n * n \<and>
     (\<forall>r < n. \<forall>c < n. \<not> c \<le> r \<longrightarrow> snd st ! (r * n + c) = 0) \<and>
     (fst st \<longrightarrow> (\<forall>r < n. \<forall>c \<le> r. P r c \<longrightarrow> factor_entry n a (snd st) r c)) \<and>
     (\<not> fst st \<longrightarrow> \<not> (\<exists>g. is_factor n a g))"

lemma dot_upto_sum:
  assumes "i < n" "j \<le> i" "length L = n * n"
  shows "dot_upto real_ops L n i j = Inr (\<Sum>k < j. L ! (i * n + k) * L ! (j * n + k))"
proof -
  have "dot_upto real_ops L n i j = Inr (foldl (\<lambda>s k. s + L ! (i * n + k) * L ! (j * n + k)) 0 [0..<j])"
    unfolding dot_upto_def
  proof (subst for_loop_fold)
    fix k s assume k: "k < j"
    then have "i * n + k < length L" "j * n + k < length L"
      using assms by (auto intro!: index_bound)
    then show "res_bind (arr_read L (i * n + k)) (\<lambda>x. res_bind (arr_read L (j * n + k)) (\<lambda>y.
        Inr (f_add real_ops s (f_mul real_ops x y)))) = Inr (s + L ! (i * n + k) * L ! (j * n + k))"
      by simp
  qed simp
  then show ?thesis by (simp add: foldl_sum lessThan_atLeast0)
qed

text \<open>Writing the next entry keeps the entries before it and makes that entry right.\<close>

lemma factor_write:
  assumes "factor_upto n a P (True, L)" "i < n" "j \<le> i" "\<not> P i j"
    and before: "\<forall>r c. P r c \<longrightarrow> r < i \<or> r = i \<and> c < j" and diag: "\<forall>c < j. P i c"
    and Q: "\<forall>r c. c \<le> r \<longrightarrow> (Q r c \<longleftrightarrow> P r c \<or> r = i \<and> c = j)"
    and x: "(\<Sum>k < j. L ! (i * n + k) * L ! (j * n + k)) + x * (if i = j then x else L ! (j * n + j)) = a ! (i * n + j)"
      "i = j \<longrightarrow> 0 < x"
  shows "factor_upto n a Q (True, L[i * n + j := x])"
proof -
  define L' where "L' = L[i * n + j := x]"
  have len: "length L = n * n" using assms(1) by (simp add: factor_upto_def)
  have b: "i * n + j < length L" using assms(2,3) len index_bound [of i n j n] by simp
  have nth: "L' ! (r * n + c) = (if r = i \<and> c = j then x else L ! (r * n + c))" if "c < n" for r c
    using b that assms(2,3) by (simp add: L'_def nth_list_update index_inject)
  have old: "factor_entry n a L' r c" if "r < n" "c \<le> r" "P r c" for r c
  proof -
    have rc: "r < i \<or> r = i \<and> c < j" using before that(3) by blast
    have "(\<Sum>k < Suc c. L' ! (r * n + k) * L' ! (c * n + k)) = (\<Sum>k < Suc c. L ! (r * n + k) * L ! (c * n + k))"
      by (rule sum.cong) (use rc that assms(2,3) in \<open>auto simp: nth\<close>)
    moreover have "L' ! (c * n + c) = L ! (c * n + c)" using rc that assms(2,3) by (auto simp: nth)
    moreover have "factor_entry n a L r c" using assms(1) that by (simp add: factor_upto_def)
    ultimately show ?thesis by (simp add: factor_entry_def del: sum.lessThan_Suc)
  qed
  have new: "factor_entry n a L' i j"
  proof -
    have "(\<Sum>k < j. L' ! (i * n + k) * L' ! (j * n + k)) = (\<Sum>k < j. L ! (i * n + k) * L ! (j * n + k))"
      by (rule sum.cong) (use assms(2,3) in \<open>auto simp: nth\<close>)
    moreover have "L' ! (i * n + j) = x" "L' ! (j * n + j) = (if i = j then x else L ! (j * n + j))"
      using assms(2,3) by (auto simp: nth)
    ultimately show ?thesis using x by (auto simp: factor_entry_def)
  qed
  show ?thesis
    using old new Q assms(1-3) nth len unfolding factor_upto_def L'_def [symmetric]
    by (auto simp: L'_def)
qed

lemma cholesky_entry_step:
  assumes "factor_upto n a (\<lambda>r c. r < i \<or> r = i \<and> c < j) st" "i < n" "j \<le> i" "length a = n * n"
  shows "\<exists>st'. cholesky_entry real_ops a n i j st = Inr st' \<and> factor_upto n a (\<lambda>r c. r < i \<or> r = i \<and> c < Suc j) st'"
proof (cases "fst st")
  case False
  then show ?thesis using assms(1) by (cases st) (auto simp: cholesky_entry_def factor_upto_def)
next
  case True
  then obtain L where st: "st = (True, L)" by (cases st) auto
  have len: "length L = n * n" using assms(1) by (simp add: st factor_upto_def)
  have b: "i * n + j < n * n" "j * n + j < n * n" "i * n + i < n * n"
    using assms(2,3) by (auto intro: index_bound)
  define s where "s = (\<Sum>k < j. L ! (i * n + k) * L ! (j * n + k))"
  have dot: "dot_upto real_ops L n i j = Inr s" using dot_upto_sum [OF assms(2,3) len] by (simp add: s_def)
  note wr = factor_write [OF assms(1) [unfolded st] assms(2,3), of "\<lambda>r c. r < i \<or> r = i \<and> c < Suc j"]
  show ?thesis
  proof (cases "i = j")
    case eq: True
    show ?thesis
    proof (cases "a ! (i * n + i) - s \<le> 0")
      case True
      have "\<not> is_factor n a g" for g
      proof
        assume g: "is_factor n a g"
        have "L ! (i * n + k) = g i k" if "k < j" for k
        proof (rule factor_unique [OF g, where P = "\<lambda>r c. r < i \<or> r = i \<and> c < j"])
          show "factor_entry n a L r c" if "r < n" "c \<le> r" "r < i \<or> r = i \<and> c < j" for r c
            using assms(1) that unfolding st factor_upto_def by auto
        qed (use that assms(2,3) in auto)
        then have "s = (\<Sum>k < j. g i k * g i k)" using eq by (simp add: s_def)
        then have "a ! (i * n + i) - s = g i i * g i i" using is_factorD(2) [OF g assms(2) le_refl] eq by simp
        then show False using True is_factorD(1) [OF g assms(2) le_refl] by (simp add: mult_le_0_iff)
      qed
      then show ?thesis using True assms(1,4) st dot eq b
        by (auto simp: cholesky_entry_def factor_upto_def Let_def)
    next
      case False
      then have "factor_upto n a (\<lambda>r c. r < i \<or> r = i \<and> c < Suc j) (True, L[i * n + j := sqrt (a ! (i * n + i) - s)])"
        using eq by (intro wr) (auto simp: s_def)
      then show ?thesis using False assms(4) st dot eq b len by (simp add: cholesky_entry_def Let_def)
    qed
  next
    case neq: False
    then have ji: "j < i" using assms(3) by simp
    have "factor_entry n a L j j"
      using assms(1,2) ji unfolding st factor_upto_def by auto
    then have pos: "0 < L ! (j * n + j)" by (simp add: factor_entry_def)
    have "factor_upto n a (\<lambda>r c. r < i \<or> r = i \<and> c < Suc j) (True, L[i * n + j := 1 / L ! (j * n + j) * (a ! (i * n + j) - s)])"
      using neq pos by (intro wr) (auto simp: s_def)
    then show ?thesis using neq assms(4) st dot b len by (simp add: cholesky_entry_def Let_def)
  qed
qed

text \<open>The factor, and its product on and below the diagonal.\<close>

lemma cholesky_lower:
  assumes "mf_data A = Some a" "length a = n * n" "mf_M A = n" "mf_N A = n" "n * n < 2 ^ 31"
  shows "\<exists>found l. matrixf_cholesky_decomposition real_ops True junk A L
      = Inr (found, L\<lparr>mf_data := Some l, mf_M := n, mf_N := n\<rparr>) \<and> length l = n * n \<and>
    (found \<longrightarrow> (\<forall>r < n. (\<forall>c < n. r < c \<longrightarrow> l ! (r * n + c) = 0) \<and> 0 < l ! (r * n + r) \<and>
       (\<forall>c \<le> r. (\<Sum>k < n. l ! (r * n + k) * l ! (c * n + k)) = a ! (r * n + c)))) \<and>
    (found \<longleftrightarrow> (\<exists>g. is_factor n a g))"
proof -
  define body where "body = (\<lambda>i. for_loop 0 (i + 1) (cholesky_entry real_ops a n i))"
  have row: "\<exists>st'. body i st = Inr st' \<and> factor_upto n a (\<lambda>r c. r < Suc i) st'"
    if "i < n" "factor_upto n a (\<lambda>r c. r < i) st" for i st
  proof -
    have "\<exists>st'. body i st = Inr st' \<and> factor_upto n a (\<lambda>r c. r < i \<or> r = i \<and> c < i + 1) st'"
      unfolding body_def
      by (rule for_loop_rule [where Inv = "\<lambda>j. factor_upto n a (\<lambda>r c. r < i \<or> r = i \<and> c < j)"])
        (use that cholesky_entry_step [of n a i] assms(2) in auto)
    then obtain st' where "body i st = Inr st'" "factor_upto n a (\<lambda>r c. r < i \<or> r = i \<and> c < i + 1) st'" by blast
    moreover from this(2) have "factor_upto n a (\<lambda>r c. r < Suc i) st'"
      unfolding factor_upto_def by (metis add.commute le_imp_less_Suc less_Suc_eq plus_1_eq_Suc)
    ultimately show ?thesis by blast
  qed
  have "factor_upto n a (\<lambda>r c. r < 0) (True, replicate (n * n) 0)"
    by (simp add: factor_upto_def index_bound)
  then have "\<exists>st. for_loop 0 n body (True, replicate (n * n) 0) = Inr st \<and> factor_upto n a (\<lambda>r c. r < n) st"
    by (intro for_loop_rule [where Inv = "\<lambda>i. factor_upto n a (\<lambda>r c. r < i)"]) (use row in auto)
  then obtain found l where st: "for_loop 0 n body (True, replicate (n * n) 0) = Inr (found, l)"
    "factor_upto n a (\<lambda>r c. r < n) (found, l)" by auto
  have upper: "l ! (r * n + c) = 0" if "r < n" "c < n" "r < c" for r c
    using st(2) that by (auto simp: factor_upto_def)
  have full: "(\<Sum>k < n. l ! (r * n + k) * l ! (c * n + k)) = (\<Sum>k < Suc c. l ! (r * n + k) * l ! (c * n + k))"
    if "c \<le> r" "r < n" for r c
    by (rule sum.mono_neutral_right) (use that upper [of c] in auto)
  have "found \<longrightarrow> (\<forall>r < n. \<forall>c \<le> r. factor_entry n a l r c)" using st(2) by (simp add: factor_upto_def)
  then have "found \<longrightarrow> (\<forall>r < n. 0 < l ! (r * n + r) \<and>
      (\<forall>c \<le> r. (\<Sum>k < n. l ! (r * n + k) * l ! (c * n + k)) = a ! (r * n + c)))"
    using full by (auto simp: factor_entry_def simp del: sum.lessThan_Suc)
  moreover have "matrixf_cholesky_decomposition real_ops True junk A L
      = Inr (found, L\<lparr>mf_data := Some l, mf_M := n, mf_N := n\<rparr>)"
    using st(1) assms by (simp add: matrixf_cholesky_decomposition_def matrixf_resize_def zero_fresh matrix_data_def
        matrixf_zero_def body_def Let_def)
  moreover have "length l = n * n" using st(2) by (simp add: factor_upto_def)
  moreover have "is_factor n a (\<lambda>r c. l ! (r * n + c))" if found
    using st(2) that unfolding is_factor_def by (auto simp: factor_upto_def factor_entry_def simp del: sum.lessThan_Suc)
  then have "found \<longleftrightarrow> (\<exists>g. is_factor n a g)" using st(2) by (auto simp: factor_upto_def)
  ultimately show ?thesis using upper by blast
qed

text \<open>
  C32: The Cholesky decomposition of a square matrix always returns, in exact arithmetic and with memory. When it
  reports success, its result is lower triangular with a positive diagonal, and the product with its
  transpose agrees with the matrix on and below the diagonal, the only entries the code reads; for a
  symmetric matrix the product is the whole matrix. (Of another matrix nothing above the diagonal is
  looked at, and success is reported all the same.) It reports success exactly when such a factor of
  the entries on and below the diagonal exists.
\<close>

theorem matrixf_cholesky_decomposition_correct:
  assumes "mf_data A = Some a" "length a = n * n" "mf_M A = n" "mf_N A = n" "n * n < 2 ^ 31"
  shows "\<exists>found l. matrixf_cholesky_decomposition real_ops True junk A L
      = Inr (found, L\<lparr>mf_data := Some l, mf_M := n, mf_N := n\<rparr>) \<and> length l = n * n \<and>
    (found \<longrightarrow> (\<forall>r < n. (\<forall>c < n. r < c \<longrightarrow> l ! (r * n + c) = 0) \<and> 0 < l ! (r * n + r) \<and>
       (\<forall>c \<le> r. (\<Sum>k < n. l ! (r * n + k) * l ! (c * n + k)) = a ! (r * n + c))) \<and>
      ((\<forall>r < n. \<forall>c < n. a ! (r * n + c) = a ! (c * n + r)) \<longrightarrow>
       (\<forall>r < n. \<forall>c < n. (\<Sum>k < n. l ! (r * n + k) * l ! (c * n + k)) = a ! (r * n + c)))) \<and>
    (found \<longleftrightarrow> (\<exists>g. is_factor n a g))"
proof -
  obtain found l where l: "matrixf_cholesky_decomposition real_ops True junk A L
      = Inr (found, L\<lparr>mf_data := Some l, mf_M := n, mf_N := n\<rparr>)" "length l = n * n"
    and low: "found \<longrightarrow> (\<forall>r < n. (\<forall>c < n. r < c \<longrightarrow> l ! (r * n + c) = 0) \<and> 0 < l ! (r * n + r) \<and>
       (\<forall>c \<le> r. (\<Sum>k < n. l ! (r * n + k) * l ! (c * n + k)) = a ! (r * n + c)))"
    and ex: "found \<longleftrightarrow> (\<exists>g. is_factor n a g)"
    using cholesky_lower [OF assms, of junk L] by blast
  have entry: "(\<Sum>k < n. l ! (r * n + k) * l ! (c * n + k)) = a ! (r * n + c)"
    if f: found and sym: "\<forall>r < n. \<forall>c < n. a ! (r * n + c) = a ! (c * n + r)" and rc: "r < n" "c < n" for r c
  proof (cases "c \<le> r")
    case True
    then show ?thesis using low f rc by blast
  next
    case False
    then have "(\<Sum>k < n. l ! (c * n + k) * l ! (r * n + k)) = a ! (c * n + r)" using low f rc by auto
    moreover have "(\<Sum>k < n. l ! (r * n + k) * l ! (c * n + k)) = (\<Sum>k < n. l ! (c * n + k) * l ! (r * n + k))"
      by (intro sum.cong refl mult.commute)
    moreover have "a ! (r * n + c) = a ! (c * n + r)" using sym rc by blast
    ultimately show ?thesis by simp
  qed
  then have whole: "found \<longrightarrow> ((\<forall>r < n. \<forall>c < n. a ! (r * n + c) = a ! (c * n + r)) \<longrightarrow>
      (\<forall>r < n. \<forall>c < n. (\<Sum>k < n. l ! (r * n + k) * l ! (c * n + k)) = a ! (r * n + c)))"
    by (intro impI allI)
  show ?thesis
    by (rule exI [of _ found], rule exI [of _ l], rule conjI [OF l(1) conjI [OF l(2) conjI [OF _ ex]]], rule impI,
        rule conjI [OF low [THEN mp] whole [THEN mp]])
qed

theorem matrixf_cholesky_decomposition_correct_witness:
  "\<exists>l. matrixf_cholesky_decomposition real_ops True (\<lambda>_. 0) \<lparr>mf_data = Some [4], mf_N = 1, mf_M = 1\<rparr> matrix_null
      = Inr (True, matrix_null\<lparr>mf_data := Some l, mf_M := 1, mf_N := 1\<rparr>) \<and> length l = 1"
proof -
  have "is_factor 1 [4] (\<lambda>_ _. 2)" by (simp add: is_factor_def)
  then show ?thesis
    using matrixf_cholesky_decomposition_correct
      [of "\<lparr>mf_data = Some [4], mf_N = 1, mf_M = 1\<rparr>" "[4]" 1 "\<lambda>_. 0" matrix_null] by fastforce
qed

text \<open>
  \<^verbatim>\<open>matrixf_cholesky_solve\<close> does not solve the equation even in exact arithmetic: as the transposition of the
  square factor does nothing, the backward substitution reads zeros above the diagonal. For the matrix
  with the rows 4, 2 and 2, 5 and the right-hand side 8, 9 it reports success with a wrong result.
\<close>

theorem matrixf_cholesky_solve_wrong:
  "\<exists>u v. matrixf_cholesky_solve real_ops True (\<lambda>_. 0) \<lparr>mf_data = Some [4, 2, 2, 5], mf_N = 2, mf_M = 2\<rparr>
       \<lparr>mf_data = Some [8, 9], mf_N = 1, mf_M = 2\<rparr> matrix_null = Inr (True, \<lparr>mf_data = Some [u, v], mf_N = 1, mf_M = 2\<rparr>) \<and>
     4 * u + 2 * v \<noteq> 8"
proof -
  have r4: "replicate 4 (0 :: real) = [0, 0, 0, 0]" by (simp add: numeral_eq_Suc)
  have L: "matrixf_cholesky_decomposition real_ops True (\<lambda>_. 0) \<lparr>mf_data = Some [4, 2, 2, 5], mf_N = 2, mf_M = 2\<rparr> matrix_null
      = Inr (True, \<lparr>mf_data = Some [2, 0, 1, 2], mf_N = 2, mf_M = 2\<rparr>)"
    by (simp add: matrixf_cholesky_decomposition_def matrixf_resize_def matrixf_zero_def matrix_data_def matrix_null_def
        Let_def for_loop_step cholesky_entry_def dot_upto_def arr_read_def arr_write_def r4)
  show ?thesis
    by (rule exI [of _ 2], rule exI [of _ "5 / 4"])
      (simp add: matrixf_cholesky_solve_def L [unfolded matrix_null_def] matrixf_create_def matrixf_resize_def matrix_data_def matrix_null_def
        matrixf_transpose_def swap_entries_def forward_entry_def backward_entry_def for_loop_step arr_read_def arr_write_def
        Let_def upt_rec)
qed

end
