(* ===== verification/Stats.thy ===== *)
theory Stats
  imports FloatOps
begin

text \<open>
  The statistics of \<^verbatim>\<open>math_stats32.c\<close> over any arithmetic of floats, with the horizontal operations of
  \<^verbatim>\<open>include/libromano/simd.h\<close> they use: the scalar functions, their SSE and AVX variants and the tables
  that choose between them. Reads of the array are checked. In exact arithmetic the sum, the mean and
  the variance are what their names say where the code stays inside the array; the vector loops run up to
  the remainder of the length instead of the largest multiple, which makes short arrays unsafe, and
  the horizontal minimum and maximum of four lanes are the first lane. The minimum of lanes and the
  minimum of scalars, which differ on NaN, are one operation here.
\<close>

subsection \<open>Lanes\<close>

definition mathf_lerp :: "'f fops \<Rightarrow> 'f \<Rightarrow> 'f \<Rightarrow> 'f \<Rightarrow> 'f" where
  "mathf_lerp R a b t = f_add R (f_mul R (f_sub R (f_one R) t) a) (f_mul R t b)"

definition mathf_sqr :: "'f fops \<Rightarrow> 'f \<Rightarrow> 'f" where
  "mathf_sqr R x = f_mul R x x"

definition lerp_lanes :: "'f fops \<Rightarrow> 'f list \<Rightarrow> 'f list \<Rightarrow> 'f \<Rightarrow> 'f list" where
  "lerp_lanes R a b t =
     (let one_minus_t = f_sub R (f_one R) t;
          a = map (\<lambda>x. f_mul R one_minus_t x) a;
          b = map (\<lambda>x. f_mul R x t) b
      in map2 (f_add R) a b)"

definition mm_hmean_ps :: "'f fops \<Rightarrow> 'f list \<Rightarrow> 'f" where
  "mm_hmean_ps R x = f_div R (mm_hsum_ps R x) (f_of_nat R 4)"

definition mm256_hmean_ps :: "'f fops \<Rightarrow> 'f list \<Rightarrow> 'f" where
  "mm256_hmean_ps R x = f_div R (mm256_hsum_ps R x) (f_of_nat R 8)"

text \<open>\<open>f\<close> is the minimum or the maximum; the shuffles are the same.\<close>

definition mm_hfold_ps :: "('f \<Rightarrow> 'f \<Rightarrow> 'f) \<Rightarrow> 'f list \<Rightarrow> 'f" where
  "mm_hfold_ps f x =
     (let x = map2 f x [x ! 0, x ! 0, x ! 3, x ! 2];
          x = map2 f x [x ! 0, x ! 0, x ! 1, x ! 1]
      in x ! 0)"

definition mm256_hfold_ps :: "('f \<Rightarrow> 'f \<Rightarrow> 'f) \<Rightarrow> 'f list \<Rightarrow> 'f" where
  "mm256_hfold_ps f v =
     (let perm_halves = drop 4 v @ take 4 v;
          m0 = map2 f perm_halves v;
          perm0 = [m0 ! 2, m0 ! 3, m0 ! 0, m0 ! 1, m0 ! 6, m0 ! 7, m0 ! 4, m0 ! 5];
          m1 = map2 f m0 perm0;
          perm1 = [m1 ! 1, m1 ! 0, m1 ! 3, m1 ! 2, m1 ! 5, m1 ! 4, m1 ! 7, m1 ! 6];
          m2 = map2 f perm1 m1
      in m2 ! 0)"

subsection \<open>Sum and mean\<close>

definition stats_sum :: "'f fops \<Rightarrow> 'f list \<Rightarrow> nat \<Rightarrow> 'f res" where
  "stats_sum R xs n =
     res_bind (for_loop 0 n (\<lambda>i (s, c). res_bind (arr_read xs i) (\<lambda>x.
         let y = f_sub R x c;
             t = f_add R s y;
             z = f_sub R t s;
             c = f_sub R z y
         in Inr (t, c))) (f_zero R, f_zero R)) (\<lambda>(s, c). Inr s)"

definition mean_from :: "'f fops \<Rightarrow> 'f list \<Rightarrow> nat \<Rightarrow> nat \<Rightarrow> 'f \<Rightarrow> 'f res" where
  "mean_from R xs lo n =
     for_loop lo n (\<lambda>i mean. res_bind (arr_read xs i) (\<lambda>x.
       Inr (mathf_lerp R mean x (f_div R (f_one R) (f_of_nat R (i + 1))))))"

definition stats_mean_scalar :: "'f fops \<Rightarrow> 'f list \<Rightarrow> nat \<Rightarrow> 'f res" where
  "stats_mean_scalar R xs n = mean_from R xs 0 n (f_zero R)"

text \<open>
  The block loop up to \<open>n mod w\<close>, which leaves \<open>i\<close> at the next multiple of \<open>w\<close>, and the loop over
  the rest.
\<close>

definition lanes_end :: "nat \<Rightarrow> nat \<Rightarrow> nat" where
  "lanes_end w n = (n mod w + w - 1) div w * w"

definition stats_mean_lanes :: "'f fops \<Rightarrow> nat \<Rightarrow> ('f list \<Rightarrow> 'f) \<Rightarrow> 'f list \<Rightarrow> nat \<Rightarrow> 'f res" where
  "stats_mean_lanes R w hmean xs n =
     res_bind (for_by w 0 (n mod w) (\<lambda>i m. res_bind (load_lanes w xs i) (\<lambda>v.
         Inr (lerp_lanes R m v (f_div R (f_one R) (f_of_nat R (i + 1)))))) (replicate w (f_zero R)))
       (\<lambda>m. mean_from R xs (lanes_end w n) n (hmean m))"

definition stats_mean_sse :: "'f fops \<Rightarrow> 'f list \<Rightarrow> nat \<Rightarrow> 'f res" where
  "stats_mean_sse R = stats_mean_lanes R 4 (mm_hmean_ps R)"

definition stats_mean_avx :: "'f fops \<Rightarrow> 'f list \<Rightarrow> nat \<Rightarrow> 'f res" where
  "stats_mean_avx R = stats_mean_lanes R 8 (mm256_hmean_ps R)"

definition stats_mean :: "'f fops \<Rightarrow> nat \<Rightarrow> 'f list \<Rightarrow> nat \<Rightarrow> 'f res" where
  "stats_mean R mode xs n =
     res_bind (arr_read [stats_mean_scalar R, stats_mean_sse R, stats_mean_avx R, stats_mean_avx R, stats_mean_avx R] mode)
       (\<lambda>func. func xs n)"

subsection \<open>Variance\<close>

definition stats_variance :: "'f fops \<Rightarrow> 'f list \<Rightarrow> nat \<Rightarrow> 'f res" where
  "stats_variance R xs n =
     res_bind (arr_read xs 0) (\<lambda>x0.
     res_bind (for_loop 1 n (\<lambda>i (k, m, s). res_bind (arr_read xs i) (\<lambda>x.
         let k = f_add R k (f_one R);
             m = f_add R m x;
             s = f_add R s (f_mul R (f_div R (f_one R) (f_mul R k (f_sub R k (f_one R))))
                   (mathf_sqr R (f_sub R (f_mul R k x) m)))
         in Inr (k, m, s))) (f_one R, x0, f_zero R)) (\<lambda>(k, m, s).
       Inr (f_div R s (f_of_nat R n))))"

definition stats_std :: "'f fops \<Rightarrow> 'f list \<Rightarrow> nat \<Rightarrow> 'f res" where
  "stats_std R xs n = res_bind (stats_variance R xs n) (\<lambda>v. Inr (f_sqrt R v))"

subsection \<open>Minimum, maximum and range\<close>

definition fold_from :: "('f \<Rightarrow> 'f \<Rightarrow> 'f) \<Rightarrow> 'f list \<Rightarrow> nat \<Rightarrow> nat \<Rightarrow> 'f \<Rightarrow> 'f res" where
  "fold_from f xs lo n = for_loop lo n (\<lambda>i m. res_bind (arr_read xs i) (\<lambda>x. Inr (f m x)))"

definition stats_fold_scalar :: "('f \<Rightarrow> 'f \<Rightarrow> 'f) \<Rightarrow> 'f list \<Rightarrow> nat \<Rightarrow> 'f res" where
  "stats_fold_scalar f xs n = res_bind (arr_read xs 0) (fold_from f xs 1 n)"

definition stats_fold_lanes :: "nat \<Rightarrow> ('f list \<Rightarrow> 'f) \<Rightarrow> ('f \<Rightarrow> 'f \<Rightarrow> 'f) \<Rightarrow> 'f list \<Rightarrow> nat \<Rightarrow> 'f res" where
  "stats_fold_lanes w hfold f xs n =
     res_bind (arr_read xs 0) (\<lambda>x0.
     res_bind (for_by w 0 (n mod w) (\<lambda>i m. res_bind (load_lanes w xs i) (\<lambda>v. Inr (f m (hfold v)))) x0)
       (fold_from f xs (lanes_end w n) n))"

definition mm_hmin_ps :: "'f fops \<Rightarrow> 'f list \<Rightarrow> 'f" where
  "mm_hmin_ps R = mm_hfold_ps (f_min R)"

definition mm_hmax_ps :: "'f fops \<Rightarrow> 'f list \<Rightarrow> 'f" where
  "mm_hmax_ps R = mm_hfold_ps (f_max R)"

definition mm256_hmin_ps :: "'f fops \<Rightarrow> 'f list \<Rightarrow> 'f" where
  "mm256_hmin_ps R = mm256_hfold_ps (f_min R)"

definition mm256_hmax_ps :: "'f fops \<Rightarrow> 'f list \<Rightarrow> 'f" where
  "mm256_hmax_ps R = mm256_hfold_ps (f_max R)"

definition stats_min_scalar :: "'f fops \<Rightarrow> 'f list \<Rightarrow> nat \<Rightarrow> 'f res" where
  "stats_min_scalar R = stats_fold_scalar (f_min R)"

definition stats_min_sse :: "'f fops \<Rightarrow> 'f list \<Rightarrow> nat \<Rightarrow> 'f res" where
  "stats_min_sse R = stats_fold_lanes 4 (mm_hmin_ps R) (f_min R)"

definition stats_min_avx :: "'f fops \<Rightarrow> 'f list \<Rightarrow> nat \<Rightarrow> 'f res" where
  "stats_min_avx R = stats_fold_lanes 8 (mm256_hmin_ps R) (f_min R)"

definition stats_min_avx5 :: "'f fops \<Rightarrow> 'f list \<Rightarrow> nat \<Rightarrow> 'f res" where
  "stats_min_avx5 R = stats_min_avx R"

definition stats_max_scalar :: "'f fops \<Rightarrow> 'f list \<Rightarrow> nat \<Rightarrow> 'f res" where
  "stats_max_scalar R = stats_fold_scalar (f_max R)"

definition stats_max_sse :: "'f fops \<Rightarrow> 'f list \<Rightarrow> nat \<Rightarrow> 'f res" where
  "stats_max_sse R = stats_fold_lanes 4 (mm_hmax_ps R) (f_max R)"

definition stats_max_avx :: "'f fops \<Rightarrow> 'f list \<Rightarrow> nat \<Rightarrow> 'f res" where
  "stats_max_avx R = stats_fold_lanes 8 (mm256_hmax_ps R) (f_max R)"

definition stats_max_avx5 :: "'f fops \<Rightarrow> 'f list \<Rightarrow> nat \<Rightarrow> 'f res" where
  "stats_max_avx5 R = stats_max_avx R"

definition stats_min :: "'f fops \<Rightarrow> nat \<Rightarrow> 'f list \<Rightarrow> nat \<Rightarrow> 'f res" where
  "stats_min R mode xs n =
     res_bind (arr_read [stats_min_scalar R, stats_min_sse R, stats_min_avx R, stats_min_avx R, stats_min_avx5 R] mode)
       (\<lambda>func. func xs n)"

definition stats_max :: "'f fops \<Rightarrow> nat \<Rightarrow> 'f list \<Rightarrow> nat \<Rightarrow> 'f res" where
  "stats_max R mode xs n =
     res_bind (arr_read [stats_max_scalar R, stats_max_sse R, stats_max_avx R, stats_max_avx R, stats_max_avx5 R] mode)
       (\<lambda>func. func xs n)"

text \<open>The range keeps a minimum and a maximum in one loop.\<close>

definition range_from :: "'f fops \<Rightarrow> 'f list \<Rightarrow> nat \<Rightarrow> nat \<Rightarrow> 'f \<times> 'f \<Rightarrow> ('f \<times> 'f) res" where
  "range_from R xs lo n =
     for_loop lo n (\<lambda>i (lo, hi). res_bind (arr_read xs i) (\<lambda>x. Inr (f_min R lo x, f_max R hi x)))"

definition stats_range_scalar :: "'f fops \<Rightarrow> 'f list \<Rightarrow> nat \<Rightarrow> 'f res" where
  "stats_range_scalar R xs n =
     res_bind (arr_read xs 0) (\<lambda>x0. res_bind (range_from R xs 1 n (x0, x0)) (\<lambda>(lo, hi).
       Inr (f_abs R (f_sub R hi lo))))"

definition stats_range_lanes :: "'f fops \<Rightarrow> nat \<Rightarrow> ('f list \<Rightarrow> 'f) \<Rightarrow> ('f list \<Rightarrow> 'f) \<Rightarrow> 'f list \<Rightarrow> nat \<Rightarrow> 'f res" where
  "stats_range_lanes R w hmin hmax xs n =
     res_bind (arr_read xs 0) (\<lambda>x0.
     res_bind (for_by w 0 (n mod w) (\<lambda>i (lo, hi). res_bind (load_lanes w xs i) (\<lambda>v.
         Inr (f_min R lo (hmin v), f_max R hi (hmax v)))) (x0, x0)) (\<lambda>st.
     res_bind (range_from R xs (lanes_end w n) n st) (\<lambda>(lo, hi). Inr (f_abs R (f_sub R hi lo)))))"

definition stats_range_sse :: "'f fops \<Rightarrow> 'f list \<Rightarrow> nat \<Rightarrow> 'f res" where
  "stats_range_sse R = stats_range_lanes R 4 (mm_hmin_ps R) (mm_hmax_ps R)"

definition stats_range_avx :: "'f fops \<Rightarrow> 'f list \<Rightarrow> nat \<Rightarrow> 'f res" where
  "stats_range_avx R = stats_range_lanes R 8 (mm256_hmin_ps R) (mm256_hmax_ps R)"

definition stats_range_avx5 :: "'f fops \<Rightarrow> 'f list \<Rightarrow> nat \<Rightarrow> 'f res" where
  "stats_range_avx5 R = stats_range_avx R"

definition stats_range :: "'f fops \<Rightarrow> nat \<Rightarrow> 'f list \<Rightarrow> nat \<Rightarrow> 'f res" where
  "stats_range R mode xs n =
     res_bind (arr_read [stats_range_scalar R, stats_range_sse R, stats_range_avx R, stats_range_avx R, stats_range_avx5 R] mode)
       (\<lambda>func. func xs n)"

end
