(* ===== verification/StatsSpec.thy ===== *)
theory StatsSpec
  imports Stats
begin

text \<open>
  The statistics in exact arithmetic: Kahan's sum, the running mean and the updating formula for the
  variance against the textbook definitions, the arrays for which the vector variants stay in bounds,
  and what the broken horizontal minimum does.
\<close>

subsection \<open>Sum\<close>

text \<open>
  The compensated sum of an array is its sum, in exact arithmetic: the compensation stays zero.
\<close>

theorem stats_sum_correct:
  assumes "n \<le> length xs"
  shows "stats_sum real_ops xs n = Inr (\<Sum>i < n. xs ! i)"
proof -
  define f where "f = (\<lambda>i (s, c). res_bind (arr_read xs i) (\<lambda>x.
         let y = f_sub real_ops x c; t = f_add real_ops s y; z = f_sub real_ops t s; c = f_sub real_ops z y in Inr (t, c)))"
  have "\<exists>st. for_loop 0 n f (0, 0) = Inr st \<and> st = (\<Sum>i < n. xs ! i, 0)"
    by (rule for_loop_rule [where Inv = "\<lambda>i st. st = (\<Sum>k < i. xs ! k, 0)"]) (use assms in \<open>auto simp: f_def Let_def\<close>)
  then show ?thesis by (auto simp: stats_sum_def f_def)
qed

theorem stats_sum_correct_witness: "stats_sum real_ops [1, 2, 4] 3 = Inr (\<Sum>i < 3. [1, 2, 4] ! i)"
  by (rule stats_sum_correct) simp

subsection \<open>Mean\<close>

lemma mean_from_real:
  assumes "n \<le> length xs" "lo \<le> n" "real lo * m = (\<Sum>i < lo. xs ! i)"
  shows "\<exists>r. mean_from real_ops xs lo n m = Inr r \<and> real n * r = (\<Sum>i < n. xs ! i)"
  unfolding mean_from_def
proof (rule for_loop_rule [where Inv = "\<lambda>i m. real i * m = (\<Sum>k < i. xs ! k)"])
  fix i r assume i: "lo \<le> i" "i < n" and inv: "real i * r = (\<Sum>k < i. xs ! k)"
  have w: "real (Suc i) * (1 - 1 / real (i + 1)) = real i" "real (Suc i) * (1 / real (i + 1)) = 1"
    by (simp_all add: field_simps)
  have "real (Suc i) * ((1 - 1 / real (i + 1)) * r + 1 / real (i + 1) * xs ! i) = real i * r + xs ! i"
    unfolding distrib_left mult.assoc [symmetric] w by simp
  then show "\<exists>s'. res_bind (arr_read xs i) (\<lambda>x. Inr (mathf_lerp real_ops r x (f_div real_ops (f_one real_ops) (f_of_nat real_ops (i + 1)))))
      = Inr s' \<and> real (Suc i) * s' = (\<Sum>k < Suc i. xs ! k)"
    using i inv assms(1) by (simp add: mathf_lerp_def)
qed (use assms in simp_all)

text \<open>A block loop up to a remainder runs once or not at all.\<close>

lemma for_by_once:
  assumes "0 < r" "r < w"
  shows "for_by w 0 r f s = f 0 s"
proof -
  have "(r + w - 1) div w = 1"
  proof -
    obtain k where k: "r = Suc k" using assms(1) by (cases r) auto
    then have "(r + w - 1) div w = (k + w) div w" by simp
    also have "\<dots> = 1" using assms(2) k by (simp add: div_add_self2)
    finally show ?thesis .
  qed
  then show ?thesis by (cases "f 0 s") (simp_all add: for_by_def)
qed

lemma lanes_end_once:
  assumes a: "0 < n mod w" and "0 < w"
  shows "lanes_end w n = w"
proof -
  have w: "n mod w < w" using assms(2) by simp
  obtain k where k: "n mod w = Suc k" using a by (cases "n mod w") auto
  then have "(n mod w + w - 1) div w = (k + w) div w" by simp
  also have "\<dots> = 1" using w k by (simp add: div_add_self2)
  finally show ?thesis by (simp add: lanes_end_def)
qed

lemma lanes_end_none: "0 < w \<Longrightarrow> n mod w = 0 \<Longrightarrow> lanes_end w n = 0"
  by (simp add: lanes_end_def)

lemma for_by_none: "0 < w \<Longrightarrow> for_by w 0 0 f s = Inr s"
  by (simp add: for_by_def)

lemma lerp_lanes_first: "length m = length v \<Longrightarrow> lerp_lanes real_ops m v 1 = v"
  by (induction m v rule: list_induct2) (simp_all add: lerp_lanes_def Let_def)

lemma mean_lanes_real:
  assumes "1 < w" "\<And>v. length v = w \<Longrightarrow> real w * hmean v = sum_list v"
    and "n \<le> length xs" "n mod w = 0 \<or> w \<le> n"
  shows "\<exists>r. stats_mean_lanes real_ops w hmean xs n = Inr r \<and> real n * r = (\<Sum>i < n. xs ! i)"
proof (cases "n mod w = 0")
  case True
  then show ?thesis
    using mean_from_real [of n xs 0 "hmean (replicate w 0)"] assms(1,3)
    by (simp add: stats_mean_lanes_def for_by_none lanes_end_none)
next
  case False
  then have r: "0 < n mod w" and w: "w \<le> n" using assms(4) by auto
  define v where "v = map (\<lambda>l. xs ! (0 + l)) [0..<w]"
  have "load_lanes w xs 0 = Inr v" using w assms(3) by (subst load_lanes_in) (simp_all add: v_def)
  then have "for_by w 0 (n mod w) (\<lambda>i m. res_bind (load_lanes w xs i) (\<lambda>v.
         Inr (lerp_lanes real_ops m v (f_div real_ops (f_one real_ops) (f_of_nat real_ops (i + 1)))))) (replicate w 0) = Inr v"
    by (subst for_by_once [OF r]) (use assms(1) in \<open>simp_all add: lerp_lanes_first v_def\<close>)
  moreover have "real w * hmean v = (\<Sum>i < w. xs ! i)"
    using assms(2) [of v] by (simp add: v_def interv_sum_list_conv_sum_set_nat lessThan_atLeast0)
  ultimately show ?thesis
    using mean_from_real [OF assms(3) w, of "hmean v"] assms(1) by (simp add: stats_mean_lanes_def lanes_end_once [OF r])
qed

text \<open>
  C33: For every vectorization mode the mean of a non-empty array is the sum of its entries divided by their
  number, in exact arithmetic, when the length is a multiple of the number of lanes or at least that
  number.
\<close>

theorem stats_mean_correct:
  assumes "n \<le> length xs" "0 < n" "mode \<le> 4"
    and "mode = 0 \<or> mode = 1 \<and> 4 \<le> n \<or> 2 \<le> mode \<and> 8 \<le> n"
  shows "stats_mean real_ops mode xs n = Inr ((\<Sum>i < n. xs ! i) / real n)"
proof -
  have "real 4 * mm_hmean_ps real_ops v = sum_list v" if "length v = 4" for v
    using mm_hsum_real [OF that] by (simp add: mm_hmean_ps_def)
  note sse = mean_lanes_real [of 4 "mm_hmean_ps real_ops", OF _ this assms(1)]
  have "real 8 * mm256_hmean_ps real_ops v = sum_list v" if "length v = 8" for v
    using mm256_hsum_real [OF that] by (simp add: mm256_hmean_ps_def)
  note avx = mean_lanes_real [of 8 "mm256_hmean_ps real_ops", OF _ this assms(1)]
  have scalar: "\<exists>r. stats_mean_scalar real_ops xs n = Inr r \<and> real n * r = (\<Sum>i < n. xs ! i)"
    using mean_from_real [of n xs 0 0] assms(1) by (simp add: stats_mean_scalar_def)
  from assms(3,4) consider "mode = 0" | "mode = 1" "4 \<le> n" | "mode = 2 \<or> mode = 3 \<or> mode = 4" "8 \<le> n" by linarith
  then have "\<exists>r. stats_mean real_ops mode xs n = Inr r \<and> real n * r = (\<Sum>i < n. xs ! i)"
    using scalar sse avx by cases (auto simp: stats_mean_def arr_read_def stats_mean_sse_def stats_mean_avx_def)
  then show ?thesis using assms(2) by (auto simp: field_simps)
qed

theorem stats_mean_correct_witness:
  "stats_mean real_ops 1 [1, 2, 3, 4, 5] 5 = Inr ((\<Sum>i < 5. [1, 2, 3, 4, 5] ! i) / real 5)"
  by (rule stats_mean_correct) simp_all

text \<open>
  The vector variants read past the end of short arrays, in any arithmetic: with fewer entries than lanes
  they load a full vector from the start.
\<close>

theorem stats_mean_short_out_of_bounds:
  assumes "0 < length xs" "length xs < (if mode = 1 then 4 else 8)" "1 \<le> mode" "mode \<le> 4"
  shows "stats_mean R mode xs (length xs) = Inl OutOfBounds"
proof -
  have lanes: "stats_mean_lanes R w hmean xs (length xs) = Inl OutOfBounds" if "length xs < w" for w hmean
    unfolding stats_mean_lanes_def
    by (subst for_by_once) (use assms(1) that in \<open>simp_all add: load_lanes_def\<close>)
  from assms(3,4) consider "mode = 1" | "mode = 2 \<or> mode = 3 \<or> mode = 4" by linarith
  then show ?thesis
    using lanes assms(2) by cases (auto simp: stats_mean_def arr_read_def stats_mean_sse_def stats_mean_avx_def)
qed

theorem stats_mean_short_out_of_bounds_witness:
  "stats_mean real_ops 1 [1, 2, 3] (length [1, 2, 3 :: real]) = Inl OutOfBounds"
  by (rule stats_mean_short_out_of_bounds) simp_all

subsection \<open>Variance\<close>

lemma square_update:
  fixes q m x :: real
  assumes "0 < k"
  shows "(q - m * m / k) + 1 / ((k + 1) * (k + 1 - 1)) * (((k + 1) * x - (m + x)) * ((k + 1) * x - (m + x)))
    = (q + x * x) - (m + x) * (m + x) / (k + 1)"
proof -
  have "k \<noteq> 0" "k + 1 \<noteq> 0" using assms by simp_all
  then show ?thesis by (simp add: divide_simps) algebra
qed

lemma squares_about_mean:
  fixes x :: "nat \<Rightarrow> real"
  assumes "0 < n" "c = (\<Sum>i < n. x i) / real n"
  shows "(\<Sum>i < n. (x i - c) * (x i - c)) = (\<Sum>i < n. x i * x i) - (\<Sum>i < n. x i) * (\<Sum>i < n. x i) / real n"
proof -
  have "(\<Sum>i < n. (x i - c) * (x i - c)) = (\<Sum>i < n. x i * x i) - 2 * c * (\<Sum>i < n. x i) + real n * (c * c)"
    by (simp add: algebra_simps sum.distrib sum_subtractf sum_distrib_left)
  also have "real n * (c * c) = c * (\<Sum>i < n. x i)" using assms by simp
  finally show ?thesis unfolding assms(2) by (simp add: algebra_simps)
qed

text \<open>
  The variance by the updating formula of Youngs and Cramer is the mean of the squared distances from the
  mean, in exact arithmetic, for every non-empty array.
\<close>

theorem stats_variance_correct:
  assumes "n \<le> length xs" "0 < n" "c = (\<Sum>i < n. xs ! i) / real n"
  shows "stats_variance real_ops xs n = Inr ((\<Sum>i < n. (xs ! i - c) * (xs ! i - c)) / real n)"
proof -
  define f where "f = (\<lambda>i (k, m, s). res_bind (arr_read xs i) (\<lambda>x.
         let k = f_add real_ops k (f_one real_ops); m = f_add real_ops m x;
             s = f_add real_ops s (f_mul real_ops (f_div real_ops (f_one real_ops) (f_mul real_ops k (f_sub real_ops k (f_one real_ops))))
                   (mathf_sqr real_ops (f_sub real_ops (f_mul real_ops k x) m)))
         in Inr (k, m, s)))"
  define Inv where "Inv = (\<lambda>i st. st = (real i, \<Sum>k < i. xs ! k,
     (\<Sum>k < i. xs ! k * xs ! k) - (\<Sum>k < i. xs ! k) * (\<Sum>k < i. xs ! k) / real i))"
  have "\<exists>st. for_loop 1 n f (1, xs ! 0, 0) = Inr st \<and> Inv n st"
  proof (rule for_loop_rule)
    show "1 \<le> n" using assms(2) by simp
    show "Inv 1 (1, xs ! 0, 0)" by (simp add: Inv_def)
    fix i st assume "1 \<le> i" "i < n" "Inv i st"
    then show "\<exists>st'. f i st = Inr st' \<and> Inv (Suc i) st'"
      using assms(1) square_update [of "real i" "\<Sum>k < i. xs ! k * xs ! k" "\<Sum>k < i. xs ! k" "xs ! i"]
      by (simp add: f_def Inv_def Let_def mathf_sqr_def add.commute [of 1])
  qed
  moreover have "arr_read xs 0 = Inr (xs ! 0)" by (rule arr_read_in) (use assms in linarith)
  ultimately show ?thesis
    using squares_about_mean [OF assms(2,3)] by (auto simp: stats_variance_def f_def Inv_def)
qed

theorem stats_variance_correct_witness:
  "stats_variance real_ops [1, 3] 2 = Inr ((\<Sum>i < 2. ([1, 3] ! i - 2) * ([1, 3] ! i - 2)) / real 2)"
  by (rule stats_variance_correct) (simp_all add: numeral_2_eq_2)

subsection \<open>Minimum\<close>

text \<open>The horizontal minimum of four lanes, and the maximum likewise, is the first lane.\<close>

lemma mm_hfold_first:
  assumes "length x = 4" "\<And>a. f a a = a"
  shows "mm_hfold_ps f x = x ! 0"
  using assms by (auto dest!: length4 simp: mm_hfold_ps_def Let_def)

lemma fold_from_fold:
  assumes "n \<le> length xs"
  shows "fold_from f xs lo n m = Inr (foldl (\<lambda>m i. f m (xs ! i)) m [lo..<n])"
  unfolding fold_from_def by (rule for_loop_fold) (use assms in simp)

lemma foldl_min: "foldl (\<lambda>m i. min m (xs ! i)) m [lo..<n] = Min (insert (m :: real) ((!) xs ` {lo..<n}))"
proof (induction n)
  case (Suc n)
  show ?case
  proof (cases "lo \<le> n")
    case True
    then have "insert m ((!) xs ` {lo..<Suc n}) = insert (xs ! n) (insert m ((!) xs ` {lo..<n}))"
      by (auto simp: atLeastLessThanSuc)
    then show ?thesis using True Suc.IH by (simp add: min.commute)
  qed simp
qed simp

lemma mm256_hfold_min: "length v = 8 \<Longrightarrow> mm256_hfold_ps min v = Min (set (v :: real list))"
proof -
  assume "length v = 8"
  then obtain a b c d e f g h where v: "v = [a, b, c, d, e, f, g, h]" using length8 by blast
  have "mm256_hfold_ps min v = min (min (min f b) (min h d)) (min (min e a) (min g c))"
    by (simp add: v mm256_hfold_ps_def Let_def del: min_less_iff_conj)
  also have "\<dots> = min a (min b (min c (min d (min e (min f (min g h))))))"
    by (simp only: min.assoc min.commute min.left_commute)
  also have "\<dots> = Min (set v)" by (simp only: v list.set Min_insert finite.intros finite_insert insert_not_empty
        not_False_eq_True Min_singleton)
  finally show ?thesis .
qed

lemma fold_lanes_once:
  assumes "n \<le> length xs" "w \<le> n" "0 < n mod w" "0 < w"
  shows "stats_fold_lanes w hfold min xs n
    = Inr (Min (insert (min (xs ! 0) (hfold (take w xs))) ((!) (xs :: real list) ` {w..<n})))"
proof -
  have "n mod w < w" using assms(4) by simp
  then show ?thesis
    unfolding stats_fold_lanes_def
    by (subst arr_read_in, use assms in force)
      (use assms lanes_end_once [OF assms(3,4)] in
        \<open>simp add: for_by_once [OF assms(3)] load_lanes_def fold_from_fold foldl_min\<close>)
qed

lemma scalar_min:
  assumes "n \<le> length xs" "0 < n"
  shows "stats_fold_scalar min xs n = Inr (Min ((!) (xs :: real list) ` {..<n}))"
proof -
  have "insert (xs ! 0) ((!) xs ` {1..<n}) = (!) xs ` {..<n}"
    using assms(2) by (auto simp: image_iff) (metis One_nat_def Suc_leI atLeastLessThan_iff neq0_conv)
  moreover have "0 < length xs" using assms by linarith
  ultimately show ?thesis using assms(1) unfolding stats_fold_scalar_def by (subst arr_read_in) (simp_all add: fold_from_fold foldl_min)
qed

lemma lanes_min_none:
  assumes "n \<le> length xs" "0 < n" "0 < w" "n mod w = 0"
  shows "stats_fold_lanes w hfold min xs n = Inr (Min ((!) (xs :: real list) ` {..<n}))"
proof -
  have "insert (xs ! 0) ((!) xs ` {0..<n}) = (!) xs ` {..<n}" using assms(2) by (auto simp: lessThan_atLeast0)
  moreover have "0 < length xs" using assms(1,2) by linarith
  ultimately show ?thesis using assms unfolding stats_fold_lanes_def
    by (subst arr_read_in) (simp_all add: for_by_none lanes_end_none fold_from_fold foldl_min del: length_greater_0_conv)
qed

text \<open>
  The minimum of a non-empty array is found by the scalar function, by the AVX function on arrays of at
  least eight entries, and by the SSE function on arrays whose length is a multiple of four.
\<close>

theorem stats_min_correct:
  assumes "n \<le> length xs" "0 < n" "mode \<le> 4"
    and "mode = 0 \<or> mode = 1 \<and> n mod 4 = 0 \<or> 2 \<le> mode \<and> 8 \<le> n"
  shows "stats_min real_ops mode xs n = Inr (Min ((!) xs ` {..<n}))"
proof -
  have avx: "stats_fold_lanes 8 (mm256_hfold_ps min) min xs n = Inr (Min ((!) xs ` {..<n}))" if "8 \<le> n"
  proof (cases "n mod 8 = 0")
    case True
    then show ?thesis using lanes_min_none [OF assms(1,2)] by simp
  next
    case False
    have "set (take 8 xs) = (!) xs ` {..<8}"
      using that assms(1) by (simp add: nth_image lessThan_atLeast0)
    then have h: "mm256_hfold_ps min (take 8 xs) = Min ((!) xs ` {..<8})"
      using that assms(1) by (simp add: mm256_hfold_min)
    have n: "8 < n" using that False by (cases "n = 8") auto
    define A B where "A = (!) xs ` {..<8}" "B = (!) xs ` {8..<n}"
    have "{..<n} = {..<8} \<union> {8..<n}" using that by auto
    then have "(!) xs ` {..<n} = A \<union> B" by (simp add: A_B_def image_Un)
    moreover have x0: "xs ! 0 \<in> A" by (simp add: A_B_def)
    moreover have "finite A" "finite B" "B \<noteq> {}" using n by (simp_all add: A_B_def)
    moreover from this(1) x0 have "min (xs ! 0) (Min A) = Min A" by (intro min_absorb2) simp
    moreover have "A \<noteq> {}" using x0 by blast
    ultimately show ?thesis
      using fold_lanes_once [OF assms(1) that, of "mm256_hfold_ps min"] False
      by (simp add: h Min_Un flip: A_B_def)
  qed
  from assms(3,4) consider "mode = 0" | "mode = 1" "n mod 4 = 0" | "mode = 2 \<or> mode = 3 \<or> mode = 4" "8 \<le> n" by linarith
  then show ?thesis
    using scalar_min [OF assms(1,2)] lanes_min_none [OF assms(1,2), of 4 "mm_hfold_ps min"] avx
    by cases (auto simp: stats_min_def arr_read_def stats_min_scalar_def stats_min_sse_def stats_min_avx_def stats_min_avx5_def
        mm_hmin_ps_def mm256_hmin_ps_def)
qed

theorem stats_min_correct_witness:
  "stats_min real_ops 1 [3, 1, 2, 5] 4 = Inr (Min ((!) [3, 1, 2, 5] ` {..<4}))"
  by (rule stats_min_correct) simp_all

text \<open>
  On an array of more than four entries whose length is not a multiple of four, the SSE minimum leaves
  out the second, third and fourth entry: the horizontal minimum is the first lane.
\<close>

theorem stats_min_sse_skips:
  assumes "n \<le> length xs" "4 \<le> n" "n mod 4 \<noteq> 0"
  shows "stats_min real_ops 1 xs n = Inr (Min (insert (xs ! 0) ((!) xs ` {4..<n})))"
  using fold_lanes_once [of n xs 4 "mm_hfold_ps min"] assms mm_hfold_first [of "take 4 xs" min]
  by (simp add: stats_min_def arr_read_def stats_min_sse_def mm_hmin_ps_def)

theorem stats_min_sse_skips_witness:
  "stats_min real_ops 1 [3, 0, 0, 0, 5] 5 = Inr 3"
  by (subst stats_min_sse_skips) (simp_all add: atLeastLessThan_nat_numeral)

end
