(* ===== verification/Int128.thy ===== *)
theory Int128
  imports Prelude CType
begin

text \<open>
  The 128-bit integers of \<^verbatim>\<open>include/libromano/int128.h\<close> in both implementations: on the compiler's
  \<^verbatim>\<open>__int128\<close>, and on the two 64-bit lanes of an SSE register (the names with \<open>sse_\<close>). The lemmas
  show that the second computes the first, operation by operation, except for left shifts by 65 to
  127 bits, which the SSE version treats as a shift by 64; and that the printed text reads back as
  the number.
\<close>

type_synonym u128 = "128 word"

subsection \<open>The implementation on \<open>__int128\<close>\<close>

definition make_uint128 :: "u64 \<Rightarrow> u64 \<Rightarrow> u128" where
  "make_uint128 high low = push_bit 64 (ucast high) OR ucast low"

definition make_int128 :: "u64 \<Rightarrow> u64 \<Rightarrow> u128" where
  "make_int128 high low = push_bit 64 (ucast high) OR ucast low"

definition uint128_low :: "u128 \<Rightarrow> u64" where
  "uint128_low x = ucast x"

definition uint128_high :: "u128 \<Rightarrow> u64" where
  "uint128_high x = ucast (drop_bit 64 x)"

definition uint128_add :: "u128 \<Rightarrow> u128 \<Rightarrow> u128" where
  "uint128_add a b = a + b"

text \<open>The signed operations overflow, which is undefined behaviour.\<close>

definition signed_result :: "int \<Rightarrow> u128 res" where
  "signed_result n = (if - (2 ^ 127) \<le> n \<and> n < 2 ^ 127 then Inr (word_of_int n) else Inl SignedOverflow)"

definition int128_add :: "u128 \<Rightarrow> u128 \<Rightarrow> u128 res" where
  "int128_add a b = signed_result (sint a + sint b)"

definition uint128_sub :: "u128 \<Rightarrow> u128 \<Rightarrow> u128" where
  "uint128_sub a b = a - b"

definition int128_sub :: "u128 \<Rightarrow> u128 \<Rightarrow> u128 res" where
  "int128_sub a b = signed_result (sint a - sint b)"

definition uint128_eq :: "u128 \<Rightarrow> u128 \<Rightarrow> bool" where
  "uint128_eq a b \<longleftrightarrow> a = b"

definition uint128_lt :: "u128 \<Rightarrow> u128 \<Rightarrow> bool" where
  "uint128_lt a b \<longleftrightarrow> a < b"

definition uint128_gt :: "u128 \<Rightarrow> u128 \<Rightarrow> bool" where
  "uint128_gt a b \<longleftrightarrow> a > b"

definition uint128_and :: "u128 \<Rightarrow> u128 \<Rightarrow> u128" where
  "uint128_and a b = a AND b"

definition uint128_or :: "u128 \<Rightarrow> u128 \<Rightarrow> u128" where
  "uint128_or a b = a OR b"

definition uint128_xor :: "u128 \<Rightarrow> u128 \<Rightarrow> u128" where
  "uint128_xor a b = a XOR b"

definition uint128_not :: "u128 \<Rightarrow> u128" where
  "uint128_not a = NOT a"

definition uint128_shl :: "u128 \<Rightarrow> int \<Rightarrow> u128" where
  "uint128_shl a cnt =
     (if cnt \<ge> 128 then 0 else if cnt \<le> 0 then a else push_bit (nat cnt) a)"

definition uint128_shr :: "u128 \<Rightarrow> int \<Rightarrow> u128" where
  "uint128_shr a cnt =
     (if cnt \<ge> 128 then 0 else if cnt \<le> 0 then a else drop_bit (nat cnt) a)"

text \<open>\<^verbatim>\<open>%016llX\<close>: sixteen upper-case hexadecimal digits, the most significant first.\<close>

definition hex_digit :: "nat \<Rightarrow> u8" where
  "hex_digit d = (if d < 10 then of_nat (48 + d) else of_nat (55 + d))"

definition hex16 :: "u64 \<Rightarrow> bytes" where
  "hex16 x = map (\<lambda>i. hex_digit (unat x div 16 ^ (15 - i) mod 16)) [0..<16]"

definition print_uint128 :: "u128 \<Rightarrow> bytes" where
  "print_uint128 x =
     (let low = ucast x; high = ucast (drop_bit 64 x) in cstr ''0x'' @ hex16 high @ hex16 low)"

definition print_int128 :: "u128 \<Rightarrow> bytes" where
  "print_int128 x =
     (let low = ucast x; high = ucast (drop_bit 64 x)
      in (if high AND 0x8000000000000000 \<noteq> 0 then cstr ''-'' else []) @ cstr ''0x'' @
         hex16 (high AND 0x7FFFFFFFFFFFFFFF) @ hex16 low)"

subsection \<open>The implementation on SSE registers\<close>

record m128i =
  lane1 :: u64
  lane0 :: u64

text \<open>The intrinsics the code uses, lane by lane; shifts by 64 bits and more give zero.\<close>

definition mm_set_epi64x :: "u64 \<Rightarrow> u64 \<Rightarrow> m128i" where
  "mm_set_epi64x hi lo = \<lparr>lane1 = hi, lane0 = lo\<rparr>"

definition on_lanes :: "(u64 \<Rightarrow> u64 \<Rightarrow> u64) \<Rightarrow> m128i \<Rightarrow> m128i \<Rightarrow> m128i" where
  "on_lanes f a b = \<lparr>lane1 = f (lane1 a) (lane1 b), lane0 = f (lane0 a) (lane0 b)\<rparr>"

definition mm_cmpeq_epi64 :: "m128i \<Rightarrow> m128i \<Rightarrow> m128i" where
  "mm_cmpeq_epi64 = on_lanes (\<lambda>x y. if x = y then - 1 else 0)"

definition movemask_lane :: "u64 \<Rightarrow> nat" where
  "movemask_lane x = (\<Sum>i\<leftarrow>[0..<8]. if bit x (8 * i + 7) then 2 ^ i else 0)"

definition mm_movemask_epi8 :: "m128i \<Rightarrow> nat" where
  "mm_movemask_epi8 x = 256 * movemask_lane (lane1 x) + movemask_lane (lane0 x)"

definition mm_slli_epi64 :: "m128i \<Rightarrow> nat \<Rightarrow> m128i" where
  "mm_slli_epi64 a n = on_lanes (\<lambda>x _. push_bit n x) a a"

definition mm_srli_epi64 :: "m128i \<Rightarrow> nat \<Rightarrow> m128i" where
  "mm_srli_epi64 a n = on_lanes (\<lambda>x _. drop_bit n x) a a"

definition mm_slli_si128_8 :: "m128i \<Rightarrow> m128i" where
  "mm_slli_si128_8 a = \<lparr>lane1 = lane0 a, lane0 = 0\<rparr>"

definition mm_srli_si128_8 :: "m128i \<Rightarrow> m128i" where
  "mm_srli_si128_8 a = \<lparr>lane1 = 0, lane0 = lane1 a\<rparr>"

definition sse_make_uint128 :: "u64 \<Rightarrow> u64 \<Rightarrow> m128i" where
  "sse_make_uint128 high low = mm_set_epi64x high low"

definition sse_make_int128 :: "u64 \<Rightarrow> u64 \<Rightarrow> m128i" where
  "sse_make_int128 high low = mm_set_epi64x high low"

definition sse_uint128_low :: "m128i \<Rightarrow> u64" where
  "sse_uint128_low x = lane0 x"

definition sse_uint128_high :: "m128i \<Rightarrow> u64" where
  "sse_uint128_high x = lane1 x"

definition sse_uint128_add :: "m128i \<Rightarrow> m128i \<Rightarrow> m128i" where
  "sse_uint128_add a b =
     (let sum = on_lanes (+) a b;
          a_low = sse_uint128_low a; b_low = sse_uint128_low b; sum_low = sse_uint128_low sum
      in if sum_low < a_low \<or> sum_low < b_low then on_lanes (+) sum (mm_set_epi64x 1 0) else sum)"

definition sse_int128_add :: "m128i \<Rightarrow> m128i \<Rightarrow> m128i" where
  "sse_int128_add a b = sse_uint128_add a b"

definition sse_uint128_sub :: "m128i \<Rightarrow> m128i \<Rightarrow> m128i" where
  "sse_uint128_sub a b =
     (let diff = on_lanes (-) a b; a_low = sse_uint128_low a; b_low = sse_uint128_low b
      in if a_low < b_low then on_lanes (-) diff (mm_set_epi64x 1 0) else diff)"

definition sse_int128_sub :: "m128i \<Rightarrow> m128i \<Rightarrow> m128i" where
  "sse_int128_sub a b = sse_uint128_sub a b"

definition sse_uint128_eq :: "m128i \<Rightarrow> m128i \<Rightarrow> bool" where
  "sse_uint128_eq a b \<longleftrightarrow> mm_movemask_epi8 (mm_cmpeq_epi64 a b) = 0xFFFF"

definition sse_uint128_lt :: "m128i \<Rightarrow> m128i \<Rightarrow> bool" where
  "sse_uint128_lt a b =
     (let a_hi = sse_uint128_high a; b_hi = sse_uint128_high b
      in if a_hi \<noteq> b_hi then a_hi < b_hi else sse_uint128_low a < sse_uint128_low b)"

definition sse_uint128_gt :: "m128i \<Rightarrow> m128i \<Rightarrow> bool" where
  "sse_uint128_gt a b = sse_uint128_lt b a"

definition sse_uint128_and :: "m128i \<Rightarrow> m128i \<Rightarrow> m128i" where
  "sse_uint128_and a b = on_lanes (AND) a b"

definition sse_uint128_or :: "m128i \<Rightarrow> m128i \<Rightarrow> m128i" where
  "sse_uint128_or a b = on_lanes (OR) a b"

definition sse_uint128_xor :: "m128i \<Rightarrow> m128i \<Rightarrow> m128i" where
  "sse_uint128_xor a b = on_lanes (XOR) a b"

definition sse_uint128_not :: "m128i \<Rightarrow> m128i" where
  "sse_uint128_not a = on_lanes (XOR) a (mm_set_epi64x (- 1) (- 1))"

definition sse_uint128_shl :: "m128i \<Rightarrow> int \<Rightarrow> m128i" where
  "sse_uint128_shl a cnt =
     (if cnt \<ge> 64 then (if cnt \<ge> 128 then mm_set_epi64x 0 0 else mm_slli_si128_8 a)
      else if cnt > 0 then
        let high_shifted = mm_slli_epi64 a (nat cnt);
            cross_boundary = mm_srli_epi64 a (64 - nat cnt);
            cross_boundary = mm_slli_si128_8 cross_boundary
        in on_lanes (OR) high_shifted cross_boundary
      else a)"

definition sse_uint128_shr :: "m128i \<Rightarrow> int \<Rightarrow> m128i" where
  "sse_uint128_shr a cnt =
     (if cnt \<ge> 128 then mm_set_epi64x 0 0
      else
        let (a, cnt) = (if cnt \<ge> 64 then (mm_srli_si128_8 a, cnt - 64) else (a, cnt))
        in if cnt > 0 then
             let low_shifted = mm_srli_epi64 a (nat cnt);
                 cross_boundary = mm_slli_epi64 a (64 - nat cnt);
                 cross_boundary = mm_srli_si128_8 cross_boundary
             in on_lanes (OR) low_shifted cross_boundary
           else a)"

definition sse_print_uint128 :: "m128i \<Rightarrow> bytes" where
  "sse_print_uint128 x = cstr ''0x'' @ hex16 (lane1 x) @ hex16 (lane0 x)"

definition sse_print_int128 :: "m128i \<Rightarrow> bytes" where
  "sse_print_int128 x =
     (if lane1 x AND 0x8000000000000000 \<noteq> 0 then cstr ''-'' else []) @ cstr ''0x'' @
     hex16 (lane1 x AND 0x7FFFFFFFFFFFFFFF) @ hex16 (lane0 x)"

subsection \<open>Refinement\<close>

text \<open>The number in a register.\<close>

definition u128_of :: "m128i \<Rightarrow> u128" where
  "u128_of x = make_uint128 (lane1 x) (lane0 x)"

lemma bit_make_uint128:
  "bit (make_uint128 h l) n \<longleftrightarrow> (if n < 64 then bit l n else n < 128 \<and> bit h (n - 64))"
  by (auto simp: make_uint128_def bit_simps dest: bit_imp_le_length)

lemma u128_parts [simp]:
  "uint128_low (make_uint128 h l) = l"
  "uint128_high (make_uint128 h l) = h"
  by (rule bit_word_eqI, simp add: uint128_low_def uint128_high_def bit_simps bit_make_uint128)+

lemma u128_join: "make_uint128 (uint128_high x) (uint128_low x) = x"
  by (rule bit_word_eqI) (auto simp: uint128_low_def uint128_high_def bit_simps bit_make_uint128)

lemma unat_u64_less: "unat (x :: u64) < 2 ^ 64"
  using unsigned_less [of x, where 'a = nat] by simp

lemma unat_make_uint128: "unat (make_uint128 h l) = unat h * 2 ^ 64 + unat l"
proof -
  have "make_uint128 h l = push_bit 64 (ucast h) + ucast l"
    unfolding make_uint128_def
    by (rule disjunctive_add [symmetric]) (auto simp: bit_simps dest: bit_imp_le_length)
  moreover have "unat (push_bit 64 (ucast h :: u128)) = unat h * 2 ^ 64"
    using unat_u64_less [of h] unat_ucast_up [of h, where 'b = 128]
    by (simp add: push_bit_eq_mult unat_word_ariths)
  moreover have "unat (ucast l :: u128) = unat l" by (rule unat_ucast_up) simp
  moreover have "unat h * 2 ^ 64 + unat l < 2 ^ 128"
    using unat_u64_less [of h] unat_u64_less [of l] by simp
  ultimately show ?thesis by (simp add: unat_add_no_wrap)
qed

lemma nat_words_add:
  fixes B :: nat
  assumes "0 < B"
  shows "((h1 + h2 + (l1 + l2) div B) mod B) * B + (l1 + l2) mod B = ((h1 * B + l1) + (h2 * B + l2)) mod (B * B)"
proof -
  have eq: "(h1 * B + l1) + (h2 * B + l2) = (h1 + h2) * B + (l1 + l2)" by (simp add: algebra_simps)
  have "((h1 + h2) * B + (l1 + l2)) div B = h1 + h2 + (l1 + l2) div B" using assms by simp
  moreover have "((h1 + h2) * B + (l1 + l2)) mod B = (l1 + l2) mod B" by simp
  ultimately show ?thesis unfolding eq mod_mult2_eq by simp
qed

lemma sum_wraps_iff:
  fixes a b :: u64
  shows "a + b < a \<or> a + b < b \<longleftrightarrow> 2 ^ 64 \<le> unat a + unat b"
  using unat_u64_less [of a] unat_u64_less [of b]
  by (auto simp: word_less_nat_alt unat_word_ariths le_mod_geq mod_if)

lemma sse_add_refines: "u128_of (sse_uint128_add a b) = uint128_add (u128_of a) (u128_of b)"
proof -
  define c where "c = (unat (lane0 a) + unat (lane0 b)) div 2 ^ 64"
  have c: "c = (if 2 ^ 64 \<le> unat (lane0 a) + unat (lane0 b) then 1 else 0)"
    using unat_u64_less [of "lane0 a"] unat_u64_less [of "lane0 b"]
    by (auto simp: c_def intro: div_nat_eqI)
  have "sse_uint128_add a b = \<lparr>lane1 = lane1 a + lane1 b + of_nat c, lane0 = lane0 a + lane0 b\<rparr>"
    by (simp add: sse_uint128_add_def Let_def sse_uint128_low_def on_lanes_def mm_set_epi64x_def sum_wraps_iff c)
  moreover have "unat (lane1 a + lane1 b + of_nat c) = (unat (lane1 a) + unat (lane1 b) + c) mod 2 ^ 64"
    by (simp add: unat_word_ariths c mod_add_left_eq)
  ultimately have "unat (u128_of (sse_uint128_add a b))
      = ((unat (lane1 a) + unat (lane1 b) + c) mod 2 ^ 64) * 2 ^ 64 + (unat (lane0 a) + unat (lane0 b)) mod 2 ^ 64"
    by (simp add: u128_of_def unat_make_uint128 unat_word_ariths)
  also have "\<dots> = (unat (u128_of a) + unat (u128_of b)) mod (2 ^ 64 * 2 ^ 64)"
    unfolding c_def u128_of_def unat_make_uint128 by (rule nat_words_add) simp
  finally show ?thesis
    by (simp add: word_unat_eq_iff unat_word_ariths uint128_add_def)
qed

lemma sse_sub_refines: "u128_of (sse_uint128_sub a b) = uint128_sub (u128_of a) (u128_of b)"
proof -
  have le: "\<not> lane0 a < lane0 a - lane0 b" if "\<not> lane0 a < lane0 b"
    using that by (simp add: word_less_nat_alt unat_sub word_le_nat_alt not_less)
  have "sse_uint128_add (sse_uint128_sub a b) b = a"
    using le by (auto simp: sse_uint128_add_def sse_uint128_sub_def Let_def sse_uint128_low_def on_lanes_def mm_set_epi64x_def)
  then have "uint128_add (u128_of (sse_uint128_sub a b)) (u128_of b) = u128_of a"
    using sse_add_refines [of "sse_uint128_sub a b" b] by simp
  then show ?thesis by (simp add: uint128_add_def uint128_sub_def algebra_simps eq_diff_eq)
qed

lemma u128_of_inject: "u128_of a = u128_of b \<longleftrightarrow> a = b"
  by (metis u128_of_def u128_parts m128i.surjective old.unit.exhaust)

lemma movemask_lane_values [simp]: "movemask_lane (- 1) = 255" "movemask_lane 0 = 0"
  by (simp_all add: movemask_lane_def upt_rec)

lemma sse_eq_refines: "sse_uint128_eq a b = uint128_eq (u128_of a) (u128_of b)"
  by (auto simp: sse_uint128_eq_def uint128_eq_def u128_of_inject mm_movemask_epi8_def mm_cmpeq_epi64_def on_lanes_def)

lemma sse_lt_refines: "sse_uint128_lt a b = uint128_lt (u128_of a) (u128_of b)"
proof -
  have "h1 * (2::nat) ^ 64 + l1 < h2 * 2 ^ 64 + l2 \<longleftrightarrow> (if h1 \<noteq> h2 then h1 < h2 else l1 < l2)"
    if "l1 < 2 ^ 64" "l2 < 2 ^ 64" for h1 h2 l1 l2
    using that by auto
  then show ?thesis
    unfolding uint128_lt_def sse_uint128_lt_def sse_uint128_low_def sse_uint128_high_def Let_def
      word_less_nat_alt u128_of_def unat_make_uint128 word_unat_eq_iff
    using unat_u64_less by simp
qed

lemma sse_bitwise_refines:
  "u128_of (sse_uint128_and a b) = uint128_and (u128_of a) (u128_of b)"
  "u128_of (sse_uint128_or a b) = uint128_or (u128_of a) (u128_of b)"
  "u128_of (sse_uint128_xor a b) = uint128_xor (u128_of a) (u128_of b)"
  "u128_of (sse_uint128_not a) = uint128_not (u128_of a)"
  by (rule bit_word_eqI,
      auto simp: u128_of_def bit_make_uint128 bit_simps on_lanes_def mm_set_epi64x_def
        sse_uint128_and_def sse_uint128_or_def sse_uint128_xor_def sse_uint128_not_def
        uint128_and_def uint128_or_def uint128_xor_def uint128_not_def)+

lemma sse_shl_refines:
  assumes "n \<le> 64 \<or> 128 \<le> n"
  shows "u128_of (sse_uint128_shl a n) = uint128_shl (u128_of a) n"
proof -
  consider "n \<le> 0" | "0 < n" "n < 64" | "n = 64" | "128 \<le> n" using assms by linarith
  then show ?thesis
  proof cases
    case 2
    define k where "k = nat n"
    with 2 have k: "n = int k" "0 < k" "k < 64" by auto
    show ?thesis
      by (rule bit_word_eqI)
        (use k in \<open>auto simp: u128_of_def bit_make_uint128 bit_simps on_lanes_def sse_uint128_shl_def uint128_shl_def
           mm_slli_epi64_def mm_srli_epi64_def mm_slli_si128_8_def Let_def add.commute dest: bit_imp_le_length\<close>)
  next
    case 3
    show ?thesis
      by (rule bit_word_eqI)
        (use 3 in \<open>auto simp: u128_of_def bit_make_uint128 bit_simps sse_uint128_shl_def uint128_shl_def mm_slli_si128_8_def\<close>)
  qed (simp_all add: sse_uint128_shl_def uint128_shl_def u128_of_def mm_set_epi64x_def make_uint128_def)
qed

lemma sse_shr_refines: "u128_of (sse_uint128_shr a n) = uint128_shr (u128_of a) n"
proof -
  consider "n \<le> 0" | "0 < n" "n < 64" | "n = 64" | "64 < n" "n < 128" | "128 \<le> n" by linarith
  then show ?thesis
  proof cases
    case 2
    define k where "k = nat n"
    with 2 have k: "n = int k" "0 < k" "k < 64" by auto
    show ?thesis
      by (rule bit_word_eqI)
        (use k in \<open>auto simp: u128_of_def bit_make_uint128 bit_simps on_lanes_def sse_uint128_shr_def uint128_shr_def
           mm_slli_epi64_def mm_srli_epi64_def mm_srli_si128_8_def Let_def add.commute dest: bit_imp_le_length\<close>)
  next
    case 3
    show ?thesis
      by (rule bit_word_eqI)
        (use 3 in \<open>auto simp: u128_of_def bit_make_uint128 bit_simps sse_uint128_shr_def uint128_shr_def mm_srli_si128_8_def
           dest: bit_imp_le_length\<close>)
  next
    case 4
    define k where "k = nat (n - 64)"
    with 4 have k: "n = int k + 64" "0 < k" "k < 64" by auto
    then have nk: "nat n = k + 64" by simp
    show ?thesis
      by (rule bit_word_eqI)
        (use k nk in \<open>auto simp: u128_of_def bit_make_uint128 bit_simps on_lanes_def sse_uint128_shr_def uint128_shr_def
           mm_slli_epi64_def mm_srli_epi64_def mm_srli_si128_8_def Let_def add.commute add.left_commute dest: bit_imp_le_length\<close>)
  qed (simp_all add: sse_uint128_shr_def uint128_shr_def u128_of_def mm_set_epi64x_def make_uint128_def)
qed

text \<open>
  C27: The SSE implementation computes what the \<open>__int128\<close> one does, for all arguments: construction, parts,
  addition, subtraction, comparisons, bitwise operations, right shifts, and left shifts except by 65 to
  127 bits; the signed operations agree whenever they do not overflow.
\<close>

theorem int128_sse_refines:
  "u128_of (sse_make_uint128 h l) = make_uint128 h l \<and>
   sse_uint128_low a = uint128_low (u128_of a) \<and> sse_uint128_high a = uint128_high (u128_of a) \<and>
   u128_of (sse_uint128_add a b) = uint128_add (u128_of a) (u128_of b) \<and>
   u128_of (sse_uint128_sub a b) = uint128_sub (u128_of a) (u128_of b) \<and>
   int128_add (u128_of a) (u128_of b) \<in> {Inr (u128_of (sse_int128_add a b)), Inl SignedOverflow} \<and>
   int128_sub (u128_of a) (u128_of b) \<in> {Inr (u128_of (sse_int128_sub a b)), Inl SignedOverflow} \<and>
   sse_uint128_eq a b = uint128_eq (u128_of a) (u128_of b) \<and>
   sse_uint128_lt a b = uint128_lt (u128_of a) (u128_of b) \<and>
   sse_uint128_gt a b = uint128_gt (u128_of a) (u128_of b) \<and>
   u128_of (sse_uint128_and a b) = uint128_and (u128_of a) (u128_of b) \<and>
   u128_of (sse_uint128_or a b) = uint128_or (u128_of a) (u128_of b) \<and>
   u128_of (sse_uint128_xor a b) = uint128_xor (u128_of a) (u128_of b) \<and>
   u128_of (sse_uint128_not a) = uint128_not (u128_of a) \<and>
   u128_of (sse_uint128_shr a n) = uint128_shr (u128_of a) n \<and>
   u128_of (sse_uint128_shl a (int s)) =
     uint128_shl (u128_of a) (if 64 < s \<and> s < 128 then 64 else int s)"
proof (intro conjI)
  have "(word_of_int (sint x + sint y) :: u128) = x + y" "(word_of_int (sint x - sint y) :: u128) = x - y" for x y :: u128
    by (simp_all flip: wi_hom_syms add: wi_hom_add [symmetric])
  then show "int128_add (u128_of a) (u128_of b) \<in> {Inr (u128_of (sse_int128_add a b)), Inl SignedOverflow}"
    "int128_sub (u128_of a) (u128_of b) \<in> {Inr (u128_of (sse_int128_sub a b)), Inl SignedOverflow}"
    by (auto simp: int128_add_def int128_sub_def signed_result_def sse_int128_add_def sse_int128_sub_def
        sse_add_refines sse_sub_refines uint128_add_def uint128_sub_def)
  show "u128_of (sse_uint128_shl a (int s)) = uint128_shl (u128_of a) (if 64 < s \<and> s < 128 then 64 else int s)"
  proof (cases "64 < s \<and> s < 128")
    case True
    then have "sse_uint128_shl a (int s) = sse_uint128_shl a 64" by (simp add: sse_uint128_shl_def)
    then show ?thesis using True sse_shl_refines [of 64 a] by simp
  qed (auto intro: sse_shl_refines)
  show "sse_uint128_gt a b = uint128_gt (u128_of a) (u128_of b)"
    by (simp add: sse_uint128_gt_def sse_lt_refines uint128_gt_def uint128_lt_def)
qed (simp_all add: sse_add_refines sse_sub_refines sse_eq_refines sse_lt_refines sse_bitwise_refines sse_shr_refines,
     simp_all add: u128_of_def sse_make_uint128_def mm_set_epi64x_def sse_uint128_low_def sse_uint128_high_def)

text \<open>In between, the SSE version of the left shift is wrong for every number with low bits set.\<close>

theorem int128_sse_shl_wrong:
  "sse_uint128_shl \<lparr>lane1 = 0, lane0 = 1\<rparr> 65 = \<lparr>lane1 = 1, lane0 = 0\<rparr> \<and>
   uint128_shl (u128_of \<lparr>lane1 = 0, lane0 = 1\<rparr>) 65 = u128_of \<lparr>lane1 = 2, lane0 = 0\<rparr>"
  by (simp add: sse_uint128_shl_def mm_slli_si128_8_def uint128_shl_def u128_of_def make_uint128_def push_bit_eq_mult)

subsection \<open>Printing\<close>

definition hex_value :: "bytes \<Rightarrow> nat" where
  "hex_value = foldl (\<lambda>n c. 16 * n + (if c \<le> 57 then unat c - 48 else unat c - 55)) 0"

lemma hex_digit_value: "d < 16 \<Longrightarrow> (if hex_digit d \<le> 57 then unat (hex_digit d) - 48 else unat (hex_digit d) - 55) = d"
proof -
  assume "d < 16"
  then have "unat (of_nat (48 + d) :: u8) = 48 + d" "unat (of_nat (55 + d) :: u8) = 55 + d"
    by (simp_all only: unat_of_nat) (simp_all add: take_bit_nat_eq_self)
  then show ?thesis by (auto simp: hex_digit_def word_le_nat_alt)
qed

lemma foldl_hex16:
  "foldl (\<lambda>n c. 16 * n + (if c \<le> 57 then unat c - 48 else unat c - 55)) v (hex16 x) = v * 16 ^ 16 + unat x"
proof -
  let ?f = "\<lambda>n c :: u8. 16 * n + (if c \<le> 57 then unat c - 48 else unat c - 55)"
  have "foldl ?f v (map (\<lambda>i. hex_digit (unat x div 16 ^ (15 - i) mod 16)) [0..<k]) = v * 16 ^ k + unat x div 16 ^ (16 - k)"
    if "k \<le> 16" for k
    using that
  proof (induction k)
    case 0
    then show ?case using unat_u64_less [of x] by simp
  next
    case (Suc k)
    then have "16 - k = Suc (15 - k)" by simp
    then have "(16::nat) ^ (16 - k) = 16 ^ (15 - k) * 16" by simp
    moreover have "unat x div (16 ^ (15 - k) * 16) * 16 + unat x div 16 ^ (15 - k) mod 16 = unat x div 16 ^ (15 - k)"
      by (metis div_mult2_eq div_mult_mod_eq)
    moreover have "16 - Suc k = 15 - k" by simp
    ultimately show ?case
      using Suc by (simp add: hex_digit_value algebra_simps del: upt_Suc_append)
  qed
  from this [of 16] show ?thesis by (simp add: hex16_def)
qed

text \<open>The printed text of an unsigned number is \<open>0x\<close> and 32 digits that read back as the number.\<close>

theorem print_uint128_reads_back:
  "\<exists>ds. print_uint128 x = cstr ''0x'' @ ds \<and> length ds = 32 \<and> hex_value ds = unat x \<and>
     sse_print_uint128 (sse_make_uint128 (uint128_high x) (uint128_low x)) = print_uint128 x"
proof -
  have "hex_value (hex16 (uint128_high x) @ hex16 (uint128_low x)) = unat (make_uint128 (uint128_high x) (uint128_low x))"
    by (simp add: hex_value_def foldl_hex16 unat_make_uint128)
  then have "hex_value (hex16 (uint128_high x) @ hex16 (uint128_low x)) = unat x" by (simp add: u128_join)
  moreover have "length (hex16 y) = 16" for y by (simp add: hex16_def)
  moreover have "print_uint128 x = cstr ''0x'' @ hex16 (uint128_high x) @ hex16 (uint128_low x)"
    by (simp add: print_uint128_def Let_def uint128_high_def uint128_low_def)
  moreover from this have "sse_print_uint128 (sse_make_uint128 (uint128_high x) (uint128_low x)) = print_uint128 x"
    by (simp add: sse_print_uint128_def sse_make_uint128_def mm_set_epi64x_def)
  ultimately show ?thesis by auto
qed

end
