(* ===== verification/Filesystem.thy ===== *)
theory Filesystem
  imports Vector CType
begin

text \<open>
  Files and paths, \<^verbatim>\<open>filesystem.c\<close> on Linux. The operating system is a parameter: a record of its
  calls over a state of the file system that the code does not look into. The iterator keeps its
  queue of directories in a vector of pointers to strings on a heap of its own, so that accesses to
  freed strings and the limits of the vector are visible; paths are shorter than \<open>2 ^ 31\<close> bytes.
\<close>

subsection \<open>The operating system\<close>

datatype file_kind = KindRegular | KindDirectory | KindOther

datatype dtype = DT_REG | DT_DIR | DT_UNKNOWN | DT_OTHER

record dirent =
  d_name :: bytes
  d_type :: dtype

text \<open>
  An open file: what \<^verbatim>\<open>ftell\<close> answers at its end, the bytes a read delivers from its start, and
  whether it ends with an error.
\<close>

record stream =
  st_size :: int
  st_data :: bytes
  st_error :: bool

text \<open>
  \<open>env_opendir\<close> gives the entries \<^verbatim>\<open>readdir\<close> returns one after the other, \<open>env_readdir_error\<close> whether
  \<^verbatim>\<open>errno\<close> has changed when it returns \<^verbatim>\<open>NULL\<close>, and \<open>env_nftw\<close> the paths a depth-first walk reports.
\<close>

record 'w fs_env =
  env_fopen :: "'w \<Rightarrow> bytes \<Rightarrow> bytes \<Rightarrow> stream option"
  env_stat :: "'w \<Rightarrow> bytes \<Rightarrow> file_kind option"
  env_mkdir :: "'w \<Rightarrow> bytes \<Rightarrow> u32 \<Rightarrow> int \<times> 'w"
  env_chmod :: "'w \<Rightarrow> bytes \<Rightarrow> u32 \<Rightarrow> int \<times> 'w"
  env_rename :: "'w \<Rightarrow> bytes \<Rightarrow> bytes \<Rightarrow> int \<times> 'w"
  env_remove :: "'w \<Rightarrow> bytes \<Rightarrow> int \<times> 'w"
  env_nftw :: "'w \<Rightarrow> bytes \<Rightarrow> bytes list option"
  env_cwd :: "'w \<Rightarrow> bytes option"
  env_opendir :: "'w \<Rightarrow> bytes \<Rightarrow> dirent list option"
  env_readdir_error :: "'w \<Rightarrow> bytes \<Rightarrow> bool"

text \<open>What the code stores in \<^verbatim>\<open>g_current_error\<close>.\<close>

datatype fs_error = MemAllocError | FormattingError | SizeOverflow | SystemError

subsection \<open>Contents of files\<close>

record file_content =
  fc_content :: "bytes option"
  fc_content_sz :: u64

text \<open>The result, the error set and the new contents.\<close>

definition fs_file_content_init ::
  "'w fs_env \<Rightarrow> 'w \<Rightarrow> bool \<Rightarrow> bytes \<Rightarrow> bool \<Rightarrow> (bool \<times> fs_error option \<times> file_content) res" where
  "fs_file_content_init E w ok path read_binary =
     (case env_fopen E w path (if read_binary then cstr ''r'' else cstr ''rb'') of
        None \<Rightarrow> Inr (False, Some SystemError, \<lparr>fc_content = None, fc_content_sz = 0\<rparr>)
      | Some file \<Rightarrow>
          let sz = word_of_int (st_size file) :: u64 in
          if \<not> ok then Inr (False, Some MemAllocError, \<lparr>fc_content = None, fc_content_sz = sz\<rparr>)
          else
            let blk = calloc_blk (unat (sz + 1)); data = take (unat sz) (st_data file) in
            res_bind (blk_write blk 0 data) (\<lambda>blk.
              if length data = 0 \<or> st_error file
              then Inr (False, Some SystemError, \<lparr>fc_content = Some blk, fc_content_sz = sz\<rparr>)
              else Inr (True, None, \<lparr>fc_content = Some blk, fc_content_sz = sz\<rparr>)))"

definition fs_file_content_new ::
  "'w fs_env \<Rightarrow> 'w \<Rightarrow> bool \<Rightarrow> bool \<Rightarrow> bytes \<Rightarrow> bool \<Rightarrow> (file_content option \<times> fs_error option) res" where
  "fs_file_content_new E w ok_struct ok path read_binary =
     (if \<not> ok_struct then Inr (None, Some MemAllocError)
      else res_bind (fs_file_content_init E w ok path read_binary) (\<lambda>(done, err, content).
        Inr (if \<not> done then None else Some content, err)))"

definition fs_file_content_release :: "file_content \<Rightarrow> file_content" where
  "fs_file_content_release content =
     (if fc_content content \<noteq> None then content\<lparr>fc_content := None, fc_content_sz := 0\<rparr> else content)"

subsection \<open>Paths\<close>

definition fs_path_exists :: "'w fs_env \<Rightarrow> 'w \<Rightarrow> bytes \<Rightarrow> bool" where
  "fs_path_exists E w path \<longleftrightarrow> env_stat E w path \<in> {Some KindDirectory, Some KindRegular}"

definition fs_makedirs :: "'w fs_env \<Rightarrow> 'w \<Rightarrow> bytes \<Rightarrow> bool \<times> 'w" where
  "fs_makedirs E w path =
     (if fs_path_exists E w path then (True, w)
      else let (r, w) = env_mkdir E w path 0x1ED in (r = 0, w))"

definition path_separator :: "u8 \<Rightarrow> bool" where
  "path_separator c \<longleftrightarrow> c = of_char (CHR 0x5C) \<or> c = of_char CHR ''/''"

text \<open>The loop over the terminated path, from \<open>path_sz\<close> on down.\<close>

fun parent_dir_loop :: "bytes \<Rightarrow> nat \<Rightarrow> nat res" where
  "parent_dir_loop path 0 = Inr 0"
| "parent_dir_loop path (Suc path_sz) =
     res_bind (read_at path (Suc path_sz)) (\<lambda>current.
       if path_separator current then Inr path_sz else parent_dir_loop path path_sz)"

definition fs_parent_dir :: "bytes \<Rightarrow> nat res" where
  "fs_parent_dir path =
     res_bind (strlen_at path 0) (\<lambda>path_sz. res_bind (parent_dir_loop path path_sz) (\<lambda>path_sz. Inr (path_sz + 1)))"

definition fs_parent_dir_new :: "bool \<Rightarrow> (nat \<Rightarrow> u8) \<Rightarrow> bytes \<Rightarrow> (bytes option \<times> fs_error option) res" where
  "fs_parent_dir_new ok junk path =
     res_bind (fs_parent_dir path) (\<lambda>parent_path_sz.
       if \<not> ok then Inr (None, Some MemAllocError)
       else
         res_bind (blk_read path 0 parent_path_sz) (\<lambda>data.
         res_bind (blk_write (malloc_blk junk (parent_path_sz + 1)) 0 data) (\<lambda>parent_path.
         res_bind (blk_write parent_path parent_path_sz [0]) (\<lambda>parent_path. Inr (Some parent_path, None)))))"

definition fs_parent_dir_init :: "bytes \<Rightarrow> bytes \<Rightarrow> nat \<Rightarrow> (nat \<times> bytes) res" where
  "fs_parent_dir_init path buffer buffer_size =
     res_bind (fs_parent_dir path) (\<lambda>parent_path_sz.
       if parent_path_sz \<ge> buffer_size then Inr (parent_path_sz + 1, buffer)
       else
         res_bind (blk_read path 0 parent_path_sz) (\<lambda>data.
         res_bind (blk_write buffer 0 data) (\<lambda>buffer.
         res_bind (blk_write buffer parent_path_sz [0]) (\<lambda>buffer. Inr (0, buffer)))))"

definition fs_chmod :: "'w fs_env \<Rightarrow> 'w \<Rightarrow> bytes \<Rightarrow> u32 \<Rightarrow> bool \<times> 'w" where
  "fs_chmod E w path mode =
     (if \<not> fs_path_exists E w path then (False, w)
      else let (r, w) = env_chmod E w path (mode AND 0x01FF) in (r = 0, w))"

text \<open>The path and its size, or the error and the size left as it was.\<close>

definition fs_get_cwd :: "'w fs_env \<Rightarrow> 'w \<Rightarrow> nat \<Rightarrow> bool \<times> bytes option \<times> nat \<times> fs_error option" where
  "fs_get_cwd E w out_sz =
     (case env_cwd E w of
        None \<Rightarrow> (False, None, out_sz, Some SystemError)
      | Some path \<Rightarrow> (True, Some path, length (takeWhile (\<lambda>c. c \<noteq> 0) path), None))"

definition fs_is_dir :: "'w fs_env \<Rightarrow> 'w \<Rightarrow> bytes \<Rightarrow> bool" where
  "fs_is_dir E w path =
     (if \<not> fs_path_exists E w path then False else env_stat E w path = Some KindRegular)"

definition fs_is_file :: "'w fs_env \<Rightarrow> 'w \<Rightarrow> bytes \<Rightarrow> bool" where
  "fs_is_file E w path =
     (if \<not> fs_path_exists E w path then False else env_stat E w path = Some KindDirectory)"

definition fs_remove_callback :: "'w fs_env \<Rightarrow> 'w \<Rightarrow> bytes \<Rightarrow> int \<times> 'w" where
  "fs_remove_callback E w fpath =
     (let (rv, w) = env_remove E w fpath in if rv \<noteq> 0 then (rv, w) else (0, w))"

text \<open>\<^verbatim>\<open>nftw\<close> calls the callback path by path until it returns something else than zero.\<close>

fun nftw_each :: "'w fs_env \<Rightarrow> 'w \<Rightarrow> bytes list \<Rightarrow> int \<times> 'w" where
  "nftw_each E w [] = (0, w)"
| "nftw_each E w (p # ps) =
     (let (rv, w) = fs_remove_callback E w p in if rv \<noteq> 0 then (rv, w) else nftw_each E w ps)"

definition fs_remove :: "'w fs_env \<Rightarrow> 'w \<Rightarrow> bytes \<Rightarrow> bool \<times> fs_error option \<times> 'w" where
  "fs_remove E w path =
     (if fs_is_dir E w path then
        let (rv, w) = (case env_nftw E w path of None \<Rightarrow> (- 1, w) | Some ps \<Rightarrow> nftw_each E w ps)
        in if rv \<noteq> 0 then (False, Some SystemError, w) else (True, None, w)
      else let (rv, w) = env_remove E w path in (rv = 0, None, w))"

definition fs_move :: "'w fs_env \<Rightarrow> 'w \<Rightarrow> bytes \<Rightarrow> bytes \<Rightarrow> bool \<times> 'w" where
  "fs_move E w path new_path = (let (r, w) = env_rename E w path new_path in (r = 0, w))"

subsection \<open>Walking through directories\<close>

definition FSWalkMode_YieldDirs :: u32 where "FSWalkMode_YieldDirs = 1"
definition FSWalkMode_YieldFiles :: u32 where "FSWalkMode_YieldFiles = 2"
definition FSWalkMode_Recursive :: u32 where "FSWalkMode_Recursive = 4"

text \<open>
  The iterator: the buffer with the current path, the directory that is open with the entries still to
  be read, the pointer to its path, and the queue of pointers to the paths of directories to visit.
  The last two fields are the heap of these paths: the live ones, and the next address.
\<close>

record walk_iterator =
  wi_current_path :: "bytes option"
  wi_capacity :: u64
  wi_current_dir :: "nat option"
  wi_current_dir_sz :: nat
  wi_queue :: bytes
  wi_first_entry :: bool
  wi_dir :: "(bytes \<times> dirent list) option"
  wi_heap :: "nat \<rightharpoonup> bytes"
  wi_next :: nat

definition path_ptr :: "nat \<Rightarrow> bytes" where
  "path_ptr p = u64_bytes (of_nat (Suc p))"

definition ptr_path :: "bytes \<Rightarrow> nat option" where
  "ptr_path bs = (let a = unat (bytes_u64 bs) in if a = 0 then None else Some (a - 1))"

definition path_at :: "walk_iterator \<Rightarrow> nat option \<Rightarrow> bytes res" where
  "path_at it p = (case p of None \<Rightarrow> Inl NullDeref
     | Some a \<Rightarrow> (case wi_heap it a of None \<Rightarrow> Inl OutOfBounds | Some s \<Rightarrow> Inr s))"

text \<open>\<^verbatim>\<open>free\<close> of a pointer to a path; freeing \<^verbatim>\<open>NULL\<close> does nothing.\<close>

definition path_free :: "walk_iterator \<Rightarrow> nat option \<Rightarrow> walk_iterator res" where
  "path_free it p = (case p of None \<Rightarrow> Inr it
     | Some a \<Rightarrow> (case wi_heap it a of None \<Rightarrow> Inl BadFree | Some s \<Rightarrow> Inr (it\<lparr>wi_heap := (wi_heap it)(a := None)\<rparr>)))"

definition fs_walk_iterator_init :: "bool \<Rightarrow> bool \<Rightarrow> (nat \<Rightarrow> u8) \<Rightarrow> (bool \<times> fs_error option \<times> walk_iterator) res" where
  "fs_walk_iterator_init ok ok_queue junk =
     (let it = \<lparr>wi_current_path = (if ok then Some (calloc_blk 256) else None), wi_capacity = 256, wi_current_dir = None,
            wi_current_dir_sz = 0, wi_queue = [], wi_first_entry = False, wi_dir = None, wi_heap = Map.empty, wi_next = 0\<rparr>
      in if \<not> ok then Inr (False, Some MemAllocError, it)
         else res_bind (vector_init ok_queue junk 128 8) (\<lambda>q.
           Inr (True, None, it\<lparr>wi_queue := q, wi_first_entry := True\<rparr>)))"

definition fs_walk_iterator_new ::
  "bool \<Rightarrow> bool \<Rightarrow> bool \<Rightarrow> (nat \<Rightarrow> u8) \<Rightarrow> (walk_iterator option \<times> fs_error option) res" where
  "fs_walk_iterator_new ok_item ok ok_queue junk =
     (if \<not> ok_item then Inr (None, Some MemAllocError)
      else res_bind (fs_walk_iterator_init ok ok_queue junk) (\<lambda>(done, err, item).
        Inr (if \<not> done then (None, Some MemAllocError) else (Some item, err))))"

definition fs_walk_iterator_queue_release_cb :: "walk_iterator \<Rightarrow> bytes \<Rightarrow> walk_iterator res" where
  "fs_walk_iterator_queue_release_cb it data = path_free it (ptr_path data)"

text \<open>The destructor is called on each element of the queue.\<close>

fun release_queue :: "walk_iterator \<Rightarrow> nat \<Rightarrow> nat \<Rightarrow> walk_iterator res" where
  "release_queue it i 0 = Inr it"
| "release_queue it i (Suc n) =
     res_bind (vector_at (wi_queue it) i) (\<lambda>a. res_bind (blk_read (wi_queue it) a 8) (\<lambda>data.
     res_bind (fs_walk_iterator_queue_release_cb it data) (\<lambda>it. release_queue it (i + 1) n)))"

definition fs_walk_iterator_release :: "walk_iterator \<Rightarrow> walk_iterator res" where
  "fs_walk_iterator_release it =
     res_bind (path_free it (wi_current_dir it)) (\<lambda>it.
     res_bind (vector_size (wi_queue it)) (\<lambda>n. release_queue (it\<lparr>wi_dir := None\<rparr>) 0 n))"

definition walk_should_skip_entry :: "u32 \<Rightarrow> dirent \<Rightarrow> bool" where
  "walk_should_skip_entry mode entry =
     (if d_name entry = cstr ''.'' \<or> d_name entry = cstr ''..'' then True
      else case d_type entry of
          DT_REG \<Rightarrow> mode AND FSWalkMode_YieldFiles = 0
        | DT_DIR \<Rightarrow> mode AND FSWalkMode_YieldDirs = 0
        | _ \<Rightarrow> True)"

text \<open>Which of the allocations of a call succeed.\<close>

record walk_mem =
  wm_path :: bool
  wm_queue :: bool
  wm_realloc :: bool
  wm_dir :: bool

text \<open>A new path on the heap, pushed to the queue.\<close>

definition walk_push :: "walk_mem \<Rightarrow> (nat \<Rightarrow> u8) \<Rightarrow> walk_iterator \<Rightarrow> bytes \<Rightarrow> walk_iterator res" where
  "walk_push mem junk it path =
     (let p = wi_next it; it = it\<lparr>wi_heap := (wi_heap it)(p \<mapsto> path), wi_next := p + 1\<rparr>
      in res_bind (vector_push_back (wm_queue mem) junk (wi_queue it) (path_ptr p)) (\<lambda>q. Inr (it\<lparr>wi_queue := q\<rparr>)))"

text \<open>
  Opening the next directory of the queue: its first entry, or nothing, when the call returns \<^verbatim>\<open>false\<close>.
\<close>

definition walk_open :: "'w fs_env \<Rightarrow> 'w \<Rightarrow> walk_iterator \<Rightarrow> (dirent option \<times> walk_iterator) res" where
  "walk_open E w it =
     res_bind (vector_size (wi_queue it)) (\<lambda>n.
       if n = 0 then Inr (None, it)
       else
         res_bind (vector_at (wi_queue it) 0) (\<lambda>a. res_bind (blk_read (wi_queue it) a 8) (\<lambda>ptr.
         res_bind (vector_pop_front (wi_queue it)) (\<lambda>q.
         let it = it\<lparr>wi_queue := q\<rparr> in
         res_bind (path_at it (ptr_path ptr)) (\<lambda>search_path.
           case env_opendir E w search_path of
             None \<Rightarrow> Inr (None, it)
           | Some [] \<Rightarrow> Inr (None, it\<lparr>wi_dir := Some (search_path, [])\<rparr>)
           | Some (entry # es) \<Rightarrow> Inr (Some entry, it\<lparr>wi_dir := Some (search_path, es),
                 wi_current_dir := ptr_path ptr, wi_current_dir_sz := length search_path\<rparr>))))))"

text \<open>
  The first loop: with a directory open it reads on, and an exhausted one is closed before the next is
  opened, which ends the loop in every case.
\<close>

definition walk_next_entry :: "'w fs_env \<Rightarrow> 'w \<Rightarrow> walk_iterator \<Rightarrow> (dirent option \<times> walk_iterator) res" where
  "walk_next_entry E w it =
     (case wi_dir it of
        None \<Rightarrow> walk_open E w it
      | Some (path, entry # es) \<Rightarrow> Inr (Some entry, it\<lparr>wi_dir := Some (path, es)\<rparr>)
      | Some (path, []) \<Rightarrow>
          res_bind (path_free (it\<lparr>wi_dir := None\<rparr>) (wi_current_dir it)) (\<lambda>it.
            let it = it\<lparr>wi_current_dir := None\<rparr>
            in if env_readdir_error E w path then Inr (None, it) else walk_open E w it))"

text \<open>The second loop: the first entry that is not skipped and the entries after it.\<close>

fun walk_skip :: "u32 \<Rightarrow> dirent \<Rightarrow> dirent list \<Rightarrow> (dirent \<times> dirent list) option" where
  "walk_skip mode entry es =
     (if walk_should_skip_entry mode entry
      then (case es of [] \<Rightarrow> None | e # es \<Rightarrow> walk_skip mode e es)
      else Some (entry, es))"

text \<open>The buffer for a path of the given size: \<open>None\<close> when the call ends with an error.\<close>

definition walk_reserve :: "walk_mem \<Rightarrow> (nat \<Rightarrow> u8) \<Rightarrow> walk_iterator \<Rightarrow> nat \<Rightarrow> fs_error option \<times> walk_iterator" where
  "walk_reserve mem junk it current_path_sz =
     (if current_path_sz > unat (wi_capacity it) then
        if wi_capacity it \<ge> - 1 then (Some SizeOverflow, it)
        else
          let cap = push_bit 1 (wi_capacity it);
              blk = (case wi_current_path it of None \<Rightarrow> [] | Some b \<Rightarrow> b)
          in if \<not> wm_realloc mem then (Some MemAllocError, it\<lparr>wi_capacity := cap, wi_current_path := None\<rparr>)
             else (None, it\<lparr>wi_capacity := cap, wi_current_path := Some (realloc_blk junk blk (unat cap))\<rparr>)
      else (None, it))"

text \<open>\<^verbatim>\<open>snprintf\<close> with \<open>%.*s/%s\<close> into the buffer.\<close>

definition walk_format :: "walk_iterator \<Rightarrow> bytes \<Rightarrow> walk_iterator res" where
  "walk_format it name =
     res_bind (path_at it (wi_current_dir it)) (\<lambda>dir.
       case wi_current_path it of
         None \<Rightarrow> Inl NullDeref
       | Some blk \<Rightarrow>
           res_bind (blk_write blk 0 (take (wi_current_dir_sz it) dir @ cstr ''/'' @ name @ [0])) (\<lambda>blk.
             Inr (it\<lparr>wi_current_path := Some blk\<rparr>)))"

definition walk_yield ::
  "'w fs_env \<Rightarrow> 'w \<Rightarrow> walk_mem \<Rightarrow> (nat \<Rightarrow> u8) \<Rightarrow> u32 \<Rightarrow> walk_iterator \<Rightarrow> dirent \<Rightarrow> (bool \<times> fs_error option \<times> walk_iterator) res" where
  "walk_yield E w mem junk mode it entry =
     (let current_path_sz = wi_current_dir_sz it + 1 + length (d_name entry) + 1 in
      case walk_reserve mem junk it current_path_sz of
        (Some err, it) \<Rightarrow> Inr (False, Some err, it)
      | (None, it) \<Rightarrow>
          res_bind (walk_format it (d_name entry)) (\<lambda>it.
            case wi_current_path it of
              None \<Rightarrow> Inl NullDeref
            | Some blk \<Rightarrow>
                let path = block_str blk;
                    is_dir = (if d_type entry = DT_UNKNOWN then fs_is_dir E w path else d_type entry = DT_DIR)
                in if is_dir \<and> mode AND FSWalkMode_Recursive \<noteq> 0 then
                     if \<not> wm_dir mem then Inr (False, Some MemAllocError, it)
                     else res_bind (blk_read blk 0 (current_path_sz - 1)) (\<lambda>dir_path.
                       res_bind (walk_push mem junk it dir_path) (\<lambda>it. Inr (True, None, it)))
                   else Inr (True, None, it)))"

text \<open>The first call puts a copy of the path in the queue; \<open>None\<close> when it cannot be allocated.\<close>

definition walk_first :: "walk_mem \<Rightarrow> (nat \<Rightarrow> u8) \<Rightarrow> bytes \<Rightarrow> walk_iterator \<Rightarrow> walk_iterator option res" where
  "walk_first mem junk path it =
     (if wi_first_entry it
      then (if \<not> wm_path mem then Inr None
            else res_bind (walk_push mem junk it path) (\<lambda>it. Inr (Some (it\<lparr>wi_first_entry := False\<rparr>))))
      else Inr (Some it))"

definition fs_walk ::
  "'w fs_env \<Rightarrow> 'w \<Rightarrow> walk_mem \<Rightarrow> (nat \<Rightarrow> u8) \<Rightarrow> bytes \<Rightarrow> u32 \<Rightarrow> walk_iterator \<Rightarrow> (bool \<times> fs_error option \<times> walk_iterator) res" where
  "fs_walk E w mem junk path mode it =
     res_bind (walk_first mem junk path it) (\<lambda>r.
       case r of
         None \<Rightarrow> Inr (False, Some MemAllocError, it)
       | Some it \<Rightarrow>
           res_bind (walk_next_entry E w it) (\<lambda>(entry, it).
             case entry of
               None \<Rightarrow> Inr (False, None, it)
             | Some e \<Rightarrow>
                 (case wi_dir it of
                    None \<Rightarrow> Inl NullDeref
                  | Some (dir, es) \<Rightarrow>
                      (case walk_skip mode e es of
                         None \<Rightarrow> Inr (False, None, it\<lparr>wi_dir := Some (dir, [])\<rparr>)
                       | Some (e, es) \<Rightarrow> walk_yield E w mem junk mode (it\<lparr>wi_dir := Some (dir, es)\<rparr>) e))))"

end
