(* ===== verification/FilesystemSpec.thy ===== *)
theory FilesystemSpec
  imports Filesystem
begin

text \<open>
  What the functions of \<^verbatim>\<open>filesystem.c\<close> compute: the contents of files, parent directories, the tests
  for files and directories, removal, and the traversal of directories. What the traversal reports from any
  state is the relation \<open>walked\<close>, early stops included; where nothing stops it, it reports
  the breadth-first listing of the tree, which is defined level by level without looking at the code.
\<close>

subsection \<open>Contents of files\<close>

text \<open>
  A regular, non-empty file that reads without error is read in full, followed by a terminator.
\<close>

theorem fs_file_content_correct:
  assumes "env_fopen E w path (if read_binary then cstr ''r'' else cstr ''rb'') = Some \<lparr>st_size = int (length data), st_data = data, st_error = False\<rparr>"
    and "data \<noteq> []" "length data < 2 ^ 63"
  shows "fs_file_content_new E w True True path read_binary
    = Inr (Some \<lparr>fc_content = Some (data @ [0]), fc_content_sz = of_nat (length data)\<rparr>, None)"
proof -
  have "unat (of_nat (length data) :: u64) = length data" "unat (of_nat (length data) + 1 :: u64) = length data + 1"
    using assms(3) unat_of_nat_u64 [of "length data"] unat_of_nat_u64 [of "length data + 1"] by (simp_all add: add.commute)
  then show ?thesis
    using assms(1,2) replicate_append_same [of "length data" "0 :: u8", symmetric]
    by (simp add: fs_file_content_new_def fs_file_content_init_def Let_def blk_write_def calloc_blk_def)
qed

text \<open>
  An empty file counts as an error. A stream without a size, such as a pipe, for which \<^verbatim>\<open>ftell\<close> answers
  \<open>-1\<close>, is read without bound into a block of no bytes.
\<close>

theorem fs_file_content_empty_fails:
  assumes "env_fopen E w path (if read_binary then cstr ''r'' else cstr ''rb'') = Some \<lparr>st_size = 0, st_data = [], st_error = False\<rparr>"
  shows "fs_file_content_new E w True True path read_binary = Inr (None, Some SystemError)"
  using assms by (simp add: fs_file_content_new_def fs_file_content_init_def Let_def blk_write_def)

theorem fs_file_content_pipe_overflows:
  assumes "env_fopen E w path (if read_binary then cstr ''r'' else cstr ''rb'') = Some \<lparr>st_size = - 1, st_data = b # data, st_error = err\<rparr>"
  shows "fs_file_content_new E w True True path read_binary = Inl OutOfBounds"
proof -
  have "unat (- 1 :: u64) = 2 ^ 64 - 1" by (simp add: unsigned_minus_1_eq_mask mask_eq_exp_minus_1)
  then show ?thesis
    using assms by (simp add: fs_file_content_new_def fs_file_content_init_def Let_def blk_write_def calloc_blk_def)
qed

subsection \<open>Parent directories\<close>

lemma parent_loop_none:
  "n < length path \<Longrightarrow> \<forall>i. 0 < i \<and> i \<le> n \<longrightarrow> \<not> path_separator (path ! i) \<Longrightarrow> parent_dir_loop path n = Inr 0"
  by (induction n) (auto simp: read_at_def)

lemma parent_loop_at:
  "n < length path \<Longrightarrow> k < n \<Longrightarrow> path_separator (path ! Suc k) \<Longrightarrow> \<forall>i. Suc k < i \<and> i \<le> n \<longrightarrow> \<not> path_separator (path ! i)
    \<Longrightarrow> parent_dir_loop path n = Inr k"
proof (induction n)
  case (Suc n)
  then show ?case
    by (cases "k = n") (auto simp: read_at_def)
qed simp

lemma strlen_terminated: "0 \<notin> set path \<Longrightarrow> strlen_at (path @ [0]) 0 = Inr (length path)"
  using strlen_at_ok [of path "[]" "[]"] by simp

lemma nul_no_separator: "\<not> path_separator 0"
  by (simp add: path_separator_def)

text \<open>
  Of a path whose last separator is not its first character, the parent directory is what precedes the
  separator; the fresh copy and the copy into a buffer hold it with a terminator, and a buffer that is
  too small is left alone and the needed size returned.
\<close>

lemma parent_dir_at:
  assumes "path = dir @ c # base" "dir \<noteq> []" "path_separator c" "\<not> list_ex path_separator base" "0 \<notin> set path"
  shows "fs_parent_dir (path @ [0]) = Inr (length dir)"
proof -
  obtain k where k: "length dir = Suc k" using assms(2) by (cases dir) auto
  have sep: "path_separator ((path @ [0]) ! Suc k)" using assms(1,3) k by (simp add: nth_append)
  have none: "\<not> path_separator ((path @ [0]) ! i)" if "Suc k < i" "i \<le> length path" for i
  proof (cases "i = length path")
    case False
    then have i: "i - Suc (Suc k) < length base" using that k assms(1) by simp
    then have "(path @ [0]) ! i = ((dir @ [c]) @ base) ! i" using that k assms(1) by (simp add: nth_append)
    also have "\<dots> = base ! (i - Suc (Suc k))" using that k by (subst nth_append) simp
    finally have "(path @ [0]) ! i = base ! (i - Suc (Suc k))" .
    then show ?thesis using assms(4) i by (auto simp: list_ex_iff)
  qed (simp add: nul_no_separator)
  have "parent_dir_loop (path @ [0]) (length path) = Inr k"
    by (rule parent_loop_at) (use sep none k assms(1) in auto)
  then show ?thesis using k strlen_terminated [OF assms(5)] by (simp add: fs_parent_dir_def)
qed

theorem fs_parent_dir_correct:
  assumes "path = dir @ c # base" "dir \<noteq> []" "path_separator c" "\<not> list_ex path_separator base" "0 \<notin> set path"
  shows "fs_parent_dir (path @ [0]) = Inr (length dir) \<and>
    fs_parent_dir_new True junk (path @ [0]) = Inr (Some (dir @ [0]), None) \<and>
    fs_parent_dir_init (path @ [0]) buffer (length buffer) = Inr (
      if length dir < length buffer then (0, dir @ [0] @ drop (length dir + 1) buffer) else (length dir + 1, buffer))"
  using parent_dir_at [OF assms] assms(1)
  by (simp add: fs_parent_dir_new_def fs_parent_dir_init_def blk_read_def blk_write_def)

theorem fs_parent_dir_correct_witness:
  "fs_parent_dir (cstr ''a/b.c'' @ [0]) = Inr (length (cstr ''a'')) \<and>
   fs_parent_dir_new True (\<lambda>_. 7) (cstr ''a/b.c'' @ [0]) = Inr (Some (cstr ''a'' @ [0]), None) \<and>
   fs_parent_dir_init (cstr ''a/b.c'' @ [0]) [1] (length [1 :: u8]) = Inr (
      if length (cstr ''a'') < length [1 :: u8] then (0, cstr ''a'' @ [0] @ drop (length (cstr ''a'') + 1) [1]) else (length (cstr ''a'') + 1, [1]))"
  by (rule fs_parent_dir_correct [where c = "of_char CHR ''/''" and base = "cstr ''b.c''"]) (simp_all add: cstr_def path_separator_def)

text \<open>
  A relative path of one component has no parent in it, but its first character is returned as one.
\<close>

theorem fs_parent_dir_single:
  assumes "path \<noteq> []" "\<not> list_ex path_separator (tl path)" "0 \<notin> set path"
  shows "fs_parent_dir (path @ [0]) = Inr 1"
proof -
  have "\<not> path_separator ((path @ [0]) ! i)" if "0 < i" "i \<le> length path" for i
  proof (cases "i = length path")
    case False
    then have "(path @ [0]) ! i = tl path ! (i - 1)" "i - 1 < length (tl path)"
      using that by (simp_all add: nth_append nth_tl)
    then show ?thesis using assms(2) by (auto simp: list_ex_iff)
  qed (simp add: nul_no_separator)
  then have "parent_dir_loop (path @ [0]) (length path) = Inr 0" by (intro parent_loop_none) auto
  then show ?thesis using strlen_terminated [OF assms(3)] by (simp add: fs_parent_dir_def)
qed

subsection \<open>Files and directories\<close>

text \<open>
  The tests for directories and regular files are exchanged, so \<^verbatim>\<open>fs_remove\<close> removes a directory with a single
  \<^verbatim>\<open>remove\<close>, which fails when it is not empty, and walks over a regular file.
\<close>

theorem fs_is_dir_exchanged:
  "fs_is_dir E w path = (env_stat E w path = Some KindRegular) \<and>
   fs_is_file E w path = (env_stat E w path = Some KindDirectory) \<and>
   (env_stat E w path = Some KindDirectory \<longrightarrow>
     fs_remove E w path = (fst (env_remove E w path) = 0, None, snd (env_remove E w path)))"
  by (auto simp: fs_is_dir_def fs_is_file_def fs_path_exists_def fs_remove_def split: prod.split)

subsection \<open>The breadth-first listing of a tree\<close>

text \<open>The kind of an entry, as the directory tells it or as the file system does.\<close>

definition entry_path :: "bytes \<Rightarrow> dirent \<Rightarrow> bytes" where
  "entry_path dir e = dir @ cstr ''/'' @ d_name e"

definition entry_kind :: "'w fs_env \<Rightarrow> 'w \<Rightarrow> bytes \<Rightarrow> dirent \<Rightarrow> file_kind option" where
  "entry_kind E w dir e = (case d_type e of DT_REG \<Rightarrow> Some KindRegular | DT_DIR \<Rightarrow> Some KindDirectory
     | DT_OTHER \<Rightarrow> Some KindOther | DT_UNKNOWN \<Rightarrow> env_stat E w (entry_path dir e))"

text \<open>
  The entries of a directory without the entries for itself and its parent; those that the mode asks
  for, and the directories below it.
\<close>

definition children :: "'w fs_env \<Rightarrow> 'w \<Rightarrow> bytes \<Rightarrow> dirent list" where
  "children E w dir = filter (\<lambda>e. d_name e \<notin> {cstr ''.'', cstr ''..''})
     (case env_opendir E w dir of None \<Rightarrow> [] | Some es \<Rightarrow> es)"

definition wanted :: "'w fs_env \<Rightarrow> 'w \<Rightarrow> u32 \<Rightarrow> bytes \<Rightarrow> dirent \<Rightarrow> bool" where
  "wanted E w mode dir e \<longleftrightarrow>
     entry_kind E w dir e = Some KindRegular \<and> mode AND FSWalkMode_YieldFiles \<noteq> 0 \<or>
     entry_kind E w dir e = Some KindDirectory \<and> mode AND FSWalkMode_YieldDirs \<noteq> 0"

definition listed :: "'w fs_env \<Rightarrow> 'w \<Rightarrow> u32 \<Rightarrow> bytes \<Rightarrow> bytes list" where
  "listed E w mode dir = map (entry_path dir) (filter (wanted E w mode dir) (children E w dir))"

definition below :: "'w fs_env \<Rightarrow> 'w \<Rightarrow> u32 \<Rightarrow> bytes \<Rightarrow> bytes list" where
  "below E w mode dir = (if mode AND FSWalkMode_Recursive = 0 then []
     else map (entry_path dir) (filter (\<lambda>e. entry_kind E w dir e = Some KindDirectory) (children E w dir)))"

text \<open>The directories of each level of the tree, and the listing of its first levels.\<close>

fun level :: "'w fs_env \<Rightarrow> 'w \<Rightarrow> u32 \<Rightarrow> bytes \<Rightarrow> nat \<Rightarrow> bytes list" where
  "level E w mode path 0 = [path]"
| "level E w mode path (Suc n) = concat (map (below E w mode) (level E w mode path n))"

definition breadth_first :: "'w fs_env \<Rightarrow> 'w \<Rightarrow> u32 \<Rightarrow> bytes \<Rightarrow> nat \<Rightarrow> bytes list" where
  "breadth_first E w mode path depth =
     concat (map (\<lambda>n. concat (map (listed E w mode) (level E w mode path n))) [0..<depth])"

text \<open>
  A directory at which the walk does not stop: it can be opened and read without an error, it tells the
  kinds of its entries, and the last one it delivers is one that is to be listed.
\<close>

definition readable :: "'w fs_env \<Rightarrow> 'w \<Rightarrow> u32 \<Rightarrow> bytes \<Rightarrow> bool" where
  "readable E w mode dir \<longleftrightarrow> \<not> env_readdir_error E w dir \<and>
     (case env_opendir E w dir of None \<Rightarrow> False
      | Some es \<Rightarrow> list_all (\<lambda>e. d_type e \<noteq> DT_UNKNOWN) es \<and> es \<noteq> [] \<and>
          last es \<in> set (children E w dir) \<and> wanted E w mode dir (last es))"

subsection \<open>Walking: what is reported\<close>

text \<open>
  The entries of a directory that the code does not skip, and the paths of those that it puts in its
  queue.
\<close>

definition visible :: "u32 \<Rightarrow> dirent list \<Rightarrow> dirent list" where
  "visible mode es = filter (\<lambda>e. \<not> walk_should_skip_entry mode e) es"

definition subdirs :: "u32 \<Rightarrow> bytes \<Rightarrow> dirent list \<Rightarrow> bytes list" where
  "subdirs mode dir es =
     (if mode AND FSWalkMode_Recursive = 0 then [] else map (entry_path dir) (filter (\<lambda>e. d_type e = DT_DIR) (visible mode es)))"

text \<open>
  \<open>walked E w mode q ys\<close>: from the queue \<open>q\<close> the code reports \<open>ys\<close>. It stops with the queue, but also at
  a directory that cannot be opened or read, and after a directory whose last entry is skipped,
  whatever is left in the queue. Fewer than 128 directories wait at a time.
\<close>

inductive walked :: "'w fs_env \<Rightarrow> 'w \<Rightarrow> u32 \<Rightarrow> bytes list \<Rightarrow> bytes list \<Rightarrow> bool" for E w mode where
  finished: "walked E w mode [] []"
| unreadable: "env_opendir E w dir \<in> {None, Some []} \<Longrightarrow> walked E w mode (dir # q) []"
| cut: "env_opendir E w dir = Some es \<Longrightarrow> es \<noteq> [] \<Longrightarrow> walk_should_skip_entry mode (last es) \<or> env_readdir_error E w dir \<Longrightarrow>
    length (q @ subdirs mode dir es) < 128 \<Longrightarrow> walked E w mode (dir # q) (map (entry_path dir) (visible mode es))"
| directory: "env_opendir E w dir = Some es \<Longrightarrow> es \<noteq> [] \<Longrightarrow> \<not> walk_should_skip_entry mode (last es) \<Longrightarrow>
    \<not> env_readdir_error E w dir \<Longrightarrow> length (q @ subdirs mode dir es) < 128 \<Longrightarrow>
    walked E w mode (q @ subdirs mode dir es) ys \<Longrightarrow>
    walked E w mode (dir # q) (map (entry_path dir) (visible mode es) @ ys)"

text \<open>The same entry by entry, with the open directory and the entries left in it.\<close>

inductive walk_from :: "'w fs_env \<Rightarrow> 'w \<Rightarrow> u32 \<Rightarrow> (bytes \<times> dirent list) option \<Rightarrow> bytes list \<Rightarrow> bytes list \<Rightarrow> bool" for E w mode where
  wf_finished: "walk_from E w mode None [] []"
| wf_unreadable: "env_opendir E w dir \<in> {None, Some []} \<Longrightarrow> walk_from E w mode None (dir # q) []"
| wf_open: "env_opendir E w dir = Some (e # es) \<Longrightarrow> walk_from E w mode (Some (dir, e # es)) q ys \<Longrightarrow> walk_from E w mode None (dir # q) ys"
| wf_cut: "es \<noteq> [] \<Longrightarrow> visible mode es = [] \<Longrightarrow> walk_from E w mode (Some (dir, es)) q []"
| wf_yield: "walk_should_skip_entry mode e \<Longrightarrow> es \<noteq> [] \<Longrightarrow> visible mode es \<noteq> [] \<Longrightarrow> walk_from E w mode (Some (dir, es)) q ys \<Longrightarrow>
    walk_from E w mode (Some (dir, e # es)) q ys"
| wf_entry: "\<not> walk_should_skip_entry mode e \<Longrightarrow> length (q @ subdirs mode dir [e]) < 128 \<Longrightarrow>
    walk_from E w mode (Some (dir, es)) (q @ subdirs mode dir [e]) ys \<Longrightarrow>
    walk_from E w mode (Some (dir, e # es)) q (entry_path dir e # ys)"
| wf_error: "env_readdir_error E w dir \<Longrightarrow> walk_from E w mode (Some (dir, [])) q []"
| wf_close: "\<not> env_readdir_error E w dir \<Longrightarrow> walk_from E w mode None q ys \<Longrightarrow> walk_from E w mode (Some (dir, [])) q ys"

lemma visible_simps [simp]:
  "visible mode [] = []"
  "visible mode (e # es) = (if walk_should_skip_entry mode e then visible mode es else e # visible mode es)"
  by (simp_all add: visible_def)

lemma subdirs_simps:
  "subdirs mode dir [] = []"
  "subdirs mode dir (e # es) = subdirs mode dir [e] @ subdirs mode dir es"
  by (simp_all add: subdirs_def)

lemma subdirs_skipped: "walk_should_skip_entry mode e \<Longrightarrow> subdirs mode dir [e] = []"
  by (simp add: subdirs_def)

lemma visible_last: "es \<noteq> [] \<Longrightarrow> \<not> walk_should_skip_entry mode (last es) \<Longrightarrow> visible mode es \<noteq> []"
  by (auto simp: visible_def filter_empty_conv)

lemma walk_from_entries:
  assumes "length (q @ subdirs mode dir es) < 128"
    and "\<not> env_readdir_error E w dir \<Longrightarrow> (es = [] \<or> \<not> walk_should_skip_entry mode (last es)) \<Longrightarrow>
      walk_from E w mode None (q @ subdirs mode dir es) ys"
    and "env_readdir_error E w dir \<or> (es \<noteq> [] \<and> walk_should_skip_entry mode (last es)) \<Longrightarrow> ys = []"
  shows "walk_from E w mode (Some (dir, es)) q (map (entry_path dir) (visible mode es) @ ys)"
  using assms
proof (induction es arbitrary: q)
  case Nil
  then show ?case by (cases "env_readdir_error E w dir") (auto intro: wf_error wf_close simp: subdirs_simps)
next
  case (Cons e es)
  show ?case
  proof (cases "walk_should_skip_entry mode e")
    case skip: True
    show ?thesis
    proof (cases "visible mode (e # es) = []")
      case True
      then have "walk_should_skip_entry mode (last (e # es))" using visible_last by blast
      then have "ys = []" using Cons.prems(3) by blast
      then show ?thesis using True wf_cut [of "e # es" mode] by (simp del: visible_simps)
    next
      case False
      then have ne: "es \<noteq> []" "visible mode es \<noteq> []" using skip by auto
      have "walk_from E w mode (Some (dir, es)) q (map (entry_path dir) (visible mode es) @ ys)"
        by (rule Cons.IH)
          (use Cons.prems ne subdirs_simps(2) [of mode dir e es] subdirs_skipped [OF skip, of dir] in \<open>auto simp del: visible_simps\<close>)
      then show ?thesis using skip ne by (auto intro: wf_yield)
    qed
  next
    case False
    have sub: "q @ subdirs mode dir (e # es) = (q @ subdirs mode dir [e]) @ subdirs mode dir es" by (simp add: subdirs_simps(2) [of mode dir e es])
    have "walk_from E w mode (Some (dir, es)) (q @ subdirs mode dir [e]) (map (entry_path dir) (visible mode es) @ ys)"
    proof (rule Cons.IH)
      show "length ((q @ subdirs mode dir [e]) @ subdirs mode dir es) < 128" using Cons.prems(1) unfolding sub .
    next
      assume a: "\<not> env_readdir_error E w dir" "es = [] \<or> \<not> walk_should_skip_entry mode (last es)"
      then have "\<not> walk_should_skip_entry mode (last (e # es))" using False by auto
      then show "walk_from E w mode None ((q @ subdirs mode dir [e]) @ subdirs mode dir es) ys"
        using Cons.prems(2) a(1) unfolding sub by blast
    qed (use Cons.prems(3) in auto)
    moreover have "length (q @ subdirs mode dir [e]) < 128" using Cons.prems(1) unfolding sub by simp
    ultimately show ?thesis using False by (auto intro: wf_entry)
  qed
qed

lemma walked_walk_from: "walked E w mode q ys \<Longrightarrow> walk_from E w mode None q ys"
proof (induction rule: walked.induct)
  case (cut dir es q)
  have "walk_from E w mode (Some (dir, es)) q (map (entry_path dir) (visible mode es) @ [])"
    by (rule walk_from_entries) (use cut in auto)
  then show ?case using cut(1,2) by (cases es) (auto intro: wf_open)
next
  case (directory dir es q ys)
  have "walk_from E w mode (Some (dir, es)) q (map (entry_path dir) (visible mode es) @ ys)"
    by (rule walk_from_entries) (use directory in auto)
  then show ?case using directory(1,2) by (cases es) (auto intro: wf_open)
qed (auto intro: wf_finished wf_unreadable)

subsection \<open>Walking: the iterator\<close>

lemma ptr_path_ptr: "p < 2 ^ 63 \<Longrightarrow> ptr_path (path_ptr p) = Some p"
  by (simp add: ptr_path_def path_ptr_def unat_of_nat_u64 del: of_nat_Suc)

lemma length_path_ptr [simp]: "length (path_ptr p) = 8"
  by (simp add: path_ptr_def)

text \<open>
  The iterator between calls: its buffer holds 256 or 512 bytes, and its queue points to the paths \<open>q\<close> on the
  heap, apart from the path of the directory that is open.
\<close>

definition heap_ok :: "walk_iterator \<Rightarrow> nat list \<Rightarrow> bool" where
  "heap_ok it ps \<longleftrightarrow> vec_at (wi_queue it) 128 8 (map path_ptr ps) \<and> distinct ps \<and>
     (\<forall>p\<in>set ps. wi_heap it p \<noteq> None) \<and> (\<forall>p\<in>dom (wi_heap it). p < wi_next it) \<and> wi_next it < 2 ^ 63 \<and>
     (\<forall>dp. wi_current_dir it = Some dp \<longrightarrow> wi_heap it dp \<noteq> None \<and> dp \<notin> set ps)"

definition buffer_ok :: "walk_iterator \<Rightarrow> bool" where
  "buffer_ok it \<longleftrightarrow> wi_capacity it \<in> {256, 512} \<and> (\<exists>blk. wi_current_path it = Some blk \<and> length blk = unat (wi_capacity it))"

definition walk_state :: "walk_iterator \<Rightarrow> (bytes \<times> dirent list) option \<Rightarrow> bytes list \<Rightarrow> bool" where
  "walk_state it od q \<longleftrightarrow> buffer_ok it \<and> \<not> wi_first_entry it \<and> wi_dir it = od \<and> length q < 128 \<and>
     (\<exists>ps. heap_ok it ps \<and> map (wi_heap it) ps = map Some q) \<and>
     (case od of None \<Rightarrow> wi_current_dir it = None
      | Some (dir, es) \<Rightarrow> \<exists>dp. wi_current_dir it = Some dp \<and> wi_heap it dp = Some dir \<and> wi_current_dir_sz it = length dir)"

lemma vec_front:
  assumes "vec_at raw 128 8 (map path_ptr (p # ps))" "p < 2 ^ 63"
  shows "\<exists>a bs. vector_at raw 0 = Inr a \<and> blk_read raw a 8 = Inr bs \<and> ptr_path bs = Some p"
proof -
  from assms(1) obtain pad where raw: "raw = vec_header (length (p # ps)) 128 8 @ path_ptr p @ (concat (map path_ptr ps) @ pad)"
    by (auto simp: vec_at_def)
  have "vector_at raw 0 = Inr 24" using vec_at_header(4) [OF assms(1)] by simp
  moreover have "blk_read raw 24 8 = Inr (path_ptr p)"
    unfolding raw by (subst blk_read_mid) simp_all
  ultimately show ?thesis using ptr_path_ptr [OF assms(2)] by blast
qed

lemma heap_ok_dir: "heap_ok it ps \<Longrightarrow> heap_ok (it\<lparr>wi_dir := od\<rparr>) ps"
  by (simp add: heap_ok_def)

lemma walk_open_ok:
  assumes st: "walk_state it None (dir # q)"
  shows "env_opendir E w dir = Some (e # es) \<Longrightarrow>
      \<exists>it'. walk_open E w it = Inr (Some e, it'\<lparr>wi_dir := Some (dir, es)\<rparr>) \<and> walk_state it' (Some (dir, e # es)) q \<and> wi_next it' = wi_next it"
    and "env_opendir E w dir \<in> {None, Some []} \<Longrightarrow> \<exists>it' ps. walk_open E w it = Inr (None, it') \<and> heap_ok it' ps"
proof -
  obtain p ps where ps: "heap_ok it (p # ps)" "wi_heap it p = Some dir" "map (wi_heap it) ps = map Some q"
    using st by (auto simp: walk_state_def map_eq_Cons_conv)
  have v: "vec_at (wi_queue it) 128 8 (map path_ptr (p # ps))" and p63: "p < 2 ^ 63"
    using ps(1,2) by (auto simp: heap_ok_def dom_def)
  have len: "length (map path_ptr (p # ps)) < 128"
    using st ps(3) by (auto simp: walk_state_def dest: map_eq_imp_length_eq)
  obtain raw where raw: "vector_pop_front (wi_queue it) = Inr raw" "vec_at raw 128 8 (map path_ptr ps)"
    using vector_pop_front_at [OF v _ len] by auto
  obtain a bs where a: "vector_at (wi_queue it) 0 = Inr a" "blk_read (wi_queue it) a 8 = Inr bs" "ptr_path bs = Some p"
    using vec_front [OF v p63] by blast
  define it2 where "it2 = it\<lparr>wi_queue := raw\<rparr>"
  have opened: "walk_open E w it = (case env_opendir E w dir of None \<Rightarrow> Inr (None, it2)
      | Some [] \<Rightarrow> Inr (None, it2\<lparr>wi_dir := Some (dir, [])\<rparr>)
      | Some (entry # es) \<Rightarrow> Inr (Some entry, it2\<lparr>wi_dir := Some (dir, es), wi_current_dir := Some p, wi_current_dir_sz := length dir\<rparr>))"
    by (simp add: walk_open_def vec_at_header(1) [OF v] a raw(1) Let_def path_at_def ps(2) it2_def split: option.split list.split)
  have h2: "heap_ok it2 ps" using ps(1) raw(2) by (auto simp: heap_ok_def it2_def)
  show "\<exists>it' ps. walk_open E w it = Inr (None, it') \<and> heap_ok it' ps" if "env_opendir E w dir \<in> {None, Some []}"
    using that h2 h2 [THEN heap_ok_dir, of "Some (dir, [])"] by (auto simp: opened)
  show "\<exists>it'. walk_open E w it = Inr (Some e, it'\<lparr>wi_dir := Some (dir, es)\<rparr>) \<and> walk_state it' (Some (dir, e # es)) q \<and> wi_next it' = wi_next it"
    if e: "env_opendir E w dir = Some (e # es)"
  proof (intro exI conjI)
    let ?it = "it2\<lparr>wi_dir := Some (dir, e # es), wi_current_dir := Some p, wi_current_dir_sz := length dir\<rparr>"
    show "walk_open E w it = Inr (Some e, ?it\<lparr>wi_dir := Some (dir, es)\<rparr>)" using e by (simp add: opened)
    have "heap_ok ?it ps" using h2 ps(1,2) by (auto simp: heap_ok_def it2_def)
    then show "walk_state ?it (Some (dir, e # es)) q"
      using st ps(2,3) by (auto simp: walk_state_def it2_def buffer_ok_def)
    show "wi_next ?it = wi_next it" by (simp add: it2_def)
  qed
qed

lemma walk_open_finished:
  assumes "walk_state it None []"
  shows "walk_open E w it = Inr (None, it)"
  using assms by (auto simp: walk_state_def heap_ok_def walk_open_def vec_at_header(1))

lemma walk_close:
  assumes "walk_state it (Some (dir, [])) q"
  shows "\<exists>it'. walk_next_entry E w it = (if env_readdir_error E w dir then Inr (None, it') else walk_open E w it')
    \<and> walk_state it' None q \<and> wi_next it' = wi_next it"
proof -
  obtain dp ps where dp: "wi_current_dir it = Some dp" "wi_heap it dp = Some dir" "heap_ok it ps" "map (wi_heap it) ps = map Some q"
    using assms by (auto simp: walk_state_def)
  define it' where "it' = it\<lparr>wi_dir := None, wi_heap := (wi_heap it)(dp := None), wi_current_dir := None\<rparr>"
  have "walk_next_entry E w it = (if env_readdir_error E w dir then Inr (None, it') else walk_open E w it')"
    using assms dp(1,2) by (simp add: walk_next_entry_def walk_state_def path_free_def it'_def Let_def)
  moreover have "walk_state it' None q"
    using assms dp by (auto simp: walk_state_def it'_def buffer_ok_def heap_ok_def intro!: exI [of _ ps])
  ultimately show ?thesis by (auto simp: it'_def)
qed

abbreviation all_mem :: walk_mem where
  "all_mem \<equiv> \<lparr>wm_path = True, wm_queue = True, wm_realloc = True, wm_dir = True\<rparr>"

lemma walk_reserve_ok:
  assumes "buffer_ok it" "n \<le> 512"
  shows "\<exists>c b. walk_reserve all_mem junk it n = (None, it\<lparr>wi_capacity := c, wi_current_path := b\<rparr>) \<and>
    buffer_ok (it\<lparr>wi_capacity := c, wi_current_path := b\<rparr>) \<and> n \<le> unat c"
proof -
  obtain blk where blk: "wi_current_path it = Some blk" "length blk = unat (wi_capacity it)" using assms(1) by (auto simp: buffer_ok_def)
  have same: "it = it\<lparr>wi_capacity := wi_capacity it, wi_current_path := Some blk\<rparr>" using blk(1) by simp
  consider "n \<le> unat (wi_capacity it)" | "wi_capacity it = 256" "256 < n" using assms by (fastforce simp: buffer_ok_def)
  then show ?thesis
  proof cases
    case 1
    then show ?thesis using same assms(1) by (intro exI [of _ "wi_capacity it"] exI [of _ "Some blk"]) (simp add: walk_reserve_def)
  next
    case 2
    have "push_bit 1 (256 :: u64) = 512" by (simp add: push_bit_eq_mult)
    moreover have "\<not> (- 1 :: u64) \<le> 256" by (simp add: word_le_nat_alt unsigned_minus_1_eq_mask mask_eq_exp_minus_1)
    ultimately show ?thesis
      using 2 assms(2) blk(1) by (intro exI [of _ 512] exI [of _ "Some (realloc_blk junk blk 512)"])
        (simp add: walk_reserve_def Let_def buffer_ok_def)
  qed
qed

lemma walk_push_ok:
  assumes "heap_ok it ps" "length ps < 127" "Suc (wi_next it) < 2 ^ 63"
  shows "\<exists>it'. walk_push mem junk it path = Inr it' \<and> heap_ok it' (ps @ [wi_next it]) \<and>
    wi_heap it' = (wi_heap it)(wi_next it \<mapsto> path) \<and> wi_next it' = Suc (wi_next it) \<and>
    wi_current_path it' = wi_current_path it \<and> wi_capacity it' = wi_capacity it \<and> wi_first_entry it' = wi_first_entry it \<and>
    wi_dir it' = wi_dir it \<and> wi_current_dir it' = wi_current_dir it \<and> wi_current_dir_sz it' = wi_current_dir_sz it"
proof -
  obtain raw where raw: "vector_push_back (wm_queue mem) junk (wi_queue it) (path_ptr (wi_next it)) = Inr raw"
    "vec_at raw 128 8 (map path_ptr ps @ [path_ptr (wi_next it)])"
    using vector_push_back_free [of "wi_queue it" 128 8 "map path_ptr ps" "path_ptr (wi_next it)" "wm_queue mem" junk] assms
    by (auto simp: heap_ok_def)
  have fresh: "wi_heap it (wi_next it) = None" using assms(1) by (auto simp: heap_ok_def)
  then have "wi_next it \<notin> set ps" using assms(1) by (auto simp: heap_ok_def)
  then show ?thesis
    using raw assms(1,3) fresh by (auto simp: walk_push_def Let_def heap_ok_def less_Suc_eq)
qed

lemma take_block_str: "0 \<notin> set p \<Longrightarrow> block_str (p @ 0 # rest) = p"
  by (induction p) (auto simp: block_str_def)

lemma walk_yield_ok:
  assumes st: "walk_state it (Some (dir, es)) q" and vis: "\<not> walk_should_skip_entry mode e"
    and path: "length (entry_path dir e) \<le> 510" "0 \<notin> set (entry_path dir e)"
    and room: "length (q @ subdirs mode dir [e]) < 128" and mem: "Suc (wi_next it) < 2 ^ 63"
  shows "\<exists>it' blk. walk_yield E w all_mem junk mode it e = Inr (True, None, it') \<and>
    walk_state it' (Some (dir, es)) (q @ subdirs mode dir [e]) \<and> wi_current_path it' = Some blk \<and>
    block_str blk = entry_path dir e \<and> wi_next it' \<le> Suc (wi_next it)"
proof -
  define n where "n = length dir + 1 + length (d_name e) + 1"
  have n: "n = length (entry_path dir e) + 1" "n \<le> 512" using path(1) by (auto simp: n_def entry_path_def cstr_def)
  obtain dp ps where dp: "wi_current_dir it = Some dp" "wi_heap it dp = Some dir" "wi_current_dir_sz it = length dir"
    "heap_ok it ps" "map (wi_heap it) ps = map Some q"
    using st by (auto simp: walk_state_def)
  have "buffer_ok it" using st by (simp add: walk_state_def)
  then obtain c b where cb: "walk_reserve all_mem junk it n = (None, it\<lparr>wi_capacity := c, wi_current_path := b\<rparr>)"
    "buffer_ok (it\<lparr>wi_capacity := c, wi_current_path := b\<rparr>)" "n \<le> unat c"
    using walk_reserve_ok [OF _ n(2)] by blast
  from cb(2) obtain old where old: "b = Some old" "length old = unat c" by (auto simp: buffer_ok_def)
  define blk where "blk = entry_path dir e @ 0 # drop n old"
  have blk: "blk_write old 0 (take (length dir) dir @ cstr ''/'' @ d_name e @ [0]) = Inr blk" "length blk = unat c"
    using cb(3) old(2) n(1) by (auto simp: blk_write_def blk_def entry_path_def cstr_def)
  define it1 where "it1 = it\<lparr>wi_capacity := c, wi_current_path := Some blk\<rparr>"
  have fmt: "walk_format (it\<lparr>wi_capacity := c, wi_current_path := b\<rparr>) (d_name e) = Inr it1"
    using dp old(1) blk(1) by (simp add: walk_format_def path_at_def it1_def)
  have st1: "walk_state it1 (Some (dir, es)) q" "heap_ok it1 ps"
    using st cb(2) blk(2) dp(4) by (auto simp: walk_state_def it1_def buffer_ok_def heap_ok_def)
  have str: "block_str blk = entry_path dir e" using path(2) by (simp add: blk_def take_block_str)
  have kinds: "d_type e = DT_DIR \<or> d_type e = DT_REG"
    using vis by (cases "d_type e") (auto simp: walk_should_skip_entry_def split: if_splits)
  show ?thesis
  proof (cases "d_type e = DT_DIR \<and> mode AND FSWalkMode_Recursive \<noteq> 0")
    case True
    then have sub: "subdirs mode dir [e] = [entry_path dir e]" using vis by (simp add: subdirs_def)
    have "length ps = length q" using dp(5) by (rule map_eq_imp_length_eq)
    moreover have "wi_next it1 = wi_next it" by (simp add: it1_def)
    ultimately obtain it' where it': "walk_push all_mem junk it1 (entry_path dir e) = Inr it'" "heap_ok it' (ps @ [wi_next it])"
      "wi_heap it' = (wi_heap it1)(wi_next it1 \<mapsto> entry_path dir e)" "wi_next it' = Suc (wi_next it)"
      "wi_current_path it' = Some blk" "wi_capacity it' = c" "wi_first_entry it' = wi_first_entry it1"
      "wi_dir it' = wi_dir it1" "wi_current_dir it' = Some dp" "wi_current_dir_sz it' = length dir"
      using walk_push_ok [OF st1(2), of all_mem junk "entry_path dir e"] mem room sub dp(1,3)
      by (auto simp: it1_def)
    have "blk_read blk 0 (n - 1) = Inr (entry_path dir e)" using n(1) by (simp add: blk_read_def blk_def)
    then have "walk_yield E w all_mem junk mode it e = Inr (True, None, it')"
      unfolding walk_yield_def Let_def dp(3) n_def [symmetric] using True cb(1) fmt it'(1) str by (simp add: it1_def)
    moreover have "walk_state it' (Some (dir, es)) (q @ [entry_path dir e])"
    proof -
      have keep: "wi_heap it' p = wi_heap it p" if "wi_heap it p \<noteq> None" for p
        using that dp(4) it'(3) by (auto simp: heap_ok_def it1_def)
      have "map (wi_heap it') ps = map (wi_heap it) ps" using keep dp(4) by (auto simp: heap_ok_def)
      then have "map (wi_heap it') (ps @ [wi_next it]) = map Some (q @ [entry_path dir e])"
        using dp(5) it'(3) by (simp add: it1_def)
      moreover have "wi_heap it' dp = Some dir" using keep dp(2) by simp
      ultimately show ?thesis
        using st1(1) it'(2,5-10) room sub blk(2) cb(2) unfolding walk_state_def by (auto simp: it1_def buffer_ok_def)
    qed
    ultimately show ?thesis using sub str it'(4,5) by auto
  next
    case False
    then have "subdirs mode dir [e] = []" by (auto simp: subdirs_def)
    moreover have "walk_yield E w all_mem junk mode it e = Inr (True, None, it1)"
      unfolding walk_yield_def Let_def dp(3) n_def [symmetric] using False kinds cb(1) fmt by (auto simp: it1_def)
    ultimately show ?thesis using st1(1) str by (auto simp: it1_def)
  qed
qed

subsection \<open>Walking: all calls\<close>

text \<open>
  The loop of a client: it calls \<^verbatim>\<open>fs_walk\<close> until that returns \<^verbatim>\<open>false\<close> and collects the current paths.
\<close>

fun fs_walk_all :: "nat \<Rightarrow> 'w fs_env \<Rightarrow> 'w \<Rightarrow> (nat \<Rightarrow> u8) \<Rightarrow> bytes \<Rightarrow> u32 \<Rightarrow> walk_iterator \<Rightarrow> (bytes list \<times> walk_iterator) run" where
  "fs_walk_all 0 E w junk path mode it = None"
| "fs_walk_all (Suc n) E w junk path mode it =
     run_bind (Some (fs_walk E w all_mem junk path mode it)) (\<lambda>(more, err, it).
       if \<not> more then Some (Inr ([], it))
       else case wi_current_path it of
           None \<Rightarrow> Some (Inl NullDeref)
         | Some blk \<Rightarrow> run_bind (fs_walk_all n E w junk path mode it) (\<lambda>(ys, it). Some (Inr (block_str blk # ys, it))))"

lemma fs_walk_entry:
  "\<not> wi_first_entry it \<Longrightarrow> wi_dir it = Some (dir, e # es) \<Longrightarrow> fs_walk E w mem junk path mode it =
     (case walk_skip mode e es of None \<Rightarrow> Inr (False, None, it\<lparr>wi_dir := Some (dir, [])\<rparr>)
      | Some (e, es) \<Rightarrow> walk_yield E w mem junk mode (it\<lparr>wi_dir := Some (dir, es)\<rparr>) e)"
  by (simp add: fs_walk_def walk_first_def walk_next_entry_def del: walk_skip.simps split: option.split)

lemma fs_walk_next:
  "\<not> wi_first_entry it \<Longrightarrow> \<not> wi_first_entry it' \<Longrightarrow> walk_next_entry E w it = walk_next_entry E w it' \<Longrightarrow>
     fs_walk E w mem junk path mode it = fs_walk E w mem junk path mode it'"
  by (simp add: fs_walk_def walk_first_def)

lemma walk_skip_none: "walk_should_skip_entry mode e \<Longrightarrow> visible mode es = [] \<Longrightarrow> walk_skip mode e es = None"
  by (induction es arbitrary: e) (auto split: if_splits)

lemma walk_all_same:
  "fs_walk E w all_mem junk path mode it = fs_walk E w all_mem junk path mode it' \<Longrightarrow>
     fs_walk_all (Suc n) E w junk path mode it = fs_walk_all (Suc n) E w junk path mode it'"
  by simp

lemma walk_state_heap: "walk_state it od q \<Longrightarrow> \<exists>ps. heap_ok it ps"
  by (auto simp: walk_state_def)

lemma walk_state_dir:
  "walk_state it (Some (dir, es)) q \<Longrightarrow> walk_state (it\<lparr>wi_dir := Some (dir, es')\<rparr>) (Some (dir, es')) q"
  by (auto simp: walk_state_def buffer_ok_def heap_ok_def)

lemma walk_all_from:
  assumes "walk_from E w mode od q ys" "walk_state it od q"
    and "\<forall>y\<in>set ys. length y \<le> 510 \<and> 0 \<notin> set y" "wi_next it + length ys < 2 ^ 63 - 1"
  shows "\<exists>it' ps. fs_walk_all (Suc (length ys)) E w junk path mode it = Some (Inr (ys, it')) \<and> heap_ok it' ps"
  using assms
proof (induction arbitrary: it rule: walk_from.induct)
  case wf_finished
  then have "fs_walk E w all_mem junk path mode it = Inr (False, None, it)"
    using walk_open_finished [OF wf_finished(1), of E w] wf_finished(1) by (auto simp: fs_walk_def walk_first_def walk_next_entry_def walk_state_def)
  then show ?case using walk_state_heap [OF wf_finished(1)] by auto
next
  case (wf_unreadable dir q)
  obtain it' ps where it': "walk_open E w it = Inr (None, it')" "heap_ok it' ps"
    using walk_open_ok(2) [OF wf_unreadable(2,1)] by blast
  then have "fs_walk E w all_mem junk path mode it = Inr (False, None, it')"
    using wf_unreadable(2) by (auto simp: fs_walk_def walk_first_def walk_next_entry_def walk_state_def)
  then show ?case using it' by auto
next
  case (wf_open dir e es q ys)
  obtain it' where it': "walk_open E w it = Inr (Some e, it'\<lparr>wi_dir := Some (dir, es)\<rparr>)"
    "walk_state it' (Some (dir, e # es)) q" "wi_next it' = wi_next it"
    using walk_open_ok(1) [OF wf_open.prems(1) wf_open.hyps(1)] by blast
  have "walk_next_entry E w it = walk_next_entry E w it'"
    using it'(1,2) wf_open.prems(1) by (auto simp: walk_next_entry_def walk_state_def)
  then have same: "fs_walk E w all_mem junk path mode it = fs_walk E w all_mem junk path mode it'"
    using it'(2) wf_open.prems(1) by (intro fs_walk_next) (auto simp: walk_state_def)
  then show ?case using wf_open.IH [OF it'(2)] wf_open.prems(2,3) it'(3) unfolding walk_all_same [OF same] by (simp only:)
next
  case (wf_cut es dir q)
  then obtain e es' where es: "es = e # es'" by (cases es) auto
  then have "walk_skip mode e es' = None" using wf_cut.hyps(2) by (intro walk_skip_none) (auto split: if_splits)
  then have "fs_walk E w all_mem junk path mode it = Inr (False, None, it\<lparr>wi_dir := Some (dir, [])\<rparr>)"
    using wf_cut.prems(1) es fs_walk_entry [of it dir e es' E w all_mem junk path mode] by (auto simp: walk_state_def simp del: walk_skip.simps)
  then show ?case using walk_state_heap [OF wf_cut.prems(1)] by (auto intro: heap_ok_dir)
next
  case (wf_yield e es dir q ys)
  then obtain e' es' where es: "es = e' # es'" by (cases es) auto
  define it' where "it' = it\<lparr>wi_dir := Some (dir, es)\<rparr>"
  have st: "walk_state it' (Some (dir, es)) q" using walk_state_dir [OF wf_yield.prems(1)] by (simp add: it'_def)
  have d: "\<not> wi_first_entry it" "wi_dir it = Some (dir, e # es)" "\<not> wi_first_entry it'" "wi_dir it' = Some (dir, e' # es')"
    using wf_yield.prems(1) st es by (simp_all add: walk_state_def)
  have skip: "walk_skip mode e es = walk_skip mode e' es'"
    using wf_yield.hyps(1) es by (subst walk_skip.simps) (simp del: walk_skip.simps)
  have upd: "it'\<lparr>wi_dir := x\<rparr> = it\<lparr>wi_dir := x\<rparr>" for x by (simp add: it'_def)
  have same: "fs_walk E w all_mem junk path mode it = fs_walk E w all_mem junk path mode it'"
    unfolding fs_walk_entry [OF d(1,2)] fs_walk_entry [OF d(3,4)] skip upd ..
  then show ?case using wf_yield.IH [OF st] wf_yield.prems(2,3) unfolding walk_all_same [OF same] by (simp add: it'_def del: fs_walk_all.simps)
next
  case (wf_entry e q dir es ys)
  have st: "walk_state (it\<lparr>wi_dir := Some (dir, es)\<rparr>) (Some (dir, es)) q" using walk_state_dir [OF wf_entry.prems(1)] .
  obtain it' blk where it': "walk_yield E w all_mem junk mode (it\<lparr>wi_dir := Some (dir, es)\<rparr>) e = Inr (True, None, it')"
    "walk_state it' (Some (dir, es)) (q @ subdirs mode dir [e])" "wi_current_path it' = Some blk" "block_str blk = entry_path dir e"
    "wi_next it' \<le> Suc (wi_next it)"
    using walk_yield_ok [OF st wf_entry.hyps(1) _ _ wf_entry.hyps(2), of E w junk] wf_entry.prems(2,3) by auto
  have "fs_walk E w all_mem junk path mode it = Inr (True, None, it')"
    using wf_entry.prems(1) wf_entry.hyps(1) it'(1) fs_walk_entry [of it dir e es E w all_mem junk path mode] by (simp add: walk_state_def)
  moreover obtain it2 ps where "fs_walk_all (Suc (length ys)) E w junk path mode it' = Some (Inr (ys, it2))" "heap_ok it2 ps"
    using wf_entry.IH [OF it'(2)] wf_entry.prems(2,3) it'(5) by auto
  ultimately show ?case using it'(3,4) by (auto simp del: fs_walk_all.simps(2) simp: fs_walk_all.simps(2) [of "Suc (length ys)"])
next
  case (wf_error dir q)
  obtain it' where it': "walk_next_entry E w it = Inr (None, it')" "walk_state it' None q"
    using walk_close [OF wf_error(2), of E w] wf_error(1) by auto
  then have "fs_walk E w all_mem junk path mode it = Inr (False, None, it')"
    using wf_error(2) by (simp add: fs_walk_def walk_first_def walk_state_def)
  then show ?case using walk_state_heap [OF it'(2)] by auto
next
  case (wf_close dir q ys)
  obtain it' where it': "walk_next_entry E w it = walk_open E w it'" "walk_state it' None q" "wi_next it' = wi_next it"
    using walk_close [OF wf_close.prems(1), of E w] wf_close.hyps(1) by auto
  have "walk_next_entry E w it' = walk_open E w it'" using it'(2) by (simp add: walk_next_entry_def walk_state_def)
  then have same: "fs_walk E w all_mem junk path mode it = fs_walk E w all_mem junk path mode it'"
    using it'(1,2) wf_close.prems(1) by (intro fs_walk_next) (auto simp: walk_state_def)
  then show ?case using wf_close.IH [OF it'(2)] wf_close.prems(2,3) it'(3) unfolding walk_all_same [OF same] by (simp only:)
qed

lemma release_queue_ok:
  assumes "vec_at raw 128 8 (map path_ptr qs)" "qs = done @ ps" "wi_queue it = raw" "distinct ps"
    and "\<forall>p\<in>set ps. wi_heap it p \<noteq> None \<and> p < 2 ^ 63"
  shows "\<exists>it'. release_queue it (length done) (length ps) = Inr it'"
  using assms
proof (induction ps arbitrary: it "done")
  case (Cons p ps)
  have "vector_at raw (length done) = Inr (24 + length done * 8)" using vec_at_header(4) [OF Cons.prems(1)] by simp
  moreover have "blk_read raw (24 + length done * 8) 8 = Inr (path_ptr p)"
    using vec_read_at [OF Cons.prems(1), of "length done"] Cons.prems(2) by (simp add: nth_append)
  moreover obtain s where s: "wi_heap it p = Some s" using Cons.prems(5) by auto
  moreover have "ptr_path (path_ptr p) = Some p" using Cons.prems(5) by (intro ptr_path_ptr) simp
  moreover obtain it' where "release_queue (it\<lparr>wi_heap := (wi_heap it)(p := None)\<rparr>) (length (done @ [p])) (length ps) = Inr it'"
    using Cons.IH [OF Cons.prems(1), of "done @ [p]" "it\<lparr>wi_heap := (wi_heap it)(p := None)\<rparr>"] Cons.prems by fastforce
  ultimately show ?case
    using Cons.prems(3) by (auto simp: fs_walk_iterator_queue_release_cb_def path_free_def)
qed simp

lemma walk_release_ok:
  assumes "heap_ok it ps"
  shows "\<exists>it'. fs_walk_iterator_release it = Inr it'"
proof -
  have v: "vec_at (wi_queue it) 128 8 (map path_ptr ps)" using assms by (simp add: heap_ok_def)
  have bound: "\<forall>p\<in>set ps. wi_heap it p \<noteq> None \<and> p < 2 ^ 63" using assms by (fastforce simp: heap_ok_def dom_def)
  have "\<exists>it1. path_free it (wi_current_dir it) = Inr it1 \<and> wi_queue it1 = wi_queue it \<and> (\<forall>p\<in>set ps. wi_heap it1 p = wi_heap it p)"
    using assms by (cases "wi_current_dir it") (auto simp: path_free_def heap_ok_def)
  then obtain it1 where it1: "path_free it (wi_current_dir it) = Inr it1" "wi_queue it1 = wi_queue it"
    "\<forall>p\<in>set ps. wi_heap it1 p = wi_heap it p" by blast
  have "\<exists>it'. release_queue (it1\<lparr>wi_dir := None\<rparr>) (length ([] :: nat list)) (length ps) = Inr it'"
    by (rule release_queue_ok [OF v]) (use assms it1 bound in \<open>auto simp: heap_ok_def\<close>)
  then show ?thesis using it1(1,2) vec_at_header(1) [OF v] by (simp add: fs_walk_iterator_release_def)
qed

lemma fs_walk_from_walked:
  assumes "walked E w mode [path] ys"
    and "\<forall>y\<in>set ys. length y \<le> 510 \<and> 0 \<notin> set y" "length ys < 2 ^ 62"
  shows "\<exists>it it' it''. fs_walk_iterator_init True True junk = Inr (True, None, it) \<and>
    fs_walk_all (Suc (length ys)) E w junk path mode it = Some (Inr (ys, it')) \<and>
    fs_walk_iterator_release it' = Inr it''"
proof -
  obtain raw where raw: "vector_init True junk 128 8 = Inr raw" "vec_at raw 128 8 []"
    using vector_init_capacity [of 8 128 junk] by auto
  define it0 where "it0 = \<lparr>wi_current_path = Some (calloc_blk 256), wi_capacity = 256, wi_current_dir = None,
    wi_current_dir_sz = 0, wi_queue = raw, wi_first_entry = True, wi_dir = None, wi_heap = Map.empty, wi_next = 0\<rparr>"
  have init: "fs_walk_iterator_init True True junk = Inr (True, None, it0)"
    by (simp add: fs_walk_iterator_init_def raw(1) it0_def)
  have "heap_ok it0 []" using raw(2) by (simp add: heap_ok_def it0_def)
  moreover have "wi_next it0 = 0" by (simp add: it0_def)
  ultimately obtain it1 where it1: "walk_push all_mem junk it0 path = Inr it1" "heap_ok it1 [0]"
    "wi_heap it1 = [0 \<mapsto> path]" "wi_next it1 = 1"
    "wi_current_path it1 = wi_current_path it0" "wi_capacity it1 = wi_capacity it0"
    "wi_dir it1 = wi_dir it0" "wi_current_dir it1 = wi_current_dir it0"
    using walk_push_ok [of it0 "[]" all_mem junk path] by (auto simp: it0_def)
  define it2 where "it2 = it1\<lparr>wi_first_entry := False\<rparr>"
  have "heap_ok it2 [0]" using it1(2) by (simp add: heap_ok_def it2_def)
  then have st: "walk_state it2 None [path]"
    using it1(3,5-8) by (auto simp: walk_state_def it2_def buffer_ok_def it0_def calloc_blk_def intro!: exI [of _ "[0]"])
  have "fs_walk E w all_mem junk path mode it0 = fs_walk E w all_mem junk path mode it2"
    using it1(1) by (simp add: fs_walk_def walk_first_def it2_def) (simp add: it0_def)
  then have same: "fs_walk_all (Suc (length ys)) E w junk path mode it0 = fs_walk_all (Suc (length ys)) E w junk path mode it2"
    by (rule walk_all_same)
  have "wi_next it2 + length ys < 2 ^ 63 - 1" using assms(3) it1(4) by (simp add: it2_def)
  from walk_all_from [OF walked_walk_from [OF assms(1)] st assms(2) this, of junk path]
  obtain it' ps where "fs_walk_all (Suc (length ys)) E w junk path mode it2 = Some (Inr (ys, it'))" "heap_ok it' ps" by blast
  then show ?thesis using init walk_release_ok [of it' ps] unfolding same [symmetric] by blast
qed

subsection \<open>The walk and the listing\<close>

text \<open>Where the walk does not stop, its entries are the wanted ones and its queue gets the directories below.\<close>

lemma skip_iff:
  assumes "d_type e \<noteq> DT_UNKNOWN"
  shows "walk_should_skip_entry mode e \<longleftrightarrow> d_name e \<in> {cstr ''.'', cstr ''..''} \<or> \<not> wanted E w mode dir e"
  using assms by (cases "d_type e") (auto simp: walk_should_skip_entry_def wanted_def entry_kind_def)

lemma readable_entries:
  assumes "readable E w mode dir" and rec: "mode AND FSWalkMode_Recursive \<noteq> 0 \<longrightarrow> mode AND FSWalkMode_YieldDirs \<noteq> 0"
  obtains es where "env_opendir E w dir = Some es" "es \<noteq> []" "\<not> walk_should_skip_entry mode (last es)" "\<not> env_readdir_error E w dir"
    "map (entry_path dir) (visible mode es) = listed E w mode dir" "subdirs mode dir es = below E w mode dir"
proof -
  obtain es where es: "env_opendir E w dir = Some es" "list_all (\<lambda>e. d_type e \<noteq> DT_UNKNOWN) es" "es \<noteq> []"
      "last es \<in> set (children E w dir)" "wanted E w mode dir (last es)" "\<not> env_readdir_error E w dir"
    using assms(1) by (auto simp: readable_def split: option.splits)
  have known: "d_type e \<noteq> DT_UNKNOWN" if "e \<in> set es" for e using es(2) that by (auto simp: list_all_iff)
  have "\<not> walk_should_skip_entry mode (last es)"
    using es(1,3-5) skip_iff [OF known [OF last_in_set [OF es(3)]], of mode E w dir] by (auto simp: children_def)
  moreover have "visible mode es = filter (wanted E w mode dir) (children E w dir)"
    using es(1) skip_iff [OF known, of _ mode E w dir] by (auto simp: visible_def children_def intro!: filter_cong)
  moreover have "subdirs mode dir es = below E w mode dir"
  proof (cases "mode AND FSWalkMode_Recursive = 0")
    case False
    have "d_type e = DT_DIR \<longleftrightarrow> entry_kind E w dir e = Some KindDirectory" if "e \<in> set es" for e
      using known [OF that] by (cases "d_type e") (simp_all add: entry_kind_def)
    moreover have "wanted E w mode dir e" if "entry_kind E w dir e = Some KindDirectory" for e
      using that rec False by (simp add: wanted_def)
    ultimately have "filter (\<lambda>e. d_type e = DT_DIR) (visible mode es) =
        filter (\<lambda>e. entry_kind E w dir e = Some KindDirectory) (children E w dir)"
      using es(1) skip_iff [OF known, of _ mode E w dir] by (auto simp: visible_def children_def intro!: filter_cong)
    then show ?thesis using False by (simp add: subdirs_def below_def)
  qed (simp add: subdirs_def below_def)
  ultimately show thesis using that [OF es(1,3)] es(6) by (simp add: listed_def)
qed

text \<open>The queue holds the rest of a level and the part of the next level that is already known.\<close>

lemma walked_part:
  assumes rec: "mode AND FSWalkMode_Recursive \<noteq> 0 \<longrightarrow> mode AND FSWalkMode_YieldDirs \<noteq> 0"
  shows "\<lbrakk>\<forall>dir \<in> set now. readable E w mode dir; length now + length later + length (concat (map (below E w mode) now)) \<le> 128;
      walked E w mode (later @ concat (map (below E w mode) now)) ys\<rbrakk>
    \<Longrightarrow> walked E w mode (now @ later) (concat (map (listed E w mode) now) @ ys)"
proof (induction now arbitrary: later)
  case (Cons dir now)
  obtain es where es: "env_opendir E w dir = Some es" "es \<noteq> []" "\<not> walk_should_skip_entry mode (last es)" "\<not> env_readdir_error E w dir"
      "map (entry_path dir) (visible mode es) = listed E w mode dir" "subdirs mode dir es = below E w mode dir"
    using readable_entries [OF _ rec, of E w dir] Cons.prems(1) by auto
  have "walked E w mode (now @ (later @ below E w mode dir)) (concat (map (listed E w mode) now) @ ys)"
    using Cons.prems by (intro Cons.IH) simp_all
  then show ?case
    using walked.directory [OF es(1-4), of "now @ later"] Cons.prems(2) unfolding es(5,6) by simp
qed simp

lemma walked_levels:
  assumes rec: "mode AND FSWalkMode_Recursive \<noteq> 0 \<longrightarrow> mode AND FSWalkMode_YieldDirs \<noteq> 0"
    and dirs: "\<forall>n < depth. \<forall>dir \<in> set (level E w mode path n). readable E w mode dir"
    and width: "\<forall>n < depth. length (level E w mode path n) + length (level E w mode path (Suc n)) \<le> 128"
    and depth: "level E w mode path depth = []"
  shows "n \<le> depth \<Longrightarrow> walked E w mode (level E w mode path n)
    (concat (map (\<lambda>n. concat (map (listed E w mode) (level E w mode path n))) [n..<depth]))"
proof (induction n rule: inc_induct)
  case base
  then show ?case using depth by (simp add: walked.finished)
next
  case (step n)
  have "walked E w mode (level E w mode path n @ [])
      (concat (map (listed E w mode) (level E w mode path n)) @
       concat (map (\<lambda>n. concat (map (listed E w mode) (level E w mode path n))) [Suc n..<depth]))"
    using step dirs width by (intro walked_part [OF rec]) auto
  then show ?case using step(2) by (simp add: upt_conv_Cons)
qed

text \<open>
  C16: A client that walks a tree to the end gets exactly its breadth-first listing, level by level and in
  the order of the directories: every entry that the mode asks for, but never the entries for a
  directory itself and for its parent. It can then release the iterator: no path is used or freed
  twice and no buffer or queue is overrun. This holds for trees at which the walk does not stop early
  (every directory can be opened and read, knows the kinds of its entries, and delivers as its last
  entry one that is to be listed), with a mode that yields directories if it is recursive, paths of at
  most 510 bytes, and at most 128 directories on two levels together. It is false of other trees
  (\<open>fs_walk_stops_early\<close>).
\<close>

theorem fs_walk_correct:
  assumes rec: "mode AND FSWalkMode_Recursive \<noteq> 0 \<longrightarrow> mode AND FSWalkMode_YieldDirs \<noteq> 0"
    and dirs: "\<forall>n < depth. \<forall>dir \<in> set (level E w mode path n). readable E w mode dir"
    and width: "\<forall>n < depth. length (level E w mode path n) + length (level E w mode path (Suc n)) \<le> 128"
    and depth: "level E w mode path depth = []" and ys: "ys = breadth_first E w mode path depth"
    and paths: "\<forall>y\<in>set ys. length y \<le> 510 \<and> 0 \<notin> set y" "length ys < 2 ^ 62"
  shows "\<exists>it it' it''. fs_walk_iterator_init True True junk = Inr (True, None, it) \<and>
    fs_walk_all (Suc (length ys)) E w junk path mode it = Some (Inr (ys, it')) \<and>
    fs_walk_iterator_release it' = Inr it''"
proof -
  have "walked E w mode [path] ys"
    using walked_levels [OF rec dirs width depth, of 0] by (simp add: ys breadth_first_def)
  then show ?thesis by (rule fs_walk_from_walked [OF _ paths])
qed

text \<open>
  The directory \<open>d\<close> of the example holds a directory \<open>s\<close> with a file \<open>f\<close>, and the entry for \<open>d\<close> itself comes
  last, or not.
\<close>

definition demo_entries :: "bool \<Rightarrow> dirent list" where
  "demo_entries self_last =
     (let self = \<lparr>d_name = cstr ''.'', d_type = DT_DIR\<rparr>; sub = \<lparr>d_name = cstr ''s'', d_type = DT_DIR\<rparr>
      in if self_last then [sub, self] else [self, sub])"

definition demo_env :: "bool \<Rightarrow> unit fs_env" where
  "demo_env self_last = \<lparr>env_fopen = (\<lambda>w p m. None), env_stat = (\<lambda>w p. None), env_mkdir = (\<lambda>w p m. (0, w)),
     env_chmod = (\<lambda>w p m. (0, w)), env_rename = (\<lambda>w p q. (0, w)), env_remove = (\<lambda>w p. (0, w)),
     env_nftw = (\<lambda>w p. None), env_cwd = (\<lambda>w. None),
     env_opendir = (\<lambda>w p. if p = cstr ''d'' then Some (demo_entries self_last)
        else if p = cstr ''d/s'' then Some [\<lparr>d_name = cstr ''.'', d_type = DT_DIR\<rparr>, \<lparr>d_name = cstr ''f'', d_type = DT_REG\<rparr>]
        else None),
     env_readdir_error = (\<lambda>w p. False)\<rparr>"

lemma demo_stopped: "walked (demo_env True) () 7 [cstr ''d''] [cstr ''d/s'']"
proof -
  note s = demo_env_def demo_entries_def cstr_def walk_should_skip_entry_def FSWalkMode_YieldDirs_def
    FSWalkMode_YieldFiles_def FSWalkMode_Recursive_def entry_path_def subdirs_def
  show "walked (demo_env True) () 7 [cstr ''d''] [cstr ''d/s'']"
    using walked.cut [of "demo_env True" "()" "cstr ''d''" _ 7 "[]"] by (simp add: s)
qed

lemma demo_levels:
  "level (demo_env False) () 7 (cstr ''d'') 0 = [cstr ''d'']" "level (demo_env False) () 7 (cstr ''d'') (Suc 0) = [cstr ''d/s'']"
  "level (demo_env False) () 7 (cstr ''d'') (Suc (Suc 0)) = []"
  by code_simp+

lemma demo_listing:
  "breadth_first (demo_env False) () 7 (cstr ''d'') 2 = [cstr ''d/s'', cstr ''d/s/f'']"
  "breadth_first (demo_env True) () 7 (cstr ''d'') 2 = [cstr ''d/s'', cstr ''d/s/f'']"
  by code_simp+

theorem fs_walk_correct_witness:
  "\<exists>it it' it''. fs_walk_iterator_init True True (\<lambda>_. 0) = Inr (True, None, it) \<and>
    fs_walk_all (Suc (length [cstr ''d/s'', cstr ''d/s/f''])) (demo_env False) () (\<lambda>_. 0) (cstr ''d'') 7 it
      = Some (Inr ([cstr ''d/s'', cstr ''d/s/f''], it')) \<and>
    fs_walk_iterator_release it' = Inr it''"
proof (rule fs_walk_correct [OF _ _ _ _ demo_listing(1) [symmetric]])
  have two: "n < 2 \<longleftrightarrow> n = 0 \<or> n = 1" for n :: nat by auto
  have "readable (demo_env False) () 7 (cstr ''d'')" "readable (demo_env False) () 7 (cstr ''d/s'')" by code_simp+
  then show "\<forall>n<2. \<forall>dir\<in>set (level (demo_env False) () 7 (cstr ''d'') n). readable (demo_env False) () 7 dir"
    using demo_levels by (auto simp: two simp del: level.simps)
  show "\<forall>n<2. length (level (demo_env False) () 7 (cstr ''d'') n) + length (level (demo_env False) () 7 (cstr ''d'') (Suc n)) \<le> 128"
    using demo_levels by (auto simp: two simp del: level.simps)
  show "level (demo_env False) () 7 (cstr ''d'') 2 = []"
    using demo_levels(3) by (simp only: numeral_2_eq_2)
qed (simp_all add: cstr_def FSWalkMode_Recursive_def FSWalkMode_YieldDirs_def)

text \<open>
  The order of the entries decides whether the walk is complete: with the entry for the directory itself
  last, \<^verbatim>\<open>fs_walk\<close> returns \<^verbatim>\<open>false\<close> after \<open>d/s\<close> and the file \<open>d/s/f\<close> of the listing is never reported.
\<close>

theorem fs_walk_stops_early:
  "\<exists>it it'. fs_walk_iterator_init True True (\<lambda>_. 0) = Inr (True, None, it) \<and>
    fs_walk_all 2 (demo_env True) () (\<lambda>_. 0) (cstr ''d'') 7 it = Some (Inr ([cstr ''d/s''], it')) \<and>
    breadth_first (demo_env True) () 7 (cstr ''d'') 2 = [cstr ''d/s'', cstr ''d/s/f'']"
proof -
  have "\<exists>it it' it''. fs_walk_iterator_init True True (\<lambda>_. 0) = Inr (True, None, it) \<and>
    fs_walk_all (Suc (length [cstr ''d/s''])) (demo_env True) () (\<lambda>_. 0) (cstr ''d'') 7 it
      = Some (Inr ([cstr ''d/s''], it')) \<and> fs_walk_iterator_release it' = Inr it''"
  proof (rule fs_walk_from_walked [OF demo_stopped])
  qed (simp_all add: cstr_def)
  moreover have "Suc (length [cstr ''d/s'']) = 2" by simp
  ultimately show ?thesis using demo_listing(2) by metis
qed

text \<open>
  A path of more than 512 bytes, with its terminator, does not fit the buffer even after it has been doubled,
  and is written past its end.
\<close>

theorem fs_walk_long_path_overflows:
  assumes "walk_state it (Some (dir, e # es)) q" "wi_capacity it = 256" "\<not> walk_should_skip_entry mode e"
    and "512 \<le> length (entry_path dir e)"
  shows "fs_walk E w all_mem junk path mode it = Inl OutOfBounds"
proof -
  obtain dp blk where it: "wi_current_dir it = Some dp" "wi_heap it dp = Some dir" "wi_current_dir_sz it = length dir"
    "wi_current_path it = Some blk" "length blk = 256" "\<not> wi_first_entry it" "wi_dir it = Some (dir, e # es)"
    using assms(1,2) by (auto simp: walk_state_def buffer_ok_def)
  have "\<not> (- 1 :: u64) \<le> 256" by (simp add: word_le_nat_alt unsigned_minus_1_eq_mask mask_eq_exp_minus_1)
  moreover have "push_bit 1 (256 :: u64) = 512" by (simp add: push_bit_eq_mult)
  moreover have "512 \<le> length dir + 1 + length (d_name e)" using assms(4) by (simp add: entry_path_def cstr_def)
  ultimately have "walk_yield E w all_mem junk mode (it\<lparr>wi_dir := Some (dir, es)\<rparr>) e = Inl OutOfBounds"
    using it assms(2)
    by (simp add: walk_yield_def Let_def walk_reserve_def walk_format_def path_at_def blk_write_def cstr_def)
  then show ?thesis
    using assms(3) fs_walk_entry [OF it(6,7), of E w all_mem junk path mode] by simp
qed

end
