(* ===== verification/Server.thy ===== *)
theory Server
  imports Fmt CMem
begin

text \<open>
  The socket server of \<^verbatim>\<open>socket_server.c\<close>: the block of callbacks, the reception of a request, and the
  protocol between the owner of a server and its thread. A step is one call of the owner, or the work of the
  thread between two visits of its main loop to the mutex; what the network does in a step is an
  argument of it. The structure of a server is present until it is freed.
\<close>

subsection \<open>The server\<close>

definition BIT_FLAG :: "nat \<Rightarrow> u32" where "BIT_FLAG b = push_bit b 1"
definition SocketServerFlags_NeedToStop :: u32 where "SocketServerFlags_NeedToStop = BIT_FLAG 0"
definition SocketServerFlags_IsRunning :: u32 where "SocketServerFlags_IsRunning = BIT_FLAG 1"
definition SocketServerFlags_IpMode_Any :: u32 where "SocketServerFlags_IpMode_Any = BIT_FLAG 2"
definition SocketServerFlags_IpMode_LocalHost :: u32 where "SocketServerFlags_IpMode_LocalHost = BIT_FLAG 3"

definition has_flag :: "u32 \<Rightarrow> u32 \<Rightarrow> bool" where
  "has_flag flags b = (flags AND b \<noteq> 0)"

text \<open>The field of the mutex is \<^verbatim>\<open>NULL\<close>, a mutex or a freed one; the thread and the error are not initialised.\<close>

datatype mutex = NoMutex | Mutex | FreedMutex

record server =
  sv_callbacks :: "bytes option"
  sv_log_callback :: bool
  sv_mutex :: mutex
  sv_thread :: "nat option"
  sv_flags :: u32
  sv_error :: "int option"
  sv_port :: u16
  sv_max_connections :: u16

text \<open>
  What can be observed: a message to the log callback, the address a server is bound to, the call of a
  callback with a buffer and a size, and the bytes sent back.
\<close>

datatype server_event = Logged int string | Bound bool u16 | Called u64 bytes nat | Sent bytes

definition socket_server_new :: "bool \<Rightarrow> u16 \<Rightarrow> u16 \<Rightarrow> u32 \<Rightarrow> server option" where
  "socket_server_new ok port max_connections ip_mode =
     (if \<not> ok then None
      else Some \<lparr>sv_callbacks = None, sv_log_callback = False, sv_mutex = NoMutex, sv_thread = None,
        sv_flags = 0 OR ip_mode, sv_error = None, sv_port = port, sv_max_connections = max_connections\<rparr>)"

definition socket_server_set_log_callback :: "server \<Rightarrow> bool \<Rightarrow> server" where
  "socket_server_set_log_callback s callback = s\<lparr>sv_log_callback := callback\<rparr>"

text \<open>The formats the code logs have no directives, so the message is the format.\<close>

definition socket_server_log :: "server \<Rightarrow> int \<Rightarrow> string \<Rightarrow> server_event list \<times> server" where
  "socket_server_log s error_code format =
     (if sv_log_callback s then [Logged error_code format] else [],
      if error_code \<noteq> 0 then s\<lparr>sv_error := Some error_code\<rparr> else s)"

definition socket_server_push_callback :: "bool \<Rightarrow> (nat \<Rightarrow> u8) \<Rightarrow> server \<Rightarrow> u64 \<Rightarrow> (bool \<times> server_event list \<times> server) res" where
  "socket_server_push_callback ok junk s callback =
     (case sv_callbacks s of
        None \<Rightarrow>
          if \<not> ok then Inr (False, [], s)
          else
            res_bind (blk_write (calloc_blk 16) 8 (u64_bytes callback)) (\<lambda>blk. res_bind (hdr_set blk 0 1) (\<lambda>blk.
              let (evs, s) = socket_server_log (s\<lparr>sv_callbacks := Some blk\<rparr>) 0 ''Added a new callback to the socket server''
              in Inr (True, evs, s)))
      | Some blk \<Rightarrow>
          res_bind (hdr_get blk 0) (\<lambda>n.
            if \<not> ok then Inr (False, [], s\<lparr>sv_callbacks := None\<rparr>)
            else
              res_bind (blk_write (realloc_blk junk blk (8 + (n + 1) * 8)) (8 + n * 8) (u64_bytes callback)) (\<lambda>blk.
              res_bind (hdr_set blk 0 (n + 1)) (\<lambda>blk.
                let (evs, s) = socket_server_log (s\<lparr>sv_callbacks := Some blk\<rparr>) 0 ''Added a new callback to the socket server''
                in Inr (True, evs, s)))))"

text \<open>The error, which is indeterminate before the first one.\<close>

definition socket_server_get_last_error :: "server \<Rightarrow> int option \<times> server" where
  "socket_server_get_last_error s = (sv_error s, s\<lparr>sv_error := Some 0\<rparr>)"

text \<open>The macro expands to \<^verbatim>\<open>(bool)flags & 2\<close>, where the conversion comes first.\<close>

definition socket_server_is_running :: "server \<Rightarrow> bool" where
  "socket_server_is_running s =
     ((if sv_flags s \<noteq> 0 then 1 else 0) AND SocketServerFlags_IsRunning \<noteq> 0)"

subsection \<open>One connection\<close>

definition RECV_SIZE :: nat where "RECV_SIZE = 128"

text \<open>
  The receive loop on the answers of \<^verbatim>\<open>socket_recv\<close>, \<open>None\<close> for an error and nothing when the client is
  done. An error is \<open>-1\<close>, which the copy takes for a size.
\<close>

fun recv_request :: "bool list \<Rightarrow> (nat \<Rightarrow> u8) \<Rightarrow> bytes option list \<Rightarrow> bytes option \<Rightarrow> nat \<Rightarrow> (bytes option \<times> nat \<times> bool) res" where
  "recv_request oks junk [] data_buffer rec_data_size = Inr (data_buffer, rec_data_size, False)"
| "recv_request oks junk (r # rs) data_buffer rec_data_size =
     (case data_buffer of
        None \<Rightarrow> Inr (None, rec_data_size, False)
      | Some buf \<Rightarrow>
          (case r of
             None \<Rightarrow> Inl OutOfBounds
           | Some bs \<Rightarrow>
               if bs = [] then Inr (Some buf, rec_data_size, False)
               else
                 res_bind (blk_write buf rec_data_size bs) (\<lambda>buf.
                 let n = rec_data_size + length bs in
                 if length bs = RECV_SIZE then
                   if oks = [] \<or> \<not> hd oks then Inr (None, n, True)
                   else recv_request (tl oks) junk rs (Some (realloc_blk junk buf (n + RECV_SIZE))) n
                 else res_bind (blk_write buf n [0]) (\<lambda>buf. Inr (Some buf, n, False)))))"

text \<open>
  The pointers after the count, called one after the other with the data and its size. The callbacks are
  functions of the client that read the data: one that changed the received bytes through its
  pointer would be seen by the next one, which is not modelled.
\<close>

definition callbacks_count :: "server \<Rightarrow> nat res" where
  "callbacks_count s = (case sv_callbacks s of None \<Rightarrow> Inl NullDeref | Some blk \<Rightarrow> hdr_get blk 0)"

fun run_callbacks :: "server \<Rightarrow> bytes \<Rightarrow> nat \<Rightarrow> nat \<Rightarrow> nat \<Rightarrow> server_event list res" where
  "run_callbacks s data n i 0 = Inr []"
| "run_callbacks s data n i (Suc k) =
     res_bind (case sv_callbacks s of None \<Rightarrow> Inl NullDeref | Some blk \<Rightarrow> blk_read blk (8 + i * 8) 8) (\<lambda>f.
     res_bind (run_callbacks s data n (i + 1) k) (\<lambda>evs. Inr (Called (bytes_u64 f) data n # evs)))"

text \<open>
  A connection: which allocations succeed, what the client sends, and whether the answer is sent, with the
  error code if it is not.
\<close>

record connection =
  cn_malloc :: bool
  cn_reallocs :: "bool list"
  cn_received :: "bytes option list"
  cn_send_error :: "int option"

definition serve_connection :: "(nat \<Rightarrow> u8) \<Rightarrow> connection \<Rightarrow> server \<Rightarrow> (server_event list \<times> server) res" where
  "serve_connection junk cn s =
     res_bind (recv_request (cn_reallocs cn) junk (cn_received cn)
         (if cn_malloc cn then Some (malloc_blk junk RECV_SIZE) else None) 0) (\<lambda>(data_buffer, n, failed).
     let (l0, s) = (if failed then socket_server_log s 1 ''Error during recv data buffer allocation'' else ([], s)) in
     case data_buffer of
       None \<Rightarrow>
         let (l1, s) = socket_server_log s 0 ''Finished executing callbacks, removing connection'' in Inr (l0 @ l1, s)
     | Some data \<Rightarrow>
         let (l1, s) = socket_server_log s 0 ''Executing callbacks'' in
         res_bind (callbacks_count s) (\<lambda>k.
         res_bind (run_callbacks s data n 0 k) (\<lambda>calls.
         let (l2, s) = socket_server_log s 0 ''Sending client infos about the size of received packet'';
             (l3, s) = (case cn_send_error cn of None \<Rightarrow> ([], s)
               | Some code \<Rightarrow> socket_server_log s code ''Error during data send back to the client'');
             (l4, s) = socket_server_log s 0 ''Finished executing callbacks, removing connection''
         in Inr (l0 @ l1 @ calls @ l2 @ (if cn_send_error cn = None then [Sent (dec n)] else []) @ l3 @ l4, s))))"

subsection \<open>The thread\<close>

text \<open>What the network does: the preparation of the listening socket, and each round of the main loop.\<close>

datatype setup_outcome = NoSocket int | BadAddress | BindFails int | ListenFails int | Listening
datatype round = Nothing | AcceptFails int | Accepted connection

definition server_setup :: "setup_outcome \<Rightarrow> server \<Rightarrow> server_event list \<times> bool \<times> server" where
  "server_setup outcome s =
     (case outcome of
        NoSocket code \<Rightarrow> let (l, s) = socket_server_log s code ''Error during socket creation'' in (l, False, s)
      | _ \<Rightarrow>
          let (l1, s) = socket_server_log s 0 ''Server socket created'';
              any = has_flag (sv_flags s) SocketServerFlags_IpMode_Any
          in case outcome of
               BadAddress \<Rightarrow> (l1, False, s)
             | BindFails code \<Rightarrow> let (l2, s) = socket_server_log s code ''Error during socket binding'' in (l1 @ l2, False, s)
             | _ \<Rightarrow>
                 let (l2, s) = socket_server_log s 0 ''Server socket bound to port'' in
                 case outcome of
                   ListenFails code \<Rightarrow> let (l3, s) = socket_server_log s code ''Error during socket listening''
                     in (l1 @ [Bound any (sv_port s)] @ l2 @ l3, False, s)
                 | _ \<Rightarrow>
                     let (l3, s) = socket_server_log s 0 ''Socket started listening'';
                         (l4, s) = socket_server_log s 0 ''Socket server main loop started''
                     in (l1 @ [Bound any (sv_port s)] @ l2 @ l3 @ l4, True, s))"

definition locked :: "server \<Rightarrow> 'a res \<Rightarrow> 'a res" where
  "locked s r = (case sv_mutex s of NoMutex \<Rightarrow> Inl NullDeref | FreedMutex \<Rightarrow> Inl OutOfBounds | Mutex \<Rightarrow> r)"

datatype main_pc = MSetup | MSetRunning | MCheck | MSelect | MClear | MDone

fun main_loop_step :: "setup_outcome \<Rightarrow> round \<Rightarrow> (nat \<Rightarrow> u8) \<Rightarrow> main_pc \<Rightarrow> server \<Rightarrow> (server_event list \<times> main_pc \<times> server) res" where
  "main_loop_step su rd junk MSetup s =
     (let (l, listening, s) = server_setup su s in Inr (l, if listening then MSetRunning else MDone, s))"
| "main_loop_step su rd junk MSetRunning s =
     locked s (Inr ([], MCheck, s\<lparr>sv_flags := sv_flags s OR SocketServerFlags_IsRunning\<rparr>))"
| "main_loop_step su rd junk MCheck s =
     locked s (if has_flag (sv_flags s) SocketServerFlags_NeedToStop
               then let (l, s) = socket_server_log s 0 ''Socket server main loop stopped'' in Inr (l, MClear, s)
               else Inr ([], MSelect, s))"
| "main_loop_step su rd junk MSelect s =
     (case rd of
        Nothing \<Rightarrow> Inr ([], MCheck, s)
      | AcceptFails code \<Rightarrow> let (l, s) = socket_server_log s code ''Cannot accept incoming connection'' in Inr (l, MCheck, s)
      | Accepted cn \<Rightarrow> res_bind (serve_connection junk cn s) (\<lambda>(l, s). Inr (l, MCheck, s)))"
| "main_loop_step su rd junk MClear s =
     locked s (Inr ([], MDone, s\<lparr>sv_flags := sv_flags s AND NOT SocketServerFlags_IsRunning\<rparr>))"
| "main_loop_step su rd junk MDone s = Inr ([], MDone, s)"

subsection \<open>The owner\<close>

datatype owner_call = PushCallback u64 | StartServer | AwaitRunning | StopServer | FreeServer

text \<open>Between its calls, waiting for the thread in \<^verbatim>\<open>socket_server_stop\<close>, or after that.\<close>

datatype owner_pc = OReady | OJoin bool | OUnset bool

text \<open>\<open>ss_mains\<close> are the threads started; the server is gone once it is freed.\<close>

record system =
  ss_server :: "server option"
  ss_mains :: "main_pc list"
  ss_pc :: owner_pc
  ss_calls :: "owner_call list"

definition socket_server_start :: "bool \<Rightarrow> server \<Rightarrow> main_pc list \<Rightarrow> (server_event list \<times> server \<times> main_pc list) res" where
  "socket_server_start ok s mains =
     (if has_flag (sv_flags s) SocketServerFlags_IsRunning
      then let (l, s) = socket_server_log s 1 ''Socket server is already running'' in Inr (l, s, mains)
      else
        let s = s\<lparr>sv_mutex := Mutex\<rparr>;
            (l, s) = socket_server_log s 0 ''Starting socket server''
        in if \<not> ok then Inl NullDeref
           else Inr (l, s\<lparr>sv_thread := Some (length mains)\<rparr>, mains @ [MSetup]))"

text \<open>\<^verbatim>\<open>socket_server_stop\<close> up to the join, and after it.\<close>

definition stop_begin :: "server \<Rightarrow> (server_event list \<times> server) res" where
  "stop_begin s =
     locked s (Inr (socket_server_log (s\<lparr>sv_flags := sv_flags s OR SocketServerFlags_NeedToStop\<rparr>) 0 ''Stopping socket server''))"

definition stop_end :: "server \<Rightarrow> server res" where
  "stop_end s =
     locked s (Inr (s\<lparr>sv_flags := sv_flags s AND NOT SocketServerFlags_NeedToStop, sv_mutex := FreedMutex\<rparr>))"

definition with_server :: "system \<Rightarrow> (server \<Rightarrow> 'a res) \<Rightarrow> 'a res" where
  "with_server y f = (case ss_server y of None \<Rightarrow> Inl OutOfBounds | Some s \<Rightarrow> f s)"

fun owner_call_step :: "bool \<Rightarrow> (nat \<Rightarrow> u8) \<Rightarrow> owner_call \<Rightarrow> system \<Rightarrow> (server_event list \<times> system) res" where
  "owner_call_step ok junk (PushCallback f) y =
     with_server y (\<lambda>s. res_bind (socket_server_push_callback ok junk s f) (\<lambda>(_, l, s). Inr (l, y\<lparr>ss_server := Some s\<rparr>)))"
| "owner_call_step ok junk StartServer y =
     with_server y (\<lambda>s. res_bind (socket_server_start ok s (ss_mains y)) (\<lambda>(l, s, mains).
       Inr (l, y\<lparr>ss_server := Some s, ss_mains := mains\<rparr>)))"
| "owner_call_step ok junk AwaitRunning y =
     with_server y (\<lambda>s. Inr ([], if socket_server_is_running s then y else y\<lparr>ss_calls := AwaitRunning # ss_calls y\<rparr>))"
| "owner_call_step ok junk StopServer y =
     with_server y (\<lambda>s. res_bind (stop_begin s) (\<lambda>(l, s). Inr (l, y\<lparr>ss_server := Some s, ss_pc := OJoin False\<rparr>)))"
| "owner_call_step ok junk FreeServer y =
     with_server y (\<lambda>s.
       if has_flag (sv_flags s) SocketServerFlags_IsRunning
       then res_bind (stop_begin s) (\<lambda>(l, s). Inr (l, y\<lparr>ss_server := Some s, ss_pc := OJoin True\<rparr>))
       else Inr ([], y\<lparr>ss_server := None\<rparr>))"

text \<open>\<open>None\<close> when the owner has no call left or the thread it waits for has not ended.\<close>

definition server_owner_step :: "bool \<Rightarrow> (nat \<Rightarrow> u8) \<Rightarrow> system \<Rightarrow> (server_event list \<times> system) run" where
  "server_owner_step ok junk y =
     (case ss_pc y of
        OReady \<Rightarrow>
          (case ss_calls y of [] \<Rightarrow> None | c # cs \<Rightarrow> Some (owner_call_step ok junk c (y\<lparr>ss_calls := cs\<rparr>)))
      | OJoin free_it \<Rightarrow>
          (case ss_server y of
             None \<Rightarrow> Some (Inl OutOfBounds)
           | Some s \<Rightarrow>
               (case sv_thread s of
                  None \<Rightarrow> Some (Inl NullDeref)
                | Some i \<Rightarrow> if i < length (ss_mains y) \<and> ss_mains y ! i = MDone
                    then Some (Inr ([], y\<lparr>ss_pc := OUnset free_it\<rparr>)) else None))
      | OUnset free_it \<Rightarrow>
          Some (with_server y (\<lambda>s. res_bind (stop_end s) (\<lambda>s.
            Inr ([], y\<lparr>ss_server := (if free_it then None else Some s), ss_pc := OReady\<rparr>)))))"

datatype server_thread = ServerOwner | ServerMain nat

definition server_step :: "server_thread \<Rightarrow> setup_outcome \<Rightarrow> round \<Rightarrow> bool \<Rightarrow> (nat \<Rightarrow> u8) \<Rightarrow> system \<Rightarrow> (server_event list \<times> system) run" where
  "server_step t su rd ok junk y =
     (case t of
        ServerOwner \<Rightarrow> server_owner_step ok junk y
      | ServerMain i \<Rightarrow>
          if i < length (ss_mains y) \<and> ss_mains y ! i \<noteq> MDone
          then Some (with_server y (\<lambda>s. res_bind (main_loop_step su rd junk (ss_mains y ! i) s) (\<lambda>(l, pc, s).
                 Inr (l, y\<lparr>ss_server := Some s, ss_mains := (ss_mains y)[i := pc]\<rparr>))))
          else None)"

text \<open>
  A reachable state: every step so far went well. Clients do not fail while they send, and the memory of
  the owner suffices.
\<close>

definition round_ok :: "round \<Rightarrow> bool" where
  "round_ok rd = (case rd of Accepted cn \<Rightarrow> \<forall>r\<in>set (cn_received cn). \<exists>bs. r = Some bs \<and> length bs \<le> RECV_SIZE | _ \<Rightarrow> True)"

inductive server_reachable :: "system \<Rightarrow> system \<Rightarrow> bool" for y0 where
  here: "server_reachable y0 y0"
| step: "server_reachable y0 y \<Longrightarrow> round_ok rd \<Longrightarrow> server_step t su rd True junk y = Some (Inr (l, y')) \<Longrightarrow> server_reachable y0 y'"

end
