(* ===== verification/ServerSpec.thy ===== *)
theory ServerSpec
  imports Server
begin

text \<open>
  What the socket server does: its block of callbacks is a list, a request arrives in full and reaches every
  callback, and the protocol in which a server is started, stopped and freed is safe whatever the network
  does; a server that is freed right after its start is not.
\<close>

subsection \<open>Callbacks\<close>

definition cbs_at :: "server \<Rightarrow> u64 list \<Rightarrow> bool" where
  "cbs_at s fs \<longleftrightarrow> length fs < 2 ^ 60 \<and>
     sv_callbacks s = (if fs = [] then None else Some (u64_bytes (of_nat (length fs)) @ concat (map u64_bytes fs)))"

lemma length_concat_u64: "length (concat (map u64_bytes fs)) = 8 * length fs"
  by (induction fs) simp_all

lemma push_callback_ok:
  assumes "cbs_at s fs" "Suc (length fs) < 2 ^ 60"
  shows "\<exists>l c. socket_server_push_callback True junk s f = Inr (True, l, s\<lparr>sv_callbacks := c\<rparr>) \<and>
    cbs_at (s\<lparr>sv_callbacks := c\<rparr>) (fs @ [f])"
proof (cases "fs = []")
  case True
  have "calloc_blk 16 = replicate 8 0 @ replicate 8 0 @ []" unfolding calloc_blk_def append_Nil2 replicate_add [symmetric] by simp
  then have w: "blk_write (calloc_blk 16) 8 (u64_bytes f) = Inr (replicate 8 0 @ u64_bytes f)"
    using blk_write_mid [of 8 "replicate 8 0" "u64_bytes f" "replicate 8 0" "[]"] by simp
  have "hdr_set ([] @ replicate 8 0 @ u64_bytes f) 0 1 = Inr ([] @ u64_bytes (of_nat 1) @ u64_bytes f)"
    by (rule hdr_set_mid) simp_all
  then have h: "hdr_set (replicate 8 0 @ u64_bytes f) 0 1 = Inr (u64_bytes 1 @ u64_bytes f)" by (simp only: append_Nil of_nat_1)
  have none: "sv_callbacks s = None" using True assms(1) by (simp add: cbs_at_def)
  have "socket_server_push_callback True junk s f = (let (evs, s) = socket_server_log (s\<lparr>sv_callbacks := Some (u64_bytes 1 @ u64_bytes f)\<rparr>) 0
      ''Added a new callback to the socket server'' in Inr (True, evs, s))"
    unfolding socket_server_push_callback_def none by (simp only: w h res_bind_simps option.case if_False not_True_eq_False)
  then show ?thesis using True by (simp add: cbs_at_def socket_server_log_def)
next
  case False
  define n where "n = length fs"
  define blk where "blk = u64_bytes (of_nat n) @ concat (map u64_bytes fs)"
  have blk: "sv_callbacks s = Some blk" "length blk = 8 + n * 8" using False assms(1) by (simp_all add: cbs_at_def n_def blk_def length_concat_u64)
  have n64: "n < 2 ^ 64" using assms(2) by (simp add: n_def)
  have get: "hdr_get ([] @ u64_bytes (of_nat n) @ concat (map u64_bytes fs)) 0 = Inr n" by (rule hdr_get_mid) (use n64 in simp_all)
  have "realloc_blk junk blk (8 + (n + 1) * 8) = blk @ map junk [8 + n * 8..<16 + n * 8] @ []"
    using blk(2) by (simp add: realloc_blk_def)
  then have "blk_write (realloc_blk junk blk (8 + (n + 1) * 8)) (8 + n * 8) (u64_bytes f) = Inr (blk @ u64_bytes f @ [])"
    using blk_write_mid [of "8 + n * 8" blk "u64_bytes f" "map junk [8 + n * 8..<16 + n * 8]" "[]"] blk(2) by simp
  moreover have "hdr_set ([] @ u64_bytes (of_nat n) @ (concat (map u64_bytes fs) @ u64_bytes f)) 0 (n + 1)
      = Inr ([] @ u64_bytes (of_nat (n + 1)) @ (concat (map u64_bytes fs) @ u64_bytes f))"
    by (rule hdr_set_mid) simp_all
  ultimately show ?thesis
    using blk(1) get assms(2)
    by (simp add: socket_server_push_callback_def cbs_at_def socket_server_log_def blk_def n_def)
qed

lemma run_callbacks_ok:
  assumes "cbs_at s fs" "fs = pre @ post" "fs \<noteq> []"
  shows "run_callbacks s data n (length pre) (length post) = Inr (map (\<lambda>f. Called f data n) post)"
  using assms
proof (induction post arbitrary: pre)
  case (Cons f post)
  define a where "a = u64_bytes (of_nat (length fs)) @ concat (map u64_bytes pre)"
  have blk: "sv_callbacks s = Some (a @ u64_bytes f @ concat (map u64_bytes post))"
    using Cons.prems by (simp add: cbs_at_def a_def)
  have "blk_read (a @ u64_bytes f @ concat (map u64_bytes post)) (8 + length pre * 8) 8 = Inr (u64_bytes f)"
    by (rule blk_read_mid) (simp_all add: a_def length_concat_u64)
  moreover have "run_callbacks s data n (length (pre @ [f])) (length post) = Inr (map (\<lambda>f. Called f data n) post)"
    using Cons by simp
  ultimately show ?case using blk by simp
qed simp

lemma callbacks_count_ok: "cbs_at s fs \<Longrightarrow> fs \<noteq> [] \<Longrightarrow> callbacks_count s = Inr (length fs)"
  using hdr_get_mid [of "[]" 0 "length fs" "concat (map u64_bytes fs)"] by (simp add: callbacks_count_def cbs_at_def)

text \<open>The test for a running server fails for every server.\<close>

theorem socket_server_is_running_false: "socket_server_is_running s = False"
  by (simp add: socket_server_is_running_def SocketServerFlags_IsRunning_def BIT_FLAG_def)

subsection \<open>Requests\<close>

text \<open>What the network delivers of a request with \<^verbatim>\<open>MSG_WAITALL\<close>: pieces of 128 bytes and a shorter last one.\<close>

function pieces :: "bytes \<Rightarrow> bytes list" where
  "pieces xs = (if length xs < RECV_SIZE then [xs] else take RECV_SIZE xs # pieces (drop RECV_SIZE xs))"
  by pat_completeness auto
termination by (relation "measure length") (auto simp: RECV_SIZE_def)

declare pieces.simps [simp del]

lemma recv_pieces:
  assumes "length buf = length before + RECV_SIZE" "take (length before) buf = before" "length xs div RECV_SIZE \<le> k"
  shows "\<exists>rest. recv_request (replicate k True) junk (map Some (pieces xs)) (Some buf) (length before)
    = Inr (Some (before @ xs @ rest), length before + length xs, False) \<and> (length xs mod RECV_SIZE \<noteq> 0 \<longrightarrow> rest \<noteq> [] \<and> hd rest = 0)"
  using assms
proof (induction xs arbitrary: buf before k rule: pieces.induct)
  case (1 xs)
  obtain tail where buf: "buf = before @ tail" "length tail = RECV_SIZE"
    using 1(2,3) by (metis append_take_drop_id length_append add_left_cancel)
  show ?case
  proof (cases "length xs < RECV_SIZE")
    case True
    show ?thesis
    proof (cases "xs = []")
      case True
      then show ?thesis using buf by (simp add: pieces.simps RECV_SIZE_def)
    next
      case False
      obtain u v where t: "tail = u @ v" "length u = length xs" "v \<noteq> []"
        using True buf(2) by (metis append_take_drop_id length_take length_drop less_imp_le_nat list.size(3) min.absorb2 zero_less_diff less_irrefl)
      obtain c w where v: "v = c # w" using t(3) by (cases v) auto
      have "blk_write buf (length before) xs = Inr (before @ xs @ v)"
        using blk_write_mid [of "length before" before xs u v] buf(1) t by simp
      moreover have "blk_write (before @ xs @ v) (length before + length xs) [0] = Inr ((before @ xs) @ [0] @ w)"
        using blk_write_mid [of "length before + length xs" "before @ xs" "[0]" "[c]" w] v by simp
      ultimately show ?thesis
        using True False by (simp add: pieces.simps Let_def RECV_SIZE_def)
    qed
  next
    case False
    define p q where "p = take RECV_SIZE xs" and "q = drop RECV_SIZE xs"
    have pq: "xs = p @ q" "length p = RECV_SIZE" using False by (simp_all add: p_def q_def)
    have pne: "p \<noteq> []" using pq(2) by (auto simp: RECV_SIZE_def)
    obtain k' where k: "k = Suc k'"
    proof -
      have "RECV_SIZE div RECV_SIZE \<le> length xs div RECV_SIZE" using False by (intro div_le_mono) simp
      then have "0 < k" using 1(4) by (simp add: RECV_SIZE_def)
      then show ?thesis using that by (cases k) auto
    qed
    have divq: "length q div RECV_SIZE \<le> k'" using 1(4) pq k by (simp add: RECV_SIZE_def)
    have w: "blk_write buf (length before) p = Inr (before @ p)"
      using blk_write_mid [of "length before" before p tail "[]"] buf pq(2) by simp
    define b2 where "b2 = realloc_blk junk (before @ p) (length before + RECV_SIZE + RECV_SIZE)"
    have b2: "length b2 = length (before @ p) + RECV_SIZE" "take (length (before @ p)) b2 = before @ p"
      using pq(2) by (simp_all add: b2_def realloc_blk_def)
    obtain rest where rest: "recv_request (replicate k' True) junk (map Some (pieces q)) (Some b2) (length (before @ p))
        = Inr (Some ((before @ p) @ q @ rest), length (before @ p) + length q, False)"
      "length q mod RECV_SIZE \<noteq> 0 \<longrightarrow> rest \<noteq> [] \<and> hd rest = 0"
      using 1(1) [OF False b2 [folded q_def p_def] divq [unfolded q_def]] by (auto simp: q_def)
    have "pieces xs = p # pieces q" using False by (subst pieces.simps) (simp add: p_def q_def)
    moreover have "length xs mod RECV_SIZE = length q mod RECV_SIZE" using pq by simp
    ultimately show ?thesis
      using rest w pne pq k by (simp add: Let_def b2_def add.assoc)
  qed
qed

text \<open>
  C28: A request of any length reaches every callback, in the order in which they were registered, with its size
  and, unless its length is a multiple of 128, a terminator; the size is sent back.
\<close>

theorem server_request_correct:
  assumes "cbs_at s fs" "fs \<noteq> []" "\<not> sv_log_callback s" "length xs div RECV_SIZE \<le> k"
  shows "\<exists>data rest. serve_connection junk \<lparr>cn_malloc = True, cn_reallocs = replicate k True,
      cn_received = map Some (pieces xs), cn_send_error = None\<rparr> s
    = Inr (map (\<lambda>f. Called f data (length xs)) fs @ [Sent (dec (length xs))], s) \<and> data = xs @ rest \<and>
      (length xs mod RECV_SIZE \<noteq> 0 \<longrightarrow> rest \<noteq> [] \<and> hd rest = 0)"
proof -
  obtain rest where r: "recv_request (replicate k True) junk (map Some (pieces xs)) (Some (malloc_blk junk RECV_SIZE)) 0
      = Inr (Some (xs @ rest), length xs, False)" "length xs mod RECV_SIZE \<noteq> 0 \<longrightarrow> rest \<noteq> [] \<and> hd rest = 0"
    using recv_pieces [of "malloc_blk junk RECV_SIZE" "[]" xs k junk] assms(4) by auto
  then show ?thesis
    using assms(3) callbacks_count_ok [OF assms(1,2)] run_callbacks_ok [OF assms(1), of "[]" fs] assms(2)
    by (intro exI [of _ "xs @ rest"] exI [of _ rest]) (simp add: serve_connection_def socket_server_log_def)
qed

theorem server_request_correct_witness:
  "\<exists>s data rest. serve_connection (\<lambda>_. 7) \<lparr>cn_malloc = True, cn_reallocs = replicate 0 True,
      cn_received = map Some (pieces [65, 66]), cn_send_error = None\<rparr> s
    = Inr (map (\<lambda>f. Called f data (length [65 :: u8, 66])) [1000] @ [Sent (dec (length [65 :: u8, 66]))], s) \<and>
      data = [65, 66] @ rest \<and> rest \<noteq> [] \<and> hd rest = 0"
proof -
  define s where "s = \<lparr>sv_callbacks = Some (u64_bytes 1 @ u64_bytes 1000), sv_log_callback = False, sv_mutex = Mutex,
    sv_thread = Some 0, sv_flags = 6, sv_error = None, sv_port = 80, sv_max_connections = 1\<rparr>"
  have "cbs_at s [1000]" by (simp add: cbs_at_def s_def)
  from server_request_correct [OF this, of "[65, 66]" 0 "\<lambda>_. 7"] show ?thesis
    by (auto simp: RECV_SIZE_def s_def)
qed

text \<open>
  Without a callback the first request dereferences \<^verbatim>\<open>NULL\<close>, and a failing receive copies \<open>2 ^ 64 - 1\<close> bytes.
\<close>

theorem server_request_errors:
  "sv_callbacks s = None \<Longrightarrow> cn_malloc cn \<Longrightarrow> cn_received cn = [] \<Longrightarrow> serve_connection junk cn s = Inl NullDeref"
  "cn_malloc cn \<Longrightarrow> cn_received cn = [None] \<Longrightarrow> serve_connection junk cn s = Inl OutOfBounds"
  by (auto simp: serve_connection_def callbacks_count_def socket_server_log_def)

subsection \<open>Safety of one connection\<close>

text \<open>What a step of the thread leaves alone.\<close>

definition same_server :: "server \<Rightarrow> server \<Rightarrow> bool" where
  "same_server s s' \<longleftrightarrow> sv_callbacks s' = sv_callbacks s \<and> sv_mutex s' = sv_mutex s \<and> sv_thread s' = sv_thread s"

definition running :: "server \<Rightarrow> bool" where
  "running s = has_flag (sv_flags s) SocketServerFlags_IsRunning"

lemma log_same: "socket_server_log s c x = (l, s') \<Longrightarrow> same_server s s' \<and> sv_flags s' = sv_flags s"
  by (auto simp: socket_server_log_def same_server_def)

lemma same_server_refl [simp]: "same_server s s" by (simp add: same_server_def)

lemma same_server_trans: "same_server s s' \<Longrightarrow> same_server s' s'' \<Longrightarrow> same_server s s''"
  by (simp add: same_server_def)

lemma flag_values: "SocketServerFlags_NeedToStop = 1" "SocketServerFlags_IsRunning = 2"
  by (simp_all add: SocketServerFlags_NeedToStop_def SocketServerFlags_IsRunning_def BIT_FLAG_def push_bit_eq_mult)

lemma has_running:
  "has_flag (f OR SocketServerFlags_NeedToStop) SocketServerFlags_IsRunning = has_flag f SocketServerFlags_IsRunning"
  "has_flag (f AND NOT SocketServerFlags_NeedToStop) SocketServerFlags_IsRunning = has_flag f SocketServerFlags_IsRunning"
  "\<not> has_flag (f AND NOT SocketServerFlags_IsRunning) SocketServerFlags_IsRunning"
proof -
  have "(f OR 1) AND 2 = f AND 2" "(f AND NOT 1) AND 2 = f AND 2" "(f AND NOT 2) AND 2 = 0"
    by (simp_all add: and.assoc bit.conj_disj_distrib2)
  then show "has_flag (f OR SocketServerFlags_NeedToStop) SocketServerFlags_IsRunning = has_flag f SocketServerFlags_IsRunning"
    "has_flag (f AND NOT SocketServerFlags_NeedToStop) SocketServerFlags_IsRunning = has_flag f SocketServerFlags_IsRunning"
    "\<not> has_flag (f AND NOT SocketServerFlags_IsRunning) SocketServerFlags_IsRunning"
    by (simp_all add: has_flag_def flag_values)
qed

lemma recv_safe:
  assumes "\<forall>r\<in>set rs. \<exists>bs. r = Some bs \<and> length bs \<le> RECV_SIZE" "\<forall>buf. b = Some buf \<longrightarrow> length buf = n + RECV_SIZE"
  shows "\<not> isl (recv_request oks junk rs b n)"
  using assms
proof (induction rs arbitrary: oks b n)
  case (Cons r rs)
  obtain bs where r: "r = Some bs" "length bs \<le> RECV_SIZE" using Cons.prems(1) by auto
  show ?case
  proof (cases b)
    case (Some buf)
    have len: "length buf = n + RECV_SIZE" using Cons.prems(2) Some by simp
    define b1 where "b1 = take n buf @ bs @ drop (n + length bs) buf"
    have w: "blk_write buf n bs = Inr b1" "length b1 = length buf" using len r(2) by (simp_all add: blk_write_def b1_def)
    have "\<not> isl (recv_request (tl oks) junk rs (Some (realloc_blk junk b1 (n + length bs + RECV_SIZE))) (n + length bs))"
      by (rule Cons.IH) (use Cons.prems(1) in \<open>auto simp: realloc_blk_def\<close>)
    moreover have "\<exists>b2. blk_write b1 (n + length bs) [0] = Inr b2" if "length bs \<noteq> RECV_SIZE"
      using that r(2) len w(2) by (simp add: blk_write_def)
    ultimately show ?thesis using Some r w by (auto simp: Let_def)
  qed simp
qed simp

lemma serve_safe:
  assumes "cbs_at s fs" "fs \<noteq> []" "\<forall>r\<in>set (cn_received cn). \<exists>bs. r = Some bs \<and> length bs \<le> RECV_SIZE"
  shows "\<exists>l s'. serve_connection junk cn s = Inr (l, s') \<and> same_server s s' \<and> sv_flags s' = sv_flags s"
proof -
  define start where "start = (if cn_malloc cn then Some (malloc_blk junk RECV_SIZE) else None)"
  have "\<forall>buf. start = Some buf \<longrightarrow> length buf = 0 + RECV_SIZE" by (simp add: start_def)
  from recv_safe [OF assms(3) this, of "cn_reallocs cn" junk]
  obtain b n e where r: "recv_request (cn_reallocs cn) junk (cn_received cn)
      (if cn_malloc cn then Some (malloc_blk junk RECV_SIZE) else None) 0 = Inr (b, n, e)"
    unfolding start_def by (metis sum.collapse(2) prod_cases3)
  obtain l0 s0 where s0: "(if e then socket_server_log s 1 ''Error during recv data buffer allocation'' else ([], s)) = (l0, s0)"
    by (cases "if e then socket_server_log s 1 ''Error during recv data buffer allocation'' else ([], s)") auto
  have same: "same_server s s0" "sv_flags s0 = sv_flags s" using s0 log_same by (auto split: if_splits)
  then have c0: "cbs_at s0 fs" using assms(1) by (simp add: cbs_at_def same_server_def)
  have "\<exists>l s'. (case cn_send_error cn of None \<Rightarrow> ([], s0) | Some code \<Rightarrow> socket_server_log s0 code ''Error during data send back to the client'') = (l, s')
      \<and> same_server s0 s' \<and> sv_flags s' = sv_flags s0"
  proof (cases "cn_send_error cn")
    case (Some code)
    then show ?thesis by (cases "socket_server_log s0 code ''Error during data send back to the client''") (auto dest: log_same)
  qed simp
  then obtain l3 s3 where s3: "(case cn_send_error cn of None \<Rightarrow> ([], s0) | Some code \<Rightarrow> socket_server_log s0 code ''Error during data send back to the client'') = (l3, s3)"
    "same_server s0 s3" "sv_flags s3 = sv_flags s0" by blast
  show ?thesis
  proof (cases b)
    case None
    then show ?thesis using r s0 same by (simp add: serve_connection_def) (simp add: socket_server_log_def)
  next
    case (Some data)
    have "run_callbacks s0 data n 0 (length fs) = Inr (map (\<lambda>f. Called f data n) fs)"
      using run_callbacks_ok [OF c0, of "[]" fs] assms(2) by simp
    then show ?thesis
      using Some r s0 s3 same callbacks_count_ok [OF c0 assms(2)] same_server_trans [OF same(1) s3(2)]
      by (simp add: serve_connection_def) (simp add: socket_server_log_def Let_def split: option.splits)
  qed
qed

subsection \<open>The protocol\<close>

definition new_system :: "server \<Rightarrow> owner_call list \<Rightarrow> system" where
  "new_system s calls = \<lparr>ss_server = Some s, ss_mains = [], ss_pc = OReady, ss_calls = calls\<rparr>"

text \<open>
  A server by the stage of the calls that register the callbacks \<open>fs0\<close>, start, stop and free it: before its
  start, with its thread, after the join, and freed. The flag for a running server is set between the
  thread's own two visits to it only.
\<close>

definition before_start :: "u64 list \<Rightarrow> system \<Rightarrow> bool" where
  "before_start fs0 y \<longleftrightarrow> (\<exists>s fs rest. ss_server y = Some s \<and> cbs_at s fs \<and> fs @ rest = fs0 \<and> \<not> running s \<and>
     ss_calls y = map PushCallback rest @ [StartServer, StopServer, FreeServer] \<and> ss_mains y = [] \<and> ss_pc y = OReady)"

definition with_thread :: "u64 list \<Rightarrow> system \<Rightarrow> bool" where
  "with_thread fs0 y \<longleftrightarrow> (\<exists>s pc. ss_server y = Some s \<and> cbs_at s fs0 \<and> ss_mains y = [pc] \<and>
     sv_mutex s = Mutex \<and> sv_thread s = Some 0 \<and> (pc \<in> {MSetup, MSetRunning, MDone} \<longrightarrow> \<not> running s) \<and>
     (ss_pc y = OReady \<and> ss_calls y = [StopServer, FreeServer] \<or> ss_pc y = OJoin False \<and> ss_calls y = [FreeServer] \<or>
      ss_pc y = OUnset False \<and> ss_calls y = [FreeServer] \<and> pc = MDone))"

definition stopped :: "system \<Rightarrow> bool" where
  "stopped y \<longleftrightarrow> (\<exists>s. ss_server y = Some s \<and> \<not> running s) \<and> ss_mains y = [MDone] \<and> ss_pc y = OReady \<and> ss_calls y = [FreeServer]"

definition freed :: "system \<Rightarrow> bool" where
  "freed y \<longleftrightarrow> ss_server y = None \<and> ss_mains y = [MDone] \<and> ss_pc y = OReady \<and> ss_calls y = []"

definition server_inv :: "u64 list \<Rightarrow> system \<Rightarrow> bool" where
  "server_inv fs0 y \<longleftrightarrow> before_start fs0 y \<or> with_thread fs0 y \<or> stopped y \<or> freed y"

lemma locked_mutex [simp]: "sv_mutex s = Mutex \<Longrightarrow> locked s r = r"
  by (simp add: locked_def)

lemma setup_same: "server_setup su s = (l, go, s') \<Longrightarrow> same_server s s' \<and> sv_flags s' = sv_flags s"
  by (cases su) (auto simp: server_setup_def socket_server_log_def same_server_def Let_def split: if_splits)

lemma main_step_ok:
  assumes "cbs_at s fs" "fs \<noteq> []" "sv_mutex s = Mutex" "round_ok rd" "pc \<noteq> MDone"
    and "pc \<in> {MSetup, MSetRunning, MDone} \<longrightarrow> \<not> running s"
  shows "\<exists>l pc' s'. main_loop_step su rd junk pc s = Inr (l, pc', s') \<and> same_server s s' \<and>
    (pc' \<in> {MSetup, MSetRunning, MDone} \<longrightarrow> \<not> running s')"
proof (cases pc)
  case MSetup
  obtain l go s' where su: "server_setup su s = (l, go, s')" by (cases "server_setup su s") auto
  then show ?thesis using MSetup setup_same [OF su] assms(6) by (auto simp: running_def)
next
  case MCheck
  then show ?thesis using assms(3) by (auto simp: socket_server_log_def)
next
  case MSelect
  show ?thesis
  proof (cases rd)
    case (AcceptFails code)
    then show ?thesis using MSelect by (auto simp: socket_server_log_def same_server_def)
  next
    case (Accepted cn)
    then have "\<forall>r\<in>set (cn_received cn). \<exists>bs. r = Some bs \<and> length bs \<le> RECV_SIZE" using assms(4) by (simp add: round_ok_def)
    from serve_safe [OF assms(1,2) this, of junk] show ?thesis using MSelect Accepted by auto
  qed (use MSelect in simp)
qed (use assms(3,5) has_running(3) in \<open>auto simp: same_server_def running_def\<close>)

lemma thread_step_inv:
  assumes "server_inv fs0 y" "fs0 \<noteq> []" "round_ok rd" "server_step (ServerMain i) su rd ok junk y = Some r"
  shows "\<exists>l y'. r = Inr (l, y') \<and> server_inv fs0 y'"
proof -
  from assms(4) have i: "i < length (ss_mains y)" "ss_mains y ! i \<noteq> MDone"
    by (auto simp: server_step_def split: if_splits)
  then have "with_thread fs0 y" using assms(1) by (auto simp: server_inv_def before_start_def stopped_def freed_def)
  then obtain s pc where y: "ss_server y = Some s" "cbs_at s fs0" "ss_mains y = [pc]" "sv_mutex s = Mutex" "sv_thread s = Some 0"
    "pc \<in> {MSetup, MSetRunning, MDone} \<longrightarrow> \<not> running s"
    and owner: "ss_pc y = OReady \<and> ss_calls y = [StopServer, FreeServer] \<or> ss_pc y = OJoin False \<and> ss_calls y = [FreeServer] \<or>
      ss_pc y = OUnset False \<and> ss_calls y = [FreeServer] \<and> pc = MDone"
    by (auto simp: with_thread_def)
  have pc: "i = 0" "pc \<noteq> MDone" using i y(3) by auto
  obtain l pc' s' where step: "main_loop_step su rd junk pc s = Inr (l, pc', s')" "same_server s s'"
    "pc' \<in> {MSetup, MSetRunning, MDone} \<longrightarrow> \<not> running s'"
    using main_step_ok [OF y(2) assms(2) y(4) assms(3) pc(2) y(6)] by blast
  have "with_thread fs0 (y\<lparr>ss_server := Some s', ss_mains := [pc']\<rparr>)"
    using y step(2,3) owner pc(2) by (auto simp: with_thread_def same_server_def cbs_at_def)
  then show ?thesis
    using assms(4) y(1,3) pc step(1) by (auto simp: server_step_def with_server_def server_inv_def)
qed

lemma owner_step_inv:
  assumes "server_inv fs0 y" "length fs0 < 2 ^ 60" "server_step ServerOwner su rd True junk y = Some r"
  shows "\<exists>l y'. r = Inr (l, y') \<and> server_inv fs0 y'"
proof -
  from assms(1) consider "before_start fs0 y" | "with_thread fs0 y" | "stopped y" | "freed y" by (auto simp: server_inv_def)
  then show ?thesis
  proof cases
  case 1
  then obtain s fs rest where y: "ss_server y = Some s" "cbs_at s fs" "fs @ rest = fs0" "\<not> running s"
    "ss_calls y = map PushCallback rest @ [StartServer, StopServer, FreeServer]" "ss_mains y = []" "ss_pc y = OReady"
    by (auto simp: before_start_def)
  show ?thesis
  proof (cases rest)
    case Nil
    then show ?thesis
      using assms(3) y by (auto simp: server_step_def server_owner_step_def with_server_def socket_server_start_def running_def
          socket_server_log_def server_inv_def with_thread_def cbs_at_def has_flag_def)
  next
    case (Cons f fs')
    then have "Suc (length fs) < 2 ^ 60" using assms(2) y(3) by auto
    then obtain l c where "socket_server_push_callback True junk s f = Inr (True, l, s\<lparr>sv_callbacks := c\<rparr>)"
      "cbs_at (s\<lparr>sv_callbacks := c\<rparr>) (fs @ [f])"
      using push_callback_ok [OF y(2)] by blast
    then have "before_start fs0 (y\<lparr>ss_calls := map PushCallback fs' @ [StartServer, StopServer, FreeServer], ss_server := Some (s\<lparr>sv_callbacks := c\<rparr>)\<rparr>)"
      "r = Inr (l, y\<lparr>ss_calls := map PushCallback fs' @ [StartServer, StopServer, FreeServer], ss_server := Some (s\<lparr>sv_callbacks := c\<rparr>)\<rparr>)"
      using assms(3) y Cons by (auto simp: server_step_def server_owner_step_def with_server_def before_start_def running_def)
    then show ?thesis by (auto simp: server_inv_def)
  qed
next
  case 2
  then show ?thesis
    using assms(3)
    by (auto simp: with_thread_def server_step_def server_owner_step_def with_server_def stop_begin_def stop_end_def
        socket_server_log_def server_inv_def stopped_def cbs_at_def running_def has_running split: if_splits)
next
  case 3
  then show ?thesis
    using assms(3) by (auto simp: stopped_def server_step_def server_owner_step_def with_server_def running_def server_inv_def freed_def)
next
  case 4
  then show ?thesis using assms(3) by (simp add: freed_def server_step_def server_owner_step_def)
  qed
qed

lemma server_step_inv:
  assumes "server_inv fs0 y" "fs0 \<noteq> []" "length fs0 < 2 ^ 60" "round_ok rd" "server_step t su rd True junk y = Some r"
  shows "\<exists>l y'. r = Inr (l, y') \<and> server_inv fs0 y'"
  using assms thread_step_inv owner_step_inv by (cases t) blast+

lemma reachable_inv:
  "server_reachable y0 y \<Longrightarrow> server_inv fs0 y0 \<Longrightarrow> fs0 \<noteq> [] \<Longrightarrow> length fs0 < 2 ^ 60 \<Longrightarrow> server_inv fs0 y"
proof (induction rule: server_reachable.induct)
  case (step y rd t su junk l y')
  from server_step_inv [OF step.IH [OF step.prems] step.prems(2,3) step.hyps(2,3)] show ?case by auto
qed simp

lemma new_server_idle:
  assumes "socket_server_new True port n mode = Some s" "mode \<in> {SocketServerFlags_IpMode_Any, SocketServerFlags_IpMode_LocalHost}"
  shows "\<not> running s" "sv_callbacks s = None"
proof -
  have "mode = 4 \<or> mode = 8"
    using assms(2) by (auto simp: SocketServerFlags_IpMode_Any_def SocketServerFlags_IpMode_LocalHost_def BIT_FLAG_def push_bit_eq_mult)
  moreover have "sv_flags s = mode" using assms(1) by (auto simp: socket_server_new_def)
  ultimately show "\<not> running s" by (auto simp: running_def has_flag_def flag_values)
  show "sv_callbacks s = None" using assms(1) by (auto simp: socket_server_new_def)
qed

lemma new_system_inv:
  assumes "socket_server_new True port n mode = Some s" "mode \<in> {SocketServerFlags_IpMode_Any, SocketServerFlags_IpMode_LocalHost}"
  shows "server_inv fs0 (new_system s (map PushCallback fs0 @ [StartServer, StopServer, FreeServer]))"
  using new_server_idle [OF assms] by (simp add: server_inv_def before_start_def new_system_def cbs_at_def)

text \<open>
  C17: An owner that registers at least one callback, starts, stops and frees a server is safe: whatever the
  network does and however the two threads interleave, no step dereferences \<^verbatim>\<open>NULL\<close>, uses the server or its
  mutex after it was freed or writes outside a buffer, provided no receive fails and the memory for the
  callbacks suffices.
\<close>

theorem server_protocol_safe:
  assumes "socket_server_new True port n mode = Some s" "mode \<in> {SocketServerFlags_IpMode_Any, SocketServerFlags_IpMode_LocalHost}"
    and "fs0 \<noteq> []" "length fs0 < 2 ^ 60" "round_ok rd"
    and "server_reachable (new_system s (map PushCallback fs0 @ [StartServer, StopServer, FreeServer])) y"
  shows "server_step t su rd True junk y \<noteq> Some (Inl e)"
proof
  assume "server_step t su rd True junk y = Some (Inl e)"
  from server_step_inv [OF reachable_inv [OF assms(6) new_system_inv [OF assms(1,2)] assms(3,4)] assms(3-5) this]
  show False by simp
qed

theorem server_protocol_safe_witness:
  "\<exists>y. server_reachable (new_system (the (socket_server_new True 80 1 SocketServerFlags_IpMode_Any))
      (map PushCallback [7] @ [StartServer, StopServer, FreeServer])) y \<and> ss_calls y = [StartServer, StopServer, FreeServer] \<and>
    server_step ServerOwner Listening Nothing True (\<lambda>_. 0) y \<noteq> Some (Inl OutOfBounds)"
proof -
  define s where "s = the (socket_server_new True 80 1 SocketServerFlags_IpMode_Any)"
  have s: "socket_server_new True 80 1 SocketServerFlags_IpMode_Any = Some s" by (simp add: s_def socket_server_new_def)
  define y0 where "y0 = new_system s (map PushCallback [7] @ [StartServer, StopServer, FreeServer])"
  have "cbs_at s []" by (simp add: s_def socket_server_new_def cbs_at_def)
  then obtain l c where c: "socket_server_push_callback True (\<lambda>_. 0) s 7 = Inr (True, l, s\<lparr>sv_callbacks := c\<rparr>)"
    using push_callback_ok [of s "[]" "\<lambda>_. 0" 7] by auto
  define y where "y = y0\<lparr>ss_calls := [StartServer, StopServer, FreeServer], ss_server := Some (s\<lparr>sv_callbacks := c\<rparr>)\<rparr>"
  have "server_step ServerOwner Listening Nothing True (\<lambda>_. 0) y0 = Some (Inr (l, y))"
    using c by (simp add: y0_def y_def new_system_def server_step_def server_owner_step_def with_server_def)
  then have r: "server_reachable y0 y" by (rule server_reachable.step [OF server_reachable.here, rotated]) (simp add: round_ok_def)
  from server_protocol_safe [OF s _ _ _ _ this [unfolded y0_def], of Nothing ServerOwner Listening "\<lambda>_. 0" OutOfBounds]
  have "server_step ServerOwner Listening Nothing True (\<lambda>_. 0) y \<noteq> Some (Inl OutOfBounds)" by (simp add: round_ok_def)
  moreover have "ss_calls y = [StartServer, StopServer, FreeServer]" by (simp add: y_def)
  ultimately show ?thesis using r unfolding y0_def s_def by blast
qed

text \<open>
  A server freed right after its start is not stopped, as its thread has not set the flag yet: the thread
  goes on with the freed server.
\<close>

theorem server_free_after_start:
  assumes "socket_server_new True port n mode = Some s" "mode \<in> {SocketServerFlags_IpMode_Any, SocketServerFlags_IpMode_LocalHost}"
  shows "\<exists>y. server_reachable (new_system s [StartServer, FreeServer]) y \<and>
    server_step (ServerMain 0) su rd True junk y = Some (Inl OutOfBounds)"
proof -
  define s1 where "s1 = s\<lparr>sv_mutex := Mutex, sv_thread := Some 0\<rparr>"
  define y1 where "y1 = \<lparr>ss_server = Some s1, ss_mains = [MSetup], ss_pc = OReady, ss_calls = [FreeServer]\<rparr>"
  define y2 where "y2 = \<lparr>ss_server = None, ss_mains = [MSetup], ss_pc = OReady, ss_calls = []\<rparr>"
  have nf: "\<not> has_flag (sv_flags s) SocketServerFlags_IsRunning" using new_server_idle(1) [OF assms] by (simp add: running_def)
  have "\<exists>l. server_step ServerOwner Listening Nothing True (\<lambda>_. 0) (new_system s [StartServer, FreeServer]) = Some (Inr (l, y1))"
    using nf by (simp add: y1_def s1_def new_system_def server_step_def server_owner_step_def with_server_def socket_server_start_def
        socket_server_log_def)
  then have "server_reachable (new_system s [StartServer, FreeServer]) y1"
    using server_reachable.step [OF server_reachable.here, of Nothing] by (auto simp: round_ok_def)
  moreover have "server_step ServerOwner Listening Nothing True (\<lambda>_. 0) y1 = Some (Inr ([], y2))"
    using nf by (simp add: y1_def y2_def s1_def server_step_def server_owner_step_def with_server_def)
  ultimately have "server_reachable (new_system s [StartServer, FreeServer]) y2"
    using server_reachable.step [of _ y1 Nothing] by (auto simp: round_ok_def)
  moreover have "server_step (ServerMain 0) su rd True junk y2 = Some (Inl OutOfBounds)"
    by (simp add: y2_def server_step_def with_server_def)
  ultimately show ?thesis by blast
qed

end
