(* ===== verification/Logger.thy ===== *)
theory Logger
  imports Fmt CType
begin

text \<open>
  The logger of \<^verbatim>\<open>src/logger.c\<close>. Its operations exclude each other with a spin lock, so they are
  modelled one after the other; an operation that finds the lock held with nobody left to release it
  never returns. Each yields what it writes to the streams and the new state. The message is the text
  \<^verbatim>\<open>vsnprintf\<close> makes of the format and its arguments, and the time of the call is a parameter.
\<close>

subsection \<open>State\<close>

definition LogMode_Console :: u32 where "LogMode_Console = 1"
definition LogMode_File :: u32 where "LogMode_File = 2"
definition ROMANO_LOG_BUFFER_SIZE :: nat where "ROMANO_LOG_BUFFER_SIZE = 1024"

text \<open>An open log file is named by the path it was opened with.\<close>

datatype log_stream = Stdout | Stderr | LogFile bytes

type_synonym log_output = "(log_stream \<times> bytes) list"

record logger =
  lg_lock :: bool
  lg_initialized :: bool
  lg_level :: u32
  lg_mode :: u32
  lg_file_path :: "bytes option"
  lg_file :: "bytes option"

definition logger_globals :: logger where
  "logger_globals = \<lparr>lg_lock = False, lg_initialized = False, lg_level = 3, lg_mode = LogMode_Console,
                     lg_file_path = None, lg_file = None\<rparr>"

definition levels_as_str :: "string list" where
  "levels_as_str = [''FATAL'', ''ERROR'', ''WARNING'', ''INFO'', ''DEBUG'']"

subsection \<open>Operations\<close>

definition logger_lock_acquire :: "logger \<Rightarrow> logger run" where
  "logger_lock_acquire s = (if lg_lock s then None else Some (Inr (s\<lparr>lg_lock := True\<rparr>)))"

definition logger_lock_release :: "logger \<Rightarrow> logger" where
  "logger_lock_release s = s\<lparr>lg_lock := False\<rparr>"

definition logger_init :: "logger \<Rightarrow> logger run" where
  "logger_init s = run_bind (logger_lock_acquire s) (\<lambda>s.
     if lg_initialized s then Some (Inr s)
     else Some (Inr (logger_lock_release (s\<lparr>lg_initialized := True\<rparr>))))"

definition logger_set_level :: "u32 \<Rightarrow> logger \<Rightarrow> logger run" where
  "logger_set_level level s = run_bind (logger_lock_acquire s) (\<lambda>s.
     Some (Inr (logger_lock_release (s\<lparr>lg_level := (if level < 5 then level else 4)\<rparr>))))"

definition logger_enable_console :: "logger \<Rightarrow> logger run" where
  "logger_enable_console s = run_bind (logger_lock_acquire s) (\<lambda>s.
     Some (Inr (logger_lock_release (s\<lparr>lg_mode := lg_mode s OR LogMode_Console\<rparr>))))"

definition logger_disable_console :: "logger \<Rightarrow> logger run" where
  "logger_disable_console s = run_bind (logger_lock_acquire s) (\<lambda>s.
     Some (Inr (logger_lock_release (s\<lparr>lg_mode := lg_mode s AND NOT LogMode_Console\<rparr>))))"

text \<open>\<open>ok\<close> tells whether \<^verbatim>\<open>fopen\<close> succeeds, which the code does not test.\<close>

definition logger_enable_file :: "bool \<Rightarrow> bytes \<Rightarrow> logger \<Rightarrow> logger run" where
  "logger_enable_file ok path s = run_bind (logger_lock_acquire s) (\<lambda>s.
     let s = s\<lparr>lg_mode := lg_mode s OR LogMode_File, lg_file_path := Some path\<rparr>
     in Some (Inr (logger_lock_release (s\<lparr>lg_file := (if ok then Some path else None)\<rparr>))))"

definition logger_disable_file :: "logger \<Rightarrow> logger run" where
  "logger_disable_file s = run_bind (logger_lock_acquire s) (\<lambda>s.
     Some (Inr (logger_lock_release (s\<lparr>lg_mode := lg_mode s AND NOT LogMode_File, lg_file := None\<rparr>))))"

text \<open>\<^verbatim>\<open>%02d\<close> and \<^verbatim>\<open>%03d\<close>.\<close>

definition dec_pad :: "nat \<Rightarrow> nat \<Rightarrow> bytes" where
  "dec_pad k n = replicate (k - length (dec n)) 48 @ dec n"

text \<open>Hours, minutes, seconds and microseconds.\<close>

type_synonym clock = "nat \<times> nat \<times> nat \<times> nat"

definition log_line :: "clock \<Rightarrow> nat \<Rightarrow> bytes \<Rightarrow> bytes" where
  "log_line t level buffer =
     (case t of (h, m, s, us) \<Rightarrow>
        cstr ''['' @ cstr (levels_as_str ! level) @ cstr ''] '' @ dec_pad 2 h @ cstr '':'' @ dec_pad 2 m @ cstr '':'' @
        dec_pad 2 s @ cstr '':'' @ dec_pad 3 (us div 1000) @ cstr '' : '' @ buffer @ [10])"

definition logger_log :: "clock \<Rightarrow> u32 \<Rightarrow> bytes \<Rightarrow> logger \<Rightarrow> (log_output \<times> logger) run" where
  "logger_log t level msg s = run_bind (logger_lock_acquire s) (\<lambda>s.
     let level = (if level < 5 then level else 4) in
     if level \<le> lg_level s then
       let buffer = take (ROMANO_LOG_BUFFER_SIZE - 1) msg;
           line = log_line t (unat level) buffer;
           output_stream = (if level = 1 \<or> level = 0 then Stderr else Stdout);
           console = (if lg_mode s AND LogMode_Console \<noteq> 0 then [(output_stream, line)] else [])
       in if lg_mode s AND LogMode_File \<noteq> 0 then
            (case lg_file s of
               None \<Rightarrow> Some (Inl NullDeref)
             | Some f \<Rightarrow> Some (Inr (console @ [(LogFile f, line)], logger_lock_release s)))
          else Some (Inr (console, logger_lock_release s))
     else Some (Inr ([], logger_lock_release s)))"

text \<open>Flushing the streams is not observable here.\<close>

definition logger_release :: "logger \<Rightarrow> logger run" where
  "logger_release s = run_bind (logger_lock_acquire s) (\<lambda>s.
     Some (Inr (logger_lock_release (s\<lparr>lg_file := None\<rparr>))))"

subsection \<open>Sequences of calls\<close>

datatype log_call =
    SetLevel u32 | EnableConsole | DisableConsole | EnableFile bool bytes | DisableFile | Log clock u32 bytes
  | InitLogger | ReleaseLogger

definition quiet :: "logger run \<Rightarrow> (log_output \<times> logger) run" where
  "quiet r = run_bind r (\<lambda>s. Some (Inr ([], s)))"

fun logger_call :: "log_call \<Rightarrow> logger \<Rightarrow> (log_output \<times> logger) run" where
  "logger_call (SetLevel l) s = quiet (logger_set_level l s)"
| "logger_call EnableConsole s = quiet (logger_enable_console s)"
| "logger_call DisableConsole s = quiet (logger_disable_console s)"
| "logger_call (EnableFile ok path) s = quiet (logger_enable_file ok path s)"
| "logger_call DisableFile s = quiet (logger_disable_file s)"
| "logger_call (Log t l msg) s = logger_log t l msg s"
| "logger_call InitLogger s = quiet (logger_init s)"
| "logger_call ReleaseLogger s = quiet (logger_release s)"

fun logger_calls :: "log_call list \<Rightarrow> logger \<Rightarrow> (log_output \<times> logger) run" where
  "logger_calls [] s = Some (Inr ([], s))"
| "logger_calls (c # cs) s = run_bind (logger_call c s) (\<lambda>(out, s).
     run_bind (logger_calls cs s) (\<lambda>(out', s). Some (Inr (out @ out', s))))"

subsection \<open>Specification\<close>

text \<open>A logger is a level, whether the console is enabled, and the file, if any.\<close>

record log_config =
  lc_level :: nat
  lc_console :: bool
  lc_file :: "bytes option"

definition config_of :: "logger \<Rightarrow> log_config" where
  "config_of s = \<lparr>lc_level = unat (lg_level s), lc_console = (lg_mode s AND LogMode_Console \<noteq> 0),
                 lc_file = (if lg_mode s AND LogMode_File \<noteq> 0 then lg_file s else None)\<rparr>"

definition log_lines :: "clock \<Rightarrow> nat \<Rightarrow> bytes \<Rightarrow> log_config \<Rightarrow> log_output" where
  "log_lines t level msg c =
     (if lc_level c < level then []
      else let line = log_line t level (take 1023 msg)
           in (if lc_console c then [(if level \<le> 1 then Stderr else Stdout, line)] else []) @
              (case lc_file c of None \<Rightarrow> [] | Some f \<Rightarrow> [(LogFile f, line)]))"

fun config_call :: "log_call \<Rightarrow> log_config \<Rightarrow> log_output \<times> log_config" where
  "config_call (SetLevel l) c = ([], c\<lparr>lc_level := min (unat l) 4\<rparr>)"
| "config_call EnableConsole c = ([], c\<lparr>lc_console := True\<rparr>)"
| "config_call DisableConsole c = ([], c\<lparr>lc_console := False\<rparr>)"
| "config_call (EnableFile ok path) c = ([], c\<lparr>lc_file := Some path\<rparr>)"
| "config_call DisableFile c = ([], c\<lparr>lc_file := None\<rparr>)"
| "config_call (Log t l msg) c = (log_lines t (min (unat l) 4) msg c, c)"
| "config_call _ c = ([], c)"

fun config_calls :: "log_call list \<Rightarrow> log_config \<Rightarrow> log_output \<times> log_config" where
  "config_calls [] c = ([], c)"
| "config_calls (a # as) c = (let (out, c) = config_call a c; (out', c) = config_calls as c in (out @ out', c))"

text \<open>The lock is free, and a log file is open exactly when the mode asks for one.\<close>

definition logger_ok :: "logger \<Rightarrow> bool" where
  "logger_ok s \<longleftrightarrow> \<not> lg_lock s \<and> unat (lg_level s) \<le> 4 \<and> (lg_mode s AND LogMode_File \<noteq> 0 \<longleftrightarrow> lg_file s \<noteq> None)"

definition plain_call :: "log_call \<Rightarrow> bool" where
  "plain_call c \<longleftrightarrow> c \<noteq> InitLogger \<and> c \<noteq> ReleaseLogger \<and> (\<forall>path. c \<noteq> EnableFile False path)"

lemma acquire_ok: "logger_ok s \<Longrightarrow> logger_lock_acquire s = Some (Inr (s\<lparr>lg_lock := True\<rparr>))"
  by (simp add: logger_ok_def logger_lock_acquire_def)

lemma mode_bits:
  fixes m :: u32
  shows "(m OR 1) AND 1 \<noteq> 0" "(m OR 1) AND 2 = m AND 2" "(m AND NOT 1) AND 1 = 0" "(m AND NOT 1) AND 2 = m AND 2"
    "(m OR 2) AND 2 \<noteq> 0" "(m OR 2) AND 1 = m AND 1" "(m AND NOT 2) AND 2 = 0" "(m AND NOT 2) AND 1 = m AND 1"
proof -
  have or: "(m OR 1) AND 1 = 1" "(m OR 2) AND 2 = 2"
    by (simp_all add: bit.conj_disj_distrib2)
  show "(m OR 1) AND 1 \<noteq> 0" "(m OR 2) AND 2 \<noteq> 0" using or by simp_all
  show "(m OR 1) AND 2 = m AND 2" "(m OR 2) AND 1 = m AND 1" by (simp_all add: bit.conj_disj_distrib2)
  show "(m AND NOT 1) AND 1 = 0" "(m AND NOT 2) AND 2 = 0" by (simp_all add: and.assoc)
  have nots: "NOT 1 AND 2 = (2::u32)" "NOT 2 AND 1 = (1::u32)" by simp_all
  show "(m AND NOT 1) AND 2 = m AND 2" "(m AND NOT 2) AND 1 = m AND 1"
    by (simp_all only: and.assoc nots)
qed

lemma mode_bits_num:
  fixes m :: u32
  shows "(m AND - 2) AND 1 = 0" "(m AND - 2) AND 2 = m AND 2" "(m AND - 3) AND 2 = 0" "(m AND - 3) AND 1 = m AND 1"
  using mode_bits [of m] by simp_all

lemma level_clamp: "unat (if l < 5 then l else 4 :: u32) = min (unat l) 4"
  by (simp add: word_less_nat_alt)

lemmas logger_defs = logger_lock_release_def LogMode_Console_def LogMode_File_def quiet_def Let_def

lemma logger_call_correct:
  assumes s: "logger_ok s" and c: "plain_call c"
  shows "\<exists>out s'. logger_call c s = Some (Inr (out, s')) \<and> logger_ok s' \<and> config_call c (config_of s) = (out, config_of s')"
proof (cases c)
  case (SetLevel l)
  have "config_of (s\<lparr>lg_level := if l < 5 then l else 4, lg_lock := False\<rparr>) = (config_of s)\<lparr>lc_level := min (unat l) 4\<rparr>"
    by (simp only: config_of_def logger.simps log_config.simps level_clamp) (simp add: level_clamp)
  moreover have "logger_ok (s\<lparr>lg_level := if l < 5 then l else 4, lg_lock := False\<rparr>)"
    using s by (simp add: logger_ok_def word_less_nat_alt)
  ultimately show ?thesis
    using s by (simp add: SetLevel logger_set_level_def acquire_ok logger_defs)
next
  case EnableConsole
  then show ?thesis
    using s by (simp add: logger_enable_console_def acquire_ok logger_defs) (simp add: logger_ok_def config_of_def mode_bits mode_bits_num logger_defs)
next
  case DisableConsole
  then show ?thesis
    using s by (simp add: logger_disable_console_def acquire_ok logger_defs) (simp add: logger_ok_def config_of_def mode_bits mode_bits_num logger_defs)
next
  case (EnableFile ok path)
  then show ?thesis
    using s c by (cases ok)
      (simp_all add: plain_call_def logger_enable_file_def acquire_ok logger_defs, simp add: logger_ok_def config_of_def mode_bits mode_bits_num logger_defs)
next
  case DisableFile
  then show ?thesis
    using s by (simp add: logger_disable_file_def acquire_ok logger_defs) (simp add: logger_ok_def config_of_def mode_bits mode_bits_num logger_defs)
next
  case (Log t l msg)
  define l' where "l' = (if l < 5 then l else 4 :: u32)"
  have l': "unat l' = min (unat l) 4" by (simp add: l'_def level_clamp)
  have cmp: "l' \<le> lg_level s \<longleftrightarrow> \<not> unat (lg_level s) < min (unat l) 4"
    by (simp only: word_le_nat_alt l' linorder_not_less)
  have err: "(l' = 1 \<or> l' = 0) \<longleftrightarrow> min (unat l) 4 \<le> 1"
    using l' by (auto simp: word_unat_eq_iff)
  have s': "s\<lparr>lg_lock := False\<rparr> = s"
    using s by (simp add: logger_ok_def)
  have "logger_log t l msg s = Some (Inr (log_lines t (min (unat l) 4) msg (config_of s), s))"
    using s by (auto simp: logger_log_def acquire_ok log_lines_def config_of_def logger_defs ROMANO_LOG_BUFFER_SIZE_def logger_ok_def
      l'_def [symmetric] l' cmp err s' simp del: min_less_iff_conj min_le_iff_disj split: option.splits)
  then show ?thesis using s by (simp add: Log)
qed (use c in \<open>simp_all add: plain_call_def\<close>)


text \<open>
  C26: As long as files can be opened, every sequence of settings and messages does what the
  specification says: the messages up to the level are written to the console, to the file or to both,
  the most severe ones to the error stream, cut after 1023 bytes, and nothing else is.
\<close>

theorem logger_refines:
  assumes "logger_ok s" and "\<forall>c\<in>set cs. plain_call c"
  shows "\<exists>out s'. logger_calls cs s = Some (Inr (out, s')) \<and> logger_ok s' \<and> config_calls cs (config_of s) = (out, config_of s')"
  using assms
proof (induction cs arbitrary: s)
  case (Cons c cs)
  obtain out s1 where 1: "logger_call c s = Some (Inr (out, s1))" "logger_ok s1" "config_call c (config_of s) = (out, config_of s1)"
    using logger_call_correct Cons.prems by fastforce
  obtain out' s2 where 2: "logger_calls cs s1 = Some (Inr (out', s2))" "logger_ok s2" "config_calls cs (config_of s1) = (out', config_of s2)"
    using Cons.IH [OF 1(2)] Cons.prems by fastforce
  show ?case using 1 2 by simp
qed simp

theorem logger_refines_witness:
  "\<exists>out s'. logger_calls [SetLevel 9, EnableFile True [97], Log (1, 2, 3, 4000) 4 [104, 105], DisableFile] logger_globals = Some (Inr (out, s')) \<and>
     logger_ok s' \<and>
     config_calls [SetLevel 9, EnableFile True [97], Log (1, 2, 3, 4000) 4 [104, 105], DisableFile] (config_of logger_globals) = (out, config_of s')"
  by (rule logger_refines) (simp_all add: logger_ok_def logger_globals_def plain_call_def LogMode_Console_def LogMode_File_def)

text \<open>
  C40: After a second \<^verbatim>\<open>logger_init\<close> the lock stays held: no operation of the logger returns any more, in any
  thread.
\<close>

theorem logger_init_twice_blocks:
  assumes "logger_ok s" and "lg_initialized s"
  shows "\<exists>s'. logger_call InitLogger s = Some (Inr ([], s')) \<and> (\<forall>c. logger_call c s' = None)"
proof -
  let ?s' = "s\<lparr>lg_lock := True\<rparr>"
  have "logger_call InitLogger s = Some (Inr ([], ?s'))"
    using assms by (simp add: quiet_def logger_init_def acquire_ok)
  moreover have "logger_call c ?s' = None" for c
    by (cases c) (simp_all add: quiet_def logger_lock_acquire_def logger_set_level_def logger_enable_console_def logger_disable_console_def
      logger_enable_file_def logger_disable_file_def logger_log_def logger_init_def logger_release_def)
  ultimately show ?thesis by blast
qed

theorem logger_init_twice_blocks_witness:
  "\<exists>s'. logger_call InitLogger (logger_globals\<lparr>lg_initialized := True\<rparr>) = Some (Inr ([], s')) \<and> (\<forall>c. logger_call c s' = None)"
  by (rule logger_init_twice_blocks) (simp_all add: logger_ok_def logger_globals_def LogMode_Console_def LogMode_File_def)

text \<open>
  A message logged to a file after \<^verbatim>\<open>logger_release\<close>, which closes the file and leaves the mode as it
  is, or after the file could not be opened, is written through a null pointer.
\<close>

theorem logger_log_without_file:
  "logger_calls [EnableFile True [97], ReleaseLogger, Log (0, 0, 0, 0) 0 [104]] logger_globals = Some (Inl NullDeref)"
  "logger_calls [EnableFile False [97], Log (0, 0, 0, 0) 0 [104]] logger_globals = Some (Inl NullDeref)"
  by (simp_all add: logger_globals_def logger_lock_acquire_def logger_enable_file_def logger_release_def logger_log_def logger_defs)

end
