(* ===== verification/Runtime.thy ===== *)
theory Runtime
  imports CType Linalg
begin

text \<open>
  Global state of the library: the last error and its context (\<^verbatim>\<open>src/error.c\<close>), and the vectorization
  mode found when the library is loaded (\<^verbatim>\<open>src/simd.c\<close>, for x86-64). Error codes of the operating
  system share the type of the codes, so a code is a word.
\<close>

subsection \<open>Errors\<close>

definition ErrorCode_NoError :: u32 where "ErrorCode_NoError = 0"
definition ErrorCode_MemAllocError :: u32 where "ErrorCode_MemAllocError = 0x0FFFFFFF"

record error_state =
  es_current :: u32
  es_context_cap :: nat
  es_context_sz :: nat
  es_context :: bytes

definition error_globals :: error_state where
  "error_globals = \<lparr>es_current = ErrorCode_NoError, es_context_cap = 255, es_context_sz = 0, es_context = calloc_blk 256\<rparr>"

text \<open>The context is a block, read up to its terminator when no size is given.\<close>

definition error_set_context :: "bytes \<Rightarrow> nat \<Rightarrow> error_state \<Rightarrow> error_state res" where
  "error_set_context context context_sz s =
     res_bind (if context_sz = 0 then strlen_at context 0 else Inr context_sz) (\<lambda>n.
       let n = (if n > es_context_cap s then es_context_cap s else n) in
       res_bind (blk_write (es_context s) 0 (calloc_blk (es_context_cap s + 1))) (\<lambda>g.
       res_bind (blk_read context 0 n) (\<lambda>bs.
       res_bind (blk_write g 0 bs) (\<lambda>g. Inr (s\<lparr>es_context := g, es_context_sz := n\<rparr>)))))"

definition error_get_last :: "error_state \<Rightarrow> u32 \<times> error_state" where
  "error_get_last s = (es_current s, s\<lparr>es_current := ErrorCode_NoError\<rparr>)"

text \<open>The codes after \<^verbatim>\<open>ErrorCode_MemAllocError\<close> are numbered on.\<close>

definition error_texts :: "(u32 \<times> string) list" where
  "error_texts = (ErrorCode_NoError, ''No error'') # zip (map (\<lambda>i. ErrorCode_MemAllocError + of_nat i) [0..<25])
     [''Memory allocation error'', ''Formatting error'', ''Size overflow'', ''Wrong IP address format'',
      ''Json: unexpected character'', ''Json: expected a key'', ''Json: expected colon'',
      ''Regex: unexpected character'', ''Regex: invalid character range'', ''Regex: unexpected end of expression'',
      ''Regex: mismatched parentheses'', ''Regex: invalid operator'', ''Regex: invalid token'',
      ''Regex: unexpected tokens'', ''Regex: unknown op code'', ''HTTP: invalid request'', ''DNS: cant find host'',
      ''HTTP: context is not alive'', ''CLI: malformed argument'', ''CLI: unknown argument'',
      ''CLI: invalid argument type'', ''CLI: invalid argument action'', ''CLI: too many positional args'',
      ''CLI: missing positional args'', ''CLI: missing required arg'']"

definition error_str :: "u32 \<Rightarrow> string" where
  "error_str code = (case map_of error_texts code of None \<Rightarrow> ''Unknown error'' | Some t \<Rightarrow> t)"

definition error_str_get_last :: "error_state \<Rightarrow> string \<times> error_state" where
  "error_str_get_last s = (let (code, s) = error_get_last s in (error_str code, s))"

definition error_context_str :: "error_state \<Rightarrow> bytes option" where
  "error_context_str s = (if es_context_sz s = 0 then None else Some (es_context s))"

text \<open>The shape of the error state, which every operation keeps.\<close>

definition error_ok :: "error_state \<Rightarrow> bool" where
  "error_ok s \<longleftrightarrow> es_context_cap s = 255 \<and> length (es_context s) = 256 \<and> es_context_sz s \<le> 255"

text \<open>
  A context is kept up to 255 bytes and read back as a terminated string, whatever context was set
  before; the shape of the state is kept, and the last error stays what it was.
\<close>

theorem error_context_kept:
  assumes "error_ok s" and "c \<noteq> []" and "0 \<notin> set c"
  shows "\<exists>s' blk. error_set_context (c @ 0 # post) 0 s = Inr s' \<and> error_ok s' \<and> es_current s' = es_current s \<and>
           error_context_str s' = Some blk \<and> block_str blk = take 255 c"
proof -
  let ?n = "if length c > 255 then 255 else length c"
  have n: "take ?n (c @ 0 # post) = take 255 c" by simp
  have len: "strlen_at (c @ 0 # post) 0 = Inr (length c)"
    using strlen_at_ok [OF assms(3), of "[]" post] by simp
  have k: "length (take 255 c) < 256" by simp
  have nz: "0 \<notin> set (take 255 c)" using assms(3) by (meson in_set_takeD)
  let ?blk = "take 255 c @ calloc_blk (256 - length (take 255 c))"
  have blk: "block_str ?blk = take 255 c"
  proof -
    obtain m where m: "256 - length (take 255 c) = Suc m" using k by (metis Suc_diff_Suc minus_nat.diff_0 Suc_diff_le less_Suc_eq_le zero_less_diff gr0_conv_Suc)
    have "takeWhile (\<lambda>x. x \<noteq> 0) (take 255 c @ 0 # calloc_blk m) = take 255 c"
      by (subst takeWhile_append2) (use nz in auto)
    moreover have "calloc_blk (256 - length (take 255 c)) = 0 # calloc_blk m"
      by (simp only: m calloc_blk_def replicate_Suc)
    ultimately show ?thesis by (simp only: block_str_def)
  qed
  have "error_set_context (c @ 0 # post) 0 s = Inr (s\<lparr>es_context := ?blk, es_context_sz := ?n\<rparr>)"
    using assms(1) n len by (simp add: error_set_context_def error_ok_def blk_write_def blk_read_def calloc_blk_def Let_def)
  moreover have "error_ok (s\<lparr>es_context := ?blk, es_context_sz := ?n\<rparr>)"
    using assms(1) by (simp add: error_ok_def)
  moreover have "?n \<noteq> 0" using assms(2) by simp
  ultimately show ?thesis using blk by (simp add: error_context_str_def del: length_take)
qed

lemma error_codes: "k \<in> fst ` set error_texts \<Longrightarrow> k = 0 \<or> 268435455 \<le> k"
proof -
  have "list_all (\<lambda>k. k = 0 \<or> 268435455 \<le> k) (map fst error_texts)" by code_simp
  then show "k \<in> fst ` set error_texts \<Longrightarrow> k = 0 \<or> 268435455 \<le> k" by (auto simp: list_all_iff)
qed

text \<open>
  The texts tell the codes of the library apart, and the codes of the operating systems, which go from 1
  to 15999, are unknown.
\<close>

theorem error_str_tells_apart:
  "distinct (map (error_str \<circ> fst) error_texts) \<and> error_str (1 + of_nat (n mod 15999)) = ''Unknown error''"
proof
  show "distinct (map (error_str \<circ> fst) error_texts)" by code_simp
  let ?c = "1 + of_nat (n mod 15999) :: u32"
  have m: "n mod 15999 < 15999" by simp
  have "unat ?c = 1 + n mod 15999"
    using m by (simp add: unat_add_no_wrap unat_of_nat take_bit_nat_eq_self)
  then have "?c \<noteq> 0" "\<not> 268435455 \<le> ?c"
    using m by (simp_all only: word_le_nat_alt word_unat_eq_iff) simp_all
  then have "?c \<notin> fst ` set error_texts"
    using error_codes by blast
  then show "error_str ?c = ''Unknown error''"
    by (simp add: error_str_def map_of_eq_None_iff [THEN iffD2])
qed

subsection \<open>Vectorization mode\<close>

definition VectorizationMode_Scalar :: nat where "VectorizationMode_Scalar = 0"
definition VectorizationMode_SSE :: nat where "VectorizationMode_SSE = 1"
definition VectorizationMode_AVX :: nat where "VectorizationMode_AVX = 2"
definition VectorizationMode_AVX2 :: nat where "VectorizationMode_AVX2 = 3"
definition VectorizationMode_AVX512 :: nat where "VectorizationMode_AVX512 = 4"

text \<open>
  The environment variable, when it is set, and the third and fourth register of \<^verbatim>\<open>cpuid(1)\<close>; the mode
  that is kept where the code returns early.
\<close>

definition simd_check_vectorization :: "bytes option \<Rightarrow> u32 \<Rightarrow> u32 \<Rightarrow> nat \<Rightarrow> nat" where
  "simd_check_vectorization env_val regs2 regs3 mode =
     (case env_val of
        Some v \<Rightarrow>
          if v = cstr ''0'' then mode
          else if v = cstr ''1'' then VectorizationMode_SSE
          else if v = cstr ''2'' then VectorizationMode_AVX
          else mode
      | None \<Rightarrow>
          if regs2 AND push_bit 28 1 \<noteq> 0 then VectorizationMode_AVX
          else if regs3 AND push_bit 25 1 \<noteq> 0 then VectorizationMode_SSE
          else mode)"

definition simd_has_sse :: "nat \<Rightarrow> bool" where "simd_has_sse mode \<longleftrightarrow> mode \<ge> 1"
definition simd_has_avx :: "nat \<Rightarrow> bool" where "simd_has_avx mode \<longleftrightarrow> mode \<ge> 2"

definition simd_force_vectorization_mode :: "nat \<Rightarrow> nat \<Rightarrow> nat" where
  "simd_force_vectorization_mode mode _ = mode"

definition simd_get_vectorization_mode_as_string :: "nat \<Rightarrow> string" where
  "simd_get_vectorization_mode_as_string mode =
     (if mode = VectorizationMode_Scalar then ''Scalar'' else if mode = VectorizationMode_SSE then ''SSE''
      else if mode = VectorizationMode_AVX then ''AVX'' else if mode = VectorizationMode_AVX2 then ''AVX2''
      else if mode = VectorizationMode_AVX512 then ''AVX512'' else ''Unknown'')"

lemmas mode_defs = VectorizationMode_Scalar_def VectorizationMode_SSE_def VectorizationMode_AVX_def VectorizationMode_AVX2_def
  VectorizationMode_AVX512_def

lemma simd_check_vectorization_cases: "simd_check_vectorization env regs2 regs3 0 \<in> {0, 1, 2}"
  by (auto simp: simd_check_vectorization_def mode_defs split: option.split)

text \<open>
  The mode found when the library is loaded selects one of the three kernels of the matrix product,
  whatever the environment and the processor say; a mode forced by the user beyond AVX, which the
  enumeration offers, reads past the table.
\<close>

theorem simd_mode_selects_kernel:
  "matmul_funcs R (simd_check_vectorization env regs2 regs3 0) \<in> {Inr (matrixf_mul_scalar R), Inr (matrixf_mul_sse R), Inr (matrixf_mul_avx2 R)} \<and>
   matmul_funcs R (simd_force_vectorization_mode VectorizationMode_AVX2 mode) = Inl OutOfBounds \<and>
   matmul_funcs R (simd_force_vectorization_mode VectorizationMode_AVX512 mode) = Inl OutOfBounds"
  using simd_check_vectorization_cases [of env regs2 regs3]
  by (auto simp: matmul_funcs_def arr_read_def simd_force_vectorization_mode_def mode_defs)

end
