(* ===== verification/Sockets.thy ===== *)
theory Sockets
  imports CMem
begin

text \<open>
  The parts of \<^verbatim>\<open>src/socket.c\<close> that compute: the timeouts, the flags of a socket, and the results of
  name resolution. What the calls of the operating system deliver is a parameter.
\<close>

subsection \<open>Socket options\<close>

text \<open>The fields \<^verbatim>\<open>tv_sec\<close> and \<^verbatim>\<open>tv_usec\<close> of both timeouts.\<close>

definition socket_set_timeout :: "u32 \<Rightarrow> u32 \<times> u32" where
  "socket_set_timeout ms = (ms div 1000, (ms mod 1000) * 1000)"

definition O_NONBLOCK :: u32 where "O_NONBLOCK = 2048"

text \<open>The flags set, if any, from the flags of the socket.\<close>

definition socket_set_nonblocking :: "u32 \<Rightarrow> bool \<Rightarrow> u32 option" where
  "socket_set_nonblocking flags enable =
     (if flags = - 1 then None
      else if enable then Some (flags OR O_NONBLOCK)
      else Some (flags OR NOT O_NONBLOCK))"

text \<open>The timeout set is the one asked for, as a valid pair of seconds and microseconds.\<close>

theorem socket_set_timeout_exact:
  "unat (fst (socket_set_timeout ms)) * 10 ^ 6 + unat (snd (socket_set_timeout ms)) = unat ms * 1000 \<and>
   unat (snd (socket_set_timeout ms)) < 10 ^ 6"
proof -
  have m: "unat (ms mod 1000) = unat ms mod 1000" "unat (ms div 1000) = unat ms div 1000"
    by (simp_all add: unat_mod unat_div)
  have "unat (ms mod 1000) < 1000" by (simp add: m)
  then have "unat (ms mod 1000 * 1000) = (unat ms mod 1000) * 1000"
    by (subst unat_mult_no_wrap) (simp_all add: m)
  moreover have "unat ms div 1000 * 10 ^ 6 + unat ms mod 1000 * 1000 = unat ms * 1000"
  proof -
    have "unat ms * 1000 = (unat ms div 1000 * 1000 + unat ms mod 1000) * 1000" by simp
    then show ?thesis by (simp only: distrib_right) simp
  qed
  moreover have "unat ms mod 1000 < 1000" by simp
  ultimately show ?thesis by (simp add: socket_set_timeout_def m)
qed

text \<open>
  Making a socket blocking again asks for every flag but the one of non-blocking sockets, which stays as
  it is.
\<close>

theorem socket_blocking_sets_every_flag:
  assumes "flags \<noteq> - 1"
  shows "\<exists>f. socket_set_nonblocking flags False = Some f \<and> (\<forall>i<32. bit f i = (i = 11 \<longrightarrow> bit flags 11))"
proof -
  have b: "bit O_NONBLOCK i \<longleftrightarrow> i = 11" for i
  proof -
    have "O_NONBLOCK = 2 ^ 11" by (simp add: O_NONBLOCK_def)
    then show ?thesis unfolding \<open>O_NONBLOCK = 2 ^ 11\<close> bit_exp_iff by auto
  qed
  have "bit (flags OR NOT O_NONBLOCK) i = (i = 11 \<longrightarrow> bit flags 11)" if "i < 32" for i
    using that by (cases "i = 11") (simp_all only: bit_or_iff bit_not_iff b, simp_all)
  then show ?thesis
    using assms by (simp add: socket_set_nonblocking_def)
qed

theorem socket_blocking_sets_every_flag_witness:
  "\<exists>f. socket_set_nonblocking (O_NONBLOCK OR 2) False = Some f \<and> (\<forall>i<32. bit f i = (i = 11 \<longrightarrow> bit (O_NONBLOCK OR 2) 11))"
  by (rule socket_blocking_sets_every_flag) (simp add: O_NONBLOCK_def)

subsection \<open>Results of name resolution\<close>

definition sockaddr_storage_size :: nat where "sockaddr_storage_size = 128"

text \<open>The block of addresses and their number.\<close>

record dns_result =
  dr_addrs :: "bytes option"
  dr_count :: nat

definition socket_dns_result_init :: dns_result where
  "socket_dns_result_init = \<lparr>dr_addrs = None, dr_count = 0\<rparr>"

definition socket_dns_result_release :: "dns_result \<Rightarrow> dns_result" where
  "socket_dns_result_release res = res\<lparr>dr_addrs := None\<rparr>"

definition socket_dns_result_get_count :: "dns_result \<Rightarrow> nat" where
  "socket_dns_result_get_count res = dr_count res"

text \<open>The offset of an address in the block, or \<^verbatim>\<open>NULL\<close>.\<close>

definition socket_dns_result_get :: "dns_result \<Rightarrow> nat \<Rightarrow> nat option res" where
  "socket_dns_result_get res i =
     (if i \<ge> dr_count res then Inr None
      else case dr_addrs res of
        None \<Rightarrow> if i = 0 then Inr None else Inl NullDeref
      | Some _ \<Rightarrow> Inr (Some (i * sockaddr_storage_size)))"

text \<open>The list of addresses the system found, each with its size; the list is released in both cases.\<close>

fun copy_addrs :: "bytes list \<Rightarrow> nat \<Rightarrow> bytes \<Rightarrow> bytes res" where
  "copy_addrs [] i addrs = Inr addrs"
| "copy_addrs (a # as) i addrs = res_bind (blk_write addrs (i * sockaddr_storage_size) a) (copy_addrs as (i + 1))"

definition copy_addrinfo :: "bool \<Rightarrow> bytes list \<Rightarrow> dns_result \<Rightarrow> (bool \<times> dns_result) res" where
  "copy_addrinfo ok list res =
     (let count = length list in
      if \<not> ok then Inr (False, res)
      else res_bind (copy_addrs list 0 (calloc_blk (count * sockaddr_storage_size))) (\<lambda>addrs.
        Inr (True, res\<lparr>dr_addrs := Some addrs, dr_count := count\<rparr>)))"

text \<open>The answer of \<^verbatim>\<open>getaddrinfo\<close> is an error or a list.\<close>

definition resolve_dns_posix :: "bool \<Rightarrow> int + bytes list \<Rightarrow> dns_result \<Rightarrow> (bool \<times> dns_result) res" where
  "resolve_dns_posix ok answer res = (case answer of Inl err \<Rightarrow> Inr (False, res) | Inr list \<Rightarrow> copy_addrinfo ok list res)"

lemma copy_addrs_ok:
  assumes "\<forall>a\<in>set as. length a \<le> 128" and "length pre = i * 128"
  shows "copy_addrs as i (pre @ calloc_blk (length as * 128)) =
           Inr (pre @ concat (map (\<lambda>a. a @ calloc_blk (128 - length a)) as))"
  using assms
proof (induction as arbitrary: i pre)
  case (Cons a as)
  let ?a = "a @ calloc_blk (128 - length a)"
  have "blk_write (pre @ calloc_blk (length (a # as) * 128)) (i * 128) a = Inr ((pre @ ?a) @ calloc_blk (length as * 128))"
    using Cons.prems by (simp add: blk_write_def calloc_blk_def drop_replicate replicate_add [symmetric])
  moreover have "copy_addrs as (i + 1) ((pre @ ?a) @ calloc_blk (length as * 128)) =
      Inr ((pre @ ?a) @ concat (map (\<lambda>a. a @ calloc_blk (128 - length a)) as))"
    using Cons.prems by (intro Cons.IH) (auto simp: calloc_blk_def)
  ultimately show ?case by (simp add: sockaddr_storage_size_def)
qed (simp add: calloc_blk_def)

lemma read_padded:
  assumes "\<forall>a\<in>set as. length a \<le> 128" and "i < length as"
  shows "blk_read (concat (map (\<lambda>a. a @ calloc_blk (128 - length a)) as)) (i * 128) (length (as ! i)) = Inr (as ! i)"
  using assms
proof (induction as arbitrary: i)
  case (Cons a as)
  show ?case
  proof (cases i)
    case (Suc k)
    have "drop (128 + k * 128) (a @ calloc_blk (128 - length a) @ concat (map (\<lambda>a. a @ calloc_blk (128 - length a)) as)) =
        drop (k * 128) (concat (map (\<lambda>a. a @ calloc_blk (128 - length a)) as))"
      using Cons.prems by simp
    then show ?thesis
      using Cons.IH [of k] Cons.prems by (auto simp: Suc blk_read_def split: if_splits)
  qed (use Cons.prems in \<open>simp add: blk_read_def\<close>)
qed simp

text \<open>
  A resolved name yields each address found: the result counts them, and reading at the place of the
  \<open>i\<close>th gives that address; past the last there is \<^verbatim>\<open>NULL\<close>.
\<close>

theorem socket_dns_result_correct:
  assumes "\<forall>a\<in>set as. length a \<le> 128" and "i < length as"
  shows "\<exists>res' blk off. resolve_dns_posix True (Inr as) res = Inr (True, res') \<and> socket_dns_result_get_count res' = length as \<and>
           dr_addrs res' = Some blk \<and> socket_dns_result_get res' i = Inr (Some off) \<and> blk_read blk off (length (as ! i)) = Inr (as ! i) \<and>
           socket_dns_result_get res' (length as + k) = Inr None"
  using copy_addrs_ok [OF assms(1), of "[]" 0] read_padded [OF assms] assms(2)
  by (simp add: resolve_dns_posix_def copy_addrinfo_def socket_dns_result_get_def socket_dns_result_get_count_def sockaddr_storage_size_def Let_def)

theorem socket_dns_result_correct_witness:
  "\<exists>res' blk off. resolve_dns_posix True (Inr [[2, 0, 0, 80], [2, 0, 0, 81]]) socket_dns_result_init = Inr (True, res') \<and>
     socket_dns_result_get_count res' = length [[2, 0, 0, 80], [2, 0, 0, 81::u8]] \<and> dr_addrs res' = Some blk \<and> socket_dns_result_get res' 1 = Inr (Some off) \<and>
     blk_read blk off (length ([[2, 0, 0, 80], [2, 0, 0, 81::u8]] ! 1)) = Inr ([[2, 0, 0, 80], [2, 0, 0, 81]] ! 1) \<and>
     socket_dns_result_get res' (length [[2, 0, 0, 80], [2, 0, 0, 81::u8]] + 3) = Inr None"
  by (rule socket_dns_result_correct) simp_all

text \<open>
  The release forgets the addresses and keeps their number, so a released result still counts them and
  hands out places in a block that is gone.
\<close>

theorem socket_dns_release_keeps_count:
  "socket_dns_result_get_count (socket_dns_result_release res) = socket_dns_result_get_count res \<and>
   socket_dns_result_get (socket_dns_result_release \<lparr>dr_addrs = a, dr_count = n + 2\<rparr>) 1 = Inl NullDeref"
  by (simp add: socket_dns_result_get_count_def socket_dns_result_release_def socket_dns_result_get_def)

end
