(* ===== verification/FixedStack.thy ===== *)
theory FixedStack
  imports Prelude
begin

text \<open>
  The macros of \<^verbatim>\<open>include/libromano/stack_no_alloc.h\<close>: an array on the C stack with a pointer to its
  next free slot, both checked here. The slots start with whatever memory holds.
\<close>

record 'a stacknoa =
  sn_slots :: "'a list"
  sn_ptr :: nat

definition stacknoa_init :: "(nat \<Rightarrow> 'a) \<Rightarrow> nat \<Rightarrow> 'a stacknoa" where
  "stacknoa_init junk n = \<lparr>sn_slots = map junk [0..<n], sn_ptr = 0\<rparr>"

definition stacknoa_is_empty :: "'a stacknoa \<Rightarrow> bool" where
  "stacknoa_is_empty s \<longleftrightarrow> sn_ptr s = 0"

definition stacknoa_is_full :: "'a stacknoa \<Rightarrow> bool" where
  "stacknoa_is_full s \<longleftrightarrow> sn_ptr s \<ge> length (sn_slots s)"

definition stacknoa_push :: "'a stacknoa \<Rightarrow> 'a \<Rightarrow> 'a stacknoa res" where
  "stacknoa_push s v =
     (if sn_ptr s < length (sn_slots s) then Inr (s\<lparr>sn_slots := (sn_slots s)[sn_ptr s := v], sn_ptr := sn_ptr s + 1\<rparr>)
      else Inl OutOfBounds)"

definition stacknoa_pop :: "'a stacknoa \<Rightarrow> ('a \<times> 'a stacknoa) res" where
  "stacknoa_pop s = (if sn_ptr s = 0 then Inl OutOfBounds else Inr (sn_slots s ! (sn_ptr s - 1), s\<lparr>sn_ptr := sn_ptr s - 1\<rparr>))"

text \<open>The slot of the top, or \<^verbatim>\<open>NULL\<close>.\<close>

definition stacknoa_top :: "'a stacknoa \<Rightarrow> nat option" where
  "stacknoa_top s = (if stacknoa_is_empty s then None else Some (sn_ptr s - 1))"

text \<open>The elements, the top first.\<close>

definition stacknoa_list :: "'a stacknoa \<Rightarrow> 'a list" where
  "stacknoa_list s = rev (take (sn_ptr s) (sn_slots s))"

definition stacknoa_ok :: "'a stacknoa \<Rightarrow> bool" where
  "stacknoa_ok s \<longleftrightarrow> sn_ptr s \<le> length (sn_slots s)"

text \<open>
  The macros are a bounded stack: a push is defined exactly when the stack is not full and puts the
  element on top, a pop exactly when it is not empty and takes the top off, and the capacity stays.
\<close>

theorem stacknoa_bounded_stack:
  assumes "stacknoa_ok s"
  shows "(case stacknoa_push s v of
            Inl e \<Rightarrow> stacknoa_is_full s
          | Inr s' \<Rightarrow> \<not> stacknoa_is_full s \<and> stacknoa_list s' = v # stacknoa_list s \<and> length (sn_slots s') = length (sn_slots s) \<and> stacknoa_ok s') \<and>
         (case stacknoa_pop s of
            Inl e \<Rightarrow> stacknoa_list s = []
          | Inr (x, s') \<Rightarrow> stacknoa_list s = x # stacknoa_list s' \<and> sn_slots s' = sn_slots s \<and> stacknoa_ok s') \<and>
         (case stacknoa_top s of
            None \<Rightarrow> stacknoa_list s = []
          | Some i \<Rightarrow> hd (stacknoa_list s) = sn_slots s ! i) \<and>
         (stacknoa_is_full s \<longleftrightarrow> length (stacknoa_list s) = length (sn_slots s))"
proof (cases "sn_ptr s")
  case 0
  with assms show ?thesis
    by (auto simp: stacknoa_ok_def stacknoa_push_def stacknoa_is_full_def stacknoa_list_def stacknoa_pop_def stacknoa_top_def
      stacknoa_is_empty_def take_Suc_conv_app_nth Suc_le_eq)
next
  case (Suc k)
  with assms have k: "k < length (sn_slots s)" by (simp add: stacknoa_ok_def)
  then show ?thesis
    using assms by (auto simp: Suc stacknoa_ok_def stacknoa_push_def stacknoa_is_full_def stacknoa_list_def stacknoa_pop_def stacknoa_top_def
      stacknoa_is_empty_def take_Suc_conv_app_nth)
qed

theorem stacknoa_bounded_stack_witness:
  "(case stacknoa_push (stacknoa_init (\<lambda>i. i) 1) (7 :: nat) of
      Inl e \<Rightarrow> stacknoa_is_full (stacknoa_init (\<lambda>i. i) 1)
    | Inr s' \<Rightarrow> \<not> stacknoa_is_full (stacknoa_init (\<lambda>i. i) 1) \<and> stacknoa_list s' = 7 # stacknoa_list (stacknoa_init (\<lambda>i. i) 1) \<and>
        length (sn_slots s') = length (sn_slots (stacknoa_init (\<lambda>i. i) 1)) \<and> stacknoa_ok s')"
  using stacknoa_bounded_stack [of "stacknoa_init (\<lambda>i. i) 1" 7] by (simp add: stacknoa_ok_def stacknoa_init_def)

end
