(* ===== verification/Spec2Isabelle.thy ===== *)
theory Spec2Isabelle
  imports HashMapDict Base64 Fmt Arena JsonApi RomString Stack Buffer RegexSpec CliProps StrView HttpSpec ThreadPoolSpec LinalgSpec StatsSpec Int128 FilesystemSpec ServerSpec Logger Runtime Sockets FixedStack
begin

text \<open>
  A verification library for libromano, a C library of containers, strings, parsers and system
  utilities. File names are relative to the root of the repository: \<^verbatim>\<open>src/x.c\<close> is a source file,
  \<^verbatim>\<open>include/libromano/x.h\<close> its header.

  \<^bold>\<open>The program.\<close> Containers (\<^verbatim>\<open>hashmap.c\<close>, \<^verbatim>\<open>vector.c\<close>, \<^verbatim>\<open>stack.c\<close>, \<^verbatim>\<open>buffer.c\<close>,
  \<^verbatim>\<open>arena.c\<close>, \<^verbatim>\<open>string.c\<close>) work on blocks of the C heap. The hash map hashes its keys with
  \<^verbatim>\<open>hash.c\<close> and draws its hash key from \<^verbatim>\<open>random.c\<close>; its capacity is rounded by \<^verbatim>\<open>bit.h\<close>. The
  JSON library (\<^verbatim>\<open>json.c\<close>) keeps its values in an arena, formats numbers with \<^verbatim>\<open>fmt.c\<close> and prints
  into a growing buffer. The command line parser (\<^verbatim>\<open>cli.c\<close>) is a client of the hash map and the
  vector; the HTTP client (\<^verbatim>\<open>http.c\<close>) of the buffer and the arena. The regular expressions (\<^verbatim>\<open>regex.c\<close>) are a
  lexer, a code generator and a machine. \<^verbatim>\<open>base64.c\<close>, \<^verbatim>\<open>strview.c\<close> and \<^verbatim>\<open>string_algo.c\<close> stand alone.
  The thread pool (\<^verbatim>\<open>thread.c\<close>) runs works of its clients on workers that steal from each other's queues;
  the socket server (\<^verbatim>\<open>socket_server.c\<close>, over \<^verbatim>\<open>socket.c\<close>) is a thread that hands requests to callbacks. The
  matrices (\<^verbatim>\<open>math_linalg32.c\<close>) and statistics (\<^verbatim>\<open>math_stats32.c\<close>) choose among scalar and vector kernels
  by the mode \<^verbatim>\<open>simd.c\<close> finds. \<^verbatim>\<open>filesystem.c\<close> reads files and walks directories, with the vector as its
  queue. \<^verbatim>\<open>logger.c\<close> and \<^verbatim>\<open>error.c\<close> keep global state, \<^verbatim>\<open>int128.h\<close> and \<^verbatim>\<open>stack_no_alloc.h\<close> are headers of
  their own.

  \<^bold>\<open>Conventions.\<close> A C struct is a record with its fields, an enum a datatype, an integer a word of its
  width (a size that provably does not wrap around is a natural number). A heap block is the list of
  its bytes, a pointer into it an offset, a linked structure a list or a map of cells addressed by
  numbers. \<open>'a res\<close> is the outcome of code that can run into undefined behaviour (\<open>Inl\<close> names
  it), \<open>'a run\<close> the outcome of code that may also not return (\<open>None\<close>); both are defined in
  Prelude. An operation that can fail to allocate takes the success of \<^verbatim>\<open>malloc\<close> as an argument
  (usually \<open>ok\<close>) and the content of fresh memory as another (\<open>junk\<close>). Assertions are off, as in
  a release build.

  \<^bold>\<open>Shared theories.\<close>
  \<^item> Prelude: word types, outcomes, lemma collections, generic lemmas on words and lists.
  \<^item> CMem: heap blocks and \<^verbatim>\<open>memcpy\<close>, \<^verbatim>\<open>memmove\<close>, \<^verbatim>\<open>memset\<close>, \<^verbatim>\<open>realloc\<close> on them, bounds-checked.
  \<^item> CType: strings in memory, character classes, \<^verbatim>\<open>strlen\<close>, \<^verbatim>\<open>strtoll\<close>, \<^verbatim>\<open>atoi\<close>.
  \<^item> Dictionary: the locales that state what a client may assume of a finite map, with the lemmas on
    series of insertions and removals; HashMapDict interprets them on the model of \<^verbatim>\<open>hashmap.c\<close>.

  \<^bold>\<open>Theories of the components.\<close>
  \<^item> Bits (\<^verbatim>\<open>include/libromano/bit.h\<close>, the byte swap of \<^verbatim>\<open>memory.h\<close>): each bit trick against its
    arithmetic meaning.
  \<^item> Hash (\<^verbatim>\<open>hash.c\<close>, \<^verbatim>\<open>random.c\<close>): FNV-1a, its pippip variant and murmur3 with aligned and unaligned
    block loops, which agree; the integer generators, the additive one with full period.
  \<^item> Base64 (\<^verbatim>\<open>base64.c\<close>): every buffer and table access checked; the encoder computes the published
    encoding and the decoder inverts it.
  \<^item> Bucket, HashMap, RobinHood, HashMapSpec, HashMapDict (\<^verbatim>\<open>hashmap.c\<close>): buckets with interned keys
    and inline values; probing, growth, backward shift, iteration; the Robin Hood order as an
    invariant of the bucket array; each operation against a finite map. A growing map is
    rehashed by the insertion loop itself; the theorems hold as long as there is room for the entries
    (fewer than \<open>2 ^ 32\<close> buckets for the iterator, whose index has 32 bits), and for keys of size 1 or
    more. HashMapClean shows what a lookup with size 0 finds.
  \<^item> Fmt (\<^verbatim>\<open>fmt.c\<close>): digit counts with their table, integers and doubles written into a checked buffer.
    The arithmetic of doubles is a parameter.
  \<^item> Arena (\<^verbatim>\<open>arena.c\<close>): allocations stay apart and intact as the arena grows.
  \<^item> JsonStore, JsonDoc, JsonApi (\<^verbatim>\<open>json.c\<close>, values): tagged values with packed sizes, arrays and
    dictionaries as linked lists in a typed store, against trees.
  \<^item> JsonParser, JsonSound, JsonGrammar: the recursive-descent parser against the grammar of JSON;
    the recursion carries fuel, and \<open>2 * n + 1\<close> for a text of \<open>n\<close> bytes always suffices, so the
    parser is total.
  \<^item> JsonWriter, JsonPrint: the printer with its growing buffer; the fuel is the size of the tree.
    The round trip is about documents that the parser reads back: no floating-point numbers, whose
    text depends on the arithmetic of the processor, integers within 63 bits, strings below 128 KiB
    without control characters other than the five escaped ones that are read back.
  \<^item> RomString (\<^verbatim>\<open>string.c\<close>), Vector (\<^verbatim>\<open>vector.c\<close>), Stack (\<^verbatim>\<open>stack.c\<close>), Buffer (\<^verbatim>\<open>buffer.c\<close>): each on its
    heap block with its header fields, against a list. Growth factors are computed in exact integer
    arithmetic from the float constants, for sizes that a double or float holds exactly.
  \<^item> Regex, RegexSpec (\<^verbatim>\<open>regex.c\<close>): tokens, opcodes, jump patching, the matching machine; sequences
    of quantified atoms match greedily. The generator has fuel \<open>4 * n + 4\<close> for \<open>n\<close> tokens; jumps are
    exact for code below 256 bytes.
  \<^item> Cli, CliSpec, CliProps (\<^verbatim>\<open>cli.c\<close>): arguments in an explicit heap, two hash maps and a vector of
    pointers to them; the parser against two finite maps and a list, for fewer than 63 arguments. The
    union of an argument has one constructor for each member, and a read of another member than the
    one written last is an error; the getters are characterised exactly, with the arguments whose
    action writes another member than their type.
  \<^item> StrView (\<^verbatim>\<open>strview.c\<close>, \<^verbatim>\<open>string_algo.c\<close>): views over checked memory, splitting and searching.
  \<^item> Http, HttpSpec (\<^verbatim>\<open>http.c\<close>): header lists whose entries and strings are pushed to the two arenas of a
    header (keys and values of 2048 bytes or more overflow), the text of a request, the response
    parser (each header line takes at least two bytes, so the size of the text is enough fuel) and an
    exchange over a socket given by its pieces.
  \<^item> ThreadPool, ThreadPoolSpec (\<^verbatim>\<open>thread.c\<close>, the pool): a system of interleaving steps of workers, clients
    and the owner; an atomic operation or a call of the queue is one step, and works are cells of a store.
    The concurrent queue of the third-party package is a parameter with its laws as hypotheses. Safety
    and the life of each work are invariants of the reachable states. The counters have 32 bits: the
    theorems are about fewer than \<open>2 ^ 32\<close> workers and, for waiters, fewer works in the store at a time.
  \<^item> FloatOps, Linalg, LinalgSpec (\<^verbatim>\<open>math_linalg32.c\<close>, \<^verbatim>\<open>simd.h\<close>) and Stats, StatsSpec (\<^verbatim>\<open>math_stats32.c\<close>):
    the code over an arbitrary arithmetic of floats with checked arrays. There is no theory of
    floating-point numbers here, so that what the kernels compute is stated for exact arithmetic:
    the vector kernels agree with the scalar ones, and these with products, sums and moments.
  \<^item> Int128 (\<^verbatim>\<open>int128.h\<close>): the implementation on SSE registers against the one on 128-bit words.
  \<^item> Filesystem, FilesystemSpec (\<^verbatim>\<open>filesystem.c\<close>, for Linux): the operating system is a record of functions
    on a state of the world. The walk keeps its paths in an explicit heap and its queue in the model of
    the vector. What it reports is a relation with its early stops; on trees where nothing stops it, that
    is the breadth-first listing, defined level by level from the directories alone. A client
    that asks once more than there are entries sees the end. Paths have at most 510 bytes.
  \<^item> Server, ServerSpec (\<^verbatim>\<open>socket_server.c\<close>): the steps of the server's thread and of its owner; the network
    is what each call delivers. A critical section under the mutex is one step.
  \<^item> Logger (\<^verbatim>\<open>logger.c\<close>): calls one after the other under the lock, against the lines to be written.
  \<^item> Runtime (\<^verbatim>\<open>error.c\<close>, \<^verbatim>\<open>simd.c\<close>), Sockets (\<^verbatim>\<open>socket.c\<close>), FixedStack (\<^verbatim>\<open>stack_no_alloc.h\<close>): the last error
    and its context, the vectorization mode and the kernels it selects, timeouts, flags and resolved
    addresses, stacks in arrays.

  \<^bold>\<open>What the lemmas show.\<close> For each component: an invariant of its state that every operation keeps; the
  result of every operation on the abstract state, error branches included; absence of undefined
  behaviour where the code has none, and the exact condition where it has. Behaviours that
  contradict the documentation or the evident intention are theorems as well, on concrete inputs.

  \<^bold>\<open>Not modelled.\<close> Functions that only forward to the operating system or to the allocator (most of
  \<^verbatim>\<open>socket.c\<close>, mutexes and condition variables of \<^verbatim>\<open>thread.c\<close>, clocks, stack traces, library loading,
  OpenCL, the debug allocator), the branches for Windows, macOS and ARM, the queries of \<^verbatim>\<open>cpu.c\<close>, the rounding
  of floating-point arithmetic, the float generators of \<^verbatim>\<open>random.h\<close>,
  the debug printers of \<^verbatim>\<open>regex.c\<close> and \<^verbatim>\<open>math_linalg32.c\<close>, \<^verbatim>\<open>json_loadf\<close>, \<^verbatim>\<open>json_dumpf\<close> and
  \<^verbatim>\<open>strview_parse_double\<close>: they hold no state of their own or rest on code and devices outside the
  repository. Of a file, a socket or a clock the models see what the calls deliver.
\<close>

end
